(* ===== verification/Prelude.thy ===== *)
theory Prelude
  imports Main "HOL-Library.Word" "HOL-Library.Signed_Division"
begin

text \<open>
  Shared vocabulary of the development: the machine integers of the 32-bit target
  (\<^verbatim>\<open>rt_uint8_t\<close>, \<^verbatim>\<open>rt_uint16_t\<close>, \<^verbatim>\<open>rt_uint32_t\<close> of
  \<^verbatim>\<open>include/rtdef.h\<close>), the error numbers of the kernel, the result type of an
  operation that may block, the memory-copy primitive on byte lists, and the generic
  lemmas on lists, ring indices and words that the component theories use.
\<close>

section \<open>Machine integers and error numbers\<close>

type_synonym u8 = "8 word"
type_synonym u16 = "16 word"
type_synonym u32 = "32 word"

text \<open>Error numbers of \<^verbatim>\<open>include/rtdef.h\<close>; functions return them negated.\<close>

abbreviation (input) RT_EOK :: int where "RT_EOK \<equiv> 0"
abbreviation (input) RT_ERROR :: int where "RT_ERROR \<equiv> 1"
abbreviation (input) RT_ETIMEOUT :: int where "RT_ETIMEOUT \<equiv> 2"
abbreviation (input) RT_EFULL :: int where "RT_EFULL \<equiv> 3"
abbreviation (input) RT_EEMPTY :: int where "RT_EEMPTY \<equiv> 4"

text \<open>
  A kernel call either returns, or parks the calling thread in \<^verbatim>\<open>rt_schedule\<close>
  with the local variables it needs once the thread runs again.
\<close>

datatype ('v, 'c) outcome = Return 'v | Blocked 'c

section \<open>Collections of lemmas\<close>

named_theorems ring_simps "index arithmetic of ring buffers"
named_theorems kframe "which fields an operation of the kernel leaves alone"

section \<open>Alignment\<close>

text \<open>\<^verbatim>\<open>RT_ALIGN\<close> and \<^verbatim>\<open>RT_ALIGN_DOWN\<close> for a power-of-two alignment.\<close>

definition RT_ALIGN :: "nat \<Rightarrow> nat \<Rightarrow> nat" where
  "RT_ALIGN n a = (n + a - 1) div a * a"

definition RT_ALIGN_DOWN :: "nat \<Rightarrow> nat \<Rightarrow> nat" where
  "RT_ALIGN_DOWN n a = n div a * a"

lemma RT_ALIGN_DOWN_le: "RT_ALIGN_DOWN n a \<le> n"
  by (simp add: RT_ALIGN_DOWN_def)

lemma RT_ALIGN_ge: "0 < a \<Longrightarrow> n \<le> RT_ALIGN n a"
proof -
  assume a: "0 < a"
  have "n + a - 1 = (n + a - 1) div a * a + (n + a - 1) mod a"
    by simp
  moreover have "(n + a - 1) mod a \<le> a - 1"
    using a by (simp add: less_Suc_eq_le [symmetric])
  ultimately show ?thesis
    unfolding RT_ALIGN_def using a by linarith
qed

section \<open>Memory copies\<close>

text \<open>\<open>memcpy_at buf off src n\<close>: copy the first \<open>n\<close> elements of \<open>src\<close> to offset \<open>off\<close>.\<close>

definition memcpy_at :: "'a list \<Rightarrow> nat \<Rightarrow> 'a list \<Rightarrow> nat \<Rightarrow> 'a list" where
  "memcpy_at buf off src n = take off buf @ take n src @ drop (off + n) buf"

lemma length_memcpy_at [simp]:
  "off + n \<le> length buf \<Longrightarrow> n \<le> length src \<Longrightarrow> length (memcpy_at buf off src n) = length buf"
  by (auto simp: memcpy_at_def min_def)

lemma nth_memcpy_at:
  assumes "off + n \<le> length buf" and "n \<le> length src" and "i < length buf"
  shows "memcpy_at buf off src n ! i =
    (if off \<le> i \<and> i < off + n then src ! (i - off) else buf ! i)"
  using assms by (auto simp: memcpy_at_def nth_append min_def)

lemma memcpy_at_0 [simp]: "memcpy_at buf off src 0 = buf"
  by (simp add: memcpy_at_def)

section \<open>Ring indices\<close>

lemma mod_ring [ring_simps]: "a < n \<Longrightarrow> i < n \<Longrightarrow> (a + i) mod n = (if a + i < n then a + i else a + i - n)"
  for a i n :: nat
  by (simp add: mod_if)

text \<open>The \<open>n\<close> elements of a ring from index \<open>out\<close>.\<close>

definition ring_items :: "'a list \<Rightarrow> nat \<Rightarrow> nat \<Rightarrow> 'a list" where
  "ring_items pool out n = map (\<lambda>i. pool ! ((out + i) mod length pool)) [0..<n]"

lemma length_ring_items [simp]: "length (ring_items pool out n) = n"
  by (simp add: ring_items_def)

lemma ring_items_0 [simp]: "ring_items pool out 0 = []"
  by (simp add: ring_items_def)

lemma ring_items_put:
  assumes "out < length pool" "n < length pool"
  shows "ring_items (pool[(out + n) mod length pool := v]) out (Suc n) = ring_items pool out n @ [v]"
proof -
  have "(out + n) mod length pool \<noteq> (out + i) mod length pool" if "i < n" for i
    using assms that by (simp add: mod_ring) arith
  moreover have "(out + n) mod length pool < length pool"
    using assms by (intro mod_less_divisor) auto
  ultimately show ?thesis
    by (auto simp: ring_items_def)
qed

lemma ring_items_get:
  assumes "out < length pool" "0 < n"
  shows "ring_items pool out n = pool ! out # ring_items pool (Suc out mod length pool) (n - 1)"
proof (rule nth_equalityI)
  fix i assume "i < length (ring_items pool out n)"
  then show "ring_items pool out n ! i = (pool ! out # ring_items pool (Suc out mod length pool) (n - 1)) ! i"
    using assms by (cases i) (simp_all add: ring_items_def mod_simps)
qed (use assms in simp)

text \<open>Stepping an index of a ring.\<close>

lemma ring_step: "i < n \<Longrightarrow> n < 65536 \<Longrightarrow>
  (let j = (i + 1) mod 65536 in if n \<le> j then 0 else j) = Suc i mod n"
  by (cases "Suc i = n") (simp_all add: Let_def)

section \<open>Truncating division\<close>

lemma int_sdiv: "int a sdiv int b = int (a div b)"
  by (cases "a = 0"; cases "b = 0") (simp_all add: signed_divide_int_def zdiv_int)

section \<open>Removing an element from a list\<close>

lemma filter_neq_id [simp]: "x \<notin> set xs \<Longrightarrow> filter (\<lambda>y. y \<noteq> x) xs = xs"
  by (induction xs) auto

lemma filter_neq_hd: "distinct (x # xs) \<Longrightarrow> filter (\<lambda>y. y \<noteq> x) (x # xs) = xs"
  by simp

end
