(* ===== verification/CString.thy ===== *)
theory CString
  imports Prelude
begin

text \<open>
  The string and memory routines of \<^verbatim>\<open>src/kservice.c\<close> that the kernel uses for
  object names, command arguments and buffers. A C string is the list of its characters up
  to the end of the list, where the terminating zero is read; a character is unsigned, as on
  the ARM target. The routines over raw memory work on a memory that maps addresses to bytes.
\<close>

section \<open>Strings\<close>

abbreviation NUL :: char where "NUL \<equiv> CHR 0x00"

definition deref :: "string \<Rightarrow> char" where
  "deref s = (case s of [] \<Rightarrow> NUL | c # _ \<Rightarrow> c)"

lemma deref_simps [simp]: "deref [] = NUL" "deref (c # s) = c"
  by (simp_all add: deref_def)

lemma deref_tl [termination_simp]: "deref s \<noteq> NUL \<Longrightarrow> length s - Suc 0 < length s"
  by (cases s) auto

lemma of_char_bounds: "0 \<le> (of_char c :: int) \<and> (of_char c :: int) < 256"
  using pos_mod_bound [of 256 "of_char c :: int"] pos_mod_sign [of 256 "of_char c :: int"]
  by (simp_all only: of_char_mod_256)

definition char_diff :: "char \<Rightarrow> char \<Rightarrow> int" where
  "char_diff a b = of_char a - of_char b"

fun rt_strlen :: "string \<Rightarrow> nat" where
  "rt_strlen s = (if deref s \<noteq> NUL then Suc (rt_strlen (tl s)) else 0)"

fun rt_strnlen :: "string \<Rightarrow> nat \<Rightarrow> nat" where
  "rt_strnlen s maxlen =
    (if deref s \<noteq> NUL \<and> 0 < maxlen then Suc (rt_strnlen (tl s) (maxlen - 1)) else 0)"

fun rt_strcmp :: "string \<Rightarrow> string \<Rightarrow> int" where
  "rt_strcmp cs ct =
    (if deref cs \<noteq> NUL \<and> deref cs = deref ct then rt_strcmp (tl cs) (tl ct)
     else char_diff (deref cs) (deref ct))"

text \<open>\<^verbatim>\<open>__res\<close> is a signed char: the difference is cut to eight bits.\<close>

fun rt_strncmp :: "string \<Rightarrow> string \<Rightarrow> nat \<Rightarrow> int" where
  "rt_strncmp cs ct 0 = 0"
| "rt_strncmp cs ct (Suc count) =
    (let res = sint (word_of_int (char_diff (deref cs) (deref ct)) :: 8 word)
     in if res \<noteq> 0 \<or> deref cs = NUL then res else rt_strncmp (tl cs) (tl ct) count)"

text \<open>The \<open>n\<close> characters that \<^verbatim>\<open>rt_strncpy\<close> writes.\<close>

fun rt_strncpy :: "string \<Rightarrow> nat \<Rightarrow> string" where
  "rt_strncpy src 0 = []"
| "rt_strncpy src (Suc n) =
    (if deref src = NUL then NUL # replicate n NUL else deref src # rt_strncpy (tl src) n)"

definition to_lower :: "char \<Rightarrow> int" where
  "to_lower c = (let ca = of_char c in if 65 \<le> ca \<and> ca \<le> 90 then ca + 32 else ca)"

lemma to_lower_tl [termination_simp]: "0 < to_lower (deref s) \<Longrightarrow> length s - Suc 0 < length s"
  by (cases s) (auto simp: to_lower_def)

lemma to_lower_ge0 [termination_simp]: "0 \<le> to_lower c"
  using of_char_bounds [of c] by (simp add: to_lower_def Let_def)

fun rt_strcasecmp :: "string \<Rightarrow> string \<Rightarrow> int" where
  "rt_strcasecmp a b =
    (if to_lower (deref a) = to_lower (deref b) \<and> 0 < to_lower (deref a)
     then rt_strcasecmp (tl a) (tl b)
     else to_lower (deref a) - to_lower (deref b))"

declare rt_strlen.simps [simp del] rt_strnlen.simps [simp del] rt_strcmp.simps [simp del]
  rt_strcasecmp.simps [simp del]

lemma rt_strlen_simps [simp]:
  "rt_strlen [] = 0" "rt_strlen (c # s) = (if c \<noteq> NUL then Suc (rt_strlen s) else 0)"
  by (subst rt_strlen.simps; simp)+

lemma rt_strnlen_simps [simp]:
  "rt_strnlen [] n = 0"
  "rt_strnlen (c # s) n = (if c \<noteq> NUL \<and> 0 < n then Suc (rt_strnlen s (n - 1)) else 0)"
  by (subst rt_strnlen.simps; simp)+

lemma rt_strcmp_simps [simp]:
  "rt_strcmp [] t = char_diff NUL (deref t)"
  "rt_strcmp (c # s) t = (if c \<noteq> NUL \<and> c = deref t then rt_strcmp s (tl t) else char_diff c (deref t))"
  by (subst rt_strcmp.simps; simp)+

section \<open>What the string routines compute\<close>

definition c_string :: "string \<Rightarrow> bool" where
  "c_string s \<longleftrightarrow> NUL \<notin> set s"

lemma c_string_simps [simp]: "c_string []" "c_string (c # s) \<longleftrightarrow> c \<noteq> NUL \<and> c_string s"
  by (auto simp: c_string_def)

lemma of_char_inj: "(of_char a :: int) = of_char b \<longleftrightarrow> a = b"
  by simp

lemma char_diff_0 [simp]: "char_diff a b = 0 \<longleftrightarrow> a = b"
  by (simp add: char_diff_def)

lemma rt_strlen_length: "c_string s \<Longrightarrow> rt_strlen s = length s"
  by (induction s) simp_all

lemma rt_strnlen_min: "c_string s \<Longrightarrow> rt_strnlen s n = min (length s) n"
  by (induction s arbitrary: n) (auto simp: min_def)

lemma rt_strcmp_eq: "c_string s \<Longrightarrow> c_string t \<Longrightarrow> rt_strcmp s t = 0 \<longleftrightarrow> s = t"
proof (induction s arbitrary: t)
  case Nil
  then show ?case by (cases t) (auto)
next
  case (Cons a s)
  then show ?case by (cases t) (auto)
qed

lemma sint_char_diff: "sint (word_of_int (char_diff a b) :: 8 word) = 0 \<longleftrightarrow> a = b"
proof
  assume "sint (word_of_int (char_diff a b) :: 8 word) = 0"
  then have "(word_of_int (char_diff a b) :: 8 word) = 0" by (simp only: signed_eq_0_iff)
  then have "char_diff a b mod 256 = 0"
    by (simp only: word_of_int_eq_0_iff) (simp add: mod_0_imp_dvd dvd_imp_mod_0)
  moreover have "\<bar>char_diff a b\<bar> < 256"
    using of_char_bounds [of a] of_char_bounds [of b] by (auto simp: char_diff_def)
  ultimately have "char_diff a b = 0" by presburger
  then show "a = b" by simp
qed (simp add: char_diff_def)

lemma rt_strncmp_eq:
  "c_string s \<Longrightarrow> c_string t \<Longrightarrow> rt_strncmp s t n = 0 \<longleftrightarrow> take n s = take n t"
proof (induction n arbitrary: s t)
  case 0
  then show ?case by simp
next
  case (Suc n)
  show ?case
  proof (cases s; cases t)
    fix a s' b t' assume "s = a # s'" "t = b # t'"
    then show ?thesis
      using Suc sint_char_diff [of a b] by (cases "a = b") (auto simp: Let_def)
  next
    fix b t' assume "s = []" "t = b # t'"
    then show ?thesis
      using Suc.prems sint_char_diff [of NUL b] by (auto simp: Let_def)
  next
    fix a s' assume "s = a # s'" "t = []"
    then show ?thesis
      using Suc.prems sint_char_diff [of a NUL] by (auto simp: Let_def)
  next
    assume "s = []" "t = []"
    then show ?thesis using sint_char_diff [of NUL NUL] by (simp add: Let_def)
  qed
qed

lemma rt_strncpy_pad: "c_string s \<Longrightarrow> rt_strncpy s n = take n s @ replicate (n - length s) NUL"
proof (induction n arbitrary: s)
  case (Suc n)
  then show ?case by (cases s) auto
qed simp

text \<open>A copied name compares equal to exactly the names with the same first \<open>n\<close> characters.\<close>

lemma strncmp_pad:
  "c_string s \<Longrightarrow> c_string t \<Longrightarrow> length s \<le> n \<Longrightarrow>
   rt_strncmp (s @ replicate (n - length s) NUL) t n = 0 \<longleftrightarrow> s = take n t"
proof (induction n arbitrary: s t)
  case 0
  then show ?case by simp
next
  case (Suc n)
  show ?case
  proof (cases s; cases t)
    fix a s' b t' assume "s = a # s'" "t = b # t'"
    then show ?thesis
      using Suc sint_char_diff [of a b] by (cases "a = b") (auto simp: Let_def)
  next
    fix b t' assume "s = []" "t = b # t'"
    then show ?thesis
      using Suc.prems sint_char_diff [of NUL b] by (auto simp: Let_def)
  next
    fix a s' assume "s = a # s'" "t = []"
    then show ?thesis
      using Suc.prems sint_char_diff [of a NUL] by (auto simp: Let_def)
  next
    assume "s = []" "t = []"
    then show ?thesis using sint_char_diff [of NUL NUL] by (simp add: Let_def)
  qed
qed

lemma strncpy_strncmp:
  assumes "c_string s" "c_string t"
  shows "rt_strncmp (rt_strncpy s n) t n = 0 \<longleftrightarrow> take n s = take n t"
proof -
  have "c_string (take n s)" using assms(1) by (auto simp: c_string_def dest: in_set_takeD)
  then have "rt_strncmp (take n s @ replicate (n - length (take n s)) NUL) t n = 0 \<longleftrightarrow> take n s = take n t"
    using assms(2) by (intro strncmp_pad) auto
  then show ?thesis
    by (auto simp: rt_strncpy_pad [OF assms(1)] min_def split: if_splits)
qed

section \<open>Raw memory\<close>

type_synonym raw = "nat \<Rightarrow> u8"

text \<open>The byte loops of \<^verbatim>\<open>rt_memcpy\<close>, \<^verbatim>\<open>rt_memmove\<close> and \<^verbatim>\<open>rt_memset\<close>.\<close>

fun copy_up :: "nat \<Rightarrow> nat \<Rightarrow> nat \<Rightarrow> raw \<Rightarrow> raw" where
  "copy_up tmp s 0 m = m"
| "copy_up tmp s (Suc n) m = copy_up (tmp + 1) (s + 1) n (m(tmp := m s))"

fun copy_down :: "nat \<Rightarrow> nat \<Rightarrow> nat \<Rightarrow> raw \<Rightarrow> raw" where
  "copy_down tmp s 0 m = m"
| "copy_down tmp s (Suc n) m = copy_down tmp s n (m(tmp + n := m (s + n)))"

definition rt_memmove :: "nat \<Rightarrow> nat \<Rightarrow> nat \<Rightarrow> raw \<Rightarrow> raw" where
  "rt_memmove dest src n m =
    (if src < dest \<and> dest < src + n then copy_down dest src n m else copy_up dest src n m)"

fun fill_up :: "nat \<Rightarrow> u8 \<Rightarrow> nat \<Rightarrow> raw \<Rightarrow> raw" where
  "fill_up s c 0 m = m"
| "fill_up s c (Suc n) m = fill_up (s + 1) c n (m(s := c))"

fun rt_memcmp :: "nat \<Rightarrow> nat \<Rightarrow> nat \<Rightarrow> raw \<Rightarrow> int" where
  "rt_memcmp cs ct 0 m = 0"
| "rt_memcmp cs ct (Suc count) m =
    (let res = uint (m cs) - uint (m ct) in if res \<noteq> 0 then res else rt_memcmp (cs + 1) (ct + 1) count m)"

lemma copy_up_frame: "a < tmp \<Longrightarrow> copy_up tmp s n m a = m a"
  by (induction tmp s n m rule: copy_up.induct) auto

lemma copy_up_result:
  "tmp \<le> s \<or> s + n \<le> tmp \<Longrightarrow>
   copy_up tmp s n m a = (if tmp \<le> a \<and> a < tmp + n then m (s + (a - tmp)) else m a)"
proof (induction n arbitrary: tmp s m)
  case (Suc n)
  have "Suc tmp \<le> Suc s \<or> Suc s + n \<le> Suc tmp" using Suc.prems by auto
  from Suc.IH [OF this, of "m(tmp := m s)"]
  have IH: "copy_up (Suc tmp) (Suc s) n (m(tmp := m s)) a =
    (if Suc tmp \<le> a \<and> a < Suc tmp + n then (m(tmp := m s)) (Suc s + (a - Suc tmp)) else (m(tmp := m s)) a)" .
  show ?case
  proof (cases "tmp < a")
    case True
    then have "Suc s + (a - Suc tmp) = s + (a - tmp)" by simp
    moreover have "s + (a - tmp) \<noteq> tmp" if "a < Suc tmp + n" using Suc.prems True that by auto
    ultimately show ?thesis using True IH by auto
  next
    case False
    then show ?thesis using IH by (cases "a = tmp") auto
  qed
qed auto

lemma copy_down_result:
  "s \<le> tmp \<Longrightarrow>
   copy_down tmp s n m a = (if tmp \<le> a \<and> a < tmp + n then m (s + (a - tmp)) else m a)"
proof (induction n arbitrary: m)
  case (Suc n)
  then show ?case
    by (cases "a = tmp + n") auto
qed auto

text \<open>\<^verbatim>\<open>rt_memmove\<close> moves the old bytes, however the regions overlap.\<close>

lemma memmove_result:
  "rt_memmove dest src n m a = (if dest \<le> a \<and> a < dest + n then m (src + (a - dest)) else m a)"
  by (auto simp: rt_memmove_def copy_down_result copy_up_result)

lemma fill_up_result: "fill_up s c n m a = (if s \<le> a \<and> a < s + n then c else m a)"
  by (induction n arbitrary: s m) auto

lemma memcmp_eq: "rt_memcmp cs ct n m = 0 \<longleftrightarrow> (\<forall>i<n. m (cs + i) = m (ct + i))"
proof (induction cs ct n m rule: rt_memcmp.induct)
  case (2 cs ct n m)
  then show ?case
    by (auto simp: Let_def less_Suc_eq_0_disj unsigned_word_eqI)
qed simp

end
