(* ===== verification/RtList.thy ===== *)
theory RtList
  imports Prelude
begin

text \<open>
  The intrusive doubly linked list of \<^verbatim>\<open>include/rtservice.h\<close>. Every list of the
  kernel (ready queues, suspended threads, timers, object containers) is made of it. A
  memory gives the two pointers of every node; \<open>is_list h l xs\<close> says that the ring of
  head \<open>l\<close> holds the nodes \<open>xs\<close> in this order. Each operation is shown to act on
  the sequence the way the kernel theories model it, and to leave every other list alone,
  so that those theories may keep each list as a HOL list.
\<close>

section \<open>The code\<close>

record 'n memory =
  lnext :: "'n \<Rightarrow> 'n"
  lprev :: "'n \<Rightarrow> 'n"

definition rt_list_init :: "'n \<Rightarrow> 'n memory \<Rightarrow> 'n memory" where
  "rt_list_init l h = h\<lparr>lnext := (lnext h)(l := l), lprev := (lprev h)(l := l)\<rparr>"

definition rt_list_insert_after :: "'n \<Rightarrow> 'n \<Rightarrow> 'n memory \<Rightarrow> 'n memory" where
  "rt_list_insert_after l n h =
    (let h1 = h\<lparr>lprev := (lprev h)(lnext h l := n)\<rparr>;
         h2 = h1\<lparr>lnext := (lnext h1)(n := lnext h1 l)\<rparr>;
         h3 = h2\<lparr>lnext := (lnext h2)(l := n)\<rparr>
     in h3\<lparr>lprev := (lprev h3)(n := l)\<rparr>)"

definition rt_list_insert_before :: "'n \<Rightarrow> 'n \<Rightarrow> 'n memory \<Rightarrow> 'n memory" where
  "rt_list_insert_before l n h =
    (let h1 = h\<lparr>lnext := (lnext h)(lprev h l := n)\<rparr>;
         h2 = h1\<lparr>lprev := (lprev h1)(n := lprev h1 l)\<rparr>;
         h3 = h2\<lparr>lprev := (lprev h2)(l := n)\<rparr>
     in h3\<lparr>lnext := (lnext h3)(n := l)\<rparr>)"

definition rt_list_remove :: "'n \<Rightarrow> 'n memory \<Rightarrow> 'n memory" where
  "rt_list_remove n h =
    (let h1 = h\<lparr>lprev := (lprev h)(lnext h n := lprev h n)\<rparr>;
         h2 = h1\<lparr>lnext := (lnext h1)(lprev h1 n := lnext h1 n)\<rparr>
     in h2\<lparr>lnext := (lnext h2)(n := n), lprev := (lprev h2)(n := n)\<rparr>)"

definition rt_list_isempty :: "'n \<Rightarrow> 'n memory \<Rightarrow> bool" where
  "rt_list_isempty l h \<longleftrightarrow> lnext h l = l"

text \<open>The loop of \<^verbatim>\<open>rt_list_len\<close>; it does not end on a list without its head.\<close>

partial_function (option) rt_list_len_from :: "'n memory \<Rightarrow> 'n \<Rightarrow> 'n \<Rightarrow> nat \<Rightarrow> nat option" where
  "rt_list_len_from h l p len =
    (if lnext h p \<noteq> l then rt_list_len_from h l (lnext h p) (len + 1) else Some len)"

definition rt_list_len :: "'n \<Rightarrow> 'n memory \<Rightarrow> nat option" where
  "rt_list_len l h = rt_list_len_from h l l 0"

section \<open>Chains of linked nodes\<close>

fun links :: "'n memory \<Rightarrow> 'n list \<Rightarrow> bool" where
  "links h (a # b # xs) \<longleftrightarrow> lnext h a = b \<and> lprev h b = a \<and> links h (b # xs)"
| "links h _ \<longleftrightarrow> True"

definition is_list :: "'n memory \<Rightarrow> 'n \<Rightarrow> 'n list \<Rightarrow> bool" where
  "is_list h l xs \<longleftrightarrow> distinct (l # xs) \<and> links h (l # xs @ [l])"

lemma links_append: "links h (xs @ a # ys) \<longleftrightarrow> links h (xs @ [a]) \<and> links h (a # ys)"
  by (induction h xs rule: links.induct) (auto simp: Cons_eq_append_conv neq_Nil_conv; cases ys; auto)+

lemma links_cong:
  "\<lbrakk>\<And>a. a \<in> set (butlast xs) \<Longrightarrow> lnext h' a = lnext h a; \<And>a. a \<in> set (tl xs) \<Longrightarrow> lprev h' a = lprev h a\<rbrakk>
   \<Longrightarrow> links h' xs = links h xs"
  by (induction h xs rule: links.induct) auto

lemma is_list_frame:
  assumes "is_list h l xs"
    and "\<And>a. a \<in> set (l # xs) \<Longrightarrow> lnext h' a = lnext h a \<and> lprev h' a = lprev h a"
  shows "is_list h' l xs"
proof -
  have "links h' (l # xs @ [l]) = links h (l # xs @ [l])"
    by (rule links_cong) (use assms(2) in \<open>auto simp: butlast_append\<close>)
  then show ?thesis using assms(1) by (simp add: is_list_def)
qed

text \<open>
  The two ways a ring is cut: between neighbours \<open>a\<close> and \<open>b\<close>, and around one
  node. \<open>ringlike\<close> says of a path from the head back to the head that no other node
  repeats.
\<close>

definition ringlike :: "'n list \<Rightarrow> bool" where
  "ringlike p \<longleftrightarrow> distinct (butlast p) \<and> distinct (tl p)"

lemma ringlike_list: "distinct (l # xs) \<Longrightarrow> ringlike (l # xs @ [l])"
  by (simp add: ringlike_def butlast_append)

lemma ringlike_around:
  assumes "ringlike (P @ a # b # Q)"
  shows "a \<notin> set P" "b \<notin> set (tl (P @ [a]))" "a \<notin> set (butlast (b # Q))" "b \<notin> set Q"
proof -
  have d: "distinct (P @ a # butlast (b # Q))" "distinct (tl (P @ [a]) @ b # Q)"
    using assms by (auto simp: ringlike_def butlast_append tl_append split: list.splits)
  then show "a \<notin> set P" "b \<notin> set (tl (P @ [a]))" "a \<notin> set (butlast (b # Q))" "b \<notin> set Q"
    by auto
qed

lemma links_splice:
  assumes "links h (P @ a # b # Q)" and "ringlike (P @ a # b # Q)" and "n \<notin> set (P @ a # b # Q)"
    and "lnext h' = (lnext h)(a := n, n := b)" and "lprev h' = (lprev h)(b := n, n := a)"
  shows "links h' (P @ a # n # b # Q)"
proof -
  note r = ringlike_around [OF assms(2)]
  have "links h (P @ [a])" "links h (b # Q)"
    using assms(1) links_append [of h P a "b # Q"] by auto
  moreover have "links h' (P @ [a]) = links h (P @ [a])"
    by (rule links_cong) (use assms(3-) r in \<open>auto simp: tl_append split: list.splits\<close>)
  moreover have "links h' (b # Q) = links h (b # Q)"
    by (rule links_cong) (use assms(3-) r in \<open>auto dest: in_set_butlastD split: if_splits\<close>)
  ultimately show ?thesis
    using assms(3-) links_append [of h' P a "n # b # Q"] by auto
qed

lemma links_cut:
  assumes "links h (P @ a # n # b # Q)" and "ringlike (P @ a # n # b # Q)"
    and "\<And>x. x \<noteq> a \<Longrightarrow> x \<noteq> n \<Longrightarrow> lnext h' x = lnext h x" "lnext h' a = b"
    and "\<And>x. x \<noteq> b \<Longrightarrow> x \<noteq> n \<Longrightarrow> lprev h' x = lprev h x" "lprev h' b = a"
  shows "links h' (P @ a # b # Q)"
proof -
  have d: "distinct (P @ a # n # butlast (b # Q))" "distinct (tl (P @ [a]) @ n # b # Q)"
    using assms(2) by (auto simp: ringlike_def butlast_append tl_append split: list.splits)
  have "links h (P @ [a])" "links h (b # Q)"
    using assms(1) links_append [of h P a "n # b # Q"] by auto
  moreover have "links h' (P @ [a]) = links h (P @ [a])"
  proof (rule links_cong)
    show "lnext h' x = lnext h x" if "x \<in> set (butlast (P @ [a]))" for x
      using that d(1) by (intro assms(3)) auto
    show "lprev h' x = lprev h x" if "x \<in> set (tl (P @ [a]))" for x
      using that d(2) by (intro assms(5)) auto
  qed
  moreover have "links h' (b # Q) = links h (b # Q)"
  proof (rule links_cong)
    show "lnext h' x = lnext h x" if "x \<in> set (butlast (b # Q))" for x
      using that d(1) by (intro assms(3)) auto
    show "lprev h' x = lprev h x" if "x \<in> set (tl (b # Q))" for x
      using that d(2) by (intro assms(5)) auto
  qed
  ultimately show ?thesis
    using assms(4,6) links_append [of h' P a "b # Q"] by auto
qed

section \<open>The operations on sequences\<close>

lemma path_split:
  obtains P a b Q where "l # xs @ ys @ [l] = P @ a # b # Q" "a = last (l # xs)" "b = hd (ys @ [l])"
    "l # xs = P @ [a]" "ys @ [l] = b # Q"
proof -
  have "l # xs = butlast (l # xs) @ [last (l # xs)]" by (simp add: append_butlast_last_id)
  moreover have "ys @ [l] = hd (ys @ [l]) # tl (ys @ [l])" by (cases ys) auto
  ultimately show thesis
    by (intro that [of "butlast (l # xs)" "last (l # xs)" "hd (ys @ [l])" "tl (ys @ [l])"])
      (metis append.assoc append_Cons append_Nil)+
qed

lemma is_list_init: "is_list (rt_list_init l h) l []"
  by (simp add: is_list_def rt_list_init_def)

lemma isempty_is_list: "is_list h l xs \<Longrightarrow> rt_list_isempty l h \<longleftrightarrow> xs = []"
  by (cases xs) (auto simp: is_list_def rt_list_isempty_def)

lemma first_is_list: "is_list h l (x # xs) \<Longrightarrow> lnext h l = x"
  by (simp add: is_list_def)

text \<open>Neighbours in the ring.\<close>

lemma is_list_neighbours:
  assumes "is_list h l (xs @ ys)"
  shows "lnext h (last (l # xs)) = hd (ys @ [l])" "lprev h (hd (ys @ [l])) = last (l # xs)"
proof -
  obtain P a b Q where p: "l # xs @ ys @ [l] = P @ a # b # Q" "a = last (l # xs)" "b = hd (ys @ [l])"
    by (rule path_split)
  then have "links h (a # b # Q)"
    using assms links_append [of h P a "b # Q"] by (simp add: is_list_def)
  with p(2,3) show "lnext h (last (l # xs)) = hd (ys @ [l])" "lprev h (hd (ys @ [l])) = last (l # xs)"
    by auto
qed

lemma is_list_splice:
  assumes "is_list h l (xs @ ys)" and "n \<notin> set (l # xs @ ys)"
    and "lnext h' = (lnext h)(last (l # xs) := n, n := hd (ys @ [l]))"
    and "lprev h' = (lprev h)(hd (ys @ [l]) := n, n := last (l # xs))"
  shows "is_list h' l (xs @ n # ys)"
proof -
  obtain P a b Q where p: "l # xs @ ys @ [l] = P @ a # b # Q" "a = last (l # xs)" "b = hd (ys @ [l])"
    "l # xs = P @ [a]" "ys @ [l] = b # Q"
    by (rule path_split)
  have dist: "distinct (l # xs @ ys)" using assms(1) by (simp add: is_list_def)
  have "links h (P @ a # b # Q)" "ringlike (P @ a # b # Q)" "n \<notin> set (P @ a # b # Q)"
    using assms(1,2) ringlike_list [OF dist] by (auto simp: is_list_def simp flip: p(1))
  then have "links h' (P @ a # n # b # Q)"
    by (rule links_splice) (use assms(3,4) p(2,3) in auto)
  moreover have "P @ a # n # b # Q = l # (xs @ n # ys) @ [l]"
  proof -
    have "P @ a # n # b # Q = (P @ [a]) @ n # (b # Q)" by simp
    then show ?thesis by (simp only: p(4,5) [symmetric]) simp
  qed
  ultimately show ?thesis using dist assms(2) by (auto simp: is_list_def)
qed

lemma insert_after_is_list:
  assumes "is_list h l (xs @ ys)" and "n \<notin> set (l # xs @ ys)" and "a = last (l # xs)"
  shows "is_list (rt_list_insert_after a n h) l (xs @ n # ys)"
proof (rule is_list_splice [OF assms(1,2)])
  have "a \<in> set (l # xs)" using assms(3) by (metis last_in_set list.distinct(1))
  then have "a \<noteq> n" using assms(2) by auto
  moreover have "hd (ys @ [l]) \<noteq> n" using assms(2) by (cases ys) auto
  moreover note is_list_neighbours [OF assms(1)]
  ultimately show
    "lnext (rt_list_insert_after a n h) = (lnext h)(last (l # xs) := n, n := hd (ys @ [l]))"
    "lprev (rt_list_insert_after a n h) = (lprev h)(hd (ys @ [l]) := n, n := last (l # xs))"
    unfolding assms(3) rt_list_insert_after_def Let_def by (auto simp: fun_eq_iff)
qed

lemma insert_before_is_list:
  assumes "is_list h l (xs @ ys)" and "n \<notin> set (l # xs @ ys)" and "b = hd (ys @ [l])"
  shows "is_list (rt_list_insert_before b n h) l (xs @ n # ys)"
proof (rule is_list_splice [OF assms(1,2)])
  have "last (l # xs) \<in> set (l # xs)" by (metis last_in_set list.distinct(1))
  then have "last (l # xs) \<noteq> n" using assms(2) by auto
  moreover have "hd (ys @ [l]) \<noteq> n" using assms(2) by (cases ys) auto
  moreover note is_list_neighbours [OF assms(1)]
  ultimately show
    "lnext (rt_list_insert_before b n h) = (lnext h)(last (l # xs) := n, n := hd (ys @ [l]))"
    "lprev (rt_list_insert_before b n h) = (lprev h)(hd (ys @ [l]) := n, n := last (l # xs))"
    unfolding assms(3) rt_list_insert_before_def Let_def by (auto simp: fun_eq_iff)
qed

lemma remove_is_list:
  assumes "is_list h l (xs @ n # ys)"
  shows "is_list (rt_list_remove n h) l (xs @ ys) \<and> is_list (rt_list_remove n h) n []"
proof -
  let ?h = "rt_list_remove n h"
  obtain P a b Q where p: "l # xs @ ys @ [l] = P @ a # b # Q" "a = last (l # xs)" "b = hd (ys @ [l])"
    "l # xs = P @ [a]" "ys @ [l] = b # Q"
    by (rule path_split)
  have dist: "distinct (l # xs @ n # ys)" using assms by (simp add: is_list_def)
  have path: "P @ a # n # b # Q = l # (xs @ n # ys) @ [l]"
  proof -
    have "P @ a # n # b # Q = (P @ [a]) @ n # (b # Q)" by simp
    then show ?thesis by (simp only: p(4,5) [symmetric]) simp
  qed
  then have lk: "links h (P @ a # n # b # Q)" "ringlike (P @ a # n # b # Q)"
    using assms ringlike_list [OF dist] by (auto simp: is_list_def)
  have nb: "lnext h n = b" "lprev h n = a"
    using lk(1) links_append [of h P a "n # b # Q"] by auto
  have ne: "a \<noteq> n" "b \<noteq> n"
    using dist p(4,5) by (auto simp: Cons_eq_append_conv append_eq_Cons_conv)
  have "links ?h (P @ a # b # Q)"
    by (rule links_cut [OF lk]) (use nb ne in \<open>auto simp: rt_list_remove_def Let_def\<close>)
  then have "links ?h (l # xs @ ys @ [l])" by (simp only: p(1))
  then show ?thesis
    using dist by (auto simp: is_list_def rt_list_remove_def Let_def)
qed

text \<open>A node that is in no list stays alone, and removing it again changes nothing.\<close>

lemma remove_alone: "is_list h n [] \<Longrightarrow> rt_list_remove n h = h"
  by (auto simp: is_list_def rt_list_remove_def Let_def fun_eq_iff)

lemma remove_frame:
  assumes "is_list h l (xs @ n # ys)" and "is_list h m zs" and "set (m # zs) \<inter> set (l # xs @ n # ys) = {}"
  shows "is_list (rt_list_remove n h) m zs"
proof (rule is_list_frame [OF assms(2)])
  have nb: "lnext h n = hd (ys @ [l])" "lprev h n = last (l # xs)"
    using is_list_neighbours [of h l "xs @ [n]" ys] is_list_neighbours [of h l xs "n # ys"] assms(1)
    by auto
  have "hd (ys @ [l]) \<in> set (l # xs @ n # ys)" "last (l # xs) \<in> set (l # xs @ n # ys)"
    by (cases ys; simp) (metis Un_iff last_in_set list.distinct(1) set_append append_Cons)
  then show "lnext (rt_list_remove n h) a = lnext h a \<and> lprev (rt_list_remove n h) a = lprev h a"
    if "a \<in> set (m # zs)" for a
    using that assms(3) nb by (fastforce simp: rt_list_remove_def Let_def)
qed

text \<open>The length of a well-formed list is found, and it is the length.\<close>

lemma len_from_is_list:
  "links h (p # ys @ [l]) \<Longrightarrow> l \<notin> set ys \<Longrightarrow> rt_list_len_from h l p k = Some (k + length ys)"
  by (induction ys arbitrary: p k) (auto simp: rt_list_len_from.simps)

lemma len_is_list: "is_list h l xs \<Longrightarrow> rt_list_len l h = Some (length xs)"
  using len_from_is_list [of h l xs l 0] by (simp add: is_list_def rt_list_len_def)

section \<open>Histories of a list\<close>

text \<open>Inserting behind the head, before the head, and before or behind a node; removing a node.\<close>

datatype 'n list_op = Push_front 'n | Push_back 'n | Insert_after 'n 'n | Insert_before 'n 'n | Remove 'n

fun heap_step :: "'n \<Rightarrow> 'n list_op \<Rightarrow> 'n memory \<Rightarrow> 'n memory" where
  "heap_step l (Push_front n) h = rt_list_insert_after l n h"
| "heap_step l (Push_back n) h = rt_list_insert_before l n h"
| "heap_step l (Insert_after a n) h = rt_list_insert_after a n h"
| "heap_step l (Insert_before b n) h = rt_list_insert_before b n h"
| "heap_step l (Remove n) h = rt_list_remove n h"

text \<open>The same on the sequence: \<open>None\<close> where the caller names a node that is not linked, or links one twice.\<close>

fun list_step :: "'n \<Rightarrow> 'n list_op \<Rightarrow> 'n list \<Rightarrow> 'n list option" where
  "list_step l (Push_front n) xs = (if n \<in> set (l # xs) then None else Some (n # xs))"
| "list_step l (Push_back n) xs = (if n \<in> set (l # xs) then None else Some (xs @ [n]))"
| "list_step l (Insert_after a n) xs =
    (if n \<in> set (l # xs) \<or> a \<notin> set xs then None
     else Some (takeWhile (\<lambda>y. y \<noteq> a) xs @ a # n # tl (dropWhile (\<lambda>y. y \<noteq> a) xs)))"
| "list_step l (Insert_before b n) xs =
    (if n \<in> set (l # xs) \<or> b \<notin> set xs then None
     else Some (takeWhile (\<lambda>y. y \<noteq> b) xs @ n # dropWhile (\<lambda>y. y \<noteq> b) xs))"
| "list_step l (Remove n) xs = (if n \<in> set xs then Some (filter (\<lambda>y. y \<noteq> n) xs) else None)"

fun heap_exec :: "'n \<Rightarrow> 'n list_op list \<Rightarrow> 'n memory \<Rightarrow> 'n memory" where
  "heap_exec l [] h = h"
| "heap_exec l (a # ops) h = heap_exec l ops (heap_step l a h)"

fun list_exec :: "'n \<Rightarrow> 'n list_op list \<Rightarrow> 'n list \<Rightarrow> 'n list option" where
  "list_exec l [] xs = Some xs"
| "list_exec l (a # ops) xs = Option.bind (list_step l a xs) (list_exec l ops)"

lemma split_at:
  assumes "a \<in> set xs"
  obtains ys where "dropWhile (\<lambda>y. y \<noteq> a) xs = a # ys" "xs = takeWhile (\<lambda>y. y \<noteq> a) xs @ a # ys"
proof -
  have "dropWhile (\<lambda>y. y \<noteq> a) xs \<noteq> []" using assms by auto
  then obtain b ys where d: "dropWhile (\<lambda>y. y \<noteq> a) xs = b # ys" by (cases "dropWhile (\<lambda>y. y \<noteq> a) xs") auto
  then have "b = a" using hd_dropWhile [of "\<lambda>y. y \<noteq> a" xs] by auto
  with d that show thesis using takeWhile_dropWhile_id [of "\<lambda>y. y \<noteq> a" xs] by simp
qed

lemma heap_step_refines:
  assumes l: "is_list h l xs" and s: "list_step l op xs = Some ys"
  shows "is_list (heap_step l op h) l ys"
proof (cases op)
  case (Push_front n)
  then show ?thesis using insert_after_is_list [of h l "[]" xs n l] l s by (simp split: if_splits)
next
  case (Push_back n)
  then show ?thesis using insert_before_is_list [of h l xs "[]" n l] l s by (simp split: if_splits)
next
  case (Insert_after a n)
  then have a: "a \<in> set xs" "n \<notin> set (l # xs)" using s by (auto split: if_splits)
  obtain us zs where z: "takeWhile (\<lambda>y. y \<noteq> a) xs = us" "dropWhile (\<lambda>y. y \<noteq> a) xs = a # zs" "xs = us @ a # zs"
    using split_at [OF a(1)] by metis
  have "is_list (rt_list_insert_after a n h) l ((us @ [a]) @ n # zs)"
    by (rule insert_after_is_list) (use l a(2) z(3) in auto)
  then show ?thesis using s Insert_after z(1,2) by (simp split: if_splits)
next
  case (Insert_before b n)
  then have b: "b \<in> set xs" "n \<notin> set (l # xs)" using s by (auto split: if_splits)
  obtain us zs where z: "takeWhile (\<lambda>y. y \<noteq> b) xs = us" "dropWhile (\<lambda>y. y \<noteq> b) xs = b # zs" "xs = us @ b # zs"
    using split_at [OF b(1)] by metis
  have "is_list (rt_list_insert_before b n h) l (us @ n # b # zs)"
    by (rule insert_before_is_list) (use l b(2) z(3) in auto)
  then show ?thesis using s Insert_before z(1,2) by (simp split: if_splits)
next
  case (Remove n)
  then have n: "n \<in> set xs" using s by (simp split: if_splits)
  then obtain as bs where x: "xs = as @ n # bs" by (metis split_list)
  have "distinct xs" using l by (simp add: is_list_def)
  then have "filter (\<lambda>y. y \<noteq> n) xs = as @ bs" using x by auto
  then show ?thesis using remove_is_list [of h l as n bs] l s n Remove x by simp
qed

lemma heap_exec_refines:
  "is_list h l ys \<Longrightarrow> list_exec l ops ys = Some xs \<Longrightarrow> is_list (heap_exec l ops h) l xs"
proof (induction ops arbitrary: ys h)
  case (Cons a ops)
  then show ?case using heap_step_refines by (fastforce simp: bind_eq_Some_conv)
qed simp

text \<open>
  C35: the pointer operations implement operations on a sequence: after any history of insertions
  and removals that names only linked nodes and links none twice, the memory holds the ring of
  the sequence, in both directions, and \<^verbatim>\<open>rt_list_len\<close> returns its length.
\<close>

theorem list_history_refines:
  fixes h :: "'n memory"
  assumes "list_exec l ops [] = Some xs"
  defines "h' \<equiv> heap_exec l ops (rt_list_init l h)"
  shows "is_list h' l xs \<and> rt_list_len l h' = Some (length xs) \<and> rt_list_isempty l h' = (xs = [])"
proof -
  have "is_list h' l xs" unfolding h'_def by (rule heap_exec_refines [OF is_list_init assms(1)])
  then show ?thesis by (simp add: len_is_list isempty_is_list)
qed

lemma list_history_refines_witness:
  "rt_list_len 0 (heap_exec 0 [Push_back (1 :: nat), Push_back 2, Insert_after 1 3, Insert_before 1 4, Remove 2]
     (rt_list_init 0 \<lparr>lnext = (\<lambda>_. 0), lprev = (\<lambda>_. 0)\<rparr>)) = Some 3"
  using list_history_refines [of "0 :: nat" "[Push_back 1, Push_back 2, Insert_after 1 3, Insert_before 1 4, Remove 2]" "[4, 1, 3]"]
  by (simp add: numeral_3_eq_3)

end
