(* ===== verification/Kobject.thy ===== *)
theory Kobject
  imports CString RtList
begin

unbundle bit_operations_syntax

text \<open>
  The object container of \<^verbatim>\<open>src/object.c\<close>: every kernel object carries a name
  of eight characters, a type and a flag, and sits in the list of its class. Objects are
  named by their address, the type parameter \<open>'o\<close>. The configuration has no modules,
  so the container of the class is the only list; the hooks are unset.
\<close>

definition RT_NAME_MAX :: nat where
  "RT_NAME_MAX = 8"

datatype rt_object_class_type =
    RT_Object_Class_Thread | RT_Object_Class_Semaphore | RT_Object_Class_Mutex
  | RT_Object_Class_Event | RT_Object_Class_MailBox | RT_Object_Class_MessageQueue
  | RT_Object_Class_MemHeap | RT_Object_Class_MemPool | RT_Object_Class_Device
  | RT_Object_Class_Timer | RT_Object_Class_Module | RT_Object_Class_Unknown

fun class_code :: "rt_object_class_type \<Rightarrow> u8" where
  "class_code RT_Object_Class_Thread = 0"
| "class_code RT_Object_Class_Semaphore = 1"
| "class_code RT_Object_Class_Mutex = 2"
| "class_code RT_Object_Class_Event = 3"
| "class_code RT_Object_Class_MailBox = 4"
| "class_code RT_Object_Class_MessageQueue = 5"
| "class_code RT_Object_Class_MemHeap = 6"
| "class_code RT_Object_Class_MemPool = 7"
| "class_code RT_Object_Class_Device = 8"
| "class_code RT_Object_Class_Timer = 9"
| "class_code RT_Object_Class_Module = 10"
| "class_code RT_Object_Class_Unknown = 11"

abbreviation (input) RT_Object_Class_Static :: u8 where "RT_Object_Class_Static \<equiv> 0x80"

record rt_object =
  ob_name :: string
  ob_type :: u8
  ob_flag :: u8

record 'o object_store =
  obj :: "'o \<Rightarrow> rt_object"
  container :: "u8 \<Rightarrow> 'o list"

text \<open>
  \<^verbatim>\<open>rt_object_get_information\<close>: the classes that the configuration compiles in.
\<close>

definition rt_object_get_information :: "u8 \<Rightarrow> u8 option" where
  "rt_object_get_information type = (if type \<le> 9 then Some type else None)"

definition rt_object_init ::
  "'o \<Rightarrow> rt_object_class_type \<Rightarrow> string \<Rightarrow> 'o object_store \<Rightarrow> 'o object_store" where
  "rt_object_init ob type name st =
    (case rt_object_get_information (class_code type) of
       None \<Rightarrow> st
     | Some information \<Rightarrow>
         st\<lparr>obj := (obj st)(ob := (obj st ob)\<lparr>ob_type := class_code type OR RT_Object_Class_Static,
                                          ob_name := rt_strncpy name RT_NAME_MAX\<rparr>),
            container := (container st)(information := ob # container st information)\<rparr>)"

text \<open>
  \<^verbatim>\<open>rt_list_remove\<close> takes the node out of whichever list holds it.
\<close>

definition rt_object_detach :: "'o \<Rightarrow> 'o object_store \<Rightarrow> 'o object_store" where
  "rt_object_detach ob st =
     st\<lparr>obj := (obj st)(ob := (obj st ob)\<lparr>ob_type := 0\<rparr>),
        container := (\<lambda>c. filter (\<lambda>x. x \<noteq> ob) (container st c))\<rparr>"

text \<open>
  Allocation takes the memory from the heap, which is a parameter here: \<open>addr\<close> is the
  block that \<^verbatim>\<open>RT_KERNEL_MALLOC\<close> returned, if any.
\<close>

definition rt_object_allocate ::
  "'o option \<Rightarrow> rt_object_class_type \<Rightarrow> string \<Rightarrow> 'o object_store \<Rightarrow> 'o option \<times> 'o object_store" where
  "rt_object_allocate addr type name st =
    (case addr of
       None \<Rightarrow> (None, st)
     | Some ob \<Rightarrow>
        (case rt_object_get_information (class_code type) of
           None \<Rightarrow> (None, st)
         | Some information \<Rightarrow>
            (Some ob,
             st\<lparr>obj := (obj st)(ob := \<lparr>ob_name = rt_strncpy name RT_NAME_MAX,
                                       ob_type = class_code type, ob_flag = 0\<rparr>),
                container := (container st)(information := ob # container st information)\<rparr>)))"

definition rt_object_delete :: "'o \<Rightarrow> 'o object_store \<Rightarrow> 'o object_store" where
  "rt_object_delete ob st =
     st\<lparr>obj := (obj st)(ob := (obj st ob)\<lparr>ob_type := 0\<rparr>),
        container := (\<lambda>c. filter (\<lambda>x. x \<noteq> ob) (container st c))\<rparr>"

definition rt_object_is_systemobject :: "'o \<Rightarrow> 'o object_store \<Rightarrow> bool" where
  "rt_object_is_systemobject ob st \<longleftrightarrow> ob_type (obj st ob) AND RT_Object_Class_Static \<noteq> 0"

definition rt_object_get_type :: "'o \<Rightarrow> 'o object_store \<Rightarrow> u8" where
  "rt_object_get_type ob st = ob_type (obj st ob) AND NOT RT_Object_Class_Static"

definition rt_object_find :: "string \<Rightarrow> u8 \<Rightarrow> 'o object_store \<Rightarrow> 'o option" where
  "rt_object_find name type st =
    (if type > class_code RT_Object_Class_Unknown then None
     else case rt_object_get_information type of
       None \<Rightarrow> None
     | Some information \<Rightarrow>
         List.find (\<lambda>ob. rt_strncmp (ob_name (obj st ob)) name RT_NAME_MAX = 0) (container st information))"

section \<open>The container keeps its objects apart\<close>

text \<open>
  An object is in at most one container list, at most once, and a listed object carries the
  type of its list.
\<close>

definition store_ok :: "'o object_store \<Rightarrow> bool" where
  "store_ok st \<longleftrightarrow>
     (\<forall>c. distinct (container st c)) \<and>
     (\<forall>c ob. ob \<in> set (container st c) \<longrightarrow> rt_object_get_type ob st = c)"

definition listed :: "'o \<Rightarrow> 'o object_store \<Rightarrow> bool" where
  "listed ob st \<longleftrightarrow> (\<exists>c. ob \<in> set (container st c))"

lemma class_code_static: "(class_code c OR 128) AND - 129 = class_code c"
  by (cases c) simp_all

lemma class_code_dynamic: "class_code c AND - 129 = class_code c"
  by (cases c) simp_all

lemma store_ok_init:
  "store_ok st \<Longrightarrow> \<not> listed ob st \<Longrightarrow> store_ok (rt_object_init ob type name st)"
  by (auto simp: store_ok_def listed_def rt_object_init_def rt_object_get_information_def
      rt_object_get_type_def class_code_static split: option.splits)

lemma store_ok_allocate:
  "store_ok st \<Longrightarrow> rt_object_allocate addr type name st = (r, st') \<Longrightarrow>
   (\<And>ob. addr = Some ob \<Longrightarrow> \<not> listed ob st) \<Longrightarrow> store_ok st'"
  by (auto simp: store_ok_def listed_def rt_object_allocate_def rt_object_get_information_def
      rt_object_get_type_def class_code_dynamic split: option.splits if_splits)

lemma store_ok_detach: "store_ok st \<Longrightarrow> store_ok (rt_object_detach ob st)"
  by (auto simp: store_ok_def rt_object_detach_def rt_object_get_type_def)

lemma store_ok_delete: "store_ok st \<Longrightarrow> store_ok (rt_object_delete ob st)"
  by (auto simp: store_ok_def rt_object_delete_def rt_object_get_type_def)

lemma detach_not_listed: "\<not> listed ob (rt_object_detach ob st)"
  by (auto simp: listed_def rt_object_detach_def)

text \<open>
  Looking a name up: the first eight characters decide, and among equal names the object
  that was initialised last is found.
\<close>

text \<open>
  An object that has just been initialised under a name is what a search for its name and class
  returns, also for names that differ only past the eight characters kept; other names find what
  they found before.
\<close>

theorem find_after_init:
  assumes "c_string name" "c_string key" "class_code type \<le> 9"
  shows "rt_object_find key (class_code type) (rt_object_init ob type name st) =
    (if take RT_NAME_MAX name = take RT_NAME_MAX key then Some ob
     else List.find (\<lambda>x. x \<noteq> ob \<and> rt_strncmp (ob_name (obj st x)) key RT_NAME_MAX = 0)
            (container st (class_code type)))"
proof -
  have "\<not> class_code type > class_code RT_Object_Class_Unknown"
    by (cases type) simp_all
  moreover have "List.find (\<lambda>x. rt_strncmp (ob_name (if x = ob then y else obj st x)) key RT_NAME_MAX = 0) xs =
      List.find (\<lambda>x. x \<noteq> ob \<and> rt_strncmp (ob_name (obj st x)) key RT_NAME_MAX = 0) xs"
    if "rt_strncmp (ob_name y) key RT_NAME_MAX \<noteq> 0" for xs and y :: rt_object
    using that by (induction xs) auto
  ultimately show ?thesis
    using assms strncpy_strncmp [OF assms(1,2), of RT_NAME_MAX]
    by (auto simp: rt_object_find_def rt_object_init_def rt_object_get_information_def fun_upd_def)
qed

lemma find_filter_neq: "List.find P (filter (\<lambda>x. x \<noteq> ob) xs) \<noteq> Some ob"
  by (induction xs) auto

lemma find_after_detach: "rt_object_find key c (rt_object_detach ob st) \<noteq> Some ob"
  by (auto simp: rt_object_find_def rt_object_detach_def find_filter_neq split: option.splits)

lemma find_after_init_witness:
  "rt_object_find ''semaphoreB'' 1 (rt_object_init (7 :: nat) RT_Object_Class_Semaphore ''semaphoreA''
     \<lparr>obj = (\<lambda>_. \<lparr>ob_name = [], ob_type = 0, ob_flag = 0\<rparr>), container = (\<lambda>_. [])\<rparr>) = Some 7"
  using find_after_init [of "''semaphoreA''" "''semaphoreB''" RT_Object_Class_Semaphore "7 :: nat"]
  by (simp add: RT_NAME_MAX_def c_string_def)

end
