(* ===== verification/Ffs.thy ===== *)
theory Ffs
  imports Prelude
begin

unbundle bit_operations_syntax

text \<open>
  Find-first-set by table, \<^verbatim>\<open>__rt_ffs\<close> of \<^verbatim>\<open>src/kservice.c\<close>: the scheduler
  finds the highest ready priority with it. The table is the one of the source; the result
  is shown to be the index of the lowest set bit, plus one.
\<close>

definition lowest_bit_row :: "nat \<Rightarrow> nat list" where
  "lowest_bit_row k = [k, 0, 1, 0, 2, 0, 1, 0, 3, 0, 1, 0, 2, 0, 1, 0]"

definition lowest_bit_bitmap :: "nat list" where
  "lowest_bit_bitmap = concat (map lowest_bit_row [0, 4, 5, 4, 6, 4, 5, 4, 7, 4, 5, 4, 6, 4, 5, 4])"

definition rt_ffs :: "u32 \<Rightarrow> nat" where
  "rt_ffs v =
    (if v = 0 then 0
     else if v AND 0xff \<noteq> 0 then lowest_bit_bitmap ! unat (v AND 0xff) + 1
     else if v AND 0xff00 \<noteq> 0 then lowest_bit_bitmap ! unat (drop_bit 8 (v AND 0xff00)) + 9
     else if v AND 0xff0000 \<noteq> 0 then lowest_bit_bitmap ! unat (drop_bit 16 (v AND 0xff0000)) + 17
     else lowest_bit_bitmap ! unat (drop_bit 24 (v AND 0xff000000)) + 25)"

text \<open>The table is checked entry by entry by evaluation, with a binary counter.\<close>

fun table_ok :: "int \<Rightarrow> nat list \<Rightarrow> bool" where
  "table_ok m [] \<longleftrightarrow> True"
| "table_ok m (t # ts) \<longleftrightarrow>
     (t < 8 \<and> bit m t \<and> list_all (\<lambda>j. \<not> bit m j) [0..<t]) \<and> table_ok (m + 1) ts"

lemma table_okD:
  "table_ok m ts \<Longrightarrow> i < length ts \<Longrightarrow>
   ts ! i < 8 \<and> bit (m + int i) (ts ! i) \<and> (\<forall>j<ts ! i. \<not> bit (m + int i) j)"
proof (induction ts arbitrary: m i)
  case (Cons t ts)
  then show ?case
    by (cases i) (fastforce simp: list_all_iff ac_simps)+
qed simp

lemma bitmap_table: "table_ok 1 (tl lowest_bit_bitmap)" "length lowest_bit_bitmap = 256"
  by code_simp+

lemma bitmap_lowest:
  assumes "0 < n" "n < 256"
  shows "lowest_bit_bitmap ! n < 8 \<and> bit n (lowest_bit_bitmap ! n) \<and> (\<forall>j<lowest_bit_bitmap ! n. \<not> bit n j)"
proof -
  have "tl lowest_bit_bitmap ! (n - 1) = lowest_bit_bitmap ! n"
    using assms bitmap_table(2) by (simp add: nth_tl)
  moreover have "1 + int (n - 1) = int n" using assms by simp
  ultimately show ?thesis
    using table_okD [OF bitmap_table(1), of "n - 1"] assms bitmap_table(2)
    by (simp add: bit_of_nat_iff_bit)
qed

lemma bit_0xff: "bit (0xff :: u32) j \<longleftrightarrow> j < 8"
proof -
  have "(0xff :: u32) = mask 8" by (simp add: mask_eq_exp_minus_1)
  then show ?thesis by (simp only: Word.bit_mask_iff) auto
qed

lemma bit_0xff00:
  "bit (0xff00 :: u32) j \<longleftrightarrow> 8 \<le> j \<and> j < 16"
  "bit (0xff0000 :: u32) j \<longleftrightarrow> 16 \<le> j \<and> j < 24"
  "bit (0xff000000 :: u32) j \<longleftrightarrow> 24 \<le> j \<and> j < 32"
proof -
  have "(0xff00 :: u32) = push_bit 8 0xff" "(0xff0000 :: u32) = push_bit 16 0xff"
    "(0xff000000 :: u32) = push_bit 24 0xff"
    by simp_all
  then show "bit (0xff00 :: u32) j \<longleftrightarrow> 8 \<le> j \<and> j < 16"
    "bit (0xff0000 :: u32) j \<longleftrightarrow> 16 \<le> j \<and> j < 24"
    "bit (0xff000000 :: u32) j \<longleftrightarrow> 24 \<le> j \<and> j < 32"
    by (simp_all only: bit_push_bit_iff bit_0xff) auto
qed

text \<open>The lowest set bit of one byte of a word, moved back to its place.\<close>

lemma byte_lowest:
  fixes v :: u32
  assumes w: "w = drop_bit k v AND 0xff" and "w \<noteq> 0"
    and low: "\<And>j. j < k \<Longrightarrow> \<not> bit v j"
  shows "bit v (lowest_bit_bitmap ! unat w + k) \<and> (\<forall>j<lowest_bit_bitmap ! unat w + k. \<not> bit v j)"
proof -
  have bits: "bit (unat w) j \<longleftrightarrow> j < 8 \<and> bit v (k + j)" for j
  proof -
    have "bit (unat w) j \<longleftrightarrow> bit w j" by (simp add: bit_unsigned_iff bit_imp_le_length)
    also have "\<dots> \<longleftrightarrow> bit v (k + j) \<and> bit (0xff :: u32) j"
      by (simp add: w bit_simps)
    also have "bit (0xff :: u32) j \<longleftrightarrow> j < 8" by (rule bit_0xff)
    finally show ?thesis by auto
  qed
  have "w \<le> 0xff" by (simp add: w word_and_le1)
  then have "unat w \<le> unat (0xff :: u32)" by (simp only: word_le_nat_alt)
  then have "unat w < 256" by simp
  moreover have "0 < unat w" using assms(2) by (simp add: unat_gt_0)
  ultimately have t: "bit (unat w) (lowest_bit_bitmap ! unat w)"
      "\<forall>j<lowest_bit_bitmap ! unat w. \<not> bit (unat w) j" "lowest_bit_bitmap ! unat w < 8"
    using bitmap_lowest by auto
  have "\<not> bit v j" if "j < lowest_bit_bitmap ! unat w + k" for j
  proof (cases "j < k")
    case False
    then have "j = k + (j - k)" "j - k < lowest_bit_bitmap ! unat w" using that by auto
    then show ?thesis using t bits [of "j - k"] by auto
  qed (rule low)
  then show ?thesis using t bits by (auto simp: add.commute)
qed

lemma byte_zero_bits:
  fixes v :: u32
  assumes "drop_bit k v AND 0xff = 0" "k \<le> j" "j < k + 8"
  shows "\<not> bit v j"
proof
  assume "bit v j"
  then have "bit (drop_bit k v AND 0xff) (j - k)"
    using assms(2,3) by (simp add: bit_and_iff bit_drop_bit_eq bit_0xff del: bit_numeral_word_iff)
  then show False using assms(1) by simp
qed

lemma byte_masks:
  fixes v :: u32
  shows "drop_bit 8 (v AND 0xff00) = drop_bit 8 v AND 0xff"
    "drop_bit 16 (v AND 0xff0000) = drop_bit 16 v AND 0xff"
    "drop_bit 24 (v AND 0xff000000) = drop_bit 24 v AND 0xff"
  by (auto intro!: bit_eqI simp: bit_and_iff bit_drop_bit_eq bit_0xff bit_0xff00)

lemma byte_mask_zero:
  fixes v :: u32
  shows "v AND 0xff00 = 0 \<longleftrightarrow> drop_bit 8 v AND 0xff = 0"
    "v AND 0xff0000 = 0 \<longleftrightarrow> drop_bit 16 v AND 0xff = 0"
proof -
  have "v AND 0xff00 = push_bit 8 (drop_bit 8 v AND 0xff)"
    "v AND 0xff0000 = push_bit 16 (drop_bit 16 v AND 0xff)"
    by (auto intro!: bit_eqI simp: bit_and_iff bit_drop_bit_eq bit_push_bit_iff bit_0xff bit_0xff00
        simp del: bit_numeral_word_iff)
  moreover have "push_bit k (drop_bit k v AND 0xff) = 0 \<longleftrightarrow> drop_bit k v AND 0xff = 0"
    if "k \<le> 24" for k
  proof
    assume z: "push_bit k (drop_bit k v AND 0xff) = 0"
    show "drop_bit k v AND 0xff = 0"
    proof (rule bit_eqI)
      fix j assume "possible_bit TYPE(u32) j"
      have "bit (push_bit k (drop_bit k v AND 0xff)) (j + k) \<longleftrightarrow> bit (drop_bit k v AND 0xff) j"
        using that by (auto simp: bit_push_bit_iff bit_and_iff bit_0xff bit_drop_bit_eq simp del: bit_numeral_word_iff)
      then show "bit (drop_bit k v AND 0xff) j = bit (0 :: u32) j" using z by simp
    qed
  qed simp
  from this [of 8] this [of 16] calculation
  show "v AND 0xff00 = 0 \<longleftrightarrow> drop_bit 8 v AND 0xff = 0"
    "v AND 0xff0000 = 0 \<longleftrightarrow> drop_bit 16 v AND 0xff = 0"
    by (simp_all only:)
qed

lemma rt_ffs_lowest:
  assumes "v \<noteq> 0"
  shows "0 < rt_ffs v \<and> rt_ffs v \<le> 32 \<and> bit v (rt_ffs v - 1) \<and> (\<forall>j<rt_ffs v - 1. \<not> bit v j)"
proof -
  let ?B = "\<lambda>k. drop_bit k v AND 0xff"
  have z: "?B k = 0 \<Longrightarrow> k \<le> j \<Longrightarrow> j < k + 8 \<Longrightarrow> \<not> bit v j" for k j
    by (rule byte_zero_bits)
  have "\<exists>k i. rt_ffs v = i + k + 1 \<and> bit v (i + k) \<and> (\<forall>j<i + k. \<not> bit v j)"
  proof (cases "?B 0 = 0")
    case False
    then show ?thesis
      using byte_lowest [of "?B 0" 0 v] assms by (intro exI [of _ 0] exI [of _ "lowest_bit_bitmap ! unat (?B 0)"]) (auto simp: rt_ffs_def)
  next
    case z0: True
    show ?thesis
    proof (cases "?B 8 = 0")
      case False
      then show ?thesis
        using byte_lowest [of "?B 8" 8 v] z [OF z0] z0 assms
        by (intro exI [of _ 8] exI [of _ "lowest_bit_bitmap ! unat (?B 8)"]) (auto simp: rt_ffs_def byte_masks byte_mask_zero)
    next
      case z8: True
      show ?thesis
      proof (cases "?B 16 = 0")
        case False
        have low: "\<not> bit v j" if "j < 16" for j
          using that z [OF z0, of j] z [OF z8, of j] by (cases "j < 8") auto
        show ?thesis
          using byte_lowest [of "?B 16" 16 v] low False z0 z8 assms
          by (intro exI [of _ 16] exI [of _ "lowest_bit_bitmap ! unat (?B 16)"]) (auto simp: rt_ffs_def byte_masks byte_mask_zero)
      next
        case z16: True
        have low: "\<not> bit v j" if "j < 24" for j
          using that z [OF z0, of j] z [OF z8, of j] z [OF z16, of j]
          by (cases "j < 8"; cases "j < 16") auto
        have "?B 24 \<noteq> 0"
        proof
          assume z24: "?B 24 = 0"
          have "\<not> bit v j" if "j < 32" for j
            using that low [of j] z [OF z24, of j] by (cases "j < 24") auto
          then have "v = 0" by (auto intro!: bit_eqI dest: bit_imp_le_length)
          with assms show False ..
        qed
        then show ?thesis
          using byte_lowest [of "?B 24" 24 v] low z0 z8 z16 assms
          by (intro exI [of _ 24] exI [of _ "lowest_bit_bitmap ! unat (?B 24)"]) (auto simp: rt_ffs_def byte_masks byte_mask_zero)
      qed
    qed
  qed
  then obtain k i where ki: "rt_ffs v = i + k + 1" "bit v (i + k)" "\<forall>j<i + k. \<not> bit v j" by blast
  then have "i + k < 32" using bit_imp_le_length [of v "i + k"] by simp
  with ki show ?thesis by auto
qed

lemma rt_ffs_zero [simp]: "rt_ffs 0 = 0"
  by (simp add: rt_ffs_def)

section \<open>The reference\<close>

text \<open>Looking at the bits one after the other, from the lowest.\<close>

definition ffs_reference :: "u32 \<Rightarrow> nat" where
  "ffs_reference v = (case List.find (bit v) [0..<32] of None \<Rightarrow> 0 | Some i \<Rightarrow> i + 1)"

lemma find_first:
  "List.find P [0..<n] = Some i \<longleftrightarrow> i < n \<and> P i \<and> (\<forall>j<i. \<not> P j)"
  by (auto simp: find_Some_iff)

text \<open>
  C39: the table-driven search of \<^verbatim>\<open>__rt_ffs\<close>, byte by byte, finds for every 32-bit word what the
  search bit by bit finds: one more than the index of the lowest bit set, and zero for no bit.
\<close>

theorem ffs_equals_reference: "rt_ffs v = ffs_reference v"
proof (cases "v = 0")
  case True
  have "List.find (bit (0 :: u32)) [0..<32] = None" by (simp add: find_None_iff)
  then show ?thesis using True by (simp add: ffs_reference_def)
next
  case False
  from rt_ffs_lowest [OF this] have "List.find (bit v) [0..<32] = Some (rt_ffs v - 1)" "0 < rt_ffs v"
    by (auto simp: find_first)
  then show ?thesis by (simp add: ffs_reference_def)
qed

end
