(* ===== verification/Kstate.thy ===== *)
theory Kstate
  imports Kobject Ffs
begin

unbundle bit_operations_syntax

text \<open>
  The state of the kernel: the threads, the lists their \<^verbatim>\<open>tlist\<close> node can be in,
  the ready-priority bitmap, the running thread, the timers and the tick. A thread is named
  by a number (its address). The lists of \<^verbatim>\<open>rt_list_t\<close> are HOL lists keyed by
  their head, as theory RtList justifies; \<^verbatim>\<open>rt_list_remove\<close> takes a node out of
  whichever list holds it. Code between disabling and enabling the interrupts is one step.
\<close>

section \<open>Data\<close>

type_synonym tid = nat

abbreviation (input) RT_THREAD_INIT :: u8 where "RT_THREAD_INIT \<equiv> 0x00"
abbreviation (input) RT_THREAD_READY :: u8 where "RT_THREAD_READY \<equiv> 0x01"
abbreviation (input) RT_THREAD_SUSPEND :: u8 where "RT_THREAD_SUSPEND \<equiv> 0x02"
abbreviation (input) RT_THREAD_CLOSE :: u8 where "RT_THREAD_CLOSE \<equiv> 0x04"
abbreviation (input) RT_THREAD_STAT_MASK :: u8 where "RT_THREAD_STAT_MASK \<equiv> 0x0f"

definition RT_THREAD_PRIORITY_MAX :: nat where
  "RT_THREAD_PRIORITY_MAX = 32"

record rt_thread =
  t_error :: int
  t_stat :: u8
  current_priority :: nat
  init_priority :: nat
  number_mask :: u32
  event_set :: u32
  event_info :: u8
  t_init_tick :: u32
  remaining_tick :: u32
  t_cleanup :: bool

datatype timer_id = ThreadTimer tid | UserTimer nat

abbreviation (input) RT_TIMER_FLAG_ACTIVATED :: u8 where "RT_TIMER_FLAG_ACTIVATED \<equiv> 0x1"
abbreviation (input) RT_TIMER_FLAG_PERIODIC :: u8 where "RT_TIMER_FLAG_PERIODIC \<equiv> 0x2"

record rt_timer =
  tm_flag :: u8
  init_tick :: u32
  timeout_tick :: u32

text \<open>The list heads a thread node can be linked to.\<close>

datatype list_id = Ready nat | Pending nat | Senders nat | Defunct

text \<open>The addresses of the kernel objects.\<close>

datatype kobj = ThreadObj tid | TimerObj timer_id | IpcObj nat

record kernel =
  threads :: "tid \<Rightarrow> rt_thread"
  lists :: "list_id \<Rightarrow> tid list"
  rt_thread_ready_priority_group :: u32
  rt_current_thread :: "tid option"
  rt_current_priority :: nat
  rt_scheduler_lock_nest :: "16 word"
  rt_interrupt_nest :: u8
  timers :: "timer_id \<Rightarrow> rt_timer"
  rt_timer_list :: "timer_id list"
  random_nr :: u32
  rt_tick :: u32
  objects :: "kobj object_store"
  switches :: "(tid option \<times> tid \<times> bool) list"
  fault :: bool

text \<open>
  \<open>switches\<close> logs the calls of the context-switch code of the port (from, to, whether
  in an interrupt); \<open>fault\<close> is set where the code would use the head of an empty list
  as a thread.
\<close>

definition upd_thread :: "tid \<Rightarrow> (rt_thread \<Rightarrow> rt_thread) \<Rightarrow> kernel \<Rightarrow> kernel" where
  "upd_thread t f k = k\<lparr>threads := (threads k)(t := f (threads k t))\<rparr>"

definition upd_timer :: "timer_id \<Rightarrow> (rt_timer \<Rightarrow> rt_timer) \<Rightarrow> kernel \<Rightarrow> kernel" where
  "upd_timer t f k = k\<lparr>timers := (timers k)(t := f (timers k t))\<rparr>"

definition upd_objects :: "(kobj object_store \<Rightarrow> kobj object_store) \<Rightarrow> kernel \<Rightarrow> kernel" where
  "upd_objects f k = k\<lparr>objects := f (objects k)\<rparr>"

definition stat_of :: "kernel \<Rightarrow> tid \<Rightarrow> u8" where
  "stat_of k t = t_stat (threads k t) AND RT_THREAD_STAT_MASK"

definition priority_of :: "kernel \<Rightarrow> tid \<Rightarrow> nat" where
  "priority_of k t = current_priority (threads k t)"

text \<open>The list primitives on the store of lists.\<close>

definition list_remove :: "tid \<Rightarrow> kernel \<Rightarrow> kernel" where
  "list_remove t k = k\<lparr>lists := (\<lambda>l. filter (\<lambda>x. x \<noteq> t) (lists k l))\<rparr>"

definition list_append :: "list_id \<Rightarrow> tid \<Rightarrow> kernel \<Rightarrow> kernel" where
  "list_append l t k = k\<lparr>lists := (lists k)(l := lists k l @ [t])\<rparr>"

definition list_push :: "list_id \<Rightarrow> tid \<Rightarrow> kernel \<Rightarrow> kernel" where
  "list_push l t k = k\<lparr>lists := (lists k)(l := t # lists k l)\<rparr>"

lemmas kstate_defs = upd_thread_def upd_timer_def upd_objects_def stat_of_def priority_of_def
  list_remove_def list_append_def list_push_def

section \<open>The scheduler, \<^verbatim>\<open>src/scheduler.c\<close>\<close>

definition rt_system_scheduler_init :: "kernel \<Rightarrow> kernel" where
  "rt_system_scheduler_init k =
    k\<lparr>rt_scheduler_lock_nest := 0,
      lists := (\<lambda>l. case l of Ready p \<Rightarrow> if p < RT_THREAD_PRIORITY_MAX then [] else lists k l
                            | Defunct \<Rightarrow> [] | _ \<Rightarrow> lists k l),
      rt_current_priority := RT_THREAD_PRIORITY_MAX - 1,
      rt_current_thread := None,
      rt_thread_ready_priority_group := 0\<rparr>"

definition rt_system_scheduler_start :: "kernel \<Rightarrow> kernel" where
  "rt_system_scheduler_start k =
    (if rt_thread_ready_priority_group k = 0 then k\<lparr>fault := True\<rparr>
     else case lists k (Ready (rt_ffs (rt_thread_ready_priority_group k) - 1)) of
       [] \<Rightarrow> k\<lparr>fault := True\<rparr>
     | to_thread # _ \<Rightarrow>
         k\<lparr>rt_current_thread := Some to_thread, switches := switches k @ [(None, to_thread, False)]\<rparr>)"

definition rt_schedule :: "kernel \<Rightarrow> kernel" where
  "rt_schedule k =
    (if rt_scheduler_lock_nest k = 0
     then if rt_thread_ready_priority_group k = 0 then k\<lparr>fault := True\<rparr>
       else let highest_ready_priority = rt_ffs (rt_thread_ready_priority_group k) - 1 in
         case lists k (Ready highest_ready_priority) of
           [] \<Rightarrow> k\<lparr>fault := True\<rparr>
         | to_thread # _ \<Rightarrow>
             if Some to_thread \<noteq> rt_current_thread k
             then k\<lparr>rt_current_priority := highest_ready_priority,
                    rt_current_thread := Some to_thread,
                    switches := switches k @ [(rt_current_thread k, to_thread, rt_interrupt_nest k \<noteq> 0)]\<rparr>
             else k
     else k)"

definition rt_schedule_insert_thread :: "tid \<Rightarrow> kernel \<Rightarrow> kernel" where
  "rt_schedule_insert_thread t k =
    (let k1 = upd_thread t (\<lambda>th. th\<lparr>t_stat := RT_THREAD_READY OR (t_stat th AND NOT RT_THREAD_STAT_MASK)\<rparr>) k;
         k2 = list_append (Ready (priority_of k1 t)) t k1
     in k2\<lparr>rt_thread_ready_priority_group :=
              rt_thread_ready_priority_group k2 OR number_mask (threads k2 t)\<rparr>)"

definition rt_schedule_remove_thread :: "tid \<Rightarrow> kernel \<Rightarrow> kernel" where
  "rt_schedule_remove_thread t k =
    (let k1 = list_remove t k
     in if lists k1 (Ready (priority_of k1 t)) = []
        then k1\<lparr>rt_thread_ready_priority_group :=
                 rt_thread_ready_priority_group k1 AND NOT (number_mask (threads k1 t))\<rparr>
        else k1)"

definition rt_enter_critical :: "kernel \<Rightarrow> kernel" where
  "rt_enter_critical k = k\<lparr>rt_scheduler_lock_nest := rt_scheduler_lock_nest k + 1\<rparr>"

definition rt_exit_critical :: "kernel \<Rightarrow> kernel" where
  "rt_exit_critical k =
    (let k1 = k\<lparr>rt_scheduler_lock_nest := rt_scheduler_lock_nest k - 1\<rparr>
     in if sint (rt_scheduler_lock_nest k1) \<le> 0
        then rt_schedule (k1\<lparr>rt_scheduler_lock_nest := 0\<rparr>)
        else k1)"

definition rt_critical_level :: "kernel \<Rightarrow> 16 word" where
  "rt_critical_level k = rt_scheduler_lock_nest k"

text \<open>Interrupt nesting, \<^verbatim>\<open>src/irq.c\<close>.\<close>

definition rt_interrupt_enter :: "kernel \<Rightarrow> kernel" where
  "rt_interrupt_enter k = k\<lparr>rt_interrupt_nest := rt_interrupt_nest k + 1\<rparr>"

definition rt_interrupt_leave :: "kernel \<Rightarrow> kernel" where
  "rt_interrupt_leave k = k\<lparr>rt_interrupt_nest := rt_interrupt_nest k - 1\<rparr>"

definition rt_interrupt_get_nest :: "kernel \<Rightarrow> u8" where
  "rt_interrupt_get_nest k = rt_interrupt_nest k"

end
