(* ===== verification/Scheduler.thy ===== *)
theory Scheduler
  imports Kstate
begin

unbundle bit_operations_syntax

text \<open>
  The invariant of the scheduler and what \<^verbatim>\<open>rt_schedule\<close> promises. The ready
  lists hold exactly the threads that are ready, each in the list of its priority; bit
  \<open>p\<close> of the bitmap says whether list \<open>p\<close> is not empty; no thread node is linked
  twice. While an operation moves a thread, that thread belongs to no list: the set \<open>X\<close>
  of \<open>sched_inv_x X\<close> holds such threads.
\<close>

section \<open>The invariant\<close>

definition mask_ok :: "rt_thread \<Rightarrow> bool" where
  "mask_ok th \<longleftrightarrow> current_priority th < RT_THREAD_PRIORITY_MAX \<and>
     number_mask th = push_bit (current_priority th) 1"

definition sched_inv_x :: "tid set \<Rightarrow> kernel \<Rightarrow> bool" where
  "sched_inv_x X k \<longleftrightarrow>
     (\<forall>l. distinct (lists k l)) \<and>
     (\<forall>l l' t. t \<in> set (lists k l) \<longrightarrow> t \<in> set (lists k l') \<longrightarrow> l = l') \<and>
     (\<forall>t\<in>X. \<forall>l. t \<notin> set (lists k l)) \<and>
     (\<forall>t p. t \<notin> X \<longrightarrow>
        (t \<in> set (lists k (Ready p)) \<longleftrightarrow> stat_of k t = RT_THREAD_READY \<and> priority_of k t = p)) \<and>
     (\<forall>t. t \<notin> X \<longrightarrow> stat_of k t \<noteq> RT_THREAD_INIT \<longrightarrow> stat_of k t \<noteq> RT_THREAD_CLOSE \<longrightarrow>
        mask_ok (threads k t)) \<and>
     (\<forall>p<RT_THREAD_PRIORITY_MAX. bit (rt_thread_ready_priority_group k) p \<longleftrightarrow> lists k (Ready p) \<noteq> [])"

abbreviation sched_inv :: "kernel \<Rightarrow> bool" where
  "sched_inv \<equiv> sched_inv_x {}"

lemma sched_inv_x_cong:
  assumes "lists k' = lists k" "threads k' = threads k"
    "rt_thread_ready_priority_group k' = rt_thread_ready_priority_group k"
  shows "sched_inv_x X k' = sched_inv_x X k"
  using assms by (simp add: sched_inv_x_def stat_of_def priority_of_def)

text \<open>Fields the invariant does not read.\<close>

lemma sched_inv_x_frame [simp]:
  "sched_inv_x X (k\<lparr>rt_current_thread := a\<rparr>) = sched_inv_x X k"
  "sched_inv_x X (k\<lparr>rt_current_priority := b\<rparr>) = sched_inv_x X k"
  "sched_inv_x X (k\<lparr>rt_scheduler_lock_nest := c\<rparr>) = sched_inv_x X k"
  "sched_inv_x X (k\<lparr>rt_interrupt_nest := d\<rparr>) = sched_inv_x X k"
  "sched_inv_x X (k\<lparr>timers := e\<rparr>) = sched_inv_x X k"
  "sched_inv_x X (k\<lparr>rt_timer_list := f\<rparr>) = sched_inv_x X k"
  "sched_inv_x X (k\<lparr>random_nr := g\<rparr>) = sched_inv_x X k"
  "sched_inv_x X (k\<lparr>rt_tick := h\<rparr>) = sched_inv_x X k"
  "sched_inv_x X (k\<lparr>objects := i\<rparr>) = sched_inv_x X k"
  "sched_inv_x X (k\<lparr>switches := j\<rparr>) = sched_inv_x X k"
  "sched_inv_x X (k\<lparr>fault := m\<rparr>) = sched_inv_x X k"
  by (rule sched_inv_x_cong; simp)+

text \<open>An update of a thread that keeps its state, priority and mask.\<close>

definition sched_neutral :: "(rt_thread \<Rightarrow> rt_thread) \<Rightarrow> bool" where
  "sched_neutral f \<longleftrightarrow> (\<forall>th. t_stat (f th) = t_stat th \<and> current_priority (f th) = current_priority th \<and>
     number_mask (f th) = number_mask th)"

lemma sched_inv_x_neutral: "sched_neutral f \<Longrightarrow> sched_inv_x X (upd_thread t f k) = sched_inv_x X k"
  by (auto simp: sched_inv_x_def sched_neutral_def kstate_defs mask_ok_def)

lemma sched_neutral_fields [simp]:
  "sched_neutral (\<lambda>th. th\<lparr>t_error := e\<rparr>)"
  "sched_neutral (\<lambda>th. th\<lparr>event_set := s\<rparr>)"
  "sched_neutral (\<lambda>th. th\<lparr>event_info := i\<rparr>)"
  "sched_neutral (\<lambda>th. th\<lparr>remaining_tick := r\<rparr>)"
  "sched_neutral (\<lambda>th. th\<lparr>remaining_tick := remaining_tick th - 1\<rparr>)"
  "sched_neutral (\<lambda>th. th\<lparr>remaining_tick := t_init_tick th\<rparr>)"
  "sched_neutral (\<lambda>th. th\<lparr>event_set := s, event_info := i\<rparr>)"
  by (simp_all add: sched_neutral_def)

section \<open>Moving one thread\<close>

lemma bit_prio_mask: "p < 32 \<Longrightarrow> bit (2 ^ p :: u32) q \<longleftrightarrow> q = p"
  by (auto simp: bit_exp_iff possible_bit_def)

text \<open>Taking a thread out of the lists.\<close>

lemma remove_thread_lists: "lists (rt_schedule_remove_thread t k) l = filter (\<lambda>x. x \<noteq> t) (lists k l)"
  by (simp add: rt_schedule_remove_thread_def list_remove_def Let_def)

lemma remove_thread_threads [simp]: "threads (rt_schedule_remove_thread t k) = threads k"
  by (simp add: rt_schedule_remove_thread_def list_remove_def Let_def)

lemma remove_thread_frame [kframe]:
  "timers (rt_schedule_remove_thread t k) = timers k"
  "rt_timer_list (rt_schedule_remove_thread t k) = rt_timer_list k"
  "rt_current_thread (rt_schedule_remove_thread t k) = rt_current_thread k"
  "rt_scheduler_lock_nest (rt_schedule_remove_thread t k) = rt_scheduler_lock_nest k"
  "rt_interrupt_nest (rt_schedule_remove_thread t k) = rt_interrupt_nest k"
  "rt_tick (rt_schedule_remove_thread t k) = rt_tick k"
  "objects (rt_schedule_remove_thread t k) = objects k"
  "fault (rt_schedule_remove_thread t k) = fault k"
  by (simp_all add: rt_schedule_remove_thread_def list_remove_def Let_def)

lemma insert_thread_frame [kframe]:
  "timers (rt_schedule_insert_thread t k) = timers k"
  "rt_timer_list (rt_schedule_insert_thread t k) = rt_timer_list k"
  "rt_current_thread (rt_schedule_insert_thread t k) = rt_current_thread k"
  "rt_scheduler_lock_nest (rt_schedule_insert_thread t k) = rt_scheduler_lock_nest k"
  "rt_interrupt_nest (rt_schedule_insert_thread t k) = rt_interrupt_nest k"
  "rt_tick (rt_schedule_insert_thread t k) = rt_tick k"
  "objects (rt_schedule_insert_thread t k) = objects k"
  "fault (rt_schedule_insert_thread t k) = fault k"
  by (simp_all add: rt_schedule_insert_thread_def kstate_defs Let_def)

lemma remove_thread_group:
  assumes "mask_ok (threads k t)"
  shows "bit (rt_thread_ready_priority_group (rt_schedule_remove_thread t k)) p \<longleftrightarrow>
    bit (rt_thread_ready_priority_group k) p \<and>
    \<not> (p = priority_of k t \<and> filter (\<lambda>x. x \<noteq> t) (lists k (Ready (priority_of k t))) = [])"
proof -
  have "bit (number_mask (threads k t)) p \<longleftrightarrow> p = priority_of k t"
    using assms by (simp add: mask_ok_def priority_of_def bit_prio_mask RT_THREAD_PRIORITY_MAX_def)
  then show ?thesis
    by (auto simp: rt_schedule_remove_thread_def list_remove_def priority_of_def Let_def
        bit_and_iff bit_not_iff dest: bit_imp_le_length)
qed

lemma sched_inv_remove:
  assumes inv: "sched_inv_x X k" and t: "t \<notin> X" and m: "mask_ok (threads k t)"
  shows "sched_inv_x (insert t X) (rt_schedule_remove_thread t k)"
proof -
  let ?k = "rt_schedule_remove_thread t k"
  have "bit (rt_thread_ready_priority_group ?k) p \<longleftrightarrow> lists ?k (Ready p) \<noteq> []"
    if p: "p < RT_THREAD_PRIORITY_MAX" for p
  proof (cases "p = priority_of k t")
    case True
    then show ?thesis
      using inv p by (auto simp: remove_thread_group [OF m] remove_thread_lists sched_inv_x_def
          filter_empty_conv)
  next
    case False
    then have "t \<notin> set (lists k (Ready p))" using inv t by (auto simp: sched_inv_x_def)
    then show ?thesis
      using inv p False by (auto simp: remove_thread_group [OF m] remove_thread_lists sched_inv_x_def)
  qed
  then show ?thesis
    using inv by (fastforce simp: sched_inv_x_def remove_thread_lists stat_of_def priority_of_def)
qed

lemma remove_thread_upd:
  "\<lbrakk>\<And>th. current_priority (f th) = current_priority th \<and> number_mask (f th) = number_mask th\<rbrakk> \<Longrightarrow>
   rt_schedule_remove_thread t (upd_thread u f k) = upd_thread u f (rt_schedule_remove_thread t k)"
  by (auto simp: rt_schedule_remove_thread_def kstate_defs Let_def)

text \<open>While a thread is in no list its fields may change freely.\<close>

lemma sched_inv_floating: "sched_inv_x X k \<Longrightarrow> t \<in> X \<Longrightarrow> sched_inv_x X (upd_thread t f k)"
  by (auto simp: sched_inv_x_def kstate_defs)

text \<open>Putting it back: into its ready list, into another list, or nowhere.\<close>

lemma stat_ready_mask: "(RT_THREAD_READY OR (s AND NOT RT_THREAD_STAT_MASK)) AND RT_THREAD_STAT_MASK = RT_THREAD_READY"
  "(RT_THREAD_SUSPEND OR (s AND NOT RT_THREAD_STAT_MASK)) AND RT_THREAD_STAT_MASK = RT_THREAD_SUSPEND"
  by (rule bit_eqI; auto simp: bit_simps)+

lemma insert_thread_threads:
  "threads (rt_schedule_insert_thread t k) =
    (threads k)(t := (threads k t)\<lparr>t_stat := RT_THREAD_READY OR (t_stat (threads k t) AND NOT RT_THREAD_STAT_MASK)\<rparr>)"
  by (simp add: rt_schedule_insert_thread_def kstate_defs Let_def)

lemma insert_thread_lists:
  "lists (rt_schedule_insert_thread t k) =
    (lists k)(Ready (priority_of k t) := lists k (Ready (priority_of k t)) @ [t])"
  by (simp add: rt_schedule_insert_thread_def kstate_defs Let_def)

lemma insert_thread_group:
  "rt_thread_ready_priority_group (rt_schedule_insert_thread t k) =
    rt_thread_ready_priority_group k OR number_mask (threads k t)"
  by (simp add: rt_schedule_insert_thread_def kstate_defs Let_def)

lemma insert_thread_stat [simp]: "stat_of (rt_schedule_insert_thread t k) t = RT_THREAD_READY"
proof -
  have "t_stat (threads (rt_schedule_insert_thread t k) t) =
      RT_THREAD_READY OR (t_stat (threads k t) AND NOT RT_THREAD_STAT_MASK)"
    by (simp add: insert_thread_threads)
  then show ?thesis unfolding stat_of_def by (simp only: stat_ready_mask)
qed

lemma sched_inv_insert:
  assumes inv: "sched_inv_x X k" and t: "t \<in> X" and m: "mask_ok (threads k t)"
  shows "sched_inv_x (X - {t}) (rt_schedule_insert_thread t k)"
proof -
  let ?k = "rt_schedule_insert_thread t k" and ?p = "priority_of k t"
  have fresh: "\<And>l. t \<notin> set (lists k l)" using inv t by (auto simp: sched_inv_x_def)
  have "bit (number_mask (threads k t)) p \<longleftrightarrow> p = ?p" for p
    using m by (simp add: mask_ok_def priority_of_def bit_prio_mask RT_THREAD_PRIORITY_MAX_def)
  then have grp: "bit (rt_thread_ready_priority_group ?k) p \<longleftrightarrow> lists ?k (Ready p) \<noteq> []"
    if "p < RT_THREAD_PRIORITY_MAX" for p
    using inv that by (auto simp: insert_thread_group insert_thread_lists bit_or_iff sched_inv_x_def)
  have other: "stat_of ?k u = stat_of k u" "priority_of ?k u = priority_of k u" "threads ?k u = threads k u"
    if "u \<noteq> t" for u
    using that by (simp_all add: insert_thread_threads stat_of_def priority_of_def)
  have me: "priority_of ?k t = ?p" "mask_ok (threads ?k t)"
    using m by (simp_all add: insert_thread_threads priority_of_def mask_ok_def)
  have ready: "u \<in> set (lists ?k (Ready p)) \<longleftrightarrow> stat_of ?k u = RT_THREAD_READY \<and> priority_of ?k u = p"
    if "u \<notin> X - {t}" for u p
  proof (cases "u = t")
    case True
    then show ?thesis using fresh me by (auto simp: insert_thread_lists)
  next
    case False
    then show ?thesis using inv that other [OF False] by (auto simp: insert_thread_lists sched_inv_x_def)
  qed
  have mask: "stat_of ?k u \<noteq> RT_THREAD_INIT \<longrightarrow> stat_of ?k u \<noteq> RT_THREAD_CLOSE \<longrightarrow> mask_ok (threads ?k u)" if "u \<notin> X - {t}" for u
    using inv that other [of u] me by (cases "u = t") (auto simp: sched_inv_x_def)
  show ?thesis
    using inv fresh grp ready mask
    unfolding sched_inv_x_def by (auto simp: insert_thread_lists split: if_splits)
qed

lemma sched_inv_park:
  assumes "sched_inv_x X k" "t \<in> X" "stat_of k t \<noteq> RT_THREAD_READY"
    and "stat_of k t \<noteq> RT_THREAD_INIT \<Longrightarrow> stat_of k t \<noteq> RT_THREAD_CLOSE \<Longrightarrow> mask_ok (threads k t)"
    and "lists k' = (lists k)(l := xs @ t # ys)" "lists k l = xs @ ys" "\<And>p. l \<noteq> Ready p"
    and "threads k' = threads k" "rt_thread_ready_priority_group k' = rt_thread_ready_priority_group k"
  shows "sched_inv_x (X - {t}) k'"
proof -
  have "distinct (xs @ ys)" "set (xs @ ys) \<inter> {t} = {}"
    using assms(1,2) assms(6) [symmetric] by (auto simp: sched_inv_x_def)
  moreover have eqs: "stat_of k' = stat_of k" "priority_of k' = priority_of k"
    using assms(8) by (auto simp: stat_of_def priority_of_def fun_eq_iff)
  moreover have "set (lists k' m) = (if m = l then insert t (set (lists k l)) else set (lists k m))" for m
    using assms(5,6) by auto
  moreover have "lists k' (Ready p) = lists k (Ready p)" for p
    using assms(5) assms(7) [of p, symmetric] by simp
  ultimately show ?thesis
    using assms(1-4,7-9) unfolding sched_inv_x_def
    by (auto simp: assms(5) split: if_splits)
qed

lemma sched_inv_drop:
  assumes "sched_inv_x X k" "t \<in> X" "stat_of k t \<noteq> RT_THREAD_READY"
    and "stat_of k t \<noteq> RT_THREAD_INIT \<Longrightarrow> stat_of k t \<noteq> RT_THREAD_CLOSE \<Longrightarrow> mask_ok (threads k t)"
  shows "sched_inv_x (X - {t}) k"
  using assms unfolding sched_inv_x_def by auto

section \<open>The choice of the scheduler\<close>

text \<open>The running thread is the first of the ready threads of the highest priority.\<close>

definition runs_top :: "kernel \<Rightarrow> bool" where
  "runs_top k \<longleftrightarrow> (\<exists>p t ts. rt_current_thread k = Some t \<and> lists k (Ready p) = t # ts \<and>
     (\<forall>q<p. lists k (Ready q) = []))"

lemma ready_priority_bound:
  "sched_inv k \<Longrightarrow> lists k (Ready p) \<noteq> [] \<Longrightarrow> p < RT_THREAD_PRIORITY_MAX"
proof -
  assume inv: "sched_inv k" and "lists k (Ready p) \<noteq> []"
  then obtain t where "t \<in> set (lists k (Ready p))" by (cases "lists k (Ready p)") auto
  then have "stat_of k t = RT_THREAD_READY" "priority_of k t = p"
    using inv by (auto simp: sched_inv_x_def)
  then show ?thesis using inv by (auto simp: sched_inv_x_def mask_ok_def priority_of_def)
qed

lemma group_zero_iff:
  assumes "sched_inv k"
  shows "rt_thread_ready_priority_group k = 0 \<longleftrightarrow> (\<forall>p. lists k (Ready p) = [])"
proof
  assume "rt_thread_ready_priority_group k = 0"
  then show "\<forall>p. lists k (Ready p) = []"
    using assms ready_priority_bound [OF assms] by (fastforce simp: sched_inv_x_def)
next
  assume *: "\<forall>p. lists k (Ready p) = []"
  have "\<not> bit (rt_thread_ready_priority_group k) n" for n
  proof
    assume b: "bit (rt_thread_ready_priority_group k) n"
    then have "n < RT_THREAD_PRIORITY_MAX"
      using bit_imp_le_length [OF b] by (simp add: RT_THREAD_PRIORITY_MAX_def)
    with b * assms show False by (simp add: sched_inv_x_def)
  qed
  then show "rt_thread_ready_priority_group k = 0"
    by (intro bit_eqI) simp
qed

lemma ffs_first_ready:
  assumes inv: "sched_inv k" and ne: "rt_thread_ready_priority_group k \<noteq> 0"
  defines "p \<equiv> rt_ffs (rt_thread_ready_priority_group k) - 1"
  shows "lists k (Ready p) \<noteq> [] \<and> (\<forall>q<p. lists k (Ready q) = [])"
proof -
  note f = rt_ffs_lowest [OF ne]
  have "p < RT_THREAD_PRIORITY_MAX" using f by (auto simp: p_def RT_THREAD_PRIORITY_MAX_def)
  with f show ?thesis
    using inv by (auto simp: sched_inv_x_def p_def)
qed

lemma schedule_sched_inv [simp]: "sched_inv_x X (rt_schedule k) = sched_inv_x X k"
  by (auto simp: rt_schedule_def Let_def split: list.splits)

lemma schedule_frame [kframe]:
  "lists (rt_schedule k) = lists k" "threads (rt_schedule k) = threads k"
  "timers (rt_schedule k) = timers k" "rt_timer_list (rt_schedule k) = rt_timer_list k"
  "rt_tick (rt_schedule k) = rt_tick k" "objects (rt_schedule k) = objects k"
  "rt_thread_ready_priority_group (rt_schedule k) = rt_thread_ready_priority_group k"
  "rt_scheduler_lock_nest (rt_schedule k) = rt_scheduler_lock_nest k"
  "rt_interrupt_nest (rt_schedule k) = rt_interrupt_nest k"
  by (auto simp: rt_schedule_def Let_def split: list.splits)

lemma schedule_locked: "rt_scheduler_lock_nest k \<noteq> 0 \<Longrightarrow> rt_schedule k = k"
  by (simp add: rt_schedule_def)

lemma schedule_runs_top:
  assumes inv: "sched_inv k" and lock: "rt_scheduler_lock_nest k = 0"
    and ready: "lists k (Ready r) \<noteq> []"
  shows "runs_top (rt_schedule k) \<and> fault (rt_schedule k) = fault k"
proof -
  have ne: "rt_thread_ready_priority_group k \<noteq> 0"
    using group_zero_iff [OF inv] ready by auto
  let ?p = "rt_ffs (rt_thread_ready_priority_group k) - 1"
  obtain t ts where l: "lists k (Ready ?p) = t # ts"
    using ffs_first_ready [OF inv ne] by (cases "lists k (Ready ?p)") auto
  have "rt_current_thread (rt_schedule k) = Some t" "fault (rt_schedule k) = fault k"
    using l ne lock by (auto simp: rt_schedule_def Let_def)
  then show ?thesis
    using l ffs_first_ready [OF inv ne] by (auto simp: runs_top_def kframe)
qed

lemma runs_top_highest:
  assumes inv: "sched_inv k" and top: "runs_top k"
  shows "\<exists>t. rt_current_thread k = Some t \<and> stat_of k t = RT_THREAD_READY \<and>
    (\<forall>u. stat_of k u = RT_THREAD_READY \<longrightarrow> priority_of k t \<le> priority_of k u)"
proof -
  obtain p t ts where t: "rt_current_thread k = Some t" "lists k (Ready p) = t # ts"
    "\<forall>q<p. lists k (Ready q) = []"
    using top by (auto simp: runs_top_def)
  then have "t \<in> set (lists k (Ready p))" by simp
  then have me: "stat_of k t = RT_THREAD_READY" "priority_of k t = p"
    using inv by (auto simp: sched_inv_x_def)
  have "p \<le> priority_of k u" if "stat_of k u = RT_THREAD_READY" for u
  proof (rule ccontr)
    assume "\<not> p \<le> priority_of k u"
    moreover have "u \<in> set (lists k (Ready (priority_of k u)))"
      using inv that by (simp add: sched_inv_x_def)
    ultimately show False using t(3) by auto
  qed
  with t(1) me show ?thesis by auto
qed

lemma exit_critical_sched_inv: "sched_inv k \<Longrightarrow> sched_inv (rt_exit_critical k)"
  by (simp add: rt_exit_critical_def Let_def)

end
