(* ===== verification/Timer.thy ===== *)
theory Timer
  imports Kstate
begin

unbundle bit_operations_syntax

text \<open>
  The timer list of \<^verbatim>\<open>src/timer.c\<close> for the configured one-level skip list: the
  timers of the system, ordered by the tick at which they expire. Ticks wrap around at 2^32,
  and the code compares them by the unsigned difference against \<open>RT_TICK_MAX / 2\<close>.
\<close>

section \<open>The code\<close>

definition RT_TICK_MAX :: u32 where
  "RT_TICK_MAX = 0xffffffff"

definition half_range :: u32 where
  "half_range = RT_TICK_MAX div 2"

definition rt_tick_get :: "kernel \<Rightarrow> u32" where
  "rt_tick_get k = rt_tick k"

definition rt_tick_set :: "u32 \<Rightarrow> kernel \<Rightarrow> kernel" where
  "rt_tick_set tick k = k\<lparr>rt_tick := tick\<rparr>"

definition timer_object_init :: "timer_id \<Rightarrow> u32 \<Rightarrow> u8 \<Rightarrow> kernel \<Rightarrow> kernel" where
  "timer_object_init tm time flag k =
    upd_timer tm (\<lambda>_. \<lparr>tm_flag = flag AND NOT RT_TIMER_FLAG_ACTIVATED, init_tick = time, timeout_tick = 0\<rparr>) k"

definition rt_timer_list_next_timeout :: "kernel \<Rightarrow> u32" where
  "rt_timer_list_next_timeout k =
    (case rt_timer_list k of [] \<Rightarrow> RT_TICK_MAX | tm # _ \<Rightarrow> timeout_tick (timers k tm))"

definition timer_list_remove :: "timer_id \<Rightarrow> kernel \<Rightarrow> kernel" where
  "timer_list_remove tm k = k\<lparr>rt_timer_list := filter (\<lambda>x. x \<noteq> tm) (rt_timer_list k)\<rparr>"

definition rt_timer_init :: "timer_id \<Rightarrow> string \<Rightarrow> u32 \<Rightarrow> u8 \<Rightarrow> kernel \<Rightarrow> kernel" where
  "rt_timer_init tm name time flag k =
    timer_object_init tm time flag
      (upd_objects (rt_object_init (TimerObj tm) RT_Object_Class_Timer name) k)"

definition rt_timer_detach :: "timer_id \<Rightarrow> kernel \<Rightarrow> int \<times> kernel" where
  "rt_timer_detach tm k =
    (RT_EOK, upd_objects (rt_object_detach (TimerObj tm)) (timer_list_remove tm k))"

definition rt_timer_create ::
  "timer_id option \<Rightarrow> string \<Rightarrow> u32 \<Rightarrow> u8 \<Rightarrow> kernel \<Rightarrow> timer_id option \<times> kernel" where
  "rt_timer_create addr name time flag k =
    (case rt_object_allocate (map_option TimerObj addr) RT_Object_Class_Timer name (objects k) of
       (Some (TimerObj tm), st) \<Rightarrow> (Some tm, timer_object_init tm time flag (k\<lparr>objects := st\<rparr>))
     | (_, st) \<Rightarrow> (None, k\<lparr>objects := st\<rparr>))"

definition rt_timer_delete :: "timer_id \<Rightarrow> kernel \<Rightarrow> int \<times> kernel" where
  "rt_timer_delete tm k =
    (RT_EOK, upd_objects (rt_object_delete (TimerObj tm)) (timer_list_remove tm k))"

text \<open>
  The search of \<^verbatim>\<open>rt_timer_start\<close>: it passes timers that expire at the same tick
  (\<^verbatim>\<open>continue\<close>) and stops before the first one that expires later.
\<close>

fun timer_insert :: "(timer_id \<Rightarrow> u32) \<Rightarrow> timer_id \<Rightarrow> timer_id list \<Rightarrow> timer_id list" where
  "timer_insert tick_of tm [] = [tm]"
| "timer_insert tick_of tm (t # ts) =
    (if tick_of t - tick_of tm = 0 then t # timer_insert tick_of tm ts
     else if tick_of t - tick_of tm < half_range then tm # t # ts
     else t # timer_insert tick_of tm ts)"

definition rt_timer_start :: "timer_id \<Rightarrow> kernel \<Rightarrow> int \<times> kernel" where
  "rt_timer_start tm k =
    (let k1 = upd_timer tm (\<lambda>x. x\<lparr>tm_flag := tm_flag x AND NOT RT_TIMER_FLAG_ACTIVATED\<rparr>)
                (timer_list_remove tm k);
         k2 = upd_timer tm (\<lambda>x. x\<lparr>timeout_tick := rt_tick_get k1 + init_tick x\<rparr>) k1;
         k3 = k2\<lparr>rt_timer_list := timer_insert (\<lambda>x. timeout_tick (timers k2 x)) tm (rt_timer_list k2),
                 random_nr := random_nr k2 + 1\<rparr>
     in (RT_EOK, upd_timer tm (\<lambda>x. x\<lparr>tm_flag := tm_flag x OR RT_TIMER_FLAG_ACTIVATED\<rparr>) k3))"

definition rt_timer_stop :: "timer_id \<Rightarrow> kernel \<Rightarrow> int \<times> kernel" where
  "rt_timer_stop tm k =
    (if tm_flag (timers k tm) AND RT_TIMER_FLAG_ACTIVATED = 0 then (- RT_ERROR, k)
     else (RT_EOK, upd_timer tm (\<lambda>x. x\<lparr>tm_flag := tm_flag x AND NOT RT_TIMER_FLAG_ACTIVATED\<rparr>)
                     (timer_list_remove tm k)))"

datatype timer_cmd = RT_TIMER_CTRL_SET_TIME | RT_TIMER_CTRL_GET_TIME
  | RT_TIMER_CTRL_SET_ONESHOT | RT_TIMER_CTRL_SET_PERIODIC

text \<open>The argument is read or written through its pointer: it comes in and goes out.\<close>

fun rt_timer_control :: "timer_id \<Rightarrow> timer_cmd \<Rightarrow> u32 \<Rightarrow> kernel \<Rightarrow> u32 \<times> kernel" where
  "rt_timer_control tm RT_TIMER_CTRL_GET_TIME arg k = (init_tick (timers k tm), k)"
| "rt_timer_control tm RT_TIMER_CTRL_SET_TIME arg k = (arg, upd_timer tm (\<lambda>x. x\<lparr>init_tick := arg\<rparr>) k)"
| "rt_timer_control tm RT_TIMER_CTRL_SET_ONESHOT arg k =
    (arg, upd_timer tm (\<lambda>x. x\<lparr>tm_flag := tm_flag x AND NOT RT_TIMER_FLAG_PERIODIC\<rparr>) k)"
| "rt_timer_control tm RT_TIMER_CTRL_SET_PERIODIC arg k =
    (arg, upd_timer tm (\<lambda>x. x\<lparr>tm_flag := tm_flag x OR RT_TIMER_FLAG_PERIODIC\<rparr>) k)"

definition rt_timer_next_timeout_tick :: "kernel \<Rightarrow> u32" where
  "rt_timer_next_timeout_tick k = rt_timer_list_next_timeout k"

definition rt_system_timer_init :: "kernel \<Rightarrow> kernel" where
  "rt_system_timer_init k = k\<lparr>rt_timer_list := []\<rparr>"

text \<open>The test of \<^verbatim>\<open>rt_timer_check\<close>: the expiry tick is not in the future.\<close>

definition timer_due :: "u32 \<Rightarrow> kernel \<Rightarrow> timer_id \<Rightarrow> bool" where
  "timer_due current_tick k tm \<longleftrightarrow> current_tick - timeout_tick (timers k tm) < half_range"

section \<open>The order of the list\<close>

text \<open>
  Seen from a tick \<open>now\<close>, a timer has \<open>to_go\<close> ticks left. The order makes sense for
  timers less than half the range ahead, which is what the code asks of \<open>init_tick\<close>.
\<close>

definition to_go :: "u32 \<Rightarrow> (timer_id \<Rightarrow> u32) \<Rightarrow> timer_id \<Rightarrow> nat" where
  "to_go now tick_of tm = unat (tick_of tm - now)"

definition in_window :: "u32 \<Rightarrow> (timer_id \<Rightarrow> u32) \<Rightarrow> timer_id \<Rightarrow> bool" where
  "in_window now tick_of tm \<longleftrightarrow> to_go now tick_of tm < unat half_range"

lemma half_range_val: "half_range = 0x7fffffff" "unat half_range = 2147483647"
  by (simp_all add: half_range_def RT_TICK_MAX_def)

lemma diff_half:
  fixes x y :: u32
  assumes "unat x < 2147483647" "unat y < 2147483647"
  shows "x - y < 0x7fffffff \<longleftrightarrow> unat y \<le> unat x"
proof -
  have "unat (x - y) = (if unat y \<le> unat x then unat x - unat y else unat x + 4294967296 - unat y)"
    by (simp add: unat_sub_if_size word_size)
  moreover have "x - y < 0x7fffffff \<longleftrightarrow> unat (x - y) < 2147483647"
    by (simp add: word_less_nat_alt)
  ultimately show ?thesis using assms by auto
qed

lemma diff_window:
  assumes "in_window now tick_of a" "in_window now tick_of b"
  shows "tick_of a - tick_of b = 0 \<longleftrightarrow> to_go now tick_of a = to_go now tick_of b"
    and "tick_of a - tick_of b < half_range \<longleftrightarrow> to_go now tick_of b \<le> to_go now tick_of a"
proof -
  let ?x = "tick_of a - now" and ?y = "tick_of b - now"
  have w: "unat ?x < 2147483647" "unat ?y < 2147483647"
    using assms by (simp_all add: in_window_def to_go_def half_range_val)
  have d: "tick_of a - tick_of b = ?x - ?y" by simp
  have "unat ?x = unat ?y \<longleftrightarrow> ?x = ?y" by (rule word_unat_eq_iff [symmetric])
  then show "tick_of a - tick_of b = 0 \<longleftrightarrow> to_go now tick_of a = to_go now tick_of b"
    by (simp add: to_go_def)
  have "?x - ?y < 0x7fffffff \<longleftrightarrow> unat ?y \<le> unat ?x"
    by (rule diff_half [OF w])
  then show "tick_of a - tick_of b < half_range \<longleftrightarrow> to_go now tick_of b \<le> to_go now tick_of a"
    by (simp only: d half_range_val to_go_def)
qed

definition timer_sorted :: "u32 \<Rightarrow> (timer_id \<Rightarrow> u32) \<Rightarrow> timer_id list \<Rightarrow> bool" where
  "timer_sorted now tick_of ts \<longleftrightarrow>
     (\<forall>t\<in>set ts. in_window now tick_of t) \<and> sorted (map (to_go now tick_of) ts)"

lemma set_timer_insert [simp]: "set (timer_insert tick_of tm ts) = insert tm (set ts)"
  by (induction ts) auto

lemma distinct_timer_insert: "tm \<notin> set ts \<Longrightarrow> distinct ts \<Longrightarrow> distinct (timer_insert tick_of tm ts)"
  by (induction ts) auto

text \<open>
  In the window the search is a stable insertion: the new timer goes behind every timer that
  expires no later than it, and in front of all that expire later.
\<close>

lemma timer_insert_stable:
  assumes "timer_sorted now tick_of ts" "in_window now tick_of tm"
  shows "timer_insert tick_of tm ts =
    takeWhile (\<lambda>t. to_go now tick_of t \<le> to_go now tick_of tm) ts @ tm #
    dropWhile (\<lambda>t. to_go now tick_of t \<le> to_go now tick_of tm) ts"
  using assms
proof (induction ts)
  case (Cons t ts)
  then have w: "in_window now tick_of t" and "timer_sorted now tick_of ts"
    by (auto simp: timer_sorted_def)
  with Cons show ?case
    using diff_window [OF w Cons.prems(2)] by (auto simp: le_less)
qed simp

lemma timer_insert_sorted:
  assumes "timer_sorted now tick_of ts" "in_window now tick_of tm"
  shows "timer_sorted now tick_of (timer_insert tick_of tm ts)"
  using assms
proof (induction ts)
  case (Cons t ts)
  then have w: "in_window now tick_of t" and s: "timer_sorted now tick_of ts"
    by (auto simp: timer_sorted_def)
  then show ?case
    using Cons diff_window [OF w Cons.prems(2)]
    by (auto simp: timer_sorted_def)
qed (simp add: timer_sorted_def)

end
