(* ===== verification/Kinv.thy ===== *)
theory Kinv
  imports Scheduler Timer
begin

unbundle bit_operations_syntax

text \<open>
  The invariant of the whole kernel: the scheduler's invariant, every linked thread is in
  the state its list asks for, and the timer list holds armed timers once, a thread's own
  timer only while that thread is suspended. As in theory Scheduler the set \<open>X\<close> holds
  threads that an operation has in hand.
\<close>

section \<open>Definition\<close>

fun list_stat :: "list_id \<Rightarrow> u8" where
  "list_stat (Ready p) = RT_THREAD_READY"
| "list_stat (Pending n) = RT_THREAD_SUSPEND"
| "list_stat (Senders n) = RT_THREAD_SUSPEND"
| "list_stat Defunct = RT_THREAD_CLOSE"

definition home_ok :: "kernel \<Rightarrow> bool" where
  "home_ok k \<longleftrightarrow> (\<forall>l t. t \<in> set (lists k l) \<longrightarrow> stat_of k t = list_stat l)"

definition armed :: "kernel \<Rightarrow> timer_id \<Rightarrow> bool" where
  "armed k tm \<longleftrightarrow> tm_flag (timers k tm) AND RT_TIMER_FLAG_ACTIVATED \<noteq> 0"

definition timer_ok :: "kernel \<Rightarrow> bool" where
  "timer_ok k \<longleftrightarrow> distinct (rt_timer_list k) \<and> (\<forall>tm\<in>set (rt_timer_list k). armed k tm)"

definition sleepers_ok :: "tid set \<Rightarrow> kernel \<Rightarrow> bool" where
  "sleepers_ok X k \<longleftrightarrow>
     (\<forall>t. t \<notin> X \<longrightarrow> ThreadTimer t \<in> set (rt_timer_list k) \<longrightarrow> stat_of k t = RT_THREAD_SUSPEND)"

definition kinv_x :: "tid set \<Rightarrow> kernel \<Rightarrow> bool" where
  "kinv_x X k \<longleftrightarrow> sched_inv_x X k \<and> home_ok k \<and> timer_ok k \<and> sleepers_ok X k"

abbreviation kinv :: "kernel \<Rightarrow> bool" where
  "kinv \<equiv> kinv_x {}"

lemmas kinv_defs = kinv_x_def home_ok_def timer_ok_def sleepers_ok_def armed_def

lemma kinv_sched: "kinv_x X k \<Longrightarrow> sched_inv_x X k"
  by (simp add: kinv_x_def)

lemma kinv_mask_ok: "kinv_x X k \<Longrightarrow> t \<notin> X \<Longrightarrow> stat_of k t \<noteq> RT_THREAD_INIT \<Longrightarrow> stat_of k t \<noteq> RT_THREAD_CLOSE \<Longrightarrow>
   mask_ok (threads k t)"
  by (simp add: kinv_x_def sched_inv_x_def)

lemma kinv_x_cong:
  assumes "lists k' = lists k" "threads k' = threads k"
    "rt_thread_ready_priority_group k' = rt_thread_ready_priority_group k"
    "timers k' = timers k" "rt_timer_list k' = rt_timer_list k"
  shows "kinv_x X k' = kinv_x X k"
  using assms by (simp add: kinv_defs sched_inv_x_cong [OF assms(1-3)] stat_of_def)

lemma kinv_x_frame [simp]:
  "kinv_x X (k\<lparr>rt_current_thread := a\<rparr>) = kinv_x X k"
  "kinv_x X (k\<lparr>rt_current_priority := b\<rparr>) = kinv_x X k"
  "kinv_x X (k\<lparr>rt_scheduler_lock_nest := c\<rparr>) = kinv_x X k"
  "kinv_x X (k\<lparr>rt_interrupt_nest := d\<rparr>) = kinv_x X k"
  "kinv_x X (k\<lparr>random_nr := g\<rparr>) = kinv_x X k"
  "kinv_x X (k\<lparr>rt_tick := h\<rparr>) = kinv_x X k"
  "kinv_x X (k\<lparr>objects := i\<rparr>) = kinv_x X k"
  "kinv_x X (k\<lparr>switches := j\<rparr>) = kinv_x X k"
  "kinv_x X (k\<lparr>fault := m\<rparr>) = kinv_x X k"
  "kinv_x X (upd_objects f k) = kinv_x X k"
  by (rule kinv_x_cong; simp add: upd_objects_def)+

lemma kinv_schedule [simp]: "kinv_x X (rt_schedule k) = kinv_x X k"
  by (rule kinv_x_cong) (simp_all add: kframe)

lemma stat_neutral: "sched_neutral f \<Longrightarrow> stat_of (upd_thread t f k) = stat_of k"
  by (auto simp: sched_neutral_def kstate_defs)

lemma upd_thread_frame [simp]:
  "lists (upd_thread t f k) = lists k" "timers (upd_thread t f k) = timers k"
  "rt_timer_list (upd_thread t f k) = rt_timer_list k"
  "rt_current_thread (upd_thread t f k) = rt_current_thread k"
  "rt_tick (upd_thread t f k) = rt_tick k"
  "rt_scheduler_lock_nest (upd_thread t f k) = rt_scheduler_lock_nest k"
  "rt_thread_ready_priority_group (upd_thread t f k) = rt_thread_ready_priority_group k"
  by (simp_all add: upd_thread_def)

lemma kinv_neutral: "sched_neutral f \<Longrightarrow> kinv_x X (upd_thread t f k) = kinv_x X k"
  by (simp add: kinv_x_def sched_inv_x_neutral home_ok_def timer_ok_def sleepers_ok_def armed_def
      stat_neutral)

section \<open>Threads in hand\<close>

lemma stat_of_other [simp]: "u \<noteq> t \<Longrightarrow> stat_of (upd_thread t f k) u = stat_of k u"
  by (simp add: kstate_defs)

lemma kinv_floating: "kinv_x X k \<Longrightarrow> t \<in> X \<Longrightarrow> kinv_x X (upd_thread t f k)"
proof -
  assume inv: "kinv_x X k" and t: "t \<in> X"
  then have "\<And>l. t \<notin> set (lists k l)" by (auto simp: kinv_x_def sched_inv_x_def)
  moreover have "lists (upd_thread t f k) = lists k" "timers (upd_thread t f k) = timers k"
    "rt_timer_list (upd_thread t f k) = rt_timer_list k"
    by (simp_all add: upd_thread_def)
  ultimately show ?thesis
    using inv t sched_inv_floating [of X k t f]
    by (auto simp: kinv_defs) (metis stat_of_other)+
qed

lemma kinv_remove:
  assumes "kinv_x X k" "t \<notin> X" "stat_of k t \<noteq> RT_THREAD_INIT" "stat_of k t \<noteq> RT_THREAD_CLOSE"
  shows "kinv_x (insert t X) (rt_schedule_remove_thread t k)"
proof -
  show ?thesis
    using assms sched_inv_remove [OF kinv_sched [OF assms(1)] assms(2) kinv_mask_ok [OF assms]]
    by (auto simp: kinv_defs remove_thread_lists stat_of_def kframe)
qed

lemma kinv_take_init:
  assumes "kinv_x X k" "stat_of k t = RT_THREAD_INIT"
  shows "kinv_x (insert t X) k"
proof -
  have "t \<notin> set (lists k l)" for l
  proof
    assume "t \<in> set (lists k l)"
    then have "list_stat l = RT_THREAD_INIT" using assms by (auto simp: kinv_x_def home_ok_def)
    then show False by (cases l) auto
  qed
  then show ?thesis using assms by (auto simp: kinv_defs sched_inv_x_def)
qed

lemma kinv_unlink:
  assumes "kinv_x X k" "t \<notin> X" "stat_of k t \<noteq> RT_THREAD_READY"
  shows "kinv_x (insert t X) (list_remove t k)"
proof -
  have "filter (\<lambda>x. x \<noteq> t) (lists k (Ready p)) = lists k (Ready p)" for p
    using assms by (intro filter_neq_id) (auto simp: kinv_x_def sched_inv_x_def)
  then show ?thesis
    using assms by (fastforce simp: kinv_defs sched_inv_x_def list_remove_def stat_of_def priority_of_def)
qed

lemma kinv_insert:
  assumes "kinv_x X k" "t \<in> X" "mask_ok (threads k t)" "ThreadTimer t \<notin> set (rt_timer_list k)"
  shows "kinv_x (X - {t}) (rt_schedule_insert_thread t k)"
proof -
  let ?k = "rt_schedule_insert_thread t k"
  note eqs = insert_thread_frame(1,2) [of t k]
  have other: "stat_of ?k u = stat_of k u" if "u \<noteq> t" for u
    using that by (simp add: insert_thread_threads stat_of_def)
  have "home_ok ?k"
    unfolding home_ok_def
  proof (intro allI impI)
    fix l u assume "u \<in> set (lists ?k l)"
    then show "stat_of ?k u = list_stat l"
      using assms(1,2) other [of u]
      by (cases "u = t") (auto simp: insert_thread_lists kinv_defs sched_inv_x_def split: if_splits)
  qed
  moreover have "sleepers_ok (X - {t}) ?k"
    using assms(1,4) other unfolding sleepers_ok_def kinv_x_def eqs by (metis DiffI singletonD)
  ultimately show ?thesis
    using assms sched_inv_insert [OF kinv_sched [OF assms(1)] assms(2,3)]
    by (simp add: kinv_x_def timer_ok_def armed_def eqs)
qed

lemma kinv_park:
  assumes "kinv_x X k" "t \<in> X" "stat_of k t = list_stat l" "l = Defunct \<or> mask_ok (threads k t)"
    and "lists k' = (lists k)(l := xs @ t # ys)" "lists k l = xs @ ys" "\<And>p. l \<noteq> Ready p"
    and "threads k' = threads k" "rt_thread_ready_priority_group k' = rt_thread_ready_priority_group k"
    and "timers k' = timers k" "rt_timer_list k' = rt_timer_list k"
    and "ThreadTimer t \<in> set (rt_timer_list k) \<Longrightarrow> stat_of k t = RT_THREAD_SUSPEND"
  shows "kinv_x (X - {t}) k'"
proof -
  have nr: "stat_of k t \<noteq> RT_THREAD_READY" using assms(3,7) by (cases l) auto
  have m: "stat_of k t \<noteq> RT_THREAD_CLOSE \<Longrightarrow> mask_ok (threads k t)"
    using assms(3,4) by auto
  have s: "sched_inv_x (X - {t}) k'"
    by (rule sched_inv_park [OF kinv_sched [OF assms(1)] assms(2) nr m assms(5-9)])
  have eq: "stat_of k' = stat_of k" using assms(8) by (simp add: stat_of_def fun_eq_iff)
  have "set (lists k' m) = (if m = l then insert t (set (lists k l)) else set (lists k m))" for m
    using assms(5,6) by auto
  then have "home_ok k'"
    using assms(1,3) by (auto simp: home_ok_def eq kinv_x_def split: if_splits)
  moreover have "timer_ok k'" "sleepers_ok (X - {t}) k'"
    using assms by (auto simp: eq kinv_defs)
  ultimately show ?thesis using s by (simp add: kinv_x_def)
qed

lemma kinv_drop:
  assumes "kinv_x X k" "t \<in> X" "stat_of k t \<noteq> RT_THREAD_READY"
    and "stat_of k t \<noteq> RT_THREAD_INIT \<Longrightarrow> stat_of k t \<noteq> RT_THREAD_CLOSE \<Longrightarrow> mask_ok (threads k t)"
    and "ThreadTimer t \<in> set (rt_timer_list k) \<Longrightarrow> stat_of k t = RT_THREAD_SUSPEND"
  shows "kinv_x (X - {t}) k"
  using assms sched_inv_drop [OF kinv_sched [OF assms(1)] assms(2-4)]
  by (auto simp: kinv_defs)

section \<open>Timers\<close>

lemma kinv_timer_stop:
  assumes "kinv_x X k"
  shows "kinv_x X (snd (rt_timer_stop tm k)) \<and> tm \<notin> set (rt_timer_list (snd (rt_timer_stop tm k)))"
  using assms
  by (auto simp: rt_timer_stop_def kinv_defs timer_list_remove_def upd_timer_def stat_of_def
      sched_inv_x_def priority_of_def)

lemma timer_stop_subset: "set (rt_timer_list (snd (rt_timer_stop tm k))) \<subseteq> set (rt_timer_list k)"
  by (auto simp: rt_timer_stop_def timer_list_remove_def upd_timer_def)

lemma timer_stop_frame [kframe]:
  "threads (snd (rt_timer_stop tm k)) = threads k" "lists (snd (rt_timer_stop tm k)) = lists k"
  "rt_current_thread (snd (rt_timer_stop tm k)) = rt_current_thread k"
  "rt_scheduler_lock_nest (snd (rt_timer_stop tm k)) = rt_scheduler_lock_nest k"
  "rt_interrupt_nest (snd (rt_timer_stop tm k)) = rt_interrupt_nest k"
  "rt_tick (snd (rt_timer_stop tm k)) = rt_tick k" "objects (snd (rt_timer_stop tm k)) = objects k"
  "rt_thread_ready_priority_group (snd (rt_timer_stop tm k)) = rt_thread_ready_priority_group k"
  "fault (snd (rt_timer_stop tm k)) = fault k"
  by (simp_all add: rt_timer_stop_def timer_list_remove_def upd_timer_def)

lemma kinv_timer_detach:
  assumes "kinv_x X k"
  shows "kinv_x X (snd (rt_timer_detach tm k)) \<and> tm \<notin> set (rt_timer_list (snd (rt_timer_detach tm k)))"
proof -
  have "kinv_x X (timer_list_remove tm k)"
    using assms by (auto simp: kinv_defs timer_list_remove_def stat_of_def sched_inv_x_def priority_of_def)
  then show ?thesis by (simp add: rt_timer_detach_def upd_objects_def timer_list_remove_def)
qed

lemma timer_detach_frame [kframe]:
  "threads (snd (rt_timer_detach tm k)) = threads k" "lists (snd (rt_timer_detach tm k)) = lists k"
  "rt_current_thread (snd (rt_timer_detach tm k)) = rt_current_thread k"
  "rt_thread_ready_priority_group (snd (rt_timer_detach tm k)) = rt_thread_ready_priority_group k"
  by (simp_all add: rt_timer_detach_def timer_list_remove_def upd_objects_def)

lemma timer_start_list:
  "set (rt_timer_list (snd (rt_timer_start tm k))) = insert tm (set (rt_timer_list k))"
  by (auto simp: rt_timer_start_def Let_def upd_timer_def timer_list_remove_def)

lemma timer_start_frame [kframe]:
  "threads (snd (rt_timer_start tm k)) = threads k" "lists (snd (rt_timer_start tm k)) = lists k"
  "rt_current_thread (snd (rt_timer_start tm k)) = rt_current_thread k"
  "rt_scheduler_lock_nest (snd (rt_timer_start tm k)) = rt_scheduler_lock_nest k"
  "rt_interrupt_nest (snd (rt_timer_start tm k)) = rt_interrupt_nest k"
  "rt_tick (snd (rt_timer_start tm k)) = rt_tick k" "objects (snd (rt_timer_start tm k)) = objects k"
  "rt_thread_ready_priority_group (snd (rt_timer_start tm k)) = rt_thread_ready_priority_group k"
  "fault (snd (rt_timer_start tm k)) = fault k"
  by (simp_all add: rt_timer_start_def Let_def upd_timer_def timer_list_remove_def)

lemma and_or_activated: "(x OR RT_TIMER_FLAG_ACTIVATED) AND RT_TIMER_FLAG_ACTIVATED \<noteq> (0 :: u8)"
proof
  assume "(x OR RT_TIMER_FLAG_ACTIVATED) AND RT_TIMER_FLAG_ACTIVATED = 0"
  then have "bit ((x OR RT_TIMER_FLAG_ACTIVATED) AND RT_TIMER_FLAG_ACTIVATED) 0 = bit (0 :: u8) 0" by simp
  then show False by (simp add: bit_simps)
qed

lemma timer_start_ok:
  assumes "timer_ok k"
  shows "timer_ok (snd (rt_timer_start tm k))"
  using assms and_or_activated
  by (auto simp: timer_ok_def armed_def rt_timer_start_def Let_def upd_timer_def timer_list_remove_def
      intro!: distinct_timer_insert)

lemma kinv_timer_start:
  assumes inv: "kinv_x X k" and own: "\<And>t. tm = ThreadTimer t \<Longrightarrow> t \<notin> X \<Longrightarrow> stat_of k t = RT_THREAD_SUSPEND"
  shows "kinv_x X (snd (rt_timer_start tm k))"
proof -
  have "stat_of (snd (rt_timer_start tm k)) = stat_of k"
    by (simp add: stat_of_def kframe fun_eq_iff)
  then show ?thesis
    using inv own timer_start_ok [of k tm]
      sched_inv_x_cong [of "snd (rt_timer_start tm k)" k X]
    by (auto simp: kinv_x_def home_ok_def sleepers_ok_def kframe timer_start_list)
qed

lemma kinv_timer_control: "kinv_x X k \<Longrightarrow> kinv_x X (snd (rt_timer_control tm c arg k))"
proof -
  assume inv: "kinv_x X k"
  have *: "kinv_x X (upd_timer tm f k)"
    if "\<And>x. (tm_flag (f x) AND RT_TIMER_FLAG_ACTIVATED = 0) \<longleftrightarrow> (tm_flag x AND RT_TIMER_FLAG_ACTIVATED = 0)" for f
    using inv that by (auto simp: kinv_defs upd_timer_def stat_of_def sched_inv_x_def priority_of_def)
  have flags: "(x AND NOT RT_TIMER_FLAG_PERIODIC) AND RT_TIMER_FLAG_ACTIVATED = x AND RT_TIMER_FLAG_ACTIVATED"
    "(x OR RT_TIMER_FLAG_PERIODIC) AND RT_TIMER_FLAG_ACTIVATED = x AND RT_TIMER_FLAG_ACTIVATED" for x :: u8
    by (rule bit_eqI; auto simp: bit_simps)+
  have minus_flag: "NOT RT_TIMER_FLAG_PERIODIC = - 3" by simp
  show ?thesis
    using inv by (cases c) (auto intro!: * simp: flags [unfolded minus_flag])
qed

end
