(* ===== verification/Sample.thy ===== *)
theory Sample
  imports Kinv
begin

unbundle bit_operations_syntax

text \<open>
  A small kernel state the concrete instances of the theorems start from: two ready threads,
  1 running at priority 5 and 2 waiting for the processor at priority 9, no timer running,
  everything else as zeroed memory leaves it.
\<close>

definition blank_thread :: rt_thread where
  "blank_thread = \<lparr>t_error = 0, t_stat = RT_THREAD_INIT, current_priority = 0, init_priority = 0,
     number_mask = 0, event_set = 0, event_info = 0, t_init_tick = 0, remaining_tick = 0, t_cleanup = False\<rparr>"

definition ready_at :: "nat \<Rightarrow> rt_thread" where
  "ready_at p = blank_thread\<lparr>t_stat := RT_THREAD_READY, current_priority := p, init_priority := p,
     number_mask := push_bit p 1, t_init_tick := 10, remaining_tick := 10\<rparr>"

definition blank_timer :: rt_timer where
  "blank_timer = \<lparr>tm_flag = 0, init_tick = 0, timeout_tick = 0\<rparr>"

definition blank_store :: "kobj object_store" where
  "blank_store = \<lparr>obj = (\<lambda>_. \<lparr>ob_name = [], ob_type = 0, ob_flag = 0\<rparr>), container = (\<lambda>_. [])\<rparr>"

definition zeroed :: kernel where
  "zeroed = \<lparr>threads = (\<lambda>_. blank_thread), lists = (\<lambda>_. []), rt_thread_ready_priority_group = 0,
     rt_current_thread = None, rt_current_priority = 0, rt_scheduler_lock_nest = 0, rt_interrupt_nest = 0,
     timers = (\<lambda>_. blank_timer), rt_timer_list = [], random_nr = 0, rt_tick = 0, objects = blank_store,
     switches = [], fault = False\<rparr>"

definition two_ready :: kernel where
  "two_ready = zeroed\<lparr>threads := (\<lambda>_. blank_thread)(1 := ready_at 5, 2 := ready_at 9),
     lists := (\<lambda>_. [])(Ready 5 := [1], Ready 9 := [2]), rt_thread_ready_priority_group := 0x220,
     rt_current_thread := Some 1, rt_current_priority := 5\<rparr>"

lemmas sample_defs = blank_thread_def ready_at_def blank_timer_def zeroed_def two_ready_def

lemma zeroed_kinv: "kinv zeroed"
  by (simp add: kinv_defs sched_inv_x_def sample_defs stat_of_def)

lemma two_ready_stat: "stat_of two_ready t = (if t = 1 \<or> t = 2 then RT_THREAD_READY else RT_THREAD_INIT)"
  by (simp add: sample_defs stat_of_def)

lemma two_ready_priority: "priority_of two_ready t = (if t = 1 then 5 else if t = 2 then 9 else 0)"
  by (simp add: sample_defs priority_of_def)

lemma two_ready_lists:
  "lists two_ready l = (if l = Ready 5 then [1] else if l = Ready 9 then [2] else [])"
  by (simp add: two_ready_def zeroed_def)

lemma two_ready_fields:
  "rt_current_thread two_ready = Some 1" "rt_scheduler_lock_nest two_ready = 0" "rt_timer_list two_ready = []"
  "rt_thread_ready_priority_group two_ready = 0x220" "timers two_ready = (\<lambda>_. blank_timer)"
  "rt_tick two_ready = 0" "fault two_ready = False" "rt_current_priority two_ready = 5"
  by (simp_all add: two_ready_def zeroed_def)

lemmas two_ready_simps = two_ready_stat two_ready_priority two_ready_lists two_ready_fields

lemma bits_0x220: "p < 32 \<Longrightarrow> bit (0x220 :: u32) p \<longleftrightarrow> p = 5 \<or> p = 9"
proof -
  assume "p < 32"
  then have "p \<in> set [0..<32]" by simp
  moreover have "\<forall>p\<in>set [0..<32]. bit (0x220 :: u32) p \<longleftrightarrow> p = 5 \<or> p = 9" by code_simp
  ultimately show ?thesis by blast
qed

lemma two_ready_kinv: "kinv two_ready"
proof -
  have "mask_ok (threads two_ready t)" if "stat_of two_ready t \<noteq> RT_THREAD_INIT" for t
  proof -
    have "t = 1 \<or> t = 2" using that by (simp add: two_ready_stat split: if_splits)
    then show ?thesis by (auto simp: mask_ok_def sample_defs RT_THREAD_PRIORITY_MAX_def)
  qed
  moreover have "bit (rt_thread_ready_priority_group two_ready) p \<longleftrightarrow> lists two_ready (Ready p) \<noteq> []" if "p < 32" for p
    using bits_0x220 [OF that] by (simp add: two_ready_lists two_ready_fields)
  ultimately show ?thesis
    by (auto simp: kinv_defs sched_inv_x_def two_ready_stat two_ready_lists two_ready_fields(3) two_ready_priority
        RT_THREAD_PRIORITY_MAX_def split: if_splits)
qed

text \<open>
  Thread 1 running at priority 5; threads 2 and 3, of priorities 9 and 7, suspended in the
  queue of IPC object 0 in this order.
\<close>

definition waiting_at :: "nat \<Rightarrow> rt_thread" where
  "waiting_at p = (ready_at p)\<lparr>t_stat := RT_THREAD_SUSPEND\<rparr>"

definition two_waiting :: kernel where
  "two_waiting = zeroed\<lparr>threads := (\<lambda>_. blank_thread)(1 := ready_at 5, 2 := waiting_at 9, 3 := waiting_at 7),
     lists := (\<lambda>_. [])(Ready 5 := [1], Pending 0 := [2, 3]), rt_thread_ready_priority_group := 0x20,
     rt_current_thread := Some 1, rt_current_priority := 5\<rparr>"

lemma two_waiting_stat:
  "stat_of two_waiting t = (if t = 1 then RT_THREAD_READY else if t = 2 \<or> t = 3 then RT_THREAD_SUSPEND else RT_THREAD_INIT)"
  by (simp add: two_waiting_def waiting_at_def sample_defs stat_of_def)

lemma two_waiting_priority: "priority_of two_waiting t = (if t = 1 then 5 else if t = 2 then 9 else if t = 3 then 7 else 0)"
  by (simp add: two_waiting_def waiting_at_def sample_defs priority_of_def)

lemma two_waiting_lists:
  "lists two_waiting l = (if l = Ready 5 then [1] else if l = Pending 0 then [2, 3] else [])"
  by (simp add: two_waiting_def zeroed_def)

lemma two_waiting_fields:
  "rt_current_thread two_waiting = Some 1" "rt_scheduler_lock_nest two_waiting = 0" "rt_timer_list two_waiting = []"
  "rt_thread_ready_priority_group two_waiting = 0x20" "timers two_waiting = (\<lambda>_. blank_timer)"
  "fault two_waiting = False"
  by (simp_all add: two_waiting_def zeroed_def)

lemma two_waiting_kinv: "kinv two_waiting"
proof -
  have "mask_ok (threads two_waiting t)" if "stat_of two_waiting t \<noteq> RT_THREAD_INIT" for t
  proof -
    have "t = 1 \<or> t = 2 \<or> t = 3" using that by (simp add: two_waiting_stat split: if_splits)
    then show ?thesis by (auto simp: mask_ok_def two_waiting_def waiting_at_def sample_defs RT_THREAD_PRIORITY_MAX_def)
  qed
  moreover have "bit (rt_thread_ready_priority_group two_waiting) p \<longleftrightarrow> lists two_waiting (Ready p) \<noteq> []" for p
    using bit_prio_mask [of 5 p] by (simp add: two_waiting_lists two_waiting_fields)
  ultimately show ?thesis
    by (auto simp: kinv_defs sched_inv_x_def two_waiting_stat two_waiting_lists two_waiting_fields(3) two_waiting_priority
        split: if_splits)
qed

end
