(* ===== verification/Thread.thy ===== *)
theory Thread
  imports Sample
begin

unbundle bit_operations_syntax

text \<open>
  The thread operations of \<^verbatim>\<open>src/thread.c\<close> on the kernel state. A thread that
  sleeps is split where it leaves the processor: \<open>rt_thread_sleep\<close> runs up to
  \<^verbatim>\<open>rt_schedule\<close>, \<open>rt_thread_sleep_resume\<close> is what follows once the
  thread runs again. Stacks, entry points and hooks are not part of the state.
\<close>

section \<open>The code\<close>

definition rt_thread_self :: "kernel \<Rightarrow> tid option" where
  "rt_thread_self k = rt_current_thread k"

definition thread_init :: "tid \<Rightarrow> nat \<Rightarrow> u32 \<Rightarrow> kernel \<Rightarrow> kernel" where
  "thread_init t priority tick k =
    rt_timer_init (ThreadTimer t) (ob_name (obj (objects k) (ThreadObj t))) 0 0
      (upd_thread t (\<lambda>th. th\<lparr>init_priority := priority, current_priority := priority, number_mask := 0,
          t_init_tick := tick, remaining_tick := tick, t_error := RT_EOK, t_stat := RT_THREAD_INIT,
          t_cleanup := False\<rparr>) k)"

definition rt_thread_init :: "tid \<Rightarrow> string \<Rightarrow> nat \<Rightarrow> u32 \<Rightarrow> kernel \<Rightarrow> int \<times> kernel" where
  "rt_thread_init t name priority tick k =
    (RT_EOK, thread_init t priority tick (upd_objects (rt_object_init (ThreadObj t) RT_Object_Class_Thread name) k))"

text \<open>\<open>addr\<close> and \<open>stack\<close> are the results of the two heap allocations.\<close>

definition rt_thread_create ::
  "tid option \<Rightarrow> bool \<Rightarrow> string \<Rightarrow> nat \<Rightarrow> u32 \<Rightarrow> kernel \<Rightarrow> tid option \<times> kernel" where
  "rt_thread_create addr stack name priority tick k =
    (case rt_object_allocate (map_option ThreadObj addr) RT_Object_Class_Thread name (objects k) of
       (Some (ThreadObj t), st) \<Rightarrow>
         if stack then (Some t, thread_init t priority tick (k\<lparr>objects := st\<rparr>))
         else (None, k\<lparr>objects := rt_object_delete (ThreadObj t) st\<rparr>)
     | (_, st) \<Rightarrow> (None, k\<lparr>objects := st\<rparr>))"

definition rt_thread_suspend :: "tid \<Rightarrow> kernel \<Rightarrow> int \<times> kernel" where
  "rt_thread_suspend t k =
    (if stat_of k t \<noteq> RT_THREAD_READY then (- RT_ERROR, k)
     else (RT_EOK,
       snd (rt_timer_stop (ThreadTimer t)
         (rt_schedule_remove_thread t
           (upd_thread t (\<lambda>th. th\<lparr>t_stat := RT_THREAD_SUSPEND OR (t_stat th AND NOT RT_THREAD_STAT_MASK)\<rparr>) k)))))"

text \<open>
  \<^verbatim>\<open>rt_thread_resume\<close> enables the interrupts between taking the thread out of its
  list and inserting it into the ready list: two steps.
\<close>

definition resume_unlink :: "tid \<Rightarrow> kernel \<Rightarrow> kernel" where
  "resume_unlink t k = snd (rt_timer_stop (ThreadTimer t) (list_remove t k))"

definition rt_thread_resume :: "tid \<Rightarrow> kernel \<Rightarrow> int \<times> kernel" where
  "rt_thread_resume t k =
    (if stat_of k t \<noteq> RT_THREAD_SUSPEND then (- RT_ERROR, k)
     else (RT_EOK, rt_schedule_insert_thread t (resume_unlink t k)))"

definition rt_thread_startup :: "tid \<Rightarrow> kernel \<Rightarrow> int \<times> kernel" where
  "rt_thread_startup t k =
    (let k1 = upd_thread t (\<lambda>th. th\<lparr>current_priority := init_priority th,
                 number_mask := push_bit (init_priority th) 1, t_stat := RT_THREAD_SUSPEND\<rparr>) k;
         k2 = snd (rt_thread_resume t k1)
     in (RT_EOK, if rt_thread_self k2 \<noteq> None then rt_schedule k2 else k2))"

definition set_closed :: "tid \<Rightarrow> kernel \<Rightarrow> kernel" where
  "set_closed t k = upd_thread t (\<lambda>th. th\<lparr>t_stat := RT_THREAD_CLOSE\<rparr>) k"

definition rt_thread_exit :: "kernel \<Rightarrow> kernel" where
  "rt_thread_exit k =
    (case rt_current_thread k of
       None \<Rightarrow> k\<lparr>fault := True\<rparr>
     | Some t \<Rightarrow>
        let k1 = rt_schedule_remove_thread t k;
            k2 = set_closed t k1;
            k3 = snd (rt_timer_detach (ThreadTimer t) k2);
            k4 = if rt_object_is_systemobject (ThreadObj t) (objects k3) \<and> \<not> t_cleanup (threads k3 t)
                 then upd_objects (rt_object_detach (ThreadObj t)) k3
                 else list_push Defunct t k3
        in rt_schedule k4)"

definition rt_thread_detach :: "tid \<Rightarrow> kernel \<Rightarrow> int \<times> kernel" where
  "rt_thread_detach t k =
    (let k1 = if stat_of k t \<noteq> RT_THREAD_INIT then rt_schedule_remove_thread t k else k;
         k2 = snd (rt_timer_detach (ThreadTimer t) k1);
         k3 = set_closed t k2;
         k4 = upd_objects (rt_object_detach (ThreadObj t)) k3
     in (RT_EOK, if t_cleanup (threads k4 t) then list_push Defunct t k4 else k4))"

definition rt_thread_delete :: "tid \<Rightarrow> kernel \<Rightarrow> int \<times> kernel" where
  "rt_thread_delete t k =
    (let k1 = if stat_of k t \<noteq> RT_THREAD_INIT then rt_schedule_remove_thread t k else k;
         k2 = snd (rt_timer_detach (ThreadTimer t) k1)
     in (RT_EOK, list_push Defunct t (set_closed t k2)))"

text \<open>
  \<^verbatim>\<open>tlist.next != tlist.prev\<close> holds for the node of a ready thread exactly when its
  list has another thread.
\<close>

definition rt_thread_yield :: "kernel \<Rightarrow> int \<times> kernel" where
  "rt_thread_yield k =
    (case rt_current_thread k of
       None \<Rightarrow> (RT_EOK, k\<lparr>fault := True\<rparr>)
     | Some t \<Rightarrow>
        if stat_of k t = RT_THREAD_READY \<and> (\<exists>u\<in>set (lists k (Ready (priority_of k t))). u \<noteq> t)
        then (RT_EOK, rt_schedule (list_append (Ready (priority_of k t)) t (list_remove t k)))
        else (RT_EOK, k))"

definition rt_thread_sleep :: "u32 \<Rightarrow> kernel \<Rightarrow> kernel" where
  "rt_thread_sleep tick k =
    (case rt_current_thread k of
       None \<Rightarrow> k\<lparr>fault := True\<rparr>
     | Some t \<Rightarrow>
        let k1 = snd (rt_thread_suspend t k);
            k2 = snd (rt_timer_control (ThreadTimer t) RT_TIMER_CTRL_SET_TIME tick k1);
            k3 = snd (rt_timer_start (ThreadTimer t) k2)
        in rt_schedule k3)"

definition rt_thread_sleep_resume :: "tid \<Rightarrow> kernel \<Rightarrow> int \<times> kernel" where
  "rt_thread_sleep_resume t k =
    (RT_EOK, if t_error (threads k t) = - RT_ETIMEOUT then upd_thread t (\<lambda>th. th\<lparr>t_error := RT_EOK\<rparr>) k else k)"

definition rt_thread_delay :: "u32 \<Rightarrow> kernel \<Rightarrow> kernel" where
  "rt_thread_delay tick k = rt_thread_sleep tick k"

datatype thread_cmd = RT_THREAD_CTRL_CHANGE_PRIORITY nat | RT_THREAD_CTRL_STARTUP | RT_THREAD_CTRL_CLOSE
  | RT_THREAD_CTRL_OTHER

definition set_priority :: "tid \<Rightarrow> nat \<Rightarrow> kernel \<Rightarrow> kernel" where
  "set_priority t p k = upd_thread t (\<lambda>th. th\<lparr>current_priority := p, number_mask := push_bit p 1\<rparr>) k"

fun rt_thread_control :: "tid \<Rightarrow> thread_cmd \<Rightarrow> kernel \<Rightarrow> int \<times> kernel" where
  "rt_thread_control t (RT_THREAD_CTRL_CHANGE_PRIORITY p) k =
    (RT_EOK,
     if stat_of k t = RT_THREAD_READY
     then rt_schedule_insert_thread t (set_priority t p (rt_schedule_remove_thread t k))
     else set_priority t p k)"
| "rt_thread_control t RT_THREAD_CTRL_STARTUP k = rt_thread_startup t k"
| "rt_thread_control t RT_THREAD_CTRL_CLOSE k = rt_thread_delete t k"
| "rt_thread_control t RT_THREAD_CTRL_OTHER k = (RT_EOK, k)"

definition rt_thread_timeout :: "tid \<Rightarrow> kernel \<Rightarrow> kernel" where
  "rt_thread_timeout t k =
    rt_schedule (rt_schedule_insert_thread t (list_remove t (upd_thread t (\<lambda>th. th\<lparr>t_error := - RT_ETIMEOUT\<rparr>) k)))"

text \<open>The search runs with the scheduler locked when a thread is running.\<close>

definition rt_thread_find :: "string \<Rightarrow> kernel \<Rightarrow> tid option \<times> kernel" where
  "rt_thread_find name k =
    (let k1 = if rt_thread_self k \<noteq> None then rt_enter_critical k else k;
         found = List.find (\<lambda>ob. rt_strncmp (ob_name (obj (objects k1) ob)) name RT_NAME_MAX = 0)
                   (container (objects k1) (class_code RT_Object_Class_Thread));
         k2 = if rt_thread_self k1 \<noteq> None then rt_exit_critical k1 else k1
     in (case found of Some (ThreadObj t) \<Rightarrow> Some t | _ \<Rightarrow> None, k2))"

section \<open>Preservation of the kernel invariant\<close>

lemma suspend_upd_stat:
  "stat_of (upd_thread t (\<lambda>th. th\<lparr>t_stat := RT_THREAD_SUSPEND OR (t_stat th AND NOT RT_THREAD_STAT_MASK)\<rparr>) k) t
    = RT_THREAD_SUSPEND"
  "stat_of (upd_thread t (\<lambda>th. th\<lparr>t_stat := RT_THREAD_SUSPEND\<rparr>) k) t = RT_THREAD_SUSPEND"
  using stat_ready_mask(2) [of "t_stat (threads k t)"] by (simp_all add: stat_of_def upd_thread_def)

lemma suspend_kinv:
  assumes inv: "kinv k"
  shows "kinv (snd (rt_thread_suspend t k))"
proof (cases "stat_of k t = RT_THREAD_READY")
  case True
  let ?f = "\<lambda>th. th\<lparr>t_stat := RT_THREAD_SUSPEND OR (t_stat th AND NOT RT_THREAD_STAT_MASK)\<rparr>"
  let ?k1 = "upd_thread t ?f (rt_schedule_remove_thread t k)"
  have r: "rt_schedule_remove_thread t (upd_thread t ?f k) = ?k1"
    by (rule remove_thread_upd) simp
  have "kinv_x {t} (rt_schedule_remove_thread t k)"
    using kinv_remove [OF inv, of t] True by simp
  then have k1: "kinv_x {t} ?k1" by (rule kinv_floating) simp
  have m: "mask_ok (threads ?k1 t)"
    using kinv_mask_ok [OF inv, of t] True by (simp add: upd_thread_def mask_ok_def)
  let ?k2 = "snd (rt_timer_stop (ThreadTimer t) ?k1)"
  note k2 = kinv_timer_stop [OF k1, of "ThreadTimer t"]
  have "stat_of ?k2 t = RT_THREAD_SUSPEND"
    using suspend_upd_stat(1) [of t "rt_schedule_remove_thread t k"] by (simp add: stat_of_def kframe)
  then have "kinv_x ({t} - {t}) ?k2"
    using k2 m by (intro kinv_drop) (auto simp: kframe)
  with True show ?thesis unfolding rt_thread_suspend_def r by simp
qed (simp add: rt_thread_suspend_def inv)

lemma resume_kinv:
  assumes inv: "kinv k"
  shows "kinv (snd (rt_thread_resume t k))"
proof (cases "stat_of k t = RT_THREAD_SUSPEND")
  case True
  have "kinv_x {t} (list_remove t k)"
    using kinv_unlink [OF inv, of t] True by simp
  note k2 = kinv_timer_stop [OF this, of "ThreadTimer t"]
  have "mask_ok (threads (resume_unlink t k) t)"
    using kinv_mask_ok [OF inv, of t] True by (simp add: resume_unlink_def kframe list_remove_def)
  then have "kinv_x ({t} - {t}) (rt_schedule_insert_thread t (resume_unlink t k))"
    using k2 unfolding resume_unlink_def by (intro kinv_insert) auto
  with True show ?thesis by (simp add: rt_thread_resume_def)
qed (simp add: rt_thread_resume_def inv)

lemma kinv_fresh_upd:
  assumes inv: "kinv k" and s: "stat_of k t \<noteq> RT_THREAD_READY"
  shows "kinv_x {t} (upd_thread t f (list_remove t k))"
  using kinv_floating [OF kinv_unlink [OF inv _ s], of t f] by simp

text \<open>
  A thread that is not ready can be started: its node is unlinked before its new state is
  looked at.
\<close>

lemma startup_kinv:
  assumes inv: "kinv k" and s: "stat_of k t \<noteq> RT_THREAD_READY"
    and p: "init_priority (threads k t) < RT_THREAD_PRIORITY_MAX"
  shows "kinv (snd (rt_thread_startup t k))"
proof -
  let ?f = "\<lambda>th. th\<lparr>current_priority := init_priority th,
                 number_mask := push_bit (init_priority th) 1, t_stat := RT_THREAD_SUSPEND\<rparr>"
  let ?k1 = "upd_thread t ?f k"
  have st: "stat_of ?k1 t = RT_THREAD_SUSPEND" by (simp add: kstate_defs)
  have sw: "list_remove t ?k1 = upd_thread t ?f (list_remove t k)"
    by (simp add: kstate_defs)
  have "kinv_x {t} (list_remove t ?k1)"
    unfolding sw by (rule kinv_fresh_upd [OF inv s])
  note k2 = kinv_timer_stop [OF this, of "ThreadTimer t"]
  have "mask_ok (threads (resume_unlink t ?k1) t)"
    using p by (simp add: resume_unlink_def kframe list_remove_def mask_ok_def upd_thread_def)
  then have "kinv_x ({t} - {t}) (rt_schedule_insert_thread t (resume_unlink t ?k1))"
    using k2 unfolding resume_unlink_def by (intro kinv_insert) auto
  with st show ?thesis by (simp add: rt_thread_startup_def rt_thread_resume_def Let_def)
qed

lemma take_kinv:
  "kinv k \<Longrightarrow> stat_of k t \<noteq> RT_THREAD_CLOSE \<Longrightarrow>
   kinv_x {t} (if stat_of k t \<noteq> RT_THREAD_INIT then rt_schedule_remove_thread t k else k)"
  using kinv_remove [of "{}" k t] kinv_take_init [of "{}" k t] by auto

lemma push_defunct_kinv:
  assumes "kinv_x {t} k" "stat_of k t = RT_THREAD_CLOSE"
    "ThreadTimer t \<notin> set (rt_timer_list k)"
  shows "kinv (list_push Defunct t k)"
proof -
  have "kinv_x ({t} - {t}) (list_push Defunct t k)"
    by (rule kinv_park [of _ _ _ Defunct _ "[]"]) (use assms in \<open>auto simp: list_push_def\<close>)
  then show ?thesis by simp
qed

lemma closed_stat: "stat_of (set_closed t k) t = RT_THREAD_CLOSE"
  by (simp add: set_closed_def kstate_defs)

lemma set_closed_comm: "rt_timer_list (set_closed t k) = rt_timer_list k"
  by (simp add: set_closed_def)

lemma closed_detach_kinv:
  assumes "kinv_x {t} k"
  defines "k' \<equiv> set_closed t (snd (rt_timer_detach (ThreadTimer t) k))"
  shows "kinv_x {t} k'" "stat_of k' t = RT_THREAD_CLOSE" "ThreadTimer t \<notin> set (rt_timer_list k')"
  using kinv_timer_detach [OF assms(1), of "ThreadTimer t"]
  by (auto simp: k'_def closed_stat set_closed_comm) (auto simp: set_closed_def intro: kinv_floating)

lemma delete_kinv:
  assumes inv: "kinv k" and s: "stat_of k t \<noteq> RT_THREAD_CLOSE"
  shows "kinv (snd (rt_thread_delete t k))"
  using closed_detach_kinv [OF take_kinv [OF inv s]] push_defunct_kinv
  by (auto simp: rt_thread_delete_def Let_def)

lemma drop_closed_kinv:
  assumes "kinv_x {t} k" "stat_of k t = RT_THREAD_CLOSE" "ThreadTimer t \<notin> set (rt_timer_list k)"
  shows "kinv k"
  using kinv_drop [OF assms(1), of t] assms by auto

lemma upd_objects_frame [simp]:
  "stat_of (upd_objects f k) = stat_of k" "rt_timer_list (upd_objects f k) = rt_timer_list k"
  "threads (upd_objects f k) = threads k" "lists (upd_objects f k) = lists k"
  by (simp_all add: upd_objects_def stat_of_def fun_eq_iff)

lemma detach_kinv:
  assumes inv: "kinv k" and s: "stat_of k t \<noteq> RT_THREAD_CLOSE"
  shows "kinv (snd (rt_thread_detach t k))"
proof -
  define k1 where "k1 = (if stat_of k t \<noteq> RT_THREAD_INIT then rt_schedule_remove_thread t k else k)"
  define k4 where "k4 = upd_objects (rt_object_detach (ThreadObj t))
      (set_closed t (snd (rt_timer_detach (ThreadTimer t) k1)))"
  have k4: "kinv_x {t} k4" "stat_of k4 t = RT_THREAD_CLOSE" "ThreadTimer t \<notin> set (rt_timer_list k4)"
    using closed_detach_kinv [OF take_kinv [OF inv s]] by (simp_all add: k4_def k1_def)
  then show ?thesis
    using push_defunct_kinv [OF k4] drop_closed_kinv [OF k4]
    by (simp add: rt_thread_detach_def Let_def k1_def [symmetric] k4_def [symmetric])
qed

lemma exit_kinv:
  assumes inv: "kinv k" and cur: "rt_current_thread k = Some t" and s: "stat_of k t = RT_THREAD_READY"
  shows "kinv (rt_thread_exit k)"
proof -
  have "kinv_x {t} (rt_schedule_remove_thread t k)"
    using kinv_remove [OF inv] s by auto
  then have f: "kinv_x {t} (set_closed t (rt_schedule_remove_thread t k))"
    unfolding set_closed_def by (rule kinv_floating) simp
  define k3 where "k3 = snd (rt_timer_detach (ThreadTimer t) (set_closed t (rt_schedule_remove_thread t k)))"
  have k3: "kinv_x {t} k3" "ThreadTimer t \<notin> set (rt_timer_list k3)" "stat_of k3 t = RT_THREAD_CLOSE"
    using kinv_timer_detach [OF f, of "ThreadTimer t"] closed_stat [of t "rt_schedule_remove_thread t k"]
    by (simp_all add: k3_def stat_of_def kframe)
  then show ?thesis
    using cur push_defunct_kinv [OF k3(1,3,2)] drop_closed_kinv [OF k3(1,3,2)]
    by (simp add: rt_thread_exit_def Let_def k3_def [symmetric])
qed

lemma yield_relink_kinv:
  assumes inv: "kinv k" and s: "stat_of k t = RT_THREAD_READY"
  shows "kinv (list_append (Ready (priority_of k t)) t (list_remove t k))"
proof -
  have t: "t \<in> set (lists k (Ready (priority_of k t)))"
    using inv s by (simp add: kinv_x_def sched_inv_x_def)
  have "t \<notin> set (lists k l)" if "l \<noteq> Ready (priority_of k t)" for l
    using inv t that by (auto simp: kinv_x_def sched_inv_x_def)
  then have "lists (list_append (Ready (priority_of k t)) t (list_remove t k)) =
      (lists k)(Ready (priority_of k t) := filter (\<lambda>x. x \<noteq> t) (lists k (Ready (priority_of k t))) @ [t])"
    by (auto simp: list_append_def list_remove_def fun_eq_iff)
  moreover have "set (filter (\<lambda>x. x \<noteq> t) (lists k (Ready (priority_of k t))) @ [t]) =
      set (lists k (Ready (priority_of k t)))"
    using t by auto
  ultimately show ?thesis
    using inv t
    by (auto simp: kinv_defs sched_inv_x_def list_append_def list_remove_def stat_of_def priority_of_def
        split: if_splits)
qed

lemma yield_kinv: "kinv k \<Longrightarrow> kinv (snd (rt_thread_yield k))"
  using yield_relink_kinv by (auto simp: rt_thread_yield_def split: option.split)

lemma sleep_kinv:
  assumes inv: "kinv k" and cur: "rt_current_thread k = Some t" and s: "stat_of k t = RT_THREAD_READY"
  shows "kinv (rt_thread_sleep tick k)"
proof -
  let ?k1 = "snd (rt_thread_suspend t k)"
  have "stat_of ?k1 t = RT_THREAD_SUSPEND"
    using s suspend_upd_stat(1) [of t k]
    by (simp add: rt_thread_suspend_def stat_of_def kframe)
  moreover have "threads (snd (rt_timer_control tm RT_TIMER_CTRL_SET_TIME tick k)) = threads k" for tm k
    by (simp add: upd_timer_def)
  ultimately show ?thesis
    using cur kinv_timer_start [OF kinv_timer_control [OF suspend_kinv [OF inv, of t]],
        of "ThreadTimer t" "ThreadTimer t" RT_TIMER_CTRL_SET_TIME tick]
    by (simp add: rt_thread_sleep_def Let_def stat_of_def)
qed

lemma sleep_resume_kinv: "kinv k \<Longrightarrow> kinv (snd (rt_thread_sleep_resume t k))"
  by (simp add: rt_thread_sleep_resume_def kinv_neutral)

text \<open>A thread's timer has just been taken out of the list when its timeout runs.\<close>

lemma timeout_kinv:
  assumes inv: "kinv k" and s: "stat_of k t = RT_THREAD_SUSPEND"
    and tm: "ThreadTimer t \<notin> set (rt_timer_list k)"
  shows "kinv (rt_thread_timeout t k)"
proof -
  let ?k1 = "upd_thread t (\<lambda>th. th\<lparr>t_error := - RT_ETIMEOUT\<rparr>) k"
  have st: "stat_of ?k1 t = RT_THREAD_SUSPEND" using s by (simp add: kstate_defs)
  have "kinv_x {t} (list_remove t ?k1)"
    using kinv_unlink [of "{}" ?k1 t] inv st by (simp add: kinv_neutral)
  moreover have "mask_ok (threads (list_remove t ?k1) t)"
    using kinv_mask_ok [OF inv, of t] s by (simp add: list_remove_def upd_thread_def mask_ok_def)
  ultimately have "kinv_x ({t} - {t}) (rt_schedule_insert_thread t (list_remove t ?k1))"
    using tm by (intro kinv_insert) (auto simp: list_remove_def)
  then show ?thesis by (simp add: rt_thread_timeout_def)
qed

lemma change_priority_kinv:
  assumes inv: "kinv k" and p: "p < RT_THREAD_PRIORITY_MAX"
  shows "kinv (snd (rt_thread_control t (RT_THREAD_CTRL_CHANGE_PRIORITY p) k))"
proof (cases "stat_of k t = RT_THREAD_READY")
  case True
  let ?k1 = "set_priority t p (rt_schedule_remove_thread t k)"
  have "kinv_x {t} (rt_schedule_remove_thread t k)"
    using kinv_remove [OF inv] True by auto
  then have "kinv_x {t} ?k1" unfolding set_priority_def by (rule kinv_floating) simp
  moreover have "ThreadTimer t \<notin> set (rt_timer_list k)"
    using inv True by (auto simp: kinv_x_def sleepers_ok_def)
  then have "ThreadTimer t \<notin> set (rt_timer_list ?k1)"
    by (simp add: set_priority_def rt_schedule_remove_thread_def list_remove_def Let_def)
  moreover have "mask_ok (threads ?k1 t)"
    using p by (simp add: set_priority_def upd_thread_def mask_ok_def)
  ultimately have "kinv_x ({t} - {t}) (rt_schedule_insert_thread t ?k1)"
    by (intro kinv_insert) auto
  with True show ?thesis by simp
next
  case False
  then have nr: "t \<notin> set (lists k (Ready q))" for q
    using inv by (auto simp: kinv_x_def sched_inv_x_def)
  have "stat_of (set_priority t p k) = stat_of k"
    by (auto simp: set_priority_def kstate_defs)
  then show ?thesis
    using inv False nr p
    by (auto simp: set_priority_def kinv_defs sched_inv_x_def mask_ok_def upd_thread_def priority_of_def)
qed

section \<open>Round robin among threads of one priority\<close>

text \<open>The threads \<open>xs\<close> have the highest ready priority \<open>p\<close> and the first runs.\<close>

definition serving :: "nat \<Rightarrow> tid list \<Rightarrow> kernel \<Rightarrow> bool" where
  "serving p xs k \<longleftrightarrow> kinv k \<and> rt_scheduler_lock_nest k = 0 \<and> xs \<noteq> [] \<and> lists k (Ready p) = xs \<and>
     (\<forall>q<p. lists k (Ready q) = []) \<and> rt_current_thread k = Some (hd xs)"

lemma runs_top_unique:
  assumes "runs_top k" "lists k (Ready p) = t # ts" "\<forall>q<p. lists k (Ready q) = []"
  shows "rt_current_thread k = Some t"
  using assms by (auto simp: runs_top_def) (metis list.distinct(1) list.inject nat_neq_iff)

lemma list_move_frame [simp]:
  "rt_scheduler_lock_nest (list_append l t k) = rt_scheduler_lock_nest k"
  "rt_scheduler_lock_nest (list_remove t k) = rt_scheduler_lock_nest k"
  "threads (list_append l t k) = threads k" "threads (list_remove t k) = threads k"
  by (simp_all add: list_append_def list_remove_def)

lemma yield_serving:
  assumes s: "serving p xs k"
  shows "serving p (rotate1 xs) (snd (rt_thread_yield k))"
proof -
  obtain t ts where xs: "xs = t # ts" using s by (cases xs) (auto simp: serving_def)
  have inv: "kinv k" and l: "lists k (Ready p) = t # ts" and cur: "rt_current_thread k = Some t"
    and lock: "rt_scheduler_lock_nest k = 0" and low: "\<forall>q<p. lists k (Ready q) = []"
    using s by (simp_all add: serving_def xs)
  have "t \<in> set (lists k (Ready p))" using l by simp
  then have st: "stat_of k t = RT_THREAD_READY" "priority_of k t = p"
    using inv by (auto simp: kinv_x_def sched_inv_x_def)
  have dist: "distinct (t # ts)" using inv by (simp add: kinv_x_def sched_inv_x_def flip: l)
  show ?thesis
  proof (cases ts)
    case Nil
    then show ?thesis using s cur st l by (simp add: rt_thread_yield_def xs)
  next
    case (Cons u us)
    let ?k1 = "list_append (Ready p) t (list_remove t k)"
    have y: "snd (rt_thread_yield k) = rt_schedule ?k1"
      using cur st l dist Cons by (auto simp: rt_thread_yield_def)
    have inv1: "kinv ?k1" using yield_relink_kinv [OF inv st(1)] by (simp add: st)
    have l1: "lists ?k1 (Ready p) = ts @ [t]" "\<forall>q<p. lists ?k1 (Ready q) = []"
      using l low dist by (simp_all add: list_append_def list_remove_def)
    have "runs_top (rt_schedule ?k1)"
      using schedule_runs_top [OF kinv_sched [OF inv1], of p] l1 lock by simp
    then have "rt_current_thread (rt_schedule ?k1) = Some u"
      using l1 Cons by (intro runs_top_unique [of _ p _ "us @ [t]"]) (simp_all add: kframe)
    then show ?thesis using inv1 l1 lock Cons by (simp add: serving_def y xs kframe)
  qed
qed

definition yields :: "nat \<Rightarrow> kernel \<Rightarrow> kernel" where
  "yields n k = ((\<lambda>k. snd (rt_thread_yield k)) ^^ n) k"

lemma yields_serving: "serving p xs k \<Longrightarrow> serving p (rotate n xs) (yields n k)"
  by (induction n) (auto simp: yields_def yield_serving)

section \<open>Resuming from two places at once\<close>

text \<open>
  An interrupt between the two steps of \<^verbatim>\<open>rt_thread_resume\<close> may resume the same
  thread; the first call then links the node a second time.
\<close>

definition resume_interrupted :: "tid \<Rightarrow> kernel \<Rightarrow> kernel" where
  "resume_interrupted t k =
    rt_schedule_insert_thread t (snd (rt_thread_resume t (resume_unlink t k)))"

text \<open>
  \<^verbatim>\<open>rt_thread_resume\<close> enables the interrupts after it has unlinked the
  thread and before the thread is ready again. An interrupt that resumes the same thread there
  makes it ready, and the interrupted call links its node into the ready list a second time.
\<close>

theorem resume_interrupted_twice:
  assumes inv: "kinv k" and s: "stat_of k t = RT_THREAD_SUSPEND"
  shows "count_list (lists (resume_interrupted t k) (Ready (priority_of k t))) t = 2"
proof -
  let ?u = "resume_unlink t k"
  have u: "threads ?u = threads k" "lists ?u l = filter (\<lambda>x. x \<noteq> t) (lists k l)" for l
    by (simp_all add: resume_unlink_def kframe list_remove_def)
  have s2: "stat_of ?u t = RT_THREAD_SUSPEND" using s by (simp add: stat_of_def u)
  let ?k2 = "resume_unlink t ?u"
  have k2: "threads ?k2 = threads k" "lists ?k2 l = filter (\<lambda>x. x \<noteq> t) (lists k l)" for l
    by (simp_all add: resume_unlink_def [of t ?u] kframe list_remove_def u)
  have "count_list (filter (\<lambda>x. x \<noteq> t) xs) t = 0" for xs :: "tid list"
    by (induction xs) auto
  then show ?thesis
    using s2 by (simp add: resume_interrupted_def rt_thread_resume_def insert_thread_lists
        insert_thread_threads priority_of_def k2)
qed

section \<open>Suspending and resuming\<close>

lemma suspend_result:
  assumes inv: "kinv k" and s: "stat_of k t = RT_THREAD_READY"
  defines "k' \<equiv> snd (rt_thread_suspend t k)"
  shows "stat_of k' t = RT_THREAD_SUSPEND" "\<And>l. lists k' l = filter (\<lambda>x. x \<noteq> t) (lists k l)"
    "ThreadTimer t \<notin> set (rt_timer_list k')" "priority_of k' = priority_of k"
proof -
  show "stat_of k' t = RT_THREAD_SUSPEND" "\<And>l. lists k' l = filter (\<lambda>x. x \<noteq> t) (lists k l)"
    using s suspend_upd_stat(1) [of t k]
    by (simp_all add: k'_def rt_thread_suspend_def stat_of_def kframe remove_thread_lists)
  show "priority_of k' = priority_of k"
    using s by (auto simp: k'_def rt_thread_suspend_def kframe priority_of_def upd_thread_def)
  have "ThreadTimer t \<notin> set (rt_timer_list k)"
    using inv s by (auto simp: kinv_x_def sleepers_ok_def)
  then show "ThreadTimer t \<notin> set (rt_timer_list k')"
    using s timer_stop_subset by (fastforce simp: k'_def rt_thread_suspend_def kframe)
qed

lemma resume_result:
  assumes inv: "kinv k" and s: "stat_of k t = RT_THREAD_SUSPEND"
  defines "k' \<equiv> snd (rt_thread_resume t k)" and "p \<equiv> priority_of k t"
  shows "stat_of k' t = RT_THREAD_READY"
    "lists k' (Ready p) = lists k (Ready p) @ [t]"
    "\<And>l. l \<noteq> Ready p \<Longrightarrow> lists k' l = filter (\<lambda>x. x \<noteq> t) (lists k l)"
    "ThreadTimer t \<notin> set (rt_timer_list k')"
proof -
  have u: "threads (resume_unlink t k) = threads k"
    "lists (resume_unlink t k) l = filter (\<lambda>x. x \<noteq> t) (lists k l)" for l
    by (simp_all add: resume_unlink_def kframe list_remove_def)
  have nr: "t \<notin> set (lists k (Ready p))"
    using inv s by (auto simp: kinv_x_def sched_inv_x_def)
  have k': "k' = rt_schedule_insert_thread t (resume_unlink t k)"
    using s by (simp add: k'_def rt_thread_resume_def)
  show "stat_of k' t = RT_THREAD_READY" by (simp add: k')
  show "lists k' (Ready p) = lists k (Ready p) @ [t]"
    "\<And>l. l \<noteq> Ready p \<Longrightarrow> lists k' l = filter (\<lambda>x. x \<noteq> t) (lists k l)"
    using nr by (auto simp: k' insert_thread_lists priority_of_def p_def u)
  have "kinv_x {t} (list_remove t k)"
    using kinv_unlink [OF inv, of t] s by simp
  note this [THEN kinv_timer_stop, of "ThreadTimer t"]
  then show "ThreadTimer t \<notin> set (rt_timer_list k')"
    by (simp add: k' resume_unlink_def kframe)
qed

section \<open>Properties\<close>

text \<open>
  C9: threads that share the highest ready priority take turns: when each running thread
  yields, the \<open>n\<close>-th turn is that of thread \<open>n\<close> of the ready list, counted round.
\<close>

theorem yield_round_robin:
  assumes "serving p xs k"
  shows "rt_current_thread (yields n k) = Some (xs ! (n mod length xs)) \<and> serving p (rotate n xs) (yields n k)"
proof -
  have s: "serving p (rotate n xs) (yields n k)" using assms by (rule yields_serving)
  have "xs \<noteq> []" using assms by (simp add: serving_def)
  then have "hd (rotate n xs) = xs ! (n mod length xs)" by (rule hd_rotate_conv_nth)
  with s show ?thesis by (simp add: serving_def)
qed

text \<open>Threads 1 and 2 share priority 5.\<close>

definition shared :: kernel where
  "shared = snd (rt_thread_control 2 (RT_THREAD_CTRL_CHANGE_PRIORITY 5) two_ready)"

lemma shared_serving: "serving 5 [1, 2] shared"
proof -
  have "kinv shared"
    unfolding shared_def by (rule change_priority_kinv [OF two_ready_kinv]) (simp add: RT_THREAD_PRIORITY_MAX_def)
  moreover have "lists shared l = (if l = Ready 5 then [1, 2] else [])" for l
    by (simp add: shared_def two_ready_stat insert_thread_lists remove_thread_lists set_priority_def upd_thread_def
        two_ready_lists priority_of_def)
  ultimately show ?thesis
    by (simp add: serving_def) (simp add: shared_def kframe set_priority_def upd_thread_def two_ready_fields)
qed

lemma yield_round_robin_witness: "rt_current_thread (yields 101 shared) = Some 2"
proof -
  have "(101 :: nat) mod length [1, 2 :: nat] = 1" by code_simp
  then show ?thesis using yield_round_robin [OF shared_serving, of 101] by simp
qed

lemma resume_interrupted_twice_witness:
  "count_list (lists (resume_interrupted 2 two_waiting) (Ready 9)) 2 = 2"
  using resume_interrupted_twice [OF two_waiting_kinv, of 2] by (simp add: two_waiting_stat two_waiting_priority)

end
