(* ===== verification/Clock.thy ===== *)
theory Clock
  imports Thread "HOL-Library.Signed_Division"
begin

unbundle bit_operations_syntax

text \<open>
  The clock interrupt: \<^verbatim>\<open>rt_tick_increase\<close> and the tick conversion of
  \<^verbatim>\<open>src/clock.c\<close>, and the expiry of timers, \<^verbatim>\<open>rt_timer_check\<close> of
  \<^verbatim>\<open>src/timer.c\<close>. The timeout function of a timer of the application is the
  parameter \<open>user\<close>; a thread's own timer runs \<^verbatim>\<open>rt_thread_timeout\<close>.
\<close>

section \<open>Expiry of timers\<close>

fun timeout_func :: "(nat \<Rightarrow> kernel \<Rightarrow> kernel) \<Rightarrow> timer_id \<Rightarrow> kernel \<Rightarrow> kernel" where
  "timeout_func user (ThreadTimer t) k = rt_thread_timeout t k"
| "timeout_func user (UserTimer n) k = user n k"

definition clear_activated :: "timer_id \<Rightarrow> kernel \<Rightarrow> kernel" where
  "clear_activated tm k = upd_timer tm (\<lambda>x. x\<lparr>tm_flag := tm_flag x AND NOT RT_TIMER_FLAG_ACTIVATED\<rparr>) k"

text \<open>One round of the loop for a timer that is due.\<close>

definition timer_fire :: "(nat \<Rightarrow> kernel \<Rightarrow> kernel) \<Rightarrow> timer_id \<Rightarrow> kernel \<Rightarrow> kernel" where
  "timer_fire user tm k =
    (let k2 = timeout_func user tm (timer_list_remove tm k);
         flag = tm_flag (timers k2 tm)
     in if flag AND RT_TIMER_FLAG_PERIODIC \<noteq> 0 \<and> flag AND RT_TIMER_FLAG_ACTIVATED \<noteq> 0
        then snd (rt_timer_start tm (clear_activated tm k2))
        else clear_activated tm k2)"

partial_function (option) timer_check_loop ::
  "(nat \<Rightarrow> kernel \<Rightarrow> kernel) \<Rightarrow> u32 \<Rightarrow> kernel \<Rightarrow> kernel option" where
  "timer_check_loop user current_tick k =
    (case rt_timer_list k of
       [] \<Rightarrow> Some k
     | tm # _ \<Rightarrow>
        if timer_due current_tick k tm
        then timer_check_loop user (rt_tick_get (timer_fire user tm k)) (timer_fire user tm k)
        else Some k)"

definition rt_timer_check :: "(nat \<Rightarrow> kernel \<Rightarrow> kernel) \<Rightarrow> kernel \<Rightarrow> kernel option" where
  "rt_timer_check user k = timer_check_loop user (rt_tick_get k) k"

text \<open>
  The callback returns before \<^verbatim>\<open>current_tick\<close> is read; restarting the timer does not
  change the tick, so reading it after the round is the same.
\<close>

section \<open>The tick\<close>

definition rt_tick_increase :: "(nat \<Rightarrow> kernel \<Rightarrow> kernel) \<Rightarrow> kernel \<Rightarrow> kernel option" where
  "rt_tick_increase user k =
    (let k1 = k\<lparr>rt_tick := rt_tick k + 1\<rparr> in
     case rt_thread_self k1 of
       None \<Rightarrow> Some (k1\<lparr>fault := True\<rparr>)
     | Some t \<Rightarrow>
        let k2 = upd_thread t (\<lambda>th. th\<lparr>remaining_tick := remaining_tick th - 1\<rparr>) k1;
            k3 = if remaining_tick (threads k2 t) = 0
                 then snd (rt_thread_yield (upd_thread t (\<lambda>th. th\<lparr>remaining_tick := t_init_tick th\<rparr>) k2))
                 else k2
        in rt_timer_check user k3)"

definition RT_TICK_PER_SECOND :: int where
  "RT_TICK_PER_SECOND = 100"

text \<open>Signed 32-bit results of the \<^verbatim>\<open>int\<close> arithmetic, wrapping as the target does.\<close>

definition wrap32 :: "int \<Rightarrow> int" where
  "wrap32 i = (i + 2 ^ 31) mod 2 ^ 32 - 2 ^ 31"

definition rt_tick_from_millisecond :: "int \<Rightarrow> int" where
  "rt_tick_from_millisecond ms =
    (if ms < 0 then - 1
     else wrap32 (wrap32 (RT_TICK_PER_SECOND * ms) + 999) sdiv 1000)"

definition rt_thread_mdelay :: "int \<Rightarrow> kernel \<Rightarrow> kernel" where
  "rt_thread_mdelay ms k = rt_thread_sleep (word_of_int (rt_tick_from_millisecond ms)) k"

section \<open>Conversion of milliseconds\<close>

lemma wrap32_id: "- (2 ^ 31) \<le> i \<Longrightarrow> i < 2 ^ 31 \<Longrightarrow> wrap32 i = i"
  by (simp add: wrap32_def)

text \<open>
  The conversion gives the least number of ticks that lasts \<open>ms\<close> up to 21474826 ms,
  about six hours. One millisecond more and the 32-bit product overflows: the result is
  negative, although the function's comment allows arguments up to \<open>0x7fffffff\<close>.
\<close>

theorem tick_from_millisecond_least:
  fixes ms :: int
  assumes "0 \<le> ms" "ms \<le> 21474826"
  defines "n \<equiv> rt_tick_from_millisecond ms"
  shows "0 \<le> n \<and> ms \<le> 10 * n \<and> 10 * n < ms + 10 \<and> rt_tick_from_millisecond 21474837 < 0"
proof -
  have "wrap32 (100 * ms) = 100 * ms" "wrap32 (100 * ms + 999) = 100 * ms + 999"
    using assms by (simp_all add: wrap32_id)
  then have "n = (100 * ms + 999) div 1000"
    using assms(1) by (simp add: n_def rt_tick_from_millisecond_def RT_TICK_PER_SECOND_def signed_divide_int_def)
  moreover have "rt_tick_from_millisecond 21474837 < 0" by code_simp
  ultimately show ?thesis using assms(1) by linarith
qed

lemma tick_from_millisecond_least_witness:
  "0 \<le> rt_tick_from_millisecond 2005 \<and> 2005 \<le> 10 * rt_tick_from_millisecond 2005 \<and>
   10 * rt_tick_from_millisecond 2005 < 2005 + 10 \<and> rt_tick_from_millisecond 21474837 < 0"
  using tick_from_millisecond_least [of 2005] by simp

section \<open>What a round of the expiry loop changes\<close>

text \<open>A timeout function that leaves the clock and the timers alone.\<close>

definition quiet :: "(nat \<Rightarrow> kernel \<Rightarrow> kernel) \<Rightarrow> bool" where
  "quiet user \<longleftrightarrow> (\<forall>n k. timers (user n k) = timers k \<and> rt_timer_list (user n k) = rt_timer_list k \<and>
     rt_tick (user n k) = rt_tick k)"

lemma timeout_quiet:
  assumes "quiet user"
  shows "timers (timeout_func user tm k) = timers k"
    "rt_timer_list (timeout_func user tm k) = rt_timer_list k"
    "rt_tick (timeout_func user tm k) = rt_tick k"
  using assms by (cases tm; simp add: quiet_def rt_thread_timeout_def kframe list_remove_def)+

definition timeouts :: "kernel \<Rightarrow> timer_id \<Rightarrow> u32" where
  "timeouts k tm = timeout_tick (timers k tm)"

definition periodic :: "kernel \<Rightarrow> timer_id \<Rightarrow> bool" where
  "periodic k tm \<longleftrightarrow> tm_flag (timers k tm) AND RT_TIMER_FLAG_PERIODIC \<noteq> 0"

lemma fire_oneshot:
  assumes "quiet user" "\<not> periodic k tm"
  shows "timer_fire user tm k = clear_activated tm (timeout_func user tm (timer_list_remove tm k))"
  using assms timeout_quiet(1) [OF assms(1), of tm "timer_list_remove tm k"]
  by (simp add: timer_fire_def Let_def periodic_def timer_list_remove_def)

lemma fire_frame:
  assumes q: "quiet user"
  shows "rt_tick (timer_fire user tm k) = rt_tick k"
    "init_tick (timers (timer_fire user tm k) x) = init_tick (timers k x)"
    "x \<noteq> tm \<Longrightarrow> timers (timer_fire user tm k) x = timers k x"
  using timeout_quiet [OF q, of tm "timer_list_remove tm k"]
  by (auto simp: timer_fire_def Let_def clear_activated_def upd_timer_def timer_list_remove_def
      rt_timer_start_def)

lemma flag_settings:
  "(f AND - 2) AND RT_TIMER_FLAG_PERIODIC = f AND RT_TIMER_FLAG_PERIODIC"
  "(f OR RT_TIMER_FLAG_ACTIVATED) AND RT_TIMER_FLAG_PERIODIC = f AND RT_TIMER_FLAG_PERIODIC" for f :: u8
  by (rule bit_eqI; auto simp: bit_simps)+

lemma fire_periodic_flag:
  assumes q: "quiet user"
  shows "periodic (timer_fire user tm k) x = periodic k x"
proof -
  have flags: "(f AND NOT RT_TIMER_FLAG_ACTIVATED) AND RT_TIMER_FLAG_PERIODIC = f AND RT_TIMER_FLAG_PERIODIC"
    "(f OR RT_TIMER_FLAG_ACTIVATED) AND RT_TIMER_FLAG_PERIODIC = f AND RT_TIMER_FLAG_PERIODIC" for f :: u8
    by (rule bit_eqI; auto simp: bit_simps)+
  have minus_flag: "NOT RT_TIMER_FLAG_ACTIVATED = - 2" by simp
  show ?thesis
    using timeout_quiet [OF q, of tm "timer_list_remove tm k"]
    by (auto simp: timer_fire_def Let_def clear_activated_def upd_timer_def timer_list_remove_def
        rt_timer_start_def periodic_def flags [unfolded minus_flag])
qed

lemma filter_timer_insert:
  "distinct (tm # ts) \<Longrightarrow> \<not> P tm \<Longrightarrow> filter P (timer_insert tick_of tm ts) = filter P ts"
  by (induction ts) auto

lemma fire_list:
  assumes q: "quiet user" and a: "armed k tm"
  defines "k' \<equiv> timer_fire user tm k"
    and "tick_of \<equiv> (timeouts k)(tm := rt_tick k + init_tick (timers k tm))"
  shows "timeouts k' = (if periodic k tm then tick_of else timeouts k)"
    and "rt_timer_list k' =
      (let ts = filter (\<lambda>x. x \<noteq> tm) (rt_timer_list k)
       in if periodic k tm then timer_insert tick_of tm ts else ts)"
  using timeout_quiet [OF q, of tm "timer_list_remove tm k"] a
  by (auto simp: k'_def tick_of_def timer_fire_def Let_def clear_activated_def upd_timer_def
      timer_list_remove_def rt_timer_start_def periodic_def timeouts_def armed_def rt_tick_get_def
      fun_eq_iff fun_upd_def if_distrib cong: if_cong)

text \<open>Periodic timers wait at least one tick and less than half the range.\<close>

definition periods_ok :: "kernel \<Rightarrow> bool" where
  "periods_ok k \<longleftrightarrow> (\<forall>tm\<in>set (rt_timer_list k). periodic k tm \<longrightarrow>
     0 < unat (init_tick (timers k tm)) \<and> unat (init_tick (timers k tm)) < unat half_range)"

text \<open>For one call of the check only the periods of the timers that are due matter.\<close>

definition due_periods_ok :: "kernel \<Rightarrow> bool" where
  "due_periods_ok k \<longleftrightarrow> (\<forall>tm\<in>set (rt_timer_list k). periodic k tm \<longrightarrow> timer_due (rt_tick k) k tm \<longrightarrow>
     0 < unat (init_tick (timers k tm)) \<and> unat (init_tick (timers k tm)) < unat half_range)"

lemma periods_ok_due [intro]: "periods_ok k \<Longrightarrow> due_periods_ok k"
  by (simp add: periods_ok_def due_periods_ok_def)

lemma restart_not_due:
  fixes i :: u32
  assumes "0 < unat i" "unat i < unat half_range"
  shows "\<not> now - (now + i) < half_range"
proof -
  have "unat (0 - i) = 4294967296 - unat i"
    using assms by (simp add: unat_sub_if_size word_size del: diff_0 diff_0_eq_0)
  then show ?thesis
    using assms by (simp add: word_less_nat_alt half_range_val)
qed

definition due_count :: "kernel \<Rightarrow> nat" where
  "due_count k = length (filter (timer_due (rt_tick k) k) (rt_timer_list k))"

lemma timer_due_timeouts: "timer_due now k tm \<longleftrightarrow> now - timeouts k tm < half_range"
  by (simp add: timer_due_def timeouts_def)

lemma fire_ok:
  assumes q: "quiet user" and ok: "timer_ok k" and l: "rt_timer_list k = tm # ts"
  shows "timer_ok (timer_fire user tm k)"
proof -
  have a: "armed k tm" and d: "distinct (tm # ts)" and arm: "\<forall>x\<in>set ts. armed k x"
    using ok l by (auto simp: timer_ok_def)
  have ts: "filter (\<lambda>x. x \<noteq> tm) (rt_timer_list k) = ts" using d l by simp
  have "periodic k tm \<Longrightarrow> armed (timer_fire user tm k) tm"
    using a timeout_quiet [OF q, of tm "timer_list_remove tm k"] and_or_activated
    by (auto simp: timer_fire_def Let_def armed_def periodic_def timer_list_remove_def
        rt_timer_start_def upd_timer_def clear_activated_def)
  then show ?thesis
    using d arm fire_list(2) [OF q a] ts fire_frame(3) [OF q, of _ tm k]
    by (auto simp: timer_ok_def Let_def armed_def intro!: distinct_timer_insert split: if_splits)
qed

lemma fire_progress:
  assumes q: "quiet user" and ok: "timer_ok k" "due_periods_ok k"
    and l: "rt_timer_list k = tm # ts" and due: "timer_due (rt_tick k) k tm"
  defines "k' \<equiv> timer_fire user tm k"
  shows "timer_ok k'" "due_periods_ok k'" "due_count k' < due_count k"
proof -
  have a: "armed k tm" and d: "distinct (tm # ts)" and arm: "\<forall>x\<in>set ts. armed k x"
    using ok(1) l by (auto simp: timer_ok_def)
  note fl = fire_list [OF q a]
  have ts: "filter (\<lambda>x. x \<noteq> tm) (rt_timer_list k) = ts" using d l by simp
  have other: "timers k' x = timers k x" if "x \<noteq> tm" for x
    unfolding k'_def by (rule fire_frame(3) [OF q that])
  show "timer_ok k'" unfolding k'_def by (rule fire_ok [OF q ok(1) l])
  have in_k: "set (rt_timer_list k') \<subseteq> set (rt_timer_list k)"
    using fl(2) ts l by (auto simp: k'_def Let_def)
  have own: "\<not> timer_due (rt_tick k) k' tm" if "periodic k tm"
    using that ok(2) l due restart_not_due [of "init_tick (timers k tm)" "rt_tick k"]
    by (auto simp: timer_due_timeouts k'_def fl(1) due_periods_ok_def)
  show "due_periods_ok k'"
    unfolding due_periods_ok_def
  proof (intro ballI impI)
    fix x assume x: "x \<in> set (rt_timer_list k')" "periodic k' x" "timer_due (rt_tick k') k' x"
    then have "periodic k x" "x \<noteq> tm" "timer_due (rt_tick k) k' x"
      using own by (auto simp: k'_def fire_periodic_flag [OF q] fire_frame(1) [OF q])
    then show "0 < unat (init_tick (timers k' x)) \<and> unat (init_tick (timers k' x)) < unat half_range"
      using ok(2) in_k x(1) other [of x] by (auto simp: due_periods_ok_def timer_due_def)
  qed
  have same: "filter (timer_due (rt_tick k) k') ts = filter (timer_due (rt_tick k) k) ts"
  proof (rule filter_cong)
    fix x assume "x \<in> set ts"
    then have "x \<noteq> tm" using d by auto
    then show "timer_due (rt_tick k) k' x = timer_due (rt_tick k) k x"
      by (simp add: timer_due_def other)
  qed simp
  have "filter (timer_due (rt_tick k) k') (rt_timer_list k') = filter (timer_due (rt_tick k) k) ts"
  proof (cases "periodic k tm")
    case True
    then show ?thesis
      using own fl(2) ts d True same by (simp add: k'_def Let_def filter_timer_insert)
  next
    case False
    then show ?thesis using fl(2) ts same by (simp add: k'_def Let_def)
  qed
  then show "due_count k' < due_count k"
    using l due by (simp add: due_count_def k'_def fire_frame(1) [OF q])
qed

text \<open>
  The loop ends; whatever each round preserves holds at the end, and then the first timer,
  if any, is not due.
\<close>

lemma check_loop_result:
  assumes q: "quiet user" and "timer_ok k" "due_periods_ok k" "P k"
    and step: "\<And>k tm ts. \<lbrakk>P k; timer_ok k; rt_timer_list k = tm # ts; timer_due (rt_tick k) k tm\<rbrakk> \<Longrightarrow>
      P (timer_fire user tm k)"
  shows "\<exists>k'. timer_check_loop user (rt_tick k) k = Some k' \<and> P k' \<and> timer_ok k' \<and> rt_tick k' = rt_tick k \<and>
    (\<forall>tm ts. rt_timer_list k' = tm # ts \<longrightarrow> \<not> timer_due (rt_tick k) k' tm)"
  using assms(2-4)
proof (induction "due_count k" arbitrary: k rule: less_induct)
  case less
  show ?case
  proof (cases "\<exists>tm ts. rt_timer_list k = tm # ts \<and> timer_due (rt_tick k) k tm")
    case True
    then obtain tm ts where l: "rt_timer_list k = tm # ts" "timer_due (rt_tick k) k tm" by blast
    note p = fire_progress [OF q less.prems(1,2) l]
    show ?thesis
      using less.hyps [OF p(3,1,2) step [OF less.prems(3,1) l]] l
      by (simp add: timer_check_loop.simps [of user _ k] rt_tick_get_def fire_frame(1) [OF q])
  next
    case False
    then have "timer_check_loop user (rt_tick k) k = Some k"
      by (subst timer_check_loop.simps) (auto split: list.split)
    with False less.prems show ?thesis by auto
  qed
qed

section \<open>Which timers fire\<close>

text \<open>
  With the timers in a window of half the range that starts at tick \<open>b\<close>, the list is
  sorted by expiry, the due timers are a prefix of it, and they are those whose expiry is
  not after the current tick.
\<close>

definition timers_sorted :: "u32 \<Rightarrow> kernel \<Rightarrow> bool" where
  "timers_sorted b k \<longleftrightarrow> timer_sorted b (timeouts k) (rt_timer_list k) \<and> unat (rt_tick k - b) < unat half_range"

lemma due_iff_to_go:
  assumes "timers_sorted b k" "tm \<in> set (rt_timer_list k)"
  shows "timer_due (rt_tick k) k tm \<longleftrightarrow> to_go b (timeouts k) tm \<le> unat (rt_tick k - b)"
proof -
  have "unat (rt_tick k - b) < 2147483647" "unat (timeouts k tm - b) < 2147483647"
    using assms by (auto simp: timers_sorted_def timer_sorted_def in_window_def to_go_def half_range_val)
  from diff_half [OF this] show ?thesis
    by (simp add: timer_due_timeouts to_go_def half_range_val)
qed

lemma due_prefix:
  assumes s: "timers_sorted b k" and l: "rt_timer_list k = tm # ts" and n: "\<not> timer_due (rt_tick k) k tm"
  shows "\<forall>x\<in>set (rt_timer_list k). \<not> timer_due (rt_tick k) k x"
proof
  fix x assume x: "x \<in> set (rt_timer_list k)"
  have "to_go b (timeouts k) tm \<le> to_go b (timeouts k) x"
    using s x l by (auto simp: timers_sorted_def timer_sorted_def)
  then show "\<not> timer_due (rt_tick k) k x"
    using n due_iff_to_go [OF s x] due_iff_to_go [OF s, of tm] l by auto
qed

text \<open>Due timers fire in the order of the list when they are one-shot.\<close>

lemma check_loop_oneshot:
  assumes q: "quiet user" and "timer_ok k" "\<forall>tm\<in>set (rt_timer_list k). \<not> periodic k tm"
  shows "timer_check_loop user (rt_tick k) k =
    Some (fold (timer_fire user) (takeWhile (timer_due (rt_tick k) k) (rt_timer_list k)) k)"
  using assms(2,3)
proof (induction "rt_timer_list k" arbitrary: k)
  case Nil
  then show ?case by (subst timer_check_loop.simps) (simp flip: Nil(1))
next
  case (Cons tm ts)
  note l = Cons(2) [symmetric]
  show ?case
  proof (cases "timer_due (rt_tick k) k tm")
    case True
    let ?k = "timer_fire user tm k"
    have a: "armed k tm" and d: "distinct (tm # ts)" and np: "\<not> periodic k tm"
      using Cons.prems l by (auto simp: timer_ok_def)
    have po: "due_periods_ok k" using Cons.prems by (auto simp: due_periods_ok_def)
    have l': "rt_timer_list ?k = ts" using fire_list(2) [OF q a] np l d by simp
    have np': "\<forall>x\<in>set (rt_timer_list ?k). \<not> periodic ?k x"
      using Cons.prems l l' by (auto simp: fire_periodic_flag [OF q])
    have "timer_due (rt_tick k) ?k = timer_due (rt_tick k) k"
      using fire_list(1) [OF q a] np by (simp add: timer_due_timeouts fun_eq_iff)
    moreover have "timer_check_loop user (rt_tick ?k) ?k =
        Some (fold (timer_fire user) (takeWhile (timer_due (rt_tick ?k) ?k) ts) ?k)"
      using Cons.hyps(1) [of ?k] l' fire_progress(1) [OF q Cons.prems(1) po l True] np' by simp
    ultimately show ?thesis
      using True l by (simp add: timer_check_loop.simps [of user _ k] rt_tick_get_def fire_frame(1) [OF q])
  next
    case False
    then show ?thesis using l by (simp add: timer_check_loop.simps [of user _ k])
  qed
qed

section \<open>Preservation of the kernel invariant\<close>

text \<open>A timeout function that keeps the invariant, and thread timers that fire once.\<close>

definition keeps_kinv :: "(nat \<Rightarrow> kernel \<Rightarrow> kernel) \<Rightarrow> bool" where
  "keeps_kinv user \<longleftrightarrow> (\<forall>n k. kinv k \<longrightarrow> kinv (user n k))"

definition sleepers_oneshot :: "kernel \<Rightarrow> bool" where
  "sleepers_oneshot k \<longleftrightarrow> (\<forall>t. \<not> periodic k (ThreadTimer t))"

lemma kinv_clear_activated:
  assumes "kinv k" "tm \<notin> set (rt_timer_list k)"
  shows "kinv (clear_activated tm k)"
  using assms
  by (auto simp: kinv_defs clear_activated_def upd_timer_def stat_of_def sched_inv_x_def priority_of_def)

lemma fire_kinv:
  assumes q: "quiet user" "keeps_kinv user" and inv: "kinv k" and o: "sleepers_oneshot k"
    and l: "rt_timer_list k = tm # ts"
  shows "kinv (timer_fire user tm k)"
proof -
  let ?k1 = "timer_list_remove tm k"
  have k1: "kinv ?k1" "tm \<notin> set (rt_timer_list ?k1)"
    using kinv_timer_detach [OF inv, of tm] by (simp_all add: rt_timer_detach_def upd_objects_def)
  have k2: "kinv (timeout_func user tm ?k1)"
  proof (cases tm)
    case (ThreadTimer t)
    have "stat_of k t = RT_THREAD_SUSPEND" using inv l ThreadTimer by (simp add: kinv_x_def sleepers_ok_def)
    then show ?thesis
      using timeout_kinv [OF k1(1)] k1(2) by (simp add: ThreadTimer stat_of_def timer_list_remove_def)
  next
    case (UserTimer n)
    then show ?thesis using q(2) k1(1) by (simp add: keeps_kinv_def)
  qed
  moreover have "tm \<notin> set (rt_timer_list (timeout_func user tm ?k1))"
    using k1(2) by (simp add: timeout_quiet [OF q(1)])
  ultimately have k3: "kinv (clear_activated tm (timeout_func user tm ?k1))"
    by (rule kinv_clear_activated)
  show ?thesis
  proof (cases "periodic k tm")
    case True
    then have "\<And>t. tm \<noteq> ThreadTimer t" using o by (auto simp: sleepers_oneshot_def)
    then show ?thesis
      using k3 k2 kinv_timer_start [OF k3, of tm] by (simp add: timer_fire_def Let_def)
  qed (simp add: fire_oneshot [OF q(1)] k3)
qed

lemma check_kinv:
  assumes q: "quiet user" "keeps_kinv user" and inv: "kinv k" and o: "sleepers_oneshot k" and p: "periods_ok k"
  shows "\<exists>k'. rt_timer_check user k = Some k' \<and> kinv k' \<and>
    (\<forall>tm ts. rt_timer_list k' = tm # ts \<longrightarrow> \<not> timer_due (rt_tick k) k' tm)"
proof -
  have "timer_ok k" using inv by (simp add: kinv_x_def)
  from check_loop_result [OF q(1) this periods_ok_due [OF p], of "\<lambda>k. kinv k \<and> sleepers_oneshot k"]
  show ?thesis
    using inv o fire_kinv [OF q]
    by (auto simp: rt_timer_check_def rt_tick_get_def sleepers_oneshot_def fire_periodic_flag [OF q(1)])
qed

lemma tick_increase_kinv:
  assumes q: "quiet user" "keeps_kinv user" and inv: "kinv k" and o: "sleepers_oneshot k" and p: "periods_ok k"
  shows "\<exists>k'. rt_tick_increase user k = Some k' \<and> kinv k'"
proof (cases "rt_current_thread k")
  case None
  then show ?thesis using inv by (simp add: rt_tick_increase_def Let_def rt_thread_self_def)
next
  case (Some t)
  let ?k2 = "upd_thread t (\<lambda>th. th\<lparr>remaining_tick := remaining_tick th - 1\<rparr>) (k\<lparr>rt_tick := rt_tick k + 1\<rparr>)"
  let ?k3 = "if remaining_tick (threads ?k2 t) = 0
      then snd (rt_thread_yield (upd_thread t (\<lambda>th. th\<lparr>remaining_tick := t_init_tick th\<rparr>) ?k2)) else ?k2"
  have y: "timers (snd (rt_thread_yield k)) = timers k" "rt_timer_list (snd (rt_thread_yield k)) = rt_timer_list k" for k
    by (auto simp: rt_thread_yield_def kframe list_append_def list_remove_def split: option.split)
  have "kinv ?k3" using inv yield_kinv by (simp add: kinv_neutral)
  moreover have "sleepers_oneshot ?k3" "periods_ok ?k3"
    using o p by (simp_all add: sleepers_oneshot_def periods_ok_def periodic_def y)
  ultimately show ?thesis
    using Some check_kinv [OF q, of ?k3] by (auto simp: rt_tick_increase_def Let_def rt_thread_self_def)
qed

section \<open>Sleeping\<close>

lemma sleep_result:
  fixes n :: u32
  assumes cur: "rt_current_thread k = Some t" and s: "stat_of k t = RT_THREAD_READY"
  defines "k' \<equiv> rt_thread_sleep n k"
  shows "stat_of k' t = RT_THREAD_SUSPEND" "\<forall>l. t \<notin> set (lists k' l)"
    "ThreadTimer t \<in> set (rt_timer_list k')" "timeouts k' (ThreadTimer t) = rt_tick k + n"
    "rt_tick k' = rt_tick k"
proof -
  let ?k1 = "snd (rt_thread_suspend t k)"
  have k1: "stat_of ?k1 t = RT_THREAD_SUSPEND" "\<forall>l. t \<notin> set (lists ?k1 l)" "rt_tick ?k1 = rt_tick k"
    using s suspend_upd_stat(1) [of t k]
    by (simp_all add: rt_thread_suspend_def stat_of_def kframe remove_thread_lists)
  have c: "threads (snd (rt_timer_control tm c a k)) = threads k"
    "lists (snd (rt_timer_control tm c a k)) = lists k"
    "rt_tick (snd (rt_timer_control tm c a k)) = rt_tick k" for tm c a k
    by (cases c; simp add: upd_timer_def)+
  show "stat_of k' t = RT_THREAD_SUSPEND" "\<forall>l. t \<notin> set (lists k' l)" "rt_tick k' = rt_tick k"
    using k1 cur by (simp_all add: k'_def rt_thread_sleep_def Let_def kframe stat_of_def c
        del: rt_timer_control.simps)
  show "ThreadTimer t \<in> set (rt_timer_list k')" "timeouts k' (ThreadTimer t) = rt_tick k + n"
    using cur k1(3) by (simp_all add: k'_def rt_thread_sleep_def Let_def kframe timer_start_list)
      (simp add: timeouts_def kframe rt_timer_start_def Let_def upd_timer_def timer_list_remove_def rt_tick_get_def)
qed

section \<open>A one-shot timer that restarts itself\<close>

text \<open>
  The round clears the activated flag after the timeout function has run. When the function
  of a one-shot timer starts the timer again, the timer ends in the list without the flag.
\<close>

definition restart_self :: "nat \<Rightarrow> kernel \<Rightarrow> kernel" where
  "restart_self n k = snd (rt_timer_start (UserTimer n) k)"

text \<open>
  The flag is cleared after the callback has run, so a one-shot timer that its own
  callback starts again stays in the list without the flag: \<^verbatim>\<open>rt_timer_stop\<close>
  then fails and leaves it running.
\<close>

theorem restart_self_lost:
  assumes "\<not> periodic k (UserTimer n)"
  defines "k' \<equiv> timer_fire restart_self (UserTimer n) k"
  shows "UserTimer n \<in> set (rt_timer_list k') \<and> rt_timer_stop (UserTimer n) k' = (- RT_ERROR, k')"
proof -
  let ?k2 = "restart_self n (timer_list_remove (UserTimer n) k)"
  have flags: "((f AND NOT RT_TIMER_FLAG_ACTIVATED) OR RT_TIMER_FLAG_ACTIVATED) AND RT_TIMER_FLAG_PERIODIC =
      f AND RT_TIMER_FLAG_PERIODIC" for f :: u8
    by (rule bit_eqI; auto simp: bit_simps)
  have clear: "(f AND NOT RT_TIMER_FLAG_ACTIVATED) AND RT_TIMER_FLAG_ACTIVATED = 0" for f :: u8
    by (rule bit_eqI; auto simp: bit_simps)
  have minus_flag: "NOT RT_TIMER_FLAG_ACTIVATED = - 2" by simp
  have "\<not> periodic ?k2 (UserTimer n)"
    using assms(1) by (simp add: periodic_def restart_self_def rt_timer_start_def Let_def upd_timer_def
        timer_list_remove_def flags [unfolded minus_flag])
  then have k': "k' = clear_activated (UserTimer n) ?k2"
    by (simp add: k'_def timer_fire_def Let_def periodic_def)
  have "UserTimer n \<in> set (rt_timer_list ?k2)"
    by (simp add: restart_self_def timer_start_list)
  then show ?thesis
    by (simp add: k' clear_activated_def upd_timer_def rt_timer_stop_def clear [unfolded minus_flag])
qed

section \<open>Nothing due is left\<close>

text \<open>
  The window of half the range that starts at \<open>b\<close> also has room for the next expiry of
  every periodic timer.
\<close>

definition periods_fit :: "u32 \<Rightarrow> kernel \<Rightarrow> bool" where
  "periods_fit b k \<longleftrightarrow> (\<forall>tm\<in>set (rt_timer_list k). periodic k tm \<longrightarrow>
     unat (rt_tick k - b) + unat (init_tick (timers k tm)) < unat half_range)"

lemma fire_sorted:
  assumes q: "quiet user" and ok: "timer_ok k" and s: "timers_sorted b k" and p: "periods_fit b k"
    and l: "rt_timer_list k = tm # ts"
  shows "timers_sorted b (timer_fire user tm k) \<and> periods_fit b (timer_fire user tm k)"
proof -
  let ?k = "timer_fire user tm k" and ?tick_of = "(timeouts k)(tm := rt_tick k + init_tick (timers k tm))"
  have a: "armed k tm" and d: "tm \<notin> set ts" "distinct ts" using ok l by (auto simp: timer_ok_def)
  note fl = fire_list [OF q a]
  have ts: "filter (\<lambda>x. x \<noteq> tm) (rt_timer_list k) = ts" using d l by simp
  have "timer_sorted b (timeouts k) ts" using s l by (simp add: timers_sorted_def timer_sorted_def)
  have tick: "rt_tick ?k = rt_tick k" by (rule fire_frame(1) [OF q])
  have "timer_sorted b (timeouts ?k) (rt_timer_list ?k)"
  proof (cases "periodic k tm")
    case False
    then show ?thesis using \<open>timer_sorted b (timeouts k) ts\<close> fl ts by simp
  next
    case True
    then have w: "unat (rt_tick k - b) + unat (init_tick (timers k tm)) < 2147483647"
      using p l by (auto simp: periods_fit_def half_range_val)
    have sum: "unat ((rt_tick k - b) + init_tick (timers k tm)) = unat (rt_tick k - b) + unat (init_tick (timers k tm))"
      using w unat_add_lem [of "rt_tick k - b" "init_tick (timers k tm)"] by simp
    have "?tick_of tm - b = (rt_tick k - b) + init_tick (timers k tm)" by (simp add: algebra_simps)
    then have "to_go b ?tick_of tm = unat (rt_tick k - b) + unat (init_tick (timers k tm))"
      unfolding to_go_def by (simp only: sum)
    then have tm: "in_window b ?tick_of tm" using w by (simp add: in_window_def half_range_val)
    have "\<forall>x\<in>set ts. to_go b ?tick_of x = to_go b (timeouts k) x" using d by (auto simp: to_go_def)
    then have "timer_sorted b ?tick_of ts"
      using \<open>timer_sorted b (timeouts k) ts\<close> by (simp add: timer_sorted_def in_window_def cong: map_cong)
    from timer_insert_sorted [OF this tm] show ?thesis using True fl ts by simp
  qed
  moreover have "set (rt_timer_list ?k) \<subseteq> set (rt_timer_list k)"
    using fl(2) ts l by (auto simp: Let_def)
  ultimately show ?thesis
    using s p tick by (auto simp: timers_sorted_def periods_fit_def fire_frame(2) [OF q] fire_periodic_flag [OF q])
qed

text \<open>A periodic timer of 0 ticks is due again as soon as it has been restarted.\<close>

definition spins :: "kernel \<Rightarrow> timer_id \<Rightarrow> bool" where
  "spins k tm \<longleftrightarrow> timer_due (rt_tick k) k tm \<and> periodic k tm \<and> init_tick (timers k tm) = 0"

lemma fire_spins:
  assumes q: "quiet user" and ok: "timer_ok k" and l: "rt_timer_list k = tm # ts"
    and z: "z \<in> set (rt_timer_list k)" "spins k z"
  shows "z \<in> set (rt_timer_list (timer_fire user tm k)) \<and> spins (timer_fire user tm k) z"
proof -
  have a: "armed k tm" using ok l by (simp add: timer_ok_def)
  note fl = fire_list [OF q a]
  have "timer_due (rt_tick k) (timer_fire user tm k) z"
    using z(2) fl(1) fire_frame(3) [OF q, of z tm k]
    by (cases "z = tm") (auto simp: spins_def timer_due_timeouts timeouts_def half_range_val fun_eq_iff)
  then show ?thesis
    using z fl(2) l fire_frame [OF q] fire_periodic_flag [OF q] by (auto simp: spins_def Let_def)
qed

lemma check_loop_spins:
  assumes q: "quiet user"
    and some: "timer_check_loop user c k = Some k'"
    and start: "c = rt_tick k" "timer_ok k" "timers_sorted b k" "periods_fit b k" "\<exists>z\<in>set (rt_timer_list k). spins k z"
  shows False
proof -
  let ?I = "\<lambda>k. timer_ok k \<and> timers_sorted b k \<and> periods_fit b k \<and> (\<exists>z\<in>set (rt_timer_list k). spins k z)"
  have "c = rt_tick k \<longrightarrow> \<not> ?I k"
  proof (rule timer_check_loop.raw_induct [OF _ some, where P = "\<lambda>u c k _. u = user \<longrightarrow> c = rt_tick k \<longrightarrow> \<not> ?I k",
        THEN mp, OF _ refl])
    fix loop u c k k'
    assume IH: "\<And>u c k k'. loop u c k = Some k' \<Longrightarrow> u = user \<longrightarrow> c = rt_tick k \<longrightarrow> \<not> ?I k"
      and r: "(case rt_timer_list k of [] \<Rightarrow> Some k
        | tm # x \<Rightarrow> if timer_due c k tm then loop u (rt_tick_get (timer_fire u tm k)) (timer_fire u tm k) else Some k) = Some k'"
    show "u = user \<longrightarrow> c = rt_tick k \<longrightarrow> \<not> ?I k"
    proof (intro impI notI)
      assume u: "u = user" and c: "c = rt_tick k" and I: "?I k"
      then obtain z where z: "z \<in> set (rt_timer_list k)" "spins k z" by blast
      then obtain tm ts where l: "rt_timer_list k = tm # ts" by (cases "rt_timer_list k") auto
      have due: "timer_due (rt_tick k) k tm"
        using due_prefix [OF _ l] I z by (auto simp: spins_def)
      have a: "armed k tm" and d: "tm \<notin> set ts" "distinct ts" and ts: "\<forall>x\<in>set ts. armed k x"
        using I l by (auto simp: timer_ok_def)
      let ?k = "timer_fire user tm k"
      have "timer_ok ?k"
        using I l q by (auto intro: fire_ok)
      moreover have "timers_sorted b ?k \<and> periods_fit b ?k" using I by (intro fire_sorted [OF q _ _ _ l]) auto
      moreover have "\<exists>z\<in>set (rt_timer_list ?k). spins ?k z" using fire_spins [OF q _ l z] I by blast
      ultimately have "?I ?k" by blast
      moreover have "loop u (rt_tick_get ?k) ?k = Some k'"
        using r l c due u by simp
      then have "\<not> ?I ?k" using IH u by (simp add: rt_tick_get_def)
      ultimately show False by blast
    qed
  qed
  then show False using start by blast
qed

text \<open>
  C4: \<^verbatim>\<open>rt_timer_check\<close> with timeout functions that leave clock and timers alone:
  if no due timer is periodic with a period of 0 ticks it ends, although it restarts periodic
  timers while it walks the list, and leaves the list sorted and without a timer that is due;
  if one is, which no call rejects, it never ends. The list is one that the timer calls keep
  (armed, in the order of expiry, in a window of half the tick range), and the periods are
  below the rest of that window, which the assertion of \<^verbatim>\<open>rt_timer_start\<close> asks for.
\<close>

theorem timer_check_terminates:
  assumes "quiet user" "timer_ok k" "timers_sorted b k" "periods_fit b k"
  shows "if \<exists>tm\<in>set (rt_timer_list k). timer_due (rt_tick k) k tm \<and> periodic k tm \<and> init_tick (timers k tm) = 0
    then rt_timer_check user k = None
    else \<exists>k'. rt_timer_check user k = Some k' \<and> timer_ok k' \<and> timers_sorted b k' \<and>
      (\<forall>tm\<in>set (rt_timer_list k'). \<not> timer_due (rt_tick k') k' tm)"
proof (cases "\<exists>tm\<in>set (rt_timer_list k). spins k tm")
  case True
  then have "rt_timer_check user k = None"
    using check_loop_spins [OF assms(1), of "rt_tick k" k] assms(2-4)
    by (cases "rt_timer_check user k") (auto simp: rt_timer_check_def rt_tick_get_def)
  then show ?thesis using True by (simp add: spins_def)
next
  case False
  let ?P = "\<lambda>k. timers_sorted b k \<and> periods_fit b k"
  have "due_periods_ok k"
    unfolding due_periods_ok_def
  proof (intro ballI impI)
    fix x assume x: "x \<in> set (rt_timer_list k)" "periodic k x" "timer_due (rt_tick k) k x"
    then have "init_tick (timers k x) \<noteq> 0" using False by (auto simp: spins_def)
    then show "0 < unat (init_tick (timers k x)) \<and> unat (init_tick (timers k x)) < unat half_range"
      using x(1,2) assms(4) unat_gt_0 [of "init_tick (timers k x)"] by (auto simp: periods_fit_def)
  qed
  then have "\<exists>k'. timer_check_loop user (rt_tick k) k = Some k' \<and> ?P k' \<and> timer_ok k' \<and> rt_tick k' = rt_tick k \<and>
      (\<forall>tm ts. rt_timer_list k' = tm # ts \<longrightarrow> \<not> timer_due (rt_tick k) k' tm)"
    by (rule check_loop_result [OF assms(1,2)]) (use assms(3,4) fire_sorted [OF assms(1)] in blast)+
  then obtain k' where k': "timer_check_loop user (rt_tick k) k = Some k'" "timers_sorted b k'" "timer_ok k'"
    "rt_tick k' = rt_tick k" "\<forall>tm ts. rt_timer_list k' = tm # ts \<longrightarrow> \<not> timer_due (rt_tick k) k' tm"
    by blast
  have "\<forall>tm\<in>set (rt_timer_list k'). \<not> timer_due (rt_tick k') k' tm"
    using due_prefix [OF k'(2)] k'(4,5) by (cases "rt_timer_list k'") auto
  then show ?thesis using False k' by (auto simp: spins_def rt_timer_check_def rt_tick_get_def)
qed

lemma sorted_prefix:
  fixes f :: "'a \<Rightarrow> nat"
  shows "sorted (map f xs) \<Longrightarrow> takeWhile (\<lambda>x. f x \<le> c) xs = filter (\<lambda>x. f x \<le> c) xs"
  by (induction xs) (auto intro!: filter_False [symmetric])

text \<open>
  C5: one-shot timers fire exactly when they are due, each once and in the order of their
  expiry ticks, those with equal ticks in the order they were started.
\<close>

theorem due_timers_fire_in_order:
  assumes "quiet user" "timer_ok k" "timers_sorted b k" "\<forall>tm\<in>set (rt_timer_list k). \<not> periodic k tm"
  defines "due \<equiv> filter (timer_due (rt_tick k) k) (rt_timer_list k)"
  shows "rt_timer_check user k = Some (fold (timer_fire user) due k) \<and>
    sorted (map (to_go b (timeouts k)) due) \<and>
    set due = {tm \<in> set (rt_timer_list k). to_go b (timeouts k) tm \<le> unat (rt_tick k - b)}"
proof -
  have s: "sorted (map (to_go b (timeouts k)) (rt_timer_list k))"
    using assms(3) by (simp add: timers_sorted_def timer_sorted_def)
  let ?P = "\<lambda>tm. to_go b (timeouts k) tm \<le> unat (rt_tick k - b)"
  have due: "due = filter ?P (rt_timer_list k)"
    unfolding due_def by (rule filter_cong [OF refl]) (rule due_iff_to_go [OF assms(3)])
  have "takeWhile (timer_due (rt_tick k) k) (rt_timer_list k) = takeWhile ?P (rt_timer_list k)"
    by (rule takeWhile_cong [OF refl]) (rule due_iff_to_go [OF assms(3)])
  then have "takeWhile (timer_due (rt_tick k) k) (rt_timer_list k) = due"
    using sorted_prefix [OF s] due by simp
  then show ?thesis
    using check_loop_oneshot [OF assms(1,2,4)] due s
    by (auto simp: rt_timer_check_def rt_tick_get_def sorted_filter)
qed

section \<open>A sleeping thread wakes on time\<close>

lemma start_sorted:
  assumes s: "timers_sorted b k" and w: "unat (rt_tick k - b) + unat (init_tick (timers k tm)) < unat half_range"
  shows "timers_sorted b (snd (rt_timer_start tm k))"
proof -
  let ?tick_of = "(timeouts k)(tm := rt_tick k + init_tick (timers k tm))"
  let ?ts = "filter (\<lambda>x. x \<noteq> tm) (rt_timer_list k)"
  have k': "timeouts (snd (rt_timer_start tm k)) = ?tick_of"
    "rt_timer_list (snd (rt_timer_start tm k)) = timer_insert ?tick_of tm ?ts"
    by (auto simp: timeouts_def rt_timer_start_def Let_def upd_timer_def timer_list_remove_def rt_tick_get_def fun_eq_iff
        fun_upd_def if_distrib cong: if_cong)
  have "unat ((rt_tick k - b) + init_tick (timers k tm)) = unat (rt_tick k - b) + unat (init_tick (timers k tm))"
    using w unat_add_lem [of "rt_tick k - b" "init_tick (timers k tm)"] by (simp add: half_range_val)
  moreover have "?tick_of tm - b = (rt_tick k - b) + init_tick (timers k tm)" by (simp add: algebra_simps)
  ultimately have tm: "in_window b ?tick_of tm" using w by (simp only: in_window_def to_go_def)
  have same: "to_go b ?tick_of x = to_go b (timeouts k) x" if "x \<in> set ?ts" for x
    using that by (simp add: to_go_def)
  then have "map (to_go b ?tick_of) ?ts = map (to_go b (timeouts k)) ?ts" by (rule map_cong [OF refl])
  moreover have "timer_sorted b (timeouts k) ?ts"
    using s by (simp add: timers_sorted_def timer_sorted_def sorted_filter)
  ultimately have "timer_sorted b ?tick_of ?ts"
    unfolding timer_sorted_def in_window_def using same by metis
  from timer_insert_sorted [OF this tm] show ?thesis using s by (simp add: timers_sorted_def k' kframe)
qed

text \<open>Callbacks that leave the clock, the timers and thread \<open>t\<close> alone.\<close>

definition benign :: "tid \<Rightarrow> (nat \<Rightarrow> kernel \<Rightarrow> kernel) \<Rightarrow> bool" where
  "benign t user \<longleftrightarrow> quiet user \<and> (\<forall>n k. stat_of (user n k) t = stat_of k t \<and>
     (rt_current_thread k \<noteq> None \<longrightarrow> rt_current_thread (user n k) \<noteq> None))"

definition asleep :: "tid \<Rightarrow> u32 \<Rightarrow> kernel \<Rightarrow> bool" where
  "asleep t until k \<longleftrightarrow> ThreadTimer t \<in> set (rt_timer_list k) \<and> timeouts k (ThreadTimer t) = until \<and>
     \<not> periodic k (ThreadTimer t) \<and> stat_of k t = RT_THREAD_SUSPEND"

lemma insert_stat_other: "u \<noteq> t \<Longrightarrow> stat_of (rt_schedule_insert_thread t k) u = stat_of k u"
  by (simp add: stat_of_def insert_thread_threads)

lemma schedule_current: "rt_current_thread k \<noteq> None \<Longrightarrow> rt_current_thread (rt_schedule k) \<noteq> None"
  by (auto simp: rt_schedule_def Let_def split: list.split)

lemma timeout_func_thread:
  assumes "benign t user"
  shows "tm \<noteq> ThreadTimer t \<Longrightarrow> stat_of (timeout_func user tm k) t = stat_of k t"
    "stat_of (timeout_func user (ThreadTimer t) k) t = RT_THREAD_READY"
    "rt_current_thread k \<noteq> None \<Longrightarrow> rt_current_thread (timeout_func user tm k) \<noteq> None"
proof -
  have sched: "stat_of (rt_schedule k) = stat_of k" for k by (simp add: stat_of_def kframe fun_eq_iff)
  show "tm \<noteq> ThreadTimer t \<Longrightarrow> stat_of (timeout_func user tm k) t = stat_of k t"
    using assms by (cases tm) (auto simp: benign_def rt_thread_timeout_def sched insert_stat_other
        stat_of_def list_remove_def upd_thread_def insert_thread_threads)
  show "stat_of (timeout_func user (ThreadTimer t) k) t = RT_THREAD_READY"
    by (simp add: rt_thread_timeout_def sched)
  show "rt_current_thread k \<noteq> None \<Longrightarrow> rt_current_thread (timeout_func user tm k) \<noteq> None"
    using assms schedule_current by (cases tm) (auto simp: benign_def rt_thread_timeout_def kframe list_remove_def
        upd_thread_def)
qed

lemma fire_thread:
  assumes b: "benign t user" and a: "armed k tm"
  shows "tm \<noteq> ThreadTimer t \<Longrightarrow> stat_of (timer_fire user tm k) t = stat_of k t"
    "tm = ThreadTimer t \<Longrightarrow> stat_of (timer_fire user tm k) t = RT_THREAD_READY"
    "rt_current_thread k \<noteq> None \<Longrightarrow> rt_current_thread (timer_fire user tm k) \<noteq> None"
    "tm \<noteq> ThreadTimer t \<Longrightarrow> asleep t until k \<Longrightarrow> asleep t until (timer_fire user tm k)"
proof -
  have q: "quiet user" using b by (simp add: benign_def)
  let ?k1 = "timer_list_remove tm k"
  have k1: "stat_of ?k1 = stat_of k" "rt_current_thread ?k1 = rt_current_thread k"
    by (simp_all add: timer_list_remove_def stat_of_def fun_eq_iff)
  have fin: "stat_of (timer_fire user tm k) = stat_of (timeout_func user tm ?k1)"
    "rt_current_thread (timer_fire user tm k) = rt_current_thread (timeout_func user tm ?k1)"
    by (simp_all add: timer_fire_def Let_def kframe stat_of_def fun_eq_iff) (simp_all add: clear_activated_def upd_timer_def)
  have eq: "stat_of (timer_fire user tm k) t = stat_of (timeout_func user tm ?k1) t" by (simp only: fin)
  show "stat_of (timer_fire user tm k) t = RT_THREAD_READY" if tm: "tm = ThreadTimer t"
    using eq timeout_func_thread(2) [OF b, of ?k1] unfolding tm by (rule trans)
  show other: "tm \<noteq> ThreadTimer t \<Longrightarrow> stat_of (timer_fire user tm k) t = stat_of k t"
    "rt_current_thread k \<noteq> None \<Longrightarrow> rt_current_thread (timer_fire user tm k) \<noteq> None"
    using timeout_func_thread [OF b] k1 by (simp_all add: fin)
  show "tm \<noteq> ThreadTimer t \<Longrightarrow> asleep t until k \<Longrightarrow> asleep t until (timer_fire user tm k)"
    using fire_list(2) [OF q a] fire_frame(3) [OF q, of "ThreadTimer t" tm k] other(1)
    by (simp add: asleep_def timeouts_def fire_periodic_flag [OF q] Let_def)
qed

text \<open>One tick, seen from a sleeping thread.\<close>

definition ahead :: "u32 \<Rightarrow> nat \<Rightarrow> kernel \<Rightarrow> bool" where
  "ahead b n k \<longleftrightarrow> timer_ok k \<and> timers_sorted b k \<and> unat (rt_tick k - b) \<le> n \<and> n < unat half_range \<and>
     rt_current_thread k \<noteq> None \<and>
     (\<forall>tm\<in>set (rt_timer_list k). periodic k tm \<longrightarrow> 0 < unat (init_tick (timers k tm)) \<and>
        n + unat (init_tick (timers k tm)) < unat half_range)"

lemma ahead_periods: "ahead b n k \<Longrightarrow> periods_fit b k" "ahead b n k \<Longrightarrow> due_periods_ok k"
  by (fastforce simp: ahead_def periods_fit_def due_periods_ok_def)+

lemma ahead_cong:
  assumes "timers k' = timers k" "rt_timer_list k' = rt_timer_list k" "rt_current_thread k' \<noteq> None"
    and "unat (rt_tick k' - b) \<le> n" "ahead b n k"
  shows "ahead b n k'"
proof -
  have "timeouts k' = timeouts k" "periodic k' = periodic k" "armed k' = armed k"
    by (simp_all add: timeouts_def periodic_def armed_def fun_eq_iff assms(1))
  then show ?thesis using assms by (auto simp: ahead_def timers_sorted_def timer_ok_def)
qed

lemma fire_ahead:
  assumes b: "benign t user" and a: "ahead w n k" and l: "rt_timer_list k = tm # ts"
    and due: "timer_due (rt_tick k) k tm"
  shows "ahead w n (timer_fire user tm k)"
proof -
  have q: "quiet user" using b by (simp add: benign_def)
  have ok: "timer_ok k" "timers_sorted w k" "armed k tm" using a l by (auto simp: ahead_def timer_ok_def)
  note fl = fire_list(2) [OF q ok(3)] and fs = fire_sorted [OF q ok(1,2) ahead_periods(1) [OF a] l]
  have tick: "rt_tick (timer_fire user tm k) = rt_tick k" by (rule fire_frame(1) [OF q])
  have "set (rt_timer_list (timer_fire user tm k)) \<subseteq> set (rt_timer_list k)"
    using fl l by (auto simp: Let_def)
  moreover have "timer_ok (timer_fire user tm k)"
    by (rule fire_progress(1) [OF q ok(1) ahead_periods(2) [OF a] l due])
  ultimately show ?thesis
    using a fs fire_thread(3) [OF b ok(3)] by (auto simp: ahead_def tick fire_frame(2) [OF q] fire_periodic_flag [OF q])
qed

lemma check_ahead:
  assumes b: "benign t user" and a: "ahead w n k" and s: "asleep t until k"
  shows "\<exists>k'. rt_timer_check user k = Some k' \<and> ahead w n k' \<and> rt_tick k' = rt_tick k \<and>
    (if rt_tick k - until < half_range then stat_of k' t = RT_THREAD_READY else asleep t until k')"
proof -
  have q: "quiet user" using b by (simp add: benign_def)
  let ?due = "rt_tick k - until < half_range"
  let ?P = "\<lambda>k'. ahead w n k' \<and> rt_tick k' = rt_tick k \<and>
      (asleep t until k' \<or> ?due \<and> stat_of k' t = RT_THREAD_READY \<and> ThreadTimer t \<notin> set (rt_timer_list k'))"
  have step: "?P (timer_fire user tm k1)"
    if P: "?P k1" and ok: "timer_ok k1" and l: "rt_timer_list k1 = tm # ts" and due: "timer_due (rt_tick k1) k1 tm"
    for k1 tm ts
  proof -
    have a1: "armed k1 tm" and d: "tm \<notin> set ts" using ok l by (auto simp: timer_ok_def)
    note f = fire_thread [OF b a1] and fl = fire_list(2) [OF q a1]
    have "asleep t until (timer_fire user tm k1) \<or> ?due \<and> stat_of (timer_fire user tm k1) t = RT_THREAD_READY \<and>
        ThreadTimer t \<notin> set (rt_timer_list (timer_fire user tm k1))"
    proof (cases "tm = ThreadTimer t")
      case True
      then have "asleep t until k1" using P l by auto
      then show ?thesis using True f(2) fl due P by (auto simp: asleep_def timer_due_timeouts Let_def)
    next
      case False
      then show ?thesis using P f(1,4) fl by (auto simp: Let_def)
    qed
    then show ?thesis using fire_ahead [OF b _ l due] P by (simp add: fire_frame(1) [OF q])
  qed
  have ok: "timer_ok k" using a by (simp add: ahead_def)
  have "\<exists>k'. timer_check_loop user (rt_tick k) k = Some k' \<and> ?P k' \<and> timer_ok k' \<and> rt_tick k' = rt_tick k \<and>
      (\<forall>tm ts. rt_timer_list k' = tm # ts \<longrightarrow> \<not> timer_due (rt_tick k) k' tm)"
    by (rule check_loop_result [OF q ok ahead_periods(2) [OF a]]) (use a s step in blast)+
  then obtain k' where k': "timer_check_loop user (rt_tick k) k = Some k'" "?P k'"
    "\<forall>tm ts. rt_timer_list k' = tm # ts \<longrightarrow> \<not> timer_due (rt_tick k) k' tm" by blast
  have "\<forall>tm\<in>set (rt_timer_list k'). \<not> timer_due (rt_tick k) k' tm"
    using due_prefix [of w k'] k'(2,3) by (cases "rt_timer_list k'") (auto simp: ahead_def)
  then have "asleep t until k' \<Longrightarrow> \<not> ?due" by (auto simp: asleep_def timer_due_timeouts)
  then show ?thesis using k'(1,2) by (auto simp: rt_timer_check_def rt_tick_get_def)
qed

lemma tick_ahead:
  assumes b: "benign t user" and a: "ahead w n k" and m: "unat (rt_tick k - w) < n" and s: "asleep t until k"
  shows "\<exists>k'. rt_tick_increase user k = Some k' \<and> ahead w n k' \<and> rt_tick k' = rt_tick k + 1 \<and>
    (if rt_tick k + 1 - until < half_range then stat_of k' t = RT_THREAD_READY else asleep t until k')"
proof -
  obtain c where c: "rt_current_thread k = Some c" using a by (auto simp: ahead_def)
  let ?k2 = "upd_thread c (\<lambda>th. th\<lparr>remaining_tick := remaining_tick th - 1\<rparr>) (k\<lparr>rt_tick := rt_tick k + 1\<rparr>)"
  let ?k3 = "if remaining_tick (threads ?k2 c) = 0
      then snd (rt_thread_yield (upd_thread c (\<lambda>th. th\<lparr>remaining_tick := t_init_tick th\<rparr>) ?k2)) else ?k2"
  have y: "timers (snd (rt_thread_yield x)) = timers x" "rt_timer_list (snd (rt_thread_yield x)) = rt_timer_list x"
    "rt_tick (snd (rt_thread_yield x)) = rt_tick x" "threads (snd (rt_thread_yield x)) = threads x"
    "rt_current_thread x \<noteq> None \<Longrightarrow> rt_current_thread (snd (rt_thread_yield x)) \<noteq> None" for x
    using schedule_current
    by (auto simp: rt_thread_yield_def kframe list_append_def list_remove_def split: option.split)
  have k3: "timers ?k3 = timers k" "rt_timer_list ?k3 = rt_timer_list k" "rt_tick ?k3 = rt_tick k + 1"
    "rt_current_thread ?k3 \<noteq> None"
    using y c by (simp_all add: upd_thread_def)
  have st: "stat_of ?k3 = stat_of k"
    by (auto simp: stat_of_def y upd_thread_def)
  have "rt_tick k + 1 - w = (rt_tick k - w) + 1" by (simp add: algebra_simps)
  moreover have "unat ((rt_tick k - w) + 1) = unat (rt_tick k - w) + 1"
    using m a unat_add_lem [of "rt_tick k - w" 1] by (simp add: ahead_def half_range_val)
  ultimately have tk: "unat (rt_tick k + 1 - w) = unat (rt_tick k - w) + 1" by (simp only:)
  have "ahead w n ?k3"
    by (rule ahead_cong [OF k3(1,2,4) _ a]) (use m tk k3(3) in simp)
  moreover have "asleep t until ?k3" using s by (simp only: asleep_def k3 st timeouts_def periodic_def) simp
  ultimately have "\<exists>k'. rt_timer_check user ?k3 = Some k' \<and> ahead w n k' \<and> rt_tick k' = rt_tick ?k3 \<and>
      (if rt_tick ?k3 - until < half_range then stat_of k' t = RT_THREAD_READY else asleep t until k')"
    by (rule check_ahead [OF b])
  then show ?thesis
    unfolding k3 using c by (simp add: rt_tick_increase_def Let_def rt_thread_self_def)
qed

text \<open>Tick interrupts one after the other.\<close>

fun ticks :: "(nat \<Rightarrow> kernel \<Rightarrow> kernel) \<Rightarrow> nat \<Rightarrow> kernel \<Rightarrow> kernel option" where
  "ticks user 0 k = Some k"
| "ticks user (Suc m) k = (case ticks user m k of None \<Rightarrow> None | Some k1 \<Rightarrow> rt_tick_increase user k1)"

lemma ticks_asleep:
  assumes b: "benign t user" and a: "ahead w n k" and s: "asleep t (w + of_nat n) k" and w: "rt_tick k = w"
  shows "m < n \<Longrightarrow> \<exists>k'. ticks user m k = Some k' \<and> ahead w n k' \<and> asleep t (w + of_nat n) k' \<and>
    rt_tick k' = w + of_nat m"
proof (induction m)
  case 0
  then show ?case using a s w by simp
next
  case (Suc m)
  then obtain k1 where k1: "ticks user m k = Some k1" "ahead w n k1" "asleep t (w + of_nat n) k1" "rt_tick k1 = w + of_nat m"
    by auto
  have n: "n < 2147483647" using a by (simp add: ahead_def half_range_val)
  have m: "unat (of_nat m :: u32) = m" "unat (of_nat (Suc m) :: u32) = Suc m" "unat (of_nat n :: u32) = n"
    using Suc.prems n by (simp_all add: unat_of_nat del: of_nat_Suc)
  have "unat (rt_tick k1 - w) < n" using k1(4) m(1) Suc.prems by simp
  from tick_ahead [OF b k1(2) this k1(3)] obtain k' where k': "rt_tick_increase user k1 = Some k'" "ahead w n k'"
    "rt_tick k' = rt_tick k1 + 1"
    "if rt_tick k1 + 1 - (w + of_nat n) < half_range then stat_of k' t = RT_THREAD_READY else asleep t (w + of_nat n) k'"
    by blast
  have "rt_tick k1 + 1 - (w + of_nat n) = of_nat (Suc m) - of_nat n" by (simp add: k1(4))
  moreover have "\<not> (of_nat (Suc m) - of_nat n :: u32) < half_range"
    using diff_half [of "of_nat (Suc m)" "of_nat n"] m Suc.prems n by (simp add: half_range_val del: of_nat_Suc)
  ultimately have "\<not> rt_tick k1 + 1 - (w + of_nat n) < half_range" by (simp only: not_False_eq_True)
  then show ?case using k1 k' by (simp add: algebra_simps)
qed

lemma sleep_ahead:
  assumes inv: "kinv k" and run: "rt_current_thread k = Some t" "stat_of k t = RT_THREAD_READY"
    and s: "timers_sorted (rt_tick k) k" and o: "\<not> periodic k (ThreadTimer t)" and n: "n < unat half_range"
    and p: "\<forall>tm\<in>set (rt_timer_list k). periodic k tm \<longrightarrow> 0 < unat (init_tick (timers k tm)) \<and>
        n + unat (init_tick (timers k tm)) < unat half_range"
  defines "k' \<equiv> rt_thread_sleep (of_nat n) k"
  shows "ahead (rt_tick k) n k'" "asleep t (rt_tick k + of_nat n) k'" "rt_tick k' = rt_tick k"
proof -
  note r = sleep_result [OF run, of "of_nat n", folded k'_def]
  let ?k1 = "snd (rt_thread_suspend t k)"
  let ?k2 = "snd (rt_timer_control (ThreadTimer t) RT_TIMER_CTRL_SET_TIME (of_nat n) ?k1)"
  let ?k3 = "snd (rt_timer_start (ThreadTimer t) ?k2)"
  have k': "k' = rt_schedule ?k3" using run(1) by (simp add: k'_def rt_thread_sleep_def Let_def)
  have keep: "x \<noteq> ThreadTimer t \<Longrightarrow> timers ?k1 x = timers k x" "timeouts ?k1 = timeouts k"
    "rt_timer_list ?k1 = rt_timer_list k" "rt_tick ?k1 = rt_tick k" "rt_current_thread ?k1 = rt_current_thread k" for x
  proof -
    have "ThreadTimer t \<notin> set (rt_timer_list k)" using inv run(2) by (auto simp: kinv_x_def sleepers_ok_def)
    then show "x \<noteq> ThreadTimer t \<Longrightarrow> timers ?k1 x = timers k x" "timeouts ?k1 = timeouts k"
      "rt_timer_list ?k1 = rt_timer_list k" "rt_tick ?k1 = rt_tick k" "rt_current_thread ?k1 = rt_current_thread k"
      using run(2)
      by (auto simp: rt_thread_suspend_def rt_timer_stop_def kframe timeouts_def upd_thread_def upd_timer_def
          timer_list_remove_def fun_eq_iff)
  qed
  have un: "unat (of_nat n :: u32) = n" using n by (simp add: unat_of_nat half_range_val)
  have "timers_sorted (rt_tick k) ?k1"
    using s by (simp add: timers_sorted_def keep)
  moreover have "timeouts ?k2 = timeouts ?k1" by (simp add: timeouts_def upd_timer_def fun_eq_iff)
  ultimately have "timers_sorted (rt_tick k) ?k2" by (simp add: timers_sorted_def upd_timer_def)
  then have "timers_sorted (rt_tick k) ?k3"
    by (rule start_sorted) (use n un keep(4) in \<open>simp add: upd_timer_def\<close>)
  moreover have "timeouts (rt_schedule x) = timeouts x" for x by (simp add: timeouts_def kframe fun_eq_iff)
  ultimately have sorted: "timers_sorted (rt_tick k) k'"
    unfolding k' timers_sorted_def by (simp only: schedule_frame)
  have per: "periodic k' (ThreadTimer t) = periodic k (ThreadTimer t)"
    using run(2) by (auto simp: k' periodic_def kframe rt_timer_start_def Let_def upd_timer_def timer_list_remove_def
        rt_thread_suspend_def rt_timer_stop_def flag_settings upd_thread_def)
  show "asleep t (rt_tick k + of_nat n) k'" using r per o by (simp add: asleep_def)
  show "rt_tick k' = rt_tick k" by (rule r(5))
  have other: "timers k' x = timers k x" if "x \<noteq> ThreadTimer t" for x
    using keep(1) [OF that] that by (simp add: k' kframe rt_timer_start_def Let_def upd_timer_def timer_list_remove_def)
  have "set (rt_timer_list k') = insert (ThreadTimer t) (set (rt_timer_list k))"
    by (simp add: k' kframe timer_start_list) (simp add: upd_timer_def keep(3))
  then have "\<forall>tm\<in>set (rt_timer_list k'). periodic k' tm \<longrightarrow> 0 < unat (init_tick (timers k' tm)) \<and>
        n + unat (init_tick (timers k' tm)) < unat half_range"
    using p other per o by (metis insert_iff periodic_def)
  moreover have "timer_ok k'" using sleep_kinv [OF inv run] by (simp add: k'_def kinv_x_def)
  moreover have "rt_current_thread k' \<noteq> None"
    unfolding k' by (rule schedule_current) (simp add: kframe upd_timer_def keep(5) run(1))
  ultimately show "ahead (rt_tick k) n k'" using sorted n r(5) by (simp add: ahead_def)
qed

text \<open>
  C8: a thread that sleeps \<open>n\<close> ticks stays suspended through the next \<open>n - 1\<close>
  tick interrupts, and the \<open>n\<close>-th makes it ready: the handler returns each time,
  whatever other timers expire meanwhile.
\<close>

theorem sleep_wakes_on_time:
  assumes "kinv k" "rt_current_thread k = Some t" "stat_of k t = RT_THREAD_READY" "benign t user"
    and "timers_sorted (rt_tick k) k" "\<not> periodic k (ThreadTimer t)" "0 < n" "n < unat half_range"
    and "\<forall>tm\<in>set (rt_timer_list k). periodic k tm \<longrightarrow> 0 < unat (init_tick (timers k tm)) \<and>
        n + unat (init_tick (timers k tm)) < unat half_range"
  shows "(\<forall>m<n. \<exists>k'. ticks user m (rt_thread_sleep (of_nat n) k) = Some k' \<and> stat_of k' t = RT_THREAD_SUSPEND) \<and>
    (\<exists>k'. ticks user n (rt_thread_sleep (of_nat n) k) = Some k' \<and> stat_of k' t = RT_THREAD_READY)"
proof -
  note s = sleep_ahead [OF assms(1-3,5,6,8,9)]
  note run = ticks_asleep [OF assms(4) s]
  have sleep: "\<exists>k'. ticks user m (rt_thread_sleep (of_nat n) k) = Some k' \<and> stat_of k' t = RT_THREAD_SUSPEND"
    if "m < n" for m
    using run [OF that] by (auto simp: asleep_def)
  obtain m where n: "n = Suc m" using assms(7) by (cases n) auto
  then obtain k1 where k1: "ticks user m (rt_thread_sleep (of_nat n) k) = Some k1" "ahead (rt_tick k) n k1"
    "asleep t (rt_tick k + of_nat n) k1" "rt_tick k1 = rt_tick k + of_nat m"
    using run [of m] by auto
  have "unat (of_nat m :: u32) = m" using assms(8) n by (simp add: unat_of_nat half_range_val)
  then have "unat (rt_tick k1 - rt_tick k) < n" using k1(4) n by simp
  from tick_ahead [OF assms(4) k1(2) this k1(3)] obtain k' where
    "rt_tick_increase user k1 = Some k'"
    "if rt_tick k1 + 1 - (rt_tick k + of_nat n) < half_range then stat_of k' t = RT_THREAD_READY
     else asleep t (rt_tick k + of_nat n) k'" by blast
  moreover have "rt_tick k1 + 1 - (rt_tick k + of_nat n) < half_range"
    by (simp add: k1(4) n half_range_val)
  ultimately have "ticks user n (rt_thread_sleep (of_nat n) k) = Some k' \<and> stat_of k' t = RT_THREAD_READY"
    using k1(1) n by simp
  then show ?thesis using sleep by blast
qed

section \<open>Instances\<close>

text \<open>A periodic timer and two one-shot timers at tick 100; the first two are due.\<close>

definition three_timers :: "u8 \<Rightarrow> kernel" where
  "three_timers flag = two_ready\<lparr>rt_tick := 100,
     timers := (\<lambda>_. blank_timer)(UserTimer 0 := \<lparr>tm_flag = flag, init_tick = 5, timeout_tick = 95\<rparr>,
       UserTimer 1 := \<lparr>tm_flag = 1, init_tick = 10, timeout_tick = 100\<rparr>,
       UserTimer 2 := \<lparr>tm_flag = 1, init_tick = 10, timeout_tick = 101\<rparr>),
     rt_timer_list := [UserTimer 0, UserTimer 1, UserTimer 2]\<rparr>"

lemma three_timers_facts:
  "flag = 1 \<or> flag = 3 \<Longrightarrow> timer_ok (three_timers flag)" "timers_sorted 90 (three_timers flag)"
  "timers_sorted 95 (three_timers flag)" "periods_fit 90 (three_timers flag)"
  "rt_timer_list (three_timers flag) = [UserTimer 0, UserTimer 1, UserTimer 2]"
  "filter (timer_due (rt_tick (three_timers flag)) (three_timers flag)) (rt_timer_list (three_timers flag)) =
     [UserTimer 0, UserTimer 1]"
  by (auto simp: three_timers_def timer_ok_def armed_def timers_sorted_def timer_sorted_def in_window_def to_go_def
      timeouts_def half_range_val periods_fit_def periodic_def timer_due_def)

text \<open>The same with a period of 0: the check does not end.\<close>

definition spinning :: kernel where
  "spinning = upd_timer (UserTimer 0) (\<lambda>x. x\<lparr>init_tick := 0\<rparr>) (three_timers 3)"

lemma spinning_facts:
  "timer_ok spinning" "timers_sorted 90 spinning" "periods_fit 90 spinning"
  "UserTimer 0 \<in> set (rt_timer_list spinning)" "spins spinning (UserTimer 0)"
  by (auto simp: spinning_def upd_timer_def three_timers_def timer_ok_def armed_def timers_sorted_def timer_sorted_def
      in_window_def to_go_def timeouts_def half_range_val periods_fit_def periodic_def timer_due_def spins_def)

lemma timer_check_terminates_witness:
  "(\<exists>k'. rt_timer_check (\<lambda>n k. k) (three_timers 3) = Some k' \<and>
     (\<forall>tm\<in>set (rt_timer_list k'). \<not> timer_due (rt_tick k') k' tm)) \<and>
   rt_timer_check (\<lambda>n k. k) spinning = None"
proof -
  have "\<not> (\<exists>tm\<in>set (rt_timer_list (three_timers 3)). init_tick (timers (three_timers 3) tm) = 0)"
    by (simp add: three_timers_def)
  then show ?thesis
    using timer_check_terminates [of "\<lambda>n k. k" "three_timers 3" 90] three_timers_facts
      timer_check_terminates [of "\<lambda>n k. k" spinning 90] spinning_facts
    by (auto simp: quiet_def spins_def split: if_splits)
qed

lemma due_timers_fire_in_order_witness:
  "rt_timer_check (\<lambda>n k. k) (three_timers 1) =
    Some (fold (timer_fire (\<lambda>n k. k)) [UserTimer 0, UserTimer 1] (three_timers 1))"
proof -
  have "\<forall>tm\<in>set (rt_timer_list (three_timers 1)). \<not> periodic (three_timers 1) tm"
    by (simp add: three_timers_facts) (simp add: three_timers_def periodic_def)
  then show ?thesis
    using due_timers_fire_in_order [of "\<lambda>n k. k" "three_timers 1" 90] three_timers_facts
    by (simp add: quiet_def)
qed

text \<open>Thread 1 sleeps 7 ticks while a timer of period 5 runs.\<close>

definition one_periodic :: kernel where
  "one_periodic = two_ready\<lparr>rt_timer_list := [UserTimer 0],
     timers := (\<lambda>_. blank_timer)(UserTimer 0 := \<lparr>tm_flag = 3, init_tick = 5, timeout_tick = 2\<rparr>)\<rparr>"

lemma sleep_wakes_on_time_witness:
  "\<exists>k'. ticks (\<lambda>n k. k) 7 (rt_thread_sleep 7 one_periodic) = Some k' \<and> stat_of k' 1 = RT_THREAD_READY"
proof -
  have k: "rt_current_thread one_periodic = Some 1" "stat_of one_periodic 1 = RT_THREAD_READY"
    "rt_timer_list one_periodic = [UserTimer 0]" "rt_tick one_periodic = 0"
    by (simp_all add: one_periodic_def two_ready_fields) (simp add: sample_defs stat_of_def)
  have p: "\<not> periodic one_periodic (ThreadTimer 1)" "unat (init_tick (timers one_periodic (UserTimer 0))) = 5"
    by (simp_all add: one_periodic_def periodic_def blank_timer_def)
  have s: "timers_sorted 0 one_periodic"
    by (simp add: timers_sorted_def timer_sorted_def in_window_def to_go_def k half_range_val)
      (simp add: one_periodic_def timeouts_def)
  have "kinv one_periodic"
    using two_ready_kinv
    by (simp add: kinv_defs sched_inv_x_def one_periodic_def stat_of_def priority_of_def)
  then show ?thesis
    using sleep_wakes_on_time [of one_periodic 1 "\<lambda>n k. k" 7] k p s
    by (simp add: benign_def quiet_def half_range_val)
qed

lemma restart_self_lost_witness:
  "UserTimer 1 \<in> set (rt_timer_list (timer_fire restart_self (UserTimer 1) (three_timers 1))) \<and>
   rt_timer_stop (UserTimer 1) (timer_fire restart_self (UserTimer 1) (three_timers 1)) =
     (- RT_ERROR, timer_fire restart_self (UserTimer 1) (three_timers 1))"
  by (rule restart_self_lost) (simp add: three_timers_def periodic_def)

end
