(* ===== verification/Ipc.thy ===== *)
theory Ipc
  imports Clock
begin

unbundle bit_operations_syntax

text \<open>
  The part of \<^verbatim>\<open>src/ipc.c\<close> that all inter-process communication objects share:
  the queue of suspended threads of an object, in arrival order or in priority order, and
  how a thread enters and leaves it.
\<close>

section \<open>The code\<close>

abbreviation (input) RT_IPC_FLAG_FIFO :: u8 where "RT_IPC_FLAG_FIFO \<equiv> 0"
abbreviation (input) RT_IPC_FLAG_PRIO :: u8 where "RT_IPC_FLAG_PRIO \<equiv> 1"

definition rt_ipc_object_init :: "nat \<Rightarrow> kernel \<Rightarrow> kernel" where
  "rt_ipc_object_init n k = k\<lparr>lists := (lists k)(Pending n := [])\<rparr>"

text \<open>The search of the \<open>RT_IPC_FLAG_PRIO\<close> case.\<close>

fun prio_insert :: "(tid \<Rightarrow> nat) \<Rightarrow> tid \<Rightarrow> tid list \<Rightarrow> tid list" where
  "prio_insert prio t [] = [t]"
| "prio_insert prio t (n # ns) = (if prio t < prio n then t # n # ns else n # prio_insert prio t ns)"

definition rt_ipc_list_suspend :: "list_id \<Rightarrow> tid \<Rightarrow> u8 \<Rightarrow> kernel \<Rightarrow> kernel" where
  "rt_ipc_list_suspend l t flag k =
    (let k1 = snd (rt_thread_suspend t k) in
     if flag = RT_IPC_FLAG_FIFO then list_append l t k1
     else if flag = RT_IPC_FLAG_PRIO
       then k1\<lparr>lists := (lists k1)(l := prio_insert (priority_of k1) t (lists k1 l))\<rparr>
     else k1)"

definition rt_ipc_list_resume :: "list_id \<Rightarrow> kernel \<Rightarrow> kernel" where
  "rt_ipc_list_resume l k =
    (case lists k l of [] \<Rightarrow> k\<lparr>fault := True\<rparr> | t # _ \<Rightarrow> snd (rt_thread_resume t k))"

partial_function (option) rt_ipc_list_resume_all :: "list_id \<Rightarrow> kernel \<Rightarrow> kernel option" where
  "rt_ipc_list_resume_all l k =
    (case lists k l of
       [] \<Rightarrow> Some k
     | t # _ \<Rightarrow>
        rt_ipc_list_resume_all l (snd (rt_thread_resume t (upd_thread t (\<lambda>th. th\<lparr>t_error := - RT_ERROR\<rparr>) k))))"

text \<open>
  The sequence every blocking call runs before it leaves the processor: enter the queue and,
  for a positive time-out, start the thread's timer. A negative time waits for ever.
\<close>

definition suspend_and_arm :: "list_id \<Rightarrow> tid \<Rightarrow> u8 \<Rightarrow> int \<Rightarrow> kernel \<Rightarrow> kernel" where
  "suspend_and_arm l t flag time k =
    (let k1 = rt_ipc_list_suspend l t flag k in
     if time > 0
     then snd (rt_timer_start (ThreadTimer t)
            (snd (rt_timer_control (ThreadTimer t) RT_TIMER_CTRL_SET_TIME (word_of_int time) k1)))
     else k1)"

section \<open>The order of the queue\<close>

lemma set_prio_insert [simp]: "set (prio_insert prio t ts) = insert t (set ts)"
  by (induction ts) auto

text \<open>The new thread goes behind every thread of its own or a higher priority.\<close>

lemma prio_insert_split:
  assumes "sorted (map prio ts)"
  shows "prio_insert prio t ts =
    takeWhile (\<lambda>u. prio u \<le> prio t) ts @ t # dropWhile (\<lambda>u. prio u \<le> prio t) ts"
  using assms by (induction ts) auto

lemma prio_insert_sorted: "sorted (map prio ts) \<Longrightarrow> sorted (map prio (prio_insert prio t ts))"
  by (induction ts) auto

lemma prio_insert_exists: "\<exists>xs ys. prio_insert prio t ts = xs @ t # ys \<and> ts = xs @ ys"
proof (induction ts)
  case (Cons u us)
  then obtain xs ys where "prio_insert prio t us = xs @ t # ys" "us = xs @ ys" by blast
  then show ?case by (auto intro: exI [of _ "[]"] exI [of _ "u # xs"])
qed simp

section \<open>Entering the queue\<close>

text \<open>The queue after \<open>t\<close> has entered.\<close>

definition enqueued :: "u8 \<Rightarrow> (tid \<Rightarrow> nat) \<Rightarrow> tid \<Rightarrow> tid list \<Rightarrow> tid list" where
  "enqueued flag prio t ts = (if flag = RT_IPC_FLAG_FIFO then ts @ [t] else prio_insert prio t ts)"

lemma enqueued_exists: "\<exists>xs ys. enqueued flag prio t ts = xs @ t # ys \<and> ts = xs @ ys"
  using prio_insert_exists by (auto simp: enqueued_def)

lemma set_enqueued [simp]: "set (enqueued flag prio t ts) = insert t (set ts)"
  by (auto simp: enqueued_def)

lemma length_enqueued [simp]: "length (enqueued flag prio t ts) = Suc (length ts)"
  using enqueued_exists [of flag prio t ts] by auto

text \<open>A wait queue: not a ready list, its threads are suspended.\<close>

definition wait_queue :: "list_id \<Rightarrow> bool" where
  "wait_queue l \<longleftrightarrow> list_stat l = RT_THREAD_SUSPEND"

lemma wait_queue_simps [simp]: "wait_queue (Pending n)" "wait_queue (Senders n)"
  "\<not> wait_queue (Ready p)" "\<not> wait_queue Defunct"
  by (simp_all add: wait_queue_def)

lemma not_in_wait_queue:
  "kinv k \<Longrightarrow> stat_of k t = RT_THREAD_READY \<Longrightarrow> wait_queue l \<Longrightarrow> t \<notin> set (lists k l)"
  by (auto simp: kinv_x_def home_ok_def wait_queue_def)

text \<open>A ready thread about to wait in a queue of one of the two disciplines.\<close>

definition may_block :: "list_id \<Rightarrow> tid \<Rightarrow> u8 \<Rightarrow> kernel \<Rightarrow> bool" where
  "may_block l t flag k \<longleftrightarrow> kinv k \<and> stat_of k t = RT_THREAD_READY \<and> wait_queue l \<and>
     (flag = RT_IPC_FLAG_FIFO \<or> flag = RT_IPC_FLAG_PRIO)"

lemma may_blockD:
  assumes "may_block l t flag k"
  shows "kinv k" "stat_of k t = RT_THREAD_READY" "wait_queue l"
    "flag = RT_IPC_FLAG_FIFO \<or> flag = RT_IPC_FLAG_PRIO"
  using assms by (auto simp: may_block_def)


lemma ipc_suspend_lists:
  assumes mb: "may_block l t flag k"
  shows "lists (rt_ipc_list_suspend l t flag k) =
    (\<lambda>m. if m = l then enqueued flag (priority_of k) t (lists k l) else filter (\<lambda>x. x \<noteq> t) (lists k m))"
  using suspend_result(2,4) [OF may_blockD(1,2) [OF mb]] not_in_wait_queue [OF may_blockD(1-3) [OF mb]] may_blockD(4) [OF mb]
  by (auto simp: rt_ipc_list_suspend_def Let_def enqueued_def list_append_def)

lemma ipc_suspend_threads: "threads (rt_ipc_list_suspend l t flag k) = threads (snd (rt_thread_suspend t k))"
  by (auto simp: rt_ipc_list_suspend_def Let_def list_append_def)

text \<open>A thread that was suspended and then linked into a wait queue, anywhere in it.\<close>

lemma parked_kinv:
  assumes k: "kinv k" "stat_of k t = RT_THREAD_READY" and q: "wait_queue l" "lists (snd (rt_thread_suspend t k)) l = xs @ ys"
    and l: "lists k' = (lists (snd (rt_thread_suspend t k)))(l := xs @ t # ys)"
    and f: "threads k' = threads (snd (rt_thread_suspend t k))" "timers k' = timers (snd (rt_thread_suspend t k))"
      "rt_timer_list k' = rt_timer_list (snd (rt_thread_suspend t k))"
      "rt_thread_ready_priority_group k' = rt_thread_ready_priority_group (snd (rt_thread_suspend t k))"
  shows "kinv k'"
proof -
  let ?k1 = "snd (rt_thread_suspend t k)"
  have k1: "kinv ?k1" "stat_of ?k1 t = RT_THREAD_SUSPEND" "ThreadTimer t \<notin> set (rt_timer_list ?k1)"
    using suspend_kinv [OF k(1)] suspend_result [OF k] by auto
  have out: "lists (list_remove t ?k1) = lists ?k1"
    using suspend_result(2) [OF k] by (auto simp: list_remove_def fun_eq_iff)
  then have x: "kinv_x {t} ?k1"
    using kinv_unlink [OF k1(1), of t] k1(2) kinv_x_cong [of "list_remove t ?k1" ?k1 "{t}"]
    by (simp add: list_remove_def)
  have "kinv_x ({t} - {t}) k'"
  proof (rule kinv_park [OF x, of t l k' xs ys])
    show "l = Defunct \<or> mask_ok (threads ?k1 t)"
      using kinv_mask_ok [OF k1(1), of t] k1(2) by simp
  qed (use k1 q l f in \<open>auto simp: wait_queue_def\<close>)
  then show ?thesis by simp
qed

lemma ipc_suspend_kinv:
  assumes mb: "may_block l t flag k"
  shows "kinv (rt_ipc_list_suspend l t flag k)"
proof -
  let ?k1 = "snd (rt_thread_suspend t k)" and ?k2 = "rt_ipc_list_suspend l t flag k"
  obtain xs ys where xy: "enqueued flag (priority_of k) t (lists ?k1 l) = xs @ t # ys" "lists ?k1 l = xs @ ys"
    using enqueued_exists by blast
  have "lists ?k2 = (lists ?k1)(l := xs @ t # ys)"
    using suspend_result(2,4) [OF may_blockD(1,2) [OF mb]] not_in_wait_queue [OF may_blockD(1-3) [OF mb]] xy
    by (auto simp: ipc_suspend_lists [OF mb] fun_eq_iff)
  then show ?thesis
    by (rule parked_kinv [OF may_blockD(1-3) [OF mb] xy(2)])
      (auto simp: rt_ipc_list_suspend_def Let_def list_append_def)
qed

lemma ipc_suspend_stat:
  assumes mb: "may_block l t flag k"
  shows "stat_of (rt_ipc_list_suspend l t flag k) t = RT_THREAD_SUSPEND"
  using suspend_result(1) [OF may_blockD(1,2) [OF mb]] by (simp add: stat_of_def ipc_suspend_threads)

lemma arm_kinv:
  assumes mb: "may_block l t flag k"
  shows "kinv (suspend_and_arm l t flag time k)"
proof -
  have "threads (snd (rt_timer_control tm RT_TIMER_CTRL_SET_TIME a k)) = threads k" for tm a k
    by (simp add: upd_timer_def)
  then show ?thesis
    using ipc_suspend_kinv [OF mb] ipc_suspend_stat [OF mb]
      kinv_timer_start [OF kinv_timer_control [OF ipc_suspend_kinv [OF mb]], of "ThreadTimer t"]
    by (simp add: suspend_and_arm_def Let_def stat_of_def del: rt_timer_control.simps)
qed

lemma arm_lists: "lists (suspend_and_arm l t flag time k) = lists (rt_ipc_list_suspend l t flag k)"
  by (simp add: suspend_and_arm_def Let_def kframe upd_timer_def)

lemma arm_threads: "threads (suspend_and_arm l t flag time k) = threads (snd (rt_thread_suspend t k))"
  by (simp add: suspend_and_arm_def Let_def kframe upd_timer_def ipc_suspend_threads)

lemma arm_timer:
  assumes mb: "may_block l t flag k"
  shows "ThreadTimer t \<in> set (rt_timer_list (suspend_and_arm l t flag time k)) \<longleftrightarrow> time > 0"
  using suspend_result(3) [OF may_blockD(1,2) [OF mb]]
  by (auto simp: suspend_and_arm_def Let_def timer_start_list rt_ipc_list_suspend_def list_append_def)

text \<open>The thread waits in the queue, suspended, and nowhere else.\<close>

lemma blocked_queue:
  assumes mb: "may_block l t flag k"
  shows "lists (suspend_and_arm l t flag time k) l = enqueued flag (priority_of k) t (lists k l)"
  "stat_of (suspend_and_arm l t flag time k) t = RT_THREAD_SUSPEND"
  by (simp_all add: arm_lists ipc_suspend_lists [OF mb] stat_of_def arm_threads)
     (use suspend_result(1) [OF may_blockD(1,2) [OF mb]] in \<open>simp add: stat_of_def\<close>)


section \<open>Leaving the queue\<close>

lemma resume_frame [kframe]:
  "rt_current_thread (snd (rt_thread_resume t k)) = rt_current_thread k"
  "rt_scheduler_lock_nest (snd (rt_thread_resume t k)) = rt_scheduler_lock_nest k"
  "rt_tick (snd (rt_thread_resume t k)) = rt_tick k"
  "fault (snd (rt_thread_resume t k)) = fault k"
  by (simp_all add: rt_thread_resume_def resume_unlink_def kframe list_remove_def)

lemma resume_threads:
  assumes "stat_of k t = RT_THREAD_SUSPEND"
  shows "threads (snd (rt_thread_resume t k)) =
    (threads k)(t := (threads k t)\<lparr>t_stat := RT_THREAD_READY OR (t_stat (threads k t) AND NOT RT_THREAD_STAT_MASK)\<rparr>)"
  using assms by (simp add: rt_thread_resume_def resume_unlink_def insert_thread_threads kframe list_remove_def)

lemma resume_stat_other: "u \<noteq> t \<Longrightarrow> stat_of (snd (rt_thread_resume t k)) u = stat_of k u"
  by (cases "stat_of k t = RT_THREAD_SUSPEND")
    (simp_all add: stat_of_def resume_threads [unfolded stat_of_def], simp add: rt_thread_resume_def stat_of_def)

lemma resume_thread_fields:
  "t_error (threads (snd (rt_thread_resume t k)) u) = t_error (threads k u)"
  "current_priority (threads (snd (rt_thread_resume t k)) u) = current_priority (threads k u)"
  "event_set (threads (snd (rt_thread_resume t k)) u) = event_set (threads k u)"
  "event_info (threads (snd (rt_thread_resume t k)) u) = event_info (threads k u)"
  by (auto simp: rt_thread_resume_def resume_unlink_def insert_thread_threads kframe list_remove_def)

lemma queue_stat: "kinv k \<Longrightarrow> wait_queue l \<Longrightarrow> t \<in> set (lists k l) \<Longrightarrow> stat_of k t = RT_THREAD_SUSPEND"
  by (auto simp: kinv_x_def home_ok_def wait_queue_def)

lemma queue_distinct: "kinv k \<Longrightarrow> distinct (lists k l)"
  by (simp add: kinv_x_def sched_inv_x_def)

lemma queue_unique: "kinv k \<Longrightarrow> t \<in> set (lists k l) \<Longrightarrow> t \<in> set (lists k m) \<Longrightarrow> l = m"
  unfolding kinv_x_def sched_inv_x_def by blast

lemma resume_queued_lists:
  assumes inv: "kinv k" and q: "wait_queue l" and t: "t \<in> set (lists k l)"
  shows "lists (snd (rt_thread_resume t k)) =
    (lists k)(l := filter (\<lambda>x. x \<noteq> t) (lists k l),
              Ready (priority_of k t) := lists k (Ready (priority_of k t)) @ [t])"
proof
  fix m
  note s = queue_stat [OF inv q t]
  have other: "m \<noteq> l \<Longrightarrow> filter (\<lambda>x. x \<noteq> t) (lists k m) = lists k m"
    using queue_unique [OF inv t, of m] by (intro filter_neq_id) auto
  show "lists (snd (rt_thread_resume t k)) m =
    ((lists k)(l := filter (\<lambda>x. x \<noteq> t) (lists k l),
              Ready (priority_of k t) := lists k (Ready (priority_of k t)) @ [t])) m"
    using resume_result(2,3) [OF inv s] q other
    by (cases "m = Ready (priority_of k t)") (auto simp: wait_queue_def)
qed

lemma ipc_resume_result:
  assumes inv: "kinv k" and q: "wait_queue l" and l: "lists k l = t # ts"
  defines "k' \<equiv> rt_ipc_list_resume l k"
  shows "kinv k'" "lists k' l = ts" "stat_of k' t = RT_THREAD_READY"
    "\<And>m. wait_queue m \<Longrightarrow> m \<noteq> l \<Longrightarrow> lists k' m = lists k m"
    "\<And>u. u \<noteq> t \<Longrightarrow> stat_of k' u = stat_of k u"
    "\<And>u. t_error (threads k' u) = t_error (threads k u)"
    "fault k' = fault k"
proof -
  have k': "k' = snd (rt_thread_resume t k)" by (simp add: k'_def rt_ipc_list_resume_def l)
  have t: "t \<in> set (lists k l)" by (simp add: l)
  have d: "distinct (t # ts)" using queue_distinct [OF inv, of l] by (simp add: l)
  have "l \<noteq> Ready p" for p using q by auto
  then show "lists k' l = ts"
    using resume_queued_lists [OF inv q t] d l by (simp add: k')
  show "lists k' m = lists k m" if "wait_queue m" "m \<noteq> l" for m
    using resume_queued_lists [OF inv q t] that by (auto simp: k')
  show "stat_of k' t = RT_THREAD_READY"
    using resume_result(1) [OF inv queue_stat [OF inv q t]] by (simp add: k')
  show "kinv k'" by (simp add: k' resume_kinv [OF inv])
  show "\<And>u. u \<noteq> t \<Longrightarrow> stat_of k' u = stat_of k u" "\<And>u. t_error (threads k' u) = t_error (threads k u)"
    "fault k' = fault k"
    by (simp_all add: k' resume_stat_other resume_thread_fields kframe)
qed

text \<open>Waking all: the loop ends, the queue is empty, every waiter is ready with an error.\<close>

lemma resume_all_result:
  assumes inv: "kinv k" and q: "wait_queue l"
  shows "\<exists>k'. rt_ipc_list_resume_all l k = Some k' \<and> kinv k' \<and> lists k' l = [] \<and>
    (\<forall>m. wait_queue m \<longrightarrow> m \<noteq> l \<longrightarrow> lists k' m = lists k m) \<and>
    (\<forall>t. t \<in> set (lists k l) \<longrightarrow> stat_of k' t = RT_THREAD_READY \<and> t_error (threads k' t) = - RT_ERROR) \<and>
    (\<forall>t. t \<notin> set (lists k l) \<longrightarrow> stat_of k' t = stat_of k t \<and> t_error (threads k' t) = t_error (threads k t)) \<and>
    fault k' = fault k"
  using inv
proof (induction "lists k l" arbitrary: k)
  case Nil
  then show ?case by (subst rt_ipc_list_resume_all.simps) auto
next
  case (Cons t ts)
  let ?k1 = "upd_thread t (\<lambda>th. th\<lparr>t_error := - RT_ERROR\<rparr>) k"
  let ?k2 = "rt_ipc_list_resume l ?k1"
  note l = Cons(2) [symmetric]
  have k1: "kinv ?k1" "lists ?k1 l = t # ts" "stat_of ?k1 = stat_of k" "fault ?k1 = fault k"
    using Cons.prems l by (simp_all add: kinv_neutral stat_neutral) (simp add: upd_thread_def)
  have err: "t_error (threads ?k1 u) = (if u = t then - RT_ERROR else t_error (threads k u))" for u
    by (simp add: upd_thread_def)
  note r = ipc_resume_result [OF k1(1) q k1(2)]
  have "?k2 = snd (rt_thread_resume t ?k1)" by (simp add: rt_ipc_list_resume_def l)
  then have step: "rt_ipc_list_resume_all l k = rt_ipc_list_resume_all l ?k2"
    by (subst rt_ipc_list_resume_all.simps) (simp add: l)
  have d: "t \<notin> set ts" using queue_distinct [OF Cons.prems, of l] l by simp
  obtain k' where k': "rt_ipc_list_resume_all l ?k2 = Some k'" "kinv k'" "lists k' l = []"
    "\<forall>m. wait_queue m \<longrightarrow> m \<noteq> l \<longrightarrow> lists k' m = lists ?k2 m"
    "\<forall>t. t \<in> set ts \<longrightarrow> stat_of k' t = RT_THREAD_READY \<and> t_error (threads k' t) = - RT_ERROR"
    "\<forall>t. t \<notin> set ts \<longrightarrow> stat_of k' t = stat_of ?k2 t \<and> t_error (threads k' t) = t_error (threads ?k2 t)"
    "fault k' = fault ?k2"
    using Cons.hyps(1) [of ?k2] r(1,2) by auto
  show ?case
  proof (intro exI [of _ k'] conjI allI impI)
    fix u assume "u \<notin> set (lists k l)"
    then show "stat_of k' u = stat_of k u" "t_error (threads k' u) = t_error (threads k u)"
      using k'(6) r(5) [of u] r(6) [of u] l k1(3) err [of u] by auto
  next
    fix u assume "u \<in> set (lists k l)"
    then show "stat_of k' u = RT_THREAD_READY" "t_error (threads k' u) = - RT_ERROR"
      using k'(5,6) r(3) r(6) [of u] l d err [of u] by (cases "u = t"; auto)+
  next
    fix m assume "wait_queue m" "m \<noteq> l"
    then show "lists k' m = lists k m" using k'(4) r(4) by simp
  qed (use step k' r(7) k1(4) in simp_all)
qed

end
