(* ===== verification/System.thy ===== *)
theory System
  imports Ipc
begin

unbundle bit_operations_syntax

text \<open>
  Histories of the kernel: a step is a call of a thread, of the tick interrupt or of an
  IPC object's wait queue, under the conditions the code asserts or documents. The invariant
  of theory Kinv holds along every history from power-up, and the tick handler returns while
  the periodic timers in the list wait at least one tick and less than half the range.
\<close>

section \<open>The settings of the timers\<close>

text \<open>A thread's own timer is one-shot; no call makes it periodic.\<close>

definition same_settings :: "kernel \<Rightarrow> kernel \<Rightarrow> bool" where
  "same_settings k k' \<longleftrightarrow> (\<forall>t. periodic k' (ThreadTimer t) = periodic k (ThreadTimer t))"

lemma same_settings_fine: "same_settings k k' \<Longrightarrow> sleepers_oneshot k \<Longrightarrow> sleepers_oneshot k'"
  by (simp add: same_settings_def sleepers_oneshot_def)

lemma same_settings_trans: "same_settings k k' \<Longrightarrow> same_settings k' k'' \<Longrightarrow> same_settings k k''"
  by (simp add: same_settings_def)

lemma same_settings_timers: "timers k' = timers k \<Longrightarrow> same_settings k k'"
  by (simp add: same_settings_def periodic_def)

lemma stop_settings: "same_settings k (snd (rt_timer_stop tm k))"
  by (auto simp: same_settings_def periodic_def rt_timer_stop_def upd_timer_def timer_list_remove_def flag_settings)

lemma detach_settings: "same_settings k (snd (rt_timer_detach tm k))"
  by (simp add: same_settings_def periodic_def rt_timer_detach_def upd_objects_def timer_list_remove_def)

lemma start_settings: "same_settings k (snd (rt_timer_start tm k))"
  by (auto simp: same_settings_def periodic_def rt_timer_start_def Let_def upd_timer_def timer_list_remove_def
      flag_settings)

lemma set_time_settings: "same_settings k (snd (rt_timer_control (ThreadTimer t) RT_TIMER_CTRL_SET_TIME n k))"
  by (simp add: same_settings_def periodic_def upd_timer_def)

named_theorems settings

lemma timers_upd [settings]:
  "timers (upd_thread t f k) = timers k" "timers (list_remove t k) = timers k"
  "timers (list_append l t k) = timers k" "timers (list_push l t k) = timers k"
  "timers (set_closed t k) = timers k" "timers (upd_objects g k) = timers k"
  "timers (set_priority t p k) = timers k"
  by (simp_all add: kstate_defs set_closed_def set_priority_def)

lemma suspend_settings: "same_settings k (snd (rt_thread_suspend t k))"
  using same_settings_trans [OF same_settings_timers stop_settings]
  by (simp add: rt_thread_suspend_def kframe settings same_settings_timers)

lemma resume_settings: "same_settings k (snd (rt_thread_resume t k))"
proof -
  have "same_settings k (resume_unlink t k)"
    unfolding resume_unlink_def using same_settings_timers stop_settings
    by (rule same_settings_trans) (simp add: settings)
  then show ?thesis
    using same_settings_trans [OF _ same_settings_timers]
    by (simp add: rt_thread_resume_def same_settings_timers kframe)
qed

lemma sleep_settings: "same_settings k (rt_thread_sleep n k)"
  using same_settings_trans [OF same_settings_trans [OF same_settings_trans [OF suspend_settings set_time_settings]
        start_settings] same_settings_timers]
  by (auto simp: rt_thread_sleep_def Let_def kframe same_settings_timers simp del: rt_timer_control.simps
      split: option.split)

lemma detach_call_settings:
  "same_settings k (snd (rt_thread_detach t k))" "same_settings k (snd (rt_thread_delete t k))"
  "same_settings k (rt_thread_exit k)"
proof -
  have d: "same_settings k k''" if "timers k1 = timers k" "timers k'' = timers (snd (rt_timer_detach tm k1))" for k1 k'' tm
    using that detach_settings [of k1 tm] by (simp add: same_settings_def periodic_def)
  show "same_settings k (snd (rt_thread_detach t k))" "same_settings k (snd (rt_thread_delete t k))"
    by (rule d [of "if stat_of k t \<noteq> RT_THREAD_INIT then rt_schedule_remove_thread t k else k" _ "ThreadTimer t"];
        simp add: rt_thread_detach_def rt_thread_delete_def Let_def kframe settings)+
  show "same_settings k (rt_thread_exit k)"
  proof (cases "rt_current_thread k")
    case (Some u)
    show ?thesis
      by (rule d [of "set_closed u (rt_schedule_remove_thread u k)" _ "ThreadTimer u"])
        (simp_all add: rt_thread_exit_def Let_def Some kframe settings)
  qed (simp add: rt_thread_exit_def same_settings_timers)
qed

lemma arm_settings: "same_settings k (suspend_and_arm l t flag time k)"
proof -
  have s: "same_settings k (rt_ipc_list_suspend l t flag k)"
    by (rule same_settings_trans [OF suspend_settings same_settings_timers])
      (auto simp: rt_ipc_list_suspend_def Let_def settings)
  show ?thesis
    using same_settings_trans [OF same_settings_trans [OF s set_time_settings] start_settings] s
    by (simp add: suspend_and_arm_def Let_def del: rt_timer_control.simps)
qed

lemma yield_timers: "timers (snd (rt_thread_yield k)) = timers k"
  by (simp add: rt_thread_yield_def settings kframe split: option.split)

text \<open>Whatever the periods, what a tick handler that returns leaves is consistent.\<close>

lemma fire_settings: "quiet user \<Longrightarrow> same_settings k (timer_fire user tm k)"
  by (simp add: same_settings_def fire_periodic_flag)

lemma check_system:
  assumes q: "quiet user" "keeps_kinv user" and r: "rt_timer_check user k = Some k'"
    and inv: "kinv k" "sleepers_oneshot k"
  shows "kinv k' \<and> sleepers_oneshot k'"
proof -
  let ?P = "\<lambda>k. kinv k \<and> sleepers_oneshot k"
  have "timer_check_loop user (rt_tick_get k) k = Some k'" using r by (simp add: rt_timer_check_def)
  then have "?P k \<longrightarrow> ?P k'"
  proof (rule timer_check_loop.raw_induct [where P = "\<lambda>u c k k'. u = user \<longrightarrow> ?P k \<longrightarrow> ?P k'", THEN mp, OF _ _ refl, rotated])
    fix f u c k k'
    assume IH: "\<And>u c k k'. f u c k = Some k' \<Longrightarrow> u = user \<longrightarrow> ?P k \<longrightarrow> ?P k'"
      and r: "(case rt_timer_list k of [] \<Rightarrow> Some k
        | tm # x \<Rightarrow> if timer_due c k tm then f u (rt_tick_get (timer_fire u tm k)) (timer_fire u tm k) else Some k) = Some k'"
    have "?P (timer_fire user tm k)" if "?P k" "rt_timer_list k = tm # ts" for tm ts
      using that fire_kinv [OF q _ _ that(2)] same_settings_fine [OF fire_settings [OF q(1)]] by blast
    then show "u = user \<longrightarrow> ?P k \<longrightarrow> ?P k'"
      using r IH by (cases "rt_timer_list k") (auto split: if_splits)
  qed
  then show ?thesis using inv by blast
qed

lemma tick_system:
  assumes q: "quiet user" "keeps_kinv user" and r: "rt_tick_increase user k = Some k'"
    and inv: "kinv k" "sleepers_oneshot k"
  shows "kinv k' \<and> sleepers_oneshot k'"
proof (cases "rt_current_thread k")
  case None
  then show ?thesis
    using r inv by (auto simp: rt_tick_increase_def Let_def rt_thread_self_def sleepers_oneshot_def periodic_def)
next
  case (Some t)
  let ?k2 = "upd_thread t (\<lambda>th. th\<lparr>remaining_tick := remaining_tick th - 1\<rparr>) (k\<lparr>rt_tick := rt_tick k + 1\<rparr>)"
  let ?k3 = "if remaining_tick (threads ?k2 t) = 0
      then snd (rt_thread_yield (upd_thread t (\<lambda>th. th\<lparr>remaining_tick := t_init_tick th\<rparr>) ?k2)) else ?k2"
  have "same_settings k ?k3"
    by (intro same_settings_timers) (simp add: yield_timers settings)
  then have "sleepers_oneshot ?k3" using inv(2) by (rule same_settings_fine)
  moreover have "kinv ?k3" using inv yield_kinv by (auto simp: kinv_neutral)
  moreover have "rt_timer_check user ?k3 = Some k'"
    using r Some by (simp add: rt_tick_increase_def Let_def rt_thread_self_def)
  ultimately show ?thesis using check_system [OF q] by blast
qed

section \<open>Creating a thread\<close>

definition unused :: "tid \<Rightarrow> kernel \<Rightarrow> bool" where
  "unused t k \<longleftrightarrow> (\<forall>l. t \<notin> set (lists k l)) \<and> ThreadTimer t \<notin> set (rt_timer_list k)"

lemma kinv_timer_object:
  "kinv k \<Longrightarrow> tm \<notin> set (rt_timer_list k) \<Longrightarrow> kinv (timer_object_init tm time flag k)"
  by (auto simp: kinv_defs timer_object_init_def upd_timer_def stat_of_def sched_inv_x_def priority_of_def)

lemma thread_init_system:
  assumes inv: "kinv k" and fine: "sleepers_oneshot k" and u: "unused t k"
  shows "kinv (thread_init t p n k)" "sleepers_oneshot (thread_init t p n k)"
proof -
  let ?f = "\<lambda>th. th\<lparr>init_priority := p, current_priority := p, number_mask := 0,
      t_init_tick := n, remaining_tick := n, t_error := RT_EOK, t_stat := RT_THREAD_INIT, t_cleanup := False\<rparr>"
  have out: "list_remove t k = k"
    using u by (simp add: list_remove_def unused_def)
  have "stat_of k t \<noteq> RT_THREAD_READY"
    using inv u unfolding kinv_x_def sched_inv_x_def unused_def by blast
  then have "kinv_x {t} (upd_thread t ?f k)" using kinv_fresh_upd [OF inv, of t ?f] out by simp
  then have k1: "kinv (upd_thread t ?f k)"
    using kinv_drop [of "{t}" "upd_thread t ?f k" t] u by (simp add: kstate_defs unused_def)
  show "kinv (thread_init t p n k)"
    unfolding thread_init_def rt_timer_init_def
    by (rule kinv_timer_object) (use k1 u in \<open>simp_all add: upd_thread_def upd_objects_def unused_def\<close>)
  show "sleepers_oneshot (thread_init t p n k)"
    using fine by (auto simp: sleepers_oneshot_def periodic_def thread_init_def rt_timer_init_def
        timer_object_init_def upd_timer_def settings)
qed

section \<open>Histories\<close>

inductive kernel_step :: "(nat \<Rightarrow> kernel \<Rightarrow> kernel) \<Rightarrow> kernel \<Rightarrow> kernel \<Rightarrow> bool" for user where
  create: "unused t k \<Longrightarrow> p < RT_THREAD_PRIORITY_MAX \<Longrightarrow>
    kernel_step user k (snd (rt_thread_create (Some t) stack name p n k))"
| static: "unused t k \<Longrightarrow> p < RT_THREAD_PRIORITY_MAX \<Longrightarrow>
    kernel_step user k (snd (rt_thread_init t name p n k))"
| startup: "stat_of k t = RT_THREAD_INIT \<Longrightarrow> init_priority (threads k t) < RT_THREAD_PRIORITY_MAX \<Longrightarrow>
    kernel_step user k (snd (rt_thread_startup t k))"
| start: "kernel_step user k (rt_system_scheduler_start k)"
| schedule: "kernel_step user k (rt_schedule k)"
| suspend: "kernel_step user k (snd (rt_thread_suspend t k))"
| resume: "kernel_step user k (snd (rt_thread_resume t k))"
| yield: "kernel_step user k (snd (rt_thread_yield k))"
| sleep: "rt_current_thread k = Some t \<Longrightarrow> stat_of k t = RT_THREAD_READY \<Longrightarrow>
    kernel_step user k (rt_thread_sleep n k)"
| awake: "kernel_step user k (snd (rt_thread_sleep_resume t k))"
| exit: "rt_current_thread k = Some t \<Longrightarrow> stat_of k t = RT_THREAD_READY \<Longrightarrow>
    kernel_step user k (rt_thread_exit k)"
| detach: "stat_of k t \<noteq> RT_THREAD_CLOSE \<Longrightarrow> kernel_step user k (snd (rt_thread_detach t k))"
| delete: "stat_of k t \<noteq> RT_THREAD_CLOSE \<Longrightarrow> kernel_step user k (snd (rt_thread_delete t k))"
| priority: "p < RT_THREAD_PRIORITY_MAX \<Longrightarrow>
    kernel_step user k (snd (rt_thread_control t (RT_THREAD_CTRL_CHANGE_PRIORITY p) k))"
| lock: "kernel_step user k (rt_enter_critical k)"
| unlock: "kernel_step user k (rt_exit_critical k)"
| irq: "kernel_step user k (rt_interrupt_enter k)"
| irq_end: "kernel_step user k (rt_interrupt_leave k)"
| timer_start: "kernel_step user k (snd (rt_timer_start (UserTimer n) k))"
| timer_stop: "kernel_step user k (snd (rt_timer_stop tm k))"
| timer_init: "UserTimer n \<notin> set (rt_timer_list k) \<Longrightarrow>
    kernel_step user k (rt_timer_init (UserTimer n) name time mode k)"
| timer_create: "UserTimer n \<notin> set (rt_timer_list k) \<Longrightarrow>
    kernel_step user k (snd (rt_timer_create (Some (UserTimer n)) name time mode k))"
| timer_detach: "kernel_step user k (snd (rt_timer_detach (UserTimer n) k))"
| timer_delete: "kernel_step user k (snd (rt_timer_delete (UserTimer n) k))"
| timer_time: "kernel_step user k (snd (rt_timer_control (UserTimer n) RT_TIMER_CTRL_SET_TIME i k))"
| timer_once: "kernel_step user k (snd (rt_timer_control tm RT_TIMER_CTRL_SET_ONESHOT i k))"
| timer_repeat: "kernel_step user k (snd (rt_timer_control (UserTimer n) RT_TIMER_CTRL_SET_PERIODIC i k))"
| block: "rt_current_thread k = Some t \<Longrightarrow> stat_of k t = RT_THREAD_READY \<Longrightarrow> wait_queue l \<Longrightarrow>
    flag = RT_IPC_FLAG_FIFO \<or> flag = RT_IPC_FLAG_PRIO \<Longrightarrow> kernel_step user k (suspend_and_arm l t flag time k)"
| wake: "wait_queue l \<Longrightarrow> kernel_step user k (rt_ipc_list_resume l k)"
| wake_all: "wait_queue l \<Longrightarrow> rt_ipc_list_resume_all l k = Some k' \<Longrightarrow> kernel_step user k k'"
| tick: "rt_tick_increase user k = Some k' \<Longrightarrow> kernel_step user k k'"

lemma resume_all_settings: "rt_ipc_list_resume_all l k = Some k' \<Longrightarrow> same_settings k k'"
proof (rule rt_ipc_list_resume_all.raw_induct [where P = "\<lambda>l k k'. same_settings k k'"])
  fix f l k k'
  assume IH: "\<And>l k k'. f l k = Some k' \<Longrightarrow> same_settings k k'"
    and r: "(case lists k l of [] \<Rightarrow> Some k
       | t # _ \<Rightarrow> f l (snd (rt_thread_resume t (upd_thread t (\<lambda>th. th\<lparr>t_error := - RT_ERROR\<rparr>) k)))) = Some k'"
  show "same_settings k k'"
  proof (cases "lists k l")
    case Nil
    then show ?thesis using r by (simp add: same_settings_timers)
  next
    case (Cons t ts)
    let ?k1 = "upd_thread t (\<lambda>th. th\<lparr>t_error := - RT_ERROR\<rparr>) k"
    have "same_settings k (snd (rt_thread_resume t ?k1))"
      by (rule same_settings_trans [OF same_settings_timers resume_settings]) (simp add: settings)
    moreover have "same_settings (snd (rt_thread_resume t ?k1)) k'"
      using Cons r by (intro IH [of l]) simp
    ultimately show ?thesis by (rule same_settings_trans)
  qed
qed

definition system_ok :: "kernel \<Rightarrow> bool" where
  "system_ok k \<longleftrightarrow> kinv k \<and> sleepers_oneshot k"

lemma system_okI: "kinv k' \<Longrightarrow> same_settings k k' \<Longrightarrow> system_ok k \<Longrightarrow> system_ok k'"
  using same_settings_fine by (auto simp: system_ok_def)

lemma system_ok_timers: "kinv k' \<Longrightarrow> timers k' = timers k \<Longrightarrow> system_ok k \<Longrightarrow> system_ok k'"
  by (blast intro: system_okI same_settings_timers)

lemma create_ok:
  assumes "system_ok k" "unused t k"
  shows "system_ok (snd (rt_thread_create (Some t) stack name p n k))"
    "system_ok (snd (rt_thread_init t name p n k))"
proof -
  have *: "system_ok (k\<lparr>objects := st\<rparr>)" "unused t (k\<lparr>objects := st\<rparr>)" for st
    using assms by (simp_all add: system_ok_def unused_def sleepers_oneshot_def periodic_def)
  note ** = thread_init_system [of "k\<lparr>objects := _\<rparr>" t p n, folded system_ok_def]
  show "system_ok (snd (rt_thread_create (Some t) stack name p n k))"
    using assms(1) * ** by (auto simp: rt_thread_create_def system_ok_def rt_object_allocate_def Let_def split: option.split)
  show "system_ok (snd (rt_thread_init t name p n k))"
    using * ** by (auto simp: rt_thread_init_def upd_objects_def system_ok_def)
qed

lemma startup_settings: "same_settings k (snd (rt_thread_startup t k))"
proof -
  let ?k1 = "upd_thread t (\<lambda>th. th\<lparr>current_priority := init_priority th,
      number_mask := push_bit (init_priority th) 1, t_stat := RT_THREAD_SUSPEND\<rparr>) k"
  have "same_settings k (snd (rt_thread_resume t ?k1))"
    by (rule same_settings_trans [OF same_settings_timers resume_settings]) (simp add: settings)
  then show ?thesis
    using same_settings_trans [OF _ same_settings_timers] by (simp add: rt_thread_startup_def Let_def kframe)
qed

lemma control_settings:
  "same_settings k (snd (rt_thread_control t (RT_THREAD_CTRL_CHANGE_PRIORITY p) k))"
  by (rule same_settings_timers) (simp add: settings kframe)

lemma kinv_wake:
  assumes "kinv k" "wait_queue l"
  shows "kinv (rt_ipc_list_resume l k)" "same_settings k (rt_ipc_list_resume l k)"
proof -
  show "kinv (rt_ipc_list_resume l k)"
    using assms ipc_resume_result(1) by (cases "lists k l") (auto simp: rt_ipc_list_resume_def)
  show "same_settings k (rt_ipc_list_resume l k)"
    using resume_settings by (auto simp: rt_ipc_list_resume_def same_settings_timers split: list.split)
qed

lemma user_control_ok:
  assumes "system_ok k"
  shows "system_ok (snd (rt_timer_control (UserTimer n) c i k))"
    "system_ok (snd (rt_timer_control tm RT_TIMER_CTRL_SET_ONESHOT i k))"
proof -
  have once: "(f AND - 3) AND RT_TIMER_FLAG_PERIODIC = 0" for f :: u8
    by (rule bit_eqI) (auto simp: bit_simps)
  have k: "kinv k" "sleepers_oneshot k" using assms by (simp_all add: system_ok_def)
  show "system_ok (snd (rt_timer_control (UserTimer n) c i k))"
    unfolding system_ok_def
    by (intro conjI kinv_timer_control k(1), cases c) (use k(2) in \<open>auto simp: sleepers_oneshot_def periodic_def upd_timer_def\<close>)
  show "system_ok (snd (rt_timer_control tm RT_TIMER_CTRL_SET_ONESHOT i k))"
    unfolding system_ok_def
    by (intro conjI kinv_timer_control k(1)) (use k(2) once in \<open>auto simp: sleepers_oneshot_def periodic_def upd_timer_def\<close>)
qed

lemma user_timer_ok:
  assumes "system_ok k"
  shows "UserTimer n \<notin> set (rt_timer_list k) \<Longrightarrow> system_ok (rt_timer_init (UserTimer n) name time flag k)"
    "UserTimer n \<notin> set (rt_timer_list k) \<Longrightarrow>
      system_ok (snd (rt_timer_create (Some (UserTimer n)) name time flag k))"
    "system_ok (snd (rt_timer_detach (UserTimer n) k))" "system_ok (snd (rt_timer_delete (UserTimer n) k))"
proof -
  have obj: "system_ok (k\<lparr>objects := st\<rparr>)" for st
    using assms by (simp add: system_ok_def sleepers_oneshot_def periodic_def)
  have set: "system_ok (timer_object_init (UserTimer n) time flag k1)"
    if "system_ok k1" "UserTimer n \<notin> set (rt_timer_list k1)" for k1
    using that kinv_timer_object
    by (auto simp: system_ok_def sleepers_oneshot_def periodic_def timer_object_init_def upd_timer_def)
  show "system_ok (rt_timer_init (UserTimer n) name time flag k)" if "UserTimer n \<notin> set (rt_timer_list k)"
    using that by (simp add: rt_timer_init_def upd_objects_def set obj)
  show "system_ok (snd (rt_timer_create (Some (UserTimer n)) name time flag k))" if "UserTimer n \<notin> set (rt_timer_list k)"
    using that by (simp add: rt_timer_create_def rt_object_allocate_def Let_def set obj assms split: option.split)
  have "system_ok (snd (rt_timer_detach (UserTimer n) k))" if "system_ok k" for k
    using that kinv_timer_detach [of "{}" k "UserTimer n"] same_settings_fine [OF detach_settings]
    by (auto simp: system_ok_def)
  then show "system_ok (snd (rt_timer_detach (UserTimer n) k))" using assms by blast
  then show "system_ok (snd (rt_timer_delete (UserTimer n) k))"
    by (simp add: rt_timer_delete_def rt_timer_detach_def upd_objects_def timer_list_remove_def system_ok_def
        sleepers_oneshot_def periodic_def)
qed

lemma power_up_ok: "system_ok (rt_system_timer_init (rt_system_scheduler_init zeroed))"
proof -
  have "kinv (rt_system_timer_init (rt_system_scheduler_init zeroed))"
    by (auto simp: rt_system_timer_init_def rt_system_scheduler_init_def kinv_defs sched_inv_x_def sample_defs
        stat_of_def split: list_id.splits)
  then show ?thesis
    by (simp add: system_ok_def sleepers_oneshot_def periodic_def rt_system_timer_init_def
        rt_system_scheduler_init_def sample_defs)
qed

lemma kernel_step_ok:
  assumes q: "quiet user" "keeps_kinv user" and step: "kernel_step user k k'" and ok: "system_ok k"
  shows "system_ok k'"
proof -
  have inv: "kinv k" "sleepers_oneshot k" using ok by (simp_all add: system_ok_def)
  note by_settings = system_okI [OF _ _ ok] and by_timers = system_ok_timers [OF _ _ ok]
  show ?thesis
    using step
  proof cases
    case start
    then show ?thesis
      using by_timers inv by (simp add: rt_system_scheduler_start_def split: list.split)
  next
    case unlock
    then show ?thesis using by_timers inv by (simp add: rt_exit_critical_def Let_def kframe)
  next
    case tick
    then show ?thesis using tick_system [OF q _ inv] by (auto simp: system_ok_def)
  next
    case (wake_all l)
    then show ?thesis
      using by_settings resume_all_settings resume_all_result [OF inv(1), of l] by auto
  next
    case (block t l flag time)
    then show ?thesis
      using by_settings arm_kinv arm_settings inv by (auto simp: may_block_def)
  next
    case (timer_time n i)
    then show ?thesis using user_control_ok(1) [OF ok] by (simp del: rt_timer_control.simps)
  next
    case (timer_repeat n i)
    then show ?thesis using user_control_ok(1) [OF ok] by (simp del: rt_timer_control.simps)
  next
    case (timer_start n)
    moreover have "kinv (snd (rt_timer_start (UserTimer n) k))" by (rule kinv_timer_start [OF inv(1)]) simp
    ultimately show ?thesis using by_settings start_settings by simp
  next
    case (timer_stop tm)
    then show ?thesis using by_settings kinv_timer_stop [OF inv(1)] stop_settings by simp
  qed (use ok inv by_settings by_timers create_ok user_control_ok(2) [OF ok] user_timer_ok [OF ok] startup_kinv startup_settings
      suspend_kinv suspend_settings resume_kinv resume_settings yield_kinv yield_timers sleep_kinv sleep_settings
      sleep_resume_kinv exit_kinv detach_kinv delete_kinv detach_call_settings change_priority_kinv
      control_settings kinv_wake in \<open>auto simp: rt_enter_critical_def rt_interrupt_enter_def
        rt_interrupt_leave_def rt_thread_sleep_resume_def settings kframe\<close>)
qed

section \<open>Property\<close>

text \<open>
  C1: whatever calls the threads, the interrupts and the wait queues make after power-up, the
  kernel's lists, ready mask, states and timers stay consistent, and the tick interrupt that
  follows returns if the periodic timers then in the list wait at least one tick and less than
  half the tick range. The calls are those of kernel_step, on control blocks that are not in
  use where they create something. Each is taken as one step, also rt_thread_resume, which
  lets interrupts in between its halves: one that resumes the same thread there breaks the lists
  (resume_interrupted_twice). The callbacks of application timers are a parameter: they leave
  the timers alone and keep the invariant.
\<close>

theorem kernel_history_consistent:
  assumes "quiet user" "keeps_kinv user"
    and "(kernel_step user)\<^sup>*\<^sup>* (rt_system_timer_init (rt_system_scheduler_init zeroed)) k"
  shows "kinv k \<and> (periods_ok k \<longrightarrow> (\<exists>k'. rt_tick_increase user k = Some k' \<and> kinv k'))"
proof -
  have "system_ok k"
    using assms(3) by (induction rule: rtranclp_induct) (auto intro: power_up_ok kernel_step_ok [OF assms(1,2)])
  then show ?thesis using tick_increase_kinv [OF assms(1,2)] by (auto simp: system_ok_def)
qed

text \<open>One thread is created and started, and the scheduler begins.\<close>

lemma create_state:
  "snd (rt_thread_create (Some t) True name p n k) =
     thread_init t p n (k\<lparr>objects := snd (rt_object_allocate (Some (ThreadObj t)) RT_Object_Class_Thread name (objects k))\<rparr>)"
  by (simp add: rt_thread_create_def rt_object_allocate_def rt_object_get_information_def)

lemma init_state:
  "stat_of (thread_init t p n k) t = RT_THREAD_INIT" "init_priority (threads (thread_init t p n k) t) = p"
  "lists (thread_init t p n k) = lists k" "rt_current_thread (thread_init t p n k) = rt_current_thread k"
  "rt_thread_ready_priority_group (thread_init t p n k) = rt_thread_ready_priority_group k"
  by (simp_all add: thread_init_def rt_timer_init_def timer_object_init_def kstate_defs)

definition power_up :: kernel where
  "power_up = rt_system_timer_init (rt_system_scheduler_init zeroed)"

definition created :: kernel where
  "created = snd (rt_thread_create (Some 1) True ''main'' 10 20 power_up)"

lemma power_up_fields:
  "lists power_up l = []" "rt_timer_list power_up = []" "rt_current_thread power_up = None"
  "rt_thread_ready_priority_group power_up = 0"
  by (simp_all add: power_up_def rt_system_timer_init_def rt_system_scheduler_init_def zeroed_def split: list_id.split)

lemma started:
  "rt_current_thread (rt_system_scheduler_start (snd (rt_thread_startup 1 created))) = Some 1"
proof -
  let ?k = "snd (rt_thread_startup 1 created)"
  have "rt_thread_ready_priority_group ?k = 2 ^ 10" "lists ?k (Ready 10) = [1]"
    by (simp_all add: created_def create_state rt_thread_startup_def Let_def rt_thread_resume_def resume_unlink_def
        rt_schedule_insert_thread_def kframe power_up_fields init_state rt_thread_self_def kstate_defs)
  moreover have "rt_ffs (2 ^ 10) = 11" by code_simp
  ultimately show ?thesis by (simp add: rt_system_scheduler_start_def)
qed

lemma started_timers: "rt_timer_list (rt_system_scheduler_start (snd (rt_thread_startup 1 created))) = []"
  by (simp add: created_def create_state rt_thread_startup_def Let_def rt_thread_resume_def resume_unlink_def
      rt_timer_stop_def timer_list_remove_def thread_init_def rt_timer_init_def timer_object_init_def upd_timer_def
      upd_objects_def kframe power_up_fields init_state rt_thread_self_def kstate_defs rt_system_scheduler_start_def
      split: list.split)

lemma kernel_history_consistent_witness:
  "\<exists>k. rt_current_thread k = Some 1 \<and> kinv k \<and> (\<exists>k'. rt_tick_increase (\<lambda>n k. k) k = Some k' \<and> kinv k')"
proof -
  let ?step = "kernel_step (\<lambda>n k. k)" and ?k2 = "snd (rt_thread_startup 1 created)"
  have "?step power_up created"
    unfolding created_def by (rule create) (simp_all add: unused_def power_up_fields RT_THREAD_PRIORITY_MAX_def)
  moreover have "?step created ?k2"
    by (rule startup) (simp_all add: created_def create_state init_state RT_THREAD_PRIORITY_MAX_def)
  moreover have "?step ?k2 (rt_system_scheduler_start ?k2)" by (rule start)
  ultimately have "?step\<^sup>*\<^sup>* power_up (rt_system_scheduler_start ?k2)"
    by (meson converse_rtranclp_into_rtranclp rtranclp.rtrancl_refl)
  then show ?thesis
    using kernel_history_consistent [of "\<lambda>n k. k" "rt_system_scheduler_start ?k2"] started started_timers
    by (auto simp: quiet_def keeps_kinv_def power_up_def periods_ok_def)
qed

text \<open>
  C2: when the scheduler is not locked and some thread is ready, \<^verbatim>\<open>rt_schedule\<close>
  leaves running a ready thread that no other ready thread outranks, and it is the one that
  has waited longest at its priority.
\<close>

theorem schedule_picks_highest:
  assumes "kinv k" "rt_scheduler_lock_nest k = 0" "stat_of k u = RT_THREAD_READY"
  shows "\<exists>t ts. rt_current_thread (rt_schedule k) = Some t \<and> stat_of k t = RT_THREAD_READY \<and>
    lists k (Ready (priority_of k t)) = t # ts \<and>
    (\<forall>v. stat_of k v = RT_THREAD_READY \<longrightarrow> priority_of k t \<le> priority_of k v)"
proof -
  have inv: "sched_inv k" using assms(1) by (rule kinv_sched)
  then have "u \<in> set (lists k (Ready (priority_of k u)))" using assms(3) by (simp add: sched_inv_x_def)
  then have "lists k (Ready (priority_of k u)) \<noteq> []" by auto
  from schedule_runs_top [OF inv assms(2) this] have top: "runs_top (rt_schedule k)" by simp
  have same: "stat_of (rt_schedule k) = stat_of k" "priority_of (rt_schedule k) = priority_of k"
    by (simp_all add: stat_of_def priority_of_def kframe fun_eq_iff)
  obtain p t ts where t: "rt_current_thread (rt_schedule k) = Some t" "lists k (Ready p) = t # ts"
    using top by (auto simp: runs_top_def kframe)
  then have "t \<in> set (lists k (Ready p))" by simp
  then have "priority_of k t = p" using inv by (simp add: sched_inv_x_def)
  then show ?thesis
    using t runs_top_highest [OF _ top] inv by (auto simp: same)
qed

lemma schedule_picks_highest_witness:
  "\<exists>t ts. rt_current_thread (rt_schedule (two_ready\<lparr>rt_current_thread := Some 2\<rparr>)) = Some t \<and>
    stat_of two_ready t = RT_THREAD_READY \<and> lists two_ready (Ready (priority_of two_ready t)) = t # ts \<and>
    (\<forall>v. stat_of two_ready v = RT_THREAD_READY \<longrightarrow> priority_of two_ready t \<le> priority_of two_ready v)"
  using schedule_picks_highest [of "two_ready\<lparr>rt_current_thread := Some 2\<rparr>" 2] two_ready_kinv two_ready_stat [of 2]
  by (simp add: two_ready_fields stat_of_def priority_of_def)

end
