(* ===== verification/Semaphore.thy ===== *)
theory Semaphore
  imports Ipc
begin

unbundle bit_operations_syntax

text \<open>
  The semaphore of \<^verbatim>\<open>src/ipc.c\<close>. A state is the semaphore with the kernel. A
  take that has to wait is \<open>Blocked\<close> with the calling thread; \<open>rt_sem_take_resume\<close> is
  the rest of the call once that thread runs again.
\<close>

section \<open>The code\<close>

record rt_semaphore =
  sem_id :: nat
  sem_flag :: u8
  sem_value :: u16

type_synonym sem_state = "rt_semaphore \<times> kernel"

definition sem_object :: "nat \<Rightarrow> u32 \<Rightarrow> u8 \<Rightarrow> rt_semaphore" where
  "sem_object n value flag = \<lparr>sem_id = n, sem_flag = flag, sem_value = ucast value\<rparr>"

definition rt_sem_init :: "nat \<Rightarrow> string \<Rightarrow> u32 \<Rightarrow> u8 \<Rightarrow> kernel \<Rightarrow> int \<times> sem_state" where
  "rt_sem_init n name value flag k =
    (RT_EOK, (sem_object n value flag,
      rt_ipc_object_init n (upd_objects (rt_object_init (IpcObj n) RT_Object_Class_Semaphore name) k)))"

definition rt_sem_detach :: "sem_state \<Rightarrow> (int \<times> kernel) option" where
  "rt_sem_detach x = (case x of (s, k) \<Rightarrow>
     map_option (\<lambda>k1. (RT_EOK, upd_objects (rt_object_detach (IpcObj (sem_id s))) k1))
       (rt_ipc_list_resume_all (Pending (sem_id s)) k))"

definition rt_sem_create ::
  "nat option \<Rightarrow> string \<Rightarrow> u32 \<Rightarrow> u8 \<Rightarrow> kernel \<Rightarrow> rt_semaphore option \<times> kernel" where
  "rt_sem_create addr name value flag k =
    (case rt_object_allocate (map_option IpcObj addr) RT_Object_Class_Semaphore name (objects k) of
       (Some (IpcObj n), st) \<Rightarrow> (Some (sem_object n value flag), rt_ipc_object_init n (k\<lparr>objects := st\<rparr>))
     | (_, st) \<Rightarrow> (None, k\<lparr>objects := st\<rparr>))"

definition rt_sem_delete :: "sem_state \<Rightarrow> (int \<times> kernel) option" where
  "rt_sem_delete x = (case x of (s, k) \<Rightarrow>
     map_option (\<lambda>k1. (RT_EOK, upd_objects (rt_object_delete (IpcObj (sem_id s))) k1))
       (rt_ipc_list_resume_all (Pending (sem_id s)) k))"

definition rt_sem_take :: "int \<Rightarrow> sem_state \<Rightarrow> (int, tid) outcome \<times> sem_state" where
  "rt_sem_take time x = (case x of (s, k) \<Rightarrow>
    if sem_value s > 0 then (Return RT_EOK, (s\<lparr>sem_value := sem_value s - 1\<rparr>, k))
    else if time = 0 then (Return (- RT_ETIMEOUT), (s, k))
    else case rt_thread_self k of
       None \<Rightarrow> (Return RT_EOK, (s, k\<lparr>fault := True\<rparr>))
     | Some t \<Rightarrow>
        (Blocked t, (s, rt_schedule (suspend_and_arm (Pending (sem_id s)) t (sem_flag s) time
          (upd_thread t (\<lambda>th. th\<lparr>t_error := RT_EOK\<rparr>) k)))))"

definition rt_sem_take_resume :: "tid \<Rightarrow> sem_state \<Rightarrow> int" where
  "rt_sem_take_resume t x = (case x of (s, k) \<Rightarrow>
    if t_error (threads k t) \<noteq> RT_EOK then t_error (threads k t) else RT_EOK)"

definition rt_sem_trytake :: "sem_state \<Rightarrow> (int, tid) outcome \<times> sem_state" where
  "rt_sem_trytake x = rt_sem_take 0 x"

definition rt_sem_release :: "sem_state \<Rightarrow> int \<times> sem_state" where
  "rt_sem_release x = (case x of (s, k) \<Rightarrow>
    if lists k (Pending (sem_id s)) \<noteq> []
    then (RT_EOK, (s, rt_schedule (rt_ipc_list_resume (Pending (sem_id s)) k)))
    else (RT_EOK, (s\<lparr>sem_value := sem_value s + 1\<rparr>, k)))"

text \<open>\<open>Some value\<close> is \<open>RT_IPC_CMD_RESET\<close> with its argument, \<open>None\<close> any other command.\<close>

definition rt_sem_control :: "u32 option \<Rightarrow> sem_state \<Rightarrow> (int \<times> sem_state) option" where
  "rt_sem_control cmd x = (case x of (s, k) \<Rightarrow>
    case cmd of
      Some value \<Rightarrow>
        map_option (\<lambda>k1. (RT_EOK, (s\<lparr>sem_value := ucast value\<rparr>, rt_schedule k1)))
          (rt_ipc_list_resume_all (Pending (sem_id s)) k)
    | None \<Rightarrow> Some (- RT_ERROR, (s, k)))"

section \<open>Invariant\<close>

abbreviation waiters :: "sem_state \<Rightarrow> tid list" where
  "waiters x \<equiv> lists (snd x) (Pending (sem_id (fst x)))"

text \<open>Nobody waits while the semaphore has permits.\<close>

definition sem_inv :: "sem_state \<Rightarrow> bool" where
  "sem_inv x \<longleftrightarrow> kinv (snd x) \<and> (sem_flag (fst x) = RT_IPC_FLAG_FIFO \<or> sem_flag (fst x) = RT_IPC_FLAG_PRIO) \<and>
     (sem_value (fst x) > 0 \<longrightarrow> waiters x = [])"

text \<open>The thread that calls is running and ready.\<close>

definition running :: "kernel \<Rightarrow> tid \<Rightarrow> bool" where
  "running k t \<longleftrightarrow> rt_current_thread k = Some t \<and> stat_of k t = RT_THREAD_READY"

lemma running_may_block:
  "kinv k \<Longrightarrow> running k t \<Longrightarrow> wait_queue l \<Longrightarrow> flag = RT_IPC_FLAG_FIFO \<or> flag = RT_IPC_FLAG_PRIO \<Longrightarrow>
   may_block l t flag (upd_thread t (\<lambda>th. th\<lparr>t_error := e\<rparr>) k)"
  by (auto simp: may_block_def running_def kinv_neutral stat_neutral)

lemma priority_upd_error [simp]:
  "priority_of (upd_thread t (\<lambda>th. th\<lparr>t_error := e\<rparr>) k) = priority_of k"
  by (auto simp: priority_of_def upd_thread_def)

section \<open>Each operation\<close>

lemma sem_take_wait:
  assumes "sem_inv (s, k)" "running k t" "sem_value s = 0" "time \<noteq> 0"
  obtains k' where "rt_sem_take time (s, k) = (Blocked t, (s, k'))" "sem_inv (s, k')"
    "waiters (s, k') = enqueued (sem_flag s) (priority_of k) t (waiters (s, k))"
    "stat_of k' t = RT_THREAD_SUSPEND"
proof -
  let ?k1 = "upd_thread t (\<lambda>th. th\<lparr>t_error := RT_EOK\<rparr>) k"
  let ?k2 = "suspend_and_arm (Pending (sem_id s)) t (sem_flag s) time ?k1"
  have mb: "may_block (Pending (sem_id s)) t (sem_flag s) ?k1"
    by (rule running_may_block) (use assms in \<open>auto simp: sem_inv_def\<close>)
  show ?thesis
  proof (rule that [of "rt_schedule ?k2"])
    show "rt_sem_take time (s, k) = (Blocked t, (s, rt_schedule ?k2))"
      using assms by (simp add: rt_sem_take_def running_def rt_thread_self_def)
    show "sem_inv (s, rt_schedule ?k2)" using assms arm_kinv [OF mb] by (simp add: sem_inv_def)
    show "waiters (s, rt_schedule ?k2) = enqueued (sem_flag s) (priority_of k) t (waiters (s, k))"
      using blocked_queue(1) [OF mb] by (simp add: kframe)
    show "stat_of (rt_schedule ?k2) t = RT_THREAD_SUSPEND"
      using blocked_queue(2) [OF mb] by (simp add: kframe stat_of_def)
  qed
qed

lemma sem_take_kinds:
  assumes "rt_sem_take time (s, k) = (r, y)" "rt_current_thread k = Some t"
  shows "(0 < sem_value s \<and> r = Return RT_EOK \<and> y = (s\<lparr>sem_value := sem_value s - 1\<rparr>, k)) \<or>
    (sem_value s = 0 \<and> time = 0 \<and> r = Return (- RT_ETIMEOUT) \<and> y = (s, k)) \<or>
    (sem_value s = 0 \<and> time \<noteq> 0 \<and> r = Blocked t)"
  using assms by (auto simp: rt_sem_take_def rt_thread_self_def word_gt_0 split: if_splits)

lemma sem_release_wake:
  assumes "sem_inv (s, k)" "waiters (s, k) = t # ts"
  obtains k' where "rt_sem_release (s, k) = (RT_EOK, (s, k'))" "sem_inv (s, k')" "waiters (s, k') = ts"
    "stat_of k' t = RT_THREAD_READY" "t_error (threads k' t) = t_error (threads k t)"
proof -
  have v: "\<not> sem_value s > 0" using assms by (auto simp: sem_inv_def)
  have inv: "kinv k" using assms by (simp add: sem_inv_def)
  note r = ipc_resume_result [OF inv, of "Pending (sem_id s)" t ts]
  show ?thesis
    by (rule that [of "rt_schedule (rt_ipc_list_resume (Pending (sem_id s)) k)"])
      (use assms r v in \<open>simp_all add: rt_sem_release_def sem_inv_def kframe stat_of_def\<close>)
qed

lemma sem_release_count:
  assumes "sem_inv (s, k)" "waiters (s, k) = []"
  shows "rt_sem_release (s, k) = (RT_EOK, (s\<lparr>sem_value := sem_value s + 1\<rparr>, k))"
    "sem_inv (s\<lparr>sem_value := sem_value s + 1\<rparr>, k)"
  using assms by (simp_all add: rt_sem_release_def sem_inv_def)

text \<open>
  Resetting a semaphore returns, however many threads wait: it sets the counter, leaves the queue
  empty, and makes every waiting thread ready with an error, not with a permit.
\<close>

theorem sem_reset:
  assumes "sem_inv (s, k)"
  shows "\<exists>k'. rt_sem_control (Some value) (s, k) = Some (RT_EOK, (s\<lparr>sem_value := ucast value\<rparr>, k')) \<and>
    sem_inv (s\<lparr>sem_value := ucast value\<rparr>, k') \<and> waiters (s, k') = [] \<and>
    (\<forall>t\<in>set (waiters (s, k)). stat_of k' t = RT_THREAD_READY \<and> rt_sem_take_resume t (s, k') = - RT_ERROR)"
proof -
  have inv: "kinv k" using assms by (simp add: sem_inv_def)
  obtain k' where "rt_ipc_list_resume_all (Pending (sem_id s)) k = Some k'" "kinv k'"
    "lists k' (Pending (sem_id s)) = []"
    "\<forall>t\<in>set (waiters (s, k)). stat_of k' t = RT_THREAD_READY \<and> t_error (threads k' t) = - RT_ERROR"
    using resume_all_result [OF inv, of "Pending (sem_id s)"] by auto
  with assms show ?thesis
    by (intro exI [of _ "rt_schedule k'"])
      (auto simp: rt_sem_control_def sem_inv_def kframe stat_of_def rt_sem_take_resume_def)
qed

section \<open>Histories\<close>

datatype sem_event = Granted tid | Waits tid | TimedOut tid | Released | Other

text \<open>
  The threads a release hands its permit to, read off the states before and after it: they
  waited, wait no longer, are ready, and the take they wait in reports success.
\<close>

definition handed_over :: "sem_state \<Rightarrow> sem_state \<Rightarrow> tid list" where
  "handed_over x y = filter (\<lambda>t. t \<notin> set (waiters y) \<and> stat_of (snd y) t = RT_THREAD_READY \<and>
     rt_sem_take_resume t y = RT_EOK) (waiters x)"

text \<open>
  What can happen to a semaphore: takes and releases, the time-out of a waiting thread (whose
  timer has just left the list), and any other activity of the kernel that keeps the kernel
  invariant and leaves the queue and the error codes of the waiting threads alone.
\<close>

inductive sem_history :: "sem_state \<Rightarrow> sem_event list \<Rightarrow> sem_state \<Rightarrow> bool" where
  start: "sem_history x [] x"
| taken: "\<lbrakk>sem_history x es (s, k); running k t; rt_sem_take time (s, k) = (Return RT_EOK, y)\<rbrakk>
    \<Longrightarrow> sem_history x (es @ [Granted t]) y"
| refused: "\<lbrakk>sem_history x es (s, k); running k t; rt_sem_take time (s, k) = (Return (- RT_ETIMEOUT), y)\<rbrakk>
    \<Longrightarrow> sem_history x (es @ [TimedOut t]) y"
| waits: "\<lbrakk>sem_history x es (s, k); running k t; rt_sem_take time (s, k) = (Blocked t, y)\<rbrakk>
    \<Longrightarrow> sem_history x (es @ [Waits t]) y"
| released: "\<lbrakk>sem_history x es (s, k); rt_sem_release (s, k) = (e, y)\<rbrakk>
    \<Longrightarrow> sem_history x (es @ Released # map Granted (handed_over (s, k) y)) y"
| timed_out: "\<lbrakk>sem_history x es (s, k); t \<in> set (lists k (Pending (sem_id s)));
      ThreadTimer t \<notin> set (rt_timer_list k)\<rbrakk>
    \<Longrightarrow> sem_history x (es @ [TimedOut t]) (s, rt_thread_timeout t k)"
| other: "\<lbrakk>sem_history x es (s, k); kinv k'; lists k' (Pending (sem_id s)) = lists k (Pending (sem_id s));
      \<forall>t\<in>set (lists k (Pending (sem_id s))). t_error (threads k' t) = t_error (threads k t)\<rbrakk>
    \<Longrightarrow> sem_history x (es @ [Other]) (s, k')"

definition grants :: "sem_event list \<Rightarrow> nat" where
  "grants es = length (filter (\<lambda>e. case e of Granted _ \<Rightarrow> True | _ \<Rightarrow> False) es)"

definition releases :: "sem_event list \<Rightarrow> nat" where
  "releases es = length (filter (\<lambda>e. e = Released) es)"

lemma grants_snoc [simp]: "grants (es @ fs) = grants es + grants fs" "grants [] = 0"
  "grants (Granted t # es) = Suc (grants es)" "grants (Released # es) = grants es"
  "grants (TimedOut t # es) = grants es" "grants (Waits t # es) = grants es" "grants (Other # es) = grants es"
  "grants (map Granted ts) = length ts"
  by (simp_all add: grants_def filter_map o_def)

lemma releases_snoc [simp]: "releases (es @ fs) = releases es + releases fs" "releases [] = 0"
  "releases (Granted t # es) = releases es" "releases (Released # es) = Suc (releases es)"
  "releases (TimedOut t # es) = releases es" "releases (Waits t # es) = releases es"
  "releases (Other # es) = releases es" "releases (map Granted ts) = 0"
  by (simp_all add: releases_def filter_map o_def)

lemma timeout_unlinks:
  assumes inv: "kinv k" and t: "t \<in> set (lists k (Pending n))"
  shows "lists (rt_thread_timeout t k) (Pending n) = filter (\<lambda>u. u \<noteq> t) (lists k (Pending n))"
  by (simp add: rt_thread_timeout_def kframe insert_thread_lists list_remove_def)

text \<open>A thread that waits has a clear error code: only its time-out or a reset sets one.\<close>

definition sem_good :: "sem_state \<Rightarrow> bool" where
  "sem_good x \<longleftrightarrow> sem_inv x \<and> (\<forall>t\<in>set (waiters x). t_error (threads (snd x) t) = RT_EOK)"

lemma suspend_error: "t_error (threads (snd (rt_thread_suspend t k)) u) = t_error (threads k u)"
  by (simp add: rt_thread_suspend_def kframe upd_thread_def)

lemma sem_wait_good:
  assumes good: "sem_good (s, k)" and run: "running k t" and r: "rt_sem_take time (s, k) = (Blocked t, y)"
  shows "sem_good y \<and> fst y = s"
proof -
  have inv: "sem_inv (s, k)" using good by (simp add: sem_good_def)
  have v: "sem_value s = 0" "time \<noteq> 0" using sem_take_kinds [OF r] run by (auto simp: running_def)
  let ?k' = "rt_schedule (suspend_and_arm (Pending (sem_id s)) t (sem_flag s) time (upd_thread t (\<lambda>th. th\<lparr>t_error := RT_EOK\<rparr>) k))"
  have y: "y = (s, ?k')" using r v run by (simp add: rt_sem_take_def running_def rt_thread_self_def)
  have e: "t_error (threads ?k' u) = (if u = t then RT_EOK else t_error (threads k u))" for u
    by (simp add: kframe arm_threads suspend_error upd_thread_def)
  obtain k2 where "rt_sem_take time (s, k) = (Blocked t, (s, k2))" "sem_inv (s, k2)"
    "waiters (s, k2) = enqueued (sem_flag s) (priority_of k) t (waiters (s, k))"
    by (rule sem_take_wait [OF inv run v])
  then have k2: "sem_inv (s, ?k')" "waiters (s, ?k') = enqueued (sem_flag s) (priority_of k) t (waiters (s, k))"
    using r y by auto
  have "set (waiters (s, ?k')) \<subseteq> insert t (set (waiters (s, k)))"
    using k2(2) by simp
  then show ?thesis using k2(1) good e unfolding y sem_good_def by auto
qed

text \<open>A release serves the head of the queue, and nobody else; without a queue nobody.\<close>

lemma sem_release_good:
  assumes good: "sem_good (s, k)" and r: "rt_sem_release (s, k) = (e, y)"
  shows "sem_good y" "sem_id (fst y) = sem_id s" "handed_over (s, k) y = take 1 (waiters (s, k))"
    "sem_value (fst y) = (if waiters (s, k) = [] then sem_value s + 1 else sem_value s)"
proof -
  have inv: "sem_inv (s, k)" using good by (simp add: sem_good_def)
  have "sem_good y \<and> sem_id (fst y) = sem_id s \<and> handed_over (s, k) y = take 1 (waiters (s, k)) \<and>
      sem_value (fst y) = (if waiters (s, k) = [] then sem_value s + 1 else sem_value s)"
  proof (cases "waiters (s, k)")
    case Nil
    then show ?thesis using sem_release_count [OF inv Nil] r by (auto simp: handed_over_def sem_good_def)
  next
    case (Cons t ts)
    have k: "kinv k" using inv by (simp add: sem_inv_def)
    have d: "t \<notin> set ts" using queue_distinct [OF k, of "Pending (sem_id s)"] Cons by simp
    let ?k' = "rt_schedule (rt_ipc_list_resume (Pending (sem_id s)) k)"
    have y: "y = (s, ?k')" using r Cons by (simp add: rt_sem_release_def)
    note res = ipc_resume_result [OF k _ Cons [unfolded fst_conv snd_conv]]
    have k': "waiters (s, ?k') = ts" "stat_of ?k' t = RT_THREAD_READY" "\<And>u. t_error (threads ?k' u) = t_error (threads k u)"
      using res by (simp_all add: kframe stat_of_def)
    have "sem_inv (s, ?k')"
      using sem_release_wake [OF inv Cons] r y by auto
    moreover have "handed_over (s, k) y = [t]"
      using Cons k' d good by (auto simp: handed_over_def y sem_good_def rt_sem_take_resume_def intro: filter_False)
    ultimately show ?thesis using Cons k' good by (simp add: y sem_good_def)
  qed
  then show "sem_good y" "sem_id (fst y) = sem_id s" "handed_over (s, k) y = take 1 (waiters (s, k))"
    "sem_value (fst y) = (if waiters (s, k) = [] then sem_value s + 1 else sem_value s)"
    by simp_all
qed

lemma sem_history_good:
  assumes "sem_history x es y" "sem_good x"
  shows "sem_good y \<and> sem_id (fst y) = sem_id (fst x)"
  using assms
proof (induction rule: sem_history.induct)
  case (taken x es s k t time y)
  then show ?case using sem_take_kinds [OF taken(3)] by (auto simp: sem_good_def sem_inv_def running_def)
next
  case (refused x es s k t time y)
  then show ?case using sem_take_kinds [OF refused(3)] by (auto simp: running_def)
next
  case (waits x es s k t time y)
  then show ?case using sem_wait_good [OF _ waits(2,3)] by simp
next
  case (released x es s k e y)
  then show ?case using sem_release_good [OF _ released(2)] by auto
next
  case (timed_out x es s k t)
  then have inv: "kinv k" and st: "stat_of k t = RT_THREAD_SUSPEND"
    using queue_stat [of k "Pending (sem_id s)" t] by (auto simp: sem_good_def sem_inv_def)
  have "t_error (threads (rt_thread_timeout t k) u) = t_error (threads k u)" if "u \<noteq> t" for u
    using that by (simp add: rt_thread_timeout_def kframe insert_thread_threads list_remove_def upd_thread_def)
  then show ?case
    using timed_out timeout_kinv [OF inv st] timeout_unlinks [OF inv timed_out(2)]
    by (auto simp: sem_good_def sem_inv_def)
next
  case (other x es s k k')
  then show ?case by (auto simp: sem_good_def sem_inv_def)
qed simp

lemma sem_history_word:
  assumes "sem_history x es y" "sem_good x"
  shows "sem_value (fst y) + of_nat (grants es) = sem_value (fst x) + of_nat (releases es)"
  using assms
proof (induction rule: sem_history.induct)
  case (taken x es s k t time y)
  then have "y = (s\<lparr>sem_value := sem_value s - 1\<rparr>, k)"
    using sem_take_kinds [OF taken(3)] by (auto simp: running_def)
  then show ?case using taken by (simp add: algebra_simps)
next
  case (refused x es s k t time y)
  then show ?case using sem_take_kinds [OF refused(3)] by (auto simp: running_def)
next
  case (waits x es s k t time y)
  then show ?case using sem_wait_good [OF _ waits(2,3)] sem_history_good [OF waits(1)] by simp
next
  case (released x es s k e y)
  then have "sem_good (s, k)" using sem_history_good [OF released(1)] by simp
  note r = sem_release_good(3,4) [OF this released(2)]
  show ?case
    using released r by (cases "waiters (s, k)") (simp_all add: algebra_simps)
qed simp_all

lemma sem_history_exact:
  assumes "sem_history x es y" "sem_good x" "unat (sem_value (fst x)) + releases es < 2 ^ 16"
  shows "unat (sem_value (fst y)) + grants es = unat (sem_value (fst x)) + releases es"
  using assms
proof (induction rule: sem_history.induct)
  case (taken x es s k t time y)
  then have y: "sem_value s \<noteq> 0" "y = (s\<lparr>sem_value := sem_value s - 1\<rparr>, k)"
    using sem_take_kinds [OF taken(3)] by (auto simp: running_def word_gt_0)
  then have "0 < unat (sem_value s)" by (simp add: unat_gt_0)
  then show ?case using taken unat_minus_one [OF y(1)] by (simp add: y(2))
next
  case (refused x es s k t time y)
  then show ?case using sem_take_kinds [OF refused(3)] by (auto simp: running_def)
next
  case (waits x es s k t time y)
  then show ?case using sem_wait_good [OF _ waits(2,3)] sem_history_good [OF waits(1)] by simp
next
  case (released x es s k e y)
  then have "sem_good (s, k)" using sem_history_good [OF released(1)] by simp
  note r = sem_release_good(3,4) [OF this released(2)]
  show ?case
  proof (cases "waiters (s, k)")
    case Nil
    have "unat (sem_value s) + 1 < 2 ^ 16" using released by simp
    then have "unat (sem_value s + 1) = unat (sem_value s) + 1"
      using unat_add_lem [of "sem_value s" 1] by simp
    then show ?thesis using released r Nil by simp
  qed (use released r in simp)
qed simp_all

text \<open>
  C7: over every history of a semaphore (takes that succeed, wait or give up, releases with
  and without waiters, time-outs), the 16-bit counter plus the permits granted equals the
  initial counter plus the releases, modulo 2^16; and exactly, as long as initial permits and
  releases together stay below 2^16 (sem_release_wraps shows the loss beyond). A permit is
  granted by a take that returns success at once, or by a release to each thread that the release
  took off the queue, made ready and left with a successful take. The history begins in a consistent
  kernel in which no waiting thread has an error code, and whatever else happens in between leaves the
  queue and the error codes of the waiting threads alone.
\<close>

theorem sem_history_permits:
  assumes "sem_history x es y" "sem_good x"
  shows "sem_value (fst y) + of_nat (grants es) = sem_value (fst x) + of_nat (releases es) \<and>
    (unat (sem_value (fst x)) + releases es < 2 ^ 16 \<longrightarrow>
      unat (sem_value (fst y)) + grants es = unat (sem_value (fst x)) + releases es)"
  using sem_history_word [OF assms] sem_history_exact [OF assms] by blast

text \<open>
  At the top of its range the counter wraps to zero and the release still reports success:
  65535 permits are lost, and a thread that takes next has to wait.
\<close>

theorem sem_release_wraps:
  assumes "lists k (Pending (sem_id s)) = []" "sem_value s = 0xffff" "sem_inv (s, k)" "running k t" "time \<noteq> 0"
  shows "\<exists>s' k'. rt_sem_release (s, k) = (RT_EOK, (s', k)) \<and> sem_value s' = 0 \<and>
    rt_sem_take time (s', k) = (Blocked t, (s', k'))"
proof -
  let ?s = "s\<lparr>sem_value := 0\<rparr>"
  have "sem_inv (?s, k)" using assms(1,3) by (simp add: sem_inv_def)
  then obtain k' where "rt_sem_take time (?s, k) = (Blocked t, (?s, k'))"
    using sem_take_wait [of ?s k t time] assms(4,5) by auto
  then show ?thesis
    using assms(1,2) by (intro exI [of _ ?s] exI [of _ k']) (simp add: rt_sem_release_def)
qed

section \<open>Instances\<close>

text \<open>Threads 2 and 3 wait, a release serves thread 2.\<close>

lemma sample_sem_inv: "sem_inv (sem_object 0 v RT_IPC_FLAG_FIFO, two_ready)"
  using two_ready_kinv by (simp add: sem_inv_def sem_object_def two_ready_lists)

lemma sem_history_permits_witness:
  "\<exists>y. sem_history (sem_object 0 0 RT_IPC_FLAG_FIFO, two_waiting) [Released, Granted 2] y \<and>
    sem_value (fst y) + 1 = 1 \<and> unat (sem_value (fst y)) + 1 = 1"
proof -
  let ?x = "(sem_object 0 0 RT_IPC_FLAG_FIFO, two_waiting)"
  have w: "waiters ?x = [2, 3]" by (simp add: sem_object_def two_waiting_lists)
  have good: "sem_good ?x"
    using two_waiting_kinv w
    by (simp add: sem_good_def sem_inv_def sem_object_def) (simp add: two_waiting_def waiting_at_def sample_defs)
  obtain e y where r: "rt_sem_release ?x = (e, y)" by (cases "rt_sem_release ?x")
  have h: "sem_history ?x [Released, Granted 2] y"
    using released [OF start r] sem_release_good(3) [OF good r] w by simp
  show ?thesis
    using h sem_history_permits [OF h good] by (intro exI [of _ y]) (simp add: sem_object_def)
qed

lemma sem_release_wraps_witness:
  "\<exists>s' k'. rt_sem_release (sem_object 0 0xffff RT_IPC_FLAG_FIFO, two_ready) = (RT_EOK, (s', two_ready)) \<and>
    sem_value s' = 0 \<and> rt_sem_take (- 1) (s', two_ready) = (Blocked 1, (s', k'))"
  by (rule sem_release_wraps)
    (use sample_sem_inv [of "0xffff"] in \<open>simp_all add: running_def two_ready_simps sem_object_def\<close>)

lemma sem_reset_witness:
  "\<exists>k'. rt_sem_control (Some 5) (sem_object 0 0 RT_IPC_FLAG_FIFO, two_waiting) = Some (RT_EOK, (sem_object 0 5 RT_IPC_FLAG_FIFO, k')) \<and>
    lists k' (Pending 0) = [] \<and> stat_of k' 2 = RT_THREAD_READY \<and> stat_of k' 3 = RT_THREAD_READY"
proof -
  have "sem_inv (sem_object 0 0 RT_IPC_FLAG_FIFO, two_waiting)"
    using two_waiting_kinv by (simp add: sem_inv_def sem_object_def)
  from sem_reset [OF this, of 5] show ?thesis
    by (auto simp: sem_object_def two_waiting_lists)
qed

end
