(* ===== verification/Mutex.thy ===== *)
theory Mutex
  imports Semaphore
begin

unbundle bit_operations_syntax

text \<open>
  The recursive mutex with priority inheritance of \<^verbatim>\<open>src/ipc.c\<close>. The part of
  \<^verbatim>\<open>rt_mutex_take\<close> behind the label \<^verbatim>\<open>__again\<close> is
  \<open>mutex_acquire\<close>; \<open>rt_mutex_take_resume\<close> is the rest of the call once the
  waiting thread runs again.
\<close>

section \<open>The code\<close>

record rt_mutex =
  mtx_id :: nat
  mtx_flag :: u8
  mtx_value :: u16
  owner :: "tid option"
  original_priority :: nat
  hold :: u8

type_synonym mutex_state = "rt_mutex \<times> kernel"

abbreviation (input) RT_EINTR :: int where "RT_EINTR \<equiv> 9"

definition mutex_object :: "nat \<Rightarrow> u8 \<Rightarrow> rt_mutex" where
  "mutex_object n flag =
    \<lparr>mtx_id = n, mtx_flag = flag, mtx_value = 1, owner = None, original_priority = 0xFF, hold = 0\<rparr>"

definition rt_mutex_init :: "nat \<Rightarrow> string \<Rightarrow> u8 \<Rightarrow> kernel \<Rightarrow> int \<times> mutex_state" where
  "rt_mutex_init n name flag k =
    (RT_EOK, (mutex_object n flag,
      rt_ipc_object_init n (upd_objects (rt_object_init (IpcObj n) RT_Object_Class_Mutex name) k)))"

definition rt_mutex_detach :: "mutex_state \<Rightarrow> (int \<times> kernel) option" where
  "rt_mutex_detach x = (case x of (m, k) \<Rightarrow>
     map_option (\<lambda>k1. (RT_EOK, upd_objects (rt_object_detach (IpcObj (mtx_id m))) k1))
       (rt_ipc_list_resume_all (Pending (mtx_id m)) k))"

definition rt_mutex_create :: "nat option \<Rightarrow> string \<Rightarrow> u8 \<Rightarrow> kernel \<Rightarrow> rt_mutex option \<times> kernel" where
  "rt_mutex_create addr name flag k =
    (case rt_object_allocate (map_option IpcObj addr) RT_Object_Class_Mutex name (objects k) of
       (Some (IpcObj n), st) \<Rightarrow> (Some (mutex_object n flag), rt_ipc_object_init n (k\<lparr>objects := st\<rparr>))
     | (_, st) \<Rightarrow> (None, k\<lparr>objects := st\<rparr>))"

definition rt_mutex_delete :: "mutex_state \<Rightarrow> (int \<times> kernel) option" where
  "rt_mutex_delete x = (case x of (m, k) \<Rightarrow>
     map_option (\<lambda>k1. (RT_EOK, upd_objects (rt_object_delete (IpcObj (mtx_id m))) k1))
       (rt_ipc_list_resume_all (Pending (mtx_id m)) k))"

definition mutex_acquire :: "int \<Rightarrow> tid \<Rightarrow> mutex_state \<Rightarrow> (int, tid) outcome \<times> mutex_state" where
  "mutex_acquire time t x = (case x of (m, k) \<Rightarrow>
    if mtx_value m > 0
    then (Return RT_EOK, (m\<lparr>mtx_value := mtx_value m - 1, owner := Some t,
                            original_priority := priority_of k t, hold := hold m + 1\<rparr>, k))
    else if time = 0
    then (Return (- RT_ETIMEOUT), (m, upd_thread t (\<lambda>th. th\<lparr>t_error := - RT_ETIMEOUT\<rparr>) k))
    else case owner m of
       None \<Rightarrow> (Return RT_EOK, (m, k\<lparr>fault := True\<rparr>))
     | Some ow \<Rightarrow>
        let k1 = if priority_of k t < priority_of k ow
                 then snd (rt_thread_control ow (RT_THREAD_CTRL_CHANGE_PRIORITY (priority_of k t)) k)
                 else k
        in (Blocked t, (m, rt_schedule (suspend_and_arm (Pending (mtx_id m)) t (mtx_flag m) time k1))))"

definition rt_mutex_take :: "int \<Rightarrow> mutex_state \<Rightarrow> (int, tid) outcome \<times> mutex_state" where
  "rt_mutex_take time x = (case x of (m, k) \<Rightarrow>
    case rt_thread_self k of
      None \<Rightarrow> (Return RT_EOK, (m, k\<lparr>fault := True\<rparr>))
    | Some t \<Rightarrow>
       let k1 = upd_thread t (\<lambda>th. th\<lparr>t_error := RT_EOK\<rparr>) k in
       if owner m = Some t then (Return RT_EOK, (m\<lparr>hold := hold m + 1\<rparr>, k1))
       else mutex_acquire time t (m, k1))"

definition rt_mutex_take_resume :: "int \<Rightarrow> tid \<Rightarrow> mutex_state \<Rightarrow> (int, tid) outcome \<times> mutex_state" where
  "rt_mutex_take_resume time t x = (case x of (m, k) \<Rightarrow>
    if t_error (threads k t) \<noteq> RT_EOK
    then if t_error (threads k t) = - RT_EINTR then mutex_acquire time t (m, k)
         else (Return (t_error (threads k t)), (m, k))
    else (Return RT_EOK, (m, k)))"

definition rt_mutex_release :: "mutex_state \<Rightarrow> int \<times> mutex_state" where
  "rt_mutex_release x = (case x of (m, k) \<Rightarrow>
    case rt_thread_self k of
      None \<Rightarrow> (RT_EOK, (m, k\<lparr>fault := True\<rparr>))
    | Some t \<Rightarrow>
       if Some t \<noteq> owner m
       then (- RT_ERROR, (m, upd_thread t (\<lambda>th. th\<lparr>t_error := - RT_ERROR\<rparr>) k))
       else
         let m1 = m\<lparr>hold := hold m - 1\<rparr> in
         if hold m1 \<noteq> 0 then (RT_EOK, (m1, k))
         else
           let k1 = if original_priority m1 \<noteq> priority_of k t
                    then snd (rt_thread_control t (RT_THREAD_CTRL_CHANGE_PRIORITY (original_priority m1)) k)
                    else k
           in case lists k1 (Pending (mtx_id m)) of
                w # _ \<Rightarrow>
                  (RT_EOK, (m1\<lparr>owner := Some w, original_priority := priority_of k1 w, hold := hold m1 + 1\<rparr>,
                            rt_schedule (rt_ipc_list_resume (Pending (mtx_id m)) k1)))
              | [] \<Rightarrow>
                  (RT_EOK, (m1\<lparr>mtx_value := mtx_value m1 + 1, owner := None, original_priority := 0xff\<rparr>, k1)))"

definition rt_mutex_control :: "mutex_state \<Rightarrow> int \<times> mutex_state" where
  "rt_mutex_control x = (- RT_ERROR, x)"

section \<open>Changing the priority of a thread\<close>

lemma change_priority_result:
  fixes p :: nat and t :: tid
  assumes inv: "kinv k"
  defines "k' \<equiv> snd (rt_thread_control t (RT_THREAD_CTRL_CHANGE_PRIORITY p) k)"
  shows "\<And>l. wait_queue l \<Longrightarrow> lists k' l = lists k l" "stat_of k' = stat_of k"
    "priority_of k' = (priority_of k)(t := p)" "\<And>u. t_error (threads k' u) = t_error (threads k u)"
    "rt_current_thread k' = rt_current_thread k" "rt_timer_list k' = rt_timer_list k"
proof -
  let ?k1 = "set_priority t p (rt_schedule_remove_thread t k)"
  have k': "k' = (if stat_of k t = RT_THREAD_READY then rt_schedule_insert_thread t ?k1 else set_priority t p k)"
    by (simp add: k'_def)
  have sp: "threads (set_priority t p x) = (threads x)(t := (threads x t)\<lparr>current_priority := p, number_mask := push_bit p 1\<rparr>)"
    for x by (simp add: set_priority_def upd_thread_def)
  show "\<And>l. wait_queue l \<Longrightarrow> lists k' l = lists k l"
  proof -
    fix l assume l: "wait_queue l"
    have "stat_of k t = RT_THREAD_READY \<Longrightarrow> filter (\<lambda>x. x \<noteq> t) (lists k l) = lists k l"
      using not_in_wait_queue [OF inv _ l] by (intro filter_neq_id)
    moreover have "l \<noteq> Ready q" for q using l by auto
    ultimately show "lists k' l = lists k l"
      by (simp add: k' insert_thread_lists set_priority_def remove_thread_lists)
  qed
  show "stat_of k' = stat_of k"
  proof
    fix u show "stat_of k' u = stat_of k u"
      using insert_thread_stat [of t ?k1]
      by (cases "u = t") (auto simp: k' stat_of_def insert_thread_threads sp)
  qed
  show "priority_of k' = (priority_of k)(t := p)"
    "\<And>u. t_error (threads k' u) = t_error (threads k u)"
    by (auto simp: k' priority_of_def insert_thread_threads sp)
  show "rt_current_thread k' = rt_current_thread k" "rt_timer_list k' = rt_timer_list k"
    by (simp_all add: k' kframe set_priority_def)
qed

section \<open>Invariant\<close>

abbreviation mutex_waiters :: "mutex_state \<Rightarrow> tid list" where
  "mutex_waiters x \<equiv> lists (snd x) (Pending (mtx_id (fst x)))"

text \<open>
  The mutex is free with value 1, no owner and no waiters, or it has value 0 and one owner, which
  does not wait for it. (The nesting count of an owner is not bounded here: it has eight bits,
  and the 256th nested take makes it zero.)
\<close>

definition mutex_inv :: "mutex_state \<Rightarrow> bool" where
  "mutex_inv x \<longleftrightarrow> kinv (snd x) \<and>
     (mtx_flag (fst x) = RT_IPC_FLAG_FIFO \<or> mtx_flag (fst x) = RT_IPC_FLAG_PRIO) \<and>
     (case owner (fst x) of
        None \<Rightarrow> mtx_value (fst x) = 1 \<and> hold (fst x) = 0 \<and> mutex_waiters x = []
      | Some ow \<Rightarrow> mtx_value (fst x) = 0 \<and> ow \<notin> set (mutex_waiters x) \<and>
          original_priority (fst x) < RT_THREAD_PRIORITY_MAX)"

text \<open>
  Priority inheritance: the owner runs at least at the priority of every waiter. In a
  mutex of the priority discipline the queue is sorted as well.
\<close>

definition inherits :: "mutex_state \<Rightarrow> bool" where
  "inherits x \<longleftrightarrow> (\<forall>ow w. owner (fst x) = Some ow \<longrightarrow> w \<in> set (mutex_waiters x) \<longrightarrow>
     priority_of (snd x) ow \<le> priority_of (snd x) w)"

definition queue_sorted :: "mutex_state \<Rightarrow> bool" where
  "queue_sorted x \<longleftrightarrow> sorted (map (priority_of (snd x)) (mutex_waiters x))"

lemma mutex_free: "mutex_inv (m, k) \<Longrightarrow> mtx_value m > 0 \<longleftrightarrow> owner m = None"
  by (auto simp: mutex_inv_def word_gt_0 split: option.splits)

lemma ready_priority_bounded: "kinv k \<Longrightarrow> stat_of k t = RT_THREAD_READY \<Longrightarrow> priority_of k t < RT_THREAD_PRIORITY_MAX"
  using kinv_mask_ok [of "{}" k t] by (simp add: mask_ok_def priority_of_def)

lemma suspended_priority_bounded:
  "kinv k \<Longrightarrow> stat_of k t = RT_THREAD_SUSPEND \<Longrightarrow> priority_of k t < RT_THREAD_PRIORITY_MAX"
  using kinv_mask_ok [of "{}" k t] by (simp add: mask_ok_def priority_of_def)

section \<open>Taking\<close>

lemma mutex_acquire_free:
  assumes "mutex_inv (m, k)" "owner m = None" "stat_of k t = RT_THREAD_READY"
  shows "\<exists>m'. mutex_acquire time t (m, k) = (Return RT_EOK, (m', k)) \<and> mutex_inv (m', k) \<and>
    owner m' = Some t \<and> hold m' = 1 \<and> original_priority m' = priority_of k t \<and> mtx_id m' = mtx_id m \<and>
    mtx_flag m' = mtx_flag m"
  using assms ready_priority_bounded [of k t]
  by (simp add: mutex_acquire_def mutex_inv_def)

lemma mutex_acquire_busy:
  assumes inv: "mutex_inv (m, k)" and ow: "owner m = Some ow" "ow \<noteq> t"
    and rdy: "stat_of k t = RT_THREAD_READY" and time: "time \<noteq> 0"
  shows "\<exists>k'. mutex_acquire time t (m, k) = (Blocked t, (m, k')) \<and> mutex_inv (m, k') \<and>
    mutex_waiters (m, k') = enqueued (mtx_flag m) ((priority_of k)(ow := min (priority_of k t) (priority_of k ow))) t
        (mutex_waiters (m, k)) \<and>
    stat_of k' t = RT_THREAD_SUSPEND \<and> t_error (threads k' t) = t_error (threads k t) \<and>
    priority_of k' = (priority_of k)(ow := min (priority_of k t) (priority_of k ow))"
proof -
  have ki: "kinv k" and fl: "mtx_flag m = RT_IPC_FLAG_FIFO \<or> mtx_flag m = RT_IPC_FLAG_PRIO"
    and v: "mtx_value m = 0" and o: "ow \<notin> set (mutex_waiters (m, k))"
    using inv ow by (auto simp: mutex_inv_def)
  let ?prio = "(priority_of k)(ow := min (priority_of k t) (priority_of k ow))"
  let ?l = "Pending (mtx_id m)"
  define k1 where "k1 = (if priority_of k t < priority_of k ow
    then snd (rt_thread_control ow (RT_THREAD_CTRL_CHANGE_PRIORITY (priority_of k t)) k) else k)"
  note cp = change_priority_result [OF ki, where t = ow and p = "priority_of k t"]
  have k1: "kinv k1" "lists k1 ?l = lists k ?l" "stat_of k1 = stat_of k" "priority_of k1 = ?prio"
    "t_error (threads k1 t) = t_error (threads k t)"
    using ki change_priority_kinv [OF ki, of "priority_of k t" ow] cp ready_priority_bounded [OF ki rdy]
    by (auto simp: k1_def fun_eq_iff simp del: rt_thread_control.simps)
  have mb: "may_block ?l t (mtx_flag m) k1" using k1 rdy fl by (simp add: may_block_def)
  let ?k2 = "suspend_and_arm ?l t (mtx_flag m) time k1"
  note bq = blocked_queue [OF mb, of time]
  have thr: "priority_of ?k2 = priority_of k1" "t_error (threads ?k2 t) = t_error (threads k1 t)"
    using suspend_result(4) [OF k1(1), of t] rdy k1(3)
    by (simp_all add: arm_threads priority_of_def fun_eq_iff)
      (simp add: rt_thread_suspend_def kframe upd_thread_def)
  show ?thesis
  proof (intro exI [of _ "rt_schedule ?k2"] conjI)
    show "mutex_acquire time t (m, k) = (Blocked t, (m, rt_schedule ?k2))"
      using v ow time by (simp add: mutex_acquire_def k1_def Let_def)
    show "mutex_inv (m, rt_schedule ?k2)"
      using inv ow o bq(1) arm_kinv [OF mb, of time] k1(2) by (simp add: mutex_inv_def kframe)
  qed (use bq k1 thr in \<open>simp_all add: kframe stat_of_def priority_of_def fun_eq_iff\<close>)
qed

lemma enqueued_cong: "(\<And>u. u \<in> insert t (set ts) \<Longrightarrow> p u = q u) \<Longrightarrow> enqueued flag p t ts = enqueued flag q t ts"
proof -
  assume "\<And>u. u \<in> insert t (set ts) \<Longrightarrow> p u = q u"
  then have "prio_insert p t ts = prio_insert q t ts" by (induction ts) auto
  then show ?thesis by (simp add: enqueued_def)
qed

text \<open>The three ways a take can go.\<close>

lemma mutex_inv_error: "mutex_inv (m, upd_thread t (\<lambda>th. th\<lparr>t_error := e\<rparr>) k) = mutex_inv (m, k)"
  by (simp add: mutex_inv_def kinv_neutral split: option.split)

lemma mutex_inv_cong:
  "mutex_inv (m, k) \<Longrightarrow> kinv k' \<Longrightarrow> lists k' (Pending (mtx_id m)) = lists k (Pending (mtx_id m)) \<Longrightarrow>
   mutex_inv (m, k')"
  by (auto simp: mutex_inv_def split: option.splits)

lemma error_upd [simp]: "t_error (threads (upd_thread t (\<lambda>th. th\<lparr>t_error := e\<rparr>) k) t) = e"
  by (simp add: upd_thread_def)

lemma mutex_take_own:
  assumes inv: "mutex_inv (m, k)" and run: "running k t" and ow: "owner m = Some t"
  shows "\<exists>k'. rt_mutex_take time (m, k) = (Return RT_EOK, (m\<lparr>hold := hold m + 1\<rparr>, k')) \<and>
    mutex_inv (m\<lparr>hold := hold m + 1\<rparr>, k') \<and> running k' t \<and> lists k' = lists k \<and> priority_of k' = priority_of k"
  using inv run ow mutex_inv_error [of m t RT_EOK k]
  by (auto simp: rt_mutex_take_def running_def rt_thread_self_def Let_def mutex_inv_def stat_neutral)

lemma mutex_take_free:
  assumes inv: "mutex_inv (m, k)" and run: "running k t" and ow: "owner m = None"
  shows "\<exists>m' k'. rt_mutex_take time (m, k) = (Return RT_EOK, (m', k')) \<and> mutex_inv (m', k') \<and>
    owner m' = Some t \<and> hold m' = 1 \<and> original_priority m' = priority_of k t \<and>
    mtx_id m' = mtx_id m \<and> mtx_flag m' = mtx_flag m \<and> lists k' = lists k \<and> priority_of k' = priority_of k"
proof -
  let ?k1 = "upd_thread t (\<lambda>th. th\<lparr>t_error := RT_EOK\<rparr>) k"
  have "mutex_inv (m, ?k1)" "stat_of ?k1 t = RT_THREAD_READY"
    using inv run by (simp_all add: mutex_inv_error stat_neutral running_def)
  from mutex_acquire_free [OF this(1) ow this(2), of time]
  obtain m' where "mutex_acquire time t (m, ?k1) = (Return RT_EOK, (m', ?k1))" "mutex_inv (m', ?k1)"
    "owner m' = Some t" "hold m' = 1" "original_priority m' = priority_of k t" "mtx_id m' = mtx_id m"
    "mtx_flag m' = mtx_flag m"
    by auto
  then show ?thesis
    using run ow by (intro exI [of _ m'] exI [of _ ?k1])
      (simp add: rt_mutex_take_def running_def rt_thread_self_def)
qed

lemma mutex_take_busy:
  assumes inv: "mutex_inv (m, k)" and run: "running k t" and ow: "owner m = Some ow" "ow \<noteq> t" and time: "time \<noteq> 0"
  defines "prio \<equiv> (priority_of k)(ow := min (priority_of k t) (priority_of k ow))"
  shows "\<exists>k'. rt_mutex_take time (m, k) = (Blocked t, (m, k')) \<and> mutex_inv (m, k') \<and>
    mutex_waiters (m, k') = enqueued (mtx_flag m) prio t (mutex_waiters (m, k)) \<and>
    stat_of k' t = RT_THREAD_SUSPEND \<and> t_error (threads k' t) = RT_EOK \<and> priority_of k' = prio"
proof -
  let ?k1 = "upd_thread t (\<lambda>th. th\<lparr>t_error := RT_EOK\<rparr>) k"
  have "mutex_inv (m, ?k1)" "stat_of ?k1 t = RT_THREAD_READY"
    using inv run by (simp_all add: mutex_inv_error stat_neutral running_def)
  from mutex_acquire_busy [OF this(1) ow this(2) time] show ?thesis
    using run ow by (auto simp: rt_mutex_take_def running_def rt_thread_self_def prio_def)
qed

lemma mutex_take_refused:
  assumes inv: "mutex_inv (m, k)" and run: "running k t" and ow: "owner m = Some ow" "ow \<noteq> t"
  shows "\<exists>k'. rt_mutex_take 0 (m, k) = (Return (- RT_ETIMEOUT), (m, k')) \<and> mutex_inv (m, k') \<and>
    lists k' = lists k \<and> priority_of k' = priority_of k"
proof -
  let ?k1 = "upd_thread t (\<lambda>th. th\<lparr>t_error := RT_EOK\<rparr>) k"
  have "mtx_value m = 0" using inv ow by (simp add: mutex_inv_def)
  then show ?thesis
    using inv run ow
    by (simp add: rt_mutex_take_def running_def rt_thread_self_def mutex_acquire_def Let_def mutex_inv_error)
qed

section \<open>Releasing\<close>

lemma mutex_release_foreign:
  assumes "running k t" "owner m \<noteq> Some t"
  shows "rt_mutex_release (m, k) = (- RT_ERROR, (m, upd_thread t (\<lambda>th. th\<lparr>t_error := - RT_ERROR\<rparr>) k))"
  using assms by (auto simp: rt_mutex_release_def running_def rt_thread_self_def)

lemma mutex_release_nested:
  assumes "mutex_inv (m, k)" "running k t" "owner m = Some t" "hold m \<noteq> 1"
  shows "rt_mutex_release (m, k) = (RT_EOK, (m\<lparr>hold := hold m - 1\<rparr>, k)) \<and> mutex_inv (m\<lparr>hold := hold m - 1\<rparr>, k)"
  using assms by (simp add: rt_mutex_release_def running_def rt_thread_self_def mutex_inv_def Let_def)

text \<open>The owner's priority is put back before the mutex changes hands.\<close>

definition restored :: "tid \<Rightarrow> mutex_state \<Rightarrow> kernel" where
  "restored t x = (case x of (m, k) \<Rightarrow>
     if original_priority m \<noteq> priority_of k t
     then snd (rt_thread_control t (RT_THREAD_CTRL_CHANGE_PRIORITY (original_priority m)) k) else k)"

lemma restored_result:
  assumes inv: "mutex_inv (m, k)" and ow: "owner m = Some t"
  shows "kinv (restored t (m, k))" "wait_queue l \<Longrightarrow> lists (restored t (m, k)) l = lists k l"
    "priority_of (restored t (m, k)) = (priority_of k)(t := original_priority m)"
    "stat_of (restored t (m, k)) = stat_of k"
    "\<And>u. t_error (threads (restored t (m, k)) u) = t_error (threads k u)"
  using inv ow change_priority_kinv [of k "original_priority m" t]
    change_priority_result [where k = k and t = t and p = "original_priority m"]
  by (auto simp: restored_def mutex_inv_def fun_eq_iff simp del: rt_thread_control.simps)

lemma mutex_release_last:
  assumes inv: "mutex_inv (m, k)" and run: "running k t" and ow: "owner m = Some t" "hold m = 1"
    and w: "mutex_waiters (m, k) = []"
  defines "m' \<equiv> m\<lparr>hold := 0, mtx_value := 1, owner := None, original_priority := 0xff\<rparr>"
  shows "rt_mutex_release (m, k) = (RT_EOK, (m', restored t (m, k)))" "mutex_inv (m', restored t (m, k))"
  using assms restored_result(1,2) [OF inv ow(1)]
  by (auto simp: rt_mutex_release_def running_def rt_thread_self_def mutex_inv_def Let_def restored_def
      simp del: rt_thread_control.simps)

lemma mutex_release_handover:
  assumes inv: "mutex_inv (m, k)" and run: "running k t" and ow: "owner m = Some t" "hold m = 1"
    and w: "mutex_waiters (m, k) = w # ws"
  defines "m' \<equiv> m\<lparr>owner := Some w, original_priority := priority_of k w\<rparr>"
  shows "\<exists>k'. rt_mutex_release (m, k) = (RT_EOK, (m', k')) \<and> mutex_inv (m', k') \<and> mutex_waiters (m', k') = ws \<and>
    priority_of k' = (priority_of k)(t := original_priority m) \<and> stat_of k' w = RT_THREAD_READY \<and>
    t_error (threads k' w) = t_error (threads k w)"
proof -
  let ?l = "Pending (mtx_id m)" and ?k1 = "restored t (m, k)"
  note r = restored_result [OF inv ow(1)]
  have l: "lists ?k1 ?l = w # ws" using r(2) w by simp
  have tw: "t \<noteq> w" using inv ow w by (auto simp: mutex_inv_def)
  have ki: "kinv k" using inv by (simp add: mutex_inv_def)
  have d: "w \<notin> set ws" using queue_distinct [OF ki, of ?l] w by simp
  have "stat_of k w = RT_THREAD_SUSPEND" using queue_stat [OF ki, of ?l w] w by simp
  then have pw: "priority_of k w < RT_THREAD_PRIORITY_MAX" by (rule suspended_priority_bounded [OF ki])
  note q = ipc_resume_result [OF r(1), of ?l w ws]
  let ?k2 = "rt_ipc_list_resume ?l ?k1"
  have p2: "priority_of ?k2 = priority_of ?k1"
    by (simp add: rt_ipc_list_resume_def l priority_of_def resume_thread_fields fun_eq_iff)
  show ?thesis
  proof (intro exI [of _ "rt_schedule ?k2"] conjI)
    have "priority_of ?k1 w = priority_of k w" using r(3) tw by simp
    then show "rt_mutex_release (m, k) = (RT_EOK, (m', rt_schedule ?k2))"
      using run ow l by (simp add: rt_mutex_release_def running_def rt_thread_self_def Let_def restored_def m'_def
          cong: if_cong del: rt_thread_control.simps)
    show "mutex_inv (m', rt_schedule ?k2)"
      using inv ow q l d pw by (simp add: mutex_inv_def m'_def kframe)
    show "mutex_waiters (m', rt_schedule ?k2) = ws" using q l by (simp add: m'_def kframe)
    show "priority_of (rt_schedule ?k2) = (priority_of k)(t := original_priority m)"
      using p2 r(3) by (simp add: priority_of_def kframe fun_eq_iff)
    show "stat_of (rt_schedule ?k2) w = RT_THREAD_READY" "t_error (threads (rt_schedule ?k2) w) = t_error (threads k w)"
      using q l r(5) by (simp_all add: stat_of_def kframe)
  qed
qed

section \<open>Priority inheritance over histories\<close>

lemma enqueued_sorted:
  "flag = RT_IPC_FLAG_PRIO \<Longrightarrow> sorted (map prio ts) \<Longrightarrow> sorted (map prio (enqueued flag prio t ts))"
  by (simp add: enqueued_def prio_insert_sorted)

text \<open>
  The steps of a mutex: its operations by the running thread, the time-out of a waiter, and
  other activity of the kernel that leaves the queue and the priorities of owner and waiters
  alone.
\<close>

inductive mutex_reach :: "mutex_state \<Rightarrow> mutex_state \<Rightarrow> bool" where
  start: "mutex_reach x x"
| take: "\<lbrakk>mutex_reach x (m, k); running k t; rt_mutex_take time (m, k) = (r, y)\<rbrakk> \<Longrightarrow> mutex_reach x y"
| release: "\<lbrakk>mutex_reach x (m, k); running k t; rt_mutex_release (m, k) = (e, y)\<rbrakk> \<Longrightarrow> mutex_reach x y"
| timed_out: "\<lbrakk>mutex_reach x (m, k); t \<in> set (lists k (Pending (mtx_id m)));
      ThreadTimer t \<notin> set (rt_timer_list k)\<rbrakk> \<Longrightarrow> mutex_reach x (m, rt_thread_timeout t k)"
| other: "\<lbrakk>mutex_reach x (m, k); kinv k'; lists k' (Pending (mtx_id m)) = lists k (Pending (mtx_id m));
      \<forall>u. u \<in> set (lists k (Pending (mtx_id m))) \<or> owner m = Some u \<longrightarrow> priority_of k' u = priority_of k u\<rbrakk>
    \<Longrightarrow> mutex_reach x (m, k')"

text \<open>What one step keeps: ownership, and with the priority discipline inheritance.\<close>

definition mutex_good :: "mutex_state \<Rightarrow> bool" where
  "mutex_good x \<longleftrightarrow> mutex_inv x \<and>
     (mtx_flag (fst x) = RT_IPC_FLAG_PRIO \<longrightarrow> inherits x \<and> queue_sorted x)"

lemma timeout_priority: "priority_of (rt_thread_timeout t k) = priority_of k"
  by (auto simp: rt_thread_timeout_def kframe insert_thread_threads list_remove_def priority_of_def
      upd_thread_def)

lemma mutex_good_take:
  assumes good: "mutex_good (m, k)" and run: "running k t"
    and y: "rt_mutex_take time (m, k) = (r, y)"
  shows "mutex_good y"
proof -
  have inv: "mutex_inv (m, k)" using good by (simp add: mutex_good_def)
  show ?thesis
  proof (cases "owner m")
    case None
    then show ?thesis
      using mutex_take_free [OF inv run None, of time] inv y
      by (auto simp: mutex_good_def mutex_inv_def inherits_def queue_sorted_def)
  next
    case (Some ow)
    consider "ow = t" | "ow \<noteq> t" "time = 0" | "ow \<noteq> t" "time \<noteq> 0" by blast
    then show ?thesis
    proof cases
      case 1
      then show ?thesis
        using mutex_take_own [OF inv run, of time] Some y good
        by (auto simp: mutex_good_def inherits_def queue_sorted_def)
    next
      case 2
      then show ?thesis
        using mutex_take_refused [OF inv run Some] y good
        by (auto simp: mutex_good_def inherits_def queue_sorted_def)
    next
      case 3
      let ?prio = "(priority_of k)(ow := min (priority_of k t) (priority_of k ow))"
      obtain k' where k': "y = (m, k')" "mutex_inv (m, k')" "priority_of k' = ?prio"
        "mutex_waiters (m, k') = enqueued (mtx_flag m) ?prio t (mutex_waiters (m, k))"
        using mutex_take_busy [OF inv run Some 3] y by auto
      have o: "ow \<notin> set (mutex_waiters (m, k))" using inv Some by (simp add: mutex_inv_def)
      then have "map ?prio (mutex_waiters (m, k)) = map (priority_of k) (mutex_waiters (m, k))" by auto
      then have "mtx_flag m = RT_IPC_FLAG_PRIO \<Longrightarrow> sorted (map ?prio (mutex_waiters (m, k)))"
        using good by (simp only: mutex_good_def queue_sorted_def fst_conv snd_conv)
      then have "mtx_flag m = RT_IPC_FLAG_PRIO \<Longrightarrow> queue_sorted y"
        unfolding queue_sorted_def k'(1) snd_conv fst_conv using k'(3,4) by (simp only: enqueued_sorted snd_conv fst_conv)
      then show ?thesis
        using k' good o 3 Some by (auto simp: mutex_good_def inherits_def)
    qed
  qed
qed

lemma mutex_good_release:
  assumes good: "mutex_good (m, k)" and run: "running k t" and y: "rt_mutex_release (m, k) = (e, y)"
  shows "mutex_good y"
proof -
  have inv: "mutex_inv (m, k)" using good by (simp add: mutex_good_def)
  consider "owner m \<noteq> Some t" | "owner m = Some t" "hold m \<noteq> 1"
    | "owner m = Some t" "hold m = 1" "mutex_waiters (m, k) = []"
    | w ws where "owner m = Some t" "hold m = 1" "mutex_waiters (m, k) = w # ws"
    by (cases "mutex_waiters (m, k)") auto
  then show ?thesis
  proof cases
    case 1
    then show ?thesis
      using mutex_release_foreign [OF run 1] good y
      by (auto simp: mutex_good_def mutex_inv_error inherits_def queue_sorted_def)
  next
    case 2
    then show ?thesis
      using mutex_release_nested [OF inv run 2] good y
      by (auto simp: mutex_good_def inherits_def queue_sorted_def)
  next
    case 3
    note rel = mutex_release_last [OF inv run 3]
    have "mutex_waiters y = []" using rel y 3 restored_result(2) [OF inv 3(1)] by auto
    then show ?thesis
      using rel y by (auto simp: mutex_good_def inherits_def queue_sorted_def)
  next
    case (4 w ws)
    obtain m' k' where k': "y = (m', k')" "mutex_inv (m', k')" "mutex_waiters (m', k') = ws"
      "priority_of k' = (priority_of k)(t := original_priority m)" "owner m' = Some w" "mtx_flag m' = mtx_flag m"
      using mutex_release_handover [OF inv run 4] y by auto
    have t: "t \<notin> set (w # ws)" using inv 4 by (auto simp: mutex_inv_def)
    then have "map (priority_of k') (w # ws) = map (priority_of k) (w # ws)" by (auto simp: k'(4))
    then have "mtx_flag m = RT_IPC_FLAG_PRIO \<Longrightarrow> sorted (map (priority_of k') (w # ws))"
      using good 4(3) by (simp only: mutex_good_def queue_sorted_def fst_conv snd_conv)
    then show ?thesis
      using k' by (auto simp: mutex_good_def inherits_def queue_sorted_def)
  qed
qed

lemma mutex_good_timeout:
  assumes good: "mutex_good (m, k)" and t: "t \<in> set (lists k (Pending (mtx_id m)))"
    and tm: "ThreadTimer t \<notin> set (rt_timer_list k)"
  shows "mutex_good (m, rt_thread_timeout t k)"
proof -
  have inv: "kinv k" using good by (simp add: mutex_good_def mutex_inv_def)
  note l = timeout_unlinks [OF inv t]
  have "kinv (rt_thread_timeout t k)"
    using timeout_kinv [OF inv _ tm] queue_stat [OF inv _ t] by simp
  then show ?thesis
    using good l by (auto simp: mutex_good_def mutex_inv_def inherits_def queue_sorted_def timeout_priority
        sorted_filter split: option.splits)
qed

lemma mutex_reach_good: "mutex_reach x y \<Longrightarrow> mutex_good x \<Longrightarrow> mutex_good y"
proof (induction rule: mutex_reach.induct)
  case (other x m k k')
  then have "map (priority_of k') (mutex_waiters (m, k)) = map (priority_of k) (mutex_waiters (m, k))"
    by auto
  then have "queue_sorted (m, k') = queue_sorted (m, k)"
    unfolding queue_sorted_def using other by (simp only: snd_conv fst_conv)
  moreover have "inherits (m, k') = inherits (m, k)"
    using other by (auto simp: inherits_def)
  moreover have "mutex_inv (m, k')"
    using other mutex_inv_cong [of m k k'] by (simp add: mutex_good_def)
  ultimately show ?case
    using other by (simp add: mutex_good_def)
qed (auto intro: mutex_good_take mutex_good_release mutex_good_timeout)

section \<open>Nested takes and the first-come-first-served discipline\<close>

definition take_times :: "nat \<Rightarrow> mutex_state \<Rightarrow> mutex_state" where
  "take_times n x = ((\<lambda>y. snd (rt_mutex_take 0 y)) ^^ n) x"

definition release_times :: "nat \<Rightarrow> mutex_state \<Rightarrow> mutex_state" where
  "release_times n x = ((\<lambda>y. snd (rt_mutex_release y)) ^^ n) x"

lemma nested_takes:
  assumes "mutex_inv (m, k)" "running k t" "owner m = Some t" "unat (hold m) + n \<le> 255"
  shows "\<exists>k'. take_times n (m, k) = (m\<lparr>hold := hold m + of_nat n\<rparr>, k') \<and>
    mutex_inv (m\<lparr>hold := hold m + of_nat n\<rparr>, k') \<and> running k' t \<and> lists k' = lists k \<and>
    priority_of k' = priority_of k"
  using assms(4)
proof (induction n)
  case 0
  then show ?case using assms by (intro exI [of _ k]) (simp add: take_times_def)
next
  case (Suc n)
  let ?m = "m\<lparr>hold := hold m + of_nat n\<rparr>"
  obtain k' where k': "take_times n (m, k) = (?m, k')" "mutex_inv (?m, k')" "running k' t"
    "lists k' = lists k" "priority_of k' = priority_of k"
    using Suc by auto
  from mutex_take_own [OF k'(2,3), of 0] k' assms(3) show ?case
    by (auto simp: take_times_def add.assoc add.commute [of 1])
qed

lemma nested_releases:
  assumes "mutex_inv (m, k)" "running k t" "owner m = Some t" "n < unat (hold m)"
  shows "release_times n (m, k) = (m\<lparr>hold := hold m - of_nat n\<rparr>, k) \<and>
    mutex_inv (m\<lparr>hold := hold m - of_nat n\<rparr>, k)"
  using assms(4)
proof (induction n)
  case 0
  then show ?case using assms by (simp add: release_times_def)
next
  case (Suc n)
  let ?m = "m\<lparr>hold := hold m - of_nat n\<rparr>"
  have m: "release_times n (m, k) = (?m, k)" "mutex_inv (?m, k)" using Suc by auto
  have "unat (hold m) < 256" using unsigned_less [of "hold m"] by simp
  then have "unat (of_nat n :: u8) = n" using Suc by (simp add: unat_of_nat)
  then have "unat (hold m - of_nat n) = unat (hold m) - n"
    using Suc by (simp add: unat_sub_if_size)
  then have "hold ?m \<noteq> 1" using Suc by auto
  from mutex_release_nested [OF m(2) assms(2) _ this] m assms(3) show ?case
    by (simp add: release_times_def diff_diff_eq add.commute [of 1])
qed

text \<open>
  An owner that takes the mutex \<open>n\<close> more times and releases it \<open>n\<close> times
  is back where it was, as long as the 8-bit nesting counter has room.
\<close>

theorem nested_balance:
  assumes "mutex_inv (m, k)" "running k t" "owner m = Some t" "hold m \<noteq> 0" "unat (hold m) + n \<le> 255"
  shows "\<exists>k'. release_times n (take_times n (m, k)) = (m, k') \<and> lists k' = lists k \<and>
    priority_of k' = priority_of k"
proof -
  let ?m = "m\<lparr>hold := hold m + of_nat n\<rparr>"
  obtain k' where k': "take_times n (m, k) = (?m, k')" "mutex_inv (?m, k')" "running k' t"
    "lists k' = lists k" "priority_of k' = priority_of k"
    using nested_takes [OF assms(1-3,5)] by auto
  have "unat (of_nat n :: u8) = n" using assms(5) by (simp add: unat_of_nat)
  then have u: "unat (hold m + of_nat n) = unat (hold m) + n"
    using assms(5) unat_add_lem [of "hold m" "of_nat n"] by simp
  have "n < unat (hold ?m)" using u assms(4) by (simp add: unat_gt_0)
  from nested_releases [OF k'(2,3) _ this] k' assms(3) show ?thesis by auto
qed

text \<open>
  With the arrival discipline the hand-over of \<^verbatim>\<open>rt_mutex_release\<close> loses the
  inheritance: the new owner keeps its own priority although a waiter outranks it.
\<close>

theorem fifo_handover_inversion:
  assumes inv: "mutex_inv (m, k)" and run: "running k t" and ow: "owner m = Some t" "hold m = 1"
    and w: "mutex_waiters (m, k) = w1 # w2 # ws" and p: "priority_of k w2 < priority_of k w1"
  shows "\<not> inherits (snd (rt_mutex_release (m, k)))"
proof -
  obtain m' k' where k': "snd (rt_mutex_release (m, k)) = (m', k')" "mutex_waiters (m', k') = w2 # ws"
    "priority_of k' = (priority_of k)(t := original_priority m)" "owner m' = Some w1"
    using mutex_release_handover [OF inv run ow w] by auto
  have "t \<noteq> w1" "t \<noteq> w2" using inv ow w by (auto simp: mutex_inv_def)
  then show ?thesis using k' p by (auto simp: inherits_def)
qed

section \<open>Inheritance from the start\<close>

lemma mutex_reach_fixed: "mutex_reach x y \<Longrightarrow> mtx_id (fst y) = mtx_id (fst x) \<and> mtx_flag (fst y) = mtx_flag (fst x)"
proof (induction rule: mutex_reach.induct)
  case (take x m k t time r y)
  then show ?case
    by (auto simp: rt_mutex_take_def mutex_acquire_def rt_thread_self_def Let_def split: if_splits option.splits)
next
  case (release x m k t e y)
  then show ?case
    by (auto simp: rt_mutex_release_def rt_thread_self_def Let_def simp del: rt_thread_control.simps
        split: if_splits option.splits list.splits)
qed simp_all

lemma mutex_init_good:
  assumes "kinv k" "lists k (Pending n) = []" "flag = RT_IPC_FLAG_FIFO \<or> flag = RT_IPC_FLAG_PRIO"
  shows "mutex_good (snd (rt_mutex_init n name flag k))"
proof -
  have "(lists k)(Pending n := []) = lists k" using assms(2) by (simp add: fun_upd_idem)
  then show ?thesis
    using assms by (simp add: rt_mutex_init_def mutex_object_def rt_ipc_object_init_def mutex_good_def mutex_inv_def
        inherits_def queue_sorted_def upd_objects_def)
qed

text \<open>
  C3: along every history of the takes, releases and time-outs of one mutex of the priority
  discipline, nobody waits while it is free; its owner never waits for it and never runs below a
  waiter, and the waiters queue in the order of their priorities. Whatever else happens in
  between leaves its queue and the priorities of its owner and waiters alone: the thread
  that releases another mutex breaks it (second_release_inverts), and so does a call that
  sets the priority of a thread.
\<close>

theorem mutex_owner_inherits:
  assumes "kinv k0" "lists k0 (Pending n) = []"
    and "mutex_reach (snd (rt_mutex_init n name RT_IPC_FLAG_PRIO k0)) (m, k)"
  shows "(case owner m of
      None \<Rightarrow> mtx_value m = 1 \<and> lists k (Pending n) = []
    | Some ow \<Rightarrow> mtx_value m = 0 \<and> ow \<notin> set (lists k (Pending n)) \<and>
        (\<forall>w\<in>set (lists k (Pending n)). priority_of k ow \<le> priority_of k w)) \<and>
    sorted (map (priority_of k) (lists k (Pending n)))"
proof -
  have "mutex_good (m, k)" using mutex_reach_good [OF assms(3) mutex_init_good] assms(1,2) by simp
  moreover have "mtx_id m = n" "mtx_flag m = RT_IPC_FLAG_PRIO"
    using mutex_reach_fixed [OF assms(3)] by (simp_all add: rt_mutex_init_def mutex_object_def)
  ultimately show ?thesis
    by (auto simp: mutex_good_def mutex_inv_def inherits_def queue_sorted_def split: option.splits)
qed

section \<open>Two mutexes\<close>

text \<open>
  A thread that owns two mutexes and releases the second falls back to the priority it had
  when it took that one, although a waiter of the first outranks it.
\<close>

theorem second_release_inverts:
  assumes "mutex_inv (m, k)" "running k t" "owner m = Some t" "hold m = 1" "lists k (Pending (mtx_id m)) = []"
    and "mutex_inv (m', k)" "owner m' = Some t" "w \<in> set (lists k (Pending (mtx_id m')))"
    and "priority_of k w < original_priority m"
  shows "\<not> inherits (m', snd (snd (rt_mutex_release (m, k))))"
proof -
  note r = restored_result [OF assms(1,3)]
  have "w \<noteq> t" using assms(6-8) by (auto simp: mutex_inv_def)
  then show ?thesis
    using mutex_release_last(1) [OF assms(1-4)] assms(5,7-9) r(2,3) by (auto simp: inherits_def)
qed

section \<open>A release that forgets to schedule\<close>

text \<open>
  When the last waiter has timed out, the release takes the inherited priority back and
  returns without \<^verbatim>\<open>rt_schedule\<close>: the thread runs on although a ready thread now
  outranks it.
\<close>

theorem release_runs_on:
  assumes "mutex_inv (m, k)" "running k t" "owner m = Some t" "hold m = 1" "lists k (Pending (mtx_id m)) = []"
    and "u \<noteq> t" "stat_of k u = RT_THREAD_READY" "priority_of k u < original_priority m"
  shows "\<exists>m' k'. rt_mutex_release (m, k) = (RT_EOK, (m', k')) \<and> rt_current_thread k' = Some t \<and>
    stat_of k' u = RT_THREAD_READY \<and> priority_of k' u < priority_of k' t"
proof -
  note r = restored_result [OF assms(1,3)]
  have "rt_current_thread (restored t (m, k)) = rt_current_thread k"
    using change_priority_result(5) [of k t "original_priority m"] assms(1)
    by (auto simp: restored_def mutex_inv_def simp del: rt_thread_control.simps)
  then show ?thesis
    using mutex_release_last(1) [OF assms(1-4)] assms r(3,4) by (auto simp: running_def)
qed

section \<open>Instances\<close>

text \<open>Thread 2 takes the mutex, then thread 1 runs and waits for it: thread 2 is raised to priority 5.\<close>

lemma contended:
  "\<exists>m k. mutex_reach (snd (rt_mutex_init 0 ''m'' RT_IPC_FLAG_PRIO two_ready)) (m, k) \<and> owner m = Some 2 \<and>
     lists k (Pending 0) = [1] \<and> priority_of k 2 = 5"
proof -
  let ?x0 = "snd (rt_mutex_init 0 ''m'' RT_IPC_FLAG_PRIO two_ready)"
  obtain m0 k0 where x0: "?x0 = (m0, k0)" by (cases ?x0)
  have good: "mutex_good (m0, k0)"
    using mutex_init_good [of two_ready 0 RT_IPC_FLAG_PRIO "''m''"] two_ready_kinv by (simp add: x0 two_ready_simps)
  have f: "owner m0 = None" "mtx_id m0 = 0" "mtx_flag m0 = RT_IPC_FLAG_PRIO" "stat_of k0 = stat_of two_ready"
    "priority_of k0 = priority_of two_ready" "lists k0 (Pending 0) = []" "kinv k0"
    using x0 good by (auto simp: rt_mutex_init_def mutex_object_def rt_ipc_object_init_def upd_objects_def stat_of_def
        priority_of_def mutex_good_def mutex_inv_def)
  let ?k1 = "k0\<lparr>rt_current_thread := Some 2\<rparr>"
  have r1: "mutex_reach ?x0 (m0, ?k1)"
    unfolding x0 by (rule other [OF start]) (use f in \<open>simp_all add: priority_of_def\<close>)
  have i1: "mutex_inv (m0, ?k1)" "running ?k1 2"
  proof -
    show "mutex_inv (m0, ?k1)" using mutex_reach_good [OF r1] good x0 by (simp add: mutex_good_def)
    have "stat_of ?k1 2 = stat_of k0 2" by (simp add: stat_of_def)
    then show "running ?k1 2" using f(4) by (simp add: running_def two_ready_stat)
  qed
  obtain m2 k2 where 2: "rt_mutex_take 0 (m0, ?k1) = (Return RT_EOK, (m2, k2))" "mutex_inv (m2, k2)" "owner m2 = Some 2"
    "mtx_id m2 = 0" "mtx_flag m2 = RT_IPC_FLAG_PRIO" "lists k2 = lists ?k1" "priority_of k2 = priority_of ?k1"
    using mutex_take_free [OF i1 f(1), of 0] f by auto
  have r2: "mutex_reach ?x0 (m2, k2)" by (rule take [OF r1 i1(2) 2(1)])
  let ?k3 = "k2\<lparr>rt_current_thread := Some 1\<rparr>"
  have r3: "mutex_reach ?x0 (m2, ?k3)"
    by (rule other [OF r2]) (use 2(2) in \<open>simp_all add: mutex_inv_def, simp add: priority_of_def\<close>)
  have cur: "priority_of (k\<lparr>rt_current_thread := c\<rparr>) = priority_of k" for k :: kernel and c
    by (simp add: priority_of_def fun_eq_iff)
  have p: "priority_of ?k3 = priority_of two_ready" using 2(7) f(5) by (simp add: cur)
  have "1 \<in> set (lists k2 (Ready 5))"
    using 2(6) x0 by (auto simp: rt_mutex_init_def rt_ipc_object_init_def upd_objects_def two_ready_lists)
  then have "stat_of k2 1 = RT_THREAD_READY" using 2(2) by (auto simp: mutex_inv_def kinv_x_def sched_inv_x_def)
  then have i3: "mutex_inv (m2, ?k3)" "running ?k3 1"
    using 2(2) by (simp_all add: running_def stat_of_def mutex_inv_def split: option.splits)
  obtain k4 where 4: "rt_mutex_take (- 1) (m2, ?k3) = (Blocked 1, (m2, k4))"
    "mutex_waiters (m2, k4) = enqueued (mtx_flag m2) ((priority_of ?k3)(2 := min (priority_of ?k3 1) (priority_of ?k3 2))) 1
       (mutex_waiters (m2, ?k3))"
    "priority_of k4 = (priority_of ?k3)(2 := min (priority_of ?k3 1) (priority_of ?k3 2))"
    using mutex_take_busy [OF i3 2(3), of "- 1"] by auto
  have "mutex_reach ?x0 (m2, k4)" by (rule take [OF r3 i3(2) 4(1)])
  moreover have "lists k4 (Pending 0) = [1]"
    using 4(2) 2(4-6) f(6) by (simp add: enqueued_def)
  ultimately show ?thesis
    using 4(3) 2(3) p by (intro exI [of _ m2] exI [of _ k4]) (simp add: two_ready_priority)
qed

lemma mutex_owner_inherits_witness:
  "\<exists>(m :: rt_mutex) (k :: kernel). owner m = Some 2 \<and> lists k (Pending 0) = [1] \<and>
     (\<forall>w\<in>set (lists k (Pending 0)). priority_of k 2 \<le> priority_of k w)"
proof -
  obtain m k where "mutex_reach (snd (rt_mutex_init 0 ''m'' RT_IPC_FLAG_PRIO two_ready)) (m, k)" "owner m = Some 2"
    "lists k (Pending 0) = [1]"
    using contended by blast
  then show ?thesis
    using mutex_owner_inherits [OF two_ready_kinv, of 0 "''m''" m k]
    by (intro exI [of _ m] exI [of _ k]) (simp add: two_ready_lists)
qed

definition held_by_1 :: "u8 \<Rightarrow> nat \<Rightarrow> rt_mutex" where
  "held_by_1 flag p = \<lparr>mtx_id = 0, mtx_flag = flag, mtx_value = 0, owner = Some 1, original_priority = p, hold = 1\<rparr>"

lemma held_inv: "p < 32 \<Longrightarrow> flag = RT_IPC_FLAG_FIFO \<or> flag = RT_IPC_FLAG_PRIO \<Longrightarrow>
  mutex_inv (held_by_1 flag p, two_ready) \<and> mutex_inv (held_by_1 flag p, two_waiting)"
  using two_ready_kinv two_waiting_kinv
  by (simp add: mutex_inv_def held_by_1_def two_ready_lists two_waiting_lists RT_THREAD_PRIORITY_MAX_def)

lemma nested_balance_witness:
  "\<exists>k'. release_times 254 (take_times 254 (held_by_1 RT_IPC_FLAG_PRIO 5, two_ready)) = (held_by_1 RT_IPC_FLAG_PRIO 5, k')"
  using nested_balance [of "held_by_1 RT_IPC_FLAG_PRIO 5" two_ready 1 254] held_inv [of 5 RT_IPC_FLAG_PRIO]
  by (auto simp: running_def two_ready_simps held_by_1_def)

lemma second_release_inverts_witness:
  "\<not> inherits (held_by_1 RT_IPC_FLAG_PRIO 5, snd (snd (rt_mutex_release
      ((held_by_1 RT_IPC_FLAG_PRIO 20)\<lparr>mtx_id := 1\<rparr>, two_waiting))))"
proof -
  have "mutex_inv ((held_by_1 RT_IPC_FLAG_PRIO 20)\<lparr>mtx_id := 1\<rparr>, two_waiting)"
    using two_waiting_kinv by (simp add: mutex_inv_def held_by_1_def two_waiting_lists RT_THREAD_PRIORITY_MAX_def)
  then show ?thesis
    by (rule second_release_inverts [where t = 1 and w = 2])
      (use held_inv [of 5 RT_IPC_FLAG_PRIO] in \<open>simp_all add: running_def two_waiting_stat two_waiting_lists
        two_waiting_fields two_waiting_priority held_by_1_def\<close>)
qed

lemma fifo_handover_inversion_witness:
  "\<not> inherits (snd (rt_mutex_release (held_by_1 RT_IPC_FLAG_FIFO 5, two_waiting)))"
  by (rule fifo_handover_inversion [of _ _ 1 2 3 "[]"])
    (use held_inv [of 5 RT_IPC_FLAG_FIFO] in \<open>simp_all add: running_def two_waiting_stat two_waiting_lists
      two_waiting_fields two_waiting_priority held_by_1_def\<close>)

lemma release_runs_on_witness:
  "\<exists>m' k'. rt_mutex_release (held_by_1 RT_IPC_FLAG_PRIO 20, two_ready) = (RT_EOK, (m', k')) \<and>
    rt_current_thread k' = Some 1 \<and> stat_of k' 2 = RT_THREAD_READY \<and> priority_of k' 2 < priority_of k' 1"
  by (rule release_runs_on)
    (use held_inv [of 20 RT_IPC_FLAG_PRIO] in \<open>simp_all add: running_def two_ready_simps held_by_1_def\<close>)

end
