(* ===== verification/Event.thy ===== *)
theory Event
  imports Semaphore
begin

unbundle bit_operations_syntax

text \<open>
  The event set of \<^verbatim>\<open>src/ipc.c\<close>: 32 event bits; a thread waits for all or
  for one of the bits it names and may clear the bits it receives. \<open>rt_event_recv\<close> returns
  its error and what it stores through \<^verbatim>\<open>recved\<close>, if anything.
\<close>

section \<open>The code\<close>

abbreviation (input) RT_EVENT_FLAG_AND :: u8 where "RT_EVENT_FLAG_AND \<equiv> 0x01"
abbreviation (input) RT_EVENT_FLAG_OR :: u8 where "RT_EVENT_FLAG_OR \<equiv> 0x02"
abbreviation (input) RT_EVENT_FLAG_CLEAR :: u8 where "RT_EVENT_FLAG_CLEAR \<equiv> 0x04"

record rt_event =
  ev_id :: nat
  ev_flag :: u8
  ev_set :: u32

type_synonym event_state = "rt_event \<times> kernel"

definition event_object :: "nat \<Rightarrow> u8 \<Rightarrow> rt_event" where
  "event_object n flag = \<lparr>ev_id = n, ev_flag = flag, ev_set = 0\<rparr>"

definition rt_event_init :: "nat \<Rightarrow> string \<Rightarrow> u8 \<Rightarrow> kernel \<Rightarrow> int \<times> event_state" where
  "rt_event_init n name flag k =
    (RT_EOK, (event_object n flag,
      rt_ipc_object_init n (upd_objects (rt_object_init (IpcObj n) RT_Object_Class_Event name) k)))"

definition rt_event_detach :: "event_state \<Rightarrow> (int \<times> kernel) option" where
  "rt_event_detach x = (case x of (e, k) \<Rightarrow>
     map_option (\<lambda>k1. (RT_EOK, upd_objects (rt_object_detach (IpcObj (ev_id e))) k1))
       (rt_ipc_list_resume_all (Pending (ev_id e)) k))"

definition rt_event_create :: "nat option \<Rightarrow> string \<Rightarrow> u8 \<Rightarrow> kernel \<Rightarrow> rt_event option \<times> kernel" where
  "rt_event_create addr name flag k =
    (case rt_object_allocate (map_option IpcObj addr) RT_Object_Class_Event name (objects k) of
       (Some (IpcObj n), st) \<Rightarrow> (Some (event_object n flag), rt_ipc_object_init n (k\<lparr>objects := st\<rparr>))
     | (_, st) \<Rightarrow> (None, k\<lparr>objects := st\<rparr>))"

definition rt_event_delete :: "event_state \<Rightarrow> (int \<times> kernel) option" where
  "rt_event_delete x = (case x of (e, k) \<Rightarrow>
     map_option (\<lambda>k1. (RT_EOK, upd_objects (rt_object_delete (IpcObj (ev_id e))) k1))
       (rt_ipc_list_resume_all (Pending (ev_id e)) k))"

text \<open>
  The loop of \<^verbatim>\<open>rt_event_send\<close> over the suspended threads. It steps to the next
  node before it resumes the thread of the current one, so it visits the threads that were
  in the queue when it began.
\<close>

fun wake_waiters :: "tid list \<Rightarrow> u32 \<Rightarrow> kernel \<Rightarrow> u32 \<times> kernel \<times> bool" where
  "wake_waiters [] bits k = (bits, k, False)"
| "wake_waiters (t # ts) bits k =
    (let th = threads k t;
         (status, k1) =
           (if event_info th AND RT_EVENT_FLAG_AND \<noteq> 0
            then (event_set th AND bits = event_set th, k)
            else if event_info th AND RT_EVENT_FLAG_OR \<noteq> 0
            then if event_set th AND bits \<noteq> 0
                 then (True, upd_thread t (\<lambda>th. th\<lparr>event_set := event_set th AND bits\<rparr>) k)
                 else (False, k)
            else (False, k))
     in if status
        then let set1 = if event_info th AND RT_EVENT_FLAG_CLEAR \<noteq> 0
                        then bits AND NOT (event_set (threads k1 t)) else bits;
                 (set2, k2, _) = wake_waiters ts set1 (snd (rt_thread_resume t k1))
             in (set2, k2, True)
        else wake_waiters ts bits k1)"

definition rt_event_send :: "u32 \<Rightarrow> event_state \<Rightarrow> int \<times> event_state" where
  "rt_event_send bits x = (case x of (e, k) \<Rightarrow>
    if bits = 0 then (- RT_ERROR, (e, k))
    else let (set1, k1, need_schedule) = wake_waiters (lists k (Pending (ev_id e))) (ev_set e OR bits) k
         in (RT_EOK, (e\<lparr>ev_set := set1\<rparr>, if need_schedule then rt_schedule k1 else k1)))"

definition rt_event_recv ::
  "u32 \<Rightarrow> u8 \<Rightarrow> int \<Rightarrow> event_state \<Rightarrow> (int \<times> u32 option, tid) outcome \<times> event_state" where
  "rt_event_recv bits option timeout x = (case x of (e, k) \<Rightarrow>
    if bits = 0 then (Return (- RT_ERROR, None), (e, k))
    else case rt_thread_self k of
      None \<Rightarrow> (Return (RT_EOK, None), (e, k\<lparr>fault := True\<rparr>))
    | Some t \<Rightarrow>
       let k1 = upd_thread t (\<lambda>th. th\<lparr>t_error := RT_EOK\<rparr>) k;
           status = (if option AND RT_EVENT_FLAG_AND \<noteq> 0 then ev_set e AND bits = bits
                     else option AND RT_EVENT_FLAG_OR \<noteq> 0 \<and> ev_set e AND bits \<noteq> 0)
       in if status
          then (Return (RT_EOK, Some (ev_set e AND bits)),
                (if option AND RT_EVENT_FLAG_CLEAR \<noteq> 0 then e\<lparr>ev_set := ev_set e AND NOT bits\<rparr> else e, k1))
          else if timeout = 0
          then (Return (- RT_ETIMEOUT, None), (e, upd_thread t (\<lambda>th. th\<lparr>t_error := - RT_ETIMEOUT\<rparr>) k1))
          else (Blocked t, (e, rt_schedule (suspend_and_arm (Pending (ev_id e)) t (ev_flag e) timeout
                 (upd_thread t (\<lambda>th. th\<lparr>event_set := bits, event_info := option\<rparr>) k1)))))"

definition rt_event_recv_resume :: "tid \<Rightarrow> event_state \<Rightarrow> int \<times> u32 option" where
  "rt_event_recv_resume t x = (case x of (e, k) \<Rightarrow>
    if t_error (threads k t) \<noteq> RT_EOK then (t_error (threads k t), None)
    else (t_error (threads k t), Some (event_set (threads k t))))"

text \<open>\<open>reset\<close>: the command is \<open>RT_IPC_CMD_RESET\<close>.\<close>

definition rt_event_control :: "bool \<Rightarrow> event_state \<Rightarrow> (int \<times> event_state) option" where
  "rt_event_control reset x = (case x of (e, k) \<Rightarrow>
    if reset
    then map_option (\<lambda>k1. (RT_EOK, (e\<lparr>ev_set := 0\<rparr>, rt_schedule k1)))
           (rt_ipc_list_resume_all (Pending (ev_id e)) k)
    else Some (- RT_ERROR, (e, k)))"

section \<open>What a waiter asks for\<close>

definition satisfied :: "u8 \<Rightarrow> u32 \<Rightarrow> u32 \<Rightarrow> bool" where
  "satisfied info want bits \<longleftrightarrow>
     (if info AND RT_EVENT_FLAG_AND \<noteq> 0 then want AND bits = want
      else info AND RT_EVENT_FLAG_OR \<noteq> 0 \<and> want AND bits \<noteq> 0)"

definition delivered :: "u8 \<Rightarrow> u32 \<Rightarrow> u32 \<Rightarrow> u32" where
  "delivered info want bits = (if info AND RT_EVENT_FLAG_AND \<noteq> 0 then want else want AND bits)"

text \<open>The bits left for the others.\<close>

definition left_over :: "u8 \<Rightarrow> u32 \<Rightarrow> u32 \<Rightarrow> u32" where
  "left_over info want bits =
    (if info AND RT_EVENT_FLAG_CLEAR \<noteq> 0 then bits AND NOT (delivered info want bits) else bits)"

text \<open>
  Specification of a send over the requests of the waiters in queue order: the bits left,
  the threads served with what they get, and the threads that keep waiting.
\<close>

type_synonym request = "tid \<times> u8 \<times> u32"

fun serve :: "request list \<Rightarrow> u32 \<Rightarrow> u32 \<times> (tid \<times> u32) list \<times> tid list" where
  "serve [] bits = (bits, [], [])"
| "serve ((t, info, want) # rs) bits =
    (if satisfied info want bits
     then case serve rs (left_over info want bits) of
            (bits', woken, kept) \<Rightarrow> (bits', (t, delivered info want bits) # woken, kept)
     else case serve rs bits of (bits', woken, kept) \<Rightarrow> (bits', woken, t # kept))"

definition request_of :: "kernel \<Rightarrow> tid \<Rightarrow> request" where
  "request_of k t = (t, event_info (threads k t), event_set (threads k t))"

text \<open>\<open>sub s s'\<close>: the bits of \<open>s\<close> are among those of \<open>s'\<close>.\<close>

definition sub :: "u32 \<Rightarrow> u32 \<Rightarrow> bool" where
  "sub s s' \<longleftrightarrow> s AND s' = s"

lemma u32_bits: "a = b \<longleftrightarrow> (\<forall>n. bit a n = bit b n)" for a b :: u32
  by (auto intro: bit_eqI)

lemma sub_bit: "sub s s' \<longleftrightarrow> (\<forall>n. bit s n \<longrightarrow> bit s' n)"
  by (auto simp: sub_def u32_bits bit_and_iff)

lemma sub_refl [simp]: "sub s s"
  by (simp add: sub_bit)

lemma sub_trans: "sub a b \<Longrightarrow> sub b c \<Longrightarrow> sub a c"
  by (simp add: sub_bit)

lemma left_over_sub: "sub (left_over info want bits) bits"
  by (auto simp: left_over_def sub_bit bit_and_iff)

lemma and_zero_bit: "a AND b = (0 :: u32) \<longleftrightarrow> (\<forall>n. \<not> (bit a n \<and> bit b n))"
  by (auto simp: u32_bits bit_and_iff)

lemma satisfied_mono: "satisfied info want s \<Longrightarrow> sub s s' \<Longrightarrow> satisfied info want s'"
  by (auto simp: satisfied_def and_zero_bit sub_bit sub_def [of want, symmetric, unfolded sub_bit]) blast

lemma serve_sub: "serve rs s = (s', woken, kept) \<Longrightarrow> sub s' s"
proof (induction rs arbitrary: s s' woken kept)
  case (Cons r rs)
  obtain u info want where r: "r = (u, info, want)" by (cases r)
  show ?case
  proof (cases "satisfied info want s")
    case True
    then obtain w1 where "serve rs (left_over info want s) = (s', w1, kept)"
      using Cons.prems by (auto simp: r split: prod.splits)
    from Cons.IH [OF this] show ?thesis by (rule sub_trans [OF _ left_over_sub])
  next
    case False
    then obtain k1 where "serve rs s = (s', woken, k1)"
      using Cons.prems by (auto simp: r split: prod.splits)
    then show ?thesis by (rule Cons.IH)
  qed
qed simp

text \<open>Nobody who could be served keeps waiting, and who is served gets what was asked for.\<close>

lemma serve_kept:
  "serve rs s = (s', woken, kept) \<Longrightarrow> t \<in> set kept \<Longrightarrow>
   \<exists>info want. (t, info, want) \<in> set rs \<and> \<not> satisfied info want s'"
proof (induction rs arbitrary: s s' woken kept)
  case (Cons r rs)
  obtain u info want where r: "r = (u, info, want)" by (cases r)
  show ?case
  proof (cases "satisfied info want s")
    case True
    then show ?thesis
      using Cons r by (force split: prod.splits)
  next
    case False
    obtain w1 k1 where s: "serve rs s = (s', w1, k1)" "woken = w1" "kept = u # k1"
      using Cons.prems(1) False by (auto simp: r split: prod.splits)
    have "\<not> satisfied info want s'"
      using False satisfied_mono [OF _ serve_sub [OF s(1)]] by blast
    then show ?thesis
      using Cons.IH [OF s(1)] Cons.prems(2) s(3) by (auto simp: r)
  qed
qed simp

lemma serve_woken:
  "serve rs s = (s', woken, kept) \<Longrightarrow> (t, got) \<in> set woken \<Longrightarrow>
   \<exists>info want bits. (t, info, want) \<in> set rs \<and> sub bits s \<and> satisfied info want bits \<and>
     got = delivered info want bits"
proof (induction rs arbitrary: s s' woken kept)
  case (Cons r rs)
  obtain u info want where r: "r = (u, info, want)" by (cases r)
  show ?case
  proof (cases "satisfied info want s")
    case True
    obtain w1 where s: "serve rs (left_over info want s) = (s', w1, kept)"
      "woken = (u, delivered info want s) # w1"
      using Cons.prems(1) True by (auto simp: r split: prod.splits)
    show ?thesis
    proof (cases "(t, got) \<in> set w1")
      case True
      then show ?thesis
        using Cons.IH [OF s(1)] sub_trans [OF _ left_over_sub] by (fastforce simp: r)
    next
      case False
      then have "t = u" "got = delivered info want s" using Cons.prems(2) s(2) by auto
      then show ?thesis
        using \<open>satisfied info want s\<close> by (intro exI [of _ info] exI [of _ want] exI [of _ s]) (simp add: r)
    qed
  next
    case False
    then show ?thesis using Cons by (fastforce simp: r split: prod.splits)
  qed
qed simp

text \<open>What is delivered to a satisfied waiter is a non-empty part of what it asked for.\<close>

lemma delivered_sub: "satisfied info want s \<Longrightarrow> sub (delivered info want s) want"
  by (auto simp: delivered_def sub_bit bit_and_iff)

section \<open>The loop of the code serves the requests\<close>

lemma request_upd_other: "u \<noteq> t \<Longrightarrow> request_of (upd_thread t f k) u = request_of k u"
  by (simp add: request_of_def upd_thread_def)

lemma request_resume: "request_of (snd (rt_thread_resume t k)) u = request_of k u"
  by (simp add: request_of_def resume_thread_fields)

lemma wake_step:
  assumes sat: "satisfied (event_info (threads k t)) (event_set (threads k t)) s"
  defines "d \<equiv> delivered (event_info (threads k t)) (event_set (threads k t)) s"
    and "s1 \<equiv> left_over (event_info (threads k t)) (event_set (threads k t)) s"
  shows "\<exists>k1. wake_waiters (t # ts) s k =
      (case wake_waiters ts s1 (snd (rt_thread_resume t k1)) of (s', k', _) \<Rightarrow> (s', k', True)) \<and>
    event_set (threads k1 t) = d \<and> (\<forall>u. u \<noteq> t \<longrightarrow> request_of k1 u = request_of k u) \<and>
    stat_of k1 = stat_of k \<and> lists k1 = lists k \<and> (\<forall>u. t_error (threads k1 u) = t_error (threads k u)) \<and>
    (kinv k \<longrightarrow> kinv k1)"
proof (cases "event_info (threads k t) AND RT_EVENT_FLAG_AND \<noteq> 0")
  case True
  then show ?thesis
    using sat by (intro exI [of _ k]) (simp add: satisfied_def d_def s1_def delivered_def left_over_def Let_def)
next
  case False
  let ?k1 = "upd_thread t (\<lambda>th. th\<lparr>event_set := event_set (threads k t) AND s\<rparr>) k"
  have "upd_thread t (\<lambda>th. th\<lparr>event_set := event_set th AND s\<rparr>) k = ?k1"
    by (simp add: upd_thread_def)
  moreover have "event_set (threads ?k1 t) = event_set (threads k t) AND s"
    "\<forall>u. t_error (threads ?k1 u) = t_error (threads k u)"
    by (simp_all add: upd_thread_def)
  ultimately show ?thesis
    using sat False
    by (intro exI [of _ ?k1])
      (simp add: satisfied_def d_def s1_def delivered_def left_over_def Let_def request_upd_other kinv_neutral
        stat_neutral)
qed

lemma wake_waiters_serves:
  assumes "kinv k" and q: "wait_queue l" and "lists k l = old @ ts"
    and "serve (map (request_of k) ts) s = (s', woken, kept)"
  shows "\<exists>k'. wake_waiters ts s k = (s', k', woken \<noteq> []) \<and> kinv k' \<and> lists k' l = old @ kept \<and>
    (\<forall>t got. (t, got) \<in> set woken \<longrightarrow> stat_of k' t = RT_THREAD_READY \<and> event_set (threads k' t) = got) \<and>
    (\<forall>t. t \<notin> fst ` set woken \<longrightarrow> stat_of k' t = stat_of k t \<and> request_of k' t = request_of k t) \<and>
    (\<forall>t. t_error (threads k' t) = t_error (threads k t))"
  using assms(1,3,4)
proof (induction ts arbitrary: old k s s' woken kept)
  case (Cons t ts)
  let ?i = "event_info (threads k t)" and ?w = "event_set (threads k t)"
  have d: "distinct (old @ t # ts)" using queue_distinct [OF Cons.prems(1), of l] Cons.prems(2) by simp
  have rt: "request_of k t = (t, ?i, ?w)" by (simp add: request_of_def)
  show ?case
  proof (cases "satisfied ?i ?w s")
    case True
    let ?s1 = "left_over ?i ?w s"
    obtain w1 where w1: "serve (map (request_of k) ts) ?s1 = (s', w1, kept)" "woken = (t, delivered ?i ?w s) # w1"
      using Cons.prems(3) True by (auto simp: rt split: prod.splits)
    obtain k1 where k1: "wake_waiters (t # ts) s k =
        (case wake_waiters ts ?s1 (snd (rt_thread_resume t k1)) of (s', k', _) \<Rightarrow> (s', k', True))"
      "event_set (threads k1 t) = delivered ?i ?w s" "\<forall>u. u \<noteq> t \<longrightarrow> request_of k1 u = request_of k u"
      "stat_of k1 = stat_of k" "lists k1 = lists k" "\<forall>u. t_error (threads k1 u) = t_error (threads k u)" "kinv k1"
      using wake_step [OF True] Cons.prems(1) by blast
    let ?k2 = "snd (rt_thread_resume t k1)"
    have t: "t \<in> set (lists k1 l)" using k1(5) Cons.prems(2) by simp
    have l2: "lists ?k2 l = old @ ts"
      using resume_queued_lists [OF k1(7) q t] k1(5) Cons.prems(2) d q by auto
    have "map (request_of ?k2) ts = map (request_of k) ts"
      using d k1(3) by (auto simp: request_resume)
    then have sv: "serve (map (request_of ?k2) ts) ?s1 = (s', w1, kept)" using w1(1) by (simp only:)
    obtain k' where k': "wake_waiters ts ?s1 ?k2 = (s', k', w1 \<noteq> [])" "kinv k'" "lists k' l = old @ kept"
      "\<forall>t got. (t, got) \<in> set w1 \<longrightarrow> stat_of k' t = RT_THREAD_READY \<and> event_set (threads k' t) = got"
      "\<forall>t. t \<notin> fst ` set w1 \<longrightarrow> stat_of k' t = stat_of ?k2 t \<and> request_of k' t = request_of ?k2 t"
      "\<forall>t. t_error (threads k' t) = t_error (threads ?k2 t)"
      using Cons.IH [OF resume_kinv [OF k1(7)] l2 sv] by blast
    have "t \<notin> fst ` set w1"
      using serve_woken [OF w1(1)] d by (fastforce simp: request_of_def)
    then have me: "stat_of k' t = RT_THREAD_READY" "event_set (threads k' t) = delivered ?i ?w s"
      using k'(5) resume_result(1) [OF k1(7) queue_stat [OF k1(7) q t]] k1(2)
      by (simp_all add: request_of_def resume_thread_fields)
    show ?thesis
      using k1 k' me w1(2)
      by (intro exI [of _ k']) (auto simp: resume_stat_other request_resume resume_thread_fields)
  next
    case False
    obtain k1 where sv: "serve (map (request_of k) ts) s = (s', woken, k1)" "kept = t # k1"
      using Cons.prems(3) False by (auto simp: rt split: prod.splits)
    have "wake_waiters (t # ts) s k = wake_waiters ts s k"
      using False by (auto simp: satisfied_def Let_def)
    then show ?thesis
      using Cons.IH [OF Cons.prems(1) _ sv(1), of "old @ [t]"] Cons.prems(2) sv(2) by simp
  qed
qed simp

section \<open>Invariant\<close>

abbreviation event_waiters :: "event_state \<Rightarrow> tid list" where
  "event_waiters x \<equiv> lists (snd x) (Pending (ev_id (fst x)))"

text \<open>No thread waits for events that have arrived.\<close>

definition event_inv :: "event_state \<Rightarrow> bool" where
  "event_inv x \<longleftrightarrow> kinv (snd x) \<and> (ev_flag (fst x) = RT_IPC_FLAG_FIFO \<or> ev_flag (fst x) = RT_IPC_FLAG_PRIO) \<and>
     (\<forall>t\<in>set (event_waiters x). case request_of (snd x) t of (_, info, want) \<Rightarrow>
        \<not> satisfied info want (ev_set (fst x)))"

text \<open>
  C6: \<^verbatim>\<open>rt_event_send\<close> does what one pass over the waiters in queue order says: it
  makes ready exactly the satisfied threads, each of which receives the bits it is due, leaves
  the others queued in order, and afterwards no queued thread is satisfied by what is left.
\<close>

theorem event_send_serves:
  assumes inv: "event_inv (e, k)" and nz: "bits \<noteq> 0"
    and sv: "serve (map (request_of k) (event_waiters (e, k))) (ev_set e OR bits) = (bits', woken, kept)"
  shows "\<exists>k'. rt_event_send bits (e, k) = (RT_EOK, (e\<lparr>ev_set := bits'\<rparr>, k')) \<and>
    event_inv (e\<lparr>ev_set := bits'\<rparr>, k') \<and> event_waiters (e, k') = kept \<and>
    (\<forall>t got. (t, got) \<in> set woken \<longrightarrow> stat_of k' t = RT_THREAD_READY \<and>
       rt_event_recv_resume t (e, k') = (if t_error (threads k t) = RT_EOK then (RT_EOK, Some got)
         else (t_error (threads k t), None)))"
proof -
  have ki: "kinv k" using inv by (simp add: event_inv_def)
  obtain k' where k': "wake_waiters (event_waiters (e, k)) (ev_set e OR bits) k = (bits', k', woken \<noteq> [])"
    "kinv k'" "event_waiters (e, k') = kept"
    "\<forall>t got. (t, got) \<in> set woken \<longrightarrow> stat_of k' t = RT_THREAD_READY \<and> event_set (threads k' t) = got"
    "\<forall>t. t \<notin> fst ` set woken \<longrightarrow> stat_of k' t = stat_of k t \<and> request_of k' t = request_of k t"
    "\<forall>t. t_error (threads k' t) = t_error (threads k t)"
    using wake_waiters_serves [OF ki _ _ sv, of "Pending (ev_id e)" "[]"] by auto
  let ?k2 = "if woken \<noteq> [] then rt_schedule k' else k'"
  have k2: "kinv ?k2" "lists ?k2 = lists k'" "threads ?k2 = threads k'" using k'(2) by (auto simp: kframe)
  have "\<not> satisfied info want bits'" if t: "t \<in> set kept" and r: "request_of ?k2 t = (u, info, want)" for t u info want
  proof -
    have "stat_of k' t = RT_THREAD_SUSPEND"
      using queue_stat [OF k'(2), of "Pending (ev_id e)" t] k'(3) t by simp
    then have "t \<notin> fst ` set woken" using k'(4) by (auto simp: image_iff)
    then have "request_of ?k2 t = request_of k t" using k'(5) k2(3) by (simp add: request_of_def)
    moreover obtain i w where "(t, i, w) \<in> set (map (request_of k) (event_waiters (e, k)))" "\<not> satisfied i w bits'"
      using serve_kept [OF sv t] by blast
    ultimately show ?thesis using r by (auto simp: request_of_def)
  qed
  then have "event_inv (e\<lparr>ev_set := bits'\<rparr>, ?k2)"
    using inv k2 k'(3) by (auto simp: event_inv_def)
  then show ?thesis
    using k'(1,3,4,6) nz k2
    by (intro exI [of _ ?k2]) (auto simp: rt_event_send_def rt_event_recv_resume_def stat_of_def)
qed

section \<open>Receiving\<close>

lemma request_upd_error: "request_of (upd_thread t (\<lambda>th. th\<lparr>t_error := e\<rparr>) k) = request_of k"
  by (auto simp: request_of_def upd_thread_def)

lemma event_recv_served:
  assumes inv: "event_inv (e, k)" and run: "running k t" and nz: "bits \<noteq> 0"
    and sat: "satisfied option bits (ev_set e)"
  shows "\<exists>e' k'. rt_event_recv bits option timeout (e, k) =
      (Return (RT_EOK, Some (ev_set e AND bits)), (e', k')) \<and> event_inv (e', k') \<and>
    ev_set e' = (if option AND RT_EVENT_FLAG_CLEAR \<noteq> 0 then ev_set e AND NOT bits else ev_set e)"
proof -
  let ?k1 = "upd_thread t (\<lambda>th. th\<lparr>t_error := RT_EOK\<rparr>) k"
  let ?e = "if option AND RT_EVENT_FLAG_CLEAR \<noteq> 0 then e\<lparr>ev_set := ev_set e AND NOT bits\<rparr> else e"
  have ok: "if option AND RT_EVENT_FLAG_AND \<noteq> 0 then ev_set e AND bits = bits
      else option AND RT_EVENT_FLAG_OR \<noteq> 0 \<and> ev_set e AND bits \<noteq> 0"
    using sat by (simp only: satisfied_def and.commute [of bits "ev_set e"])
  have "sub (ev_set ?e) (ev_set e)" by (simp add: sub_bit bit_and_iff)
  then have "\<not> satisfied i w (ev_set e) \<Longrightarrow> \<not> satisfied i w (ev_set ?e)" for i w
    using satisfied_mono by blast
  then have "event_inv (?e, ?k1)"
    using inv by (fastforce simp: event_inv_def kinv_neutral request_upd_error)
  then show ?thesis
    using run nz ok
    by (intro exI [of _ ?e] exI [of _ ?k1]) (simp add: rt_event_recv_def running_def rt_thread_self_def Let_def)
qed

lemma event_recv_wait:
  assumes inv: "event_inv (e, k)" and run: "running k t" and nz: "bits \<noteq> 0"
    and unsat: "\<not> satisfied option bits (ev_set e)" and time: "timeout \<noteq> 0"
  shows "\<exists>k'. rt_event_recv bits option timeout (e, k) = (Blocked t, (e, k')) \<and> event_inv (e, k') \<and>
    event_waiters (e, k') = enqueued (ev_flag e) (priority_of k) t (event_waiters (e, k)) \<and>
    request_of k' t = (t, option, bits) \<and> t_error (threads k' t) = RT_EOK"
proof -
  let ?k1 = "upd_thread t (\<lambda>th. th\<lparr>event_set := bits, event_info := option\<rparr>)
      (upd_thread t (\<lambda>th. th\<lparr>t_error := RT_EOK\<rparr>) k)"
  let ?l = "Pending (ev_id e)"
  let ?k2 = "rt_schedule (suspend_and_arm ?l t (ev_flag e) timeout ?k1)"
  have bad: "\<not> (if option AND RT_EVENT_FLAG_AND \<noteq> 0 then ev_set e AND bits = bits
      else option AND RT_EVENT_FLAG_OR \<noteq> 0 \<and> ev_set e AND bits \<noteq> 0)"
    using unsat by (simp only: satisfied_def and.commute [of bits "ev_set e"]) (simp split: if_splits)
  have mb: "may_block ?l t (ev_flag e) ?k1"
    using inv run by (simp add: may_block_def event_inv_def running_def kinv_neutral stat_neutral)
  have pr: "priority_of ?k1 = priority_of k" by (auto simp: priority_of_def upd_thread_def)
  have ws: "event_waiters (e, ?k2) = enqueued (ev_flag e) (priority_of k) t (event_waiters (e, k))"
    using blocked_queue(1) [OF mb] by (simp add: kframe pr)
  have fields: "event_set (threads ?k2 u) = event_set (threads ?k1 u)"
    "event_info (threads ?k2 u) = event_info (threads ?k1 u)" "t_error (threads ?k2 u) = t_error (threads ?k1 u)" for u
    by (auto simp: kframe arm_threads rt_thread_suspend_def upd_thread_def)
  have rt: "request_of ?k2 t = (t, option, bits)" "t_error (threads ?k2 t) = RT_EOK"
    by (simp_all add: request_of_def fields) (simp_all add: upd_thread_def)
  have ro: "request_of ?k2 u = request_of k u" if "u \<noteq> t" for u
    using that by (simp add: request_of_def fields) (simp add: upd_thread_def)
  have "event_inv (e, ?k2)"
    unfolding event_inv_def
  proof (intro conjI ballI)
    fix u assume "u \<in> set (event_waiters (e, ?k2))"
    then show "case request_of (snd (e, ?k2)) u of (_, info, want) \<Rightarrow> \<not> satisfied info want (ev_set (fst (e, ?k2)))"
      using inv unsat rt ro [of u] ws by (cases "u = t") (auto simp: event_inv_def)
  qed (use inv arm_kinv [OF mb] in \<open>simp_all add: event_inv_def\<close>)
  then show ?thesis
    using run nz bad time ws rt
    by (intro exI [of _ ?k2]) (simp add: rt_event_recv_def running_def rt_thread_self_def Let_def)
qed

text \<open>
  A receive decides on the bits present: when they satisfy the request it returns them at once
  and clears exactly those asked for if told to; when they do not it queues the thread, as the
  discipline of the event orders, with its request recorded and the event unchanged. Either way
  nobody satisfied is left waiting.
\<close>

theorem event_recv_decides:
  assumes "event_inv (e, k)" "running k t" "bits \<noteq> 0" "timeout \<noteq> 0"
  shows "\<exists>e' k'. event_inv (e', k') \<and>
    (if satisfied option bits (ev_set e)
     then rt_event_recv bits option timeout (e, k) = (Return (RT_EOK, Some (ev_set e AND bits)), (e', k')) \<and>
       ev_set e' = (if option AND RT_EVENT_FLAG_CLEAR \<noteq> 0 then ev_set e AND NOT bits else ev_set e)
     else rt_event_recv bits option timeout (e, k) = (Blocked t, (e', k')) \<and> e' = e \<and>
       event_waiters (e, k') = enqueued (ev_flag e) (priority_of k) t (event_waiters (e, k)) \<and>
       request_of k' t = (t, option, bits))"
proof (cases "satisfied option bits (ev_set e)")
  case True
  then show ?thesis using event_recv_served [OF assms(1-3) True, of timeout] by auto
next
  case False
  then show ?thesis using event_recv_wait [OF assms(1-3) False assms(4)] by auto
qed

section \<open>An instance\<close>

text \<open>Threads 2 and 3 wait for bits 1 and 2 together and for either; bit 2 serves the second of them.\<close>

definition asked :: kernel where
  "asked = upd_thread 2 (\<lambda>th. th\<lparr>event_set := 3, event_info := RT_EVENT_FLAG_AND\<rparr>)
     (upd_thread 3 (\<lambda>th. th\<lparr>event_set := 3, event_info := 6\<rparr>) two_waiting)"

lemma asked_inv: "event_inv (event_object 0 RT_IPC_FLAG_PRIO, asked)"
proof -
  have "kinv asked" using two_waiting_kinv by (simp add: asked_def kinv_neutral)
  then show ?thesis
    by (simp add: event_inv_def event_object_def asked_def two_waiting_lists request_of_def upd_thread_def satisfied_def)
qed

lemma event_send_serves_witness:
  "\<exists>k'. rt_event_send 2 (event_object 0 RT_IPC_FLAG_PRIO, asked) = (RT_EOK, (event_object 0 RT_IPC_FLAG_PRIO, k')) \<and>
    lists k' (Pending 0) = [2] \<and> rt_event_recv_resume 3 (event_object 0 RT_IPC_FLAG_PRIO, k') = (RT_EOK, Some 2)"
proof -
  let ?e = "event_object 0 RT_IPC_FLAG_PRIO"
  have e: "?e\<lparr>ev_set := 0\<rparr> = ?e" by (simp add: event_object_def)
  have w: "event_waiters (?e, asked) = [2, 3]" "t_error (threads asked 3) = RT_EOK"
    by (simp_all add: asked_def upd_thread_def two_waiting_lists event_object_def)
      (simp add: two_waiting_def waiting_at_def sample_defs)
  have "serve (map (request_of asked) (event_waiters (?e, asked))) (ev_set ?e OR 2) = (0, [(3, 2)], [2])"
    unfolding w by (simp add: request_of_def asked_def upd_thread_def event_object_def satisfied_def delivered_def left_over_def)
  from event_send_serves [OF asked_inv _ this] e w show ?thesis by (auto simp: event_object_def)
qed

lemma event_recv_decides_witness:
  "\<exists>k'. rt_event_recv 8 RT_EVENT_FLAG_AND (- 1) (event_object 0 RT_IPC_FLAG_PRIO, asked) =
      (Blocked 1, (event_object 0 RT_IPC_FLAG_PRIO, k')) \<and> lists k' (Pending 0) = [1, 2, 3]"
proof -
  have "running asked 1"
    by (simp add: running_def asked_def upd_thread_def two_waiting_fields stat_of_def)
      (simp add: two_waiting_def ready_at_def blank_thread_def)
  moreover have "event_waiters (event_object 0 RT_IPC_FLAG_PRIO, asked) = [2, 3]"
    "priority_of asked 1 = 5" "priority_of asked 2 = 9" "priority_of asked 3 = 7"
    by (simp_all add: asked_def upd_thread_def two_waiting_lists event_object_def priority_of_def)
      (simp_all add: two_waiting_def waiting_at_def ready_at_def blank_thread_def)
  ultimately show ?thesis
    using event_recv_decides [OF asked_inv, of 1 8 "- 1" RT_EVENT_FLAG_AND]
    by (auto simp: event_object_def satisfied_def enqueued_def)
qed

end
