(* ===== verification/Fifo.thy ===== *)
theory Fifo
  imports Prelude
begin

text \<open>
  The contract of a bounded first-in first-out queue. The ring buffer of the device
  framework and the mailbox and message queue of the kernel all promise it; what a
  client may conclude from it is proved here once, over any run of operations.
\<close>

datatype 'a fifo_op = Put 'a | Get

datatype 'a fifo_reply = Accepted | Rejected | Got 'a | Nothing

fun fifo_run ::
  "('a \<Rightarrow> 's \<Rightarrow> 's option) \<Rightarrow> ('s \<Rightarrow> ('a \<times> 's) option) \<Rightarrow> 'a fifo_op list \<Rightarrow> 's \<Rightarrow> 'a fifo_reply list \<times> 's"
where
  "fifo_run put get [] s = ([], s)"
| "fifo_run put get (Put x # ops) s =
    (case put x s of
      None \<Rightarrow> (let (rs, s') = fifo_run put get ops s in (Rejected # rs, s'))
    | Some t \<Rightarrow> (let (rs, s') = fifo_run put get ops t in (Accepted # rs, s')))"
| "fifo_run put get (Get # ops) s =
    (case get s of
      None \<Rightarrow> (let (rs, s') = fifo_run put get ops s in (Nothing # rs, s'))
    | Some (x, t) \<Rightarrow> (let (rs, s') = fifo_run put get ops t in (Got x # rs, s')))"

text \<open>The abstract queue: a list with a capacity.\<close>

definition spec_put :: "nat \<Rightarrow> 'a \<Rightarrow> 'a list \<Rightarrow> 'a list option" where
  "spec_put c x q = (if length q < c then Some (q @ [x]) else None)"

definition spec_get :: "'a list \<Rightarrow> ('a \<times> 'a list) option" where
  "spec_get q = (case q of [] \<Rightarrow> None | x # xs \<Rightarrow> Some (x, xs))"

lemma spec_put_simps [simp]:
  "length q < c \<Longrightarrow> spec_put c x q = Some (q @ [x])"
  "\<not> length q < c \<Longrightarrow> spec_put c x q = None"
  by (simp_all add: spec_put_def)

lemma spec_get_simps [simp]: "spec_get [] = None" "spec_get (x # q) = Some (x, q)"
  by (simp_all add: spec_get_def)

fun accepted :: "'a fifo_op list \<Rightarrow> 'a fifo_reply list \<Rightarrow> 'a list" where
  "accepted (Put x # ops) (Accepted # rs) = x # accepted ops rs"
| "accepted (_ # ops) (_ # rs) = accepted ops rs"
| "accepted _ _ = []"

fun delivered :: "'a fifo_reply list \<Rightarrow> 'a list" where
  "delivered (Got x # rs) = x # delivered rs"
| "delivered (_ # rs) = delivered rs"
| "delivered [] = []"

lemma spec_run_order:
  "fifo_run (spec_put c) spec_get ops q = (rs, q') \<Longrightarrow>
   q @ accepted ops rs = delivered rs @ q'"
proof (induction ops arbitrary: q rs)
  case Nil
  then show ?case by simp
next
  case (Cons a ops)
  show ?case
  proof (cases a)
    case (Put x)
    then show ?thesis
      using Cons.prems Cons.IH
      by (cases "length q < c") (fastforce split: prod.splits)+
  next
    case Get
    then show ?thesis
      using Cons.prems Cons.IH
      by (cases q) (fastforce split: prod.splits)+
  qed
qed

locale bounded_fifo =
  fixes inv :: "'s \<Rightarrow> bool"
    and items :: "'s \<Rightarrow> 'a list"
    and cap :: "'s \<Rightarrow> nat"
    and put :: "'a \<Rightarrow> 's \<Rightarrow> 's option"
    and get :: "'s \<Rightarrow> ('a \<times> 's) option"
  assumes put_full: "inv s \<Longrightarrow> cap s \<le> length (items s) \<Longrightarrow> put x s = None"
    and put_ok: "inv s \<Longrightarrow> length (items s) < cap s \<Longrightarrow>
      \<exists>t. put x s = Some t \<and> inv t \<and> items t = items s @ [x] \<and> cap t = cap s"
    and get_empty: "inv s \<Longrightarrow> items s = [] \<Longrightarrow> get s = None"
    and get_ok: "inv s \<Longrightarrow> items s = x # xs \<Longrightarrow>
      \<exists>t. get s = Some (x, t) \<and> inv t \<and> items t = xs \<and> cap t = cap s"
    and bounded: "inv s \<Longrightarrow> length (items s) \<le> cap s"
begin

lemma put_refines:
  assumes "inv s"
  shows "map_option items (put x s) = spec_put (cap s) x (items s)"
    and "put x s = Some t \<Longrightarrow> inv t \<and> cap t = cap s"
  using assms put_full [of s x] put_ok [of s x]
  by (cases "length (items s) < cap s"; auto simp: spec_put_def not_less)+

lemma get_refines:
  assumes "inv s"
  shows "map_option (\<lambda>(x, t). (x, items t)) (get s) = spec_get (items s)"
    and "get s = Some (x, t) \<Longrightarrow> inv t \<and> cap t = cap s"
  using assms get_empty [of s] get_ok [of s]
  by (auto simp: spec_get_def split: list.splits)
    (cases "items s"; auto)+

lemma run_refines:
  "inv s \<Longrightarrow> fifo_run put get ops s = (rs, s') \<Longrightarrow>
   fifo_run (spec_put (cap s)) spec_get ops (items s) = (rs, items s') \<and> inv s' \<and> cap s' = cap s"
proof (induction ops arbitrary: s rs)
  case Nil
  then show ?case by simp
next
  case (Cons a ops)
  show ?case
  proof (cases a)
    case (Put x)
    show ?thesis
    proof (cases "put x s")
      case None
      then have "spec_put (cap s) x (items s) = None"
        using put_refines(1) [OF Cons.prems(1), of x] by simp
      then show ?thesis
        using Cons Put None by (auto split: prod.splits)
    next
      case (Some t)
      then have "spec_put (cap s) x (items s) = Some (items t)" and "inv t" and "cap t = cap s"
        using put_refines(1) [OF Cons.prems(1), of x] put_refines(2) [OF Cons.prems(1) Some] by auto
      then show ?thesis
        using Cons.prems Cons.IH [of t] Put Some by (fastforce split: prod.splits)
    qed
  next
    case Get
    show ?thesis
    proof (cases "get s")
      case None
      then have "spec_get (items s) = None"
        using get_refines(1) [OF Cons.prems(1)] by simp
      then show ?thesis
        using Cons Get None by (auto split: prod.splits)
    next
      case (Some p)
      then obtain x t where p: "get s = Some (x, t)" by (cases p) auto
      then have "spec_get (items s) = Some (x, items t)" and "inv t" and "cap t = cap s"
        using get_refines(1) [OF Cons.prems(1)] get_refines(2) [OF Cons.prems(1) p] by auto
      then show ?thesis
        using Cons.prems Cons.IH [of t] Get p by (fastforce split: prod.splits)
    qed
  qed
qed

lemma run_order:
  "inv s \<Longrightarrow> fifo_run put get ops s = (rs, s') \<Longrightarrow>
   items s @ accepted ops rs = delivered rs @ items s'"
  using run_refines spec_run_order by metis

end

end
