(* ===== verification/Mailbox.thy ===== *)
theory Mailbox
  imports Semaphore Fifo
begin

unbundle bit_operations_syntax

text \<open>
  The mailbox of \<^verbatim>\<open>src/ipc.c\<close>: a ring of 32-bit mails with a queue of waiting
  receivers and a queue of waiting senders. A call that waits loops: \<open>mb_send_loop\<close> and
  \<open>mb_recv_loop\<close> are the code from the test of the \<^verbatim>\<open>while\<close> on, and a
  \<open>Blocked\<close> result carries the locals the loop needs. The 16-bit counters are natural
  numbers, reduced where the code increments them.
\<close>

section \<open>The code\<close>

record rt_mailbox =
  mb_id :: nat
  mb_flag :: u8
  msg_pool :: "u32 list"
  mb_size :: nat
  mb_entry :: nat
  mb_in_offset :: nat
  mb_out_offset :: nat

type_synonym mb_state = "rt_mailbox \<times> kernel"

definition mailbox_object :: "nat \<Rightarrow> u32 list \<Rightarrow> nat \<Rightarrow> u8 \<Rightarrow> rt_mailbox" where
  "mailbox_object n pool sz flag =
    \<lparr>mb_id = n, mb_flag = flag, msg_pool = pool, mb_size = sz mod 65536, mb_entry = 0,
     mb_in_offset = 0, mb_out_offset = 0\<rparr>"

definition senders_init :: "nat \<Rightarrow> kernel \<Rightarrow> kernel" where
  "senders_init n k = k\<lparr>lists := (lists k)(Senders n := [])\<rparr>"

definition rt_mb_init :: "nat \<Rightarrow> string \<Rightarrow> u32 list \<Rightarrow> nat \<Rightarrow> u8 \<Rightarrow> kernel \<Rightarrow> int \<times> mb_state" where
  "rt_mb_init n name msgpool sz flag k =
    (RT_EOK, (mailbox_object n msgpool sz flag,
      senders_init n (rt_ipc_object_init n (upd_objects (rt_object_init (IpcObj n) RT_Object_Class_MailBox name) k))))"

definition resume_both :: "nat \<Rightarrow> kernel \<Rightarrow> kernel option" where
  "resume_both n k = Option.bind (rt_ipc_list_resume_all (Pending n) k) (rt_ipc_list_resume_all (Senders n))"

definition rt_mb_detach :: "mb_state \<Rightarrow> (int \<times> kernel) option" where
  "rt_mb_detach x = (case x of (m, k) \<Rightarrow>
     map_option (\<lambda>k1. (RT_EOK, upd_objects (rt_object_detach (IpcObj (mb_id m))) k1)) (resume_both (mb_id m) k))"

text \<open>\<open>addr\<close> and \<open>pool\<close> are the results of the two allocations.\<close>

definition rt_mb_create ::
  "nat option \<Rightarrow> u32 list option \<Rightarrow> string \<Rightarrow> nat \<Rightarrow> u8 \<Rightarrow> kernel \<Rightarrow> rt_mailbox option \<times> kernel" where
  "rt_mb_create addr pool name sz flag k =
    (case rt_object_allocate (map_option IpcObj addr) RT_Object_Class_MailBox name (objects k) of
       (Some (IpcObj n), st) \<Rightarrow>
         let k1 = rt_ipc_object_init n (k\<lparr>objects := st\<rparr>) in
         (case pool of
            None \<Rightarrow> (None, upd_objects (rt_object_delete (IpcObj n)) k1)
          | Some p \<Rightarrow> (Some (mailbox_object n p sz flag), senders_init n k1))
     | (_, st) \<Rightarrow> (None, k\<lparr>objects := st\<rparr>))"

definition rt_mb_delete :: "mb_state \<Rightarrow> (int \<times> kernel) option" where
  "rt_mb_delete x = (case x of (m, k) \<Rightarrow>
     map_option (\<lambda>k1. (RT_EOK, upd_objects (rt_object_delete (IpcObj (mb_id m))) k1)) (resume_both (mb_id m) k))"

text \<open>The mail goes in at \<^verbatim>\<open>in_offset\<close> and out at \<^verbatim>\<open>out_offset\<close>.\<close>

definition mb_put :: "u32 \<Rightarrow> rt_mailbox \<Rightarrow> rt_mailbox" where
  "mb_put value m =
    m\<lparr>msg_pool := (msg_pool m)[mb_in_offset m := value],
      mb_in_offset := (let i = (mb_in_offset m + 1) mod 65536 in if mb_size m \<le> i then 0 else i),
      mb_entry := (mb_entry m + 1) mod 65536\<rparr>"

definition mb_get :: "rt_mailbox \<Rightarrow> u32 \<times> rt_mailbox" where
  "mb_get m =
    (msg_pool m ! mb_out_offset m,
     m\<lparr>mb_out_offset := (let i = (mb_out_offset m + 1) mod 65536 in if mb_size m \<le> i then 0 else i),
       mb_entry := (mb_entry m + 65535) mod 65536\<rparr>)"

text \<open>What a waiting call keeps: the thread, the time left and the tick it started to wait.\<close>

record mb_wait =
  w_thread :: tid
  w_timeout :: int
  w_tick :: u32

definition wait_locals :: "tid \<Rightarrow> int \<Rightarrow> u32 \<Rightarrow> kernel \<Rightarrow> mb_wait" where
  "wait_locals t timeout tick_delta k =
    \<lparr>w_thread = t, w_timeout = timeout, w_tick = if timeout > 0 then rt_tick_get k else tick_delta\<rparr>"

text \<open>The time left after waking: signed minus unsigned, in 32 bits, not below zero.\<close>

definition time_left :: "mb_wait \<Rightarrow> kernel \<Rightarrow> int" where
  "time_left w k =
    (if w_timeout w > 0
     then let timeout = wrap32 (w_timeout w - uint (rt_tick_get k - w_tick w)) in if timeout < 0 then 0 else timeout
     else w_timeout w)"

definition tick_left :: "mb_wait \<Rightarrow> kernel \<Rightarrow> u32" where
  "tick_left w k = (if w_timeout w > 0 then rt_tick_get k - w_tick w else w_tick w)"

definition set_error :: "tid \<Rightarrow> int \<Rightarrow> kernel \<Rightarrow> kernel" where
  "set_error t e k = upd_thread t (\<lambda>th. th\<lparr>t_error := e\<rparr>) k"

definition mb_send_loop ::
  "u32 \<Rightarrow> int \<Rightarrow> u32 \<Rightarrow> tid option \<Rightarrow> mb_state \<Rightarrow> (int, mb_wait) outcome \<times> mb_state" where
  "mb_send_loop value timeout tick_delta thread x = (case x of (m, k) \<Rightarrow>
    if mb_entry m = mb_size m
    then case thread of
        None \<Rightarrow> (Return (- RT_EFULL), (m, k\<lparr>fault := True\<rparr>))
      | Some t \<Rightarrow>
         let k1 = set_error t RT_EOK k in
         if timeout = 0 then (Return (- RT_EFULL), (m, k1))
         else (Blocked (wait_locals t timeout tick_delta k1),
               (m, rt_schedule (suspend_and_arm (Senders (mb_id m)) t (mb_flag m) timeout k1)))
    else let m1 = mb_put value m in
         if lists k (Pending (mb_id m)) \<noteq> []
         then (Return RT_EOK, (m1, rt_schedule (rt_ipc_list_resume (Pending (mb_id m)) k)))
         else (Return RT_EOK, (m1, k)))"

definition rt_mb_send_wait :: "u32 \<Rightarrow> int \<Rightarrow> mb_state \<Rightarrow> (int, mb_wait) outcome \<times> mb_state" where
  "rt_mb_send_wait value timeout x = (case x of (m, k) \<Rightarrow>
    if mb_entry m = mb_size m \<and> timeout = 0 then (Return (- RT_EFULL), (m, k))
    else mb_send_loop value timeout 0 (rt_thread_self k) (m, k))"

definition rt_mb_send_resume :: "u32 \<Rightarrow> mb_wait \<Rightarrow> mb_state \<Rightarrow> (int, mb_wait) outcome \<times> mb_state" where
  "rt_mb_send_resume value w x = (case x of (m, k) \<Rightarrow>
    if t_error (threads k (w_thread w)) \<noteq> RT_EOK then (Return (t_error (threads k (w_thread w))), (m, k))
    else mb_send_loop value (time_left w k) (tick_left w k) (Some (w_thread w)) (m, k))"

definition rt_mb_send :: "u32 \<Rightarrow> mb_state \<Rightarrow> (int, mb_wait) outcome \<times> mb_state" where
  "rt_mb_send value x = rt_mb_send_wait value 0 x"

definition mb_recv_loop ::
  "int \<Rightarrow> u32 \<Rightarrow> tid option \<Rightarrow> mb_state \<Rightarrow> (int \<times> u32 option, mb_wait) outcome \<times> mb_state" where
  "mb_recv_loop timeout tick_delta thread x = (case x of (m, k) \<Rightarrow>
    if mb_entry m = 0
    then case thread of
        None \<Rightarrow> (Return (- RT_ETIMEOUT, None), (m, k\<lparr>fault := True\<rparr>))
      | Some t \<Rightarrow>
         let k1 = set_error t RT_EOK k in
         if timeout = 0 then (Return (- RT_ETIMEOUT, None), (m, set_error t (- RT_ETIMEOUT) k1))
         else (Blocked (wait_locals t timeout tick_delta k1),
               (m, rt_schedule (suspend_and_arm (Pending (mb_id m)) t (mb_flag m) timeout k1)))
    else let (value, m1) = mb_get m in
         if lists k (Senders (mb_id m)) \<noteq> []
         then (Return (RT_EOK, Some value), (m1, rt_schedule (rt_ipc_list_resume (Senders (mb_id m)) k)))
         else (Return (RT_EOK, Some value), (m1, k)))"

definition rt_mb_recv :: "int \<Rightarrow> mb_state \<Rightarrow> (int \<times> u32 option, mb_wait) outcome \<times> mb_state" where
  "rt_mb_recv timeout x = (case x of (m, k) \<Rightarrow>
    if mb_entry m = 0 \<and> timeout = 0 then (Return (- RT_ETIMEOUT, None), (m, k))
    else mb_recv_loop timeout 0 (rt_thread_self k) (m, k))"

definition rt_mb_recv_resume :: "mb_wait \<Rightarrow> mb_state \<Rightarrow> (int \<times> u32 option, mb_wait) outcome \<times> mb_state" where
  "rt_mb_recv_resume w x = (case x of (m, k) \<Rightarrow>
    if t_error (threads k (w_thread w)) \<noteq> RT_EOK
    then (Return (t_error (threads k (w_thread w)), None), (m, k))
    else mb_recv_loop (time_left w k) (tick_left w k) (Some (w_thread w)) (m, k))"

definition rt_mb_control :: "bool \<Rightarrow> mb_state \<Rightarrow> (int \<times> mb_state) option" where
  "rt_mb_control reset x = (case x of (m, k) \<Rightarrow>
    if reset
    then map_option (\<lambda>k1. (RT_EOK, (m\<lparr>mb_entry := 0, mb_in_offset := 0, mb_out_offset := 0\<rparr>, rt_schedule k1)))
           (resume_both (mb_id m) k)
    else Some (- RT_ERROR, (m, k)))"

section \<open>The ring of mails\<close>

definition mb_wf :: "rt_mailbox \<Rightarrow> bool" where
  "mb_wf m \<longleftrightarrow> 0 < mb_size m \<and> mb_size m < 65536 \<and> length (msg_pool m) = mb_size m \<and>
     mb_in_offset m < mb_size m \<and> mb_out_offset m < mb_size m \<and> mb_entry m \<le> mb_size m \<and>
     mb_in_offset m = (mb_out_offset m + mb_entry m) mod mb_size m"

definition mails :: "rt_mailbox \<Rightarrow> u32 list" where
  "mails m = ring_items (msg_pool m) (mb_out_offset m) (mb_entry m)"

lemma length_mails [simp]: "length (mails m) = mb_entry m"
  by (simp add: mails_def)

lemma mb_put_fields [simp]: "mb_id (mb_put v m) = mb_id m" "mb_flag (mb_put v m) = mb_flag m"
  "mb_size (mb_put v m) = mb_size m"
  by (simp_all add: mb_put_def)

lemma mb_get_fields [simp]: "mb_id (snd (mb_get m)) = mb_id m" "mb_flag (snd (mb_get m)) = mb_flag m"
  "mb_size (snd (mb_get m)) = mb_size m"
  by (simp_all add: mb_get_def)

lemma mb_put_mails:
  assumes wf: "mb_wf m" and room: "mb_entry m < mb_size m"
  shows "mb_wf (mb_put v m)" "mails (mb_put v m) = mails m @ [v]"
proof -
  have st: "(let i = (mb_in_offset m + 1) mod 65536 in if mb_size m \<le> i then 0 else i) = Suc (mb_in_offset m) mod mb_size m"
    using wf by (intro ring_step) (auto simp: mb_wf_def)
  have e: "(mb_entry m + 1) mod 65536 = Suc (mb_entry m)" using wf room by (simp add: mb_wf_def)
  have put: "mb_put v m = m\<lparr>msg_pool := (msg_pool m)[mb_in_offset m := v],
      mb_in_offset := Suc (mb_in_offset m) mod mb_size m, mb_entry := Suc (mb_entry m)\<rparr>"
    unfolding mb_put_def st e ..
  show "mb_wf (mb_put v m)"
    using wf room by (auto simp: mb_wf_def put mod_simps)
  show "mails (mb_put v m) = mails m @ [v]"
    using wf room ring_items_put [of "mb_out_offset m" "msg_pool m" "mb_entry m" v]
    by (simp add: mails_def put mb_wf_def)
qed

lemma mb_get_mails:
  assumes wf: "mb_wf m" and some: "mb_entry m \<noteq> 0"
  shows "mb_wf (snd (mb_get m))" "mails m = fst (mb_get m) # mails (snd (mb_get m))"
proof -
  have st: "(let i = (mb_out_offset m + 1) mod 65536 in if mb_size m \<le> i then 0 else i) = Suc (mb_out_offset m) mod mb_size m"
    using wf by (intro ring_step) (auto simp: mb_wf_def)
  have e: "(mb_entry m + 65535) mod 65536 = mb_entry m - 1" using wf some by (auto simp: mb_wf_def mod_if)
  have get: "mb_get m = (msg_pool m ! mb_out_offset m,
      m\<lparr>mb_out_offset := Suc (mb_out_offset m) mod mb_size m, mb_entry := mb_entry m - 1\<rparr>)"
    unfolding mb_get_def st e ..
  have "(Suc (mb_out_offset m) mod mb_size m + (mb_entry m - 1)) mod mb_size m = (mb_out_offset m + mb_entry m) mod mb_size m"
    using some by (cases "mb_entry m") (simp_all add: mod_simps)
  then show "mb_wf (snd (mb_get m))"
    using wf some by (auto simp: mb_wf_def get)
  show "mails m = fst (mb_get m) # mails (snd (mb_get m))"
    using wf some ring_items_get [of "mb_out_offset m" "msg_pool m" "mb_entry m"]
    by (simp add: mails_def get mb_wf_def)
qed

section \<open>Sending and receiving\<close>

abbreviation receivers :: "mb_state \<Rightarrow> tid list" where
  "receivers x \<equiv> lists (snd x) (Pending (mb_id (fst x)))"

abbreviation senders :: "mb_state \<Rightarrow> tid list" where
  "senders x \<equiv> lists (snd x) (Senders (mb_id (fst x)))"

definition mb_inv :: "mb_state \<Rightarrow> bool" where
  "mb_inv x \<longleftrightarrow> mb_wf (fst x) \<and> kinv (snd x) \<and>
     (mb_flag (fst x) = RT_IPC_FLAG_FIFO \<or> mb_flag (fst x) = RT_IPC_FLAG_PRIO)"

text \<open>Waking the first thread of a queue, if there is one.\<close>

lemma wake_first:
  assumes inv: "kinv k" and q: "wait_queue l"
  defines "k' \<equiv> if lists k l \<noteq> [] then rt_schedule (rt_ipc_list_resume l k) else k"
  shows "kinv k'" "lists k' l = tl (lists k l)"
    "\<And>m. wait_queue m \<Longrightarrow> m \<noteq> l \<Longrightarrow> lists k' m = lists k m"
    "lists k l = t # ts \<Longrightarrow> stat_of k' t = RT_THREAD_READY \<and> t_error (threads k' t) = t_error (threads k t)"
  using inv ipc_resume_result [OF inv q]
  by (cases "lists k l"; auto simp: k'_def kframe stat_of_def)+

lemma mb_send_room:
  assumes inv: "mb_inv (m, k)" and room: "mb_entry m < mb_size m"
  shows "\<exists>k'. mb_send_loop v timeout d th (m, k) = (Return RT_EOK, (mb_put v m, k')) \<and>
    mb_inv (mb_put v m, k') \<and> receivers (mb_put v m, k') = tl (receivers (m, k)) \<and>
    senders (mb_put v m, k') = senders (m, k) \<and>
    (\<forall>t ts. receivers (m, k) = t # ts \<longrightarrow> stat_of k' t = RT_THREAD_READY \<and> t_error (threads k' t) = t_error (threads k t))"
proof -
  let ?l = "Pending (mb_id m)"
  let ?k = "if lists k ?l \<noteq> [] then rt_schedule (rt_ipc_list_resume ?l k) else k"
  have ki: "kinv k" using inv by (simp add: mb_inv_def)
  note w = wake_first [OF ki, of ?l]
  have "mb_send_loop v timeout d th (m, k) = (Return RT_EOK, (mb_put v m, ?k))"
    using room by (simp add: mb_send_loop_def Let_def)
  then show ?thesis
    using inv w mb_put_mails [of m v] room
    by (intro exI [of _ ?k]) (simp add: mb_inv_def)
qed

lemma mb_recv_some:
  assumes inv: "mb_inv (m, k)" and some: "mb_entry m \<noteq> 0"
  shows "\<exists>k'. mb_recv_loop timeout d th (m, k) = (Return (RT_EOK, Some (fst (mb_get m))), (snd (mb_get m), k')) \<and>
    mb_inv (snd (mb_get m), k') \<and> senders (snd (mb_get m), k') = tl (senders (m, k)) \<and>
    receivers (snd (mb_get m), k') = receivers (m, k) \<and>
    (\<forall>t ts. senders (m, k) = t # ts \<longrightarrow> stat_of k' t = RT_THREAD_READY \<and> t_error (threads k' t) = t_error (threads k t))"
proof -
  let ?l = "Senders (mb_id m)"
  let ?k = "if lists k ?l \<noteq> [] then rt_schedule (rt_ipc_list_resume ?l k) else k"
  have ki: "kinv k" using inv by (simp add: mb_inv_def)
  note w = wake_first [OF ki, of ?l]
  have "mb_recv_loop timeout d th (m, k) = (Return (RT_EOK, Some (fst (mb_get m))), (snd (mb_get m), ?k))"
    using some by (simp add: mb_recv_loop_def Let_def split: prod.splits)
  then show ?thesis
    using inv w mb_get_mails [of m] some
    by (intro exI [of _ ?k]) (simp add: mb_inv_def)
qed

text \<open>A call that must wait joins its queue; nothing is put in or taken out.\<close>

lemma set_error_may_block:
  "kinv k \<Longrightarrow> running k t \<Longrightarrow> wait_queue l \<Longrightarrow> flag = RT_IPC_FLAG_FIFO \<or> flag = RT_IPC_FLAG_PRIO \<Longrightarrow>
   may_block l t flag (set_error t e k)"
  using running_may_block by (simp add: set_error_def)

text \<open>Leaving the processor into a queue of arrival order, with the error cleared.\<close>

lemma park_fifo:
  fixes time :: int
  assumes k: "kinv k" "running k t" "wait_queue l"
  defines "k' \<equiv> rt_schedule (suspend_and_arm l t RT_IPC_FLAG_FIFO time (set_error t RT_EOK k))"
  shows "kinv k'" "lists k' l = lists k l @ [t]" "stat_of k' t = RT_THREAD_SUSPEND" "t_error (threads k' t) = RT_EOK"
    "\<And>m. wait_queue m \<Longrightarrow> m \<noteq> l \<Longrightarrow> lists k' m = lists k m"
proof -
  let ?k1 = "set_error t RT_EOK k"
  have mb: "may_block l t RT_IPC_FLAG_FIFO ?k1" using k by (intro set_error_may_block) auto
  have l1: "lists ?k1 = lists k" by (simp add: set_error_def)
  have out: "t \<notin> set (lists k m)" if "wait_queue m" for m
    using not_in_wait_queue [OF k(1) _ that] k(2) by (simp add: running_def)
  show "kinv k'" using arm_kinv [OF mb] by (simp add: k'_def kframe)
  show "lists k' l = lists k l @ [t]" "stat_of k' t = RT_THREAD_SUSPEND"
    using blocked_queue [OF mb] by (simp_all add: k'_def kframe l1 enqueued_def stat_of_def)
  show "t_error (threads k' t) = RT_EOK"
    by (auto simp: k'_def kframe arm_threads rt_thread_suspend_def set_error_def upd_thread_def)
  show "lists k' m = lists k m" if "wait_queue m" "m \<noteq> l" for m
    using out [OF that(1)] that(2) by (simp add: k'_def kframe arm_lists ipc_suspend_lists [OF mb] l1)
qed

lemma mb_send_full_waits:
  assumes inv: "mb_inv (m, k)" and full: "mb_entry m = mb_size m" and run: "running k t" and time: "timeout \<noteq> 0"
  shows "\<exists>k'. mb_send_loop v timeout d (Some t) (m, k) = (Blocked (wait_locals t timeout d k), (m, k')) \<and>
    mb_inv (m, k') \<and> senders (m, k') = enqueued (mb_flag m) (priority_of k) t (senders (m, k)) \<and>
    stat_of k' t = RT_THREAD_SUSPEND"
proof -
  let ?l = "Senders (mb_id m)" and ?k1 = "set_error t RT_EOK k"
  have mb: "may_block ?l t (mb_flag m) ?k1"
    using inv run by (intro set_error_may_block) (auto simp: mb_inv_def)
  have pr: "priority_of ?k1 = priority_of k" "rt_tick ?k1 = rt_tick k" "lists ?k1 = lists k"
    by (simp_all add: set_error_def)
  show ?thesis
    using full time inv blocked_queue [OF mb, of timeout] arm_kinv [OF mb, of timeout]
    by (intro exI [of _ "rt_schedule (suspend_and_arm ?l t (mb_flag m) timeout ?k1)"])
      (simp add: mb_send_loop_def Let_def mb_inv_def kframe pr stat_of_def wait_locals_def rt_tick_get_def)
qed

lemma mb_recv_empty_waits:
  assumes inv: "mb_inv (m, k)" and empty: "mb_entry m = 0" and run: "running k t" and time: "timeout \<noteq> 0"
  shows "\<exists>k'. mb_recv_loop timeout d (Some t) (m, k) = (Blocked (wait_locals t timeout d k), (m, k')) \<and>
    mb_inv (m, k') \<and> receivers (m, k') = enqueued (mb_flag m) (priority_of k) t (receivers (m, k)) \<and>
    stat_of k' t = RT_THREAD_SUSPEND"
proof -
  let ?l = "Pending (mb_id m)" and ?k1 = "set_error t RT_EOK k"
  have mb: "may_block ?l t (mb_flag m) ?k1"
    using inv run by (intro set_error_may_block) (auto simp: mb_inv_def)
  have pr: "priority_of ?k1 = priority_of k" "rt_tick ?k1 = rt_tick k" "lists ?k1 = lists k"
    by (simp_all add: set_error_def)
  show ?thesis
    using empty time inv blocked_queue [OF mb, of timeout] arm_kinv [OF mb, of timeout]
    by (intro exI [of _ "rt_schedule (suspend_and_arm ?l t (mb_flag m) timeout ?k1)"])
      (simp add: mb_recv_loop_def Let_def mb_inv_def kframe pr stat_of_def wait_locals_def rt_tick_get_def)
qed

text \<open>The time left never grows and never turns a bounded wait into an endless one.\<close>

lemma time_left_bounds:
  assumes "0 < w_timeout w" "w_timeout w < 2 ^ 31" "uint (rt_tick_get k - w_tick w) < 2 ^ 31"
  shows "0 \<le> time_left w k" "time_left w k \<le> w_timeout w"
    "time_left w k = max 0 (w_timeout w - uint (rt_tick_get k - w_tick w))"
proof -
  have nn: "0 \<le> uint (rt_tick_get k - w_tick w)" by simp
  have "wrap32 (w_timeout w - uint (rt_tick_get k - w_tick w)) = w_timeout w - uint (rt_tick_get k - w_tick w)"
    by (rule wrap32_id) (use assms nn in linarith)+
  then show "time_left w k = max 0 (w_timeout w - uint (rt_tick_get k - w_tick w))"
    using assms(1) by (simp add: time_left_def Let_def)
  then show "0 \<le> time_left w k" "time_left w k \<le> w_timeout w" using assms(1) nn by linarith+
qed

section \<open>A mailbox is a bounded queue\<close>

text \<open>Sending and receiving without waiting, as operations that may be refused.\<close>

definition mb_put1 :: "u32 \<Rightarrow> mb_state \<Rightarrow> mb_state option" where
  "mb_put1 v x = (case rt_mb_send v x of (Return e, y) \<Rightarrow> if e = RT_EOK then Some y else None | _ \<Rightarrow> None)"

definition mb_get1 :: "mb_state \<Rightarrow> (u32 \<times> mb_state) option" where
  "mb_get1 x = (case rt_mb_recv 0 x of (Return (e, Some v), y) \<Rightarrow> if e = RT_EOK then Some (v, y) else None | _ \<Rightarrow> None)"

definition mb_items :: "mb_state \<Rightarrow> u32 list" where
  "mb_items x = mails (fst x)"

definition mb_cap :: "mb_state \<Rightarrow> nat" where
  "mb_cap x = mb_size (fst x)"

interpretation mailbox: bounded_fifo mb_inv mb_items mb_cap mb_put1 mb_get1
proof unfold_locales
  fix s :: mb_state and x assume inv: "mb_inv s"
  obtain m k where s: "s = (m, k)" by (cases s)
  have le: "mb_entry m \<le> mb_size m" using inv by (simp add: s mb_inv_def mb_wf_def)
  show "length (mb_items s) \<le> mb_cap s" using le by (simp add: s mb_items_def mb_cap_def)
  show "mb_put1 x s = None" if "mb_cap s \<le> length (mb_items s)"
    using that le by (simp add: s mb_items_def mb_cap_def mb_put1_def rt_mb_send_def rt_mb_send_wait_def)
  show "\<exists>t. mb_put1 x s = Some t \<and> mb_inv t \<and> mb_items t = mb_items s @ [x] \<and> mb_cap t = mb_cap s"
    if "length (mb_items s) < mb_cap s"
    using that inv mb_send_room [of m k x 0 0 "rt_thread_self k"] mb_put_mails [of m x]
    by (auto simp: s mb_items_def mb_cap_def mb_put1_def rt_mb_send_def rt_mb_send_wait_def mb_inv_def)
  show "mb_get1 s = None" if "mb_items s = []"
  proof -
    have "mb_entry m = 0" using that length_mails [of m] by (simp add: s mb_items_def)
    then show ?thesis by (simp add: s mb_get1_def rt_mb_recv_def)
  qed
  show "\<exists>t. mb_get1 s = Some (x, t) \<and> mb_inv t \<and> mb_items t = xs \<and> mb_cap t = mb_cap s" if "mb_items s = x # xs" for xs
  proof -
    have "mb_entry m \<noteq> 0" using that length_mails [of m] by (auto simp: s mb_items_def)
    then show ?thesis
      using that inv mb_recv_some [of m k 0 0 "rt_thread_self k"] mb_get_mails [of m]
      by (auto simp: s mb_items_def mb_cap_def mb_get1_def rt_mb_recv_def mb_inv_def)
  qed
qed

lemma mb_init_inv:
  fixes nm :: string
  assumes "kinv k" "lists k (Pending n) = []" "lists k (Senders n) = []"
    and "0 < sz" "sz < 65536" "length pool = sz" "flag = RT_IPC_FLAG_FIFO \<or> flag = RT_IPC_FLAG_PRIO"
  defines "s \<equiv> snd (rt_mb_init n nm pool sz flag k)"
  shows "mb_inv s" "mb_items s = []" "mb_cap s = sz"
proof -
  have "(lists k)(Pending n := [], Senders n := []) = lists k" using assms(2,3) by (simp add: fun_upd_idem)
  then have "kinv (senders_init n (rt_ipc_object_init n (upd_objects f k)))" for f
    using assms(1) by (simp add: senders_init_def rt_ipc_object_init_def upd_objects_def)
  then show "mb_inv s"
    using assms by (simp add: s_def rt_mb_init_def mailbox_object_def mb_inv_def mb_wf_def)
  show "mb_items s = []" "mb_cap s = sz"
    using assms(5) by (simp_all add: s_def rt_mb_init_def mailbox_object_def mb_items_def mb_cap_def mails_def)
qed

text \<open>
  From initialisation on, any sequence of sends and receives that do not wait, whatever
  threads are queued at the mailbox, answers as the bounded first-in first-out queue of capacity
  \<open>sz\<close> does, and the mails held are those of the queue.
\<close>

theorem mailbox_history_fifo:
  assumes "kinv k" "lists k (Pending n) = []" "lists k (Senders n) = []"
    and "0 < sz" "sz < 65536" "length pool = sz" "flag = RT_IPC_FLAG_FIFO \<or> flag = RT_IPC_FLAG_PRIO"
    and "fifo_run mb_put1 mb_get1 ops (snd (rt_mb_init n nm pool sz flag k)) = (replies, (m, k'))"
  shows "fifo_run (spec_put sz) spec_get ops [] = (replies, mails m)"
  using mailbox.run_refines [OF mb_init_inv(1) [OF assms(1-7)] assms(8)] mb_init_inv(2,3) [OF assms(1-7)]
  by (simp add: mb_items_def)

lemma mailbox_history_fifo_witness:
  "\<exists>replies m k'. fifo_run mb_put1 mb_get1 [Put 7, Put 8, Put 9, Get, Put 10]
      (snd (rt_mb_init 0 ''eaix4'' [0, 0] 2 RT_IPC_FLAG_FIFO two_ready)) = (replies, (m, k')) \<and>
    replies = [Accepted, Accepted, Rejected, Got 7, Accepted] \<and> mails m = [8, 10]"
proof -
  obtain replies m k' where r: "fifo_run mb_put1 mb_get1 [Put 7, Put 8, Put 9, Get, Put 10]
      (snd (rt_mb_init 0 ''eaix4'' [0, 0] 2 RT_IPC_FLAG_FIFO two_ready)) = (replies, (m, k'))"
    by (metis prod_cases3)
  have "fifo_run (spec_put 2) spec_get [Put 7, Put 8, Put 9, Get, Put 10] [] = (replies, mails m)"
    by (rule mailbox_history_fifo [OF two_ready_kinv _ _ _ _ _ _ r]) (simp_all add: two_ready_lists)
  then show ?thesis using r by (auto simp: spec_put_def)
qed

text \<open>
  A thread that may wait \<open>timeout\<close> ticks for a mail, is woken by a send whose mail another
  receiver takes first, and waits again, waits only for what is left: the time left is the old
  time less the ticks spent, never below zero, so the waits of one call add up to \<open>timeout\<close> at
  most.
\<close>

theorem mailbox_wait_budget:
  assumes "0 < w_timeout w" "w_timeout w < 2 ^ 31" "uint (rt_tick_get k - w_tick w) < 2 ^ 31"
    and "t_error (threads k (w_thread w)) = RT_EOK"
    and "mb_entry m = 0"
  shows "case fst (rt_mb_recv_resume w (m, k)) of
      Return (e, v) \<Rightarrow> e = - RT_ETIMEOUT \<and> v = None \<and> w_timeout w \<le> uint (rt_tick_get k - w_tick w)
    | Blocked w' \<Rightarrow> w_thread w' = w_thread w \<and> 0 < w_timeout w' \<and> w_tick w' = rt_tick_get k \<and>
        w_timeout w' + uint (rt_tick_get k - w_tick w) = w_timeout w"
proof (cases "time_left w k = 0")
  case True
  then show ?thesis
    using assms(4,5) time_left_bounds(3) [OF assms(1-3)]
    by (auto simp: rt_mb_recv_resume_def mb_recv_loop_def Let_def)
next
  case False
  have "rt_tick_get (set_error (w_thread w) RT_EOK k) = rt_tick_get k"
    by (simp add: rt_tick_get_def set_error_def)
  then show ?thesis
    using False assms(4,5) time_left_bounds [OF assms(1-3)]
    by (auto simp: rt_mb_recv_resume_def mb_recv_loop_def Let_def wait_locals_def split: if_splits)
qed

lemma mailbox_wait_budget_witness:
  "let k = two_ready\<lparr>rt_tick := 30\<rparr>; w = \<lparr>w_thread = 1, w_timeout = 50, w_tick = 10\<rparr>;
       m = mailbox_object 0 [0, 0] 2 RT_IPC_FLAG_FIFO
   in \<exists>w'. fst (rt_mb_recv_resume w (m, k)) = Blocked w' \<and> w_timeout w' = 30"
proof -
  let ?k = "two_ready\<lparr>rt_tick := 30\<rparr>" and ?w = "\<lparr>w_thread = 1, w_timeout = 50, w_tick = 10\<rparr>"
    and ?m = "mailbox_object 0 [0, 0] 2 RT_IPC_FLAG_FIFO"
  show ?thesis
    using mailbox_wait_budget [of ?w ?k ?m]
    by (auto simp: rt_tick_get_def mailbox_object_def two_ready_def zeroed_def ready_at_def blank_thread_def Let_def split: outcome.splits)
qed

end
