(* ===== verification/MessageQueue.thy ===== *)
theory MessageQueue
  imports Mailbox
begin

unbundle bit_operations_syntax

text \<open>
  The message queue of \<^verbatim>\<open>src/ipc.c\<close>: a pool of message cells on two singly
  linked lists, the queue and the free list. A cell is named by its index in the pool. A send
  takes a cell from the free list and links it to the queue in two steps with the interrupts
  enabled between them, while it copies; a receive unlinks a cell and frees it in two steps.
\<close>

section \<open>The code\<close>

record rt_messagequeue =
  mq_id :: nat
  mq_flag :: u8
  mq_next :: "nat \<Rightarrow> nat option"
  mq_data :: "nat \<Rightarrow> u8 list"
  msg_size :: nat
  max_msgs :: nat
  mq_entry :: nat
  msg_queue_head :: "nat option"
  msg_queue_tail :: "nat option"
  msg_queue_free :: "nat option"

type_synonym mq_state = "rt_messagequeue \<times> kernel"

text \<open>The loop that threads the cells on the free list.\<close>

definition link_free :: "nat \<Rightarrow> rt_messagequeue \<Rightarrow> rt_messagequeue" where
  "link_free temp m = m\<lparr>mq_next := (mq_next m)(temp := msg_queue_free m), msg_queue_free := Some temp\<rparr>"

definition mq_object ::
  "nat \<Rightarrow> (nat \<Rightarrow> u8 list) \<Rightarrow> nat \<Rightarrow> nat \<Rightarrow> u8 \<Rightarrow> rt_messagequeue" where
  "mq_object n pool msize msgs flag =
    fold link_free [0..<msgs]
      \<lparr>mq_id = n, mq_flag = flag, mq_next = (\<lambda>_. None), mq_data = pool, msg_size = msize, max_msgs = msgs,
       mq_entry = 0, msg_queue_head = None, msg_queue_tail = None, msg_queue_free = None\<rparr>"

text \<open>\<open>pool\<close> is what the memory behind the cells holds.\<close>

definition rt_mq_init ::
  "nat \<Rightarrow> string \<Rightarrow> (nat \<Rightarrow> u8 list) \<Rightarrow> nat \<Rightarrow> nat \<Rightarrow> u8 \<Rightarrow> kernel \<Rightarrow> int \<times> mq_state" where
  "rt_mq_init n name pool msize pool_size flag k =
    (let sz = RT_ALIGN msize 4 mod 65536; msgs = pool_size div (sz + 4) mod 65536
     in (RT_EOK, (mq_object n pool sz msgs flag,
          rt_ipc_object_init n (upd_objects (rt_object_init (IpcObj n) RT_Object_Class_MessageQueue name) k))))"

definition rt_mq_detach :: "mq_state \<Rightarrow> (int \<times> kernel) option" where
  "rt_mq_detach x = (case x of (m, k) \<Rightarrow>
     map_option (\<lambda>k1. (RT_EOK, upd_objects (rt_object_detach (IpcObj (mq_id m))) k1))
       (rt_ipc_list_resume_all (Pending (mq_id m)) k))"

definition rt_mq_delete :: "nat \<Rightarrow> kernel \<Rightarrow> (int \<times> kernel) option" where
  "rt_mq_delete n k =
     map_option (\<lambda>k1. (RT_EOK, upd_objects (rt_object_delete (IpcObj n)) k1))
       (rt_ipc_list_resume_all (Pending n) k)"

definition rt_mq_create ::
  "nat option \<Rightarrow> (nat \<Rightarrow> u8 list) option \<Rightarrow> string \<Rightarrow> nat \<Rightarrow> nat \<Rightarrow> u8 \<Rightarrow> kernel \<Rightarrow>
   (rt_messagequeue option \<times> kernel) option" where
  "rt_mq_create addr pool name msize msgs flag k =
    (case rt_object_allocate (map_option IpcObj addr) RT_Object_Class_MessageQueue name (objects k) of
       (Some (IpcObj n), st) \<Rightarrow>
         let k1 = rt_ipc_object_init n (k\<lparr>objects := st\<rparr>) in
         (case pool of
            None \<Rightarrow> map_option (\<lambda>(_, k2). (None, k2)) (rt_mq_delete n k1)
          | Some p \<Rightarrow> Some (Some (mq_object n p (RT_ALIGN msize 4 mod 65536) (msgs mod 65536) flag), k1))
     | (_, st) \<Rightarrow> Some (None, k\<lparr>objects := st\<rparr>))"

text \<open>The two steps of a send: take a cell, then link it behind the tail.\<close>

definition mq_alloc :: "rt_messagequeue \<Rightarrow> (nat \<times> rt_messagequeue) option" where
  "mq_alloc m =
    (case msg_queue_free m of
       None \<Rightarrow> None
     | Some msg \<Rightarrow> Some (msg, m\<lparr>msg_queue_free := mq_next m msg\<rparr>))"

definition mq_fill :: "nat \<Rightarrow> u8 list \<Rightarrow> nat \<Rightarrow> rt_messagequeue \<Rightarrow> rt_messagequeue" where
  "mq_fill msg buffer sz m = m\<lparr>mq_data := (mq_data m)(msg := memcpy_at (mq_data m msg) 0 buffer sz)\<rparr>"

definition mq_append :: "nat \<Rightarrow> rt_messagequeue \<Rightarrow> rt_messagequeue" where
  "mq_append msg m =
    (let m1 = (case msg_queue_tail m of
                 None \<Rightarrow> m
               | Some t \<Rightarrow> m\<lparr>mq_next := (mq_next m)(t := Some msg)\<rparr>);
         m2 = m1\<lparr>msg_queue_tail := Some msg\<rparr>;
         m3 = (if msg_queue_head m2 = None then m2\<lparr>msg_queue_head := Some msg\<rparr> else m2)
     in m3\<lparr>mq_entry := (mq_entry m3 + 1) mod 65536\<rparr>)"

definition mq_prepend :: "nat \<Rightarrow> rt_messagequeue \<Rightarrow> rt_messagequeue" where
  "mq_prepend msg m =
    (let m1 = m\<lparr>mq_next := (mq_next m)(msg := msg_queue_head m), msg_queue_head := Some msg\<rparr>;
         m2 = (if msg_queue_tail m1 = None then m1\<lparr>msg_queue_tail := Some msg\<rparr> else m1)
     in m2\<lparr>mq_entry := (mq_entry m2 + 1) mod 65536\<rparr>)"

definition mq_wake :: "mq_state \<Rightarrow> int \<times> mq_state" where
  "mq_wake x = (case x of (m, k) \<Rightarrow>
    if lists k (Pending (mq_id m)) \<noteq> []
    then (RT_EOK, (m, rt_schedule (rt_ipc_list_resume (Pending (mq_id m)) k)))
    else (RT_EOK, (m, k)))"

definition rt_mq_send :: "u8 list \<Rightarrow> nat \<Rightarrow> mq_state \<Rightarrow> int \<times> mq_state" where
  "rt_mq_send buffer sz x = (case x of (m, k) \<Rightarrow>
    if sz > msg_size m then (- RT_ERROR, (m, k))
    else case mq_alloc m of
      None \<Rightarrow> (- RT_EFULL, (m, k))
    | Some (msg, m1) \<Rightarrow>
        let m2 = mq_fill msg buffer sz (m1\<lparr>mq_next := (mq_next m1)(msg := None)\<rparr>)
        in mq_wake (mq_append msg m2, k))"

definition rt_mq_urgent :: "u8 list \<Rightarrow> nat \<Rightarrow> mq_state \<Rightarrow> int \<times> mq_state" where
  "rt_mq_urgent buffer sz x = (case x of (m, k) \<Rightarrow>
    if sz > msg_size m then (- RT_ERROR, (m, k))
    else case mq_alloc m of
      None \<Rightarrow> (- RT_EFULL, (m, k))
    | Some (msg, m1) \<Rightarrow> mq_wake (mq_prepend msg (mq_fill msg buffer sz m1), k))"

text \<open>The two steps of a receive: unlink the head, then put its cell on the free list.\<close>

definition mq_unlink :: "rt_messagequeue \<Rightarrow> (nat \<times> rt_messagequeue) option" where
  "mq_unlink m =
    (case msg_queue_head m of
       None \<Rightarrow> None
     | Some msg \<Rightarrow>
        let m1 = m\<lparr>msg_queue_head := mq_next m msg\<rparr>;
            m2 = (if msg_queue_tail m1 = Some msg then m1\<lparr>msg_queue_tail := None\<rparr> else m1)
        in Some (msg, m2\<lparr>mq_entry := (mq_entry m2 + 65535) mod 65536\<rparr>))"

definition mq_free :: "nat \<Rightarrow> rt_messagequeue \<Rightarrow> rt_messagequeue" where
  "mq_free msg m = m\<lparr>mq_next := (mq_next m)(msg := msg_queue_free m), msg_queue_free := Some msg\<rparr>"

definition mq_recv_loop ::
  "nat \<Rightarrow> int \<Rightarrow> u32 \<Rightarrow> tid option \<Rightarrow> mq_state \<Rightarrow> (int \<times> u8 list, mb_wait) outcome \<times> mq_state" where
  "mq_recv_loop sz timeout tick_delta thread x = (case x of (m, k) \<Rightarrow>
    if mq_entry m = 0
    then case thread of
        None \<Rightarrow> (Return (- RT_ETIMEOUT, []), (m, k\<lparr>fault := True\<rparr>))
      | Some t \<Rightarrow>
         let k1 = set_error t RT_EOK k in
         if timeout = 0 then (Return (- RT_ETIMEOUT, []), (m, set_error t (- RT_ETIMEOUT) k1))
         else (Blocked (wait_locals t timeout tick_delta k1),
               (m, rt_schedule (suspend_and_arm (Pending (mq_id m)) t (mq_flag m) timeout k1)))
    else case mq_unlink m of
        None \<Rightarrow> (Return (RT_EOK, []), (m, k\<lparr>fault := True\<rparr>))
      | Some (msg, m1) \<Rightarrow>
         (Return (RT_EOK, take (if sz > msg_size m1 then msg_size m1 else sz) (mq_data m1 msg)),
          (mq_free msg m1, k)))"

definition rt_mq_recv :: "nat \<Rightarrow> int \<Rightarrow> mq_state \<Rightarrow> (int \<times> u8 list, mb_wait) outcome \<times> mq_state" where
  "rt_mq_recv sz timeout x = (case x of (m, k) \<Rightarrow>
    if mq_entry m = 0 \<and> timeout = 0 then (Return (- RT_ETIMEOUT, []), (m, k))
    else mq_recv_loop sz timeout 0 (rt_thread_self k) (m, k))"

definition rt_mq_recv_resume ::
  "nat \<Rightarrow> mb_wait \<Rightarrow> mq_state \<Rightarrow> (int \<times> u8 list, mb_wait) outcome \<times> mq_state" where
  "rt_mq_recv_resume sz w x = (case x of (m, k) \<Rightarrow>
    if t_error (threads k (w_thread w)) \<noteq> RT_EOK
    then (Return (t_error (threads k (w_thread w)), []), (m, k))
    else mq_recv_loop sz (time_left w k) (tick_left w k) (Some (w_thread w)) (m, k))"

text \<open>The drain loop of \<open>RT_IPC_CMD_RESET\<close>; the counter is cleared after it.\<close>

partial_function (option) mq_drain :: "rt_messagequeue \<Rightarrow> rt_messagequeue option" where
  "mq_drain m =
    (case msg_queue_head m of
       None \<Rightarrow> Some m
     | Some msg \<Rightarrow>
        mq_drain (mq_free msg (let m1 = m\<lparr>msg_queue_head := mq_next m msg\<rparr>
                               in if msg_queue_tail m1 = Some msg then m1\<lparr>msg_queue_tail := None\<rparr> else m1)))"

definition rt_mq_control :: "bool \<Rightarrow> mq_state \<Rightarrow> (int \<times> mq_state) option" where
  "rt_mq_control reset x = (case x of (m, k) \<Rightarrow>
    if reset
    then Option.bind (rt_ipc_list_resume_all (Pending (mq_id m)) k)
           (\<lambda>k1. map_option (\<lambda>m1. (RT_EOK, (m1\<lparr>mq_entry := 0\<rparr>, rt_schedule k1))) (mq_drain m))
    else Some (- RT_ERROR, (m, k)))"

section \<open>Chains of cells\<close>

fun chain :: "(nat \<Rightarrow> nat option) \<Rightarrow> nat option \<Rightarrow> nat list \<Rightarrow> bool" where
  "chain nx p [] \<longleftrightarrow> p = None"
| "chain nx p (c # cs) \<longleftrightarrow> p = Some c \<and> chain nx (nx c) cs"

lemma chain_unique: "chain nx p cs \<Longrightarrow> chain nx p ds \<Longrightarrow> cs = ds"
proof (induction cs arbitrary: p ds)
  case Nil
  then show ?case by (cases ds) auto
next
  case (Cons c cs)
  then show ?case by (cases ds) auto
qed

lemma chain_upd: "c \<notin> set cs \<Longrightarrow> chain (nx(c := q)) p cs = chain nx p cs"
  by (induction cs arbitrary: p) auto

lemma chain_append:
  "chain nx p cs \<Longrightarrow> cs \<noteq> [] \<Longrightarrow> distinct cs \<Longrightarrow> c \<notin> set cs \<Longrightarrow> nx c = None \<Longrightarrow>
   chain (nx(last cs := Some c)) p (cs @ [c])"
proof (induction cs arbitrary: p)
  case (Cons d ds)
  then show ?case by (cases "ds = []") (auto simp: chain_upd)
qed simp

text \<open>
  The cells: \<open>qs\<close> are queued, \<open>fs\<close> are free, and those of \<open>X\<close> are held by a send or
  receive between its two steps.
\<close>

definition cells :: "nat set \<Rightarrow> rt_messagequeue \<Rightarrow> nat list \<Rightarrow> nat list \<Rightarrow> bool" where
  "cells X m qs fs \<longleftrightarrow>
     chain (mq_next m) (msg_queue_head m) qs \<and> chain (mq_next m) (msg_queue_free m) fs \<and>
     distinct (qs @ fs) \<and> X \<inter> set (qs @ fs) = {} \<and> X \<union> set (qs @ fs) = {..<max_msgs m} \<and>
     msg_queue_tail m = (if qs = [] then None else Some (last qs)) \<and>
     mq_entry m = length qs \<and> max_msgs m < 65536 \<and> (\<forall>c<max_msgs m. length (mq_data m c) = msg_size m)"

lemma cells_unique: "cells X m qs fs \<Longrightarrow> cells X m qs' fs' \<Longrightarrow> qs = qs' \<and> fs = fs'"
  by (auto simp: cells_def dest: chain_unique)

lemma cells_queue_bound: "cells X m qs fs \<Longrightarrow> X \<subseteq> {..<max_msgs m} \<and> length qs + length fs + card X = max_msgs m"
proof -
  assume c: "cells X m qs fs"
  then have "finite X" by (metis cells_def finite_Un finite_lessThan)
  moreover have "distinct (qs @ fs)" "X \<inter> set (qs @ fs) = {}" using c by (simp_all only: cells_def)
  ultimately have "card (X \<union> set (qs @ fs)) = card X + length (qs @ fs)"
    by (subst card_Un_disjoint) (simp_all only: distinct_card finite_set)
  then show ?thesis using c by (auto simp: cells_def)
qed

lemma cells_fresh: "cells X m qs fs \<Longrightarrow> c \<in> X \<Longrightarrow> c \<notin> set qs \<and> c \<notin> set fs"
  unfolding cells_def by auto

lemma cells_room:
  assumes c: "cells X m qs fs" and x: "c \<in> X"
  shows "length qs + 1 < 65536"
proof -
  have "finite X" using cells_queue_bound [OF c] finite_subset [OF _ finite_lessThan] by blast
  then have "card X \<noteq> 0" using x by auto
  then have "length qs < max_msgs m" using cells_queue_bound [OF c] by linarith
  then show ?thesis using c by (simp add: cells_def)
qed

section \<open>The steps\<close>

lemma alloc_cells:
  assumes "cells X m qs (c # fs)"
  shows "\<exists>m1. mq_alloc m = Some (c, m1) \<and> cells (insert c X) m1 qs fs \<and> mq_data m1 = mq_data m \<and>
    msg_size m1 = msg_size m \<and> max_msgs m1 = max_msgs m \<and> mq_id m1 = mq_id m"
  using assms by (auto simp: mq_alloc_def cells_def)

lemma alloc_full: "cells X m qs [] \<Longrightarrow> mq_alloc m = None"
  by (simp add: mq_alloc_def cells_def)

lemma fill_cells:
  assumes "cells X m qs fs" "c \<in> X" "sz \<le> msg_size m" "sz \<le> length buffer"
  shows "cells X (mq_fill c buffer sz m) qs fs"
    "\<forall>d. d \<noteq> c \<longrightarrow> mq_data (mq_fill c buffer sz m) d = mq_data m d"
    "mq_data (mq_fill c buffer sz m) c = take sz buffer @ drop sz (mq_data m c)"
  using assms by (auto simp: mq_fill_def cells_def memcpy_at_def)

lemma next_None_cells:
  "cells X m qs fs \<Longrightarrow> c \<in> X \<Longrightarrow> cells X (m\<lparr>mq_next := (mq_next m)(c := q)\<rparr>) qs fs"
  using cells_fresh [of X m qs fs c] by (simp add: cells_def chain_upd)

lemma append_cells:
  assumes c: "cells X m qs fs" and x: "c \<in> X" and n: "mq_next m c = None"
  shows "cells (X - {c}) (mq_append c m) (qs @ [c]) fs"
    "mq_data (mq_append c m) = mq_data m" "mq_id (mq_append c m) = mq_id m"
proof -
  have fresh: "c \<notin> set qs" "c \<notin> set fs" using c x by (auto simp: cells_def)
  note b = cells_room [OF c x]
  show "mq_data (mq_append c m) = mq_data m" "mq_id (mq_append c m) = mq_id m"
    by (auto simp: mq_append_def Let_def split: option.splits)
  show "cells (X - {c}) (mq_append c m) (qs @ [c]) fs"
  proof (cases "qs = []")
    case True
    then show ?thesis using c x n fresh b by (auto simp: cells_def mq_append_def Let_def)
  next
    case False
    then obtain h where h: "msg_queue_head m = Some h" using c by (cases qs) (auto simp: cells_def)
    have "last qs \<notin> set fs" using c last_in_set [OF False] by (auto simp: cells_def)
    then have "chain ((mq_next m)(last qs := Some c)) (msg_queue_free m) fs"
      using c by (simp add: chain_upd cells_def)
    moreover have "chain ((mq_next m)(last qs := Some c)) (msg_queue_head m) (qs @ [c])"
      using c False fresh n by (intro chain_append) (auto simp: cells_def)
    ultimately show ?thesis using c x False fresh b h by (auto simp: cells_def mq_append_def Let_def)
  qed
qed

lemma prepend_cells:
  assumes c: "cells X m qs fs" and x: "c \<in> X"
  shows "cells (X - {c}) (mq_prepend c m) (c # qs) fs"
    "mq_data (mq_prepend c m) = mq_data m" "mq_id (mq_prepend c m) = mq_id m"
proof -
  have fresh: "c \<notin> set qs" "c \<notin> set fs" using c x by (auto simp: cells_def)
  note b = cells_room [OF c x]
  show "mq_data (mq_prepend c m) = mq_data m" "mq_id (mq_prepend c m) = mq_id m"
    by (auto simp: mq_prepend_def Let_def)
  show "cells (X - {c}) (mq_prepend c m) (c # qs) fs"
    using c x fresh b by (auto simp: cells_def mq_prepend_def Let_def chain_upd)
qed

lemma unlink_cells:
  assumes c: "cells X m (q # qs) fs"
  shows "\<exists>m1. mq_unlink m = Some (q, m1) \<and> cells (insert q X) m1 qs fs \<and> mq_data m1 = mq_data m \<and>
    msg_size m1 = msg_size m \<and> max_msgs m1 = max_msgs m \<and> mq_id m1 = mq_id m \<and> mq_flag m1 = mq_flag m"
proof -
  have e: "(Suc (length qs) + 65535) mod 65536 = length qs"
  proof -
    have "length qs < 65536" using cells_queue_bound [OF c] c by (simp add: cells_def)
    then show ?thesis by simp
  qed
  have "last qs \<noteq> q" if "qs \<noteq> []" using c that by (auto simp: cells_def)
  then show ?thesis
    using c e by (auto simp: mq_unlink_def cells_def Let_def)
qed

lemma free_cells:
  assumes "cells X m qs fs" "c \<in> X"
  shows "cells (X - {c}) (mq_free c m) qs (c # fs)" "mq_data (mq_free c m) = mq_data m"
  using assms cells_fresh [OF assms] by (auto simp: mq_free_def cells_def chain_upd)

section \<open>Any interleaving of the steps\<close>

text \<open>
  The steps of sends, urgent sends and receives of any number of threads and interrupts.
  \<open>X\<close> holds the cells between the two steps of some call.
\<close>

inductive mq_steps :: "rt_messagequeue \<Rightarrow> nat set \<Rightarrow> rt_messagequeue \<Rightarrow> bool" for m0 where
  start: "mq_steps m0 {} m0"
| alloc: "mq_steps m0 X m \<Longrightarrow> mq_alloc m = Some (c, m1) \<Longrightarrow> mq_steps m0 (insert c X) m1"
| fill: "mq_steps m0 X m \<Longrightarrow> c \<in> X \<Longrightarrow> sz \<le> msg_size m \<Longrightarrow> sz \<le> length buffer \<Longrightarrow>
    mq_steps m0 X (mq_fill c buffer sz (m\<lparr>mq_next := (mq_next m)(c := None)\<rparr>))"
| append: "mq_steps m0 X m \<Longrightarrow> c \<in> X \<Longrightarrow> mq_next m c = None \<Longrightarrow> mq_steps m0 (X - {c}) (mq_append c m)"
| prepend: "mq_steps m0 X m \<Longrightarrow> c \<in> X \<Longrightarrow> mq_steps m0 (X - {c}) (mq_prepend c m)"
| unlink: "mq_steps m0 X m \<Longrightarrow> mq_unlink m = Some (c, m1) \<Longrightarrow> mq_steps m0 (insert c X) m1"
| release: "mq_steps m0 X m \<Longrightarrow> c \<in> X \<Longrightarrow> mq_steps m0 (X - {c}) (mq_free c m)"

lemma mq_steps_cells:
  assumes "mq_steps m0 X m" "cells {} m0 qs0 fs0"
  shows "\<exists>qs fs. cells X m qs fs"
  using assms
proof (induction rule: mq_steps.induct)
  case (alloc X m c m1)
  then obtain qs fs where i: "cells X m qs fs" by blast
  show ?case
  proof (cases fs)
    case Nil
    then show ?thesis using i alloc.hyps(2) alloc_full by simp
  next
    case (Cons d ds)
    then show ?thesis using alloc_cells [of X m qs d ds] i alloc.hyps(2) by auto
  qed
next
  case (fill X m c sz buffer)
  then obtain qs fs where "cells X m qs fs" by blast
  from next_None_cells [OF this fill.hyps(2), of None] show ?case
    using fill_cells(1) [of X "m\<lparr>mq_next := (mq_next m)(c := None)\<rparr>" qs fs c sz buffer] fill.hyps by auto
next
  case (unlink X m c m1)
  then obtain qs fs where i: "cells X m qs fs" by blast
  show ?case
  proof (cases qs)
    case Nil
    then show ?thesis using i unlink.hyps(2) by (simp add: mq_unlink_def cells_def)
  next
    case (Cons q qs')
    then show ?thesis using unlink_cells [of X m q qs' fs] i unlink.hyps(2) by auto
  qed
qed (blast intro: append_cells(1) prepend_cells(1) free_cells(1))+

section \<open>A fresh queue\<close>

lemma link_free_fields [simp]:
  "mq_id (fold link_free ns m) = mq_id m" "mq_flag (fold link_free ns m) = mq_flag m"
  "mq_data (fold link_free ns m) = mq_data m" "msg_size (fold link_free ns m) = msg_size m"
  "max_msgs (fold link_free ns m) = max_msgs m" "mq_entry (fold link_free ns m) = mq_entry m"
  "msg_queue_head (fold link_free ns m) = msg_queue_head m" "msg_queue_tail (fold link_free ns m) = msg_queue_tail m"
  by (induction ns arbitrary: m) (simp_all add: link_free_def)

lemma link_free_chain:
  "chain (mq_next m) (msg_queue_free m) cs \<Longrightarrow> distinct (ns @ cs) \<Longrightarrow>
   chain (mq_next (fold link_free ns m)) (msg_queue_free (fold link_free ns m)) (rev ns @ cs)"
proof (induction ns arbitrary: m cs)
  case (Cons n ns)
  have "chain (mq_next (link_free n m)) (msg_queue_free (link_free n m)) (n # cs)"
    using Cons.prems by (simp add: link_free_def chain_upd)
  from Cons.IH [OF this] Cons.prems(2) show ?case by simp
qed simp

lemma mq_object_cells:
  assumes "msgs < 65536" "\<forall>c<msgs. length (pool c) = msize"
  shows "cells {} (mq_object n pool msize msgs flag) [] (rev [0..<msgs])"
proof -
  let ?m = "\<lparr>mq_id = n, mq_flag = flag, mq_next = (\<lambda>_. None), mq_data = pool, msg_size = msize, max_msgs = msgs,
       mq_entry = 0, msg_queue_head = None, msg_queue_tail = None, msg_queue_free = None\<rparr>"
  have "chain (mq_next (fold link_free [0..<msgs] ?m)) (msg_queue_free (fold link_free [0..<msgs] ?m)) (rev [0..<msgs])"
    using link_free_chain [of ?m "[]" "[0..<msgs]"] by simp
  then show ?thesis
    using assms by (auto simp: mq_object_def cells_def)
qed

section \<open>Sending and receiving\<close>

definition mq_inv :: "mq_state \<Rightarrow> bool" where
  "mq_inv x \<longleftrightarrow> (\<exists>qs fs. cells {} (fst x) qs fs) \<and> kinv (snd x) \<and> 0 < msg_size (fst x) \<and>
     (mq_flag (fst x) = RT_IPC_FLAG_FIFO \<or> mq_flag (fst x) = RT_IPC_FLAG_PRIO)"

text \<open>The queued cells, followed from the head, and their messages.\<close>

fun walk :: "(nat \<Rightarrow> nat option) \<Rightarrow> nat \<Rightarrow> nat option \<Rightarrow> nat list" where
  "walk nx 0 p = []"
| "walk nx (Suc n) None = []"
| "walk nx (Suc n) (Some c) = c # walk nx n (nx c)"

definition queued :: "rt_messagequeue \<Rightarrow> u8 list list" where
  "queued m = map (mq_data m) (walk (mq_next m) (mq_entry m) (msg_queue_head m))"

lemma walk_chain: "chain nx p cs \<Longrightarrow> walk nx (length cs) p = cs"
  by (induction cs arbitrary: p) auto

lemma queued_cells: "cells X m qs fs \<Longrightarrow> queued m = map (mq_data m) qs"
  using walk_chain [of "mq_next m" "msg_queue_head m" qs] by (simp add: queued_def cells_def)

lemma mq_wake_inv:
  assumes "mq_inv (m, k)"
  shows "\<exists>k'. mq_wake (m, k) = (RT_EOK, (m, k')) \<and> mq_inv (m, k') \<and>
    lists k' (Pending (mq_id m)) = tl (lists k (Pending (mq_id m)))"
  using assms wake_first(1,2) [of k "Pending (mq_id m)"]
  by (cases "lists k (Pending (mq_id m)) = []") (auto simp: mq_wake_def mq_inv_def)

lemma mq_append_fields [simp]: "msg_size (mq_append c m) = msg_size m" "mq_flag (mq_append c m) = mq_flag m"
  "max_msgs (mq_append c m) = max_msgs m"
  by (auto simp: mq_append_def Let_def split: option.splits)

lemma mq_send_room:
  assumes inv: "mq_inv (m, k)" and sz: "sz \<le> msg_size m" "sz \<le> length buffer" and room: "mq_entry m < max_msgs m"
  shows "\<exists>m' k' old. rt_mq_send buffer sz (m, k) = (RT_EOK, (m', k')) \<and> mq_inv (m', k') \<and>
    queued m' = queued m @ [take sz buffer @ drop sz old] \<and> length old = msg_size m \<and>
    max_msgs m' = max_msgs m \<and> msg_size m' = msg_size m \<and> mq_id m' = mq_id m \<and>
    lists k' (Pending (mq_id m)) = tl (lists k (Pending (mq_id m)))"
proof -
  obtain qs fs where c: "cells {} m qs fs" using inv by (auto simp: mq_inv_def)
  have "length fs \<noteq> 0" using cells_queue_bound [OF c] room c by (auto simp: cells_def)
  then obtain f fs' where fs: "fs = f # fs'" by (cases fs) auto
  obtain m1 where m1: "mq_alloc m = Some (f, m1)" "cells {f} m1 qs fs'" "mq_data m1 = mq_data m"
    "msg_size m1 = msg_size m" "max_msgs m1 = max_msgs m" "mq_id m1 = mq_id m"
    using alloc_cells [of "{}" m qs f fs'] c fs by auto
  have fl: "mq_flag m1 = mq_flag m" using m1(1) by (auto simp: mq_alloc_def split: option.splits)
  let ?m2 = "m1\<lparr>mq_next := (mq_next m1)(f := None)\<rparr>"
  let ?m3 = "mq_fill f buffer sz ?m2"
  let ?m4 = "mq_append f ?m3"
  have c2: "cells {f} ?m2 qs fs'" by (rule next_None_cells [OF m1(2)]) simp
  note c3 = fill_cells [OF c2, of f sz buffer, simplified, OF _ sz(2)]
  have nx: "mq_next ?m3 f = None" by (simp add: mq_fill_def)
  have fields: "mq_id ?m3 = mq_id m" "mq_flag ?m3 = mq_flag m" "msg_size ?m3 = msg_size m" "max_msgs ?m3 = max_msgs m"
    using m1 fl by (simp_all add: mq_fill_def)
  have sz1: "sz \<le> msg_size m1" using sz m1 by simp
  note c4 = append_cells [OF c3(1) [OF sz1], of f]
  have fresh: "f \<notin> set qs" using cells_fresh [OF m1(2)] by simp
  have q: "queued ?m4 = queued m @ [take sz buffer @ drop sz (mq_data m f)]"
    using queued_cells [OF c4(1)] queued_cells [OF c] c3(2,3) sz1 nx c4(2) fresh m1(3) by auto
  have inv4: "mq_inv (?m4, k)"
    using c4(1) nx inv fields by (auto simp: mq_inv_def)
  have "f < max_msgs m" using c fs by (auto simp: cells_def)
  then have old: "length (mq_data m f) = msg_size m" using c by (simp add: cells_def)
  obtain k' where k': "mq_wake (?m4, k) = (RT_EOK, (?m4, k'))" "mq_inv (?m4, k')"
    "lists k' (Pending (mq_id ?m4)) = tl (lists k (Pending (mq_id ?m4)))"
    using mq_wake_inv [OF inv4] by blast
  have id4: "mq_id ?m4 = mq_id m" using c4(3) nx fields by simp
  show ?thesis
    using k' q old id4 fields sz m1(1)
    by (intro exI [of _ ?m4] exI [of _ k'] exI [of _ "mq_data m f"]) (simp add: rt_mq_send_def Let_def)
qed

lemma mq_prepend_fields [simp]: "msg_size (mq_prepend c m) = msg_size m" "mq_flag (mq_prepend c m) = mq_flag m"
  "max_msgs (mq_prepend c m) = max_msgs m"
  by (auto simp: mq_prepend_def Let_def)

lemma mq_urgent_room:
  assumes inv: "mq_inv (m, k)" and sz: "sz \<le> msg_size m" "sz \<le> length buffer" and room: "mq_entry m < max_msgs m"
  shows "\<exists>m' k' old. rt_mq_urgent buffer sz (m, k) = (RT_EOK, (m', k')) \<and> mq_inv (m', k') \<and>
    queued m' = (take sz buffer @ drop sz old) # queued m \<and>
    max_msgs m' = max_msgs m \<and> msg_size m' = msg_size m \<and> mq_id m' = mq_id m"
proof -
  obtain qs fs where c: "cells {} m qs fs" using inv by (auto simp: mq_inv_def)
  have "length fs \<noteq> 0" using cells_queue_bound [OF c] room c by (auto simp: cells_def)
  then obtain f fs' where fs: "fs = f # fs'" by (cases fs) auto
  obtain m1 where m1: "mq_alloc m = Some (f, m1)" "cells {f} m1 qs fs'" "mq_data m1 = mq_data m"
    "msg_size m1 = msg_size m" "max_msgs m1 = max_msgs m" "mq_id m1 = mq_id m"
    using alloc_cells [of "{}" m qs f fs'] c fs by auto
  have fl: "mq_flag m1 = mq_flag m" using m1(1) by (auto simp: mq_alloc_def split: option.splits)
  let ?m3 = "mq_fill f buffer sz m1"
  let ?m4 = "mq_prepend f ?m3"
  have sz1: "sz \<le> msg_size m1" using sz m1 by simp
  note c3 = fill_cells [OF m1(2), of f sz buffer, simplified, OF sz1 sz(2)]
  have fields: "mq_id ?m3 = mq_id m" "mq_flag ?m3 = mq_flag m" "msg_size ?m3 = msg_size m" "max_msgs ?m3 = max_msgs m"
    using m1 fl by (simp_all add: mq_fill_def)
  note c4 = prepend_cells [OF c3(1), of f, simplified]
  have fresh: "f \<notin> set qs" using cells_fresh [OF m1(2)] by simp
  have q: "queued ?m4 = (take sz buffer @ drop sz (mq_data m f)) # queued m"
    using queued_cells [OF c4(1)] queued_cells [OF c] c3(2,3) c4(2) fresh m1(3) by auto
  have inv4: "mq_inv (?m4, k)"
    using c4(1) inv fields by (auto simp: mq_inv_def)
  obtain k' where k': "mq_wake (?m4, k) = (RT_EOK, (?m4, k'))" "mq_inv (?m4, k')"
    using mq_wake_inv [OF inv4] by blast
  show ?thesis
    using k' q c4(3) fields sz m1(1)
    by (intro exI [of _ ?m4] exI [of _ k'] exI [of _ "mq_data m f"]) (simp add: rt_mq_urgent_def Let_def)
qed

lemma mq_recv_some:
  assumes inv: "mq_inv (m, k)" and some: "mq_entry m \<noteq> 0"
  shows "\<exists>m'. mq_recv_loop sz timeout d th (m, k) = (Return (RT_EOK, take sz (hd (queued m))), (m', k)) \<and>
    mq_inv (m', k) \<and> queued m' = tl (queued m) \<and> max_msgs m' = max_msgs m \<and> msg_size m' = msg_size m \<and>
    mq_id m' = mq_id m"
proof -
  obtain qs fs where c: "cells {} m qs fs" using inv by (auto simp: mq_inv_def)
  obtain q qs' where qs: "qs = q # qs'" using c some by (cases qs) (auto simp: cells_def)
  obtain m1 where m1: "mq_unlink m = Some (q, m1)" "cells {q} m1 qs' fs" "mq_data m1 = mq_data m"
    "msg_size m1 = msg_size m" "max_msgs m1 = max_msgs m" "mq_id m1 = mq_id m" "mq_flag m1 = mq_flag m"
    using unlink_cells [of "{}" m q qs' fs] c qs by auto
  let ?m2 = "mq_free q m1"
  have c2: "cells {} ?m2 qs' (q # fs)" using free_cells(1) [OF m1(2), of q] by simp
  have fields: "msg_size ?m2 = msg_size m" "max_msgs ?m2 = max_msgs m" "mq_id ?m2 = mq_id m" "mq_flag ?m2 = mq_flag m"
    "mq_data ?m2 = mq_data m"
    using m1 by (simp_all add: mq_free_def)
  have "q < max_msgs m" using c qs by (auto simp: cells_def)
  then have len: "length (mq_data m q) = msg_size m" using c by (simp add: cells_def)
  have hd: "queued m = mq_data m q # queued ?m2"
    using queued_cells [OF c] queued_cells [OF c2] fields qs by simp
  have "take (if sz > msg_size m then msg_size m else sz) (mq_data m q) = take sz (mq_data m q)"
    using len by auto
  then show ?thesis
    using some m1 hd c2 inv fields
    by (intro exI [of _ ?m2]) (auto simp: mq_recv_loop_def Let_def mq_inv_def)
qed

section \<open>One-byte messages: the byte queue of the scanner\<close>

text \<open>
  The application sends and receives single bytes; a cell keeps the byte in its first
  position.
\<close>

definition mq_putc :: "u8 \<Rightarrow> mq_state \<Rightarrow> mq_state option" where
  "mq_putc ch x = (case rt_mq_send [ch] 1 x of (e, y) \<Rightarrow> if e = RT_EOK then Some y else None)"

definition mq_getc :: "mq_state \<Rightarrow> (u8 \<times> mq_state) option" where
  "mq_getc x = (case rt_mq_recv 1 0 x of (Return (e, bs), y) \<Rightarrow> if e = RT_EOK then Some (hd bs, y) else None | _ \<Rightarrow> None)"

definition mq_bytes :: "mq_state \<Rightarrow> u8 list" where
  "mq_bytes x = map hd (queued (fst x))"

definition mq_cap :: "mq_state \<Rightarrow> nat" where
  "mq_cap x = max_msgs (fst x)"

lemma mq_entry_queued: "mq_inv (m, k) \<Longrightarrow> length (queued m) = mq_entry m \<and> mq_entry m \<le> max_msgs m"
proof -
  assume "mq_inv (m, k)"
  then obtain qs fs where c: "cells {} m qs fs" by (auto simp: mq_inv_def)
  have "mq_entry m = length qs" using c by (simp add: cells_def)
  then show ?thesis using cells_queue_bound [OF c] by (simp add: queued_cells [OF c])
qed

interpretation byte_queue: bounded_fifo mq_inv mq_bytes mq_cap mq_putc mq_getc
proof unfold_locales
  fix s :: mq_state and x assume inv: "mq_inv s"
  obtain m k where s: "s = (m, k)" by (cases s)
  have len: "length (queued m) = mq_entry m" "mq_entry m \<le> max_msgs m"
    using mq_entry_queued [of m k] inv by (simp_all add: s)
  have sz: "1 \<le> msg_size m" using inv by (simp add: s mq_inv_def)
  show "length (mq_bytes s) \<le> mq_cap s" using len by (simp add: s mq_bytes_def mq_cap_def)
  show "mq_putc x s = None" if "mq_cap s \<le> length (mq_bytes s)"
  proof -
    obtain qs fs where c: "cells {} m qs fs" using inv by (auto simp: s mq_inv_def)
    have "length qs = mq_entry m" using c by (simp add: cells_def)
    moreover have "max_msgs m \<le> mq_entry m" using that len by (simp add: s mq_bytes_def mq_cap_def)
    ultimately have "length fs = 0" using cells_queue_bound [OF c] by linarith
    then have "fs = []" by simp
    then show ?thesis using alloc_full c sz by (simp add: s mq_putc_def rt_mq_send_def)
  qed
  show "\<exists>t. mq_putc x s = Some t \<and> mq_inv t \<and> mq_bytes t = mq_bytes s @ [x] \<and> mq_cap t = mq_cap s"
    if "length (mq_bytes s) < mq_cap s"
  proof -
    have "mq_entry m < max_msgs m" using that len by (simp add: s mq_bytes_def mq_cap_def)
    from mq_send_room [OF inv [unfolded s] sz _ this, of "[x]"] show ?thesis
      by (auto simp: s mq_putc_def mq_bytes_def mq_cap_def)
  qed
  show "mq_getc s = None" if "mq_bytes s = []"
    using that len by (auto simp: s mq_bytes_def mq_getc_def rt_mq_recv_def)
  show "\<exists>t. mq_getc s = Some (x, t) \<and> mq_inv t \<and> mq_bytes t = xs \<and> mq_cap t = mq_cap s" if "mq_bytes s = x # xs" for xs
  proof -
    have ne: "queued m \<noteq> []" using that by (auto simp: s mq_bytes_def)
    then have e: "mq_entry m \<noteq> 0" using len(1) by (metis length_0_conv)
    have x: "hd (hd (queued m)) = x" "map hd (tl (queued m)) = xs"
      using that ne by (simp_all add: s mq_bytes_def map_tl hd_map [symmetric])
    have "hd (take 1 (hd (queued m))) = x" using x by (simp add: hd_take)
    then show ?thesis
      using mq_recv_some [OF inv [unfolded s] e, of 1 0 0 "rt_thread_self k"] e x
      by (auto simp: s mq_getc_def rt_mq_recv_def mq_bytes_def mq_cap_def)
  qed
qed

section \<open>Histories\<close>

text \<open>Sends, urgent sends and receives that do not wait; each answers a code and the bytes read.\<close>

datatype mq_op = Send "u8 list" | Urgent "u8 list" | Recv nat

fun mq_op_step :: "mq_op \<Rightarrow> mq_state \<Rightarrow> (int \<times> u8 list) \<times> mq_state" where
  "mq_op_step (Send b) x = (let (e, y) = rt_mq_send b (length b) x in ((e, []), y))"
| "mq_op_step (Urgent b) x = (let (e, y) = rt_mq_urgent b (length b) x in ((e, []), y))"
| "mq_op_step (Recv sz) x =
    (case rt_mq_recv sz 0 x of (Return r, y) \<Rightarrow> (r, y) | (Blocked w, y) \<Rightarrow> ((- RT_ERROR, []), y))"

fun mq_exec :: "mq_op list \<Rightarrow> mq_state \<Rightarrow> (int \<times> u8 list) list \<times> mq_state" where
  "mq_exec [] x = ([], x)"
| "mq_exec (a # ops) x = (let (r, y) = mq_op_step a x; (rs, z) = mq_exec ops y in (r # rs, z))"

text \<open>
  The abstract queue: bounded by \<open>c\<close> messages of at most \<open>M\<close> bytes, with entry
  at both ends. A receive with room for \<open>sz\<close> bytes answers as many bytes, at most \<open>M\<close>,
  that begin with the message, cut to \<open>sz\<close>; what stands behind a shorter message is left open.
\<close>

fun deque_step :: "nat \<Rightarrow> nat \<Rightarrow> mq_op \<Rightarrow> u8 list list \<Rightarrow> int \<times> u8 list \<Rightarrow> u8 list list \<Rightarrow> bool" where
  "deque_step c M (Send b) q r q' \<longleftrightarrow>
    (if length b > M then r = (- RT_ERROR, []) \<and> q' = q
     else if length q < c then r = (RT_EOK, []) \<and> q' = q @ [b] else r = (- RT_EFULL, []) \<and> q' = q)"
| "deque_step c M (Urgent b) q r q' \<longleftrightarrow>
    (if length b > M then r = (- RT_ERROR, []) \<and> q' = q
     else if length q < c then r = (RT_EOK, []) \<and> q' = b # q else r = (- RT_EFULL, []) \<and> q' = q)"
| "deque_step c M (Recv sz) q r q' \<longleftrightarrow>
    (case q of [] \<Rightarrow> r = (- RT_ETIMEOUT, []) \<and> q' = []
     | b # bs \<Rightarrow> fst r = RT_EOK \<and> length (snd r) = min sz M \<and> take (length b) (snd r) = take sz b \<and> q' = bs)"

fun deque_run :: "nat \<Rightarrow> nat \<Rightarrow> mq_op list \<Rightarrow> u8 list list \<Rightarrow> (int \<times> u8 list) list \<Rightarrow> u8 list list \<Rightarrow> bool" where
  "deque_run c M [] q rs q' \<longleftrightarrow> rs = [] \<and> q' = q"
| "deque_run c M (a # ops) q rs q' \<longleftrightarrow>
    (\<exists>r rs1 q1. rs = r # rs1 \<and> deque_step c M a q r q1 \<and> deque_run c M ops q1 rs1 q')"

text \<open>A cell of the pool holds a message in its first bytes.\<close>

definition carries :: "u8 list \<Rightarrow> u8 list \<Rightarrow> bool" where
  "carries cell b \<longleftrightarrow> length b \<le> length cell \<and> take (length b) cell = b"

lemma carries_fill: "length b \<le> length old \<Longrightarrow> carries (b @ drop (length b) old) b"
  by (simp add: carries_def)

lemma carries_take: "carries cell b \<Longrightarrow> take (length b) (take sz cell) = take sz b"
  by (metis carries_def min.commute take_take)

lemma queued_lengths: "mq_inv (m, k) \<Longrightarrow> cell \<in> set (queued m) \<Longrightarrow> length cell = msg_size m"
proof -
  assume "mq_inv (m, k)" and cell: "cell \<in> set (queued m)"
  then obtain qs fs where c: "cells {} m qs fs" by (auto simp: mq_inv_def)
  then have "set qs \<subseteq> {..<max_msgs m}" by (auto simp: cells_def)
  then show ?thesis using c cell by (auto simp: queued_cells [OF c] cells_def)
qed

lemma mq_full_alloc:
  assumes "mq_inv (m, k)" "\<not> mq_entry m < max_msgs m"
  shows "mq_alloc m = None"
proof -
  obtain qs fs where c: "cells {} m qs fs" using assms(1) by (auto simp: mq_inv_def)
  have "length qs = mq_entry m" using c by (simp add: cells_def)
  then have "length fs = 0" using cells_queue_bound [OF c] assms(2) by linarith
  then show ?thesis using alloc_full c by simp
qed

lemma mq_op_step_refines:
  assumes inv: "mq_inv (m, k)" and q: "list_all2 carries (queued m) q"
  shows "\<exists>r m' k' q'. mq_op_step a (m, k) = (r, (m', k')) \<and> mq_inv (m', k') \<and>
    max_msgs m' = max_msgs m \<and> msg_size m' = msg_size m \<and>
    deque_step (max_msgs m) (msg_size m) a q r q' \<and> list_all2 carries (queued m') q'"
proof -
  have len: "length q = mq_entry m" using mq_entry_queued [OF inv] list_all2_lengthD [OF q] by simp
  show ?thesis
  proof (cases a)
    case (Send b)
    consider "length b > msg_size m" | "length b \<le> msg_size m" "mq_entry m < max_msgs m"
      | "length b \<le> msg_size m" "\<not> mq_entry m < max_msgs m" by linarith
    then show ?thesis
    proof cases
      case 1
      then show ?thesis using inv q Send by (simp add: rt_mq_send_def)
    next
      case 2
      then obtain m' k' old where r: "rt_mq_send b (length b) (m, k) = (RT_EOK, (m', k'))" "mq_inv (m', k')"
        "queued m' = queued m @ [b @ drop (length b) old]" "length old = msg_size m" "max_msgs m' = max_msgs m"
        "msg_size m' = msg_size m"
        using mq_send_room [OF inv 2(1) order_refl 2(2)] by auto
      then have "list_all2 carries (queued m') (q @ [b])"
        using q 2(1) by (simp add: carries_fill list_all2_appendI)
      then show ?thesis using r len 2 Send by auto
    next
      case 3
      then show ?thesis using mq_full_alloc [OF inv 3(2)] len Send inv q by (simp add: rt_mq_send_def)
    qed
  next
    case (Urgent b)
    consider "length b > msg_size m" | "length b \<le> msg_size m" "mq_entry m < max_msgs m"
      | "length b \<le> msg_size m" "\<not> mq_entry m < max_msgs m" by linarith
    then show ?thesis
    proof cases
      case 1
      then show ?thesis using inv q Urgent by (simp add: rt_mq_urgent_def)
    next
      case 2
      then obtain m' k' old where r: "rt_mq_urgent b (length b) (m, k) = (RT_EOK, (m', k'))" "mq_inv (m', k')"
        "queued m' = (b @ drop (length b) old) # queued m" "max_msgs m' = max_msgs m" "msg_size m' = msg_size m"
        using mq_urgent_room [OF inv 2(1) order_refl 2(2)] by auto
      moreover have "length (b @ drop (length b) old) = msg_size m"
        using queued_lengths [OF r(2), of "b @ drop (length b) old"] r(3,5) by simp
      then have "list_all2 carries (queued m') (b # q)"
        using q 2(1) r(3) by (simp add: carries_def)
      ultimately show ?thesis using len 2 Urgent by auto
    next
      case 3
      then show ?thesis using mq_full_alloc [OF inv 3(2)] len Urgent inv q by (simp add: rt_mq_urgent_def)
    qed
  next
    case (Recv sz)
    show ?thesis
    proof (cases "mq_entry m = 0")
      case True
      then show ?thesis using len Recv inv q by (simp add: rt_mq_recv_def)
    next
      case False
      then obtain b bs where b: "q = b # bs" using len by (cases q) auto
      then obtain cell cs where c: "queued m = cell # cs" "carries cell b" "list_all2 carries cs bs"
        using q by (auto simp: list_all2_Cons2)
      have l: "length cell = msg_size m" using queued_lengths [OF inv, of cell] c(1) by simp
      obtain m' where "rt_mq_recv sz 0 (m, k) = (Return (RT_EOK, take sz cell), (m', k))" "mq_inv (m', k)"
        "queued m' = cs" "max_msgs m' = max_msgs m" "msg_size m' = msg_size m"
        using mq_recv_some [OF inv False, of sz 0 0 "rt_thread_self k"] False c(1) by (auto simp: rt_mq_recv_def)
      then show ?thesis using Recv b c carries_take [OF c(2)] l by (auto simp: min.commute)
    qed
  qed
qed

lemma mq_exec_refines:
  "mq_inv (m, k) \<Longrightarrow> list_all2 carries (queued m) q \<Longrightarrow> mq_exec ops (m, k) = (rs, (m', k')) \<Longrightarrow>
   \<exists>q'. deque_run (max_msgs m) (msg_size m) ops q rs q' \<and> list_all2 carries (queued m') q'"
proof (induction ops arbitrary: m k q rs)
  case (Cons a ops)
  obtain r m1 k1 q1 where s: "mq_op_step a (m, k) = (r, (m1, k1))" "mq_inv (m1, k1)"
    "max_msgs m1 = max_msgs m" "msg_size m1 = msg_size m" "deque_step (max_msgs m) (msg_size m) a q r q1"
    "list_all2 carries (queued m1) q1"
    using mq_op_step_refines [OF Cons.prems(1,2), of a] by blast
  obtain rs1 where r: "mq_exec ops (m1, k1) = (rs1, (m', k'))" "rs = r # rs1"
    using Cons.prems(3) s(1) by (auto simp: Let_def split: prod.splits)
  show ?case
    using Cons.IH [OF s(2,6) r(1)] s(3,4,5) r(2) by auto
qed simp

lemma mq_init_inv:
  fixes nm :: string
  assumes "kinv k" "lists k (Pending n) = []" "flag = RT_IPC_FLAG_FIFO \<or> flag = RT_IPC_FLAG_PRIO"
    and "0 < msize" "msize \<le> 65532" "pool_size div (RT_ALIGN msize 4 + 4) < 65536"
    and "\<forall>c. length (pool c) = RT_ALIGN msize 4"
  defines "s \<equiv> snd (rt_mq_init n nm pool msize pool_size flag k)"
  shows "mq_inv s" "queued (fst s) = []" "max_msgs (fst s) = pool_size div (RT_ALIGN msize 4 + 4)"
    "msg_size (fst s) = RT_ALIGN msize 4"
proof -
  have al: "0 < RT_ALIGN msize 4" "RT_ALIGN msize 4 mod 65536 = RT_ALIGN msize 4"
    using RT_ALIGN_ge [of 4 msize] assms(4,5) by (simp_all add: RT_ALIGN_def)
  have s: "fst s = mq_object n pool (RT_ALIGN msize 4) (pool_size div (RT_ALIGN msize 4 + 4)) flag"
    using assms(6) by (simp add: s_def rt_mq_init_def Let_def al)
  show "max_msgs (fst s) = pool_size div (RT_ALIGN msize 4 + 4)" "msg_size (fst s) = RT_ALIGN msize 4"
    by (simp_all add: s mq_object_def)
  have c: "cells {} (fst s) [] (rev [0..<pool_size div (RT_ALIGN msize 4 + 4)])"
    unfolding s by (rule mq_object_cells) (use assms in auto)
  then show "queued (fst s) = []" using queued_cells by fastforce
  have "(lists k)(Pending n := []) = lists k" using assms(2) by (simp add: fun_upd_idem)
  then have "kinv (snd s)"
    using assms(1) by (simp add: s_def rt_mq_init_def Let_def rt_ipc_object_init_def upd_objects_def)
  then show "mq_inv s"
    using c al(1) assms(3) by (auto simp: mq_inv_def s mq_object_def)
qed

text \<open>
  C34: from initialisation on, any sequence of sends, urgent sends and receives with a time-out
  of 0, of any sizes, answers as the bounded double-ended queue does: sends enter at the back,
  urgent sends at the front, a receive takes the front, and a full queue, an empty queue and
  a message too long for a cell are reported. The capacity is what the pool has room for,
  a header of four bytes for each cell, fewer than 65536 of them, and a cell is the message size,
  1 to 65532 bytes, rounded up to a word.
  What a receive answers behind a message shorter than it asks for is left open: the code
  copies what an earlier message has left in the cell (mq_short_message_stale).
\<close>

theorem mq_history_deque:
  assumes "kinv k" "lists k (Pending n) = []" "flag = RT_IPC_FLAG_FIFO \<or> flag = RT_IPC_FLAG_PRIO"
    and "0 < msize" "msize \<le> 65532" "pool_size div (RT_ALIGN msize 4 + 4) < 65536"
    and "\<forall>c. length (pool c) = RT_ALIGN msize 4"
    and "mq_exec ops (snd (rt_mq_init n nm pool msize pool_size flag k)) = (answers, (m, k'))"
  shows "\<exists>q. deque_run (pool_size div (RT_ALIGN msize 4 + 4)) (RT_ALIGN msize 4) ops [] answers q \<and>
    list_all2 carries (queued m) q"
proof -
  note i = mq_init_inv [OF assms(1-7), of nm]
  obtain m0 k0 where s: "snd (rt_mq_init n nm pool msize pool_size flag k) = (m0, k0)" by fastforce
  show ?thesis using mq_exec_refines [of m0 k0 "[]" ops] i assms(8) s by simp
qed

lemma mq_history_deque_witness:
  "\<exists>answers m k'. mq_exec [Send [1, 2], Send [3, 4, 5, 6], Urgent [7], Recv 2, Recv 3, Send [1, 2, 3, 4, 5]]
      (snd (rt_mq_init 0 ''mq'' (\<lambda>_. [0, 0, 0, 0]) 3 16 RT_IPC_FLAG_FIFO two_ready)) = (answers, (m, k')) \<and>
    answers = [(RT_EOK, []), (RT_EOK, []), (- RT_EFULL, []), (RT_EOK, [1, 2]), (RT_EOK, [3, 4, 5]), (- RT_ERROR, [])] \<and>
    queued m = []"
proof -
  let ?ops = "[Send [1, 2], Send [3, 4, 5, 6], Urgent [7], Recv 2, Recv 3, Send [1, 2, 3, 4, 5]]"
  obtain answers m k' where r: "mq_exec ?ops
      (snd (rt_mq_init 0 ''mq'' (\<lambda>_. [0, 0, 0, 0]) 3 16 RT_IPC_FLAG_FIFO two_ready)) = (answers, (m, k'))"
    by (metis prod_cases3)
  have "\<exists>q. deque_run (16 div (RT_ALIGN 3 4 + 4)) (RT_ALIGN 3 4) ?ops [] answers q \<and> list_all2 carries (queued m) q"
    by (rule mq_history_deque [OF two_ready_kinv _ _ _ _ _ _ r])
      (simp_all add: two_ready_lists RT_ALIGN_def)
  then obtain q where q: "deque_run 2 4 ?ops [] answers q" "list_all2 carries (queued m) q"
    by (auto simp: RT_ALIGN_def simp del: deque_run.simps)
  from q(1) have "answers = [(RT_EOK, []), (RT_EOK, []), (- RT_EFULL, []), (RT_EOK, [1, 2]), (RT_EOK, [3, 4, 5]), (- RT_ERROR, [])] \<and> q = []"
    by (auto simp: take_Suc_conv_app_nth numeral_eq_Suc)
  then show ?thesis using r q(2) by auto
qed

text \<open>
  A message of one byte is sent into the cell that a longer message has used before; a receive
  of two bytes then answers the new byte and one of the old message.
\<close>

theorem mq_short_message_stale:
  "\<exists>m k. mq_exec [Send [1, 2], Recv 2, Send [3], Recv 2]
      (mq_object 0 (\<lambda>_. [0, 0, 0, 0]) 4 1 RT_IPC_FLAG_FIFO, two_ready) =
    ([(RT_EOK, []), (RT_EOK, [1, 2]), (RT_EOK, []), (RT_EOK, [3, 2])], (m, k))"
  by (simp add: mq_object_def link_free_def rt_mq_send_def mq_alloc_def mq_fill_def memcpy_at_def mq_append_def
      mq_wake_def two_ready_lists rt_mq_recv_def mq_recv_loop_def mq_unlink_def mq_free_def Let_def)

text \<open>
  Sends and receives work in two steps with interrupts enabled between them. However the steps
  of any number of calls interleave, no cell of the pool is lost or doubled: the queued cells, the
  free cells and the cells in the hands of some call partition the pool, and the counter is the
  number of queued cells.
\<close>

theorem mq_no_cell_lost:
  assumes "msgs < 65536" "\<forall>c<msgs. length (pool c) = msize"
    and "mq_steps (mq_object n pool msize msgs flag) X m"
  shows "\<exists>fs. let qs = walk (mq_next m) (mq_entry m) (msg_queue_head m) in
    length qs = mq_entry m \<and> chain (mq_next m) (msg_queue_head m) qs \<and> chain (mq_next m) (msg_queue_free m) fs \<and>
    distinct (qs @ fs) \<and> X \<inter> set (qs @ fs) = {} \<and> X \<union> set (qs @ fs) = {..<max_msgs m}"
proof -
  obtain qs fs where c: "cells X m qs fs"
    using mq_steps_cells [OF assms(3) mq_object_cells [OF assms(1,2)]] by blast
  then have "walk (mq_next m) (mq_entry m) (msg_queue_head m) = qs"
    using walk_chain [of "mq_next m" "msg_queue_head m" qs] by (simp add: cells_def)
  then show ?thesis using c by (auto simp: cells_def Let_def)
qed

lemma mq_no_cell_lost_witness:
  "let m = mq_object 0 (\<lambda>_. [0]) 1 2 RT_IPC_FLAG_FIFO\<lparr>msg_queue_free := Some 0\<rparr> in
   \<exists>fs. {1} \<union> set (walk (mq_next m) (mq_entry m) (msg_queue_head m) @ fs) = {..<2}"
proof -
  let ?fresh = "mq_object 0 (\<lambda>_. [0]) 1 2 RT_IPC_FLAG_FIFO"
  let ?m = "?fresh\<lparr>msg_queue_free := Some 0\<rparr>"
  have a: "mq_alloc (mq_object 0 (\<lambda>_. [0]) 1 2 RT_IPC_FLAG_FIFO) =
      Some (1, mq_object 0 (\<lambda>_. [0]) 1 2 RT_IPC_FLAG_FIFO\<lparr>msg_queue_free := Some 0\<rparr>)"
    by (simp add: mq_alloc_def mq_object_def link_free_def upt_rec)
  have s: "mq_steps ?fresh {1} ?m" using mq_steps.alloc [OF mq_steps.start a] by (simp only:)
  have n: "max_msgs ?m = 2" by (simp add: mq_object_def)
  show ?thesis using mq_no_cell_lost [OF _ _ s] unfolding n Let_def by force
qed

end
