(* ===== verification/Allocator.thy ===== *)
theory Allocator
  imports Prelude
begin

text \<open>
  The contract of a memory allocator: which regions it has handed out, and that a call
  returns, hands out memory nobody holds, or takes back exactly the region it is given. The
  heap, the memory pools and the memory heaps of the kernel promise it; what a client may
  conclude over any run of calls is proved here once.
\<close>

text \<open>A region is an address and a length.\<close>

type_synonym region = "nat \<times> nat"

definition apart :: "region \<Rightarrow> region \<Rightarrow> bool" where
  "apart a b \<longleftrightarrow> fst a + snd a \<le> fst b \<or> fst b + snd b \<le> fst a"

datatype alloc_op = Alloc nat | Free nat

text \<open>
  A client: it asks for blocks and frees what it holds, and passes over a request to free anything
  else. \<open>out\<close> maps the addresses it holds to the lengths it asked for; a call that does not
  return ends the run with \<open>None\<close>.
\<close>

fun alloc_run ::
  "(nat \<Rightarrow> 's \<Rightarrow> (nat option \<times> 's) option) \<Rightarrow> (nat \<Rightarrow> 's \<Rightarrow> 's) \<Rightarrow>
   alloc_op list \<Rightarrow> (nat \<rightharpoonup> nat) \<times> 's \<Rightarrow> ((nat \<rightharpoonup> nat) \<times> 's) option"
where
  "alloc_run alloc free [] (out, s) = Some (out, s)"
| "alloc_run alloc free (Alloc n # ops) (out, s) =
    (case alloc n s of
       None \<Rightarrow> None
     | Some (None, t) \<Rightarrow> alloc_run alloc free ops (out, t)
     | Some (Some p, t) \<Rightarrow> alloc_run alloc free ops (out(p \<mapsto> n), t))"
| "alloc_run alloc free (Free p # ops) (out, s) =
    (if p \<in> dom out then alloc_run alloc free ops (out(p := None), free p s)
     else alloc_run alloc free ops (out, s))"

locale allocator =
  fixes ok :: "'s \<Rightarrow> bool"
    and arena :: "'s \<Rightarrow> region"
    and live :: "'s \<Rightarrow> region set"
    and limit :: nat
    and alloc :: "nat \<Rightarrow> 's \<Rightarrow> (nat option \<times> 's) option"
    and free :: "nat \<Rightarrow> 's \<Rightarrow> 's"
  assumes live_apart: "ok s \<Longrightarrow> a \<in> live s \<Longrightarrow> b \<in> live s \<Longrightarrow> a \<noteq> b \<Longrightarrow> fst a \<noteq> fst b \<and> apart a b"
    and live_inside: "ok s \<Longrightarrow> a \<in> live s \<Longrightarrow> fst (arena s) \<le> fst a \<and> fst a + snd a \<le> fst (arena s) + snd (arena s)"
    and alloc_returns: "ok s \<Longrightarrow> \<exists>r t. alloc n s = Some (r, t)"
    and alloc_fails: "ok s \<Longrightarrow> alloc n s = Some (None, t) \<Longrightarrow> ok t \<and> live t = live s \<and> arena t = arena s"
    and alloc_gives: "ok s \<Longrightarrow> n \<le> limit \<Longrightarrow> alloc n s = Some (Some p, t) \<Longrightarrow>
      ok t \<and> arena t = arena s \<and> p \<notin> fst ` live s \<and> (\<exists>m\<ge>n. live t = insert (p, m) (live s))"
    and free_takes: "ok s \<Longrightarrow> (p, m) \<in> live s \<Longrightarrow>
      ok (free p s) \<and> arena (free p s) = arena s \<and> live (free p s) = live s - {(p, m)}"
begin

definition holds :: "(nat \<rightharpoonup> nat) \<Rightarrow> 's \<Rightarrow> bool" where
  "holds out s \<longleftrightarrow> fst ` live s = dom out \<and> (\<forall>p n. out p = Some n \<longrightarrow> (\<exists>m\<ge>n. (p, m) \<in> live s))"

lemma holdsD: "holds out s \<Longrightarrow> out p = Some n \<Longrightarrow> \<exists>m\<ge>n. (p, m) \<in> live s"
  unfolding holds_def by blast

lemma holds_fail: "holds out s \<Longrightarrow> live t = live s \<Longrightarrow> holds out t"
  by (simp add: holds_def)

lemma holds_give:
  "holds out s \<Longrightarrow> p \<notin> fst ` live s \<Longrightarrow> n \<le> m \<Longrightarrow> live t = insert (p, m) (live s) \<Longrightarrow> holds (out(p \<mapsto> n)) t"
  by (auto simp: holds_def)

lemma holds_take:
  assumes "ok s" "holds out s" "(p, m) \<in> live s" "live t = live s - {(p, m)}"
  shows "holds (out(p := None)) t"
proof -
  have u: "(p, m') \<in> live s \<Longrightarrow> m' = m" for m'
    using live_apart [OF assms(1,3), of "(p, m')"] by auto
  have "fst ` live t = fst ` live s - {p}"
  proof
    show "fst ` live t \<subseteq> fst ` live s - {p}" unfolding assms(4) using u by auto
    show "fst ` live s - {p} \<subseteq> fst ` live t" unfolding assms(4) by force
  qed
  moreover have "\<exists>m\<ge>n. (q, m) \<in> live t" if "q \<noteq> p" "out q = Some n" for q n
    using holdsD [OF assms(2) that(2)] that(1) unfolding assms(4) by blast
  ultimately show ?thesis using assms(2) by (simp add: holds_def)
qed

definition requests_ok :: "alloc_op list \<Rightarrow> bool" where
  "requests_ok ops \<longleftrightarrow> (\<forall>n. Alloc n \<in> set ops \<longrightarrow> n \<le> limit)"

lemma requests_ok_simps [simp]:
  "requests_ok (Alloc n # ops) \<longleftrightarrow> n \<le> limit \<and> requests_ok ops"
  "requests_ok (Free p # ops) \<longleftrightarrow> requests_ok ops"
  by (auto simp: requests_ok_def)

lemma run_holds:
  "ok s \<Longrightarrow> holds out s \<Longrightarrow> requests_ok ops \<Longrightarrow> alloc_run alloc free ops (out, s) = Some (out', s') \<Longrightarrow>
   ok s' \<and> holds out' s' \<and> arena s' = arena s"
proof (induction ops arbitrary: out s)
  case (Cons a ops)
  show ?case
  proof (cases a)
    case (Alloc n)
    obtain r t where t: "alloc n s = Some (r, t)" using alloc_returns [OF Cons.prems(1)] by blast
    show ?thesis
    proof (cases r)
      case None
      then show ?thesis
        using Cons.IH [of t out] Cons.prems Alloc t alloc_fails [of s n t] holds_fail [of out s t] by simp
    next
      case (Some p)
      then have g: "ok t" "arena t = arena s" "p \<notin> fst ` live s" "\<exists>m\<ge>n. live t = insert (p, m) (live s)"
        using alloc_gives [OF Cons.prems(1), of n p t] Cons.prems(3) Alloc t by simp_all
      then have "holds (out(p \<mapsto> n)) t" using holds_give [OF Cons.prems(2)] by blast
      then show ?thesis using Cons.IH [OF g(1)] Cons.prems(3,4) Alloc t Some g(2) by simp
    qed
  next
    case (Free p)
    show ?thesis
    proof (cases "p \<in> dom out")
      case True
      then obtain m where m: "(p, m) \<in> live s" using holdsD [OF Cons.prems(2)] by blast
      note f = free_takes [OF Cons.prems(1) m]
      have "holds (out(p := None)) (free p s)" using holds_take [OF Cons.prems(1,2) m] f by blast
      then show ?thesis using Cons.IH [of "free p s"] f Cons.prems(3,4) Free True by simp
    next
      case False
      then show ?thesis using Cons.IH [of s out] Cons.prems Free by simp
    qed
  qed
qed simp

text \<open>
  Whatever a client does, the blocks it holds lie in the arena and do not overlap, at the lengths
  it asked for.
\<close>

lemma run_live:
  assumes "ok s" "live s = {}" "requests_ok ops" "alloc_run alloc free ops (\<lambda>_. None, s) = Some (out, s')"
  shows "ok s'" "holds out s'" "arena s' = arena s"
proof -
  have "holds (\<lambda>_. None) s" using assms(2) by (simp add: holds_def)
  then show "ok s'" "holds out s'" "arena s' = arena s" using run_holds [OF assms(1) _ assms(3,4)] by simp_all
qed

lemma run_inside:
  assumes "ok s" "live s = {}" "requests_ok ops" "alloc_run alloc free ops (\<lambda>_. None, s) = Some (out, s')"
    and "out p = Some n"
  shows "fst (arena s) \<le> p \<and> p + n \<le> fst (arena s) + snd (arena s)"
proof -
  note h = run_live [OF assms(1-4)]
  obtain m where "n \<le> m" "(p, m) \<in> live s'" using holdsD [OF h(2) assms(5)] by blast
  then show ?thesis using live_inside [OF h(1), of "(p, m)"] h(3) by simp
qed

lemma run_apart:
  assumes "ok s" "live s = {}" "requests_ok ops" "alloc_run alloc free ops (\<lambda>_. None, s) = Some (out, s')"
    and "out p = Some n" "out q = Some m" "p \<noteq> q"
  shows "apart (p, n) (q, m)"
proof -
  note h = run_live [OF assms(1-4)]
  obtain n' where n: "n \<le> n'" "(p, n') \<in> live s'" using holdsD [OF h(2) assms(5)] by blast
  obtain m' where m: "m \<le> m'" "(q, m') \<in> live s'" using holdsD [OF h(2) assms(6)] by blast
  show ?thesis using live_apart [OF h(1) n(2) m(2)] assms(7) n(1) m(1) by (auto simp: apart_def)
qed

text \<open>No client is ever stuck.\<close>

lemma run_returns:
  "ok s \<Longrightarrow> holds out s \<Longrightarrow> requests_ok ops \<Longrightarrow> \<exists>r. alloc_run alloc free ops (out, s) = Some r"
proof (induction ops arbitrary: out s)
  case (Cons a ops)
  show ?case
  proof (cases a)
    case (Alloc n)
    obtain r t where t: "alloc n s = Some (r, t)" using alloc_returns [OF Cons.prems(1)] by blast
    show ?thesis
    proof (cases r)
      case None
      then show ?thesis
        using Cons.IH [of t out] Cons.prems Alloc t alloc_fails [of s n t] holds_fail [of out s t] by simp
    next
      case (Some p)
      then have g: "ok t" "p \<notin> fst ` live s" "\<exists>m\<ge>n. live t = insert (p, m) (live s)"
        using alloc_gives [OF Cons.prems(1), of n p t] Cons.prems(3) Alloc t by simp_all
      then have "holds (out(p \<mapsto> n)) t" using holds_give [OF Cons.prems(2)] by blast
      moreover have "requests_ok ops" using Cons.prems(3) Alloc by simp
      ultimately have "\<exists>r. alloc_run alloc free ops (out(p \<mapsto> n), t) = Some r" using Cons.IH [OF g(1)] by blast
      then show ?thesis using Alloc t Some by simp
    qed
  next
    case (Free p)
    show ?thesis
    proof (cases "p \<in> dom out")
      case True
      then obtain m where m: "(p, m) \<in> live s" using holdsD [OF Cons.prems(2)] by blast
      note f = free_takes [OF Cons.prems(1) m]
      have "holds (out(p := None)) (free p s)" using holds_take [OF Cons.prems(1,2) m] f by blast
      then show ?thesis using Cons.IH [of "free p s"] f Cons.prems(3) Free True by simp
    next
      case False
      then show ?thesis using Cons.IH [of s out] Cons.prems Free by simp
    qed
  qed
qed simp

end

end
