(* ===== verification/Mem.thy ===== *)
theory Mem
  imports CString Allocator
begin

text \<open>
  The small-memory heap of \<^verbatim>\<open>src/mem.c\<close>: a first-fit allocator whose blocks tile one
  arena. A header of twelve bytes in front of each block holds its state and the offsets of its
  neighbours; \<^verbatim>\<open>lfree\<close> points to where the search starts. Offsets and sizes are
  natural numbers below 2^32, subtracted and aligned as 32-bit words are. Headers are kept apart
  from the bytes of the blocks: that no block of a client covers a header is a result below, not an
  assumption. Each call is what happens between the take and the release of
  \<^verbatim>\<open>heap_sem\<close> (theory Semaphore); \<^verbatim>\<open>RT_ASSERT\<close> and the traces are compiled
  out.
\<close>

section \<open>The code\<close>

definition HEAP_MAGIC :: u16 where "HEAP_MAGIC = 0x1ea0"

abbreviation (input) SIZEOF_STRUCT_MEM :: nat where "SIZEOF_STRUCT_MEM \<equiv> 12"
abbreviation (input) MIN_SIZE_ALIGNED :: nat where "MIN_SIZE_ALIGNED \<equiv> 12"

record heap_mem =
  h_magic :: u16
  h_used :: bool
  h_next :: nat
  h_prev :: nat

record heap =
  hdr :: "nat \<Rightarrow> heap_mem"
  bytes :: raw
  heap_ptr :: nat
  heap_end :: nat
  lfree :: nat
  mem_size_aligned :: nat
  used_mem :: nat
  max_mem :: nat

text \<open>\<^verbatim>\<open>rt_size_t\<close> arithmetic: subtraction and \<^verbatim>\<open>RT_ALIGN\<close> in 32 bits.\<close>

definition sub32 :: "nat \<Rightarrow> nat \<Rightarrow> nat" where
  "sub32 a b = (if b \<le> a then a - b else a + 2 ^ 32 - b)"

definition align32 :: "nat \<Rightarrow> nat" where
  "align32 n = RT_ALIGN n 4 mod 2 ^ 32"

definition upd_hdr :: "nat \<Rightarrow> (heap_mem \<Rightarrow> heap_mem) \<Rightarrow> heap \<Rightarrow> heap" where
  "upd_hdr b f h = h\<lparr>hdr := (hdr h)(b := f (hdr h b))\<rparr>"

abbreviation "nx h b \<equiv> h_next (hdr h b)"
abbreviation "pv h b \<equiv> h_prev (hdr h b)"
abbreviation "us h b \<equiv> h_used (hdr h b)"

text \<open>Both halves of \<^verbatim>\<open>plug_holes\<close> join a block \<open>n\<close> to the block \<open>m\<close> in front of it.\<close>

definition absorb :: "nat \<Rightarrow> nat \<Rightarrow> heap \<Rightarrow> heap" where
  "absorb m n h =
    (let h1 = (if lfree h = n then h\<lparr>lfree := m\<rparr> else h);
         h2 = upd_hdr m (\<lambda>x. x\<lparr>h_next := nx h1 n\<rparr>) h1
     in upd_hdr (nx h2 n) (\<lambda>x. x\<lparr>h_prev := m\<rparr>) h2)"

definition plug_forward :: "nat \<Rightarrow> heap \<Rightarrow> heap" where
  "plug_forward mem h =
    (let nmem = nx h mem in
     if mem \<noteq> nmem \<and> \<not> us h nmem \<and> nmem \<noteq> heap_end h then absorb mem nmem h else h)"

definition plug_backward :: "nat \<Rightarrow> heap \<Rightarrow> heap" where
  "plug_backward mem h =
    (let pmem = pv h mem in
     if pmem \<noteq> mem \<and> \<not> us h pmem then absorb pmem mem h else h)"

definition plug_holes :: "nat \<Rightarrow> heap \<Rightarrow> heap" where
  "plug_holes mem h = plug_backward mem (plug_forward mem h)"

text \<open>\<open>None\<close>: the arena is too small, and the heap stays as it was.\<close>

definition rt_system_heap_init :: "nat \<Rightarrow> nat \<Rightarrow> heap \<Rightarrow> heap option" where
  "rt_system_heap_init begin_addr end_addr h =
    (let begin_align = align32 begin_addr; end_align = RT_ALIGN_DOWN end_addr 4 in
     if end_align > 2 * SIZEOF_STRUCT_MEM \<and> end_align - 2 * SIZEOF_STRUCT_MEM \<ge> begin_align
     then let sz = end_align - begin_align - 2 * SIZEOF_STRUCT_MEM;
              e = sz + SIZEOF_STRUCT_MEM;
              first = \<lparr>h_magic = HEAP_MAGIC, h_used = False, h_next = e, h_prev = 0\<rparr>;
              final = \<lparr>h_magic = HEAP_MAGIC, h_used = True, h_next = e, h_prev = e\<rparr>
          in Some (h\<lparr>hdr := (hdr h)(0 := first, e := final), heap_ptr := begin_align, heap_end := e,
                     lfree := 0, mem_size_aligned := sz\<rparr>)
     else None)"

text \<open>The search of \<^verbatim>\<open>rt_malloc\<close>; it follows the headers and does not end on a broken chain.\<close>

partial_function (option) malloc_search :: "nat \<Rightarrow> heap \<Rightarrow> nat \<Rightarrow> nat option option" where
  "malloc_search sz h ptr =
    (if ptr < sub32 (mem_size_aligned h) sz
     then if \<not> us h ptr \<and> sub32 (nx h ptr) (ptr + SIZEOF_STRUCT_MEM) \<ge> sz then Some (Some ptr)
          else malloc_search sz h (nx h ptr)
     else Some None)"

definition note_used :: "nat \<Rightarrow> heap \<Rightarrow> heap" where
  "note_used n h =
    (let u = (used_mem h + n) mod 2 ^ 32 in h\<lparr>used_mem := u, max_mem := if max_mem h < u then u else max_mem h\<rparr>)"

text \<open>Taking the block found: it is split where the rest is big enough for a block of its own.\<close>

definition malloc_take :: "nat \<Rightarrow> nat \<Rightarrow> heap \<Rightarrow> heap" where
  "malloc_take sz ptr h =
    (let h1 =
       (if sub32 (nx h ptr) (ptr + SIZEOF_STRUCT_MEM) \<ge> sz + SIZEOF_STRUCT_MEM + MIN_SIZE_ALIGNED
        then let ptr2 = ptr + SIZEOF_STRUCT_MEM + sz;
                 a = upd_hdr ptr2 (\<lambda>_. \<lparr>h_magic = HEAP_MAGIC, h_used = False, h_next = nx h ptr, h_prev = ptr\<rparr>) h;
                 b = upd_hdr ptr (\<lambda>x. x\<lparr>h_next := ptr2, h_used := True\<rparr>) a;
                 c = (if nx b ptr2 \<noteq> mem_size_aligned h + SIZEOF_STRUCT_MEM
                      then upd_hdr (nx b ptr2) (\<lambda>x. x\<lparr>h_prev := ptr2\<rparr>) b else b)
             in note_used (sz + SIZEOF_STRUCT_MEM) c
        else let b = upd_hdr ptr (\<lambda>x. x\<lparr>h_used := True\<rparr>) h in note_used (sub32 (nx b ptr) ptr) b)
     in upd_hdr ptr (\<lambda>x. x\<lparr>h_magic := HEAP_MAGIC\<rparr>) h1)"

partial_function (option) next_free :: "heap \<Rightarrow> nat \<Rightarrow> nat option" where
  "next_free h p = (if us h p \<and> p \<noteq> heap_end h then next_free h (nx h p) else Some p)"

definition rt_malloc :: "nat \<Rightarrow> heap \<Rightarrow> (nat option \<times> heap) option" where
  "rt_malloc n h =
    (if n = 0 then Some (None, h)
     else if align32 n > mem_size_aligned h then Some (None, h)
     else let sz = (if align32 n < MIN_SIZE_ALIGNED then MIN_SIZE_ALIGNED else align32 n) in
       Option.bind (malloc_search sz h (lfree h))
         (\<lambda>found. case found of
            None \<Rightarrow> Some (None, h)
          | Some ptr \<Rightarrow>
              let h1 = malloc_take sz ptr h;
                  result = heap_ptr h + ptr + SIZEOF_STRUCT_MEM
              in if ptr = lfree h1
                 then map_option (\<lambda>l. (Some result, h1\<lparr>lfree := l\<rparr>)) (next_free h1 (lfree h1))
                 else Some (Some result, h1)))"

text \<open>An address outside the arena is ignored.\<close>

definition rt_free :: "nat option \<Rightarrow> heap \<Rightarrow> heap" where
  "rt_free rmem h =
    (case rmem of
       None \<Rightarrow> h
     | Some r \<Rightarrow>
        if r < heap_ptr h \<or> r \<ge> heap_ptr h + heap_end h then h
        else let mem = sub32 (r - heap_ptr h) SIZEOF_STRUCT_MEM;
                 h1 = upd_hdr mem (\<lambda>x. x\<lparr>h_used := False, h_magic := HEAP_MAGIC\<rparr>) h;
                 h2 = (if r < heap_ptr h + lfree h1 + SIZEOF_STRUCT_MEM then h1\<lparr>lfree := mem\<rparr> else h1);
                 h3 = h2\<lparr>used_mem := sub32 (used_mem h2) (sub32 (nx h2 mem) mem)\<rparr>
             in plug_holes mem h3)"

text \<open>The shrinking branch of \<^verbatim>\<open>rt_realloc\<close>.\<close>

definition realloc_split :: "nat \<Rightarrow> nat \<Rightarrow> nat \<Rightarrow> heap \<Rightarrow> heap" where
  "realloc_split ptr sz newsize h =
    (let h0 = h\<lparr>used_mem := sub32 (used_mem h) (sz - newsize)\<rparr>;
         ptr2 = ptr + SIZEOF_STRUCT_MEM + newsize;
         a = upd_hdr ptr2 (\<lambda>_. \<lparr>h_magic = HEAP_MAGIC, h_used = False, h_next = nx h0 ptr, h_prev = ptr\<rparr>) h0;
         b = upd_hdr ptr (\<lambda>x. x\<lparr>h_next := ptr2\<rparr>) a;
         c = (if nx b ptr2 \<noteq> mem_size_aligned h + SIZEOF_STRUCT_MEM
              then upd_hdr (nx b ptr2) (\<lambda>x. x\<lparr>h_prev := ptr2\<rparr>) b else b)
     in plug_holes ptr2 c)"

definition rt_realloc :: "nat option \<Rightarrow> nat \<Rightarrow> heap \<Rightarrow> (nat option \<times> heap) option" where
  "rt_realloc rmem n h =
    (let newsize = align32 n in
     if newsize > mem_size_aligned h then Some (None, h)
     else if newsize = 0 then Some (None, rt_free rmem h)
     else case rmem of
       None \<Rightarrow> rt_malloc newsize h
     | Some r \<Rightarrow>
        if r < heap_ptr h \<or> r \<ge> heap_ptr h + heap_end h then Some (Some r, h)
        else let ptr = sub32 (r - heap_ptr h) SIZEOF_STRUCT_MEM;
                 sz = sub32 (sub32 (nx h ptr) ptr) SIZEOF_STRUCT_MEM
             in if sz = newsize then Some (Some r, h)
                else if newsize + SIZEOF_STRUCT_MEM + 12 < sz
                then Some (Some r, realloc_split ptr sz newsize h)
                else map_option
                  (\<lambda>(nmem, h1).
                     case nmem of
                       None \<Rightarrow> (None, h1)
                     | Some a \<Rightarrow>
                         (Some a, rt_free (Some r)
                            (h1\<lparr>bytes := copy_up a r (if sz < newsize then sz else newsize) (bytes h1)\<rparr>)))
                  (rt_malloc newsize h))"

definition rt_calloc :: "nat \<Rightarrow> nat \<Rightarrow> heap \<Rightarrow> (nat option \<times> heap) option" where
  "rt_calloc count sz h =
    (let n = count * sz mod 2 ^ 32 in
     map_option
       (\<lambda>(p, h1). case p of None \<Rightarrow> (None, h1) | Some a \<Rightarrow> (Some a, h1\<lparr>bytes := fill_up a 0 n (bytes h1)\<rparr>))
       (rt_malloc n h))"

definition rt_memory_info :: "heap \<Rightarrow> nat \<times> nat \<times> nat" where
  "rt_memory_info h = (mem_size_aligned h, used_mem h, max_mem h)"

section \<open>Tiled arenas\<close>

text \<open>
  \<open>B\<close> holds the offsets of the blocks: each ends where the next begins, the last at
  \<^verbatim>\<open>heap_end\<close>, and the links back agree.
\<close>

definition shape :: "nat set \<Rightarrow> heap \<Rightarrow> bool" where
  "shape B h \<longleftrightarrow>
     0 \<in> B \<and> B \<subseteq> {..<heap_end h} \<and>
     (\<forall>b\<in>B. b + 16 \<le> nx h b \<and> (nx h b \<in> B \<or> nx h b = heap_end h) \<and> (\<forall>c\<in>B. c \<le> b \<or> nx h b \<le> c) \<and>
        4 dvd b \<and> h_magic (hdr h b) = HEAP_MAGIC) \<and>
     (\<forall>b\<in>B. nx h b \<in> B \<longrightarrow> pv h (nx h b) = b) \<and> pv h 0 = 0 \<and>
     us h (heap_end h) \<and> nx h (heap_end h) = heap_end h \<and>
     mem_size_aligned h + 12 = heap_end h \<and> 12 \<le> mem_size_aligned h \<and> 4 dvd heap_end h \<and>
     4 dvd heap_ptr h \<and> heap_ptr h + heap_end h + 12 \<le> 2 ^ 32"

text \<open>No two free blocks touch, \<open>m\<close> aside.\<close>

definition coalesced :: "nat option \<Rightarrow> nat set \<Rightarrow> heap \<Rightarrow> bool" where
  "coalesced m B h \<longleftrightarrow> (\<forall>b\<in>B. \<not> us h b \<longrightarrow> us h (nx h b) \<or> m = Some b \<or> m = Some (nx h b))"

definition lfree_ok :: "nat set \<Rightarrow> heap \<Rightarrow> bool" where
  "lfree_ok B h \<longleftrightarrow> lfree h = heap_end h \<or> lfree h \<in> B \<and> \<not> us h (lfree h)"

text \<open>The search starts below every free block.\<close>

definition lowest :: "nat set \<Rightarrow> heap \<Rightarrow> bool" where
  "lowest B h \<longleftrightarrow> (\<forall>c\<in>B. \<not> us h c \<longrightarrow> lfree h \<le> c)"

definition used_blocks :: "nat set \<Rightarrow> heap \<Rightarrow> nat set" where
  "used_blocks B h = {b \<in> B. us h b}"

definition accounted :: "nat set \<Rightarrow> heap \<Rightarrow> bool" where
  "accounted B h \<longleftrightarrow> used_mem h = (\<Sum>b\<in>used_blocks B h. nx h b - b)"

definition heap_inv :: "nat set \<Rightarrow> heap \<Rightarrow> bool" where
  "heap_inv B h \<longleftrightarrow> shape B h \<and> coalesced None B h \<and> lfree_ok B h \<and> accounted B h"

lemma shape_nx: "shape B h \<Longrightarrow> b \<in> B \<Longrightarrow> b + 16 \<le> nx h b \<and> nx h b \<le> heap_end h \<and> b < heap_end h"
  by (fastforce simp: shape_def)

lemma shape_finite: "shape B h \<Longrightarrow> finite B"
  by (meson finite_lessThan finite_subset shape_def)

lemma shape_apart: "shape B h \<Longrightarrow> b \<in> B \<Longrightarrow> c \<in> B \<Longrightarrow> b \<noteq> c \<Longrightarrow> nx h b \<le> c \<or> nx h c \<le> b"
  by (metis nat_less_le not_less shape_def)

lemma shape_link: "shape B h \<Longrightarrow> b \<in> B \<Longrightarrow> nx h b \<in> B \<Longrightarrow> pv h (nx h b) = b"
  by (simp add: shape_def)

lemma shape_next: "shape B h \<Longrightarrow> b \<in> B \<Longrightarrow> nx h b \<in> B \<or> nx h b = heap_end h"
  by (simp add: shape_def)

lemma shape_end: "shape B h \<Longrightarrow> heap_end h \<notin> B"
  by (auto simp: shape_def)

lemma shape_pred:
  assumes s: "shape B h" and b: "b \<in> B" "b \<noteq> 0"
  shows "pv h b \<in> B \<and> nx h (pv h b) = b"
proof -
  let ?A = "{a \<in> B. a < b}"
  have fin: "finite ?A" using shape_finite [OF s] by simp
  moreover have "0 \<in> ?A" using s b by (simp add: shape_def)
  ultimately have m: "Max ?A \<in> ?A" using Max_in by blast
  have "nx h (Max ?A) \<le> b" using shape_apart [OF s, of "Max ?A" b] shape_nx [OF s b(1)] m b by fastforce
  moreover have "\<not> nx h (Max ?A) < b"
  proof
    assume lt: "nx h (Max ?A) < b"
    moreover have "nx h (Max ?A) \<in> B" using s m lt shape_nx [OF s b(1)] by (auto simp: shape_def)
    ultimately have "nx h (Max ?A) \<le> Max ?A" using Max_ge [OF fin] by simp
    then show False using shape_nx [OF s, of "Max ?A"] m by simp
  qed
  ultimately have "nx h (Max ?A) = b" by simp
  then show ?thesis using s m b by (metis (no_types, lifting) mem_Collect_eq shape_def)
qed

text \<open>The set of blocks is what the links reach from the start of the arena.\<close>

definition blocks :: "heap \<Rightarrow> nat set" where
  "blocks h = {b. b < heap_end h \<and> (\<exists>n. (nx h ^^ n) 0 = b)}"

lemma blocks_shape:
  assumes s: "shape B h"
  shows "blocks h = B"
proof
  have "(nx h ^^ n) 0 \<in> B \<or> (nx h ^^ n) 0 = heap_end h" for n
    using s by (induction n) (auto simp: shape_def)
  then show "blocks h \<subseteq> B" by (fastforce simp: blocks_def)
  have "b \<in> B \<Longrightarrow> \<exists>n. (nx h ^^ n) 0 = b" for b
  proof (induction b rule: less_induct)
    case (less b)
    show ?case
    proof (cases "b = 0")
      case True
      then show ?thesis by (metis funpow_0)
    next
      case False
      then have p: "pv h b \<in> B" "nx h (pv h b) = b" using shape_pred [OF s less.prems] by auto
      then have "pv h b < b" using shape_nx [OF s p(1)] by simp
      then obtain n where "(nx h ^^ n) 0 = pv h b" using less.IH p(1) by blast
      then have "(nx h ^^ Suc n) 0 = b" using p(2) by simp
      then show ?thesis by blast
    qed
  qed
  then show "B \<subseteq> blocks h" using s by (auto simp: blocks_def shape_def)
qed

section \<open>Splitting and joining blocks\<close>

lemma upd_hdr_simps [simp]:
  "hdr (upd_hdr b f h) = (hdr h)(b := f (hdr h b))" "bytes (upd_hdr b f h) = bytes h"
  "heap_ptr (upd_hdr b f h) = heap_ptr h" "heap_end (upd_hdr b f h) = heap_end h"
  "lfree (upd_hdr b f h) = lfree h" "mem_size_aligned (upd_hdr b f h) = mem_size_aligned h"
  "used_mem (upd_hdr b f h) = used_mem h" "max_mem (upd_hdr b f h) = max_mem h"
  by (simp_all add: upd_hdr_def)

lemma absorb_simps:
  assumes "m \<noteq> n"
  shows "bytes (absorb m n h) = bytes h" "heap_ptr (absorb m n h) = heap_ptr h" "heap_end (absorb m n h) = heap_end h"
    "lfree (absorb m n h) = (if lfree h = n then m else lfree h)"
    "mem_size_aligned (absorb m n h) = mem_size_aligned h" "used_mem (absorb m n h) = used_mem h"
    "us (absorb m n h) b = us h b" "h_magic (hdr (absorb m n h) b) = h_magic (hdr h b)"
    "nx (absorb m n h) b = (if b = m then nx h n else nx h b)"
    "pv (absorb m n h) b = (if b = nx h n then m else pv h b)"
  using assms by (auto simp: absorb_def Let_def)

lemma absorb_shape:
  assumes s: "shape B h" and m: "m \<in> B" "nx h m \<in> B"
  shows "shape (B - {nx h m}) (absorb m (nx h m) h)"
proof -
  let ?n = "nx h m"
  have mn: "m + 16 \<le> ?n" "?n + 16 \<le> nx h ?n" using shape_nx [OF s m(1)] shape_nx [OF s m(2)] by auto
  then have ne: "m \<noteq> ?n" by simp
  have np: "nx h b \<noteq> ?n" if "b \<in> B" "b \<noteq> m" for b
    using s m that by (metis shape_def)
  have nn: "nx h ?n \<in> B \<or> nx h ?n = heap_end h" "pv h ?n = m" using s m by (auto simp: shape_def)
  have far: "c \<le> m \<or> nx h ?n \<le> c" if "c \<in> B - {?n}" for c
    using shape_apart [OF s m(2), of c] shape_apart [OF s m(1), of c] shape_nx [OF s, of c] that by fastforce
  show ?thesis
    unfolding shape_def absorb_simps [OF ne]
  proof (intro conjI ballI impI)
    fix b assume b: "b \<in> B - {?n}"
    show "b + 16 \<le> (if b = m then nx h ?n else nx h b)"
      using b mn shape_nx [OF s] by auto
    show "(if b = m then nx h ?n else nx h b) \<in> B - {?n} \<or> (if b = m then nx h ?n else nx h b) = heap_end h"
      using b nn mn np [of b] s by (auto simp: shape_def)
    show "c \<le> b \<or> (if b = m then nx h ?n else nx h b) \<le> c" if "c \<in> B - {?n}" for c
      using b that far s by (auto simp: shape_def)
    show "4 dvd b" "h_magic (hdr h b) = HEAP_MAGIC" using b s by (auto simp: shape_def)
    show "(if (if b = m then nx h ?n else nx h b) = nx h ?n then m else pv h (if b = m then nx h ?n else nx h b)) = b"
      if in_B: "(if b = m then nx h ?n else nx h b) \<in> B - {?n}"
    proof (cases "b = m")
      case False
      have "nx h b \<noteq> nx h ?n"
      proof
        assume e: "nx h b = nx h ?n"
        have inB: "nx h b \<in> B" using in_B False by simp
        have "b = pv h (nx h b)" using shape_link [OF s _ inB] b by simp
        also have "\<dots> = pv h (nx h ?n)" by (simp only: e)
        also have "\<dots> = ?n" using shape_link [OF s m(2)] inB unfolding e .
        finally show False using b by blast
      qed
      then show ?thesis using False in_B shape_link [OF s, of b] b by simp
    qed simp
  next
    have "nx h ?n \<noteq> 0" "m \<noteq> heap_end h" using mn shape_end [OF s] m by auto
    then show "(if 0 = nx h ?n then m else pv h 0) = 0"
      "(if heap_end h = m then nx h ?n else nx h (heap_end h)) = heap_end h"
      using s by (simp_all add: shape_def)
    show "B - {?n} \<subseteq> {..<heap_end h}" "0 \<in> B - {?n}" using s mn by (auto simp: shape_def)
  qed (use s in \<open>simp_all add: shape_def\<close>)
qed

lemma shape_cong:
  assumes "shape B h" "\<And>x. nx h' x = nx h x" "\<And>x. pv h' x = pv h x" "us h' (heap_end h)"
    and "\<And>x. x \<in> B \<Longrightarrow> h_magic (hdr h' x) = HEAP_MAGIC"
    and "heap_end h' = heap_end h" "mem_size_aligned h' = mem_size_aligned h" "heap_ptr h' = heap_ptr h"
  shows "shape B h'"
  using assms by (simp add: shape_def)

lemma split_shape:
  assumes s: "shape B h" and b: "b \<in> B" and p2: "b + 16 \<le> p2" "p2 + 16 \<le> nx h b" "4 dvd p2"
    and nx': "\<And>x. nx h' x = (if x = b then p2 else if x = p2 then nx h b else nx h x)"
    and pv': "\<And>x. x \<noteq> heap_end h \<Longrightarrow> pv h' x = (if x = p2 then b else if x = nx h b then p2 else pv h x)"
    and us': "us h' (heap_end h)"
    and mg': "\<And>x. x \<in> insert p2 B \<Longrightarrow> h_magic (hdr h' x) = HEAP_MAGIC"
    and fr: "heap_end h' = heap_end h" "mem_size_aligned h' = mem_size_aligned h" "heap_ptr h' = heap_ptr h"
  shows "shape (insert p2 B) h'"
proof -
  have out: "p2 \<notin> B"
    using shape_apart [OF s b, of p2] shape_nx [OF s, of p2] p2 by fastforce
  have lt: "p2 < heap_end h" "nx h b \<noteq> 0" using shape_nx [OF s b] p2 by auto
  have cases: "c \<le> b \<or> nx h b \<le> c" if "c \<in> B" for c using s b that by (auto simp: shape_def)
  have other: "nx h x \<le> b \<or> nx h b \<le> x" if "x \<in> B" "x \<noteq> b" for x
    using shape_apart [OF s that(1) b that(2)] by auto
  have ne: "nx h x \<noteq> nx h b" if "x \<in> B" "x \<noteq> b" for x
    using other [OF that] shape_nx [OF s that(1)] shape_nx [OF s b] by auto
  show ?thesis
    unfolding shape_def fr nx'
  proof (intro conjI ballI impI)
    fix x assume x: "x \<in> insert p2 B"
    show "x + 16 \<le> (if x = b then p2 else if x = p2 then nx h b else nx h x)"
      using x p2 shape_nx [OF s] by auto
    show "(if x = b then p2 else if x = p2 then nx h b else nx h x) \<in> insert p2 B \<or>
        (if x = b then p2 else if x = p2 then nx h b else nx h x) = heap_end h"
      using x shape_next [OF s] b by auto
    show "c \<le> x \<or> (if x = b then p2 else if x = p2 then nx h b else nx h x) \<le> c" if c: "c \<in> insert p2 B" for c
    proof (cases "x = b \<or> x = p2")
      case True
      then show ?thesis using c cases [of c] p2 by auto
    next
      case False
      then have "x \<in> B" using x by simp
      then show ?thesis using c False other [of x] s p2 by (auto simp: shape_def)
    qed
    show "4 dvd x" using x s p2 by (auto simp: shape_def)
    show "h_magic (hdr h' x) = HEAP_MAGIC" by (rule mg' [OF x])
    show "pv h' (if x = b then p2 else if x = p2 then nx h b else nx h x) = x"
      if in_B: "(if x = b then p2 else if x = p2 then nx h b else nx h x) \<in> insert p2 B"
    proof -
      let ?y = "if x = b then p2 else if x = p2 then nx h b else nx h x"
      have "?y \<noteq> heap_end h" using in_B shape_end [OF s] lt by auto
      from pv' [OF this] show ?thesis
        using x in_B p2 out ne [of x] other [of x] shape_nx [OF s, of x] shape_link [OF s, of x] by (auto split: if_splits)
    qed
  next
    show "pv h' 0 = 0"
      using pv' [of 0] lt p2 s by (auto simp: shape_def)
    show "(if heap_end h = b then p2 else if heap_end h = p2 then nx h b else nx h (heap_end h)) = heap_end h"
      using lt b shape_end [OF s] s by (auto simp: shape_def)
    show "insert p2 B \<subseteq> {..<heap_end h}" using s lt by (simp add: shape_def)
  qed (use s us' in \<open>simp_all add: shape_def\<close>)
qed

section \<open>Freeing a block\<close>

lemma extents_bound:
  assumes s: "shape B h" and A: "A \<subseteq> B"
  shows "(\<Sum>b\<in>A. nx h b - b) \<le> heap_end h"
proof -
  have fin: "finite A" using shape_finite [OF s] A finite_subset by blast
  have "{b..<nx h b} \<inter> {c..<nx h c} = {}" if "b \<in> A" "c \<in> A" "b \<noteq> c" for b c
    using shape_apart [OF s, of b c] A that by fastforce
  then have "(\<Sum>b\<in>A. card {b..<nx h b}) = card (\<Union>b\<in>A. {b..<nx h b})"
    using fin by (intro card_UN_disjoint [symmetric]) auto
  also have "\<dots> \<le> card {..<heap_end h}"
    using shape_nx [OF s] A by (intro card_mono) fastforce+
  finally show ?thesis by simp
qed

text \<open>What the operations leave alone: the used blocks, their extents and the bytes.\<close>

definition same_used :: "nat set \<Rightarrow> heap \<Rightarrow> nat set \<Rightarrow> heap \<Rightarrow> bool" where
  "same_used B h B' h' \<longleftrightarrow> used_blocks B' h' = used_blocks B h \<and> (\<forall>b\<in>used_blocks B h. nx h' b = nx h b) \<and>
     bytes h' = bytes h \<and> heap_ptr h' = heap_ptr h \<and> heap_end h' = heap_end h \<and>
     mem_size_aligned h' = mem_size_aligned h"

lemma same_used_refl: "same_used B h B h"
  by (simp add: same_used_def)

lemma same_used_trans: "same_used B h B1 h1 \<Longrightarrow> same_used B1 h1 B2 h2 \<Longrightarrow> same_used B h B2 h2"
  by (simp add: same_used_def)

lemma same_used_accounted:
  "same_used B h B' h' \<Longrightarrow> used_mem h' = used_mem h \<Longrightarrow> accounted B h \<Longrightarrow> accounted B' h'"
  by (simp add: same_used_def accounted_def)

lemma absorb_used:
  assumes "m \<noteq> n" "\<not> us h n" "\<not> us h m"
  shows "same_used B h (B - {n}) (absorb m n h)"
  using assms by (auto simp: same_used_def used_blocks_def absorb_simps)

lemma absorb_lfree:
  assumes "m \<noteq> n" "m \<in> B" "\<not> us h m" "n \<noteq> heap_end h" "lfree_ok B h"
  shows "lfree_ok (B - {n}) (absorb m n h)"
  using assms by (auto simp: lfree_ok_def absorb_simps)

lemma absorb_lowest:
  assumes "m < n" "m \<in> B" "\<not> us h m" "lowest B h"
  shows "lowest (B - {n}) (absorb m n h)"
proof -
  have "lfree h \<noteq> n" using assms by (auto simp: lowest_def)
  moreover have "m \<noteq> n" using assms(1) by simp
  ultimately show ?thesis using assms(4) by (auto simp: lowest_def absorb_simps)
qed

definition behind_ok :: "nat \<Rightarrow> nat set \<Rightarrow> heap \<Rightarrow> bool" where
  "behind_ok m B h \<longleftrightarrow> (\<forall>b\<in>B. \<not> us h b \<longrightarrow> us h (nx h b) \<or> nx h b = m)"

lemma plug_forward_ok:
  assumes s: "shape B h" and m: "m \<in> B" "\<not> us h m" and c: "coalesced (Some m) B h" and l: "lfree_ok B h"
  shows "\<exists>B'. shape B' (plug_forward m h) \<and> behind_ok m B' (plug_forward m h) \<and> lfree_ok B' (plug_forward m h) \<and>
    m \<in> B' \<and> \<not> us (plug_forward m h) m \<and> same_used B h B' (plug_forward m h) \<and>
    used_mem (plug_forward m h) = used_mem h \<and> (lowest B h \<longrightarrow> lowest B' (plug_forward m h))"
proof (cases "\<not> us h (nx h m) \<and> nx h m \<noteq> heap_end h")
  case True
  let ?n = "nx h m"
  have n: "?n \<in> B" "m \<noteq> ?n" "m + 16 \<le> ?n" using shape_next [OF s m(1)] shape_nx [OF s m(1)] True by auto
  have e: "plug_forward m h = absorb m ?n h" using True n by (simp add: plug_forward_def Let_def)
  have nn: "?n + 16 \<le> nx h ?n" using shape_nx [OF s n(1)] by simp
  have "us h (nx h ?n)" using c n True nn unfolding coalesced_def by fastforce
  moreover have "us h (nx h b) \<or> nx h b = m" if "b \<in> B" "b \<noteq> m" "\<not> us h b" for b
    using c that unfolding coalesced_def by fastforce
  ultimately have "behind_ok m (B - {?n}) (absorb m ?n h)"
    using n(2) by (auto simp: behind_ok_def absorb_simps)
  then show ?thesis
    unfolding e using absorb_shape [OF s m(1) n(1)] absorb_lfree [OF n(2) m(1,2) _ l] absorb_used [OF n(2) _ m(2)]
      absorb_lowest [of m ?n B h] True m n
    by (intro exI [of _ "B - {?n}"]) (simp add: absorb_simps)
next
  case False
  then have e: "plug_forward m h = h" by (auto simp: plug_forward_def Let_def)
  have "us h (nx h m)" using False s by (auto simp: shape_def)
  then have "behind_ok m B h" using c by (auto simp: behind_ok_def coalesced_def)
  then show ?thesis
    unfolding e using s l m by (intro exI [of _ B]) (simp add: same_used_refl)
qed

lemma plug_backward_ok:
  assumes s: "shape B h" and m: "m \<in> B" "\<not> us h m" and c: "behind_ok m B h" and l: "lfree_ok B h"
  shows "\<exists>B'. shape B' (plug_backward m h) \<and> coalesced None B' (plug_backward m h) \<and> lfree_ok B' (plug_backward m h) \<and>
    same_used B h B' (plug_backward m h) \<and> used_mem (plug_backward m h) = used_mem h \<and>
    (lowest B h \<longrightarrow> lowest B' (plug_backward m h))"
proof (cases "pv h m \<noteq> m \<and> \<not> us h (pv h m)")
  case True
  let ?p = "pv h m"
  have "m \<noteq> 0" using True s by (cases "m = 0") (simp_all add: shape_def)
  then have p: "?p \<in> B" "nx h ?p = m" using shape_pred [OF s m(1)] by auto
  have ne: "?p \<noteq> m" using True by simp
  have e: "plug_backward m h = absorb ?p m h" using True by (simp add: plug_backward_def Let_def)
  have "m + 16 \<le> nx h m" using shape_nx [OF s m(1)] by simp
  then have um: "us h (nx h m)" using c m by (auto simp: behind_ok_def)
  have "us h (nx h b)" if "b \<in> B" "b \<noteq> ?p" "\<not> us h b" for b
  proof -
    have "nx h b \<noteq> m"
    proof
      assume "nx h b = m"
      then show False using shape_link [OF s that(1)] m(1) that(2) by simp
    qed
    then show ?thesis using c that by (auto simp: behind_ok_def)
  qed
  then have "coalesced None (B - {m}) (absorb ?p m h)"
    using um ne by (auto simp: coalesced_def absorb_simps)
  moreover have "shape (B - {m}) (absorb ?p m h)" using absorb_shape [OF s p(1)] p(2) m(1) by simp
  moreover have "?p < m" using shape_nx [OF s p(1)] p(2) by simp
  ultimately show ?thesis
    unfolding e using absorb_lfree [OF ne p(1) _ _ l] absorb_used [OF ne m(2)] absorb_lowest [OF _ p(1), of m h] True
      shape_end [OF s] m
    by (intro exI [of _ "B - {m}"]) (auto simp: absorb_simps [OF ne])
next
  case False
  then have e: "plug_backward m h = h" by (auto simp: plug_backward_def Let_def)
  have "coalesced None B h"
    unfolding coalesced_def
  proof (intro ballI impI)
    fix b assume b: "b \<in> B" "\<not> us h b"
    have "nx h b \<noteq> m"
    proof
      assume n: "nx h b = m"
      then have "pv h m = b" using shape_link [OF s b(1)] m(1) by simp
      then have "b = m" using False b(2) by auto
      then show False using shape_nx [OF s b(1)] n by simp
    qed
    then show "us h (nx h b) \<or> None = Some b \<or> None = Some (nx h b)" using c b by (auto simp: behind_ok_def)
  qed
  then show ?thesis
    unfolding e using s l by (intro exI [of _ B]) (simp add: same_used_refl)
qed

lemma plug_holes_ok:
  assumes "shape B h" "m \<in> B" "\<not> us h m" "coalesced (Some m) B h" "lfree_ok B h" "accounted B h"
  shows "\<exists>B'. heap_inv B' (plug_holes m h) \<and> same_used B h B' (plug_holes m h) \<and>
    (lowest B h \<longrightarrow> lowest B' (plug_holes m h))"
proof -
  obtain B1 where f: "shape B1 (plug_forward m h)" "behind_ok m B1 (plug_forward m h)" "lfree_ok B1 (plug_forward m h)"
    "m \<in> B1" "\<not> us (plug_forward m h) m" "same_used B h B1 (plug_forward m h)" "used_mem (plug_forward m h) = used_mem h"
    "lowest B h \<longrightarrow> lowest B1 (plug_forward m h)"
    using plug_forward_ok [OF assms(1-5)] by blast
  obtain B2 where b: "shape B2 (plug_holes m h)" "coalesced None B2 (plug_holes m h)" "lfree_ok B2 (plug_holes m h)"
    "same_used B1 (plug_forward m h) B2 (plug_holes m h)" "used_mem (plug_holes m h) = used_mem h"
    "lowest B1 (plug_forward m h) \<longrightarrow> lowest B2 (plug_holes m h)"
    using plug_backward_ok [OF f(1,4,5,2,3)] f(7) unfolding plug_holes_def by auto
  have su: "same_used B h B2 (plug_holes m h)" by (rule same_used_trans [OF f(6) b(4)])
  then show ?thesis
    using b f(8) same_used_accounted [OF su b(5) assms(6)] by (intro exI [of _ B2]) (simp add: heap_inv_def)
qed

lemma free_ok:
  assumes inv: "heap_inv B h" and b: "b \<in> used_blocks B h"
  shows "\<exists>B'. heap_inv B' (rt_free (Some (heap_ptr h + b + 12)) h) \<and>
    used_blocks B' (rt_free (Some (heap_ptr h + b + 12)) h) = used_blocks B h - {b} \<and>
    (\<forall>c\<in>used_blocks B h - {b}. nx (rt_free (Some (heap_ptr h + b + 12)) h) c = nx h c) \<and>
    bytes (rt_free (Some (heap_ptr h + b + 12)) h) = bytes h \<and>
    heap_ptr (rt_free (Some (heap_ptr h + b + 12)) h) = heap_ptr h \<and>
    heap_end (rt_free (Some (heap_ptr h + b + 12)) h) = heap_end h \<and>
    mem_size_aligned (rt_free (Some (heap_ptr h + b + 12)) h) = mem_size_aligned h \<and>
    (lowest B h \<longrightarrow> lowest B' (rt_free (Some (heap_ptr h + b + 12)) h))"
proof -
  have s: "shape B h" and c: "coalesced None B h" and l: "lfree_ok B h" and a: "accounted B h"
    using inv by (simp_all add: heap_inv_def)
  have bB: "b \<in> B" "us h b" using b by (simp_all add: used_blocks_def)
  have bd: "b + 16 \<le> nx h b" "nx h b \<le> heap_end h" "b < heap_end h" using shape_nx [OF s bB(1)] by auto
  define h1 where "h1 = upd_hdr b (\<lambda>x. x\<lparr>h_used := False, h_magic := HEAP_MAGIC\<rparr>) h"
  define h2 where "h2 = (if b < lfree h1 then h1\<lparr>lfree := b\<rparr> else h1)"
  define h3 where "h3 = h2\<lparr>used_mem := sub32 (used_mem h2) (sub32 (nx h2 b) b)\<rparr>"
  have e: "rt_free (Some (heap_ptr h + b + 12)) h = plug_holes b h3"
    using bd by (simp add: rt_free_def Let_def h3_def h2_def h1_def sub32_def)
  have f: "hdr h3 = (hdr h)(b := (hdr h b)\<lparr>h_used := False, h_magic := HEAP_MAGIC\<rparr>)" "bytes h3 = bytes h"
    "heap_ptr h3 = heap_ptr h" "heap_end h3 = heap_end h" "mem_size_aligned h3 = mem_size_aligned h"
    "lfree h3 = (if b < lfree h then b else lfree h)"
    by (simp_all add: h3_def h2_def h1_def)
  have n: "nx h3 x = nx h x" "pv h3 x = pv h x" "us h3 x = (us h x \<and> x \<noteq> b)" for x by (simp_all add: f)
  have fin: "finite (used_blocks B h)" using shape_finite [OF s] by (simp add: used_blocks_def)
  have ub: "used_blocks B h3 = used_blocks B h - {b}" using n by (auto simp: used_blocks_def)
  have "us h3 (heap_end h)" using s bd by (simp add: n shape_def)
  then have s3: "shape B h3"
    by (rule shape_cong [OF s n(1,2)]) (use s in \<open>auto simp: f shape_def\<close>)
  have c3: "coalesced (Some b) B h3" using c by (auto simp: coalesced_def n)
  have l3: "lfree_ok B h3" using l bB by (auto simp: lfree_ok_def f)
  have sum: "(\<Sum>x\<in>used_blocks B h. nx h x - x) = (nx h b - b) + (\<Sum>x\<in>used_blocks B h - {b}. nx h x - x)"
    by (rule sum.remove [OF fin b])
  have "used_mem h3 = sub32 (used_mem h) (nx h b - b)"
    using bd by (simp add: h3_def h2_def h1_def sub32_def)
  then have "accounted B h3"
    using a sum by (simp add: accounted_def ub n sub32_def)
  from plug_holes_ok [OF s3 bB(1) _ c3 l3 this] n
  obtain B' where "heap_inv B' (plug_holes b h3)" "same_used B h3 B' (plug_holes b h3)"
    "lowest B h3 \<longrightarrow> lowest B' (plug_holes b h3)" by auto
  moreover have "lowest B h \<longrightarrow> lowest B h3" by (auto simp: lowest_def f)
  ultimately show ?thesis
    unfolding e by (intro exI [of _ B']) (simp add: same_used_def ub n f)
qed

section \<open>Allocating a block\<close>

definition fits :: "nat \<Rightarrow> heap \<Rightarrow> nat \<Rightarrow> bool" where
  "fits sz h q \<longleftrightarrow> \<not> us h q \<and> q + 12 + sz \<le> nx h q"

text \<open>The search ends, and it finds the first block that fits among those it looks at.\<close>

lemma malloc_search_ok:
  assumes s: "shape B h" and sz: "sz \<le> mem_size_aligned h"
  shows "p \<in> B \<or> p = heap_end h \<Longrightarrow>
    \<exists>r. malloc_search sz h p = Some r \<and>
      (case r of
         Some q \<Rightarrow> q \<in> B \<and> p \<le> q \<and> q < mem_size_aligned h - sz \<and> fits sz h q \<and> (\<forall>c\<in>B. p \<le> c \<and> c < q \<longrightarrow> \<not> fits sz h c)
       | None \<Rightarrow> \<forall>c\<in>B. p \<le> c \<and> c < mem_size_aligned h - sz \<longrightarrow> \<not> fits sz h c)"
proof (induction "heap_end h - p" arbitrary: p rule: less_induct)
  case less
  have lim: "sub32 (mem_size_aligned h) sz = mem_size_aligned h - sz" using sz by (simp add: sub32_def)
  show ?case
  proof (cases "p < mem_size_aligned h - sz")
    case False
    then show ?thesis by (intro exI [of _ None]) (auto simp: malloc_search.simps [of sz h p] lim)
  next
    case True
    then have p: "p \<in> B" using less.prems s by (auto simp: shape_def)
    have n: "p + 16 \<le> nx h p" using shape_nx [OF s p] by simp
    then have sub: "sub32 (nx h p) (p + 12) = nx h p - (p + 12)" by (simp add: sub32_def)
    show ?thesis
    proof (cases "fits sz h p")
      case fit: True
      then have "\<not> us h p" "sz \<le> nx h p - (p + 12)" by (auto simp: fits_def)
      then show ?thesis
        using True p fit by (intro exI [of _ "Some p"]) (auto simp: malloc_search.simps [of sz h p] lim sub)
    next
      case nofit: False
      have next_B: "nx h p \<in> B \<or> nx h p = heap_end h" by (rule shape_next [OF s p])
      have "heap_end h - nx h p < heap_end h - p" using shape_nx [OF s p] by linarith
      from less.hyps [OF this next_B] obtain r where r: "malloc_search sz h (nx h p) = Some r"
        "case r of
           Some q \<Rightarrow> q \<in> B \<and> nx h p \<le> q \<and> q < mem_size_aligned h - sz \<and> fits sz h q \<and> (\<forall>c\<in>B. nx h p \<le> c \<and> c < q \<longrightarrow> \<not> fits sz h c)
         | None \<Rightarrow> \<forall>c\<in>B. nx h p \<le> c \<and> c < mem_size_aligned h - sz \<longrightarrow> \<not> fits sz h c" by blast
      have far: "c = p \<or> nx h p \<le> c" if "c \<in> B" "p \<le> c" for c
        using s p that unfolding shape_def by (meson le_antisym)
      have "malloc_search sz h p = Some r"
        using nofit True n r(1) by (auto simp: malloc_search.simps [of sz h p] lim sub fits_def)
      then show ?thesis
        using r(2) nofit far n by (intro exI [of _ r]) (fastforce split: option.splits)
    qed
  qed
qed

lemma next_free_ok:
  assumes s: "shape B h"
  shows "p \<in> B \<or> p = heap_end h \<Longrightarrow>
    \<exists>q. next_free h p = Some q \<and> p \<le> q \<and> (q = heap_end h \<or> q \<in> B \<and> \<not> us h q) \<and>
      (\<forall>c\<in>B. p \<le> c \<and> c < q \<longrightarrow> us h c)"
proof (induction "heap_end h - p" arbitrary: p rule: less_induct)
  case less
  show ?case
  proof (cases "us h p \<and> p \<noteq> heap_end h")
    case False
    then show ?thesis using less.prems by (intro exI [of _ p]) (auto simp: next_free.simps [of h p])
  next
    case True
    then have p: "p \<in> B" using less.prems by simp
    have n: "p + 16 \<le> nx h p" "nx h p \<le> heap_end h" using shape_nx [OF s p] by auto
    then have "heap_end h - nx h p < heap_end h - p" by simp
    from less.hyps [OF this shape_next [OF s p]] obtain q where q: "next_free h (nx h p) = Some q" "nx h p \<le> q"
      "q = heap_end h \<or> q \<in> B \<and> \<not> us h q" "\<forall>c\<in>B. nx h p \<le> c \<and> c < q \<longrightarrow> us h c" by blast
    have far: "c = p \<or> nx h p \<le> c" if "c \<in> B" "p \<le> c" for c
      using s p that unfolding shape_def by (meson le_antisym)
    have "next_free h p = Some q" using q(1) True by (simp add: next_free.simps [of h p])
    then show ?thesis using q(2-4) n True far by (intro exI [of _ q]) fastforce
  qed
qed

lemma align32_ok:
  assumes "n \<le> 2 ^ 32 - 4"
  shows "n \<le> align32 n" "4 dvd align32 n" "align32 n < n + 4"
proof -
  have "n + 3 < 2 ^ 32" using assms by simp
  then have "(n + 3) div 4 * 4 < 2 ^ 32" by linarith
  then have e: "align32 n = (n + 3) div 4 * 4" by (simp add: align32_def RT_ALIGN_def)
  show "n \<le> align32 n" "align32 n < n + 4" unfolding e by linarith+
  show "4 dvd align32 n" unfolding e by simp
qed

lemma align32_dvd: "4 dvd align32 n"
proof -
  have "(4 :: nat) dvd 2 ^ 32" by simp
  then show ?thesis unfolding align32_def RT_ALIGN_def by (metis dvd_mod dvd_triv_right)
qed

lemma note_used_simps [simp]:
  "hdr (note_used n h) = hdr h" "bytes (note_used n h) = bytes h" "heap_ptr (note_used n h) = heap_ptr h"
  "heap_end (note_used n h) = heap_end h" "lfree (note_used n h) = lfree h"
  "mem_size_aligned (note_used n h) = mem_size_aligned h" "used_mem (note_used n h) = (used_mem h + n) mod 2 ^ 32"
  by (simp_all add: note_used_def Let_def)

lemma malloc_take_frame [simp]:
  "bytes (malloc_take sz b h) = bytes h" "heap_ptr (malloc_take sz b h) = heap_ptr h"
  "heap_end (malloc_take sz b h) = heap_end h" "lfree (malloc_take sz b h) = lfree h"
  "mem_size_aligned (malloc_take sz b h) = mem_size_aligned h"
  by (simp_all add: malloc_take_def Let_def)

text \<open>What an allocation leaves behind, for a block \<open>b\<close> of \<open>B\<close>.\<close>

definition taken :: "nat set \<Rightarrow> heap \<Rightarrow> nat \<Rightarrow> nat set \<Rightarrow> heap \<Rightarrow> bool" where
  "taken B h b B' h' \<longleftrightarrow> shape B' h' \<and> coalesced None B' h' \<and> accounted B' h' \<and>
     used_blocks B' h' = insert b (used_blocks B h) \<and> (\<forall>c\<in>used_blocks B h. nx h' c = nx h c) \<and> B \<subseteq> B' \<and>
     (\<forall>c\<in>B. c \<noteq> b \<longrightarrow> us h' c = us h c) \<and> (\<forall>c\<in>B' - B. b < c)"

lemma taken_account:
  assumes "shape B' h'" "accounted B h" "finite B" "used_blocks B' h' = insert b (used_blocks B h)" "b \<notin> used_blocks B h"
    and "\<forall>c\<in>used_blocks B h. nx h' c = nx h c" "used_mem h' = (used_mem h + (nx h' b - b)) mod 2 ^ 32"
  shows "accounted B' h'"
proof -
  have fin: "finite (used_blocks B h)" using assms(3) by (simp add: used_blocks_def)
  have sum: "(\<Sum>c\<in>used_blocks B' h'. nx h' c - c) = used_mem h + (nx h' b - b)"
    using assms(2,5,6) fin by (simp add: accounted_def assms(4))
  have "(\<Sum>c\<in>used_blocks B' h'. nx h' c - c) \<le> heap_end h'"
    by (rule extents_bound [OF assms(1)]) (auto simp: used_blocks_def)
  also have "\<dots> < 2 ^ 32" using assms(1) by (simp add: shape_def)
  finally have "used_mem h + (nx h' b - b) < 2 ^ 32" by (simp only: sum)
  then show ?thesis using assms(7) sum by (simp add: accounted_def)
qed

lemma malloc_take_ok:
  assumes s: "shape B h" and c: "coalesced None B h" and a: "accounted B h"
    and b: "b \<in> B" "fits sz h b" and sz: "4 dvd sz" "12 \<le> sz"
  shows "\<exists>B'. taken B h b B' (malloc_take sz b h) \<and> b + 12 + sz \<le> nx (malloc_take sz b h) b"
proof -
  let ?h = "malloc_take sz b h" and ?p2 = "b + 12 + sz"
  have free: "\<not> us h b" "?p2 \<le> nx h b" using b(2) by (simp_all add: fits_def)
  have out: "b \<notin> used_blocks B h" using free by (simp add: used_blocks_def)
  have nb: "b + 16 \<le> nx h b" "nx h b \<le> heap_end h" "b \<noteq> heap_end h" using shape_nx [OF s b(1)] by auto
  have sub: "sub32 (nx h b) (b + 12) = nx h b - (b + 12)" using nb by (simp add: sub32_def)
  have un: "us h (nx h b)" using c b free by (auto simp: coalesced_def)
  have nob: "nx h x \<noteq> b" if "x \<in> B" "\<not> us h x" for x using c that free by (auto simp: coalesced_def)
  have he: "mem_size_aligned h + 12 = heap_end h" using s by (simp add: shape_def)
  show ?thesis
  proof (cases "nx h b - (b + 12) \<ge> sz + 12 + 12")
    case True
    then have p2: "b + 16 \<le> ?p2" "?p2 + 16 \<le> nx h b" "4 dvd ?p2" "?p2 \<noteq> b" "?p2 \<noteq> nx h b"
      using sz s b by (auto simp: shape_def)
    have outp: "?p2 \<notin> B" using shape_apart [OF s b(1), of ?p2] shape_nx [OF s, of ?p2] p2 by fastforce
    have nop: "nx h x \<noteq> ?p2" if "x \<in> B" for x
      using shape_next [OF s that] outp p2 nb by auto
    have H: "nx ?h x = (if x = b then ?p2 else if x = ?p2 then nx h b else nx h x)"
      "x \<noteq> heap_end h \<Longrightarrow> pv ?h x = (if x = ?p2 then b else if x = nx h b then ?p2 else pv h x)"
      "us ?h x = (if x = b then True else if x = ?p2 then False else us h x)"
      "h_magic (hdr ?h x) = (if x = b \<or> x = ?p2 then HEAP_MAGIC else h_magic (hdr h x))" for x
      using True sub p2 nb he by (auto simp: malloc_take_def Let_def)
    have s': "shape (insert ?p2 B) ?h"
      by (rule split_shape [OF s b(1) p2(1-3) H(1)])
        (use H(2-4) s p2 nb in \<open>auto simp: shape_def\<close>)
    have ub: "used_blocks (insert ?p2 B) ?h = insert b (used_blocks B h)"
      using outp b(1) p2(4) by (auto simp: used_blocks_def H(3))
    have nxs: "\<forall>x\<in>used_blocks B h. nx ?h x = nx h x" using out outp by (auto simp: used_blocks_def H(1))
    have "coalesced None (insert ?p2 B) ?h"
      using c un nob nop outp p2(5) free(1) by (auto simp: coalesced_def H(1,3))
    moreover have "accounted (insert ?p2 B) ?h"
      by (rule taken_account [OF s' a shape_finite [OF s] ub out nxs])
        (use True sub in \<open>simp add: H(1)\<close>, simp add: malloc_take_def Let_def add.commute)
    ultimately have "taken B h b (insert ?p2 B) ?h"
      using s' ub nxs outp p2(1) by (auto simp: taken_def H(3))
    then show ?thesis by (intro exI [of _ "insert ?p2 B"]) (simp add: H(1))
  next
    case False
    have H: "nx ?h x = nx h x" "pv ?h x = pv h x" "us ?h x = (us h x \<or> x = b)"
      "h_magic (hdr ?h x) = (if x = b then HEAP_MAGIC else h_magic (hdr h x))" for x
      using False sub by (auto simp: malloc_take_def Let_def)
    have s': "shape B ?h"
      by (rule shape_cong [OF s H(1,2)]) (use s in \<open>auto simp: H shape_def\<close>)
    have ub: "used_blocks B ?h = insert b (used_blocks B h)" using b(1) by (auto simp: used_blocks_def H(3))
    have "coalesced None B ?h" using c by (auto simp: coalesced_def H)
    moreover have "accounted B ?h"
      by (rule taken_account [OF s' a shape_finite [OF s] ub out])
        (use False sub nb in \<open>simp_all add: H(1) malloc_take_def Let_def sub32_def\<close>)
    ultimately have "taken B h b B ?h"
      using s' ub by (auto simp: taken_def H)
    then show ?thesis using free by (intro exI [of _ B]) (simp add: H(1))
  qed
qed

text \<open>The size a request is served with, and the blocks a search from \<^verbatim>\<open>lfree\<close> passes over.\<close>

definition req :: "nat \<Rightarrow> nat" where
  "req n = (if align32 n < 12 then 12 else align32 n)"

definition passed_over :: "nat set \<Rightarrow> heap \<Rightarrow> nat \<Rightarrow> nat \<Rightarrow> bool" where
  "passed_over B h sz lim \<longleftrightarrow> (\<forall>c\<in>B. lfree h \<le> c \<and> c < lim \<longrightarrow> \<not> fits sz h c)"

text \<open>\<^verbatim>\<open>rt_malloc\<close> returns; it changes nothing, or hands out a block that was free.\<close>

lemma malloc_ok:
  assumes inv: "heap_inv B h"
  shows "\<exists>r h'. rt_malloc n h = Some (r, h') \<and> bytes h' = bytes h \<and> heap_ptr h' = heap_ptr h \<and>
    heap_end h' = heap_end h \<and> mem_size_aligned h' = mem_size_aligned h \<and>
    (case r of
       None \<Rightarrow> h' = h \<and> (n = 0 \<or> mem_size_aligned h < align32 n \<or> passed_over B h (req n) (mem_size_aligned h - req n))
     | Some p \<Rightarrow> \<exists>b B'. p = heap_ptr h + b + 12 \<and> b \<in> B - used_blocks B h \<and> heap_inv B' h' \<and>
         used_blocks B' h' = insert b (used_blocks B h) \<and> (\<forall>c\<in>used_blocks B h. nx h' c = nx h c) \<and>
         b + 12 + align32 n \<le> nx h' b \<and> 0 < n \<and> fits (req n) h b \<and> lfree h \<le> b \<and> passed_over B h (req n) b \<and>
         (lowest B h \<longrightarrow> lowest B' h'))"
proof -
  have s: "shape B h" and c: "coalesced None B h" and l: "lfree_ok B h" and a: "accounted B h"
    using inv by (simp_all add: heap_inv_def)
  show ?thesis
  proof (cases "n = 0 \<or> align32 n > mem_size_aligned h")
    case True
    then show ?thesis by (intro exI [of _ None] exI [of _ h]) (auto simp: rt_malloc_def)
  next
    case False
    define sz where "sz = req n"
    have sz: "4 dvd sz" "12 \<le> sz" "align32 n \<le> sz" "sz \<le> mem_size_aligned h"
      using align32_dvd [of n] False s by (auto simp: sz_def req_def shape_def)
    have "lfree h \<in> B \<or> lfree h = heap_end h" using l by (auto simp: lfree_ok_def)
    from malloc_search_ok [OF s sz(4) this] obtain r where r: "malloc_search sz h (lfree h) = Some r"
      "\<And>q. r = Some q \<Longrightarrow> q \<in> B \<and> fits sz h q \<and> lfree h \<le> q \<and> passed_over B h sz q"
      "r = None \<Longrightarrow> passed_over B h sz (mem_size_aligned h - sz)"
      by (cases "malloc_search sz h (lfree h)") (auto simp: passed_over_def split: option.splits)
    show ?thesis
    proof (cases r)
      case None
      then show ?thesis
        using r(1,3) False by (intro exI [of _ None] exI [of _ h]) (auto simp: rt_malloc_def Let_def sz_def req_def)
    next
      case (Some b)
      then have b: "b \<in> B" "fits sz h b" "lfree h \<le> b" "passed_over B h sz b" using r(2) by auto
      let ?h = "malloc_take sz b h"
      obtain B' where B': "taken B h b B' ?h" "b + 12 + sz \<le> nx ?h b"
        using malloc_take_ok [OF s c a b(1,2) sz(1,2)] by blast
      have s': "shape B' ?h" and BB: "B \<subseteq> B'" using B'(1) by (simp_all add: taken_def)
      have lf: "lfree h \<in> B' \<or> lfree h = heap_end h" using l BB by (auto simp: lfree_ok_def)
      obtain q where q: "next_free ?h (lfree h) = Some q" "q = heap_end h \<or> q \<in> B' \<and> \<not> us ?h q"
        "lfree h \<le> q" "\<forall>c\<in>B'. lfree h \<le> c \<and> c < q \<longrightarrow> us ?h c"
        using next_free_ok [OF s', of "lfree h"] lf by auto
      define h' where "h' = (if b = lfree h then ?h\<lparr>lfree := q\<rparr> else ?h)"
      have e: "rt_malloc n h = Some (Some (heap_ptr h + b + 12), h')"
        using False r(1) Some q(1) by (auto simp: rt_malloc_def Let_def sz_def [unfolded req_def, symmetric] h'_def)
      have f: "hdr h' = hdr ?h" "bytes h' = bytes h" "heap_ptr h' = heap_ptr h" "heap_end h' = heap_end h"
        "mem_size_aligned h' = mem_size_aligned h" "used_mem h' = used_mem ?h" "lfree h' = (if b = lfree h then q else lfree h)"
        by (simp_all add: h'_def)
      have lk: "lfree_ok B' h'"
        using q(2) l BB B'(1) by (auto simp: lfree_ok_def f taken_def)
      have "shape B' h'" by (rule shape_cong [OF s']) (use s' in \<open>auto simp: f shape_def\<close>)
      then have "heap_inv B' h'"
        using B'(1) lk by (simp add: heap_inv_def taken_def coalesced_def accounted_def used_blocks_def f)
      moreover have "used_blocks B' h' = insert b (used_blocks B h)" "\<forall>c\<in>used_blocks B h. nx h' c = nx h c"
        using B'(1) by (simp_all add: taken_def used_blocks_def f)
      moreover have "b \<in> B - used_blocks B h" using b by (simp add: used_blocks_def fits_def)
      moreover have "b + 12 + align32 n \<le> nx h' b" using B'(2) sz(3) by (simp add: f)
      moreover have "lowest B' h'" if low: "lowest B h"
        unfolding lowest_def
      proof (intro ballI impI)
        fix x assume x: "x \<in> B'" "\<not> us h' x"
        have xb: "x \<noteq> b" "\<not> us ?h x" using x B'(1) by (auto simp: taken_def f used_blocks_def)
        have "lfree h \<le> x"
        proof (cases "x \<in> B")
          case True
          then have "\<not> us h x" using B'(1) xb unfolding taken_def by blast
          then show ?thesis using low True unfolding lowest_def by blast
        next
          case False
          then have "b < x" using B'(1) x(1) unfolding taken_def by blast
          then show ?thesis using b(3) by simp
        qed
        then show "lfree h' \<le> x" using q(4) x(1) xb(2) by (auto simp: f intro: leI)
      qed
      moreover have "0 < n" using False by simp
      ultimately have "heap_inv B' h' \<and> used_blocks B' h' = insert b (used_blocks B h) \<and>
        (\<forall>c\<in>used_blocks B h. nx h' c = nx h c) \<and> b \<in> B - used_blocks B h \<and> b + 12 + align32 n \<le> nx h' b \<and> 0 < n \<and>
        fits (req n) h b \<and> lfree h \<le> b \<and> passed_over B h (req n) b \<and> (lowest B h \<longrightarrow> lowest B' h')"
        using b(2-4) unfolding sz_def by blast
      then show ?thesis
        using e f(2-5) by (intro exI [of _ "Some (heap_ptr h + b + 12)"] exI [of _ h']) auto
    qed
  qed
qed

section \<open>The heap is an allocator\<close>

definition heap_ok :: "heap \<Rightarrow> bool" where
  "heap_ok h \<longleftrightarrow> heap_inv (blocks h) h"

lemma heap_okI: "heap_inv B h \<Longrightarrow> heap_ok h \<and> blocks h = B"
  using blocks_shape [of B h] by (simp add: heap_ok_def heap_inv_def)

definition region_of :: "heap \<Rightarrow> nat \<Rightarrow> region" where
  "region_of h b = (heap_ptr h + b + 12, nx h b - (b + 12))"

definition live :: "heap \<Rightarrow> region set" where
  "live h = region_of h ` used_blocks (blocks h) h"

lemma live_inv: "heap_inv B h \<Longrightarrow> live h = region_of h ` used_blocks B h"
  using heap_okI [of B h] by (simp add: live_def)

lemma region_inj: "region_of h b = region_of h c \<longleftrightarrow> b = c"
  by (auto simp: region_of_def)

lemma regions_apart:
  assumes "shape B h" "b \<in> B" "c \<in> B" "b \<noteq> c"
  shows "fst (region_of h b) \<noteq> fst (region_of h c) \<and> apart (region_of h b) (region_of h c)"
  using shape_apart [OF assms] shape_nx [OF assms(1,2)] shape_nx [OF assms(1,3)] assms(4)
  by (auto simp: region_of_def apart_def)

lemma region_inside:
  assumes "shape B h" "b \<in> B"
  shows "heap_ptr h \<le> fst (region_of h b)" "fst (region_of h b) + snd (region_of h b) \<le> heap_ptr h + heap_end h"
  using shape_nx [OF assms] by (auto simp: region_of_def)

lemma heap_init_ok:
  assumes "rt_system_heap_init begin_addr end_addr h = Some h'" "used_mem h = 0"
    and "align32 begin_addr + 36 \<le> end_addr" "end_addr < 2 ^ 32"
  shows "heap_inv {0} h'" "live h' = {}" "heap_ptr h' = align32 begin_addr" "bytes h' = bytes h"
    "heap_end h' + heap_ptr h' + 12 \<le> end_addr"
proof -
  let ?e = "RT_ALIGN_DOWN end_addr 4 - align32 begin_addr - 24"
  have d: "4 dvd align32 begin_addr" "4 dvd RT_ALIGN_DOWN end_addr 4" by (simp_all add: align32_dvd RT_ALIGN_DOWN_def)
  have "end_addr < RT_ALIGN_DOWN end_addr 4 + 4" "RT_ALIGN_DOWN end_addr 4 \<le> end_addr"
    unfolding RT_ALIGN_DOWN_def by presburger+
  then have le: "align32 begin_addr + 36 \<le> RT_ALIGN_DOWN end_addr 4" using assms(3) d by presburger
  have e12: "12 + align32 begin_addr + 12 + 12 \<le> RT_ALIGN_DOWN end_addr 4" "?e \<ge> 12" using le by linarith+
  have h': "h' = h\<lparr>hdr := (hdr h)(0 := \<lparr>h_magic = HEAP_MAGIC, h_used = False, h_next = ?e + 12, h_prev = 0\<rparr>,
        ?e + 12 := \<lparr>h_magic = HEAP_MAGIC, h_used = True, h_next = ?e + 12, h_prev = ?e + 12\<rparr>),
      heap_ptr := align32 begin_addr, heap_end := ?e + 12, lfree := 0, mem_size_aligned := ?e\<rparr>"
    using assms(1) le by (auto simp: rt_system_heap_init_def Let_def split: if_splits)
  have "4 dvd ?e" using d by (simp add: dvd_diff_nat)
  then have "4 dvd ?e + 12" by presburger
  then have s: "shape {0} h'"
    using e12 d assms(4) \<open>RT_ALIGN_DOWN end_addr 4 \<le> end_addr\<close>
    by (simp add: shape_def h')
  then show i: "heap_inv {0} h'"
    using assms(2) by (simp add: heap_inv_def h' coalesced_def lfree_ok_def accounted_def used_blocks_def)
  show "live h' = {}" unfolding live_inv [OF i] by (simp add: used_blocks_def h')
  show "heap_ptr h' = align32 begin_addr" "bytes h' = bytes h" by (simp_all add: h')
  show "heap_end h' + heap_ptr h' + 12 \<le> end_addr"
    using le \<open>RT_ALIGN_DOWN end_addr 4 \<le> end_addr\<close> by (simp add: h')
qed

lemma malloc_live:
  assumes inv: "heap_inv B h" and n: "n \<le> 2 ^ 32 - 4" and m: "rt_malloc n h = Some (Some p, h')"
  shows "heap_ok h' \<and> heap_ptr h' = heap_ptr h \<and> heap_end h' = heap_end h \<and> bytes h' = bytes h \<and>
    p \<notin> fst ` live h \<and> (\<exists>k\<ge>n. live h' = insert (p, k) (live h))"
proof -
  obtain b B' where b: "p = heap_ptr h + b + 12" "b \<in> B - used_blocks B h" "heap_inv B' h'"
    "used_blocks B' h' = insert b (used_blocks B h)" "\<forall>c\<in>used_blocks B h. nx h' c = nx h c"
    "b + 12 + align32 n \<le> nx h' b" "heap_ptr h' = heap_ptr h" "heap_end h' = heap_end h" "bytes h' = bytes h"
    using malloc_ok [OF inv, of n] m by auto
  have "region_of h' ` used_blocks B h = region_of h ` used_blocks B h"
    using b(5,7) by (intro image_cong) (simp_all add: region_of_def)
  then have "live h' = insert (region_of h' b) (live h)"
    unfolding live_inv [OF b(3)] live_inv [OF inv] b(4) by simp
  moreover have "region_of h' b = (p, nx h' b - (b + 12))" using b(1,7) by (simp add: region_of_def)
  moreover have "n \<le> nx h' b - (b + 12)" using align32_ok(1) [OF n] b(6) by linarith
  moreover have "p \<notin> fst ` live h"
    using b(1,2) unfolding live_inv [OF inv] by (auto simp: region_of_def)
  ultimately show ?thesis using heap_okI [OF b(3)] b(7-9) by auto
qed

lemma free_live:
  assumes inv: "heap_inv B h" and p: "(p, k) \<in> live h"
  shows "heap_ok (rt_free (Some p) h) \<and> heap_ptr (rt_free (Some p) h) = heap_ptr h \<and>
    heap_end (rt_free (Some p) h) = heap_end h \<and> bytes (rt_free (Some p) h) = bytes h \<and>
    live (rt_free (Some p) h) = live h - {(p, k)}"
proof -
  obtain b where b: "b \<in> used_blocks B h" "p = heap_ptr h + b + 12" "k = nx h b - (b + 12)"
    using p unfolding live_inv [OF inv] by (auto simp: region_of_def)
  obtain B' where f: "heap_inv B' (rt_free (Some p) h)" "used_blocks B' (rt_free (Some p) h) = used_blocks B h - {b}"
    "\<forall>c\<in>used_blocks B h - {b}. nx (rt_free (Some p) h) c = nx h c" "bytes (rt_free (Some p) h) = bytes h"
    "heap_ptr (rt_free (Some p) h) = heap_ptr h" "heap_end (rt_free (Some p) h) = heap_end h"
    using free_ok [OF inv b(1)] b(2) by auto
  have "region_of (rt_free (Some p) h) ` (used_blocks B h - {b}) = region_of h ` (used_blocks B h - {b})"
    using f(3,5) by (intro image_cong) (simp_all add: region_of_def)
  also have "\<dots> = region_of h ` used_blocks B h - {region_of h b}"
    by (subst image_set_diff) (auto simp: inj_def region_inj)
  finally show ?thesis
    using heap_okI [OF f(1)] f(4-6) b(2,3) unfolding live_inv [OF f(1)] live_inv [OF inv] f(2)
    by (simp add: region_of_def)
qed

interpretation heap: allocator heap_ok "\<lambda>h. (heap_ptr h, heap_end h)" live "2 ^ 32 - 4" rt_malloc "\<lambda>p. rt_free (Some p)"
proof unfold_locales
  fix h a b assume ok: "heap_ok h" "a \<in> live h" "b \<in> live h" "a \<noteq> b"
  then have s: "shape (blocks h) h" by (simp add: heap_ok_def heap_inv_def)
  from ok obtain x y where "a = region_of h x" "b = region_of h y" "x \<in> blocks h" "y \<in> blocks h" "x \<noteq> y"
    by (auto simp: live_def used_blocks_def)
  then show "fst a \<noteq> fst b \<and> apart a b" using regions_apart [OF s] by simp
next
  fix h a assume ok: "heap_ok h" "a \<in> live h"
  then have "shape (blocks h) h" by (simp add: heap_ok_def heap_inv_def)
  then show "fst (heap_ptr h, heap_end h) \<le> fst a \<and> fst a + snd a \<le> fst (heap_ptr h, heap_end h) + snd (heap_ptr h, heap_end h)"
    using ok(2) region_inside by (auto simp: live_def used_blocks_def)
next
  fix h n assume ok: "heap_ok h"
  then show "\<exists>r t. rt_malloc n h = Some (r, t)" using malloc_ok [of "blocks h" h n] by (auto simp: heap_ok_def)
next
  fix h n t assume "heap_ok h" "rt_malloc n h = Some (None, t)"
  then show "heap_ok t \<and> live t = live h \<and> (heap_ptr t, heap_end t) = (heap_ptr h, heap_end h)"
    using malloc_ok [of "blocks h" h n] by (auto simp: heap_ok_def)
next
  fix h n p t assume "heap_ok h" "n \<le> 2 ^ 32 - 4" "rt_malloc n h = Some (Some p, t)"
  then show "heap_ok t \<and> (heap_ptr t, heap_end t) = (heap_ptr h, heap_end h) \<and> p \<notin> fst ` live h \<and>
      (\<exists>m\<ge>n. live t = insert (p, m) (live h))"
    using malloc_live [of "blocks h" h n p t] by (auto simp: heap_ok_def)
next
  fix h p m assume "heap_ok h" "(p, m) \<in> live h"
  then show "heap_ok (rt_free (Some p) h) \<and>
      (heap_ptr (rt_free (Some p) h), heap_end (rt_free (Some p) h)) = (heap_ptr h, heap_end h) \<and>
      live (rt_free (Some p) h) = live h - {(p, m)}"
    using free_live [of "blocks h" h p m] by (auto simp: heap_ok_def)
qed

section \<open>A small heap, for the examples\<close>

definition blank_heap :: heap where
  "blank_heap = \<lparr>hdr = (\<lambda>_. \<lparr>h_magic = 0, h_used = False, h_next = 0, h_prev = 0\<rparr>), bytes = (\<lambda>_. 0),
     heap_ptr = 0, heap_end = 0, lfree = 0, mem_size_aligned = 0, used_mem = 0, max_mem = 0\<rparr>"

definition demo_heap :: heap where
  "demo_heap = the (rt_system_heap_init 1000 1400 blank_heap)"

lemma demo_heap_init: "rt_system_heap_init 1000 1400 blank_heap = Some demo_heap"
  by (simp add: demo_heap_def rt_system_heap_init_def Let_def align32_def RT_ALIGN_def RT_ALIGN_DOWN_def)

lemma demo_heap_eq:
  "demo_heap = \<lparr>hdr = (hdr blank_heap)(0 := \<lparr>h_magic = HEAP_MAGIC, h_used = False, h_next = 388, h_prev = 0\<rparr>,
       388 := \<lparr>h_magic = HEAP_MAGIC, h_used = True, h_next = 388, h_prev = 388\<rparr>), bytes = (\<lambda>_. 0),
     heap_ptr = 1000, heap_end = 388, lfree = 0, mem_size_aligned = 376, used_mem = 0, max_mem = 0\<rparr>"
  by (simp add: demo_heap_def rt_system_heap_init_def Let_def align32_def RT_ALIGN_def RT_ALIGN_DOWN_def blank_heap_def)

lemmas heap_run = rt_malloc_def Let_def align32_def RT_ALIGN_def malloc_search.simps malloc_take_def note_used_def
  next_free.simps upd_hdr_def sub32_def

lemma demo_heap_inv: "heap_inv {0} demo_heap" and demo_heap_live: "live demo_heap = {}"
  using heap_init_ok [OF demo_heap_init] by (simp_all add: blank_heap_def align32_def RT_ALIGN_def)

definition demo_malloc :: heap where
  "demo_malloc = snd (the (rt_malloc 100 demo_heap))"

lemma demo_malloc_run: "rt_malloc 100 demo_heap = Some (Some 1012, demo_malloc)"
  by (simp add: demo_malloc_def demo_heap_eq heap_run)

lemma demo_malloc_inv: "heap_inv (blocks demo_malloc) demo_malloc"
  using malloc_live [OF demo_heap_inv, of 100 1012 demo_malloc] demo_malloc_run by (simp add: heap_ok_def)

lemma demo_malloc_live: "live demo_malloc = {(1012, 100)}"
proof -
  obtain b B' where b: "(1012::nat) = heap_ptr demo_heap + b + 12" "heap_inv B' demo_malloc"
    "used_blocks B' demo_malloc = insert b (used_blocks {0} demo_heap)" "heap_ptr demo_malloc = heap_ptr demo_heap"
    using malloc_ok [OF demo_heap_inv, of 100] demo_malloc_run by auto
  have "b = 0" using b(1) by (simp add: demo_heap_eq)
  moreover have "used_blocks {0} demo_heap = {}" by (simp add: used_blocks_def demo_heap_eq)
  moreover have "nx demo_malloc 0 = 112" by (simp add: demo_malloc_def demo_heap_eq heap_run)
  ultimately show ?thesis unfolding live_inv [OF b(2)] b(3) by (simp add: region_of_def b(4) demo_heap_eq)
qed

section \<open>Freeing undoes allocating\<close>

text \<open>The used blocks and the rule that free blocks do not touch determine all blocks.\<close>

lemma layout_subset:
  assumes i: "heap_inv B h" "heap_inv C k" and u: "used_blocks B h = used_blocks C k"
    and n: "\<forall>b\<in>used_blocks B h. nx k b = nx h b" and e: "heap_end k = heap_end h"
  shows "B \<subseteq> C"
proof
  fix b assume b: "b \<in> B"
  have s: "shape B h" "coalesced None B h" "shape C k" using i by (simp_all add: heap_inv_def)
  show "b \<in> C"
  proof (cases "b = 0 \<or> us h b")
    case True
    then show ?thesis using b s(3) u by (auto simp: shape_def used_blocks_def)
  next
    case False
    then have p: "pv h b \<in> B" "nx h (pv h b) = b" using shape_pred [OF s(1) b] by auto
    have "us h (pv h b)" using s(2) p False by (auto simp: coalesced_def)
    then have "pv h b \<in> used_blocks B h" using p(1) by (simp add: used_blocks_def)
    then have "pv h b \<in> C" "nx k (pv h b) = b" using u n p(2) by (auto simp: used_blocks_def)
    then have "b \<in> C \<or> b = heap_end k" using shape_next [OF s(3)] by metis
    then show ?thesis using shape_end [OF s(1)] b e by auto
  qed
qed

lemma malloc_free_restores:
  assumes "heap_inv B h" "n \<le> 2 ^ 32 - 4" "rt_malloc n h = Some (Some p, h1)"
  defines "h' \<equiv> rt_free (Some p) h1"
  shows "blocks h' = blocks h \<and> live h' = live h \<and> used_mem h' = used_mem h \<and> bytes h' = bytes h"
proof -
  obtain k where k: "heap_ok h1" "live h1 = insert (p, k) (live h)" "p \<notin> fst ` live h" "heap_ptr h1 = heap_ptr h"
    "heap_end h1 = heap_end h" "bytes h1 = bytes h"
    using malloc_live [OF assms(1-3)] by blast
  have i1: "heap_inv (blocks h1) h1" using k(1) by (simp add: heap_ok_def)
  have f: "heap_ok h'" "heap_ptr h' = heap_ptr h" "heap_end h' = heap_end h" "bytes h' = bytes h" "live h' = live h"
    using free_live [OF i1, of p k] k unfolding h'_def by force+
  have i: "heap_inv (blocks h') h'" "heap_inv (blocks h) h"
    using f(1) heap_okI [OF assms(1)] assms(1) by (simp_all only: heap_ok_def)
  have r: "region_of h' b = region_of h c \<longleftrightarrow> b = c \<and> nx h' b - (b + 12) = nx h b - (b + 12)" for b c
    using f(2) by (auto simp: region_of_def)
  have img: "region_of h' ` used_blocks (blocks h') h' = region_of h ` used_blocks (blocks h) h"
    using f(5) by (simp add: live_def)
  have s: "shape (blocks h') h'" "shape (blocks h) h" using i by (simp_all add: heap_inv_def)
  have sub: "b \<in> used_blocks (blocks h) h \<and> nx h' b = nx h b" if b: "b \<in> used_blocks (blocks h') h'" for b
  proof -
    have "region_of h' b \<in> region_of h ` used_blocks (blocks h) h" using img b by blast
    then have c: "b \<in> used_blocks (blocks h) h" "nx h' b - (b + 12) = nx h b - (b + 12)" using r by auto
    moreover have "b + 16 \<le> nx h' b" "b + 16 \<le> nx h b"
      using shape_nx [OF s(1), of b] shape_nx [OF s(2), of b] b c by (auto simp: used_blocks_def)
    ultimately show ?thesis by auto
  qed
  have "b \<in> used_blocks (blocks h') h'" if b: "b \<in> used_blocks (blocks h) h" for b
  proof -
    have "region_of h b \<in> region_of h' ` used_blocks (blocks h') h'" using img b by blast
    then show ?thesis using r [symmetric] by (auto simp: region_of_def f(2))
  qed
  then have u: "used_blocks (blocks h') h' = used_blocks (blocks h) h" "\<forall>b\<in>used_blocks (blocks h') h'. nx h b = nx h' b"
    using sub by auto
  then have "blocks h' = blocks h"
    using layout_subset [OF i] layout_subset [OF i(2,1)] f(3) by auto
  moreover have "used_mem h' = used_mem h"
    using i u by (simp add: heap_inv_def accounted_def)
  ultimately show ?thesis using f by simp
qed

text \<open>
  Freeing what was just allocated restores the heap: the same blocks, the same regions in
  use, the same amount of memory counted as used, and the bytes untouched.
\<close>

theorem free_undoes_malloc:
  assumes "heap_inv B h" "n \<le> 2 ^ 32 - 4" "rt_malloc n h = Some (Some p, h1)"
  shows "blocks (rt_free (Some p) h1) = blocks h \<and> live (rt_free (Some p) h1) = live h \<and>
    used_mem (rt_free (Some p) h1) = used_mem h \<and> bytes (rt_free (Some p) h1) = bytes h"
  by (rule malloc_free_restores [OF assms])

theorem free_undoes_malloc_witness:
  "blocks (rt_free (Some 1012) demo_malloc) = blocks demo_heap \<and> live (rt_free (Some 1012) demo_malloc) = live demo_heap \<and>
   used_mem (rt_free (Some 1012) demo_malloc) = 0 \<and> 0 < used_mem demo_malloc"
proof -
  have "used_mem demo_heap = 0" "0 < used_mem demo_malloc" by (simp_all add: demo_malloc_def demo_heap_eq heap_run)
  then show ?thesis using free_undoes_malloc [OF demo_heap_inv _ demo_malloc_run] by simp
qed

end
