(* ===== verification/HeapClient.thy ===== *)
theory HeapClient
  imports Mem
begin

text \<open>
  What the clients of the heap may rely on: the blocks any run of requests ends with are apart and
  inside the arena, a freed block is as good as never taken, the search is first-fit as long as
  nobody resizes a block, and \<^verbatim>\<open>rt_realloc\<close> keeps the contents. The requests for which the
  code does not do what it means to are stated at the end.
\<close>

section \<open>First fit\<close>

lemma malloc_lowest:
  assumes "heap_inv B h" "lowest B h" "rt_malloc n h = Some (Some p, h')"
  shows "\<exists>b B'. p = heap_ptr h + b + 12 \<and> b \<in> B \<and> heap_inv B' h' \<and> lowest B' h' \<and>
    fits (req n) h b \<and> (\<forall>c\<in>B. c < b \<longrightarrow> \<not> fits (req n) h c)"
proof -
  obtain b B' where b: "p = heap_ptr h + b + 12" "b \<in> B" "heap_inv B' h'" "lowest B' h'" "fits (req n) h b"
    "passed_over B h (req n) b"
    using malloc_ok [OF assms(1), of n] assms(2,3) by auto
  have "\<not> fits (req n) h c" if "c \<in> B" "c < b" for c
    using b(6) that assms(2) by (auto simp: passed_over_def lowest_def fits_def)
  then show ?thesis using b by blast
qed

lemma free_lowest:
  assumes inv: "heap_inv B h" and "lowest B h" and p: "(p, k) \<in> live h"
  shows "\<exists>B'. heap_inv B' (rt_free (Some p) h) \<and> lowest B' (rt_free (Some p) h)"
proof -
  obtain b where "b \<in> used_blocks B h" "p = heap_ptr h + b + 12"
    using p unfolding live_inv [OF inv] by (auto simp: region_of_def)
  then show ?thesis using free_ok [OF inv] assms(2) by blast
qed

definition first_fit_ok :: "heap \<Rightarrow> bool" where
  "first_fit_ok h \<longleftrightarrow> heap_ok h \<and> lowest (blocks h) h"

lemma first_fitI: "heap_inv B h \<Longrightarrow> lowest B h \<Longrightarrow> first_fit_ok h"
  using heap_okI [of B h] by (simp add: first_fit_ok_def)

lemma first_fitD: "first_fit_ok h \<Longrightarrow> heap_ok h \<and> heap_inv (blocks h) h \<and> lowest (blocks h) h"
  by (simp add: first_fit_ok_def heap_ok_def)

interpretation fit: allocator first_fit_ok "\<lambda>h. (heap_ptr h, heap_end h)" live "2 ^ 32 - 4" rt_malloc
  "\<lambda>p. rt_free (Some p)"
proof unfold_locales
  fix h a b assume "first_fit_ok h" "a \<in> live h" "b \<in> live h" "a \<noteq> b"
  then show "fst a \<noteq> fst b \<and> apart a b" using heap.live_apart [of h a b] by (simp add: first_fit_ok_def)
next
  fix h a assume "first_fit_ok h" "a \<in> live h"
  then show "fst (heap_ptr h, heap_end h) \<le> fst a \<and> fst a + snd a \<le> fst (heap_ptr h, heap_end h) + snd (heap_ptr h, heap_end h)"
    using heap.live_inside [of h a] by (simp add: first_fit_ok_def)
next
  fix h n assume "first_fit_ok h"
  then show "\<exists>r t. rt_malloc n h = Some (r, t)" using heap.alloc_returns [of h n] by (simp add: first_fit_ok_def)
next
  fix h n t assume "first_fit_ok h" "rt_malloc n h = Some (None, t)"
  then show "first_fit_ok t \<and> live t = live h \<and> (heap_ptr t, heap_end t) = (heap_ptr h, heap_end h)"
    using malloc_ok [of "blocks h" h n] first_fitD [of h] by auto
next
  fix h n p t assume a: "first_fit_ok h" "n \<le> 2 ^ 32 - 4" "rt_malloc n h = Some (Some p, t)"
  then have "first_fit_ok t" using malloc_lowest [of "blocks h" h n p t] first_fitD [of h] first_fitI by blast
  then show "first_fit_ok t \<and> (heap_ptr t, heap_end t) = (heap_ptr h, heap_end h) \<and> p \<notin> fst ` live h \<and>
      (\<exists>m\<ge>n. live t = insert (p, m) (live h))"
    using heap.alloc_gives [of h n p t] a first_fitD [of h] by blast
next
  fix h p m assume a: "first_fit_ok h" "(p, m) \<in> live h"
  then have "first_fit_ok (rt_free (Some p) h)" using free_lowest [of "blocks h" h p m] first_fitD [of h] first_fitI by blast
  then show "first_fit_ok (rt_free (Some p) h) \<and>
      (heap_ptr (rt_free (Some p) h), heap_end (rt_free (Some p) h)) = (heap_ptr h, heap_end h) \<and>
      live (rt_free (Some p) h) = live h - {(p, m)}"
    using heap.free_takes [of h p m] a first_fitD [of h] by blast
qed

lemma init_fit:
  assumes "rt_system_heap_init begin_addr end_addr h = Some h'" "used_mem h = 0"
    and "begin_addr + 40 \<le> end_addr" "end_addr < 2 ^ 32"
  shows "first_fit_ok h'" "live h' = {}" "begin_addr \<le> heap_ptr h'" "heap_ptr h' + heap_end h' \<le> end_addr"
proof -
  have a: "begin_addr \<le> align32 begin_addr" "align32 begin_addr < begin_addr + 4"
    using align32_ok [of begin_addr] assms(3,4) by auto
  then have le: "align32 begin_addr + 36 \<le> end_addr" using assms(3) by linarith
  note i = heap_init_ok [OF assms(1,2) le assms(4)]
  have "lfree h' = 0" using assms(1) by (auto simp: rt_system_heap_init_def Let_def split: if_splits)
  then show "first_fit_ok h'" by (intro first_fitI [OF i(1)]) (simp add: lowest_def)
  show "live h' = {}" by (rule i(2))
  show "begin_addr \<le> heap_ptr h'" "heap_ptr h' + heap_end h' \<le> end_addr" using i(3,5) a by simp_all
qed

text \<open>
  C28: on a heap set up over \<open>begin_addr\<close> to \<open>end_addr\<close>, every run of allocations and frees returns,
  and the blocks the client then holds are all inside that range and do not overlap, each at least
  as long as it was asked for.
\<close>

theorem heap_clients_apart:
  assumes "rt_system_heap_init begin_addr end_addr h0 = Some h" "used_mem h0 = 0"
    and "begin_addr + 40 \<le> end_addr" "end_addr < 2 ^ 32" "\<forall>n. Alloc n \<in> set ops \<longrightarrow> n \<le> 2 ^ 32 - 4"
  shows "\<exists>out h'. alloc_run rt_malloc (\<lambda>p. rt_free (Some p)) ops (\<lambda>_. None, h) = Some (out, h') \<and>
    (\<forall>p n. out p = Some n \<longrightarrow> begin_addr \<le> p \<and> p + n \<le> end_addr) \<and>
    (\<forall>p q n m. out p = Some n \<longrightarrow> out q = Some m \<longrightarrow> p \<noteq> q \<longrightarrow> p + n \<le> q \<or> q + m \<le> p)"
proof -
  note i = init_fit [OF assms(1-4)]
  have r: "fit.requests_ok ops" using assms(5) unfolding fit.requests_ok_def .
  have "fit.holds (\<lambda>_. None) h" using i(2) unfolding fit.holds_def by simp
  from fit.run_returns [OF i(1) this r] obtain out h' where
    run: "alloc_run rt_malloc (\<lambda>p. rt_free (Some p)) ops (\<lambda>_. None, h) = Some (out, h')" by auto
  then show ?thesis
    using fit.run_inside [OF i(1,2) r run] fit.run_apart [OF i(1,2) r run] i(3,4)
    by (intro exI [of _ out] exI [of _ h']) (fastforce simp: apart_def)
qed

theorem heap_clients_apart_witness:
  "\<exists>out h'. alloc_run rt_malloc (\<lambda>p. rt_free (Some p)) [Alloc 100, Alloc 50, Free 1012, Alloc 60] (\<lambda>_. None, demo_heap) =
      Some (out, h') \<and>
    (\<forall>p n. out p = Some n \<longrightarrow> 1000 \<le> p \<and> p + n \<le> 1400) \<and>
    (\<forall>p q n m. out p = Some n \<longrightarrow> out q = Some m \<longrightarrow> p \<noteq> q \<longrightarrow> p + n \<le> q \<or> q + m \<le> p)"
  by (rule heap_clients_apart [OF demo_heap_init]) (auto simp: blank_heap_def)


text \<open>
  After any run of allocations and frees the heap is first-fit: a request gets the lowest block
  it fits in, and it fails only when it fits in no block that ends more than its own size before
  the end of the arena.
\<close>

theorem heap_first_fit:
  assumes "rt_system_heap_init begin_addr end_addr h0 = Some h" "used_mem h0 = 0"
    and "begin_addr + 40 \<le> end_addr" "end_addr < 2 ^ 32" "\<forall>n. Alloc n \<in> set ops \<longrightarrow> n \<le> 2 ^ 32 - 4"
    and "alloc_run rt_malloc (\<lambda>p. rt_free (Some p)) ops (\<lambda>_. None, h) = Some (out, h1)" "0 < n"
  shows "case rt_malloc n h1 of
      None \<Rightarrow> False
    | Some (None, h2) \<Rightarrow> h2 = h1 \<and> (\<forall>c\<in>blocks h1. c + req n < mem_size_aligned h1 \<longrightarrow> \<not> fits (req n) h1 c)
    | Some (Some p, h2) \<Rightarrow> \<exists>b\<in>blocks h1. p = heap_ptr h1 + b + 12 \<and> fits (req n) h1 b \<and>
        (\<forall>c\<in>blocks h1. c < b \<longrightarrow> \<not> fits (req n) h1 c)"
proof -
  note i = init_fit [OF assms(1-4)]
  have r: "fit.requests_ok ops" using assms(5) unfolding fit.requests_ok_def .
  have ok: "heap_inv (blocks h1) h1" "lowest (blocks h1) h1"
    using fit.run_live(1) [OF i(1,2) r assms(6)] first_fitD by blast+
  obtain q h2 where m: "rt_malloc n h1 = Some (q, h2)" using malloc_ok [OF ok(1)] by blast
  show ?thesis
  proof (cases q)
    case (Some p)
    then show ?thesis using malloc_lowest [OF ok, of n p h2] m by auto
  next
    case None
    have "h2 = h1 \<and> (mem_size_aligned h1 < align32 n \<or>
        passed_over (blocks h1) h1 (req n) (mem_size_aligned h1 - req n))"
      using malloc_ok [OF ok(1), of n] m None assms(7) by auto
    then show ?thesis
      using m None ok(2) by (auto simp: passed_over_def lowest_def fits_def req_def split: if_splits)
  qed
qed

theorem heap_first_fit_witness:
  "\<exists>b\<in>blocks demo_heap. 1012 = heap_ptr demo_heap + b + 12 \<and> fits (req 100) demo_heap b \<and>
     (\<forall>c\<in>blocks demo_heap. c < b \<longrightarrow> \<not> fits (req 100) demo_heap c)"
  using heap_first_fit [OF demo_heap_init, of "[]" "\<lambda>_. None" demo_heap 100] demo_malloc_run
  by (simp add: blank_heap_def)


section \<open>Resizing a block\<close>

lemma realloc_split_ok:
  assumes inv: "heap_inv B h" and b: "b \<in> used_blocks B h"
    and n: "4 dvd n" "4 \<le> n" and sz: "sz = nx h b - (b + 12)" and le: "n + 24 < sz"
  shows "\<exists>B'. heap_inv B' (realloc_split b sz n h) \<and> used_blocks B' (realloc_split b sz n h) = used_blocks B h \<and>
    (\<forall>c\<in>used_blocks B h - {b}. nx (realloc_split b sz n h) c = nx h c) \<and>
    nx (realloc_split b sz n h) b = b + 12 + n \<and> bytes (realloc_split b sz n h) = bytes h \<and>
    heap_ptr (realloc_split b sz n h) = heap_ptr h \<and> heap_end (realloc_split b sz n h) = heap_end h"
proof -
  let ?p2 = "b + 12 + n"
  have s: "shape B h" and c: "coalesced None B h" and l: "lfree_ok B h" and a: "accounted B h"
    using inv by (simp_all add: heap_inv_def)
  have bB: "b \<in> B" "us h b" using b by (simp_all add: used_blocks_def)
  have nb: "b + 16 \<le> nx h b" "nx h b \<le> heap_end h" "b \<noteq> heap_end h" using shape_nx [OF s bB(1)] by auto
  have he: "mem_size_aligned h + 12 = heap_end h" using s by (simp add: shape_def)
  have p2: "b + 16 \<le> ?p2" "?p2 + 16 \<le> nx h b" "4 dvd ?p2" "?p2 \<noteq> b" "?p2 \<noteq> nx h b"
    using n sz le s bB by (auto simp: shape_def)
  have outp: "?p2 \<notin> B" using shape_apart [OF s bB(1), of ?p2] shape_nx [OF s, of ?p2] p2 by fastforce
  have nop: "nx h x \<noteq> ?p2" if "x \<in> B" for x using shape_next [OF s that] outp p2 nb by auto
  define h0 where "h0 = h\<lparr>used_mem := sub32 (used_mem h) (sz - n)\<rparr>"
  define h1 where "h1 = upd_hdr ?p2 (\<lambda>_. \<lparr>h_magic = HEAP_MAGIC, h_used = False, h_next = nx h0 b, h_prev = b\<rparr>) h0"
  define h2 where "h2 = upd_hdr b (\<lambda>x. x\<lparr>h_next := ?p2\<rparr>) h1"
  define h3 where "h3 = (if nx h2 ?p2 \<noteq> mem_size_aligned h + 12 then upd_hdr (nx h2 ?p2) (\<lambda>x. x\<lparr>h_prev := ?p2\<rparr>) h2 else h2)"
  have e: "realloc_split b sz n h = plug_holes ?p2 h3"
    by (simp add: realloc_split_def Let_def h3_def h2_def h1_def h0_def)
  have f: "bytes h3 = bytes h" "heap_ptr h3 = heap_ptr h" "heap_end h3 = heap_end h" "lfree h3 = lfree h"
    "mem_size_aligned h3 = mem_size_aligned h" "used_mem h3 = sub32 (used_mem h) (sz - n)"
    by (simp_all add: h3_def h2_def h1_def h0_def)
  have H: "nx h3 x = (if x = b then ?p2 else if x = ?p2 then nx h b else nx h x)"
    "x \<noteq> heap_end h \<Longrightarrow> pv h3 x = (if x = ?p2 then b else if x = nx h b then ?p2 else pv h x)"
    "us h3 x = (if x = ?p2 then False else us h x)"
    "h_magic (hdr h3 x) = (if x = ?p2 then HEAP_MAGIC else h_magic (hdr h x))" for x
    using p2 nb he n by (auto simp: h3_def h2_def h1_def h0_def)
  have s3: "shape (insert ?p2 B) h3"
    by (rule split_shape [OF s bB(1) p2(1-3) H(1)]) (use H(2-4) s p2 nb in \<open>auto simp: shape_def f\<close>)
  have ub: "used_blocks (insert ?p2 B) h3 = used_blocks B h" using outp by (auto simp: used_blocks_def H(3))
  have c3: "coalesced (Some ?p2) (insert ?p2 B) h3"
    using c bB nop outp by (auto simp: coalesced_def H(1,3))
  have l3: "lfree_ok (insert ?p2 B) h3" using l outp by (auto simp: lfree_ok_def f H(3))
  have fin: "finite (used_blocks B h)" using shape_finite [OF s] by (simp add: used_blocks_def)
  have nxs: "nx h3 c = nx h c" if "c \<in> used_blocks B h - {b}" for c
    using that outp by (auto simp: H(1) used_blocks_def)
  have "(\<Sum>c\<in>used_blocks B h. nx h c - c) = (nx h b - b) + (\<Sum>c\<in>used_blocks B h - {b}. nx h c - c)"
    by (rule sum.remove [OF fin b])
  moreover have "(\<Sum>c\<in>used_blocks B h. nx h3 c - c) = (nx h3 b - b) + (\<Sum>c\<in>used_blocks B h - {b}. nx h3 c - c)"
    by (rule sum.remove [OF fin b])
  moreover have "(\<Sum>c\<in>used_blocks B h - {b}. nx h3 c - c) = (\<Sum>c\<in>used_blocks B h - {b}. nx h c - c)"
    using nxs by (intro sum.cong) auto
  moreover have "nx h3 b - b = 12 + n" by (simp add: H(1))
  ultimately have sums: "used_mem h = (nx h b - b) + (\<Sum>c\<in>used_blocks B h - {b}. nx h c - c)"
    "(\<Sum>c\<in>used_blocks B h. nx h3 c - c) = (12 + n) + (\<Sum>c\<in>used_blocks B h - {b}. nx h c - c)"
    using a by (simp_all only: accounted_def)
  have d: "nx h b - b = 12 + sz" "n \<le> sz" using sz le nb by auto
  have "sz - n \<le> used_mem h" unfolding sums(1) d(1) by simp
  then have "used_mem h3 = used_mem h - (sz - n)" by (simp add: f sub32_def)
  also have "\<dots> = (\<Sum>c\<in>used_blocks B h. nx h3 c - c)" unfolding sums d(1) using d(2) by simp
  finally have a3: "accounted (insert ?p2 B) h3" by (simp only: accounted_def ub)
  have "\<not> us h3 ?p2" by (simp add: H(3))
  from plug_holes_ok [OF s3 _ this c3 l3 a3]
  obtain B' where B': "heap_inv B' (plug_holes ?p2 h3)" "same_used (insert ?p2 B) h3 B' (plug_holes ?p2 h3)" by auto
  have u: "used_blocks B' (plug_holes ?p2 h3) = used_blocks B h"
    "\<forall>c\<in>used_blocks B h. nx (plug_holes ?p2 h3) c = nx h3 c"
    using B'(2) by (simp_all add: same_used_def ub)
  have "nx (plug_holes ?p2 h3) b = ?p2" using u(2) b by (simp add: H(1))
  then show ?thesis
    unfolding e using B' u nxs by (intro exI [of _ B']) (simp add: same_used_def f)
qed

lemma live_block:
  assumes "heap_inv B h" "(p, k) \<in> live h"
  shows "\<exists>b. b \<in> used_blocks B h \<and> p = heap_ptr h + b + 12 \<and> k = nx h b - (b + 12) \<and>
    \<not> (p < heap_ptr h \<or> p \<ge> heap_ptr h + heap_end h) \<and> sub32 (p - heap_ptr h) 12 = b \<and>
    sub32 (sub32 (nx h b) b) 12 = k"
proof -
  obtain b where b: "b \<in> used_blocks B h" "p = heap_ptr h + b + 12" "k = nx h b - (b + 12)"
    using assms(2) unfolding live_inv [OF assms(1)] by (auto simp: region_of_def)
  moreover have "b + 16 \<le> nx h b" "nx h b \<le> heap_end h"
    using shape_nx [of B h b] assms(1) b(1) by (auto simp: heap_inv_def used_blocks_def)
  ultimately show ?thesis by (intro exI [of _ b]) (auto simp: sub32_def)
qed

lemma split_live:
  assumes inv: "heap_inv B h" and p: "(p, k) \<in> live h" and b: "b \<in> used_blocks B h" "p = heap_ptr h + b + 12"
    and n: "4 dvd n" "4 \<le> n" "n + 24 < k"
  shows "heap_ok (realloc_split b k n h) \<and> live (realloc_split b k n h) = insert (p, n) (live h - {(p, k)}) \<and>
    bytes (realloc_split b k n h) = bytes h"
proof -
  have k: "k = nx h b - (b + 12)"
    using p b(2) unfolding live_inv [OF inv] by (auto simp: region_of_def)
  obtain B' where f: "heap_inv B' (realloc_split b k n h)" "used_blocks B' (realloc_split b k n h) = used_blocks B h"
    "\<forall>c\<in>used_blocks B h - {b}. nx (realloc_split b k n h) c = nx h c" "nx (realloc_split b k n h) b = b + 12 + n"
    "bytes (realloc_split b k n h) = bytes h" "heap_ptr (realloc_split b k n h) = heap_ptr h"
    using realloc_split_ok [OF inv b(1) n(1,2) k n(3)] by blast
  have "region_of (realloc_split b k n h) ` (used_blocks B h - {b}) = region_of h ` (used_blocks B h - {b})"
    using f(3,6) by (intro image_cong) (simp_all add: region_of_def)
  also have "\<dots> = live h - {(p, k)}"
    unfolding live_inv [OF inv]
    by (subst image_set_diff) (auto simp: inj_def region_inj, simp_all add: region_of_def b k)
  finally have "region_of (realloc_split b k n h) ` (used_blocks B h - {b}) = live h - {(p, k)}" .
  moreover have "region_of (realloc_split b k n h) b = (p, n)" using f(4,6) b(2) by (simp add: region_of_def)
  moreover have "used_blocks B h = insert b (used_blocks B h - {b})" using b(1) by blast
  ultimately show ?thesis
    using heap_okI [OF f(1)] f(5) unfolding live_inv [OF f(1)] f(2) by (metis image_insert)
qed

text \<open>The bytes do not matter to the bookkeeping.\<close>

lemma heap_ok_bytes: "heap_ok (h\<lparr>bytes := m\<rparr>) = heap_ok h" "live (h\<lparr>bytes := m\<rparr>) = live h"
proof -
  have "blocks (h\<lparr>bytes := m\<rparr>) = blocks h" by (simp add: blocks_def)
  moreover have "heap_inv B (h\<lparr>bytes := m\<rparr>) = heap_inv B h" for B
    by (simp add: heap_inv_def shape_def coalesced_def lfree_ok_def accounted_def used_blocks_def)
  ultimately show "heap_ok (h\<lparr>bytes := m\<rparr>) = heap_ok h" "live (h\<lparr>bytes := m\<rparr>) = live h"
    by (simp_all add: heap_ok_def live_def used_blocks_def region_of_def)
qed

text \<open>The case of \<^verbatim>\<open>rt_realloc\<close> that copies the contents to a new block.\<close>

lemma realloc_move:
  assumes inv: "heap_inv B h" and p: "(p, k) \<in> live h" and n: "n \<le> sz" "\<not> sz > mem_size_aligned h"
    and e: "rt_realloc (Some p) n h = map_option
      (\<lambda>(nmem, h1).
         case nmem of
           None \<Rightarrow> (None, h1)
         | Some a \<Rightarrow> (Some a, rt_free (Some p) (h1\<lparr>bytes := copy_up a p (if k < sz then k else sz) (bytes h1)\<rparr>)))
      (rt_malloc sz h)"
  shows "\<exists>r h'. rt_realloc (Some p) n h = Some (r, h') \<and> heap_ok h' \<and>
    (case r of
       None \<Rightarrow> h' = h
     | Some q \<Rightarrow> (\<exists>m\<ge>n. live h' = insert (q, m) (live h - {(p, k)})) \<and>
         (\<forall>i<min k n. bytes h' (q + i) = bytes h (p + i)) \<and>
         (\<forall>(a, l)\<in>live h - {(p, k)}. \<forall>i<l. bytes h' (a + i) = bytes h (a + i)))"
proof -
  have ok: "heap_ok h" and s: "shape B h" using heap_okI [OF inv] inv by (simp_all add: heap_inv_def)
  have le: "sz \<le> 2 ^ 32 - 4" using n(2) s by (simp add: shape_def)
  obtain r h1 where m: "rt_malloc sz h = Some (r, h1)" using malloc_ok [OF inv] by blast
  show ?thesis
  proof (cases r)
    case None
    then have "h1 = h" using malloc_ok [OF inv, of sz] m by auto
    then show ?thesis using m ok None by (intro exI [of _ None] exI [of _ h]) (simp add: e)
  next
    case (Some q)
    let ?c = "if k < sz then k else sz"
    define h2 where "h2 = h1\<lparr>bytes := copy_up q p ?c (bytes h1)\<rparr>"
    obtain j where j: "heap_ok h1" "bytes h1 = bytes h" "q \<notin> fst ` live h" "sz \<le> j" "live h1 = insert (q, j) (live h)"
      using malloc_live [OF inv le, of q h1] m Some by auto
    have e2: "rt_realloc (Some p) n h = Some (Some q, rt_free (Some p) h2)"
      using m Some by (simp add: e h2_def)
    have ok2: "heap_ok h2" "live h2 = insert (q, j) (live h)" using j by (simp_all add: h2_def heap_ok_bytes)
    then have inv2: "heap_inv (blocks h2) h2" and p2: "(p, k) \<in> live h2" using p by (simp_all add: heap_ok_def)
    note fr = free_live [OF inv2 p2]
    have ne: "q \<noteq> a" if "(a, l) \<in> live h" for a l using j(3) that by force
    have qa: "apart (a, l) (q, j)" if "(a, l) \<in> live h" for a l
      using heap.live_apart [OF j(1), of "(a, l)" "(q, j)"] ne [OF that] that j(5) by auto
    have sep: "q \<le> p \<or> p + ?c \<le> q" using qa [OF p] by (auto simp: apart_def)
    have cp: "bytes h2 x = (if q \<le> x \<and> x < q + ?c then bytes h (p + (x - q)) else bytes h x)" for x
      unfolding h2_def using copy_up_result [OF sep, of "bytes h1" x] j(2) by simp
    have "live (rt_free (Some p) h2) = insert (q, j) (live h - {(p, k)})" using fr ok2(2) ne [OF p] by auto
    moreover have "\<forall>i<min k n. bytes (rt_free (Some p) h2) (q + i) = bytes h (p + i)" using fr cp n(1) by auto
    moreover have "bytes (rt_free (Some p) h2) (a + i) = bytes h (a + i)" if "(a, l) \<in> live h" "i < l" for a l i
    proof -
      have "\<not> (q \<le> a + i \<and> a + i < q + ?c)" using qa [OF that(1)] that(2) j(4) by (auto simp: apart_def)
      then show ?thesis using fr cp [of "a + i"] by argo
    qed
    ultimately show ?thesis
      unfolding e2 using fr order_trans [OF n(1) j(4)]
      by (intro exI [of _ "Some q"] exI [of _ "rt_free (Some p) h2"]) (simp, blast)
  qed
qed

text \<open>
  Sizes that round up to a word: the call fails and changes nothing, or gives a block of
  the new size with the contents of the old one.
\<close>

lemma realloc_resizes:
  assumes inv: "heap_inv B h" and p: "(p, k) \<in> live h" and n: "0 < n" "n \<le> 2 ^ 32 - 4"
  shows "\<exists>r h'. rt_realloc (Some p) n h = Some (r, h') \<and> heap_ok h' \<and>
    (case r of
       None \<Rightarrow> h' = h
     | Some q \<Rightarrow> (\<exists>m\<ge>n. live h' = insert (q, m) (live h - {(p, k)})) \<and>
         (\<forall>i<min k n. bytes h' (q + i) = bytes h (p + i)) \<and>
         (\<forall>(a, l)\<in>live h - {(p, k)}. \<forall>i<l. bytes h' (a + i) = bytes h (a + i)))"
proof -
  let ?n = "align32 n"
  have al: "n \<le> ?n" "4 dvd ?n" using align32_ok [OF n(2)] by auto
  have n4: "4 \<le> ?n" using al n(1) by (meson dvd_imp_le le_less_trans not_le zero_le)
  have ok: "heap_ok h" and s: "shape B h" using heap_okI [OF inv] inv by (simp_all add: heap_inv_def)
  have np: "?n \<noteq> 0" using n4 by simp
  obtain b where b: "b \<in> used_blocks B h" "p = heap_ptr h + b + 12" "k = nx h b - (b + 12)"
    "\<not> (p < heap_ptr h \<or> p \<ge> heap_ptr h + heap_end h)" "sub32 (p - heap_ptr h) 12 = b" "sub32 (sub32 (nx h b) b) 12 = k"
    using live_block [OF inv p] by blast
  note R = rt_realloc_def Let_def
  consider (big) "?n > mem_size_aligned h" | (same) "\<not> ?n > mem_size_aligned h" "k = ?n"
    | (split) "\<not> ?n > mem_size_aligned h" "k \<noteq> ?n" "?n + 24 < k"
    | (move) "\<not> ?n > mem_size_aligned h" "k \<noteq> ?n" "\<not> ?n + 24 < k" by blast
  then show ?thesis
  proof cases
    case big
    then show ?thesis using ok by (intro exI [of _ None] exI [of _ h]) (simp add: R)
  next
    case same
    have "rt_realloc (Some p) n h = Some (Some p, h)" using same b(4-6) np by (simp add: R)
    moreover have "live h = insert (p, k) (live h - {(p, k)})" using p by blast
    ultimately show ?thesis using ok same(2) al(1)
      by (intro exI [of _ "Some p"] exI [of _ h]) auto
  next
    case split
    have "rt_realloc (Some p) n h = Some (Some p, realloc_split b k ?n h)" using split b(4-6) np by (simp add: R)
    then show ?thesis using split_live [OF inv p b(1,2) al(2) n4 split(3)] al(1)
      by (intro exI [of _ "Some p"] exI [of _ "realloc_split b k ?n h"]) auto
  next
    case move
    show ?thesis
    proof (rule realloc_move [OF inv p al(1) move(1)])
      show "rt_realloc (Some p) n h = map_option
        (\<lambda>(nmem, h1). case nmem of None \<Rightarrow> (None, h1)
           | Some a \<Rightarrow> (Some a, rt_free (Some p) (h1\<lparr>bytes := copy_up a p (if k < ?n then k else ?n) (bytes h1)\<rparr>)))
        (rt_malloc ?n h)"
        unfolding R option.case b(5,6) using move b(4) np by simp
    qed
  qed
qed

text \<open>
  C29: \<^verbatim>\<open>rt_realloc\<close> of a block in use returns, for every 32-bit size. With the size 0,
  and with the last three sizes below 2^32, which rounding up makes 0, it frees the block and
  answers a null pointer. With any other size it either fails and leaves the heap and the block as
  they were, or gives a block of at least the new size, which replaces the old one and starts with
  its contents. In no case a byte of another block in use changes.
\<close>

theorem realloc_keeps_contents:
  assumes inv: "heap_inv B h" and p: "(p, k) \<in> live h" and n: "n < 2 ^ 32"
  shows "\<exists>r h'. rt_realloc (Some p) n h = Some (r, h') \<and> heap_ok h' \<and>
    (\<forall>(a, l)\<in>live h - {(p, k)}. \<forall>i<l. bytes h' (a + i) = bytes h (a + i)) \<and>
    (if n = 0 \<or> 2 ^ 32 - 4 < n then r = None \<and> live h' = live h - {(p, k)}
     else case r of
       None \<Rightarrow> h' = h
     | Some q \<Rightarrow> (\<exists>m\<ge>n. live h' = insert (q, m) (live h - {(p, k)})) \<and>
         (\<forall>i<min k n. bytes h' (q + i) = bytes h (p + i)))"
proof (cases "n = 0 \<or> 2 ^ 32 - 4 < n")
  case True
  have "align32 n = 0"
  proof (cases "n = 0")
    case False
    then have "(3 + n) div 4 = 2 ^ 30" using True n by (intro div_nat_eqI) simp_all
    then show ?thesis by (simp add: align32_def RT_ALIGN_def)
  qed (simp add: align32_def RT_ALIGN_def)
  then have e: "rt_realloc (Some p) n h = Some (None, rt_free (Some p) h)" by (simp add: rt_realloc_def)
  show ?thesis
    using True free_live [OF inv p] by (intro exI [of _ None] exI [of _ "rt_free (Some p) h"]) (auto simp: e)
next
  case False
  then have "0 < n" "n \<le> 2 ^ 32 - 4" by simp_all
  from realloc_resizes [OF inv p this] obtain r h' where
    e: "rt_realloc (Some p) n h = Some (r, h')" "heap_ok h'"
    and c: "case r of
       None \<Rightarrow> h' = h
     | Some q \<Rightarrow> (\<exists>m\<ge>n. live h' = insert (q, m) (live h - {(p, k)})) \<and>
         (\<forall>i<min k n. bytes h' (q + i) = bytes h (p + i)) \<and>
         (\<forall>(a, l)\<in>live h - {(p, k)}. \<forall>i<l. bytes h' (a + i) = bytes h (a + i))" by blast
  have "\<forall>(a, l)\<in>live h - {(p, k)}. \<forall>i<l. bytes h' (a + i) = bytes h (a + i)"
    using c by (cases r) simp_all
  then show ?thesis using e c unfolding if_not_P [OF False] by (intro exI [of _ r] exI [of _ h']) (cases r; simp)
qed

theorem realloc_keeps_contents_witness:
  "(\<exists>r h'. rt_realloc (Some 1012) 16 demo_malloc = Some (r, h') \<and>
    (case r of
       None \<Rightarrow> h' = demo_malloc
     | Some q \<Rightarrow> (\<exists>m\<ge>16. live h' = insert (q, m) (live demo_malloc - {(1012, 100)})) \<and>
         (\<forall>i<min 100 16. bytes h' (q + i) = bytes demo_malloc (1012 + i)))) \<and>
   (\<exists>h'. rt_realloc (Some 1012) 4294967295 demo_malloc = Some (None, h') \<and> live h' = live demo_malloc - {(1012, 100)})"
proof -
  have p: "(1012, 100) \<in> live demo_malloc" by (simp add: demo_malloc_live)
  obtain r h' where "rt_realloc (Some 1012) 16 demo_malloc = Some (r, h')"
    "case r of
       None \<Rightarrow> h' = demo_malloc
     | Some q \<Rightarrow> (\<exists>m\<ge>16. live h' = insert (q, m) (live demo_malloc - {(1012, 100)})) \<and>
         (\<forall>i<min 100 16. bytes h' (q + i) = bytes demo_malloc (1012 + i))"
    using realloc_keeps_contents [OF demo_malloc_inv p, of 16] by auto
  moreover obtain h'' where "rt_realloc (Some 1012) 4294967295 demo_malloc = Some (None, h'')"
    "live h'' = live demo_malloc - {(1012, 100)}"
    using realloc_keeps_contents [OF demo_malloc_inv p, of 4294967295] by auto
  ultimately show ?thesis by blast
qed

section \<open>Where the code misses its aim\<close>

text \<open>
  Rounding up wraps around: a request within three bytes of 2^32 is served as a request of one
  byte.
\<close>

theorem malloc_request_wraps:
  assumes "2 ^ 32 - 3 \<le> n" "n < 2 ^ 32" "heap_inv B h"
  shows "rt_malloc n h = rt_malloc 1 h"
proof -
  have "(3 + n) div 4 = 2 ^ 30" using assms(1,2) by (intro div_nat_eqI) simp_all
  then have "align32 n = 0" by (simp add: align32_def RT_ALIGN_def)
  moreover have "align32 1 = 4" by (simp add: align32_def RT_ALIGN_def)
  moreover have "12 \<le> mem_size_aligned h" using assms(3) by (simp add: heap_inv_def shape_def)
  ultimately show ?thesis using assms(1) by (simp add: rt_malloc_def)
qed

theorem malloc_request_wraps_witness: "rt_malloc 4294967295 demo_heap = rt_malloc 1 demo_heap"
  by (rule malloc_request_wraps [OF _ _ demo_heap_inv]) simp_all


text \<open>
  The search stops short of the end: a free last block of exactly the size asked for is not
  handed out, and the request fails when no other block fits.
\<close>

theorem last_block_refused:
  assumes inv: "heap_inv B h" and n: "0 < n" and b: "b \<in> B" "\<not> us h b" "nx h b = heap_end h" "b + 12 + req n = heap_end h"
    and others: "\<forall>c\<in>B. c \<noteq> b \<longrightarrow> \<not> fits (req n) h c"
  shows "rt_malloc n h = Some (None, h)"
proof -
  have s: "shape B h" and l: "lfree_ok B h" using inv by (simp_all add: heap_inv_def)
  have m: "b + req n = mem_size_aligned h" using s b(4) by (simp add: shape_def)
  then have "req n \<le> mem_size_aligned h" by simp
  moreover have "lfree h \<in> B \<or> lfree h = heap_end h" using l by (auto simp: lfree_ok_def)
  ultimately obtain r where r: "malloc_search (req n) h (lfree h) = Some r"
    "\<And>q. r = Some q \<Longrightarrow> q \<in> B \<and> fits (req n) h q \<and> q < mem_size_aligned h - req n"
    using malloc_search_ok [OF s, of "req n" "lfree h"] by (auto split: option.splits)
  have "r = None" using r(2) others m by (cases r) fastforce+
  then show ?thesis using r(1) n m by (auto simp: rt_malloc_def req_def Let_def)
qed

theorem last_block_refused_witness: "rt_malloc 376 demo_heap = Some (None, demo_heap)"
  by (rule last_block_refused [OF demo_heap_inv, of 376 0]) (simp_all add: demo_heap_eq req_def align32_def RT_ALIGN_def blank_heap_def)


definition run_heap :: "heap option" where
  "run_heap =
    Option.bind (rt_malloc 100 demo_heap) (\<lambda>(_, a).
    Option.bind (rt_malloc 100 a) (\<lambda>(_, b).
    Option.bind (rt_realloc (Some 1012) 16 b) (\<lambda>(_, c).
    map_option snd (rt_malloc 140 c))))"

lemma empty_search:
  assumes "mem_size_aligned h \<le> lfree h" "12 \<le> mem_size_aligned h"
  shows "rt_malloc n h = Some (None, h)"
proof -
  have "malloc_search sz h (lfree h) = Some None" if "sz \<le> mem_size_aligned h" for sz
  proof -
    have "\<not> lfree h < sub32 (mem_size_aligned h) sz" using assms that by (simp add: sub32_def)
    then show ?thesis by (simp add: malloc_search.simps [of sz h "lfree h"])
  qed
  then show ?thesis using assms(2) by (simp add: rt_malloc_def Let_def)
qed

text \<open>
  \<^verbatim>\<open>rt_realloc\<close> does not lower \<^verbatim>\<open>lfree\<close> when it shrinks a block, so the part it
  cuts off is not found again: here a free block of 72 bytes lies in the heap and every request is
  refused.
\<close>

theorem realloc_hides_block:
  "case run_heap of
     None \<Rightarrow> False
   | Some h \<Rightarrow> \<not> us h 28 \<and> nx h 28 - (28 + 12) = 72 \<and> nx h 0 = 28 \<and> (\<forall>n. rt_malloc n h = Some (None, h))"
proof -
  have "case run_heap of
     None \<Rightarrow> False
   | Some h \<Rightarrow> \<not> us h 28 \<and> nx h 28 = 112 \<and> nx h 0 = 28 \<and> lfree h = 388 \<and> heap_end h = 388 \<and> mem_size_aligned h = 376"
    by (simp add: run_heap_def demo_heap_eq heap_run rt_realloc_def realloc_split_def plug_holes_def
        plug_forward_def plug_backward_def absorb_def)
  then obtain h where h: "run_heap = Some h" and "\<not> us h 28" "nx h 28 = 112" "nx h 0 = 28" "lfree h = 388"
    "heap_end h = 388" "mem_size_aligned h = 376" by (auto split: option.splits)
  then show ?thesis unfolding h by (simp add: empty_search)
qed

end
