(* ===== verification/KMemory.thy ===== *)
theory KMemory
  imports HeapClient "HOL-Library.Sublist"
begin

unbundle bit_operations_syntax

text \<open>
  The rest of the memory services of \<^verbatim>\<open>src/kservice.c\<close>: \<^verbatim>\<open>rt_memset\<close> and
  \<^verbatim>\<open>rt_memcpy\<close>, which work on words where they can (the target stores them low byte first),
  \<^verbatim>\<open>rt_strstr\<close>, \<^verbatim>\<open>rt_strdup\<close> and aligned allocation.
\<close>

section \<open>Words in memory\<close>

definition store_word32 :: "nat \<Rightarrow> u32 \<Rightarrow> raw \<Rightarrow> raw" where
  "store_word32 a v m =
    m(a := ucast v, a + 1 := ucast (drop_bit 8 v), a + 2 := ucast (drop_bit 16 v), a + 3 := ucast (drop_bit 24 v))"

definition load_word32 :: "nat \<Rightarrow> raw \<Rightarrow> u32" where
  "load_word32 a m =
    ucast (m a) OR push_bit 8 (ucast (m (a + 1))) OR push_bit 16 (ucast (m (a + 2))) OR push_bit 24 (ucast (m (a + 3)))"

section \<open>The code\<close>

text \<open>The word loops; each yields what the byte loop is left with.\<close>

function set_blocks :: "nat \<Rightarrow> u32 \<Rightarrow> nat \<Rightarrow> raw \<Rightarrow> nat \<times> nat \<times> raw" where
  "set_blocks a buffer count m =
    (if count \<ge> 16
     then set_blocks (a + 16) buffer (count - 16)
       (store_word32 (a + 12) buffer (store_word32 (a + 8) buffer (store_word32 (a + 4) buffer (store_word32 a buffer m))))
     else (a, count, m))"
  by pat_completeness auto
termination by (relation "measure (\<lambda>(_, _, count, _). count)") auto

function set_words :: "nat \<Rightarrow> u32 \<Rightarrow> nat \<Rightarrow> raw \<Rightarrow> nat \<times> nat \<times> raw" where
  "set_words a buffer count m =
    (if count \<ge> 4 then set_words (a + 4) buffer (count - 4) (store_word32 a buffer m) else (a, count, m))"
  by pat_completeness auto
termination by (relation "measure (\<lambda>(_, _, count, _). count)") auto

definition rt_memset :: "nat \<Rightarrow> u32 \<Rightarrow> nat \<Rightarrow> raw \<Rightarrow> raw" where
  "rt_memset s c count m =
    (let d = c AND 0xff;
         (p, n, m1) =
           (if \<not> count < 4 \<and> s mod 4 = 0
            then let b = push_bit 8 d OR d; buffer = b OR push_bit 16 b; (a, n, m1) = set_blocks s buffer count m
                 in set_words a buffer n m1
            else (s, count, m))
     in fill_up p (ucast d) n m1)"

definition copy_word :: "nat \<Rightarrow> nat \<Rightarrow> raw \<Rightarrow> raw" where
  "copy_word d s m = store_word32 d (load_word32 s m) m"

function copy_blocks :: "nat \<Rightarrow> nat \<Rightarrow> nat \<Rightarrow> raw \<Rightarrow> nat \<times> nat \<times> nat \<times> raw" where
  "copy_blocks d s len m =
    (if len \<ge> 16
     then copy_blocks (d + 16) (s + 16) (len - 16)
       (copy_word (d + 12) (s + 12) (copy_word (d + 8) (s + 8) (copy_word (d + 4) (s + 4) (copy_word d s m))))
     else (d, s, len, m))"
  by pat_completeness auto
termination by (relation "measure (\<lambda>(_, _, len, _). len)") auto

function copy_words :: "nat \<Rightarrow> nat \<Rightarrow> nat \<Rightarrow> raw \<Rightarrow> nat \<times> nat \<times> nat \<times> raw" where
  "copy_words d s len m =
    (if len \<ge> 4 then copy_words (d + 4) (s + 4) (len - 4) (copy_word d s m) else (d, s, len, m))"
  by pat_completeness auto
termination by (relation "measure (\<lambda>(_, _, len, _). len)") auto

declare set_blocks.simps [simp del] set_words.simps [simp del] copy_blocks.simps [simp del] copy_words.simps [simp del]

definition rt_memcpy :: "nat \<Rightarrow> nat \<Rightarrow> nat \<Rightarrow> raw \<Rightarrow> raw" where
  "rt_memcpy dst src count m =
    (let (d, s, len, m1) =
       (if \<not> count < 16 \<and> src mod 4 = 0 \<and> dst mod 4 = 0
        then let (d, s, len, m1) = copy_blocks dst src count m in copy_words d s len m1
        else (dst, src, count, m))
     in copy_up d s len m1)"

text \<open>The loop of \<^verbatim>\<open>rt_strstr\<close>; a position in the string is the rest of the string.\<close>

fun strstr_loop :: "nat \<Rightarrow> nat \<Rightarrow> string \<Rightarrow> string \<Rightarrow> string option" where
  "strstr_loop l1 l2 s1 s2 =
    (if l1 \<ge> l2 \<and> 0 < l2
     then if take l2 s1 = take l2 s2 then Some s1 else strstr_loop (l1 - 1) l2 (tl s1) s2
     else None)"

declare strstr_loop.simps [simp del]

definition rt_strstr :: "string \<Rightarrow> string \<Rightarrow> string option" where
  "rt_strstr s1 s2 = (if rt_strlen s2 = 0 then Some s1 else strstr_loop (rt_strlen s1) (rt_strlen s2) s1 s2)"

text \<open>A string in memory: its characters and a zero.\<close>

primrec string_at :: "nat \<Rightarrow> string \<Rightarrow> raw \<Rightarrow> bool" where
  "string_at a [] m \<longleftrightarrow> m a = 0"
| "string_at a (c # s) m \<longleftrightarrow> m a = of_char c \<and> c \<noteq> NUL \<and> string_at (a + 1) s m"

text \<open>\<^verbatim>\<open>rt_strlen\<close> on the memory itself; no result when no zero follows.\<close>

partial_function (option) strlen_from :: "raw \<Rightarrow> nat \<Rightarrow> nat \<Rightarrow> nat option" where
  "strlen_from m s sc = (if m sc \<noteq> 0 then strlen_from m s (sc + 1) else Some (sc - s))"

definition rt_strdup :: "nat \<Rightarrow> heap \<Rightarrow> (nat option \<times> heap) option" where
  "rt_strdup s h =
    Option.bind (strlen_from (bytes h) s s)
      (\<lambda>l. let len = l + 1
           in map_option
             (\<lambda>(tmp, h1). case tmp of
                None \<Rightarrow> (None, h1)
              | Some p \<Rightarrow> (Some p, h1\<lparr>bytes := rt_memcpy p s len (bytes h1)\<rparr>))
             (rt_malloc len h))"

definition rt_malloc_align :: "nat \<Rightarrow> nat \<Rightarrow> heap \<Rightarrow> (nat option \<times> heap) option" where
  "rt_malloc_align sz align h =
    (let align = align32 align;
         align_size = (align32 sz + align) mod 2 ^ 32
     in map_option
       (\<lambda>(p, h1). case p of
          None \<Rightarrow> (None, h1)
        | Some ptr \<Rightarrow>
            let al = (of_nat align :: u32); pw = (of_nat ptr :: u32);
                align_ptr = unat (if pw AND (al - 1) = 0 then pw + al else (pw + (al - 1)) AND NOT (al - 1))
            in (Some align_ptr, h1\<lparr>bytes := store_word32 (align_ptr - 4) pw (bytes h1)\<rparr>))
       (rt_malloc align_size h))"

definition rt_free_align :: "nat \<Rightarrow> heap \<Rightarrow> heap" where
  "rt_free_align ptr h = rt_free (Some (unat (load_word32 (ptr - 4) (bytes h)))) h"

section \<open>Words are four bytes\<close>

lemma load_bytes:
  "ucast (load_word32 a m) = m a" "ucast (drop_bit 8 (load_word32 a m)) = m (a + 1)"
  "ucast (drop_bit 16 (load_word32 a m)) = m (a + 2)" "ucast (drop_bit 24 (load_word32 a m)) = m (a + 3)"
  by (rule bit_word_eqI; auto simp: load_word32_def bit_simps dest: bit_imp_le_length)+

lemma load_store: "load_word32 a (store_word32 a v m) = v"
proof (rule bit_word_eqI)
  fix n assume "n < LENGTH(32)"
  then consider "n < 8" | "8 \<le> n" "n < 16" | "16 \<le> n" "n < 24" | "24 \<le> n" "n < 32" by fastforce
  then show "bit (load_word32 a (store_word32 a v m)) n = bit v n"
    by cases (auto simp: load_word32_def store_word32_def bit_simps)
qed

lemma copy_up_add: "copy_up d s (a + b) m = copy_up (d + a) (s + a) b (copy_up d s a m)"
  by (induction a arbitrary: d s m) auto

lemma fill_up_add: "fill_up s c (a + b) m = fill_up (s + a) c b (fill_up s c a m)"
  by (induction a arbitrary: s m) auto

text \<open>Two words at multiples of four are the same or do not overlap.\<close>

lemma copy_word_bytes:
  assumes "d mod 4 = 0" "s mod 4 = (0 :: nat)"
  shows "copy_word d s m = copy_up d s 4 m"
proof
  fix a
  have "d = s \<or> s + 4 \<le> d \<or> d + 4 \<le> s" using assms by presburger
  then have c: "d \<le> s \<or> s + 4 \<le> d" by auto
  have "copy_word d s m a = (if d \<le> a \<and> a < d + 4 then m (s + (a - d)) else m a)"
  proof (cases "d \<le> a \<and> a < d + 4")
    case True
    then have "a = d \<or> a = d + 1 \<or> a = d + 2 \<or> a = d + 3" by auto
    then show ?thesis by (auto simp: copy_word_def store_word32_def load_bytes [simplified])
  next
    case False
    then show ?thesis by (auto simp: copy_word_def store_word32_def)
  qed
  then show "copy_word d s m a = copy_up d s 4 m a" by (simp only: copy_up_result [OF c])
qed

lemma set_word_bytes:
  assumes "d = c AND 0xff" "b = push_bit 8 d OR d"
  shows "store_word32 a (b OR push_bit 16 b) m = fill_up a (ucast d) 4 m"
proof -
  have "ucast (b OR push_bit 16 b) = (ucast d :: u8)" "ucast (drop_bit 8 (b OR push_bit 16 b)) = (ucast d :: u8)"
    "ucast (drop_bit 16 (b OR push_bit 16 b)) = (ucast d :: u8)" "ucast (drop_bit 24 (b OR push_bit 16 b)) = (ucast d :: u8)"
    unfolding assms by (rule bit_word_eqI; auto simp: bit_simps bit_numeral_rec)+
  then show ?thesis by (simp add: store_word32_def numeral_eq_Suc)
qed

section \<open>The word loops do what byte loops do\<close>

lemma four_words:
  "fill_up (a + 12) b 4 (fill_up (a + 8) b 4 (fill_up (a + 4) b 4 (fill_up a b 4 m))) = fill_up a b 16 m"
  using fill_up_add [of a b 4 4 m] fill_up_add [of a b 8 4 m] fill_up_add [of a b 12 4 m] by simp

lemma set_blocks_bytes:
  assumes w: "\<And>a m. store_word32 a buffer m = fill_up a b 4 m"
  shows "set_blocks a buffer n m = (a', n', m') \<Longrightarrow> fill_up a' b n' m' = fill_up a b n m"
proof (induction n arbitrary: a m rule: less_induct)
  case (less n)
  show ?case
  proof (cases "n \<ge> 16")
    case True
    then have "fill_up a' b n' m' = fill_up (a + 16) b (n - 16) (fill_up a b 16 m)"
      using less by (simp add: set_blocks.simps [of a] w four_words)
    then show ?thesis using True fill_up_add [of a b 16 "n - 16" m] by simp
  next
    case False
    then show ?thesis using less.prems by (simp add: set_blocks.simps [of a])
  qed
qed

lemma set_words_bytes:
  assumes w: "\<And>a m. store_word32 a buffer m = fill_up a b 4 m"
  shows "set_words a buffer n m = (a', n', m') \<Longrightarrow> fill_up a' b n' m' = fill_up a b n m"
proof (induction n arbitrary: a m rule: less_induct)
  case (less n)
  show ?case
  proof (cases "n \<ge> 4")
    case True
    then have "fill_up a' b n' m' = fill_up (a + 4) b (n - 4) (fill_up a b 4 m)"
      using less by (simp add: set_words.simps [of a] w)
    then show ?thesis using True fill_up_add [of a b 4 "n - 4" m] by simp
  next
    case False
    then show ?thesis using less.prems by (simp add: set_words.simps [of a])
  qed
qed

text \<open>
  \<^verbatim>\<open>rt_memset\<close>, which stores words where it can, sets exactly the \<open>count\<close> bytes
  from \<open>s\<close> on to the low byte of \<open>c\<close>, at every alignment and for every count.
\<close>

theorem memset_sets_bytes: "rt_memset s c count m = (\<lambda>a. if s \<le> a \<and> a < s + count then ucast c else m a)"
proof -
  let ?d = "c AND 0xff"
  let ?b = "push_bit 8 ?d OR ?d"
  let ?w = "?b OR push_bit 16 ?b"
  have w: "store_word32 a ?w m = fill_up a (ucast ?d) 4 m" for a m by (rule set_word_bytes [OF refl refl])
  have "rt_memset s c count m = fill_up s (ucast ?d) count m"
  proof (cases "\<not> count < 4 \<and> s mod 4 = 0")
    case True
    obtain a n m1 where b: "set_blocks s ?w count m = (a, n, m1)" by (cases "set_blocks s ?w count m")
    obtain a' n' m2 where c: "set_words a ?w n m1 = (a', n', m2)" by (cases "set_words a ?w n m1")
    have "fill_up a' (ucast ?d) n' m2 = fill_up s (ucast ?d) count m"
      using set_blocks_bytes [OF w b] set_words_bytes [OF w c] by simp
    then show ?thesis unfolding rt_memset_def Let_def if_P [OF True] b prod.case c .
  next
    case False
    show ?thesis unfolding rt_memset_def Let_def if_not_P [OF False] prod.case ..
  qed
  moreover have "ucast (c AND mask 8) = (ucast c :: u8)" by (intro bit_word_eqI) (simp add: bit_simps)
  then have "ucast ?d = (ucast c :: u8)" by (simp add: mask_eq_exp_minus_1)
  ultimately show ?thesis by (simp add: fun_eq_iff fill_up_result)
qed

lemma copy_four_words:
  assumes "d mod 4 = 0" "s mod 4 = 0"
  shows "copy_word (d + 12) (s + 12) (copy_word (d + 8) (s + 8) (copy_word (d + 4) (s + 4) (copy_word d s m))) = copy_up d s 16 m"
proof -
  have "copy_word (d + k) (s + k) m = copy_up (d + k) (s + k) 4 m" if "k mod 4 = 0" for k m
    using assms that by (intro copy_word_bytes) presburger+
  from this [of 0] this [of 4] this [of 8] this [of 12] show ?thesis
    using copy_up_add [of d s 4 4 m] copy_up_add [of d s 8 4 m] copy_up_add [of d s 12 4 m] by simp
qed

lemma copy_blocks_bytes:
  "d mod 4 = 0 \<Longrightarrow> s mod 4 = 0 \<Longrightarrow> copy_blocks d s n m = (d', s', n', m') \<Longrightarrow>
   copy_up d' s' n' m' = copy_up d s n m \<and> d' mod 4 = 0 \<and> s' mod 4 = 0"
proof (induction n arbitrary: d s m rule: less_induct)
  case (less n)
  show ?case
  proof (cases "n \<ge> 16")
    case True
    have "(d + 16) mod 4 = 0" "(s + 16) mod 4 = 0" using less.prems(1,2) by presburger+
    moreover have "copy_blocks (d + 16) (s + 16) (n - 16) (copy_up d s 16 m) = (d', s', n', m')"
      using less.prems True by (simp add: copy_blocks.simps [of d] copy_four_words)
    ultimately have "copy_up d' s' n' m' = copy_up (d + 16) (s + 16) (n - 16) (copy_up d s 16 m) \<and> d' mod 4 = 0 \<and> s' mod 4 = 0"
      using True by (intro less.IH) auto
    then show ?thesis using True copy_up_add [of d s 16 "n - 16" m] by simp
  next
    case False
    then show ?thesis using less.prems by (simp add: copy_blocks.simps [of d])
  qed
qed

lemma copy_words_bytes:
  "d mod 4 = 0 \<Longrightarrow> s mod 4 = 0 \<Longrightarrow> copy_words d s n m = (d', s', n', m') \<Longrightarrow> copy_up d' s' n' m' = copy_up d s n m"
proof (induction n arbitrary: d s m rule: less_induct)
  case (less n)
  show ?case
  proof (cases "n \<ge> 4")
    case True
    have "(d + 4) mod 4 = 0" "(s + 4) mod 4 = 0" using less.prems(1,2) by presburger+
    then have "copy_up d' s' n' m' = copy_up (d + 4) (s + 4) (n - 4) (copy_up d s 4 m)"
      using less True by (simp add: copy_words.simps [of d] copy_word_bytes)
    then show ?thesis using True copy_up_add [of d s 4 "n - 4" m] by simp
  next
    case False
    then show ?thesis using less.prems by (simp add: copy_words.simps [of d])
  qed
qed

lemma memcpy_is_copy: "rt_memcpy dst src count m = copy_up dst src count m"
proof (cases "\<not> count < 16 \<and> src mod 4 = 0 \<and> dst mod 4 = 0")
  case True
  obtain d s n m1 where b: "copy_blocks dst src count m = (d, s, n, m1)" by (cases "copy_blocks dst src count m")
  obtain d' s' n' m2 where c: "copy_words d s n m1 = (d', s', n', m2)" by (cases "copy_words d s n m1")
  note cb = copy_blocks_bytes [OF _ _ b]
  have "copy_up d' s' n' m2 = copy_up dst src count m"
    using cb copy_words_bytes [OF _ _ c] True by simp
  then show ?thesis unfolding rt_memcpy_def Let_def if_P [OF True] b prod.case c .
next
  case False
  show ?thesis unfolding rt_memcpy_def Let_def if_not_P [OF False] prod.case ..
qed

text \<open>
  C40: \<^verbatim>\<open>rt_memcpy\<close>, which copies four words and one word at a time where both addresses
  are aligned, does what copying byte by byte does, for every alignment, count and overlap.
\<close>

theorem memcpy_copies_bytes: "rt_memcpy dst src count m = copy_up dst src count m"
  by (rule memcpy_is_copy)

section \<open>Searching and duplicating a string\<close>

lemma prefix_take: "prefix t u \<longleftrightarrow> length t \<le> length u \<and> take (length t) u = t"
  by (metis append_eq_conv_conj prefix_def prefix_length_le take_is_prefix)

text \<open>The occurrences in \<open>c # s\<close> are those in \<open>s\<close>, one further, and the one at the front.\<close>

lemma first_shift:
  assumes "\<not> P 0"
  shows "(\<forall>i\<le>Suc n. \<not> P i) \<longleftrightarrow> (\<forall>i\<le>n. \<not> P (Suc i))"
    "i \<le> n \<and> P (Suc i) \<and> (\<forall>j<i. \<not> P (Suc j)) \<Longrightarrow> Suc i \<le> Suc n \<and> P (Suc i) \<and> (\<forall>j<Suc i. \<not> P j)"
  using assms by (auto simp: less_Suc_eq_0_disj elim: less_natE) (metis Suc_le_mono not0_implies_Suc)

lemma strstr_loop_first:
  assumes "t \<noteq> []"
  shows "case strstr_loop (length s) (length t) s t of
     None \<Rightarrow> \<forall>i\<le>length s. \<not> prefix t (drop i s)
   | Some r \<Rightarrow> \<exists>i\<le>length s. r = drop i s \<and> prefix t (drop i s) \<and> (\<forall>j<i. \<not> prefix t (drop j s))"
proof (induction s)
  case Nil
  then show ?case using assms by (simp add: strstr_loop.simps)
next
  case (Cons c s)
  let ?P = "\<lambda>i. prefix t (drop i (c # s))"
  show ?case
  proof (cases "?P 0")
    case True
    then have "strstr_loop (length (c # s)) (length t) (c # s) t = Some (c # s)"
      using assms by (subst strstr_loop.simps) (simp add: prefix_take)
    then show ?thesis using True by (auto intro!: exI [of _ 0])
  next
    case False
    have "strstr_loop (length (c # s)) (length t) (c # s) t = strstr_loop (length s) (length t) s t"
    proof (cases "length t \<le> length (c # s)")
      case True
      then show ?thesis using False assms by (subst strstr_loop.simps) (simp add: prefix_take)
    next
      case F: False
      then show ?thesis by (subst (1 2) strstr_loop.simps) simp
    qed
    moreover note f = first_shift [where P = ?P and n = "length s", OF False]
    ultimately show ?thesis
    proof (cases "strstr_loop (length s) (length t) s t")
      case None
      then show ?thesis using Cons.IH f(1) \<open>strstr_loop (length (c # s)) (length t) (c # s) t = _\<close> by simp
    next
      case (Some r)
      then obtain i where i: "i \<le> length s" "r = drop (Suc i) (c # s)" "?P (Suc i)" "\<forall>j<i. \<not> ?P (Suc j)"
        using Cons.IH by auto
      have "Suc i \<le> length (c # s) \<and> ?P (Suc i) \<and> (\<forall>j<Suc i. \<not> ?P j)" 
        using f(2) [OF conjI [OF i(1) conjI [OF i(3) i(4)]]] unfolding length_Cons .
      with i(2) show ?thesis
        unfolding \<open>strstr_loop (length (c # s)) (length t) (c # s) t = _\<close> Some option.case by blast
    qed
  qed
qed

text \<open>
  \<^verbatim>\<open>rt_strstr\<close> returns the rest of the string from the first place where the other string
  occurs, and a null pointer when it occurs nowhere.
\<close>

theorem strstr_finds_first:
  assumes "c_string s" "c_string t"
  shows "case rt_strstr s t of
     None \<Rightarrow> \<forall>i\<le>length s. \<not> prefix t (drop i s)
   | Some r \<Rightarrow> \<exists>i\<le>length s. r = drop i s \<and> prefix t (drop i s) \<and> (\<forall>j<i. \<not> prefix t (drop j s))"
  using strstr_loop_first [of t s] assms
  by (cases "t = []") (auto simp: rt_strstr_def rt_strlen_length intro!: exI [of _ 0])

lemma strstr_finds_first_witness:
  "rt_strstr ''banana'' ''na'' = Some ''nana''"
proof -
  have "rt_strstr ''banana'' ''na'' \<noteq> None" by (simp add: rt_strstr_def strstr_loop.simps)
  then obtain r i where "rt_strstr ''banana'' ''na'' = Some r" "i \<le> 6" "r = drop i ''banana''" "prefix ''na'' r"
    "\<forall>j<i. \<not> prefix ''na'' (drop j ''banana'')"
    using strstr_finds_first [of "''banana''" "''na''"] by auto
  moreover have "i = 2"
  proof (rule ccontr)
    assume "i \<noteq> 2"
    then consider "i < 2" | "2 < i" by linarith
    then show False using calculation(3-5)
      by cases (auto simp: less_Suc_eq numeral_eq_Suc)
  qed
  ultimately show ?thesis by simp
qed

lemma copy_up_outside: "a < d \<or> d + n \<le> a \<Longrightarrow> copy_up d s n m a = m a"
  by (induction d s n m rule: copy_up.induct) auto

lemma string_at_copy:
  "string_at s t m \<Longrightarrow> (\<forall>i\<le>length t. m' (p + i) = m (s + i)) \<Longrightarrow> string_at p t m'"
proof (induction t arbitrary: s p)
  case (Cons c t)
  have "string_at (p + 1) t m'"
    using Cons.prems by (intro Cons.IH [of "s + 1"]) auto
  then show ?case using Cons.prems by force
qed auto

lemma strlen_from_string:
  "string_at sc t m \<Longrightarrow> (\<forall>c\<in>set t. of_char c \<noteq> (0 :: u8)) \<Longrightarrow> s \<le> sc \<Longrightarrow> strlen_from m s sc = Some (sc - s + length t)"
proof (induction t arbitrary: sc)
  case Nil
  then show ?case by (subst strlen_from.simps) simp
next
  case (Cons c t)
  then have "strlen_from m s (sc + 1) = Some (sc + 1 - s + length t)" by (intro Cons.IH) auto
  then show ?case using Cons.prems by (subst strlen_from.simps) simp
qed

lemma of_char_zero: "of_char c = (0 :: u8) \<longleftrightarrow> c = NUL"
proof -
  have "(of_char c :: u8) = of_nat (of_char c)" by (simp only: of_nat_of_char)
  moreover have "(of_char c :: nat) < 2 ^ 8" by simp
  ultimately have "(of_char c :: u8) = 0 \<longleftrightarrow> (of_char c :: nat) = 0"
    using of_nat_inverse [of "of_char c" "0 :: u8"] by auto
  also have "\<dots> \<longleftrightarrow> (of_char c :: int) = of_char NUL" unfolding of_nat_of_char [symmetric, where ?'a = int] by simp
  also have "\<dots> \<longleftrightarrow> c = NUL" by (rule of_char_inj)
  finally show ?thesis .
qed

lemma string_no_nul: "string_at a t m \<Longrightarrow> NUL \<notin> set t"
  by (induction t arbitrary: a) auto

lemma strlen_at: "string_at s t m \<Longrightarrow> strlen_from m s s = Some (length t)"
  using strlen_from_string [of s t m s] string_no_nul [of s t m] by (auto simp: of_char_zero)

text \<open>
  Duplicating a string that lies outside the free memory of the heap gives, unless the heap is full,
  a fresh block that holds the same string, and the original is unchanged.
\<close>

theorem strdup_copies:
  assumes heap: "heap_ok h" "length t < 2 ^ 32 - 4" and s: "string_at s t (bytes h)"
    and away: "\<forall>p h1. rt_malloc (length t + 1) h = Some (Some p, h1) \<longrightarrow> s + length t < p \<or> p + length t < s"
    and d: "rt_strdup s h = Some (Some p, h')"
  shows "string_at p t (bytes h') \<and> string_at s t (bytes h') \<and> p \<notin> fst ` live h \<and>
    (\<exists>m\<ge>length t + 1. live h' = insert (p, m) (live h))"
proof -
  obtain h1 where m: "rt_malloc (length t + 1) h = Some (Some p, h1)" "h' = h1\<lparr>bytes := rt_memcpy p s (length t + 1) (bytes h1)\<rparr>"
    using d by (auto simp: rt_strdup_def strlen_at [OF s] Let_def split: option.splits)
  have "length t + 1 \<le> 2 ^ 32 - 4" "heap_inv (blocks h) h" using heap by (simp_all add: heap_ok_def)
  then have l: "bytes h1 = bytes h" "p \<notin> fst ` live h" "\<exists>m\<ge>length t + 1. live h1 = insert (p, m) (live h)"
    using malloc_live [OF _ _ m(1)] by blast+
  have c: "s + length t < p \<or> p + length t < s" using away m(1) by blast
  have b: "bytes h' a = copy_up p s (length t + 1) (bytes h) a" for a
    using m(2) l(1) memcpy_is_copy by simp
  have "\<forall>i\<le>length t. bytes h' (p + i) = bytes h (s + i)"
    using c unfolding b by (subst copy_up_result) auto
  moreover have "\<forall>i\<le>length t. bytes h' (s + i) = bytes h (s + i)"
    using c unfolding b by (intro allI impI, subst copy_up_outside) auto
  moreover have "live h' = live h1" by (simp add: m(2) live_def region_of_def used_blocks_def blocks_def)
  ultimately show ?thesis using string_at_copy [OF s] l(2,3) by auto
qed

definition hi_heap :: heap where
  "hi_heap = demo_heap\<lparr>bytes := (bytes demo_heap)(2000 := of_char (CHR ''h''), 2001 := of_char (CHR ''i''), 2002 := 0)\<rparr>"

theorem strdup_copies_witness:
  "\<exists>h'. rt_strdup 2000 hi_heap = Some (Some 1012, h') \<and> string_at 1012 ''hi'' (bytes h') \<and> string_at 2000 ''hi'' (bytes h')"
proof -
  obtain h1 where m: "rt_malloc (length ''hi'' + 1) hi_heap = Some (Some 1012, h1)"
    by (simp add: hi_heap_def demo_heap_eq heap_run)
  have s: "string_at 2000 ''hi'' (bytes hi_heap)" by (simp add: hi_heap_def)
  from strlen_at [OF this] m obtain h' where d: "rt_strdup 2000 hi_heap = Some (Some 1012, h')"
    unfolding rt_strdup_def by (auto simp only: Option.bind.simps Let_def option.map prod.case option.case)
  have ok: "heap_ok hi_heap" using heap_okI [OF demo_heap_inv] by (simp add: hi_heap_def heap_ok_bytes)
  have "\<forall>p h1. rt_malloc (length ''hi'' + 1) hi_heap = Some (Some p, h1) \<longrightarrow>
      2000 + length ''hi'' < p \<or> p + length ''hi'' < 2000"
    unfolding m by simp
  from strdup_copies [OF ok _ s this d] d show ?thesis by simp
qed

section \<open>Aligned allocation\<close>

lemma unat_and_mask:
  "unat (w AND mask j) = unat w mod 2 ^ j" "unat (w AND NOT (mask j)) = unat w - unat w mod 2 ^ j" for w :: u32
proof -
  show m: "unat (w AND mask j) = unat w mod 2 ^ j"
    unfolding take_bit_eq_mask [symmetric] unsigned_take_bit_eq unfolding take_bit_eq_mod ..
  have "w - (w AND mask j) = w AND NOT (w AND mask j)" by (rule disjunctive_diff_eq_and_not) (simp add: flip: and.assoc)
  also have "\<dots> = w AND NOT (mask j)" by (rule bit_word_eqI) (auto simp: bit_simps)
  finally have "w AND NOT (mask j) = w - (w AND mask j)" ..
  moreover have "w AND mask j \<le> w" by (simp add: word_le_nat_alt m)
  ultimately show "unat (w AND NOT (mask j)) = unat w - unat w mod 2 ^ j" by (simp add: unat_sub m)
qed

lemma unat_of_addr: "a < 2 ^ 32 \<Longrightarrow> unat (of_nat a :: u32) = a"
  by (simp add: unat_of_nat)

text \<open>The two roundings of \<^verbatim>\<open>rt_malloc_align\<close>, for an alignment that is a power of two.\<close>

lemma align_up:
  assumes j: "2 \<le> j" and p: "4 dvd p" "p + 2 ^ j < 2 ^ 32"
  defines "al \<equiv> (of_nat (2 ^ j) :: u32)" and "pw \<equiv> (of_nat p :: u32)"
  defines "r \<equiv> unat (if pw AND (al - 1) = 0 then pw + al else (pw + (al - 1)) AND NOT (al - 1))"
  shows "2 ^ j dvd r" "p + 4 \<le> r" "r \<le> p + 2 ^ j"
proof -
  have m: "al - 1 = mask j" by (simp add: al_def mask_eq_exp_minus_1)
  have four: "4 dvd (2 :: nat) ^ j" using j le_imp_power_dvd [of 2 j "2 :: nat"] by simp
  have up: "unat pw = p" "unat al = 2 ^ j" "unat (pw + al) = p + 2 ^ j" "unat (pw + (al - 1)) = p + 2 ^ j - 1"
  proof -
    show "unat pw = p" "unat al = 2 ^ j" using p(2) unfolding pw_def al_def by (intro unat_of_addr; simp)+
    have "pw + al = of_nat (p + 2 ^ j)" "pw + (al - 1) = of_nat (p + 2 ^ j - 1)"
      using of_nat_diff [of 1 "p + 2 ^ j", where ?'a = u32] by (simp_all add: pw_def al_def add_increasing)
    then show "unat (pw + al) = p + 2 ^ j" "unat (pw + (al - 1)) = p + 2 ^ j - 1"
      using p(2) unat_of_addr [of "p + 2 ^ j"] unat_of_addr [of "p + 2 ^ j - 1"] by simp_all
  qed
  have z: "pw AND (al - 1) = 0 \<longleftrightarrow> p mod 2 ^ j = 0"
    unfolding m using unat_and_mask(1) [of pw j] up(1) by (metis unat_eq_zero)
  let ?q = "p + 2 ^ j - 1"
  have r: "r = (if p mod 2 ^ j = 0 then p + 2 ^ j else ?q - ?q mod 2 ^ j)"
    unfolding r_def z using up(3,4) unat_and_mask(2) [of "pw + (al - 1)" j] by (simp add: m)
  show d: "2 ^ j dvd r"
    unfolding r by (cases "p mod 2 ^ j = 0") (simp_all only: if_True if_False dvd_minus_mod, simp add: mod_eq_0_iff_dvd)
  have "?q mod 2 ^ j < 2 ^ j" by (intro mod_less_divisor) simp
  then have "?q mod 2 ^ j \<le> 2 ^ j - 1" by linarith
  show "r \<le> p + 2 ^ j" unfolding r by (auto simp: diff_le_self le_diff_conv)
  have "(1 :: nat) \<le> 2 ^ j" by simp
  then have "p \<le> ?q - ?q mod 2 ^ j" using \<open>?q mod 2 ^ j \<le> 2 ^ j - 1\<close> by linarith
  then have "p \<le> r" unfolding r by simp
  moreover have "p \<noteq> r" using d unfolding r by (auto simp: mod_eq_0_iff_dvd)
  moreover have "4 dvd r" using d four by (rule dvd_trans [rotated])
  ultimately show "p + 4 \<le> r" using p(1) by (metis dvd_add_right_iff dvd_imp_le le_add_diff_inverse nat_add_left_cancel_le not_gr_zero add.right_neutral)
qed


text \<open>The bytes do not matter to the bookkeeping of \<^verbatim>\<open>rt_free\<close>.\<close>

lemma bytes_first:
  "h\<lparr>hdr := x, bytes := m\<rparr> = h\<lparr>bytes := m, hdr := x\<rparr>" "h\<lparr>lfree := l, bytes := m\<rparr> = h\<lparr>bytes := m, lfree := l\<rparr>"
  "h\<lparr>used_mem := u, bytes := m\<rparr> = h\<lparr>bytes := m, used_mem := u\<rparr>"
  by (cases h; simp)+

lemma absorb_bytes: "absorb b c (h\<lparr>bytes := m\<rparr>) = (absorb b c h)\<lparr>bytes := m\<rparr>"
  by (simp add: absorb_def upd_hdr_def Let_def bytes_first)

lemma plug_bytes:
  "plug_forward b (h\<lparr>bytes := m\<rparr>) = (plug_forward b h)\<lparr>bytes := m\<rparr>"
  "plug_backward b (h\<lparr>bytes := m\<rparr>) = (plug_backward b h)\<lparr>bytes := m\<rparr>"
  "plug_holes b (h\<lparr>bytes := m\<rparr>) = (plug_holes b h)\<lparr>bytes := m\<rparr>"
proof -
  show f: "plug_forward b (h\<lparr>bytes := m\<rparr>) = (plug_forward b h)\<lparr>bytes := m\<rparr>"
    by (simp add: plug_forward_def Let_def absorb_bytes)
  have g: "plug_backward b (k\<lparr>bytes := m\<rparr>) = (plug_backward b k)\<lparr>bytes := m\<rparr>" for k
    by (simp add: plug_backward_def Let_def absorb_bytes)
  show "plug_backward b (h\<lparr>bytes := m\<rparr>) = (plug_backward b h)\<lparr>bytes := m\<rparr>" by (rule g)
  show "plug_holes b (h\<lparr>bytes := m\<rparr>) = (plug_holes b h)\<lparr>bytes := m\<rparr>" by (simp add: plug_holes_def f g)
qed

lemma free_bytes: "rt_free q (h\<lparr>bytes := m\<rparr>) = (rt_free q h)\<lparr>bytes := m\<rparr>"
  by (cases q) (simp_all add: rt_free_def upd_hdr_def Let_def bytes_first flip: plug_bytes(3))

lemma blocks_bytes: "blocks (h\<lparr>bytes := m\<rparr>) = blocks h"
  by (simp add: blocks_def)

lemma align32_power:
  assumes "2 \<le> j" "2 ^ j \<le> 2 ^ 32 - (4 :: nat)"
  shows "align32 (2 ^ j) = 2 ^ j"
proof -
  have "4 dvd (2 :: nat) ^ j" using assms(1) le_imp_power_dvd [of 2 j "2 :: nat"] by simp
  moreover from this have "RT_ALIGN (2 ^ j) 4 = 2 ^ j" by (auto simp: RT_ALIGN_def elim!: dvdE)
  ultimately show ?thesis using assms(2) by (simp add: align32_def)
qed

lemma live_bounds:
  assumes "heap_ok h" "(q, k) \<in> live h"
  shows "4 dvd q \<and> q + k < 2 ^ 32"
proof -
  have s: "shape (blocks h) h" using assms(1) by (simp add: heap_ok_def heap_inv_def)
  obtain b where b: "b \<in> blocks h" "q = heap_ptr h + b + 12" "k = nx h b - (b + 12)"
    using assms(2) by (auto simp: live_def used_blocks_def region_of_def)
  have "4 dvd heap_ptr h" "4 dvd b" "heap_ptr h + heap_end h + 12 \<le> 2 ^ 32" using s b(1) by (simp_all add: shape_def)
  then show ?thesis using b shape_nx [OF s b(1)] by (simp add: dvd_add_right_iff)
qed

text \<open>An aligned block lies inside the block it was cut from, behind the word that names it.\<close>

lemma malloc_align_cut:
  assumes heap: "heap_inv B h" and j: "2 \<le> j" "align32 n + 2 ^ j \<le> 2 ^ 32 - 4" "n \<le> align32 n"
    and d: "rt_malloc_align n (2 ^ j) h = Some (Some p, h1)"
  shows "\<exists>q k h0. rt_malloc (align32 n + 2 ^ j) h = Some (Some q, h0) \<and> 2 ^ j dvd p \<and> q + 4 \<le> p \<and> q < 2 ^ 32 \<and>
    p + n \<le> q + k \<and> q \<notin> fst ` live h \<and> live h1 = insert (q, k) (live h) \<and>
    h1 = h0\<lparr>bytes := store_word32 (p - 4) (of_nat q) (bytes h)\<rparr>"
proof -
  let ?n = "align32 n + 2 ^ j"
  have a: "align32 (2 ^ j) = 2 ^ j" by (rule align32_power [OF j(1)]) (use j(2) in linarith)
  obtain q h0 where q: "rt_malloc ?n h = Some (Some q, h0)"
    using d a j by (auto simp: rt_malloc_align_def Let_def split: option.splits)
  obtain k where k: "heap_ok h0" "bytes h0 = bytes h" "q \<notin> fst ` live h" "?n \<le> k" "live h0 = insert (q, k) (live h)"
     "heap_ptr h0 = heap_ptr h" "heap_end h0 = heap_end h"
    using malloc_live [OF heap j(2) q] by blast
  have r: "4 dvd q" "q + k < 2 ^ 32" using live_bounds [OF k(1), of q k] k(5) by simp_all
  then have "q + 2 ^ j < 2 ^ 32" using k(4) by simp
  note up = align_up [OF j(1) r(1) this]
  let ?al = "of_nat (2 ^ j) :: u32" and ?pw = "of_nat q :: u32"
  have "p = unat (if ?pw AND (?al - 1) = 0 then ?pw + ?al else (?pw + (?al - 1)) AND NOT (?al - 1))"
    "h1 = h0\<lparr>bytes := store_word32 (p - 4) ?pw (bytes h)\<rparr>"
    using d a j q k(2) by (auto simp: rt_malloc_align_def Let_def)
  with up k(3-5) q r j(3) show ?thesis by (auto simp: heap_ok_bytes intro!: exI [of _ q] exI [of _ k])
qed

text \<open>
  An aligned block starts at a multiple of its alignment, lies inside a block of the heap that was free
  before, and leaves a word below it for the address of that block. Whatever the client writes into its
  block, \<^verbatim>\<open>rt_free_align\<close> finds that address and gives the whole block back.
\<close>

theorem malloc_align_roundtrip:
  assumes heap: "heap_ok h" and j: "2 \<le> j" "align32 n + 2 ^ j \<le> 2 ^ 32 - 4" "n \<le> align32 n"
    and d: "rt_malloc_align n (2 ^ j) h = Some (Some p, h1)"
    and client: "\<forall>a. a < p \<or> p + n \<le> a \<longrightarrow> m a = bytes h1 a"
  defines "h2 \<equiv> rt_free_align p (h1\<lparr>bytes := m\<rparr>)"
  shows "2 ^ j dvd p \<and> (\<exists>q k. live h1 = insert (q, k) (live h) \<and> q \<notin> fst ` live h \<and> q + 4 \<le> p \<and> p + n \<le> q + k) \<and>
    blocks h2 = blocks h \<and> live h2 = live h \<and> used_mem h2 = used_mem h"
proof -
  have inv: "heap_inv (blocks h) h" using heap by (simp add: heap_ok_def)
  obtain q k h0 where q: "rt_malloc (align32 n + 2 ^ j) h = Some (Some q, h0)" "2 ^ j dvd p" "q + 4 \<le> p" "q < 2 ^ 32"
    "p + n \<le> q + k" "q \<notin> fst ` live h" "live h1 = insert (q, k) (live h)"
    "h1 = h0\<lparr>bytes := store_word32 (p - 4) (of_nat q) (bytes h)\<rparr>"
    using malloc_align_cut [OF inv j d] by blast
  have "m (p - 4 + i) = store_word32 (p - 4) (of_nat q) (bytes h) (p - 4 + i)" if "i < 4" for i
    using client q(3,8) that by simp
  from this [of 0] this [of 1] this [of 2] this [of 3]
  have "load_word32 (p - 4) m = load_word32 (p - 4) (store_word32 (p - 4) (of_nat q) (bytes h))"
    by (simp add: load_word32_def)
  then have "unat (load_word32 (p - 4) m) = q" using q(4) by (simp add: load_store unat_of_addr)
  then have "h2 = (rt_free (Some q) h0)\<lparr>bytes := m\<rparr>"
    by (simp add: h2_def rt_free_align_def q(8) flip: free_bytes)
  then show ?thesis
    using malloc_free_restores [OF inv j(2) q(1)] q(2,3,5-7) by (auto simp: blocks_bytes heap_ok_bytes)
qed

theorem malloc_align_roundtrip_witness:
  "\<exists>p h1. rt_malloc_align 30 16 demo_heap = Some (Some p, h1) \<and> 2 ^ 4 dvd p \<and>
     live (rt_free_align p (h1\<lparr>bytes := (bytes h1)(p := 7)\<rparr>)) = live demo_heap"
proof -
  obtain p h1 where r: "rt_malloc_align 30 (2 ^ 4) demo_heap = Some (Some p, h1)"
    by (simp add: rt_malloc_align_def demo_heap_eq heap_run)
  have "align32 30 = 32" by (simp add: align32_def RT_ALIGN_def)
  then have "2 ^ 4 dvd p \<and> live (rt_free_align p (h1\<lparr>bytes := (bytes h1)(p := 7)\<rparr>)) = live demo_heap"
    using malloc_align_roundtrip [OF heap_okI [OF demo_heap_inv, THEN conjunct1] _ _ _ r, of "(bytes h1)(p := 7)"] by auto
  then show ?thesis using r by auto
qed

text \<open>
  The sum of the size and the alignment wraps around: a huge request is served, by a block that ends before
  the aligned address.
\<close>

lemma malloc_align_wraps:
  "map_option fst (rt_malloc_align (2 ^ 32 - 12) 16 demo_heap) = Some (Some 1024)" "heap_end demo_heap < 400"
  by (simp_all add: rt_malloc_align_def demo_heap_eq heap_run)

end
