(* ===== verification/Device.thy ===== *)
theory Device
  imports KMemory Mailbox
begin

unbundle bit_operations_syntax

text \<open>
  The device framework, \<^verbatim>\<open>src/device.c\<close>, with the error number of
  \<^verbatim>\<open>src/kservice.c\<close> it reports through. A driver is a record of the six function pointers
  of a device, null ones \<open>None\<close>; they act on the device, whose \<open>sub\<close> is the structure of the driver
  around it, and on the world: kernel, global error number, heap and the hardware \<open>hw\<close>. Opening
  may take memory, so it has no result where the search of the heap does not return. A callback
  is the address of the function. What \<^verbatim>\<open>rt_kprintf\<close> prints is left out.
\<close>

section \<open>The code\<close>

abbreviation (input) RT_ENOSYS :: int where "RT_ENOSYS \<equiv> 6"
abbreviation (input) RT_EBUSY :: int where "RT_EBUSY \<equiv> 7"
abbreviation (input) RT_EIO :: int where "RT_EIO \<equiv> 8"

abbreviation (input) RT_DEVICE_FLAG_STANDALONE :: u16 where "RT_DEVICE_FLAG_STANDALONE \<equiv> 0x008"
abbreviation (input) RT_DEVICE_FLAG_ACTIVATED :: u16 where "RT_DEVICE_FLAG_ACTIVATED \<equiv> 0x010"
abbreviation (input) RT_DEVICE_OFLAG_CLOSE :: u16 where "RT_DEVICE_OFLAG_CLOSE \<equiv> 0x000"
abbreviation (input) RT_DEVICE_OFLAG_OPEN :: u16 where "RT_DEVICE_OFLAG_OPEN \<equiv> 0x008"
abbreviation (input) RT_DEVICE_OFLAG_MASK :: u16 where "RT_DEVICE_OFLAG_MASK \<equiv> 0xf0f"

record 'h world =
  kern :: kernel
  errno :: int
  mem :: heap
  hw :: 'h

text \<open>The error number belongs to the running thread; interrupts and start-up share the global one.\<close>

definition rt_set_errno :: "int \<Rightarrow> 'h world \<Rightarrow> 'h world" where
  "rt_set_errno e w =
    (if rt_interrupt_nest (kern w) \<noteq> 0 then w\<lparr>errno := e\<rparr>
     else case rt_thread_self (kern w) of
       None \<Rightarrow> w\<lparr>errno := e\<rparr>
     | Some tid \<Rightarrow> w\<lparr>kern := set_error tid e (kern w)\<rparr>)"

definition rt_get_errno :: "'h world \<Rightarrow> int" where
  "rt_get_errno w =
    (if rt_interrupt_nest (kern w) \<noteq> 0 then errno w
     else case rt_thread_self (kern w) of None \<Rightarrow> errno w | Some tid \<Rightarrow> t_error (threads (kern w) tid))"

record 's rt_device =
  d_flag :: u16
  d_open_flag :: u16
  d_ref_count :: u8
  rx_indicate :: "nat option"
  tx_complete :: "nat option"
  sub :: 's

type_synonym ('s, 'h) on_device = "'s rt_device \<times> 'h world"

text \<open>
  Reading yields the number of bytes and those stored in the buffer; reading and writing get the address of the
  buffer, too, since a driver may hand it to the hardware. A write may park the thread, with locals \<open>'c\<close>.
\<close>

record ('s, 'h, 'a, 'c) device_ops =
  device_init :: "(('s, 'h) on_device \<Rightarrow> int \<times> ('s, 'h) on_device) option"
  device_open :: "(u16 \<Rightarrow> ('s, 'h) on_device \<Rightarrow> (int \<times> ('s, 'h) on_device) option) option"
  device_close :: "(('s, 'h) on_device \<Rightarrow> int \<times> ('s, 'h) on_device) option"
  device_read :: "(nat \<Rightarrow> nat \<Rightarrow> nat \<Rightarrow> ('s, 'h) on_device \<Rightarrow> (nat \<times> u8 list) \<times> ('s, 'h) on_device) option"
  device_write :: "(nat \<Rightarrow> nat \<Rightarrow> u8 list \<Rightarrow> ('s, 'h) on_device \<Rightarrow> (nat, 'c) outcome \<times> ('s, 'h) on_device) option"
  device_control :: "(int \<Rightarrow> 'a \<Rightarrow> ('s, 'h) on_device \<Rightarrow> int \<times> ('s, 'h) on_device) option"

definition upd_dev :: "('s rt_device \<Rightarrow> 's rt_device) \<Rightarrow> ('s, 'h) on_device \<Rightarrow> ('s, 'h) on_device" where
  "upd_dev f x = (f (fst x), snd x)"

definition has_flag :: "u16 \<Rightarrow> u16 \<Rightarrow> bool" where
  "has_flag x b \<longleftrightarrow> x AND b \<noteq> 0"

definition activate :: "'s rt_device \<Rightarrow> 's rt_device" where
  "activate d = d\<lparr>d_flag := d_flag d OR RT_DEVICE_FLAG_ACTIVATED\<rparr>"

lemma has_flag_set: "has_flag (x OR 16) 16"
proof -
  have "bit ((x OR 16) AND (16 :: u16)) 4" by (simp add: bit_simps bit_numeral_rec)
  then show ?thesis unfolding has_flag_def by (metis bit_0_eq bot_apply bot_bool_def)
qed

text \<open>The calls through the function pointers, and what is done where a pointer is null.\<close>

definition call_init :: "('s, 'h, 'a, 'c) device_ops \<Rightarrow> ('s, 'h) on_device \<Rightarrow> int \<times> ('s, 'h) on_device" where
  "call_init ops x = (case device_init ops of None \<Rightarrow> (RT_EOK, x) | Some init \<Rightarrow> init x)"

definition call_open ::
  "('s, 'h, 'a, 'c) device_ops \<Rightarrow> u16 \<Rightarrow> ('s, 'h) on_device \<Rightarrow> (int \<times> ('s, 'h) on_device) option" where
  "call_open ops oflag x =
    (case device_open ops of
       Some open \<Rightarrow> open oflag x
     | None \<Rightarrow> Some (RT_EOK, upd_dev (\<lambda>d. d\<lparr>d_open_flag := oflag AND RT_DEVICE_OFLAG_MASK\<rparr>) x))"

definition call_close :: "('s, 'h, 'a, 'c) device_ops \<Rightarrow> ('s, 'h) on_device \<Rightarrow> int \<times> ('s, 'h) on_device" where
  "call_close ops x = (case device_close ops of None \<Rightarrow> (RT_EOK, x) | Some close \<Rightarrow> close x)"

definition succeeded :: "int \<Rightarrow> bool" where
  "succeeded result \<longleftrightarrow> result = RT_EOK \<or> result = - RT_ENOSYS"

definition rt_device_init :: "('s, 'h, 'a, 'c) device_ops \<Rightarrow> ('s, 'h) on_device \<Rightarrow> int \<times> ('s, 'h) on_device" where
  "rt_device_init ops x =
    (case device_init ops of
       None \<Rightarrow> (RT_EOK, x)
     | Some init \<Rightarrow>
         if \<not> has_flag (d_flag (fst x)) RT_DEVICE_FLAG_ACTIVATED
         then let (result, y) = init x in (result, if result \<noteq> RT_EOK then y else upd_dev activate y)
         else (RT_EOK, x))"

text \<open>The tail of \<^verbatim>\<open>rt_device_open\<close>, from the check of a stand-alone device on.\<close>

definition open_activated ::
  "('s, 'h, 'a, 'c) device_ops \<Rightarrow> u16 \<Rightarrow> ('s, 'h) on_device \<Rightarrow> (int \<times> ('s, 'h) on_device) option" where
  "open_activated ops oflag x =
    (if has_flag (d_flag (fst x)) RT_DEVICE_FLAG_STANDALONE \<and> has_flag (d_open_flag (fst x)) RT_DEVICE_OFLAG_OPEN
     then Some (- RT_EBUSY, x)
     else map_option
       (\<lambda>(result, y). (result,
          if succeeded result
          then upd_dev (\<lambda>d. d\<lparr>d_open_flag := d_open_flag d OR RT_DEVICE_OFLAG_OPEN, d_ref_count := d_ref_count d + 1\<rparr>) y
          else y))
       (call_open ops oflag x))"

definition rt_device_open ::
  "('s, 'h, 'a, 'c) device_ops \<Rightarrow> u16 \<Rightarrow> ('s, 'h) on_device \<Rightarrow> (int \<times> ('s, 'h) on_device) option" where
  "rt_device_open ops oflag x =
    (if \<not> has_flag (d_flag (fst x)) RT_DEVICE_FLAG_ACTIVATED
     then let (result, y) = call_init ops x
          in if result \<noteq> RT_EOK then Some (result, y) else open_activated ops oflag (upd_dev activate y)
     else open_activated ops oflag x)"

definition rt_device_close :: "('s, 'h, 'a, 'c) device_ops \<Rightarrow> ('s, 'h) on_device \<Rightarrow> int \<times> ('s, 'h) on_device" where
  "rt_device_close ops x =
    (if d_ref_count (fst x) = 0 then (- RT_ERROR, x)
     else let x1 = upd_dev (\<lambda>d. d\<lparr>d_ref_count := d_ref_count d - 1\<rparr>) x in
       if d_ref_count (fst x1) \<noteq> 0 then (RT_EOK, x1)
       else let (result, y) = call_close ops x1
            in (result,
                if succeeded result then upd_dev (\<lambda>d. d\<lparr>d_open_flag := RT_DEVICE_OFLAG_CLOSE\<rparr>) y else y))"

definition rt_device_read ::
  "('s, 'h, 'a, 'c) device_ops \<Rightarrow> nat \<Rightarrow> nat \<Rightarrow> nat \<Rightarrow> ('s, 'h) on_device \<Rightarrow>
   (nat \<times> u8 list) \<times> ('s, 'h) on_device" where
  "rt_device_read ops pos buffer n x =
    (if d_ref_count (fst x) = 0 then ((0, []), (fst x, rt_set_errno (- RT_ERROR) (snd x)))
     else case device_read ops of
       Some read \<Rightarrow> read pos buffer n x
     | None \<Rightarrow> ((0, []), (fst x, rt_set_errno (- RT_ENOSYS) (snd x))))"

definition rt_device_write ::
  "('s, 'h, 'a, 'c) device_ops \<Rightarrow> nat \<Rightarrow> nat \<Rightarrow> u8 list \<Rightarrow> ('s, 'h) on_device \<Rightarrow> (nat, 'c) outcome \<times> ('s, 'h) on_device" where
  "rt_device_write ops pos buffer data x =
    (if d_ref_count (fst x) = 0 then (Return 0, (fst x, rt_set_errno (- RT_ERROR) (snd x)))
     else case device_write ops of
       Some wr \<Rightarrow> wr pos buffer data x
     | None \<Rightarrow> (Return 0, (fst x, rt_set_errno (- RT_ENOSYS) (snd x))))"

definition rt_device_control ::
  "('s, 'h, 'a, 'c) device_ops \<Rightarrow> int \<Rightarrow> 'a \<Rightarrow> ('s, 'h) on_device \<Rightarrow> int \<times> ('s, 'h) on_device" where
  "rt_device_control ops cmd arg x =
    (case device_control ops of Some control \<Rightarrow> control cmd arg x | None \<Rightarrow> (- RT_ENOSYS, x))"

definition rt_device_set_rx_indicate :: "nat option \<Rightarrow> ('s, 'h) on_device \<Rightarrow> int \<times> ('s, 'h) on_device" where
  "rt_device_set_rx_indicate f x = (RT_EOK, upd_dev (\<lambda>d. d\<lparr>rx_indicate := f\<rparr>) x)"

definition rt_device_set_tx_complete :: "nat option \<Rightarrow> ('s, 'h) on_device \<Rightarrow> int \<times> ('s, 'h) on_device" where
  "rt_device_set_tx_complete f x = (RT_EOK, upd_dev (\<lambda>d. d\<lparr>tx_complete := f\<rparr>) x)"

section \<open>The registry\<close>

text \<open>Devices by address, each with its object; the search locks the scheduler once a thread runs.\<close>

definition device_find_in :: "string \<Rightarrow> nat object_store \<Rightarrow> nat option" where
  "device_find_in name st =
    List.find (\<lambda>ob. rt_strncmp (ob_name (obj st ob)) name RT_NAME_MAX = 0)
      (container st (class_code RT_Object_Class_Device))"

definition rt_device_find :: "string \<Rightarrow> nat object_store \<times> kernel \<Rightarrow> nat option \<times> kernel" where
  "rt_device_find name x = (case x of (st, k) \<Rightarrow>
    let k1 = (if rt_thread_self k \<noteq> None then rt_enter_critical k else k)
    in (device_find_in name st, if rt_thread_self k1 \<noteq> None then rt_exit_critical k1 else k1))"

definition rt_device_register ::
  "nat \<Rightarrow> string \<Rightarrow> u16 \<Rightarrow> (nat \<Rightarrow> 's rt_device) \<Rightarrow> nat object_store \<times> kernel \<Rightarrow>
   int \<times> (nat \<Rightarrow> 's rt_device) \<times> nat object_store \<times> kernel" where
  "rt_device_register dev name flags devs x =
    (if dev = 0 then (- RT_ERROR, devs, x)
     else let (found, k) = rt_device_find name x in
       if found \<noteq> None then (- RT_ERROR, devs, fst x, k)
       else (RT_EOK, devs(dev := (devs dev)\<lparr>d_flag := flags, d_ref_count := 0, d_open_flag := 0\<rparr>),
             rt_object_init dev RT_Object_Class_Device name (fst x), k))"

definition rt_device_unregister :: "nat \<Rightarrow> nat object_store \<Rightarrow> int \<times> nat object_store" where
  "rt_device_unregister dev st = (RT_EOK, rt_object_detach dev st)"

text \<open>Taking a device from the heap: the structure has 68 bytes here; it is set to zeros.\<close>

abbreviation (input) SIZEOF_DEVICE :: nat where "SIZEOF_DEVICE \<equiv> 68"

definition rt_device_create :: "nat \<Rightarrow> heap \<Rightarrow> (nat option \<times> heap) option" where
  "rt_device_create attach_size h =
    map_option
      (\<lambda>(device, h1). case device of
         None \<Rightarrow> (None, h1)
       | Some d \<Rightarrow> (Some d, h1\<lparr>bytes := rt_memset d 0 SIZEOF_DEVICE (bytes h1)\<rparr>))
      (rt_malloc ((RT_ALIGN SIZEOF_DEVICE 4 + RT_ALIGN attach_size 4) mod 2 ^ 32) h)"

definition rt_device_destroy :: "nat \<Rightarrow> nat object_store \<times> heap \<Rightarrow> nat object_store \<times> heap" where
  "rt_device_destroy dev x = (case x of (st, h) \<Rightarrow> (rt_object_detach dev st, rt_free (Some dev) h))"

section \<open>The error number\<close>

lemma errno_set_get: "rt_get_errno (rt_set_errno e w) = e"
  by (auto simp: rt_get_errno_def rt_set_errno_def rt_thread_self_def set_error_def upd_thread_def split: option.splits)

text \<open>
  A device that nobody has opened gives no byte and takes none, changes nothing and leaves the error number
  of the caller set; an interrupt does not disturb the error number of the thread it interrupts.
\<close>

theorem closed_device_errno:
  assumes "d_ref_count d = 0"
  shows "rt_device_read ops pos a n (d, w) = ((0, []), (d, rt_set_errno (- RT_ERROR) w)) \<and>
    rt_device_write ops pos a data (d, w) = (Return 0, (d, rt_set_errno (- RT_ERROR) w)) \<and>
    rt_get_errno (rt_set_errno (- RT_ERROR) w) = - RT_ERROR \<and>
    (rt_interrupt_nest (kern w) \<noteq> 0 \<longrightarrow> kern (rt_set_errno (- RT_ERROR) w) = kern w)"
  using assms errno_set_get [of "- 1" w] by (simp add: rt_device_read_def rt_device_write_def rt_set_errno_def)

section \<open>What a driver promises\<close>

text \<open>
  The contract between the framework and a driver for opening with the flags of \<open>mode\<close>: \<open>shut\<close> and \<open>opened\<close>
  say what the driver holds; the fields the framework keeps do not matter to them.
\<close>

datatype dev_call = Open u16 | Close

fun dev_run :: "('s, 'h, 'a, 'c) device_ops \<Rightarrow> dev_call list \<Rightarrow> ('s, 'h) on_device \<Rightarrow> (int list \<times> ('s, 'h) on_device) option" where
  "dev_run ops [] x = Some ([], x)"
| "dev_run ops (Open oflag # cs) x =
    Option.bind (rt_device_open ops oflag x) (\<lambda>(r, y). map_option (\<lambda>(rs, z). (r # rs, z)) (dev_run ops cs y))"
| "dev_run ops (Close # cs) x =
    (let (r, y) = rt_device_close ops x in map_option (\<lambda>(rs, z). (r # rs, z)) (dev_run ops cs y))"

text \<open>The users after a history, from the calls and their results.\<close>

fun users :: "dev_call list \<Rightarrow> int list \<Rightarrow> nat \<Rightarrow> nat" where
  "users (Open oflag # cs) (r # rs) n = users cs rs (if succeeded r then n + 1 else n)"
| "users (Close # cs) (r # rs) n = users cs rs (n - 1)"
| "users _ _ n = n"

text \<open>The greatest number of users on the way.\<close>

fun peak :: "dev_call list \<Rightarrow> int list \<Rightarrow> nat \<Rightarrow> nat" where
  "peak (Open oflag # cs) (r # rs) n = max n (peak cs rs (if succeeded r then n + 1 else n))"
| "peak (Close # cs) (r # rs) n = max n (peak cs rs (n - 1))"
| "peak _ _ n = n"

lemma peak_start: "n \<le> peak cs rs n"
  by (induction cs rs n rule: peak.induct) auto

locale driver =
  fixes ops :: "('s, 'h, 'a, 'c) device_ops"
    and mode :: "u16 \<Rightarrow> bool"
    and shut opened :: "('s, 'h) on_device \<Rightarrow> bool"
  assumes init_ok: "shut x \<Longrightarrow> call_init ops x = (r, y) \<Longrightarrow>
      shut y \<and> d_ref_count (fst y) = d_ref_count (fst x) \<and> d_flag (fst y) = d_flag (fst x) \<and> r \<noteq> - RT_ENOSYS"
    and open_ok: "shut x \<or> opened x \<Longrightarrow> mode oflag \<Longrightarrow>
      \<exists>r y. call_open ops oflag x = Some (r, y) \<and> d_ref_count (fst y) = d_ref_count (fst x) \<and> d_flag (fst y) = d_flag (fst x) \<and>
        (if succeeded r then opened y else (shut x \<longrightarrow> shut y) \<and> (opened x \<longrightarrow> opened y))"
    and close_ok: "opened x \<Longrightarrow> d_ref_count (fst x) = 0 \<Longrightarrow> call_close ops x = (r, y) \<Longrightarrow>
      shut y \<and> d_ref_count (fst y) = d_ref_count (fst x)"
    and shut_frame: "shut (d, w) \<Longrightarrow> shut (d\<lparr>d_flag := f\<rparr>, w) \<and> shut (d\<lparr>d_open_flag := g\<rparr>, w)"
    and opened_frame: "opened (d, w) \<Longrightarrow>
      opened (d\<lparr>d_open_flag := d_open_flag d OR RT_DEVICE_OFLAG_OPEN\<rparr>, w) \<and> opened (d\<lparr>d_ref_count := n\<rparr>, w)"
begin

definition held :: "nat \<Rightarrow> ('s, 'h) on_device \<Rightarrow> bool" where
  "held n x \<longleftrightarrow> n < 256 \<and> d_ref_count (fst x) = of_nat n \<and>
     (if n = 0 then shut x else opened x \<and> has_flag (d_flag (fst x)) RT_DEVICE_FLAG_ACTIVATED)"

text \<open>What holds even where the count has wrapped around.\<close>

definition alive :: "('s, 'h) on_device \<Rightarrow> bool" where
  "alive x \<longleftrightarrow> shut x \<and> d_ref_count (fst x) = 0 \<or> opened x \<and> has_flag (d_flag (fst x)) RT_DEVICE_FLAG_ACTIVATED"

lemma held_alive: "held n x \<Longrightarrow> alive x"
  by (auto simp: held_def alive_def split: if_splits)

lemma open_activated_held:
  assumes x: "alive x" and act: "has_flag (d_flag (fst x)) RT_DEVICE_FLAG_ACTIVATED" and mode: "mode oflag"
  shows "\<exists>r y. open_activated ops oflag x = Some (r, y) \<and> alive y \<and>
    (\<forall>n. held n x \<and> (succeeded r \<longrightarrow> n < 255) \<longrightarrow> held (if succeeded r then n + 1 else n) y)"
proof (cases "has_flag (d_flag (fst x)) RT_DEVICE_FLAG_STANDALONE \<and> has_flag (d_open_flag (fst x)) RT_DEVICE_OFLAG_OPEN")
  case True
  then show ?thesis using x by (auto simp: open_activated_def succeeded_def)
next
  case False
  have so: "shut x \<or> opened x" using x by (auto simp: alive_def)
  obtain r y where o: "call_open ops oflag x = Some (r, y)" "d_ref_count (fst y) = d_ref_count (fst x)" "d_flag (fst y) = d_flag (fst x)"
    "if succeeded r then opened y else (shut x \<longrightarrow> shut y) \<and> (opened x \<longrightarrow> opened y)"
    using open_ok [OF so mode] by auto
  let ?f = "\<lambda>d. d\<lparr>d_open_flag := d_open_flag d OR RT_DEVICE_OFLAG_OPEN, d_ref_count := d_ref_count d + 1\<rparr>"
  have s: "open_activated ops oflag x = Some (r, if succeeded r then upd_dev ?f y else y)"
    unfolding open_activated_def if_not_P [OF False] o(1) by simp
  show ?thesis
  proof (cases "succeeded r")
    case True
    obtain d w where y: "y = (d, w)" by (cases y)
    have "opened (d\<lparr>d_open_flag := d_open_flag d OR RT_DEVICE_OFLAG_OPEN\<rparr>, w)"
      using o(4) True opened_frame [of d w] by (simp add: y)
    then have "opened (d\<lparr>d_open_flag := d_open_flag d OR RT_DEVICE_OFLAG_OPEN, d_ref_count := m\<rparr>, w)" for m
      using opened_frame by blast
    then show ?thesis using s True o act by (simp add: held_def alive_def upd_dev_def y)
  next
    case False
    then show ?thesis using s o act x by (auto simp: held_def alive_def)
  qed
qed

lemma open_held:
  assumes x: "alive x" and mode: "mode oflag"
  shows "\<exists>r y. rt_device_open ops oflag x = Some (r, y) \<and> alive y \<and>
    (\<forall>n. held n x \<and> (succeeded r \<longrightarrow> n < 255) \<longrightarrow> held (if succeeded r then n + 1 else n) y)"
proof (cases "has_flag (d_flag (fst x)) RT_DEVICE_FLAG_ACTIVATED")
  case True
  then show ?thesis using open_activated_held [OF x True mode] by (auto simp: rt_device_open_def)
next
  case False
  then have n: "shut x" "d_ref_count (fst x) = 0" using x by (auto simp: alive_def)
  have zero: "n = 0" if "held n x" for n using that False by (simp add: held_def split: if_splits)
  obtain r y where i: "call_init ops x = (r, y)" by (cases "call_init ops x")
  obtain d w where y: "y = (d, w)" by (cases y)
  have s: "shut y" "d_ref_count d = 0" "r \<noteq> - RT_ENOSYS" using init_ok [OF n(1) i] n(2) by (simp_all add: y)
  show ?thesis
  proof (cases "r = RT_EOK")
    case True
    have "shut (d\<lparr>d_flag := d_flag d OR RT_DEVICE_FLAG_ACTIVATED\<rparr>, w)" using s(1) shut_frame by (simp add: y)
    then have a: "alive (upd_dev activate y)" "held 0 (upd_dev activate y)"
      using s(2) by (simp_all add: alive_def held_def y upd_dev_def activate_def)
    have "has_flag (d_flag (fst (upd_dev activate y))) RT_DEVICE_FLAG_ACTIVATED"
      by (simp add: y upd_dev_def activate_def has_flag_set)
    from open_activated_held [OF a(1) this mode] obtain r1 z where
      z: "open_activated ops oflag (upd_dev activate y) = Some (r1, z)" "alive z"
        "held 0 (upd_dev activate y) \<and> (succeeded r1 \<longrightarrow> (0 :: nat) < 255) \<longrightarrow> held (if succeeded r1 then 0 + 1 else 0) z"
      by blast
    have "held (if succeeded r1 then n + 1 else n) z" if "held n x" for n
      using z(3) a(2) zero [OF that] by (auto split: if_splits)
    then show ?thesis using False i True z(1,2) by (simp add: rt_device_open_def)
  next
    case F: False
    then show ?thesis using False i s by (auto simp: rt_device_open_def held_def succeeded_def y alive_def dest!: zero)
  qed
qed

lemma close_alive:
  assumes x: "alive x" and c: "rt_device_close ops x = (r, y)"
  shows "alive y"
proof (cases "d_ref_count (fst x) = 0")
  case True
  then show ?thesis using x c by (simp add: rt_device_close_def)
next
  case False
  then have o: "opened x" "has_flag (d_flag (fst x)) RT_DEVICE_FLAG_ACTIVATED" using x by (auto simp: alive_def)
  obtain d w where dw: "x = (d, w)" by (cases x)
  let ?x = "upd_dev (\<lambda>d. d\<lparr>d_ref_count := d_ref_count d - 1\<rparr>) x"
  have o1: "opened ?x" using o(1) opened_frame by (simp add: dw upd_dev_def)
  show ?thesis
  proof (cases "d_ref_count (fst ?x) = 0")
    case True
    obtain r1 e v where k: "call_close ops ?x = (r1, (e, v))" by (cases "call_close ops ?x") auto
    have "shut (e, v)" "d_ref_count e = 0" using close_ok [OF o1 True k] True by simp_all
    then have "alive (e, v)" "alive (e\<lparr>d_open_flag := RT_DEVICE_OFLAG_CLOSE\<rparr>, v)" using shut_frame by (auto simp: alive_def)
    then show ?thesis using c False True k by (auto simp: rt_device_close_def Let_def upd_dev_def split: if_splits)
  next
    case F: False
    then show ?thesis using c False o1 o(2) by (auto simp: rt_device_close_def Let_def alive_def upd_dev_def split: if_splits)
  qed
qed

lemma close_held:
  assumes h: "held n x"
  shows "\<exists>r y. rt_device_close ops x = (r, y) \<and> held (n - 1) y"
proof -
  obtain d w where x: "x = (d, w)" by (cases x)
  consider "n = 0" | "n = 1" | "2 \<le> n" by linarith
  then show ?thesis
  proof cases
    case 1
    then show ?thesis using h by (simp add: rt_device_close_def held_def)
  next
    case 2
    let ?x = "upd_dev (\<lambda>d. d\<lparr>d_ref_count := d_ref_count d - 1\<rparr>) x"
    have "opened (d\<lparr>d_ref_count := 0\<rparr>, w)" using h 2 opened_frame by (simp add: held_def x)
    moreover have d: "d_ref_count d = 1" using h 2 by (simp add: held_def x)
    ultimately have o: "opened ?x" "d_ref_count (fst ?x) = 0" by (simp_all add: x upd_dev_def)
    obtain r e v where c: "call_close ops ?x = (r, (e, v))" by (cases "call_close ops ?x") auto
    have s: "shut (e, v)" "d_ref_count e = 0" using close_ok [OF o c] o(2) by simp_all
    have "shut (e\<lparr>d_open_flag := RT_DEVICE_OFLAG_CLOSE\<rparr>, v)" using s(1) shut_frame by blast
    then show ?thesis using c o(2) s d 2 by (simp add: rt_device_close_def x held_def upd_dev_def)
  next
    case 3
    have u: "(of_nat m :: u8) \<noteq> 0" if "0 < m" "m < 256" for m
      using that by (simp add: word_of_nat_eq_0_iff nat_dvd_not_less)
    have e: "(of_nat n :: u8) - 1 = of_nat (n - 1)" using 3 by (simp add: of_nat_diff)
    moreover have "(of_nat n :: u8) \<noteq> 0" "(of_nat n :: u8) - 1 \<noteq> 0"
    proof -
      have "n < 256" using h by (simp add: held_def)
      then show "(of_nat n :: u8) \<noteq> 0" "(of_nat n :: u8) - 1 \<noteq> 0" unfolding e using 3 by (simp_all only: u not_False_eq_True)
    qed
    moreover have "opened (d\<lparr>d_ref_count := of_nat (n - 1)\<rparr>, w)" using h 3 opened_frame by (simp add: held_def x)
    ultimately show ?thesis using h 3 by (auto simp: rt_device_close_def held_def x upd_dev_def)
  qed
qed

lemma run_held:
  "alive x \<Longrightarrow> (\<forall>oflag. Open oflag \<in> set cs \<longrightarrow> mode oflag) \<Longrightarrow>
   \<exists>rs y. dev_run ops cs x = Some (rs, y) \<and> length rs = length cs \<and>
     (\<forall>n. held n x \<and> peak cs rs n < 256 \<longrightarrow> held (users cs rs n) y)"
proof (induction cs arbitrary: x)
  case Nil
  then show ?case by simp
next
  case (Cons c cs)
  show ?case
  proof (cases c)
    case (Open oflag)
    obtain r y where o: "rt_device_open ops oflag x = Some (r, y)" "alive y"
      "\<forall>n. held n x \<and> (succeeded r \<longrightarrow> n < 255) \<longrightarrow> held (if succeeded r then n + 1 else n) y"
      using open_held [OF Cons.prems(1), of oflag] Cons.prems(2) Open by auto
    obtain rs z where r: "dev_run ops cs y = Some (rs, z)" "length rs = length cs"
      "\<forall>n. held n y \<and> peak cs rs n < 256 \<longrightarrow> held (users cs rs n) z"
      using Cons.IH [OF o(2)] Cons.prems(2) by auto
    have "held (users (c # cs) (r # rs) n) z" if "held n x" "peak (c # cs) (r # rs) n < 256" for n
    proof -
      have "n + 1 < 256" if "succeeded r"
        using that \<open>peak (c # cs) (r # rs) n < 256\<close> peak_start [of "n + 1" cs rs] Open by simp
      then have "held (if succeeded r then n + 1 else n) y" using o(3) \<open>held n x\<close> by simp
      then show ?thesis using r(3) that(2) Open by (auto split: if_splits)
    qed
    then show ?thesis using Open o(1) r(1,2) by (intro exI [of _ "r # rs"] exI [of _ z]) simp
  next
    case Close
    obtain r y where o: "rt_device_close ops x = (r, y)" by (cases "rt_device_close ops x")
    have h: "held n x \<Longrightarrow> held (n - 1) y" for n using close_held [of n x] o by auto
    obtain rs z where r: "dev_run ops cs y = Some (rs, z)" "length rs = length cs"
      "\<forall>n. held n y \<and> peak cs rs n < 256 \<longrightarrow> held (users cs rs n) z"
      using Cons.IH [OF close_alive [OF Cons.prems(1) o]] Cons.prems(2) by auto
    then show ?thesis using Close o h by (intro exI [of _ "r # rs"] exI [of _ z]) simp
  qed
qed

end

text \<open>
  The count of users of a device has eight bits. With 255 users a further successful open makes it zero: the
  device then counts as closed, reading it gives nothing, and closing it fails.
\<close>

theorem device_count_wraps:
  assumes "d_ref_count d = 255" "has_flag (d_flag d) RT_DEVICE_FLAG_ACTIVATED" "\<not> has_flag (d_flag d) RT_DEVICE_FLAG_STANDALONE"
    and "call_open ops oflag (d, w) = Some (RT_EOK, (d, w))"
  shows "\<exists>d'. rt_device_open ops oflag (d, w) = Some (RT_EOK, (d', w)) \<and> d_ref_count d' = 0 \<and>
    fst (rt_device_read ops pos a n (d', w)) = (0, []) \<and> rt_device_close ops (d', w) = (- RT_ERROR, (d', w))"
  using assms
  by (simp add: rt_device_open_def open_activated_def succeeded_def upd_dev_def rt_device_read_def rt_device_close_def)

text \<open>
  A stand-alone device that is open answers a second open with busy and is left as it is.
\<close>

theorem standalone_exclusive:
  assumes "has_flag (d_flag d) RT_DEVICE_FLAG_ACTIVATED" "has_flag (d_flag d) RT_DEVICE_FLAG_STANDALONE"
    "has_flag (d_open_flag d) RT_DEVICE_OFLAG_OPEN"
  shows "rt_device_open ops oflag (d, w) = Some (- RT_EBUSY, (d, w))"
  using assms by (simp add: rt_device_open_def open_activated_def)

text \<open>A registered device is found by its name, and its name is refused to others.\<close>

lemma find_device_registered:
  assumes "c_string name" "c_string key"
  shows "device_find_in key (rt_object_init dev RT_Object_Class_Device name st) =
    (if take RT_NAME_MAX name = take RT_NAME_MAX key then Some dev
     else List.find (\<lambda>x. x \<noteq> dev \<and> rt_strncmp (ob_name (obj st x)) key RT_NAME_MAX = 0)
            (container st (class_code RT_Object_Class_Device)))"
proof -
  have "device_find_in key s = rt_object_find key (class_code RT_Object_Class_Device) s" for s :: "nat object_store"
    by (simp add: device_find_in_def rt_object_find_def rt_object_get_information_def)
  then show ?thesis using find_after_init [OF assms, of RT_Object_Class_Device dev st] by simp
qed

end
