(* ===== verification/Overrun.thy ===== *)
theory Overrun
  imports Prelude "HOL-Library.Sublist"
begin

text \<open>
  The contract of a receive buffer that overwrites: a queue of limited room that takes whatever
  arrives and gives up its oldest items for it. Both receive modes of a serial line promise it.
  What a reader may conclude is proved here once, over any run of arrivals and reads.
\<close>

definition newest :: "nat \<Rightarrow> 'a list \<Rightarrow> 'a list" where
  "newest c xs = drop (length xs - c) xs"

lemma length_newest [simp]: "length (newest c xs) = min c (length xs)"
  by (auto simp: newest_def)

lemma newest_all [simp]: "length xs \<le> c \<Longrightarrow> newest c xs = xs"
  by (simp add: newest_def)

lemma newest_again: "newest c (newest c xs @ ys) = newest c (xs @ ys)"
proof (cases "length xs \<le> c")
  case False
  then have "length xs + length ys - c = (length xs - c) + length ys" by simp
  with False show ?thesis by (cases "length ys \<le> c") (simp_all add: newest_def add.commute)
qed simp

lemma newest_subseq: "subseq (newest c xs) xs"
  by (metis append_take_drop_id newest_def subseq_append_iff subseq_order.dual_order.refl subseq_drop_many)

datatype 'a line_op = Arrive "'a list" | Fetch nat

fun line_run ::
  "('a list \<Rightarrow> 's \<Rightarrow> 's) \<Rightarrow> (nat \<Rightarrow> 's \<Rightarrow> 'a list \<times> 's) \<Rightarrow> 'a line_op list \<Rightarrow> 's \<Rightarrow> 'a list list \<times> 's"
where
  "line_run store fetch [] s = ([], s)"
| "line_run store fetch (Arrive cs # ops) s = line_run store fetch ops (store cs s)"
| "line_run store fetch (Fetch n # ops) s =
    (let (xs, t) = fetch n s; (rs, t') = line_run store fetch ops t in (xs # rs, t'))"

definition spec_store :: "nat \<Rightarrow> 'a list \<Rightarrow> 'a list \<Rightarrow> 'a list" where
  "spec_store c cs q = newest c (q @ cs)"

definition spec_fetch :: "nat \<Rightarrow> 'a list \<Rightarrow> 'a list \<times> 'a list" where
  "spec_fetch n q = (take n q, drop n q)"

fun arrived :: "'a line_op list \<Rightarrow> 'a list" where
  "arrived [] = []"
| "arrived (Arrive cs # ops) = cs @ arrived ops"
| "arrived (Fetch n # ops) = arrived ops"

lemma spec_fetch_run:
  assumes "line_run (spec_store c) spec_fetch (Fetch n # ops) q = (rs, q')"
  obtains rs' where "line_run (spec_store c) spec_fetch ops (drop n q) = (rs', q')" "rs = take n q # rs'"
proof (cases "line_run (spec_store c) spec_fetch ops (drop n q)")
  case (Pair rs' t)
  moreover have "spec_fetch n q = (take n q, drop n q)" by (rule spec_fetch_def)
  ultimately show thesis using assms that by simp
qed

text \<open>Nothing is made up or reordered; nothing is lost as long as everything has room.\<close>

lemma spec_line_subseq:
  "line_run (spec_store c) spec_fetch ops q = (rs, q') \<Longrightarrow> subseq (concat rs @ q') (q @ arrived ops)"
proof (induction ops arbitrary: q rs)
  case Nil
  then show ?case by simp
next
  case (Cons a ops)
  show ?case
  proof (cases a)
    case (Arrive cs)
    have "subseq (concat rs @ q') (newest c (q @ cs) @ arrived ops)"
      using Cons Arrive by (simp add: spec_store_def)
    moreover have "subseq (newest c (q @ cs) @ arrived ops) ((q @ cs) @ arrived ops)"
      by (intro list_emb_append_mono newest_subseq) simp
    ultimately show ?thesis using Arrive by (metis append.assoc arrived.simps(2) subseq_order.order_trans)
  next
    case (Fetch n)
    obtain rs' where r: "line_run (spec_store c) spec_fetch ops (drop n q) = (rs', q')" "rs = take n q # rs'"
      by (rule spec_fetch_run [OF Cons.prems(1) [unfolded Fetch]])
    have "subseq (take n q @ (concat rs' @ q')) (take n q @ (drop n q @ arrived ops))"
      by (rule list_emb_append_mono [OF _ Cons.IH [OF r(1)]]) simp
    moreover have "take n q @ (drop n q @ arrived ops) = q @ arrived ops"
      by (simp only: append.assoc [symmetric] append_take_drop_id)
    ultimately show ?thesis using Fetch r(2) by simp
  qed
qed

text \<open>The room needed: the most that is ever queued when nothing is given up.\<close>

fun backlog :: "'a line_op list \<Rightarrow> nat \<Rightarrow> nat" where
  "backlog [] n = n"
| "backlog (Arrive cs # ops) n = max n (backlog ops (n + length cs))"
| "backlog (Fetch k # ops) n = max n (backlog ops (n - k))"

lemma backlog_ge: "n \<le> backlog ops n"
  by (induction ops n rule: backlog.induct) auto

lemma spec_line_lossless:
  "line_run (spec_store c) spec_fetch ops q = (rs, q') \<Longrightarrow> backlog ops (length q) \<le> c \<Longrightarrow>
   concat rs @ q' = q @ arrived ops"
proof (induction ops arbitrary: q rs)
  case Nil
  then show ?case by simp
next
  case (Cons a ops)
  show ?case
  proof (cases a)
    case (Arrive cs)
    have "length q + length cs \<le> c"
      using Cons.prems(2) Arrive backlog_ge [of "length q + length cs" ops] by simp
    then show ?thesis using Cons Arrive by (simp add: spec_store_def)
  next
    case (Fetch n)
    obtain rs' where r: "line_run (spec_store c) spec_fetch ops (drop n q) = (rs', q')" "rs = take n q # rs'"
      by (rule spec_fetch_run [OF Cons.prems(1) [unfolded Fetch]])
    then show ?thesis using Cons.IH [OF r(1)] Cons.prems(2) Fetch by (simp add: append.assoc [symmetric])
  qed
qed

locale overrun_fifo =
  fixes inv :: "'s \<Rightarrow> bool"
    and items :: "'s \<Rightarrow> 'a list"
    and cap :: "'s \<Rightarrow> nat"
    and burst :: "nat \<Rightarrow> nat \<Rightarrow> bool"
    and store :: "'a list \<Rightarrow> 's \<Rightarrow> 's"
    and fetch :: "nat \<Rightarrow> 's \<Rightarrow> 'a list \<times> 's"
  assumes store_ok: "inv s \<Longrightarrow> burst (cap s) (length cs) \<Longrightarrow>
      inv (store cs s) \<and> cap (store cs s) = cap s \<and> items (store cs s) = newest (cap s) (items s @ cs)"
    and fetch_ok: "inv s \<Longrightarrow> fetch n s = (xs, t) \<Longrightarrow>
      inv t \<and> cap t = cap s \<and> xs = take n (items s) \<and> items t = drop n (items s)"
begin

definition bursts :: "'s \<Rightarrow> 'a line_op list \<Rightarrow> bool" where
  "bursts s ops \<longleftrightarrow> (\<forall>cs. Arrive cs \<in> set ops \<longrightarrow> burst (cap s) (length cs))"

lemma line_refines:
  "inv s \<Longrightarrow> bursts s ops \<Longrightarrow> line_run store fetch ops s = (rs, s') \<Longrightarrow>
   line_run (spec_store (cap s)) spec_fetch ops (items s) = (rs, items s') \<and> inv s' \<and> cap s' = cap s"
proof (induction ops arbitrary: s rs)
  case Nil
  then show ?case by simp
next
  case (Cons a ops)
  show ?case
  proof (cases a)
    case (Arrive cs)
    then have s: "inv (store cs s)" "cap (store cs s) = cap s" "items (store cs s) = spec_store (cap s) cs (items s)"
      using Cons.prems store_ok [of s cs] by (simp_all add: spec_store_def bursts_def)
    then show ?thesis using Cons.IH [OF s(1), of rs] Cons.prems Arrive by (simp add: bursts_def)
  next
    case (Fetch n)
    obtain xs t rs' where f: "fetch n s = (xs, t)" "line_run store fetch ops t = (rs', s')" "rs = xs # rs'"
      using Cons.prems Fetch by (auto split: prod.splits)
    note t = fetch_ok [OF Cons.prems(1) f(1)]
    show ?thesis
      using Cons.IH [of t rs'] Cons.prems t f(2,3) Fetch by (simp add: bursts_def spec_fetch_def)
  qed
qed

lemma line_order:
  assumes "inv s" "bursts s ops" "line_run store fetch ops s = (rs, s')"
  shows "subseq (concat rs @ items s') (items s @ arrived ops)"
    and "backlog ops (length (items s)) \<le> cap s \<Longrightarrow> concat rs @ items s' = items s @ arrived ops"
  using line_refines [OF assms] spec_line_subseq spec_line_lossless by blast+

end

end
