(* ===== verification/Ringbuffer.thy ===== *)
theory Ringbuffer
  imports Fifo
begin

text \<open>
  The byte ring of the device framework, \<^verbatim>\<open>components/drivers/src/ringbuffer.c\<close>:
  two indices, each with a mirror bit that flips when the index wraps, so that equal
  indices tell an empty ring (equal mirrors) from a full one (different mirrors). The
  bit-fields of 15 bits are natural numbers reduced modulo 2^15. The main results are
  the refinement to a list of bytes (\<open>contents\<close>) and the cases where
  \<^verbatim>\<open>rt_ringbuffer_put_force\<close> loses the whole ring.
\<close>

section \<open>The code\<close>

record rt_ringbuffer =
  buffer_ptr :: "u8 list"
  read_mirror :: bool
  read_index :: nat
  write_mirror :: bool
  write_index :: nat
  buffer_size :: nat

datatype rt_ringbuffer_state = RT_RINGBUFFER_EMPTY | RT_RINGBUFFER_FULL | RT_RINGBUFFER_HALFFULL

definition rt_ringbuffer_status :: "rt_ringbuffer \<Rightarrow> rt_ringbuffer_state" where
  "rt_ringbuffer_status rb =
    (if read_index rb = write_index rb
     then (if read_mirror rb = write_mirror rb then RT_RINGBUFFER_EMPTY else RT_RINGBUFFER_FULL)
     else RT_RINGBUFFER_HALFFULL)"

definition rt_ringbuffer_init :: "u8 list \<Rightarrow> nat \<Rightarrow> rt_ringbuffer" where
  "rt_ringbuffer_init pool sz =
    \<lparr>buffer_ptr = pool, read_mirror = False, read_index = 0,
     write_mirror = False, write_index = 0, buffer_size = RT_ALIGN_DOWN sz 4\<rparr>"

definition rt_ringbuffer_data_len :: "rt_ringbuffer \<Rightarrow> nat" where
  "rt_ringbuffer_data_len rb =
    (case rt_ringbuffer_status rb of
       RT_RINGBUFFER_EMPTY \<Rightarrow> 0
     | RT_RINGBUFFER_FULL \<Rightarrow> buffer_size rb
     | RT_RINGBUFFER_HALFFULL \<Rightarrow>
         (if write_index rb > read_index rb then write_index rb - read_index rb
          else buffer_size rb - (read_index rb - write_index rb)))"

definition rt_ringbuffer_space_len :: "rt_ringbuffer \<Rightarrow> nat" where
  "rt_ringbuffer_space_len rb = buffer_size rb - rt_ringbuffer_data_len rb"

definition rt_ringbuffer_put :: "rt_ringbuffer \<Rightarrow> u8 list \<Rightarrow> nat \<Rightarrow> nat \<times> rt_ringbuffer" where
  "rt_ringbuffer_put rb ptr len =
    (let sz = rt_ringbuffer_space_len rb mod 2 ^ 16
     in if sz = 0 then (0, rb)
        else let n = (if sz < len then sz else len) in
          if buffer_size rb - write_index rb > n
          then (n, rb\<lparr>buffer_ptr := memcpy_at (buffer_ptr rb) (write_index rb) ptr n,
                      write_index := (write_index rb + n) mod 2 ^ 15\<rparr>)
          else let k = buffer_size rb - write_index rb in
            (n, rb\<lparr>buffer_ptr := memcpy_at (memcpy_at (buffer_ptr rb) (write_index rb) ptr k)
                                  0 (drop k ptr) (n - k),
                   write_mirror := \<not> write_mirror rb,
                   write_index := (n - k) mod 2 ^ 15\<rparr>))"

definition rt_ringbuffer_put_force :: "rt_ringbuffer \<Rightarrow> u8 list \<Rightarrow> nat \<Rightarrow> nat \<times> rt_ringbuffer" where
  "rt_ringbuffer_put_force rb ptr len =
    (let space = rt_ringbuffer_space_len rb mod 2 ^ 16;
         ptr' = (if len > buffer_size rb then drop (len - buffer_size rb) ptr else ptr);
         n = (if len > buffer_size rb then buffer_size rb else len)
     in if buffer_size rb - write_index rb > n
        then let w = (write_index rb + n) mod 2 ^ 15 in
          (n, rb\<lparr>buffer_ptr := memcpy_at (buffer_ptr rb) (write_index rb) ptr' n,
                 write_index := w,
                 read_index := (if n > space then w else read_index rb)\<rparr>)
        else let k = buffer_size rb - write_index rb; w = (n - k) mod 2 ^ 15 in
          (n, rb\<lparr>buffer_ptr := memcpy_at (memcpy_at (buffer_ptr rb) (write_index rb) ptr' k)
                                0 (drop k ptr') (n - k),
                 write_mirror := \<not> write_mirror rb,
                 write_index := w,
                 read_mirror := (if n > space then \<not> read_mirror rb else read_mirror rb),
                 read_index := (if n > space then w else read_index rb)\<rparr>))"

definition rt_ringbuffer_get :: "rt_ringbuffer \<Rightarrow> nat \<Rightarrow> nat \<times> u8 list \<times> rt_ringbuffer" where
  "rt_ringbuffer_get rb len =
    (let sz = rt_ringbuffer_data_len rb
     in if sz = 0 then (0, [], rb)
        else let n = (if sz < len then sz else len) in
          if buffer_size rb - read_index rb > n
          then (n, take n (drop (read_index rb) (buffer_ptr rb)),
                rb\<lparr>read_index := (read_index rb + n) mod 2 ^ 15\<rparr>)
          else let k = buffer_size rb - read_index rb in
            (n, take k (drop (read_index rb) (buffer_ptr rb)) @ take (n - k) (buffer_ptr rb),
             rb\<lparr>read_mirror := \<not> read_mirror rb, read_index := (n - k) mod 2 ^ 15\<rparr>))"

definition rt_ringbuffer_putchar :: "rt_ringbuffer \<Rightarrow> u8 \<Rightarrow> nat \<times> rt_ringbuffer" where
  "rt_ringbuffer_putchar rb ch =
    (if rt_ringbuffer_space_len rb = 0 then (0, rb)
     else let rb1 = rb\<lparr>buffer_ptr := (buffer_ptr rb)[write_index rb := ch]\<rparr> in
       if write_index rb = buffer_size rb - 1
       then (1, rb1\<lparr>write_mirror := \<not> write_mirror rb, write_index := 0\<rparr>)
       else (1, rb1\<lparr>write_index := (write_index rb + 1) mod 2 ^ 15\<rparr>))"

definition rt_ringbuffer_putchar_force :: "rt_ringbuffer \<Rightarrow> u8 \<Rightarrow> nat \<times> rt_ringbuffer" where
  "rt_ringbuffer_putchar_force rb ch =
    (let old_state = rt_ringbuffer_status rb;
         rb1 = rb\<lparr>buffer_ptr := (buffer_ptr rb)[write_index rb := ch]\<rparr>
     in if write_index rb = buffer_size rb - 1
        then let rb2 = rb1\<lparr>write_mirror := \<not> write_mirror rb, write_index := 0\<rparr> in
          (1, if old_state = RT_RINGBUFFER_FULL
              then rb2\<lparr>read_mirror := \<not> read_mirror rb, read_index := write_index rb2\<rparr>
              else rb2)
        else let rb2 = rb1\<lparr>write_index := (write_index rb + 1) mod 2 ^ 15\<rparr> in
          (1, if old_state = RT_RINGBUFFER_FULL
              then rb2\<lparr>read_index := write_index rb2\<rparr>
              else rb2))"

definition rt_ringbuffer_getchar :: "rt_ringbuffer \<Rightarrow> (u8 \<times> rt_ringbuffer) option" where
  "rt_ringbuffer_getchar rb =
    (if rt_ringbuffer_data_len rb = 0 then None
     else let ch = buffer_ptr rb ! read_index rb in
       if read_index rb = buffer_size rb - 1
       then Some (ch, rb\<lparr>read_mirror := \<not> read_mirror rb, read_index := 0\<rparr>)
       else Some (ch, rb\<lparr>read_index := (read_index rb + 1) mod 2 ^ 15\<rparr>))"

definition rt_ringbuffer_reset :: "rt_ringbuffer \<Rightarrow> rt_ringbuffer" where
  "rt_ringbuffer_reset rb =
    rb\<lparr>read_mirror := False, read_index := 0, write_mirror := False, write_index := 0\<rparr>"

lemmas ring_ops_defs = rt_ringbuffer_init_def rt_ringbuffer_status_def rt_ringbuffer_data_len_def
  rt_ringbuffer_space_len_def rt_ringbuffer_put_def rt_ringbuffer_get_def rt_ringbuffer_putchar_def
  rt_ringbuffer_getchar_def RT_ALIGN_DOWN_def memcpy_at_def Let_def

section \<open>Well-formed rings and their contents\<close>

definition rb_inv :: "rt_ringbuffer \<Rightarrow> bool" where
  "rb_inv rb \<longleftrightarrow>
     0 < buffer_size rb \<and> buffer_size rb < 2 ^ 15 \<and> buffer_size rb \<le> length (buffer_ptr rb) \<and>
     read_index rb < buffer_size rb \<and> write_index rb < buffer_size rb \<and>
     (if read_mirror rb = write_mirror rb then read_index rb \<le> write_index rb
      else write_index rb \<le> read_index rb)"

definition contents :: "rt_ringbuffer \<Rightarrow> u8 list" where
  "contents rb = map (\<lambda>i. buffer_ptr rb ! ((read_index rb + i) mod buffer_size rb))
                   [0..<rt_ringbuffer_data_len rb]"

lemma length_contents [simp]: "length (contents rb) = rt_ringbuffer_data_len rb"
  by (simp add: contents_def)

lemma nth_contents: "i < rt_ringbuffer_data_len rb \<Longrightarrow>
  contents rb ! i = buffer_ptr rb ! ((read_index rb + i) mod buffer_size rb)"
  by (simp add: contents_def)

text \<open>The invariant as one equation between the indices and the amount of data.\<close>

lemma data_len_eq:
  "rb_inv rb \<Longrightarrow> read_index rb + rt_ringbuffer_data_len rb =
    (if read_mirror rb = write_mirror rb then write_index rb else write_index rb + buffer_size rb)"
  by (auto simp: rb_inv_def rt_ringbuffer_data_len_def rt_ringbuffer_status_def split: if_splits)

lemma data_len_le: "rb_inv rb \<Longrightarrow> rt_ringbuffer_data_len rb \<le> buffer_size rb"
  by (auto simp: rb_inv_def rt_ringbuffer_data_len_def rt_ringbuffer_status_def split: if_splits)

lemma data_lenI:
  assumes "0 < buffer_size rb" "buffer_size rb < 2 ^ 15" "buffer_size rb \<le> length (buffer_ptr rb)"
    and "read_index rb < buffer_size rb" "write_index rb < buffer_size rb" "d \<le> buffer_size rb"
    and "read_index rb + d =
      (if read_mirror rb = write_mirror rb then write_index rb else write_index rb + buffer_size rb)"
  shows "rb_inv rb \<and> rt_ringbuffer_data_len rb = d"
  using assms
  by (auto simp: rb_inv_def rt_ringbuffer_data_len_def rt_ringbuffer_status_def split: if_splits)

lemma rb_inv_init:
  "4 \<le> sz \<Longrightarrow> sz < 2 ^ 15 \<Longrightarrow> sz \<le> length pool \<Longrightarrow>
   rb_inv (rt_ringbuffer_init pool sz) \<and> contents (rt_ringbuffer_init pool sz) = []"
  using RT_ALIGN_DOWN_le [of sz 4]
  by (auto simp: rb_inv_def rt_ringbuffer_init_def contents_def rt_ringbuffer_data_len_def
      rt_ringbuffer_status_def RT_ALIGN_DOWN_def div_greater_zero_iff)

lemma rb_inv_reset:
  "rb_inv rb \<Longrightarrow> rb_inv (rt_ringbuffer_reset rb) \<and> contents (rt_ringbuffer_reset rb) = []"
  by (auto simp: rb_inv_def rt_ringbuffer_reset_def contents_def rt_ringbuffer_data_len_def
      rt_ringbuffer_status_def)

section \<open>Writing a block around the ring\<close>

definition ring_written :: "u8 list \<Rightarrow> u8 list \<Rightarrow> nat \<Rightarrow> nat \<Rightarrow> u8 list \<Rightarrow> nat \<Rightarrow> bool" where
  "ring_written buf buf' N w src n \<longleftrightarrow>
     length buf' = length buf \<and>
     (\<forall>k<n. buf' ! ((w + k) mod N) = src ! k) \<and>
     (\<forall>p<N. (\<forall>k<n. p \<noteq> (w + k) mod N) \<longrightarrow> buf' ! p = buf ! p)"

lemma ring_written_straight:
  assumes "N \<le> length buf" "w < N" "w + n < N" "n \<le> length src"
  shows "ring_written buf (memcpy_at buf w src n) N w src n"
  unfolding ring_written_def
proof (intro conjI allI impI)
  show "length (memcpy_at buf w src n) = length buf"
    using assms by simp
  show "memcpy_at buf w src n ! ((w + k) mod N) = src ! k" if "k < n" for k
    using assms that by (simp add: nth_memcpy_at)
  fix p assume p: "p < N" and *: "\<forall>k<n. p \<noteq> (w + k) mod N"
  have "\<not> (w \<le> p \<and> p < w + n)"
  proof
    assume "w \<le> p \<and> p < w + n"
    then have "p = (w + (p - w)) mod N" "p - w < n" using p by auto
    with * show False by blast
  qed
  then show "memcpy_at buf w src n ! p = buf ! p"
    using assms p by (auto simp: nth_memcpy_at)
qed

lemma ring_written_wrap:
  assumes "N \<le> length buf" "w < N" "N \<le> w + n" "n \<le> N" "n \<le> length src"
  shows "ring_written buf (memcpy_at (memcpy_at buf w src (N - w)) 0 (drop (N - w) src) (n - (N - w))) N w src n"
    (is "ring_written buf ?b N w src n")
proof -
  have nth: "?b ! p = (if p < n - (N - w) then src ! (N - w + p)
      else if w \<le> p then src ! (p - w) else buf ! p)" if "p < N" for p
    using assms that by (auto simp: nth_memcpy_at)
  show ?thesis
    unfolding ring_written_def
  proof (intro conjI allI impI)
    show "length ?b = length buf" using assms by simp
    show "?b ! ((w + k) mod N) = src ! k" if k: "k < n" for k
    proof (cases "w + k < N")
      case True
      then show ?thesis using assms nth [of "w + k"] by auto
    next
      case False
      then have "(w + k) mod N = w + k - N" "w + k - N < N"
        using assms k by (auto simp: mod_if)
      then show ?thesis using assms False k nth [of "w + k - N"] by auto
    qed
    fix p assume p: "p < N" and *: "\<forall>k<n. p \<noteq> (w + k) mod N"
    have "\<not> w \<le> p"
    proof
      assume "w \<le> p"
      then have "p = (w + (p - w)) mod N" "p - w < n" using p assms by auto
      with * show False by blast
    qed
    moreover have "\<not> p < n - (N - w)"
    proof
      assume "p < n - (N - w)"
      then have "p = (w + (N - w + p)) mod N" "N - w + p < n" using p assms by auto
      with * show False by blast
    qed
    ultimately show "?b ! p = buf ! p" using nth [OF p] by simp
  qed
qed

text \<open>Positions of the ring do not collide: equal positions come from equal offsets.\<close>

lemma ring_pos_inj: "a < N \<Longrightarrow> i < N \<Longrightarrow> j < N \<Longrightarrow> (a + i) mod N = (a + j) mod N \<Longrightarrow> i = j"
  for a i j N :: nat
  by (auto simp: mod_if split: if_splits)

lemma mod_add_skip: "(k + (N + w)) mod N = (k + w) mod N" for k N w :: nat
  by (metis add.left_commute mod_add_self1)

text \<open>
  The effect of a block write on the contents. \<open>s\<close> is how many old bytes the reader
  skips (0 for an ordinary put, the overflow for a forced one).
\<close>

lemma contents_written:
  assumes inv: "rb_inv rb" and inv': "rb_inv rb'"
    and sz: "buffer_size rb' = buffer_size rb"
    and wr: "ring_written (buffer_ptr rb) (buffer_ptr rb') (buffer_size rb)
      (write_index rb) src n"
    and s: "s \<le> rt_ringbuffer_data_len rb"
    and r: "read_index rb' = (read_index rb + s) mod buffer_size rb"
    and d: "rt_ringbuffer_data_len rb' + s = rt_ringbuffer_data_len rb + n"
    and n: "n \<le> length src"
  shows "contents rb' = drop s (contents rb) @ take n src"
proof (rule nth_equalityI)
  let ?N = "buffer_size rb" and ?d = "rt_ringbuffer_data_len rb"
  show len: "length (contents rb') = length (drop s (contents rb) @ take n src)"
    using d s n by simp
  have d'N: "rt_ringbuffer_data_len rb' \<le> ?N"
    using data_len_le [OF inv'] sz by simp
  have wpos: "(write_index rb + k) mod ?N = (read_index rb + (?d + k)) mod ?N" for k
  proof -
    have "(read_index rb + (?d + k)) mod ?N = (read_index rb + ?d + k) mod ?N"
      by (simp add: add.assoc)
    also have "\<dots> = (write_index rb + k) mod ?N"
      using data_len_eq [OF inv] by (auto simp: mod_add_skip ac_simps split: if_splits)
    finally show ?thesis by simp
  qed
  fix i assume i: "i < length (contents rb')"
  then have iN: "i < ?N" and i': "i < rt_ringbuffer_data_len rb'" using d'N by auto
  have pos: "contents rb' ! i = buffer_ptr rb' ! ((read_index rb + (s + i)) mod ?N)"
    using i' sz r by (simp add: nth_contents mod_add_left_eq add.assoc)
  show "contents rb' ! i = (drop s (contents rb) @ take n src) ! i"
  proof (cases "s + i < ?d")
    case True
    have "(read_index rb + (s + i)) mod ?N \<noteq> (write_index rb + k) mod ?N" if k: "k < n" for k
    proof
      assume "(read_index rb + (s + i)) mod ?N = (write_index rb + k) mod ?N"
      moreover have "read_index rb + (?d + k) = read_index rb + s + (?d - s + k)"
        using s by simp
      ultimately have eq: "(read_index rb' + i) mod ?N = (read_index rb' + (?d - s + k)) mod ?N"
        using r wpos by (metis add.assoc mod_add_left_eq)
      have "?d - s + k < ?N" using d d'N s k by linarith
      then have "i = ?d - s + k"
        using ring_pos_inj [OF _ iN _ eq] inv' sz by (simp add: rb_inv_def)
      with True show False by simp
    qed
    moreover have "(read_index rb + (s + i)) mod ?N < ?N"
      using inv by (simp add: rb_inv_def)
    ultimately have "buffer_ptr rb' ! ((read_index rb + (s + i)) mod ?N) =
        buffer_ptr rb ! ((read_index rb + (s + i)) mod ?N)"
      using wr by (simp add: ring_written_def)
    moreover have "i < ?d - s" using True by simp
    ultimately show ?thesis using True pos by (simp add: nth_append nth_contents)
  next
    case False
    define k where "k = s + i - ?d"
    have k: "s + i = ?d + k" "k < n" using False i' d by (auto simp: k_def)
    have "buffer_ptr rb' ! ((write_index rb + k) mod ?N) = src ! k"
      using wr k(2) by (simp add: ring_written_def)
    then have "contents rb' ! i = src ! k"
      using pos wpos k(1) by simp
    moreover have "i - (?d - s) = k" "\<not> i < ?d - s" using k s by auto
    ultimately show ?thesis using k s n by (simp add: nth_append)
  qed
qed

section \<open>Block operations\<close>

lemma space_len_u16:
  "rb_inv rb \<Longrightarrow> rt_ringbuffer_space_len rb mod 65536 = buffer_size rb - length (contents rb)"
  by (auto simp: rt_ringbuffer_space_len_def rb_inv_def)

lemma ring_put_refines:
  assumes inv: "rb_inv rb" and len: "len \<le> length ptr"
    and put: "rt_ringbuffer_put rb ptr len = (n, rb')"
  shows "rb_inv rb' \<and> buffer_size rb' = buffer_size rb \<and>
    n = min len (buffer_size rb - length (contents rb)) \<and>
    contents rb' = contents rb @ take n ptr"
proof (cases "buffer_size rb - length (contents rb) = 0")
  case True
  then show ?thesis
    using inv put by (auto simp: rt_ringbuffer_put_def space_len_u16 Let_def)
next
  case False
  let ?N = "buffer_size rb" and ?d = "rt_ringbuffer_data_len rb"
  have b: "0 < ?N" "?N < 2 ^ 15" "?N \<le> length (buffer_ptr rb)" "read_index rb < ?N" "write_index rb < ?N"
    using inv by (auto simp: rb_inv_def)
  have n: "n = min len (?N - ?d)"
    using False inv put by (auto simp: rt_ringbuffer_put_def space_len_u16 Let_def split: if_splits)
  have w: "buffer_size rb' = ?N \<and> read_index rb' = read_index rb \<and>
      ring_written (buffer_ptr rb) (buffer_ptr rb') ?N (write_index rb) ptr n \<and>
      rb_inv rb' \<and> rt_ringbuffer_data_len rb' = ?d + n"
  proof (cases "?N - write_index rb > n")
    case True
    then have rb': "rb' = rb\<lparr>buffer_ptr := memcpy_at (buffer_ptr rb) (write_index rb) ptr n,
        write_index := write_index rb + n\<rparr>"
      using False inv put b n by (auto simp: rt_ringbuffer_put_def space_len_u16 Let_def min_def split: if_splits)
    have wr: "ring_written (buffer_ptr rb) (buffer_ptr rb') ?N (write_index rb) ptr n"
      unfolding rb' using ring_written_straight [of ?N "buffer_ptr rb" "write_index rb" n ptr] True b n len by simp
    have "rb_inv rb' \<and> rt_ringbuffer_data_len rb' = ?d + n"
      by (rule data_lenI)
        (use True b n len inv data_len_le [OF inv] data_len_eq [OF inv] rb' in \<open>auto split: if_splits\<close>)
    with wr rb' show ?thesis by simp
  next
    case wrap: False
    define k where "k = ?N - write_index rb"
    have rb': "rb' = rb\<lparr>buffer_ptr := memcpy_at (memcpy_at (buffer_ptr rb) (write_index rb) ptr k)
          0 (drop k ptr) (n - k), write_mirror := \<not> write_mirror rb, write_index := n - k\<rparr>"
      using False wrap inv put b n
      by (auto simp: rt_ringbuffer_put_def space_len_u16 Let_def min_def k_def split: if_splits)
    have wr: "ring_written (buffer_ptr rb) (buffer_ptr rb') ?N (write_index rb) ptr n"
      unfolding rb' k_def
      using ring_written_wrap [of ?N "buffer_ptr rb" "write_index rb" n ptr] wrap b n len by simp
    have "rb_inv rb' \<and> rt_ringbuffer_data_len rb' = ?d + n"
      by (rule data_lenI)
        (use wrap b n len inv data_len_le [OF inv] data_len_eq [OF inv] rb' in
          \<open>auto simp: k_def split: if_splits\<close>)
    with wr rb' show ?thesis by simp
  qed
  have "contents rb' = drop 0 (contents rb) @ take n ptr"
    by (rule contents_written [OF inv]) (use w b n len in auto)
  with w n show ?thesis by simp
qed

lemma ring_get_refines:
  assumes inv: "rb_inv rb" and get: "rt_ringbuffer_get rb len = (n, out, rb')"
  shows "rb_inv rb' \<and> buffer_size rb' = buffer_size rb \<and> n = min len (length (contents rb)) \<and>
    out = take n (contents rb) \<and> contents rb' = drop n (contents rb)"
proof (cases "rt_ringbuffer_data_len rb = 0")
  case True
  then show ?thesis
    using inv get by (auto simp: rt_ringbuffer_get_def Let_def contents_def)
next
  case False
  let ?N = "buffer_size rb" and ?d = "rt_ringbuffer_data_len rb"
  have b: "0 < ?N" "?N < 2 ^ 15" "?N \<le> length (buffer_ptr rb)" "read_index rb < ?N" "write_index rb < ?N"
    using inv by (auto simp: rb_inv_def)
  have n: "n = min len ?d"
    using False get by (auto simp: rt_ringbuffer_get_def Let_def split: if_splits)
  have w: "buffer_ptr rb' = buffer_ptr rb \<and> buffer_size rb' = ?N \<and> write_index rb' = write_index rb \<and>
      read_index rb' = (read_index rb + n) mod ?N \<and> rb_inv rb' \<and> rt_ringbuffer_data_len rb' = ?d - n"
  proof (cases "?N - read_index rb > n")
    case True
    then have rb': "rb' = rb\<lparr>read_index := read_index rb + n\<rparr>"
      using False get b n by (auto simp: rt_ringbuffer_get_def Let_def min_def split: if_splits)
    have "rb_inv rb' \<and> rt_ringbuffer_data_len rb' = ?d - n"
      by (rule data_lenI)
        (use True b n data_len_le [OF inv] data_len_eq [OF inv] rb' in \<open>auto split: if_splits\<close>)
    with True rb' show ?thesis by simp
  next
    case wrap: False
    have rb': "rb' = rb\<lparr>read_mirror := \<not> read_mirror rb, read_index := n - (?N - read_index rb)\<rparr>"
      using False wrap get b n data_len_le [OF inv]
      by (auto simp: rt_ringbuffer_get_def Let_def min_def split: if_splits)
    have "rb_inv rb' \<and> rt_ringbuffer_data_len rb' = ?d - n"
      by (rule data_lenI)
        (use wrap b n data_len_le [OF inv] data_len_eq [OF inv] rb' in \<open>auto split: if_splits\<close>)
    moreover have "(read_index rb + n) mod ?N = n - (?N - read_index rb)"
    proof -
      have *: "?N \<le> read_index rb + n" "n \<le> ?N" using wrap b n data_len_le [OF inv] by auto
      then have "(read_index rb + n) mod ?N = read_index rb + n - ?N"
        using b by (simp add: le_mod_geq)
      then show ?thesis using * b by simp
    qed
    ultimately show ?thesis using rb' by simp
  qed
  have out: "out = (if ?N - read_index rb > n then take n (drop (read_index rb) (buffer_ptr rb))
      else take (?N - read_index rb) (drop (read_index rb) (buffer_ptr rb)) @
           take (n - (?N - read_index rb)) (buffer_ptr rb))"
    using False get n by (auto simp: rt_ringbuffer_get_def Let_def min_def split: if_splits)
  have le: "n \<le> ?N" using n data_len_le [OF inv] by simp
  have "out = take n (contents rb)"
  proof (rule nth_equalityI)
    show len: "length out = length (take n (contents rb))"
      unfolding out using b n le by auto
    fix i assume "i < length out"
    then have i: "i < n" using len by simp
    then have "(take n (contents rb)) ! i = buffer_ptr rb ! ((read_index rb + i) mod ?N)"
      using n by (simp add: nth_contents)
    moreover have "out ! i = buffer_ptr rb ! ((read_index rb + i) mod ?N)"
    proof (cases "read_index rb + i < ?N")
      case True
      then show ?thesis unfolding out using i b by (auto simp: nth_append)
    next
      case False
      then have "(read_index rb + i) mod ?N = i - (?N - read_index rb)"
        using b i le by (simp add: le_mod_geq)
      then show ?thesis unfolding out using False i b by (auto simp: nth_append)
    qed
    ultimately show "out ! i = take n (contents rb) ! i" by simp
  qed
  moreover have "contents rb' = drop n (contents rb) @ take 0 []"
    by (rule contents_written [OF inv]) (use w b n in \<open>auto simp: ring_written_def\<close>)
  ultimately show ?thesis using w n by simp
qed

section \<open>Forced block write\<close>

definition last_n :: "nat \<Rightarrow> 'a list \<Rightarrow> 'a list" where
  "last_n n xs = drop (length xs - n) xs"

lemma put_force_ring:
  assumes inv: "rb_inv rb" and len: "len \<le> length ptr"
    and put: "rt_ringbuffer_put_force rb ptr len = (n, rb')"
    and ok: "read_mirror rb \<noteq> write_mirror rb \<or>
      length (contents rb) + min len (buffer_size rb) \<le> buffer_size rb"
  defines "s \<equiv> n - (buffer_size rb - rt_ringbuffer_data_len rb)"
    and "src \<equiv> drop (len - buffer_size rb) ptr"
  shows "n = min len (buffer_size rb) \<and> buffer_size rb' = buffer_size rb \<and>
    read_index rb' = (read_index rb + s) mod buffer_size rb \<and>
    ring_written (buffer_ptr rb) (buffer_ptr rb') (buffer_size rb) (write_index rb) src n \<and>
    rb_inv rb' \<and> rt_ringbuffer_data_len rb' + s = rt_ringbuffer_data_len rb + n"
proof -
  let ?N = "buffer_size rb" and ?d = "rt_ringbuffer_data_len rb"
  have b: "0 < ?N" "?N < 2 ^ 15" "?N \<le> length (buffer_ptr rb)" "read_index rb < ?N" "write_index rb < ?N"
    using inv by (auto simp: rb_inv_def)
  note deq = data_len_eq [OF inv] and dle = data_len_le [OF inv]
  have n: "n = min len ?N"
    using put by (auto simp: rt_ringbuffer_put_force_def Let_def split: if_splits)
  have ptr: "(if len > ?N then drop (len - ?N) ptr else ptr) = src" by (simp add: src_def)
  have nsrc: "n \<le> length src" using n len by (auto simp: src_def)
  have sle: "s \<le> ?d" using n dle by (auto simp: s_def)
  have over: "n > ?N - ?d \<longleftrightarrow> 0 < s" by (auto simp: s_def)
  have sn: "?d + n - s \<le> ?N" "s \<le> n" using dle n by (auto simp: s_def)
  show ?thesis
  proof (cases "?N - write_index rb > n")
    case True
    define r where "r = (if 0 < s then write_index rb + n else read_index rb)"
    have rb': "rb' = rb\<lparr>buffer_ptr := memcpy_at (buffer_ptr rb) (write_index rb) src n,
        write_index := write_index rb + n, read_index := r\<rparr>"
      using put n True b ptr over inv
      by (auto simp: rt_ringbuffer_put_force_def Let_def min_def space_len_u16 r_def split: if_splits)
    have r: "r = read_index rb + s" "r < ?N"
      using deq ok over True b dle n by (auto simp: r_def s_def split: if_splits)
    have wr: "ring_written (buffer_ptr rb) (buffer_ptr rb') ?N (write_index rb) src n"
      unfolding rb' using ring_written_straight [of ?N "buffer_ptr rb" "write_index rb" n src] True b nsrc by simp
    have "rb_inv rb' \<and> rt_ringbuffer_data_len rb' = ?d + n - s"
      by (rule data_lenI) (use True b nsrc sn r deq rb' in \<open>auto split: if_splits\<close>)
    then show ?thesis using wr rb' r n sn by simp
  next
    case wrap: False
    define k where "k = ?N - write_index rb"
    define r where "r = (if 0 < s then n - k else read_index rb)"
    have rb': "rb' = rb\<lparr>buffer_ptr := memcpy_at (memcpy_at (buffer_ptr rb) (write_index rb) src k)
          0 (drop k src) (n - k), write_mirror := \<not> write_mirror rb, write_index := n - k,
          read_mirror := (if 0 < s then \<not> read_mirror rb else read_mirror rb), read_index := r\<rparr>"
      using put n wrap b ptr over inv
      by (auto simp: rt_ringbuffer_put_force_def Let_def min_def space_len_u16 r_def k_def split: if_splits)
    have r: "r = (if 0 < s then read_index rb + s - ?N else read_index rb)" "r < ?N"
      "0 < s \<Longrightarrow> ?N \<le> read_index rb + s"
      using deq ok over wrap b dle n by (auto simp: r_def s_def k_def split: if_splits)
    have wr: "ring_written (buffer_ptr rb) (buffer_ptr rb') ?N (write_index rb) src n"
      unfolding rb' k_def
      using ring_written_wrap [of ?N "buffer_ptr rb" "write_index rb" n src] wrap b nsrc n by simp
    have "rb_inv rb' \<and> rt_ringbuffer_data_len rb' = ?d + n - s"
    proof (cases "0 < s")
      case True
      then have diff: "read_mirror rb \<noteq> write_mirror rb" using ok over n dle by auto
      show ?thesis
        by (rule data_lenI)
          (use True diff wrap b nsrc sn n deq rb' in \<open>auto simp: r_def k_def s_def split: if_splits\<close>)
    next
      case False
      then have "r = read_index rb" "s = 0" "n \<le> ?N - ?d" using over by (auto simp: r_def)
      then show ?thesis
        using data_lenI [of rb' "?d + n"] wrap b nsrc n deq dle rb' by (auto simp: k_def split: if_splits)
    qed
    moreover have "(read_index rb + s) mod ?N = r"
      using r b by (auto simp: le_mod_geq)
    moreover have "buffer_size rb' = ?N" "read_index rb' = r" using rb' by simp_all
    moreover have "?d + n - s + s = ?d + n" using sn by simp
    ultimately show ?thesis using wr n by simp
  qed
qed

text \<open>
  The forced block write keeps the latest bytes, as long as the two mirrors differ or the
  block fits: the ring then holds the last \<open>buffer_size\<close> bytes of its old contents followed by the
  block.
\<close>

theorem put_force_keeps_latest:
  assumes inv: "rb_inv rb" and len: "len \<le> length ptr"
    and put: "rt_ringbuffer_put_force rb ptr len = (n, rb')"
    and ok: "read_mirror rb \<noteq> write_mirror rb \<or>
      length (contents rb) + min len (buffer_size rb) \<le> buffer_size rb"
  shows "rb_inv rb' \<and> buffer_size rb' = buffer_size rb \<and> n = min len (buffer_size rb) \<and>
    contents rb' = last_n (buffer_size rb) (contents rb @ take len ptr)"
proof -
  let ?N = "buffer_size rb" and ?d = "rt_ringbuffer_data_len rb"
  note R = put_force_ring [OF inv len put ok]
  have dle: "?d \<le> ?N" by (rule data_len_le [OF inv])
  have "contents rb' = drop (n - (?N - ?d)) (contents rb) @ take n (drop (len - ?N) ptr)"
    by (rule contents_written [OF inv, of rb' "drop (len - ?N) ptr" n])
      (use R dle len in \<open>auto\<close>)
  also have "\<dots> = last_n ?N (contents rb @ take len ptr)"
    using R dle len by (auto simp: last_n_def min_def take_drop add.commute)
  finally show ?thesis using R by simp
qed

lemma put_force_keeps_latest_witness:
  "let rb = rt_ringbuffer_init (replicate 4 0) 4; (n, rb') = rt_ringbuffer_put_force rb [1, 2, 3, 4, 5, 6] 3
   in n = 3 \<and> contents rb' = last_n 4 (contents rb @ [1, 2, 3])"
proof -
  let ?rb = "rt_ringbuffer_init (replicate 4 0) 4 :: rt_ringbuffer"
  obtain n rb' where p: "rt_ringbuffer_put_force ?rb [1, 2, 3, 4, 5, 6] 3 = (n, rb')" by fastforce
  have i: "rb_inv ?rb" "contents ?rb = []" "buffer_size ?rb = 4" by code_simp+
  from put_force_keeps_latest [OF i(1) _ p] i show ?thesis by (simp add: p Let_def)
qed

text \<open>
  With equal mirrors and a block that does not fit, the forced block write reports the bytes as
  written, but leaves read and write position equal with equal mirrors: the ring reads as empty and
  both the old contents and the block are lost.
\<close>

theorem put_force_loses_ring:
  assumes inv: "rb_inv rb"
    and put: "rt_ringbuffer_put_force rb ptr len = (n, rb')"
    and mirror: "read_mirror rb = write_mirror rb"
    and overflow: "buffer_size rb < length (contents rb) + min len (buffer_size rb)"
  shows "n = min len (buffer_size rb) \<and> contents rb' = []"
proof -
  let ?N = "buffer_size rb" and ?d = "rt_ringbuffer_data_len rb"
  have b: "0 < ?N" "?N < 2 ^ 15" "read_index rb < ?N" "write_index rb < ?N" "?d = write_index rb - read_index rb"
    using inv mirror data_len_eq [OF inv] by (auto simp: rb_inv_def)
  have n: "n = min len ?N"
    using put by (auto simp: rt_ringbuffer_put_force_def Let_def split: if_splits)
  have "\<not> ?N - write_index rb > n" using overflow b n by auto
  then have "read_index rb' = write_index rb' \<and> read_mirror rb' = write_mirror rb'"
    using put n overflow mirror inv b
    by (auto simp: rt_ringbuffer_put_force_def Let_def space_len_u16 min_def split: if_splits)
  then show ?thesis
    using n by (simp add: contents_def rt_ringbuffer_data_len_def rt_ringbuffer_status_def)
qed

lemma put_force_loses_ring_witness:
  "let rb = snd (rt_ringbuffer_put (rt_ringbuffer_init (replicate 4 0) 4) [1, 2] 2);
       (n, rb') = rt_ringbuffer_put_force rb [3, 4, 5] 3
   in contents rb = [1, 2] \<and> n = 3 \<and> contents rb' = []"
proof -
  let ?rb = "snd (rt_ringbuffer_put (rt_ringbuffer_init (replicate 4 0) 4) [1, 2] 2)"
  obtain n rb' where p: "rt_ringbuffer_put_force ?rb [3, 4, 5] 3 = (n, rb')" by fastforce
  have z: "rb_inv (rt_ringbuffer_init (replicate 4 0) 4)" "contents (rt_ringbuffer_init (replicate 4 0) 4) = []"
    using rb_inv_init [of 4 "replicate 4 0"] by simp_all
  have i: "rb_inv ?rb" "contents ?rb = [1, 2]" "buffer_size ?rb = 4"
    using ring_put_refines [OF z(1) _ surjective_pairing, of 2 "[1, 2]"] z(2) length_contents [of "rt_ringbuffer_init (replicate 4 0) 4"]
    by (simp_all add: rt_ringbuffer_init_def RT_ALIGN_DOWN_def)
  have m: "read_mirror ?rb = write_mirror ?rb" by (simp add: ring_ops_defs)
  from put_force_loses_ring [OF i(1) p m] i show ?thesis by (simp add: p Let_def)
qed

section \<open>Single bytes\<close>

lemma memcpy_at_1: "i < length buf \<Longrightarrow> memcpy_at buf i (c # cs) (Suc 0) = buf[i := c]"
  by (simp add: memcpy_at_def upd_conv_take_nth_drop)

lemma putchar_eq_put:
  assumes "rb_inv rb"
  shows "rt_ringbuffer_putchar rb ch = rt_ringbuffer_put rb [ch] 1"
proof (cases "rt_ringbuffer_space_len rb = 0")
  case True
  then show ?thesis by (simp add: rt_ringbuffer_putchar_def rt_ringbuffer_put_def)
next
  case False
  have b: "write_index rb < buffer_size rb" "buffer_size rb \<le> length (buffer_ptr rb)"
    using assms by (auto simp: rb_inv_def)
  have sp: "rt_ringbuffer_space_len rb mod 65536 = rt_ringbuffer_space_len rb"
    using space_len_u16 [OF assms] by (simp add: rt_ringbuffer_space_len_def)
  show ?thesis
  proof (cases "write_index rb = buffer_size rb - 1")
    case True
    then show ?thesis
      using False b sp by (simp add: rt_ringbuffer_putchar_def rt_ringbuffer_put_def Let_def memcpy_at_1)
  next
    case neq: False
    then show ?thesis
      using False b sp by (simp add: rt_ringbuffer_putchar_def rt_ringbuffer_put_def Let_def memcpy_at_1)
  qed
qed

lemma getchar_eq_get:
  assumes "rb_inv rb"
  shows "rt_ringbuffer_getchar rb =
    (case rt_ringbuffer_get rb 1 of (n, out, rb') \<Rightarrow> if n = 0 then None else Some (hd out, rb'))"
proof (cases "rt_ringbuffer_data_len rb = 0")
  case True
  then show ?thesis by (simp add: rt_ringbuffer_getchar_def rt_ringbuffer_get_def)
next
  case False
  have b: "read_index rb < buffer_size rb" "buffer_size rb \<le> length (buffer_ptr rb)"
    using assms by (auto simp: rb_inv_def)
  then show ?thesis
    using False by (auto simp: rt_ringbuffer_getchar_def rt_ringbuffer_get_def Let_def hd_drop_conv_nth
        take_Suc neq_Nil_conv hd_conv_nth)
qed

lemma putchar_force_refines:
  assumes inv: "rb_inv rb"
  shows "rb_inv (snd (rt_ringbuffer_putchar_force rb ch)) \<and>
    contents (snd (rt_ringbuffer_putchar_force rb ch)) =
      (if length (contents rb) = buffer_size rb then tl (contents rb) @ [ch] else contents rb @ [ch])"
proof -
  define rb' where "rb' = snd (rt_ringbuffer_putchar_force rb ch)"
  let ?N = "buffer_size rb" and ?d = "rt_ringbuffer_data_len rb"
  define s :: nat where "s = (if ?d = ?N then 1 else 0)"
  have b: "0 < ?N" "?N < 2 ^ 15" "?N \<le> length (buffer_ptr rb)" "read_index rb < ?N" "write_index rb < ?N"
    using inv by (auto simp: rb_inv_def)
  note deq = data_len_eq [OF inv] and dle = data_len_le [OF inv]
  have full: "rt_ringbuffer_status rb = RT_RINGBUFFER_FULL \<longleftrightarrow> ?d = ?N"
    using deq b by (auto simp: rt_ringbuffer_status_def split: if_splits)
  have pos: "write_index rb = (read_index rb + ?d) mod ?N"
    using deq b by (auto split: if_splits)
  have st: "buffer_size rb' = ?N \<and> buffer_ptr rb' = (buffer_ptr rb)[write_index rb := ch] \<and>
      read_index rb' = (read_index rb + s) mod ?N \<and> rb_inv rb' \<and> rt_ringbuffer_data_len rb' = ?d + 1 - s"
  proof (cases "write_index rb = ?N - 1")
    case True
    have rb': "rb' = rb\<lparr>buffer_ptr := (buffer_ptr rb)[write_index rb := ch],
        write_mirror := \<not> write_mirror rb, write_index := 0,
        read_mirror := (if ?d = ?N then \<not> read_mirror rb else read_mirror rb),
        read_index := (if ?d = ?N then 0 else read_index rb)\<rparr>"
      using True full by (auto simp: rb'_def rt_ringbuffer_putchar_force_def Let_def)
    have "rb_inv rb' \<and> rt_ringbuffer_data_len rb' = ?d + 1 - s"
      by (rule data_lenI) (use True b deq dle rb' in \<open>auto simp: s_def split: if_splits\<close>)
    moreover have "read_index rb + 1 = ?N" if "?d = ?N"
      using that True b deq by (auto split: if_splits)
    then have "?d = ?N \<Longrightarrow> (read_index rb + 1) mod ?N = 0" by simp
    ultimately show ?thesis using rb' b by (auto simp: s_def)
  next
    case False
    then have "write_index rb + 1 < ?N" using b by simp
    have rb': "rb' = rb\<lparr>buffer_ptr := (buffer_ptr rb)[write_index rb := ch],
        write_index := write_index rb + 1,
        read_index := (if ?d = ?N then write_index rb + 1 else read_index rb)\<rparr>"
      using False full b by (auto simp: rb'_def rt_ringbuffer_putchar_force_def Let_def)
    have "rb_inv rb' \<and> rt_ringbuffer_data_len rb' = ?d + 1 - s"
      by (rule data_lenI) (use \<open>write_index rb + 1 < ?N\<close> b deq dle rb' in \<open>auto simp: s_def split: if_splits\<close>)
    moreover have "?d = ?N \<Longrightarrow> (read_index rb + 1) mod ?N = write_index rb + 1"
      using \<open>write_index rb + 1 < ?N\<close> b deq by (auto split: if_splits)
    ultimately show ?thesis using rb' b by (auto simp: s_def)
  qed
  have "ring_written (buffer_ptr rb) (buffer_ptr rb') ?N (write_index rb) [ch] 1"
    using st b by (auto simp: ring_written_def)
  then have "contents rb' = drop s (contents rb) @ take 1 [ch]"
    using contents_written [OF inv, of rb' "[ch]" 1 s] st b dle by (auto simp: s_def)
  then show ?thesis using st b by (auto simp: rb'_def [symmetric] s_def drop_Suc)
qed

text \<open>Byte-wise use of the ring is a bounded queue.\<close>

definition rb_put1 :: "u8 \<Rightarrow> rt_ringbuffer \<Rightarrow> rt_ringbuffer option" where
  "rb_put1 ch rb = (case rt_ringbuffer_putchar rb ch of (n, rb') \<Rightarrow> if n = 0 then None else Some rb')"

lemma rb_put1_None: "rb_inv rb \<Longrightarrow> buffer_size rb \<le> length (contents rb) \<Longrightarrow> rb_put1 ch rb = None"
  by (simp add: rb_put1_def rt_ringbuffer_putchar_def rt_ringbuffer_space_len_def)

lemma rb_put1_Some:
  assumes "rb_inv rb" "length (contents rb) < buffer_size rb"
  shows "\<exists>t. rb_put1 ch rb = Some t \<and> rb_inv t \<and> contents t = contents rb @ [ch] \<and>
    buffer_size t = buffer_size rb"
proof -
  obtain n t where p: "rt_ringbuffer_putchar rb ch = (n, t)" by fastforce
  then have "rt_ringbuffer_put rb [ch] 1 = (n, t)" using assms putchar_eq_put by simp
  from ring_put_refines [OF assms(1) _ this] assms(2) show ?thesis
    by (auto simp: rb_put1_def p)
qed

lemma getchar_None: "contents rb = [] \<Longrightarrow> rt_ringbuffer_getchar rb = None"
  by (simp add: contents_def rt_ringbuffer_getchar_def)

lemma getchar_Some:
  assumes "rb_inv rb" "contents rb = x # xs"
  shows "\<exists>t. rt_ringbuffer_getchar rb = Some (x, t) \<and> rb_inv t \<and> contents t = xs \<and>
    buffer_size t = buffer_size rb"
proof -
  obtain n out t where g: "rt_ringbuffer_get rb 1 = (n, out, t)" by (cases "rt_ringbuffer_get rb 1") auto
  have "0 < length (contents rb)" using assms(2) by simp
  with ring_get_refines [OF assms(1) g] assms(2) show ?thesis
    unfolding getchar_eq_get [OF assms(1)] g by auto
qed

interpretation ring: bounded_fifo rb_inv contents buffer_size rb_put1 rt_ringbuffer_getchar
  using rb_put1_None rb_put1_Some getchar_None getchar_Some data_len_le
  by unfold_locales auto

section \<open>Histories of a ring\<close>

text \<open>
  Any sequence of block and byte operations: what went in, what came out, and the ring it
  leaves.
\<close>

datatype ring_op = Put_block "u8 list" | Get_block nat | Put_byte u8 | Get_byte

fun ring_exec :: "ring_op list \<Rightarrow> rt_ringbuffer \<Rightarrow> u8 list \<times> u8 list \<times> rt_ringbuffer" where
  "ring_exec [] rb = ([], [], rb)"
| "ring_exec (Put_block xs # ops) rb =
    (let (n, rb1) = rt_ringbuffer_put rb xs (length xs); (a, d, rb2) = ring_exec ops rb1
     in (take n xs @ a, d, rb2))"
| "ring_exec (Get_block len # ops) rb =
    (let (n, out, rb1) = rt_ringbuffer_get rb len; (a, d, rb2) = ring_exec ops rb1
     in (a, out @ d, rb2))"
| "ring_exec (Put_byte ch # ops) rb =
    (let (n, rb1) = rt_ringbuffer_putchar rb ch; (a, d, rb2) = ring_exec ops rb1
     in (take n [ch] @ a, d, rb2))"
| "ring_exec (Get_byte # ops) rb =
    (case rt_ringbuffer_getchar rb of
       None \<Rightarrow> ring_exec ops rb
     | Some (ch, rb1) \<Rightarrow> (let (a, d, rb2) = ring_exec ops rb1 in (a, ch # d, rb2)))"

lemma ring_exec_fifo:
  "rb_inv rb \<Longrightarrow> ring_exec ops rb = (a, d, rb') \<Longrightarrow>
   contents rb @ a = d @ contents rb' \<and> rb_inv rb' \<and> buffer_size rb' = buffer_size rb"
proof (induction ops arbitrary: rb a d)
  case (Cons x ops)
  show ?case
  proof (cases x)
    case (Put_block xs)
    obtain n rb1 where p: "rt_ringbuffer_put rb xs (length xs) = (n, rb1)" by fastforce
    obtain a2 d2 where r: "ring_exec ops rb1 = (a2, d2, rb')" "a = take n xs @ a2" "d = d2"
      using Cons.prems(2) Put_block p by (auto simp: Let_def split: prod.splits)
    show ?thesis using ring_put_refines [OF Cons.prems(1) _ p] Cons.IH [OF _ r(1)] r by auto
  next
    case (Get_block len)
    obtain n out rb1 where p: "rt_ringbuffer_get rb len = (n, out, rb1)" by (metis prod_cases3)
    obtain a2 d2 where r: "ring_exec ops rb1 = (a2, d2, rb')" "a = a2" "d = out @ d2"
      using Cons.prems(2) Get_block p by (auto simp: Let_def split: prod.splits)
    have g: "rb_inv rb1" "buffer_size rb1 = buffer_size rb" "contents rb = out @ contents rb1"
      using ring_get_refines [OF Cons.prems(1) p] by auto
    show ?thesis using g Cons.IH [OF g(1) r(1)] r by simp
  next
    case (Put_byte ch)
    obtain n rb1 where p: "rt_ringbuffer_putchar rb ch = (n, rb1)" by fastforce
    then have p': "rt_ringbuffer_put rb [ch] 1 = (n, rb1)" using putchar_eq_put [OF Cons.prems(1)] by simp
    obtain a2 d2 where r: "ring_exec ops rb1 = (a2, d2, rb')" "a = take n [ch] @ a2" "d = d2"
      using Cons.prems(2) Put_byte p by (auto simp: Let_def split: prod.splits)
    show ?thesis using ring_put_refines [OF Cons.prems(1) _ p'] Cons.IH [OF _ r(1)] r by auto
  next
    case Get_byte
    show ?thesis
    proof (cases "contents rb")
      case Nil
      then show ?thesis using Cons.IH [OF Cons.prems(1)] Cons.prems(2) Get_byte getchar_None [of rb] by auto
    next
      case (Cons c cs)
      obtain rb1 where g: "rt_ringbuffer_getchar rb = Some (c, rb1)" "rb_inv rb1" "contents rb1 = cs"
        "buffer_size rb1 = buffer_size rb"
        using getchar_Some [OF Cons.prems(1) Cons] by blast
      obtain a2 d2 where r: "ring_exec ops rb1 = (a2, d2, rb')" "a = a2" "d = c # d2"
        using Cons.prems(2) Get_byte g by (auto simp: Let_def split: prod.splits)
      show ?thesis using g Cons.IH [OF g(2) r(1)] r Cons by simp
    qed
  qed
qed simp

text \<open>
  C36: from a freshly initialised ring, under any sequence of block and byte puts and gets, the
  bytes that were accepted are, in order, the bytes delivered followed by the bytes still in the
  ring, and the ring never holds more than its aligned size.
\<close>

theorem ring_history_fifo:
  assumes "4 \<le> sz" "sz < 2 ^ 15" "sz \<le> length pool"
    and "ring_exec ops (rt_ringbuffer_init pool sz) = (put_in, got_out, rb)"
  shows "put_in = got_out @ contents rb \<and> rt_ringbuffer_data_len rb \<le> RT_ALIGN_DOWN sz 4"
  using rb_inv_init [OF assms(1-3)] ring_exec_fifo [OF _ assms(4)] data_len_le [of rb]
  by (auto simp: rt_ringbuffer_init_def)

lemma ring_history_fifo_witness:
  "let (put_in, got_out, rb) = ring_exec [Put_block [1, 2, 3, 4, 5, 6], Get_byte, Put_byte 7, Get_block 2]
      (rt_ringbuffer_init (replicate 6 0) 6)
   in put_in = [1, 2, 3, 4, 7] \<and> got_out = [1, 2, 3] \<and>
      put_in = got_out @ contents rb \<and> rt_ringbuffer_data_len rb \<le> RT_ALIGN_DOWN 6 4"
proof -
  let ?x = "ring_exec [Put_block [1, 2, 3, 4, 5, 6], Get_byte, Put_byte 7, Get_block 2]
      (rt_ringbuffer_init (replicate 6 0) 6)"
  have e: "fst ?x = [1, 2, 3, 4, 7]" "fst (snd ?x) = [1, 2, 3]"
    by (simp_all add: ring_ops_defs)
  obtain a d rb where x: "?x = (a, d, rb)" by (rule prod_cases3)
  have "a = [1, 2, 3, 4, 7]" "d = [1, 2, 3]" using e by (simp_all only: x fst_conv snd_conv)
  then show ?thesis using ring_history_fifo [OF _ _ _ x] by (simp only: x Let_def prod.case) simp
qed

end
