(* ===== verification/SerialFifo.thy ===== *)
theory SerialFifo
  imports Overrun Ringbuffer
begin

text \<open>
  The receive buffer of a serial line, \<^verbatim>\<open>components/drivers/serial/serial.c\<close>: filled by
  the receive interrupt or by DMA, emptied by the reader. Both modes are shown to be an
  overwriting queue; they differ in its room by one byte.
\<close>

section \<open>The code\<close>

record rx_fifo =
  rx_buffer :: "u8 list"
  put_index :: nat
  get_index :: nat
  is_full :: bool

text \<open>\<open>n\<close> is \<^verbatim>\<open>config.bufsz\<close>; the indices are 16 bits wide.\<close>

definition next_index :: "nat \<Rightarrow> nat \<Rightarrow> nat" where
  "next_index n i = (let j = (i + 1) mod 2 ^ 16 in if j \<ge> n then 0 else j)"

definition fifo_init :: "nat \<Rightarrow> rx_fifo" where
  "fifo_init n = \<lparr>rx_buffer = replicate n 0, put_index = 0, get_index = 0, is_full = False\<rparr>"

text \<open>The receive interrupt: one byte, and all bytes \<^verbatim>\<open>getc\<close> gives.\<close>

definition isr_store :: "nat \<Rightarrow> u8 \<Rightarrow> rx_fifo \<Rightarrow> rx_fifo" where
  "isr_store n ch f =
    (let f1 = f\<lparr>rx_buffer := (rx_buffer f)[put_index f := ch], put_index := next_index n (put_index f)\<rparr>
     in if put_index f1 = get_index f1
        then f1\<lparr>get_index := next_index n (get_index f1), is_full := True\<rparr>
        else f1)"

primrec isr_loop :: "nat \<Rightarrow> u8 list \<Rightarrow> rx_fifo \<Rightarrow> rx_fifo" where
  "isr_loop n [] f = f"
| "isr_loop n (ch # chs) f = isr_loop n chs (isr_store n ch f)"

definition isr_rx_length :: "nat \<Rightarrow> rx_fifo \<Rightarrow> nat" where
  "isr_rx_length n f =
    (if put_index f \<ge> get_index f then put_index f - get_index f else n - (get_index f - put_index f))"

primrec serial_int_rx :: "nat \<Rightarrow> nat \<Rightarrow> rx_fifo \<Rightarrow> u8 list \<times> rx_fifo" where
  "serial_int_rx n 0 f = ([], f)"
| "serial_int_rx n (Suc len) f =
    (if get_index f = put_index f \<and> \<not> is_full f then ([], f)
     else let ch = rx_buffer f ! get_index f;
              f1 = f\<lparr>get_index := next_index n (get_index f), is_full := False\<rparr>;
              (data, f2) = serial_int_rx n len f1
          in (ch # data, f2))"

definition serial_fifo_calc_recved_len :: "nat \<Rightarrow> rx_fifo \<Rightarrow> nat" where
  "serial_fifo_calc_recved_len n f =
    (if put_index f = get_index f then (if \<not> is_full f then 0 else n)
     else if put_index f > get_index f then put_index f - get_index f
     else n - (get_index f - put_index f))"

definition rt_dma_recv_update_get_index :: "nat \<Rightarrow> nat \<Rightarrow> rx_fifo \<Rightarrow> rx_fifo" where
  "rt_dma_recv_update_get_index n len f =
    (let f1 = (if is_full f \<and> len \<noteq> 0 then f\<lparr>is_full := False\<rparr> else f);
         g = (get_index f1 + len) mod 2 ^ 16
     in f1\<lparr>get_index := (if g \<ge> n then g mod n else g)\<rparr>)"

definition rt_dma_recv_update_put_index :: "nat \<Rightarrow> nat \<Rightarrow> rx_fifo \<Rightarrow> rx_fifo" where
  "rt_dma_recv_update_put_index n len f =
    (let p = (put_index f + len) mod 2 ^ 16;
         f1 = (if get_index f \<le> put_index f
           then if p \<ge> n
                then f\<lparr>put_index := p mod n, is_full := (if p mod n \<ge> get_index f then True else is_full f)\<rparr>
                else f\<lparr>put_index := p\<rparr>
           else if p \<ge> get_index f
                then f\<lparr>put_index := (if p \<ge> n then p mod n else p), is_full := True\<rparr>
                else f\<lparr>put_index := p\<rparr>);
         f2 = (if is_full f1 then f1\<lparr>get_index := put_index f1\<rparr> else f1)
     in if get_index f2 \<ge> n then f2\<lparr>get_index := 0\<rparr> else f2)"

text \<open>Reading in DMA mode copies at most two pieces out of the buffer.\<close>

definition serial_dma_rx :: "nat \<Rightarrow> nat \<Rightarrow> rx_fifo \<Rightarrow> u8 list \<times> rx_fifo" where
  "serial_dma_rx n len f =
    (let fifo_recved_len = serial_fifo_calc_recved_len n f;
         recv_len = (if len < fifo_recved_len then len else fifo_recved_len);
         data = (if get_index f + recv_len < n then take recv_len (drop (get_index f) (rx_buffer f))
                 else take (n - get_index f) (drop (get_index f) (rx_buffer f))
                   @ take (recv_len + get_index f - n) (rx_buffer f))
     in (data, rt_dma_recv_update_get_index n recv_len f))"

section \<open>Rings\<close>

lemma next_index_mod: "i < n \<Longrightarrow> n < 2 ^ 16 \<Longrightarrow> next_index n i = Suc i mod n"
  using ring_step [of i n] by (simp add: next_index_def Let_def)

lemma mod_differ:
  fixes a b g n :: nat
  assumes "a < b" "b < a + n"
  shows "(g + a) mod n \<noteq> (g + b) mod n"
proof
  assume "(g + a) mod n = (g + b) mod n"
  then have "n dvd (g + b) - (g + a)" using mod_eq_dvd_iff_nat [of "g + a" "g + b" n] assms by simp
  then show False using assms by (auto dest: dvd_imp_le)
qed

lemma mod_twice: "a < n + n \<Longrightarrow> a mod n = (if a < n then a else a - n)" for a n :: nat
  by (auto simp: mod_if)

text \<open>Writing \<open>cs\<close> behind the \<open>c\<close> items of a ring; the oldest go when there is no room.\<close>

lemma ring_written_items:
  assumes w: "ring_written buf buf' (length buf) ((g + c) mod length buf) cs (length cs)"
    and n: "c \<le> length buf" "length cs \<le> length buf"
  defines "s \<equiv> c + length cs - length buf"
  shows "ring_items buf' ((g + s) mod length buf) (c + length cs - s) = newest (length buf) (ring_items buf g c @ cs)"
    (is "?l = ?r")
proof (rule nth_equalityI)
  let ?n = "length buf"
  have buf': "length buf' = ?n" using w by (simp add: ring_written_def)
  show "length ?l = length ?r" using n by (auto simp: s_def)
  fix i assume "i < length ?l"
  then have i: "i < c + length cs - s" by simp
  have r: "?r ! i = (ring_items buf g c @ cs) ! (s + i)" using i n by (simp add: newest_def s_def del: drop_append)
  have l: "?l ! i = buf' ! ((g + (s + i)) mod ?n)" using i buf' by (simp add: ring_items_def mod_simps add.assoc)
  show "?l ! i = ?r ! i"
  proof (cases "s + i < c")
    case True
    have "(g + (s + i)) mod ?n \<noteq> ((g + c) mod ?n + k) mod ?n" if "k < length cs" for k
      using mod_differ [of "s + i" "c + k" ?n g] True that n by (simp add: mod_simps s_def add.assoc)
    moreover have "(g + (s + i)) mod ?n < ?n" using True n(1) by (intro mod_less_divisor) linarith
    ultimately have "buf' ! ((g + (s + i)) mod ?n) = buf ! ((g + (s + i)) mod ?n)" using w by (auto simp: ring_written_def)
    then show ?thesis unfolding l r using True by (simp add: nth_append ring_items_def)
  next
    case False
    define k where "k = s + i - c"
    have k: "k < length cs" "g + (s + i) = g + c + k" using False i by (simp_all add: k_def)
    have "buf' ! ((g + c + k) mod ?n) = cs ! k" using w k(1) by (simp add: ring_written_def mod_simps)
    then have "buf' ! ((g + (s + i)) mod ?n) = cs ! (s + i - c)" unfolding k(2) by (simp add: k_def)
    then show ?thesis using l r False by (simp add: nth_append)
  qed
qed

text \<open>Reading the first \<open>r\<close> items in at most two pieces.\<close>

lemma ring_items_pieces:
  assumes "g < length buf" "r \<le> length buf"
  shows "(if g + r < length buf then take r (drop g buf)
          else take (length buf - g) (drop g buf) @ take (r + g - length buf) buf) = ring_items buf g r"
  using assms by (intro nth_equalityI) (auto simp: ring_items_def nth_append mod_ring less_diff_conv add.commute)

lemma ring_items_split:
  assumes "r \<le> c"
  shows "take r (ring_items buf g c) = ring_items buf g r"
    "drop r (ring_items buf g c) = ring_items buf ((g + r) mod length buf) (c - r)"
  using assms by (auto intro!: nth_equalityI simp: ring_items_def mod_simps add.assoc)

section \<open>Filled by the interrupt\<close>

text \<open>A full buffer keeps one place empty.\<close>

definition int_inv :: "nat \<Rightarrow> rx_fifo \<Rightarrow> bool" where
  "int_inv n f \<longleftrightarrow> 2 \<le> n \<and> n < 2 ^ 16 \<and> length (rx_buffer f) = n \<and> put_index f < n \<and> get_index f < n \<and>
     (is_full f \<longrightarrow> put_index f \<noteq> get_index f)"

definition int_items :: "rx_fifo \<Rightarrow> u8 list" where
  "int_items f = ring_items (rx_buffer f) (get_index f)
     ((put_index f + length (rx_buffer f) - get_index f) mod length (rx_buffer f))"

lemma int_init: "2 \<le> n \<Longrightarrow> n < 2 ^ 16 \<Longrightarrow> int_inv n (fifo_init n) \<and> int_items (fifo_init n) = []"
  by (simp add: int_inv_def int_items_def fifo_init_def)

lemma int_itemsI:
  assumes "length (rx_buffer f) = n" "get_index f < n" "c < n" "put_index f = (get_index f + c) mod n"
  shows "int_items f = ring_items (rx_buffer f) (get_index f) c"
proof -
  have "(put_index f + n - get_index f) mod n = c"
    using assms(2-4) by (cases "get_index f + c < n") (auto simp: mod_if)
  then show ?thesis using assms(1) by (simp add: int_items_def)
qed

lemma int_count:
  assumes "int_inv n f"
  obtains c where "c < n" "put_index f = (get_index f + c) mod n" "int_items f = ring_items (rx_buffer f) (get_index f) c"
proof -
  let ?c = "(put_index f + n - get_index f) mod n"
  have "?c < n" "put_index f = (get_index f + ?c) mod n"
    using assms by (auto simp: int_inv_def mod_simps)
  then show thesis using that [of ?c] assms by (simp add: int_items_def int_inv_def)
qed

lemma isr_store_ok:
  assumes inv: "int_inv n f"
  shows "int_inv n (isr_store n ch f) \<and> int_items (isr_store n ch f) = newest (n - 1) (int_items f @ [ch])"
proof -
  let ?g = "get_index f"
  obtain c where c: "c < n" "put_index f = (?g + c) mod n" "int_items f = ring_items (rx_buffer f) ?g c"
    using int_count [OF inv] .
  have i: "2 \<le> n" "n < 2 ^ 16" "length (rx_buffer f) = n" "put_index f < n" "?g < n" using inv by (simp_all add: int_inv_def)
  let ?b = "(rx_buffer f)[put_index f := ch]"
  have app: "ring_items ?b ?g (Suc c) = int_items f @ [ch]"
    using ring_items_put [of ?g "rx_buffer f" c ch] c i by simp
  have nx: "next_index n (put_index f) = (?g + Suc c) mod n" using i c(2) by (simp add: next_index_mod mod_simps)
  show ?thesis
  proof (cases "Suc c = n")
    case False
    then have ne: "(?g + Suc c) mod n \<noteq> ?g" using mod_differ [of 0 "Suc c" n ?g] c(1) i(5) by simp
    then have s: "isr_store n ch f = f\<lparr>rx_buffer := ?b, put_index := (?g + Suc c) mod n\<rparr>"
      by (simp add: isr_store_def Let_def nx)
    have "int_items (isr_store n ch f) = int_items f @ [ch]"
      unfolding s app [symmetric] using False c(1) i by (subst int_itemsI [where c = "Suc c"]) simp_all
    moreover have "length (int_items f @ [ch]) \<le> n - 1" using c False by simp
    ultimately show ?thesis using i ne by (simp add: s int_inv_def)
  next
    case True
    then have e: "(?g + Suc c) mod n = ?g" using i(5) by simp
    let ?g' = "Suc ?g mod n"
    have "next_index n (put_index f) = ?g" "next_index n ?g = ?g'" using nx e i by (simp_all add: next_index_mod)
    then have s: "isr_store n ch f = f\<lparr>rx_buffer := ?b, put_index := ?g, get_index := ?g', is_full := True\<rparr>"
      by (simp add: isr_store_def Let_def)
    have ne: "?g' \<noteq> ?g" using mod_differ [of 0 1 n ?g] i(1,5) by simp
    have "?g = (?g' + c) mod n" using e by (simp add: mod_simps)
    then have "int_items (isr_store n ch f) = ring_items ?b ?g' c"
      unfolding s using i c(1) by (subst int_itemsI [where c = c]) simp_all
    moreover have "n - Suc 0 = c" "n - c = 1" using True by linarith+
    then have "newest (n - 1) (int_items f @ [ch]) = ring_items ?b ?g' c"
      unfolding app [symmetric] using ring_items_get [of ?g ?b "Suc c"] i(3,5) True by (simp add: newest_def)
    ultimately show ?thesis using i ne by (simp add: s int_inv_def)
  qed
qed

lemma isr_loop_ok:
  "int_inv n f \<Longrightarrow> int_inv n (isr_loop n chs f) \<and> int_items (isr_loop n chs f) = newest (n - 1) (int_items f @ chs)"
proof (induction chs arbitrary: f)
  case Nil
  then show ?case by (auto elim: int_count)
next
  case (Cons ch chs)
  then show ?case using isr_store_ok [of n f ch] by (simp add: newest_again)
qed

lemma serial_int_rx_ok:
  "int_inv n f \<Longrightarrow> serial_int_rx n k f = (xs, f') \<Longrightarrow>
   int_inv n f' \<and> xs = take k (int_items f) \<and> int_items f' = drop k (int_items f)"
proof (induction k arbitrary: f xs)
  case (Suc k)
  let ?g = "get_index f"
  obtain c where c: "c < n" "put_index f = (?g + c) mod n" "int_items f = ring_items (rx_buffer f) ?g c"
    using int_count [OF Suc.prems(1)] .
  have i: "2 \<le> n" "n < 2 ^ 16" "length (rx_buffer f) = n" "?g < n" using Suc.prems(1) by (simp_all add: int_inv_def)
  show ?case
  proof (cases "c = 0")
    case True
    then have "put_index f = ?g" "\<not> is_full f" using c i(4) Suc.prems(1) by (auto simp: int_inv_def)
    then show ?thesis using Suc.prems c True by simp
  next
    case False
    then have ne: "put_index f \<noteq> ?g" using mod_differ [of 0 c n ?g] c i(4) by simp
    let ?f1 = "f\<lparr>get_index := Suc ?g mod n, is_full := False\<rparr>"
    obtain ys where r: "serial_int_rx n k ?f1 = (ys, f')" "xs = rx_buffer f ! ?g # ys"
      using Suc.prems(2) ne i by (auto simp: next_index_mod Let_def split: prod.splits)
    have "int_inv n ?f1" using Suc.prems(1) by (simp add: int_inv_def)
    moreover have "int_items ?f1 = ring_items (rx_buffer f) (Suc ?g mod n) (c - 1)"
    proof -
      have "(?g + c) mod n = (Suc ?g mod n + (c - 1)) mod n" using False by (cases c) (simp_all add: mod_simps)
      moreover have "Suc ?g mod n < n" using i(1) by (intro mod_less_divisor) linarith
      ultimately show ?thesis using c(1,2) i(3) by (subst int_itemsI [where c = "c - 1"]) simp_all
    qed
    moreover have "int_items f = rx_buffer f ! ?g # ring_items (rx_buffer f) (Suc ?g mod n) (c - 1)"
      using ring_items_get [of ?g "rx_buffer f" c] c(3) i False by simp
    ultimately show ?thesis using Suc.IH [of ?f1 ys] r by simp
  qed
qed simp

interpretation int_rx: overrun_fifo "\<lambda>(n, f). int_inv n f" "\<lambda>(n, f). int_items f" "\<lambda>(n, f). n - 1" "\<lambda>_ _. True"
  "\<lambda>chs (n, f). (n, isr_loop n chs f)" "\<lambda>k (n, f). map_prod id (Pair n) (serial_int_rx n k f)"
  by unfold_locales
    (auto simp: isr_loop_ok map_prod_def split: prod.splits dest: serial_int_rx_ok)

section \<open>Filled by DMA\<close>

text \<open>
  The controller writes the bytes of a transfer around the buffer from the place where the driver will
  see them, and then reports how many they were.
\<close>

primrec dma_fill :: "nat \<Rightarrow> u8 list \<Rightarrow> u8 list \<Rightarrow> u8 list" where
  "dma_fill p [] buf = buf"
| "dma_fill p (c # cs) buf = dma_fill (Suc p mod length buf) cs (buf[p := c])"

definition dma_arrive :: "nat \<Rightarrow> u8 list \<Rightarrow> rx_fifo \<Rightarrow> rx_fifo" where
  "dma_arrive n chs f =
    rt_dma_recv_update_put_index n (length chs) (f\<lparr>rx_buffer := dma_fill (put_index f) chs (rx_buffer f)\<rparr>)"

lemma dma_fill_written:
  "p < length buf \<Longrightarrow> length cs \<le> length buf \<Longrightarrow> ring_written buf (dma_fill p cs buf) (length buf) p cs (length cs)"
proof (induction cs arbitrary: p buf)
  case Nil
  then show ?case by (simp add: ring_written_def)
next
  case (Cons c cs)
  let ?n = "length buf"
  let ?b = "dma_fill (Suc p mod ?n) cs (buf[p := c])"
  have "ring_written (buf[p := c]) ?b ?n (Suc p mod ?n) cs (length cs)"
  proof -
    have "Suc p mod ?n < ?n" using Cons.prems(1) by (intro mod_less_divisor) linarith
    then show ?thesis using Cons.IH [of "Suc p mod ?n" "buf[p := c]"] Cons.prems by simp
  qed
  then have w: "length ?b = ?n" "\<forall>k<length cs. ?b ! ((p + Suc k) mod ?n) = cs ! k"
    "\<forall>q<?n. (\<forall>k<length cs. q \<noteq> (p + Suc k) mod ?n) \<longrightarrow> ?b ! q = buf[p := c] ! q"
    by (simp_all add: ring_written_def mod_simps)
  have "p \<noteq> (p + Suc k) mod ?n" if "k < length cs" for k
    using mod_differ [of 0 "Suc k" ?n p] that Cons.prems by simp
  then have "?b ! p = c" using w(3) Cons.prems(1) by simp
  then have "?b ! ((p + k) mod ?n) = (c # cs) ! k" if "k < Suc (length cs)" for k
    using that w(2) Cons.prems(1) by (cases k) simp_all
  moreover have "?b ! q = buf ! q" if "q < ?n" "\<forall>k<Suc (length cs). q \<noteq> (p + k) mod ?n" for q
  proof -
    have "q \<noteq> p" using that(2) Cons.prems(1) by (auto dest: spec [of _ 0])
    moreover have "q \<noteq> (p + Suc k) mod ?n" if "k < length cs" for k using \<open>\<forall>k<Suc (length cs). _ k\<close> that by blast
    ultimately show ?thesis using w(3) that(1) by simp
  qed
  ultimately show ?case using w(1) by (simp add: ring_written_def)
qed

definition dma_inv :: "nat \<Rightarrow> rx_fifo \<Rightarrow> bool" where
  "dma_inv n f \<longleftrightarrow> 0 < n \<and> n \<le> 2 ^ 15 \<and> length (rx_buffer f) = n \<and> put_index f < n \<and> get_index f < n \<and>
     (is_full f \<longrightarrow> put_index f = get_index f)"

definition dma_items :: "rx_fifo \<Rightarrow> u8 list" where
  "dma_items f = ring_items (rx_buffer f) (get_index f) (serial_fifo_calc_recved_len (length (rx_buffer f)) f)"

lemma dma_init: "0 < n \<Longrightarrow> n \<le> 2 ^ 15 \<Longrightarrow> dma_inv n (fifo_init n) \<and> dma_items (fifo_init n) = []"
  by (simp add: dma_inv_def dma_items_def fifo_init_def serial_fifo_calc_recved_len_def)

text \<open>The indices and the count of a buffer, in one equation.\<close>

lemma recved_len_index:
  assumes "dma_inv n f"
  defines "c \<equiv> serial_fifo_calc_recved_len n f"
  shows "c \<le> n" "is_full f \<longleftrightarrow> c = n"
    "put_index f = (if get_index f + c < n then get_index f + c else get_index f + c - n)"
  using assms by (auto simp: dma_inv_def serial_fifo_calc_recved_len_def)

lemma recved_lenI:
  assumes "get_index f < n" "put_index f < n" "c \<le> n" "is_full f \<longleftrightarrow> c = n"
    "put_index f = (if get_index f + c < n then get_index f + c else get_index f + c - n)"
  shows "serial_fifo_calc_recved_len n f = c"
  using assms by (auto simp: serial_fifo_calc_recved_len_def split: if_splits)

lemma update_put_index:
  assumes "put_index f = p" "get_index f = g" "p < n" "g < n" "l \<le> n" "n \<le> 2 ^ 15"
    and c: "c \<le> n" "is_full f \<longleftrightarrow> c = n" "p = (if g + c < n then g + c else g + c - n)"
  shows "rt_dma_recv_update_put_index n l f =
    f\<lparr>put_index := (p + l) mod n, get_index := (if c + l \<ge> n then (p + l) mod n else g), is_full := (c + l \<ge> n)\<rparr>"
proof -
  note d = rt_dma_recv_update_put_index_def Let_def
  have m: "(p + l) mod 65536 = p + l" "(p + l) mod n = (if p + l < n then p + l else p + l - n)"
    using assms by (simp_all add: mod_twice)
  have "p + l - n < n" using assms(3,5) by linarith
  note m = m assms(1-4) this
  show ?thesis
  proof (cases "g + c < n")
    case True
    then have p: "p = g + c" "\<not> is_full f" "\<not> n \<le> c" "g \<le> p" using c by simp_all
    then have "n \<le> c + l \<longleftrightarrow> n \<le> p + l \<and> g \<le> p + l - n" by linarith
    then show ?thesis using m p(2,4) by (cases "p + l < n"; cases "g \<le> p + l - n") (simp_all add: d)
  next
    case F: False
    show ?thesis
    proof (cases "c = n")
      case True
      then have "p = g" "is_full f" "n \<le> c + l" using F c by simp_all
      then show ?thesis using m by (cases "p + l < n") (simp_all add: d)
    next
      case False
      then have p: "p < g" "\<not> is_full f" "n \<le> c + l \<longleftrightarrow> g \<le> p + l" using F c assms(4) by auto
      then show ?thesis using m by (cases "g \<le> p + l"; cases "p + l < n") (simp_all add: d)
    qed
  qed
qed

lemma dma_arrive_ok:
  assumes inv: "dma_inv n f" and len: "length chs \<le> n"
  shows "dma_inv n (dma_arrive n chs f) \<and> dma_items (dma_arrive n chs f) = newest n (dma_items f @ chs)"
proof -
  let ?g = "get_index f" and ?p = "put_index f" and ?l = "length chs"
  let ?b = "dma_fill ?p chs (rx_buffer f)"
  define c where "c = serial_fifo_calc_recved_len n f"
  note c = recved_len_index [OF inv, folded c_def]
  have i: "0 < n" "n \<le> 2 ^ 15" "length (rx_buffer f) = n" "?p < n" "?g < n" using inv by (simp_all add: dma_inv_def)
  have p: "?p = (?g + c) mod n" using c(1,3) i(5) by (auto simp: mod_if)
  have w: "ring_written (rx_buffer f) ?b n ((?g + c) mod n) chs ?l"
    using dma_fill_written [of ?p "rx_buffer f" chs] i len p by simp
  define s where "s = c + ?l - n"
  let ?f = "dma_arrive n chs f"
  have it: "ring_items ?b ((?g + s) mod n) (c + ?l - s) = newest n (dma_items f @ chs)"
    using ring_written_items [of "rx_buffer f" ?b ?g c chs] w c(1) len i(3) by (simp add: dma_items_def s_def c_def)
  have gs: "(?g + s) mod n = (if c + ?l \<ge> n then (?p + ?l) mod n else ?g)"
  proof (cases "c + ?l \<ge> n")
    case True
    then have "?g + s + n = ?g + c + ?l" by (simp add: s_def)
    then show ?thesis using p True by (metis mod_add_left_eq mod_add_self2)
  qed (use i(5) in \<open>simp add: s_def\<close>)
  have f: "?f = f\<lparr>rx_buffer := ?b, put_index := (?p + ?l) mod n, get_index := (?g + s) mod n, is_full := (c + ?l \<ge> n)\<rparr>"
    unfolding gs dma_arrive_def using update_put_index [of "f\<lparr>rx_buffer := ?b\<rparr>" ?p ?g n ?l c] i len c by simp
  have b: "length ?b = n" using w i(3) by (simp add: ring_written_def)
  have lt: "(?p + ?l) mod n < n" "(?g + s) mod n < n" using i(1) by simp_all
  have full: "(?p + ?l) mod n = (?g + s) mod n" if "c + ?l \<ge> n" using gs that by simp
  have "(?p + ?l) mod n = (if (?g + s) mod n + (c + ?l - s) < n then (?g + s) mod n + (c + ?l - s)
      else (?g + s) mod n + (c + ?l - s) - n)"
  proof (cases "c + ?l \<ge> n")
    case True
    then show ?thesis using full lt by (simp add: s_def)
  next
    case False
    then have "(?p + ?l) mod n = (?g + (c + ?l)) mod n" using p by (simp add: mod_simps add.assoc)
    then show ?thesis using False i(5) mod_twice [of "?g + (c + ?l)" n] by (simp add: s_def)
  qed
  moreover have "c + ?l - s \<le> n" "n \<le> c + ?l \<longleftrightarrow> c + ?l - s = n" unfolding s_def by linarith+
  ultimately have "serial_fifo_calc_recved_len n ?f = c + ?l - s"
    using lt by (intro recved_lenI) (simp_all add: f)
  then show ?thesis
    using i b lt full it unfolding dma_items_def dma_inv_def by (simp add: f)
qed

lemma serial_dma_rx_ok:
  assumes inv: "dma_inv n f" and r: "serial_dma_rx n k f = (xs, f')"
  shows "dma_inv n f' \<and> xs = take k (dma_items f) \<and> dma_items f' = drop k (dma_items f)"
proof -
  let ?g = "get_index f"
  define c where "c = serial_fifo_calc_recved_len n f"
  note c = recved_len_index [OF inv, folded c_def]
  define m where "m = (if k < c then k else c)"
  have i: "0 < n" "n \<le> 2 ^ 15" "length (rx_buffer f) = n" "put_index f < n" "?g < n" using inv by (simp_all add: dma_inv_def)
  have it: "dma_items f = ring_items (rx_buffer f) ?g c" using i(3) by (simp add: dma_items_def c_def)
  have x: "xs = ring_items (rx_buffer f) ?g m" "f' = rt_dma_recv_update_get_index n m f"
    using r ring_items_pieces [of ?g "rx_buffer f" m] i c(1) by (auto simp: serial_dma_rx_def Let_def m_def c_def)
  have f: "f' = f\<lparr>get_index := (?g + m) mod n, is_full := (is_full f \<and> m = 0)\<rparr>"
  proof -
    have "m \<le> c" by (simp add: m_def)
    then have "?g + m < 2 ^ 16" using c(1) i(2,5) by simp
    then have "(?g + m) mod 2 ^ 16 = ?g + m" by (rule mod_less)
    then show ?thesis using x(2) by (auto simp: rt_dma_recv_update_get_index_def Let_def)
  qed
  have lt: "(?g + m) mod n < n" using i(1) by simp
  have mc: "m \<le> c" "(?g + m) mod n = (if ?g + m < n then ?g + m else ?g + m - n)"
    using c(1) i(5) by (simp_all add: m_def mod_twice)
  then have "serial_fifo_calc_recved_len n f' = c - m"
    using lt c i by (intro recved_lenI) (auto simp: f)
  moreover have "take k (dma_items f) = ring_items (rx_buffer f) ?g m"
    "drop k (dma_items f) = ring_items (rx_buffer f) ((?g + m) mod n) (c - m)"
    unfolding it using ring_items_split [OF mc(1), of "rx_buffer f" ?g] i(3) by (auto simp: m_def)
  ultimately show ?thesis using i lt x(1) mc c inv by (auto simp: f dma_items_def dma_inv_def)
qed

interpretation dma_rx: overrun_fifo "\<lambda>(n, f). dma_inv n f" "\<lambda>(n, f). dma_items f" "\<lambda>(n, f). n" "\<lambda>n k. k \<le> n"
  "\<lambda>chs (n, f). (n, dma_arrive n chs f)" "\<lambda>k (n, f). map_prod id (Pair n) (serial_dma_rx n k f)"
  by unfold_locales
    (auto simp: dma_arrive_ok map_prod_def split: prod.splits dest: serial_dma_rx_ok)

section \<open>Histories of a line\<close>

text \<open>Any run of interrupts, each with the bytes it finds, and of reads; likewise of transfers.\<close>

definition int_line :: "nat \<Rightarrow> u8 line_op list \<Rightarrow> u8 list list \<times> nat \<times> rx_fifo" where
  "int_line n ops =
    line_run (\<lambda>chs (n, f). (n, isr_loop n chs f)) (\<lambda>k (n, f). map_prod id (Pair n) (serial_int_rx n k f)) ops (n, fifo_init n)"

definition dma_line :: "nat \<Rightarrow> u8 line_op list \<Rightarrow> u8 list list \<times> nat \<times> rx_fifo" where
  "dma_line n ops =
    line_run (\<lambda>chs (n, f). (n, dma_arrive n chs f)) (\<lambda>k (n, f). map_prod id (Pair n) (serial_dma_rx n k f)) ops (n, fifo_init n)"

text \<open>
  Over any run of receive interrupts and reads the interrupt-driven buffer of \<open>n\<close> bytes answers as a
  queue that keeps the newest \<open>n - 1\<close> unread bytes: the reader gets the bytes of the line in order, none
  twice and none made up, and all of them as long as no more than \<open>n - 1\<close> are waiting.
\<close>

theorem int_line_order:
  assumes n: "2 \<le> n" "n < 2 ^ 16" and run: "int_line n ops = (rs, m, f)"
  shows "line_run (spec_store (n - 1)) spec_fetch ops [] = (rs, int_items f) \<and>
    subseq (concat rs @ int_items f) (arrived ops) \<and>
    (backlog ops 0 \<le> n - 1 \<longrightarrow> concat rs @ int_items f = arrived ops)"
proof -
  have b: "int_rx.bursts (n, fifo_init n) ops" unfolding int_rx.bursts_def by simp
  show ?thesis
    using int_rx.line_refines [OF _ b run [unfolded int_line_def]] int_rx.line_order [OF _ b run [unfolded int_line_def]]
      int_init [OF n] by simp
qed

text \<open>
  A DMA buffer of \<open>n\<close> bytes answers likewise as a queue that keeps the newest \<open>n\<close> bytes, over any run
  of transfers, none longer than the buffer, and reads.
\<close>

theorem dma_line_order:
  assumes n: "0 < n" "n \<le> 2 ^ 15" and b: "\<forall>cs. Arrive cs \<in> set ops \<longrightarrow> length cs \<le> n"
    and run: "dma_line n ops = (rs, m, f)"
  shows "line_run (spec_store n) spec_fetch ops [] = (rs, dma_items f) \<and>
    subseq (concat rs @ dma_items f) (arrived ops) \<and>
    (backlog ops 0 \<le> n \<longrightarrow> concat rs @ dma_items f = arrived ops)"
proof -
  have b: "dma_rx.bursts (n, fifo_init n) ops" using b by (simp add: dma_rx.bursts_def)
  show ?thesis
    using dma_rx.line_refines [OF _ b run [unfolded dma_line_def]] dma_rx.line_order [OF _ b run [unfolded dma_line_def]]
      dma_init [OF n] by simp
qed

definition demo_line :: "u8 line_op list" where
  "demo_line = [Arrive [1, 2], Fetch 1, Arrive [3, 4, 5], Fetch 9]"

theorem int_line_order_witness: "fst (int_line 4 demo_line) = [[1], [3, 4, 5]]"
proof -
  obtain rs m f where r: "int_line 4 demo_line = (rs, m, f)" by (cases "int_line 4 demo_line")
  have "line_run (spec_store 3) spec_fetch demo_line [] = (rs, int_items f)"
    using int_line_order [OF _ _ r] by simp
  then show ?thesis using r by (auto simp: demo_line_def spec_store_def spec_fetch_def newest_def)
qed

theorem dma_line_order_witness: "fst (dma_line 4 demo_line) = [[1], [2, 3, 4, 5]]"
proof -
  obtain rs m f where r: "dma_line 4 demo_line = (rs, m, f)" by (cases "dma_line 4 demo_line")
  have "line_run (spec_store 4) spec_fetch demo_line [] = (rs, dma_items f)"
    using dma_line_order [OF _ _ _ r] by (simp add: demo_line_def)
  then show ?thesis using r by (auto simp: demo_line_def spec_store_def spec_fetch_def newest_def)
qed

text \<open>What the interrupt reports is what is waiting; a buffer of one byte is never reported.\<close>

lemma isr_rx_length_items: "int_inv n f \<Longrightarrow> isr_rx_length n f = length (int_items f)"
  by (auto simp: int_inv_def int_items_def isr_rx_length_def mod_if)

lemma one_byte_buffer_silent: "isr_rx_length 1 (isr_store 1 ch (fifo_init 1)) = 0"
  by (simp add: isr_rx_length_def isr_store_def fifo_init_def next_index_def)

text \<open>With a buffer of more than half the range of the 16-bit indices the sum of an index and a length wraps.\<close>

lemma dma_index_wraps:
  "put_index (rt_dma_recv_update_put_index 40000 40000 ((fifo_init n)\<lparr>put_index := 39999, get_index := 39999\<rparr>)) = 14463"
  by (simp add: rt_dma_recv_update_put_index_def fifo_init_def)

end
