(* ===== verification/Completion.thy ===== *)
theory Completion
  imports Mailbox
begin

text \<open>
  The completion of \<^verbatim>\<open>components/drivers/src/completion.c\<close>: a flag one thread waits
  for and another thread or an interrupt sets. A wait is split where the thread leaves the processor;
  \<open>Blocked\<close> carries the thread. Its wait list is \<open>Pending\<close> of the completion.
\<close>

section \<open>The code\<close>

abbreviation (input) RT_COMPLETED :: u32 where "RT_COMPLETED \<equiv> 1"
abbreviation (input) RT_UNCOMPLETED :: u32 where "RT_UNCOMPLETED \<equiv> 0"

record rt_completion =
  co_id :: nat
  co_flag :: u32

type_synonym co_state = "rt_completion \<times> kernel"

definition rt_completion_init :: "nat \<Rightarrow> kernel \<Rightarrow> co_state" where
  "rt_completion_init n k = (\<lparr>co_id = n, co_flag = RT_UNCOMPLETED\<rparr>, k\<lparr>lists := (lists k)(Pending n := [])\<rparr>)"

definition rt_completion_wait :: "int \<Rightarrow> co_state \<Rightarrow> (int, tid) outcome \<times> co_state" where
  "rt_completion_wait timeout x = (case x of (c, k) \<Rightarrow>
    if co_flag c \<noteq> RT_COMPLETED
    then if timeout = 0 then (Return (- RT_ETIMEOUT), (c, k))
      else (case rt_thread_self k of
          None \<Rightarrow> (Return (- RT_ETIMEOUT), (c, k\<lparr>fault := True\<rparr>))
        | Some t \<Rightarrow> (Blocked t,
            (c, rt_schedule (suspend_and_arm (Pending (co_id c)) t RT_IPC_FLAG_FIFO timeout (set_error t RT_EOK k)))))
    else (Return RT_EOK, (c\<lparr>co_flag := RT_UNCOMPLETED\<rparr>, k)))"

definition rt_completion_wait_resume :: "tid \<Rightarrow> co_state \<Rightarrow> int \<times> co_state" where
  "rt_completion_wait_resume t x = (case x of (c, k) \<Rightarrow>
    (t_error (threads k t), (c\<lparr>co_flag := RT_UNCOMPLETED\<rparr>, k)))"

definition rt_completion_done :: "co_state \<Rightarrow> co_state" where
  "rt_completion_done x = (case x of (c, k) \<Rightarrow>
    if co_flag c = RT_COMPLETED then (c, k)
    else let c1 = c\<lparr>co_flag := RT_COMPLETED\<rparr> in
      if lists k (Pending (co_id c)) \<noteq> [] then (c1, rt_schedule (rt_ipc_list_resume (Pending (co_id c)) k))
      else (c1, k))"

section \<open>Waiting for a completion\<close>

text \<open>The wait of a running thread on a completion that is not done.\<close>

lemma completion_blocks:
  assumes k: "kinv k" "running k t" "lists k (Pending (co_id c)) = []" and c: "co_flag c \<noteq> RT_COMPLETED"
    and time: "timeout \<noteq> 0"
  shows "\<exists>k'. rt_completion_wait timeout (c, k) = (Blocked t, (c, k')) \<and> kinv k' \<and> lists k' (Pending (co_id c)) = [t] \<and>
    stat_of k' t = RT_THREAD_SUSPEND \<and> t_error (threads k' t) = RT_EOK"
  using park_fifo [OF k(1,2), where l = "Pending (co_id c)" and time = timeout] k(2,3) c time
  by (simp add: rt_completion_wait_def rt_thread_self_def running_def)

text \<open>A completion that is done stays as it is, however often it is done.\<close>

lemma done_again: "co_flag c = RT_COMPLETED \<Longrightarrow> (rt_completion_done ^^ n) (c, k) = (c, k)"
  by (induction n) (simp_all add: rt_completion_done_def)

text \<open>
  A thread that waits for a completion is suspended; the first of any number of calls of
  \<^verbatim>\<open>rt_completion_done\<close> makes it ready, its wait returns success and takes the completion
  back, so that the next wait waits again.
\<close>

theorem completion_handshake:
  assumes k: "kinv k" "running k t" "lists k (Pending (co_id c)) = []" and c: "co_flag c \<noteq> RT_COMPLETED"
    and time: "timeout \<noteq> 0"
  shows "\<exists>k1 k2. rt_completion_wait timeout (c, k) = (Blocked t, (c, k1)) \<and> stat_of k1 t = RT_THREAD_SUSPEND \<and>
    (rt_completion_done ^^ Suc n) (c, k1) = (c\<lparr>co_flag := RT_COMPLETED\<rparr>, k2) \<and> stat_of k2 t = RT_THREAD_READY \<and>
    rt_completion_wait_resume t (c\<lparr>co_flag := RT_COMPLETED\<rparr>, k2) = (RT_EOK, (c\<lparr>co_flag := RT_UNCOMPLETED\<rparr>, k2)) \<and>
    fst (rt_completion_wait 0 (c\<lparr>co_flag := RT_UNCOMPLETED\<rparr>, k2)) = Return (- RT_ETIMEOUT)"
proof -
  let ?l = "Pending (co_id c)"
  obtain k1 where k1: "rt_completion_wait timeout (c, k) = (Blocked t, (c, k1))" "kinv k1" "lists k1 ?l = [t]"
    "stat_of k1 t = RT_THREAD_SUSPEND" "t_error (threads k1 t) = RT_EOK"
    using completion_blocks [OF assms] by blast
  let ?k2 = "rt_schedule (rt_ipc_list_resume ?l k1)"
  note r = ipc_resume_result [OF k1(2) _ k1(3)]
  have "rt_completion_done (c, k1) = (c\<lparr>co_flag := RT_COMPLETED\<rparr>, ?k2)"
    using c k1(3) by (simp add: rt_completion_done_def)
  then have d: "(rt_completion_done ^^ Suc n) (c, k1) = (c\<lparr>co_flag := RT_COMPLETED\<rparr>, ?k2)"
    using done_again [of "c\<lparr>co_flag := RT_COMPLETED\<rparr>" n ?k2] by (simp add: funpow_Suc_right del: funpow.simps)
  have "stat_of ?k2 t = RT_THREAD_READY" "t_error (threads ?k2 t) = RT_EOK"
    using r(3,6) k1(5) by (simp_all add: kframe stat_of_def)
  then show ?thesis using k1(1,4) d
    by (intro exI [of _ k1] exI [of _ ?k2]) (simp add: rt_completion_wait_resume_def rt_completion_wait_def)
qed

lemma completion_handshake_witness:
  "\<exists>k1 k2. rt_completion_wait 100 (rt_completion_init 0 two_ready) = (Blocked 1, (\<lparr>co_id = 0, co_flag = 0\<rparr>, k1)) \<and>
     rt_completion_done (rt_completion_done (\<lparr>co_id = 0, co_flag = 0\<rparr>, k1)) = (\<lparr>co_id = 0, co_flag = 1\<rparr>, k2) \<and>
     stat_of k2 1 = RT_THREAD_READY"
proof -
  let ?c = "\<lparr>co_id = 0, co_flag = 0\<rparr>"
  have "lists two_ready = (lists two_ready)(Pending 0 := [])" by (auto simp: two_ready_lists)
  then have i: "rt_completion_init 0 two_ready = (?c, two_ready)" by (simp add: rt_completion_init_def)
  have r: "running two_ready 1" by (simp add: running_def two_ready_simps)
  show ?thesis
    using completion_handshake [OF two_ready_kinv r, of ?c 100 1] unfolding i by (simp add: two_ready_lists) blast
qed

text \<open>What a time-out leaves behind: an empty list, a ready thread with the error.\<close>

lemma timeout_unqueues:
  assumes l: "lists k (Pending n) = [t]"
  shows "lists (rt_thread_timeout t k) (Pending n) = []" "t_error (threads (rt_thread_timeout t k) t) = - RT_ETIMEOUT"
  using l by (simp_all add: rt_thread_timeout_def kframe rt_schedule_insert_thread_def Let_def kstate_defs)

text \<open>
  A completion that is done after the time of the waiting thread is up, and before that thread
  runs again, is lost: the wait reports the time-out and clears the flag, and the next wait, too,
  finds the completion not done.
\<close>

theorem completion_lost_on_timeout:
  assumes k: "kinv k" "running k t" "lists k (Pending (co_id c)) = []" and c: "co_flag c \<noteq> RT_COMPLETED"
    and time: "0 < timeout"
  shows "\<exists>k1 x. rt_completion_wait timeout (c, k) = (Blocked t, (c, k1)) \<and>
    rt_completion_done (c, rt_thread_timeout t k1) = (c\<lparr>co_flag := RT_COMPLETED\<rparr>, rt_thread_timeout t k1) \<and>
    rt_completion_wait_resume t (c\<lparr>co_flag := RT_COMPLETED\<rparr>, rt_thread_timeout t k1) = (- RT_ETIMEOUT, x) \<and>
    rt_completion_wait 0 x = (Return (- RT_ETIMEOUT), x)"
proof -
  have "timeout \<noteq> 0" using time by simp
  from completion_blocks [OF k c this] obtain k1 where
    k1: "rt_completion_wait timeout (c, k) = (Blocked t, (c, k1))" "lists k1 (Pending (co_id c)) = [t]"
    by blast
  note o = timeout_unqueues [OF k1(2)]
  have d: "rt_completion_done (c, rt_thread_timeout t k1) = (c\<lparr>co_flag := RT_COMPLETED\<rparr>, rt_thread_timeout t k1)"
    using c o(1) by (simp add: rt_completion_done_def)
  show ?thesis
    using k1(1) d o(2) by (simp add: rt_completion_wait_resume_def rt_completion_wait_def)
qed

lemma completion_lost_on_timeout_witness:
  "\<exists>k1 x. rt_completion_wait 5 (\<lparr>co_id = 0, co_flag = 0\<rparr>, two_ready) = (Blocked 1, (\<lparr>co_id = 0, co_flag = 0\<rparr>, k1)) \<and>
     rt_completion_wait_resume 1 (rt_completion_done (\<lparr>co_id = 0, co_flag = 0\<rparr>, rt_thread_timeout 1 k1)) = (- RT_ETIMEOUT, x) \<and>
     rt_completion_wait 0 x = (Return (- RT_ETIMEOUT), x)"
proof -
  have r: "running two_ready 1" by (simp add: running_def two_ready_simps)
  obtain k1 x where
    "rt_completion_wait 5 (\<lparr>co_id = 0, co_flag = 0\<rparr>, two_ready) = (Blocked 1, (\<lparr>co_id = 0, co_flag = 0\<rparr>, k1))"
    "rt_completion_done (\<lparr>co_id = 0, co_flag = 0\<rparr>, rt_thread_timeout 1 k1) =
      (\<lparr>co_id = 0, co_flag = 0\<rparr>\<lparr>co_flag := RT_COMPLETED\<rparr>, rt_thread_timeout 1 k1)"
    "rt_completion_wait_resume 1 (\<lparr>co_id = 0, co_flag = 0\<rparr>\<lparr>co_flag := RT_COMPLETED\<rparr>, rt_thread_timeout 1 k1) = (- RT_ETIMEOUT, x)"
    "rt_completion_wait 0 x = (Return (- RT_ETIMEOUT), x)"
    using completion_lost_on_timeout [OF two_ready_kinv r, of "\<lparr>co_id = 0, co_flag = 0\<rparr>" 5] by (auto simp: two_ready_lists)
  then show ?thesis by (intro exI [of _ k1] exI [of _ x]) simp
qed

end
