(* ===== verification/DataQueue.thy ===== *)
theory DataQueue
  imports Mailbox
begin

text \<open>
  The data queue of \<^verbatim>\<open>components/drivers/src/dataqueue.c\<close>: a ring of pointers with
  their sizes, a list of threads that wait to pop and one of threads that wait to push
  (\<open>Pending\<close> and \<open>Senders\<close> of the queue). The indices are 16-bit words; their difference is
  computed in \<^verbatim>\<open>int\<close>, to which C promotes them. Calls of the event function are
  logged. \<open>Blocked\<close> carries the waiting thread and its time-out.
\<close>

section \<open>The code\<close>

abbreviation (input) RT_ENOMEM :: int where "RT_ENOMEM \<equiv> 5"

type_synonym data_item = "nat \<times> u32"

datatype dq_event = RT_DATAQUEUE_EVENT_POP | RT_DATAQUEUE_EVENT_PUSH | RT_DATAQUEUE_EVENT_LWM

record rt_data_queue =
  dq_id :: nat
  dq_size :: u16
  dq_lwm :: u16
  get_index :: u16
  put_index :: u16
  dq_queue :: "data_item list"
  evt_notify :: bool
  dq_events :: "dq_event list"

type_synonym dq_state = "rt_data_queue \<times> kernel"

text \<open>\<open>items\<close> is the memory \<^verbatim>\<open>rt_malloc\<close> returned, with what it holds.\<close>

definition rt_data_queue_init ::
  "nat \<Rightarrow> u16 \<Rightarrow> u16 \<Rightarrow> bool \<Rightarrow> data_item list option \<Rightarrow> kernel \<Rightarrow> int \<times> dq_state" where
  "rt_data_queue_init n sz lwm notify items k =
    (let q = \<lparr>dq_id = n, dq_size = sz, dq_lwm = lwm, get_index = 0, put_index = 0,
              dq_queue = (case items of None \<Rightarrow> [] | Some xs \<Rightarrow> xs), evt_notify = notify, dq_events = []\<rparr>;
         k1 = k\<lparr>lists := (lists k)(Senders n := [], Pending n := [])\<rparr>
     in (if items = None then - RT_ENOMEM else RT_EOK, (q, k1)))"

definition dq_fill :: "rt_data_queue \<Rightarrow> int" where
  "dq_fill q = uint (put_index q) - uint (get_index q)"

definition dq_slot :: "rt_data_queue \<Rightarrow> u16 \<Rightarrow> nat" where
  "dq_slot q i = unat (i mod dq_size q)"

definition dq_store :: "data_item \<Rightarrow> rt_data_queue \<Rightarrow> rt_data_queue" where
  "dq_store d q = q\<lparr>dq_queue := (dq_queue q)[dq_slot q (put_index q) := d], put_index := put_index q + 1\<rparr>"

definition dq_front :: "rt_data_queue \<Rightarrow> data_item" where
  "dq_front q = dq_queue q ! dq_slot q (get_index q)"

definition dq_drop :: "rt_data_queue \<Rightarrow> rt_data_queue" where
  "dq_drop q = q\<lparr>get_index := get_index q + 1\<rparr>"

definition dq_notify :: "dq_event \<Rightarrow> rt_data_queue \<Rightarrow> rt_data_queue" where
  "dq_notify ev q = (if evt_notify q then q\<lparr>dq_events := dq_events q @ [ev]\<rparr> else q)"

text \<open>From the test of the \<^verbatim>\<open>while\<close> on.\<close>

definition dq_push_loop :: "data_item \<Rightarrow> int \<Rightarrow> tid option \<Rightarrow> dq_state \<Rightarrow> (int, tid \<times> int) outcome \<times> dq_state" where
  "dq_push_loop d timeout thread x = (case x of (q, k) \<Rightarrow>
    if dq_fill q = uint (dq_size q)
    then if timeout = 0 then (Return (- RT_ETIMEOUT), (q, k))
      else (case thread of
          None \<Rightarrow> (Return (- RT_ETIMEOUT), (q, k\<lparr>fault := True\<rparr>))
        | Some t \<Rightarrow> (Blocked (t, timeout),
            (q, rt_schedule (suspend_and_arm (Senders (dq_id q)) t RT_IPC_FLAG_FIFO timeout (set_error t RT_EOK k)))))
    else let q1 = dq_store d q in
      if lists k (Pending (dq_id q)) \<noteq> []
      then (Return RT_EOK, (q1, rt_schedule (rt_ipc_list_resume (Pending (dq_id q)) k)))
      else (Return RT_EOK, (dq_notify RT_DATAQUEUE_EVENT_PUSH q1, k)))"

definition rt_data_queue_push :: "data_item \<Rightarrow> int \<Rightarrow> dq_state \<Rightarrow> (int, tid \<times> int) outcome \<times> dq_state" where
  "rt_data_queue_push d timeout x = dq_push_loop d timeout (rt_thread_self (snd x)) x"

definition rt_data_queue_push_resume :: "data_item \<Rightarrow> tid \<times> int \<Rightarrow> dq_state \<Rightarrow> (int, tid \<times> int) outcome \<times> dq_state" where
  "rt_data_queue_push_resume d w x = (case x of (q, k) \<Rightarrow>
    if t_error (threads k (fst w)) \<noteq> RT_EOK then (Return (t_error (threads k (fst w))), (q, k))
    else dq_push_loop d (snd w) (Some (fst w)) (q, k))"

definition dq_pop_loop :: "int \<Rightarrow> tid option \<Rightarrow> dq_state \<Rightarrow> (int \<times> data_item option, tid \<times> int) outcome \<times> dq_state" where
  "dq_pop_loop timeout thread x = (case x of (q, k) \<Rightarrow>
    if get_index q = put_index q
    then if timeout = 0 then (Return (- RT_ETIMEOUT, None), (q, k))
      else (case thread of
          None \<Rightarrow> (Return (- RT_ETIMEOUT, None), (q, k\<lparr>fault := True\<rparr>))
        | Some t \<Rightarrow> (Blocked (t, timeout),
            (q, rt_schedule (suspend_and_arm (Pending (dq_id q)) t RT_IPC_FLAG_FIFO timeout (set_error t RT_EOK k)))))
    else let q1 = dq_drop q in
      if dq_fill q1 \<le> uint (dq_lwm q)
      then (Return (RT_EOK, Some (dq_front q)), (dq_notify RT_DATAQUEUE_EVENT_LWM q1,
             if lists k (Senders (dq_id q)) \<noteq> [] then rt_schedule (rt_ipc_list_resume (Senders (dq_id q)) k) else k))
      else (Return (RT_EOK, Some (dq_front q)), (dq_notify RT_DATAQUEUE_EVENT_POP q1, k)))"

definition rt_data_queue_pop :: "int \<Rightarrow> dq_state \<Rightarrow> (int \<times> data_item option, tid \<times> int) outcome \<times> dq_state" where
  "rt_data_queue_pop timeout x = dq_pop_loop timeout (rt_thread_self (snd x)) x"

definition rt_data_queue_pop_resume :: "tid \<times> int \<Rightarrow> dq_state \<Rightarrow> (int \<times> data_item option, tid \<times> int) outcome \<times> dq_state" where
  "rt_data_queue_pop_resume w x = (case x of (q, k) \<Rightarrow>
    if t_error (threads k (fst w)) \<noteq> RT_EOK then (Return (t_error (threads k (fst w)), None), (q, k))
    else dq_pop_loop (snd w) (Some (fst w)) (q, k))"

definition rt_data_queue_peak :: "dq_state \<Rightarrow> int \<times> data_item option" where
  "rt_data_queue_peak x = (case x of (q, k) \<Rightarrow>
    if get_index q = put_index q then (- RT_EEMPTY, None) else (RT_EOK, Some (dq_front q)))"

definition rt_data_queue_reset :: "dq_state \<Rightarrow> dq_state option" where
  "rt_data_queue_reset x = (case x of (q, k) \<Rightarrow>
    map_option (\<lambda>k1. (q, rt_schedule (rt_exit_critical k1))) (resume_both (dq_id q) (rt_enter_critical k)))"

section \<open>The ring of items\<close>

definition dq_wf :: "rt_data_queue \<Rightarrow> bool" where
  "dq_wf q \<longleftrightarrow> 0 < dq_size q \<and> length (dq_queue q) = unat (dq_size q) \<and> get_index q \<le> put_index q \<and>
     unat (put_index q) - unat (get_index q) \<le> unat (dq_size q)"

definition dq_items :: "rt_data_queue \<Rightarrow> data_item list" where
  "dq_items q = map (\<lambda>i. dq_queue q ! (i mod unat (dq_size q))) [unat (get_index q)..<unat (put_index q)]"

lemma dq_notify_simps [simp]: "dq_id (dq_notify ev q) = dq_id q" "dq_size (dq_notify ev q) = dq_size q"
  "dq_lwm (dq_notify ev q) = dq_lwm q" "get_index (dq_notify ev q) = get_index q"
  "put_index (dq_notify ev q) = put_index q" "dq_queue (dq_notify ev q) = dq_queue q"
  "dq_wf (dq_notify ev q) = dq_wf q" "dq_items (dq_notify ev q) = dq_items q"
  by (simp_all add: dq_notify_def dq_wf_def dq_items_def)

lemma dq_store_simps [simp]: "dq_id (dq_store d q) = dq_id q" "dq_size (dq_store d q) = dq_size q"
  "put_index (dq_store d q) = put_index q + 1" "get_index (dq_store d q) = get_index q"
  by (simp_all add: dq_store_def)

lemma dq_drop_simps [simp]: "dq_id (dq_drop q) = dq_id q" "dq_size (dq_drop q) = dq_size q"
  "put_index (dq_drop q) = put_index q" "get_index (dq_drop q) = get_index q + 1"
  by (simp_all add: dq_drop_def)

lemma dq_slot_unat: "dq_slot q i = unat i mod unat (dq_size q)"
  by (simp add: dq_slot_def unat_mod_distrib)

lemma unat_u16: "unat (i :: u16) < 65536"
  by (rule order_less_le_trans [OF unsigned_less]) simp

lemma unat_step: "unat i \<noteq> 65535 \<Longrightarrow> unat (i + 1) = Suc (unat i)" for i :: u16
  using unat_u16 [of i] by (simp add: unat_word_ariths)

lemma dq_fill_unat: "dq_fill q = int (unat (put_index q)) - int (unat (get_index q))"
  by (simp only: dq_fill_def uint_nat)

lemma dq_fill_length: "dq_wf q \<Longrightarrow> dq_fill q = int (length (dq_items q))"
  unfolding dq_fill_unat by (simp only: dq_wf_def dq_items_def word_le_nat_alt length_map length_upt of_nat_diff)

lemma dq_full_iff: "dq_wf q \<Longrightarrow> dq_fill q = uint (dq_size q) \<longleftrightarrow> length (dq_items q) = unat (dq_size q)"
  by (simp only: dq_fill_length uint_nat of_nat_eq_iff)

lemma dq_items_bound: "dq_wf q \<Longrightarrow> length (dq_items q) \<le> unat (dq_size q)"
  by (simp add: dq_wf_def dq_items_def)

lemma dq_empty_iff: "dq_wf q \<Longrightarrow> get_index q = put_index q \<longleftrightarrow> dq_items q = []"
  by (auto simp: dq_wf_def dq_items_def word_le_nat_alt word_unat_eq_iff)

text \<open>Indices closer than the size of the ring have different slots.\<close>

lemma slots_differ: "i < p \<Longrightarrow> p < i + n \<Longrightarrow> p mod n \<noteq> i mod (n :: nat)"
proof
  assume ip: "i < p" "p < i + n" and e: "p mod n = i mod n"
  then have "n dvd p - i" by (metis less_imp_le mod_eq_dvd_iff_nat)
  then show False using ip by (auto dest: dvd_imp_le)
qed

lemma dq_store_wf:
  assumes wf: "dq_wf q" and room: "length (dq_items q) < unat (dq_size q)" and p: "unat (put_index q) \<noteq> 65535"
  shows "dq_wf (dq_store d q)" "dq_items (dq_store d q) = dq_items q @ [d]"
proof -
  let ?n = "unat (dq_size q)" and ?g = "unat (get_index q)" and ?p = "unat (put_index q)"
  have gp: "?g \<le> ?p" and l: "length (dq_queue q) = ?n" and n: "0 < ?n"
    using wf by (auto simp: dq_wf_def word_le_nat_alt unat_gt_0 word_gt_0)
  have r: "?p < ?g + ?n" using room gp by (simp add: dq_items_def)
  show "dq_wf (dq_store d q)"
    using wf gp r unat_step [OF p] by (auto simp: dq_wf_def dq_store_def word_le_nat_alt)
  have "(dq_queue q)[?p mod ?n := d] ! (i mod ?n) = dq_queue q ! (i mod ?n)" if "i < ?p" "?g \<le> i" for i
    using slots_differ [of i ?p ?n] that r by simp
  then show "dq_items (dq_store d q) = dq_items q @ [d]"
    using gp l n by (simp add: dq_items_def dq_store_def dq_slot_unat unat_step [OF p])
qed

lemma dq_drop_wf:
  assumes wf: "dq_wf q" and some: "dq_items q = d # ds"
  shows "dq_wf (dq_drop q)" "dq_items (dq_drop q) = ds" "dq_front q = d"
proof -
  let ?g = "unat (get_index q)" and ?p = "unat (put_index q)"
  have gp: "?g < ?p" using some by (cases "?g < ?p") (auto simp: dq_items_def)
  have "unat (get_index q) \<noteq> 65535" using gp unat_u16 [of "put_index q"] by simp
  note s = unat_step [OF this]
  have e: "dq_items q = dq_queue q ! (?g mod unat (dq_size q)) # map (\<lambda>i. dq_queue q ! (i mod unat (dq_size q))) [Suc ?g..<?p]"
    unfolding dq_items_def by (simp add: upt_conv_Cons gp)
  show "dq_items (dq_drop q) = ds" "dq_front q = d"
    using e some s by (simp_all add: dq_items_def dq_drop_def dq_front_def dq_slot_unat)
  show "dq_wf (dq_drop q)" using wf gp s by (auto simp: dq_wf_def dq_drop_def word_le_nat_alt)
qed

section \<open>A data queue is a bounded queue until its index wraps\<close>

definition dq_put1 :: "data_item \<Rightarrow> dq_state \<Rightarrow> dq_state option" where
  "dq_put1 d x = (case rt_data_queue_push d 0 x of (Return e, y) \<Rightarrow> if e = RT_EOK then Some y else None | _ \<Rightarrow> None)"

definition dq_get1 :: "dq_state \<Rightarrow> (data_item \<times> dq_state) option" where
  "dq_get1 x = (case rt_data_queue_pop 0 x of (Return (e, Some d), y) \<Rightarrow> if e = RT_EOK then Some (d, y) else None | _ \<Rightarrow> None)"

lemma dq_put1_full: "dq_fill q = uint (dq_size q) \<Longrightarrow> dq_put1 d (q, k) = None"
  by (simp add: dq_put1_def rt_data_queue_push_def dq_push_loop_def)

lemma dq_put1_room:
  assumes "dq_fill q \<noteq> uint (dq_size q)"
  shows "\<exists>ev k'. dq_put1 d (q, k) = Some (ev (dq_store d q), k') \<and> (ev = (\<lambda>q. q) \<or> ev = dq_notify RT_DATAQUEUE_EVENT_PUSH)"
proof (cases "lists k (Pending (dq_id q)) = []")
  case True
  then show ?thesis using assms
    by (intro exI [of _ "dq_notify RT_DATAQUEUE_EVENT_PUSH"]) (simp add: dq_put1_def rt_data_queue_push_def dq_push_loop_def)
next
  case False
  then show ?thesis using assms
    by (intro exI [of _ "\<lambda>q. q"]) (simp add: dq_put1_def rt_data_queue_push_def dq_push_loop_def)
qed

lemma dq_get1_empty: "get_index q = put_index q \<Longrightarrow> dq_get1 (q, k) = None"
  by (simp add: dq_get1_def rt_data_queue_pop_def dq_pop_loop_def)

lemma dq_get1_some:
  assumes "get_index q \<noteq> put_index q"
  shows "\<exists>ev k'. dq_get1 (q, k) = Some (dq_front q, dq_notify ev (dq_drop q), k')"
  using assms by (cases "dq_fill (dq_drop q) \<le> uint (dq_lwm q)")
    (auto simp: dq_get1_def rt_data_queue_pop_def dq_pop_loop_def Let_def)

text \<open>One step on the abstract queue, while the put index is short of its end.\<close>

lemma dq_put1_refines:
  assumes wf: "dq_wf q" and p: "unat (put_index q) < 65535"
  shows "case dq_put1 d (q, k) of
      None \<Rightarrow> spec_put (unat (dq_size q)) d (dq_items q) = None
    | Some (q', k') \<Rightarrow> dq_wf q' \<and> spec_put (unat (dq_size q)) d (dq_items q) = Some (dq_items q') \<and>
        dq_size q' = dq_size q \<and> unat (put_index q') = Suc (unat (put_index q))"
proof (cases "dq_fill q = uint (dq_size q)")
  case True
  then show ?thesis using dq_full_iff [OF wf] by (simp add: dq_put1_full)
next
  case False
  then have r: "length (dq_items q) < unat (dq_size q)" using dq_full_iff [OF wf] dq_items_bound [OF wf] by simp
  have p': "unat (put_index q) \<noteq> 65535" using p by simp
  show ?thesis
    using dq_put1_room [OF False, of d k] dq_store_wf [OF wf r p', of d] unat_step [OF p'] r
    by (auto simp: spec_put_def)
qed

lemma dq_get1_refines:
  assumes wf: "dq_wf q"
  shows "case dq_get1 (q, k) of
      None \<Rightarrow> spec_get (dq_items q) = None
    | Some (d, q', k') \<Rightarrow> dq_wf q' \<and> spec_get (dq_items q) = Some (d, dq_items q') \<and>
        dq_size q' = dq_size q \<and> put_index q' = put_index q"
proof (cases "dq_items q")
  case Nil
  then show ?thesis using dq_empty_iff [OF wf] by (simp add: dq_get1_empty)
next
  case (Cons d ds)
  then have "get_index q \<noteq> put_index q" using dq_empty_iff [OF wf] by simp
  then show ?thesis using dq_get1_some [of q k] dq_drop_wf [OF wf Cons] Cons by auto
qed

lemma dq_run_refines:
  "dq_wf q \<Longrightarrow> fifo_run dq_put1 dq_get1 ops (q, k) = (rs, (q', k')) \<Longrightarrow>
   unat (put_index q) + length (accepted ops rs) \<le> 65535 \<Longrightarrow>
   fifo_run (spec_put (unat (dq_size q))) spec_get ops (dq_items q) = (rs, dq_items q')"
proof (induction ops arbitrary: q k rs)
  case (Cons a ops)
  show ?case
  proof (cases a)
    case (Put d)
    show ?thesis
    proof (cases "unat (put_index q) < 65535")
      case True
      note r = dq_put1_refines [OF Cons.prems(1) True, of d k]
      show ?thesis
        using r Cons.prems Cons.IH Put by (cases "dq_put1 d (q, k)") (fastforce split: prod.splits)+
    next
      case False
      then have "length (accepted (a # ops) rs) = 0" using Cons.prems(3) by linarith
      then have "dq_put1 d (q, k) = None"
        using Cons.prems(2) Put by (cases "dq_put1 d (q, k)") (auto split: prod.splits)
      moreover from this have "dq_fill q = uint (dq_size q)" using dq_put1_room [of q d k] by auto
      ultimately show ?thesis
        using Cons.prems Cons.IH [OF Cons.prems(1)] Put dq_full_iff [OF Cons.prems(1)] by (auto split: prod.splits)
    qed
  next
    case Get
    note r = dq_get1_refines [OF Cons.prems(1), of k]
    show ?thesis
      using r Cons.prems Cons.IH Get by (cases "dq_get1 (q, k)") (fastforce split: prod.splits)+
  qed
qed simp

text \<open>
  C32: from initialisation on, and as long as at most 65535 items have been accepted, any sequence of
  pushes and pops that do not wait answers as the bounded first-in first-out queue does.
\<close>

theorem dq_history_fifo:
  assumes "0 < sz" "length pool = unat sz"
    and "fifo_run dq_put1 dq_get1 ops (snd (rt_data_queue_init n sz lwm notify (Some pool) k)) = (rs, (q, k'))"
    and "length (accepted ops rs) \<le> 65535"
  shows "fifo_run (spec_put (unat sz)) spec_get ops [] = (rs, dq_items q)"
proof -
  obtain q0 k0 where s: "snd (rt_data_queue_init n sz lwm notify (Some pool) k) = (q0, k0)"
    and q0: "dq_wf q0" "dq_items q0 = []" "dq_size q0 = sz" "put_index q0 = 0"
    using assms(1,2) by (simp add: rt_data_queue_init_def dq_wf_def dq_items_def)
  show ?thesis
    using dq_run_refines [OF q0(1) assms(3) [unfolded s]] q0 assms(4) by simp
qed

lemma dq_history_fifo_witness:
  "\<exists>rs q k'. fifo_run dq_put1 dq_get1 [Put (1, 4), Put (2, 4), Put (3, 4), Get, Get, Get]
      (snd (rt_data_queue_init 0 2 1 True (Some [(0, 0), (0, 0)]) two_ready)) = (rs, (q, k')) \<and>
    rs = [Accepted, Accepted, Rejected, Got (1, 4), Got (2, 4), Nothing] \<and> dq_items q = []"
proof -
  let ?ops = "[Put (1, 4), Put (2, 4), Put (3, 4), Get, Get, Get]"
  obtain rs q k' where r: "fifo_run dq_put1 dq_get1 ?ops
      (snd (rt_data_queue_init 0 2 1 True (Some [(0, 0), (0, 0)]) two_ready)) = (rs, (q, k'))"
    by (metis prod_cases3)
  have "length (accepted ops rs) \<le> length ops" for ops :: "data_item fifo_op list" and rs
    by (induction ops rs rule: accepted.induct) auto
  from this [of ?ops rs] have "length (accepted ?ops rs) \<le> 65535" by simp
  then have "fifo_run (spec_put (unat (2 :: u16))) spec_get ?ops [] = (rs, dq_items q)"
    using dq_history_fifo [OF _ _ r] by simp
  then show ?thesis using r by (auto simp: spec_put_def)
qed

section \<open>Behind the wrap of the put index\<close>

lemma fifo_run_append:
  "fifo_run put get (a @ b) s =
    (let (r1, s1) = fifo_run put get a s; (r2, s2) = fifo_run put get b s1 in (r1 @ r2, s2))"
proof (induction a arbitrary: s)
  case (Cons x a)
  then show ?case by (cases x) (auto split: option.splits prod.splits)
qed simp

text \<open>A push and a pop leave an empty queue, one index further.\<close>

lemma dq_round:
  assumes wf: "dq_wf q" "dq_items q = []" and p: "unat (put_index q) < 65535"
  shows "\<exists>q' k'. fifo_run dq_put1 dq_get1 [Put d, Get] (q, k) = ([Accepted, Got d], (q', k')) \<and>
    dq_wf q' \<and> dq_items q' = [] \<and> dq_size q' = dq_size q \<and> unat (put_index q') = Suc (unat (put_index q))"
proof -
  have n: "0 < unat (dq_size q)" using wf(1) by (simp add: dq_wf_def unat_gt_0 word_gt_0)
  then obtain q1 k1 where q1: "dq_put1 d (q, k) = Some (q1, k1)" "dq_wf q1" "dq_items q1 = [d]"
    "dq_size q1 = dq_size q" "unat (put_index q1) = Suc (unat (put_index q))"
    using dq_put1_refines [OF wf(1) p, of d k] wf(2) by (auto split: option.splits)
  obtain q2 k2 where q2: "dq_get1 (q1, k1) = Some (d, q2, k2)" "dq_wf q2" "dq_items q2 = []"
    "dq_size q2 = dq_size q1" "put_index q2 = put_index q1"
    using dq_get1_refines [OF q1(2), of k1] q1(3) by (auto split: option.splits)
  show ?thesis using q1 q2 by auto
qed

lemma dq_rounds:
  "dq_wf q \<Longrightarrow> dq_items q = [] \<Longrightarrow> unat (put_index q) + r \<le> 65535 \<Longrightarrow>
   \<exists>rs q' k'. fifo_run dq_put1 dq_get1 (concat (replicate r [Put d, Get])) (q, k) = (rs, (q', k')) \<and> length rs = 2 * r \<and>
     dq_wf q' \<and> dq_items q' = [] \<and> dq_size q' = dq_size q \<and> unat (put_index q') = unat (put_index q) + r"
proof (induction r arbitrary: q k)
  case (Suc r)
  obtain q1 k1 where q1: "fifo_run dq_put1 dq_get1 [Put d, Get] (q, k) = ([Accepted, Got d], (q1, k1))"
    "dq_wf q1" "dq_items q1 = []" "dq_size q1 = dq_size q" "unat (put_index q1) = Suc (unat (put_index q))"
    using dq_round [OF Suc.prems(1,2), of d k] Suc.prems(3) by auto
  obtain rs q2 k2 where q2: "fifo_run dq_put1 dq_get1 (concat (replicate r [Put d, Get])) (q1, k1) = (rs, (q2, k2))"
    "length rs = 2 * r" "dq_wf q2" "dq_items q2 = []" "dq_size q2 = dq_size q1"
    "unat (put_index q2) = unat (put_index q1) + r"
    using Suc.IH [OF q1(2,3), of k1] q1(5) Suc.prems(3) by auto
  have "concat (replicate (Suc r) [Put d, Get]) = [Put d, Get] @ concat (replicate r [Put d, Get])" by simp
  then show ?case
    using q1(1,4,5) q2 by (intro exI [of _ "[Accepted, Got d] @ rs"] exI [of _ q2] exI [of _ k2]) (simp only: fifo_run_append, simp)
qed auto

text \<open>Once the put index has wrapped and the get index has not, nothing is ever full.\<close>

lemma dq_wrapped_not_full: "unat (get_index q) = 65535 \<Longrightarrow> unat (put_index q) < 65535 \<Longrightarrow> dq_fill q \<noteq> uint (dq_size q)"
proof -
  assume a: "unat (get_index q) = 65535" "unat (put_index q) < 65535"
  have "0 \<le> uint (dq_size q)" by simp
  then show ?thesis using a unfolding dq_fill_unat by linarith
qed

lemma dq_overfill:
  "unat (get_index q) = 65535 \<Longrightarrow> unat (put_index q) + length ds \<le> n \<Longrightarrow> n < 65535 \<Longrightarrow>
   unat (dq_size q) = n \<Longrightarrow> length (dq_queue q) = n \<Longrightarrow>
   \<exists>q' k'. fifo_run dq_put1 dq_get1 (map Put ds) (q, k) = (replicate (length ds) Accepted, (q', k')) \<and>
     get_index q' = get_index q \<and> unat (put_index q') = unat (put_index q) + length ds \<and> dq_size q' = dq_size q \<and>
     dq_queue q' = memcpy_at (dq_queue q) (unat (put_index q)) ds (length ds)"
proof (induction ds arbitrary: q k)
  case (Cons d ds)
  let ?p = "unat (put_index q)"
  have p: "?p < n" "?p \<noteq> 65535" using Cons.prems(2,3) by auto
  obtain q1 k1 where q1: "dq_put1 d (q, k) = Some (q1, k1)" "get_index q1 = get_index q"
    "unat (put_index q1) = Suc ?p" "dq_size q1 = dq_size q" "dq_queue q1 = (dq_queue q)[?p := d]"
    using dq_put1_room [OF dq_wrapped_not_full, of q d k] Cons.prems p unat_step [OF p(2)]
    by (auto simp: dq_store_def dq_slot_unat)
  obtain q' k' where q': "fifo_run dq_put1 dq_get1 (map Put ds) (q1, k1) = (replicate (length ds) Accepted, (q', k'))"
    "get_index q' = get_index q1" "unat (put_index q') = unat (put_index q1) + length ds" "dq_size q' = dq_size q1"
    "dq_queue q' = memcpy_at (dq_queue q1) (unat (put_index q1)) ds (length ds)"
    using Cons.IH [of q1 k1] Cons.prems q1 by auto
  have "memcpy_at ((dq_queue q)[?p := d]) (Suc ?p) ds (length ds) = memcpy_at (dq_queue q) ?p (d # ds) (Suc (length ds))"
    using p Cons.prems(5) by (simp add: memcpy_at_def upd_conv_take_nth_drop min_def ac_simps)
  then show ?case using q1 q' by auto
qed auto

text \<open>
  After 65535 items have gone through a data queue, it no longer notices that it is full: one push
  more than it has room for is accepted, and the next pop returns a later item than the oldest.
\<close>

theorem dq_wrap_overfills:
  assumes "0 < sz" "sz < 0xffff" "length pool = unat sz" "length ds = Suc (unat sz)"
  shows "\<exists>rs x. fifo_run dq_put1 dq_get1 (concat (replicate 65535 [Put d, Get]) @ map Put ds @ [Get])
      (snd (rt_data_queue_init n sz lwm notify (Some pool) k)) =
      (rs @ replicate (Suc (unat sz)) Accepted @ [Got (ds ! Suc (65535 mod unat sz))], x)"
proof -
  let ?n = "unat sz"
  have n: "0 < ?n" "?n < 65535" using assms(1,2) by (simp_all add: word_less_nat_alt)
  obtain q0 k0 where s: "snd (rt_data_queue_init n sz lwm notify (Some pool) k) = (q0, k0)"
    and q0: "dq_wf q0" "dq_items q0 = []" "dq_size q0 = sz" "unat (put_index q0) = 0"
    using assms(1,3) by (simp add: rt_data_queue_init_def dq_wf_def dq_items_def)
  obtain rs q1 k1 where r: "fifo_run dq_put1 dq_get1 (concat (replicate 65535 [Put d, Get])) (q0, k0) = (rs, (q1, k1))"
    and q1: "dq_wf q1" "dq_items q1 = []" "dq_size q1 = sz" "unat (put_index q1) = 65535"
    using dq_rounds [OF q0(1,2), of 65535 d k0] q0(3,4) by auto
  have g1: "get_index q1 = put_index q1" using dq_empty_iff [OF q1(1)] q1(2) by simp
  obtain e es where ds: "ds = e # es" "length es = ?n" using assms(4) by (cases ds) auto
  have "dq_fill q1 \<noteq> uint (dq_size q1)" using dq_full_iff [OF q1(1)] q1(2,3) n(1) by auto
  from dq_put1_room [OF this, of e k1] obtain q2 k2 where q2: "dq_put1 e (q1, k1) = Some (q2, k2)"
    "get_index q2 = get_index q1" "put_index q2 = put_index q1 + 1" "dq_size q2 = sz" "length (dq_queue q2) = ?n"
    using q1(1,3) by (auto simp: dq_store_def dq_wf_def)
  have p2: "unat (put_index q2) = 0" using q1(4) by (simp add: q2(3) unat_word_ariths)
  obtain q3 k3 where q3: "fifo_run dq_put1 dq_get1 (map Put es) (q2, k2) = (replicate ?n Accepted, (q3, k3))"
    "get_index q3 = get_index q2" "unat (put_index q3) = ?n" "dq_size q3 = sz" "dq_queue q3 = memcpy_at (dq_queue q2) 0 es ?n"
    using dq_overfill [of q2 es ?n k2] p2 q2 g1 q1(4) n(2) ds(2) by auto
  have "dq_queue q3 = es" using q3(5) q2(5) ds(2) by (simp add: memcpy_at_def)
  then have f: "dq_front q3 = ds ! Suc (65535 mod ?n)"
    using q3(2,4) q2(2) g1 q1(4) by (simp add: dq_front_def dq_slot_unat ds)
  have "get_index q3 \<noteq> put_index q3" using q3(2,3) q2(2) g1 q1(4) n(2) by auto
  from dq_get1_some [OF this, of k3] obtain x where x: "dq_get1 (q3, k3) = Some (ds ! Suc (65535 mod ?n), x)"
    unfolding f by blast
  have "fifo_run dq_put1 dq_get1 (map Put ds @ [Get]) (q1, k1) =
      (replicate (Suc ?n) Accepted @ [Got (ds ! Suc (65535 mod ?n))], x)"
    using q2(1) q3(1) x by (simp add: ds(1) fifo_run_append)
  then show ?thesis
    unfolding s by (subst fifo_run_append) (auto simp: r Let_def)
qed

lemma dq_wrap_overfills_witness:
  "\<exists>rs x. fifo_run dq_put1 dq_get1 (concat (replicate 65535 [Put (9, 0), Get]) @
        map Put [(1, 0), (2, 0), (3, 0), (4, 0), (5, 0)] @ [Get])
      (snd (rt_data_queue_init 0 4 1 True (Some (replicate 4 (0, 0))) two_ready)) =
      (rs @ replicate (Suc (unat (4 :: u16))) Accepted @
        [Got ([(1, 0), (2, 0), (3, 0), (4, 0), (5, 0)] ! Suc (65535 mod unat (4 :: u16)))], x)"
  by (rule dq_wrap_overfills) simp_all

section \<open>Waiting\<close>

text \<open>
  A push to a full queue parks the caller. The pop that brings the queue down to its low-water mark
  makes the thread that waits longest ready; with nothing pushed in between its push then completes, and
  the item is behind those that were left.
\<close>

theorem dq_push_handed_over:
  assumes k: "kinv k" "running k t" "lists k (Senders (dq_id q)) = []"
    and q: "dq_wf q" "dq_items q = d # ds" "length (dq_items q) = unat (dq_size q)"
    and b: "length ds \<le> unat (dq_lwm q)" "unat (put_index q) < 65535" and time: "timeout \<noteq> 0"
  shows "\<exists>k1 q2 k2 q3 k3. rt_data_queue_push e timeout (q, k) = (Blocked (t, timeout), (q, k1)) \<and>
    stat_of k1 t = RT_THREAD_SUSPEND \<and>
    rt_data_queue_pop 0 (q, k1) = (Return (RT_EOK, Some d), (q2, k2)) \<and> stat_of k2 t = RT_THREAD_READY \<and>
    rt_data_queue_push_resume e (t, timeout) (q2, k2) = (Return RT_EOK, (q3, k3)) \<and> dq_items q3 = ds @ [e]"
proof -
  let ?s = "Senders (dq_id q)"
  define k1 where "k1 = rt_schedule (suspend_and_arm ?s t RT_IPC_FLAG_FIFO timeout (set_error t RT_EOK k))"
  define k2 where "k2 = rt_schedule (rt_ipc_list_resume ?s k1)"
  note p = park_fifo [OF k(1,2), where l = ?s and time = timeout, folded k1_def, simplified]
  have l: "lists k1 ?s = [t]" using p(2) k(3) by simp
  note r = ipc_resume_result [OF p(1) _ l]
  have push: "rt_data_queue_push e timeout (q, k) = (Blocked (t, timeout), (q, k1))"
    using dq_full_iff [OF q(1)] q(3) time k(2)
    by (simp add: rt_data_queue_push_def dq_push_loop_def k1_def rt_thread_self_def running_def)
  note dr = dq_drop_wf [OF q(1,2)]
  have ne: "get_index q \<noteq> put_index q" using dq_empty_iff [OF q(1)] q(2) by simp
  have le: "dq_fill (dq_drop q) \<le> uint (dq_lwm q)"
    using b(1) unfolding dq_fill_length [OF dr(1)] dr(2) uint_nat by (simp only: of_nat_le_iff)
  let ?q2 = "dq_notify RT_DATAQUEUE_EVENT_LWM (dq_drop q)"
  have pop: "rt_data_queue_pop 0 (q, k1) = (Return (RT_EOK, Some d), (?q2, k2))"
    using ne le l dr(3) by (simp add: rt_data_queue_pop_def dq_pop_loop_def Let_def k2_def)
  have err: "t_error (threads k2 t) = RT_EOK" "stat_of k2 t = RT_THREAD_READY"
    using r(3,6) p(4) by (simp_all add: k2_def kframe stat_of_def)
  have room: "length (dq_items ?q2) < unat (dq_size ?q2)" using q(2,3) dr(2) by simp
  have nf: "dq_fill ?q2 \<noteq> uint (dq_size ?q2)" using dq_full_iff [of ?q2] dr(1) room by auto
  have "unat (put_index ?q2) \<noteq> 65535" using b(2) by simp
  note st = dq_store_wf [OF _ room this, of e]
  have "\<exists>q3 k3. rt_data_queue_push_resume e (t, timeout) (?q2, k2) = (Return RT_EOK, (q3, k3)) \<and> dq_items q3 = ds @ [e]"
    using nf err st dr(1,2) by (simp add: rt_data_queue_push_resume_def dq_push_loop_def Let_def)
  then show ?thesis using push pop err(2) p(3) by blast
qed

lemma dq_push_handed_over_witness:
  "let q = \<lparr>dq_id = 0, dq_size = 1, dq_lwm = 0, get_index = 0, put_index = 1, dq_queue = [(7, 4)], evt_notify = False, dq_events = []\<rparr>
   in \<exists>k1 q2 k2 q3 k3. rt_data_queue_push (8, 4) 10 (q, two_ready) = (Blocked (1, 10), (q, k1)) \<and>
     rt_data_queue_pop 0 (q, k1) = (Return (RT_EOK, Some (7, 4)), (q2, k2)) \<and>
     rt_data_queue_push_resume (8, 4) (1, 10) (q2, k2) = (Return RT_EOK, (q3, k3)) \<and> dq_items q3 = [(8, 4)]"
proof -
  let ?q = "\<lparr>dq_id = 0, dq_size = 1, dq_lwm = 0, get_index = 0, put_index = 1, dq_queue = [(7, 4)], evt_notify = False, dq_events = []\<rparr>"
  have q: "dq_wf ?q" "dq_items ?q = [(7, 4)]" by (simp_all add: dq_wf_def dq_items_def)
  have r: "running two_ready 1" by (simp add: running_def two_ready_simps)
  show ?thesis
    using dq_push_handed_over [OF two_ready_kinv r _ q, of 10 "(8, 4)"] unfolding Let_def
    by (simp add: two_ready_lists q(2)) blast
qed

text \<open>
  A reset makes every thread that waits at the queue ready, with an error, and leaves the items in it.
\<close>

theorem dq_reset_wakes_all:
  assumes k: "kinv k"
  shows "\<exists>k'. rt_data_queue_reset (q, k) = Some (q, k') \<and>
    lists k' (Pending (dq_id q)) = [] \<and> lists k' (Senders (dq_id q)) = [] \<and>
    (\<forall>t\<in>set (lists k (Pending (dq_id q))) \<union> set (lists k (Senders (dq_id q))).
      stat_of k' t = RT_THREAD_READY \<and> t_error (threads k' t) = - RT_ERROR)"
proof -
  let ?p = "Pending (dq_id q)" and ?s = "Senders (dq_id q)"
  let ?k = "rt_enter_critical k"
  have k0: "kinv ?k" "lists ?k = lists k" using k by (simp_all add: rt_enter_critical_def)
  obtain k1 where k1: "rt_ipc_list_resume_all ?p ?k = Some k1" "kinv k1" "lists k1 ?p = []" "lists k1 ?s = lists k ?s"
    "\<forall>t. t \<in> set (lists k ?p) \<longrightarrow> stat_of k1 t = RT_THREAD_READY \<and> t_error (threads k1 t) = - RT_ERROR"
    using resume_all_result [OF k0(1), of ?p] k0(2) by auto
  obtain k2 where k2: "rt_ipc_list_resume_all ?s k1 = Some k2" "lists k2 ?s = []" "lists k2 ?p = lists k1 ?p"
    "\<forall>t. t \<in> set (lists k1 ?s) \<longrightarrow> stat_of k2 t = RT_THREAD_READY \<and> t_error (threads k2 t) = - RT_ERROR"
    "\<forall>t. t \<notin> set (lists k1 ?s) \<longrightarrow> stat_of k2 t = stat_of k1 t \<and> t_error (threads k2 t) = t_error (threads k1 t)"
    using resume_all_result [OF k1(2), of ?s] by auto
  have c: "lists (rt_exit_critical k2) = lists k2" "threads (rt_exit_critical k2) = threads k2"
    by (simp_all add: rt_exit_critical_def Let_def kframe)
  let ?k3 = "rt_schedule (rt_exit_critical k2)"
  have "rt_data_queue_reset (q, k) = Some (q, ?k3)"
    using k1(1) k2(1) by (simp add: rt_data_queue_reset_def resume_both_def)
  moreover have "stat_of ?k3 t = RT_THREAD_READY \<and> t_error (threads ?k3 t) = - RT_ERROR"
    if "t \<in> set (lists k ?p) \<union> set (lists k ?s)" for t
    using that k1(4,5) k2(4,5) by (cases "t \<in> set (lists k ?s)") (auto simp: c kframe stat_of_def)
  ultimately show ?thesis using k1(3) k2(2,3) by (simp add: c kframe)
qed

lemma dq_reset_wakes_all_witness:
  "let q = \<lparr>dq_id = 0, dq_size = 1, dq_lwm = 0, get_index = 0, put_index = 0, dq_queue = [(7, 4)], evt_notify = False, dq_events = []\<rparr>
   in \<exists>k'. rt_data_queue_reset (q, two_waiting) = Some (q, k') \<and> stat_of k' 2 = RT_THREAD_READY \<and> t_error (threads k' 3) = - RT_ERROR"
  using dq_reset_wakes_all [OF two_waiting_kinv,
      of "\<lparr>dq_id = 0, dq_size = 1, dq_lwm = 0, get_index = 0, put_index = 0, dq_queue = [(7, 4)], evt_notify = False, dq_events = []\<rparr>"]
  by (auto simp: two_waiting_lists Let_def)

end
