(* ===== verification/Serial.thy ===== *)
theory Serial
  imports Device SerialFifo Completion DataQueue
begin

unbundle bit_operations_syntax

text \<open>
  The serial driver, \<^verbatim>\<open>components/drivers/serial/serial.c\<close>, without its POSIX part
  (\<^verbatim>\<open>RT_USING_POSIX\<close> is unset). What the driver takes from the heap is kept with its
  address; a null pointer is \<open>None\<close>, and using one sets \<open>fault\<close> of the kernel. The operations of the hardware
  are a parameter. A thread that waits while it writes leaves the rest of its buffer in \<open>tx_wait\<close>.
\<close>

section \<open>Data\<close>

abbreviation (input) RT_DEVICE_FLAG_SUSPENDED :: u16 where "RT_DEVICE_FLAG_SUSPENDED \<equiv> 0x020"
abbreviation (input) RT_DEVICE_FLAG_STREAM :: u16 where "RT_DEVICE_FLAG_STREAM \<equiv> 0x040"
abbreviation (input) RT_DEVICE_FLAG_INT_RX :: u16 where "RT_DEVICE_FLAG_INT_RX \<equiv> 0x100"
abbreviation (input) RT_DEVICE_FLAG_DMA_RX :: u16 where "RT_DEVICE_FLAG_DMA_RX \<equiv> 0x200"
abbreviation (input) RT_DEVICE_FLAG_INT_TX :: u16 where "RT_DEVICE_FLAG_INT_TX \<equiv> 0x400"
abbreviation (input) RT_DEVICE_FLAG_DMA_TX :: u16 where "RT_DEVICE_FLAG_DMA_TX \<equiv> 0x800"
abbreviation (input) RT_DEVICE_CTRL_RESUME :: int where "RT_DEVICE_CTRL_RESUME \<equiv> 0x01"
abbreviation (input) RT_DEVICE_CTRL_SUSPEND :: int where "RT_DEVICE_CTRL_SUSPEND \<equiv> 0x02"
abbreviation (input) RT_DEVICE_CTRL_CONFIG :: int where "RT_DEVICE_CTRL_CONFIG \<equiv> 0x03"
abbreviation (input) RT_DEVICE_CTRL_SET_INT :: int where "RT_DEVICE_CTRL_SET_INT \<equiv> 0x10"
abbreviation (input) RT_DEVICE_CTRL_CLR_INT :: int where "RT_DEVICE_CTRL_CLR_INT \<equiv> 0x11"
abbreviation (input) RT_SERIAL_DMA_RX :: nat where "RT_SERIAL_DMA_RX \<equiv> 1"
abbreviation (input) RT_SERIAL_DMA_TX :: nat where "RT_SERIAL_DMA_TX \<equiv> 2"
abbreviation (input) RT_WAITING_FOREVER :: int where "RT_WAITING_FOREVER \<equiv> - 1"

text \<open>Sizes of the structures taken from the heap.\<close>

abbreviation (input) SIZEOF_RX_FIFO :: nat where "SIZEOF_RX_FIFO \<equiv> 12"
abbreviation (input) SIZEOF_RX_DMA :: nat where "SIZEOF_RX_DMA \<equiv> 4"
abbreviation (input) SIZEOF_TX_FIFO :: nat where "SIZEOF_TX_FIFO \<equiv> 12"
abbreviation (input) SIZEOF_TX_DMA :: nat where "SIZEOF_TX_DMA \<equiv> 40"
abbreviation (input) SIZEOF_DATA_ITEM :: nat where "SIZEOF_DATA_ITEM \<equiv> 8"

record serial_configure =
  baud_rate :: nat
  data_bits :: nat
  stop_bits :: nat
  parity :: nat
  bit_order :: nat
  invert :: nat
  bufsz :: nat

datatype serial_rx = RxFifo rx_fifo | RxDma bool
datatype serial_tx = TxFifo rt_completion | TxDma bool rt_data_queue

record rt_serial_device =
  config :: serial_configure
  serial_rx :: "(nat \<times> serial_rx) option"
  serial_tx :: "(nat \<times> serial_tx) option"

type_synonym 'h on_serial = "(rt_serial_device, 'h) on_device"

datatype control_arg = NoArg | NumArg u16 | ConfigArg serial_configure

record 'h uart_ops =
  op_configure :: "(serial_configure \<Rightarrow> 'h world \<Rightarrow> int \<times> 'h world) option"
  op_control :: "int \<Rightarrow> control_arg \<Rightarrow> 'h world \<Rightarrow> int \<times> 'h world"
  op_putc :: "u8 \<Rightarrow> 'h world \<Rightarrow> int \<times> 'h world"
  op_getc :: "'h world \<Rightarrow> int \<times> 'h world"
  op_dma_transmit :: "nat \<Rightarrow> nat \<Rightarrow> nat \<Rightarrow> 'h world \<Rightarrow> 'h world"

text \<open>Bytes sent so far, bytes left, and what the thread waits with.\<close>

datatype tx_wait = WaitInt tid nat "u8 list" | WaitDma "tid \<times> int" nat nat

definition set_fault :: "'h world \<Rightarrow> 'h world" where
  "set_fault w = w\<lparr>kern := (kern w)\<lparr>fault := True\<rparr>\<rparr>"

definition bufsz_of :: "'h on_serial \<Rightarrow> nat" where
  "bufsz_of x = bufsz (config (sub (fst x)))"

definition upd_serial :: "(rt_serial_device \<Rightarrow> rt_serial_device) \<Rightarrow> 'h on_serial \<Rightarrow> 'h on_serial" where
  "upd_serial f = upd_dev (\<lambda>d. d\<lparr>sub := f (sub d)\<rparr>)"

definition open_has :: "'h on_serial \<Rightarrow> u16 \<Rightarrow> bool" where
  "open_has x b = has_flag (d_open_flag (fst x)) b"

definition set_open :: "u16 \<Rightarrow> 'h on_serial \<Rightarrow> 'h on_serial" where
  "set_open b = upd_dev (\<lambda>d. d\<lparr>d_open_flag := d_open_flag d OR b\<rparr>)"

definition clear_open :: "u16 \<Rightarrow> 'h on_serial \<Rightarrow> 'h on_serial" where
  "clear_open b = upd_dev (\<lambda>d. d\<lparr>d_open_flag := d_open_flag d AND NOT b\<rparr>)"

section \<open>Polling\<close>

primrec serial_poll_rx :: "'h uart_ops \<Rightarrow> nat \<Rightarrow> 'h world \<Rightarrow> u8 list \<times> 'h world" where
  "serial_poll_rx ops 0 w = ([], w)"
| "serial_poll_rx ops (Suc len) w =
    (let (ch, w1) = op_getc ops w in
     if ch = -1 then ([], w1)
     else if ch = 10 then ([of_int ch], w1)
     else let (data, w2) = serial_poll_rx ops len w1 in (of_int ch # data, w2))"

primrec serial_poll_tx :: "'h uart_ops \<Rightarrow> bool \<Rightarrow> u8 list \<Rightarrow> 'h world \<Rightarrow> 'h world" where
  "serial_poll_tx ops stream [] w = w"
| "serial_poll_tx ops stream (c # cs) w =
    serial_poll_tx ops stream cs
      (snd (op_putc ops c (if c = 10 \<and> stream then snd (op_putc ops 13 w) else w)))"

section \<open>Interrupt and DMA transfers\<close>

definition serial_int_rx_dev :: "nat \<Rightarrow> 'h on_serial \<Rightarrow> (nat \<times> u8 list) \<times> 'h on_serial" where
  "serial_int_rx_dev n x =
    (case serial_rx (sub (fst x)) of
       Some (p, RxFifo f) \<Rightarrow>
         let (data, f1) = serial_int_rx (bufsz_of x) n f
         in ((length data, data), upd_serial (\<lambda>s. s\<lparr>serial_rx := Some (p, RxFifo f1)\<rparr>) x)
     | _ \<Rightarrow> ((0, []), (fst x, set_fault (snd x))))"

text \<open>The loop of \<^verbatim>\<open>_serial_int_tx\<close> ends early only in the fault of a wait without a thread.\<close>

function int_tx_loop ::
  "'h uart_ops \<Rightarrow> nat \<Rightarrow> u8 list \<Rightarrow> rt_completion \<Rightarrow> 'h world \<Rightarrow> (nat, tx_wait) outcome \<times> rt_completion \<times> 'h world" where
  "int_tx_loop ops sent [] c w = (Return sent, c, w)"
| "int_tx_loop ops sent (d # ds) c w =
    (let (r, w1) = op_putc ops d w in
     if r = -1
     then (case rt_completion_wait RT_WAITING_FOREVER (c, kern w1) of
         (Blocked t, (c1, k1)) \<Rightarrow> (Blocked (WaitInt t sent (d # ds)), c1, w1\<lparr>kern := k1\<rparr>)
       | (Return e, (c1, k1)) \<Rightarrow>
           if co_flag c = RT_COMPLETED then int_tx_loop ops sent (d # ds) (c\<lparr>co_flag := RT_UNCOMPLETED\<rparr>) w1
           else (Return sent, c1, w1\<lparr>kern := k1\<rparr>))
     else int_tx_loop ops (sent + 1) ds c w1)"
  by pat_completeness auto
termination
  by (relation "measures [\<lambda>(_, _, ds, _, _). length ds, \<lambda>(_, _, _, c, _). if co_flag c = RT_COMPLETED then 1 else 0]") auto

definition finish_int_tx ::
  "nat \<Rightarrow> (nat, tx_wait) outcome \<times> rt_completion \<times> 'h world \<Rightarrow> 'h on_serial \<Rightarrow> (nat, tx_wait) outcome \<times> 'h on_serial" where
  "finish_int_tx p res x =
    (case res of (out, c, w) \<Rightarrow>
      (out, upd_serial (\<lambda>s. s\<lparr>serial_tx := Some (p, TxFifo c)\<rparr>) (fst x, w)))"

definition serial_int_tx :: "'h uart_ops \<Rightarrow> u8 list \<Rightarrow> 'h on_serial \<Rightarrow> (nat, tx_wait) outcome \<times> 'h on_serial" where
  "serial_int_tx ops data x =
    (case serial_tx (sub (fst x)) of
       Some (p, TxFifo c) \<Rightarrow> finish_int_tx p (int_tx_loop ops 0 data c (snd x)) x
     | _ \<Rightarrow> (Return 0, (fst x, set_fault (snd x))))"

definition serial_dma_rx_dev :: "'h uart_ops \<Rightarrow> nat \<Rightarrow> nat \<Rightarrow> 'h on_serial \<Rightarrow> (nat \<times> u8 list) \<times> 'h on_serial" where
  "serial_dma_rx_dev ops buffer n x =
    (case serial_rx (sub (fst x)) of
       Some (p, RxDma activated) \<Rightarrow>
         if \<not> activated
         then ((n, []), (fst (upd_serial (\<lambda>s. s\<lparr>serial_rx := Some (p, RxDma True)\<rparr>) x),
                          op_dma_transmit ops buffer n RT_SERIAL_DMA_RX (snd x)))
         else ((0, []), (fst x, rt_set_errno (- RT_EBUSY) (snd x)))
     | Some (p, RxFifo f) \<Rightarrow>
         let (data, f1) = serial_dma_rx (bufsz_of x) n f
         in ((length data, data), upd_serial (\<lambda>s. s\<lparr>serial_rx := Some (p, RxFifo f1)\<rparr>) x)
     | None \<Rightarrow> ((0, []), (fst x, set_fault (snd x))))"

text \<open>What follows the push of \<^verbatim>\<open>_serial_dma_tx\<close>.\<close>

definition finish_dma_tx ::
  "'h uart_ops \<Rightarrow> nat \<Rightarrow> bool \<Rightarrow> nat \<Rightarrow> nat \<Rightarrow> (int, tid \<times> int) outcome \<times> dq_state \<Rightarrow> 'h on_serial \<Rightarrow>
   (nat, tx_wait) outcome \<times> 'h on_serial" where
  "finish_dma_tx ops p activated buffer len res x =
    (case res of (out, (q, k)) \<Rightarrow>
      let y = (\<lambda>a. upd_serial (\<lambda>s. s\<lparr>serial_tx := Some (p, TxDma a q)\<rparr>) (fst x, (snd x)\<lparr>kern := k\<rparr>)) in
      case out of
        Blocked w \<Rightarrow> (Blocked (WaitDma w buffer len), y activated)
      | Return result \<Rightarrow>
          if result = RT_EOK
          then if \<not> activated
               then (Return len, (fst (y True), op_dma_transmit ops buffer len RT_SERIAL_DMA_TX (snd (y True))))
               else (Return len, y activated)
          else (Return 0, (fst (y activated), rt_set_errno result (snd (y activated)))))"

definition serial_dma_tx ::
  "'h uart_ops \<Rightarrow> nat \<Rightarrow> nat \<Rightarrow> 'h on_serial \<Rightarrow> (nat, tx_wait) outcome \<times> 'h on_serial" where
  "serial_dma_tx ops buffer len x =
    (case serial_tx (sub (fst x)) of
       Some (p, TxDma activated q) \<Rightarrow>
         finish_dma_tx ops p activated buffer len (rt_data_queue_push (buffer, of_nat len) RT_WAITING_FOREVER (q, kern (snd x))) x
     | _ \<Rightarrow> (Return 0, (fst x, set_fault (snd x))))"

text \<open>The rest of a write when its thread runs again.\<close>

definition serial_write_resume :: "'h uart_ops \<Rightarrow> tx_wait \<Rightarrow> 'h on_serial \<Rightarrow> (nat, tx_wait) outcome \<times> 'h on_serial" where
  "serial_write_resume ops wt x =
    (case (wt, serial_tx (sub (fst x))) of
       (WaitInt t sent data, Some (p, TxFifo c)) \<Rightarrow>
         let (r, (c1, k1)) = rt_completion_wait_resume t (c, kern (snd x))
         in finish_int_tx p (int_tx_loop ops sent data c1 ((snd x)\<lparr>kern := k1\<rparr>)) x
     | (WaitDma w buffer len, Some (p, TxDma activated q)) \<Rightarrow>
         finish_dma_tx ops p activated buffer len (rt_data_queue_push_resume (buffer, of_nat len) w (q, kern (snd x))) x
     | _ \<Rightarrow> (Return 0, (fst x, set_fault (snd x))))"

section \<open>The driver's side of the device framework\<close>

definition take_mem :: "nat \<Rightarrow> 'h on_serial \<Rightarrow> (nat option \<times> 'h on_serial) option" where
  "take_mem n x = map_option (\<lambda>(p, h). (p, (fst x, (snd x)\<lparr>mem := h\<rparr>))) (rt_malloc n (mem (snd x)))"

definition give_back :: "nat option \<Rightarrow> 'h on_serial \<Rightarrow> 'h on_serial" where
  "give_back p x = (fst x, (snd x)\<lparr>mem := rt_free p (mem (snd x))\<rparr>)"

text \<open>The structure at the address taken; a null address is written to nevertheless.\<close>

definition install_rx :: "serial_rx \<Rightarrow> nat option \<times> 'h on_serial \<Rightarrow> 'h on_serial" where
  "install_rx r y =
    (case y of
       (None, x) \<Rightarrow> (fst x, set_fault (snd x))
     | (Some p, x) \<Rightarrow> upd_serial (\<lambda>s. s\<lparr>serial_rx := Some (p, r)\<rparr>) x)"

definition install_tx :: "(nat \<Rightarrow> serial_tx) \<Rightarrow> nat option \<times> 'h on_serial \<Rightarrow> 'h on_serial" where
  "install_tx r y =
    (case y of
       (None, x) \<Rightarrow> (fst x, set_fault (snd x))
     | (Some p, x) \<Rightarrow> upd_serial (\<lambda>s. s\<lparr>serial_tx := Some (p, r p)\<rparr>) x)"

definition hw_control :: "'h uart_ops \<Rightarrow> int \<Rightarrow> u16 \<Rightarrow> 'h on_serial \<Rightarrow> 'h on_serial" where
  "hw_control ops cmd b x = (fst x, snd (op_control ops cmd (NumArg b) (snd x)))"

definition rt_serial_init :: "'h uart_ops \<Rightarrow> 'h on_serial \<Rightarrow> int \<times> 'h on_serial" where
  "rt_serial_init ops x =
    (let y = upd_serial (\<lambda>s. s\<lparr>serial_rx := None, serial_tx := None\<rparr>) x in
     case op_configure ops of
       None \<Rightarrow> (RT_EOK, y)
     | Some configure \<Rightarrow> let (r, w) = configure (config (sub (fst y))) (snd y) in (r, (fst y, w)))"

definition open_rx :: "'h uart_ops \<Rightarrow> u16 \<Rightarrow> 'h on_serial \<Rightarrow> 'h on_serial option" where
  "open_rx ops oflag x =
    (if serial_rx (sub (fst x)) = None
     then if has_flag oflag RT_DEVICE_FLAG_DMA_RX
       then map_option (set_open RT_DEVICE_FLAG_DMA_RX)
         (if bufsz_of x = 0 then map_option (install_rx (RxDma False)) (take_mem SIZEOF_RX_DMA x)
          else map_option (\<lambda>y. hw_control ops RT_DEVICE_CTRL_CONFIG RT_DEVICE_FLAG_DMA_RX (install_rx (RxFifo (fifo_init (bufsz_of x))) y))
                 (take_mem (SIZEOF_RX_FIFO + bufsz_of x) x))
       else if has_flag oflag RT_DEVICE_FLAG_INT_RX
       then map_option
         (\<lambda>y. hw_control ops RT_DEVICE_CTRL_SET_INT RT_DEVICE_FLAG_INT_RX
            (set_open RT_DEVICE_FLAG_INT_RX (install_rx (RxFifo (fifo_init (bufsz_of x))) y)))
         (take_mem (SIZEOF_RX_FIFO + bufsz_of x) x)
       else Some x
     else if has_flag oflag RT_DEVICE_FLAG_DMA_RX then Some (set_open RT_DEVICE_FLAG_DMA_RX x)
     else if has_flag oflag RT_DEVICE_FLAG_INT_RX then Some (set_open RT_DEVICE_FLAG_INT_RX x)
     else Some x)"

text \<open>The data queue of DMA sending takes the memory for its eight items from the heap, too.\<close>

definition open_dma_tx :: "'h on_serial \<Rightarrow> 'h on_serial option" where
  "open_dma_tx x =
    Option.bind (take_mem SIZEOF_TX_DMA x)
      (\<lambda>(p, y). map_option
         (\<lambda>(items, z).
            let n = (case p of None \<Rightarrow> 0 | Some n \<Rightarrow> n);
                (r, (q, k)) = rt_data_queue_init n 8 4 False (map_option (\<lambda>_. replicate 8 (0, 0)) items) (kern (snd z))
            in install_tx (\<lambda>_. TxDma False q) (p, (fst z, (snd z)\<lparr>kern := k\<rparr>)))
         (take_mem (8 * SIZEOF_DATA_ITEM) y))"

definition open_int_tx :: "'h on_serial \<Rightarrow> 'h on_serial option" where
  "open_int_tx x =
    map_option
      (\<lambda>(p, y).
         let (c, k) = rt_completion_init (case p of None \<Rightarrow> 0 | Some n \<Rightarrow> n) (kern (snd y))
         in install_tx (\<lambda>_. TxFifo c) (p, (fst y, (snd y)\<lparr>kern := k\<rparr>)))
      (take_mem SIZEOF_TX_FIFO x)"

definition open_tx :: "'h uart_ops \<Rightarrow> u16 \<Rightarrow> 'h on_serial \<Rightarrow> 'h on_serial option" where
  "open_tx ops oflag x =
    (if serial_tx (sub (fst x)) = None
     then if has_flag oflag RT_DEVICE_FLAG_DMA_TX then map_option (set_open RT_DEVICE_FLAG_DMA_TX) (open_dma_tx x)
       else if has_flag oflag RT_DEVICE_FLAG_INT_TX
       then map_option
         (\<lambda>y. hw_control ops RT_DEVICE_CTRL_SET_INT RT_DEVICE_FLAG_INT_TX (set_open RT_DEVICE_FLAG_INT_TX y)) (open_int_tx x)
       else Some x
     else if has_flag oflag RT_DEVICE_FLAG_DMA_TX then Some (set_open RT_DEVICE_FLAG_DMA_TX x)
     else if has_flag oflag RT_DEVICE_FLAG_INT_TX then Some (set_open RT_DEVICE_FLAG_INT_TX x)
     else Some x)"

definition unsupported :: "u16 \<Rightarrow> 'h on_serial \<Rightarrow> bool" where
  "unsupported oflag x \<longleftrightarrow>
    (\<exists>b\<in>{RT_DEVICE_FLAG_DMA_RX, RT_DEVICE_FLAG_DMA_TX, RT_DEVICE_FLAG_INT_RX, RT_DEVICE_FLAG_INT_TX}.
       has_flag oflag b \<and> \<not> has_flag (d_flag (fst x)) b)"

definition rt_serial_open :: "'h uart_ops \<Rightarrow> u16 \<Rightarrow> 'h on_serial \<Rightarrow> (int \<times> 'h on_serial) option" where
  "rt_serial_open ops oflag x =
    (if unsupported oflag x then Some (- RT_EIO, x)
     else let stream_flag = (if has_flag oflag RT_DEVICE_FLAG_STREAM \<or> open_has x RT_DEVICE_FLAG_STREAM then RT_DEVICE_FLAG_STREAM else 0);
              x1 = upd_dev (\<lambda>d. d\<lparr>d_open_flag := oflag AND 0xff\<rparr>) x
          in map_option (\<lambda>y. (RT_EOK, set_open stream_flag y)) (Option.bind (open_rx ops oflag x1) (open_tx ops oflag)))"

definition drop_rx :: "'h on_serial \<Rightarrow> 'h on_serial" where
  "drop_rx x = upd_serial (\<lambda>s. s\<lparr>serial_rx := None\<rparr>) (give_back (map_option fst (serial_rx (sub (fst x)))) x)"

definition drop_tx :: "'h on_serial \<Rightarrow> 'h on_serial" where
  "drop_tx x = upd_serial (\<lambda>s. s\<lparr>serial_tx := None\<rparr>) (give_back (map_option fst (serial_tx (sub (fst x)))) x)"

definition close_rx :: "'h uart_ops \<Rightarrow> 'h on_serial \<Rightarrow> 'h on_serial" where
  "close_rx ops x =
    (if open_has x RT_DEVICE_FLAG_INT_RX
     then hw_control ops RT_DEVICE_CTRL_CLR_INT RT_DEVICE_FLAG_INT_RX (clear_open RT_DEVICE_FLAG_INT_RX (drop_rx x))
     else if open_has x RT_DEVICE_FLAG_DMA_RX
     then clear_open RT_DEVICE_FLAG_DMA_RX (hw_control ops RT_DEVICE_CTRL_CLR_INT RT_DEVICE_FLAG_DMA_RX (drop_rx x))
     else x)"

definition close_tx :: "'h uart_ops \<Rightarrow> 'h on_serial \<Rightarrow> 'h on_serial" where
  "close_tx ops x =
    (if open_has x RT_DEVICE_FLAG_INT_TX
     then hw_control ops RT_DEVICE_CTRL_CLR_INT RT_DEVICE_FLAG_INT_TX (clear_open RT_DEVICE_FLAG_INT_TX (drop_tx x))
     else if open_has x RT_DEVICE_FLAG_DMA_TX then clear_open RT_DEVICE_FLAG_DMA_TX (drop_tx x)
     else x)"

definition rt_serial_close :: "'h uart_ops \<Rightarrow> 'h on_serial \<Rightarrow> int \<times> 'h on_serial" where
  "rt_serial_close ops x =
    (if d_ref_count (fst x) > 1 then (RT_EOK, x) else (RT_EOK, close_tx ops (close_rx ops x)))"

definition rt_serial_read :: "'h uart_ops \<Rightarrow> nat \<Rightarrow> nat \<Rightarrow> nat \<Rightarrow> 'h on_serial \<Rightarrow> (nat \<times> u8 list) \<times> 'h on_serial" where
  "rt_serial_read ops pos buffer n x =
    (if n = 0 then ((0, []), x)
     else if open_has x RT_DEVICE_FLAG_INT_RX then serial_int_rx_dev n x
     else if open_has x RT_DEVICE_FLAG_DMA_RX then serial_dma_rx_dev ops buffer n x
     else let (data, w) = serial_poll_rx ops n (snd x) in ((length data, data), (fst x, w)))"

definition rt_serial_write :: "'h uart_ops \<Rightarrow> nat \<Rightarrow> nat \<Rightarrow> u8 list \<Rightarrow> 'h on_serial \<Rightarrow> (nat, tx_wait) outcome \<times> 'h on_serial" where
  "rt_serial_write ops pos buffer data x =
    (if data = [] then (Return 0, x)
     else if open_has x RT_DEVICE_FLAG_INT_TX then serial_int_tx ops data x
     else if open_has x RT_DEVICE_FLAG_DMA_TX then serial_dma_tx ops buffer (length data) x
     else (Return (length data), (fst x, serial_poll_tx ops (open_has x RT_DEVICE_FLAG_STREAM) data (snd x))))"

definition rt_serial_control :: "'h uart_ops \<Rightarrow> int \<Rightarrow> control_arg \<Rightarrow> 'h on_serial \<Rightarrow> int \<times> 'h on_serial" where
  "rt_serial_control ops cmd args x =
    (if cmd = RT_DEVICE_CTRL_SUSPEND then (RT_EOK, upd_dev (\<lambda>d. d\<lparr>d_flag := d_flag d OR RT_DEVICE_FLAG_SUSPENDED\<rparr>) x)
     else if cmd = RT_DEVICE_CTRL_RESUME then (RT_EOK, upd_dev (\<lambda>d. d\<lparr>d_flag := d_flag d AND NOT RT_DEVICE_FLAG_SUSPENDED\<rparr>) x)
     else if cmd = RT_DEVICE_CTRL_CONFIG
     then (case args of
         ConfigArg c \<Rightarrow>
           if bufsz c \<noteq> bufsz_of x \<and> d_ref_count (fst x) \<noteq> 0 then (RT_EBUSY, x)
           else let y = upd_serial (\<lambda>s. s\<lparr>config := c\<rparr>) x in
             if d_ref_count (fst y) \<noteq> 0
             then (case op_configure ops of
                 Some configure \<Rightarrow> (RT_EOK, (fst y, snd (configure c (snd y))))
               | None \<Rightarrow> (RT_EOK, (fst y, set_fault (snd y))))
             else (RT_EOK, y)
       | _ \<Rightarrow> (RT_EOK, x))
     else let (ret, w) = op_control ops cmd args (snd x) in (ret, (fst x, w)))"

section \<open>Registration and the interrupt\<close>

definition rt_hw_serial_register ::
  "nat \<Rightarrow> string \<Rightarrow> u16 \<Rightarrow> (nat \<Rightarrow> rt_serial_device rt_device) \<Rightarrow> nat object_store \<times> kernel \<Rightarrow>
   int \<times> (nat \<Rightarrow> rt_serial_device rt_device) \<times> nat object_store \<times> kernel" where
  "rt_hw_serial_register serial name flags devs x =
    rt_device_register serial name flags (devs(serial := (devs serial)\<lparr>rx_indicate := None, tx_complete := None\<rparr>)) x"

text \<open>The loop of the receive interrupt ends when \<^verbatim>\<open>getc\<close> has no byte left.\<close>

partial_function (option) isr_rx_loop :: "'h uart_ops \<Rightarrow> nat \<Rightarrow> rx_fifo \<Rightarrow> 'h world \<Rightarrow> (rx_fifo \<times> 'h world) option" where
  "isr_rx_loop ops n f w =
    (if fst (op_getc ops w) = -1 then Some (f, snd (op_getc ops w))
     else isr_rx_loop ops n (isr_store n (of_int (fst (op_getc ops w))) f) (snd (op_getc ops w)))"

text \<open>What the callbacks do is a parameter: \<open>ind\<close> gets the address and the number of bytes.\<close>

definition isr_rx_ind :: "'h uart_ops \<Rightarrow> (nat \<Rightarrow> nat \<Rightarrow> 'h on_serial \<Rightarrow> 'h on_serial) \<Rightarrow> 'h on_serial \<Rightarrow> 'h on_serial option" where
  "isr_rx_ind ops ind x =
    (case serial_rx (sub (fst x)) of
       Some (p, RxFifo f) \<Rightarrow>
         map_option
           (\<lambda>(f1, w).
              let y = upd_serial (\<lambda>s. s\<lparr>serial_rx := Some (p, RxFifo f1)\<rparr>) (fst x, w);
                  rx_length = isr_rx_length (bufsz_of x) f1
              in case rx_indicate (fst y) of
                   None \<Rightarrow> y
                 | Some cb \<Rightarrow> if rx_length \<noteq> 0 then ind cb rx_length y else y)
           (isr_rx_loop ops (bufsz_of x) f (snd x))
     | _ \<Rightarrow> Some (fst x, set_fault (snd x)))"

definition isr_tx_done :: "'h on_serial \<Rightarrow> 'h on_serial" where
  "isr_tx_done x =
    (case serial_tx (sub (fst x)) of
       Some (p, TxFifo c) \<Rightarrow>
         let (c1, k1) = rt_completion_done (c, kern (snd x))
         in upd_serial (\<lambda>s. s\<lparr>serial_tx := Some (p, TxFifo c1)\<rparr>) (fst x, (snd x)\<lparr>kern := k1\<rparr>)
     | _ \<Rightarrow> (fst x, set_fault (snd x)))"

text \<open>\<open>fin\<close> gets the buffer whose transfer is done, \<open>None\<close> where the variable was never set.\<close>

definition isr_tx_dmadone ::
  "'h uart_ops \<Rightarrow> (nat \<Rightarrow> nat option \<Rightarrow> 'h on_serial \<Rightarrow> 'h on_serial) \<Rightarrow> 'h on_serial \<Rightarrow> 'h on_serial" where
  "isr_tx_dmadone ops fin x =
    (case serial_tx (sub (fst x)) of
       Some (p, TxDma activated q) \<Rightarrow>
         let (out, (q1, k1)) = rt_data_queue_pop 0 (q, kern (snd x));
             last = (case out of Return (r, item) \<Rightarrow> map_option fst item | Blocked _ \<Rightarrow> None);
             w1 = (snd x)\<lparr>kern := k1\<rparr>;
             y = (case rt_data_queue_peak (q1, k1) of
                 (_, Some (ptr, n)) \<Rightarrow>
                   (fst (upd_serial (\<lambda>s. s\<lparr>serial_tx := Some (p, TxDma True q1)\<rparr>) (fst x, w1)),
                    op_dma_transmit ops ptr (unat n) RT_SERIAL_DMA_TX w1)
               | (_, None) \<Rightarrow> upd_serial (\<lambda>s. s\<lparr>serial_tx := Some (p, TxDma False q1)\<rparr>) (fst x, w1))
         in (case tx_complete (fst y) of None \<Rightarrow> y | Some cb \<Rightarrow> fin cb last y)
     | _ \<Rightarrow> (fst x, set_fault (snd x)))"

definition isr_rx_dmadone :: "(nat \<Rightarrow> nat \<Rightarrow> 'h on_serial \<Rightarrow> 'h on_serial) \<Rightarrow> nat \<Rightarrow> 'h on_serial \<Rightarrow> 'h on_serial" where
  "isr_rx_dmadone ind len x =
    (case serial_rx (sub (fst x)) of
       Some (p, RxDma activated) \<Rightarrow>
         (let y = (case rx_indicate (fst x) of None \<Rightarrow> (fst x, set_fault (snd x)) | Some cb \<Rightarrow> ind cb len x)
          in upd_serial (\<lambda>s. s\<lparr>serial_rx := Some (p, RxDma False)\<rparr>) y)
     | Some (p, RxFifo f) \<Rightarrow>
         (let f1 = rt_dma_recv_update_put_index (bufsz_of x) len f;
              y = upd_serial (\<lambda>s. s\<lparr>serial_rx := Some (p, RxFifo f1)\<rparr>) x
          in case rx_indicate (fst y) of
               None \<Rightarrow> y
             | Some cb \<Rightarrow> ind cb (serial_fifo_calc_recved_len (bufsz_of x) f1) y)
     | None \<Rightarrow> (fst x, set_fault (snd x)))"

definition rt_hw_serial_isr ::
  "'h uart_ops \<Rightarrow> (nat \<Rightarrow> nat \<Rightarrow> 'h on_serial \<Rightarrow> 'h on_serial) \<Rightarrow> (nat \<Rightarrow> nat option \<Rightarrow> 'h on_serial \<Rightarrow> 'h on_serial) \<Rightarrow>
   nat \<Rightarrow> 'h on_serial \<Rightarrow> 'h on_serial option" where
  "rt_hw_serial_isr ops ind fin event x =
    (if event mod 256 = 1 then isr_rx_ind ops ind x
     else if event mod 256 = 2 then Some (isr_tx_done x)
     else if event mod 256 = 4 then Some (isr_tx_dmadone ops fin x)
     else if event mod 256 = 3 then Some (isr_rx_dmadone ind (event div 256) x)
     else Some x)"

section \<open>The operations of a serial device\<close>

definition serial_ops :: "'h uart_ops \<Rightarrow> (rt_serial_device, 'h, control_arg, tx_wait) device_ops" where
  "serial_ops ops =
    \<lparr>device_init = Some (rt_serial_init ops), device_open = Some (rt_serial_open ops),
     device_close = Some (rt_serial_close ops), device_read = Some (rt_serial_read ops),
     device_write = Some (rt_serial_write ops), device_control = Some (rt_serial_control ops)\<rparr>"

end
