(* ===== verification/Usart.thy ===== *)
theory Usart
  imports Serial
begin

unbundle bit_operations_syntax

text \<open>
  The serial ports of the board, \<^verbatim>\<open>bsp/LidarCarBSP/drivers/drv_usart.c\<close>. A port is
  its set-up, the bytes that the interrupt handler will find in the receive register, the bytes sent and
  whether the receive interrupt is enabled; \<open>hal_ok\<close> is what \<^verbatim>\<open>HAL_UART_Init\<close> answers. The
  register of a port that is ready to send is never waited for, and no byte comes while the handler clears the flag
  of the receive register. Opening and closing is shown to keep the
  contract of the device framework.
\<close>

section \<open>The code\<close>

datatype word_length = UART_WORDLENGTH_8B | UART_WORDLENGTH_9B
datatype stop_length = UART_STOPBITS_1 | UART_STOPBITS_2
datatype parity_mode = UART_PARITY_NONE | UART_PARITY_ODD | UART_PARITY_EVEN

record uart_init =
  BaudRate :: nat
  WordLength :: word_length
  StopBits :: stop_length
  Parity :: parity_mode

record usart =
  init_struct :: uart_init
  rx_pending :: "u8 list"
  tx_sent :: "u8 list"
  rxne_it :: bool
  hal_ok :: bool

text \<open>\<^verbatim>\<open>DATA_BITS_9\<close> is 9, \<^verbatim>\<open>STOP_BITS_2\<close> 1, \<^verbatim>\<open>PARITY_ODD\<close> 1 and \<^verbatim>\<open>PARITY_EVEN\<close> 2.\<close>

definition drv_configure :: "serial_configure \<Rightarrow> 'a usart_scheme world \<Rightarrow> int \<times> 'a usart_scheme world" where
  "drv_configure cfg w =
    (let i = \<lparr>BaudRate = baud_rate cfg,
              WordLength = (if data_bits cfg = 9 then UART_WORDLENGTH_9B else UART_WORDLENGTH_8B),
              StopBits = (if stop_bits cfg = 1 then UART_STOPBITS_2 else UART_STOPBITS_1),
              Parity = (if parity cfg = 1 then UART_PARITY_ODD else if parity cfg = 2 then UART_PARITY_EVEN else UART_PARITY_NONE)\<rparr>;
         w1 = w\<lparr>hw := (hw w)\<lparr>init_struct := i\<rparr>\<rparr>
     in (if \<not> hal_ok (hw w1) then RT_ERROR else RT_EOK, w1))"

definition drv_control :: "int \<Rightarrow> control_arg \<Rightarrow> 'a usart_scheme world \<Rightarrow> int \<times> 'a usart_scheme world" where
  "drv_control cmd arg w =
    (RT_EOK,
     if cmd = RT_DEVICE_CTRL_CLR_INT then w\<lparr>hw := (hw w)\<lparr>rxne_it := False\<rparr>\<rparr>
     else if cmd = RT_DEVICE_CTRL_SET_INT then w\<lparr>hw := (hw w)\<lparr>rxne_it := True\<rparr>\<rparr>
     else w)"

definition drv_putc :: "u8 \<Rightarrow> 'a usart_scheme world \<Rightarrow> int \<times> 'a usart_scheme world" where
  "drv_putc c w = (1, w\<lparr>hw := (hw w)\<lparr>tx_sent := tx_sent (hw w) @ [c]\<rparr>\<rparr>)"

definition drv_getc :: "'a usart_scheme world \<Rightarrow> int \<times> 'a usart_scheme world" where
  "drv_getc w =
    (case rx_pending (hw w) of
       [] \<Rightarrow> (-1, w)
     | ch # chs \<Rightarrow> (uint ch, w\<lparr>hw := (hw w)\<lparr>rx_pending := chs\<rparr>\<rparr>))"

text \<open>The table of the driver has no \<^verbatim>\<open>dma_transmit\<close>: a call goes through a null pointer.\<close>

definition drv_uart_ops :: "'a usart_scheme uart_ops" where
  "drv_uart_ops = \<lparr>op_configure = Some drv_configure, op_control = drv_control, op_putc = drv_putc, op_getc = drv_getc,
     op_dma_transmit = (\<lambda>_ _ _ w. set_fault w)\<rparr>"

text \<open>
  The handlers of the three ports are the same; the receive interrupt comes when a byte is there and the
  interrupt is enabled.
\<close>

definition USART_IRQHandler ::
  "(nat \<Rightarrow> nat \<Rightarrow> 'a usart_scheme on_serial \<Rightarrow> 'a usart_scheme on_serial) \<Rightarrow> (nat \<Rightarrow> nat option \<Rightarrow> 'a usart_scheme on_serial \<Rightarrow> 'a usart_scheme on_serial) \<Rightarrow>
   'a usart_scheme on_serial \<Rightarrow> 'a usart_scheme on_serial option" where
  "USART_IRQHandler ind fin x =
    (let leave = (\<lambda>x. (fst x, (snd x)\<lparr>kern := rt_interrupt_leave (kern (snd x))\<rparr>));
         x1 = (fst x, (snd x)\<lparr>kern := rt_interrupt_enter (kern (snd x))\<rparr>)
     in if rx_pending (hw (snd x1)) \<noteq> [] \<and> rxne_it (hw (snd x1))
        then map_option leave (rt_hw_serial_isr drv_uart_ops ind fin 1 x1)
        else Some (leave x1))"

text \<open>The default set-up of \<^verbatim>\<open>RT_SERIAL_CONFIG_DEFAULT\<close>: a buffer of 64 bytes.\<close>

definition default_config :: serial_configure where
  "default_config = \<lparr>baud_rate = 115200, data_bits = 8, stop_bits = 0, parity = 0, bit_order = 0, invert = 0, bufsz = 64\<rparr>"

definition hw_usart_init ::
  "(nat \<Rightarrow> rt_serial_device rt_device) \<Rightarrow> nat object_store \<times> kernel \<Rightarrow>
   (nat \<Rightarrow> rt_serial_device rt_device) \<times> nat object_store \<times> kernel" where
  "hw_usart_init devs x =
    fold (\<lambda>(serial, name, cfg) (devs, x).
        snd (rt_hw_serial_register serial name 0x103
          (devs(serial := (devs serial)\<lparr>sub := (sub (devs serial))\<lparr>config := cfg\<rparr>\<rparr>)) x))
      [(1, ''uart1'', default_config), (2, ''uart2'', default_config\<lparr>baud_rate := 128000\<rparr>), (6, ''uart6'', default_config)]
      (devs, x)"

section \<open>Opening and closing a port\<close>

lemmas port_defs = rt_device_open_def rt_device_close_def open_activated_def has_flag_def call_open_def call_close_def
  serial_ops_def rt_serial_open_def unsupported_def open_rx_def open_tx_def take_mem_def install_rx_def hw_control_def
  drv_uart_ops_def drv_control_def set_open_def upd_dev_def upd_serial_def bufsz_of_def open_has_def succeeded_def
  rt_serial_close_def close_rx_def close_tx_def

text \<open>The flags with which the application opens its ports: read, write, receive by interrupt.\<close>

definition uart_mode :: "u16 \<Rightarrow> bool" where
  "uart_mode oflag \<longleftrightarrow> oflag = 0x103"

text \<open>\<open>H\<close> are the regions of the heap that others hold.\<close>

definition port_shut :: "region set \<Rightarrow> 'a usart_scheme on_serial \<Rightarrow> bool" where
  "port_shut H x \<longleftrightarrow> serial_rx (sub (fst x)) = None \<and> serial_tx (sub (fst x)) = None \<and> bufsz_of x < 2 ^ 16 \<and>
      heap_ok (mem (snd x)) \<and> live (mem (snd x)) = H"

text \<open>An open port holds one block, unless the heap was full: then the driver has written through a null pointer.\<close>

definition port_open :: "region set \<Rightarrow> 'a usart_scheme on_serial \<Rightarrow> bool" where
  "port_open H x \<longleftrightarrow> serial_tx (sub (fst x)) = None \<and> bufsz_of x < 2 ^ 16 \<and> heap_ok (mem (snd x)) \<and>
     open_has x RT_DEVICE_FLAG_INT_RX \<and>
     (case serial_rx (sub (fst x)) of
        None \<Rightarrow> fault (kern (snd x)) \<and> live (mem (snd x)) = H
      | Some (p, r) \<Rightarrow> (\<exists>f. r = RxFifo f) \<and>
          (\<exists>k\<ge>SIZEOF_RX_FIFO + bufsz_of x. live (mem (snd x)) = insert (p, k) H) \<and> p \<notin> fst ` H)"

lemma drv_frame:
  "mem (snd (drv_control cmd a w)) = mem w" "kern (snd (drv_control cmd a w)) = kern w"
  "mem (snd (drv_configure c w)) = mem w" "kern (snd (drv_configure c w)) = kern w"
  "fst (drv_configure c w) = 0 \<or> fst (drv_configure c w) = 1"
  by (auto simp: drv_control_def drv_configure_def Let_def)

lemma has_flag_or: "has_flag (x OR b) b \<longleftrightarrow> b \<noteq> 0" "has_flag x b \<Longrightarrow> has_flag (x OR c) b"
proof -
  have e: "(x OR b) AND b = b" by (rule bit_eqI) (auto simp: bit_simps)
  then show "has_flag (x OR b) b \<longleftrightarrow> b \<noteq> 0" by (simp add: has_flag_def)
  assume "has_flag x b"
  then obtain i where "bit x i" "bit b i" by (auto simp: has_flag_def bit_eq_iff bit_simps)
  then have "bit ((x OR c) AND b) i" by (simp add: bit_simps)
  then show "has_flag (x OR c) b" by (auto simp: has_flag_def)
qed

text \<open>Taking memory always returns; the block is new, or there was no room.\<close>

lemma take_mem_ok:
  assumes h: "heap_ok (mem (snd x))" and n: "n \<le> 2 ^ 32 - 4"
  shows "\<exists>p y. take_mem n x = Some (p, y) \<and> fst y = fst x \<and> kern (snd y) = kern (snd x) \<and> heap_ok (mem (snd y)) \<and>
    (case p of None \<Rightarrow> live (mem (snd y)) = live (mem (snd x))
     | Some q \<Rightarrow> q \<notin> fst ` live (mem (snd x)) \<and> (\<exists>k\<ge>n. live (mem (snd y)) = insert (q, k) (live (mem (snd x)))))"
proof -
  have i: "heap_inv (blocks (mem (snd x))) (mem (snd x))" using h by (simp add: heap_ok_def)
  obtain p h' where m: "rt_malloc n (mem (snd x)) = Some (p, h')" "p = None \<longrightarrow> h' = mem (snd x)"
    using malloc_ok [OF i, of n] by fastforce
  show ?thesis
  proof (cases p)
    case None
    then show ?thesis using m h by (simp add: take_mem_def)
  next
    case (Some q)
    then show ?thesis using malloc_live [OF i n] m(1) by (simp add: take_mem_def)
  qed
qed

lemma shut_init:
  assumes "port_shut H x" "call_init (serial_ops drv_uart_ops) x = (r, y)"
  shows "port_shut H y \<and> d_ref_count (fst y) = d_ref_count (fst x) \<and> d_flag (fst y) = d_flag (fst x) \<and> r \<noteq> - RT_ENOSYS"
  using assms drv_frame(5) [of "config (sub (fst x))" "snd x"] drv_frame(3) [of "config (sub (fst x))" "snd x"]
  by (auto simp: call_init_def serial_ops_def rt_serial_init_def drv_uart_ops_def Let_def upd_serial_def upd_dev_def
      port_shut_def bufsz_of_def split: prod.splits)

lemma mode_flags:
  "has_flag 0x103 RT_DEVICE_FLAG_INT_RX" "\<not> has_flag 0x103 RT_DEVICE_FLAG_DMA_RX" "\<not> has_flag 0x103 RT_DEVICE_FLAG_DMA_TX"
  "\<not> has_flag 0x103 RT_DEVICE_FLAG_INT_TX"
  by (simp_all add: has_flag_def)

lemma hw_control_frame:
  "fst (hw_control drv_uart_ops cmd b x) = fst x" "mem (snd (hw_control drv_uart_ops cmd b x)) = mem (snd x)"
  "kern (snd (hw_control drv_uart_ops cmd b x)) = kern (snd x)"
  by (simp_all add: hw_control_def drv_uart_ops_def drv_frame)

lemma port_open_frame:
  "port_open H (d, w) \<Longrightarrow> port_open H (d\<lparr>d_open_flag := d_open_flag d OR b\<rparr>, w)"
  "port_open H (d, w) \<Longrightarrow> port_open H (d\<lparr>d_ref_count := n\<rparr>, w)"
  by (auto simp: port_open_def bufsz_of_def open_has_def has_flag_or(2) split: option.splits prod.splits)

lemma port_shut_frame: "port_shut H (d, w) \<Longrightarrow> port_shut H (d\<lparr>d_flag := f\<rparr>, w) \<and> port_shut H (d\<lparr>d_open_flag := g\<rparr>, w)"
  by (simp add: port_shut_def bufsz_of_def)

text \<open>Receiving is set up, whether or not it was before.\<close>

lemma open_rx_port:
  assumes x: "serial_tx (sub (fst x)) = None" "bufsz_of x < 2 ^ 16" "heap_ok (mem (snd x))"
    and rx: "case serial_rx (sub (fst x)) of None \<Rightarrow> live (mem (snd x)) = H
      | Some (p, r) \<Rightarrow> (\<exists>f. r = RxFifo f) \<and> (\<exists>k\<ge>SIZEOF_RX_FIFO + bufsz_of x. live (mem (snd x)) = insert (p, k) H) \<and> p \<notin> fst ` H"
  shows "\<exists>y. open_rx drv_uart_ops 0x103 x = Some y \<and> port_open H y \<and> d_ref_count (fst y) = d_ref_count (fst x) \<and>
    d_flag (fst y) = d_flag (fst x)"
proof (cases "serial_rx (sub (fst x))")
  case None
  have n: "SIZEOF_RX_FIFO + bufsz_of x \<le> 2 ^ 32 - 4" using x(2) by simp
  obtain p y where t: "take_mem (SIZEOF_RX_FIFO + bufsz_of x) x = Some (p, y)" "fst y = fst x" "kern (snd y) = kern (snd x)"
    "heap_ok (mem (snd y))"
    "case p of None \<Rightarrow> live (mem (snd y)) = H
     | Some q \<Rightarrow> q \<notin> fst ` H \<and> (\<exists>k\<ge>SIZEOF_RX_FIFO + bufsz_of x. live (mem (snd y)) = insert (q, k) H)"
    using take_mem_ok [OF x(3) n] None rx by auto
  let ?z = "hw_control drv_uart_ops RT_DEVICE_CTRL_SET_INT RT_DEVICE_FLAG_INT_RX
    (set_open RT_DEVICE_FLAG_INT_RX (install_rx (RxFifo (fifo_init (bufsz_of x))) (p, y)))"
  have "open_rx drv_uart_ops 0x103 x = Some ?z"
    unfolding open_rx_def using None t(1) mode_flags by simp
  moreover have "port_open H ?z \<and> d_ref_count (fst ?z) = d_ref_count (fst x) \<and> d_flag (fst ?z) = d_flag (fst x)"
  proof (cases p)
    case None
    then show ?thesis
      using t(2-5) x(1,2) \<open>serial_rx (sub (fst x)) = None\<close>
      by (simp add: port_open_def hw_control_frame set_open_def install_rx_def upd_dev_def set_fault_def bufsz_of_def
          open_has_def has_flag_or)
  next
    case (Some q)
    then show ?thesis
      using t(2-5) x(1,2)
      by (simp add: port_open_def hw_control_frame set_open_def install_rx_def upd_serial_def upd_dev_def bufsz_of_def
          open_has_def has_flag_or)
  qed
  ultimately show ?thesis by blast
next
  case (Some pr)
  then have "open_rx drv_uart_ops 0x103 x = Some (set_open RT_DEVICE_FLAG_INT_RX x)"
    using mode_flags by (simp add: open_rx_def)
  then show ?thesis
    using Some x rx by (simp add: port_open_def set_open_def upd_dev_def bufsz_of_def open_has_def has_flag_or)
qed

lemma open_port:
  assumes x: "port_shut H x \<or> port_open H x" and o: "uart_mode oflag"
  shows "\<exists>r y. call_open (serial_ops drv_uart_ops) oflag x = Some (r, y) \<and> d_ref_count (fst y) = d_ref_count (fst x) \<and>
    d_flag (fst y) = d_flag (fst x) \<and>
    (if succeeded r then port_open H y else (port_shut H x \<longrightarrow> port_shut H y) \<and> (port_open H x \<longrightarrow> port_open H y))"
proof (cases "unsupported oflag x")
  case True
  then show ?thesis by (simp add: call_open_def serial_ops_def rt_serial_open_def succeeded_def)
next
  case False
  let ?x = "upd_dev (\<lambda>d. d\<lparr>d_open_flag := 0x103 AND 0xff\<rparr>) x"
  have "serial_tx (sub (fst ?x)) = None" "bufsz_of ?x < 2 ^ 16" "heap_ok (mem (snd ?x))"
    "case serial_rx (sub (fst ?x)) of None \<Rightarrow> live (mem (snd ?x)) = H
      | Some (p, r) \<Rightarrow> (\<exists>f. r = RxFifo f) \<and> (\<exists>k\<ge>SIZEOF_RX_FIFO + bufsz_of ?x. live (mem (snd ?x)) = insert (p, k) H) \<and> p \<notin> fst ` H"
    using x by (auto simp: port_shut_def port_open_def upd_dev_def bufsz_of_def split: option.splits)
  from open_rx_port [OF this] obtain y where y: "open_rx drv_uart_ops 0x103 ?x = Some y" "port_open H y"
    "d_ref_count (fst y) = d_ref_count (fst x)" "d_flag (fst y) = d_flag (fst x)"
    by (auto simp: upd_dev_def)
  have "open_tx drv_uart_ops 0x103 y = Some y" using y(2) mode_flags by (simp add: open_tx_def port_open_def)
  moreover have "port_open H (set_open b y)" for b
    using y(2) port_open_frame(1) [of H "fst y" "snd y" b] by (simp add: set_open_def upd_dev_def)
  ultimately show ?thesis
    using False o y by (simp add: call_open_def serial_ops_def rt_serial_open_def succeeded_def uart_mode_def set_open_def upd_dev_def)
qed

text \<open>Closing gives the block back, if there is one, and touches nothing where nothing was taken.\<close>

lemma rt_free_null: "rt_free None h = h"
  by (simp add: rt_free_def)

lemma close_tx_shut:
  assumes "port_shut H x"
  shows "port_shut H (close_tx drv_uart_ops x) \<and> d_ref_count (fst (close_tx drv_uart_ops x)) = d_ref_count (fst x)"
  using assms
  by (simp add: close_tx_def port_shut_def hw_control_frame clear_open_def drop_tx_def give_back_def rt_free_null
      upd_serial_def upd_dev_def bufsz_of_def)

lemma drop_rx_port:
  assumes "port_open H x"
  shows "port_shut H (drop_rx x) \<and> d_ref_count (fst (drop_rx x)) = d_ref_count (fst x)"
proof (cases "serial_rx (sub (fst x))")
  case None
  then show ?thesis
    using assms by (simp add: port_open_def port_shut_def drop_rx_def give_back_def rt_free_null upd_serial_def upd_dev_def bufsz_of_def)
next
  case (Some pr)
  then obtain p f k where p: "pr = (p, RxFifo f)" "live (mem (snd x)) = insert (p, k) H" "p \<notin> fst ` H"
    "heap_ok (mem (snd x))"
    using assms by (auto simp: port_open_def)
  have i: "heap_inv (blocks (mem (snd x))) (mem (snd x))" using p(4) by (simp add: heap_ok_def)
  have "heap_ok (rt_free (Some p) (mem (snd x))) \<and> live (rt_free (Some p) (mem (snd x))) = H"
    using free_live [OF i, of p k] p(2,3) by force
  then show ?thesis
    using assms Some p(1)
    by (simp add: port_open_def port_shut_def drop_rx_def give_back_def upd_serial_def upd_dev_def bufsz_of_def)
qed

lemma close_port:
  assumes x: "port_open H x" "d_ref_count (fst x) = 0" and c: "call_close (serial_ops drv_uart_ops) x = (r, y)"
  shows "port_shut H y \<and> d_ref_count (fst y) = d_ref_count (fst x)"
proof -
  have "open_has x RT_DEVICE_FLAG_INT_RX" using x(1) by (simp add: port_open_def)
  then have s: "port_shut H (close_rx drv_uart_ops x)" "d_ref_count (fst (close_rx drv_uart_ops x)) = d_ref_count (fst x)"
    using drop_rx_port [OF x(1)]
    by (simp_all add: close_rx_def port_shut_def hw_control_frame clear_open_def upd_dev_def bufsz_of_def)
  have "y = close_tx drv_uart_ops (close_rx drv_uart_ops x)"
    using c x(2) by (simp add: call_close_def serial_ops_def rt_serial_close_def)
  then show ?thesis using close_tx_shut [OF s(1)] s(2) by simp
qed

interpretation port: driver "serial_ops drv_uart_ops" uart_mode "port_shut H" "port_open H" for H
proof unfold_locales
  show "port_shut H x \<Longrightarrow> call_init (serial_ops drv_uart_ops) x = (r, y) \<Longrightarrow>
    port_shut H y \<and> d_ref_count (fst y) = d_ref_count (fst x) \<and> d_flag (fst y) = d_flag (fst x) \<and> r \<noteq> - RT_ENOSYS" for x y r
    by (rule shut_init)
qed (use open_port close_port port_shut_frame port_open_frame in blast)+

text \<open>
  C27: any history of opens and closes of a serial port, each open with the flags of the application, returns, and
  while no more than 255 users have the port open at a time it leaves the device with the number of users that the
  results of the calls say. Without users the port has no buffer and the heap holds what it held before, even if it was
  full at some time; with users it holds one block more, for the receive buffer, or, if there was no room for that
  when it was opened, the driver has written through a null pointer (the fault of the kernel is set) and it holds none.
  With other flags the driver may lose the block (port_reopen_leaks), and the 256th user makes the count zero
  (device_count_wraps).
\<close>

theorem port_history:
  assumes x: "port_shut H x" "d_ref_count (fst x) = 0" and cs: "\<forall>oflag. Open oflag \<in> set cs \<longrightarrow> uart_mode oflag"
  shows "\<exists>rs y. dev_run (serial_ops drv_uart_ops) cs x = Some (rs, y) \<and> length rs = length cs \<and>
    (peak cs rs 0 \<le> 255 \<longrightarrow> d_ref_count (fst y) = of_nat (users cs rs 0) \<and>
      (if users cs rs 0 = 0 then port_shut H y else port_open H y))"
proof -
  have h: "port.held H 0 x" using x unfolding port.held_def by simp
  from port.run_held [OF port.held_alive [OF h] cs] obtain rs y where
    r: "dev_run (serial_ops drv_uart_ops) cs x = Some (rs, y)" "length rs = length cs"
      "\<forall>n. port.held H n x \<and> peak cs rs n < 256 \<longrightarrow> port.held H (users cs rs n) y" by blast
  have "peak cs rs 0 \<le> 255 \<longrightarrow> port.held H (users cs rs 0) y" using r(3) h by (simp add: less_Suc_eq_le)
  then show ?thesis using r(1,2) unfolding port.held_def by (auto split: if_splits)
qed

text \<open>
  A second open without the receive flag takes the flag out of the open device while its buffer and its
  interrupt stay. The port then polls, and when both users have closed it the buffer is still taken from the heap
  and the receive interrupt is still enabled.
\<close>

theorem port_reopen_leaks:
  assumes x: "port_shut H (d, w)" "d_ref_count d = 0" "d_open_flag d = 0" and flags: "d_flag d = 0x113"
    and room: "rt_malloc (SIZEOF_RX_FIFO + bufsz (config (sub d))) (mem w) = Some (Some p, h)"
  shows "\<exists>y k. dev_run (serial_ops drv_uart_ops) [Open 0x103, Open 0x003, Close, Close] (d, w) = Some ([0, 0, 0, 0], y) \<and>
    d_ref_count (fst y) = 0 \<and> d_open_flag (fst y) = RT_DEVICE_OFLAG_CLOSE \<and> live (mem (snd y)) = insert (p, k) H \<and>
    p \<notin> fst ` H \<and> rxne_it (hw (snd y))"
proof -
  have i: "heap_inv (blocks (mem w)) (mem w)" "SIZEOF_RX_FIFO + bufsz (config (sub d)) \<le> 2 ^ 32 - 4" "live (mem w) = H"
    using x(1) by (simp_all add: port_shut_def heap_ok_def bufsz_of_def)
  then obtain k where "live h = insert (p, k) H" "p \<notin> fst ` H"
    using malloc_live [OF i(1,2) room] by blast
  then show ?thesis using x flags room by (simp add: port_shut_def port_defs) blast
qed

text \<open>A port on a fresh heap; it is registered and has been initialised.\<close>

definition demo_port :: "usart on_serial" where
  "demo_port =
    (\<lparr>d_flag = 0x113, d_open_flag = 0, d_ref_count = 0, rx_indicate = None, tx_complete = None,
       sub = \<lparr>config = default_config, serial_rx = None, serial_tx = None\<rparr>\<rparr>,
     \<lparr>kern = two_ready, errno = 0, mem = demo_heap,
       hw = \<lparr>init_struct = \<lparr>BaudRate = 115200, WordLength = UART_WORDLENGTH_8B, StopBits = UART_STOPBITS_1,
               Parity = UART_PARITY_NONE\<rparr>, rx_pending = [], tx_sent = [], rxne_it = False, hal_ok = True\<rparr>\<rparr>)"

lemma demo_port_shut: "port_shut {} demo_port"
  using heap_okI [OF demo_heap_inv] demo_heap_live
  by (simp add: port_shut_def demo_port_def bufsz_of_def default_config_def)

theorem port_history_witness:
  "\<exists>rs y. dev_run (serial_ops drv_uart_ops) [Open 0x103, Open 0x103, Close, Close] demo_port = Some (rs, y) \<and>
     live (mem (snd y)) = {} \<and> d_ref_count (fst y) = 0"
proof -
  let ?cs = "[Open 0x103, Open 0x103, Close, Close]"
  have "d_ref_count (fst demo_port) = 0" "\<forall>oflag. Open oflag \<in> set ?cs \<longrightarrow> uart_mode oflag"
    by (simp_all add: demo_port_def uart_mode_def)
  from port_history [OF demo_port_shut this] obtain rs y where
    r: "dev_run (serial_ops drv_uart_ops) ?cs demo_port = Some (rs, y)" "length rs = length ?cs"
      "peak ?cs rs 0 \<le> 255 \<longrightarrow> d_ref_count (fst y) = of_nat (users ?cs rs 0) \<and>
        (if users ?cs rs 0 = 0 then port_shut {} y else port_open {} y)"
    by blast
  have "users ?cs rs 0 = 0" "peak ?cs rs 0 \<le> 255" using r(2) by (auto simp: length_Suc_conv)
  then show ?thesis using r by (auto simp: port_shut_def)
qed

theorem port_reopen_leaks_witness:
  "\<exists>y. dev_run (serial_ops drv_uart_ops) [Open 0x103, Open 0x003, Close, Close] demo_port = Some ([0, 0, 0, 0], y) \<and>
     live (mem (snd y)) \<noteq> {} \<and> rxne_it (hw (snd y))"
proof -
  obtain d w where x: "demo_port = (d, w)" by (cases demo_port)
  obtain h where "rt_malloc 76 demo_heap = Some (Some 1012, h)" by (simp add: demo_heap_eq heap_run)
  then have "rt_malloc (SIZEOF_RX_FIFO + bufsz (config (sub d))) (mem w) = Some (Some 1012, h)"
    using x by (auto simp: demo_port_def default_config_def)
  moreover have "d_ref_count d = 0" "d_open_flag d = 0" "d_flag d = 0x113" using x by (auto simp: demo_port_def)
  ultimately show ?thesis
    using port_reopen_leaks [OF demo_port_shut [unfolded x], of 1012 h] unfolding x by blast
qed

end
