(* ===== verification/Receive.thy ===== *)
theory Receive
  imports Usart
begin

unbundle bit_operations_syntax

text \<open>
  Receiving on an open serial port, for the applications on top of it: what the receive interrupt puts
  into the buffer before it calls the callback, and what a read of one byte takes out.
\<close>

section \<open>An open port\<close>

definition rx_of :: "'a usart_scheme on_serial \<Rightarrow> rx_fifo" where
  "rx_of x = (case serial_rx (sub (fst x)) of Some (p, RxFifo f) \<Rightarrow> f | _ \<Rightarrow> fifo_init 0)"

abbreviation rx_items :: "'a usart_scheme on_serial \<Rightarrow> u8 list" where
  "rx_items x \<equiv> int_items (rx_of x)"

definition rx_ready :: "'a usart_scheme on_serial \<Rightarrow> bool" where
  "rx_ready x \<longleftrightarrow> d_ref_count (fst x) \<noteq> 0 \<and> open_has x RT_DEVICE_FLAG_INT_RX \<and> rx_indicate (fst x) \<noteq> None \<and>
     rxne_it (hw (snd x)) \<and> (\<exists>p f. serial_rx (sub (fst x)) = Some (p, RxFifo f)) \<and> int_inv (bufsz_of x) (rx_of x)"

text \<open>Only the receive structure of the device and the interrupt enable of the hardware matter.\<close>

lemma rx_frame [simp]:
  "rx_ready (d, w\<lparr>kern := k\<rparr>) = rx_ready (d, w)" "rx_of (d, w\<lparr>kern := k\<rparr>) = rx_of (d, w)"
  "bufsz_of (d, w\<lparr>kern := k\<rparr>) = bufsz_of (d, w)"
  "rx_of (d, w\<lparr>hw := h\<rparr>) = rx_of (d, w)" "bufsz_of (d, w\<lparr>hw := h\<rparr>) = bufsz_of (d, w)"
  "rxne_it h = rxne_it (hw w) \<Longrightarrow> rx_ready (d, w\<lparr>hw := h\<rparr>) = rx_ready (d, w)"
  by (simp_all add: rx_ready_def rx_of_def bufsz_of_def open_has_def)

definition set_rx :: "rx_fifo \<Rightarrow> 'a usart_scheme on_serial \<Rightarrow> 'a usart_scheme on_serial" where
  "set_rx f x = upd_serial (\<lambda>s. s\<lparr>serial_rx := map_option (\<lambda>(p, _). (p, RxFifo f)) (serial_rx s)\<rparr>) x"

lemma set_rx_frame [simp]:
  "snd (set_rx f x) = snd x" "bufsz_of (set_rx f x) = bufsz_of x" "rx_indicate (fst (set_rx f x)) = rx_indicate (fst x)"
  "rx_ready x \<Longrightarrow> rx_of (set_rx f x) = f" "rx_ready x \<Longrightarrow> int_inv (bufsz_of x) f \<Longrightarrow> rx_ready (set_rx f x)"
  by (auto simp: set_rx_def upd_serial_def upd_dev_def bufsz_of_def rx_ready_def rx_of_def open_has_def)

section \<open>A read of one byte\<close>

lemma read_byte:
  assumes "rx_ready x"
  shows "\<exists>f. rt_device_read (serial_ops drv_uart_ops) pos buf 1 x =
      ((length (take 1 (rx_items x)), take 1 (rx_items x)), set_rx f x) \<and>
    int_inv (bufsz_of x) f \<and> int_items f = tl (rx_items x)"
proof -
  obtain p f where f: "serial_rx (sub (fst x)) = Some (p, RxFifo f)" "rx_of x = f" "int_inv (bufsz_of x) f"
    using assms by (auto simp: rx_ready_def rx_of_def)
  obtain xs f1 where r: "serial_int_rx (bufsz_of x) 1 f = (xs, f1)" by (cases "serial_int_rx (bufsz_of x) 1 f")
  note s = serial_int_rx_ok [OF f(3) r]
  have "upd_serial (\<lambda>s. s\<lparr>serial_rx := Some (p, RxFifo f1)\<rparr>) x = set_rx f1 x"
    using f(1) by (simp add: set_rx_def upd_serial_def upd_dev_def)
  then have "rt_device_read (serial_ops drv_uart_ops) pos buf 1 x = ((length xs, xs), set_rx f1 x)"
    using assms f r by (simp add: rt_device_read_def serial_ops_def rt_serial_read_def rx_ready_def serial_int_rx_dev_def)
  then show ?thesis using s f(2) by (auto simp: drop_Suc)
qed

section \<open>The receive interrupt\<close>

lemma op_getc_drv: "op_getc drv_uart_ops = drv_getc"
  by (simp add: drv_uart_ops_def)

lemma uint_not_minus: "uint (ch :: 'a :: len word) \<noteq> - 1"
proof -
  have "0 \<le> uint ch" by simp
  then show ?thesis by linarith
qed

text \<open>The loop of the interrupt on this hardware is the loop over the bytes it finds.\<close>

lemma isr_rx_loop_drv:
  "isr_rx_loop drv_uart_ops n f w =
    Some (isr_loop n (rx_pending (hw w)) f, w\<lparr>hw := (hw w)\<lparr>rx_pending := []\<rparr>\<rparr>)"
proof (induction "rx_pending (hw w)" arbitrary: f w)
  case Nil
  then show ?case by (subst isr_rx_loop.simps) (simp add: op_getc_drv drv_getc_def)
next
  case (Cons ch chs)
  let ?w = "w\<lparr>hw := (hw w)\<lparr>rx_pending := chs\<rparr>\<rparr>"
  have g: "op_getc drv_uart_ops w = (uint ch, ?w)"
    using Cons.hyps(2) by (simp add: op_getc_drv drv_getc_def flip: Cons.hyps(2))
  have "isr_rx_loop drv_uart_ops n f w = isr_rx_loop drv_uart_ops n (isr_store n ch f) ?w"
    by (subst isr_rx_loop.simps) (simp add: g uint_not_minus)
  then show ?case using Cons.hyps(1) [of ?w] by (simp flip: Cons.hyps(2))
qed

text \<open>The interrupt of the port with the bytes that it finds in the receive register.\<close>

definition port_irq ::
  "(nat \<Rightarrow> nat \<Rightarrow> 'a usart_scheme on_serial \<Rightarrow> 'a usart_scheme on_serial) \<Rightarrow> u8 list \<Rightarrow>
   'a usart_scheme on_serial \<Rightarrow> 'a usart_scheme on_serial option" where
  "port_irq ind chs x =
    USART_IRQHandler ind (\<lambda>_ _ y. y) (fst x, (snd x)\<lparr>hw := (hw (snd x))\<lparr>rx_pending := chs\<rparr>\<rparr>)"

definition nested :: "(kernel \<Rightarrow> kernel) \<Rightarrow> 'a usart_scheme on_serial \<Rightarrow> 'a usart_scheme on_serial" where
  "nested f x = (fst x, (snd x)\<lparr>kern := f (kern (snd x))\<rparr>)"

definition drained :: "'a usart_scheme on_serial \<Rightarrow> 'a usart_scheme on_serial" where
  "drained x = (fst x, (snd x)\<lparr>hw := (hw (snd x))\<lparr>rx_pending := []\<rparr>\<rparr>)"

lemma nested_frame [simp]:
  "rx_ready (nested f x) = rx_ready x" "rx_of (nested f x) = rx_of x" "bufsz_of (nested f x) = bufsz_of x"
  "rx_ready (drained x) = rx_ready x" "rx_of (drained x) = rx_of x" "bufsz_of (drained x) = bufsz_of x"
  "fst (nested f x) = fst x" "fst (drained x) = fst x"
  by (simp_all add: nested_def drained_def rx_ready_def rx_of_def bufsz_of_def open_has_def)

text \<open>
  The handler runs one level deeper. It stores the bytes, the oldest giving way, and the callback then sees the new
  buffer; without a byte nothing happens.
\<close>

lemma port_irq_receives:
  assumes ok: "rx_ready x" and cb: "rx_indicate (fst x) = Some cb"
  shows "port_irq ind [] x = Some (nested rt_interrupt_leave (nested rt_interrupt_enter (drained x)))"
    and "chs \<noteq> [] \<Longrightarrow> \<exists>f. int_inv (bufsz_of x) f \<and> int_items f = newest (bufsz_of x - 1) (rx_items x @ chs) \<and>
      port_irq ind chs x = Some (nested rt_interrupt_leave (ind cb (length (int_items f))
        (set_rx f (drained (nested rt_interrupt_enter x)))))"
proof -
  show "port_irq ind [] x = Some (nested rt_interrupt_leave (nested rt_interrupt_enter (drained x)))"
    by (simp add: port_irq_def USART_IRQHandler_def nested_def drained_def)
  assume ne: "chs \<noteq> []"
  let ?n = "bufsz_of x"
  obtain p f where f: "serial_rx (sub (fst x)) = Some (p, RxFifo f)" "rx_of x = f" "int_inv ?n f"
    using ok by (auto simp: rx_ready_def rx_of_def)
  let ?f1 = "isr_loop ?n chs f"
  have f1: "int_inv ?n ?f1" "int_items ?f1 = newest (?n - 1) (rx_items x @ chs)"
    using isr_loop_ok [OF f(3)] f(2) by simp_all
  let ?x1 = "nested rt_interrupt_enter (fst x, (snd x)\<lparr>hw := (hw (snd x))\<lparr>rx_pending := chs\<rparr>\<rparr>)"
  let ?x2 = "drained (nested rt_interrupt_enter x)"
  have "?n - 1 \<noteq> 0" using f(3) by (simp add: int_inv_def)
  then have "length (int_items ?f1) \<noteq> 0" unfolding f1(2) using ne by simp
  moreover have "upd_serial (\<lambda>s. s\<lparr>serial_rx := Some (p, RxFifo ?f1)\<rparr>) ?x2 = set_rx ?f1 ?x2"
    using f(1) by (simp add: set_rx_def upd_serial_def upd_dev_def nested_def drained_def)
  ultimately have "isr_rx_ind drv_uart_ops ind ?x1 = Some (ind cb (length (int_items ?f1)) (set_rx ?f1 ?x2))"
    using f cb isr_rx_length_items [OF f1(1)]
    by (simp add: isr_rx_ind_def isr_rx_loop_drv Let_def nested_def drained_def bufsz_of_def upd_serial_def upd_dev_def)
  then have "port_irq ind chs x = Some (nested rt_interrupt_leave (ind cb (length (int_items ?f1)) (set_rx ?f1 ?x2)))"
    using ne ok by (simp add: port_irq_def USART_IRQHandler_def rt_hw_serial_isr_def nested_def rx_ready_def Let_def)
  then show "\<exists>f. int_inv ?n f \<and> int_items f = newest (?n - 1) (rx_items x @ chs) \<and>
      port_irq ind chs x = Some (nested rt_interrupt_leave (ind cb (length (int_items f)) (set_rx f ?x2)))"
    using f1 by blast
qed

section \<open>Opening\<close>

text \<open>The search for a device locks the scheduler, and unlocking reschedules; the lists stay as they were.\<close>

lemma find_kernel:
  "kinv k \<Longrightarrow> \<exists>k'. rt_device_find name (st, k) = (device_find_in name st, k') \<and> kinv k' \<and> lists k' = lists k"
  by (simp add: rt_device_find_def rt_enter_critical_def rt_exit_critical_def rt_thread_self_def Let_def kframe)

text \<open>A port that is registered, not open and not yet set up opens when there is room for its buffer.\<close>

lemma port_opens:
  assumes x: "port_shut H (d, w)" "d_ref_count d = 0" "d_open_flag d = 0" "d_flag d = 0x103" "hal_ok (hw w)"
    and n: "2 \<le> bufsz (config (sub d))"
    and room: "rt_malloc (SIZEOF_RX_FIFO + bufsz (config (sub d))) (mem w) = Some (Some p, h)"
  shows "\<exists>y. rt_device_open (serial_ops drv_uart_ops) 0x103 (d\<lparr>rx_indicate := Some cb\<rparr>, w\<lparr>kern := k\<rparr>) = Some (RT_EOK, y) \<and>
    rx_ready y \<and> rx_items y = [] \<and> bufsz_of y = bufsz (config (sub d)) \<and> kern (snd y) = k"
proof -
  let ?n = "bufsz (config (sub d))"
  let ?d = "d\<lparr>rx_indicate := Some cb, d_flag := 0x113, d_open_flag := 0x10b, d_ref_count := 1,
    sub := (sub d)\<lparr>serial_rx := Some (p, RxFifo (fifo_init ?n)), serial_tx := None\<rparr>\<rparr>"
  obtain v where o: "rt_device_open (serial_ops drv_uart_ops) 0x103 (d\<lparr>rx_indicate := Some cb\<rparr>, w\<lparr>kern := k\<rparr>) = Some (RT_EOK, ?d, v)"
    "kern v = k" "rxne_it (hw v)"
    using x room by (simp add: port_defs activate_def call_init_def rt_serial_init_def drv_configure_def Let_def)
  have "int_inv ?n (fifo_init ?n) \<and> int_items (fifo_init ?n) = []" using x(1) n by (intro int_init) (simp_all add: port_shut_def bufsz_of_def)
  then have "rx_ready (?d, v) \<and> rx_items (?d, v) = [] \<and> bufsz_of (?d, v) = ?n"
    using o(3) by (simp add: rx_ready_def rx_of_def bufsz_of_def open_has_def has_flag_def)
  then show ?thesis using o(1,2) by auto
qed

end
