(* ===== verification/Lidar.thy ===== *)
theory Lidar
  imports Prelude "HOL-Library.Signed_Division"
begin

text \<open>
  The receiver of the EAI X4 laser scanner, \<^verbatim>\<open>SLAM/EAI_X4.c\<close>. The bytes
  that \<^verbatim>\<open>eaix4_getchar\<close> delivers are a list; at its end the thread waits
  (\<open>Starved\<close>). An access outside an array, or a division by zero, is \<open>Undefined\<close>. The
  unsigned 16-bit fields are natural numbers, reduced where the code stores them; the
  signed counters \<open>circle\<close> and \<open>count\<close> are integers, since an index leaves its array
  before they could wrap.
\<close>

section \<open>Data\<close>

record PackAge =
  lsn :: nat
  fsa :: nat
  lsa :: nat
  cs :: nat
  buf :: "nat \<Rightarrow> nat"

record AroundPoint =
  angle :: nat
  distance :: nat

record Around =
  firstpoint :: AroundPoint
  ap :: "nat \<Rightarrow> AroundPoint"
  number :: int

abbreviation (input) AROUND_SIZE :: int where "AROUND_SIZE \<equiv> 5"
abbreviation (input) AP_SIZE :: int where "AP_SIZE \<equiv> 1440"
abbreviation (input) BUF_SIZE :: nat where "BUF_SIZE \<equiv> 40"

text \<open>
  The globals, the bytes written to the scanner, the events sent to the master thread, and
  what the console printed.
\<close>

datatype report = Version "u8 list" | Healthy | HealthError "u8 list"

record scanner =
  around :: "nat \<Rightarrow> Around"
  circle :: int
  count :: int
  sent :: "u8 list"
  events :: nat
  printed :: "report list"

datatype scan_result = Starved scanner | Finished scanner "u8 list" | Undefined

datatype packet_result = Continue PackAge "u8 list" scanner | Stop scan_result

section \<open>\<^verbatim>\<open>manipulationData\<close>\<close>

text \<open>A store to \<^verbatim>\<open>around[circle - 1].ap[count]\<close>, then \<^verbatim>\<open>count++\<close>.\<close>

definition store_point :: "nat \<Rightarrow> nat \<Rightarrow> scanner \<Rightarrow> scanner option" where
  "store_point a d st =
    (if 0 \<le> circle st - 1 \<and> circle st - 1 < AROUND_SIZE \<and> 0 \<le> count st \<and> count st < AP_SIZE
     then let c = nat (circle st - 1);
              ar = around st c;
              ar' = ar\<lparr>ap := (ap ar)(nat (count st) := \<lparr>angle = a, distance = d\<rparr>)\<rparr>
          in Some (st\<lparr>around := (around st)(c := ar'), count := count st + 1\<rparr>)
     else None)"

text \<open>
  The two loops over the samples of a packet; \<open>wraps\<close> tells the one for a packet that
  passes zero degrees, which takes off a full turn of 23040 (1/64 degree).
\<close>

fun record_points :: "bool \<Rightarrow> nat \<Rightarrow> nat \<Rightarrow> nat list \<Rightarrow> nat \<Rightarrow> scanner \<Rightarrow> scanner option" where
  "record_points wraps f diff [] i st = Some st"
| "record_points wraps f diff (d # ds) i st =
    (if d \<noteq> 0
     then let a = (f div 2 + i * diff mod 65536) mod 65536;
              a' = if wraps \<and> a > 23040 then a - 23040 else a
          in Option.bind (store_point a' d st) (record_points wraps f diff ds (i + 1))
     else record_points wraps f diff ds (i + 1) st)"

text \<open>Both reads of a 16-bit field store into the field: the second one, shifted, stays.\<close>

definition field16 :: "u8 \<Rightarrow> u8 \<Rightarrow> nat" where
  "field16 low high = (let x = unat low in let x = unat high * 256 mod 65536 in x)"

text \<open>Reading \<open>n\<close> samples into the buffer from index \<open>i\<close>.\<close>

datatype samples_result = Samples "nat \<Rightarrow> nat" "u8 list" | SamplesWait | SamplesOut

fun read_samples :: "nat \<Rightarrow> nat \<Rightarrow> (nat \<Rightarrow> nat) \<Rightarrow> u8 list \<Rightarrow> samples_result" where
  "read_samples 0 i b xs = Samples b xs"
| "read_samples (Suc n) i b (low # high # xs) =
    (if i < BUF_SIZE then read_samples n (i + 1) (b(i := field16 low high)) xs else SamplesOut)"
| "read_samples (Suc n) i b xs = SamplesWait"

definition angle_diff :: "PackAge \<Rightarrow> nat" where
  "angle_diff p =
    nat ((if fsa p > lsa p
          then (int (lsa p div 2) + (23040 - int (fsa p div 2))) sdiv int (lsn p)
          else (int (lsa p div 2) - int (fsa p div 2)) sdiv int (lsn p)) mod 65536)"

definition data_packet :: "PackAge \<Rightarrow> u8 list \<Rightarrow> scanner \<Rightarrow> packet_result" where
  "data_packet p xs st =
    (case xs of
       l # f0 # f1 # l0 # l1 # c0 # c1 # xs1 \<Rightarrow>
         (case read_samples (unat l) 0 (buf p) xs1 of
            Samples b xs2 \<Rightarrow>
              let p1 = p\<lparr>lsn := unat l, fsa := field16 f0 f1, lsa := field16 l0 l1, cs := field16 c0 c1, buf := b\<rparr> in
              if lsn p1 = 0 then Stop Undefined
              else (case record_points (fsa p1 > lsa p1) (fsa p1) (angle_diff p1) (map b [0..<lsn p1]) 0 st of
                      None \<Rightarrow> Stop Undefined
                    | Some st1 \<Rightarrow> Continue p1 xs2 st1)
          | SamplesWait \<Rightarrow> Stop (Starved st)
          | SamplesOut \<Rightarrow> Stop Undefined)
     | _ \<Rightarrow> Stop (Starved st))"

text \<open>
  The start of a turn. From the second turn on the number of points of the turn before is
  filed; the sixth start ends the scan, stops the scanner and tells the master thread.
\<close>

definition file_turn :: "scanner \<Rightarrow> scanner" where
  "file_turn st =
    (let c = nat (circle st - 2)
     in st\<lparr>around := (around st)(c := (around st c)\<lparr>number := count st\<rparr>), count := 0\<rparr>)"

definition start_packet :: "PackAge \<Rightarrow> u8 list \<Rightarrow> scanner \<Rightarrow> packet_result" where
  "start_packet p xs st =
    (let st1 = st\<lparr>circle := circle st + 1\<rparr> in
     if circle st1 > 1 \<and> circle st1 - 2 \<ge> AROUND_SIZE then Stop Undefined
     else
       let st2 = if circle st1 > 1 then file_turn st1 else st1 in
       if circle st2 = 6
       then Stop (Finished (st2\<lparr>circle := 0, sent := sent st2 @ [0xA5, 0x65], events := events st2 + 1\<rparr>) xs)
       else
         (case xs of
            l # f0 # f1 # l0 # l1 # c0 # c1 # b0 # b1 # xs1 \<Rightarrow>
              let p1 = p\<lparr>lsn := unat l, fsa := field16 f0 f1, lsa := field16 l0 l1, cs := field16 c0 c1,
                         buf := (buf p)(0 := field16 b0 b1)\<rparr> in
              if 0 \<le> circle st2 - 1 \<and> circle st2 - 1 < AROUND_SIZE
              then let c = nat (circle st2 - 1)
                   in Continue p1 xs1 (st2\<lparr>around := (around st2)(c := (around st2 c)
                        \<lparr>firstpoint := \<lparr>angle = fsa p1 div 2, distance = buf p1 0\<rparr>\<rparr>)\<rparr>)
              else Stop Undefined
          | _ \<Rightarrow> Stop (Starved st2)))"

lemma read_samples_length: "read_samples n i b xs = Samples b' xs' \<Longrightarrow> length xs' \<le> length xs"
  by (induction n i b xs rule: read_samples.induct) (auto split: if_splits)

lemma data_packet_length: "data_packet p xs st = Continue p' xs' st' \<Longrightarrow> length xs' \<le> length xs"
  by (auto simp: data_packet_def Let_def split: list.splits samples_result.splits if_splits option.splits
      dest!: read_samples_length)

lemma start_packet_length: "start_packet p xs st = Continue p' xs' st' \<Longrightarrow> length xs' \<le> length xs"
  by (auto simp: start_packet_def Let_def split: list.splits if_splits)

function manipulationData :: "PackAge \<Rightarrow> u8 list \<Rightarrow> scanner \<Rightarrow> scan_result" where
  "manipulationData p [] st = Starved st"
| "manipulationData p [b1] st = Starved st"
| "manipulationData p (b1 # b2 # xs) st =
    (if b1 \<noteq> 0xAA then manipulationData p (b2 # xs) st
     else if b2 \<noteq> 0x55 then manipulationData p xs st
     else case xs of
       [] \<Rightarrow> Starved st
     | ct # ys \<Rightarrow>
        if ct = 0x00 then
          (case data_packet p ys st of Continue p' zs st' \<Rightarrow> manipulationData p' zs st' | Stop r \<Rightarrow> r)
        else if ct = 0x01 then
          (case start_packet p ys st of Continue p' zs st' \<Rightarrow> manipulationData p' zs st' | Stop r \<Rightarrow> r)
        else Finished st ys)"
  by pat_completeness auto
termination
  by (relation "measure (\<lambda>(p, xs, st). length xs)")
    (auto dest!: data_packet_length start_packet_length)

section \<open>What a packet adds\<close>

text \<open>A packet on the wire: samples are pairs of a low and a high byte.\<close>

definition sample_bytes :: "(u8 \<times> u8) list \<Rightarrow> u8 list" where
  "sample_bytes ss = concat (map (\<lambda>(low, high). [low, high]) ss)"

definition data_frame :: "u8 \<times> u8 \<Rightarrow> u8 \<times> u8 \<Rightarrow> u8 \<times> u8 \<Rightarrow> (u8 \<times> u8) list \<Rightarrow> u8 list" where
  "data_frame f l c ss =
    [0xAA, 0x55, 0x00, of_nat (length ss), fst f, snd f, fst l, snd l, fst c, snd c] @ sample_bytes ss"

definition start_frame :: "u8 \<Rightarrow> u8 \<times> u8 \<Rightarrow> u8 \<times> u8 \<Rightarrow> u8 \<times> u8 \<Rightarrow> u8 \<times> u8 \<Rightarrow> u8 list" where
  "start_frame n f l c d =
    [0xAA, 0x55, 0x01, n, fst f, snd f, fst l, snd l, fst c, snd c, fst d, snd d]"

text \<open>The angle of sample \<open>i\<close> and the points a packet contributes.\<close>

definition point_angle :: "bool \<Rightarrow> nat \<Rightarrow> nat \<Rightarrow> nat \<Rightarrow> nat" where
  "point_angle wraps f diff i =
    (let a = (f div 2 + i * diff mod 65536) mod 65536 in if wraps \<and> a > 23040 then a - 23040 else a)"

fun packet_points :: "bool \<Rightarrow> nat \<Rightarrow> nat \<Rightarrow> nat list \<Rightarrow> nat \<Rightarrow> AroundPoint list" where
  "packet_points wraps f diff [] i = []"
| "packet_points wraps f diff (d # ds) i =
    (if d \<noteq> 0 then \<lparr>angle = point_angle wraps f diff i, distance = d\<rparr> # packet_points wraps f diff ds (i + 1)
     else packet_points wraps f diff ds (i + 1))"

text \<open>The points of the turn being recorded.\<close>

definition turn :: "scanner \<Rightarrow> nat" where
  "turn st = nat (circle st - 1)"

definition current_points :: "scanner \<Rightarrow> AroundPoint list" where
  "current_points st = map (ap (around st (turn st))) [0..<nat (count st)]"

definition recording :: "scanner \<Rightarrow> bool" where
  "recording st \<longleftrightarrow> 1 \<le> circle st \<and> circle st \<le> 5 \<and> 0 \<le> count st"

text \<open>Everything but the points of the current turn.\<close>

definition same_rest :: "scanner \<Rightarrow> scanner \<Rightarrow> bool" where
  "same_rest st st' \<longleftrightarrow> circle st' = circle st \<and> sent st' = sent st \<and> events st' = events st \<and>
     printed st' = printed st \<and> (\<forall>c. c \<noteq> turn st \<longrightarrow> around st' c = around st c) \<and>
     firstpoint (around st' (turn st)) = firstpoint (around st (turn st)) \<and>
     number (around st' (turn st)) = number (around st (turn st))"

lemma same_rest_refl [simp]: "same_rest st st"
  by (simp add: same_rest_def)

lemma same_rest_turn: "same_rest st st' \<Longrightarrow> turn st' = turn st"
  by (simp add: same_rest_def turn_def)

lemma same_rest_trans: "same_rest a b \<Longrightarrow> same_rest b c \<Longrightarrow> same_rest a c"
  by (auto simp: same_rest_def turn_def)

lemma store_point_result:
  assumes "recording st" "count st < AP_SIZE"
  shows "\<exists>st'. store_point a d st = Some st' \<and> same_rest st st' \<and> recording st' \<and> count st' = count st + 1 \<and>
    current_points st' = current_points st @ [\<lparr>angle = a, distance = d\<rparr>]"
proof -
  let ?c = "turn st"
  let ?st = "st\<lparr>around := (around st)(?c := (around st ?c)\<lparr>ap := (ap (around st ?c))
      (nat (count st) := \<lparr>angle = a, distance = d\<rparr>)\<rparr>), count := count st + 1\<rparr>"
  have "store_point a d st = Some ?st"
    using assms by (simp add: store_point_def recording_def turn_def Let_def)
  moreover have "nat (count st + 1) = Suc (nat (count st))"
    using assms by (simp add: recording_def nat_add_distrib)
  ultimately show ?thesis
    using assms by (auto simp: same_rest_def recording_def current_points_def turn_def)
qed

lemma record_points_result:
  assumes "recording st" "count st + int (length (packet_points wraps f diff ds i)) \<le> AP_SIZE"
  shows "\<exists>st'. record_points wraps f diff ds i st = Some st' \<and> same_rest st st' \<and> recording st' \<and>
    count st' = count st + int (length (packet_points wraps f diff ds i)) \<and>
    current_points st' = current_points st @ packet_points wraps f diff ds i"
  using assms
proof (induction ds arbitrary: i st)
  case (Cons d ds)
  show ?case
  proof (cases "d = 0")
    case False
    then have "count st < AP_SIZE" using Cons.prems(2) by simp
    from store_point_result [OF Cons.prems(1) this, of "point_angle wraps f diff i" d]
    obtain st1 where st1: "store_point (point_angle wraps f diff i) d st = Some st1" "same_rest st st1"
      "recording st1" "count st1 = count st + 1"
      "current_points st1 = current_points st @ [\<lparr>angle = point_angle wraps f diff i, distance = d\<rparr>]"
      by blast
    obtain st2 where st2: "record_points wraps f diff ds (i + 1) st1 = Some st2" "same_rest st1 st2"
      "recording st2" "count st2 = count st1 + int (length (packet_points wraps f diff ds (i + 1)))"
      "current_points st2 = current_points st1 @ packet_points wraps f diff ds (i + 1)"
      using Cons.IH [OF st1(3), of "i + 1"] Cons.prems(2) st1(4) False by auto
    have "record_points wraps f diff (d # ds) i st = Some st2"
      using st1(1) st2(1) False by (simp add: point_angle_def Let_def)
    then show ?thesis
      using False st1 st2 same_rest_trans [OF st1(2) st2(2)] by auto
  qed (use Cons in simp)
qed simp

lemma read_sample_bytes:
  assumes "i + length ss \<le> BUF_SIZE"
  shows "\<exists>b'. read_samples (length ss) i b (sample_bytes ss @ rest) = Samples b' rest \<and>
    map b' [i..<i + length ss] = map (\<lambda>(low, high). field16 low high) ss \<and> (\<forall>j<i. b' j = b j)"
  using assms
proof (induction ss arbitrary: i b)
  case (Cons s ss)
  obtain low high where s: "s = (low, high)" by (cases s)
  let ?b = "b(i := field16 low high)"
  have le: "i + 1 + length ss \<le> BUF_SIZE" using Cons.prems by simp
  obtain b' where b': "read_samples (length ss) (i + 1) ?b (sample_bytes ss @ rest) = Samples b' rest"
    "map b' [i + 1..<i + 1 + length ss] = map (\<lambda>(low, high). field16 low high) ss" "\<forall>j<i + 1. b' j = ?b j"
    using Cons.IH [OF le, of ?b] by blast
  have "[i..<i + length (s # ss)] = i # [i + 1..<i + 1 + length ss]"
    by (subst upt_rec) (simp del: upt_Suc)
  then show ?case
    using b' Cons.prems by (intro exI [of _ b']) (auto simp: s sample_bytes_def)
qed (simp add: sample_bytes_def)

text \<open>
  A data packet of one to forty samples, in a turn with room for its points, adds exactly
  those points to the turn and goes on with the input behind it.
\<close>

definition frame_points :: "u8 \<times> u8 \<Rightarrow> u8 \<times> u8 \<Rightarrow> (u8 \<times> u8) list \<Rightarrow> AroundPoint list" where
  "frame_points f l ss =
    (let f' = field16 (fst f) (snd f); l' = field16 (fst l) (snd l);
         p = \<lparr>lsn = length ss, fsa = f', lsa = l', cs = 0, buf = \<lambda>_. 0\<rparr>
     in packet_points (f' > l') f' (angle_diff p) (map (\<lambda>(low, high). field16 low high) ss) 0)"

lemma data_frame_step:
  assumes rec: "recording st" and n: "0 < length ss" "length ss \<le> BUF_SIZE"
    and room: "count st + int (length (frame_points f l ss)) \<le> AP_SIZE"
  shows "\<exists>p' st'. manipulationData p (data_frame f l c ss @ rest) st = manipulationData p' rest st' \<and>
    same_rest st st' \<and> recording st' \<and> count st' = count st + int (length (frame_points f l ss)) \<and>
    current_points st' = current_points st @ frame_points f l ss"
proof -
  have u: "unat (of_nat (length ss) :: u8) = length ss" using n by (simp add: unat_of_nat)
  obtain b' where b': "read_samples (length ss) 0 (buf p) (sample_bytes ss @ rest) = Samples b' rest"
    "map b' [0..<length ss] = map (\<lambda>(low, high). field16 low high) ss"
    using read_sample_bytes [of 0 ss "buf p" rest] n by auto
  let ?f = "field16 (fst f) (snd f)" and ?l = "field16 (fst l) (snd l)"
  let ?p = "p\<lparr>lsn := length ss, fsa := ?f, lsa := ?l, cs := field16 (fst c) (snd c), buf := b'\<rparr>"
  have d: "angle_diff ?p = angle_diff \<lparr>lsn = length ss, fsa = ?f, lsa = ?l, cs = 0, buf = \<lambda>_. 0\<rparr>"
    by (simp add: angle_diff_def)
  obtain st' where st': "record_points (?f > ?l) ?f (angle_diff ?p) (map b' [0..<length ss]) 0 st = Some st'"
    "same_rest st st'" "recording st'" "count st' = count st + int (length (frame_points f l ss))"
    "current_points st' = current_points st @ frame_points f l ss"
    using record_points_result [OF rec] room unfolding frame_points_def Let_def b'(2) d by blast
  have "data_packet p (tl (tl (tl (data_frame f l c ss))) @ rest) st = Continue ?p rest st'"
    using st'(1) b'(1) u n by (simp add: data_frame_def data_packet_def Let_def)
  then show ?thesis
    using st'(2-) by (intro exI [of _ ?p] exI [of _ st']) (simp add: data_frame_def)
qed

section \<open>Turns and scans\<close>

type_synonym frame = "(u8 \<times> u8) \<times> (u8 \<times> u8) \<times> (u8 \<times> u8) \<times> (u8 \<times> u8) list"

definition frame_bytes :: "frame \<Rightarrow> u8 list" where
  "frame_bytes x = (case x of (f, l, c, ss) \<Rightarrow> data_frame f l c ss)"

definition points_of :: "frame \<Rightarrow> AroundPoint list" where
  "points_of x = (case x of (f, l, c, ss) \<Rightarrow> frame_points f l ss)"

text \<open>One to forty samples, and angles within a full turn, of 46080 half steps (180 in the high byte).\<close>

definition frame_ok :: "frame \<Rightarrow> bool" where
  "frame_ok x = (case x of (f, l, c, ss) \<Rightarrow>
     0 < length ss \<and> length ss \<le> BUF_SIZE \<and> unat (snd f) \<le> 180 \<and> unat (snd l) \<le> 180)"

abbreviation turn_points :: "frame list \<Rightarrow> AroundPoint list" where
  "turn_points fs \<equiv> concat (map points_of fs)"

lemma frames_step:
  assumes "recording st" "\<forall>x\<in>set fs. frame_ok x"
    and "count st + int (length (turn_points fs)) \<le> AP_SIZE"
  shows "\<exists>p' st'. manipulationData p (concat (map frame_bytes fs) @ rest) st = manipulationData p' rest st' \<and>
    same_rest st st' \<and> recording st' \<and> count st' = count st + int (length (turn_points fs)) \<and>
    current_points st' = current_points st @ turn_points fs"
  using assms
proof (induction fs arbitrary: p st)
  case Nil
  then show ?case by (intro exI [of _ p] exI [of _ st]) simp
next
  case (Cons x fs)
  obtain f l c ss where x: "x = (f, l, c, ss)" by (cases x)
  have n: "0 < length ss" "length ss \<le> BUF_SIZE" using Cons.prems(2) by (simp_all add: x frame_ok_def)
  have "count st + int (length (frame_points f l ss)) \<le> AP_SIZE"
    using Cons.prems(3) by (simp add: x points_of_def)
  from data_frame_step [OF Cons.prems(1) n this, of p c "concat (map frame_bytes fs) @ rest"]
  obtain p1 st1 where st1: "manipulationData p (data_frame f l c ss @ concat (map frame_bytes fs) @ rest) st =
      manipulationData p1 (concat (map frame_bytes fs) @ rest) st1" "same_rest st st1" "recording st1"
    "count st1 = count st + int (length (frame_points f l ss))"
    "current_points st1 = current_points st @ frame_points f l ss" by blast
  have px: "points_of x = frame_points f l ss" by (simp add: x points_of_def)
  have "count st1 + int (length (turn_points fs)) \<le> AP_SIZE"
    using Cons.prems(3) st1(4) by (simp add: px)
  with Cons.IH [OF st1(3), of p1] Cons.prems(2)
  obtain p2 st2 where st2: "manipulationData p1 (concat (map frame_bytes fs) @ rest) st1 = manipulationData p2 rest st2"
    "same_rest st1 st2" "recording st2" "count st2 = count st1 + int (length (turn_points fs))"
    "current_points st2 = current_points st1 @ turn_points fs" by auto
  then show ?case
    using st1 same_rest_trans [OF st1(2) st2(2)]
    by (intro exI [of _ p2] exI [of _ st2]) (simp add: px, simp add: x frame_bytes_def)
qed

text \<open>A turn on the wire: its start packet and its data packets.\<close>

type_synonym header = "u8 \<times> (u8 \<times> u8) \<times> (u8 \<times> u8) \<times> (u8 \<times> u8) \<times> (u8 \<times> u8)"

definition header_bytes :: "header \<Rightarrow> u8 list" where
  "header_bytes h = (case h of (n, f, l, c, d) \<Rightarrow> start_frame n f l c d)"

definition turn_bytes :: "header \<times> frame list \<Rightarrow> u8 list" where
  "turn_bytes t = header_bytes (fst t) @ concat (map frame_bytes (snd t))"

definition filed :: "scanner \<Rightarrow> nat \<Rightarrow> AroundPoint list \<Rightarrow> bool" where
  "filed st i ps \<longleftrightarrow> number (around st i) = int (length ps) \<and> map (ap (around st i)) [0..<length ps] = ps"

lemma header_step:
  assumes "0 \<le> circle st" "circle st \<le> 4" "0 \<le> count st"
  shows "\<exists>p' st'. manipulationData p (header_bytes h @ rest) st = manipulationData p' rest st' \<and>
    recording st' \<and> circle st' = circle st + 1 \<and> sent st' = sent st \<and> events st' = events st \<and>
    count st' = (if circle st = 0 then count st else 0) \<and>
    (\<forall>i. number (around st' i) = (if circle st \<noteq> 0 \<and> i = turn st then count st else number (around st i))) \<and>
    (\<forall>i. ap (around st' i) = ap (around st i))"
proof -
  obtain n f l c d where h: "h = (n, f, l, c, d)" by (cases h) auto
  define st2 where "st2 = (if circle st > 0 then file_turn (st\<lparr>circle := circle st + 1\<rparr>) else st\<lparr>circle := circle st + 1\<rparr>)"
  have st2: "circle st2 = circle st + 1" "sent st2 = sent st" "events st2 = events st"
    "count st2 = (if circle st = 0 then count st else 0)"
    "\<forall>i. number (around st2 i) = (if circle st \<noteq> 0 \<and> i = turn st then count st else number (around st i))"
    "\<forall>i. ap (around st2 i) = ap (around st i)"
    using assms by (auto simp: st2_def file_turn_def turn_def Let_def)
  define p1 where "p1 = p\<lparr>lsn := unat n, fsa := field16 (fst f) (snd f), lsa := field16 (fst l) (snd l),
      cs := field16 (fst c) (snd c), buf := (buf p)(0 := field16 (fst d) (snd d))\<rparr>"
  have sp: "start_packet p ([n, fst f, snd f, fst l, snd l, fst c, snd c, fst d, snd d] @ rest) st =
      Continue p1 rest (st2\<lparr>around := (around st2)(nat (circle st2 - 1) := (around st2 (nat (circle st2 - 1)))
        \<lparr>firstpoint := \<lparr>angle = fsa p1 div 2, distance = buf p1 0\<rparr>\<rparr>)\<rparr>)"
    using assms st2(1) by (simp add: start_packet_def Let_def st2_def [symmetric] p1_def)
  obtain p' st' where "start_packet p ([n, fst f, snd f, fst l, snd l, fst c, snd c, fst d, snd d] @ rest) st =
      Continue p' rest st'"
    and "recording st'" "circle st' = circle st + 1" "sent st' = sent st" "events st' = events st"
      "count st' = (if circle st = 0 then count st else 0)"
      "\<forall>i. number (around st' i) = (if circle st \<noteq> 0 \<and> i = turn st then count st else number (around st i))"
      "\<forall>i. ap (around st' i) = ap (around st i)"
    using assms st2 unfolding sp by (simp add: recording_def)
  then show ?thesis
    by (intro exI [of _ p'] exI [of _ st']) (simp add: h header_bytes_def start_frame_def)
qed

definition scan_end :: "u8 list" where
  "scan_end = [0xAA, 0x55, 0x01]"

lemma end_step:
  assumes "circle st = 5"
  shows "\<exists>st'. manipulationData p (scan_end @ rest) st = Finished st' rest \<and> circle st' = 0 \<and> count st' = 0 \<and>
    sent st' = sent st @ [0xA5, 0x65] \<and> events st' = events st + 1 \<and>
    (\<forall>i. number (around st' i) = (if i = 4 then count st else number (around st i))) \<and>
    (\<forall>i. ap (around st' i) = ap (around st i))"
  using assms by (simp add: scan_end_def start_packet_def file_turn_def Let_def)

lemma turn_step:
  assumes "0 \<le> circle st" "circle st \<le> 4" "0 \<le> count st" "circle st = 0 \<longrightarrow> count st = 0"
    and "\<forall>x\<in>set (snd t). frame_ok x" "int (length (turn_points (snd t))) \<le> AP_SIZE"
  shows "\<exists>p' st'. manipulationData p (turn_bytes t @ rest) st = manipulationData p' rest st' \<and>
    recording st' \<and> circle st' = circle st + 1 \<and> sent st' = sent st \<and> events st' = events st \<and>
    count st' = int (length (turn_points (snd t))) \<and> current_points st' = turn_points (snd t) \<and>
    (\<forall>i. i \<noteq> nat (circle st) \<longrightarrow> ap (around st' i) = ap (around st i) \<and>
       number (around st' i) = (if circle st \<noteq> 0 \<and> i = turn st then count st else number (around st i)))"
proof -
  obtain p1 st1 where st1: "manipulationData p (header_bytes (fst t) @ concat (map frame_bytes (snd t)) @ rest) st =
      manipulationData p1 (concat (map frame_bytes (snd t)) @ rest) st1"
    "recording st1" "circle st1 = circle st + 1" "sent st1 = sent st" "events st1 = events st" "count st1 = 0"
    "\<forall>i. number (around st1 i) = (if circle st \<noteq> 0 \<and> i = turn st then count st else number (around st i))"
    "\<forall>i. ap (around st1 i) = ap (around st i)"
    using header_step [OF assms(1-3), of p "fst t" "concat (map frame_bytes (snd t)) @ rest"] assms(4)
    by (cases "circle st = 0") auto
  have room: "count st1 + int (length (turn_points (snd t))) \<le> AP_SIZE" using assms(6) st1(6) by simp
  obtain p2 st2 where st2: "manipulationData p1 (concat (map frame_bytes (snd t)) @ rest) st1 = manipulationData p2 rest st2"
    "same_rest st1 st2" "recording st2" "count st2 = count st1 + int (length (turn_points (snd t)))"
    "current_points st2 = current_points st1 @ turn_points (snd t)"
    using frames_step [OF st1(2) assms(5) room] by blast
  have "current_points st1 = []" using st1(6) by (simp add: current_points_def)
  moreover have "turn st1 = nat (circle st)" using st1(3) by (simp add: turn_def)
  ultimately show ?thesis
    using st1 st2
    by (intro exI [of _ p2] exI [of _ st2]) (auto simp: turn_bytes_def same_rest_def)
qed

lemma scan_rest:
  assumes "circle st = int c" "1 \<le> c" "c + length ts = 5" "recording st"
    and "\<forall>t\<in>set ts. (\<forall>x\<in>set (snd t). frame_ok x) \<and> int (length (turn_points (snd t))) \<le> AP_SIZE"
  shows "\<exists>st'. manipulationData p (concat (map turn_bytes ts) @ scan_end @ rest) st = Finished st' rest \<and>
    circle st' = 0 \<and> count st' = 0 \<and> sent st' = sent st @ [0xA5, 0x65] \<and> events st' = events st + 1 \<and>
    filed st' (c - 1) (current_points st) \<and>
    (\<forall>j<length ts. filed st' (c + j) (turn_points (snd (ts ! j)))) \<and>
    (\<forall>i<c - 1. ap (around st' i) = ap (around st i) \<and> number (around st' i) = number (around st i))"
  using assms
proof (induction ts arbitrary: c p st)
  case Nil
  then have "circle st = 5" "turn st = 4" by (auto simp: turn_def)
  with end_step [of st p rest] Nil show ?case
    by (auto simp: filed_def current_points_def recording_def)
next
  case (Cons t ts)
  have c: "0 \<le> circle st" "circle st \<le> 4" "0 \<le> count st" "circle st = 0 \<longrightarrow> count st = 0" "nat (circle st) = c"
    "turn st = c - 1" "circle st \<noteq> 0"
    using Cons.prems by (auto simp: recording_def turn_def)
  obtain p1 st1 where st1: "manipulationData p (turn_bytes t @ concat (map turn_bytes ts) @ scan_end @ rest) st =
      manipulationData p1 (concat (map turn_bytes ts) @ scan_end @ rest) st1"
    "recording st1" "circle st1 = circle st + 1" "sent st1 = sent st" "events st1 = events st"
    "count st1 = int (length (turn_points (snd t)))" "current_points st1 = turn_points (snd t)"
    "\<forall>i. i \<noteq> c \<longrightarrow> ap (around st1 i) = ap (around st i) \<and>
       number (around st1 i) = (if i = c - 1 then count st else number (around st i))"
    using turn_step [OF c(1-4), of t p "concat (map turn_bytes ts) @ scan_end @ rest"] Cons.prems(5) c(5-7) by auto
  have "circle st1 = int (Suc c)" "1 \<le> Suc c" "Suc c + length ts = 5"
    using st1(3) Cons.prems(1,3) by simp_all
  from Cons.IH [OF this st1(2), of p1] Cons.prems(5)
  obtain st2 where st2: "manipulationData p1 (concat (map turn_bytes ts) @ scan_end @ rest) st1 = Finished st2 rest"
    "circle st2 = 0" "count st2 = 0" "sent st2 = sent st1 @ [0xA5, 0x65]" "events st2 = events st1 + 1"
    "filed st2 c (current_points st1)" "\<forall>j<length ts. filed st2 (Suc c + j) (turn_points (snd (ts ! j)))"
    "\<forall>i<c. ap (around st2 i) = ap (around st1 i) \<and> number (around st2 i) = number (around st1 i)"
    by auto
  have "filed st2 (c - 1) (current_points st)"
    using st2(8) st1(8) Cons.prems(2,4) c(6) by (auto simp: filed_def current_points_def recording_def)
  moreover have "filed st2 (c + j) (turn_points (snd ((t # ts) ! j)))" if "j < length (t # ts)" for j
    using st2(6,7) st1(7) that by (cases j) auto
  ultimately show ?case
    using st1 st2 Cons.prems(2) by (intro exI [of _ st2]) auto
qed

lemma full_scan:
  assumes "circle st = 0" "count st = 0" "length ts = 5"
    and "\<forall>t\<in>set ts. (\<forall>x\<in>set (snd t). frame_ok x) \<and> int (length (turn_points (snd t))) \<le> AP_SIZE"
  shows "\<exists>st'. manipulationData p (concat (map turn_bytes ts) @ scan_end @ rest) st = Finished st' rest \<and>
    circle st' = 0 \<and> count st' = 0 \<and> sent st' = sent st @ [0xA5, 0x65] \<and> events st' = events st + 1 \<and>
    (\<forall>i<5. filed st' i (turn_points (snd (ts ! i))))"
proof -
  obtain t us where ts: "ts = t # us" "length us = 4" using assms(3) by (cases ts) auto
  obtain p1 st1 where st1: "manipulationData p (turn_bytes t @ concat (map turn_bytes us) @ scan_end @ rest) st =
      manipulationData p1 (concat (map turn_bytes us) @ scan_end @ rest) st1"
    "recording st1" "circle st1 = int 1" "sent st1 = sent st" "events st1 = events st"
    "current_points st1 = turn_points (snd t)"
    using turn_step [of st t p "concat (map turn_bytes us) @ scan_end @ rest"] assms ts by auto
  obtain st2 where st2: "manipulationData p1 (concat (map turn_bytes us) @ scan_end @ rest) st1 = Finished st2 rest"
    "circle st2 = 0" "count st2 = 0" "sent st2 = sent st1 @ [0xA5, 0x65]" "events st2 = events st1 + 1"
    "filed st2 0 (current_points st1)" "\<forall>j<length us. filed st2 (1 + j) (turn_points (snd (us ! j)))"
    using scan_rest [OF st1(3) _ _ st1(2), of us p1 rest] assms(4) ts by auto
  have "filed st2 i (turn_points (snd (ts ! i)))" if "i < 5" for i
    using that st2(6,7) st1(6) ts by (cases i) auto
  then show ?thesis using st1 st2 ts by (intro exI [of _ st2]) auto
qed

section \<open>The recorded angles and distances\<close>

lemma packet_points_mem:
  "x \<in> set (packet_points wraps f diff ds i) \<Longrightarrow>
   \<exists>j<length ds. x = \<lparr>angle = point_angle wraps f diff (i + j), distance = ds ! j\<rparr> \<and> ds ! j \<noteq> 0"
proof (induction ds arbitrary: i)
  case (Cons d ds)
  show ?case
  proof (cases "d \<noteq> 0 \<and> x = \<lparr>angle = point_angle wraps f diff i, distance = d\<rparr>")
    case True
    then show ?thesis by (intro exI [of _ 0]) simp
  next
    case False
    then have "x \<in> set (packet_points wraps f diff ds (i + 1))" using Cons.prems by (auto split: if_splits)
    from Cons.IH [OF this] obtain j where "j < length ds"
      "x = \<lparr>angle = point_angle wraps f diff (i + 1 + j), distance = ds ! j\<rparr>" "ds ! j \<noteq> 0" by blast
    then show ?thesis by (intro exI [of _ "Suc j"]) simp
  qed
qed simp

lemma field16_bound: "field16 low high < 65536" "field16 low high = 256 * unat high"
proof -
  have "unat high < 256" using unsigned_less [of high] by simp
  then show "field16 low high < 65536" "field16 low high = 256 * unat high"
    by (simp_all add: field16_def Let_def)
qed

lemma div_mult_le: "i < n \<Longrightarrow> i * (d div n) \<le> d" for d :: nat
proof -
  assume "i < n"
  then have "i * (d div n) \<le> n * (d div n)" by simp
  also have "\<dots> \<le> d" by simp
  finally show ?thesis .
qed

lemma nat_mod_u16: "x < 65536 \<Longrightarrow> nat (int x mod 65536) = x"
  by simp

lemma angle_diff_straight:
  assumes "fsa p \<le> lsa p" "lsa p < 65536"
  shows "angle_diff p = (lsa p div 2 - fsa p div 2) div lsn p"
proof -
  have e: "angle_diff p = nat ((int (lsa p div 2) - int (fsa p div 2)) sdiv int (lsn p) mod 65536)"
    unfolding angle_diff_def using assms(1) by (simp only: not_less [symmetric] if_False)
  have "int (lsa p div 2) - int (fsa p div 2) = int (lsa p div 2 - fsa p div 2)"
    by (rule of_nat_diff [symmetric]) (rule div_le_mono [OF assms(1)])
  moreover have "(lsa p div 2 - fsa p div 2) div lsn p < 65536"
    by (rule le_less_trans [OF div_le_dividend le_less_trans [OF diff_le_self
        le_less_trans [OF div_le_dividend assms(2)]]])
  ultimately show ?thesis unfolding e by (simp only: int_sdiv nat_mod_u16)
qed

lemma angle_diff_wraps:
  assumes "lsa p < fsa p" "fsa p div 2 \<le> 23040" "lsa p div 2 \<le> 23040"
  shows "angle_diff p = (lsa p div 2 + (23040 - fsa p div 2)) div lsn p"
proof -
  have e: "angle_diff p = nat ((int (lsa p div 2) + (23040 - int (fsa p div 2))) sdiv int (lsn p) mod 65536)"
    unfolding angle_diff_def using assms(1) by (simp only: if_True)
  have s: "int x + (23040 - int y) = int (x + (23040 - y))" if "y \<le> 23040" for x y :: nat
    using that by simp
  have "(lsa p div 2 + (23040 - fsa p div 2)) div lsn p \<le> 23040 + 23040"
    by (rule order_trans [OF div_le_dividend add_mono [OF assms(3) diff_le_self]])
  then have "(lsa p div 2 + (23040 - fsa p div 2)) div lsn p < 65536" by (rule le_less_trans) simp
  then show ?thesis unfolding e s [OF assms(2)] by (simp only: int_sdiv nat_mod_u16)
qed

text \<open>Every point lies on the arc from the first to the last angle of its packet.\<close>

definition on_arc :: "nat \<Rightarrow> nat \<Rightarrow> nat \<Rightarrow> bool" where
  "on_arc f l a \<longleftrightarrow> (if f \<le> l then f div 2 \<le> a \<and> a \<le> l div 2 else (f div 2 \<le> a \<and> a \<le> 23040) \<or> a \<le> l div 2)"

lemma wrap_arc:
  fixes a b k :: nat
  assumes "a \<le> 23040" "b \<le> 23040" "k \<le> b + (23040 - a)"
  shows "a + k \<le> 23040 + b" "(a + k mod 65536) mod 65536 = a + k"
proof -
  show "a + k \<le> 23040 + b" using assms by linarith
  then have "a + k < 65536" "k < 65536" using assms by linarith+
  then show "(a + k mod 65536) mod 65536 = a + k" by (simp only: mod_less)
qed

lemma arc_cases:
  fixes a b k x :: nat
  shows "x = (if a + k > 23040 then a + k - 23040 else a + k) \<Longrightarrow> a + k \<le> 23040 + b \<Longrightarrow>
    (a \<le> x \<and> x \<le> 23040) \<or> x \<le> b"
  by (auto split: if_splits)

lemma frame_points_arc:
  fixes f l :: "u8 \<times> u8"
  defines "f' \<equiv> field16 (fst f) (snd f)" and "l' \<equiv> field16 (fst l) (snd l)"
  assumes "f' \<le> l' \<or> f' div 2 \<le> 23040" and x: "x \<in> set (frame_points f l ss)"
  shows "on_arc f' l' (angle x)" "distance x mod 256 = 0"
proof -
  let ?p = "\<lparr>lsn = length ss, fsa = f', lsa = l', cs = 0, buf = \<lambda>_. 0\<rparr>"
  let ?ds = "map (\<lambda>(low, high). field16 low high) ss"
  obtain j where j: "j < length ss" "x = \<lparr>angle = point_angle (f' > l') f' (angle_diff ?p) j, distance = ?ds ! j\<rparr>"
    using packet_points_mem [of x "f' > l'" f' "angle_diff ?p" ?ds 0] x
    by (auto simp: frame_points_def Let_def f'_def l'_def)
  have b: "l' < 65536" "f' < 65536" using field16_bound(1) by (simp_all add: f'_def l'_def)
  have n: "0 < length ss" using j(1) by (cases ss) auto
  show "distance x mod 256 = 0"
    using j by (simp add: field16_bound(2) split: prod.splits)
  show "on_arc f' l' (angle x)"
  proof (cases "f' \<le> l'")
    case True
    let ?d = "l' div 2 - f' div 2"
    have d: "angle_diff ?p = ?d div length ss" using angle_diff_straight [of ?p] True b(1) by simp
    have le: "j * (?d div length ss) \<le> ?d" by (rule div_mult_le [OF j(1)])
    have "f' div 2 \<le> l' div 2" using True by (rule div_le_mono)
    then have a: "f' div 2 + j * (?d div length ss) \<le> l' div 2" using le by linarith
    then have "angle x = f' div 2 + j * (?d div length ss)"
      using True b(1) by (simp add: j(2) point_angle_def d)
    then show ?thesis using a True by (simp add: on_arc_def)
  next
    case False
    then have f2: "f' div 2 \<le> 23040" "l' div 2 \<le> 23040" using assms(3) by auto
    let ?d = "l' div 2 + (23040 - f' div 2)"
    have d: "angle_diff ?p = ?d div length ss" using angle_diff_wraps [of ?p] False f2 by simp
    let ?k = "j * (?d div length ss)"
    have k: "?k \<le> ?d" by (rule div_mult_le [OF j(1)])
    have "angle x = (if f' div 2 + ?k > 23040 then f' div 2 + ?k - 23040 else f' div 2 + ?k)"
      using False unfolding j(2) by (simp add: point_angle_def d wrap_arc(2) [OF f2 k] Let_def)
    from arc_cases [OF this wrap_arc(1) [OF f2 k]] False show ?thesis
      unfolding on_arc_def by (simp only: if_False)
  qed
qed

text \<open>
  What a packet says, read off its bytes and independent of the code: fields of sixteen bits with
  the low byte first, distances in millimetres with zero for a lost sample, a first and a last angle
  in units of 1/128 degree, and the samples at equal steps on the arc between them, which crosses
  zero degrees when the first angle is the larger one. Angles are counted in steps of 1/64 degree.
\<close>

definition value16 :: "u8 \<times> u8 \<Rightarrow> nat" where
  "value16 x = unat (fst x) + 256 * unat (snd x)"

definition arc :: "nat \<Rightarrow> nat \<Rightarrow> nat" where
  "arc a b = (if a \<le> b then b - a else 23040 - a + b)"

definition around_turn :: "nat \<Rightarrow> nat" where
  "around_turn a = (if a > 23040 then a - 23040 else a)"

definition said_points :: "frame \<Rightarrow> AroundPoint list" where
  "said_points x = (case x of (f, l, c, ss) \<Rightarrow>
     let a = value16 f div 2; step = arc a (value16 l div 2) div length ss
     in map (\<lambda>(i, s). \<lparr>angle = around_turn (a + i * step), distance = value16 s\<rparr>)
          (filter (\<lambda>(i, s). value16 s \<noteq> 0) (enumerate 0 ss)))"

text \<open>A packet to the precision of its high bytes: what it would say with all low bytes zero.\<close>

definition coarse :: "frame \<Rightarrow> frame" where
  "coarse x = (case x of (f, l, c, ss) \<Rightarrow> ((0, snd f), (0, snd l), c, map (\<lambda>s. (0, snd s)) ss))"

lemma coarse_value: "value16 (0, snd x) = 256 * (value16 x div 256)"
proof -
  have "unat (fst x) < 256" using unsigned_less [of "fst x"] by simp
  then show ?thesis by (simp add: value16_def)
qed

definition decoded :: "frame list \<Rightarrow> AroundPoint list" where
  "decoded fs = concat (map (\<lambda>x. said_points (coarse x)) fs)"

lemma packet_points_enumerate:
  assumes "\<And>j. i \<le> j \<Longrightarrow> j < i + length ss \<Longrightarrow> point_angle w f d j = around_turn (a + j * d)"
  shows "packet_points w f d (map (\<lambda>(low, high). field16 low high) ss) i =
    map (\<lambda>(i, s). \<lparr>angle = around_turn (a + i * d), distance = value16 s\<rparr>)
      (filter (\<lambda>(i, s). value16 s \<noteq> 0) (enumerate i (map (\<lambda>s. (0, snd s)) ss)))"
  using assms
proof (induction ss arbitrary: i)
  case (Cons s ss)
  have "packet_points w f d (map (\<lambda>(low, high). field16 low high) ss) (Suc i) =
      map (\<lambda>(i, s). \<lparr>angle = around_turn (a + i * d), distance = value16 s\<rparr>)
        (filter (\<lambda>(i, s). value16 s \<noteq> 0) (enumerate (Suc i) (map (\<lambda>s. (0, snd s)) ss)))"
    by (rule Cons.IH) (use Cons.prems in simp)
  then show ?case
    using Cons.prems [of i] by (cases s) (simp add: field16_bound(2) value16_def)
qed simp

lemma frame_angles:
  fixes f l n :: nat
  defines "p \<equiv> \<lparr>lsn = n, fsa = f, lsa = l, cs = 0, buf = \<lambda>_. 0\<rparr>"
  assumes "f div 2 \<le> 23040" "l div 2 \<le> 23040" "f > l \<longleftrightarrow> f div 2 > l div 2" "j < n"
  shows "angle_diff p = arc (f div 2) (l div 2) div n"
    "point_angle (f > l) f (angle_diff p) j = around_turn (f div 2 + j * (arc (f div 2) (l div 2) div n))"
proof -
  let ?a = "arc (f div 2) (l div 2)"
  have u: "f < 65536" "l < 65536" using assms(2,3) by linarith+
  show d: "angle_diff p = ?a div n"
  proof (cases "f > l")
    case True
    then show ?thesis
      using angle_diff_wraps [of p] assms(2-4) by (simp add: p_def arc_def add.commute)
  next
    case False
    then show ?thesis using angle_diff_straight [of p] assms(4) u by (simp add: p_def arc_def)
  qed
  have le: "j * (?a div n) \<le> ?a" by (rule div_mult_le [OF assms(5)])
  have a: "f div 2 + ?a \<le> 23040 + l div 2" "\<not> f > l \<Longrightarrow> f div 2 + ?a = l div 2"
    using assms(2-4) by (simp_all add: arc_def)
  then have k: "j * (?a div n) < 65536" "f div 2 + j * (?a div n) < 65536" "\<not> f > l \<Longrightarrow> f div 2 + j * (?a div n) \<le> 23040"
    using le assms(2,3) by linarith+
  from k show "point_angle (f > l) f (angle_diff p) j = around_turn (f div 2 + j * (?a div n))"
    unfolding d by (auto simp: point_angle_def around_turn_def Let_def)
qed

lemma decoded_frame: "frame_ok x \<Longrightarrow> points_of x = said_points (coarse x)"
proof -
  assume ok: "frame_ok x"
  obtain f l c ss where x: "x = (f, l, c, ss)" by (cases x)
  define F L where "F = field16 (fst f) (snd f)" and "L = field16 (fst l) (snd l)"
  have v: "value16 (0, snd f) = F" "value16 (0, snd l) = L"
    by (simp_all add: F_def L_def value16_def field16_bound(2))
  have h: "F = 2 * (128 * unat (snd f))" "L = 2 * (128 * unat (snd l))" "unat (snd f) \<le> 180" "unat (snd l) \<le> 180"
    using ok by (simp_all add: F_def L_def field16_bound(2) x frame_ok_def)
  have b: "F div 2 \<le> 23040" "L div 2 \<le> 23040" "F > L \<longleftrightarrow> F div 2 > L div 2" using h by simp_all
  have d: "angle_diff \<lparr>lsn = length ss, fsa = F, lsa = L, cs = 0, buf = \<lambda>_. 0\<rparr> = arc (F div 2) (L div 2) div length ss"
    using frame_angles(1) [OF b, of 0 "length ss"] ok by (simp add: x frame_ok_def)
  show ?thesis
    unfolding points_of_def x prod.case frame_points_def Let_def F_def [symmetric] L_def [symmetric] d
    by (subst packet_points_enumerate [where a = "F div 2"])
      (use frame_angles(2) [OF b, of _ "length ss", unfolded d] in
        \<open>simp_all add: said_points_def coarse_def v Let_def\<close>)
qed

lemma decoded_turn: "\<forall>x\<in>set fs. frame_ok x \<Longrightarrow> turn_points fs = decoded fs"
  unfolding decoded_def by (rule arg_cong [where f = concat]) (simp add: decoded_frame)

text \<open>
  A data packet of one to forty samples, in a turn with room, is recorded as points whose angles
  lie on the arc from its first to its last angle (across zero degrees when the first is the
  larger), in a whole turn of 23040 steps, provided the first angle is within the turn.
\<close>

theorem packet_recorded_on_arc:
  fixes f l c :: "u8 \<times> u8"
  defines "f' \<equiv> field16 (fst f) (snd f)" and "l' \<equiv> field16 (fst l) (snd l)"
  assumes "recording st" "0 < length ss" "length ss \<le> BUF_SIZE" "count st + int (length ss) \<le> AP_SIZE"
    and "f' \<le> l' \<or> f' div 2 \<le> 23040"
  shows "\<exists>p' st' new. manipulationData p (data_frame f l c ss @ rest) st = manipulationData p' rest st' \<and>
    current_points st' = current_points st @ new \<and> (\<forall>x\<in>set new. on_arc f' l' (angle x))"
proof -
  have "length (packet_points w f0 d ds i) \<le> length ds" for w f0 d i and ds :: "nat list"
    by (induction ds arbitrary: i) (simp_all add: le_SucI)
  then have "length (frame_points f l ss) \<le> length ss"
    unfolding frame_points_def Let_def by (metis length_map)
  then have "count st + int (length (frame_points f l ss)) \<le> AP_SIZE" using assms(6) by linarith
  then show ?thesis
    using data_frame_step [of st ss f l p c rest] assms(3-5) frame_points_arc(1) [OF assms(7)[unfolded f'_def l'_def]]
    unfolding f'_def l'_def by blast
qed

text \<open>A scanner at rest and an empty package, for the examples.\<close>

definition idle_scanner :: scanner where
  "idle_scanner = \<lparr>around = (\<lambda>_. \<lparr>firstpoint = \<lparr>angle = 0, distance = 0\<rparr>, ap = (\<lambda>_. \<lparr>angle = 0, distance = 0\<rparr>),
     number = 0\<rparr>), circle = 0, count = 0, sent = [], events = 0, printed = []\<rparr>"

definition blank_package :: PackAge where
  "blank_package = \<lparr>lsn = 0, fsa = 0, lsa = 0, cs = 0, buf = (\<lambda>_. 0)\<rparr>"

lemma packet_recorded_on_arc_witness:
  "\<exists>p' st' new. manipulationData blank_package (data_frame (0, 0x30) (0, 0x34) (0, 0) [(0, 3), (0, 2)]) (idle_scanner\<lparr>circle := 1, count := 0\<rparr>) =
      manipulationData p' [] st' \<and>
    current_points st' = new \<and> (\<forall>x\<in>set new. 0x1800 \<le> angle x \<and> angle x \<le> 0x1A00)"
proof -
  let ?st = "idle_scanner\<lparr>circle := 1, count := 0\<rparr>"
  have "recording ?st" "current_points ?st = []" by (simp_all add: recording_def current_points_def)
  then show ?thesis
    using packet_recorded_on_arc [of ?st "[(0, 3), (0, 2)]" "(0, 0x30)" "(0, 0x34)" blank_package "(0, 0)" "[]"]
    by (simp add: field16_def Let_def on_arc_def)
qed

section \<open>Accesses outside the arrays\<close>

text \<open>
  At power-up \<open>circle\<close> is minus one, and the first start packet of the first scan stores its
  first point at \<^verbatim>\<open>around[-1]\<close>.
\<close>

theorem boot_start_undefined:
  assumes "circle st = -1"
  shows "manipulationData p (header_bytes h @ rest) st = Undefined"
  using assms by (cases h) (auto simp: header_bytes_def start_frame_def start_packet_def Let_def)

lemma boot_start_undefined_witness:
  "manipulationData blank_package (header_bytes (1, (0, 0), (0, 0), (0, 0), (0, 0)) @ []) (idle_scanner\<lparr>circle := -1\<rparr>) = Undefined"
  by (rule boot_start_undefined) simp

text \<open>Data of a turn that has not been started goes to an index below the array.\<close>

lemma early_data_undefined:
  assumes "circle st \<le> 0" "0 < length ss" "length ss \<le> BUF_SIZE" "snd (hd ss) \<noteq> 0"
  shows "manipulationData p (data_frame f l c ss @ rest) st = Undefined"
proof -
  have u: "unat (of_nat (length ss) :: u8) = length ss" using assms by (simp add: unat_of_nat)
  obtain b' where b': "read_samples (length ss) 0 (buf p) (sample_bytes ss @ rest) = Samples b' rest"
    "map b' [0..<length ss] = map (\<lambda>(low, high). field16 low high) ss"
    using read_sample_bytes [of 0 ss "buf p" rest] assms by auto
  obtain s ss' where ss: "ss = s # ss'" using assms(2) by (cases ss) auto
  have e: "map b' [0..<length ss] = field16 (fst s) (snd s) # map (\<lambda>(low, high). field16 low high) ss'"
    using b'(2) ss by (cases s) (simp only: list.map prod.case fst_conv snd_conv)
  have "unat (snd s) \<noteq> 0" using assms(4) ss by (simp add: unat_gt_0)
  then have "record_points wraps f0 diff (map b' [0..<length ss]) 0 st = None" for wraps f0 diff
    using assms(1) unfolding e by (simp add: store_point_def field16_bound(2) Let_def)
  then show ?thesis
    using b'(1) u assms(2) by (simp add: data_frame_def data_packet_def Let_def)
qed

lemma read_samples_out:
  assumes "i \<le> BUF_SIZE" "BUF_SIZE < i + length ss"
  shows "read_samples (length ss) i b (sample_bytes ss @ rest) = SamplesOut"
  using assms
proof (induction ss arbitrary: i b)
  case (Cons s ss)
  then show ?case
    by (cases s; cases "i < BUF_SIZE") (auto simp: sample_bytes_def)
qed simp

text \<open>
  The length byte of a data packet is trusted: more than forty samples are stored past the end
  of the packet buffer, and a packet of no samples divides by zero.
\<close>

theorem frame_length_undefined:
  assumes "length ss = 0 \<or> BUF_SIZE < length ss \<and> length ss < 256"
  shows "manipulationData p (data_frame f l c ss @ rest) st = Undefined"
proof (cases "length ss = 0")
  case True
  then show ?thesis by (simp add: data_frame_def data_packet_def sample_bytes_def Let_def)
next
  case False
  then have u: "unat (of_nat (length ss) :: u8) = length ss" using assms by (simp add: unat_of_nat)
  show ?thesis
    using read_samples_out [of 0 ss "buf p" rest] assms False u by (simp add: data_frame_def data_packet_def Let_def)
qed

lemma frame_length_undefined_witness:
  "manipulationData blank_package (data_frame (0, 1) (0, 2) (0, 3) (replicate 41 (0, 0)) @ []) idle_scanner = Undefined"
  by (rule frame_length_undefined) simp

section \<open>\<^verbatim>\<open>EAI_X4_GetDate\<close>\<close>

text \<open>
  The reply headers of the scanner: scan data, device information, health. The call of
  \<open>manipulationData\<close> starts with a fresh package each time.
\<close>

definition reply_scan :: "u8 list" where "reply_scan = [0x05, 0x00, 0x00, 0x40, 0x81]"
definition reply_version :: "u8 list" where "reply_version = [0x14, 0x00, 0x00, 0x00, 0x04]"
definition reply_health :: "u8 list" where "reply_health = [0x03, 0x00, 0x00, 0x00, 0x06]"

definition health_report :: "u8 list \<Rightarrow> report" where
  "health_report h = (if hd h = 0x00 then Healthy else HealthError h)"

lemma manipulationData_length: "manipulationData p xs st = Finished st' rest \<Longrightarrow> length rest < length xs"
proof (induction p xs st rule: manipulationData.induct)
  case (3 p b1 b2 xs st)
  consider "b1 \<noteq> 0xAA" | "b1 = 0xAA" "b2 \<noteq> 0x55" | "b1 = 0xAA" "b2 = 0x55" by blast
  then show ?case
  proof cases
    case 3
    then obtain ct ys where xs: "xs = ct # ys" using "3.prems" by (cases xs) auto
    have fin: "start_packet p ys st = Stop (Finished st' rest) \<Longrightarrow> rest = ys"
      by (auto simp: start_packet_def Let_def split: if_splits list.splits)
    have nfin: "data_packet p ys st \<noteq> Stop (Finished st' rest)"
      by (auto simp: data_packet_def Let_def split: list.splits samples_result.splits if_splits option.splits)
    show ?thesis
      using "3.prems" "3.IH"(3,4) 3 xs nfin fin
      by (auto split: packet_result.splits if_splits dest!: data_packet_length start_packet_length) force+
  qed (use 3 in force)+
qed simp_all

text \<open>\<open>p\<close> is what the stack holds where \<open>manipulationData\<close> puts its package.\<close>

function EAI_X4_GetDate :: "PackAge \<Rightarrow> u8 list \<Rightarrow> scanner \<Rightarrow> scan_result" where
  "EAI_X4_GetDate p [] st = Starved st"
| "EAI_X4_GetDate p [b1] st = Starved st"
| "EAI_X4_GetDate p (b1 # b2 # xs) st =
    (if b1 \<noteq> 0xA5 then EAI_X4_GetDate p (b2 # xs) st
     else if b2 \<noteq> 0x5A then EAI_X4_GetDate p xs st
     else if length xs < 5 then Starved st
     else let reply = take 5 xs; ys = drop 5 xs in
       if reply = reply_scan then
         (case manipulationData p ys st of Finished st' rest \<Rightarrow> EAI_X4_GetDate p rest st' | r \<Rightarrow> r)
       else if reply = reply_version then
         if length ys < 20 then Starved st
         else EAI_X4_GetDate p (drop 20 ys) (st\<lparr>printed := printed st @ [Version (take 20 ys)]\<rparr>)
       else if reply = reply_health then
         if length ys < 3 then Starved st
         else EAI_X4_GetDate p (drop 3 ys) (st\<lparr>printed := printed st @ [health_report (take 3 ys)]\<rparr>)
       else EAI_X4_GetDate p ys st)"
  by pat_completeness auto
termination
  by (relation "measure (\<lambda>(p, xs, st). length xs)") (auto dest!: manipulationData_length)

text \<open>A complete scan on the wire: the reply header, five turns and the sixth start.\<close>

definition scan_bytes :: "(header \<times> frame list) list \<Rightarrow> u8 list" where
  "scan_bytes ts = [0xA5, 0x5A] @ reply_scan @ concat (map turn_bytes ts) @ scan_end"

definition scan_ok :: "(header \<times> frame list) list \<Rightarrow> bool" where
  "scan_ok ts \<longleftrightarrow> length ts = 5 \<and>
     (\<forall>t\<in>set ts. (\<forall>x\<in>set (snd t). frame_ok x) \<and> length (decoded (snd t)) \<le> 1440)"

lemma one_scan:
  assumes "scan_ok ts" "circle st = 0" "count st = 0"
  shows "\<exists>st'. EAI_X4_GetDate p (scan_bytes ts @ rest) st = EAI_X4_GetDate p rest st' \<and>
    circle st' = 0 \<and> count st' = 0 \<and> events st' = events st + 1 \<and> sent st' = sent st @ [0xA5, 0x65] \<and>
    (\<forall>i<5. filed st' i (decoded (snd (ts ! i))))"
proof -
  have e: "\<forall>t\<in>set ts. turn_points (snd t) = decoded (snd t)" using assms(1) by (simp add: scan_ok_def decoded_turn)
  obtain st' where st': "manipulationData p (concat (map turn_bytes ts) @ scan_end @ rest) st = Finished st' rest"
    "circle st' = 0" "count st' = 0" "sent st' = sent st @ [0xA5, 0x65]" "events st' = events st + 1"
    "\<forall>i<5. filed st' i (turn_points (snd (ts ! i)))"
    using full_scan [of st ts p rest] assms e by (auto simp: scan_ok_def)
  then show ?thesis
    using e assms(1) by (intro exI [of _ st']) (simp add: scan_bytes_def reply_scan_def Let_def scan_ok_def)
qed

text \<open>Scan after scan: each one stops the scanner and wakes the master thread once.\<close>

lemma scans_events:
  assumes "\<forall>s\<in>set scans. scan_ok s" "circle st = 0" "count st = 0"
  shows "\<exists>st'. EAI_X4_GetDate p (concat (map scan_bytes scans) @ rest) st = EAI_X4_GetDate p rest st' \<and>
    circle st' = 0 \<and> count st' = 0 \<and> events st' = events st + length scans"
  using assms
proof (induction scans arbitrary: st)
  case (Cons s scans)
  obtain st1 where st1: "EAI_X4_GetDate p (scan_bytes s @ concat (map scan_bytes scans) @ rest) st =
      EAI_X4_GetDate p (concat (map scan_bytes scans) @ rest) st1"
    "circle st1 = 0" "count st1 = 0" "events st1 = events st + 1"
    using one_scan [of s st p "concat (map scan_bytes scans) @ rest"] Cons.prems by auto
  with Cons.IH [of st1] Cons.prems(1) show ?case by auto
qed auto

lemma boot_scan: "scan_ok ts \<Longrightarrow> circle st = -1 \<Longrightarrow> EAI_X4_GetDate p (scan_bytes ts @ rest) st = Undefined"
proof -
  assume a: "scan_ok ts" "circle st = -1"
  then obtain t us where ts: "ts = t # us" by (cases ts) (auto simp: scan_ok_def)
  show ?thesis
    using boot_start_undefined [OF a(2), of p "fst t" "concat (map frame_bytes (snd t)) @ concat (map turn_bytes us) @ scan_end @ rest"]
    by (simp add: ts scan_bytes_def turn_bytes_def reply_scan_def Let_def)
qed


definition sample_turn :: "header \<times> frame list" where
  "sample_turn = ((1, (0, 0), (0, 0), (0, 0), (0, 0)), [((0, 0), (0, 2), (0, 0), [(7, 3), (0, 0), (1, 2)])])"

lemma sample_turn_points:
  "decoded (snd sample_turn) = [\<lparr>angle = 0, distance = 768\<rparr>, \<lparr>angle = 170, distance = 512\<rparr>]"
  by (simp add: sample_turn_def decoded_def coarse_def said_points_def value16_def arc_def around_turn_def Let_def)

lemma sample_scan_ok: "scan_ok (replicate 5 sample_turn)"
  by (simp add: scan_ok_def sample_turn_points) (simp add: sample_turn_def frame_ok_def)


text \<open>The two information replies.\<close>

lemma health_reply:
  assumes "length h = 3"
  shows "EAI_X4_GetDate p ([0xA5, 0x5A] @ reply_health @ h @ rest) st =
    EAI_X4_GetDate p rest (st\<lparr>printed := printed st @ [health_report h]\<rparr>)"
  using assms by (simp add: reply_health_def reply_scan_def reply_version_def Let_def)

lemma version_reply:
  assumes "length v = 20"
  shows "EAI_X4_GetDate p ([0xA5, 0x5A] @ reply_version @ v @ rest) st =
    EAI_X4_GetDate p rest (st\<lparr>printed := printed st @ [Version v]\<rparr>)"
  using assms by (simp add: reply_version_def reply_scan_def Let_def)

section \<open>Any input\<close>

text \<open>What the globals hold once the first turn has begun: indices of the arrays, and counts within them.\<close>

definition scanner_typed :: "scanner \<Rightarrow> bool" where
  "scanner_typed st \<longleftrightarrow> 0 \<le> circle st \<and> circle st \<le> AROUND_SIZE \<and> 0 \<le> count st \<and> count st \<le> AP_SIZE \<and>
     (\<forall>i. 0 \<le> number (around st i) \<and> number (around st i) \<le> AP_SIZE)"

lemma store_point_typed: "store_point a d st = Some st' \<Longrightarrow> scanner_typed st \<Longrightarrow> scanner_typed st'"
  by (auto simp: store_point_def scanner_typed_def Let_def split: if_splits)

lemma record_points_typed: "record_points w f d ds i st = Some st' \<Longrightarrow> scanner_typed st \<Longrightarrow> scanner_typed st'"
  by (induction ds arbitrary: i st)
    (auto simp: Let_def bind_eq_Some_conv dest: store_point_typed split: if_splits)

fun typed_packet :: "packet_result \<Rightarrow> bool" where
  "typed_packet (Continue p xs st) = scanner_typed st"
| "typed_packet (Stop (Starved st)) = scanner_typed st"
| "typed_packet (Stop (Finished st xs)) = scanner_typed st"
| "typed_packet (Stop Undefined) = True"

lemma data_packet_typed: "scanner_typed st \<Longrightarrow> typed_packet (data_packet p xs st)"
  by (auto simp: data_packet_def Let_def dest: record_points_typed
      split: list.splits samples_result.splits option.splits)

lemma start_packet_typed: "scanner_typed st \<Longrightarrow> typed_packet (start_packet p xs st)"
  by (auto simp: start_packet_def file_turn_def scanner_typed_def Let_def split: list.splits)

lemma manipulationData_typed:
  "scanner_typed st \<Longrightarrow> typed_packet (Stop (manipulationData p xs st))"
proof (induction p xs st rule: manipulationData.induct)
  case (3 p b1 b2 xs st)
  show ?case
    using 3 data_packet_typed [OF "3.prems", of p "tl xs"] start_packet_typed [OF "3.prems", of p "tl xs"]
    by (auto split: list.splits packet_result.splits)
qed simp_all

fun typed_end :: "scan_result \<Rightarrow> bool" where
  "typed_end (Starved st) = scanner_typed st"
| "typed_end (Finished st rest) = False"
| "typed_end Undefined = True"

lemma GetDate_typed: "scanner_typed st \<Longrightarrow> typed_end (EAI_X4_GetDate p xs st)"
proof (induction p xs st rule: EAI_X4_GetDate.induct)
  case (3 p b1 b2 xs st)
  have p: "scanner_typed (st\<lparr>printed := r\<rparr>)" for r using "3.prems" by (simp add: scanner_typed_def)
  consider "b1 \<noteq> 0xA5" | "b1 = 0xA5" "b2 \<noteq> 0x5A" | "b1 = 0xA5" "b2 = 0x5A" "length xs < 5" |
    "b1 = 0xA5" "b2 = 0x5A" "\<not> length xs < 5" "take 5 xs = reply_scan" |
    "b1 = 0xA5" "b2 = 0x5A" "\<not> length xs < 5" "take 5 xs \<noteq> reply_scan" by blast
  then show ?case
  proof cases
    case 4
    then show ?thesis
      using "3.IH"(3) [OF _ _ 4(3) refl refl 4(4)] 4(1,2) manipulationData_typed [OF "3.prems", of p "drop 5 xs"]
      by (cases "manipulationData p (drop 5 xs) st") (simp_all add: Let_def "3.prems")
  next
    case 5
    then show ?thesis
      using "3.IH"(4-) [OF _ _ 5(3) refl refl 5(4)] p "3.prems" by (simp add: Let_def)
  qed (use "3.IH"(1,2) "3.prems" in simp_all)
qed simp_all

text \<open>
  Input that goes on: what was out of range stays out of range, and what was complete stays complete,
  whatever follows.
\<close>

lemma read_samples_more:
  "read_samples n i b xs = SamplesOut \<Longrightarrow> read_samples n i b (xs @ ys) = SamplesOut"
  "read_samples n i b xs = Samples b' zs \<Longrightarrow> read_samples n i b (xs @ ys) = Samples b' (zs @ ys)"
  by (induction n i b xs rule: read_samples.induct) (auto split: if_splits)

lemma data_packet_more:
  "data_packet p xs st = Stop Undefined \<Longrightarrow> data_packet p (xs @ ys) st = Stop Undefined"
  "data_packet p xs st = Continue p' zs st' \<Longrightarrow> data_packet p (xs @ ys) st = Continue p' (zs @ ys) st'"
  "data_packet p xs st \<noteq> Stop (Finished st' zs)"
  by (auto simp: data_packet_def Let_def read_samples_more
      split: list.splits samples_result.splits option.splits if_splits)

lemma start_packet_more:
  "start_packet p xs st = Stop Undefined \<Longrightarrow> start_packet p (xs @ ys) st = Stop Undefined"
  "start_packet p xs st = Continue p' zs st' \<Longrightarrow> start_packet p (xs @ ys) st = Continue p' (zs @ ys) st'"
  "start_packet p xs st = Stop (Finished st' zs) \<Longrightarrow> start_packet p (xs @ ys) st = Stop (Finished st' (zs @ ys))"
  by (auto simp: start_packet_def Let_def split: list.splits if_splits)

lemma manipulationData_more:
  "(manipulationData p xs st = Undefined \<longrightarrow> manipulationData p (xs @ ys) st = Undefined) \<and>
   (\<forall>st' zs. manipulationData p xs st = Finished st' zs \<longrightarrow> manipulationData p (xs @ ys) st = Finished st' (zs @ ys))"
proof (induction p xs st rule: manipulationData.induct)
  case (3 p b1 b2 xs st)
  consider "b1 \<noteq> 0xAA" | "b1 = 0xAA" "b2 \<noteq> 0x55" | "b1 = 0xAA" "b2 = 0x55" "xs = []" |
    ct zs where "b1 = 0xAA" "b2 = 0x55" "xs = ct # zs" by (cases xs) blast+
  then show ?case
  proof cases
    case (4 ct zs)
    consider "ct = 0" | "ct = 1" | "ct \<noteq> 0" "ct \<noteq> 1" by blast
    then show ?thesis
    proof cases
      case 1
      show ?thesis
      proof (cases "data_packet p zs st")
        case (Continue p' vs st')
        then show ?thesis
          using "3.IH"(3) [of ct zs p' vs st'] 4 1 data_packet_more(2) [OF Continue, of ys] by simp
      next
        case (Stop r)
        then show ?thesis
          using 4 1 data_packet_more(1,3) [of p zs st] by (cases r) auto
      qed
    next
      case 2
      show ?thesis
      proof (cases "start_packet p zs st")
        case (Continue p' vs st')
        then show ?thesis
          using "3.IH"(4) [of ct zs p' vs st'] 4 2 start_packet_more(2) [OF Continue, of ys] by simp
      next
        case (Stop r)
        then show ?thesis
          using 4 2 start_packet_more(1,3) [of p zs st] by (cases r) auto
      qed
    qed (use 4 in simp)
  qed (use "3.IH"(1,2) in simp_all)
qed simp_all

lemma GetDate_more: "EAI_X4_GetDate p xs st = Undefined \<Longrightarrow> EAI_X4_GetDate p (xs @ ys) st = Undefined"
proof (induction p xs st rule: EAI_X4_GetDate.induct)
  case (3 p b1 b2 xs st)
  consider "b1 \<noteq> 0xA5" | "b1 = 0xA5" "b2 \<noteq> 0x5A" | "b1 = 0xA5" "b2 = 0x5A" "length xs < 5" |
    "b1 = 0xA5" "b2 = 0x5A" "\<not> length xs < 5" "take 5 xs = reply_scan" |
    "b1 = 0xA5" "b2 = 0x5A" "\<not> length xs < 5" "take 5 xs \<noteq> reply_scan" by blast
  then show ?case
  proof cases
    case 4
    show ?thesis
      using "3.prems" "3.IH"(3) [OF _ _ 4(3) refl refl 4(4)] 4 manipulationData_more [of p "drop 5 xs" st ys]
      by (cases "manipulationData p (drop 5 xs) st") (simp_all add: Let_def)
  next
    case 5
    then show ?thesis
      using "3.prems" "3.IH"(4-) [OF _ _ 5(3) refl refl 5(4)] by (simp add: Let_def split: if_splits; linarith?)
  qed (use "3.IH"(1,2) "3.prems" in simp_all)
qed simp_all

text \<open>What the scanner sends: complete scans, and its replies to the two information commands.\<close>

datatype reply = ScanReply "(header \<times> frame list) list" | VersionReply "u8 list" | HealthReply "u8 list"

fun reply_bytes :: "reply \<Rightarrow> u8 list" where
  "reply_bytes (ScanReply ts) = scan_bytes ts"
| "reply_bytes (VersionReply v) = [0xA5, 0x5A] @ reply_version @ v"
| "reply_bytes (HealthReply h) = [0xA5, 0x5A] @ reply_health @ h"

fun reply_ok :: "reply \<Rightarrow> bool" where
  "reply_ok (ScanReply ts) = scan_ok ts"
| "reply_ok (VersionReply v) = (length v = 20)"
| "reply_ok (HealthReply h) = (length h = 3)"

fun scans_in :: "reply list \<Rightarrow> nat" where
  "scans_in [] = 0"
| "scans_in (ScanReply ts # rs) = Suc (scans_in rs)"
| "scans_in (r # rs) = scans_in rs"

lemma replies_done:
  assumes "\<forall>r\<in>set rs. reply_ok r" "circle st = 0" "count st = 0"
  shows "\<exists>st'. EAI_X4_GetDate p (concat (map reply_bytes rs)) st = Starved st' \<and>
    circle st' = 0 \<and> count st' = 0 \<and> events st' = events st + scans_in rs"
  using assms
proof (induction rs arbitrary: st)
  case (Cons r rs)
  show ?case
  proof (cases r)
    case (ScanReply ts)
    obtain st1 where st1: "EAI_X4_GetDate p (scan_bytes ts @ concat (map reply_bytes rs)) st =
        EAI_X4_GetDate p (concat (map reply_bytes rs)) st1" "circle st1 = 0" "count st1 = 0" "events st1 = events st + 1"
      using one_scan [of ts st p "concat (map reply_bytes rs)"] Cons.prems ScanReply by auto
    with Cons.IH [of st1] Cons.prems(1) show ?thesis by (auto simp: ScanReply)
  next
    case (VersionReply v)
    let ?st = "st\<lparr>printed := printed st @ [Version v]\<rparr>"
    show ?thesis
      using version_reply [of v p "concat (map reply_bytes rs)" st] Cons.IH [of ?st] Cons.prems VersionReply by auto
  next
    case (HealthReply h)
    let ?st = "st\<lparr>printed := printed st @ [health_report h]\<rparr>"
    show ?thesis
      using health_reply [of h p "concat (map reply_bytes rs)" st] Cons.IH [of ?st] Cons.prems HealthReply by auto
  qed
qed simp



section \<open>The lost low bytes\<close>

lemma field16_high: "field16 low high = unat high * 256 mod 65536"
  by (simp add: field16_def)

lemma read_samples_high:
  "read_samples (length ss) i b (sample_bytes ss @ rest) =
   read_samples (length ss) i b (sample_bytes (map (\<lambda>s. (0, snd s)) ss) @ rest)"
proof (induction ss arbitrary: i b)
  case (Cons s ss)
  then show ?case unfolding sample_bytes_def by (cases s) (auto simp: field16_high fun_upd_def simp del: map_map)
qed simp

text \<open>
  The low byte of every 16-bit field of a data packet is without effect: the second read
  overwrites the first instead of being combined with it, so angles lose their low eight bits and
  distances come in steps of 256 mm. A packet decodes as the one with all low bytes zero.
\<close>

theorem low_bytes_lost:
  assumes "length ss < 256"
  shows "manipulationData p (data_frame f l c ss @ rest) st =
    manipulationData p (data_frame (0, snd f) (0, snd l) (0, snd c) (map (\<lambda>s. (0, snd s)) ss) @ rest) st"
proof -
  have u: "unat (of_nat (length ss) :: u8) = length ss" using assms by (simp add: unat_of_nat)
  have s: "read_samples (length ss) 0 (buf p) (sample_bytes ss @ rest) =
      read_samples (length ss) 0 (buf p) (sample_bytes (map (\<lambda>s. (0, snd s)) ss) @ rest)" for p
    by (rule read_samples_high)
  show ?thesis
    by (cases "read_samples (length ss) 0 (buf p) (sample_bytes (map (\<lambda>s. (0, snd s)) ss) @ rest)")
      (simp_all add: data_frame_def data_packet_def field16_high Let_def u s)
qed

lemma low_bytes_lost_witness:
  "manipulationData blank_package (data_frame (1, 2) (3, 4) (5, 6) [(7, 8), (9, 10)] @ []) idle_scanner =
   manipulationData blank_package (data_frame (0, 2) (0, 4) (0, 6) [(0, 8), (0, 10)] @ []) idle_scanner"
  using low_bytes_lost [of "[(7, 8), (9, 10)]" blank_package "(1, 2)" "(3, 4)" "(5, 6)" "[]" idle_scanner] by simp

end
