(* ===== verification/Car.thy ===== *)
theory Car
  imports Lidar Mutex
begin

text \<open>
  Driving: the motor commands of \<^verbatim>\<open>app_move.c\<close>, the speed controller of
  \<^verbatim>\<open>app_speed.c\<close> on the encoder counters of \<^verbatim>\<open>drv_abphase.c\<close> and
  the compare registers of \<^verbatim>\<open>drv_pwm.c\<close>, and the decisions of the master thread
  from the recorded scan, \<^verbatim>\<open>master_thread.c\<close>. Signed 16-bit variables are
  integers, wrapped where the code stores them.
\<close>

section \<open>The state\<close>

definition wrap16 :: "int \<Rightarrow> int" where
  "wrap16 i = (i + 2 ^ 15) mod 2 ^ 16 - 2 ^ 15"

definition motor_in_1 :: nat where "motor_in_1 = 155"
definition motor_in_2 :: nat where "motor_in_2 = 154"
definition motor_in_3 :: nat where "motor_in_3 = 156"
definition motor_in_4 :: nat where "motor_in_4 = 157"
definition BEEP :: nat where "BEEP = 167"

record car =
  wantspeed1 :: int
  wantspeed2 :: int
  pins :: "nat \<Rightarrow> bool"
  ccr1 :: u32
  ccr2 :: u32
  speed_mutex :: mutex_state

abbreviation (input) PIN_HIGH :: bool where "PIN_HIGH \<equiv> True"
abbreviation (input) PIN_LOW :: bool where "PIN_LOW \<equiv> False"

definition rt_pin_write :: "nat \<Rightarrow> bool \<Rightarrow> car \<Rightarrow> car" where
  "rt_pin_write p v c = c\<lparr>pins := (pins c)(p := v)\<rparr>"

definition want :: "int \<Rightarrow> int \<Rightarrow> car \<Rightarrow> car" where
  "want s1 s2 c = c\<lparr>wantspeed1 := s1, wantspeed2 := s2\<rparr>"

definition release_speed :: "car \<Rightarrow> car" where
  "release_speed c = c\<lparr>speed_mutex := snd (rt_mutex_release (speed_mutex c))\<rparr>"

section \<open>Motor commands, \<^verbatim>\<open>app_move.c\<close>\<close>

definition carForward :: "car \<Rightarrow> car" where
  "carForward c = release_speed (want 80 80 c)"

definition carBack :: "car \<Rightarrow> car" where
  "carBack c = release_speed (want (- 80) (- 80) c)"

definition carLeft :: "car \<Rightarrow> car" where
  "carLeft c = release_speed (want (- 80) 80 c)"

definition carRight :: "car \<Rightarrow> car" where
  "carRight c = release_speed (want 80 (- 80) c)"

definition carStop :: "car \<Rightarrow> car" where
  "carStop c =
    release_speed (rt_pin_write motor_in_4 PIN_HIGH (rt_pin_write motor_in_3 PIN_HIGH
      (rt_pin_write motor_in_2 PIN_HIGH (rt_pin_write motor_in_1 PIN_HIGH (want 0 0 c)))))"

text \<open>The shell command; the result is what the console prints.\<close>

definition carMove :: "string list \<Rightarrow> car \<Rightarrow> string \<times> car" where
  "carMove argv c =
    (if length argv > 1 then
       (if rt_strcmp (argv ! 1) ''-f'' = 0 then (''forward'', carForward c)
        else if rt_strcmp (argv ! 1) ''-b'' = 0 then (''back'', carBack c)
        else if rt_strcmp (argv ! 1) ''-l'' = 0 then (''left'', carLeft c)
        else if rt_strcmp (argv ! 1) ''-r'' = 0 then (''right'', carRight c)
        else if rt_strcmp (argv ! 1) ''-s'' = 0 then (''stop'', carStop c)
        else (''ERROR command !'', c))
     else ([], c))"

definition beep :: "u8 \<Rightarrow> car \<Rightarrow> car" where
  "beep i c = (if i = 1 then rt_pin_write BEEP PIN_HIGH c else rt_pin_write BEEP PIN_LOW c)"

section \<open>The speed controller, \<^verbatim>\<open>app_speed.c\<close>\<close>

definition getspeedcounter :: "u16 \<Rightarrow> u16 \<Rightarrow> int \<times> int" where
  "getspeedcounter cnt3 cnt8 = (wrap16 (uint cnt3), wrap16 (0 - uint cnt8))"

definition SetTim9Compare :: "u32 \<Rightarrow> u32 \<Rightarrow> car \<Rightarrow> car" where
  "SetTim9Compare compare1 compare2 c = c\<lparr>ccr1 := compare1, ccr2 := compare2\<rparr>"

definition setpwm :: "int \<Rightarrow> int \<Rightarrow> car \<Rightarrow> car" where
  "setpwm pwm1 pwm2 c =
    (let (a1, c1) = (if pwm1 \<ge> 0 then (pwm1, rt_pin_write 154 PIN_HIGH (rt_pin_write 155 PIN_LOW c))
                     else (wrap16 (- pwm1), rt_pin_write 154 PIN_LOW (rt_pin_write 155 PIN_HIGH c)));
         (a2, c2) = (if pwm2 \<ge> 0 then (pwm2, rt_pin_write 157 PIN_HIGH (rt_pin_write 156 PIN_LOW c1))
                     else (wrap16 (- pwm2), rt_pin_write 157 PIN_LOW (rt_pin_write 156 PIN_HIGH c1)))
     in SetTim9Compare (word_of_int a1) (word_of_int a2) c2)"

text \<open>The locals of the speed thread.\<close>

record pid =
  xspeed1 :: int
  xspeed2 :: int
  Last_diff1 :: int
  Last_diff2 :: int
  pwm1 :: int
  pwm2 :: int

definition pid_init :: pid where
  "pid_init = \<lparr>xspeed1 = 0, xspeed2 = 0, Last_diff1 = 0, Last_diff2 = 0, pwm1 = 0, pwm2 = 0\<rparr>"

text \<open>The incremental rule for one wheel.\<close>

definition pwm_update :: "int \<Rightarrow> int \<Rightarrow> int \<Rightarrow> int" where
  "pwm_update pwm diff last_diff = wrap16 (pwm + 6 * diff + 5 * (diff - last_diff))"

definition control :: "int \<times> int \<Rightarrow> pid \<Rightarrow> pid" where
  "control speed s =
    (let diff1 = wrap16 (xspeed1 s - fst speed); diff2 = wrap16 (xspeed2 s - snd speed)
     in s\<lparr>pwm1 := pwm_update (pwm1 s) diff1 (Last_diff1 s), pwm2 := pwm_update (pwm2 s) diff2 (Last_diff2 s),
          Last_diff1 := diff1, Last_diff2 := diff2\<rparr>)"

text \<open>One period of \<^verbatim>\<open>speed_thread_entry\<close>, from the counters to the delay.\<close>

definition speed_step :: "u16 \<Rightarrow> u16 \<Rightarrow> pid \<times> car \<Rightarrow> pid \<times> car" where
  "speed_step cnt3 cnt8 x = (case x of (s, c) \<Rightarrow>
    let speed = getspeedcounter cnt3 cnt8;
        (r, mx) = rt_mutex_take 0 (speed_mutex c);
        c1 = c\<lparr>speed_mutex := mx\<rparr>
    in if r = Return RT_EOK
       then let s1 = s\<lparr>xspeed1 := wantspeed1 c1, xspeed2 := wantspeed2 c1\<rparr> in
            if xspeed1 s1 = 0 \<and> xspeed2 s1 = 0
            then let s2 = s1\<lparr>pwm1 := 0, pwm2 := 0\<rparr> in (s2, setpwm (pwm1 s2) (pwm2 s2) c1)
            else let s2 = control speed s1 in (s2, setpwm (pwm1 s2) (pwm2 s2) c1)
       else let s2 = control speed s in (s2, setpwm (pwm1 s2) (pwm2 s2) c1))"

section \<open>The decisions of the master thread, \<^verbatim>\<open>master_thread.c\<close>\<close>

text \<open>What one recorded point adds to \<open>fsignal\<close> (near) and \<open>ffsignal\<close> (far).\<close>

definition judge_point :: "AroundPoint \<Rightarrow> int \<times> int \<Rightarrow> int \<times> int" where
  "judge_point x sig = (case sig of (fsignal, ffsignal) \<Rightarrow>
    if distance x \<le> 1200
    then let b = angle x * 100 mod 2 ^ 32 div 64 in
      if distance x \<le> 600
      then if b > 32500 then (fsignal + 1, ffsignal)
           else if b < 3500 then (fsignal - 1, ffsignal)
           else (fsignal, ffsignal)
      else if b > 18000 then (fsignal, ffsignal + 1)
           else if b < 18000 then (fsignal, ffsignal - 1)
           else (fsignal, ffsignal)
    else (fsignal, ffsignal))"

definition turn_list :: "Around \<Rightarrow> AroundPoint list" where
  "turn_list a = map (ap a) [0..<nat (number a)]"

definition signals :: "(nat \<Rightarrow> Around) \<Rightarrow> int \<times> int" where
  "signals ar = fold judge_point (concat (map (\<lambda>i. turn_list (ar i)) [1, 2, 3, 4])) (0, 0)"

text \<open>The commands the thread gives, in order.\<close>

datatype act = Forward | TurnLeft | TurnRight | Halt | Beep u8 | Delay int | Scan

text \<open>
  One round for an event of the scanner. \<open>swing\<close> counts rounds with an obstacle; the code
  does not initialise it.
\<close>

definition decide :: "int \<times> int \<Rightarrow> int \<Rightarrow> act list \<times> int" where
  "decide sig swing = (case sig of (fsignal, ffsignal) \<Rightarrow>
    if fsignal \<noteq> 0
    then let first = (if - 10 \<le> fsignal \<and> fsignal \<le> 10 then Halt
                      else if fsignal > 10 then TurnRight else TurnLeft);
             swing1 = wrap32 (swing + 1)
         in if swing1 \<ge> 4
            then ([first, if ffsignal + fsignal > 0 then TurnRight else TurnLeft, Beep 1,
                   Delay (rt_tick_from_millisecond 2000), Beep 0, Scan], 0)
            else ([first, Scan], swing1)
    else ([Forward, Scan], 0))"

text \<open>What a command does to the car; a scan request goes to the scanner.\<close>

fun run_act :: "act \<Rightarrow> car \<Rightarrow> car" where
  "run_act Forward c = carForward c"
| "run_act TurnLeft c = carLeft c"
| "run_act TurnRight c = carRight c"
| "run_act Halt c = carStop c"
| "run_act (Beep i) c = beep i c"
| "run_act (Delay n) c = c"
| "run_act Scan c = c"

definition master_round :: "(nat \<Rightarrow> Around) \<Rightarrow> int \<times> car \<Rightarrow> int \<times> car" where
  "master_round ar x = (case x of (swing, c) \<Rightarrow>
    let (acts, swing1) = decide (signals ar) swing in (swing1, fold run_act acts c))"

section \<open>The command bytes of the scanner, \<^verbatim>\<open>app_eaix4.c\<close>\<close>

text \<open>
  \<^verbatim>\<open>eaix4_putchar\<close>: try until the device takes the byte, 500 times at most. The
  device is a function from its state to the length written and the new state.
\<close>

function putchar_loop :: "('d \<Rightarrow> nat \<times> 'd) \<Rightarrow> nat \<Rightarrow> 'd \<Rightarrow> nat \<times> 'd" where
  "putchar_loop write timeout d =
    (let (len, d1) = write d; timeout1 = timeout + 1
     in if len \<noteq> 1 \<and> timeout1 < 500 then putchar_loop write timeout1 d1 else (len, d1))"
  by pat_completeness auto
termination
  by (relation "measure (\<lambda>(_, timeout, _). 500 - timeout)") auto

declare putchar_loop.simps [simp del]

definition eaix4_putchar :: "(u8 \<Rightarrow> 'd \<Rightarrow> nat \<times> 'd) \<Rightarrow> u8 \<Rightarrow> 'd \<Rightarrow> 'd" where
  "eaix4_putchar write c d = snd (putchar_loop (write c) 0 d)"

definition eaix4cmd :: "string list \<Rightarrow> u8 list option" where
  "eaix4cmd argv =
    (if length argv > 1 then
       (if rt_strcmp (argv ! 1) ''-s'' = 0 then Some [0xA5, 0x65]
        else if rt_strcmp (argv ! 1) ''-fs'' = 0 then Some [0xA5, 0x00]
        else if rt_strcmp (argv ! 1) ''-sc'' = 0 then Some [0xA5, 0x60]
        else if rt_strcmp (argv ! 1) ''-fsc'' = 0 then Some [0xA5, 0x61]
        else if rt_strcmp (argv ! 1) ''-gvf'' = 0 then Some [0xA5, 0x90]
        else if rt_strcmp (argv ! 1) ''-ghs'' = 0 then Some [0xA5, 0x91]
        else None)
     else Some [])"

section \<open>Signals count points\<close>

definition near_left :: "AroundPoint \<Rightarrow> bool" where
  "near_left x \<longleftrightarrow> distance x \<le> 600 \<and> 32500 < angle x * 100 mod 2 ^ 32 div 64"

definition near_right :: "AroundPoint \<Rightarrow> bool" where
  "near_right x \<longleftrightarrow> distance x \<le> 600 \<and> angle x * 100 mod 2 ^ 32 div 64 < 3500"

definition how_many :: "('a \<Rightarrow> bool) \<Rightarrow> 'a list \<Rightarrow> int" where
  "how_many P xs = int (length (filter P xs))"

lemma fold_judge:
  "fst (fold judge_point xs sig) = fst sig + how_many near_left xs - how_many near_right xs"
proof (induction xs arbitrary: sig)
  case (Cons x xs)
  have "fst (judge_point x sig) = fst sig + (if near_left x then 1 else 0) - (if near_right x then 1 else 0)"
    by (cases sig) (auto simp: judge_point_def near_left_def near_right_def Let_def)
  then show ?case using Cons by (simp add: how_many_def)
qed (simp add: how_many_def)

definition scan_points :: "(nat \<Rightarrow> Around) \<Rightarrow> AroundPoint list" where
  "scan_points ar = concat (map (\<lambda>i. turn_list (ar i)) [1, 2, 3, 4])"

lemma fsignal_counts:
  "fst (signals ar) = how_many near_left (scan_points ar) - how_many near_right (scan_points ar)"
  unfolding signals_def scan_points_def [symmetric] fold_judge by simp

lemma how_many_zero: "how_many P xs = 0 \<longleftrightarrow> (\<forall>x\<in>set xs. \<not> P x)"
  by (simp add: how_many_def filter_empty_conv)

lemma how_many_replicate: "how_many P (concat (replicate n xs)) = int n * how_many P xs"
  by (induction n) (simp_all add: how_many_def algebra_simps)

section \<open>Decisions\<close>

lemma decide_clear: "fsignal = 0 \<Longrightarrow> decide (fsignal, ff) swing = ([Forward, Scan], 0)"
  by (simp add: decide_def)

lemma decide_swing:
  assumes "0 \<le> swing" "swing \<le> 3"
  shows "0 \<le> snd (decide sig swing) \<and> snd (decide sig swing) \<le> 3"
proof -
  have "wrap32 (swing + 1) = swing + 1" using assms by (simp add: wrap32_id)
  then show ?thesis using assms by (cases sig) (auto simp: decide_def Let_def)
qed

lemma decide_scan_last:
  "last (fst (decide sig swing)) = Scan \<and> count_list (fst (decide sig swing)) Scan = 1"
  by (cases sig) (auto simp: decide_def Let_def)

text \<open>The points of turns one to four, as filed by the scanner thread.\<close>

lemma turn_list_filed: "filed st i ps \<Longrightarrow> turn_list (around st i) = ps"
  by (simp add: filed_def turn_list_def)

lemma decide_forward: "fst (decide sig swing) = [Forward, Scan] \<longleftrightarrow> fst sig = 0"
  by (cases sig) (auto simp: decide_def Let_def)

lemma scan_points_filed:
  assumes "scan_ok ts" "circle st = 0" "count st = 0" "EAI_X4_GetDate p (scan_bytes ts) st = Starved st'"
  shows "scan_points (around st') = concat (map (\<lambda>i. decoded (snd (ts ! i))) [1, 2, 3, 4])"
proof -
  obtain st2 where "EAI_X4_GetDate p (scan_bytes ts) st = EAI_X4_GetDate p [] st2"
    "\<forall>i<5. filed st2 i (decoded (snd (ts ! i)))"
    using one_scan [of ts st p "[]"] assms(1-3) by auto
  then have "turn_list (around st' i) = decoded (snd (ts ! i))" if "i < 5" for i
    using assms(4) that by (intro turn_list_filed) simp
  then show ?thesis by (simp add: scan_points_def)
qed

text \<open>
  From the wire to the wheels: after a complete scan the master thread drives forward exactly
  when as many of the decoded points of turns one to four lie within 600 mm on the one side of the front as
  on the other. No near obstacle means forward, but so do obstacles that balance.
\<close>

theorem scan_drives_forward:
  assumes "scan_ok ts" "circle st = 0" "count st = 0" "EAI_X4_GetDate p (scan_bytes ts) st = Starved st'"
  defines "pts \<equiv> concat (map (\<lambda>i. decoded (snd (ts ! i))) [1, 2, 3, 4])"
  shows "fst (decide (signals (around st')) swing) = [Forward, Scan] \<longleftrightarrow>
    how_many near_left pts = how_many near_right pts"
proof -
  have "scan_points (around st') = pts" unfolding pts_def by (rule scan_points_filed [OF assms(1-4)])
  then show ?thesis unfolding decide_forward fsignal_counts by simp
qed

lemma scan_drives_forward_witness:
  "\<exists>st'. EAI_X4_GetDate blank_package (scan_bytes (replicate 5 sample_turn)) idle_scanner = Starved st' \<and>
    fst (decide (signals (around st')) 0) \<noteq> [Forward, Scan]"
proof -
  obtain st' where g: "EAI_X4_GetDate blank_package (scan_bytes (replicate 5 sample_turn)) idle_scanner = Starved st'"
    using one_scan [OF sample_scan_ok, of idle_scanner blank_package "[]"] by (auto simp: idle_scanner_def)
  have "concat (map (\<lambda>i. decoded (snd (replicate 5 sample_turn ! i))) [1, 2, 3, 4]) =
      concat (replicate 4 (decoded (snd sample_turn)))"
    by (simp add: numeral_eq_Suc)
  moreover note sample_turn_points
  moreover have "how_many near_left (concat (replicate 4 [\<lparr>angle = 0, distance = 768\<rparr>, \<lparr>angle = 170, distance = 512\<rparr>])) = 0"
    "how_many near_right (concat (replicate 4 [\<lparr>angle = 0, distance = 768\<rparr>, \<lparr>angle = 170, distance = 512\<rparr>])) = 4"
    by (simp_all only: how_many_replicate) (simp_all add: how_many_def near_left_def near_right_def)
  ultimately show ?thesis
    using scan_drives_forward [OF sample_scan_ok _ _ g, of 0] g by (auto simp: idle_scanner_def)
qed

text \<open>The fourth blocked round in a row turns the car away.\<close>

fun rounds :: "(int \<times> int) list \<Rightarrow> int \<Rightarrow> act list list \<times> int" where
  "rounds [] swing = ([], swing)"
| "rounds (sig # sigs) swing =
    (let (acts, swing1) = decide sig swing; (rest, swing2) = rounds sigs swing1 in (acts # rest, swing2))"

lemma decide_blocked:
  assumes "fst sig \<noteq> 0" "0 \<le> swing" "swing < 3"
  shows "snd (decide sig swing) = swing + 1"
proof -
  have "wrap32 (swing + 1) = swing + 1" using assms by (simp add: wrap32_id)
  then show ?thesis using assms by (cases sig) (auto simp: decide_def Let_def)
qed

lemma decide_turns:
  assumes "fst sig \<noteq> 0"
  shows "\<exists>a t. decide sig 3 = ([a, t, Beep 1, Delay 200, Beep 0, Scan], 0) \<and> (t = TurnLeft \<or> t = TurnRight)"
proof -
  have "wrap32 4 = 4" "rt_tick_from_millisecond 2000 = 200"
    by (simp_all add: wrap32_def rt_tick_from_millisecond_def RT_TICK_PER_SECOND_def)
  then show ?thesis using assms by (cases sig) (auto simp: decide_def Let_def)
qed

text \<open>
  With an obstacle in four rounds in a row, the fourth turns the car away, sounds the beeper
  for 200 ticks, and starts the count again; the command that turns is left or right.
\<close>

theorem four_blocked:
  assumes "\<forall>s\<in>{s1, s2, s3, s4}. fst s \<noteq> 0"
  shows "\<exists>a t. fst (rounds [s1, s2, s3, s4] 0) ! 3 = [a, t, Beep 1, Delay 200, Beep 0, Scan] \<and>
    (t = TurnLeft \<or> t = TurnRight) \<and> snd (rounds [s1, s2, s3, s4] 0) = 0"
proof -
  obtain a t where 4: "decide s4 3 = ([a, t, Beep 1, Delay 200, Beep 0, Scan], 0)" "t = TurnLeft \<or> t = TurnRight"
    using decide_turns [of s4] assms by auto
  have "snd (decide s1 0) = 1" "snd (decide s2 1) = 2" "snd (decide s3 2) = 3"
    using decide_blocked [of s1 0] decide_blocked [of s2 1] decide_blocked [of s3 2] assms by auto
  then show ?thesis using 4 by (auto simp: split_beta Let_def)
qed

lemma four_blocked_witness:
  "\<exists>a t. fst (rounds [(1, 0), (-1, 5), (12, 0), (3, -7)] 0) ! 3 = [a, t, Beep 1, Delay 200, Beep 0, Scan] \<and>
    (t = TurnLeft \<or> t = TurnRight)"
  using four_blocked [of "(1, 0)" "(-1, 5)" "(12, 0)" "(3, -7)"] by auto

section \<open>The controller\<close>

lemma wrap16_cong: "wrap16 x = wrap16 y \<longleftrightarrow> x mod 2 ^ 16 = y mod 2 ^ 16"
proof -
  have "wrap16 x = wrap16 y \<longleftrightarrow> (x + 2 ^ 15) mod 2 ^ 16 = (y + 2 ^ 15) mod 2 ^ 16"
    by (simp add: wrap16_def)
  also have "\<dots> \<longleftrightarrow> x mod 2 ^ 16 = y mod 2 ^ 16"
    by (simp add: mod_eq_dvd_iff)
  finally show ?thesis .
qed

lemma wrap16_mod: "wrap16 x mod 2 ^ 16 = x mod 2 ^ 16"
  by (simp add: wrap16_def mod_simps)

lemma wrap16_num: "wrap16 x = (x + 32768) mod 65536 - 32768"
  by (simp add: wrap16_def)

lemma wrap16_id: "- 32768 \<le> x \<Longrightarrow> x < 32768 \<Longrightarrow> wrap16 x = x"
  by (simp add: wrap16_num)

lemma wrap16_range: "- 32768 \<le> wrap16 x" "wrap16 x < 32768"
proof -
  have "0 \<le> (x + 32768) mod 65536" "(x + 32768) mod 65536 < 65536" by simp_all
  then show "- 32768 \<le> wrap16 x" "wrap16 x < 32768" unfolding wrap16_num by linarith+
qed

lemma wrap16_wrap: "wrap16 (wrap16 x + y) = wrap16 (x + y)"
  unfolding wrap16_cong by (metis mod_add_left_eq wrap16_mod)

text \<open>The incremental rule, run over a sequence of differences.\<close>

definition pwm_run :: "int list \<Rightarrow> int \<times> int \<Rightarrow> int \<times> int" where
  "pwm_run ds s = fold (\<lambda>d (pwm, l). (pwm_update pwm d l, d)) ds s"

text \<open>
  The incremental rule of the controller, run over any sequence of differences, equals the
  positional law: six times their sum and five times the change of the difference, all taken modulo
  2^16, whatever wrapped on the way.
\<close>

theorem pwm_run_positional:
  "pwm_run ds (wrap16 p0, l0) =
    (wrap16 (p0 + 6 * sum_list ds + 5 * (last (l0 # ds) - l0)), last (l0 # ds))"
proof (induction ds arbitrary: p0 l0)
  case (Cons d ds)
  let ?p1 = "p0 + 6 * d + 5 * (d - l0)"
  have "pwm_update (wrap16 p0) d l0 = wrap16 ?p1"
    unfolding pwm_update_def by (simp only: add.assoc wrap16_wrap)
  then have "pwm_run (d # ds) (wrap16 p0, l0) = pwm_run ds (wrap16 ?p1, d)"
    by (simp add: pwm_run_def)
  then show ?case
    by (simp add: Cons.IH algebra_simps)
qed (simp add: pwm_run_def)

text \<open>What the motor driver gets: direction pins and the magnitude.\<close>

lemma setpwm_result:
  assumes "- 32768 < p1" "p1 < 32768" "- 32768 < p2" "p2 < 32768"
  shows "ccr1 (setpwm p1 p2 c) = word_of_int \<bar>p1\<bar>" "ccr2 (setpwm p1 p2 c) = word_of_int \<bar>p2\<bar>"
    "pins (setpwm p1 p2 c) 155 = (p1 < 0)" "pins (setpwm p1 p2 c) 154 = (0 \<le> p1)"
    "pins (setpwm p1 p2 c) 156 = (p2 < 0)" "pins (setpwm p1 p2 c) 157 = (0 \<le> p2)"
    "speed_mutex (setpwm p1 p2 c) = speed_mutex c"
  using assms by (auto simp: setpwm_def Let_def SetTim9Compare_def rt_pin_write_def wrap16_id)

text \<open>The most negative value is its own negation; the register gets a huge compare value.\<close>

lemma setpwm_minimum: "ccr1 (setpwm (- 32768) p2 c) = 0xFFFF8000"
  by (simp add: setpwm_def Let_def SetTim9Compare_def rt_pin_write_def wrap16_def)

text \<open>
  The output is not limited: where a positive difference would raise it past 32767 it wraps, and
  the wheel is driven backwards.
\<close>

theorem pwm_overflow_flips:
  assumes "0 < d" "0 \<le> p" "p < 32768" "32768 \<le> p + 11 * d - 5 * l" "p + 11 * d - 5 * l < 65536"
  shows "pwm_update p d l < 0"
proof -
  let ?x = "p + 11 * d - 5 * l"
  have x: "p + 6 * d + 5 * (d - l) = ?x" by simp
  have "wrap16 ?x = wrap16 (?x - 65536)"
    unfolding wrap16_cong using minus_mod_self2 [of ?x 65536] by simp
  also have "\<dots> = ?x - 65536" by (rule wrap16_id) (use assms in linarith)+
  finally show ?thesis using assms unfolding pwm_update_def x by linarith
qed

lemma pwm_overflow_flips_witness: "pwm_update 32000 80 0 < 0"
  using pwm_overflow_flips [of 80 32000 0] by simp

lemma encoder_signs:
  "getspeedcounter 0 0 = (0, 0)"
  "uint a < 32768 \<Longrightarrow> uint b \<le> 32768 \<Longrightarrow> getspeedcounter a b = (uint a, - uint b)"
proof -
  show "getspeedcounter 0 0 = (0, 0)" by (simp add: getspeedcounter_def wrap16_id)
  assume "uint a < 32768" "uint b \<le> 32768"
  moreover have "0 \<le> uint a" "0 \<le> uint b" by simp_all
  ultimately have "wrap16 (uint a) = uint a" "wrap16 (0 - uint b) = - uint b"
    by (simp_all only: wrap16_id diff_0)
  then show "getspeedcounter a b = (uint a, - uint b)" by (simp only: getspeedcounter_def)
qed

section \<open>The speed mutex\<close>

text \<open>
  The motor commands never take the mutex they release. Called by a thread that does not own
  it they change the set speeds all the same; the release fails and the mutex keeps its owner.
\<close>

theorem release_unowned:
  assumes "speed_mutex c = (m, k)" "running k t" "owner m \<noteq> Some t"
  shows "\<forall>cmd\<in>{carForward, carBack, carLeft, carRight, carStop}.
    fst (speed_mutex (cmd c)) = m \<and> t_error (threads (snd (speed_mutex (cmd c))) t) = - RT_ERROR \<and>
    wantspeed1 (cmd c) \<in> {80, - 80, 0} \<and> wantspeed2 (cmd c) \<in> {80, - 80, 0}"
  using assms mutex_release_foreign [OF assms(2,3)]
  by (simp add: carForward_def carLeft_def carRight_def carBack_def carStop_def release_speed_def want_def
      rt_pin_write_def upd_thread_def)

definition rest_car :: "mutex_state \<Rightarrow> car" where
  "rest_car x = \<lparr>wantspeed1 = 0, wantspeed2 = 0, pins = (\<lambda>_. False), ccr1 = 0, ccr2 = 0, speed_mutex = x\<rparr>"

lemma release_unowned_witness:
  "let c = rest_car (mutex_object 0 RT_IPC_FLAG_PRIO\<lparr>owner := Some 2, hold := 1, mtx_value := 0\<rparr>, two_ready)
   in owner (fst (speed_mutex (carForward c))) = Some 2 \<and> wantspeed1 (carForward c) \<in> {80, - 80, 0}"
proof -
  have "running two_ready 1" by (simp add: running_def two_ready_simps)
  then show ?thesis
    using release_unowned [of "rest_car (mutex_object 0 RT_IPC_FLAG_PRIO\<lparr>owner := Some 2, hold := 1, mtx_value := 0\<rparr>, two_ready)"]
    by (simp add: rest_car_def Let_def)
qed

lemma setpwm_mutex [simp]: "speed_mutex (setpwm p1 p2 c) = speed_mutex c"
  by (auto simp: setpwm_def Let_def SetTim9Compare_def rt_pin_write_def)

text \<open>The speed thread takes the mutex every period and never gives it back.\<close>

lemma speed_step_mutex:
  "speed_mutex (snd (speed_step a b (s, c))) = snd (rt_mutex_take 0 (speed_mutex c))"
  by (auto simp: speed_step_def Let_def split: prod.splits)

lemma speed_step_holds:
  assumes inv: "mutex_inv (m, k)" and run: "running k t" and c: "speed_mutex c = (m, k)"
    and ow: "owner m = Some t"
  shows "\<exists>k'. speed_mutex (snd (speed_step a b (s, c))) = (m\<lparr>hold := hold m + 1\<rparr>, k') \<and>
    mutex_inv (m\<lparr>hold := hold m + 1\<rparr>, k') \<and> running k' t"
  using mutex_take_own [OF inv run ow, of 0] by (auto simp: speed_step_mutex c)

definition speed_steps :: "(u16 \<times> u16) list \<Rightarrow> pid \<times> car \<Rightarrow> pid \<times> car" where
  "speed_steps ns x = fold (\<lambda>(a, b). speed_step a b) ns x"

text \<open>
  The speed thread takes the mutex every period and never gives it back: after \<open>n\<close> periods it
  holds it \<open>n\<close> times more, up to the limit of the 8-bit counter, so no other thread ever gets it.
\<close>

theorem speed_mutex_kept:
  assumes "mutex_inv (m, k)" "running k t" "speed_mutex c = (m, k)" "owner m = Some t"
    and "unat (hold m) + length ns < 256"
  shows "\<exists>m' k'. speed_mutex (snd (speed_steps ns (s, c))) = (m', k') \<and> owner m' = Some t \<and>
    unat (hold m') = unat (hold m) + length ns \<and> mtx_value m' = 0"
  using assms
proof (induction ns arbitrary: m k s c)
  case Nil
  then show ?case by (auto simp: speed_steps_def mutex_inv_def)
next
  case (Cons x ns)
  obtain a b where x: "x = (a, b)" by (cases x)
  obtain k' where k': "speed_mutex (snd (speed_step a b (s, c))) = (m\<lparr>hold := hold m + 1\<rparr>, k')"
    "mutex_inv (m\<lparr>hold := hold m + 1\<rparr>, k')" "running k' t"
    using speed_step_holds [OF Cons.prems(1-4), of a b s] by blast
  have u: "unat (hold m + 1) = unat (hold m) + 1"
    using Cons.prems(5) unat_add_lem [of "hold m" 1] by simp
  obtain s1 c1 where sc: "speed_step a b (s, c) = (s1, c1)" by fastforce
  from Cons.IH [OF k'(2,3), of c1 s1] k'(1) Cons.prems(4,5) show ?case
    by (simp add: speed_steps_def x sc u)
qed

lemma speed_mutex_kept_witness:
  "\<exists>m' k'. speed_mutex (snd (speed_steps [(3, 4), (5, 6)] (pid_init,
      rest_car (mutex_object 0 RT_IPC_FLAG_PRIO\<lparr>owner := Some 1, hold := 1, mtx_value := 0, original_priority := 5\<rparr>, two_ready)))) = (m', k') \<and>
    owner m' = Some 1 \<and> unat (hold m') = 3"
proof -
  let ?m = "mutex_object 0 RT_IPC_FLAG_PRIO\<lparr>owner := Some 1, hold := 1, mtx_value := 0, original_priority := 5\<rparr>"
  have "running two_ready 1" by (simp add: running_def two_ready_simps)
  moreover have "mutex_inv (?m, two_ready)"
    using two_ready_kinv by (simp add: mutex_inv_def mutex_object_def two_ready_lists RT_THREAD_PRIORITY_MAX_def)
  ultimately show ?thesis
    using speed_mutex_kept [of ?m two_ready 1 "rest_car (?m, two_ready)" "[(3, 4), (5, 6)]" pid_init]
    by (auto simp: rest_car_def mutex_object_def)
qed

text \<open>With the mutex taken, both wheels at rest in the request stop the motors.\<close>

lemma speed_step_stop:
  assumes "fst (rt_mutex_take 0 (speed_mutex c)) = Return RT_EOK" "wantspeed1 c = 0" "wantspeed2 c = 0"
  shows "pwm1 (fst (speed_step a b (s, c))) = 0" "pwm2 (fst (speed_step a b (s, c))) = 0"
    "ccr1 (snd (speed_step a b (s, c))) = 0" "ccr2 (snd (speed_step a b (s, c))) = 0"
  using assms
  by (auto simp: speed_step_def Let_def setpwm_def SetTim9Compare_def rt_pin_write_def split: prod.splits)

lemma speed_step_control:
  fixes a b :: u16 and s :: pid
  assumes "fst (rt_mutex_take 0 (speed_mutex c)) = Return RT_EOK" "wantspeed1 c \<noteq> 0 \<or> wantspeed2 c \<noteq> 0"
  defines "s' \<equiv> control (getspeedcounter a b) (s\<lparr>xspeed1 := wantspeed1 c, xspeed2 := wantspeed2 c\<rparr>)"
  shows "fst (speed_step a b (s, c)) = s'"
    "\<exists>c1. snd (speed_step a b (s, c)) = setpwm (pwm1 s') (pwm2 s') c1"
  using assms by (auto simp: speed_step_def Let_def split: prod.splits)

section \<open>Writing a byte to the scanner\<close>

text \<open>The device together with a count of the attempts.\<close>

definition counted :: "('d \<Rightarrow> nat \<times> 'd) \<Rightarrow> nat \<times> 'd \<Rightarrow> nat \<times> nat \<times> 'd" where
  "counted write x = (case x of (n, d) \<Rightarrow> let (len, d1) = write d in (len, n + 1, d1))"

lemma putchar_loop_from:
  "timeout < 500 \<Longrightarrow> \<exists>len j d'. putchar_loop (counted write) timeout (n, d) = (len, n + j, d') \<and>
    1 \<le> j \<and> j \<le> 500 - timeout \<and> (len = 1 \<or> j = 500 - timeout)"
proof (induction "500 - timeout" arbitrary: timeout n d rule: less_induct)
  case less
  obtain len d1 where w: "write d = (len, d1)" by (cases "write d")
  show ?case
  proof (cases "len \<noteq> 1 \<and> timeout + 1 < 500")
    case True
    then have "500 - (timeout + 1) < 500 - timeout" "timeout + 1 < 500" by auto
    from less.hyps [OF this, of "n + 1" d1] obtain len' j d'
      where "putchar_loop (counted write) (timeout + 1) (n + 1, d1) = (len', n + 1 + j, d')"
        "1 \<le> j" "j \<le> 500 - (timeout + 1)" "len' = 1 \<or> j = 500 - (timeout + 1)" by blast
    then show ?thesis
      using True w less.prems
      by (intro exI [of _ len'] exI [of _ "j + 1"] exI [of _ d'])
        (auto simp: putchar_loop.simps [of _ timeout] counted_def Let_def)
  next
    case False
    then show ?thesis
      using w less.prems
      by (intro exI [of _ len] exI [of _ 1] exI [of _ d1])
        (auto simp: putchar_loop.simps [of _ timeout] counted_def Let_def)
  qed
qed

text \<open>
  Writing a byte to the scanner returns whatever the device does: it tries once at least and
  500 times at most, and gives up before the limit only when the byte was taken.
\<close>

theorem putchar_loop_attempts:
  "\<exists>len j d'. putchar_loop (counted write) 0 (0, d) = (len, j, d') \<and> 1 \<le> j \<and> j \<le> 500 \<and> (len = 1 \<or> j = 500)"
  using putchar_loop_from [of 0 "write" 0 d] by simp

end
