(* ===== verification/Eaix4.thy ===== *)
theory Eaix4
  imports Receive Car MessageQueue
begin

unbundle bit_operations_syntax

text \<open>
  The line of the laser scanner, \<^verbatim>\<open>applications/app_eaix4.c\<close>: each receive interrupt moves a
  byte from the buffer of the serial port to a message queue, from which the thread that parses the packets
  takes them. Here the driver, the device framework, the queue, the kernel and the parser meet.
\<close>

section \<open>The code\<close>

record eaix4 = usart +
  Eaix4Mq :: rt_messagequeue

type_synonym line = "eaix4 on_serial"

definition with_mq :: "line \<Rightarrow> mq_state \<Rightarrow> line" where
  "with_mq x y = (fst x, (snd x)\<lparr>kern := snd y, hw := (hw (snd x))\<lparr>Eaix4Mq := fst y\<rparr>\<rparr>)"

definition mq_of :: "line \<Rightarrow> mq_state" where
  "mq_of x = (Eaix4Mq (hw (snd x)), kern (snd x))"

text \<open>The address of the callback, and of the variable it reads into, do not matter.\<close>

definition eaix4_intput :: "nat \<Rightarrow> nat \<Rightarrow> line \<Rightarrow> line" where
  "eaix4_intput cb n x =
    (case rt_device_read (serial_ops drv_uart_ops) 0 0 1 x of
       ((len, data), y) \<Rightarrow> if len = 1 then with_mq y (snd (rt_mq_send data 1 (mq_of y))) else y)"

definition eaix4_getchar :: "line \<Rightarrow> (int \<times> u8 list, mb_wait) outcome \<times> line" where
  "eaix4_getchar x = (case rt_mq_recv 1 RT_WAITING_FOREVER (mq_of x) of (r, y) \<Rightarrow> (r, with_mq x y))"

text \<open>The port sends by polling, since it is opened for receiving by interrupt only; so a write does not wait.\<close>

definition eaix4_write :: "u8 \<Rightarrow> line \<Rightarrow> nat \<times> line" where
  "eaix4_write c x =
    (case rt_device_write (serial_ops drv_uart_ops) 0 0 [c] x of
       (Return n, y) \<Rightarrow> (n, y) | (Blocked _, y) \<Rightarrow> (0, y))"

text \<open>\<open>eaix4_putchar\<close> of theory \<open>Car\<close> on this device; the string ends at a zero.\<close>

primrec eaix4_putstring :: "u8 list \<Rightarrow> line \<Rightarrow> line" where
  "eaix4_putstring [] x = x"
| "eaix4_putstring (c # s) x = (if c = 0 then x else eaix4_putstring s (eaix4_putchar eaix4_write c x))"

text \<open>
  Opening the device that the search found, whose state is \<open>x\<close>; \<open>pool\<close> is what the 45000 bytes of
  \<^verbatim>\<open>Eaix4Buff\<close> hold, \<open>n\<close> the address of the queue.
\<close>

definition eaix4_open ::
  "nat \<Rightarrow> (nat \<Rightarrow> u8 list) \<Rightarrow> string \<Rightarrow> nat object_store \<Rightarrow> line \<Rightarrow> (int \<times> line) option" where
  "eaix4_open n pool name st x =
    (case rt_device_find name (st, kern (snd x)) of
       (None, k) \<Rightarrow> Some (- RT_ERROR, (fst x, (snd x)\<lparr>kern := k\<rparr>))
     | (Some _, k) \<Rightarrow>
         let (r1, x1) = rt_device_set_rx_indicate (Some 1) (fst x, (snd x)\<lparr>kern := k\<rparr>) in
         if r1 \<noteq> RT_EOK then Some (- RT_ERROR, x1)
         else map_option
           (\<lambda>(r2, x2).
              if r2 \<noteq> RT_EOK then (- RT_ERROR, x2)
              else let (r3, y) = rt_mq_init n ''EAIX4'' pool 1 45000 RT_IPC_FLAG_FIFO (kern (snd x2)) in (RT_EOK, with_mq x2 y))
           (rt_device_open (serial_ops drv_uart_ops) 0x103 x1))"

section \<open>One interrupt\<close>

abbreviation line_irq :: "u8 list \<Rightarrow> line \<Rightarrow> line option" where
  "line_irq \<equiv> port_irq eaix4_intput"

definition line_ok :: "line \<Rightarrow> bool" where
  "line_ok x \<longleftrightarrow> rx_ready x \<and> mq_inv (mq_of x)"

lemma with_mq_frame [simp]:
  "mq_of (with_mq x y) = y" "rx_of (with_mq x y) = rx_of x" "bufsz_of (with_mq x y) = bufsz_of x"
  "rx_ready (with_mq x y) = rx_ready x" "fst (with_mq x y) = fst x"
  by (simp_all add: with_mq_def mq_of_def rx_of_def bufsz_of_def rx_ready_def open_has_def)

lemma mq_of_set_rx [simp]: "mq_of (set_rx f x) = mq_of x"
  by (simp add: mq_of_def)

text \<open>What a send of one byte does, whatever it answers.\<close>

lemma send_byte:
  assumes inv: "mq_inv s" and t: "t = snd (rt_mq_send [ch] 1 s)"
  shows "mq_inv t \<and> mq_cap t = mq_cap s \<and>
    mq_bytes t = (if length (mq_bytes s) < mq_cap s then mq_bytes s @ [ch] else mq_bytes s)"
proof (cases "length (mq_bytes s) < mq_cap s")
  case True
  from byte_queue.put_ok [OF inv True, of ch] show ?thesis
    using True by (auto simp: t mq_putc_def split: prod.splits if_splits)
next
  case False
  obtain m k where s: "s = (m, k)" by (cases s)
  have "mq_alloc m = None"
    using mq_full_alloc [OF inv [unfolded s]] False mq_entry_queued [OF inv [unfolded s]]
    by (simp add: s mq_bytes_def mq_cap_def)
  moreover have "1 \<le> msg_size m" using inv by (simp add: s mq_inv_def)
  ultimately have "t = s" by (simp add: t s rt_mq_send_def)
  then show ?thesis using inv False by simp
qed

text \<open>The callback moves the oldest byte of the buffer to the queue; a byte that finds the queue full is lost.\<close>

lemma intput_moves:
  assumes ok: "line_ok x" and ne: "rx_items x \<noteq> []"
  shows "\<exists>y. eaix4_intput cb n x = y \<and> line_ok y \<and> rx_items y = tl (rx_items x) \<and> bufsz_of y = bufsz_of x \<and>
    mq_cap (mq_of y) = mq_cap (mq_of x) \<and>
    mq_bytes (mq_of y) = (if length (mq_bytes (mq_of x)) < mq_cap (mq_of x)
      then mq_bytes (mq_of x) @ [hd (rx_items x)] else mq_bytes (mq_of x)) \<and>
    mq_of y = snd (rt_mq_send [hd (rx_items x)] 1 (mq_of x))"
proof -
  let ?b = "hd (rx_items x)"
  have rx: "rx_ready x" and inv: "mq_inv (mq_of x)" using ok by (simp_all add: line_ok_def)
  have b: "take 1 (rx_items x) = [?b]" using ne by (cases "rx_items x") simp_all
  obtain f where f: "rt_device_read (serial_ops drv_uart_ops) 0 0 1 x = ((1, [?b]), set_rx f x)"
    "int_inv (bufsz_of x) f" "int_items f = tl (rx_items x)"
    using read_byte [OF rx, of 0 0] unfolding b by auto
  let ?y = "with_mq (set_rx f x) (snd (rt_mq_send [?b] 1 (mq_of x)))"
  have "eaix4_intput cb n x = ?y" using f(1) by (simp add: eaix4_intput_def)
  then show ?thesis using send_byte [OF inv refl, of ?b] rx f(2,3) by (simp add: line_ok_def)
qed

lemma newest_nonempty: "0 < n \<Longrightarrow> xs \<noteq> [] \<Longrightarrow> newest n xs \<noteq> []"
  by (cases n; cases xs) (auto simp: newest_def)

lemma newest_last: "0 < n \<Longrightarrow> xs \<noteq> [] \<Longrightarrow> last (newest n xs) = last xs"
  using newest_nonempty [of n xs] by (simp add: newest_def last_drop)

text \<open>The byte that went on is not the last of two or more.\<close>

lemma newest_lags:
  assumes "3 \<le> n" "2 \<le> length xs"
  shows "tl (newest (n - 1) xs) \<noteq> [] \<and> last (tl (newest (n - 1) xs)) = last xs"
proof -
  let ?g = "newest (n - 1) xs"
  have "2 \<le> length ?g" unfolding length_newest using assms by simp
  moreover have "last ?g = last xs" by (rule newest_last) (use assms in auto)
  ultimately show ?thesis by (cases ?g; cases "tl ?g") auto
qed

text \<open>One interrupt: what it finds goes to the buffer, and one byte goes on to the queue.\<close>

definition pipe_irq :: "nat \<Rightarrow> nat \<Rightarrow> u8 list \<Rightarrow> u8 list \<times> u8 list \<Rightarrow> u8 list \<times> u8 list" where
  "pipe_irq n c chs p =
    (if chs = [] then p
     else let g = newest (n - 1) (fst p @ chs) in (tl g, if length (snd p) < c then snd p @ [hd g] else snd p))"

definition pipe_of :: "line \<Rightarrow> u8 list \<times> u8 list" where
  "pipe_of x = (rx_items x, mq_bytes (mq_of x))"

definition same_sizes :: "line \<Rightarrow> line \<Rightarrow> bool" where
  "same_sizes x y \<longleftrightarrow> bufsz_of y = bufsz_of x \<and> mq_cap (mq_of y) = mq_cap (mq_of x)"

lemma mq_of_nested [simp]: "mq_of (nested f x) = apsnd f (mq_of x)" "mq_of (drained x) = mq_of x"
  by (simp_all add: mq_of_def nested_def drained_def)

lemma mq_nest_frame [simp]:
  "mq_inv (apsnd rt_interrupt_enter s) = mq_inv s" "mq_inv (apsnd rt_interrupt_leave s) = mq_inv s"
  "mq_bytes (apsnd f s) = mq_bytes s" "mq_cap (apsnd f s) = mq_cap s"
  by (simp_all add: mq_inv_def rt_interrupt_enter_def rt_interrupt_leave_def mq_bytes_def mq_cap_def)

text \<open>The queue takes the byte in the handler, between the two changes of the nesting depth.\<close>

lemma irq_moves:
  assumes ok: "line_ok x"
  shows "\<exists>y. line_irq chs x = Some y \<and> line_ok y \<and> same_sizes x y \<and>
    pipe_of y = pipe_irq (bufsz_of x) (mq_cap (mq_of x)) chs (pipe_of x) \<and>
    (chs \<noteq> [] \<longrightarrow> (\<exists>b. mq_of y =
      apsnd rt_interrupt_leave (snd (rt_mq_send [b] 1 (apsnd rt_interrupt_enter (mq_of x))))))"
proof -
  have rx: "rx_ready x" and inv: "mq_inv (mq_of x)" using ok by (simp_all add: line_ok_def)
  obtain cb where cb: "rx_indicate (fst x) = Some cb" using rx by (auto simp: rx_ready_def)
  note irq = port_irq_receives [OF rx cb]
  show ?thesis
  proof (cases "chs = []")
    case True
    then show ?thesis using irq(1) rx inv by (simp add: line_ok_def same_sizes_def pipe_of_def pipe_irq_def)
  next
    case False
    let ?n = "bufsz_of x" and ?s = "apsnd rt_interrupt_enter (mq_of x)"
    obtain f where f: "int_inv ?n f" "int_items f = newest (?n - 1) (rx_items x @ chs)"
      "line_irq chs x = Some (nested rt_interrupt_leave (eaix4_intput cb (length (int_items f))
        (set_rx f (drained (nested rt_interrupt_enter x)))))"
      using irq(2) [OF False] by blast
    let ?x = "set_rx f (drained (nested rt_interrupt_enter x))"
    have x: "line_ok ?x" "rx_items ?x = int_items f" "mq_of ?x = ?s" "bufsz_of ?x = ?n"
      using rx inv f(1) by (simp_all add: line_ok_def)
    have "0 < ?n - 1" using f(1) by (simp add: int_inv_def)
    then have ne: "rx_items ?x \<noteq> []" unfolding x(2) f(2) using False by (intro newest_nonempty) simp_all
    from intput_moves [OF x(1) ne, of cb "length (int_items f)"] obtain y where
      y: "eaix4_intput cb (length (int_items f)) ?x = y" "line_ok y" "rx_items y = tl (int_items f)" "bufsz_of y = ?n"
        "mq_cap (mq_of y) = mq_cap ?s"
        "mq_bytes (mq_of y) = (if length (mq_bytes ?s) < mq_cap ?s then mq_bytes ?s @ [hd (int_items f)] else mq_bytes ?s)"
        "mq_of y = snd (rt_mq_send [hd (int_items f)] 1 ?s)"
      unfolding x(2-4) by blast
    have "line_irq chs x = Some (nested rt_interrupt_leave y)" using f(3) y(1) by simp
    moreover have "line_ok (nested rt_interrupt_leave y)" using y(2) by (simp add: line_ok_def)
    moreover have "same_sizes x (nested rt_interrupt_leave y)" using y(4,5) by (simp add: same_sizes_def)
    moreover have "pipe_of (nested rt_interrupt_leave y) = pipe_irq ?n (mq_cap (mq_of x)) chs (pipe_of x)"
      using y(3,6) False f(2) by (simp add: pipe_of_def pipe_irq_def Let_def)
    moreover have "mq_of (nested rt_interrupt_leave y) = apsnd rt_interrupt_leave (snd (rt_mq_send [hd (int_items f)] 1 ?s))"
      using y(7) by simp
    ultimately show ?thesis by blast
  qed
qed

section \<open>Histories\<close>

text \<open>
  Interrupts with the bytes that came, and reads. A reader that finds the queue empty waits; its read is the
  one after the next interrupt.
\<close>

datatype line_event = Irq "u8 list" | Getc

primrec line_step :: "line_event \<Rightarrow> line \<Rightarrow> (u8 list \<times> line) option" where
  "line_step (Irq chs) x = map_option (Pair []) (line_irq chs x)"
| "line_step Getc x =
    (if mq_entry (fst (mq_of x)) = 0 then Some ([], x)
     else case eaix4_getchar x of (Return (_, bs), y) \<Rightarrow> Some (bs, y) | (Blocked _, y) \<Rightarrow> Some ([], y))"

primrec line_exec :: "line_event list \<Rightarrow> line \<Rightarrow> (u8 list \<times> line) option" where
  "line_exec [] x = Some ([], x)"
| "line_exec (e # es) x =
    Option.bind (line_step e x) (\<lambda>(bs, y). map_option (apfst ((@) bs)) (line_exec es y))"

text \<open>The same on the two queues.\<close>

primrec pipe_step :: "nat \<Rightarrow> nat \<Rightarrow> line_event \<Rightarrow> u8 list \<times> u8 list \<Rightarrow> u8 list \<times> u8 list \<times> u8 list" where
  "pipe_step n c (Irq chs) p = ([], pipe_irq n c chs p)"
| "pipe_step n c Getc p = (take 1 (snd p), fst p, tl (snd p))"

primrec pipe_exec :: "nat \<Rightarrow> nat \<Rightarrow> line_event list \<Rightarrow> u8 list \<times> u8 list \<Rightarrow> u8 list \<times> u8 list \<times> u8 list" where
  "pipe_exec n c [] p = ([], p)"
| "pipe_exec n c (e # es) p = (let (bs, p1) = pipe_step n c e p in apfst ((@) bs) (pipe_exec n c es p1))"

lemma read_loop:
  assumes inv: "mq_inv (m, k)" and some: "mq_entry m \<noteq> 0"
  shows "\<exists>m' b. mq_recv_loop 1 timeout d th (m, k) = (Return (RT_EOK, [b]), (m', k)) \<and> mq_inv (m', k) \<and>
    mq_bytes (m, k) = b # mq_bytes (m', k) \<and> mq_cap (m', k) = mq_cap (m, k)"
proof -
  obtain m' where m': "mq_recv_loop 1 timeout d th (m, k) = (Return (RT_EOK, take 1 (hd (queued m))), (m', k))"
    "mq_inv (m', k)" "queued m' = tl (queued m)" "max_msgs m' = max_msgs m"
    using mq_recv_some [OF inv some, of 1 timeout d th] by blast
  obtain q qs where q: "queued m = q # qs" using mq_entry_queued [OF inv] some by (cases "queued m") auto
  obtain cs fs where c: "cells {} m cs fs" using inv by (auto simp: mq_inv_def)
  obtain d ds where d: "cs = d # ds" "q = mq_data m d" using q queued_cells [OF c] by (cases cs) auto
  then have "length q = msg_size m" using c by (auto simp: cells_def)
  then have "take 1 q = [hd q]" using inv by (cases q) (auto simp: mq_inv_def)
  then show ?thesis using m' q by (simp add: mq_bytes_def mq_cap_def)
qed

lemma read_head:
  assumes inv: "mq_inv s" and e: "mq_entry (fst s) \<noteq> 0" and t: "t_error (threads (snd s) (w_thread w)) = RT_EOK"
  shows "fst (rt_mq_recv_resume 1 w s) = Return (RT_EOK, [hd (mq_bytes s)])"
proof -
  obtain m k where s: "s = (m, k)" by (cases s)
  obtain m' b where "mq_recv_loop 1 (time_left w k) (tick_left w k) (Some (w_thread w)) (m, k) = (Return (RT_EOK, [b]), (m', k))"
    "mq_bytes (m, k) = b # mq_bytes (m', k)"
    using read_loop [of m k "time_left w k" "tick_left w k" "Some (w_thread w)"] inv e s by auto
  then show ?thesis using t s by (simp add: rt_mq_recv_resume_def)
qed

lemma getchar_moves:
  assumes ok: "line_ok x" and some: "mq_entry (fst (mq_of x)) \<noteq> 0"
  shows "\<exists>y b. eaix4_getchar x = (Return (RT_EOK, [b]), y) \<and> line_ok y \<and> same_sizes x y \<and>
    rx_items y = rx_items x \<and> mq_bytes (mq_of x) = b # mq_bytes (mq_of y)"
proof -
  obtain m k where s: "mq_of x = (m, k)" by fastforce
  have inv: "mq_inv (m, k)" and e: "mq_entry m \<noteq> 0" using ok some s by (simp_all add: line_ok_def)
  from read_loop [OF inv e, of RT_WAITING_FOREVER 0 "rt_thread_self k"] obtain m' b where
    m': "mq_recv_loop 1 RT_WAITING_FOREVER 0 (rt_thread_self k) (m, k) = (Return (RT_EOK, [b]), (m', k))"
      "mq_inv (m', k)" "mq_bytes (m, k) = b # mq_bytes (m', k)" "mq_cap (m', k) = mq_cap (m, k)" by blast
  let ?y = "with_mq x (m', k)"
  have "eaix4_getchar x = (Return (RT_EOK, [b]), ?y)"
    using m'(1) s e by (simp add: eaix4_getchar_def rt_mq_recv_def)
  moreover have "line_ok ?y" using ok m'(2) by (simp add: line_ok_def)
  ultimately show ?thesis using m'(3,4) s by (simp add: same_sizes_def)
qed

lemma line_step_refines:
  assumes ok: "line_ok x"
  shows "\<exists>bs y. line_step e x = Some (bs, y) \<and> line_ok y \<and> same_sizes x y \<and>
    pipe_step (bufsz_of x) (mq_cap (mq_of x)) e (pipe_of x) = (bs, pipe_of y)"
proof (cases e)
  case (Irq chs)
  then show ?thesis using irq_moves [OF ok, of chs] by auto
next
  case Getc
  have len: "length (mq_bytes (mq_of x)) = mq_entry (fst (mq_of x))"
    using ok mq_entry_queued [of "fst (mq_of x)" "snd (mq_of x)"] by (simp add: line_ok_def mq_bytes_def)
  show ?thesis
  proof (cases "mq_entry (fst (mq_of x)) = 0")
    case True
    then show ?thesis using Getc ok len by (simp add: same_sizes_def pipe_of_def)
  next
    case False
    from getchar_moves [OF ok False] show ?thesis using Getc False by (auto simp: pipe_of_def)
  qed
qed

lemma line_exec_refines:
  "line_ok x \<Longrightarrow> \<exists>bs y. line_exec es x = Some (bs, y) \<and> line_ok y \<and> same_sizes x y \<and>
    pipe_exec (bufsz_of x) (mq_cap (mq_of x)) es (pipe_of x) = (bs, pipe_of y)"
proof (induction es arbitrary: x)
  case Nil
  then show ?case by (simp add: same_sizes_def)
next
  case (Cons e es)
  from line_step_refines [OF Cons.prems, of e] obtain bs y where
    y: "line_step e x = Some (bs, y)" "line_ok y" "same_sizes x y"
      "pipe_step (bufsz_of x) (mq_cap (mq_of x)) e (pipe_of x) = (bs, pipe_of y)" by blast
  then show ?case using Cons.IH [OF y(2)] by (auto simp: same_sizes_def)
qed

text \<open>Bytes that came, and how many of them came in the company of an earlier one.\<close>

primrec came :: "line_event list \<Rightarrow> u8 list" where
  "came [] = []"
| "came (e # es) = (case e of Irq chs \<Rightarrow> chs | Getc \<Rightarrow> []) @ came es"

primrec extra :: "line_event list \<Rightarrow> nat" where
  "extra [] = 0"
| "extra (e # es) = (case e of Irq chs \<Rightarrow> length chs - 1 | Getc \<Rightarrow> 0) + extra es"

text \<open>Whether the queue, with \<open>q\<close> bytes in it and room for \<open>c\<close>, has room at each interrupt.\<close>

primrec has_room :: "nat \<Rightarrow> line_event list \<Rightarrow> nat \<Rightarrow> bool" where
  "has_room c [] q \<longleftrightarrow> True"
| "has_room c (e # es) q \<longleftrightarrow>
    (case e of Getc \<Rightarrow> has_room c es (q - 1) | Irq chs \<Rightarrow> if chs = [] then has_room c es q else q < c \<and> has_room c es (q + 1))"

lemma pipe_exec_keeps:
  "has_room c es (length q) \<Longrightarrow> Suc (length f + extra es) < n \<Longrightarrow> pipe_exec n c es (f, q) = (bs, f', q') \<Longrightarrow>
   bs @ q' @ f' = q @ f @ came es \<and> length f' = length f + extra es"
proof (induction es arbitrary: f q bs)
  case (Cons e es)
  show ?case
  proof (cases e)
    case Getc
    obtain bs1 where b: "pipe_exec n c es (f, tl q) = (bs1, f', q')" "bs = take 1 q @ bs1"
      using Cons.prems(3) Getc by (auto simp: apfst_def map_prod_def split: prod.splits)
    have "bs1 @ q' @ f' = tl q @ f @ came es \<and> length f' = length f + extra es"
      using Cons.IH [OF _ _ b(1)] Cons.prems(1,2) Getc by simp
    moreover have "take 1 q @ tl q = q" by (cases q) auto
    ultimately show ?thesis using Getc b(2) by (metis append_assoc came.simps(2) extra.simps(2) add_0 append_Nil line_event.case(2))
  next
    case (Irq chs)
    show ?thesis
    proof (cases "chs = []")
      case True
      then show ?thesis using Cons Irq by (auto simp: pipe_irq_def apfst_def map_prod_def split: prod.splits)
    next
      case False
      have nw: "newest (n - 1) (f @ chs) = f @ chs"
        using Cons.prems(2) Irq False by (cases chs) (simp_all add: newest_def)
      have q: "length q < c" "has_room c es (length (q @ [hd (f @ chs)]))" using Cons.prems(1) Irq False by simp_all
      obtain bs1 where b: "pipe_exec n c es (tl (f @ chs), q @ [hd (f @ chs)]) = (bs1, f', q')" "bs = bs1"
        using Cons.prems(3) Irq False q(1) nw by (auto simp: pipe_irq_def Let_def apfst_def map_prod_def split: prod.splits)
      have len: "length (tl (f @ chs)) = length f + (length chs - 1)" using False by (cases chs) simp_all
      then have "bs1 @ q' @ f' = (q @ [hd (f @ chs)]) @ tl (f @ chs) @ came es \<and>
          length f' = length (tl (f @ chs)) + extra es"
        using Cons.IH [OF q(2) _ b(1)] Cons.prems(2) Irq by simp
      moreover have "hd (f @ chs) # tl (f @ chs) = f @ chs" using False by simp
      ultimately show ?thesis using Irq b(2) len
        by (metis append.assoc append_Cons append_Nil came.simps(2) extra.simps(2) group_cancel.add1 line_event.case(1))
    qed
  qed
qed simp

text \<open>
  C11: as long as the receive buffer of the port and the queue of the application have room, no byte of the
  scanner is lost or changes its place: what was read, what waits in the queue and what waits in the buffer is, in
  order, what waited before and what came. Each interrupt moves one byte on, so that the buffer
  grows by the bytes that came together with an earlier one.
\<close>

theorem line_history:
  assumes x: "line_ok x" and q: "has_room (mq_cap (mq_of x)) es (length (mq_bytes (mq_of x)))"
    and f: "Suc (length (rx_items x) + extra es) < bufsz_of x"
  shows "\<exists>bs y. line_exec es x = Some (bs, y) \<and> line_ok y \<and>
    bs @ mq_bytes (mq_of y) @ rx_items y = mq_bytes (mq_of x) @ rx_items x @ came es \<and>
    length (rx_items y) = length (rx_items x) + extra es"
proof -
  obtain bs y where y: "line_exec es x = Some (bs, y)" "line_ok y"
    "pipe_exec (bufsz_of x) (mq_cap (mq_of x)) es (rx_items x, mq_bytes (mq_of x)) = (bs, rx_items y, mq_bytes (mq_of y))"
    using line_exec_refines [OF x, of es] by (auto simp: pipe_of_def)
  then show ?thesis using pipe_exec_keeps [OF q f y(3)] by blast
qed

text \<open>A buffer that holds a byte after an interrupt holds the last one that came, from then on.\<close>

lemma pipe_exec_lags:
  "3 \<le> n \<Longrightarrow> f \<noteq> [] \<Longrightarrow> pipe_exec n c es (f, q) = (bs, f', q') \<Longrightarrow>
   f' \<noteq> [] \<and> last f' = last (f @ came es)"
proof (induction es arbitrary: f q bs)
  case (Cons e es)
  obtain bs0 f1 q1 bs1 where s: "pipe_step n c e (f, q) = (bs0, f1, q1)" "pipe_exec n c es (f1, q1) = (bs1, f', q')"
    using Cons.prems(3) by (auto simp: Let_def apfst_def map_prod_def split: prod.splits)
  have "f1 \<noteq> [] \<and> last (f1 @ came es) = last (f @ came (e # es))"
  proof (cases "\<exists>chs. e = Irq chs \<and> chs \<noteq> []")
    case True
    then obtain chs where chs: "e = Irq chs" "chs \<noteq> []" by blast
    have l: "2 \<le> length (f @ chs)" using Cons.prems(2) chs(2) by (cases f; cases chs) auto
    have "f1 = tl (newest (n - 1) (f @ chs))" using s(1) chs by (simp add: pipe_irq_def Let_def)
    then show ?thesis using newest_lags [OF Cons.prems(1) l] chs by (simp add: last_append)
  next
    case False
    then show ?thesis using s(1) Cons.prems(2) by (cases e) (auto simp: pipe_irq_def)
  qed
  then show ?case using Cons.IH [OF Cons.prems(1) _ s(2)] by simp
qed simp

text \<open>
  C26: two bytes that come with one interrupt put the line behind for good, since the callback reads one byte
  however many there are: from then on, whatever comes and however often the application reads, the last byte
  that came is still in the buffer of the port.
\<close>

theorem burst_lags_forever:
  assumes x: "line_ok x" "3 \<le> bufsz_of x" and b: "2 \<le> length chs"
    and r: "line_exec (Irq chs # es) x = Some (bs, y)"
  shows "rx_items y \<noteq> [] \<and> last (rx_items y) = last (came (Irq chs # es))"
proof -
  obtain x1 where x1: "line_irq chs x = Some x1" "line_ok x1" "same_sizes x x1"
    "pipe_of x1 = pipe_irq (bufsz_of x) (mq_cap (mq_of x)) chs (pipe_of x)"
    using irq_moves [OF x(1), of chs] by blast
  let ?g = "newest (bufsz_of x - 1) (rx_items x @ chs)"
  have "chs \<noteq> []" using b by auto
  then have f: "rx_items x1 = tl ?g" using x1(4) by (simp add: pipe_of_def pipe_irq_def Let_def)
  have "2 \<le> length (rx_items x @ chs)" using b by simp
  then have ne: "rx_items x1 \<noteq> []" "last (rx_items x1) = last chs"
    using newest_lags [OF x(2), of "rx_items x @ chs"] \<open>chs \<noteq> []\<close> unfolding f by (simp_all add: last_append)
  obtain bs1 where e: "line_exec es x1 = Some (bs1, y)" using r x1(1) by (auto split: bind_splits)
  obtain bs2 y2 where y2: "line_exec es x1 = Some (bs2, y2)"
    "pipe_exec (bufsz_of x1) (mq_cap (mq_of x1)) es (rx_items x1, mq_bytes (mq_of x1)) =
      (bs2, rx_items y2, mq_bytes (mq_of y2))"
    using line_exec_refines [OF x1(2), of es] by (auto simp: pipe_of_def)
  have "y2 = y" using y2(1) e by simp
  moreover have "3 \<le> bufsz_of x1" using x(2) x1(3) by (simp add: same_sizes_def)
  ultimately show ?thesis using pipe_exec_lags [OF _ ne(1) y2(2)] ne(2) \<open>chs \<noteq> []\<close> by (simp add: last_append)
qed

section \<open>Opening the scanner\<close>

text \<open>
  Opening the scanner on a port that is registered, not open and not yet set up succeeds when the heap has
  room for the receive buffer and the hardware takes the set-up. The line is then ready: nothing is buffered, the
  receive interrupt is enabled and calls the callback, and the queue has room for 5625 bytes in its 45000.
\<close>

theorem scanner_opens:
  assumes x: "port_shut H (d, w)" "d_ref_count d = 0" "d_open_flag d = 0" "d_flag d = 0x103" "hal_ok (hw w)"
    and n: "2 \<le> bufsz (config (sub d))"
    and room: "rt_malloc (SIZEOF_RX_FIFO + bufsz (config (sub d))) (mem w) = Some (Some p, h)"
    and found: "device_find_in name st = Some dev"
    and kern: "kinv (kern w)" "lists (kern w) (Pending q) = []" and pool: "\<forall>c. length (pool c) = 4"
  shows "\<exists>y. eaix4_open q pool name st (d, w) = Some (RT_EOK, y) \<and> line_ok y \<and> pipe_of y = ([], []) \<and>
    mq_cap (mq_of y) = 5625"
proof -
  obtain k where f: "rt_device_find name (st, kern w) = (Some dev, k)" "kinv k" "lists k (Pending q) = []"
    using find_kernel [of "kern w" name st] found kern by auto
  note found = f(1) and k = f(2,3)
  obtain x2 where o: "rt_device_open (serial_ops drv_uart_ops) 0x103 (d\<lparr>rx_indicate := Some 1\<rparr>, w\<lparr>kern := k\<rparr>) = Some (RT_EOK, x2)"
    "rx_ready x2" "rx_items x2 = []" "kern (snd x2) = k"
    using port_opens [OF x n room] by blast
  obtain r m k2 where q: "rt_mq_init q ''EAIX4'' pool 1 45000 RT_IPC_FLAG_FIFO k = (r, m, k2)" by (metis prod_cases3)
  have al: "RT_ALIGN 1 4 = 4" by (simp add: RT_ALIGN_def)
  note i = mq_init_inv [where n = q and pool = pool and msize = 1 and pool_size = 45000 and flag = RT_IPC_FLAG_FIFO
      and nm = "''EAIX4''", OF k, unfolded al q]
  have "eaix4_open q pool name st (d, w) = Some (RT_EOK, with_mq x2 (m, k2))"
    using found o(1,4) q by (simp add: eaix4_open_def rt_device_set_rx_indicate_def upd_dev_def)
  then show ?thesis using i pool o(2,3) by (simp add: line_ok_def pipe_of_def mq_bytes_def mq_cap_def)
qed

section \<open>The thread that waits for a byte\<close>

text \<open>A send to a queue at which one thread waits makes that thread ready, and nothing else happens in the kernel.\<close>

lemma send_wakes:
  assumes inv: "mq_inv (m, k)" and l: "lists k (Pending (mq_id m)) = [t]" and room: "mq_entry m < max_msgs m"
  shows "\<exists>m'. snd (rt_mq_send [b] 1 (m, k)) = (m', rt_schedule (rt_ipc_list_resume (Pending (mq_id m)) k))"
proof -
  obtain qs fs where c: "cells {} m qs fs" using inv by (auto simp: mq_inv_def)
  have "length fs \<noteq> 0" using cells_queue_bound [OF c] room c by (auto simp: cells_def)
  then obtain f fs' where "fs = f # fs'" by (cases fs) auto
  with c obtain m1 where m1: "mq_alloc m = Some (f, m1)" "mq_id m1 = mq_id m"
    using alloc_cells [of "{}" m qs f fs'] by auto
  have id: "mq_id (mq_append c z) = mq_id z" "mq_id (mq_fill c bs sz z) = mq_id z" for c z bs sz
    by (auto simp: mq_append_def mq_fill_def Let_def split: option.splits)
  show ?thesis using m1 l inv by (simp add: rt_mq_send_def mq_wake_def id mq_inv_def Let_def)
qed

text \<open>A read of an empty queue parks the thread.\<close>

lemma getchar_parks:
  assumes ok: "line_ok x" and run: "running (kern (snd x)) t" and fifo: "mq_flag (fst (mq_of x)) = RT_IPC_FLAG_FIFO"
    and nobody: "lists (kern (snd x)) (Pending (mq_id (fst (mq_of x)))) = []" and empty: "mq_entry (fst (mq_of x)) = 0"
  shows "\<exists>w y. eaix4_getchar x = (Blocked w, y) \<and> w_thread w = t \<and> line_ok y \<and> same_sizes x y \<and> pipe_of y = pipe_of x \<and>
    fst (mq_of y) = fst (mq_of x) \<and> stat_of (kern (snd y)) t = RT_THREAD_SUSPEND \<and>
    t_error (threads (kern (snd y)) t) = RT_EOK \<and> lists (kern (snd y)) (Pending (mq_id (fst (mq_of x)))) = [t]"
proof -
  obtain m where s: "mq_of x = (m, kern (snd x))" by (simp add: mq_of_def)
  let ?k = "kern (snd x)" and ?l = "Pending (mq_id m)"
  let ?k1 = "rt_schedule (suspend_and_arm ?l t RT_IPC_FLAG_FIFO RT_WAITING_FOREVER (set_error t RT_EOK ?k))"
  have inv: "mq_inv (m, ?k)" using ok s by (simp add: line_ok_def)
  have kinv: "kinv ?k" using inv by (simp add: mq_inv_def)
  note p = park_fifo [OF kinv run, where l = ?l and time = RT_WAITING_FOREVER]
  let ?w = "wait_locals t RT_WAITING_FOREVER 0 (set_error t RT_EOK ?k)" and ?y = "with_mq x (m, ?k1)"
  have "rt_mq_recv 1 RT_WAITING_FOREVER (m, ?k) = (Blocked ?w, (m, ?k1))"
    using run empty fifo s by (simp add: rt_mq_recv_def mq_recv_loop_def Let_def rt_thread_self_def running_def)
  then have "eaix4_getchar x = (Blocked ?w, ?y)" by (simp add: eaix4_getchar_def s)
  moreover have "kern (snd ?y) = ?k1" by (simp add: with_mq_def)
  moreover have "mq_inv (m, ?k1)" using inv p(1) by (simp add: mq_inv_def)
  then have "line_ok ?y" using ok by (simp add: line_ok_def)
  moreover have "w_thread ?w = t" by (simp add: wait_locals_def)
  moreover have "lists ?k1 ?l = [t]" using p(2) nobody s by simp
  ultimately show ?thesis
    using p(3,4) s by (simp add: same_sizes_def pipe_of_def mq_bytes_def mq_cap_def)
qed

text \<open>
  The thread that reads a byte from an empty queue is parked; the next receive interrupt makes it ready, and
  its read then returns the oldest byte of the line.
\<close>

theorem byte_wakes_reader:
  assumes ok: "line_ok x" and run: "running (kern (snd x)) t" and fifo: "mq_flag (fst (mq_of x)) = RT_IPC_FLAG_FIFO"
    and nobody: "lists (kern (snd x)) (Pending (mq_id (fst (mq_of x)))) = []" and empty: "mq_bytes (mq_of x) = []"
    and cap: "0 < mq_cap (mq_of x)" and chs: "chs \<noteq> []" "length (rx_items x @ chs) < bufsz_of x"
  shows "\<exists>w y z. eaix4_getchar x = (Blocked w, y) \<and> stat_of (kern (snd y)) t = RT_THREAD_SUSPEND \<and>
    line_irq chs y = Some z \<and> stat_of (kern (snd z)) t = RT_THREAD_READY \<and>
    fst (rt_mq_recv_resume 1 w (mq_of z)) = Return (RT_EOK, [hd (rx_items x @ chs)])"
proof -
  have inv: "mq_inv (mq_of x)" using ok by (simp add: line_ok_def)
  then have "mq_entry (fst (mq_of x)) = 0"
    using mq_entry_queued [of "fst (mq_of x)" "snd (mq_of x)"] empty by (simp add: mq_bytes_def)
  from getchar_parks [OF ok run fifo nobody this] obtain w y where
    y: "eaix4_getchar x = (Blocked w, y)" "w_thread w = t" "line_ok y" "same_sizes x y" "pipe_of y = pipe_of x"
      "fst (mq_of y) = fst (mq_of x)" "stat_of (kern (snd y)) t = RT_THREAD_SUSPEND"
      "t_error (threads (kern (snd y)) t) = RT_EOK" "lists (kern (snd y)) (Pending (mq_id (fst (mq_of x)))) = [t]"
    by blast
  obtain z b where z: "line_irq chs y = Some z" "line_ok z"
    "pipe_of z = pipe_irq (bufsz_of y) (mq_cap (mq_of y)) chs (pipe_of y)"
    "mq_of z = apsnd rt_interrupt_leave (snd (rt_mq_send [b] 1 (apsnd rt_interrupt_enter (mq_of y))))"
    using irq_moves [OF y(3), of chs] chs(1) by blast
  let ?m = "fst (mq_of y)" and ?k = "rt_interrupt_enter (kern (snd y))" and ?l = "Pending (mq_id (fst (mq_of x)))"
  have e: "apsnd rt_interrupt_enter (mq_of y) = (?m, ?k)" by (simp add: mq_of_def)
  have inv': "mq_inv (?m, ?k)" using y(3) by (simp add: line_ok_def mq_of_def mq_inv_def rt_interrupt_enter_def)
  have l': "lists ?k (Pending (mq_id ?m)) = [t]" using y(6,9) by (simp add: rt_interrupt_enter_def)
  have "mq_entry ?m < max_msgs ?m"
    using mq_entry_queued [of "fst (mq_of x)" "snd (mq_of x)"] inv empty cap y(6) by (simp add: mq_bytes_def mq_cap_def)
  from send_wakes [OF inv' l' this, of b] have k: "kern (snd z) = rt_interrupt_leave (rt_schedule (rt_ipc_list_resume ?l ?k))"
    using z(4) y(6) unfolding e by (auto simp: mq_of_def)
  have "kinv ?k" using inv' by (simp add: mq_inv_def)
  note r = ipc_resume_result [OF this _ l']
  have t: "stat_of (kern (snd z)) t = RT_THREAD_READY" "t_error (threads (kern (snd z)) t) = RT_EOK"
    using r(3,6) y(6,8) unfolding k by (simp_all add: kframe stat_of_def rt_interrupt_leave_def rt_interrupt_enter_def)
  have zb: "mq_bytes (mq_of z) = [hd (rx_items x @ chs)]"
    using z(3) y(4,5) chs empty cap by (simp add: pipe_of_def pipe_irq_def Let_def same_sizes_def)
  have "mq_entry (fst (mq_of z)) \<noteq> 0"
    using mq_entry_queued [of "fst (mq_of z)" "snd (mq_of z)"] zb z(2) by (auto simp: line_ok_def mq_bytes_def)
  from read_head [OF _ this, of w] z(2) t(2) y(2) zb
  have "fst (rt_mq_recv_resume 1 w (mq_of z)) = Return (RT_EOK, [hd (rx_items x @ chs)])"
    by (simp add: line_ok_def mq_of_def)
  then show ?thesis using y(1,7) z(1) t(1) by blast
qed

section \<open>From the line to the wheels\<close>


section \<open>Witnesses\<close>

text \<open>An open line with a buffer of four bytes, whose queue has room for three.\<close>

definition open_line :: line where
  "open_line = with_mq
    (\<lparr>d_flag = 0x113, d_open_flag = 0x10b, d_ref_count = 1, rx_indicate = Some 1, tx_complete = None,
       sub = \<lparr>config = default_config\<lparr>bufsz := 4\<rparr>, serial_rx = Some (12, RxFifo (fifo_init 4)), serial_tx = None\<rparr>\<rparr>,
     \<lparr>kern = two_ready, errno = 0, mem = demo_heap,
       hw = \<lparr>init_struct = \<lparr>BaudRate = 128000, WordLength = UART_WORDLENGTH_8B, StopBits = UART_STOPBITS_1,
               Parity = UART_PARITY_NONE\<rparr>, rx_pending = [], tx_sent = [], rxne_it = True, hal_ok = True,
               Eaix4Mq = mq_object 0 (\<lambda>_. [0, 0, 0, 0]) 4 3 RT_IPC_FLAG_FIFO\<rparr>\<rparr>)
    (snd (rt_mq_init 0 ''EAIX4'' (\<lambda>_. [0, 0, 0, 0]) 1 24 RT_IPC_FLAG_FIFO two_ready))"

lemma open_line_ok: "line_ok open_line" "pipe_of open_line = ([], [])" "mq_cap (mq_of open_line) = 3" "bufsz_of open_line = 4"
proof -
  let ?m = "snd (rt_mq_init 0 ''EAIX4'' (\<lambda>_. [0, 0, 0, 0]) 1 24 RT_IPC_FLAG_FIFO two_ready)"
  have i: "mq_inv ?m" "queued (fst ?m) = []" "max_msgs (fst ?m) = 3"
    using mq_init_inv [OF two_ready_kinv, of 0 RT_IPC_FLAG_FIFO 1 24 "\<lambda>_. [0, 0, 0, 0]" "''EAIX4''"]
    by (simp_all add: two_ready_lists RT_ALIGN_def)
  have d: "mq_of open_line = ?m" "rx_of open_line = fifo_init 4" "bufsz_of open_line = 4"
    by (simp_all add: open_line_def rx_of_def bufsz_of_def)
  show "line_ok open_line"
    using i(1) d int_init [of 4] by (simp add: line_ok_def rx_ready_def) (simp add: open_line_def open_has_def has_flag_def with_mq_def)
  show "pipe_of open_line = ([], [])" "mq_cap (mq_of open_line) = 3" "bufsz_of open_line = 4"
    using i d int_init [of 4] by (simp_all add: pipe_of_def mq_bytes_def mq_cap_def)
qed

theorem line_history_witness:
  "\<exists>bs y. line_exec [Irq [7], Irq [8, 9], Getc, Getc, Getc] open_line = Some (bs, y) \<and>
     bs @ mq_bytes (mq_of y) @ rx_items y = [7, 8, 9] \<and> length (rx_items y) = 1"
proof -
  have "rx_items open_line = []" "mq_bytes (mq_of open_line) = []"
    using open_line_ok(2) by (simp_all add: pipe_of_def)
  then show ?thesis
    using line_history [OF open_line_ok(1), of "[Irq [7], Irq [8, 9], Getc, Getc, Getc]"] open_line_ok(3,4) by fastforce
qed

theorem burst_lags_forever_witness:
  "\<exists>bs y. line_exec [Irq [7, 8], Getc, Getc, Irq [9], Getc, Getc] open_line = Some (bs, y) \<and> last (rx_items y) = 9"
proof -
  obtain bs y where r: "line_exec [Irq [7, 8], Getc, Getc, Irq [9], Getc, Getc] open_line = Some (bs, y)"
    using line_exec_refines [OF open_line_ok(1)] by blast
  then show ?thesis using burst_lags_forever [OF open_line_ok(1) _ _ r] open_line_ok(4) by simp
qed

theorem byte_wakes_reader_witness:
  "\<exists>w y z. eaix4_getchar open_line = (Blocked w, y) \<and> line_irq [7] y = Some z \<and>
     fst (rt_mq_recv_resume 1 w (mq_of z)) = Return (RT_EOK, [7])"
proof -
  have k: "kern (snd open_line) = snd (snd (rt_mq_init 0 ''EAIX4'' (\<lambda>_. [0, 0, 0, 0]) 1 24 RT_IPC_FLAG_FIFO two_ready))"
    "mq_flag (fst (mq_of open_line)) = RT_IPC_FLAG_FIFO"
    by (simp_all add: open_line_def with_mq_def mq_of_def rt_mq_init_def mq_object_def Let_def)
  have q: "rx_items open_line = []" "mq_bytes (mq_of open_line) = []"
    using open_line_ok(2) by (simp_all add: pipe_of_def)
  have r: "running (kern (snd open_line)) 1" "lists (kern (snd open_line)) (Pending (mq_id (fst (mq_of open_line)))) = []"
    unfolding k
    by (simp_all add: rt_mq_init_def Let_def rt_ipc_object_init_def upd_objects_def running_def two_ready_simps
        two_ready_stat [unfolded stat_of_def] stat_of_def open_line_def with_mq_def mq_of_def mq_object_def)
  show ?thesis
    using byte_wakes_reader [OF open_line_ok(1) r(1) k(2) r(2) q(2), of "[7]"] open_line_ok(3,4) q by auto
qed

text \<open>A byte with each interrupt, read at once.\<close>

definition one_by_one :: "u8 list \<Rightarrow> line_event list" where
  "one_by_one bs = concat (map (\<lambda>b. [Irq [b], Getc]) bs)"

lemma one_by_one_events:
  "came (one_by_one bs) = bs" "extra (one_by_one bs) = 0" "0 < c \<Longrightarrow> has_room c (one_by_one bs) 0"
  by (induction bs) (simp_all add: one_by_one_def)

lemma one_by_one_read: "2 \<le> n \<Longrightarrow> 0 < c \<Longrightarrow> pipe_exec n c (one_by_one bs) ([], []) = (bs, [], [])"
  by (induction bs) (simp_all add: one_by_one_def pipe_irq_def newest_def)


text \<open>The port before it is opened, registered as \<^verbatim>\<open>uart2\<close> at address 2.\<close>

definition uart2_store :: "nat object_store" where
  "uart2_store = rt_object_init 2 RT_Object_Class_Device ''uart2''
    \<lparr>obj = (\<lambda>_. \<lparr>ob_name = [], ob_type = 0, ob_flag = 0\<rparr>), container = (\<lambda>_. [])\<rparr>"

definition shut_line :: line where
  "shut_line =
    (\<lparr>d_flag = 0x103, d_open_flag = 0, d_ref_count = 0, rx_indicate = None, tx_complete = None,
       sub = \<lparr>config = default_config, serial_rx = None, serial_tx = None\<rparr>\<rparr>,
     \<lparr>kern = two_ready, errno = 0, mem = demo_heap,
       hw = \<lparr>init_struct = \<lparr>BaudRate = 128000, WordLength = UART_WORDLENGTH_8B, StopBits = UART_STOPBITS_1,
               Parity = UART_PARITY_NONE\<rparr>, rx_pending = [], tx_sent = [], rxne_it = False, hal_ok = True,
               Eaix4Mq = mq_object 0 (\<lambda>_. [0, 0, 0, 0]) 4 0 RT_IPC_FLAG_FIFO\<rparr>\<rparr>)"

theorem scanner_opens_witness:
  "\<exists>y. eaix4_open 0 (\<lambda>_. [0, 0, 0, 0]) ''uart2'' uart2_store shut_line = Some (RT_EOK, y) \<and> line_ok y \<and> pipe_of y = ([], [])"
proof -
  obtain d w where x: "shut_line = (d, w)" by (cases shut_line)
  have d: "d_ref_count d = 0" "d_open_flag d = 0" "d_flag d = 0x103" "config (sub d) = default_config" "hal_ok (hw w)"
    "kern w = two_ready" "mem w = demo_heap"
    using x by (auto simp: shut_line_def)
  have s: "port_shut {} (d, w)"
    using heap_okI [OF demo_heap_inv] demo_heap_live unfolding x [symmetric]
    by (simp add: port_shut_def shut_line_def bufsz_of_def default_config_def)
  obtain h where "rt_malloc 76 demo_heap = Some (Some 1012, h)" by (simp add: demo_heap_eq heap_run)
  then have m: "rt_malloc (SIZEOF_RX_FIFO + bufsz (config (sub d))) (mem w) = Some (Some 1012, h)"
    using d by (simp add: default_config_def)
  have f: "device_find_in ''uart2'' uart2_store = Some 2"
    unfolding uart2_store_def by (subst find_device_registered) simp_all
  have k: "kinv (kern w)" "lists (kern w) (Pending 0) = []" using d(6) two_ready_kinv by (simp_all add: two_ready_lists)
  show ?thesis
    using scanner_opens [OF s d(1-3,5) _ m f k, of "\<lambda>_. [0, 0, 0, 0]"] d(4) unfolding x by (auto simp: default_config_def)
qed

end
