(* ===== verification/UartApp.thy ===== *)
theory UartApp
  imports Receive Event Car
begin

unbundle bit_operations_syntax

text \<open>
  The console line and the wireless line, \<^verbatim>\<open>applications/app_uart.c\<close> and
  \<^verbatim>\<open>applications/app_wirelessuart.c\<close>, whose code is the same. The receive callback sends an event; the
  reader takes bytes straight from the buffer of the port and waits for the event when there is none.
\<close>

section \<open>The code\<close>

abbreviation (input) UART_RX_EVENT :: u32 where "UART_RX_EVENT \<equiv> 1"
abbreviation (input) AND_CLEAR :: u8 where "AND_CLEAR \<equiv> 5"

record app_uart = usart +
  rx_event :: rt_event

type_synonym uart_line = "app_uart on_serial"

definition event_of :: "uart_line \<Rightarrow> event_state" where
  "event_of x = (rx_event (hw (snd x)), kern (snd x))"

definition with_event :: "uart_line \<Rightarrow> event_state \<Rightarrow> uart_line" where
  "with_event x y = (fst x, (snd x)\<lparr>kern := snd y, hw := (hw (snd x))\<lparr>rx_event := fst y\<rparr>\<rparr>)"

definition uart_intput :: "nat \<Rightarrow> nat \<Rightarrow> uart_line \<Rightarrow> uart_line" where
  "uart_intput cb n x = with_event x (snd (rt_event_send UART_RX_EVENT (event_of x)))"

text \<open>
  The two calls in the loop of \<open>uart_getchar\<close>; an interrupt can come between them. What the wait
  returns does not matter.
\<close>

definition getchar_read :: "uart_line \<Rightarrow> u8 option \<times> uart_line" where
  "getchar_read x =
    (case rt_device_read (serial_ops drv_uart_ops) 0 0 1 x of
       ((n, data), y) \<Rightarrow> (if n = 1 then Some (hd data) else None, y))"

definition getchar_wait :: "uart_line \<Rightarrow> tid option \<times> uart_line" where
  "getchar_wait x =
    (case rt_event_recv UART_RX_EVENT AND_CLEAR RT_WAITING_FOREVER (event_of x) of
       (Return _, y) \<Rightarrow> (None, with_event x y)
     | (Blocked t, y) \<Rightarrow> (Some t, with_event x y))"

text \<open>The loop without interrupts; a parked thread runs it again from the start when it is woken.\<close>

partial_function (option) uart_getchar :: "uart_line \<Rightarrow> ((u8, tid) outcome \<times> uart_line) option" where
  "uart_getchar x =
    (case getchar_read x of
       (Some ch, y) \<Rightarrow> Some (Return ch, y)
     | (None, y) \<Rightarrow>
         (case getchar_wait y of (Some t, z) \<Rightarrow> Some (Blocked t, z) | (None, z) \<Rightarrow> uart_getchar z))"

text \<open>The port sends by polling, since it is opened for receiving by interrupt only; so a write does not wait.\<close>

definition uart_write :: "u8 \<Rightarrow> uart_line \<Rightarrow> nat \<times> uart_line" where
  "uart_write c x =
    (case rt_device_write (serial_ops drv_uart_ops) 0 0 [c] x of
       (Return n, y) \<Rightarrow> (n, y) | (Blocked _, y) \<Rightarrow> (0, y))"

definition uart_putchar :: "u8 \<Rightarrow> uart_line \<Rightarrow> uart_line" where
  "uart_putchar = eaix4_putchar uart_write"

primrec uart_putstring :: "u8 list \<Rightarrow> uart_line \<Rightarrow> uart_line" where
  "uart_putstring [] x = x"
| "uart_putstring (c # s) x = (if c = 0 then x else uart_putstring s (uart_putchar c x))"

definition uart_open :: "nat \<Rightarrow> string \<Rightarrow> nat object_store \<Rightarrow> uart_line \<Rightarrow> (int \<times> uart_line) option" where
  "uart_open n name st x =
    (case rt_device_find name (st, kern (snd x)) of
       (None, k) \<Rightarrow> Some (- RT_ERROR, (fst x, (snd x)\<lparr>kern := k\<rparr>))
     | (Some _, k) \<Rightarrow>
         let (r1, x1) = rt_device_set_rx_indicate (Some 1) (fst x, (snd x)\<lparr>kern := k\<rparr>) in
         if r1 \<noteq> RT_EOK then Some (- RT_ERROR, x1)
         else map_option
           (\<lambda>(r2, x2).
              if r2 \<noteq> RT_EOK then (- RT_ERROR, x2)
              else let (r3, y) = rt_event_init n ''wireless'' RT_IPC_FLAG_FIFO (kern (snd x2)) in (RT_EOK, with_event x2 y))
           (rt_device_open (serial_ops drv_uart_ops) 0x103 x1))"

section \<open>One reader and the interrupt\<close>

text \<open>
  Where the reader stands: before the read, before the wait, or in the queue of the event. Between its steps
  come receive interrupts and whatever else runs, which leaves the line, the event and what the reader has asked
  the event for as they are.
\<close>

datatype place = Reading | Waiting | Parked

definition elsewhere :: "tid \<Rightarrow> nat \<Rightarrow> kernel \<Rightarrow> kernel \<Rightarrow> bool" where
  "elsewhere t n k k' \<longleftrightarrow> kinv k' \<and> lists k' (Pending n) = lists k (Pending n) \<and> request_of k' t = request_of k t"

text \<open>Bytes that came and bytes read so far, and whether the buffer had room at every interrupt.\<close>

inductive reader_steps :: "tid \<Rightarrow> uart_line \<Rightarrow> place \<Rightarrow> u8 list \<Rightarrow> u8 list \<Rightarrow> bool \<Rightarrow> uart_line \<Rightarrow> bool" for t x0 where
  start: "reader_steps t x0 Reading [] [] True x0"
| interrupt: "reader_steps t x0 pc came read room x \<Longrightarrow> port_irq uart_intput chs x = Some y \<Longrightarrow>
    reader_steps t x0 pc (came @ chs) read (room \<and> length (rx_items x @ chs) < bufsz_of x) y"
| other: "reader_steps t x0 pc came read room x \<Longrightarrow>
    elsewhere t (ev_id (rx_event (hw (snd x)))) (kern (snd x)) k' \<Longrightarrow>
    reader_steps t x0 pc came read room (nested (\<lambda>_. k') x)"
| got: "reader_steps t x0 Reading came read room x \<Longrightarrow> running (kern (snd x)) t \<Longrightarrow> getchar_read x = (Some ch, y) \<Longrightarrow>
    reader_steps t x0 Reading came (read @ [ch]) room y"
| empty: "reader_steps t x0 Reading came read room x \<Longrightarrow> running (kern (snd x)) t \<Longrightarrow> getchar_read x = (None, y) \<Longrightarrow>
    reader_steps t x0 Waiting came read room y"
| noticed: "reader_steps t x0 Waiting came read room x \<Longrightarrow> running (kern (snd x)) t \<Longrightarrow> getchar_wait x = (None, y) \<Longrightarrow>
    reader_steps t x0 Reading came read room y"
| park: "reader_steps t x0 Waiting came read room x \<Longrightarrow> running (kern (snd x)) t \<Longrightarrow> getchar_wait x = (Some u, y) \<Longrightarrow>
    reader_steps t x0 Parked came read room y"
| woken: "reader_steps t x0 Parked came read room x \<Longrightarrow> running (kern (snd x)) t \<Longrightarrow>
    reader_steps t x0 Reading came read room x"

section \<open>The invariant of the reader\<close>

abbreviation parked :: "uart_line \<Rightarrow> tid list" where
  "parked x \<equiv> event_waiters (event_of x)"

definition pending_event :: "uart_line \<Rightarrow> bool" where
  "pending_event x \<longleftrightarrow> ev_set (rx_event (hw (snd x))) AND UART_RX_EVENT = UART_RX_EVENT"

text \<open>
  A reader about to wait with bytes in the buffer finds the event set; a reader in the queue has nothing to read.
\<close>

definition reader_inv :: "tid \<Rightarrow> place \<Rightarrow> uart_line \<Rightarrow> bool" where
  "reader_inv t pc x \<longleftrightarrow> rx_ready x \<and> event_inv (event_of x) \<and> ev_flag (rx_event (hw (snd x))) = RT_IPC_FLAG_FIFO \<and>
     (parked x = [] \<or> pc = Parked \<and> parked x = [t] \<and> rx_items x = [] \<and>
        request_of (kern (snd x)) t = (t, AND_CLEAR, UART_RX_EVENT)) \<and>
     (pc = Waiting \<and> rx_items x \<noteq> [] \<longrightarrow> pending_event x)"

lemma satisfied_and_clear: "satisfied AND_CLEAR UART_RX_EVENT s \<longleftrightarrow> s AND UART_RX_EVENT = UART_RX_EVENT"
  by (simp add: satisfied_def and.commute)

lemma with_event_frame [simp]:
  "event_of (with_event x y) = y" "rx_of (with_event x y) = rx_of x" "bufsz_of (with_event x y) = bufsz_of x"
  "rx_ready (with_event x y) = rx_ready x" "kern (snd (with_event x y)) = snd y" "rx_event (hw (snd (with_event x y))) = fst y"
  by (simp_all add: with_event_def event_of_def rx_of_def bufsz_of_def rx_ready_def open_has_def)

lemma event_of_frame [simp]:
  "event_of (set_rx f x) = event_of x" "event_of (drained x) = event_of x" "event_of (nested g x) = apsnd g (event_of x)"
  "rx_event (hw (snd (nested g x))) = rx_event (hw (snd x))" "kern (snd (nested g x)) = g (kern (snd x))"
  "rx_event (hw (snd (drained x))) = rx_event (hw (snd x))" "kern (snd (drained x)) = kern (snd x)"
  by (simp_all add: event_of_def drained_def nested_def)

text \<open>What the callback does: the event is set, or the reader in the queue is woken.\<close>

lemma event_send_one:
  assumes inv: "event_inv (e, k)" and ws: "event_waiters (e, k) = [] \<or>
      event_waiters (e, k) = [t] \<and> request_of k t = (t, AND_CLEAR, UART_RX_EVENT)"
  shows "\<exists>e' k'. snd (rt_event_send UART_RX_EVENT (e, k)) = (e', k') \<and> event_inv (e', k') \<and> event_waiters (e', k') = [] \<and>
    ev_flag e' = ev_flag e \<and> ev_id e' = ev_id e \<and>
    (event_waiters (e, k) = [] \<longrightarrow> ev_set e' AND UART_RX_EVENT = UART_RX_EVENT \<and> k' = k)"
  using ws
proof
  assume w: "event_waiters (e, k) = []"
  have "(ev_set e OR 1) AND 1 = (1 :: u32)" by (rule bit_eqI) (auto simp: bit_simps)
  then show ?thesis using inv w by (simp add: rt_event_send_def event_inv_def)
next
  assume w: "event_waiters (e, k) = [t] \<and> request_of k t = (t, AND_CLEAR, UART_RX_EVENT)"
  have ki: "kinv k" using inv by (simp add: event_inv_def)
  have "(ev_set e OR 1) AND 1 = (1 :: u32)" by (rule bit_eqI) (auto simp: bit_simps)
  then have "satisfied AND_CLEAR UART_RX_EVENT (ev_set e OR UART_RX_EVENT)" by (simp only: satisfied_and_clear)
  then obtain s got where sv: "serve (map (request_of k) [t]) (ev_set e OR UART_RX_EVENT) = (s, [(t, got)], [])"
    using w by simp
  from wake_waiters_serves [OF ki _ _ sv, of "Pending (ev_id e)" "[]"] w obtain k' where
    k': "wake_waiters [t] (ev_set e OR UART_RX_EVENT) k = (s, k', True)" "kinv k'" "lists k' (Pending (ev_id e)) = []"
    by auto
  then have "snd (rt_event_send UART_RX_EVENT (e, k)) = (e\<lparr>ev_set := s\<rparr>, rt_schedule k')"
    using w by (simp add: rt_event_send_def)
  then show ?thesis using k'(2,3) w inv by (simp add: event_inv_def kframe)
qed

lemma event_nest_frame [simp]:
  "event_inv (apsnd rt_interrupt_enter s) = event_inv s" "event_inv (apsnd rt_interrupt_leave s) = event_inv s"
  by (simp_all add: event_inv_def rt_interrupt_enter_def rt_interrupt_leave_def request_of_def)

lemma request_nest [simp]:
  "request_of (rt_interrupt_enter k) = request_of k" "lists (rt_interrupt_enter k) = lists k"
  "request_of (rt_interrupt_leave k) = request_of k" "lists (rt_interrupt_leave k) = lists k"
  by (auto simp: rt_interrupt_enter_def rt_interrupt_leave_def request_of_def)

lemma irq_reader_inv:
  assumes inv: "reader_inv t pc x" and irq: "port_irq uart_intput chs x = Some y"
  shows "reader_inv t pc y \<and> bufsz_of y = bufsz_of x \<and> rx_items y = newest (bufsz_of x - 1) (rx_items x @ chs)"
proof -
  have rx: "rx_ready x" and ev: "event_inv (event_of x)" using inv by (simp_all add: reader_inv_def)
  obtain cb where cb: "rx_indicate (fst x) = Some cb" using rx by (auto simp: rx_ready_def)
  note step = port_irq_receives [OF rx cb]
  show ?thesis
  proof (cases "chs = []")
    case True
    have "length (rx_items x) \<le> bufsz_of x - 1"
      using rx unfolding rx_ready_def by (auto elim: int_count)
    then have "newest (bufsz_of x - 1) (rx_items x @ chs) = rx_items x" using True by simp
    moreover have "y = nested rt_interrupt_leave (nested rt_interrupt_enter (drained x))" using irq step(1) True by simp
    ultimately show ?thesis using inv by (simp add: reader_inv_def pending_event_def)
  next
    case False
    let ?n = "bufsz_of x"
    obtain f where f: "int_inv ?n f" "int_items f = newest (?n - 1) (rx_items x @ chs)"
      "port_irq uart_intput chs x = Some (nested rt_interrupt_leave (uart_intput cb (length (int_items f))
        (set_rx f (drained (nested rt_interrupt_enter x)))))"
      using step(2) [OF False] by blast
    let ?k = "rt_interrupt_enter (kern (snd x))" and ?e = "rx_event (hw (snd x))"
    have "event_inv (?e, ?k)" using ev event_nest_frame(1) [of "event_of x"] by (simp add: event_of_def)
    moreover have "event_waiters (?e, ?k) = [] \<or> event_waiters (?e, ?k) = [t] \<and> request_of ?k t = (t, AND_CLEAR, UART_RX_EVENT)"
      using inv by (auto simp: reader_inv_def event_of_def)
    ultimately obtain e' k' where s: "snd (rt_event_send UART_RX_EVENT (?e, ?k)) = (e', k')" "event_inv (e', k')"
      "event_waiters (e', k') = []" "ev_flag e' = ev_flag ?e"
      "event_waiters (?e, ?k) = [] \<longrightarrow> ev_set e' AND UART_RX_EVENT = UART_RX_EVENT"
      using event_send_one [of ?e ?k t] by blast
    have y: "y = nested rt_interrupt_leave (with_event (set_rx f (drained (nested rt_interrupt_enter x))) (e', k'))"
      using irq f(3) s(1) by (simp add: uart_intput_def event_of_def)
    have p: "pc = Waiting \<longrightarrow> event_waiters (?e, ?k) = []" using inv by (auto simp: reader_inv_def event_of_def)
    have "event_inv (e', rt_interrupt_leave k')" using s(2) event_nest_frame(2) [of "(e', k')"] by simp
    then have "reader_inv t pc y"
      using inv rx f(1) s(3-5) p unfolding y by (simp add: reader_inv_def pending_event_def)
    then show ?thesis using rx f(1,2) unfolding y by simp
  qed
qed

lemma read_reader_inv:
  assumes inv: "reader_inv t Reading x" and r: "getchar_read x = (c, y)"
  shows "bufsz_of y = bufsz_of x \<and> kern (snd y) = kern (snd x) \<and> reader_inv t Reading y \<and>
    (case c of Some ch \<Rightarrow> rx_items x = ch # rx_items y | None \<Rightarrow> reader_inv t Waiting y \<and> rx_items x = [] \<and> rx_items y = [])"
proof -
  have rx: "rx_ready x" using inv by (simp add: reader_inv_def)
  obtain f where f: "rt_device_read (serial_ops drv_uart_ops) 0 0 1 x =
      ((length (take 1 (rx_items x)), take 1 (rx_items x)), set_rx f x)" "int_inv (bufsz_of x) f" "int_items f = tl (rx_items x)"
    using read_byte [OF rx] by blast
  have y: "y = set_rx f x" using r f(1) by (auto simp: getchar_read_def)
  have e: "rx_event (hw (snd y)) = rx_event (hw (snd x))" by (simp add: y)
  have "reader_inv t Reading y" using inv f(2) by (auto simp: reader_inv_def y)
  moreover have "rx_items x = [] \<Longrightarrow> reader_inv t Waiting y" using inv f(2,3) by (auto simp: reader_inv_def y)
  moreover have "c = (if rx_items x = [] then None else Some (hd (rx_items x)))"
    using r f(1) by (cases "rx_items x") (auto simp: getchar_read_def)
  ultimately show ?thesis using rx f(2,3) by (cases "rx_items x") (auto simp: y)
qed

lemma wait_reader_inv:
  assumes inv: "reader_inv t Waiting x" and run: "running (kern (snd x)) t" and w: "getchar_wait x = (p, y)"
  shows "bufsz_of y = bufsz_of x \<and> rx_of y = rx_of x \<and>
    (case p of None \<Rightarrow> reader_inv t Reading y | Some u \<Rightarrow> u = t \<and> rx_items x = [] \<and> reader_inv t Parked y)"
proof -
  let ?e = "rx_event (hw (snd x))" and ?k = "kern (snd x)"
  have ev: "event_inv (?e, ?k)" and i: "rx_ready x" "ev_flag ?e = RT_IPC_FLAG_FIFO" "event_waiters (?e, ?k) = []"
    "rx_items x \<noteq> [] \<longrightarrow> pending_event x"
    using inv by (auto simp: reader_inv_def event_of_def)
  show ?thesis
  proof (cases "satisfied AND_CLEAR UART_RX_EVENT (ev_set ?e)")
    case True
    then have "?e \<in> UNIV" by simp
    from event_recv_served [OF ev run _ True, of RT_WAITING_FOREVER] obtain e' k' where
      s: "rt_event_recv UART_RX_EVENT AND_CLEAR RT_WAITING_FOREVER (?e, ?k) = (Return (RT_EOK, Some (ev_set ?e AND UART_RX_EVENT)), (e', k'))"
        "event_inv (e', k')" by auto
    have f: "lists k' = lists ?k" "ev_id e' = ev_id ?e" "ev_flag e' = ev_flag ?e"
      using s(1) run by (auto simp: rt_event_recv_def running_def rt_thread_self_def Let_def upd_thread_def split: if_splits)
    have "p = None" "y = with_event x (e', k')" using w s(1) by (auto simp: getchar_wait_def event_of_def)
    then show ?thesis using i s(2) f by (simp add: reader_inv_def)
  next
    case False
    from event_recv_wait [OF ev run _ False, of RT_WAITING_FOREVER] obtain k' where
      s: "rt_event_recv UART_RX_EVENT AND_CLEAR RT_WAITING_FOREVER (?e, ?k) = (Blocked t, (?e, k'))" "event_inv (?e, k')"
        "event_waiters (?e, k') = enqueued (ev_flag ?e) (priority_of ?k) t (event_waiters (?e, ?k))"
        "request_of k' t = (t, AND_CLEAR, UART_RX_EVENT)" by auto
    have "rx_items x = []" using i(4) False by (auto simp: satisfied_and_clear pending_event_def)
    moreover have "p = Some t" "y = with_event x (?e, k')" using w s(1) by (auto simp: getchar_wait_def event_of_def)
    moreover have "event_waiters (?e, k') = [t]" using s(3) i(2,3) by (simp add: enqueued_def)
    ultimately show ?thesis using i s(2,4) by (simp add: reader_inv_def)
  qed
qed

lemma other_reader_inv:
  assumes inv: "reader_inv t pc x" and o: "elsewhere t (ev_id (rx_event (hw (snd x)))) (kern (snd x)) k'"
  shows "reader_inv t pc (nested (\<lambda>_. k') x)"
proof -
  let ?e = "rx_event (hw (snd x))" and ?k = "kern (snd x)"
  have l: "kinv k'" "lists k' (Pending (ev_id ?e)) = lists ?k (Pending (ev_id ?e))" "request_of k' t = request_of ?k t"
    using o by (simp_all add: elsewhere_def)
  have "lists ?k (Pending (ev_id ?e)) = [] \<or> lists ?k (Pending (ev_id ?e)) = [t]" using inv by (auto simp: reader_inv_def event_of_def)
  then have "event_inv (?e, k')" using inv l by (auto simp: reader_inv_def event_inv_def event_of_def)
  then show ?thesis using inv l by (auto simp: reader_inv_def event_of_def pending_event_def)
qed

lemma woken_reader_inv: "reader_inv t Parked x \<Longrightarrow> running (kern (snd x)) t \<Longrightarrow> reader_inv t Reading x"
  using not_in_wait_queue [of "kern (snd x)" t "Pending (ev_id (rx_event (hw (snd x))))"]
  by (auto simp: reader_inv_def event_inv_def event_of_def running_def)

lemma reader_steps_inv:
  assumes "reader_steps t x0 pc came read room x" and "reader_inv t Reading x0"
  shows "reader_inv t pc x \<and> bufsz_of x = bufsz_of x0 \<and> subseq (read @ rx_items x) (rx_items x0 @ came) \<and>
    (room \<longrightarrow> read @ rx_items x = rx_items x0 @ came)"
  using assms
proof (induction rule: reader_steps.induct)
  case (interrupt pc came read room x chs y)
  then have i: "reader_inv t pc y" "bufsz_of y = bufsz_of x" "rx_items y = newest (bufsz_of x - 1) (rx_items x @ chs)"
    using irq_reader_inv by blast+
  have "subseq (read @ rx_items y) (read @ rx_items x @ chs)" unfolding i(3) by (intro list_emb_append_mono newest_subseq) simp
  moreover have "subseq ((read @ rx_items x) @ chs) ((rx_items x0 @ came) @ chs)"
    by (rule list_emb_append_mono) (use interrupt in simp_all)
  ultimately have "subseq (read @ rx_items y) (rx_items x0 @ came @ chs)" by (simp add: subseq_order.dual_order.trans)
  moreover have "length (rx_items x @ chs) < bufsz_of x \<Longrightarrow> rx_items y = rx_items x @ chs" unfolding i(3) by (rule newest_all) simp
  ultimately show ?case using interrupt i(1,2) by auto
next
  case (got came read room x ch y)
  then show ?case using read_reader_inv [of t x "Some ch" y] by simp
next
  case (empty came read room x y)
  then show ?case using read_reader_inv [of t x None y] by simp
next
  case (noticed came read room x y)
  then show ?case using wait_reader_inv [of t x None y] by simp
next
  case (park came read room x u y)
  then show ?case using wait_reader_inv [of t x "Some u" y] by simp
qed (auto simp: other_reader_inv woken_reader_inv)

text \<open>
  C12: however receive interrupts, the steps of the reader and the rest of the system interleave, no wake-up is
  lost: while the reader sits in the queue of the event the buffer is empty, and a reader about to wait with bytes in
  the buffer is not parked. The bytes are read in order, and all of them if the buffer always had room.
\<close>

theorem uart_no_lost_wakeup:
  assumes start: "rx_ready x0" "event_inv (event_of x0)" "parked x0 = []" "ev_flag (rx_event (hw (snd x0))) = RT_IPC_FLAG_FIFO"
    and steps: "reader_steps t x0 pc came read room x"
  shows "(t \<in> set (parked x) \<longrightarrow> rx_items x = []) \<and>
    (pc = Waiting \<and> running (kern (snd x)) t \<and> rx_items x \<noteq> [] \<longrightarrow> fst (getchar_wait x) = None) \<and>
    subseq (read @ rx_items x) (rx_items x0 @ came) \<and> (room \<longrightarrow> read @ rx_items x = rx_items x0 @ came)"
proof -
  have "reader_inv t Reading x0" using start by (simp add: reader_inv_def)
  note i = reader_steps_inv [OF steps this]
  have "fst (getchar_wait x) = None" if w: "pc = Waiting" "running (kern (snd x)) t" "rx_items x \<noteq> []"
  proof -
    obtain p y where p: "getchar_wait x = (p, y)" by (cases "getchar_wait x")
    then show ?thesis using wait_reader_inv [of t x p y] i w by (cases p) auto
  qed
  then show ?thesis using i by (auto simp: reader_inv_def)
qed

section \<open>Opening, and the loop without interrupts\<close>

text \<open>
  Opening the line on a port that is registered, not open and not yet set up succeeds when the heap has room for the
  receive buffer and the hardware takes the set-up.
\<close>

lemma uart_opens:
  assumes x: "port_shut H (d, w)" "d_ref_count d = 0" "d_open_flag d = 0" "d_flag d = 0x103" "hal_ok (hw w)"
    and n: "2 \<le> bufsz (config (rt_device.sub d))"
    and room: "rt_malloc (SIZEOF_RX_FIFO + bufsz (config (rt_device.sub d))) (mem w) = Some (Some p, h)"
    and found: "device_find_in name st = Some dev"
    and kern: "kinv (kern w)" "lists (kern w) (Pending q) = []"
  shows "\<exists>y. uart_open q name st (d, w) = Some (RT_EOK, y) \<and> rx_ready y \<and> rx_items y = [] \<and>
    event_inv (event_of y) \<and> parked y = [] \<and> ev_flag (rx_event (hw (snd y))) = RT_IPC_FLAG_FIFO"
proof -
  obtain k where k: "rt_device_find name (st, kern w) = (Some dev, k)" "kinv k" "lists k (Pending q) = []"
    using find_kernel [of "kern w" name st] found kern by auto
  obtain x2 where o: "rt_device_open (serial_ops drv_uart_ops) 0x103 (d\<lparr>rx_indicate := Some 1\<rparr>, w\<lparr>kern := k\<rparr>) = Some (RT_EOK, x2)"
    "rx_ready x2" "rx_items x2 = []" "kern (snd x2) = k"
    using port_opens [OF x n room] by blast
  have l: "(lists k)(Pending q := []) = lists k" using k(3) by (simp add: fun_upd_idem)
  have "uart_open q name st (d, w) = Some (RT_EOK, with_event x2 (snd (rt_event_init q ''wireless'' RT_IPC_FLAG_FIFO k)))"
    using k(1) o(1,4) by (simp add: uart_open_def rt_device_set_rx_indicate_def upd_dev_def rt_event_init_def)
  then show ?thesis
    using o(2,3) k(2,3) l
    by (simp add: rt_event_init_def event_object_def event_inv_def rt_ipc_object_init_def upd_objects_def)
qed

text \<open>A wait that returns has used up the event.\<close>

lemma wait_uses_event:
  assumes "running (kern (snd x)) t" "getchar_wait x = (None, y)"
  shows "pending_event x \<and> \<not> pending_event y \<and> running (kern (snd y)) t"
proof -
  have c: "(s AND - 2) AND 1 = (0 :: u32)" for s by (simp add: and.assoc)
  show ?thesis using assms
    by (auto simp: getchar_wait_def event_of_def rt_event_recv_def rt_thread_self_def Let_def pending_event_def
        with_event_def upd_thread_def running_def stat_of_def c split: if_splits)
qed

text \<open>
  Without interrupts in between, the loop returns: with a byte if there is one, else with the thread parked. The event
  of an earlier interrupt costs one more round.
\<close>

lemma getchar_round:
  assumes inv: "reader_inv t Reading x" and run: "running (kern (snd x)) t"
  shows "(\<exists>y. uart_getchar x = Some (Return (hd (rx_items x)), y) \<and> rx_items x \<noteq> [] \<and> rx_items y = tl (rx_items x) \<and>
      reader_inv t Reading y) \<or>
    (\<exists>y. uart_getchar x = Some (Blocked t, y) \<and> rx_items x = [] \<and> reader_inv t Parked y) \<or>
    (\<exists>y. uart_getchar x = uart_getchar y \<and> rx_items x = [] \<and> rx_items y = [] \<and> reader_inv t Reading y \<and>
      running (kern (snd y)) t \<and> pending_event x \<and> \<not> pending_event y)"
proof -
  obtain c y where r: "getchar_read x = (c, y)" by (cases "getchar_read x")
  note i = read_reader_inv [OF inv r]
  show ?thesis
  proof (cases c)
    case (Some ch)
    then show ?thesis using i r by (subst (1) uart_getchar.simps) simp
  next
    case None
    have e: "rx_event (hw (snd y)) = rx_event (hw (snd x))"
      using read_byte [of x 0 0] inv r by (auto simp: reader_inv_def getchar_read_def)
    have y: "reader_inv t Waiting y" "running (kern (snd y)) t" "rx_items x = []" "rx_items y = []" using i run None by simp_all
    obtain p z where w: "getchar_wait y = (p, z)" by (cases "getchar_wait y")
    note j = wait_reader_inv [OF y(1,2) w]
    have u: "uart_getchar x = (case p of Some t \<Rightarrow> Some (Blocked t, z) | None \<Rightarrow> uart_getchar z)"
      using r w None by (subst uart_getchar.simps) simp
    show ?thesis
    proof (cases p)
      case (Some u)
      then show ?thesis using j u y(3) by simp
    next
      case N: None
      then have "uart_getchar x = uart_getchar z" "reader_inv t Reading z" "rx_items z = []" using u j y(4) by simp_all
      moreover have "pending_event y" "\<not> pending_event z" "running (kern (snd z)) t"
        using wait_uses_event [OF y(2), of z] w N by simp_all
      moreover have "pending_event x" using calculation(4) e by (simp add: pending_event_def)
      ultimately show ?thesis using y(3) by blast
    qed
  qed
qed

theorem uart_getchar_returns:
  assumes inv: "reader_inv t Reading x" and run: "running (kern (snd x)) t"
  shows "\<exists>y. uart_getchar x = Some (if rx_items x = [] then Blocked t else Return (hd (rx_items x)), y) \<and>
    reader_inv t (if rx_items x = [] then Parked else Reading) y \<and> (rx_items x \<noteq> [] \<longrightarrow> rx_items y = tl (rx_items x))"
  using getchar_round [OF assms]
proof (elim disjE exE)
  fix y assume y: "uart_getchar x = uart_getchar y \<and> rx_items x = [] \<and> rx_items y = [] \<and> reader_inv t Reading y \<and>
      running (kern (snd y)) t \<and> pending_event x \<and> \<not> pending_event y"
  then obtain z where "uart_getchar y = Some (Blocked t, z)" "reader_inv t Parked z" using getchar_round [of t y] by blast
  then show ?thesis using y by (intro exI [of _ z]) simp
qed auto

section \<open>Witnesses\<close>

text \<open>An open line with a buffer of four bytes, whose reader is thread 1.\<close>

definition open_uart :: uart_line where
  "open_uart =
    (\<lparr>d_flag = 0x113, d_open_flag = 0x10b, d_ref_count = 1, rx_indicate = Some 1, tx_complete = None,
       sub = \<lparr>config = default_config\<lparr>bufsz := 4\<rparr>, serial_rx = Some (12, RxFifo (fifo_init 4)), serial_tx = None\<rparr>\<rparr>,
     \<lparr>kern = two_ready, errno = 0, mem = demo_heap,
       hw = \<lparr>init_struct = \<lparr>BaudRate = 115200, WordLength = UART_WORDLENGTH_8B, StopBits = UART_STOPBITS_1,
               Parity = UART_PARITY_NONE\<rparr>, rx_pending = [], tx_sent = [], rxne_it = True, hal_ok = True,
               rx_event = event_object 0 RT_IPC_FLAG_FIFO\<rparr>\<rparr>)"

lemma open_uart_ready: "rx_ready open_uart" "event_inv (event_of open_uart)" "parked open_uart = []"
  "ev_flag (rx_event (hw (snd open_uart))) = RT_IPC_FLAG_FIFO" "rx_items open_uart = []" "running (kern (snd open_uart)) 1"
  using int_init [of 4] two_ready_kinv
  by (simp_all add: rx_ready_def rx_of_def open_uart_def bufsz_of_def open_has_def has_flag_def event_of_def event_inv_def
      event_object_def two_ready_lists running_def two_ready_simps)

theorem uart_no_lost_wakeup_witness:
  "\<exists>came read room x. reader_steps 1 open_uart Parked came read room x \<and> rx_items x = []"
proof -
  have inv: "reader_inv 1 Reading open_uart" using open_uart_ready by (simp add: reader_inv_def)
  obtain c y where r: "getchar_read open_uart = (c, y)" by (cases "getchar_read open_uart")
  note i = read_reader_inv [OF inv r]
  have c: "c = None" "reader_inv 1 Waiting y" "running (kern (snd y)) 1"
    using i open_uart_ready(5,6) by (cases c; simp)+
  have e: "reader_steps 1 open_uart Waiting [] [] True y"
    using reader_steps.empty [OF reader_steps.start open_uart_ready(6)] r c(1) by simp
  obtain p z where w: "getchar_wait y = (p, z)" by (cases "getchar_wait y")
  have "p \<noteq> None"
  proof
    assume "p = None"
    then have "pending_event y" using wait_uses_event [OF c(3)] w by simp
    moreover have "rx_event (hw (snd y)) = rx_event (hw (snd open_uart))"
      using read_byte [OF open_uart_ready(1), of 0 0] r by (auto simp: getchar_read_def)
    ultimately show False by (simp add: pending_event_def open_uart_def event_object_def)
  qed
  then obtain u where u: "p = Some u" by blast
  then have "reader_steps 1 open_uart Parked [] [] True z" using reader_steps.park [OF e c(3)] w by simp
  moreover from uart_no_lost_wakeup [OF open_uart_ready(1-4) this] have "1 \<in> set (parked z) \<longrightarrow> rx_items z = []" by blast
  moreover have "rx_items z = []" using wait_reader_inv [OF c(2,3) w] u i c(1) by simp
  ultimately show ?thesis by blast
qed

theorem uart_getchar_returns_witness: "\<exists>y. uart_getchar open_uart = Some (Blocked 1, y)"
  using uart_getchar_returns [of 1 open_uart] open_uart_ready by (auto simp: reader_inv_def)

end
