(* ===== verification/I2cBit.thy ===== *)
theory I2cBit
  imports Prelude "HOL-Library.Monad_Syntax"
begin

unbundle bit_operations_syntax

text \<open>
  The I2C master that drives the two wires of the bus by software
  (\<^verbatim>\<open>components/drivers/i2c/i2c-bit-ops.c\<close>), over the functions of a board that move
  the wires. The board and whatever hangs on its bus are a state \<open>'w\<close>. A slave may hold the clock low,
  and the wait for it may go on for ever when the time-out of the board is so small that no tick passes: a function
  that raises the clock has the value \<open>None\<close> when it does not return.
\<close>

section \<open>The functions of the board\<close>

abbreviation (input) RT_EIO :: int where "RT_EIO \<equiv> 8"

text \<open>
  \<open>struct rt_i2c_bit_ops\<close>. The private data of the board is part of \<open>'w\<close>. To the fields of the
  structure come the two services of the kernel that the wait for the clock uses.
\<close>

record 'w rt_i2c_bit_ops =
  set_sda :: "bool \<Rightarrow> 'w \<Rightarrow> 'w"
  set_scl :: "bool \<Rightarrow> 'w \<Rightarrow> 'w"
  get_sda :: "'w \<Rightarrow> bool"
  get_scl :: "('w \<Rightarrow> bool) option"
  udelay :: "u32 \<Rightarrow> 'w \<Rightarrow> 'w"
  delay_us :: u32
  timeout :: u32

record 'w bit_ops = "'w rt_i2c_bit_ops" +
  tick_get :: "'w \<Rightarrow> u32"
  thread_delay :: "u32 \<Rightarrow> 'w \<Rightarrow> 'w"

definition i2c_delay :: "'w bit_ops \<Rightarrow> 'w \<Rightarrow> 'w" where
  "i2c_delay p = udelay p (drop_bit 1 (delay_us p + 1))"

definition i2c_delay2 :: "'w bit_ops \<Rightarrow> 'w \<Rightarrow> 'w" where
  "i2c_delay2 p = udelay p (delay_us p)"

text \<open>The loop of \<open>SCL_H\<close>: whether the clock has gone high before the time was over.\<close>

partial_function (option) scl_wait :: "'w bit_ops \<Rightarrow> ('w \<Rightarrow> bool) \<Rightarrow> u32 \<Rightarrow> 'w \<Rightarrow> (bool \<times> 'w) option" where
  "scl_wait p high st w =
    (if high w then Some (True, w)
     else if timeout p < tick_get p w - st then Some (False, w)
     else scl_wait p high st (thread_delay p (drop_bit 1 (timeout p + 1)) w))"

definition SCL_H :: "'w bit_ops \<Rightarrow> 'w \<Rightarrow> (int \<times> 'w) option" where
  "SCL_H p w =
    (let w1 = set_scl p True w in
     do { (ok, w2) \<leftarrow> (case get_scl p of None \<Rightarrow> Some (True, w1) | Some high \<Rightarrow> scl_wait p high (tick_get p w1) w1);
          Some (if ok then (RT_EOK, i2c_delay p w2) else (- RT_ETIMEOUT, w2)) })"

section \<open>Conditions on the bus\<close>

definition i2c_start :: "'w bit_ops \<Rightarrow> 'w \<Rightarrow> 'w" where
  "i2c_start p w = set_scl p False (i2c_delay p (set_sda p False w))"

text \<open>What \<open>SCL_H\<close> returns does not matter here.\<close>

definition i2c_restart :: "'w bit_ops \<Rightarrow> 'w \<Rightarrow> 'w option" where
  "i2c_restart p w =
    do { (_, w1) \<leftarrow> SCL_H p (set_sda p True w);
         Some (set_scl p False (i2c_delay p (set_sda p False (i2c_delay p w1)))) }"

definition i2c_stop :: "'w bit_ops \<Rightarrow> 'w \<Rightarrow> 'w option" where
  "i2c_stop p w =
    do { (_, w1) \<leftarrow> SCL_H p (i2c_delay p (set_sda p False w));
         Some (i2c_delay2 p (set_sda p True (i2c_delay p w1))) }"

section \<open>Bytes\<close>

text \<open>One when the slave has acknowledged, zero when it has not, and an error.\<close>

definition i2c_waitack :: "'w bit_ops \<Rightarrow> 'w \<Rightarrow> (int \<times> 'w) option" where
  "i2c_waitack p w =
    do { (r, w1) \<leftarrow> SCL_H p (i2c_delay p (set_sda p True w));
         Some (if r < 0 then (- RT_ETIMEOUT, w1)
               else (if get_sda p w1 then 0 else 1, set_scl p False w1)) }"

text \<open>The loop of \<open>i2c_writeb\<close>, with \<open>n\<close> bits to go.\<close>

primrec write_bits :: "'w bit_ops \<Rightarrow> u8 \<Rightarrow> nat \<Rightarrow> 'w \<Rightarrow> (int \<times> 'w) option" where
  "write_bits p data 0 w = Some (RT_EOK, w)"
| "write_bits p data (Suc i) w =
    do { (r, w1) \<leftarrow> SCL_H p (i2c_delay p (set_sda p (bit data i) (set_scl p False w)));
         if r < 0 then Some (- RT_ETIMEOUT, w1) else write_bits p data i w1 }"

definition i2c_writeb :: "'w bit_ops \<Rightarrow> u8 \<Rightarrow> 'w \<Rightarrow> (int \<times> 'w) option" where
  "i2c_writeb p data w =
    do { (r, w1) \<leftarrow> write_bits p data 8 w;
         if r < 0 then Some (r, w1) else i2c_waitack p (i2c_delay p (set_scl p False w1)) }"

primrec read_bits :: "'w bit_ops \<Rightarrow> nat \<Rightarrow> u8 \<Rightarrow> 'w \<Rightarrow> (int \<times> 'w) option" where
  "read_bits p 0 data w = Some (uint data, w)"
| "read_bits p (Suc n) data w =
    do { (r, w1) \<leftarrow> SCL_H p w;
         if r < 0 then Some (- RT_ETIMEOUT, w1)
         else read_bits p n (if get_sda p w1 then push_bit 1 data OR 1 else push_bit 1 data)
                (i2c_delay2 p (set_scl p False w1)) }"

definition i2c_readb :: "'w bit_ops \<Rightarrow> 'w \<Rightarrow> (int \<times> 'w) option" where
  "i2c_readb p w = read_bits p 8 0 (i2c_delay p (set_sda p True w))"

definition i2c_send_ack_or_nack :: "'w bit_ops \<Rightarrow> bool \<Rightarrow> 'w \<Rightarrow> (int \<times> 'w) option" where
  "i2c_send_ack_or_nack p ack w =
    do { (r, w1) \<leftarrow> SCL_H p (i2c_delay p (if ack then set_sda p False w else w));
         Some (if r < 0 then (- RT_ETIMEOUT, w1) else (RT_EOK, set_scl p False w1)) }"

section \<open>Messages\<close>

text \<open>
  \<open>struct rt_i2c_msg\<close>, with the bytes at \<open>buf\<close>. Flags of \<^verbatim>\<open>include/drivers/i2c.h\<close>.
\<close>

record rt_i2c_msg =
  m_addr :: u16
  m_flags :: u16
  m_len :: u16
  m_buf :: "u8 list"

abbreviation (input) RT_I2C_WR :: u16 where "RT_I2C_WR \<equiv> 0"
abbreviation (input) RT_I2C_RD :: u16 where "RT_I2C_RD \<equiv> 0x01"
abbreviation (input) RT_I2C_ADDR_10BIT :: u16 where "RT_I2C_ADDR_10BIT \<equiv> 0x04"
abbreviation (input) RT_I2C_NO_START :: u16 where "RT_I2C_NO_START \<equiv> 0x10"
abbreviation (input) RT_I2C_IGNORE_NACK :: u16 where "RT_I2C_IGNORE_NACK \<equiv> 0x20"
abbreviation (input) RT_I2C_NO_READ_ACK :: u16 where "RT_I2C_NO_READ_ACK \<equiv> 0x40"

definition msg_has :: "u16 \<Rightarrow> rt_i2c_msg \<Rightarrow> bool" where
  "msg_has f m \<longleftrightarrow> m_flags m AND f \<noteq> 0"

text \<open>The loop of \<open>i2c_send_bytes\<close>: the bytes to go and how many are sent.\<close>

primrec send_loop :: "'w bit_ops \<Rightarrow> bool \<Rightarrow> u8 list \<Rightarrow> nat \<Rightarrow> 'w \<Rightarrow> (int \<times> 'w) option" where
  "send_loop p ignore_nack [] bytes w = Some (int bytes, w)"
| "send_loop p ignore_nack (b # bs) bytes w =
    do { (ret, w1) \<leftarrow> i2c_writeb p b w;
         if ret > 0 \<or> ignore_nack \<and> ret = 0 then send_loop p ignore_nack bs (bytes + 1) w1
         else if ret = 0 then Some (0, w1)
         else Some (ret, w1) }"

definition i2c_send_bytes :: "'w bit_ops \<Rightarrow> rt_i2c_msg \<Rightarrow> 'w \<Rightarrow> (int \<times> 'w) option" where
  "i2c_send_bytes p m = send_loop p (msg_has RT_I2C_IGNORE_NACK m) (take (unat (m_len m)) (m_buf m)) 0"

text \<open>The loop of \<open>i2c_recv_bytes\<close>: the count to go and the bytes stored.\<close>

primrec recv_loop :: "'w bit_ops \<Rightarrow> bool \<Rightarrow> nat \<Rightarrow> u8 list \<Rightarrow> 'w \<Rightarrow> ((int \<times> u8 list) \<times> 'w) option" where
  "recv_loop p no_ack 0 got w = Some ((int (length got), got), w)"
| "recv_loop p no_ack (Suc count) got w =
    do { (val, w1) \<leftarrow> i2c_readb p w;
         if val \<ge> 0
         then let got1 = got @ [word_of_int val] in
              if \<not> no_ack
              then do { (r, w2) \<leftarrow> i2c_send_ack_or_nack p (count \<noteq> 0) w1;
                        if r < 0 then Some ((r, got1), w2) else recv_loop p no_ack count got1 w2 }
              else recv_loop p no_ack count got1 w1
         else Some ((int (length got), got), w1) }"

definition i2c_recv_bytes :: "'w bit_ops \<Rightarrow> rt_i2c_msg \<Rightarrow> 'w \<Rightarrow> ((int \<times> u8 list) \<times> 'w) option" where
  "i2c_recv_bytes p m = recv_loop p (msg_has RT_I2C_NO_READ_ACK m) (unat (m_len m)) []"

section \<open>Addresses\<close>

primrec address_loop :: "'w bit_ops \<Rightarrow> u8 \<Rightarrow> nat \<Rightarrow> 'w \<Rightarrow> (int \<times> 'w) option" where
  "address_loop p addr 0 w = i2c_writeb p addr w"
| "address_loop p addr (Suc retries) w =
    do { (ret, w1) \<leftarrow> i2c_writeb p addr w;
         if ret = 1 then Some (ret, w1)
         else do { w2 \<leftarrow> i2c_stop p w1;
                   address_loop p addr retries (i2c_start p (i2c_delay2 p w2)) } }"

definition i2c_send_address :: "'w bit_ops \<Rightarrow> u8 \<Rightarrow> int \<Rightarrow> 'w \<Rightarrow> (int \<times> 'w) option" where
  "i2c_send_address p addr retries w =
    (if retries < 0 then Some (0, w) else address_loop p addr (nat retries) w)"

definition addr1_10bit :: "rt_i2c_msg \<Rightarrow> u8" where
  "addr1_10bit m = 0xf0 OR (ucast (drop_bit 7 (m_addr m)) AND 0x06)"

definition addr1_7bit :: "rt_i2c_msg \<Rightarrow> u8" where
  "addr1_7bit m = (if msg_has RT_I2C_RD m then ucast (push_bit 1 (m_addr m)) OR 1 else ucast (push_bit 1 (m_addr m)))"

text \<open>\<open>bus->retries\<close> is unsigned and becomes the signed \<open>retries\<close>.\<close>

definition i2c_bit_send_address :: "'w bit_ops \<Rightarrow> u32 \<Rightarrow> rt_i2c_msg \<Rightarrow> 'w \<Rightarrow> (int \<times> 'w) option" where
  "i2c_bit_send_address p bus_retries m w =
    (let ignore_nack = msg_has RT_I2C_IGNORE_NACK m;
         retries = (if ignore_nack then 0 else sint bus_retries) in
     if msg_has RT_I2C_ADDR_10BIT m
     then do { (ret, w1) \<leftarrow> i2c_send_address p (addr1_10bit m) retries w;
               if ret \<noteq> 1 \<and> \<not> ignore_nack then Some (- RT_EIO, w1)
               else do { (ret, w2) \<leftarrow> i2c_writeb p (ucast (m_addr m)) w1;
                         if ret \<noteq> 1 \<and> \<not> ignore_nack then Some (- RT_EIO, w2)
                         else if msg_has RT_I2C_RD m
                         then do { w3 \<leftarrow> i2c_restart p w2;
                                   (ret, w4) \<leftarrow> i2c_send_address p (addr1_10bit m OR 1) retries w3;
                                   Some (if ret \<noteq> 1 \<and> \<not> ignore_nack then - RT_EIO else RT_EOK, w4) }
                         else Some (RT_EOK, w2) } }
     else do { (ret, w1) \<leftarrow> i2c_send_address p (addr1_7bit m) retries w;
               Some (if ret \<noteq> 1 \<and> \<not> ignore_nack then - RT_EIO else RT_EOK, w1) })"

section \<open>Transfers\<close>

text \<open>
  One round of \<open>i2c_bit_xfer\<close>. \<open>None\<close> as the result goes on to the next message. The bytes received are
  stored in the buffer of the message.
\<close>

definition store_bytes :: "u8 list \<Rightarrow> rt_i2c_msg \<Rightarrow> rt_i2c_msg" where
  "store_bytes got m = m\<lparr>m_buf := got @ drop (length got) (m_buf m)\<rparr>"

definition msg_address :: "'w bit_ops \<Rightarrow> u32 \<Rightarrow> nat \<Rightarrow> rt_i2c_msg \<Rightarrow> 'w \<Rightarrow> (int \<times> 'w) option" where
  "msg_address p bus_retries i m w =
    (if msg_has RT_I2C_NO_START m then Some (RT_EOK, w)
     else do { w1 \<leftarrow> (if i \<noteq> 0 then i2c_restart p w else Some w);
               i2c_bit_send_address p bus_retries m w1 })"

definition msg_data :: "'w bit_ops \<Rightarrow> rt_i2c_msg \<Rightarrow> 'w \<Rightarrow> ((int option \<times> rt_i2c_msg) \<times> 'w) option" where
  "msg_data p m w =
    (if msg_has RT_I2C_RD m
     then do { ((ret, got), w1) \<leftarrow> i2c_recv_bytes p m w;
               Some ((if ret < uint (m_len m) then Some (if ret \<ge> 0 then - RT_EIO else ret) else None,
                      store_bytes got m), w1) }
     else do { (ret, w1) \<leftarrow> i2c_send_bytes p m w;
               Some ((if ret < uint (m_len m) then Some (if ret \<ge> 0 then - RT_ERROR else ret) else None, m), w1) })"

definition xfer_msg :: "'w bit_ops \<Rightarrow> u32 \<Rightarrow> nat \<Rightarrow> rt_i2c_msg \<Rightarrow> 'w \<Rightarrow> ((int option \<times> rt_i2c_msg) \<times> 'w) option" where
  "xfer_msg p bus_retries i m w =
    do { (ret, w1) \<leftarrow> msg_address p bus_retries i m w;
         if ret \<noteq> RT_EOK \<and> \<not> msg_has RT_I2C_IGNORE_NACK m then Some ((Some ret, m), w1)
         else msg_data p m w1 }"

primrec xfer_loop :: "'w bit_ops \<Rightarrow> u32 \<Rightarrow> nat \<Rightarrow> rt_i2c_msg list \<Rightarrow> 'w \<Rightarrow> ((int \<times> rt_i2c_msg list) \<times> 'w) option" where
  "xfer_loop p bus_retries i [] w = Some ((int i, []), w)"
| "xfer_loop p bus_retries i (m # ms) w =
    do { ((out, m1), w1) \<leftarrow> xfer_msg p bus_retries i m w;
         case out of
           Some ret \<Rightarrow> Some ((ret, m1 # ms), w1)
         | None \<Rightarrow> do { ((ret, ms1), w2) \<leftarrow> xfer_loop p bus_retries (i + 1) ms w1;
                        Some ((ret, m1 # ms1), w2) } }"

definition i2c_bit_xfer :: "'w bit_ops \<Rightarrow> u32 \<Rightarrow> rt_i2c_msg list \<Rightarrow> 'w \<Rightarrow> ((int \<times> rt_i2c_msg list) \<times> 'w) option" where
  "i2c_bit_xfer p bus_retries msgs w =
    do { (res, w1) \<leftarrow> xfer_loop p bus_retries 0 msgs (i2c_start p w);
         w2 \<leftarrow> i2c_stop p w1;
         Some (res, w2) }"

end
