(* ===== verification/I2cWire.thy ===== *)
theory I2cWire
  imports I2cBit
begin

unbundle bit_operations_syntax

text \<open>
  The wires of the I2C bus of the board (\<^verbatim>\<open>drivers/drv_iic.c\<close>) with a slave on them, and the proof
  that the master that moves them bit by bit implements the protocol of bytes: what \<open>i2c_bit_xfer\<close> leaves on the wires
  and returns, for every slave that keeps to the protocol, and what it does when a slave holds the clock.
\<close>

section \<open>The wires and the slave\<close>

text \<open>
  What can be seen on the wires: the data line falls or rises while the clock is high, or the clock passes with
  the data line at one level. A slave decides by what it has seen whether it pulls the data line low, and, each time
  the clock falls, for how many ticks it holds it.
\<close>

datatype bus_event = Start | Stop | Bit bool

record slave =
  pull :: "bus_event list \<Rightarrow> bool"
  stretch :: "bus_event list \<Rightarrow> nat"

text \<open>
  The levels the two open-drain pins of the board are set to, whether the data line has moved since the clock rose,
  how long the slave still holds the clock, the events so far and the tick.
\<close>

record wires =
  scl :: bool
  sda :: bool
  moved :: bool
  clock_hold :: nat
  seen :: "bus_event list"
  now :: u32

definition line_scl :: "wires \<Rightarrow> bool" where
  "line_scl w \<longleftrightarrow> scl w \<and> clock_hold w = 0"

definition line_sda :: "slave \<Rightarrow> wires \<Rightarrow> bool" where
  "line_sda d w \<longleftrightarrow> sda w \<and> \<not> pull d (seen w)"

definition stm32f4_set_sda :: "slave \<Rightarrow> bool \<Rightarrow> wires \<Rightarrow> wires" where
  "stm32f4_set_sda d b w =
    (let w1 = w\<lparr>sda := b\<rparr> in
     if line_scl w \<and> line_sda d w1 \<noteq> line_sda d w
     then w1\<lparr>seen := seen w @ [if line_sda d w1 then Stop else Start], moved := True\<rparr> else w1)"

definition stm32f4_set_scl :: "slave \<Rightarrow> bool \<Rightarrow> wires \<Rightarrow> wires" where
  "stm32f4_set_scl d b w =
    (if \<not> b \<and> line_scl w
     then let s = (if moved w then seen w else seen w @ [Bit (line_sda d w)]) in
          w\<lparr>scl := False, moved := False, seen := s, clock_hold := stretch d s\<rparr>
     else w\<lparr>scl := b\<rparr>)"

definition stm32f4_get_sda :: "slave \<Rightarrow> wires \<Rightarrow> bool" where
  "stm32f4_get_sda = line_sda"

definition stm32f4_get_scl :: "wires \<Rightarrow> bool" where
  "stm32f4_get_scl = line_scl"

text \<open>
  A delay of microseconds passes no tick and moves no wire; how long it is, is below. A thread that sleeps runs again when its
  ticks are over.
\<close>

definition stm32f4_bit_ops :: "slave \<Rightarrow> wires bit_ops" where
  "stm32f4_bit_ops d =
    \<lparr>set_sda = stm32f4_set_sda d, set_scl = stm32f4_set_scl d, get_sda = stm32f4_get_sda d,
     get_scl = Some stm32f4_get_scl, udelay = (\<lambda>us w. w), delay_us = 1, timeout = 100,
     tick_get = now, thread_delay = (\<lambda>n w. w\<lparr>now := now w + n, clock_hold := clock_hold w - unat n\<rparr>)\<rparr>"

lemma ops_simps [simp]:
  "set_sda (stm32f4_bit_ops d) = stm32f4_set_sda d" "set_scl (stm32f4_bit_ops d) = stm32f4_set_scl d"
  "get_sda (stm32f4_bit_ops d) = line_sda d" "get_scl (stm32f4_bit_ops d) = Some line_scl"
  "i2c_delay (stm32f4_bit_ops d) w = w" "i2c_delay2 (stm32f4_bit_ops d) w = w"
  "timeout (stm32f4_bit_ops d) = 100" "tick_get (stm32f4_bit_ops d) = now"
  "thread_delay (stm32f4_bit_ops d) n w = w\<lparr>now := now w + n, clock_hold := clock_hold w - unat n\<rparr>"
  by (simp_all add: stm32f4_bit_ops_def stm32f4_get_sda_def stm32f4_get_scl_def i2c_delay_def i2c_delay2_def)

section \<open>One clock\<close>

text \<open>The wait ends: with the clock high if it is held for 150 ticks at most, else with an error.\<close>

lemma SCL_H_high: "line_scl w \<Longrightarrow> SCL_H (stm32f4_bit_ops d) w = Some (RT_EOK, w)"
  by (simp add: SCL_H_def stm32f4_set_scl_def line_scl_def scl_wait.simps)

lemma SCL_H_released:
  assumes "\<not> scl w" "clock_hold w \<le> 150"
  shows "\<exists>t. SCL_H (stm32f4_bit_ops d) w = Some (RT_EOK, w\<lparr>scl := True, clock_hold := 0, now := t\<rparr>)"
proof -
  consider "clock_hold w = 0" | "clock_hold w \<noteq> 0" "clock_hold w \<le> 50" | "50 < clock_hold w" "clock_hold w \<le> 100"
    | "100 < clock_hold w"
    by linarith
  then show ?thesis
    using assms by cases
      (rule exI [of _ "now w"] exI [of _ "now w + 50"] exI [of _ "now w + 100"] exI [of _ "now w + 150"],
       simp add: SCL_H_def Let_def stm32f4_set_scl_def line_scl_def scl_wait.simps drop_bit_eq_div)+
qed

lemma SCL_H_held:
  assumes "150 < clock_hold w"
  shows "SCL_H (stm32f4_bit_ops d) w =
    Some (- RT_ETIMEOUT, w\<lparr>scl := True, clock_hold := clock_hold w - 150, now := now w + 150\<rparr>)"
  using assms by (simp add: SCL_H_def Let_def stm32f4_set_scl_def line_scl_def scl_wait.simps drop_bit_eq_div)

section \<open>Bytes on the wires\<close>

text \<open>A byte takes nine clocks: its bits, the highest first, and whether it is acknowledged.\<close>

datatype i2c_item = START | STOP | BYTE u8 bool

definition bits_of :: "u8 \<Rightarrow> bool list" where
  "bits_of b = map (bit b) (rev [0..<8])"

primrec item_events :: "i2c_item \<Rightarrow> bus_event list" where
  "item_events START = [Start]"
| "item_events STOP = [Stop]"
| "item_events (BYTE b a) = map Bit (bits_of b) @ [Bit (\<not> a)]"

definition wire :: "i2c_item list \<Rightarrow> bus_event list" where
  "wire h = concat (map item_events h)"

lemma wire_simps [simp]: "wire [] = []" "wire (h @ g) = wire h @ wire g" "wire (x # h) = item_events x @ wire h"
  by (simp_all add: wire_def)

lemma length_bits_of [simp]: "length (bits_of b) = 8"
  by (simp add: bits_of_def)

text \<open>
  Whose turn it is: an address comes after a start; an acknowledged one with its lowest bit set makes the slave
  send, until a byte is not acknowledged.
\<close>

datatype role = Idle | Address | Listen | Talk

fun next_role :: "role \<Rightarrow> i2c_item \<Rightarrow> role" where
  "next_role _ START = Address"
| "next_role _ STOP = Idle"
| "next_role Address (BYTE b a) = (if a \<and> bit b 0 then Talk else Listen)"
| "next_role Talk (BYTE b a) = (if a then Talk else Listen)"
| "next_role r (BYTE b a) = r"

definition role_of :: "i2c_item list \<Rightarrow> role" where
  "role_of h = foldl next_role Idle h"

lemma role_of_simps [simp]: "role_of [] = Idle" "role_of (h @ [x]) = next_role (role_of h) x"
  by (simp_all add: role_of_def)

text \<open>
  What a chip says: which bytes it acknowledges and what it sends. A slave speaks for a chip when it pulls
  the data line for nothing else, and holds the clock for at most 150 ticks.
\<close>

record chip =
  acks :: "i2c_item list \<Rightarrow> u8 \<Rightarrow> bool"
  gives :: "i2c_item list \<Rightarrow> u8"

definition speaks :: "slave \<Rightarrow> chip \<Rightarrow> bool" where
  "speaks d c \<longleftrightarrow> (\<forall>s. stretch d s \<le> 150) \<and>
     (\<forall>h b k. k \<le> 8 \<longrightarrow> role_of h \<noteq> Talk \<longrightarrow>
        pull d (wire h @ map Bit (take k (bits_of b))) = (k = 8 \<and> acks c h b)) \<and>
     (\<forall>h k. k \<le> 8 \<longrightarrow> role_of h = Talk \<longrightarrow>
        pull d (wire h @ map Bit (take k (bits_of (gives c h)))) = (k < 8 \<and> \<not> bits_of (gives c h) ! k))"

lemma speaks_stretch: "speaks d c \<Longrightarrow> stretch d s \<le> 150"
  by (simp add: speaks_def)

lemma listening:
  "speaks d c \<Longrightarrow> role_of h \<noteq> Talk \<Longrightarrow> k \<le> 8 \<Longrightarrow>
    pull d (wire h @ map Bit (take k (bits_of b))) = (k = 8 \<and> acks c h b)"
  by (simp add: speaks_def)

lemma talking:
  "speaks d c \<Longrightarrow> role_of h = Talk \<Longrightarrow> k \<le> 8 \<Longrightarrow>
    pull d (wire h @ map Bit (take k (bits_of (gives c h)))) = (k < 8 \<and> \<not> bits_of (gives c h) ! k)"
  by (simp add: speaks_def)

lemma silent: "speaks d c \<Longrightarrow> role_of h \<noteq> Talk \<Longrightarrow> \<not> pull d (wire h)"
  using listening [of d c h 0] by simp

section \<open>The master on the wires\<close>

text \<open>Between two items the clock is low, or the bus is idle and both lines are high.\<close>

definition low :: "bus_event list \<Rightarrow> wires \<Rightarrow> bool" where
  "low s w \<longleftrightarrow> \<not> scl w \<and> \<not> moved w \<and> clock_hold w \<le> 150 \<and> seen w = s"

definition idle :: "bus_event list \<Rightarrow> wires \<Rightarrow> bool" where
  "idle s w \<longleftrightarrow> scl w \<and> sda w \<and> clock_hold w = 0 \<and> seen w = s"

lemma low_fields: "low s w \<Longrightarrow> \<not> scl w \<and> \<not> moved w \<and> clock_hold w \<le> 150 \<and> seen w = s \<and> \<not> line_scl w"
  by (simp add: low_def line_scl_def)

lemma low_sda [simp]: "low s w \<Longrightarrow> stm32f4_set_sda d b w = w\<lparr>sda := b\<rparr>" "low s (w\<lparr>sda := b\<rparr>) = low s w"
  by (simp_all add: low_def stm32f4_set_sda_def line_scl_def Let_def)

lemma low_scl [simp]: "low s w \<Longrightarrow> stm32f4_set_scl d False w = w"
  by (cases w) (simp add: low_def stm32f4_set_scl_def line_scl_def)

lemma low_high:
  assumes "low s w"
  shows "\<exists>w1. SCL_H (stm32f4_bit_ops d) w = Some (RT_EOK, w1) \<and> line_scl w1 \<and> \<not> moved w1 \<and> seen w1 = s \<and> sda w1 = sda w"
  using SCL_H_released [of w d] assms by (auto simp: low_def line_scl_def)

text \<open>One clock with the data line as it is.\<close>

lemma clock_falls:
  assumes "speaks d c" "line_scl w" "\<not> moved w"
  shows "low (seen w @ [Bit (line_sda d w)]) (stm32f4_set_scl d False w)" "sda (stm32f4_set_scl d False w) = sda w"
  using assms by (simp_all add: low_def stm32f4_set_scl_def Let_def line_scl_def speaks_stretch)

lemma falls_again: "low s (stm32f4_set_scl d False w) \<Longrightarrow> stm32f4_set_scl d False (stm32f4_set_scl d False w) = stm32f4_set_scl d False w"
  by simp

lemma start_wire:
  assumes sp: "speaks d c" and i: "idle (wire h) w" "role_of h \<noteq> Talk"
  shows "low (wire (h @ [START])) (i2c_start (stm32f4_bit_ops d) w)"
proof -
  have p: "\<not> pull d (wire h)" using silent [OF sp i(2)] .
  have "\<not> pull d (wire h @ [Start])" using silent [OF sp, of "h @ [START]"] by simp
  then show ?thesis
    using p i(1) sp by (simp add: i2c_start_def idle_def low_def stm32f4_set_sda_def stm32f4_set_scl_def line_scl_def
        line_sda_def Let_def speaks_stretch)
qed

lemma restart_wire:
  assumes sp: "speaks d c" and l: "low (wire h) w" "role_of h \<noteq> Talk"
  shows "\<exists>w1. i2c_restart (stm32f4_bit_ops d) w = Some w1 \<and> low (wire (h @ [START])) w1"
proof -
  obtain w1 where w1: "SCL_H (stm32f4_bit_ops d) (w\<lparr>sda := True\<rparr>) = Some (RT_EOK, w1)" "line_scl w1" "seen w1 = wire h" "sda w1"
    using low_high [of "wire h" "w\<lparr>sda := True\<rparr>" d] l(1) by auto
  then have "idle (wire h) w1" by (simp add: idle_def line_scl_def)
  from start_wire [OF sp this l(2)] show ?thesis using w1 l(1) by (simp add: i2c_restart_def i2c_start_def)
qed

lemma stop_wire:
  assumes sp: "speaks d c" and l: "low (wire h) w" "role_of h \<noteq> Talk"
  shows "\<exists>w1. i2c_stop (stm32f4_bit_ops d) w = Some w1 \<and> idle (wire (h @ [STOP])) w1"
proof -
  obtain w1 where w1: "SCL_H (stm32f4_bit_ops d) (w\<lparr>sda := False\<rparr>) = Some (RT_EOK, w1)" "line_scl w1" "seen w1 = wire h" "\<not> sda w1"
    using low_high [of "wire h" "w\<lparr>sda := False\<rparr>" d] l(1) by auto
  then have "i2c_stop (stm32f4_bit_ops d) w = Some (stm32f4_set_sda d True w1)" using l(1) by (simp add: i2c_stop_def)
  then show ?thesis using w1 silent [OF sp l(2)]
    by (simp add: idle_def stm32f4_set_sda_def line_sda_def line_scl_def Let_def)
qed

section \<open>One byte on the wires\<close>

lemma take_bits: "k < 8 \<Longrightarrow> take (Suc k) (bits_of b) = take k (bits_of b) @ [bit b (7 - k)]"
proof -
  assume k: "k < 8"
  then have "bits_of b ! k = bit b (7 - k)" by (simp add: bits_of_def rev_nth)
  then show ?thesis using k by (simp add: take_Suc_conv_app_nth)
qed

lemma write_bits_wire:
  assumes sp: "speaks d c" and r: "role_of h \<noteq> Talk"
  shows "n \<le> 8 \<Longrightarrow> low (wire h @ map Bit (take (8 - n) (bits_of b))) (stm32f4_set_scl d False w) \<Longrightarrow>
    \<exists>w1. write_bits (stm32f4_bit_ops d) b n w = Some (RT_EOK, w1) \<and>
      low (wire h @ map Bit (bits_of b)) (stm32f4_set_scl d False w1)"
proof (induction n arbitrary: w)
  case 0
  then show ?case by simp
next
  case (Suc n)
  let ?s = "wire h @ map Bit (take (8 - Suc n) (bits_of b))" and ?w = "stm32f4_set_scl d False w"
  obtain w1 where w1: "SCL_H (stm32f4_bit_ops d) (?w\<lparr>sda := bit b n\<rparr>) = Some (RT_EOK, w1)" "line_scl w1" "\<not> moved w1"
    "seen w1 = ?s" "sda w1 = bit b n"
    using low_high [of ?s "?w\<lparr>sda := bit b n\<rparr>" d] Suc.prems by auto
  have "\<not> pull d ?s" using listening [OF sp r, of "8 - Suc n" b] by auto
  then have "line_sda d w1 = bit b n" using w1 by (simp add: line_sda_def)
  moreover have "take (8 - n) (bits_of b) = take (8 - Suc n) (bits_of b) @ [bit b n]"
    using take_bits [of "7 - n" b] Suc.prems(1) Suc_diff_le [of n 7] by simp
  ultimately have "low (wire h @ map Bit (take (8 - n) (bits_of b))) (stm32f4_set_scl d False w1)"
    using clock_falls(1) [OF sp w1(2,3)] w1(4) by simp
  from Suc.IH [OF _ this] show ?case using Suc.prems w1(1) by simp
qed

lemma writeb_wire:
  assumes sp: "speaks d c" and l: "low (wire h) w" and r: "role_of h \<noteq> Talk"
  shows "\<exists>w1. i2c_writeb (stm32f4_bit_ops d) b w = Some (if acks c h b then 1 else 0, w1) \<and>
    low (wire (h @ [BYTE b (acks c h b)])) w1"
proof -
  let ?s = "wire h @ map Bit (bits_of b)"
  obtain w1 where w1: "write_bits (stm32f4_bit_ops d) b 8 w = Some (RT_EOK, w1)" "low ?s (stm32f4_set_scl d False w1)"
    using write_bits_wire [OF sp r, of 8 b w] l by auto
  let ?w = "stm32f4_set_scl d False w1"
  obtain w2 where w2: "SCL_H (stm32f4_bit_ops d) (?w\<lparr>sda := True\<rparr>) = Some (RT_EOK, w2)" "line_scl w2" "\<not> moved w2"
    "seen w2 = ?s" "sda w2"
    using low_high [of ?s "?w\<lparr>sda := True\<rparr>" d] w1(2) by auto
  have "line_sda d w2 = (\<not> acks c h b)" using listening [OF sp r, of 8 b] w2(4,5) by (simp add: line_sda_def)
  then show ?thesis using clock_falls(1) [OF sp w2(2,3)] w1 w2(1,4) by (simp add: i2c_writeb_def i2c_waitack_def)
qed

text \<open>A slave that is not its turn to speak leaves the line high: the master then reads ones.\<close>

definition sent_byte :: "chip \<Rightarrow> i2c_item list \<Rightarrow> u8" where
  "sent_byte c h = (if role_of h = Talk then gives c h else 0xFF)"

definition shift_in :: "u8 \<Rightarrow> bool \<Rightarrow> u8" where
  "shift_in data x = (if x then push_bit 1 data OR 1 else push_bit 1 data)"

lemma shift_in_loop: "foldl shift_in d (map (bit b) (rev [0..<n])) = push_bit n d OR take_bit n b"
proof (induction n arbitrary: d)
  case (Suc n)
  have "push_bit n (shift_in d (bit b n)) OR take_bit n b = push_bit (Suc n) d OR take_bit (Suc n) b"
    by (rule bit_eqI) (auto simp: shift_in_def bit_simps less_Suc_eq)
  then show ?case using Suc.IH by simp
qed simp

lemma shift_in_bits: "foldl shift_in 0 (bits_of b) = b"
proof -
  have "take_bit 8 b = b" by (rule bit_eqI) (auto simp: bit_simps dest: bit_imp_le_length)
  then show ?thesis by (simp add: bits_of_def shift_in_loop)
qed

lemma says_byte:
  assumes sp: "speaks d c" and k: "k < 8"
  shows "pull d (wire h @ map Bit (take k (bits_of (sent_byte c h)))) = (\<not> bits_of (sent_byte c h) ! k)"
proof (cases "role_of h = Talk")
  case True
  then show ?thesis using talking [OF sp True, of k] k by (simp add: sent_byte_def)
next
  case False
  have "(0xFF :: u8) = mask 8" by (simp add: mask_eq_exp_minus_1)
  then have "bit (0xFF :: u8) j" if "j < 8" for j using that by (simp only: bit_mask_iff) simp
  then have "bits_of 0xFF ! k" using k by (simp add: bits_of_def rev_nth)
  then show ?thesis using listening [OF sp False, of k "0xFF"] False k by (simp add: sent_byte_def)
qed

lemma after_byte:
  "speaks d c \<Longrightarrow> pull d (wire h @ map Bit (bits_of (sent_byte c h))) = (role_of h \<noteq> Talk \<and> acks c h 0xFF)"
  using listening [of d c h 8 "0xFF"] talking [of d c h 8] by (auto simp: sent_byte_def)

lemma read_bits_wire:
  assumes sp: "speaks d c"
  shows "k \<le> 8 \<Longrightarrow> low (wire h @ map Bit (take k (bits_of (sent_byte c h)))) w \<Longrightarrow> sda w \<Longrightarrow>
    data = foldl shift_in 0 (take k (bits_of (sent_byte c h))) \<Longrightarrow>
    \<exists>w1. read_bits (stm32f4_bit_ops d) (8 - k) data w = Some (uint (sent_byte c h), w1) \<and>
      low (wire h @ map Bit (bits_of (sent_byte c h))) w1 \<and> sda w1"
proof (induction k arbitrary: w data rule: inc_induct [of _ 8])
  case base
  then show ?case by (simp add: shift_in_bits)
next
  case (step k)
  let ?v = "bits_of (sent_byte c h)"
  let ?s = "wire h @ map Bit (take k ?v)"
  obtain w1 where w1: "SCL_H (stm32f4_bit_ops d) w = Some (RT_EOK, w1)" "line_scl w1" "\<not> moved w1" "seen w1 = ?s" "sda w1"
    using low_high [of ?s w d] step.prems by auto
  have l: "line_sda d w1 = ?v ! k" using says_byte [OF sp step.hyps(2), of h] w1(4,5) by (simp add: line_sda_def)
  have t: "take (Suc k) ?v = take k ?v @ [?v ! k]" using step.hyps(2) by (simp add: take_Suc_conv_app_nth)
  have "low (wire h @ map Bit (take (Suc k) ?v)) (stm32f4_set_scl d False w1)" "sda (stm32f4_set_scl d False w1)"
    using clock_falls [OF sp w1(2,3)] w1(4,5) l t by simp_all
  moreover have "shift_in data (?v ! k) = foldl shift_in 0 (take (Suc k) ?v)" using step.prems(3) t by simp
  moreover have "8 - k = Suc (8 - Suc k)" using step.hyps(2) by simp
  moreover have "read_bits (stm32f4_bit_ops d) (Suc (8 - Suc k)) data w =
      read_bits (stm32f4_bit_ops d) (8 - Suc k) (shift_in data (?v ! k)) (stm32f4_set_scl d False w1)"
    using w1(1) l by (simp add: shift_in_def)
  ultimately show ?case using step.IH [of "stm32f4_set_scl d False w1" "shift_in data (?v ! k)"] by presburger
qed

lemma readb_wire:
  assumes sp: "speaks d c" and l: "low (wire h) w"
  shows "\<exists>w1. i2c_readb (stm32f4_bit_ops d) w = Some (uint (sent_byte c h), w1) \<and>
    low (wire h @ map Bit (bits_of (sent_byte c h))) w1 \<and> sda w1"
  using read_bits_wire [OF sp, of 0 h "w\<lparr>sda := True\<rparr>" 0] l by (simp add: i2c_readb_def)

text \<open>The acknowledgement of the master; a slave whose turn it is not may give one, too.\<close>

definition acked :: "chip \<Rightarrow> bool \<Rightarrow> i2c_item list \<Rightarrow> bool" where
  "acked c a h \<longleftrightarrow> a \<or> role_of h \<noteq> Talk \<and> acks c h 0xFF"

lemma send_ack_wire:
  assumes sp: "speaks d c" and l: "low (wire h @ map Bit (bits_of (sent_byte c h))) w" "sda w"
  shows "\<exists>w1. i2c_send_ack_or_nack (stm32f4_bit_ops d) a w = Some (RT_EOK, w1) \<and>
    low (wire (h @ [BYTE (sent_byte c h) (acked c a h)])) w1"
proof -
  let ?w = "w\<lparr>sda := \<not> a\<rparr>" and ?s = "wire h @ map Bit (bits_of (sent_byte c h))"
  have w: "(if a then stm32f4_set_sda d False w else w) = ?w" using l by (cases w) simp
  obtain w1 where w1: "SCL_H (stm32f4_bit_ops d) ?w = Some (RT_EOK, w1)" "line_scl w1" "\<not> moved w1" "seen w1 = ?s" "sda w1 = (\<not> a)"
    using low_high [of ?s ?w d] l(1) by auto
  have "line_sda d w1 = (\<not> acked c a h)" using after_byte [OF sp, of h] w1(4,5) by (simp add: line_sda_def acked_def)
  moreover have "i2c_send_ack_or_nack (stm32f4_bit_ops d) a w = Some (RT_EOK, stm32f4_set_scl d False w1)"
    using w w1(1) by (cases a) (simp_all add: i2c_send_ack_or_nack_def)
  ultimately show ?thesis using clock_falls(1) [OF sp w1(2,3)] w1(4) by simp
qed

section \<open>Delays of microseconds\<close>

text \<open>
  The counter of the system tick runs down from \<open>load\<close>; \<open>stm32f4_udelay\<close> reads it until enough has passed since the
  first reading. The readings are given; the result is how many the loop takes.
\<close>

fun udelay_loop :: "u32 \<Rightarrow> u32 \<Rightarrow> u32 list \<Rightarrow> nat option" where
  "udelay_loop us delta [] = None"
| "udelay_loop us delta (v # vs) = (if delta - v < us then map_option Suc (udelay_loop us delta vs) else Some 0)"

definition stm32f4_udelay :: "u32 \<Rightarrow> u32 \<Rightarrow> u32 list \<Rightarrow> nat option" where
  "stm32f4_udelay load us vals = udelay_loop (us * (load div 10000)) (hd vals) (tl vals)"

text \<open>
  When the counter starts anew at \<open>load\<close>, the difference wraps around and the delay ends with the next reading,
  however little time has passed.
\<close>

lemma udelay_ends_at_reload:
  assumes "start < v" "v \<le> load" "load < 2 ^ 24" "us * (load div 10000) \<le> 2 ^ 31"
  shows "stm32f4_udelay load us (start # v # vals) = Some 0"
proof -
  have "unat v < 2 ^ 24" "unat start < unat v"
    using assms(1-3) by (simp_all add: word_less_nat_alt word_le_nat_alt)
  moreover have "unat (start - v) = 2 ^ 32 + unat start - unat v"
    using assms(1) by (simp add: unat_sub_if' word_le_nat_alt word_less_nat_alt)
  ultimately have "2 ^ 31 \<le> unat (start - v)" by simp
  then have "us * (load div 10000) \<le> start - v" using assms(4) by (simp add: word_le_nat_alt)
  then show ?thesis by (simp add: stm32f4_udelay_def not_less)
qed

end
