(* ===== verification/I2cBytes.thy ===== *)
theory I2cBytes
  imports I2cWire
begin

unbundle bit_operations_syntax

text \<open>
  The protocol of the I2C bus in bytes, and the proof that \<open>i2c_bit_xfer\<close> on the wires of the board implements
  it: what the master returns and stores, and what the bus has carried, for every chip that answers.
\<close>

section \<open>The protocol\<close>

primrec spec_send :: "chip \<Rightarrow> bool \<Rightarrow> u8 list \<Rightarrow> i2c_item list \<Rightarrow> bool \<times> i2c_item list" where
  "spec_send c ignore_nack [] h = (True, h)"
| "spec_send c ignore_nack (b # bs) h =
    (if acks c h b \<or> ignore_nack then spec_send c ignore_nack bs (h @ [BYTE b (acks c h b)])
     else (False, h @ [BYTE b False]))"

primrec spec_recv :: "chip \<Rightarrow> nat \<Rightarrow> i2c_item list \<Rightarrow> u8 list \<times> i2c_item list" where
  "spec_recv c 0 h = ([], h)"
| "spec_recv c (Suc n) h = apfst ((#) (sent_byte c h)) (spec_recv c n (h @ [BYTE (sent_byte c h) (acked c (n \<noteq> 0) h)]))"

primrec spec_address :: "chip \<Rightarrow> u8 \<Rightarrow> nat \<Rightarrow> i2c_item list \<Rightarrow> bool \<times> i2c_item list" where
  "spec_address c a 0 h = (acks c h a, h @ [BYTE a (acks c h a)])"
| "spec_address c a (Suc r) h =
    (if acks c h a then (True, h @ [BYTE a True]) else spec_address c a r (h @ [BYTE a False, STOP, START]))"

definition tries :: "u32 \<Rightarrow> rt_i2c_msg \<Rightarrow> nat" where
  "tries bus_retries m = (if msg_has RT_I2C_IGNORE_NACK m then 0 else nat (sint bus_retries))"

definition spec_target :: "chip \<Rightarrow> u32 \<Rightarrow> rt_i2c_msg \<Rightarrow> i2c_item list \<Rightarrow> bool \<times> i2c_item list" where
  "spec_target c bus_retries m h =
    (let ign = msg_has RT_I2C_IGNORE_NACK m; r = tries bus_retries m in
     if msg_has RT_I2C_ADDR_10BIT m
     then let (ok1, h1) = spec_address c (addr1_10bit m) r h; a2 = ucast (m_addr m); ok2 = acks c h1 a2;
              h2 = h1 @ [BYTE a2 ok2] in
          if \<not> ok1 \<and> \<not> ign then (False, h1)
          else if \<not> ok2 \<and> \<not> ign then (False, h2)
          else if msg_has RT_I2C_RD m then apfst (\<lambda>ok3. ok3 \<or> ign) (spec_address c (addr1_10bit m OR 1) r (h2 @ [START]))
          else (True, h2)
     else apfst (\<lambda>ok. ok \<or> ign) (spec_address c (addr1_7bit m) r h))"

definition spec_data :: "chip \<Rightarrow> rt_i2c_msg \<Rightarrow> i2c_item list \<Rightarrow> (bool \<times> rt_i2c_msg) \<times> i2c_item list" where
  "spec_data c m h =
    (if msg_has RT_I2C_RD m
     then let (got, h1) = spec_recv c (unat (m_len m)) h in ((True, store_bytes got m), h1)
     else let (ok, h1) = spec_send c (msg_has RT_I2C_IGNORE_NACK m) (take (unat (m_len m)) (m_buf m)) h in ((ok, m), h1))"

text \<open>The number of messages, or the error and the messages as far as they have come.\<close>

primrec spec_msgs :: "chip \<Rightarrow> u32 \<Rightarrow> nat \<Rightarrow> rt_i2c_msg list \<Rightarrow> i2c_item list \<Rightarrow> (int \<times> rt_i2c_msg list) \<times> i2c_item list" where
  "spec_msgs c bus_retries i [] h = ((int i, []), h)"
| "spec_msgs c bus_retries i (m # ms) h =
    (let (ok, h1) = spec_target c bus_retries m (if i \<noteq> 0 then h @ [START] else h) in
     if \<not> ok then ((- RT_EIO, m # ms), h1)
     else let ((ok, m1), h2) = spec_data c m h1 in
          if \<not> ok then ((- RT_ERROR, m1 # ms), h2)
          else apfst (apsnd ((#) m1)) (spec_msgs c bus_retries (i + 1) ms h2))"

definition spec_xfer :: "chip \<Rightarrow> u32 \<Rightarrow> rt_i2c_msg list \<Rightarrow> i2c_item list \<Rightarrow> (int \<times> rt_i2c_msg list) \<times> i2c_item list" where
  "spec_xfer c bus_retries msgs h = apsnd (\<lambda>h1. h1 @ [STOP]) (spec_msgs c bus_retries 0 msgs (h @ [START]))"

section \<open>The master implements it\<close>

lemma send_loop_bytes:
  assumes sp: "speaks d c"
  shows "low (wire h) w \<Longrightarrow> role_of h = Listen \<Longrightarrow> spec_send c ign bs h = (ok, h1) \<Longrightarrow>
    \<exists>w1. send_loop (stm32f4_bit_ops d) ign bs n w = Some (if ok then int (n + length bs) else 0, w1) \<and>
      low (wire h1) w1 \<and> role_of h1 = Listen"
proof (induction bs arbitrary: h w n)
  case (Cons b bs)
  obtain w1 where w1: "i2c_writeb (stm32f4_bit_ops d) b w = Some (if acks c h b then 1 else 0, w1)"
    "low (wire (h @ [BYTE b (acks c h b)])) w1"
    using writeb_wire [OF sp Cons.prems(1), of b] Cons.prems(2) by auto
  show ?case
  proof (cases "acks c h b \<or> ign")
    case True
    then have "spec_send c ign bs (h @ [BYTE b (acks c h b)]) = (ok, h1)" using Cons.prems(3) by simp
    from Cons.IH [OF w1(2) _ this, of "Suc n"] show ?thesis using Cons.prems(2) w1(1) True by (auto split: if_splits)
  next
    case False
    then show ?thesis using Cons.prems w1 by (auto split: if_splits)
  qed
qed simp

lemma recv_loop_bytes:
  assumes sp: "speaks d c"
  shows "low (wire h) w \<Longrightarrow> spec_recv c n h = (got, h1) \<Longrightarrow>
    \<exists>w1. recv_loop (stm32f4_bit_ops d) False n sofar w = Some ((int (length (sofar @ got)), sofar @ got), w1) \<and> low (wire h1) w1"
proof (induction n arbitrary: h w sofar got)
  case (Suc n)
  let ?v = "sent_byte c h"
  let ?h = "h @ [BYTE ?v (acked c (n \<noteq> 0) h)]"
  obtain w1 where w1: "i2c_readb (stm32f4_bit_ops d) w = Some (uint ?v, w1)" "low (wire h @ map Bit (bits_of ?v)) w1" "sda w1"
    using readb_wire [OF sp Suc.prems(1)] by blast
  obtain w2 where w2: "i2c_send_ack_or_nack (stm32f4_bit_ops d) (n \<noteq> 0) w1 = Some (RT_EOK, w2)" "low (wire ?h) w2"
    using send_ack_wire [OF sp w1(2,3), of "n \<noteq> 0"] by blast
  obtain rest where rest: "spec_recv c n ?h = (rest, h1)" "got = ?v # rest"
    using Suc.prems(2) by (cases "spec_recv c n ?h") simp
  from Suc.IH [OF w2(2) rest(1), of "sofar @ [?v]"] show ?case using w1(1) w2(1) rest(2) by (auto simp: Let_def)
qed simp

lemma recv_role:
  assumes "role_of h = Talk \<or> role_of h = Listen" "n \<noteq> 0" "spec_recv c n h = (got, h1)"
  shows "role_of h1 = Listen"
  using assms
proof (induction n arbitrary: h got)
  case (Suc n)
  let ?h = "h @ [BYTE (sent_byte c h) (acked c (n \<noteq> 0) h)]"
  obtain rest where rest: "spec_recv c n ?h = (rest, h1)" using Suc.prems(3) by (cases "spec_recv c n ?h") simp
  show ?case
  proof (cases "n = 0")
    case True
    then show ?thesis using Suc.prems(1) rest by (auto simp: acked_def)
  next
    case False
    then have "role_of ?h = Talk \<or> role_of ?h = Listen" using Suc.prems(1) by (auto simp: acked_def)
    from Suc.IH [OF this False rest] show ?thesis .
  qed
qed simp

lemma address_loop_bytes:
  assumes sp: "speaks d c"
  shows "low (wire h) w \<Longrightarrow> role_of h = Address \<Longrightarrow> spec_address c a r h = (ok, h1) \<Longrightarrow>
    \<exists>w1. address_loop (stm32f4_bit_ops d) a r w = Some (if ok then 1 else 0, w1) \<and> low (wire h1) w1 \<and>
      role_of h1 = (if ok \<and> bit a 0 then Talk else Listen)"
proof (induction r arbitrary: h w)
  case 0
  then show ?case using writeb_wire [OF sp 0(1), of a] by auto
next
  case (Suc r)
  obtain w1 where w1: "i2c_writeb (stm32f4_bit_ops d) a w = Some (if acks c h a then 1 else 0, w1)"
    "low (wire (h @ [BYTE a (acks c h a)])) w1"
    using writeb_wire [OF sp Suc.prems(1), of a] Suc.prems(2) by auto
  show ?case
  proof (cases "acks c h a")
    case True
    then show ?thesis using Suc.prems w1 by auto
  next
    case False
    obtain w2 where w2: "i2c_stop (stm32f4_bit_ops d) w1 = Some w2" "idle (wire ((h @ [BYTE a False]) @ [STOP])) w2"
      using stop_wire [OF sp w1(2)] False Suc.prems(2) by auto
    have w3: "low (wire (h @ [BYTE a False, STOP, START])) (i2c_start (stm32f4_bit_ops d) w2)"
      using start_wire [OF sp w2(2)] role_of_simps(2) [of "h @ [BYTE a False]" STOP] by simp
    have "spec_address c a r (h @ [BYTE a False, STOP, START]) = (ok, h1)" "role_of (h @ [BYTE a False, STOP, START]) = Address"
      using Suc.prems(3) False role_of_simps(2) [of "h @ [BYTE a False, STOP]" START] by simp_all
    from Suc.IH [OF w3 this(2,1)] show ?thesis using w1(1) w2(1) False by simp
  qed
qed

lemma send_address_bytes:
  assumes "speaks d c" "low (wire h) w" "role_of h = Address" "spec_address c a (nat r) h = (ok, h1)" "0 \<le> r"
  shows "\<exists>w1. i2c_send_address (stm32f4_bit_ops d) a r w = Some (if ok then 1 else 0, w1) \<and> low (wire h1) w1 \<and>
    role_of h1 = (if ok \<and> bit a 0 then Talk else Listen)"
  using address_loop_bytes [OF assms(1-4)] assms(5) by (simp add: i2c_send_address_def)

text \<open>
  The messages covered: each with an address of its own, the bytes to send in its buffer, at least one byte to
  receive, each acknowledged.
\<close>

definition plain :: "rt_i2c_msg \<Rightarrow> bool" where
  "plain m \<longleftrightarrow> \<not> msg_has RT_I2C_NO_START m \<and>
     (if msg_has RT_I2C_RD m then m_len m \<noteq> 0 \<and> \<not> msg_has RT_I2C_NO_READ_ACK m else unat (m_len m) \<le> length (m_buf m))"

lemma even_ucast: "even (ucast (x :: u16) :: u8) = even x"
proof -
  have "bit (ucast x :: u8) 0 = bit x 0" by (simp only: bit_ucast_iff) simp
  then show ?thesis by (simp add: bit_0)
qed

lemma addr_bit_0:
  "bit (addr1_7bit m) 0 = msg_has RT_I2C_RD m" "\<not> bit (addr1_10bit m) 0" "bit (addr1_10bit m OR 1) 0"
  by (simp_all add: addr1_7bit_def addr1_10bit_def bit_0 even_or_iff even_and_iff even_ucast)

lemma target_bytes:
  assumes sp: "speaks d c" and l: "low (wire h) w" "role_of h = Address" and r: "0 \<le> sint bus_retries"
    and t: "spec_target c bus_retries m h = (ok, h1)"
  shows "\<exists>w1. i2c_bit_send_address (stm32f4_bit_ops d) bus_retries m w = Some (if ok then RT_EOK else - RT_EIO, w1) \<and>
    low (wire h1) w1 \<and> (role_of h1 = Listen \<or> role_of h1 = Talk \<and> ok \<and> msg_has RT_I2C_RD m)"
proof -
  let ?ign = "msg_has RT_I2C_IGNORE_NACK m" and ?p = "stm32f4_bit_ops d"
  let ?r = "if ?ign then 0 else sint bus_retries"
  have n: "tries bus_retries m = nat ?r" "0 \<le> ?r" using r by (simp_all add: tries_def)
  show ?thesis
  proof (cases "msg_has RT_I2C_ADDR_10BIT m")
    case False
    obtain ok1 where o: "spec_address c (addr1_7bit m) (nat ?r) h = (ok1, h1)" "ok = (ok1 \<or> ?ign)"
      using t False n(1) by (cases "spec_address c (addr1_7bit m) (nat ?r) h") (simp add: spec_target_def Let_def)
    then show ?thesis
      using send_address_bytes [OF sp l o(1) n(2)] False by (auto simp: i2c_bit_send_address_def addr_bit_0 Let_def)
  next
    case ten: True
    obtain ok1 g1 where o1: "spec_address c (addr1_10bit m) (nat ?r) h = (ok1, g1)" by fastforce
    obtain w1 where w1: "i2c_send_address ?p (addr1_10bit m) ?r w = Some (if ok1 then 1 else 0, w1)" "low (wire g1) w1"
      "role_of g1 = Listen"
      using send_address_bytes [OF sp l o1 n(2)] by (auto simp: addr_bit_0)
    define a2 :: u8 where "a2 = ucast (m_addr m)"
    define ok2 where "ok2 = acks c g1 a2"
    define g2 where "g2 = g1 @ [BYTE a2 ok2]"
    have st: "spec_target c bus_retries m h =
        (if \<not> ok1 \<and> \<not> ?ign then (False, g1) else if \<not> ok2 \<and> \<not> ?ign then (False, g2)
         else if msg_has RT_I2C_RD m then apfst (\<lambda>ok3. ok3 \<or> ?ign) (spec_address c (addr1_10bit m OR 1) (nat ?r) (g2 @ [START]))
         else (True, g2))"
      using ten n(1) o1 by (simp add: spec_target_def Let_def a2_def ok2_def g2_def)
    obtain w2 where w2: "i2c_writeb ?p a2 w1 = Some (if ok2 then 1 else 0, w2)" "low (wire g2) w2"
      using writeb_wire [OF sp w1(2), of a2] w1(3) by (auto simp: ok2_def g2_def)
    have g2: "role_of g2 = Listen" using w1(3) by (simp add: g2_def)
    consider "\<not> ok1 \<and> \<not> ?ign" | "ok1 \<or> ?ign" "\<not> ok2 \<and> \<not> ?ign" | "ok1 \<or> ?ign" "ok2 \<or> ?ign" "\<not> msg_has RT_I2C_RD m"
      | "ok1 \<or> ?ign" "ok2 \<or> ?ign" "msg_has RT_I2C_RD m" by blast
    then show ?thesis
    proof cases
      case 1
      then have "ok = False" "h1 = g1" using st t by simp_all
      then show ?thesis using ten w1 1 by (simp add: i2c_bit_send_address_def Let_def)
    next
      case 2
      then have "ok = False" "h1 = g2" using st t by auto
      then show ?thesis using ten w1 w2 g2 2 by (auto simp: i2c_bit_send_address_def Let_def a2_def)
    next
      case 3
      then have "ok = True" "h1 = g2" using st t by auto
      then show ?thesis using ten w1 w2 g2 3 by (auto simp: i2c_bit_send_address_def Let_def a2_def)
    next
      case 4
      obtain w3 where w3: "i2c_restart ?p w2 = Some w3" "low (wire (g2 @ [START])) w3"
        using restart_wire [OF sp w2(2)] g2 by auto
      obtain ok3 where o3: "spec_address c (addr1_10bit m OR 1) (nat ?r) (g2 @ [START]) = (ok3, h1)" "ok = (ok3 \<or> ?ign)"
        using t 4 st by (cases "spec_address c (addr1_10bit m OR 1) (nat ?r) (g2 @ [START])") auto
      obtain w4 where "i2c_send_address ?p (addr1_10bit m OR 1) ?r w3 = Some (if ok3 then 1 else 0, w4)" "low (wire h1) w4"
        "role_of h1 = (if ok3 then Talk else Listen)"
        using send_address_bytes [OF sp w3(2) _ o3(1) n(2)] by (auto simp: addr_bit_0)
      then show ?thesis
        using ten w1(1) w2(1) w3(1) o3(2) 4 by (auto simp: i2c_bit_send_address_def Let_def a2_def)
    qed
  qed
qed

lemma length_recv: "spec_recv c n h = (got, h1) \<Longrightarrow> length got = n"
  by (induction n arbitrary: h got) (auto simp: apfst_def map_prod_def split: prod.splits)

lemma data_bytes:
  assumes sp: "speaks d c" and l: "low (wire h) w" and pl: "plain m"
    and r: "role_of h = Listen \<or> role_of h = Talk \<and> msg_has RT_I2C_RD m"
    and s: "spec_data c m h = ((ok, m1), h1)"
  shows "\<exists>w1. msg_data (stm32f4_bit_ops d) m w = Some ((if ok then None else Some (- RT_ERROR), m1), w1) \<and>
    low (wire h1) w1 \<and> role_of h1 = Listen"
proof (cases "msg_has RT_I2C_RD m")
  case True
  then have n: "unat (m_len m) \<noteq> 0" and na: "msg_has RT_I2C_NO_READ_ACK m = False" using pl by (auto simp: plain_def unat_eq_0)
  obtain got where g: "spec_recv c (unat (m_len m)) h = (got, h1)" "ok" "m1 = store_bytes got m"
    using s True by (cases "spec_recv c (unat (m_len m)) h") (simp add: spec_data_def)
  have "role_of h1 = Listen" using recv_role [OF _ n g(1)] r by blast
  then show ?thesis using recv_loop_bytes [OF sp l g(1), of "[]"] g(2,3) length_recv [OF g(1)] True na
    by (auto simp: msg_data_def i2c_recv_bytes_def)
next
  case False
  let ?bs = "take (unat (m_len m)) (m_buf m)"
  have len: "int (length ?bs) = uint (m_len m)" using pl False by (simp add: plain_def)
  have "spec_send c (msg_has RT_I2C_IGNORE_NACK m) ?bs h = (ok, h1)" "m1 = m"
    using s False by (simp_all add: spec_data_def split: prod.splits)
  then obtain w1 where w1: "i2c_send_bytes (stm32f4_bit_ops d) m w = Some (if ok then int (length ?bs) else 0, w1)"
    "low (wire h1) w1" "role_of h1 = Listen"
    using send_loop_bytes [OF sp l, of "msg_has RT_I2C_IGNORE_NACK m" ?bs ok h1 0] r False
    unfolding i2c_send_bytes_def by auto
  have "ok \<or> 0 < uint (m_len m)"
  proof (rule ccontr)
    assume "\<not> (ok \<or> 0 < uint (m_len m))"
    then have "length ?bs = 0" "\<not> ok" using len by linarith+
    then have "?bs = []" "\<not> ok" by blast+
    then show False using \<open>spec_send c (msg_has RT_I2C_IGNORE_NACK m) ?bs h = (ok, h1)\<close> by (metis spec_send.simps(1) prod.inject)
  qed
  then show ?thesis using w1 len False \<open>m1 = m\<close> by (auto simp: msg_data_def)
qed

lemma msgs_bytes:
  assumes sp: "speaks d c" and r: "0 \<le> sint bus_retries"
  shows "low (wire h) w \<Longrightarrow> role_of h = (if i = 0 then Address else Listen) \<Longrightarrow> \<forall>m \<in> set ms. plain m \<Longrightarrow>
    spec_msgs c bus_retries i ms h = (res, h1) \<Longrightarrow>
    \<exists>w1. xfer_loop (stm32f4_bit_ops d) bus_retries i ms w = Some (res, w1) \<and> low (wire h1) w1 \<and> role_of h1 \<noteq> Talk"
proof (induction ms arbitrary: h w i res)
  case Nil
  then show ?case by (auto split: if_splits)
next
  case (Cons m ms)
  let ?p = "stm32f4_bit_ops d" and ?h = "if i \<noteq> 0 then h @ [START] else h"
  have pl: "plain m" "\<forall>m \<in> set ms. plain m" and ns: "\<not> msg_has RT_I2C_NO_START m" using Cons.prems(3) by (auto simp: plain_def)
  obtain w0 where w0: "(if i \<noteq> 0 then i2c_restart ?p w else Some w) = Some w0" "low (wire ?h) w0" "role_of ?h = Address"
    using restart_wire [OF sp Cons.prems(1)] Cons.prems(1,2) by (cases "i = 0") auto
  obtain ok g1 where t: "spec_target c bus_retries m ?h = (ok, g1)" by fastforce
  obtain w1 where w1: "i2c_bit_send_address ?p bus_retries m w0 = Some (if ok then RT_EOK else - RT_EIO, w1)" "low (wire g1) w1"
    "role_of g1 = Listen \<or> role_of g1 = Talk \<and> ok \<and> msg_has RT_I2C_RD m"
    using target_bytes [OF sp w0(2,3) r t] by blast
  have a: "msg_address ?p bus_retries i m w = Some (if ok then RT_EOK else - RT_EIO, w1)" using w0(1) w1(1) ns
    by (simp add: msg_address_def)
  show ?case
  proof (cases ok)
    case False
    have "\<not> msg_has RT_I2C_IGNORE_NACK m"
    proof
      assume "msg_has RT_I2C_IGNORE_NACK m"
      then show False using t False by (auto simp: spec_target_def Let_def apfst_def map_prod_def split: if_splits prod.splits)
    qed
    then show ?thesis using a False t w1(2,3) Cons.prems(4) by (auto simp: xfer_msg_def)
  next
    case True
    obtain ok2 m1 g2 where s: "spec_data c m g1 = ((ok2, m1), g2)" by (metis surj_pair)
    obtain w2 where w2: "msg_data ?p m w1 = Some ((if ok2 then None else Some (- RT_ERROR), m1), w2)" "low (wire g2) w2"
      "role_of g2 = Listen"
      using data_bytes [OF sp w1(2) pl(1) _ s] w1(3) True by blast
    have x: "xfer_msg ?p bus_retries i m w = Some ((if ok2 then None else Some (- RT_ERROR), m1), w2)"
      using a w2(1) True by (simp add: xfer_msg_def)
    show ?thesis
    proof (cases ok2)
      case False
      then show ?thesis using x w2 Cons.prems(4) t s True by auto
    next
      case ok2: True
      obtain res2 where r2: "spec_msgs c bus_retries (i + 1) ms g2 = (res2, h1)" "res = apsnd ((#) m1) res2"
        using Cons.prems(4) t s True ok2 by (cases "spec_msgs c bus_retries (i + 1) ms g2") auto
      from Cons.IH [OF w2(2) _ pl(2) r2(1)] w2(3) obtain w3 where
        "xfer_loop ?p bus_retries (i + 1) ms w2 = Some (res2, w3)" "low (wire h1) w3" "role_of h1 \<noteq> Talk"
        by auto
      then show ?thesis using x ok2 r2(2) by (cases res2) auto
    qed
  qed
qed

section \<open>A slave for every chip\<close>

text \<open>The items and the bits after them, as a slave takes them from the wires.\<close>

fun hear :: "i2c_item list \<times> bool list \<Rightarrow> bus_event \<Rightarrow> i2c_item list \<times> bool list" where
  "hear (h, bs) Start = (h @ [START], [])"
| "hear (h, bs) Stop = (h @ [STOP], [])"
| "hear (h, bs) (Bit x) = (if length bs < 8 then (h, bs @ [x]) else (h @ [BYTE (foldl shift_in 0 bs) (\<not> x)], []))"

definition slave_of :: "chip \<Rightarrow> (bus_event list \<Rightarrow> nat) \<Rightarrow> slave" where
  "slave_of c f =
    \<lparr>pull = (\<lambda>s. let (h, bs) = foldl hear ([], []) s in
               if role_of h = Talk then length bs < 8 \<and> \<not> bits_of (gives c h) ! length bs
               else length bs = 8 \<and> acks c h (foldl shift_in 0 bs)),
     stretch = f\<rparr>"

lemma hear_bits: "length (bs @ xs) \<le> 8 \<Longrightarrow> foldl hear (h, bs) (map Bit xs) = (h, bs @ xs)"
  by (induction xs arbitrary: bs) auto

lemma hear_wire: "foldl hear ([], []) (wire h) = (h, [])"
proof (induction h rule: rev_induct)
  case (snoc x h)
  then show ?case using hear_bits [of "[]" "bits_of b" h for b] by (cases x) (simp_all add: shift_in_bits)
qed simp

lemma slave_of_speaks:
  assumes "\<And>s. f s \<le> 150"
  shows "speaks (slave_of c f) c"
proof -
  have h: "foldl hear (h, []) (map Bit (take k (bits_of b))) = (h, take k (bits_of b))" for h k b
    using hear_bits [of "[]" "take k (bits_of b)" h] by simp
  from h [of _ 8] have h8: "foldl hear (h, []) (map Bit (bits_of b)) = (h, bits_of b)" for h b by simp
  show ?thesis
    using assms by (auto simp: speaks_def slave_of_def hear_wire h h8 shift_in_bits)
qed

section \<open>Transfers\<close>

lemma xfer_bytes:
  assumes sp: "speaks d c" and i: "idle (wire h) w" "role_of h \<noteq> Talk" and r: "0 \<le> sint bus_retries"
    and pl: "\<forall>m \<in> set msgs. plain m" and s: "spec_xfer c bus_retries msgs h = (res, h1)"
  shows "\<exists>w1. i2c_bit_xfer (stm32f4_bit_ops d) bus_retries msgs w = Some (res, w1) \<and> idle (wire h1) w1 \<and> role_of h1 = Idle"
proof -
  obtain g where g: "spec_msgs c bus_retries 0 msgs (h @ [START]) = (res, g)" "h1 = g @ [STOP]"
    using s(1) by (cases "spec_msgs c bus_retries 0 msgs (h @ [START])") (simp add: spec_xfer_def)
  obtain w1 where w1: "xfer_loop (stm32f4_bit_ops d) bus_retries 0 msgs (i2c_start (stm32f4_bit_ops d) w) = Some (res, w1)"
    "low (wire g) w1" "role_of g \<noteq> Talk"
    using msgs_bytes [OF sp r start_wire [OF sp i] _ pl g(1)] by auto
  from stop_wire [OF sp w1(2,3)] show ?thesis using w1(1) g(2) by (auto simp: i2c_bit_xfer_def)
qed

text \<open>
  C13: a transfer on the wires of the board implements the protocol of bytes. For every slave that speaks for
  a chip and holds the clock for at most 150 ticks, \<open>i2c_bit_xfer\<close> returns, with the result, the bytes and the
  sequence of starts, bytes, acknowledgements and stops the protocol has, and leaves the bus idle.
\<close>

theorem i2c_xfer_implements:
  assumes sp: "speaks d c" and i: "idle (wire h) w" "role_of h \<noteq> Talk" and r: "0 \<le> sint bus_retries"
    and pl: "\<forall>m \<in> set msgs. plain m" and s: "spec_xfer c bus_retries msgs h = (res, h1)"
  shows "\<exists>w1. i2c_bit_xfer (stm32f4_bit_ops d) bus_retries msgs w = Some (res, w1) \<and> idle (wire h1) w1 \<and> role_of h1 = Idle"
  using assms by (rule xfer_bytes)

text \<open>Nobody answers to the address: the transfer fails with an error and the bus is idle again.\<close>

lemma spec_absent:
  assumes "\<not> acks c (h @ [START]) (addr1_7bit m)" "\<not> msg_has RT_I2C_ADDR_10BIT m" "\<not> msg_has RT_I2C_IGNORE_NACK m"
  shows "spec_xfer c 0 (m # ms) h = ((- RT_EIO, m # ms), h @ [START, BYTE (addr1_7bit m) False, STOP])"
  using assms by (simp add: spec_xfer_def spec_target_def tries_def)

section \<open>A clock that is held too long\<close>

text \<open>
  C14: with no retries asked for, when the first message has a start and a 7-bit address and does not ignore a missing
  acknowledgement, a slave that holds the clock for more than 300 ticks right after this first start makes the transfer
  give up after 300 ticks with an error. The stop does not come about, since \<open>i2c_stop\<close> raises the data line although
  the clock is still low: the bus has seen nothing but the start. (Nothing is said of a clock held at a later byte or at
  a restart, nor of the retries, which wait longer.)
\<close>

theorem i2c_stuck_clock:
  assumes i: "idle s w" "\<not> pull d s" and st: "stretch d (s @ [Start]) = n" "300 < n"
    and m: "\<not> msg_has RT_I2C_NO_START m" "\<not> msg_has RT_I2C_ADDR_10BIT m" "\<not> msg_has RT_I2C_IGNORE_NACK m"
  shows "\<exists>w1. i2c_bit_xfer (stm32f4_bit_ops d) 0 (m # ms) w = Some ((- RT_EIO, m # ms), w1) \<and> seen w1 = s @ [Start] \<and>
    \<not> line_scl w1 \<and> scl w1 \<and> sda w1 \<and> clock_hold w1 = n - 300 \<and> now w1 = now w + 300"
proof -
  let ?p = "stm32f4_bit_ops d"
  define w0 where "w0 = i2c_start ?p w"
  have w0: "\<not> scl w0" "clock_hold w0 = n" "seen w0 = s @ [Start]" "now w0 = now w" "line_scl w0 = False" "moved w0 = False"
    using i st unfolding w0_def i2c_start_def by (auto simp: idle_def stm32f4_set_sda_def stm32f4_set_scl_def line_scl_def
        line_sda_def Let_def)
  define w1 where "w1 = w0\<lparr>sda := bit (addr1_7bit m) 7, scl := True, clock_hold := n - 150, now := now w + 150\<rparr>"
  have b: "i2c_writeb ?p (addr1_7bit m) w0 = Some (- RT_ETIMEOUT, w1)"
  proof -
    have "stm32f4_set_sda d x (stm32f4_set_scl d False w0) = w0\<lparr>sda := x\<rparr>" for x
      using w0(1,5) by (cases w0) (simp add: stm32f4_set_scl_def stm32f4_set_sda_def line_scl_def Let_def)
    then show ?thesis using w0 st(2) SCL_H_held [of "w0\<lparr>sda := bit (addr1_7bit m) 7\<rparr>" d]
      by (cases w0) (simp add: i2c_writeb_def eval_nat_numeral w1_def)
  qed
  have "xfer_loop ?p 0 0 (m # ms) w0 = Some ((- RT_EIO, m # ms), w1)"
    using b m by (simp add: xfer_msg_def msg_address_def i2c_bit_send_address_def i2c_send_address_def)
  moreover have "i2c_stop ?p w1 = Some (w1\<lparr>sda := True, clock_hold := n - 300, now := now w + 300\<rparr>)"
    using st(2) w0 SCL_H_held [of "w1\<lparr>sda := False\<rparr>" d] unfolding w1_def
    by (cases w0) (simp add: i2c_stop_def stm32f4_set_sda_def line_scl_def Let_def)
  ultimately show ?thesis using w0 st(2) by (simp add: i2c_bit_xfer_def w0_def [symmetric] w1_def line_scl_def)
qed

section \<open>Witnesses\<close>

definition quiet_wires :: wires where
  "quiet_wires = \<lparr>scl = True, sda = True, moved = False, clock_hold = 0, seen = [], now = 0\<rparr>"

lemma quiet_idle: "idle (wire []) quiet_wires"
  by (simp add: idle_def quiet_wires_def)

definition demo_msg :: rt_i2c_msg where
  "demo_msg = \<lparr>m_addr = 0x68, m_flags = RT_I2C_WR, m_len = 1, m_buf = [0x75]\<rparr>"

text \<open>A chip that takes every byte and holds the clock for 100 ticks each time.\<close>

theorem i2c_xfer_implements_witness:
  "\<exists>w1. i2c_bit_xfer (stm32f4_bit_ops (slave_of \<lparr>acks = (\<lambda>h b. True), gives = (\<lambda>h. 0)\<rparr> (\<lambda>s. 100))) 0 [demo_msg] quiet_wires =
      Some ((1, [demo_msg]), w1) \<and>
    seen w1 = wire [START, BYTE 0xD0 True, BYTE 0x75 True, STOP]"
proof -
  let ?c = "\<lparr>acks = (\<lambda>h b. True), gives = (\<lambda>h. 0)\<rparr> :: chip"
  have s: "spec_xfer ?c 0 [demo_msg] [] = ((1, [demo_msg]), [START, BYTE 0xD0 True, BYTE 0x75 True, STOP])"
    by (simp add: spec_xfer_def spec_target_def spec_data_def tries_def msg_has_def demo_msg_def addr1_7bit_def)
  have "plain demo_msg" by (simp add: plain_def demo_msg_def msg_has_def)
  with i2c_xfer_implements [OF slave_of_speaks [of "\<lambda>s. 100" ?c] quiet_idle _ _ _ s] show ?thesis
    by (auto simp: idle_def)
qed

theorem i2c_stuck_clock_witness:
  "\<exists>w1. i2c_bit_xfer (stm32f4_bit_ops \<lparr>pull = (\<lambda>s. False), stretch = (\<lambda>s. 1000)\<rparr>) 0 [demo_msg] quiet_wires =
      Some ((- RT_EIO, [demo_msg]), w1) \<and> seen w1 = [Start] \<and> \<not> line_scl w1"
  using i2c_stuck_clock [of "[]" quiet_wires "\<lparr>pull = (\<lambda>s. False), stretch = (\<lambda>s. 1000)\<rparr>" 1000 demo_msg "[]"] quiet_idle
  by (auto simp: demo_msg_def msg_has_def)

end
