(* ===== verification/I2c.thy ===== *)
theory I2c
  imports I2cBytes Mutex Device Sample
begin

unbundle bit_operations_syntax

text \<open>
  The I2C buses of the kernel: transfers under the lock of the bus (\<^verbatim>\<open>components/drivers/i2c/i2c_core.c\<close>),
  the bus as a device (\<^verbatim>\<open>i2c_dev.c\<close>), and the bus of the board (\<^verbatim>\<open>drivers/drv_iic.c\<close>).
\<close>

abbreviation (input) RT_WAITING_FOREVER :: int where "RT_WAITING_FOREVER \<equiv> - 1"

section \<open>Buses\<close>

text \<open>\<open>struct rt_i2c_bus_device\<close> without its device.\<close>

record rt_i2c_bus_device =
  bus_flags :: u16
  bus_addr :: u16
  lock :: rt_mutex
  bus_timeout :: u32
  bus_retries :: u32

text \<open>
  The function \<open>master_xfer\<close> of a bus driver works on its hardware \<open>'w\<close>; the kernel is an argument since the thread
  may sleep meanwhile.
\<close>

type_synonym 'w master_xfer = "u32 \<Rightarrow> rt_i2c_msg list \<Rightarrow> 'w \<times> kernel \<Rightarrow> ((int \<times> rt_i2c_msg list) \<times> 'w \<times> kernel) option"
type_synonym 'w i2c_state = "rt_i2c_bus_device \<times> 'w \<times> kernel"

section \<open>Transfers under the lock\<close>

definition transfer_locked :: "'w master_xfer \<Rightarrow> rt_i2c_msg list \<Rightarrow> 'w i2c_state \<Rightarrow> ((int \<times> rt_i2c_msg list) \<times> 'w i2c_state) option" where
  "transfer_locked xfer msgs s =
    (case s of (b, w, k) \<Rightarrow>
       do { (res, w1, k1) \<leftarrow> xfer (bus_retries b) msgs (w, k);
            let (_, m, k2) = rt_mutex_release (lock b, k1) in Some (res, b\<lparr>lock := m\<rparr>, w1, k2) })"

text \<open>A thread that has to wait for the lock does the rest in \<open>rt_i2c_transfer_resume\<close>. What taking returns is ignored.\<close>

definition transfer_from ::
  "'w master_xfer \<Rightarrow> rt_i2c_msg list \<Rightarrow> (int, tid) outcome \<times> mutex_state \<Rightarrow> 'w i2c_state \<Rightarrow>
   ((int \<times> rt_i2c_msg list, tid) outcome \<times> 'w i2c_state) option" where
  "transfer_from xfer msgs r s =
    (case r of
       (Blocked t, m, k) \<Rightarrow> Some (Blocked t, (fst s)\<lparr>lock := m\<rparr>, fst (snd s), k)
     | (Return _, m, k) \<Rightarrow> map_option (apfst Return) (transfer_locked xfer msgs ((fst s)\<lparr>lock := m\<rparr>, fst (snd s), k)))"

definition rt_i2c_transfer ::
  "'w master_xfer option \<Rightarrow> rt_i2c_msg list \<Rightarrow> 'w i2c_state \<Rightarrow> ((int \<times> rt_i2c_msg list, tid) outcome \<times> 'w i2c_state) option" where
  "rt_i2c_transfer ops msgs s =
    (case ops of
       None \<Rightarrow> Some (Return (0, msgs), s)
     | Some xfer \<Rightarrow> transfer_from xfer msgs (rt_mutex_take RT_WAITING_FOREVER (lock (fst s), snd (snd s))) s)"

definition rt_i2c_transfer_resume ::
  "'w master_xfer \<Rightarrow> tid \<Rightarrow> rt_i2c_msg list \<Rightarrow> 'w i2c_state \<Rightarrow> ((int \<times> rt_i2c_msg list, tid) outcome \<times> 'w i2c_state) option" where
  "rt_i2c_transfer_resume xfer t msgs s =
    transfer_from xfer msgs (rt_mutex_take_resume RT_WAITING_FOREVER t (lock (fst s), snd (snd s))) s"

text \<open>
  What a caller makes of the result of a transfer; a caller whose thread waits for the lock makes the same of
  the result of the rest.
\<close>

definition finish :: "('a \<Rightarrow> 'b) \<Rightarrow> (('a, tid) outcome \<times> 's) option \<Rightarrow> (('b, tid) outcome \<times> 's) option" where
  "finish f = map_option (apfst (map_outcome f id))"

lemma finish_simps [simp]: "finish f (Some (Return x, s)) = Some (Return (f x), s)" "finish f (Some (Blocked t, s)) = Some (Blocked t, s)"
  by (simp_all add: finish_def)

text \<open>The length of a message has 16 bits, the count of the caller 32.\<close>

definition one_msg :: "u16 \<Rightarrow> u16 \<Rightarrow> u8 list \<Rightarrow> u32 \<Rightarrow> rt_i2c_msg" where
  "one_msg addr flags buf count = \<lparr>m_addr = addr, m_flags = flags, m_len = ucast count, m_buf = buf\<rparr>"

definition whole_count :: "u32 \<Rightarrow> int \<times> rt_i2c_msg list \<Rightarrow> int \<times> u8 list" where
  "whole_count count r = (if fst r > 0 then uint count else fst r, m_buf (hd (snd r)))"

definition rt_i2c_master_send ::
  "'w master_xfer option \<Rightarrow> u16 \<Rightarrow> u16 \<Rightarrow> u8 list \<Rightarrow> u32 \<Rightarrow> 'w i2c_state \<Rightarrow> ((int, tid) outcome \<times> 'w i2c_state) option" where
  "rt_i2c_master_send ops addr flags buf count s =
    finish (\<lambda>r. fst (whole_count count r)) (rt_i2c_transfer ops [one_msg addr (flags AND RT_I2C_ADDR_10BIT) buf count] s)"

definition rt_i2c_master_recv ::
  "'w master_xfer option \<Rightarrow> u16 \<Rightarrow> u16 \<Rightarrow> u8 list \<Rightarrow> u32 \<Rightarrow> 'w i2c_state \<Rightarrow> ((int \<times> u8 list, tid) outcome \<times> 'w i2c_state) option" where
  "rt_i2c_master_recv ops addr flags buf count s =
    finish (whole_count count) (rt_i2c_transfer ops [one_msg addr ((flags AND RT_I2C_ADDR_10BIT) OR RT_I2C_RD) buf count] s)"

section \<open>A bus as a device\<close>

text \<open>The position holds the address in its lower half and the flags in its upper half.\<close>

definition i2c_bus_device_read ::
  "'w master_xfer option \<Rightarrow> u32 \<Rightarrow> u8 list \<Rightarrow> u32 \<Rightarrow> 'w i2c_state \<Rightarrow> ((int \<times> u8 list, tid) outcome \<times> 'w i2c_state) option" where
  "i2c_bus_device_read ops pos buf count =
    rt_i2c_master_recv ops (ucast (pos AND 0xffff)) (ucast (drop_bit 16 pos AND 0xffff)) buf count"

definition i2c_bus_device_write ::
  "'w master_xfer option \<Rightarrow> u32 \<Rightarrow> u8 list \<Rightarrow> u32 \<Rightarrow> 'w i2c_state \<Rightarrow> ((int, tid) outcome \<times> 'w i2c_state) option" where
  "i2c_bus_device_write ops pos buf count =
    rt_i2c_master_send ops (ucast (pos AND 0xffff)) (ucast (drop_bit 16 pos AND 0xffff)) buf count"

abbreviation (input) RT_I2C_DEV_CTRL_10BIT :: int where "RT_I2C_DEV_CTRL_10BIT \<equiv> 0x20"
abbreviation (input) RT_I2C_DEV_CTRL_ADDR :: int where "RT_I2C_DEV_CTRL_ADDR \<equiv> 0x21"
abbreviation (input) RT_I2C_DEV_CTRL_TIMEOUT :: int where "RT_I2C_DEV_CTRL_TIMEOUT \<equiv> 0x22"
abbreviation (input) RT_I2C_DEV_CTRL_RW :: int where "RT_I2C_DEV_CTRL_RW \<equiv> 0x23"

text \<open>What the argument of a control command points to: the field the command takes it for.\<close>

record i2c_args =
  arg_addr :: u16
  arg_timeout :: u32
  arg_msgs :: "rt_i2c_msg list"

definition i2c_bus_device_control ::
  "'w master_xfer option \<Rightarrow> int \<Rightarrow> i2c_args \<Rightarrow> 'w i2c_state \<Rightarrow> ((int \<times> rt_i2c_msg list, tid) outcome \<times> 'w i2c_state) option" where
  "i2c_bus_device_control ops cmd args s =
    (case s of (b, rest) \<Rightarrow>
     if cmd = RT_I2C_DEV_CTRL_10BIT
     then Some (Return (RT_EOK, arg_msgs args), b\<lparr>bus_flags := bus_flags b OR RT_I2C_ADDR_10BIT\<rparr>, rest)
     else if cmd = RT_I2C_DEV_CTRL_ADDR then Some (Return (RT_EOK, arg_msgs args), b\<lparr>bus_addr := arg_addr args\<rparr>, rest)
     else if cmd = RT_I2C_DEV_CTRL_TIMEOUT then Some (Return (RT_EOK, arg_msgs args), b\<lparr>bus_timeout := arg_timeout args\<rparr>, rest)
     else if cmd = RT_I2C_DEV_CTRL_RW
     then finish (\<lambda>(ret, msgs). (if ret < 0 then - RT_EIO else RT_EOK, msgs)) (rt_i2c_transfer ops (arg_msgs args) s)
     else Some (Return (RT_EOK, arg_msgs args), s))"

text \<open>Registration. The result of \<open>rt_device_register\<close> is ignored.\<close>

definition rt_i2c_bus_device_device_init ::
  "nat \<Rightarrow> string \<Rightarrow> (nat \<Rightarrow> 's rt_device) \<Rightarrow> nat object_store \<times> kernel \<Rightarrow>
   int \<times> (nat \<Rightarrow> 's rt_device) \<times> nat object_store \<times> kernel" where
  "rt_i2c_bus_device_device_init dev name devs x =
    (case rt_device_register dev name 0x003 devs x of (_, y) \<Rightarrow> (RT_EOK, y))"

definition rt_i2c_bus_device_register ::
  "nat \<Rightarrow> nat \<Rightarrow> string \<Rightarrow> (nat \<Rightarrow> rt_i2c_bus_device rt_device) \<Rightarrow> nat object_store \<times> kernel \<Rightarrow>
   int \<times> (nat \<Rightarrow> rt_i2c_bus_device rt_device) \<times> nat object_store \<times> kernel" where
  "rt_i2c_bus_device_register n dev name devs x =
    (case rt_mutex_init n ''i2c_bus_lock'' RT_IPC_FLAG_FIFO (snd x) of (_, m, k) \<Rightarrow>
       let b = rt_device.sub (devs dev);
           b1 = b\<lparr>lock := m, bus_timeout := if bus_timeout b = 0 then word_of_int RT_TICK_PER_SECOND else bus_timeout b\<rparr>
       in rt_i2c_bus_device_device_init dev name (devs(dev := (devs dev)\<lparr>rt_device.sub := b1\<rparr>)) (fst x, k))"

abbreviation (input) RT_Device_Class_I2CBUS :: nat where "RT_Device_Class_I2CBUS \<equiv> 8"

text \<open>The class of a device is a field that nothing else in the model uses.\<close>

definition rt_i2c_bus_device_find :: "(nat \<Rightarrow> nat) \<Rightarrow> string \<Rightarrow> nat object_store \<times> kernel \<Rightarrow> nat option \<times> kernel" where
  "rt_i2c_bus_device_find class_of name x =
    (case rt_device_find name x of
       (Some dev, k) \<Rightarrow> (if class_of dev \<noteq> RT_Device_Class_I2CBUS then None else Some dev, k)
     | (None, k) \<Rightarrow> (None, k))"

section \<open>The bus of the board\<close>

text \<open>
  The table of the bus has one function, \<^verbatim>\<open>i2c_bit_xfer\<close>. What the rest of the system does to the
  kernel while the thread sleeps in a transfer is a parameter. The bus starts out as zeros: it does not retry. The pins are
  set up as open-drain outputs that are high.
\<close>

definition board_xfer :: "slave \<Rightarrow> (kernel \<Rightarrow> kernel) \<Rightarrow> wires master_xfer" where
  "board_xfer d meanwhile retries msgs x =
    map_option (\<lambda>(res, w). (res, w, meanwhile (snd x))) (i2c_bit_xfer (stm32f4_bit_ops d) retries msgs (fst x))"

definition rt_i2c_bit_add_bus ::
  "nat \<Rightarrow> nat \<Rightarrow> string \<Rightarrow> (nat \<Rightarrow> rt_i2c_bus_device rt_device) \<Rightarrow> nat object_store \<times> kernel \<Rightarrow>
   int \<times> (nat \<Rightarrow> rt_i2c_bus_device rt_device) \<times> nat object_store \<times> kernel" where
  "rt_i2c_bit_add_bus = rt_i2c_bus_device_register"

definition blank_bus :: rt_i2c_bus_device where
  "blank_bus = \<lparr>bus_flags = 0, bus_addr = 0, lock = mutex_object 0 RT_IPC_FLAG_FIFO, bus_timeout = 0, bus_retries = 0\<rparr>"

definition hw_i2c_init ::
  "nat \<Rightarrow> nat \<Rightarrow> (nat \<Rightarrow> rt_i2c_bus_device rt_device) \<Rightarrow> nat object_store \<times> kernel \<Rightarrow>
   int \<times> (nat \<Rightarrow> rt_i2c_bus_device rt_device) \<times> nat object_store \<times> kernel" where
  "hw_i2c_init n dev devs x =
    (case rt_i2c_bit_add_bus n dev ''i2c0'' (devs(dev := (devs dev)\<lparr>rt_device.sub := blank_bus\<rparr>)) x of (_, y) \<Rightarrow> (RT_EOK, y))"

section \<open>What a bus driver promises\<close>

text \<open>
  A driver that does not sleep and implements a specification of its transfers; \<open>'h\<close> is what the bus has carried.
\<close>

locale bus_driver =
  fixes xfer :: "'w master_xfer" and ready :: "'h \<Rightarrow> 'w \<Rightarrow> bool" and can :: "u32 \<Rightarrow> rt_i2c_msg list \<Rightarrow> bool"
    and spec :: "u32 \<Rightarrow> rt_i2c_msg list \<Rightarrow> 'h \<Rightarrow> (int \<times> rt_i2c_msg list) \<times> 'h"
  assumes implements: "ready h w \<Longrightarrow> can r msgs \<Longrightarrow>
    \<exists>w1. xfer r msgs (w, k) = Some (fst (spec r msgs h), w1, k) \<and> ready (snd (spec r msgs h)) w1"

definition bus_free :: "tid \<Rightarrow> rt_i2c_bus_device \<Rightarrow> kernel \<Rightarrow> bool" where
  "bus_free t b k \<longleftrightarrow> mutex_inv (lock b, k) \<and> running k t \<and> owner (lock b) = None"

lemma release_free:
  assumes "mutex_inv (m, k)" "running k t" "owner m = Some t" "hold m = 1" "mutex_waiters (m, k) = []"
    "original_priority m = priority_of k t"
  shows "\<exists>m1 k1. rt_mutex_release (m, k) = (RT_EOK, (m1, k1)) \<and> mutex_inv (m1, k1) \<and> owner m1 = None \<and> running k1 t"
  using mutex_release_last [OF assms(1-5)] assms(2,6) by (simp add: restored_def)

text \<open>
  A free bus: the transfer is that of the driver, and the bus is free again. A bus somebody else has: the thread is parked
  and nothing has moved.
\<close>

context bus_driver begin

lemma transfer_free:
  assumes "ready h w" "can (bus_retries b) msgs" "bus_free t b k"
  shows "\<exists>b1 w1 k1. rt_i2c_transfer (Some xfer) msgs (b, w, k) = Some (Return (fst (spec (bus_retries b) msgs h)), b1, w1, k1) \<and>
    ready (snd (spec (bus_retries b) msgs h)) w1 \<and> bus_free t b1 k1 \<and> bus_retries b1 = bus_retries b"
proof -
  have inv: "mutex_inv (lock b, k)" "running k t" "owner (lock b) = None" using assms(3) by (simp_all add: bus_free_def)
  obtain m k1 where take: "rt_mutex_take RT_WAITING_FOREVER (lock b, k) = (Return RT_EOK, (m, k1))" "mutex_inv (m, k1)"
    "owner m = Some t" "hold m = 1" "original_priority m = priority_of k t" "mtx_id m = mtx_id (lock b)" "lists k1 = lists k"
    "priority_of k1 = priority_of k"
    using mutex_take_free [OF inv, of RT_WAITING_FOREVER] by blast
  have run: "running k1 t" using take(1) inv(2,3)
    by (auto simp: rt_mutex_take_def mutex_acquire_def running_def rt_thread_self_def Let_def upd_thread_def stat_of_def
        split: if_splits option.splits)
  obtain w1 where x: "xfer (bus_retries b) msgs (w, k1) = Some (fst (spec (bus_retries b) msgs h), w1, k1)"
    "ready (snd (spec (bus_retries b) msgs h)) w1"
    using implements [OF assms(1,2), of k1] by blast
  have "mutex_waiters (m, k1) = []" using inv(1,3) take(6,7) by (simp add: mutex_inv_def)
  from release_free [OF take(2) run take(3,4) this] take(5,8) obtain m2 k2 where
    "rt_mutex_release (m, k1) = (RT_EOK, (m2, k2))" "mutex_inv (m2, k2)" "owner m2 = None" "running k2 t"
    by auto
  then show ?thesis using take(1) x by (auto simp: rt_i2c_transfer_def transfer_from_def transfer_locked_def bus_free_def)
qed

lemma transfer_busy:
  assumes "mutex_inv (lock b, k)" "running k t" "owner (lock b) = Some u" "u \<noteq> t"
  shows "\<exists>k1. rt_i2c_transfer (Some xfer) msgs (b, w, k) = Some (Blocked t, b, w, k1) \<and> mutex_inv (lock b, k1) \<and>
    mutex_waiters (lock b, k1) = enqueued (mtx_flag (lock b)) ((priority_of k)(u := min (priority_of k t) (priority_of k u)))
      t (mutex_waiters (lock b, k))"
  using mutex_take_busy [OF assms, of RT_WAITING_FOREVER]
  by (cases b) (auto simp: rt_i2c_transfer_def transfer_from_def)

end

section \<open>The bus of the board keeps the promise\<close>

definition bus_carried :: "i2c_item list \<Rightarrow> wires \<Rightarrow> bool" where
  "bus_carried h w \<longleftrightarrow> idle (wire h) w \<and> role_of h = Idle"

definition bus_can :: "u32 \<Rightarrow> rt_i2c_msg list \<Rightarrow> bool" where
  "bus_can r msgs \<longleftrightarrow> 0 \<le> sint r \<and> (\<forall>m \<in> set msgs. plain m)"

text \<open>The bus of the board with a chip on it that does not hold the clock.\<close>

definition chip_xfer :: "chip \<Rightarrow> wires master_xfer" where
  "chip_xfer c = board_xfer (slave_of c (\<lambda>s. 0)) id"

interpretation board: bus_driver "chip_xfer c" bus_carried bus_can "spec_xfer c" for c
proof
  fix h w r msgs k
  assume "bus_carried h w" "bus_can r msgs"
  moreover obtain a ms h1 where s: "spec_xfer c r msgs h = ((a, ms), h1)" by (metis surj_pair)
  ultimately show "\<exists>w1. chip_xfer c r msgs (w, k) = Some (fst (spec_xfer c r msgs h), w1, k) \<and> bus_carried (snd (spec_xfer c r msgs h)) w1"
    using xfer_bytes [OF slave_of_speaks [of "\<lambda>s. 0" c], of h w r msgs]
    by (fastforce simp: bus_carried_def bus_can_def chip_xfer_def board_xfer_def)
qed

lemma addr_of_msg [simp]:
  "addr1_7bit \<lparr>m_addr = a, m_flags = 0, m_len = n, m_buf = bs\<rparr> = ucast (push_bit 1 a)"
  "addr1_7bit \<lparr>m_addr = a, m_flags = 1, m_len = n, m_buf = bs\<rparr> = ucast (push_bit 1 a) OR 1"
  by (simp_all add: addr1_7bit_def msg_has_def)

text \<open>
  \<open>rt_i2c_master_send\<close> stores the count in the 16-bit length of a message but reports it as given: of a
  multiple of 65536 bytes nothing is sent but the address, and the call reports them all sent.
\<close>

theorem master_send_truncates:
  assumes b: "bus_free t b k" "bus_retries b = 0" and w: "bus_carried h w" and a: "acks c (h @ [START]) (ucast (push_bit 1 addr))"
    and n: "ucast count = (0 :: u16)"
  shows "\<exists>b1 w1 k1. rt_i2c_master_send (Some (chip_xfer c)) addr 0 buf count (b, w, k) = Some (Return (uint count), b1, w1, k1) \<and>
    bus_carried (h @ [START, BYTE (ucast (push_bit 1 addr)) True, STOP]) w1"
proof -
  let ?m = "one_msg addr 0 buf count"
  have m: "?m = \<lparr>m_addr = addr, m_flags = 0, m_len = 0, m_buf = buf\<rparr>" using n by (simp add: one_msg_def)
  have s: "spec_xfer c 0 [?m] h = ((1, [?m]), h @ [START, BYTE (ucast (push_bit 1 addr)) True, STOP])"
    using a unfolding m by (simp add: spec_xfer_def spec_target_def spec_data_def tries_def msg_has_def)
  have "bus_can (bus_retries b) [?m]" using b(2) by (simp add: bus_can_def plain_def m msg_has_def)
  from board.transfer_free [OF w this b(1), of c] show ?thesis
    unfolding b(2) s by (auto simp: rt_i2c_master_send_def whole_count_def)
qed

section \<open>Witnesses\<close>

lemma blank_bus_free: "bus_free 1 blank_bus two_ready" "bus_retries blank_bus = 0"
  using two_ready_kinv
  by (simp_all add: bus_free_def blank_bus_def mutex_object_def mutex_inv_def running_def two_ready_simps)

lemma quiet_carried: "bus_carried [] quiet_wires"
  using quiet_idle by (simp add: bus_carried_def)

theorem master_send_truncates_witness:
  "\<exists>s1. rt_i2c_master_send (Some (chip_xfer \<lparr>acks = (\<lambda>h b. True), gives = (\<lambda>h. 0)\<rparr>)) 0x68 0 [] 65536
    (blank_bus, quiet_wires, two_ready) = Some (Return 65536, s1)"
  using master_send_truncates [OF blank_bus_free quiet_carried,
      where c = "\<lparr>acks = (\<lambda>h b. True), gives = (\<lambda>h. 0)\<rparr>" and addr = "0x68" and count = "65536" and buf = "[]"]
  by auto

end
