(* ===== verification/Mpu9250.thy ===== *)
theory Mpu9250
  imports I2c
begin

unbundle bit_operations_syntax

text \<open>
  The inertial sensor of the car (\<^verbatim>\<open>applications/app_mpu9250.c\<close>): its registers over the I2C bus,
  the readings made of them, and the telemetry frames sent to a ground station.
\<close>

lemma unat_len8: "unat (ucast (len :: u8) :: u16) = unat len"
proof -
  have "unat len < 2 ^ LENGTH(8)" by (rule unsigned_less)
  then show ?thesis by (simp add: unsigned_ucast_eq take_bit_nat_eq_self)
qed

lemma unat_len16: "unat (count :: u32) < 65536 \<Longrightarrow> unat (ucast count :: u16) = unat count"
  by (simp add: unsigned_ucast_eq take_bit_nat_eq_self)

section \<open>Registers\<close>

abbreviation (input) MPU9250_ADDR :: u16 where "MPU9250_ADDR \<equiv> 0x68"
abbreviation (input) AK8963_ADDR :: u16 where "AK8963_ADDR \<equiv> 0x0C"
abbreviation (input) MPU_SAMPLE_RATE_REG :: u8 where "MPU_SAMPLE_RATE_REG \<equiv> 0x19"
abbreviation (input) MPU_CFG_REG :: u8 where "MPU_CFG_REG \<equiv> 0x1A"
abbreviation (input) MPU_GYRO_CFG_REG :: u8 where "MPU_GYRO_CFG_REG \<equiv> 0x1B"
abbreviation (input) MPU_ACCEL_CFG_REG :: u8 where "MPU_ACCEL_CFG_REG \<equiv> 0x1C"
abbreviation (input) MPU_ACCEL_XOUTH_REG :: u8 where "MPU_ACCEL_XOUTH_REG \<equiv> 0x3B"
abbreviation (input) MPU_GYRO_XOUTH_REG :: u8 where "MPU_GYRO_XOUTH_REG \<equiv> 0x43"
abbreviation (input) MAG_XOUT_L :: u8 where "MAG_XOUT_L \<equiv> 0x03"

definition write_result :: "int \<Rightarrow> int \<Rightarrow> int" where
  "write_result n r = (if r = n then RT_EOK else - RT_ERROR)"

definition mpu_dmp_write_Len ::
  "'w master_xfer option \<Rightarrow> u8 \<Rightarrow> u8 \<Rightarrow> u8 \<Rightarrow> u8 list \<Rightarrow> 'w i2c_state \<Rightarrow> ((int, tid) outcome \<times> 'w i2c_state) option" where
  "mpu_dmp_write_Len bus addr reg len date s =
    finish (write_result (uint len + 1)) (rt_i2c_master_send bus (ucast addr) 0 (reg # take (unat len) date) (ucast len + 1) s)"

definition mpu9250_write_reg :: "'w master_xfer option \<Rightarrow> u8 \<Rightarrow> u8 \<Rightarrow> 'w i2c_state \<Rightarrow> ((int, tid) outcome \<times> 'w i2c_state) option" where
  "mpu9250_write_reg bus reg data s = finish (write_result 2) (rt_i2c_master_send bus MPU9250_ADDR 0 [reg, data] 2 s)"

definition mpu9250_write_magnetometer_reg ::
  "'w master_xfer option \<Rightarrow> u8 \<Rightarrow> u8 \<Rightarrow> 'w i2c_state \<Rightarrow> ((int, tid) outcome \<times> 'w i2c_state) option" where
  "mpu9250_write_magnetometer_reg bus reg data s = finish (write_result 2) (rt_i2c_master_send bus AK8963_ADDR 0 [reg, data] 2 s)"

text \<open>The two messages of a read; \<open>buf\<close> is what the buffer of the caller holds before.\<close>

definition read_msgs :: "u16 \<Rightarrow> u8 \<Rightarrow> u8 \<Rightarrow> u8 list \<Rightarrow> rt_i2c_msg list" where
  "read_msgs addr reg len buf =
    [\<lparr>m_addr = addr, m_flags = RT_I2C_WR, m_len = 1, m_buf = [reg]\<rparr>,
     \<lparr>m_addr = addr, m_flags = RT_I2C_RD, m_len = ucast len, m_buf = buf\<rparr>]"

definition read_result :: "int \<times> rt_i2c_msg list \<Rightarrow> int \<times> u8 list" where
  "read_result r = (if fst r = 2 then RT_EOK else - RT_ERROR, m_buf (snd r ! 1))"

definition mpu_dmp_read_Len ::
  "'w master_xfer option \<Rightarrow> u8 \<Rightarrow> u8 \<Rightarrow> u8 \<Rightarrow> u8 list \<Rightarrow> 'w i2c_state \<Rightarrow> ((int \<times> u8 list, tid) outcome \<times> 'w i2c_state) option" where
  "mpu_dmp_read_Len bus addr reg len buf s = finish read_result (rt_i2c_transfer bus (read_msgs (ucast addr) reg len buf) s)"

definition mpu9250_read_reg ::
  "'w master_xfer option \<Rightarrow> u8 \<Rightarrow> u8 \<Rightarrow> 'w i2c_state \<Rightarrow> ((int \<times> u8 list, tid) outcome \<times> 'w i2c_state) option" where
  "mpu9250_read_reg bus reg data s = finish read_result (rt_i2c_transfer bus (read_msgs MPU9250_ADDR reg 1 [data]) s)"

definition mpu9250_read_regs ::
  "'w master_xfer option \<Rightarrow> u8 \<Rightarrow> u8 \<Rightarrow> u8 list \<Rightarrow> 'w i2c_state \<Rightarrow> ((int \<times> u8 list, tid) outcome \<times> 'w i2c_state) option" where
  "mpu9250_read_regs bus reg len buf s = finish read_result (rt_i2c_transfer bus (read_msgs MPU9250_ADDR reg len buf) s)"

definition mpu9250_read_magnetometer_regs ::
  "'w master_xfer option \<Rightarrow> u8 \<Rightarrow> u8 \<Rightarrow> u8 list \<Rightarrow> 'w i2c_state \<Rightarrow> ((int \<times> u8 list, tid) outcome \<times> 'w i2c_state) option" where
  "mpu9250_read_magnetometer_regs bus reg len buf s = finish read_result (rt_i2c_transfer bus (read_msgs AK8963_ADDR reg len buf) s)"

definition mpu9250_read_magnetometer_reg ::
  "'w master_xfer option \<Rightarrow> u8 \<Rightarrow> u8 \<Rightarrow> 'w i2c_state \<Rightarrow> ((int \<times> u8 list, tid) outcome \<times> 'w i2c_state) option" where
  "mpu9250_read_magnetometer_reg bus reg data s = finish read_result (rt_i2c_transfer bus (read_msgs AK8963_ADDR reg 1 [data]) s)"

section \<open>Settings\<close>

definition mpu9250_set_gyro_fsr :: "'w master_xfer option \<Rightarrow> u8 \<Rightarrow> 'w i2c_state \<Rightarrow> ((int, tid) outcome \<times> 'w i2c_state) option" where
  "mpu9250_set_gyro_fsr bus fsr = mpu9250_write_reg bus MPU_GYRO_CFG_REG (push_bit 3 fsr)"

definition mpu9250_set_accel_fsr :: "'w master_xfer option \<Rightarrow> u8 \<Rightarrow> 'w i2c_state \<Rightarrow> ((int, tid) outcome \<times> 'w i2c_state) option" where
  "mpu9250_set_accel_fsr bus fsr = mpu9250_write_reg bus MPU_ACCEL_CFG_REG (push_bit 3 fsr)"

definition lpf_code :: "u16 \<Rightarrow> u8" where
  "lpf_code lpf =
    (if lpf \<ge> 188 then 1 else if lpf \<ge> 98 then 2 else if lpf \<ge> 42 then 3 else if lpf \<ge> 20 then 4 else if lpf \<ge> 10 then 5 else 6)"

definition mpu9250_set_lpf :: "'w master_xfer option \<Rightarrow> u16 \<Rightarrow> 'w i2c_state \<Rightarrow> ((int, tid) outcome \<times> 'w i2c_state) option" where
  "mpu9250_set_lpf bus lpf = mpu9250_write_reg bus MPU_CFG_REG (lpf_code lpf)"

definition clamp_rate :: "u16 \<Rightarrow> u16" where
  "clamp_rate rate = (let r = (if rate > 1000 then 1000 else rate) in if r < 4 then 4 else r)"

text \<open>
  The result of the first write is overwritten. A thread that waits for the bus in the first write does the rest,
  \<open>mpu9250_set_lpf\<close>, when the write has returned.
\<close>

definition mpu9250_set_sample_rate :: "'w master_xfer option \<Rightarrow> u16 \<Rightarrow> 'w i2c_state \<Rightarrow> ((int, tid) outcome \<times> 'w i2c_state) option" where
  "mpu9250_set_sample_rate bus rate s =
    (let r = clamp_rate rate in
     case mpu9250_write_reg bus MPU_SAMPLE_RATE_REG (ucast (1000 div r - 1)) s of
       Some (Return _, s1) \<Rightarrow> mpu9250_set_lpf bus (r div 2) s1
     | Some (Blocked t, s1) \<Rightarrow> Some (Blocked t, s1)
     | None \<Rightarrow> None)"

section \<open>Readings\<close>

text \<open>Signed 16-bit values are words read by \<open>sint\<close>. Nothing is stored when the bus fails.\<close>

definition be16 :: "u8 \<Rightarrow> u8 \<Rightarrow> u16" where
  "be16 hi lo = push_bit 8 (ucast hi) OR ucast lo"

definition axes :: "int \<times> u8 list \<Rightarrow> int \<times> (u16 \<times> u16 \<times> u16) option" where
  "axes r = (case r of (ret, buf) \<Rightarrow>
     if (word_of_int ret :: u8) = 0
     then (RT_EOK, Some (be16 (buf ! 0) (buf ! 1), be16 (buf ! 2) (buf ! 3), be16 (buf ! 4) (buf ! 5)))
     else (- RT_ERROR, None))"

definition mpu9250_get_gyroscope ::
  "'w master_xfer option \<Rightarrow> u8 list \<Rightarrow> 'w i2c_state \<Rightarrow> ((int \<times> (u16 \<times> u16 \<times> u16) option, tid) outcome \<times> 'w i2c_state) option" where
  "mpu9250_get_gyroscope bus buf s = finish axes (mpu9250_read_regs bus MPU_GYRO_XOUTH_REG 6 buf s)"

definition mpu9250_get_accelerometer ::
  "'w master_xfer option \<Rightarrow> u8 list \<Rightarrow> 'w i2c_state \<Rightarrow> ((int \<times> (u16 \<times> u16 \<times> u16) option, tid) outcome \<times> 'w i2c_state) option" where
  "mpu9250_get_accelerometer bus buf s = finish axes (mpu9250_read_regs bus MPU_ACCEL_XOUTH_REG 6 buf s)"

definition mpu9250_get_magnetometer ::
  "'w master_xfer option \<Rightarrow> u8 list \<Rightarrow> 'w i2c_state \<Rightarrow> ((int \<times> (u16 \<times> u16 \<times> u16) option, tid) outcome \<times> 'w i2c_state) option" where
  "mpu9250_get_magnetometer bus buf s = finish axes (mpu9250_read_magnetometer_regs bus MAG_XOUT_L 6 buf s)"

section \<open>Telemetry\<close>

text \<open>
  \<open>junk\<close> is what the 32 bytes of the send buffer hold before. An access outside of it is \<open>None\<close>; nothing is sent of more
  than 28 bytes of data.
\<close>

definition niming_frame :: "u8 list \<Rightarrow> u8 \<Rightarrow> u8 list \<Rightarrow> u8 \<Rightarrow> u8 list option" where
  "niming_frame junk fun data len =
    (let n = unat len in
     if n > 28 then Some []
     else if n + 4 \<ge> 32 then None
     else let b1 = junk[n + 3 := 0];
              b2 = b1[0 := 0xAA, 1 := 0xAA, 2 := fun, 3 := len];
              b3 = foldl (\<lambda>b i. b[4 + i := data ! i]) b2 [0..<n];
              b4 = foldl (\<lambda>b i. b[n + 4 := b ! (n + 4) + b ! i]) b3 [0..<n + 4]
          in Some (take (n + 5) b4))"

definition usart1_niming_report :: "(u8 \<Rightarrow> 's \<Rightarrow> 's) \<Rightarrow> u8 list \<Rightarrow> u8 \<Rightarrow> u8 list \<Rightarrow> u8 \<Rightarrow> 's \<Rightarrow> 's option" where
  "usart1_niming_report putchar junk fun data len s = map_option (\<lambda>f. fold putchar f s) (niming_frame junk fun data len)"

definition hi8 :: "u16 \<Rightarrow> u8" where "hi8 x = ucast (drop_bit 8 x AND 0xFF)"
definition lo8 :: "u16 \<Rightarrow> u8" where "lo8 x = ucast (x AND 0xFF)"

definition sensor_data :: "u16 \<Rightarrow> u16 \<Rightarrow> u16 \<Rightarrow> u16 \<Rightarrow> u16 \<Rightarrow> u16 \<Rightarrow> u8 list" where
  "sensor_data ax ay az gx gy gz =
    [hi8 ax, lo8 ax, hi8 ay, lo8 ay, hi8 az, lo8 az, hi8 gx, lo8 gx, hi8 gy, lo8 gy, hi8 gz, lo8 gz, 0, 0, 0, 0, 0, 0]"

definition mpu6050_send_data :: "(u8 \<Rightarrow> 's \<Rightarrow> 's) \<Rightarrow> u8 list \<Rightarrow> u16 \<Rightarrow> u16 \<Rightarrow> u16 \<Rightarrow> u16 \<Rightarrow> u16 \<Rightarrow> u16 \<Rightarrow> 's \<Rightarrow> 's option" where
  "mpu6050_send_data putchar junk ax ay az gx gy gz = usart1_niming_report putchar junk 0x02 (sensor_data ax ay az gx gy gz) 18"

definition imu_data :: "u16 \<Rightarrow> u16 \<Rightarrow> u16 \<Rightarrow> u16 \<Rightarrow> u32 \<Rightarrow> u8 list" where
  "imu_data roll pitch yaw csb prs =
    [hi8 roll, lo8 roll, hi8 pitch, lo8 pitch, hi8 yaw, lo8 yaw, hi8 csb, lo8 csb,
     ucast (drop_bit 24 prs AND 0xFF), ucast (drop_bit 16 prs AND 0xFF), ucast (drop_bit 8 prs AND 0xFF), ucast (prs AND 0xFF)]"

definition usart1_report_imu :: "(u8 \<Rightarrow> 's \<Rightarrow> 's) \<Rightarrow> u8 list \<Rightarrow> u16 \<Rightarrow> u16 \<Rightarrow> u16 \<Rightarrow> u16 \<Rightarrow> u32 \<Rightarrow> 's \<Rightarrow> 's option" where
  "usart1_report_imu putchar junk roll pitch yaw csb prs = usart1_niming_report putchar junk 0x01 (imu_data roll pitch yaw csb prs) 12"

section \<open>A chip with registers\<close>

text \<open>
  \<open>answers c a R\<close>: the chip \<open>c\<close> has the address \<open>a\<close> and, after the bus has carried \<open>h\<close>, the registers
  \<open>R h\<close>: the first byte written selects a register, more bytes are taken, and bytes read come from it and those after it.
\<close>

definition addr_w :: "u16 \<Rightarrow> u8" where "addr_w a = ucast (push_bit 1 a)"
definition addr_r :: "u16 \<Rightarrow> u8" where "addr_r a = ucast (push_bit 1 a) OR 1"

abbreviation sent :: "u8 list \<Rightarrow> i2c_item list" where
  "sent \<equiv> map (\<lambda>v. BYTE v True)"

definition from_reg :: "(u8 \<Rightarrow> u8) \<Rightarrow> u8 \<Rightarrow> nat \<Rightarrow> u8 list" where
  "from_reg R reg n = map (\<lambda>j. R (reg + of_nat j)) [0..<n]"

definition answers :: "chip \<Rightarrow> u16 \<Rightarrow> (i2c_item list \<Rightarrow> u8 \<Rightarrow> u8) \<Rightarrow> bool" where
  "answers c a R \<longleftrightarrow> (\<forall>h. role_of h = Idle \<longrightarrow>
     acks c (h @ [START]) (addr_w a) \<and>
     (\<forall>vs v. acks c (h @ START # sent (addr_w a # vs)) v) \<and>
     (\<forall>reg. acks c (h @ START # sent [addr_w a, reg] @ [START]) (addr_r a)) \<and>
     (\<forall>reg k. gives c (h @ START # sent [addr_w a, reg] @ START # sent (addr_r a # from_reg (R h) reg k)) = R h (reg + of_nat k)))"

definition read_items :: "u16 \<Rightarrow> u8 \<Rightarrow> u8 list \<Rightarrow> i2c_item list" where
  "read_items a reg vs = START # sent [addr_w a, reg] @ START # sent (addr_r a # butlast vs) @ [BYTE (last vs) False, STOP]"

definition write_items :: "u16 \<Rightarrow> u8 list \<Rightarrow> i2c_item list" where
  "write_items a vs = START # sent (addr_w a # vs) @ [STOP]"

lemma role_append: "role_of (h @ g) = foldl next_role (role_of h) g"
  by (simp add: role_of_def)

lemma role_sent: "foldl next_role r (sent vs) = r" if "r = Talk \<or> r = Listen"
  using that by (induction vs) auto

lemma addr_bits: "\<not> bit (addr_w a) 0" "bit (addr_r a) 0"
  by (simp_all add: addr_w_def addr_r_def bit_0 even_ucast even_or_iff)

lemma from_reg_simps [simp]: "length (from_reg R reg n) = n" "from_reg R reg 0 = []"
  "from_reg R reg (Suc n) = from_reg R reg n @ [R (reg + of_nat n)]"
  by (simp_all add: from_reg_def)

lemma nth_from_reg [simp]: "j < n \<Longrightarrow> from_reg R reg n ! j = R (reg + of_nat j)"
  by (simp add: from_reg_def)

lemma answersD:
  assumes "answers c a R" "role_of h = Idle"
  shows "acks c (h @ [START]) (addr_w a)" "acks c (h @ START # sent (addr_w a # vs)) v"
    "acks c (h @ START # sent [addr_w a, reg] @ [START]) (addr_r a)"
    "gives c (h @ START # sent [addr_w a, reg] @ START # sent (addr_r a # from_reg (R h) reg k)) = R h (reg + of_nat k)"
  using assms by (simp_all add: answers_def)

lemma recv_registers:
  assumes an: "answers c a R" "role_of h = Idle" and n: "0 < n"
  shows "k \<le> n - 1 \<Longrightarrow> spec_recv c (n - k) (h @ START # sent [addr_w a, reg] @ START # sent (addr_r a # from_reg (R h) reg k)) =
    (drop k (from_reg (R h) reg n), h @ butlast (read_items a reg (from_reg (R h) reg n)))"
proof (induction k rule: inc_induct)
  case base
  obtain m where n: "n = Suc m" using n by (cases n) auto
  let ?g = "h @ START # sent [addr_w a, reg] @ START # sent (addr_r a # from_reg (R h) reg m)"
  have r: "role_of ?g = Talk" using addr_bits by (simp add: role_append role_sent)
  have g: "gives c ?g = R h (reg + of_nat m)" using answersD(4) [OF an] .
  show ?case using r g by (simp add: n sent_byte_def acked_def read_items_def butlast_append)
next
  case (step k)
  let ?g = "h @ START # sent [addr_w a, reg] @ START # sent (addr_r a # from_reg (R h) reg k)"
  have r: "role_of ?g = Talk" using addr_bits by (simp add: role_append role_sent)
  have g: "gives c ?g = R h (reg + of_nat k)" using answersD(4) [OF an] .
  obtain m where m: "n - k = Suc m" "n - Suc k = m" "m \<noteq> 0" using step.hyps by (cases "n - k") auto
  have d: "drop k (from_reg (R h) reg n) = R h (reg + of_nat k) # drop (Suc k) (from_reg (R h) reg n)"
    using step.hyps Cons_nth_drop_Suc [of k "from_reg (R h) reg n"] by simp
  from step.IH show ?case using r g m d by (simp add: sent_byte_def acked_def)
qed

lemma read_items_end: "read_items a reg vs = butlast (read_items a reg vs) @ [STOP]"
  by (simp add: read_items_def butlast_append)

lemma spec_read:
  assumes an: "answers c a R" "role_of h = Idle" and len: "len \<noteq> 0"
  shows "spec_xfer c 0 (read_msgs a reg len buf) h =
    ((2, [\<lparr>m_addr = a, m_flags = 0, m_len = 1, m_buf = [reg]\<rparr>,
          \<lparr>m_addr = a, m_flags = 1, m_len = ucast len,
           m_buf = from_reg (R h) reg (unat len) @ drop (unat len) buf\<rparr>]),
     h @ read_items a reg (from_reg (R h) reg (unat len)))"
proof -
  have u: "unat (ucast len :: u16) = unat len" by (rule unat_len8)
  have n: "0 < unat len" using len by (simp add: unat_gt_0)
  have rcv: "spec_recv c (unat len) (h @ [START, BYTE (addr_w a) True, BYTE reg True, START, BYTE (addr_r a) True]) =
      (from_reg (R h) reg (unat len), h @ butlast (read_items a reg (from_reg (R h) reg (unat len))))"
    using recv_registers [OF an n, of 0 reg] by simp
  have m1: "addr1_7bit \<lparr>m_addr = a, m_flags = 0, m_len = n, m_buf = bs\<rparr> = addr_w a" for n bs by (simp add: addr_w_def)
  have m2: "addr1_7bit \<lparr>m_addr = a, m_flags = 1, m_len = n, m_buf = bs\<rparr> = addr_r a" for n bs by (simp add: addr_r_def)
  have t1: "spec_target c 0 \<lparr>m_addr = a, m_flags = 0, m_len = 1, m_buf = [reg]\<rparr> (h @ [START]) = (True, h @ [START, BYTE (addr_w a) True])"
    using answersD(1) [OF an] by (simp add: spec_target_def tries_def msg_has_def m1 del: addr_of_msg)
  have d1: "spec_data c \<lparr>m_addr = a, m_flags = 0, m_len = 1, m_buf = [reg]\<rparr> (h @ [START, BYTE (addr_w a) True]) =
      ((True, \<lparr>m_addr = a, m_flags = 0, m_len = 1, m_buf = [reg]\<rparr>), h @ [START, BYTE (addr_w a) True, BYTE reg True])"
    using answersD(2) [OF an, of "[]" reg] by (simp add: spec_data_def msg_has_def)
  have t2: "spec_target c 0 \<lparr>m_addr = a, m_flags = 1, m_len = ucast len, m_buf = buf\<rparr> (h @ [START, BYTE (addr_w a) True, BYTE reg True, START]) =
      (True, h @ [START, BYTE (addr_w a) True, BYTE reg True, START, BYTE (addr_r a) True])"
    using answersD(3) [OF an, of reg] by (simp add: spec_target_def tries_def msg_has_def m2 del: addr_of_msg)
  have d2: "spec_data c \<lparr>m_addr = a, m_flags = 1, m_len = ucast len, m_buf = buf\<rparr>
      (h @ [START, BYTE (addr_w a) True, BYTE reg True, START, BYTE (addr_r a) True]) =
      ((True, \<lparr>m_addr = a, m_flags = 1, m_len = ucast len, m_buf = from_reg (R h) reg (unat len) @ drop (unat len) buf\<rparr>),
       h @ butlast (read_items a reg (from_reg (R h) reg (unat len))))"
    using rcv by (simp add: spec_data_def msg_has_def u store_bytes_def)
  show ?thesis using t1 d1 t2 d2 read_items_end [of a reg "from_reg (R h) reg (unat len)"]
    by (simp add: spec_xfer_def read_msgs_def)
qed

lemma spec_send_all:
  assumes "\<And>vs v. acks c (g @ sent vs) v"
  shows "spec_send c ign bs (g @ sent vs) = (True, g @ sent (vs @ bs))"
proof (induction bs arbitrary: vs)
  case (Cons b bs)
  show ?case using Cons.IH [of "vs @ [b]"] assms [of vs b] by simp
qed simp

lemma spec_write:
  assumes an: "answers c a R" "role_of h = Idle" and n: "length bs = unat count" "unat count < 65536"
  shows "spec_xfer c 0 [one_msg a 0 bs count] h = ((1, [one_msg a 0 bs count]), h @ write_items a bs)"
proof -
  have u: "unat (ucast count :: u16) = unat count" using n(2) by (rule unat_len16)
  have "acks c ((h @ [START, BYTE (addr_w a) True]) @ sent vs) v" for vs v using answersD(2) [OF an, of vs v] by simp
  from spec_send_all [OF this, of False bs "[]"]
  have s: "spec_send c False bs (h @ [START, BYTE (addr_w a) True]) = (True, h @ START # sent (addr_w a # bs))" by simp
  have "spec_target c 0 (one_msg a 0 bs count) (h @ [START]) = (True, h @ [START, BYTE (addr_w a) True])"
    using answersD(1) [OF an] by (simp add: spec_target_def tries_def msg_has_def one_msg_def addr_w_def)
  moreover have "spec_data c (one_msg a 0 bs count) (h @ [START, BYTE (addr_w a) True]) =
      ((True, one_msg a 0 bs count), h @ START # sent (addr_w a # bs))"
    using s n(1) u by (simp add: spec_data_def msg_has_def one_msg_def)
  ultimately show ?thesis by (simp add: spec_xfer_def write_items_def)
qed

section \<open>Registers read and written\<close>

text \<open>A bus nobody uses, with a chip on it: the board's state when the car runs.\<close>

definition sensor_bus :: "tid \<Rightarrow> i2c_item list \<Rightarrow> wires i2c_state \<Rightarrow> bool" where
  "sensor_bus t h s \<longleftrightarrow> (case s of (b, w, k) \<Rightarrow> bus_free t b k \<and> bus_retries b = 0 \<and> bus_carried h w)"

lemma read_transfer:
  assumes s: "sensor_bus t h s" and an: "answers c a R" and len: "len \<noteq> 0"
  shows "\<exists>s1. finish read_result (rt_i2c_transfer (Some (chip_xfer c)) (read_msgs a reg len buf) s) =
      Some (Return (RT_EOK, from_reg (R h) reg (unat len) @ drop (unat len) buf), s1) \<and>
    sensor_bus t (h @ read_items a reg (from_reg (R h) reg (unat len))) s1"
proof -
  obtain b w k where bwk: "s = (b, w, k)" by (metis surj_pair)
  have i: "bus_free t b k" "bus_retries b = 0" "bus_carried h w" using s by (simp_all add: sensor_bus_def bwk)
  have idl: "role_of h = Idle" using i(3) by (simp add: bus_carried_def)
  have "ucast len \<noteq> (0 :: u16)" using len unat_len8 [of len] by (metis unsigned_0 unsigned_word_eqI)
  then have can: "bus_can (bus_retries b) (read_msgs a reg len buf)"
    using i(2) by (simp add: bus_can_def read_msgs_def plain_def msg_has_def)
  from board.transfer_free [OF i(3) can i(1), of c] show ?thesis
    unfolding i(2) spec_read [OF an idl len] bwk by (auto simp: read_result_def sensor_bus_def)
qed

lemma write_transfer:
  assumes s: "sensor_bus t h s" and an: "answers c a R" and n: "length bs = unat count" "0 < unat count" "unat count < 65536"
  shows "\<exists>s1. rt_i2c_master_send (Some (chip_xfer c)) a 0 bs count s = Some (Return (uint count), s1) \<and>
    sensor_bus t (h @ write_items a bs) s1"
proof -
  obtain b w k where bwk: "s = (b, w, k)" by (metis surj_pair)
  have i: "bus_free t b k" "bus_retries b = 0" "bus_carried h w" using s by (simp_all add: sensor_bus_def bwk)
  have idl: "role_of h = Idle" using i(3) by (simp add: bus_carried_def)
  have u: "unat (ucast count :: u16) = unat count" using n(3) by (rule unat_len16)
  have can: "bus_can (bus_retries b) [one_msg a 0 bs count]"
    using i(2) n(1) u by (simp add: bus_can_def one_msg_def plain_def msg_has_def)
  from board.transfer_free [OF i(3) can i(1), of c] show ?thesis
    unfolding i(2) spec_write [OF an idl n(1,3)] bwk by (auto simp: rt_i2c_master_send_def whole_count_def sensor_bus_def)
qed

lemma bit_0xff_int: "bit (0xFF :: int) j \<longleftrightarrow> j < 8"
proof -
  have "(0xFF :: int) = mask 8" by (simp add: mask_eq_exp_minus_1)
  then show ?thesis by (simp only: bit_mask_iff) auto
qed

lemma be16_hi_lo: "be16 (hi8 x) (lo8 x) = x"
  by (rule bit_eqI)
    (auto simp: be16_def hi8_def lo8_def bit_or_iff bit_push_bit_iff bit_ucast_iff bit_and_iff bit_drop_bit_eq bit_0xff_int
      dest: bit_imp_le_length)

lemma copy_loop:
  "n \<le> length data \<Longrightarrow> 4 + n \<le> length b \<Longrightarrow>
    foldl (\<lambda>b i. b[4 + i := data ! i]) b [0..<n] = take 4 b @ take n data @ drop (4 + n) b"
proof (induction n)
  case (Suc n)
  have "(take 4 b @ take n data @ drop (4 + n) b)[4 + n := data ! n] = take 4 b @ take n data @ (drop (4 + n) b)[0 := data ! n]"
    using Suc.prems by (simp add: list_update_append)
  also have "(drop (4 + n) b)[0 := data ! n] = data ! n # drop (4 + Suc n) b"
    using Suc.prems by (simp add: Cons_nth_drop_Suc [symmetric])
  finally show ?case using Suc by (simp add: take_Suc_conv_app_nth)
qed simp

lemma sum_loop:
  fixes b :: "u8 list"
  shows "m \<le> p \<Longrightarrow> p < length b \<Longrightarrow> foldl (\<lambda>b i. b[p := b ! p + b ! i]) b [0..<m] = b[p := b ! p + sum_list (take m b)]"
proof (induction m)
  case (Suc m)
  then show ?case by (simp add: take_Suc_conv_app_nth ac_simps)
qed simp

lemma take_snoc: "n = Suc (length f) \<Longrightarrow> take n (f @ x # rest) = f @ [x]"
  by simp

lemma sum_frame:
  fixes f :: "u8 list"
  shows "foldl (\<lambda>b i. b[length f := b ! length f + b ! i]) (f @ x # rest) [0..<length f] = f @ (x + sum_list f) # rest"
  using sum_loop [of "length f" "length f" "f @ x # rest"] by simp

text \<open>
  The checksum of a telemetry frame is added to whatever the byte of the send buffer held before: the frame
  is head, function, length and data in order, and ends with their sum plus that byte. With 28 bytes of data, which the
  comment allows, the checksum is stored behind the buffer.
\<close>

theorem niming_checksum:
  assumes "length junk = 32" "unat len \<le> length data"
  shows "(unat len \<le> 27 \<longrightarrow> niming_frame junk f data len =
      (let frame = [0xAA, 0xAA, f, len] @ take (unat len) data in Some (frame @ [junk ! (unat len + 4) + sum_list frame]))) \<and>
    (unat len = 28 \<longrightarrow> niming_frame junk f data len = None)"
proof (intro conjI impI)
  let ?n = "unat len"
  assume n: "?n \<le> 27"
  let ?b1 = "junk[?n + 3 := 0]"
  let ?b2 = "?b1[0 := 0xAA, 1 := 0xAA, 2 := f, 3 := len]"
  let ?frame = "[0xAA, 0xAA, f, len] @ take ?n data"
  have h: "take 4 ?b2 = [0xAA, 0xAA, f, len]"
    using assms(1) by (intro nth_equalityI) (auto simp: nth_list_update less_Suc_eq numeral_eq_Suc)
  have d: "drop (4 + ?n) ?b2 = drop (?n + 4) junk" by (simp add: drop_update_cancel add.commute)
  have c: "foldl (\<lambda>b i. b[4 + i := data ! i]) ?b2 [0..<?n] = ?frame @ drop (?n + 4) junk"
    using copy_loop [of ?n data ?b2] assms n h d by simp
  have l: "length ?frame = ?n + 4" using assms(2) by simp
  have e: "drop (?n + 4) junk = junk ! (?n + 4) # drop (?n + 5) junk"
    using assms(1) n by (simp add: Cons_nth_drop_Suc [symmetric] add.commute)
  have "foldl (\<lambda>b i. b[?n + 4 := b ! (?n + 4) + b ! i]) (?frame @ drop (?n + 4) junk) [0..<?n + 4] =
      ?frame @ (junk ! (?n + 4) + sum_list ?frame) # drop (?n + 5) junk"
    using sum_frame [of ?frame "junk ! (?n + 4)" "drop (?n + 5) junk"] by (simp only: l e)
  moreover have "take (?n + 5) (?frame @ x # rest) = ?frame @ [x]" for x rest by (rule take_snoc) (use l in simp)
  ultimately show "niming_frame junk f data len = (let frame = ?frame in Some (frame @ [junk ! (?n + 4) + sum_list frame]))"
    using n unfolding niming_frame_def Let_def c by simp
next
  assume "unat len = 28"
  then show "niming_frame junk f data len = None" by (simp add: niming_frame_def)
qed

text \<open>What a receiver reads out of a frame of the state of the car.\<close>

definition imu_of :: "u8 list \<Rightarrow> u16 \<times> u16 \<times> u16 \<times> u16 \<times> u32" where
  "imu_of f =
    (be16 (f ! 4) (f ! 5), be16 (f ! 6) (f ! 7), be16 (f ! 8) (f ! 9), be16 (f ! 10) (f ! 11),
     push_bit 16 (ucast (be16 (f ! 12) (f ! 13))) OR ucast (be16 (f ! 14) (f ! 15)))"

lemma be16_half:
  "be16 (ucast (drop_bit (8 + k) (x :: u32) AND 0xFF)) (ucast (drop_bit k x AND 0xFF)) = ucast (drop_bit k x)"
proof (rule bit_word_eqI)
  fix n assume "n < LENGTH(16)"
  then show "bit (be16 (ucast (drop_bit (8 + k) x AND 0xFF)) (ucast (drop_bit k x AND 0xFF))) n = bit (ucast (drop_bit k x) :: u16) n"
    by (cases "n < 8")
      (auto simp: be16_def bit_or_iff bit_push_bit_iff bit_ucast_iff bit_and_iff bit_drop_bit_eq bit_0xff_int)
qed

lemma be32_half: "push_bit 16 (ucast (ucast (drop_bit 16 x) :: u16)) OR ucast (ucast x :: u16) = (x :: u32)"
proof (rule bit_word_eqI)
  fix n assume "n < LENGTH(32)"
  then show "bit (push_bit 16 (ucast (ucast (drop_bit 16 x) :: u16)) OR ucast (ucast x :: u16) :: u32) n = bit x n"
    by (cases "n < 16") (auto simp: bit_or_iff bit_push_bit_iff bit_ucast_iff bit_drop_bit_eq)
qed

lemma be32_bytes:
  "push_bit 16 (ucast (be16 (ucast (drop_bit 24 x AND 0xFF)) (ucast (drop_bit 16 x AND 0xFF)))) OR
   ucast (be16 (ucast (drop_bit 8 x AND 0xFF)) (ucast (x AND 0xFF))) = (x :: u32)"
  using be16_half [of 16 x] be16_half [of 0 x] be32_half [of x] by simp

text \<open>
  A receiver reads out of the frame of \<open>usart1_report_imu\<close> what it was called with, whatever the send buffer held
  before; the frame has 17 bytes.
\<close>

theorem imu_report_roundtrip:
  assumes "length junk = 32"
  shows "\<exists>f. usart1_report_imu (\<lambda>b out. out @ [b]) junk roll pitch yaw csb prs [] = Some f \<and> length f = 17 \<and>
    take 4 f = [0xAA, 0xAA, 0x01, 12] \<and> imu_of f = (roll, pitch, yaw, csb, prs)"
proof -
  have o: "fold (\<lambda>b out. out @ [b]) g out = out @ g" for g out :: "u8 list" by (induction g arbitrary: out) simp_all
  show ?thesis using niming_checksum [of junk 12 "imu_data roll pitch yaw csb prs" 1] assms
    by (simp add: usart1_report_imu_def usart1_niming_report_def Let_def o)
      (simp add: imu_of_def imu_data_def be16_hi_lo be32_bytes)
qed

section \<open>What the car reads and writes\<close>

text \<open>
  C15: with a sensor on a free bus, \<open>mpu9250_get_gyroscope\<close> returns the three signed values whose bytes the
  sensor holds in its registers, the high byte first. The bus has carried one write that selects the first register and
  one read of six bytes, the last not acknowledged; it is free again.
\<close>

theorem gyroscope_reads:
  assumes s: "sensor_bus t h s" and an: "answers c MPU9250_ADDR R"
    and r: "from_reg (R h) MPU_GYRO_XOUTH_REG 6 = [hi8 x, lo8 x, hi8 y, lo8 y, hi8 z, lo8 z]"
  shows "\<exists>s1. mpu9250_get_gyroscope (Some (chip_xfer c)) buf s = Some (Return (RT_EOK, Some (x, y, z)), s1) \<and>
    sensor_bus t (h @ read_items MPU9250_ADDR MPU_GYRO_XOUTH_REG [hi8 x, lo8 x, hi8 y, lo8 y, hi8 z, lo8 z]) s1"
  using read_transfer [OF s an, of 6 MPU_GYRO_XOUTH_REG buf] r
  by (auto simp: mpu9250_get_gyroscope_def mpu9250_read_regs_def axes_def be16_hi_lo)

text \<open>
  The magnetometer has the low byte of a value first (\<^verbatim>\<open>MAG_XOUT_L\<close>), but
  \<^verbatim>\<open>mpu9250_get_magnetometer\<close> takes the first for the high one: the bytes of each value come out swapped.
\<close>

lemma magnetometer_swapped:
  assumes s: "sensor_bus t h s" and an: "answers c AK8963_ADDR R"
    and r: "from_reg (R h) MAG_XOUT_L 6 = [lo8 x, hi8 x, lo8 y, hi8 y, lo8 z, hi8 z]"
  shows "\<exists>s1. mpu9250_get_magnetometer (Some (chip_xfer c)) buf s =
    Some (Return (RT_EOK, Some (be16 (lo8 x) (hi8 x), be16 (lo8 y) (hi8 y), be16 (lo8 z) (hi8 z))), s1)"
  using read_transfer [OF s an, of 6 MAG_XOUT_L buf] r
  by (auto simp: mpu9250_get_magnetometer_def mpu9250_read_magnetometer_regs_def axes_def)

text \<open>
  C16: a register written is read back: if the sensor keeps what is written to a register, \<open>mpu9250_read_reg\<close> after
  \<open>mpu9250_write_reg\<close> returns it, and both succeed.
\<close>

theorem register_write_read:
  assumes s: "sensor_bus t h s" and an: "answers c MPU9250_ADDR R" and keep: "R (h @ write_items MPU9250_ADDR [reg, v]) reg = v"
  shows "\<exists>s1 s2. mpu9250_write_reg (Some (chip_xfer c)) reg v s = Some (Return RT_EOK, s1) \<and>
    mpu9250_read_reg (Some (chip_xfer c)) reg old s1 = Some (Return (RT_EOK, [v]), s2) \<and>
    sensor_bus t (h @ write_items MPU9250_ADDR [reg, v] @ read_items MPU9250_ADDR reg [v]) s2"
proof -
  obtain s1 where s1: "rt_i2c_master_send (Some (chip_xfer c)) MPU9250_ADDR 0 [reg, v] 2 s = Some (Return 2, s1)"
    "sensor_bus t (h @ write_items MPU9250_ADDR [reg, v]) s1"
    using write_transfer [OF s an, of "[reg, v]" 2] by auto
  have "from_reg (R (h @ write_items MPU9250_ADDR [reg, v])) reg 1 = [v]" using keep by simp
  then show ?thesis using read_transfer [OF s1(2) an, of 1 reg "[old]"] s1(1)
    by (auto simp: mpu9250_write_reg_def mpu9250_read_reg_def write_result_def)
qed

text \<open>
  C17: \<open>mpu9250_set_sample_rate\<close> limits the rate to 4 to 1000 per second and writes two registers: a divider
  that fits the register, with which the sensor, which divides 1000 by the register plus one, is at least as fast as asked for
  and the next slower divider would not be, and a low-pass filter for half the rate.
\<close>

theorem sample_rate_set:
  assumes s: "sensor_bus t h s" and an: "answers c MPU9250_ADDR R" and r: "r = unat (clamp_rate rate)"
  shows "\<exists>d s1. mpu9250_set_sample_rate (Some (chip_xfer c)) rate s = Some (Return RT_EOK, s1) \<and>
    sensor_bus t (h @ write_items MPU9250_ADDR [MPU_SAMPLE_RATE_REG, d] @
      write_items MPU9250_ADDR [MPU_CFG_REG, lpf_code (clamp_rate rate div 2)]) s1 \<and>
    (unat d + 1) * r \<le> 1000 \<and> 1000 < (unat d + 2) * r \<and> r = min 1000 (max 4 (unat rate))"
proof -
  let ?r = "clamp_rate rate"
  let ?d = "ucast (1000 div ?r - 1) :: u8"
  obtain s1 where s1: "rt_i2c_master_send (Some (chip_xfer c)) MPU9250_ADDR 0 [MPU_SAMPLE_RATE_REG, ?d] 2 s = Some (Return 2, s1)"
    "sensor_bus t (h @ write_items MPU9250_ADDR [MPU_SAMPLE_RATE_REG, ?d]) s1"
    using write_transfer [OF s an, of "[MPU_SAMPLE_RATE_REG, ?d]" 2] by auto
  obtain s2 where s2: "rt_i2c_master_send (Some (chip_xfer c)) MPU9250_ADDR 0 [MPU_CFG_REG, lpf_code (?r div 2)] 2 s1 = Some (Return 2, s2)"
    "sensor_bus t ((h @ write_items MPU9250_ADDR [MPU_SAMPLE_RATE_REG, ?d]) @ write_items MPU9250_ADDR [MPU_CFG_REG, lpf_code (?r div 2)]) s2"
    using write_transfer [OF s1(2) an, of "[MPU_CFG_REG, lpf_code (?r div 2)]" 2] by auto
  have c: "r = min 1000 (max 4 (unat rate))"
    unfolding r clamp_rate_def by (auto simp: Let_def word_less_nat_alt)
  let ?q = "1000 div r"
  have q: "1 \<le> ?q" "?q \<le> 250" using c div_le_mono2 [of 4 r 1000] by (auto simp: Suc_le_eq div_greater_zero_iff)
  have "unat (1000 div ?r) = ?q" by (simp add: r unat_div)
  then have "unat (1000 div ?r - 1) = ?q - 1" using q(1) by (simp add: unat_sub word_le_nat_alt)
  then have d: "unat ?d = ?q - 1" using q by (simp add: unsigned_ucast_eq take_bit_nat_eq_self)
  have "(unat ?d + 1) * r \<le> 1000" using d q(1) by simp
  moreover have "1000 < (unat ?d + 2) * r"
  proof -
    have "0 < r" using c by simp
    then have "1000 < ?q * r + r" using div_mult_mod_eq [of 1000 r] mod_less_divisor [of r 1000] by linarith
    moreover have "unat ?d + 2 = ?q + 1" using d q(1) by simp
    ultimately show ?thesis by simp
  qed
  ultimately show ?thesis using s1 s2 c
    by (intro exI [of _ ?d] exI [of _ s2]) (simp add: mpu9250_set_sample_rate_def mpu9250_set_lpf_def mpu9250_write_reg_def write_result_def Let_def)
qed

text \<open>
  With no sensor at the address \<open>mpu9250_get_gyroscope\<close> returns an error and stores nothing; the bus has carried
  the address, unanswered, and is free again.
\<close>

theorem sensor_absent:
  assumes s: "sensor_bus t h s" and a: "\<not> acks c (h @ [START]) (addr_w MPU9250_ADDR)"
  shows "\<exists>s1. mpu9250_get_gyroscope (Some (chip_xfer c)) buf s = Some (Return (- RT_ERROR, None), s1) \<and>
    sensor_bus t (h @ [START, BYTE (addr_w MPU9250_ADDR) False, STOP]) s1"
proof -
  obtain b w k where bwk: "s = (b, w, k)" by (metis surj_pair)
  have i: "bus_free t b k" "bus_retries b = 0" "bus_carried h w" using s by (simp_all add: sensor_bus_def bwk)
  let ?ms = "read_msgs MPU9250_ADDR MPU_GYRO_XOUTH_REG 6 buf"
  have can: "bus_can (bus_retries b) ?ms" using i(2) by (simp add: bus_can_def read_msgs_def plain_def msg_has_def)
  have x: "spec_xfer c 0 ?ms h = ((- RT_EIO, ?ms), h @ [START, BYTE (addr_w MPU9250_ADDR) False, STOP])"
    using spec_absent [of c h "hd ?ms" "tl ?ms"] a by (simp add: read_msgs_def msg_has_def addr_w_def)
  from board.transfer_free [OF i(3) can i(1), of c] show ?thesis
    unfolding i(2) x bwk by (auto simp: mpu9250_get_gyroscope_def mpu9250_read_regs_def read_result_def axes_def sensor_bus_def)
qed

section \<open>A chip that is a file of registers\<close>

datatype chip_mode = Off | Addressed | Select | Store | Fetch

fun chip_step :: "u16 \<Rightarrow> chip_mode \<times> u8 \<times> (u8 \<Rightarrow> u8) \<Rightarrow> i2c_item \<Rightarrow> chip_mode \<times> u8 \<times> (u8 \<Rightarrow> u8)" where
  "chip_step a (m, p, r) START = (Addressed, p, r)"
| "chip_step a (m, p, r) STOP = (Off, p, r)"
| "chip_step a (Addressed, p, r) (BYTE b k) = (if b = addr_w a then Select else if b = addr_r a then Fetch else Off, p, r)"
| "chip_step a (Select, p, r) (BYTE b k) = (Store, b, r)"
| "chip_step a (Store, p, r) (BYTE b k) = (Store, p + 1, r(p := b))"
| "chip_step a (Fetch, p, r) (BYTE b k) = (Fetch, p + 1, r)"
| "chip_step a (Off, p, r) (BYTE b k) = (Off, p, r)"

definition chip_after :: "u16 \<Rightarrow> (u8 \<Rightarrow> u8) \<Rightarrow> i2c_item list \<Rightarrow> chip_mode \<times> u8 \<times> (u8 \<Rightarrow> u8)" where
  "chip_after a r0 h = foldl (chip_step a) (Off, 0, r0) h"

definition chip_regs :: "u16 \<Rightarrow> (u8 \<Rightarrow> u8) \<Rightarrow> i2c_item list \<Rightarrow> u8 \<Rightarrow> u8" where
  "chip_regs a r0 h = snd (snd (chip_after a r0 h))"

definition register_chip :: "u16 \<Rightarrow> (u8 \<Rightarrow> u8) \<Rightarrow> chip" where
  "register_chip a r0 =
    \<lparr>acks = (\<lambda>h b. case fst (chip_after a r0 h) of
               Addressed \<Rightarrow> b = addr_w a \<or> b = addr_r a | Select \<Rightarrow> True | Store \<Rightarrow> True | _ \<Rightarrow> False),
     gives = (\<lambda>h. case chip_after a r0 h of (m, p, r) \<Rightarrow> r p)\<rparr>"

lemma addr_differ: "addr_r a \<noteq> addr_w a"
  using addr_bits [of a] by auto

lemma store_sent: "fst (foldl (chip_step a) (Store, p, r) (sent vs)) = Store"
  by (induction vs arbitrary: p r) auto

lemma fetch_sent: "foldl (chip_step a) (Fetch, p, r) (sent vs) = (Fetch, p + of_nat (length vs), r)"
  by (induction vs arbitrary: p) (auto simp: add.assoc)

lemma register_chip_answers: "answers (register_chip a r0) a (chip_regs a r0)"
proof -
  have "acks (register_chip a r0) (h @ [START]) (addr_w a) \<and>
     (\<forall>vs v. acks (register_chip a r0) (h @ START # sent (addr_w a # vs)) v) \<and>
     (\<forall>reg. acks (register_chip a r0) (h @ START # sent [addr_w a, reg] @ [START]) (addr_r a)) \<and>
     (\<forall>reg k. gives (register_chip a r0) (h @ START # sent [addr_w a, reg] @ START # sent (addr_r a # from_reg (chip_regs a r0 h) reg k)) =
       chip_regs a r0 h (reg + of_nat k))" for h
  proof -
    obtain m p r where h: "foldl (chip_step a) (Off, 0, r0) h = (m, p, r)" by (metis surj_pair)
    have w: "fst (foldl (chip_step a) (Select, p, r) (sent vs)) \<in> {Select, Store}" for vs
      by (cases vs) (simp_all add: store_sent)
    have "acks (register_chip a r0) (h @ START # sent (addr_w a # vs)) v" for vs v
      using w [of vs] by (auto simp: register_chip_def chip_after_def h)
    then show ?thesis
      by (simp add: register_chip_def chip_after_def chip_regs_def h fetch_sent addr_differ)
  qed
  then show ?thesis by (simp add: answers_def)
qed

lemma register_chip_keeps: "chip_regs a r0 (h @ write_items a [reg, v]) reg = v"
proof -
  obtain m p r where h: "foldl (chip_step a) (Off, 0, r0) h = (m, p, r)" by (metis surj_pair)
  then show ?thesis by (simp add: chip_regs_def chip_after_def write_items_def)
qed

section \<open>Witnesses\<close>

definition demo_bus :: "wires i2c_state" where
  "demo_bus = (blank_bus, quiet_wires, two_ready)"

lemma demo_sensor_bus: "sensor_bus 1 [] demo_bus"
  using blank_bus_free quiet_carried by (simp add: sensor_bus_def demo_bus_def)

definition demo_sensor :: chip where
  "demo_sensor = register_chip MPU9250_ADDR (\<lambda>r. if r = MPU_GYRO_XOUTH_REG then 0xFF else r)"

theorem gyroscope_reads_witness:
  "\<exists>s1. mpu9250_get_gyroscope (Some (chip_xfer demo_sensor)) (replicate 6 0) demo_bus =
    Some (Return (RT_EOK, Some (0xFF44, 0x4546, 0x4748)), s1)"
proof -
  let ?R = "chip_regs MPU9250_ADDR (\<lambda>r. if r = MPU_GYRO_XOUTH_REG then 0xFF else r)"
  have "from_reg (?R []) MPU_GYRO_XOUTH_REG 6 = [hi8 0xFF44, lo8 0xFF44, hi8 0x4546, lo8 0x4546, hi8 0x4748, lo8 0x4748]"
    by (simp add: from_reg_def chip_regs_def chip_after_def upt_rec hi8_def lo8_def)
  from gyroscope_reads [OF demo_sensor_bus register_chip_answers this] show ?thesis unfolding demo_sensor_def by blast
qed

theorem register_write_read_witness:
  "\<exists>s1 s2. mpu9250_write_reg (Some (chip_xfer demo_sensor)) MPU_CFG_REG 3 demo_bus = Some (Return RT_EOK, s1) \<and>
    mpu9250_read_reg (Some (chip_xfer demo_sensor)) MPU_CFG_REG 0 s1 = Some (Return (RT_EOK, [3]), s2)"
  using register_write_read [OF demo_sensor_bus register_chip_answers register_chip_keeps, of _ MPU_CFG_REG 3 0]
  unfolding demo_sensor_def by blast

theorem sample_rate_set_witness:
  "\<exists>s1. mpu9250_set_sample_rate (Some (chip_xfer demo_sensor)) 50 demo_bus = Some (Return RT_EOK, s1)"
  using sample_rate_set [OF demo_sensor_bus register_chip_answers refl, of _ 50] unfolding demo_sensor_def by blast

theorem sensor_absent_witness:
  "\<exists>s1. mpu9250_get_gyroscope (Some (chip_xfer \<lparr>acks = (\<lambda>h b. False), gives = (\<lambda>h. 0)\<rparr>)) [] demo_bus = Some (Return (- RT_ERROR, None), s1)"
  using sensor_absent [OF demo_sensor_bus, of "\<lparr>acks = (\<lambda>h b. False), gives = (\<lambda>h. 0)\<rparr>" "[]"] by auto

theorem niming_checksum_witness:
  "niming_frame (replicate 32 7) 1 [5] 1 = Some [0xAA, 0xAA, 1, 1, 5, 0x62]"
  using niming_checksum [of "replicate 32 7" 1 "[5]" 1] by simp

theorem imu_report_roundtrip_witness:
  "\<exists>f. usart1_report_imu (\<lambda>b out. out @ [b]) (replicate 32 7) 1 2 3 4 5 [] = Some f \<and> imu_of f = (1, 2, 3, 4, 5)"
  using imu_report_roundtrip [of "replicate 32 7" 1 2 3 4 5] by auto

end
