(* ===== verification/Gpio.thy ===== *)
theory Gpio
  imports Device
begin

text \<open>
  The registers behind the pins, those the program uses, and what the pin driver uses of the vendor's
  \<^verbatim>\<open>stm32f4xx_hal_gpio.c\<close>: setting up a pin field by field in the words of a port, reading and
  writing a pin, and the service of an external interrupt line. What the hardware does by itself is \<open>reg_write\<close>,
  \<open>write_BSRR\<close> and \<open>pad_change\<close>, after the reference manual of the chip: a port whose clock is off takes no
  write and reads as zero, a write to the set-reset register changes the output latch, and an edge on the port a line is
  connected to, in a direction that is enabled, makes the line pending.
\<close>

section \<open>Registers\<close>

datatype gpio_port = GPIOA | GPIOB | GPIOC | GPIOD | GPIOE | GPIOF | GPIOG | GPIOH | GPIOI | GPIOJ | GPIOK

fun GPIO_GET_INDEX :: "gpio_port \<Rightarrow> u32" where
  "GPIO_GET_INDEX GPIOA = 0"
| "GPIO_GET_INDEX GPIOB = 1"
| "GPIO_GET_INDEX GPIOC = 2"
| "GPIO_GET_INDEX GPIOD = 3"
| "GPIO_GET_INDEX GPIOE = 4"
| "GPIO_GET_INDEX GPIOF = 5"
| "GPIO_GET_INDEX GPIOG = 6"
| "GPIO_GET_INDEX GPIOH = 7"
| "GPIO_GET_INDEX GPIOI = 8"
| "GPIO_GET_INDEX GPIOJ = 9"
| "GPIO_GET_INDEX GPIOK = 10"

record gpio_regs =
  MODER :: u32
  OTYPER :: u32
  OSPEEDR :: u32
  PUPDR :: u32
  IDR :: u32
  ODR :: u32
  AFR :: "nat \<Rightarrow> u32"

record exti_regs =
  EXTICR :: "nat \<Rightarrow> u32"
  IMR :: u32
  EMR :: u32
  RTSR :: u32
  FTSR :: u32
  PR :: u32

record gpio_hw =
  gpio_clock :: "gpio_port \<Rightarrow> bool"
  syscfg_clock :: bool
  ports :: "gpio_port \<Rightarrow> gpio_regs"
  exti :: exti_regs

record gpio_init =
  Pin :: u32
  Mode :: u32
  Pull :: u32
  Speed :: u32
  Alternate :: u32

abbreviation (input) GPIO_MODE_INPUT :: u32 where "GPIO_MODE_INPUT \<equiv> 0"
abbreviation (input) GPIO_MODE_OUTPUT_PP :: u32 where "GPIO_MODE_OUTPUT_PP \<equiv> 1"
abbreviation (input) GPIO_MODE_OUTPUT_OD :: u32 where "GPIO_MODE_OUTPUT_OD \<equiv> 0x11"
abbreviation (input) GPIO_MODE_AF_PP :: u32 where "GPIO_MODE_AF_PP \<equiv> 2"
abbreviation (input) GPIO_MODE_AF_OD :: u32 where "GPIO_MODE_AF_OD \<equiv> 0x12"
abbreviation (input) GPIO_MODE_IT_RISING :: u32 where "GPIO_MODE_IT_RISING \<equiv> 0x10110000"
abbreviation (input) GPIO_MODE_IT_FALLING :: u32 where "GPIO_MODE_IT_FALLING \<equiv> 0x10210000"
abbreviation (input) GPIO_MODE_IT_RISING_FALLING :: u32 where "GPIO_MODE_IT_RISING_FALLING \<equiv> 0x10310000"
abbreviation (input) GPIO_NOPULL :: u32 where "GPIO_NOPULL \<equiv> 0"
abbreviation (input) GPIO_PULLUP :: u32 where "GPIO_PULLUP \<equiv> 1"
abbreviation (input) GPIO_PULLDOWN :: u32 where "GPIO_PULLDOWN \<equiv> 2"
abbreviation (input) GPIO_SPEED_FREQ_VERY_HIGH :: u32 where "GPIO_SPEED_FREQ_VERY_HIGH \<equiv> 3"

abbreviation (input) GPIO_MODE :: u32 where "GPIO_MODE \<equiv> 3"
abbreviation (input) EXTI_MODE :: u32 where "EXTI_MODE \<equiv> 0x10000000"
abbreviation (input) GPIO_MODE_IT :: u32 where "GPIO_MODE_IT \<equiv> 0x10000"
abbreviation (input) GPIO_MODE_EVT :: u32 where "GPIO_MODE_EVT \<equiv> 0x20000"
abbreviation (input) RISING_EDGE :: u32 where "RISING_EDGE \<equiv> 0x100000"
abbreviation (input) FALLING_EDGE :: u32 where "FALLING_EDGE \<equiv> 0x200000"
abbreviation (input) GPIO_OUTPUT_TYPE :: u32 where "GPIO_OUTPUT_TYPE \<equiv> 0x10"

section \<open>What the hardware does\<close>

definition reg_write :: "gpio_port \<Rightarrow> (gpio_regs \<Rightarrow> gpio_regs) \<Rightarrow> 'z gpio_hw_scheme \<Rightarrow> 'z gpio_hw_scheme" where
  "reg_write g f s = (if gpio_clock s g then s\<lparr>ports := (ports s)(g := f (ports s g))\<rparr> else s)"

definition write_BSRR :: "gpio_port \<Rightarrow> u32 \<Rightarrow> 'z gpio_hw_scheme \<Rightarrow> 'z gpio_hw_scheme" where
  "write_BSRR g v = reg_write g (\<lambda>r. r\<lparr>ODR := (ODR r AND NOT (drop_bit 16 v)) OR take_bit 16 v\<rparr>)"

definition read_IDR :: "gpio_port \<Rightarrow> 'z gpio_hw_scheme \<Rightarrow> u32" where
  "read_IDR g s = (if gpio_clock s g then IDR (ports s g) else 0)"

definition exti_source :: "nat \<Rightarrow> exti_regs \<Rightarrow> u32" where
  "exti_source n e = take_bit 4 (drop_bit (4 * (n mod 4)) (EXTICR e (n div 4)))"

definition edge :: "gpio_port \<Rightarrow> nat \<Rightarrow> bool \<Rightarrow> exti_regs \<Rightarrow> exti_regs" where
  "edge g n rising e =
    (if exti_source n e = GPIO_GET_INDEX g \<and> bit (if rising then RTSR e else FTSR e) n
     then e\<lparr>PR := set_bit n (PR e)\<rparr> else e)"

definition pad_level :: "'z gpio_hw_scheme \<Rightarrow> gpio_port \<Rightarrow> nat \<Rightarrow> bool" where
  "pad_level s g n = bit (IDR (ports s g)) n"

definition pad_change :: "gpio_port \<Rightarrow> nat \<Rightarrow> bool \<Rightarrow> 'z gpio_hw_scheme \<Rightarrow> 'z gpio_hw_scheme" where
  "pad_change g n v s =
    (if pad_level s g n = v then s
     else s\<lparr>ports := (ports s)(g := (ports s g)\<lparr>IDR := (if v then set_bit n else unset_bit n) (IDR (ports s g))\<rparr>),
            exti := edge g n v (exti s)\<rparr>)"

section \<open>Setting up a pin, \<^verbatim>\<open>HAL_GPIO_Init\<close>\<close>

text \<open>The recurring update: clear a mask at an offset of a register, then set a value there.\<close>

definition put_bits :: "u32 \<Rightarrow> nat \<Rightarrow> u32 \<Rightarrow> u32 \<Rightarrow> u32" where
  "put_bits m k v temp = (temp AND NOT (push_bit k m)) OR push_bit k v"

definition put_line :: "u32 \<Rightarrow> bool \<Rightarrow> u32 \<Rightarrow> u32" where
  "put_line iocurrent on reg = (let temp = reg AND NOT iocurrent in if on then temp OR iocurrent else temp)"

definition is_output :: "u32 \<Rightarrow> bool" where
  "is_output md \<longleftrightarrow>
    md = GPIO_MODE_OUTPUT_PP \<or> md = GPIO_MODE_AF_PP \<or> md = GPIO_MODE_OUTPUT_OD \<or> md = GPIO_MODE_AF_OD"

definition alternate_config :: "gpio_init \<Rightarrow> nat \<Rightarrow> gpio_regs \<Rightarrow> gpio_regs" where
  "alternate_config i position r =
    (if Mode i = GPIO_MODE_AF_PP \<or> Mode i = GPIO_MODE_AF_OD
     then r\<lparr>AFR := (AFR r)(position div 8 :=
            put_bits 0xF (position mod 8 * 4) (Alternate i) (AFR r (position div 8)))\<rparr>
     else r)"

definition mode_config :: "gpio_init \<Rightarrow> nat \<Rightarrow> gpio_regs \<Rightarrow> gpio_regs" where
  "mode_config i position r = r\<lparr>MODER := put_bits 3 (position * 2) (Mode i AND GPIO_MODE) (MODER r)\<rparr>"

definition output_config :: "gpio_init \<Rightarrow> nat \<Rightarrow> gpio_regs \<Rightarrow> gpio_regs" where
  "output_config i position r =
    (if is_output (Mode i)
     then r\<lparr>OSPEEDR := put_bits 3 (position * 2) (Speed i) (OSPEEDR r),
            OTYPER := put_bits 1 position (drop_bit 4 (Mode i AND GPIO_OUTPUT_TYPE)) (OTYPER r)\<rparr>
     else r)"

definition pull_config :: "gpio_init \<Rightarrow> nat \<Rightarrow> gpio_regs \<Rightarrow> gpio_regs" where
  "pull_config i position r = r\<lparr>PUPDR := put_bits 3 (position * 2) (Pull i) (PUPDR r)\<rparr>"

definition exti_config :: "gpio_port \<Rightarrow> gpio_init \<Rightarrow> nat \<Rightarrow> u32 \<Rightarrow> 'z gpio_hw_scheme \<Rightarrow> 'z gpio_hw_scheme" where
  "exti_config g i position iocurrent s =
    (if Mode i AND EXTI_MODE = EXTI_MODE
     then let e = exti s in
       s\<lparr>syscfg_clock := True,
         exti := e\<lparr>EXTICR := (EXTICR e)(position div 4 :=
                     put_bits 0xF (4 * (position mod 4)) (GPIO_GET_INDEX g) (EXTICR e (position div 4))),
                   IMR := put_line iocurrent (Mode i AND GPIO_MODE_IT = GPIO_MODE_IT) (IMR e),
                   EMR := put_line iocurrent (Mode i AND GPIO_MODE_EVT = GPIO_MODE_EVT) (EMR e),
                   RTSR := put_line iocurrent (Mode i AND RISING_EDGE = RISING_EDGE) (RTSR e),
                   FTSR := put_line iocurrent (Mode i AND FALLING_EDGE = FALLING_EDGE) (FTSR e)\<rparr>\<rparr>
     else s)"

definition init_position :: "gpio_port \<Rightarrow> gpio_init \<Rightarrow> nat \<Rightarrow> 'z gpio_hw_scheme \<Rightarrow> 'z gpio_hw_scheme" where
  "init_position g i position s =
    (let ioposition = push_bit position 1; iocurrent = Pin i AND ioposition in
     if iocurrent = ioposition
     then exti_config g i position iocurrent
       (reg_write g (pull_config i position \<circ> output_config i position \<circ> mode_config i position \<circ>
          alternate_config i position) s)
     else s)"

definition HAL_GPIO_Init :: "gpio_port \<Rightarrow> gpio_init \<Rightarrow> 'z gpio_hw_scheme \<Rightarrow> 'z gpio_hw_scheme" where
  "HAL_GPIO_Init g i s = fold (init_position g i) [0..<16] s"

section \<open>Reading, writing and serving a pin\<close>

text \<open>The states of a pin are an enumeration of one byte.\<close>

definition HAL_GPIO_ReadPin :: "gpio_port \<Rightarrow> u16 \<Rightarrow> 'z gpio_hw_scheme \<Rightarrow> u8" where
  "HAL_GPIO_ReadPin g pin s = (if read_IDR g s AND ucast pin \<noteq> 0 then 1 else 0)"

definition HAL_GPIO_WritePin :: "gpio_port \<Rightarrow> u16 \<Rightarrow> u8 \<Rightarrow> 'z gpio_hw_scheme \<Rightarrow> 'z gpio_hw_scheme" where
  "HAL_GPIO_WritePin g pin state =
    (if state \<noteq> 0 then write_BSRR g (ucast pin) else write_BSRR g (push_bit 16 (ucast pin)))"

text \<open>Writing a one to a bit of the pending register clears it.\<close>

definition EXTI_GET_IT :: "u16 \<Rightarrow> 'z gpio_hw_scheme \<Rightarrow> bool" where
  "EXTI_GET_IT line s \<longleftrightarrow> PR (exti s) AND ucast line \<noteq> 0"

definition EXTI_CLEAR_IT :: "u16 \<Rightarrow> 'z gpio_hw_scheme \<Rightarrow> 'z gpio_hw_scheme" where
  "EXTI_CLEAR_IT line s = s\<lparr>exti := (exti s)\<lparr>PR := PR (exti s) AND NOT (ucast line)\<rparr>\<rparr>"

section \<open>The fields of a pin\<close>

lemma u32_bit: "bit r m \<Longrightarrow> m < 32" for r :: u32
  using bit_imp_le_length [of r m] by simp

lemma bit_put_bits:
  "bit (put_bits m k v t) j \<longleftrightarrow>
    j < 32 \<and> (bit t j \<and> \<not> (k \<le> j \<and> bit m (j - k)) \<or> k \<le> j \<and> bit v (j - k))"
  by (auto simp: put_bits_def bit_simps)

text \<open>A field of \<open>w\<close> bits, written whole, is read back, and leaves fields beside it alone.\<close>

definition field :: "nat \<Rightarrow> nat \<Rightarrow> u32 \<Rightarrow> u32" where
  "field w k r = take_bit w (drop_bit k r)"

lemma field_put_same: "k + w \<le> 32 \<Longrightarrow> take_bit w v = v \<Longrightarrow> field w k (put_bits (mask w) k v r) = v"
proof (rule bit_eqI)
  fix j assume a: "k + w \<le> 32" "take_bit w v = v" "possible_bit TYPE(32 word) j"
  have "bit v j \<Longrightarrow> j < w" using a(2) by (metis bit_take_bit_iff)
  then show "bit (field w k (put_bits (mask w) k v r)) j = bit v j"
    using a by (auto simp: field_def bit_put_bits bit_simps)
qed

lemma field_put_other:
  assumes "k + w \<le> k' \<or> k' + w' \<le> k" "take_bit w v = v"
  shows "field w' k' (put_bits (mask w) k v r) = field w' k' r"
proof (rule bit_eqI)
  fix j assume a: "possible_bit TYPE(32 word) j"
  have "bit v i \<Longrightarrow> i < w" for i using assms(2) by (metis bit_take_bit_iff)
  from this [of "k' + j - k"] show "bit (field w' k' (put_bits (mask w) k v r)) j = bit (field w' k' r) j"
    using a assms(1) by (auto simp: field_def bit_put_bits bit_simps dest: u32_bit)
qed

lemma masks: "(1 :: u32) = mask 1" "(3 :: u32) = mask 2" "(15 :: u32) = mask 4"
  by (simp_all add: mask_eq_exp_minus_1)

lemma bit_put_line: "bit (put_line (push_bit n 1) b r) m \<longleftrightarrow> (if m = n \<and> n < 32 then b else bit r m)"
  by (auto simp: put_line_def Let_def bit_simps dest: u32_bit)

text \<open>Setting up one pin of a port runs the body for that position only.\<close>

lemma one_bit_and: "(push_bit n 1 AND push_bit m 1 = (push_bit m 1 :: u32)) \<longleftrightarrow> m = n" if "m < 32"
proof
  assume "push_bit n 1 AND push_bit m 1 = (push_bit m 1 :: u32)"
  then have "bit (push_bit n 1 AND push_bit m 1 :: u32) m = bit (push_bit m 1 :: u32) m" by simp
  then show "m = n" using that by (auto simp: bit_simps)
qed simp

lemma fold_one: "m \<in> set xs \<Longrightarrow> distinct xs \<Longrightarrow> (\<And>x s. x \<in> set xs \<Longrightarrow> x \<noteq> m \<Longrightarrow> f x s = s) \<Longrightarrow> fold f xs s = f m s"
proof (induction xs arbitrary: s)
  case (Cons a xs)
  have id: "fold f xs t = t" if "\<And>x s. x \<in> set xs \<Longrightarrow> f x s = s" for t
    using that by (induction xs) auto
  show ?case using Cons by (cases "a = m") (auto intro: id)
qed simp

lemma init_one:
  assumes "Pin i = push_bit n 1" "n < 16"
  shows "HAL_GPIO_Init g i s = exti_config g i n (push_bit n 1)
    (reg_write g (pull_config i n \<circ> output_config i n \<circ> mode_config i n \<circ> alternate_config i n) s)"
proof -
  have "HAL_GPIO_Init g i s = init_position g i n s"
    unfolding HAL_GPIO_Init_def
    by (rule fold_one) (use assms in \<open>auto simp: init_position_def Let_def one_bit_and [simplified]\<close>)
  then show ?thesis by (simp add: init_position_def assms)
qed

section \<open>A pin's configuration\<close>

text \<open>The fields of one pin, gathered from the words of its port, and what a set-up means for them.\<close>

record pin_config =
  c_mode :: u32
  c_type :: u32
  c_speed :: u32
  c_pull :: u32
  c_alternate :: u32

definition config_of :: "nat \<Rightarrow> gpio_regs \<Rightarrow> pin_config" where
  "config_of n r =
    \<lparr>c_mode = field 2 (n * 2) (MODER r), c_type = field 1 n (OTYPER r), c_speed = field 2 (n * 2) (OSPEEDR r),
     c_pull = field 2 (n * 2) (PUPDR r), c_alternate = field 4 (n mod 8 * 4) (AFR r (n div 8))\<rparr>"

definition configured :: "gpio_init \<Rightarrow> pin_config \<Rightarrow> pin_config" where
  "configured i c =
    (let c1 = c\<lparr>c_mode := Mode i AND 3, c_pull := Pull i\<rparr>;
         c2 = (if is_output (Mode i) then c1\<lparr>c_type := (if bit (Mode i) 4 then 1 else 0), c_speed := Speed i\<rparr> else c1)
     in if Mode i = GPIO_MODE_AF_PP \<or> Mode i = GPIO_MODE_AF_OD then c2\<lparr>c_alternate := Alternate i\<rparr> else c2)"

text \<open>The values fit their fields, as the checks of the vendor's code ask.\<close>

definition init_fits :: "gpio_init \<Rightarrow> bool" where
  "init_fits i \<longleftrightarrow> Pull i < 4 \<and> Speed i < 4 \<and> Alternate i < 16"

lemma fits_field: "v < 4 \<Longrightarrow> take_bit 2 v = v" "v < 16 \<Longrightarrow> take_bit 4 v = v" for v :: u32
  by (simp_all add: take_bit_eq_mod word_unat_eq_iff word_less_nat_alt unat_mod_distrib)

lemma low_bits: "take_bit 2 (w AND 3) = w AND 3" for w :: u32
  by (rule bit_eqI) (auto simp: masks(2) bit_simps)

lemma type_bit: "drop_bit 4 (w AND GPIO_OUTPUT_TYPE) = (if bit w 4 then 1 else 0)" for w :: u32
proof -
  have e: "bit (16 :: u32) j \<longleftrightarrow> j = 4" for j
    using bit_push_bit_iff [of 4 "1 :: u32" j] by (auto simp: bit_1_iff)
  show ?thesis by (rule bit_eqI) (auto simp: bit_simps e intro!: Nat.gr0I)
qed

lemma field2_put: "n < 16 \<Longrightarrow> take_bit 2 v = v \<Longrightarrow>
    field 2 (m * 2) (put_bits 3 (n * 2) v r) = (if m = n then v else field 2 (m * 2) r)"
  unfolding masks by (auto intro!: field_put_same field_put_other)

lemma field1_put: "n < 16 \<Longrightarrow> take_bit 1 v = v \<Longrightarrow>
    field 1 m (put_bits 1 n v r) = (if m = n then v else field 1 m r)"
  using field_put_same [of n 1 v r] field_put_other [of n 1 m 1 v r]
  by (cases "m = n") (auto simp: masks(1) [symmetric] nat_neq_iff Suc_le_eq simp del: One_nat_def)

lemma field4_put: "take_bit 4 v = v \<Longrightarrow> k < 8 \<Longrightarrow>
    field 4 (j * 4) (put_bits 15 (k * 4) v r) = (if j = k then v else field 4 (j * 4) r)"
  unfolding masks by (auto intro!: field_put_same field_put_other)

lemma set_regs:
  fixes i n r
  defines "r' \<equiv> (pull_config i n \<circ> output_config i n \<circ> mode_config i n \<circ> alternate_config i n) r"
  shows "MODER r' = put_bits 3 (n * 2) (Mode i AND 3) (MODER r)"
    and "OTYPER r' = (if is_output (Mode i) then put_bits 1 n (if bit (Mode i) 4 then 1 else 0) (OTYPER r) else OTYPER r)"
    and "OSPEEDR r' = (if is_output (Mode i) then put_bits 3 (n * 2) (Speed i) (OSPEEDR r) else OSPEEDR r)"
    and "PUPDR r' = put_bits 3 (n * 2) (Pull i) (PUPDR r)"
    and "AFR r' = (if Mode i = 2 \<or> Mode i = 0x12
      then (AFR r)(n div 8 := put_bits 15 (n mod 8 * 4) (Alternate i) (AFR r (n div 8))) else AFR r)"
    and "ODR r' = ODR r" and "IDR r' = IDR r"
  unfolding r'_def
  by (simp_all add: pull_config_def output_config_def mode_config_def alternate_config_def type_bit
    del: drop_bit_and)

lemma config_regs:
  assumes "init_fits i" "n < 16"
  shows "config_of m ((pull_config i n \<circ> output_config i n \<circ> mode_config i n \<circ> alternate_config i n) r) =
    (if m = n then configured i (config_of n r) else config_of m r)"
proof -
  have d: "m div 8 = n div 8 \<Longrightarrow> m mod 8 = n mod 8 \<Longrightarrow> m = n" by (metis div_mult_mod_eq)
  have t: "take_bit 1 (if b then 1 else 0 :: u32) = (if b then 1 else 0)" for b by simp
  have k: "n mod 8 < 8" by simp
  note puts = field2_put [OF assms(2) low_bits] field2_put [OF assms(2) fits_field(1)] field1_put [OF assms(2) t]
    field4_put [OF fits_field(2) k]
  note f = assms(1) [unfolded init_fits_def]
  show ?thesis
    unfolding config_of_def set_regs configured_def Let_def
    by (cases "m = n"; cases "is_output (Mode i)"; cases "Mode i = 2 \<or> Mode i = 0x12")
      (use f d in \<open>auto simp: puts simp del: One_nat_def\<close>)
qed

text \<open>
  Setting up a pin changes the fields of that pin, and of no other pin of any port; latches and pads stay.
\<close>

lemma init_configures:
  assumes "Pin i = push_bit n 1" "n < 16" "init_fits i" "gpio_clock s g"
  shows "config_of m (ports (HAL_GPIO_Init g i s) h) =
      (if h = g \<and> m = n then configured i (config_of n (ports s g)) else config_of m (ports s h))"
    and "ODR (ports (HAL_GPIO_Init g i s) h) = ODR (ports s h)"
    and "IDR (ports (HAL_GPIO_Init g i s) h) = IDR (ports s h)"
    and "gpio_clock (HAL_GPIO_Init g i s) = gpio_clock s"
proof -
  have p: "ports (HAL_GPIO_Init g i s) = (ports s)(g :=
      (pull_config i n \<circ> output_config i n \<circ> mode_config i n \<circ> alternate_config i n) (ports s g))"
    by (simp add: init_one [OF assms(1,2)] exti_config_def Let_def reg_write_def assms(4))
  show "config_of m (ports (HAL_GPIO_Init g i s) h) =
      (if h = g \<and> m = n then configured i (config_of n (ports s g)) else config_of m (ports s h))"
    using config_regs [OF assms(3,2), of m "ports s g"] by (auto simp: p simp del: comp_apply)
  show "ODR (ports (HAL_GPIO_Init g i s) h) = ODR (ports s h)" "IDR (ports (HAL_GPIO_Init g i s) h) = IDR (ports s h)"
    by (simp_all add: p pull_config_def output_config_def mode_config_def alternate_config_def)
  show "gpio_clock (HAL_GPIO_Init g i s) = gpio_clock s"
    by (simp add: init_one [OF assms(1,2)] exti_config_def Let_def reg_write_def)
qed

end
