(* ===== verification/Pin.thy ===== *)
theory Pin
  imports Gpio
begin

text \<open>
  The pin device of the board, \<^verbatim>\<open>drivers/drv_gpio.c\<close>, under the generic interface
  \<^verbatim>\<open>components/drivers/misc/pin.c\<close>. The hardware of the world holds the registers, the enabled interrupts,
  the table of attached callbacks and the callbacks called so far; a callback is the address of its function with its
  argument, and what it does is not part of the model. \<open>stack\<close> is what the uninitialised local of the
  set-up functions finds on the stack.
\<close>

section \<open>The pins of the package\<close>

text \<open>
  Port and bit of each pin of the package of 176 pins; the index of an entry is its position, and an unused
  one has none.
\<close>

definition pin_list :: "(gpio_port \<times> nat) option list" where
  "pin_list = [
    None, Some (GPIOE, 2), Some (GPIOE, 3), Some (GPIOE, 4), Some (GPIOE, 5), Some (GPIOE, 6), None, Some (GPIOI, 8),
    Some (GPIOC, 13), Some (GPIOC, 14), Some (GPIOC, 15), Some (GPIOI, 9), Some (GPIOI, 10), Some (GPIOI, 11), None,
    None, Some (GPIOF, 0), Some (GPIOF, 1), Some (GPIOF, 2), Some (GPIOF, 3), Some (GPIOF, 4), Some (GPIOF, 5), None,
    None, Some (GPIOF, 6), Some (GPIOF, 7), Some (GPIOF, 8), Some (GPIOF, 9), Some (GPIOF, 10), None, None, None,
    Some (GPIOC, 0), Some (GPIOC, 1), Some (GPIOC, 2), Some (GPIOC, 3), None, None, None, None, Some (GPIOA, 0),
    Some (GPIOA, 1), Some (GPIOA, 2), Some (GPIOH, 2), Some (GPIOH, 3), Some (GPIOH, 4), Some (GPIOH, 5),
    Some (GPIOA, 3), None, None, Some (GPIOA, 4), Some (GPIOA, 5), Some (GPIOA, 6), Some (GPIOA, 7), Some (GPIOC, 4),
    Some (GPIOC, 5), Some (GPIOB, 0), Some (GPIOB, 1), Some (GPIOB, 2), Some (GPIOF, 11), Some (GPIOF, 12), None,
    None, Some (GPIOF, 13), Some (GPIOF, 14), Some (GPIOF, 15), Some (GPIOG, 0), Some (GPIOG, 1), Some (GPIOE, 7),
    Some (GPIOE, 8), Some (GPIOE, 9), None, None, Some (GPIOE, 10), Some (GPIOE, 11), Some (GPIOE, 12),
    Some (GPIOE, 13), Some (GPIOE, 14), Some (GPIOE, 15), Some (GPIOB, 10), Some (GPIOB, 11), None, None,
    Some (GPIOH, 6), Some (GPIOH, 7), Some (GPIOH, 8), Some (GPIOH, 9), Some (GPIOH, 10), Some (GPIOH, 11),
    Some (GPIOH, 12), None, None, Some (GPIOB, 12), Some (GPIOB, 13), Some (GPIOB, 14), Some (GPIOB, 15),
    Some (GPIOD, 8), Some (GPIOD, 9), Some (GPIOD, 10), Some (GPIOD, 11), Some (GPIOD, 12), Some (GPIOD, 13), None,
    None, Some (GPIOD, 14), Some (GPIOD, 15), Some (GPIOG, 2), Some (GPIOG, 3), Some (GPIOG, 4), Some (GPIOG, 5),
    Some (GPIOG, 6), Some (GPIOG, 7), Some (GPIOG, 8), None, None, Some (GPIOC, 6), Some (GPIOC, 7), Some (GPIOC, 8),
    Some (GPIOC, 9), Some (GPIOA, 8), Some (GPIOA, 9), Some (GPIOA, 10), Some (GPIOA, 11), Some (GPIOA, 12),
    Some (GPIOA, 13), None, None, None, Some (GPIOH, 13), Some (GPIOH, 14), Some (GPIOH, 15), Some (GPIOI, 0),
    Some (GPIOI, 1), Some (GPIOI, 2), Some (GPIOI, 3), None, None, Some (GPIOA, 14), Some (GPIOA, 15),
    Some (GPIOC, 10), Some (GPIOC, 11), Some (GPIOC, 12), Some (GPIOD, 0), Some (GPIOD, 1), Some (GPIOD, 2),
    Some (GPIOD, 3), Some (GPIOD, 4), Some (GPIOD, 5), None, None, Some (GPIOD, 6), Some (GPIOD, 7), Some (GPIOG, 9),
    Some (GPIOG, 10), Some (GPIOG, 11), Some (GPIOG, 12), Some (GPIOG, 13), Some (GPIOG, 14), None, None,
    Some (GPIOG, 15), Some (GPIOB, 3), Some (GPIOB, 4), Some (GPIOB, 5), Some (GPIOB, 6), Some (GPIOB, 7), None,
    Some (GPIOB, 8), Some (GPIOB, 9), Some (GPIOE, 0), Some (GPIOE, 1), None, None, Some (GPIOI, 4), Some (GPIOI, 5),
    Some (GPIOI, 6), Some (GPIOI, 7)]"

definition get_pin :: "int \<Rightarrow> (gpio_port \<times> u16) option" where
  "get_pin pin =
    (let p = unat (word_of_int pin :: u8)
     in if p < length pin_list then map_option (\<lambda>(g, n). (g, push_bit n 1)) (pin_list ! p) else None)"

section \<open>The state\<close>

datatype irqn = EXTI0_IRQn | EXTI1_IRQn | EXTI2_IRQn | EXTI3_IRQn | EXTI4_IRQn | EXTI9_5_IRQn | EXTI15_10_IRQn

definition pin_irq_map :: "(u16 \<times> irqn) list" where
  "pin_irq_map =
    [(0x0001, EXTI0_IRQn), (0x0002, EXTI1_IRQn), (0x0004, EXTI2_IRQn), (0x0008, EXTI3_IRQn), (0x0010, EXTI4_IRQn),
     (0x0020, EXTI9_5_IRQn), (0x0040, EXTI9_5_IRQn), (0x0080, EXTI9_5_IRQn), (0x0100, EXTI9_5_IRQn),
     (0x0200, EXTI9_5_IRQn), (0x0400, EXTI15_10_IRQn), (0x0800, EXTI15_10_IRQn), (0x1000, EXTI15_10_IRQn),
     (0x2000, EXTI15_10_IRQn), (0x4000, EXTI15_10_IRQn), (0x8000, EXTI15_10_IRQn)]"

record pin_hdr =
  hdr_pin :: int
  hdr_mode :: u16
  hdr :: "nat option"
  hdr_args :: nat

definition no_hdr :: pin_hdr where
  "no_hdr = \<lparr>hdr_pin = - 1, hdr_mode = 0, hdr = None, hdr_args = 0\<rparr>"

record pin_hw = gpio_hw +
  nvic :: "irqn \<Rightarrow> bool"
  pin_irq_hdr_tab :: "pin_hdr list"
  called :: "(nat \<times> nat) list"
  stack :: gpio_init

definition GPIO_CLK_ENABLE :: "gpio_port \<Rightarrow> pin_hw \<Rightarrow> pin_hw" where
  "GPIO_CLK_ENABLE g s = s\<lparr>gpio_clock := (gpio_clock s)(g := True)\<rparr>"

section \<open>Levels and modes\<close>

definition stm32_pin_write :: "int \<Rightarrow> int \<Rightarrow> pin_hw \<Rightarrow> pin_hw" where
  "stm32_pin_write pin v s =
    (case get_pin pin of None \<Rightarrow> s | Some (g, b) \<Rightarrow> HAL_GPIO_WritePin g b (word_of_int v) s)"

abbreviation (input) PIN_LOW :: int where "PIN_LOW \<equiv> 0"
abbreviation (input) PIN_HIGH :: int where "PIN_HIGH \<equiv> 1"

definition stm32_pin_read :: "int \<Rightarrow> pin_hw \<Rightarrow> int" where
  "stm32_pin_read pin s =
    (case get_pin pin of
       None \<Rightarrow> PIN_LOW
     | Some (g, b) \<Rightarrow> uint (HAL_GPIO_ReadPin g b s))"

abbreviation (input) PIN_MODE_OUTPUT :: int where "PIN_MODE_OUTPUT \<equiv> 0"
abbreviation (input) PIN_MODE_INPUT :: int where "PIN_MODE_INPUT \<equiv> 1"
abbreviation (input) PIN_MODE_INPUT_PULLUP :: int where "PIN_MODE_INPUT_PULLUP \<equiv> 2"
abbreviation (input) PIN_MODE_INPUT_PULLDOWN :: int where "PIN_MODE_INPUT_PULLDOWN \<equiv> 3"
abbreviation (input) PIN_MODE_OUTPUT_OD :: int where "PIN_MODE_OUTPUT_OD \<equiv> 4"

definition mode_init :: "int \<Rightarrow> u16 \<Rightarrow> gpio_init \<Rightarrow> gpio_init" where
  "mode_init md b junk =
    (let i = junk\<lparr>Pin := ucast b, Mode := GPIO_MODE_OUTPUT_PP, Pull := GPIO_NOPULL,
               Speed := GPIO_SPEED_FREQ_VERY_HIGH\<rparr>
     in if md = PIN_MODE_OUTPUT then i\<lparr>Mode := GPIO_MODE_OUTPUT_PP, Pull := GPIO_NOPULL\<rparr>
        else if md = PIN_MODE_INPUT then i\<lparr>Mode := GPIO_MODE_INPUT, Pull := GPIO_NOPULL\<rparr>
        else if md = PIN_MODE_INPUT_PULLUP then i\<lparr>Mode := GPIO_MODE_INPUT, Pull := GPIO_PULLUP\<rparr>
        else if md = PIN_MODE_INPUT_PULLDOWN then i\<lparr>Mode := GPIO_MODE_INPUT, Pull := GPIO_PULLDOWN\<rparr>
        else if md = PIN_MODE_OUTPUT_OD then i\<lparr>Mode := GPIO_MODE_OUTPUT_OD, Pull := GPIO_NOPULL\<rparr>
        else i)"

definition stm32_pin_mode :: "int \<Rightarrow> int \<Rightarrow> pin_hw \<Rightarrow> pin_hw" where
  "stm32_pin_mode pin md s =
    (case get_pin pin of
       None \<Rightarrow> s
     | Some (g, b) \<Rightarrow> HAL_GPIO_Init g (mode_init md b (stack s)) (GPIO_CLK_ENABLE g s))"

section \<open>Interrupts of pins\<close>

definition bit2bitno :: "u32 \<Rightarrow> int" where
  "bit2bitno b = (case List.find (\<lambda>i. push_bit i 1 = b) [0..<32] of Some i \<Rightarrow> int i | None \<Rightarrow> - 1)"

definition get_pin_irq_map :: "u32 \<Rightarrow> (u16 \<times> irqn) option" where
  "get_pin_irq_map pinbit =
    (let mapindex = bit2bitno pinbit
     in if mapindex < 0 \<or> mapindex \<ge> int (length pin_irq_map) then None else Some (pin_irq_map ! nat mapindex))"

text \<open>The number of the pin is stored in 16 bits, the mode too; error numbers are positive here.\<close>

definition stm32_pin_attach_irq :: "int \<Rightarrow> u32 \<Rightarrow> nat option \<Rightarrow> nat \<Rightarrow> pin_hw \<Rightarrow> int \<times> pin_hw" where
  "stm32_pin_attach_irq pin md h a s =
    (case get_pin pin of
       None \<Rightarrow> (RT_ENOSYS, s)
     | Some (g, b) \<Rightarrow>
         let irqindex = bit2bitno (ucast b) in
         if irqindex < 0 \<or> irqindex \<ge> int (length pin_irq_map) then (RT_ENOSYS, s)
         else let e = pin_irq_hdr_tab s ! nat irqindex in
           if hdr_pin e = pin \<and> hdr e = h \<and> ucast (hdr_mode e) = md \<and> hdr_args e = a then (RT_EOK, s)
           else if hdr_pin e \<noteq> - 1 then (RT_EBUSY, s)
           else (RT_EOK, s\<lparr>pin_irq_hdr_tab := (pin_irq_hdr_tab s)[nat irqindex :=
             \<lparr>hdr_pin = sint (word_of_int pin :: u16), hdr_mode = ucast md, hdr = h, hdr_args = a\<rparr>]\<rparr>))"

definition stm32_pin_dettach_irq :: "int \<Rightarrow> pin_hw \<Rightarrow> int \<times> pin_hw" where
  "stm32_pin_dettach_irq pin s =
    (case get_pin pin of
       None \<Rightarrow> (RT_ENOSYS, s)
     | Some (g, b) \<Rightarrow>
         let irqindex = bit2bitno (ucast b) in
         if irqindex < 0 \<or> irqindex \<ge> int (length pin_irq_map) then (RT_ENOSYS, s)
         else if hdr_pin (pin_irq_hdr_tab s ! nat irqindex) = - 1 then (RT_EOK, s)
         else (RT_EOK, s\<lparr>pin_irq_hdr_tab := (pin_irq_hdr_tab s)[nat irqindex := no_hdr]\<rparr>))"

abbreviation (input) PIN_IRQ_MODE_RISING :: u16 where "PIN_IRQ_MODE_RISING \<equiv> 0"
abbreviation (input) PIN_IRQ_MODE_FALLING :: u16 where "PIN_IRQ_MODE_FALLING \<equiv> 1"
abbreviation (input) PIN_IRQ_MODE_RISING_FALLING :: u16 where "PIN_IRQ_MODE_RISING_FALLING \<equiv> 2"

definition irq_init :: "u16 \<Rightarrow> u16 \<Rightarrow> gpio_init \<Rightarrow> gpio_init" where
  "irq_init md b junk =
    (let i = junk\<lparr>Pin := ucast b, Pull := GPIO_NOPULL, Speed := GPIO_SPEED_FREQ_VERY_HIGH\<rparr>
     in if md = PIN_IRQ_MODE_RISING then i\<lparr>Mode := GPIO_MODE_IT_RISING, Pull := GPIO_PULLDOWN\<rparr>
        else if md = PIN_IRQ_MODE_FALLING then i\<lparr>Mode := GPIO_MODE_IT_FALLING, Pull := GPIO_PULLUP\<rparr>
        else if md = PIN_IRQ_MODE_RISING_FALLING
        then i\<lparr>Mode := GPIO_MODE_IT_RISING_FALLING, Pull := GPIO_NOPULL\<rparr>
        else i)"

abbreviation (input) PIN_IRQ_DISABLE :: u32 where "PIN_IRQ_DISABLE \<equiv> 0"
abbreviation (input) PIN_IRQ_ENABLE :: u32 where "PIN_IRQ_ENABLE \<equiv> 1"

definition set_irq :: "irqn \<Rightarrow> bool \<Rightarrow> pin_hw \<Rightarrow> pin_hw" where
  "set_irq q on s = s\<lparr>nvic := (nvic s)(q := on)\<rparr>"

definition stm32_pin_irq_enable :: "int \<Rightarrow> u32 \<Rightarrow> pin_hw \<Rightarrow> int \<times> pin_hw" where
  "stm32_pin_irq_enable pin enabled s =
    (case get_pin pin of
       None \<Rightarrow> (RT_ENOSYS, s)
     | Some (g, b) \<Rightarrow>
         if enabled = PIN_IRQ_ENABLE then
           let irqindex = bit2bitno (ucast b) in
           if irqindex < 0 \<or> irqindex \<ge> int (length pin_irq_map) then (RT_ENOSYS, s)
           else let e = pin_irq_hdr_tab s ! nat irqindex in
             if hdr_pin e = - 1 then (RT_ENOSYS, s)
             else (RT_EOK, set_irq (snd (pin_irq_map ! nat irqindex)) True
               (HAL_GPIO_Init g (irq_init (hdr_mode e) b (stack s)) (GPIO_CLK_ENABLE g s)))
         else if enabled = PIN_IRQ_DISABLE then
           (case get_pin_irq_map (ucast b) of
              None \<Rightarrow> (RT_ENOSYS, s)
            | Some (b', irqno) \<Rightarrow> (RT_EOK, set_irq irqno False s))
         else (RT_ENOSYS, s))"

section \<open>Service\<close>

definition pin_irq_hdr :: "int \<Rightarrow> pin_hw \<Rightarrow> pin_hw" where
  "pin_irq_hdr irqno s =
    (let e = pin_irq_hdr_tab s ! nat irqno
     in case hdr e of None \<Rightarrow> s | Some f \<Rightarrow> s\<lparr>called := called s @ [(f, hdr_args e)]\<rparr>)"

definition HAL_GPIO_EXTI_Callback :: "u16 \<Rightarrow> pin_hw \<Rightarrow> pin_hw" where
  "HAL_GPIO_EXTI_Callback pin = pin_irq_hdr (bit2bitno (ucast pin))"

definition HAL_GPIO_EXTI_IRQHandler :: "u16 \<Rightarrow> pin_hw \<Rightarrow> pin_hw" where
  "HAL_GPIO_EXTI_IRQHandler pin s =
    (if EXTI_GET_IT pin s
     then HAL_GPIO_EXTI_Callback pin (EXTI_CLEAR_IT pin s)
     else s)"

fun exti_pins :: "irqn \<Rightarrow> u16 list" where
  "exti_pins EXTI0_IRQn = [0x0001]"
| "exti_pins EXTI1_IRQn = [0x0002]"
| "exti_pins EXTI2_IRQn = [0x0004]"
| "exti_pins EXTI3_IRQn = [0x0008]"
| "exti_pins EXTI4_IRQn = [0x0010]"
| "exti_pins EXTI9_5_IRQn = [0x0020, 0x0040, 0x0080, 0x0100, 0x0200]"
| "exti_pins EXTI15_10_IRQn = [0x0400, 0x0800, 0x1000, 0x2000, 0x4000, 0x8000]"

definition EXTI_IRQHandler :: "irqn \<Rightarrow> pin_hw \<times> kernel \<Rightarrow> pin_hw \<times> kernel" where
  "EXTI_IRQHandler q x =
    (case apsnd rt_interrupt_enter x of
       (s, k) \<Rightarrow> apsnd rt_interrupt_leave (fold HAL_GPIO_EXTI_IRQHandler (exti_pins q) s, k))"

text \<open>The processor serves an enabled interrupt while one of its lines is pending and not masked.\<close>

definition signalled :: "irqn \<Rightarrow> pin_hw \<Rightarrow> bool" where
  "signalled q s \<longleftrightarrow>
    nvic s q \<and> (\<exists>b \<in> set (exti_pins q). PR (exti s) AND IMR (exti s) AND ucast b \<noteq> 0)"

section \<open>The generic interface, \<^verbatim>\<open>pin.c\<close>\<close>

text \<open>
  The operations of a driver, those of interrupts possibly null. The structure of the device around \<open>rt_device\<close>
  is the pointer to them.
\<close>

record 's pin_ops =
  pin_mode :: "int \<Rightarrow> int \<Rightarrow> 's \<Rightarrow> 's"
  pin_write :: "int \<Rightarrow> int \<Rightarrow> 's \<Rightarrow> 's"
  pin_read :: "int \<Rightarrow> 's \<Rightarrow> int"
  pin_attach_irq :: "(int \<Rightarrow> u32 \<Rightarrow> nat option \<Rightarrow> nat \<Rightarrow> 's \<Rightarrow> int \<times> 's) option"
  pin_detach_irq :: "(int \<Rightarrow> 's \<Rightarrow> int \<times> 's) option"
  pin_irq_enable :: "(int \<Rightarrow> u32 \<Rightarrow> 's \<Rightarrow> int \<times> 's) option"

definition stm32_pin_ops :: "pin_hw pin_ops" where
  "stm32_pin_ops =
    \<lparr>pin_mode = stm32_pin_mode, pin_write = stm32_pin_write, pin_read = stm32_pin_read,
     pin_attach_irq = Some stm32_pin_attach_irq, pin_detach_irq = Some stm32_pin_dettach_irq,
     pin_irq_enable = Some stm32_pin_irq_enable\<rparr>"

definition rt_pin_mode :: "'s pin_ops \<Rightarrow> int \<Rightarrow> int \<Rightarrow> 's \<Rightarrow> 's" where
  "rt_pin_mode ops pin md s = pin_mode ops pin md s"

definition rt_pin_write :: "'s pin_ops \<Rightarrow> int \<Rightarrow> int \<Rightarrow> 's \<Rightarrow> 's" where
  "rt_pin_write ops pin v s = pin_write ops pin v s"

definition rt_pin_read :: "'s pin_ops \<Rightarrow> int \<Rightarrow> 's \<Rightarrow> int" where
  "rt_pin_read ops pin s = pin_read ops pin s"

definition rt_pin_attach_irq :: "'s pin_ops \<Rightarrow> int \<Rightarrow> u32 \<Rightarrow> nat option \<Rightarrow> nat \<Rightarrow> 's \<Rightarrow> int \<times> 's" where
  "rt_pin_attach_irq ops pin md h a s =
    (case pin_attach_irq ops of Some attach \<Rightarrow> attach pin md h a s | None \<Rightarrow> (RT_ENOSYS, s))"

definition rt_pin_detach_irq :: "'s pin_ops \<Rightarrow> int \<Rightarrow> 's \<Rightarrow> int \<times> 's" where
  "rt_pin_detach_irq ops pin s =
    (case pin_detach_irq ops of Some detach \<Rightarrow> detach pin s | None \<Rightarrow> (RT_ENOSYS, s))"

definition rt_pin_irq_enable :: "'s pin_ops \<Rightarrow> int \<Rightarrow> u32 \<Rightarrow> 's \<Rightarrow> int \<times> 's" where
  "rt_pin_irq_enable ops pin on s =
    (case pin_irq_enable ops of Some enable \<Rightarrow> enable pin on s | None \<Rightarrow> (RT_ENOSYS, s))"

text \<open>As a device: the buffer is a structure of two 16-bit words, the pin and its status or mode.\<close>

definition pin_device_read :: "'s pin_ops \<Rightarrow> (u16 \<times> u16) option \<Rightarrow> nat \<Rightarrow> 's \<Rightarrow> nat \<times> (u16 \<times> u16) option" where
  "pin_device_read ops buffer nbytes s =
    (case buffer of
       None \<Rightarrow> (0, buffer)
     | Some (pin, status) \<Rightarrow>
         if nbytes \<noteq> 4 then (0, buffer) else (nbytes, Some (pin, word_of_int (pin_read ops (uint pin) s))))"

definition pin_device_write :: "'s pin_ops \<Rightarrow> (u16 \<times> u16) option \<Rightarrow> nat \<Rightarrow> 's \<Rightarrow> nat \<times> 's" where
  "pin_device_write ops buffer nbytes s =
    (case buffer of
       None \<Rightarrow> (0, s)
     | Some (pin, status) \<Rightarrow> if nbytes \<noteq> 4 then (0, s) else (nbytes, pin_write ops (uint pin) (uint status) s))"

definition pin_device_control :: "'s pin_ops \<Rightarrow> (u16 \<times> u16) option \<Rightarrow> 's \<Rightarrow> int \<times> 's" where
  "pin_device_control ops args s =
    (case args of None \<Rightarrow> (- RT_ERROR, s) | Some (pin, md) \<Rightarrow> (0, pin_mode ops (uint pin) (uint md) s))"

definition rt_device_pin_register ::
  "nat \<Rightarrow> string \<Rightarrow> 's pin_ops \<Rightarrow> (nat \<Rightarrow> 's pin_ops option rt_device) \<Rightarrow> nat object_store \<times> kernel \<Rightarrow>
   int \<times> (nat \<Rightarrow> 's pin_ops option rt_device) \<times> nat object_store \<times> kernel" where
  "rt_device_pin_register hw_pin name ops devs x =
    (0, snd (rt_device_register hw_pin name 0x003
      (devs(hw_pin := (devs hw_pin)\<lparr>rx_indicate := None, tx_complete := None, sub := Some ops\<rparr>)) x))"

section \<open>The table\<close>

definition pin_at :: "int \<Rightarrow> (gpio_port \<times> nat) option" where
  "pin_at pin =
    (let p = unat (word_of_int pin :: u8) in if p < length pin_list then pin_list ! p else None)"

lemma pins_below: "list_all (\<lambda>x. case x of None \<Rightarrow> True | Some y \<Rightarrow> snd y < 16) pin_list"
  by (simp add: pin_list_def)

lemma pin_at_below: "pin_at pin = Some (g, n) \<Longrightarrow> n < 16"
  using pins_below by (auto simp: pin_at_def Let_def list_all_length split: if_splits option.splits)

lemma get_pin_eq: "get_pin pin = map_option (\<lambda>(g, n). (g, push_bit n 1)) (pin_at pin)"
  by (simp add: get_pin_def pin_at_def Let_def)

lemma pins_apart: "distinct (List.map_filter id pin_list)"
  by code_simp

text \<open>The bit number of a pin, in the table of lines.\<close>

definition irq_of :: "nat \<Rightarrow> irqn" where
  "irq_of n = snd (pin_irq_map ! n)"

lemma line_pin: "n < 16 \<Longrightarrow> ucast (push_bit n 1 :: u16) = (push_bit n 1 :: u32)"
  by (rule bit_word_eqI) (auto simp: bit_simps simp del: push_bit_of_1)

lemma push_one_inj: "push_bit i 1 = (push_bit n 1 :: u32) \<longleftrightarrow> i = n" if "i < 32"
proof
  assume "push_bit i 1 = (push_bit n 1 :: u32)"
  then have "bit (push_bit i 1 :: u32) i = bit (push_bit n 1 :: u32) i" by simp
  then show "i = n" using that by (auto simp: bit_simps simp del: push_bit_of_1)
qed simp

lemma bitno: "n < 16 \<Longrightarrow> bit2bitno (ucast (push_bit n 1 :: u16)) = int n"
proof -
  assume n: "n < 16"
  have "List.find (\<lambda>i. push_bit i 1 = (push_bit n 1 :: u32)) [0..<32] = Some n"
    unfolding find_Some_iff using n by (intro exI [of _ n]) (auto simp: push_one_inj simp del: push_bit_of_1)
  then show ?thesis by (simp add: bit2bitno_def line_pin [OF n] del: push_bit_of_1)
qed

lemma length_irq_map [simp]: "length pin_irq_map = 16"
  by (simp add: pin_irq_map_def)

lemma irq_map_bits: "map fst pin_irq_map = map (\<lambda>n. push_bit n 1) [0..<16]"
  by code_simp

lemma irq_map: "n < 16 \<Longrightarrow> get_pin_irq_map (ucast (push_bit n 1 :: u16)) = Some (push_bit n 1, irq_of n)"
proof -
  assume n: "n < 16"
  have "map fst pin_irq_map ! n = push_bit n 1" using n unfolding irq_map_bits by simp
  then have "pin_irq_map ! n = (push_bit n 1, irq_of n)" using n by (simp add: irq_of_def prod_eq_iff del: push_bit_of_1)
  then show ?thesis unfolding get_pin_irq_map_def bitno [OF n] using n by (simp del: push_bit_of_1)
qed

end
