(* ===== verification/PinLines.thy ===== *)
theory PinLines
  imports Pin Sample
begin

text \<open>
  What the pin driver makes of the interrupt lines: a machine of sixteen independent lines and seven enables, which
  the registers, the table and the service routines implement over any run of calls, level changes and interrupts.
\<close>

section \<open>Runs of the driver\<close>

datatype pin_event =
    Attach int u32 "nat option" nat
  | Detach int
  | IrqEnable int u32
  | PinMode int int
  | PinWrite int int
  | Pad gpio_port nat bool
  | Serve irqn

fun pin_step :: "pin_event \<Rightarrow> pin_hw \<times> kernel \<Rightarrow> pin_hw \<times> kernel" where
  "pin_step (Attach pin md h a) x = apfst (snd \<circ> stm32_pin_attach_irq pin md h a) x"
| "pin_step (Detach pin) x = apfst (snd \<circ> stm32_pin_dettach_irq pin) x"
| "pin_step (IrqEnable pin enabled) x = apfst (snd \<circ> stm32_pin_irq_enable pin enabled) x"
| "pin_step (PinMode pin md) x = apfst (stm32_pin_mode pin md) x"
| "pin_step (PinWrite pin v) x = apfst (stm32_pin_write pin v) x"
| "pin_step (Pad g n v) x = apfst (pad_change g n v) x"
| "pin_step (Serve q) x = (if signalled q (fst x) then EXTI_IRQHandler q x else x)"

definition pin_run :: "pin_event list \<Rightarrow> pin_hw \<times> kernel \<Rightarrow> pin_hw \<times> kernel" where
  "pin_run = fold pin_step"

section \<open>The machine of lines\<close>

record exti_line =
  owner :: pin_hdr
  source :: u32
  unmasked :: bool
  rising :: bool
  falling :: bool
  pending :: bool
  level :: "gpio_port \<Rightarrow> bool"

record exti_spec =
  lines :: "exti_line list"
  enabled :: "irqn \<Rightarrow> bool"
  log :: "(nat \<times> nat) list"

fun irq_lines :: "irqn \<Rightarrow> nat list" where
  "irq_lines EXTI0_IRQn = [0]"
| "irq_lines EXTI1_IRQn = [1]"
| "irq_lines EXTI2_IRQn = [2]"
| "irq_lines EXTI3_IRQn = [3]"
| "irq_lines EXTI4_IRQn = [4]"
| "irq_lines EXTI9_5_IRQn = [5, 6, 7, 8, 9]"
| "irq_lines EXTI15_10_IRQn = [10, 11, 12, 13, 14, 15]"

definition upd_line :: "nat \<Rightarrow> (exti_line \<Rightarrow> exti_line) \<Rightarrow> exti_spec \<Rightarrow> exti_spec" where
  "upd_line n f x = x\<lparr>lines := (lines x)[n := f (lines x ! n)]\<rparr>"

definition arm :: "gpio_port \<Rightarrow> u32 \<Rightarrow> exti_line \<Rightarrow> exti_line" where
  "arm g md l =
    (if md AND EXTI_MODE = EXTI_MODE
     then l\<lparr>source := GPIO_GET_INDEX g, unmasked := md AND GPIO_MODE_IT = GPIO_MODE_IT,
            rising := md AND RISING_EDGE = RISING_EDGE, falling := md AND FALLING_EDGE = FALLING_EDGE\<rparr>
     else l)"

definition pad_line :: "gpio_port \<Rightarrow> bool \<Rightarrow> exti_line \<Rightarrow> exti_line" where
  "pad_line g v l =
    (if level l g = v then l
     else l\<lparr>level := (level l)(g := v),
            pending := pending l \<or> source l = GPIO_GET_INDEX g \<and> (if v then rising l else falling l)\<rparr>)"

definition line_calls :: "exti_line \<Rightarrow> (nat \<times> nat) list" where
  "line_calls l = (case hdr (owner l) of Some f \<Rightarrow> if pending l then [(f, hdr_args (owner l))] else [] | None \<Rightarrow> [])"

definition serve_line :: "nat \<Rightarrow> exti_spec \<Rightarrow> exti_spec" where
  "serve_line n x = (upd_line n (\<lambda>l. l\<lparr>pending := False\<rparr>) x)\<lparr>log := log x @ line_calls (lines x ! n)\<rparr>"

text \<open>\<open>junk\<close> is what the set-up of an interrupt leaves in the mode when it does not know the mode of the pin.\<close>

fun spec_step :: "gpio_init \<Rightarrow> pin_event \<Rightarrow> exti_spec \<Rightarrow> exti_spec" where
  "spec_step junk (Attach pin md h a) x =
    (case pin_at pin of None \<Rightarrow> x
     | Some (g, n) \<Rightarrow> upd_line n (\<lambda>l. if hdr_pin (owner l) = - 1
         then l\<lparr>owner := \<lparr>hdr_pin = sint (word_of_int pin :: u16), hdr_mode = ucast md, hdr = h, hdr_args = a\<rparr>\<rparr>
         else l) x)"
| "spec_step junk (Detach pin) x =
    (case pin_at pin of None \<Rightarrow> x
     | Some (g, n) \<Rightarrow> upd_line n (\<lambda>l. if hdr_pin (owner l) = - 1 then l else l\<lparr>owner := no_hdr\<rparr>) x)"
| "spec_step junk (IrqEnable pin on) x =
    (case pin_at pin of None \<Rightarrow> x
     | Some (g, n) \<Rightarrow>
         if on = 1 then
           (let e = owner (lines x ! n) in
            if hdr_pin e = - 1 then x
            else (upd_line n (arm g (Mode (irq_init (hdr_mode e) 0 junk))) x)
              \<lparr>enabled := (enabled x)(irq_of n := True)\<rparr>)
         else if on = 0 then x\<lparr>enabled := (enabled x)(irq_of n := False)\<rparr>
         else x)"
| "spec_step junk (PinMode pin md) x = x"
| "spec_step junk (PinWrite pin v) x = x"
| "spec_step junk (Pad g n v) x = (if n < 16 then upd_line n (pad_line g v) x else x)"
| "spec_step junk (Serve q) x =
    (if enabled x q \<and> (\<exists>n \<in> set (irq_lines q). pending (lines x ! n) \<and> unmasked (lines x ! n))
     then fold serve_line (irq_lines q) x
     else x)"

section \<open>The lines in the registers\<close>

definition line_of :: "pin_hw \<Rightarrow> nat \<Rightarrow> exti_line" where
  "line_of s n =
    \<lparr>owner = pin_irq_hdr_tab s ! n, source = exti_source n (exti s), unmasked = bit (IMR (exti s)) n,
     rising = bit (RTSR (exti s)) n, falling = bit (FTSR (exti s)) n, pending = bit (PR (exti s)) n,
     level = (\<lambda>g. pad_level s g n)\<rparr>"

definition spec_of :: "pin_hw \<Rightarrow> exti_spec" where
  "spec_of s = \<lparr>lines = map (line_of s) [0..<16], enabled = nvic s, log = called s\<rparr>"

definition table_ok :: "pin_hw \<Rightarrow> bool" where
  "table_ok s \<longleftrightarrow> length (pin_irq_hdr_tab s) = 16"

lemma upd_line_spec:
  assumes "n < 16" "line_of s' n = f (line_of s n)" "\<And>m. m < 16 \<Longrightarrow> m \<noteq> n \<Longrightarrow> line_of s' m = line_of s m"
    and "nvic s' = nvic s" "called s' = called s"
  shows "spec_of s' = upd_line n f (spec_of s)"
proof -
  have "map (line_of s') [0..<16] = (map (line_of s) [0..<16])[n := f (map (line_of s) [0..<16] ! n)]"
    by (rule nth_equalityI) (use assms in \<open>auto simp: nth_list_update\<close>)
  then show ?thesis using assms(4,5) by (simp add: spec_of_def upd_line_def)
qed

lemma lines_spec [simp]: "n < 16 \<Longrightarrow> lines (spec_of s) ! n = line_of s n"
  by (simp add: spec_of_def)

lemma spec_of_fields [simp]: "enabled (spec_of s) = nvic s" "log (spec_of s) = called s"
  by (simp_all add: spec_of_def)

lemma spec_of_same:
  "pin_irq_hdr_tab s' = pin_irq_hdr_tab s \<Longrightarrow> exti s' = exti s \<Longrightarrow> (\<And>g. IDR (ports s' g) = IDR (ports s g)) \<Longrightarrow>
   nvic s' = nvic s \<Longrightarrow> called s' = called s \<Longrightarrow> spec_of s' = spec_of s"
  by (simp add: spec_of_def line_of_def pad_level_def)

section \<open>The calls of the driver on the lines\<close>

lemma attach_at:
  "pin_at pin = Some (g, n) \<Longrightarrow> stm32_pin_attach_irq pin md h a s =
    (let e = pin_irq_hdr_tab s ! n in
     if hdr_pin e = pin \<and> hdr e = h \<and> ucast (hdr_mode e) = md \<and> hdr_args e = a then (RT_EOK, s)
     else if hdr_pin e \<noteq> - 1 then (RT_EBUSY, s)
     else (RT_EOK, s\<lparr>pin_irq_hdr_tab := (pin_irq_hdr_tab s)[n :=
       \<lparr>hdr_pin = sint (word_of_int pin :: u16), hdr_mode = ucast md, hdr = h, hdr_args = a\<rparr>]\<rparr>))"
  using pin_at_below [of pin g n]
  by (simp add: stm32_pin_attach_irq_def get_pin_eq bitno Let_def del: push_bit_of_1)

lemma detach_at:
  "pin_at pin = Some (g, n) \<Longrightarrow> stm32_pin_dettach_irq pin s =
    (if hdr_pin (pin_irq_hdr_tab s ! n) = - 1 then (RT_EOK, s)
     else (RT_EOK, s\<lparr>pin_irq_hdr_tab := (pin_irq_hdr_tab s)[n := no_hdr]\<rparr>))"
  using pin_at_below [of pin g n]
  by (simp add: stm32_pin_dettach_irq_def get_pin_eq bitno Let_def del: push_bit_of_1)

lemma enable_at:
  "pin_at pin = Some (g, n) \<Longrightarrow> stm32_pin_irq_enable pin on s =
    (if on = 1 then
       let e = pin_irq_hdr_tab s ! n in
       if hdr_pin e = - 1 then (RT_ENOSYS, s)
       else (RT_EOK, set_irq (irq_of n) True
         (HAL_GPIO_Init g (irq_init (hdr_mode e) (push_bit n 1) (stack s)) (GPIO_CLK_ENABLE g s)))
     else if on = 0 then (RT_EOK, set_irq (irq_of n) False s)
     else (RT_ENOSYS, s))"
  using pin_at_below [of pin g n]
  by (simp add: stm32_pin_irq_enable_def get_pin_eq bitno irq_map irq_of_def Let_def del: push_bit_of_1)

lemma init_keeps:
  "pin_irq_hdr_tab (HAL_GPIO_Init g i s) = pin_irq_hdr_tab s" "nvic (HAL_GPIO_Init g i s) = nvic s"
  "called (HAL_GPIO_Init g i s) = called s" "stack (HAL_GPIO_Init g i s) = stack s"
  if "Pin i = push_bit n 1" "n < 16" for s :: pin_hw
  by (simp_all add: init_one [OF that] exti_config_def Let_def reg_write_def)

lemma index_fits: "take_bit 4 (GPIO_GET_INDEX g) = GPIO_GET_INDEX g"
  by (cases g) simp_all

lemma init_lines:
  fixes s :: pin_hw
  assumes "Pin i = push_bit n 1" "n < 16"
  shows "line_of (HAL_GPIO_Init g i s) m = (if m = n then arm g (Mode i) (line_of s n) else line_of s m)"
proof -
  let ?c = "pull_config i n \<circ> output_config i n \<circ> mode_config i n \<circ> alternate_config i n"
  let ?t = "reg_write g ?c s"
  have d: "m div 4 = n div 4 \<Longrightarrow> m mod 4 = n mod 4 \<Longrightarrow> m = n" by (metis div_mult_mod_eq)
  have idr: "IDR (ports ?t h) = IDR (ports s h)" for h
    by (simp add: reg_write_def pull_config_def output_config_def mode_config_def alternate_config_def)
  have e: "exti ?t = exti s" "pin_irq_hdr_tab ?t = pin_irq_hdr_tab s" by (simp_all add: reg_write_def)
  have k: "n mod 4 < 8" by (rule less_trans [of _ 4]) simp_all
  have src: "take_bit 4 (drop_bit (4 * j) (put_bits 15 (4 * (n mod 4)) (GPIO_GET_INDEX g) r)) =
      (if j = n mod 4 then GPIO_GET_INDEX g else take_bit 4 (drop_bit (4 * j) r))" for j r
    using field4_put [OF index_fits k, of j g r] by (simp add: field_def mult.commute)
  show ?thesis
    unfolding init_one [OF assms] exti_config_def Let_def
    using d assms(2) by (auto simp: e idr line_of_def pad_level_def arm_def exti_source_def src bit_put_line
      simp del: push_bit_of_1 comp_apply)
qed

lemma clock_keeps [simp]:
  "line_of (GPIO_CLK_ENABLE g s) = line_of s" "pin_irq_hdr_tab (GPIO_CLK_ENABLE g s) = pin_irq_hdr_tab s"
  "nvic (GPIO_CLK_ENABLE g s) = nvic s" "called (GPIO_CLK_ENABLE g s) = called s" "stack (GPIO_CLK_ENABLE g s) = stack s"
  by (simp_all add: GPIO_CLK_ENABLE_def line_of_def pad_level_def fun_eq_iff)

lemma pin_minus_one: "pin_at (- 1) = None"
  by code_simp

lemma attach_spec:
  assumes "table_ok s"
  shows "spec_of (snd (stm32_pin_attach_irq pin md h a s)) = spec_step junk (Attach pin md h a) (spec_of s)"
proof (cases "pin_at pin")
  case None
  then show ?thesis by (simp add: stm32_pin_attach_irq_def get_pin_eq)
next
  case (Some x)
  then obtain g n where p: "pin_at pin = Some (g, n)" by (cases x) auto
  have n: "n < 16" using pin_at_below [OF p] .
  have ne: "pin \<noteq> - 1" using p pin_minus_one by auto
  show ?thesis
    unfolding spec_step.simps p option.case prod.case
    by (rule upd_line_spec [OF n])
      (use n ne assms in \<open>auto simp: attach_at [OF p] Let_def line_of_def pad_level_def table_ok_def\<close>)
qed

lemma detach_spec:
  assumes "table_ok s"
  shows "spec_of (snd (stm32_pin_dettach_irq pin s)) = spec_step junk (Detach pin) (spec_of s)"
proof (cases "pin_at pin")
  case None
  then show ?thesis by (simp add: stm32_pin_dettach_irq_def get_pin_eq)
next
  case (Some x)
  then obtain g n where p: "pin_at pin = Some (g, n)" by (cases x) auto
  have n: "n < 16" using pin_at_below [OF p] .
  show ?thesis
    unfolding spec_step.simps p option.case prod.case
    by (rule upd_line_spec [OF n])
      (use n assms in \<open>auto simp: detach_at [OF p] line_of_def pad_level_def table_ok_def\<close>)
qed

lemma irq_init_pin: "Pin (irq_init md (push_bit n 1) junk) = push_bit n 1" if "n < 16"
  using line_pin [OF that] by (simp add: irq_init_def Let_def)

lemma irq_init_mode: "Mode (irq_init md b junk) = Mode (irq_init md 0 junk)"
  by (simp add: irq_init_def Let_def)

lemma set_irq_spec: "spec_of (set_irq q v s) = (spec_of s)\<lparr>enabled := (nvic s)(q := v)\<rparr>"
proof -
  have "line_of (set_irq q v s) = line_of s" by (simp add: set_irq_def line_of_def pad_level_def fun_eq_iff)
  then show ?thesis by (simp add: spec_of_def) (simp add: set_irq_def)
qed

lemma enable_spec:
  "spec_of (snd (stm32_pin_irq_enable pin on s)) = spec_step (stack s) (IrqEnable pin on) (spec_of s)"
proof (cases "pin_at pin")
  case None
  then show ?thesis by (simp add: stm32_pin_irq_enable_def get_pin_eq)
next
  case (Some x)
  then obtain g n where p: "pin_at pin = Some (g, n)" by (cases x) auto
  have n: "n < 16" using pin_at_below [OF p] .
  let ?i = "irq_init (hdr_mode (pin_irq_hdr_tab s ! n)) (push_bit n 1) (stack s)"
  have "spec_of (HAL_GPIO_Init g ?i (GPIO_CLK_ENABLE g s)) = upd_line n (arm g (Mode ?i)) (spec_of s)"
    by (rule upd_line_spec [OF n]) (simp_all add: init_lines [OF irq_init_pin n] init_keeps [OF irq_init_pin n] n
      del: push_bit_of_1)
  moreover have "owner (line_of s n) = pin_irq_hdr_tab s ! n" by (simp add: line_of_def)
  ultimately show ?thesis
    using n by (simp add: enable_at [OF p] p Let_def set_irq_spec init_keeps [OF irq_init_pin n] upd_line_def
      irq_init_mode [of _ "push_bit n 1"] del: push_bit_of_1)
qed

lemma mode_init_pin: "Pin (mode_init md (push_bit n 1) junk) = push_bit n 1" if "n < 16"
  using line_pin [OF that] by (simp add: mode_init_def Let_def)

lemma mode_spec: "spec_of (stm32_pin_mode pin md s) = spec_of s"
proof (cases "pin_at pin")
  case None
  then show ?thesis by (simp add: stm32_pin_mode_def get_pin_eq)
next
  case (Some x)
  then obtain g n where p: "pin_at pin = Some (g, n)" by (cases x) auto
  have n: "n < 16" using pin_at_below [OF p] .
  let ?i = "mode_init md (push_bit n 1) (stack s)"
  have "Mode ?i AND EXTI_MODE \<noteq> EXTI_MODE" by (simp add: mode_init_def Let_def)
  then have "line_of (HAL_GPIO_Init g ?i (GPIO_CLK_ENABLE g s)) m = line_of s m" for m
    by (simp add: init_lines [OF mode_init_pin n] n arm_def del: push_bit_of_1)
  then show ?thesis
    by (simp add: stm32_pin_mode_def get_pin_eq p spec_of_def init_keeps [OF mode_init_pin n] n del: push_bit_of_1)
qed

lemma write_spec: "spec_of (stm32_pin_write pin v s) = spec_of s"
  by (rule spec_of_same)
    (simp_all add: stm32_pin_write_def HAL_GPIO_WritePin_def write_BSRR_def reg_write_def split: option.split prod.split)

lemma pad_spec: "spec_of (pad_change g n v s) = spec_step junk (Pad g n v) (spec_of s)" if "n < 16"
proof -
  have "line_of (pad_change g n v s) m = (if m = n then pad_line g v (line_of s n) else line_of s m)" if "m < 16" for m
    using that \<open>n < 16\<close>
    by (auto simp: pad_change_def pad_line_def line_of_def pad_level_def edge_def exti_source_def bit_simps fun_eq_iff)
  then show ?thesis
    using that by (simp del: lines_spec) (rule upd_line_spec, auto simp: pad_change_def)
qed

section \<open>Service of the lines\<close>

lemma test_line: "w AND push_bit n 1 \<noteq> 0 \<longleftrightarrow> bit w n" if "n < 16" for w :: u32
  using that by (simp add: and_exp_eq_0_iff_not_bit)

lemma irq_lines_below: "n \<in> set (irq_lines q) \<Longrightarrow> n < 16"
  by (cases q) auto

lemma exti_pins_eq: "exti_pins q = map (\<lambda>n. push_bit n 1) (irq_lines q)"
  by (cases q) simp_all

lemma irq_lines_of: "n < 16 \<Longrightarrow> n \<in> set (irq_lines (irq_of n))"
proof -
  have "list_all (\<lambda>n. n \<in> set (irq_lines (irq_of n))) [0..<16]" by code_simp
  then show "n < 16 \<Longrightarrow> n \<in> set (irq_lines (irq_of n))" by (auto simp: list_all_iff)
qed

lemma handler_table [simp]:
  "pin_irq_hdr_tab (HAL_GPIO_EXTI_IRQHandler b s) = pin_irq_hdr_tab s" "stack (HAL_GPIO_EXTI_IRQHandler b s) = stack s"
  by (simp_all add: HAL_GPIO_EXTI_IRQHandler_def HAL_GPIO_EXTI_Callback_def pin_irq_hdr_def Let_def EXTI_CLEAR_IT_def
    split: option.split)

lemma handler_spec:
  assumes n: "n < 16"
  shows "spec_of (HAL_GPIO_EXTI_IRQHandler (push_bit n 1) s) = serve_line n (spec_of s)"
proof (cases "bit (PR (exti s)) n")
  case False
  then have l: "\<not> pending (line_of s n)" by (simp add: line_of_def)
  have "spec_of s = upd_line n (\<lambda>l. l\<lparr>pending := False\<rparr>) (spec_of s)"
    by (rule upd_line_spec) (use n l in auto)
  moreover have "line_calls (line_of s n) = []" using l by (simp add: line_calls_def split: option.split)
  moreover have "HAL_GPIO_EXTI_IRQHandler (push_bit n 1) s = s"
    using False n by (simp add: HAL_GPIO_EXTI_IRQHandler_def EXTI_GET_IT_def line_pin test_line del: push_bit_of_1)
  ultimately show ?thesis using n by (simp add: serve_line_def)
next
  case True
  let ?t = "EXTI_CLEAR_IT (push_bit n 1) s"
  have p: "bit (PR (exti ?t)) m = (if m = n then False else bit (PR (exti s)) m)" for m
    by (auto simp: EXTI_CLEAR_IT_def line_pin [OF n] bit_simps dest: u32_bit simp del: push_bit_of_1)
  have f: "exti_source m (exti ?t) = exti_source m (exti s)" "IMR (exti ?t) = IMR (exti s)"
      "RTSR (exti ?t) = RTSR (exti s)" "FTSR (exti ?t) = FTSR (exti s)" "pin_irq_hdr_tab ?t = pin_irq_hdr_tab s"
      "pad_level ?t g m = pad_level s g m" "nvic ?t = nvic s" "called ?t = called s" for m g
    by (simp_all add: EXTI_CLEAR_IT_def exti_source_def pad_level_def)
  have e: "spec_of ?t = upd_line n (\<lambda>l. l\<lparr>pending := False\<rparr>) (spec_of s)"
    by (rule upd_line_spec [OF n]) (simp_all add: line_of_def p f del: push_bit_of_1)
  have tab: "pin_irq_hdr_tab ?t = pin_irq_hdr_tab s" by (simp add: EXTI_CLEAR_IT_def)
  have lg: "spec_of (s'\<lparr>called := c\<rparr>) = (spec_of s')\<lparr>log := c\<rparr>" for s' c
    by (simp add: spec_of_def line_of_def [abs_def] pad_level_def)
  have "HAL_GPIO_EXTI_IRQHandler (push_bit n 1) s = pin_irq_hdr (int n) ?t"
    using True n by (simp add: HAL_GPIO_EXTI_IRQHandler_def EXTI_GET_IT_def line_pin test_line HAL_GPIO_EXTI_Callback_def
      bitno [OF n, unfolded line_pin [OF n]] del: push_bit_of_1)
  moreover have "called ?t = called s" by (simp add: EXTI_CLEAR_IT_def)
  moreover have "pending (line_of s n)" "owner (line_of s n) = pin_irq_hdr_tab s ! n"
    using True by (simp_all add: line_of_def)
  ultimately show ?thesis
    using n by (simp add: pin_irq_hdr_def Let_def tab lg e serve_line_def line_calls_def upd_line_def
      del: push_bit_of_1 split: option.split)
qed

lemma handlers_spec:
  "\<forall>n \<in> set ns. n < 16 \<Longrightarrow>
   spec_of (fold HAL_GPIO_EXTI_IRQHandler (map (\<lambda>n. push_bit n 1) ns) s) = fold serve_line ns (spec_of s)"
  by (induction ns arbitrary: s) (simp_all add: handler_spec del: push_bit_of_1)

lemma fold_keeps: "(\<And>b s. f (g b s) = f s) \<Longrightarrow> f (fold g bs s) = f s"
  by (induction bs arbitrary: s) simp_all

lemma signalled_spec:
  "signalled q s \<longleftrightarrow> nvic s q \<and> (\<exists>n \<in> set (irq_lines q). pending (line_of s n) \<and> unmasked (line_of s n))"
proof -
  have "PR (exti s) AND IMR (exti s) AND ucast (push_bit n 1 :: u16) \<noteq> 0 \<longleftrightarrow>
      pending (line_of s n) \<and> unmasked (line_of s n)" if "n < 16" for n
    unfolding line_pin [OF that] and.assoc [symmetric] test_line [OF that] by (simp add: line_of_def bit_simps)
  then show ?thesis
    by (auto simp: signalled_def exti_pins_eq dest: irq_lines_below simp del: push_bit_of_1)
qed

lemma irq_kernel: "rt_interrupt_leave (rt_interrupt_enter k) = k"
  by (simp add: rt_interrupt_leave_def rt_interrupt_enter_def)

lemma serve_spec: "spec_of (fst (pin_step (Serve q) x)) = spec_step junk (Serve q) (spec_of (fst x))"
proof -
  have "(\<exists>n \<in> set (irq_lines q). pending (line_of (fst x) n) \<and> unmasked (line_of (fst x) n)) \<longleftrightarrow>
      (\<exists>n \<in> set (irq_lines q). pending (lines (spec_of (fst x)) ! n) \<and> unmasked (lines (spec_of (fst x)) ! n))"
    by (intro bex_cong) (simp_all add: irq_lines_below)
  moreover have "spec_of (fst (EXTI_IRQHandler q x)) = fold serve_line (irq_lines q) (spec_of (fst x))"
    using handlers_spec [of "irq_lines q"] irq_lines_below
    by (cases x) (auto simp: EXTI_IRQHandler_def exti_pins_eq)
  ultimately show ?thesis
    unfolding pin_step.simps spec_step.simps signalled_spec spec_of_fields by (simp only: if_distrib [of fst] if_distrib [of spec_of])
qed

section \<open>Any run\<close>

fun pad_ok :: "pin_event \<Rightarrow> bool" where
  "pad_ok (Pad g n v) \<longleftrightarrow> n < 16"
| "pad_ok _ \<longleftrightarrow> True"

lemma step_keeps:
  assumes "table_ok (fst x)"
  shows "table_ok (fst (pin_step e x))" "stack (fst (pin_step e x)) = stack (fst x)" "snd (pin_step e x) = snd x"
proof -
  have m: "pin_irq_hdr_tab (stm32_pin_mode pin md s) = pin_irq_hdr_tab s" "stack (stm32_pin_mode pin md s) = stack s"
    for pin md s
    using pin_at_below
    by (auto simp: stm32_pin_mode_def get_pin_eq init_keeps mode_init_pin simp del: push_bit_of_1 split: option.split)
  have i: "pin_irq_hdr_tab (snd (stm32_pin_irq_enable pin on s)) = pin_irq_hdr_tab s"
    "stack (snd (stm32_pin_irq_enable pin on s)) = stack s" for pin on s
  proof -
    have "pin_irq_hdr_tab (snd (stm32_pin_irq_enable pin on s)) = pin_irq_hdr_tab s \<and>
      stack (snd (stm32_pin_irq_enable pin on s)) = stack s"
    proof (cases "pin_at pin")
      case (Some y)
      then obtain g n where p: "pin_at pin = Some (g, n)" by (cases y) auto
      then show ?thesis
        using pin_at_below [OF p] by (simp add: enable_at [OF p] Let_def set_irq_def init_keeps irq_init_pin del: push_bit_of_1)
    qed (simp add: stm32_pin_irq_enable_def get_pin_eq)
    then show "pin_irq_hdr_tab (snd (stm32_pin_irq_enable pin on s)) = pin_irq_hdr_tab s"
      "stack (snd (stm32_pin_irq_enable pin on s)) = stack s" by simp_all
  qed
  have s: "pin_irq_hdr_tab (fst (EXTI_IRQHandler q x)) = pin_irq_hdr_tab (fst x)"
    "stack (fst (EXTI_IRQHandler q x)) = stack (fst x)" "snd (EXTI_IRQHandler q x) = snd x" for q
    by (cases x, simp add: EXTI_IRQHandler_def fold_keeps irq_kernel)+
  note d = stm32_pin_attach_irq_def stm32_pin_dettach_irq_def Let_def stm32_pin_write_def HAL_GPIO_WritePin_def
    write_BSRR_def reg_write_def pad_change_def
  show "table_ok (fst (pin_step e x))"
    using assms by (cases e) (auto simp: table_ok_def m i s d split: option.split prod.split)
  show "stack (fst (pin_step e x)) = stack (fst x)"
    by (cases e) (auto simp: m i s d split: option.split prod.split)
  show "snd (pin_step e x) = snd x" by (cases e) (auto simp: s)
qed

lemma step_spec:
  assumes "table_ok (fst x)" "pad_ok e"
  shows "spec_of (fst (pin_step e x)) = spec_step (stack (fst x)) e (spec_of (fst x))"
proof (cases e)
  case (Serve q)
  then show ?thesis by (simp only: serve_spec)
qed (use assms in \<open>simp_all add: attach_spec detach_spec enable_spec mode_spec write_spec pad_spec del: spec_step.simps\<close>,
     simp_all)

lemma run_spec:
  "table_ok (fst x) \<Longrightarrow> list_all pad_ok h \<Longrightarrow>
   spec_of (fst (pin_run h x)) = fold (spec_step (stack (fst x))) h (spec_of (fst x)) \<and>
   table_ok (fst (pin_run h x)) \<and> snd (pin_run h x) = snd x"
  by (induction h arbitrary: x) (simp_all add: pin_run_def step_spec step_keeps del: pin_step.simps spec_step.simps)

text \<open>
  C19: the registers, the table of callbacks and the service routines, over any run of attaching, detaching,
  enabling, mode and level calls on any pins, level changes of the pads and served interrupts, do what sixteen
  independent lines with seven enables do, callbacks called in the same order, and leave the kernel as it was.
\<close>

theorem pin_lines_implement:
  assumes "table_ok (fst x)" "list_all pad_ok h"
  shows "spec_of (fst (pin_run h x)) = fold (spec_step (stack (fst x))) h (spec_of (fst x)) \<and> snd (pin_run h x) = snd x"
  using run_spec [OF assms] by simp

definition idle_pins :: pin_hw where
  "idle_pins =
    \<lparr>gpio_clock = (\<lambda>_. False), syscfg_clock = False,
     ports = (\<lambda>_. \<lparr>MODER = 0, OTYPER = 0, OSPEEDR = 0, PUPDR = 0, IDR = 0, ODR = 0, AFR = (\<lambda>_. 0)\<rparr>),
     exti = \<lparr>EXTICR = (\<lambda>_. 0), IMR = 0, EMR = 0, RTSR = 0, FTSR = 0, PR = 0\<rparr>,
     nvic = (\<lambda>_. False), pin_irq_hdr_tab = replicate 16 no_hdr, called = [],
     stack = \<lparr>Pin = 0, Mode = 0, Pull = 0, Speed = 0, Alternate = 0\<rparr>\<rparr>"

text \<open>Two pins of one interrupt, 9 (port C, bit 14) and 10 (port C, bit 15): both edges are served in the order of the lines.\<close>

definition two_pins :: "pin_event list" where
  "two_pins =
    [Attach 9 0 (Some 1) 7, IrqEnable 9 1, Attach 10 2 (Some 2) 8, IrqEnable 10 1,
     Pad GPIOC 15 True, Pad GPIOC 14 True, Pad GPIOB 14 True, Serve EXTI15_10_IRQn]"

theorem pin_lines_implement_witness:
  "log (spec_of (fst (pin_run two_pins (idle_pins, zeroed)))) = [(1, 7), (2, 8)]"
proof -
  have "table_ok (fst (idle_pins, zeroed))" "list_all pad_ok two_pins"
    by (simp_all add: table_ok_def idle_pins_def two_pins_def)
  note r = pin_lines_implement [OF this]
  have "log (fold (spec_step (stack idle_pins)) two_pins (spec_of idle_pins)) = [(1, 7), (2, 8)]"
    by code_simp
  then show ?thesis using r by simp
qed

section \<open>An edge reaches the callback\<close>

text \<open>The line \<open>n\<close> waits for the edge to \<open>v\<close> of its pin on port \<open>g\<close>, to call \<open>f\<close> with \<open>a\<close>.\<close>

definition line_armed :: "gpio_port \<Rightarrow> nat \<Rightarrow> bool \<Rightarrow> nat \<Rightarrow> nat \<Rightarrow> exti_spec \<Rightarrow> bool" where
  "line_armed g n v f a x \<longleftrightarrow>
    (let l = lines x ! n in
     length (lines x) = 16 \<and> hdr_pin (owner l) \<noteq> - 1 \<and> hdr (owner l) = Some f \<and> hdr_args (owner l) = a \<and>
     source l = GPIO_GET_INDEX g \<and> unmasked l \<and> (if v then rising l else falling l) \<and> enabled x (irq_of n))"

definition off_line :: "nat \<Rightarrow> int \<Rightarrow> bool" where
  "off_line n pin \<longleftrightarrow> (case pin_at pin of None \<Rightarrow> True | Some (g, m) \<Rightarrow> m \<noteq> n)"

fun quiet :: "nat \<Rightarrow> pin_event \<Rightarrow> bool" where
  "quiet n (Detach pin) \<longleftrightarrow> off_line n pin"
| "quiet n (IrqEnable pin on) \<longleftrightarrow>
    (if on = 1 then off_line n pin
     else case pin_at pin of None \<Rightarrow> True | Some (g, m) \<Rightarrow> irq_of m \<noteq> irq_of n)"
| "quiet n _ \<longleftrightarrow> True"

lemma upd_line_nth:
  "lines (upd_line m f x) ! n = (if m = n \<and> n < length (lines x) then f (lines x ! n) else lines x ! n)"
  "length (lines (upd_line m f x)) = length (lines x)" "enabled (upd_line m f x) = enabled x" "log (upd_line m f x) = log x"
proof -
  show "lines (upd_line m f x) ! n = (if m = n \<and> n < length (lines x) then f (lines x ! n) else lines x ! n)"
    by (cases "m = n"; cases "n < length (lines x)") (simp_all add: upd_line_def not_less list_update_beyond)
qed (simp_all add: upd_line_def)

lemma serve_line_fields [simp]:
  "lines (serve_line m x) ! k = (if m = k \<and> k < length (lines x) then (lines x ! k)\<lparr>pending := False\<rparr> else lines x ! k)"
  "length (lines (serve_line m x)) = length (lines x)" "enabled (serve_line m x) = enabled x"
  "log (serve_line m x) = log x @ line_calls (lines x ! m)"
  by (simp_all add: serve_line_def upd_line_nth)

lemma serve_frame [simp]:
  "length (lines (fold serve_line ns x)) = length (lines x)" "enabled (fold serve_line ns x) = enabled x"
  by (induction ns arbitrary: x) simp_all

lemma serve_pending:
  "\<forall>n \<in> set ns. n < length (lines x) \<Longrightarrow>
   lines (fold serve_line ns x) ! n = (if n \<in> set ns then (lines x ! n)\<lparr>pending := False\<rparr> else lines x ! n)"
  by (induction ns arbitrary: x) auto

lemma serve_log:
  "distinct ns \<Longrightarrow> log (fold serve_line ns x) = log x @ concat (map (\<lambda>n. line_calls (lines x ! n)) ns)"
proof (induction ns arbitrary: x)
  case (Cons m ns)
  have "map (\<lambda>k. line_calls (lines (serve_line m x) ! k)) ns = map (\<lambda>k. line_calls (lines x ! k)) ns"
    using Cons.prems by auto
  then have "concat (map (\<lambda>k. line_calls (lines (serve_line m x) ! k)) ns) =
      concat (map (\<lambda>k. line_calls (lines x ! k)) ns)" by (simp only:)
  then show ?case using Cons by (simp del: serve_line_fields(1))
qed simp

lemma irq_lines_distinct: "distinct (irq_lines q)"
  by (cases q) simp_all

lemma armed_step:
  assumes a: "line_armed g n v f c x" "quiet n e" "n < 16"
  shows "line_armed g n v f c (spec_step junk e x)"
proof (cases e)
  case (Serve q)
  have "\<forall>n \<in> set (irq_lines q). n < length (lines x)" using a(1) irq_lines_below by (simp add: line_armed_def Let_def)
  from serve_pending [OF this, of n] show ?thesis
    using a by (simp add: Serve line_armed_def Let_def)
qed (use a in \<open>auto simp: line_armed_def Let_def upd_line_nth off_line_def pad_line_def split: option.split if_splits\<close>)

lemma armed_run:
  "line_armed g n v f c x \<Longrightarrow> list_all (quiet n) h \<Longrightarrow> n < 16 \<Longrightarrow> line_armed g n v f c (fold (spec_step junk) h x)"
  by (induction h arbitrary: x) (simp_all add: armed_step del: spec_step.simps)

lemma pin_low_bits: "pin_at pin \<noteq> None \<Longrightarrow> sint (word_of_int pin :: u16) \<noteq> - 1"
proof
  assume p: "pin_at pin \<noteq> None" and "sint (word_of_int pin :: u16) = - 1"
  then have "(word_of_int pin :: u16) = - 1" by (simp add: signed_word_eqI)
  moreover have "(word_of_int pin :: u8) = ucast (word_of_int pin :: u16)"
    by (rule bit_word_eqI) (simp add: bit_simps)
  moreover have "ucast (- 1 :: u16) = (- 1 :: u8)" by code_simp
  ultimately have "(word_of_int pin :: u8) = word_of_int (- 1)" by simp
  then have "pin_at pin = pin_at (- 1)" unfolding pin_at_def by (simp only:)
  then show False using p pin_minus_one by simp
qed

lemma attach_enable_arms:
  assumes p: "pin_at pin = Some (g, n)" and "length (lines x) = 16" "hdr_pin (owner (lines x ! n)) = - 1"
    "md = 0 \<or> md = 1 \<or> md = 2" "if v then md \<noteq> 1 else md \<noteq> 0"
  shows "line_armed g n v f a (spec_step junk (IrqEnable pin 1) (spec_step junk (Attach pin md (Some f) a) x))"
proof -
  have "sint (word_of_int pin :: u16) \<noteq> - 1" using pin_low_bits p by simp
  with pin_at_below [OF p] assms show ?thesis
    by (auto simp: line_armed_def Let_def upd_line_nth arm_def irq_init_def split: if_splits)
qed

lemma edge_served:
  assumes a: "line_armed g n v f a x" "n < 16" "level (lines x ! n) g \<noteq> v"
  shows "log (spec_step junk (Serve (irq_of n)) (spec_step junk (Pad g n v) x)) =
    log x @ concat (map (\<lambda>m. if m = n then [(f, a)] else line_calls (lines x ! m)) (irq_lines (irq_of n)))"
proof -
  let ?y = "upd_line n (pad_line g v) x" and ?q = "irq_of n"
  have l: "lines ?y ! n = (lines x ! n)\<lparr>level := (level (lines x ! n))(g := v), pending := True\<rparr>"
    using a by (auto simp: upd_line_nth pad_line_def line_armed_def Let_def)
  have o: "m \<noteq> n \<Longrightarrow> lines ?y ! m = lines x ! m" for m by (simp add: upd_line_nth)
  have "line_calls (lines ?y ! m) = (if m = n then [(f, a)] else line_calls (lines x ! m))" for m
    using a(1) by (cases "m = n") (simp_all add: l o line_calls_def line_armed_def Let_def)
  moreover have "\<exists>m \<in> set (irq_lines ?q). pending (lines ?y ! m) \<and> unmasked (lines ?y ! m)"
    using irq_lines_of [OF a(2)] a(1) l by (intro bexI [of _ n]) (simp_all add: line_armed_def Let_def)
  ultimately show ?thesis
    using a(1,2) by (simp add: serve_log [OF irq_lines_distinct] line_armed_def Let_def upd_line_nth(3,4))
qed

text \<open>
  C20: a callback attached to a free line and enabled is called for the next edge of the mode asked for, after any
  calls, level changes and interrupts of all pins in between, as long as none of them detaches a pin of the
  line (one with the same bit, on any port), enables or disables one, or disables a pin that shares the
  interrupt of the processor (the next property shows what these do). Pins of the line may ask for it and are refused,
  and it does not matter how often the callback was called before; the other callbacks of the shared interrupt are
  called for their own edges only, in the order of the lines.
\<close>

theorem edge_reaches_callback:
  assumes ok: "table_ok (fst x)" and p: "pin_at pin = Some (g, n)"
    and free: "hdr_pin (pin_irq_hdr_tab (fst x) ! n) = - 1" and md: "md = 0 \<or> md = 1 \<or> md = 2"
    and h: "list_all pad_ok h" "list_all (quiet n) h"
    and y: "y = pin_run ([Attach pin md (Some f) a, IrqEnable pin 1] @ h) x"
    and edge: "pad_level (fst y) g n \<noteq> v" "if v then md \<noteq> 1 else md \<noteq> 0"
  shows "called (fst (pin_run [Pad g n v, Serve (irq_of n)] y)) = called (fst y) @
    concat (map (\<lambda>m. if m = n then [(f, a)] else line_calls (line_of (fst y) m)) (irq_lines (irq_of n)))"
proof -
  let ?j = "stack (fst x)" and ?h = "[Attach pin md (Some f) a, IrqEnable pin 1] @ h"
  have n: "n < 16" using pin_at_below [OF p] .
  have "list_all pad_ok ?h" using h(1) by simp
  note r = run_spec [OF ok this, folded y]
  have "line_armed g n v f a (spec_step ?j (IrqEnable pin 1) (spec_step ?j (Attach pin md (Some f) a) (spec_of (fst x))))"
    by (rule attach_enable_arms [OF p _ _ md edge(2)]) (use free n in \<open>simp_all add: spec_of_def line_of_def\<close>)
  from armed_run [OF this h(2) n, of ?j] have arm: "line_armed g n v f a (spec_of (fst y))"
    using r by (simp del: spec_step.simps)
  have e: "list_all pad_ok [Pad g n v, Serve (irq_of n)]" using n by simp
  have "level (lines (spec_of (fst y)) ! n) g \<noteq> v" using edge(1) n by (simp add: line_of_def)
  note s = edge_served [OF arm n this]
  have "called (fst (pin_run [Pad g n v, Serve (irq_of n)] y)) =
      log (spec_step (stack (fst y)) (Serve (irq_of n)) (spec_step (stack (fst y)) (Pad g n v) (spec_of (fst y))))"
    using run_spec [OF _ e, of y] r by (simp del: spec_step.simps flip: spec_of_fields(2))
  then show ?thesis
    unfolding s using irq_lines_below [of _ "irq_of n"] by (auto intro!: arg_cong [of _ _ concat])
qed

text \<open>Pin 9 (port C, bit 14) watched for rising edges; a second pin may ask for its own line in the meantime.\<close>

abbreviation watch9 :: "pin_event list \<Rightarrow> pin_event list" where
  "watch9 h \<equiv> [Attach 9 0 (Some 1) 7, IrqEnable 9 1] @ h"

lemma watch9_spec:
  assumes "list_all pad_ok h"
  shows "table_ok (fst (pin_run (watch9 h) (idle_pins, zeroed)))"
    and "spec_of (fst (pin_run (watch9 h) (idle_pins, zeroed))) = fold (spec_step (stack idle_pins)) (watch9 h) (spec_of idle_pins)"
proof -
  have "table_ok (fst (idle_pins, zeroed))" by (simp add: table_ok_def idle_pins_def)
  from run_spec [OF this, of "watch9 h"] assms
  show "table_ok (fst (pin_run (watch9 h) (idle_pins, zeroed)))"
    "spec_of (fst (pin_run (watch9 h) (idle_pins, zeroed))) = fold (spec_step (stack idle_pins)) (watch9 h) (spec_of idle_pins)"
    by simp_all
qed

theorem edge_reaches_callback_witness:
  "called (fst (pin_run [Pad GPIOC 14 True, Serve EXTI15_10_IRQn]
     (pin_run (watch9 [Attach 10 2 (Some 2) 8]) (idle_pins, zeroed)))) = [(1, 7)]"
proof -
  let ?y = "pin_run (watch9 [Attach 10 2 (Some 2) 8]) (idle_pins, zeroed)"
  have p: "pin_at 9 = Some (GPIOC, 14)" "irq_of 14 = EXTI15_10_IRQn" by code_simp+
  have ok: "table_ok (fst (idle_pins, zeroed))" by (simp add: table_ok_def idle_pins_def)
  have q: "list_all pad_ok [Attach 10 2 (Some 2) 8]" "list_all (quiet 14) [Attach 10 2 (Some 2) 8]" by simp_all
  have f: "hdr_pin (pin_irq_hdr_tab (fst (idle_pins, zeroed)) ! 14) = - 1" by code_simp
  have "(\<lambda>x. (level (lines x ! 14) GPIOC, log x, map line_calls (lines x)))
      (fold (spec_step (stack idle_pins)) (watch9 [Attach 10 2 (Some 2) 8]) (spec_of idle_pins)) = (False, [], replicate 16 [])"
    by code_simp
  note e = this [folded watch9_spec(2) [OF q(1)]]
  have l: "line_calls (line_of (fst ?y) m) = []" if "m < 16" for m
    using arg_cong [OF e, of "\<lambda>z. snd (snd z) ! m"] that by (simp add: spec_of_def)
  have v: "pad_level (fst ?y) GPIOC 14 \<noteq> True" "called (fst ?y) = []" using e by (simp_all add: line_of_def)
  show ?thesis
    using edge_reaches_callback [OF ok p(1) f _ q refl v(1)] v(2) l by (simp add: p(2))
qed

lemma serve_silent:
  "\<forall>m \<in> set (irq_lines q). line_calls (lines t ! m) = [] \<Longrightarrow> log (spec_step junk (Serve q) t) = log t"
  by (simp add: serve_log [OF irq_lines_distinct])

text \<open>
  C21: disabling the interrupt of a pin silences every pin that shares it, and detaching a pin takes away the
  callback of the pin of another port with the same bit: either way the edge the callback waits for is not served.
\<close>

theorem neighbours_disturb:
  assumes ok: "table_ok (fst x)" and n: "n < 16" and arm: "line_armed g n v f a (spec_of (fst x))"
    and calm: "\<forall>m < 16. \<not> bit (PR (exti (fst x))) m" and edge: "pad_level (fst x) g n \<noteq> v"
    and other: "pin_at pin1 = Some (g1, n1)" "irq_of n1 = irq_of n" "pin_at pin2 = Some (g2, n)"
  shows "called (fst (pin_run [Pad g n v, Serve (irq_of n)] x)) = called (fst x) @ [(f, a)] \<and>
    called (fst (pin_run [IrqEnable pin1 0, Pad g n v, Serve (irq_of n)] x)) = called (fst x) \<and>
    called (fst (pin_run [Detach pin2, Pad g n v, Serve (irq_of n)] x)) = called (fst x)"
proof -
  let ?j = "stack (fst x)" and ?s = "spec_of (fst x)" and ?q = "irq_of n"
  have idle: "line_calls (lines ?s ! m) = []" if "m < 16" for m
    using that calm by (simp add: line_calls_def line_of_def split: option.split)
  have run: "called (fst (pin_run h x)) = log (fold (spec_step ?j) h ?s)" if "list_all pad_ok h" for h
    using run_spec [OF ok that] by (simp flip: spec_of_fields(2))
  have lv: "level (lines ?s ! n) g \<noteq> v" using edge n by (simp add: line_of_def)
  have c: "concat (map (\<lambda>m. if m = n then zs else line_calls (lines ?s ! m)) (irq_lines ?q)) = zs" for zs
  proof -
    have "concat (map (\<lambda>m. if m = n then zs else []) ms) = zs" if "distinct ms" "n \<in> set ms" for ms
      using that by (induction ms) (auto simp: concat_eq_Nil_conv)
    note z = this [OF irq_lines_distinct irq_lines_of [OF n]]
    have "map (\<lambda>m. if m = n then zs else line_calls (lines ?s ! m)) (irq_lines ?q) =
        map (\<lambda>m. if m = n then zs else []) (irq_lines ?q)"
      by (rule map_cong [OF refl]) (simp add: idle irq_lines_below del: lines_spec)
    then show ?thesis by (simp only: z)
  qed
  have "called (fst (pin_run [Pad g n v, Serve ?q] x)) = called (fst x) @ [(f, a)]"
    using run [of "[Pad g n v, Serve ?q]"] edge_served [OF arm n lv, of ?j] n c by (simp del: spec_step.simps(6,7))
  moreover have "called (fst (pin_run [IrqEnable pin1 0, Pad g n v, Serve ?q] x)) = called (fst x)"
    using run [of "[IrqEnable pin1 0, Pad g n v, Serve ?q]"] n by (simp add: other upd_line_nth)
  moreover have "called (fst (pin_run [Detach pin2, Pad g n v, Serve ?q] x)) = called (fst x)"
  proof -
    let ?t = "fold (spec_step ?j) [Detach pin2, Pad g n v] ?s"
    have o: "lines ?t ! m = lines ?s ! m" if "m \<noteq> n" for m using that by (simp add: other upd_line_nth)
    have "hdr (owner (lines ?t ! n)) = None"
      using arm n by (simp add: other upd_line_nth pad_line_def line_armed_def Let_def no_hdr_def)
    then have "line_calls (lines ?t ! m) = []" if "m \<in> set (irq_lines ?q)" for m
      using o [of m] idle [of m] irq_lines_below [OF that] by (cases "m = n") (simp_all add: line_calls_def)
    then have "log (spec_step ?j (Serve ?q) ?t) = log ?t" by (intro serve_silent ballI)
    moreover have "log ?t = called (fst x)" by (simp add: other upd_line_nth n)
    ultimately show ?thesis using run [of "[Detach pin2, Pad g n v, Serve ?q]"] n by simp
  qed
  ultimately show ?thesis by blast
qed

theorem neighbours_disturb_witness:
  "called (fst (pin_run [Pad GPIOC 14 True, Serve EXTI15_10_IRQn] (pin_run (watch9 []) (idle_pins, zeroed)))) = [(1, 7)] \<and>
   called (fst (pin_run [IrqEnable 155 0, Pad GPIOC 14 True, Serve EXTI15_10_IRQn]
     (pin_run (watch9 []) (idle_pins, zeroed)))) = [] \<and>
   called (fst (pin_run [Detach 157, Pad GPIOC 14 True, Serve EXTI15_10_IRQn]
     (pin_run (watch9 []) (idle_pins, zeroed)))) = []"
proof -
  let ?x = "pin_run (watch9 []) (idle_pins, zeroed)"
  have p: "pin_at 155 = Some (GPIOG, 12)" "pin_at 157 = Some (GPIOG, 14)" "irq_of 12 = irq_of 14"
    "irq_of 14 = EXTI15_10_IRQn" by code_simp+
  have "(\<lambda>x. (line_armed GPIOC 14 True 1 7 x, level (lines x ! 14) GPIOC, log x, map pending (lines x)))
      (fold (spec_step (stack idle_pins)) (watch9 []) (spec_of idle_pins)) = (True, False, [], replicate 16 False)"
    by code_simp
  note e = this [folded watch9_spec(2) [OF list.pred_inject(1)]]
  have x: "line_armed GPIOC 14 True 1 7 (spec_of (fst ?x))" "pad_level (fst ?x) GPIOC 14 \<noteq> True" "called (fst ?x) = []"
    using e by (simp_all add: line_of_def)
  have c: "\<forall>m < 16. \<not> bit (PR (exti (fst ?x))) m"
  proof (intro allI impI)
    fix m :: nat assume "m < 16"
    then show "\<not> bit (PR (exti (fst ?x))) m"
      using arg_cong [OF e, of "\<lambda>z. snd (snd (snd z)) ! m"] by (simp add: spec_of_def line_of_def)
  qed
  have n: "(14 :: nat) < 16" by simp
  note t = neighbours_disturb [OF watch9_spec(1) [OF list.pred_inject(1)] n x(1) c x(2) p(1,3,2), unfolded p(4) x(3)]
  show ?thesis using t by simp
qed

end
