(* ===== verification/PinCar.thy ===== *)
theory PinCar
  imports Car PinLines
begin

text \<open>
  The car on its pins: what the motor and beeper commands of the application write to the pin device arrives at
  the outputs of the ports, whatever the rest of the program does with other pins.
\<close>

section \<open>Output pins\<close>

text \<open>
  A set of outputs \<open>W\<close> in a state where they are \<open>ready\<close>: a write sets one of them and leaves the others.
\<close>

definition set_level :: "nat \<times> bool \<Rightarrow> (nat \<Rightarrow> bool) \<Rightarrow> nat \<Rightarrow> bool" where
  "set_level w f = f(fst w := snd w)"

lemma set_level_cong: "\<forall>q \<in> W. f q = g q \<Longrightarrow> \<forall>q \<in> W. fold set_level ws f q = fold set_level ws g q"
proof (induction ws arbitrary: f g)
  case (Cons w ws)
  have "\<forall>q \<in> W. set_level w f q = set_level w g q" using Cons.prems by (simp add: set_level_def)
  from Cons.IH [OF this] show ?case by simp
qed simp

locale output_pins =
  fixes W :: "nat set" and ready :: "'s \<Rightarrow> bool" and put :: "nat \<times> bool \<Rightarrow> 's \<Rightarrow> 's" and out :: "'s \<Rightarrow> nat \<Rightarrow> bool"
  assumes put_out: "ready s \<Longrightarrow> fst w \<in> W \<Longrightarrow> q \<in> W \<Longrightarrow> out (put w s) q = set_level w (out s) q"
    and put_ready: "ready s \<Longrightarrow> fst w \<in> W \<Longrightarrow> ready (put w s)"
begin

lemma puts_out:
  "ready s \<Longrightarrow> \<forall>w \<in> set ws. fst w \<in> W \<Longrightarrow>
   ready (fold put ws s) \<and> (\<forall>q \<in> W. out (fold put ws s) q = fold set_level ws (out s) q)"
proof (induction ws arbitrary: s)
  case (Cons w ws)
  have "\<forall>q \<in> W. out (put w s) q = set_level w (out s) q" using Cons.prems by (simp add: put_out)
  from set_level_cong [OF this] show ?case using Cons.prems Cons.IH [of "put w s"] by (simp add: put_ready)
qed simp

end

section \<open>The wired pins\<close>

text \<open>The pins of the two motor bridges and of the beeper.\<close>

definition wired :: "nat set" where
  "wired = {154, 155, 156, 157, 167}"

definition level_of :: "bool \<Rightarrow> int" where
  "level_of v = (if v then PIN_HIGH else PIN_LOW)"

abbreviation board_write :: "nat \<Rightarrow> bool \<Rightarrow> pin_hw \<Rightarrow> pin_hw" where
  "board_write p v \<equiv> Pin.rt_pin_write stm32_pin_ops (int p) (level_of v)"

abbreviation output_mode :: "nat \<Rightarrow> pin_hw \<Rightarrow> pin_hw" where
  "output_mode p \<equiv> rt_pin_mode stm32_pin_ops (int p) PIN_MODE_OUTPUT"

text \<open>\<^verbatim>\<open>drv_l298n.c\<close> and \<^verbatim>\<open>beep_init\<close>.\<close>

definition hw_l298n_init :: "pin_hw \<Rightarrow> pin_hw" where
  "hw_l298n_init s =
    fold (\<lambda>p. board_write p True) [motor_in_1, motor_in_2, motor_in_3, motor_in_4]
      (fold output_mode [motor_in_1, motor_in_2, motor_in_3, motor_in_4] s)"

definition beep_init :: "pin_hw \<Rightarrow> pin_hw" where
  "beep_init s = output_mode BEEP s"

text \<open>The output latch of a pin, and a pin that drives it: clock on, mode output, push-pull.\<close>

definition pin_out :: "pin_hw \<Rightarrow> nat \<Rightarrow> bool" where
  "pin_out s p = (case pin_at (int p) of None \<Rightarrow> False | Some (g, n) \<Rightarrow> bit (ODR (ports s g)) n)"

definition drives :: "pin_hw \<Rightarrow> nat \<Rightarrow> bool" where
  "drives s p \<longleftrightarrow> (case pin_at (int p) of None \<Rightarrow> False
    | Some (g, n) \<Rightarrow> gpio_clock s g \<and> field 2 (n * 2) (MODER (ports s g)) = 1 \<and> field 1 n (OTYPER (ports s g)) = 0)"

lemma wired_pins:
  "pin_at 154 = Some (GPIOG, 11)" "pin_at 155 = Some (GPIOG, 12)" "pin_at 156 = Some (GPIOG, 13)"
  "pin_at 157 = Some (GPIOG, 14)" "pin_at 167 = Some (GPIOB, 8)"
  by code_simp+

lemma wired_at: "p \<in> wired \<Longrightarrow> \<exists>g n. pin_at (int p) = Some (g, n) \<and> n < 16"
  unfolding wired_def by (auto simp: wired_pins)

lemma wired_apart: "p \<in> wired \<Longrightarrow> q \<in> wired \<Longrightarrow> pin_at (int p) = pin_at (int q) \<longleftrightarrow> p = q"
  unfolding wired_def by (auto simp: wired_pins)

section \<open>Calls on the ports\<close>

lemma write_latch:
  assumes p: "pin_at pin = Some (g, n)" and "n < 16" "m < 16"
  shows "bit (ODR (ports (stm32_pin_write pin v s) h)) m \<longleftrightarrow>
    (if h = g \<and> m = n \<and> gpio_clock s g then (word_of_int v :: u8) \<noteq> 0 else bit (ODR (ports s h)) m)"
proof -
  have u: "unsigned (push_bit n 1 :: u16) = (push_bit n 1 :: u32)" using line_pin [OF assms(2)] .
  show ?thesis
    using assms(2,3) unfolding stm32_pin_write_def get_pin_eq p
    by (auto simp: HAL_GPIO_WritePin_def write_BSRR_def reg_write_def u bit_simps simp del: push_bit_of_1)
qed

lemma init_modes:
  fixes s :: pin_hw
  assumes "Pin i = push_bit n 1" "n < 16" "gpio_clock s g"
  shows "field 2 (m * 2) (MODER (ports (HAL_GPIO_Init g i s) h)) =
      (if h = g \<and> m = n then Mode i AND 3 else field 2 (m * 2) (MODER (ports s h)))"
    and "field 1 m (OTYPER (ports (HAL_GPIO_Init g i s) h)) =
      (if h = g \<and> m = n \<and> is_output (Mode i) then if bit (Mode i) 4 then 1 else 0
       else field 1 m (OTYPER (ports s h)))"
    and "ODR (ports (HAL_GPIO_Init g i s) h) = ODR (ports s h)"
    and "gpio_clock (HAL_GPIO_Init g i s) = gpio_clock s"
proof -
  have p: "ports (HAL_GPIO_Init g i s) = (ports s)(g :=
      (pull_config i n \<circ> output_config i n \<circ> mode_config i n \<circ> alternate_config i n) (ports s g))"
    by (simp add: init_one [OF assms(1,2)] exti_config_def Let_def reg_write_def assms(3))
  have t: "take_bit 1 (if b then 1 else 0 :: u32) = (if b then 1 else 0)" for b by simp
  show "field 2 (m * 2) (MODER (ports (HAL_GPIO_Init g i s) h)) =
      (if h = g \<and> m = n then Mode i AND 3 else field 2 (m * 2) (MODER (ports s h)))"
    using set_regs(1) [of i n "ports s g"] by (auto simp: p field2_put [OF assms(2) low_bits] simp del: comp_apply)
  show "field 1 m (OTYPER (ports (HAL_GPIO_Init g i s) h)) =
      (if h = g \<and> m = n \<and> is_output (Mode i) then if bit (Mode i) 4 then 1 else 0
       else field 1 m (OTYPER (ports s h)))"
    using set_regs(2) [of i n "ports s g"] by (auto simp: p field1_put [OF assms(2) t] simp del: comp_apply One_nat_def)
  show "ODR (ports (HAL_GPIO_Init g i s) h) = ODR (ports s h)"
    using set_regs(6) [of i n "ports s g"] by (simp add: p del: comp_apply)
  show "gpio_clock (HAL_GPIO_Init g i s) = gpio_clock s"
    by (simp add: init_one [OF assms(1,2)] exti_config_def Let_def reg_write_def)
qed

text \<open>What set-ups of a pin, whichever, mean for the outputs.\<close>

definition same_out :: "gpio_port \<Rightarrow> nat \<Rightarrow> pin_hw \<Rightarrow> pin_hw \<Rightarrow> bool" where
  "same_out g n s t \<longleftrightarrow> bit (ODR (ports t g)) n = bit (ODR (ports s g)) n \<and> (gpio_clock s g \<longrightarrow> gpio_clock t g) \<and>
    field 2 (n * 2) (MODER (ports t g)) = field 2 (n * 2) (MODER (ports s g)) \<and>
    field 1 n (OTYPER (ports t g)) = field 1 n (OTYPER (ports s g))"

lemma same_out_drives:
  assumes "pin_at (int p) = Some (g, n)" "same_out g n s t"
  shows "pin_out t p = pin_out s p" "drives s p \<Longrightarrow> drives t p"
  using assms by (auto simp: same_out_def pin_out_def drives_def)

lemma setup_other:
  assumes "Pin i = push_bit n 1" "n < 16" "(h, m) \<noteq> (g, n)"
  shows "same_out h m s (HAL_GPIO_Init g i (GPIO_CLK_ENABLE g s))"
proof -
  have c: "gpio_clock (GPIO_CLK_ENABLE g s) g" "ports (GPIO_CLK_ENABLE g s) = ports s"
    "gpio_clock s h \<Longrightarrow> gpio_clock (GPIO_CLK_ENABLE g s) h" by (simp_all add: GPIO_CLK_ENABLE_def)
  show ?thesis
    using assms(3) by (auto simp: same_out_def init_modes [OF assms(1,2) c(1)] c simp del: One_nat_def)
qed

fun foreign :: "pin_event \<Rightarrow> bool" where
  "foreign (PinMode pin md) \<longleftrightarrow> (\<forall>w \<in> wired. pin_at pin \<noteq> pin_at (int w))"
| "foreign (PinWrite pin v) \<longleftrightarrow> (\<forall>w \<in> wired. pin_at pin \<noteq> pin_at (int w))"
| "foreign (IrqEnable pin on) \<longleftrightarrow> (\<forall>w \<in> wired. pin_at pin \<noteq> pin_at (int w))"
| "foreign _ \<longleftrightarrow> True"

lemma same_out_refl: "same_out g n s s"
  by (simp add: same_out_def)

lemma foreign_same_out:
  assumes w: "w \<in> wired" "pin_at (int w) = Some (h, m)" and f: "foreign e"
  shows "same_out h m (fst x) (fst (pin_step e x))"
proof -
  have m: "m < 16" using pin_at_below [OF w(2)] .
  have ne: "(h, m) \<noteq> (g, n)" if "pin_at pin = Some (g, n)" "\<forall>w \<in> wired. pin_at pin \<noteq> pin_at (int w)" for pin g n
    using that w by auto
  have same: "same_out h m s (set_irq q v t)" if "same_out h m s t" for s t q v
    using that by (simp add: same_out_def set_irq_def)
  show ?thesis
  proof (cases e)
    case (PinMode pin md)
    show ?thesis
    proof (cases "pin_at pin")
      case None
      then show ?thesis by (simp add: PinMode stm32_pin_mode_def get_pin_eq same_out_refl)
    next
      case (Some y)
      then obtain g n where p: "pin_at pin = Some (g, n)" by (cases y) auto
      have "same_out h m (fst x) (stm32_pin_mode pin md (fst x))"
        unfolding stm32_pin_mode_def get_pin_eq p option.map prod.case option.case
        by (rule setup_other [OF mode_init_pin]) (use f ne [OF p] pin_at_below [OF p] in \<open>simp_all add: PinMode\<close>)
      then show ?thesis by (simp add: PinMode)
    qed
  next
    case (IrqEnable pin on)
    show ?thesis
    proof (cases "pin_at pin")
      case None
      then show ?thesis by (simp add: IrqEnable stm32_pin_irq_enable_def get_pin_eq same_out_refl)
    next
      case (Some y)
      then obtain g n where p: "pin_at pin = Some (g, n)" by (cases y) auto
      then show ?thesis
        using f ne [OF p] pin_at_below [OF p]
        by (auto simp: IrqEnable enable_at [OF p] Let_def same_out_refl irq_init_pin
          simp del: push_bit_of_1 intro!: same setup_other)
    qed
  next
    case (PinWrite pin v)
    show ?thesis
    proof (cases "pin_at pin")
      case None
      then show ?thesis by (simp add: PinWrite stm32_pin_write_def get_pin_eq same_out_refl)
    next
      case (Some y)
      then obtain g n where p: "pin_at pin = Some (g, n)" by (cases y) auto
      have "gpio_clock (stm32_pin_write pin v s) = gpio_clock s"
        "MODER (ports (stm32_pin_write pin v s) h) = MODER (ports s h)"
        "OTYPER (ports (stm32_pin_write pin v s) h) = OTYPER (ports s h)" for s
        by (simp_all add: stm32_pin_write_def HAL_GPIO_WritePin_def write_BSRR_def reg_write_def
          split: option.split prod.split)
      then show ?thesis
        using ne [OF p] f pin_at_below [OF p] m by (auto simp: PinWrite same_out_def write_latch [OF p])
    qed
  next
    case (Serve q)
    have "ports (HAL_GPIO_EXTI_IRQHandler b s) = ports s" "gpio_clock (HAL_GPIO_EXTI_IRQHandler b s) = gpio_clock s" for b s
      by (simp_all add: HAL_GPIO_EXTI_IRQHandler_def HAL_GPIO_EXTI_Callback_def pin_irq_hdr_def Let_def EXTI_CLEAR_IT_def
        split: option.split)
    then have "ports (fst (EXTI_IRQHandler q x)) = ports (fst x)" "gpio_clock (fst (EXTI_IRQHandler q x)) = gpio_clock (fst x)"
      by (cases x, simp add: EXTI_IRQHandler_def fold_keeps [of ports] fold_keeps [of gpio_clock])+
    then show ?thesis by (simp add: Serve same_out_def)
  qed (auto simp: same_out_def stm32_pin_attach_irq_def stm32_pin_dettach_irq_def Let_def pad_change_def
    split: option.split prod.split)
qed

section \<open>The commands of the car\<close>

datatype car_cmd = Forward | Back | TurnLeft | TurnRight | Halt | SetPwm int int | Beep u8

fun car_do :: "car_cmd \<Rightarrow> car \<Rightarrow> car" where
  "car_do Forward c = carForward c"
| "car_do Back c = carBack c"
| "car_do TurnLeft c = carLeft c"
| "car_do TurnRight c = carRight c"
| "car_do Halt c = carStop c"
| "car_do (SetPwm p1 p2) c = setpwm p1 p2 c"
| "car_do (Beep i) c = beep i c"

text \<open>The calls of \<^verbatim>\<open>rt_pin_write\<close> each command makes, in order.\<close>

fun pin_calls :: "car_cmd \<Rightarrow> (nat \<times> bool) list" where
  "pin_calls Halt = [(motor_in_1, True), (motor_in_2, True), (motor_in_3, True), (motor_in_4, True)]"
| "pin_calls (SetPwm p1 p2) =
    (if p1 \<ge> 0 then [(155, False), (154, True)] else [(155, True), (154, False)]) @
    (if p2 \<ge> 0 then [(156, False), (157, True)] else [(156, True), (157, False)])"
| "pin_calls (Beep i) = (if i = 1 then [(BEEP, True)] else [(BEEP, False)])"
| "pin_calls _ = []"

definition board_put :: "nat \<times> bool \<Rightarrow> pin_hw \<Rightarrow> pin_hw" where
  "board_put w = board_write (fst w) (snd w)"

lemmas wires = motor_in_1_def motor_in_2_def motor_in_3_def motor_in_4_def BEEP_def

lemma calls_wired: "\<forall>w \<in> set (pin_calls cmd). fst w \<in> wired"
  by (cases cmd) (auto simp: wired_def wires)

lemma car_calls: "pins (car_do cmd c) = fold set_level (pin_calls cmd) (pins c)"
  by (cases cmd) (auto simp: carForward_def carBack_def carLeft_def carRight_def carStop_def setpwm_def beep_def
    release_speed_def want_def Car.rt_pin_write_def SetTim9Compare_def Let_def set_level_def wires)

lemma board_write_eq: "board_write p v = stm32_pin_write (int p) (level_of v)"
  by (simp add: Pin.rt_pin_write_def stm32_pin_ops_def fun_eq_iff)

lemma board_write_out:
  assumes p: "p \<in> wired" "q \<in> wired"
  shows "drives s p \<Longrightarrow> pin_out (board_write p v s) q = (if q = p then v else pin_out s q)"
    and "drives s q \<Longrightarrow> drives (board_write p v s) q"
proof -
  obtain g n where pg: "pin_at (int p) = Some (g, n)" "n < 16" using wired_at [OF p(1)] by auto
  obtain h m where qh: "pin_at (int q) = Some (h, m)" "m < 16" using wired_at [OF p(2)] by auto
  have ap: "h = g \<and> m = n \<longleftrightarrow> q = p" using wired_apart [OF p] pg qh by auto
  have lv: "(word_of_int (level_of v) :: u8) \<noteq> 0 \<longleftrightarrow> v" by (simp add: level_of_def)
  show "pin_out (board_write p v s) q = (if q = p then v else pin_out s q)" if "drives s p"
  proof -
    have clk: "gpio_clock s g" using that pg by (simp add: drives_def)
    show ?thesis using ap clk pg qh by (auto simp: pin_out_def board_write_eq write_latch [OF pg(1,2)] lv)
  qed
  have "gpio_clock (stm32_pin_write pin u s) = gpio_clock s"
    "MODER (ports (stm32_pin_write pin u s) h) = MODER (ports s h)"
    "OTYPER (ports (stm32_pin_write pin u s) h) = OTYPER (ports s h)" for pin u
    by (simp_all add: stm32_pin_write_def HAL_GPIO_WritePin_def write_BSRR_def reg_write_def
      split: option.split prod.split)
  then show "drives (board_write p v s) q" if "drives s q" using that qh by (auto simp: drives_def board_write_eq)
qed

interpretation board_pins: output_pins wired "\<lambda>s. \<forall>p \<in> wired. drives s p" board_put pin_out
  by unfold_locales (auto simp: board_put_def board_write_out set_level_def)

section \<open>The car and the rest of the program\<close>

text \<open>Commands of the car between any calls, level changes and interrupts that leave its pins alone.\<close>

datatype board_event = Cmd car_cmd | Other pin_event

fun car_board_step :: "board_event \<Rightarrow> car \<times> pin_hw \<times> kernel \<Rightarrow> car \<times> pin_hw \<times> kernel" where
  "car_board_step (Cmd cmd) (c, s, k) = (car_do cmd c, fold board_put (pin_calls cmd) s, k)"
| "car_board_step (Other e) (c, x) = (c, pin_step e x)"

definition car_board_run :: "board_event list \<Rightarrow> car \<times> pin_hw \<times> kernel \<Rightarrow> car \<times> pin_hw \<times> kernel" where
  "car_board_run = fold car_board_step"

definition leaves_car :: "board_event \<Rightarrow> bool" where
  "leaves_car ev \<longleftrightarrow> (case ev of Cmd cmd \<Rightarrow> True | Other e \<Rightarrow> foreign e)"

text \<open>What the car model takes for the levels of its pins is what the ports drive.\<close>

definition in_step :: "car \<times> pin_hw \<times> kernel \<Rightarrow> bool" where
  "in_step z \<longleftrightarrow> (case z of (c, s, k) \<Rightarrow> \<forall>p \<in> wired. drives s p \<and> pin_out s p = pins c p)"

lemma in_step_kept:
  assumes "in_step z" "leaves_car ev"
  shows "in_step (car_board_step ev z)"
proof -
  obtain c s k where z: "z = (c, s, k)" by (cases z)
  have i: "\<forall>p \<in> wired. drives s p" "\<forall>p \<in> wired. pin_out s p = pins c p" using assms(1) by (auto simp: in_step_def z)
  show ?thesis
  proof (cases ev)
    case (Cmd cmd)
    from board_pins.puts_out [OF i(1) calls_wired, of cmd] set_level_cong [OF i(2), of "pin_calls cmd"]
    show ?thesis by (simp add: in_step_def z Cmd car_calls)
  next
    case (Other e)
    have "same_out g n s (fst (pin_step e (s, k)))" if "p \<in> wired" "pin_at (int p) = Some (g, n)" for p g n
      using foreign_same_out [OF that, of e "(s, k)"] assms(2) by (simp add: leaves_car_def Other)
    then have "drives (fst (pin_step e (s, k))) p \<and> pin_out (fst (pin_step e (s, k))) p = pins c p" if "p \<in> wired" for p
      using wired_at [OF that] same_out_drives [of p] that i by metis
    then show ?thesis by (cases "pin_step e (s, k)") (simp add: in_step_def z Other)
  qed
qed

lemma in_step_run: "in_step z \<Longrightarrow> list_all leaves_car h \<Longrightarrow> in_step (car_board_run h z)"
  by (induction h arbitrary: z) (simp_all add: car_board_run_def in_step_kept)

text \<open>Setting up the pins leaves them driven, the motor pins high (both bridges brake).\<close>

lemma output_drives:
  assumes p: "p \<in> wired" "q \<in> wired"
  shows "pin_out (output_mode p s) q = pin_out s q" "drives s q \<or> p = q \<Longrightarrow> drives (output_mode p s) q"
proof -
  obtain g n where pg: "pin_at (int p) = Some (g, n)" "n < 16" using wired_at [OF p(1)] by auto
  obtain h m where qh: "pin_at (int q) = Some (h, m)" "m < 16" using wired_at [OF p(2)] by auto
  let ?i = "mode_init 0 (push_bit n 1) (stack s)"
  have e: "output_mode p s = HAL_GPIO_Init g ?i (GPIO_CLK_ENABLE g s)"
    by (simp add: rt_pin_mode_def stm32_pin_ops_def stm32_pin_mode_def get_pin_eq pg)
  have c: "gpio_clock (GPIO_CLK_ENABLE g s) = (gpio_clock s)(g := True)" "ports (GPIO_CLK_ENABLE g s) = ports s"
    by (simp_all add: GPIO_CLK_ENABLE_def)
  have on: "gpio_clock (GPIO_CLK_ENABLE g s) g" by (simp add: c)
  have m: "Mode ?i = 1" by (simp add: mode_init_def Let_def)
  note i = init_modes [of ?i, OF mode_init_pin [OF pg(2)] pg(2) on, unfolded c m]
  show "pin_out (output_mode p s) q = pin_out s q" by (simp add: e pin_out_def qh i del: push_bit_of_1)
  show "drives s q \<or> p = q \<Longrightarrow> drives (output_mode p s) q"
    using wired_apart [OF p] pg qh by (auto simp: e drives_def i is_output_def simp del: One_nat_def push_bit_of_1)
qed

definition car_boot :: "pin_hw \<Rightarrow> pin_hw" where
  "car_boot s = beep_init (hw_l298n_init s)"

lemma boot_in_step:
  assumes "\<forall>p \<in> wired - {BEEP}. pins c p" "pins c BEEP = pin_out s BEEP"
  shows "in_step (c, car_boot s, k)"
  using assms
  by (simp add: in_step_def car_boot_def beep_init_def hw_l298n_init_def output_drives board_write_out wired_def wires
    del: of_nat_numeral)

text \<open>
  C18: from start-up, through any mixture of motor and beeper commands with what the rest of the program and the
  hardware do to other pins, each pin of the bridges and of the beeper is a push-pull output whose latch holds the level
  of the car model.
\<close>

theorem car_drives_pins:
  assumes "\<forall>p \<in> wired - {BEEP}. pins c p" "pins c BEEP = pin_out s BEEP" and "list_all leaves_car h"
    and "(c', s', k') = car_board_run h (c, car_boot s, k)" and "p \<in> wired"
  shows "drives s' p \<and> pin_out s' p = pins c' p"
proof -
  have "in_step (c', s', k')" unfolding assms(4) by (rule in_step_run [OF boot_in_step [OF assms(1,2)] assms(3)])
  then show ?thesis using assms(5) by (simp add: in_step_def)
qed

lemma car_drives_pins_witness:
  "bit (ODR (ports (fst (snd (car_board_run [Cmd (SetPwm 500 (- 500)), Other (PinMode 9 1), Cmd (Beep 1)]
     ((rest_car (mutex_object 0 0, zeroed))\<lparr>pins := (\<lambda>p. p \<in> wired - {BEEP})\<rparr>, car_boot idle_pins, zeroed)))) GPIOG)) 13"
proof -
  let ?c = "(rest_car (mutex_object 0 0, zeroed))\<lparr>pins := (\<lambda>p. p \<in> wired - {BEEP})\<rparr>"
  let ?h = "[Cmd (SetPwm 500 (- 500)), Other (PinMode 9 1), Cmd (Beep 1)]"
  obtain c' s' k' where r: "(c', s', k') = car_board_run ?h (?c, car_boot idle_pins, zeroed)" by (metis prod_cases3)
  have 1: "\<forall>p \<in> wired - {BEEP}. pins ?c p" by simp
  have 2: "pins ?c BEEP = pin_out idle_pins BEEP" by (simp add: pin_out_def idle_pins_def wires wired_pins)
  have "pin_at 9 = Some (GPIOC, 14)" by code_simp
  then have 3: "list_all leaves_car ?h" by (simp add: leaves_car_def wired_def wired_pins)
  have "pins c' 156"
    using arg_cong [OF r, of "\<lambda>z. pins (fst z) 156"]
    by (cases "pin_step (PinMode 9 1) (fold board_put (pin_calls (SetPwm 500 (- 500))) (car_boot idle_pins), zeroed)")
      (simp add: car_board_run_def setpwm_result(5) beep_def Car.rt_pin_write_def wires)
  then have "pin_out s' 156"
    using car_drives_pins [OF 1 2 3 r, of 156] by (simp add: wired_def)
  then show ?thesis unfolding r [symmetric] by (simp add: pin_out_def wired_pins)
qed

end
