(* ===== verification/Msh.thy ===== *)
theory Msh
  imports CString "HOL-Library.Monad_Syntax" "HOL-Library.Sublist"
begin

text \<open>
  The command interpreter of the console, \<^verbatim>\<open>components/finsh/msh.c\<close>: splitting a line into
  arguments, looking the command up in the symbol table, and completing a command name.

  A line is edited and split in place, so the functions work on the whole array that holds it,
  a \<^verbatim>\<open>char *\<close> being an index into it. Reading or writing outside of the array is undefined
  in C; here it is the value \<^const>\<open>None\<close>, so that a \<^const>\<open>Some\<close> says also that the code
  stayed inside. The file system, modules and processes of RT-Thread are not compiled in.
\<close>

section \<open>Arrays of characters\<close>

definition peek :: "string \<Rightarrow> nat \<Rightarrow> char option" where
  "peek buf i = (if i < length buf then Some (buf ! i) else None)"

definition poke :: "string \<Rightarrow> nat \<Rightarrow> char \<Rightarrow> string option" where
  "poke buf i c = (if i < length buf then Some (buf[i := c]) else None)"

text \<open>The string at an index, read up to its terminating zero.\<close>

definition string_from :: "string \<Rightarrow> nat \<Rightarrow> string option" where
  "string_from buf i =
    (if NUL \<in> set (drop i buf) then Some (takeWhile (\<lambda>c. c \<noteq> NUL) (drop i buf)) else None)"

text \<open>\<^verbatim>\<open>strncmp (s, t, n) == 0\<close> of the C library.\<close>

fun strneq :: "string \<Rightarrow> string \<Rightarrow> nat \<Rightarrow> bool" where
  "strneq s t 0 = True"
| "strneq s t (Suc n) = (deref s = deref t \<and> (deref s = NUL \<or> strneq (tl s) (tl t) n))"

section \<open>Splitting a line, \<^verbatim>\<open>msh_split\<close>\<close>

abbreviation (input) TAB :: char where "TAB \<equiv> CHR 0x09"
abbreviation (input) QUOTE :: char where "QUOTE \<equiv> CHR 0x22"
abbreviation (input) BACKSLASH :: char where "BACKSLASH \<equiv> CHR 0x5C"

definition FINSH_ARG_MAX :: nat where "FINSH_ARG_MAX = 8"

definition blank :: "char \<Rightarrow> bool" where
  "blank c \<longleftrightarrow> c = CHR '' '' \<or> c = TAB"

text \<open>
  \<^verbatim>\<open>ptr\<close> and \<^verbatim>\<open>position\<close> move together, so the loops keep the pointer alone; \<open>e\<close> is
  where \<^verbatim>\<open>position\<close> is \<^verbatim>\<open>length\<close>. A condition reads the character before it compares the
  position, as the code does.
\<close>

function strip_blanks :: "string \<Rightarrow> nat \<Rightarrow> nat \<Rightarrow> (string \<times> nat) option" where
  "strip_blanks buf p e =
    (case peek buf p of
       None \<Rightarrow> None
     | Some c \<Rightarrow> if blank c \<and> p < e then strip_blanks (buf[p := NUL]) (Suc p) e else Some (buf, p))"
  by pat_completeness auto
termination by (relation "measure (\<lambda>(buf, p, e). e - p)") auto

function skip_quoted :: "string \<Rightarrow> nat \<Rightarrow> nat \<Rightarrow> nat option" where
  "skip_quoted buf p e =
    (case peek buf p of
       None \<Rightarrow> None
     | Some c \<Rightarrow>
         if c \<noteq> QUOTE \<and> p < e then
           (if c = BACKSLASH then
              (case peek buf (Suc p) of
                 None \<Rightarrow> None
               | Some c' \<Rightarrow> skip_quoted buf (if c' = QUOTE then Suc (Suc p) else Suc p) e)
            else skip_quoted buf (Suc p) e)
         else Some p)"
  by pat_completeness auto
termination by (relation "measure (\<lambda>(buf, p, e). e - p)") auto

function skip_word :: "string \<Rightarrow> nat \<Rightarrow> nat \<Rightarrow> nat option" where
  "skip_word buf p e =
    (case peek buf p of
       None \<Rightarrow> None
     | Some c \<Rightarrow> if \<not> blank c \<and> p < e then skip_word buf (Suc p) e else Some p)"
  by pat_completeness auto
termination by (relation "measure (\<lambda>(buf, p, e). e - p)") auto

declare strip_blanks.simps [simp del] skip_quoted.simps [simp del] skip_word.simps [simp del]

text \<open>
  One turn of the outer loop per argument. The message about too many arguments is not part of
  the result: the arguments found are used all the same.
\<close>

function split_loop :: "string \<Rightarrow> nat \<Rightarrow> nat \<Rightarrow> nat list \<Rightarrow> (string \<times> nat list) option" where
  "split_loop buf ptr e argv =
    (if ptr < e then
       (case strip_blanks buf ptr e of
          None \<Rightarrow> None
        | Some (buf1, p) \<Rightarrow>
            if FINSH_ARG_MAX \<le> length argv then Some (buf1, argv)
            else if e \<le> p then Some (buf1, argv)
            else if peek buf1 p = Some QUOTE then
              (case skip_quoted buf1 (Suc p) e of
                 None \<Rightarrow> None
               | Some q \<Rightarrow>
                   if e \<le> q then Some (buf1, argv @ [Suc p])
                   else split_loop (buf1[q := NUL]) (Suc q) e (argv @ [Suc p]))
            else
              (case skip_word buf1 p e of
                 None \<Rightarrow> None
               | Some q \<Rightarrow>
                   if e \<le> q then Some (buf1, argv @ [p]) else split_loop buf1 q e (argv @ [p])))
     else Some (buf, argv))"
  by pat_completeness auto
termination by (relation "measure (\<lambda>(buf, ptr, e, argv). FINSH_ARG_MAX - length argv)") auto

declare split_loop.simps [simp del]

definition msh_split :: "string \<Rightarrow> nat \<Rightarrow> nat \<Rightarrow> (string \<times> nat list) option" where
  "msh_split buf cmd len = split_loop buf cmd (cmd + len) []"

section \<open>Running a command\<close>

text \<open>
  The symbol table: names and the functions they stand for. What a command does is up to its
  function; a call is recorded with its arguments, each the string the pointer leads to, or
  \<^const>\<open>None\<close> where no zero ends it within the line.
\<close>

type_synonym symtab = "(string \<times> nat) list"

definition CMD_PREFIX :: string where "CMD_PREFIX = ''__cmd_''"

datatype executed =
    Nothing
  | Ran nat "string option list"
  | NotFound "string option"

fun msh_get_cmd :: "symtab \<Rightarrow> string \<Rightarrow> nat \<Rightarrow> nat option" where
  "msh_get_cmd [] cmd n = None"
| "msh_get_cmd ((name, func) # tab) cmd n =
    (if \<not> strneq name CMD_PREFIX 6 then msh_get_cmd tab cmd n
     else if strneq (drop 6 name) cmd n \<and> deref (drop (6 + n) name) = NUL then Some func
     else msh_get_cmd tab cmd n)"

text \<open>
  The result is the array, and the command that was called: none when the function returns
  \<^verbatim>\<open>-RT_ERROR\<close>.
\<close>

definition msh_exec_cmd :: "symtab \<Rightarrow> string \<Rightarrow> nat \<Rightarrow> nat \<Rightarrow> (string \<times> executed option) option" where
  "msh_exec_cmd tab buf cmd len = do {
     q \<leftarrow> skip_word buf cmd (cmd + len);
     (if q = cmd then Some (buf, None)
      else case msh_get_cmd tab (drop cmd buf) (q - cmd) of
        None \<Rightarrow> Some (buf, None)
      | Some func \<Rightarrow> do {
          (buf1, argv) \<leftarrow> msh_split buf cmd len;
          Some (buf1, if argv = [] then None else Some (Ran func (map (string_from buf1) argv)))
        })
   }"

text \<open>Leading blanks are skipped without a look at the length, which wraps below zero.\<close>

function trim_blanks :: "string \<Rightarrow> nat \<Rightarrow> u32 \<Rightarrow> (nat \<times> u32) option" where
  "trim_blanks buf cmd len =
    (case peek buf cmd of
       None \<Rightarrow> None
     | Some c \<Rightarrow> if blank c then trim_blanks buf (Suc cmd) (len - 1) else Some (cmd, len))"
  by pat_completeness auto
termination
  by (relation "measure (\<lambda>(buf, cmd, len). length buf - cmd)") (auto simp: peek_def split: if_splits)

function skip_name :: "string \<Rightarrow> nat \<Rightarrow> nat option" where
  "skip_name buf p =
    (case peek buf p of
       None \<Rightarrow> None
     | Some c \<Rightarrow> if c \<noteq> CHR '' '' \<and> c \<noteq> NUL then skip_name buf (Suc p) else Some p)"
  by pat_completeness auto
termination
  by (relation "measure (\<lambda>(buf, p). length buf - p)") (auto simp: peek_def split: if_splits)

declare trim_blanks.simps [simp del] skip_name.simps [simp del]

definition msh_exec :: "symtab \<Rightarrow> string \<Rightarrow> u32 \<Rightarrow> (string \<times> executed) option" where
  "msh_exec tab buf len0 = do {
     (cmd, len) \<leftarrow> trim_blanks buf 0 len0;
     (if len = 0 then Some (buf, Nothing)
      else do {
        (buf1, ran) \<leftarrow> msh_exec_cmd tab buf cmd (unat len);
        (case ran of
           Some r \<Rightarrow> Some (buf1, r)
         | None \<Rightarrow> do {
             q \<leftarrow> skip_name buf1 cmd;
             buf2 \<leftarrow> poke buf1 q NUL;
             Some (buf2, NotFound (string_from buf2 cmd))
           })
      })
   }"

section \<open>Completing a command name\<close>

fun str_common :: "string \<Rightarrow> string \<Rightarrow> nat" where
  "str_common s t =
    (if deref s \<noteq> NUL \<and> deref t \<noteq> NUL \<and> deref s = deref t then Suc (str_common (tl s) (tl t)) else 0)"

declare str_common.simps [simp del]

text \<open>
  One pass over the table with \<^verbatim>\<open>name_ptr\<close> and \<^verbatim>\<open>min_length\<close>, and the names that are listed
  on the way.
\<close>

fun complete_loop :: "symtab \<Rightarrow> string \<Rightarrow> string option \<Rightarrow> nat \<Rightarrow> string option \<times> nat \<times> string list" where
  "complete_loop [] pre name_ptr min_length = (name_ptr, min_length, [])"
| "complete_loop ((name, func) # tab) pre name_ptr min_length =
    (if \<not> strneq name CMD_PREFIX 6 then complete_loop tab pre name_ptr min_length
     else
       (let cmd_name = drop 6 name in
        if strneq pre cmd_name (rt_strlen pre) then
          (let (name_ptr1, min1) =
                 (if min_length = 0 then (cmd_name, rt_strlen cmd_name) else (the name_ptr, min_length));
               len = str_common name_ptr1 cmd_name;
               min2 = (if len < min1 then len else min1);
               (np, ml, listed) = complete_loop tab pre (Some name_ptr1) min2
           in (np, ml, cmd_name # listed))
        else complete_loop tab pre name_ptr min_length))"

text \<open>The commands that \<^verbatim>\<open>msh_help\<close> lists.\<close>

definition msh_help :: "symtab \<Rightarrow> string list" where
  "msh_help tab = map (\<lambda>(name, func). drop 6 name) (filter (\<lambda>(name, func). strneq name CMD_PREFIX 6) tab)"

definition msh_auto_complete :: "symtab \<Rightarrow> string \<Rightarrow> (string \<times> string list) option" where
  "msh_auto_complete tab buf = do {
     pre \<leftarrow> string_from buf 0;
     (if pre = [] then Some (buf, msh_help tab)
      else case complete_loop tab pre None 0 of
        (None, _, listed) \<Rightarrow> Some (buf, listed)
      | (Some name, n, listed) \<Rightarrow>
          if n \<le> length buf then Some (memcpy_at buf 0 (rt_strncpy name n) n, listed) else None)
   }"

section \<open>What the functions compute\<close>

lemma blank_simps [simp]: "\<not> blank NUL" "\<not> blank QUOTE" "blank CHR '' ''" "blank TAB"
  by (simp_all add: blank_def)

lemma peek_append [simp]: "peek (a @ b) (length a) = (case b of [] \<Rightarrow> None | c # _ \<Rightarrow> Some c)"
  by (cases b) (auto simp: peek_def)

lemma peek_append_Suc [simp]: "peek (a @ c # b) (Suc (length a)) = (case b of [] \<Rightarrow> None | c # _ \<Rightarrow> Some c)"
  using peek_append [of "a @ [c]" b] by simp

lemma takeWhile_string: "NUL \<notin> set w \<Longrightarrow> takeWhile (\<lambda>c. c \<noteq> NUL) (w @ NUL # z) = w"
  by (induction w) auto

lemma string_from_word: "NUL \<notin> set w \<Longrightarrow> string_from (a @ w @ NUL # z) (length a) = Some w"
  by (simp add: string_from_def takeWhile_string)

lemma length_split_while: "length (takeWhile P w) + length (dropWhile P w) = length w"
  by (metis length_append takeWhile_dropWhile_id)

lemma strip_blanks_spec:
  "strip_blanks (a @ w @ d # z) (length a) (length a + length w) =
    Some (a @ replicate (length (takeWhile blank w)) NUL @ dropWhile blank w @ d # z,
      length a + length (takeWhile blank w))"
proof (induction w arbitrary: a)
  case Nil
  then show ?case by (simp add: strip_blanks.simps [of _ "length a"])
next
  case (Cons c w)
  show ?case
  proof (cases "blank c")
    case True
    then show ?thesis
      using Cons [of "a @ [NUL]"] by (subst strip_blanks.simps) simp
  next
    case False
    then show ?thesis by (subst strip_blanks.simps) simp
  qed
qed

lemma skip_word_spec:
  "skip_word (a @ w @ d # z) (length a) (length a + length w) =
    Some (length a + length (takeWhile (\<lambda>c. \<not> blank c) w))"
proof (induction w arbitrary: a)
  case Nil
  then show ?case by (simp add: skip_word.simps [of _ "length a"])
next
  case (Cons c w)
  show ?case
    using Cons [of "a @ [c]"] by (subst skip_word.simps) simp
qed

text \<open>
  A quoted argument ends at the next quote that no backslash precedes, or at the end of the
  line; what is left after the quote is returned too.
\<close>

fun quote_split :: "string \<Rightarrow> string \<times> string option" where
  "quote_split [] = ([], None)"
| "quote_split (c # s) =
    (if c = QUOTE then ([], Some s)
     else if c = BACKSLASH \<and> s \<noteq> [] \<and> hd s = QUOTE then
       (let (x, r) = quote_split (tl s) in (c # hd s # x, r))
     else (let (x, r) = quote_split s in (c # x, r)))"

lemma quote_split_parts:
  "quote_split w = (x, r) \<Longrightarrow> w = x @ (case r of None \<Rightarrow> [] | Some s \<Rightarrow> QUOTE # s)"
  by (induction w arbitrary: x r rule: quote_split.induct)
    (auto split: if_splits prod.splits simp: neq_Nil_conv)

lemma skip_quoted_spec:
  "skip_quoted (a @ w @ NUL # z) (length a) (length a + length w) =
    Some (length a + length (fst (quote_split w)))"
proof (induction w arbitrary: a rule: quote_split.induct)
  case 1
  then show ?case by (simp add: skip_quoted.simps [of _ "length a"])
next
  case (2 c s)
  have step: "skip_quoted (a @ (c # s) @ NUL # z) (length a) (length a + length (c # s)) =
    (if c = QUOTE then Some (length a)
     else if c = BACKSLASH \<and> s \<noteq> [] \<and> hd s = QUOTE then
       skip_quoted (a @ (c # s) @ NUL # z) (Suc (Suc (length a))) (length a + length (c # s))
     else skip_quoted (a @ (c # s) @ NUL # z) (Suc (length a)) (length a + length (c # s)))"
    by (subst skip_quoted.simps, cases s) auto
  consider "c = QUOTE" | "c = BACKSLASH" "s \<noteq> []" "hd s = QUOTE"
    | "c \<noteq> QUOTE" "\<not> (c = BACKSLASH \<and> s \<noteq> [] \<and> hd s = QUOTE)"
    by blast
  then show ?case
  proof cases
    case 1
    then show ?thesis by (subst step) simp
  next
    case 2
    then obtain v where s: "s = QUOTE # v" by (cases s) auto
    have "skip_quoted ((a @ [c, QUOTE]) @ v @ NUL # z) (length (a @ [c, QUOTE]))
        (length (a @ [c, QUOTE]) + length v) =
      Some (length (a @ [c, QUOTE]) + length (fst (quote_split v)))"
      using "2.IH"(1) [of "a @ [c, QUOTE]"] 2 s by simp
    then show ?thesis
      using 2 s by (subst step) (simp split: prod.splits)
  next
    case 3
    then have "skip_quoted ((a @ [c]) @ s @ NUL # z) (length (a @ [c])) (length (a @ [c]) + length s) =
      Some (length (a @ [c]) + length (fst (quote_split s)))"
      using "2.IH"(2) by blast
    then show ?thesis
      using 3 by (subst step) (auto split: prod.splits)
  qed
qed

text \<open>The arguments of a line, at most \<open>n\<close> of them.\<close>

fun split_words :: "nat \<Rightarrow> string \<Rightarrow> string list" where
  "split_words 0 w = []"
| "split_words (Suc n) w =
    (case dropWhile blank w of
       [] \<Rightarrow> []
     | c # t \<Rightarrow>
         if c = QUOTE then
           (case quote_split t of (x, None) \<Rightarrow> [x] | (x, Some r) \<Rightarrow> x # split_words n r)
         else takeWhile (\<lambda>c. \<not> blank c) (c # t) #
           split_words n (dropWhile (\<lambda>c. \<not> blank c) (c # t)))"

lemma split_words_Nil [simp]: "split_words n [] = []"
  by (cases n) simp_all

text \<open>
  One turn of the loop, with the line cut where the turn leaves off: for an argument that is a
  word, whatever follows the line, and for every argument when a zero does.
\<close>

lemma split_turn_word:
  fixes a w z :: string and argv :: "nat list"
  defines "ns \<equiv> replicate (length (takeWhile blank w)) NUL"
  assumes t: "dropWhile blank w = c # u" and c: "c \<noteq> QUOTE" and room: "\<not> FINSH_ARG_MAX \<le> length argv"
  shows "split_loop (a @ w @ d # z) (length a) (length a + length w) argv =
    (let x = takeWhile (\<lambda>c. \<not> blank c) (c # u); v = dropWhile (\<lambda>c. \<not> blank c) (c # u); a' = a @ ns @ x
     in if v = [] then Some (a' @ d # z, argv @ [length (a @ ns)])
        else split_loop (a' @ v @ d # z) (length a') (length a' + length v) (argv @ [length (a @ ns)]))"
proof -
  define m where "m = a @ ns"
  define b where "b = m @ (c # u) @ d # z"
  define e where "e = length a + length w"
  have e: "e = length m + length (c # u)"
    using length_split_while [of blank w] t by (simp add: ns_def m_def e_def)
  have strip: "strip_blanks (a @ w @ d # z) (length a) e = Some (b, length m)"
    by (simp add: strip_blanks_spec ns_def t m_def b_def e_def)
  have pk: "peek b (length m) = Some c"
    by (simp add: b_def)
  have le: "length a < e" "\<not> e \<le> length m"
    using e by (simp_all add: m_def)
  define x where "x = takeWhile (\<lambda>c. \<not> blank c) (c # u)"
  define v where "v = dropWhile (\<lambda>c. \<not> blank c) (c # u)"
  have cu: "c # u = x @ v" by (simp add: x_def v_def)
  have sk: "skip_word b (length m) e = Some (length m + length x)"
    unfolding e x_def b_def by (rule skip_word_spec)
  have e': "e = length (m @ x) + length v"
    using e unfolding cu by simp
  have b': "b = (m @ x) @ v @ d # z"
    by (simp add: b_def cu [symmetric] flip: append_assoc) (simp add: cu)
  have "split_loop (a @ w @ d # z) (length a) e argv =
      (case skip_word b (length m) e of
         None \<Rightarrow> None
       | Some q \<Rightarrow>
           if e \<le> q then Some (b, argv @ [length m])
           else split_loop b q e (argv @ [length m]))"
    using le room c by (subst split_loop.simps, subst strip) (simp add: pk)
  then have "split_loop (a @ w @ d # z) (length a) e argv =
      (if v = [] then Some (b, argv @ [length m]) else split_loop b (length (m @ x)) e (argv @ [length m]))"
    using sk e' by simp
  then show ?thesis
    unfolding x_def [symmetric] v_def [symmetric] Let_def e_def [symmetric] e' b'
    by (simp add: m_def)
qed

lemma split_turn:
  fixes a w z :: string and argv :: "nat list"
  defines "ns \<equiv> replicate (length (takeWhile blank w)) NUL"
  assumes t: "dropWhile blank w = c # u" and room: "\<not> FINSH_ARG_MAX \<le> length argv"
  shows "split_loop (a @ w @ NUL # z) (length a) (length a + length w) argv =
    (if c = QUOTE then
       (case quote_split u of
          (x, None) \<Rightarrow> Some (a @ ns @ QUOTE # x @ NUL # z, argv @ [length (a @ ns @ [QUOTE])])
        | (x, Some v) \<Rightarrow>
            (let a' = a @ ns @ QUOTE # x @ [NUL]
             in split_loop (a' @ v @ NUL # z) (length a') (length a' + length v)
                  (argv @ [length (a @ ns @ [QUOTE])])))
     else
       (let x = takeWhile (\<lambda>c. \<not> blank c) (c # u); v = dropWhile (\<lambda>c. \<not> blank c) (c # u); a' = a @ ns @ x
        in if v = [] then Some (a' @ NUL # z, argv @ [length (a @ ns)])
           else split_loop (a' @ v @ NUL # z) (length a') (length a' + length v) (argv @ [length (a @ ns)])))"
proof -
  define m where "m = a @ ns"
  define b where "b = m @ (c # u) @ NUL # z"
  define e where "e = length a + length w"
  have e: "e = length m + length (c # u)"
    using length_split_while [of blank w] t by (simp add: ns_def m_def e_def)
  have strip: "strip_blanks (a @ w @ NUL # z) (length a) e = Some (b, length m)"
    by (simp add: strip_blanks_spec ns_def t m_def b_def e_def)
  have pk: "peek b (length m) = Some c"
    by (simp add: b_def)
  have le: "length a < e" "\<not> e \<le> length m"
    using e by (simp_all add: m_def)
  have turn: "split_loop (a @ w @ NUL # z) (length a) e argv =
      (case skip_quoted b (Suc (length m)) e of
         None \<Rightarrow> None
       | Some q \<Rightarrow>
           if e \<le> q then Some (b, argv @ [Suc (length m)])
           else split_loop (b[q := NUL]) (Suc q) e (argv @ [Suc (length m)]))"
    if "c = QUOTE"
    using le room that by (subst split_loop.simps, subst strip) (simp add: pk)
  show ?thesis
  proof (cases "c = QUOTE")
    case True
    obtain x r where xr: "quote_split u = (x, r)" by fastforce
    have u: "u = x @ (case r of None \<Rightarrow> [] | Some v \<Rightarrow> QUOTE # v)"
      using quote_split_parts [OF xr] .
    have "skip_quoted ((m @ [c]) @ u @ NUL # z) (length (m @ [c])) (length (m @ [c]) + length u) =
        Some (length (m @ [c]) + length x)"
      unfolding skip_quoted_spec using xr by simp
    then have sk: "skip_quoted b (Suc (length m)) e = Some (Suc (length m) + length x)"
      using e by (simp add: b_def)
    show ?thesis
    proof (cases r)
      case None
      then show ?thesis
        using True turn sk xr u e by (simp add: m_def b_def e_def)
    next
      case (Some v)
      have "b[Suc (length m + length x) := NUL] = (m @ QUOTE # x @ [NUL]) @ v @ NUL # z"
        using True u Some by (simp add: list_update_append b_def)
      then show ?thesis
        using True turn sk xr u Some e by (simp add: m_def Let_def ac_simps e_def)
    qed
  next
    case False
    then show ?thesis
      using split_turn_word [OF t False room, of a NUL z] unfolding ns_def by (simp only: if_False)
  qed
qed

lemma split_full:
  assumes "FINSH_ARG_MAX \<le> length argv"
  shows "split_loop (a @ w @ NUL # z) (length a) (length a + length w) argv =
    Some (a @ (replicate (length (takeWhile blank w)) NUL @ dropWhile blank w) @ NUL # z, argv)"
proof (cases "w = []")
  case True
  then show ?thesis by (subst split_loop.simps) simp
next
  case False
  then show ?thesis
    using assms by (subst split_loop.simps, subst strip_blanks_spec) simp
qed

lemma split_loop_spec:
  "NUL \<notin> set w \<Longrightarrow> length argv + n = FINSH_ARG_MAX \<Longrightarrow>
   \<exists>w' ps. split_loop (a @ w @ NUL # z) (length a) (length a + length w) argv =
       Some (a @ w' @ NUL # z, argv @ ps) \<and>
     length w' = length w \<and>
     map (string_from (a @ w' @ NUL # z)) ps = map Some (split_words n w) \<and>
     (w \<noteq> [] \<longrightarrow> blank (hd w) \<longrightarrow> hd w' = NUL)"
proof (induction n arbitrary: a w argv)
  case 0
  define w' where "w' = replicate (length (takeWhile blank w)) NUL @ dropWhile blank w"
  have "split_loop (a @ w @ NUL # z) (length a) (length a + length w) argv = Some (a @ w' @ NUL # z, argv)"
    unfolding w'_def using 0 by (intro split_full) simp
  moreover have "length w' = length w"
    using length_split_while [of blank w] by (simp add: w'_def)
  moreover have "w \<noteq> [] \<longrightarrow> blank (hd w) \<longrightarrow> hd w' = NUL"
    by (cases w) (simp_all add: w'_def)
  ultimately show ?case by auto
next
  case (Suc n)
  define k where "k = length (takeWhile blank w)"
  define t where "t = dropWhile blank w"
  define ns where "ns = replicate k NUL"
  have room: "\<not> FINSH_ARG_MAX \<le> length argv" using Suc.prems by simp
  have len: "length w = k + length t" using length_split_while [of blank w] by (simp add: k_def t_def)
  have t_NUL: "NUL \<notin> set t"
    using Suc.prems(1) by (auto simp: t_def dest: set_dropWhileD)
  have hd_ns: "hd (ns @ v) = NUL" if "w \<noteq> []" "blank (hd w)" for v
    using that by (cases w) (simp_all add: ns_def k_def)
  have strip: "strip_blanks (a @ w @ NUL # z) (length a) (length a + length w) =
      Some (a @ ns @ t @ NUL # z, length a + k)"
    by (simp add: strip_blanks_spec ns_def k_def t_def)
  show ?case
  proof (cases t)
    case Nil
    then have "split_loop (a @ w @ NUL # z) (length a) (length a + length w) argv =
        Some (a @ ns @ NUL # z, argv @ [])"
      using strip len room by (subst split_loop.simps) (auto simp: ns_def)
    moreover have "split_words (Suc n) w = []"
      using Nil by (simp only: split_words.simps t_def [symmetric] list.case)
    ultimately show ?thesis using hd_ns [of "[]"] len Nil by (intro exI [of _ ns] exI [of _ "[]"]) (simp add: ns_def)
  next
    case (Cons c u)
    show ?thesis
    proof (cases "c = QUOTE")
      case True
      obtain x r where xr: "quote_split u = (x, r)" by fastforce
      have u: "u = x @ (case r of None \<Rightarrow> [] | Some v \<Rightarrow> QUOTE # v)"
        using quote_split_parts [OF xr] .
      have x: "NUL \<notin> set x" using t_NUL Cons u by simp
      show ?thesis
      proof (cases r)
        case None
        have "split_loop (a @ w @ NUL # z) (length a) (length a + length w) argv =
            Some (a @ (ns @ QUOTE # x) @ NUL # z, argv @ [length (a @ ns @ [QUOTE])])"
          using split_turn [OF Cons [unfolded t_def] room, of a z] True xr None by (simp add: ns_def k_def)
        moreover have "string_from (a @ (ns @ QUOTE # x) @ NUL # z) (length (a @ ns @ [QUOTE])) = Some x"
          using string_from_word [OF x, of "a @ ns @ [QUOTE]" z] by simp
        moreover have "split_words (Suc n) w = [x]"
          using Cons True xr None by (simp add: t_def)
        ultimately show ?thesis
          using hd_ns [of "QUOTE # x"] len Cons u None
          by (intro exI [of _ "ns @ QUOTE # x"] exI [of _ "[length (a @ ns @ [QUOTE])]"]) (simp add: ns_def)
      next
        case (Some v)
        define a' where "a' = a @ ns @ QUOTE # x @ [NUL]"
        have v: "NUL \<notin> set v" using t_NUL Cons u Some by simp
        obtain v' ps where IH: "split_loop (a' @ v @ NUL # z) (length a') (length a' + length v)
            (argv @ [length (a @ ns @ [QUOTE])]) = Some (a' @ v' @ NUL # z, (argv @ [length (a @ ns @ [QUOTE])]) @ ps)"
          "length v' = length v" "map (string_from (a' @ v' @ NUL # z)) ps = map Some (split_words n v)"
          using Suc.IH [OF v, of "argv @ [length (a @ ns @ [QUOTE])]" a'] Suc.prems(2) by auto
        have "split_loop (a @ w @ NUL # z) (length a) (length a + length w) argv =
            Some (a' @ v' @ NUL # z, argv @ length (a @ ns @ [QUOTE]) # ps)"
          using split_turn [OF Cons [unfolded t_def] room, of a z] True xr Some IH(1)
          by (simp add: ns_def k_def a'_def Let_def)
        moreover have "string_from (a' @ v' @ NUL # z) (length (a @ ns @ [QUOTE])) = Some x"
          using string_from_word [OF x, of "a @ ns @ [QUOTE]" "v' @ NUL # z"] by (simp add: a'_def)
        moreover have "split_words (Suc n) w = x # split_words n v"
          using Cons True xr Some by (simp add: t_def)
        ultimately show ?thesis
          using hd_ns [of "QUOTE # x @ NUL # v'"] len Cons u Some IH(2,3)
          by (intro exI [of _ "ns @ QUOTE # x @ NUL # v'"] exI [of _ "length (a @ ns @ [QUOTE]) # ps"])
            (simp add: ns_def a'_def)
      qed
    next
      case False
      define x where "x = takeWhile (\<lambda>c. \<not> blank c) (c # u)"
      define v where "v = dropWhile (\<lambda>c. \<not> blank c) (c # u)"
      define a' where "a' = a @ ns @ x"
      have cu: "c # u = x @ v" by (simp add: x_def v_def)
      have NULs: "NUL \<notin> set x" "NUL \<notin> set v"
        using t_NUL Cons unfolding cu by auto
      have words: "split_words (Suc n) w = x # split_words n v"
        using Cons False by (simp add: t_def x_def v_def)
      have turn: "split_loop (a @ w @ NUL # z) (length a) (length a + length w) argv =
          (if v = [] then Some (a' @ NUL # z, argv @ [length (a @ ns)])
           else split_loop (a' @ v @ NUL # z) (length a') (length a' + length v) (argv @ [length (a @ ns)]))"
        using split_turn [OF Cons [unfolded t_def] room, of a z] False
        by (simp add: ns_def k_def a'_def Let_def x_def v_def del: takeWhile.simps dropWhile.simps)
      obtain v' ps where IH: "split_loop (a' @ v @ NUL # z) (length a') (length a' + length v)
          (argv @ [length (a @ ns)]) = Some (a' @ v' @ NUL # z, (argv @ [length (a @ ns)]) @ ps)"
        "length v' = length v" "map (string_from (a' @ v' @ NUL # z)) ps = map Some (split_words n v)"
        "v \<noteq> [] \<Longrightarrow> blank (hd v) \<Longrightarrow> hd v' = NUL"
        using Suc.IH [OF NULs(2), of "argv @ [length (a @ ns)]" a'] Suc.prems(2) by auto
      show ?thesis
      proof (cases "v = []")
        case True
        have "string_from (a' @ NUL # z) (length (a @ ns)) = Some x"
          using string_from_word [OF NULs(1), of "a @ ns" z] by (simp add: a'_def)
        then show ?thesis
          using hd_ns [of x] len Cons cu True turn words
          by (intro exI [of _ "ns @ x"] exI [of _ "[length (a @ ns)]"]) (simp add: ns_def a'_def)
      next
        case v: False
        have "blank (hd v)"
          using v hd_dropWhile [of "\<lambda>c. \<not> blank c" "c # u"] by (simp add: v_def)
        then obtain v'' where hd: "v' = NUL # v''"
          using IH(2,4) v by (cases v') auto
        have "string_from (a' @ v' @ NUL # z) (length (a @ ns)) = Some x"
          using string_from_word [OF NULs(1), of "a @ ns" "v'' @ NUL # z"] hd by (simp add: a'_def)
        moreover have "length (c # u) = length x + length v" unfolding cu by simp
        ultimately show ?thesis
          using hd_ns [of "x @ v'"] len Cons v turn words IH(1,2,3)
          by (intro exI [of _ "ns @ x @ v'"] exI [of _ "length (a @ ns) # ps"]) (simp add: ns_def a'_def)
      qed
    qed
  qed
qed

text \<open>The whole function: the strings its pointers lead to are the arguments of the line.\<close>

lemma msh_split_spec:
  assumes "NUL \<notin> set w"
  shows "\<exists>w' ps. msh_split (a @ w @ NUL # z) (length a) (length w) = Some (a @ w' @ NUL # z, ps) \<and>
    length w' = length w \<and>
    map (string_from (a @ w' @ NUL # z)) ps = map Some (split_words FINSH_ARG_MAX w)"
  using split_loop_spec [OF assms, of "[]" FINSH_ARG_MAX a z] by (auto simp: msh_split_def)

section \<open>Looking up and running\<close>

lemma strneq_prefix: "c_string x \<Longrightarrow> strneq s (x @ r) (length x) \<longleftrightarrow> prefix x s"
proof (induction x arbitrary: s)
  case (Cons c x)
  then show ?case by (cases s) auto
qed simp

lemma strneq_prefix_left: "c_string x \<Longrightarrow> strneq (x @ r) s (length x) \<longleftrightarrow> prefix x s"
proof (induction x arbitrary: s)
  case (Cons c x)
  then show ?case by (cases s) auto
qed simp

lemma CMD_PREFIX_length: "length CMD_PREFIX = 6"
  by (simp add: CMD_PREFIX_def)

lemma strneq_CMD_PREFIX [simp]: "strneq s CMD_PREFIX 6 \<longleftrightarrow> prefix CMD_PREFIX s"
proof -
  have "c_string CMD_PREFIX" by (simp add: CMD_PREFIX_def)
  then show ?thesis using strneq_prefix [of CMD_PREFIX s "[]"] by (simp add: CMD_PREFIX_length)
qed

text \<open>A command is called by the name after the prefix; the first entry of the table wins.\<close>

definition find_cmd :: "symtab \<Rightarrow> string \<Rightarrow> nat option" where
  "find_cmd tab x = map_of tab (CMD_PREFIX @ x)"

definition c_names :: "symtab \<Rightarrow> bool" where
  "c_names tab \<longleftrightarrow> (\<forall>(name, func) \<in> set tab. c_string name)"

lemma deref_NUL: "c_string s \<Longrightarrow> deref s = NUL \<longleftrightarrow> s = []"
  by (cases s) auto

lemma msh_get_cmd_find:
  "c_names tab \<Longrightarrow> c_string x \<Longrightarrow> msh_get_cmd tab (x @ r) (length x) = find_cmd tab x"
proof (induction tab "x @ r" "length x" rule: msh_get_cmd.induct)
  case 1
  then show ?case by (simp add: find_cmd_def)
next
  case (2 name func tab)
  have name: "c_string name" and tab: "c_names tab" using "2.prems" by (auto simp: c_names_def)
  show ?case
  proof (cases "prefix CMD_PREFIX name")
    case False
    then show ?thesis using 2 tab by (auto simp: find_cmd_def)
  next
    case True
    then obtain y where y: "name = CMD_PREFIX @ y" by (auto simp: prefix_def)
    have cy: "c_string (drop (length x) y)"
      using name y by (auto simp: c_string_def dest: in_set_dropD)
    have "strneq y (x @ r) (length x) \<and> deref (drop (length x) y) = NUL \<longleftrightarrow> y = x"
      using strneq_prefix [OF "2.prems"(2)] deref_NUL [OF cy] by (auto simp: prefix_def)
    then show ?thesis
      using 2 tab True y by (auto simp: find_cmd_def CMD_PREFIX_length)
  qed
qed

text \<open>What running a line means.\<close>

definition run_line :: "symtab \<Rightarrow> string \<Rightarrow> executed" where
  "run_line tab w =
    (let t = dropWhile blank w in
     if t = [] then Nothing
     else case find_cmd tab (takeWhile (\<lambda>c. \<not> blank c) t) of
            Some func \<Rightarrow> Ran func (map Some (split_words FINSH_ARG_MAX t))
          | None \<Rightarrow> NotFound (Some (takeWhile (\<lambda>c. c \<noteq> CHR '' '') t)))"

lemma trim_blanks_spec:
  "trim_blanks (a @ w @ NUL # z) (length a) (of_nat (length w)) =
    Some (length a + length (takeWhile blank w), of_nat (length (dropWhile blank w)))"
proof (induction w arbitrary: a)
  case Nil
  then show ?case by (subst trim_blanks.simps) simp
next
  case (Cons c w)
  show ?case
    using Cons [of "a @ [c]"] by (subst trim_blanks.simps) simp
qed

lemma skip_name_spec:
  "NUL \<notin> set w \<Longrightarrow> skip_name (a @ w @ NUL # z) (length a) =
    Some (length a + length (takeWhile (\<lambda>c. c \<noteq> CHR '' '') w))"
proof (induction w arbitrary: a)
  case Nil
  then show ?case by (subst skip_name.simps) simp
next
  case (Cons c w)
  then show ?case
    using Cons.IH [of "a @ [c]"] by (subst skip_name.simps) auto
qed

lemma drop_blanks_hd: "dropWhile blank w = c # u \<Longrightarrow> \<not> blank c"
  by (metis hd_dropWhile list.sel(1) list.distinct(1))

lemma split_words_some: "dropWhile blank w = c # u \<Longrightarrow> split_words FINSH_ARG_MAX w \<noteq> []"
  by (cases "quote_split u") (auto simp: FINSH_ARG_MAX_def numeral_eq_Suc split: option.splits)

lemma msh_exec_cmd_runs:
  assumes names: "c_names tab" and NUL: "NUL \<notin> set t" and t: "t = c # u" "\<not> blank c"
  defines "x \<equiv> takeWhile (\<lambda>c. \<not> blank c) t"
  shows "case find_cmd tab x of
      None \<Rightarrow> msh_exec_cmd tab (b @ t @ NUL # z) (length b) (length t) = Some (b @ t @ NUL # z, None)
    | Some func \<Rightarrow>
        \<exists>t'. msh_exec_cmd tab (b @ t @ NUL # z) (length b) (length t) =
          Some (b @ t' @ NUL # z, Some (Ran func (map Some (split_words FINSH_ARG_MAX t)))) \<and>
          length t' = length t"
proof -
  have x: "c_string x" "x \<noteq> []"
    using NUL t by (auto simp: x_def c_string_def dest: set_takeWhileD)
  obtain r where r: "t @ NUL # z = x @ r"
    by (metis append.assoc takeWhile_dropWhile_id x_def)
  have word: "skip_word (b @ t @ NUL # z) (length b) (length b + length t) = Some (length b + length x)"
    unfolding x_def by (rule skip_word_spec)
  have cmd: "msh_get_cmd tab (drop (length b) (b @ t @ NUL # z)) (length b + length x - length b) = find_cmd tab x"
    using msh_get_cmd_find [OF names x(1), of r] by (simp add: r)
  have drop: "dropWhile blank t = c # u" using t by simp
  obtain t' ps where split: "msh_split (b @ t @ NUL # z) (length b) (length t) = Some (b @ t' @ NUL # z, ps)"
      "length t' = length t" "map (string_from (b @ t' @ NUL # z)) ps = map Some (split_words FINSH_ARG_MAX t)"
    using msh_split_spec [OF NUL] by blast
  have "ps \<noteq> []" using split(3) split_words_some [OF drop] by auto
  then show ?thesis
    unfolding msh_exec_cmd_def word using x(2) cmd split
    by (auto split: option.splits)
qed

text \<open>
  A line that a zero ends is run as the arguments it shows, and no access leaves its array.
\<close>

theorem msh_exec_runs:
  assumes names: "c_names tab" and NUL: "NUL \<notin> set w" and len: "length w < 2 ^ 32"
  shows "\<exists>buf. msh_exec tab (w @ NUL # z) (of_nat (length w)) = Some (buf, run_line tab w) \<and>
    length buf = length (w @ NUL # z)"
proof -
  define b where "b = takeWhile blank w"
  define t where "t = dropWhile blank w"
  have w: "w = b @ t" by (simp add: b_def t_def)
  have buf: "w @ NUL # z = b @ t @ NUL # z" by (simp add: w)
  have trim: "trim_blanks (b @ t @ NUL # z) 0 (of_nat (length w)) = Some (length b, of_nat (length t))"
    using trim_blanks_spec [of "[]" w z] by (simp add: b_def [symmetric] t_def [symmetric] buf)
  have lt: "length t < 2 ^ 32" using len w by simp
  show ?thesis
  proof (cases t)
    case Nil
    then have "run_line tab w = Nothing" by (simp only: run_line_def Let_def t_def [symmetric] simp_thms if_True)
    then show ?thesis
      using trim Nil by (simp add: msh_exec_def buf)
  next
    case (Cons c u)
    let ?x = "takeWhile (\<lambda>c. \<not> blank c) t" and ?y = "takeWhile (\<lambda>c. c \<noteq> CHR '' '') t"
    have c: "\<not> blank c" using Cons drop_blanks_hd unfolding t_def by blast
    have t: "t \<noteq> []" "NUL \<notin> set t" using Cons NUL w by simp_all
    have u: "unat (of_nat (length t) :: u32) = length t"
      using lt by (simp add: unsigned_of_nat take_bit_nat_eq_self)
    then have n: "(of_nat (length t) :: u32) \<noteq> 0"
      using t(1) by (metis length_0_conv unsigned_0)
    have line: "run_line tab w = (case find_cmd tab ?x of
        Some func \<Rightarrow> Ran func (map Some (split_words FINSH_ARG_MAX t))
      | None \<Rightarrow> NotFound (Some ?y))"
      by (simp add: run_line_def Let_def t_def [symmetric] t(1))
    have exec: "msh_exec tab (w @ NUL # z) (of_nat (length w)) =
      Option.bind (msh_exec_cmd tab (b @ t @ NUL # z) (length b) (length t)) (\<lambda>(buf1, ran).
        case ran of
          Some r \<Rightarrow> Some (buf1, r)
        | None \<Rightarrow> do {
            q \<leftarrow> skip_name buf1 (length b);
            buf2 \<leftarrow> poke buf1 q NUL;
            Some (buf2, NotFound (string_from buf2 (length b)))
          })"
      by (simp add: msh_exec_def buf trim u n)
    have len: "length (w @ NUL # z) = length (b @ t @ NUL # z)" by (simp only: buf)
    note run = msh_exec_cmd_runs [OF names t(2) Cons c, of b z]
    show ?thesis
    proof (cases "find_cmd tab ?x")
      case (Some func)
      then obtain t' where "msh_exec_cmd tab (b @ t @ NUL # z) (length b) (length t) =
          Some (b @ t' @ NUL # z, Some (Ran func (map Some (split_words FINSH_ARG_MAX t))))" "length t' = length t"
        using run by auto
      then show ?thesis unfolding exec line len using Some by simp
    next
      case None
      then have "msh_exec_cmd tab (b @ t @ NUL # z) (length b) (length t) = Some (b @ t @ NUL # z, None)"
        using run by simp
      moreover obtain d r where "dropWhile (\<lambda>c. c \<noteq> CHR '' '') t @ NUL # z = d # r"
        by (cases "dropWhile (\<lambda>c. c \<noteq> CHR '' '') t @ NUL # z") auto
      then have r: "t @ NUL # z = ?y @ d # r"
        by (metis append.assoc takeWhile_dropWhile_id)
      moreover have "skip_name (b @ t @ NUL # z) (length b) = Some (length b + length ?y)"
        by (rule skip_name_spec [OF t(2)])
      moreover have "poke (b @ t @ NUL # z) (length b + length ?y) NUL = Some (b @ ?y @ NUL # r)"
        unfolding r by (simp add: poke_def list_update_append)
      moreover have "string_from (b @ ?y @ NUL # r) (length b) = Some ?y"
        using t(2) by (intro string_from_word) (auto dest: set_takeWhileD)
      moreover have "length (t @ NUL # z) = length (?y @ NUL # r)"
        using arg_cong [OF r, of length] by simp
      ultimately show ?thesis unfolding exec line len using None by simp
    qed
  qed
qed

section \<open>What completion finds\<close>

lemma str_common_simps [simp]:
  "str_common [] t = 0" "str_common s [] = 0"
  "c \<noteq> NUL \<Longrightarrow> str_common (c # s) (d # t) = (if c = d then Suc (str_common s t) else 0)"
  by (simp_all add: str_common.simps)

lemma str_common_le:
  "c_string s \<Longrightarrow> n \<le> str_common s t \<longleftrightarrow> n \<le> length s \<and> prefix (take n s) t"
proof (induction s arbitrary: t n)
  case (Cons c s)
  then show ?case by (cases t; cases n) auto
qed simp

text \<open>The commands that start with what was typed, in the order of the table.\<close>

definition candidates :: "symtab \<Rightarrow> string \<Rightarrow> string list" where
  "candidates tab x = map (\<lambda>(name, func). drop 6 name) (filter (\<lambda>(name, func). prefix (CMD_PREFIX @ x) name) tab)"

lemma candidates_Cons:
  "candidates ((name, func) # tab) x =
    (if prefix CMD_PREFIX name \<and> prefix x (drop 6 name) then [drop 6 name] else []) @ candidates tab x"
  by (auto simp: candidates_def prefix_def CMD_PREFIX_length)

lemma candidates_prefix: "y \<in> set (candidates tab x) \<Longrightarrow> prefix x y"
  by (auto simp: candidates_def prefix_def CMD_PREFIX_length)

lemma candidates_c_string: "c_names tab \<Longrightarrow> y \<in> set (candidates tab x) \<Longrightarrow> c_string y"
  by (auto simp: candidates_def c_names_def c_string_def dest: in_set_dropD)

lemma complete_loop_some:
  assumes "c_names tab" "c_string x" "x \<noteq> []" "c_string nm" "prefix x nm" "length x \<le> m" "m \<le> length nm"
  shows "\<exists>m'. complete_loop tab x (Some nm) m = (Some nm, m', candidates tab x) \<and>
    length x \<le> m' \<and>
    (\<forall>n. n \<le> m' \<longleftrightarrow> n \<le> m \<and> (\<forall>y \<in> set (candidates tab x). prefix (take n nm) y))"
  using assms
proof (induction tab arbitrary: m)
  case Nil
  then show ?case by (simp add: candidates_def)
next
  case (Cons entry tab)
  obtain name func where entry: "entry = (name, func)" by force
  have tab: "c_names tab" using Cons.prems(1) by (simp add: c_names_def)
  have sel: "strneq x s (rt_strlen x) \<longleftrightarrow> prefix x s" for s
    using strneq_prefix_left [OF Cons.prems(2), of "[]" s] rt_strlen_length [OF Cons.prems(2)] by simp
  show ?case
  proof (cases "prefix CMD_PREFIX name \<and> prefix x (drop 6 name)")
    case False
    then have "complete_loop (entry # tab) x (Some nm) m = complete_loop tab x (Some nm) m"
      "candidates (entry # tab) x = candidates tab x"
      by (auto simp: entry candidates_Cons sel)
    then show ?thesis using Cons.IH [OF tab Cons.prems(2-)] by simp
  next
    case True
    define m2 where "m2 = min m (str_common nm (drop 6 name))"
    have common: "n \<le> str_common nm (drop 6 name) \<longleftrightarrow> n \<le> length nm \<and> prefix (take n nm) (drop 6 name)" for n
      by (rule str_common_le [OF Cons.prems(4)])
    have x: "length x \<le> m2"
      using common [of "length x"] True Cons.prems(5,6) by (auto simp: m2_def prefix_def)
    have m2_le: "m2 \<le> length nm" using Cons.prems(7) by (simp add: m2_def)
    obtain m' where m': "complete_loop tab x (Some nm) m2 = (Some nm, m', candidates tab x)" "length x \<le> m'"
      "\<And>n. n \<le> m' \<longleftrightarrow> n \<le> m2 \<and> (\<forall>y \<in> set (candidates tab x). prefix (take n nm) y)"
      using Cons.IH [OF tab Cons.prems(2-5) x m2_le] by blast
    have "0 < m" using Cons.prems(3,6) by (cases x) auto
    then have "complete_loop (entry # tab) x (Some nm) m = (Some nm, m', drop 6 name # candidates tab x)"
      using True m'(1) by (auto simp: entry sel Let_def m2_def min_def not_less split: if_splits)
    then show ?thesis
      using True m' common Cons.prems(7) by (auto simp: entry candidates_Cons m2_def)
  qed
qed

lemma complete_loop_none:
  assumes "c_names tab" "c_string x" "x \<noteq> []"
  shows "case candidates tab x of
      [] \<Rightarrow> complete_loop tab x None 0 = (None, 0, [])
    | nm # _ \<Rightarrow>
        \<exists>m. complete_loop tab x None 0 = (Some nm, m, candidates tab x) \<and> m \<le> length nm \<and>
          take m nm = Longest_common_prefix (set (candidates tab x))"
  using assms
proof (induction tab)
  case Nil
  then show ?case by (simp add: candidates_def)
next
  case (Cons entry tab)
  obtain name func where entry: "entry = (name, func)" by force
  have tab: "c_names tab" and name: "c_string name" using Cons.prems(1) by (auto simp: c_names_def entry)
  have sel: "strneq x s (rt_strlen x) \<longleftrightarrow> prefix x s" for s
    using strneq_prefix_left [OF Cons.prems(2), of "[]" s] rt_strlen_length [OF Cons.prems(2)] by simp
  show ?case
  proof (cases "prefix CMD_PREFIX name \<and> prefix x (drop 6 name)")
    case False
    then have "complete_loop (entry # tab) x None 0 = complete_loop tab x None 0"
      "candidates (entry # tab) x = candidates tab x"
      by (auto simp: entry candidates_Cons sel)
    then show ?thesis using Cons.IH [OF tab Cons.prems(2-)] by (simp split: list.splits)
  next
    case True
    define nm where "nm = drop 6 name"
    have nm: "c_string nm" "prefix x nm" "length x \<le> length nm"
      using True name prefix_length_le [of x "drop 6 name"] by (auto simp: nm_def c_string_def dest: in_set_dropD)
    have same: "str_common nm nm = length nm"
      using str_common_le [OF nm(1), of "length nm" nm] str_common_le [OF nm(1), of "str_common nm nm" nm] by simp
    obtain m where m: "complete_loop tab x (Some nm) (length nm) = (Some nm, m, candidates tab x)"
      "\<And>n. n \<le> m \<longleftrightarrow> n \<le> length nm \<and> (\<forall>y \<in> set (candidates tab x). prefix (take n nm) y)"
      using complete_loop_some [OF tab Cons.prems(2,3) nm order_refl] by blast
    have cands: "candidates (entry # tab) x = nm # candidates tab x"
      using True by (simp add: entry candidates_Cons nm_def)
    have loop: "complete_loop (entry # tab) x None 0 = (Some nm, m, nm # candidates tab x)"
      using True m(1) same by (simp add: entry sel Let_def nm_def rt_strlen_length [OF nm(1) [unfolded nm_def]])
    have le: "m \<le> length nm" using m(2) [of m] by simp
    have "Longest_common_prefix (set (candidates (entry # tab) x)) = take m nm"
    proof (rule Longest_common_prefix_eq)
      show "\<forall>y \<in> set (candidates (entry # tab) x). prefix (take m nm) y"
        using m(2) [of m] by (auto simp: cands take_is_prefix)
      show "\<forall>q. (\<forall>y \<in> set (candidates (entry # tab) x). prefix q y) \<longrightarrow> length q \<le> length (take m nm)"
      proof (intro allI impI)
        fix q assume q: "\<forall>y \<in> set (candidates (entry # tab) x). prefix q y"
        then have "prefix q nm" by (simp add: cands)
        then have "q = take (length q) nm" "length q \<le> length nm"
          by (auto simp: prefix_def)
        then show "length q \<le> length (take m nm)"
          using m(2) [of "length q"] q le by (auto simp: cands)
      qed
    qed (simp add: cands)
    then show ?thesis using loop le by (simp add: cands)
  qed
qed

text \<open>
  The line becomes the longest text that all commands starting with it share, and these
  commands are listed.
\<close>

lemma auto_complete_spec:
  assumes "c_names tab" "NUL \<notin> set x" "x \<noteq> []"
  shows "case candidates tab x of
      [] \<Rightarrow> msh_auto_complete tab (x @ NUL # z) = Some (x @ NUL # z, [])
    | _ \<Rightarrow>
       (let y = Longest_common_prefix (set (candidates tab x)) in
        length y \<le> length (x @ NUL # z) \<longrightarrow>
          msh_auto_complete tab (x @ NUL # z) = Some (y @ drop (length y) (x @ NUL # z), candidates tab x))"
proof -
  have x: "c_string x" using assms(2) by (auto simp: c_string_def)
  have pre: "string_from (x @ NUL # z) 0 = Some x"
    using string_from_word [OF assms(2), of "[]" z] by simp
  show ?thesis
  proof (cases "candidates tab x")
    case Nil
    then show ?thesis
      using complete_loop_none [OF assms(1) x assms(3)] pre assms(3) by (simp add: msh_auto_complete_def)
  next
    case (Cons nm rest)
    then obtain m where m: "complete_loop tab x None 0 = (Some nm, m, candidates tab x)" "m \<le> length nm"
        "take m nm = Longest_common_prefix (set (candidates tab x))"
      using complete_loop_none [OF assms(1) x assms(3)] by auto
    define y where "y = take m nm"
    have y: "rt_strncpy nm m = y" "length y = m"
      using rt_strncpy_pad [OF candidates_c_string [OF assms(1), of nm x]] Cons m(2) by (simp_all add: y_def)
    have "msh_auto_complete tab (x @ NUL # z) =
        (if m \<le> length (x @ NUL # z) then Some (y @ drop m (x @ NUL # z), candidates tab x) else None)"
      using m(1) pre assms(3) y by (simp add: msh_auto_complete_def memcpy_at_def del: drop_append)
    moreover have "Longest_common_prefix (set (nm # rest)) = y"
      using m(3) by (simp add: y_def Cons)
    ultimately show ?thesis
      using y(2) by (simp add: Cons Let_def del: drop_append)
  qed
qed

section \<open>Typing arguments\<close>

text \<open>How a user writes an argument: as a word, or between quotes when it has blanks.\<close>

datatype shell_arg = Plain string | Quoted string

primrec arg_text :: "shell_arg \<Rightarrow> string" where
  "arg_text (Plain s) = s"
| "arg_text (Quoted s) = s"

primrec arg_show :: "shell_arg \<Rightarrow> string" where
  "arg_show (Plain s) = s"
| "arg_show (Quoted s) = QUOTE # s @ [QUOTE]"

primrec arg_ok :: "shell_arg \<Rightarrow> bool" where
  "arg_ok (Plain s) \<longleftrightarrow> s \<noteq> [] \<and> hd s \<noteq> QUOTE \<and> (\<forall>c \<in> set s. \<not> blank c \<and> c \<noteq> NUL)"
| "arg_ok (Quoted s) \<longleftrightarrow> (\<forall>c \<in> set s. c \<noteq> QUOTE \<and> c \<noteq> BACKSLASH \<and> c \<noteq> NUL)"

fun show_args :: "shell_arg list \<Rightarrow> string" where
  "show_args [] = []"
| "show_args [x] = arg_show x"
| "show_args (x # xs) = arg_show x @ CHR '' '' # show_args xs"

lemma quote_split_quoted:
  "\<forall>c \<in> set s. c \<noteq> QUOTE \<and> c \<noteq> BACKSLASH \<Longrightarrow> quote_split (s @ QUOTE # r) = (s, Some r)"
  by (induction s) auto

lemma take_word:
  assumes "\<forall>c \<in> set s. \<not> blank c"
  shows "takeWhile (\<lambda>c. \<not> blank c) (s @ CHR '' '' # r) = s"
    and "dropWhile (\<lambda>c. \<not> blank c) (s @ CHR '' '' # r) = CHR '' '' # r"
  using assms by (induction s) auto

lemma split_words_blank: "split_words n (CHR '' '' # w) = split_words n w"
  by (cases n) simp_all

lemma split_words_arg:
  assumes "arg_ok x"
  shows "split_words (Suc n) (arg_show x @ CHR '' '' # r) = arg_text x # split_words n r"
    and "split_words (Suc n) (arg_show x) = [arg_text x]"
proof -
  show "split_words (Suc n) (arg_show x @ CHR '' '' # r) = arg_text x # split_words n r"
  proof (cases x)
    case (Plain s)
    then obtain c u where "s = c # u" "\<not> blank c" "c \<noteq> QUOTE" "\<forall>c \<in> set s. \<not> blank c"
      using assms by (cases s) auto
    then show ?thesis
      using Plain take_word [of s r] by (simp add: split_words_blank)
  next
    case (Quoted s)
    then show ?thesis
      using assms quote_split_quoted [of s "CHR '' '' # r"] by (simp add: split_words_blank)
  qed
  show "split_words (Suc n) (arg_show x) = [arg_text x]"
  proof (cases x)
    case (Plain s)
    then obtain c u where s: "s = c # u" "\<not> blank c" "c \<noteq> QUOTE" and word: "\<forall>c \<in> set s. \<not> blank c"
      using assms by (cases s) auto
    then show ?thesis
      using Plain s word by (simp add: dropWhile_eq_Nil_conv [THEN iffD2] takeWhile_eq_all_conv [THEN iffD2])
  next
    case (Quoted s)
    then show ?thesis using assms quote_split_quoted [of s "[]"] by simp
  qed
qed

lemma split_words_show:
  "\<forall>x \<in> set xs. arg_ok x \<Longrightarrow> split_words n (show_args xs) = take n (map arg_text xs)"
proof (induction xs arbitrary: n rule: show_args.induct)
  case (2 x)
  then show ?case using split_words_arg(2) by (cases n) auto
next
  case (3 x y ys)
  then show ?case using split_words_arg(1) [of x] by (cases n) auto
qed simp

lemma show_args_chars: "\<forall>x \<in> set xs. arg_ok x \<Longrightarrow> NUL \<notin> set (show_args xs)"
proof (induction xs rule: show_args.induct)
  case (2 x)
  then show ?case by (cases x) auto
next
  case (3 x y ys)
  then show ?case by (cases x) auto
qed simp

text \<open>A command typed with arguments calls its function with exactly these.\<close>

lemma run_line_typed:
  assumes "find_cmd tab cmd = Some func" and "arg_ok (Plain cmd)" and "\<forall>x \<in> set xs. arg_ok x"
  shows "run_line tab (show_args (Plain cmd # xs)) =
    Ran func (map Some (take FINSH_ARG_MAX (cmd # map arg_text xs)))"
proof -
  let ?w = "show_args (Plain cmd # xs)"
  have ok: "\<forall>x \<in> set (Plain cmd # xs). arg_ok x" using assms by simp
  obtain c u where c: "cmd = c # u" "\<not> blank c" and word: "\<forall>c \<in> set cmd. \<not> blank c"
    using assms(2) by (cases cmd) auto
  have w: "?w = cmd @ (case xs of [] \<Rightarrow> [] | _ # _ \<Rightarrow> CHR '' '' # show_args xs)"
    by (cases xs) simp_all
  then have drop: "dropWhile blank ?w = ?w" using c by simp
  have take: "takeWhile (\<lambda>c. \<not> blank c) ?w = cmd"
    using w take_word(1) [OF word] word by (simp split: list.splits)
  have ne: "?w \<noteq> []" using w c by simp
  show ?thesis
    using split_words_show [OF ok, of FINSH_ARG_MAX] assms(1)
    unfolding run_line_def Let_def drop take by (simp add: ne)
qed

end
