(* ===== verification/Shell.thy ===== *)
theory Shell
  imports Msh
begin

text \<open>
  The line editor of the console, \<^verbatim>\<open>components/finsh/shell.c\<close> with
  \<^verbatim>\<open>FINSH_USING_MSH_ONLY\<close> and \<^verbatim>\<open>FINSH_USING_HISTORY\<close>: one step of the loop of
  \<^verbatim>\<open>finsh_thread_entry\<close> for each character that \<^verbatim>\<open>finsh_getchar\<close> gives, from the cursor
  keys to the command that is run. As in \<^verbatim>\<open>Msh\<close>, \<^const>\<open>None\<close> is an access outside of an
  array of the shell. What the step prints is kept as a list; characters are unsigned, as
  on the target.
\<close>

section \<open>State\<close>

definition FINSH_CMD_SIZE :: nat where "FINSH_CMD_SIZE = 80"

definition FINSH_HISTORY_LINES :: nat where "FINSH_HISTORY_LINES = 5"

datatype input_stat = WAIT_NORMAL | WAIT_SPEC_KEY | WAIT_FUNC_KEY

text \<open>
  What reaches the console: text of the editor, the list of names that help or completion
  prints a line each, and whatever a command prints.
\<close>

datatype console = Text string | Names "string list" | Output executed

record finsh_shell =
  stat :: input_stat
  echo_mode :: bool
  prompt_mode :: bool
  current_history :: u16
  history_count :: u16
  cmd_history :: "string list"
  line :: string
  line_position :: u8
  line_curpos :: u8
  out :: "console list"
  ran :: "executed list"

text \<open>\<^verbatim>\<open>finsh_system_init\<close> clears the structure; the thread then turns the echo on.\<close>

definition finsh_init :: finsh_shell where
  "finsh_init = \<lparr>stat = WAIT_NORMAL, echo_mode = True, prompt_mode = True,
     current_history = 0, history_count = 0,
     cmd_history = replicate FINSH_HISTORY_LINES (replicate FINSH_CMD_SIZE NUL),
     line = replicate FINSH_CMD_SIZE NUL, line_position = 0, line_curpos = 0,
     out = [Text ''msh >''], ran = []\<rparr>"

text \<open>The prompt, as long as \<^verbatim>\<open>finsh_set_prompt\<close> has not been called.\<close>

definition finsh_get_prompt :: "finsh_shell \<Rightarrow> string" where
  "finsh_get_prompt s = (if prompt_mode s then ''msh >'' else [])"

text \<open>
  The modes are fields of one bit: of the value that is set, the lowest bit stays.
\<close>

definition finsh_set_prompt_mode :: "u32 \<Rightarrow> finsh_shell \<Rightarrow> finsh_shell" where
  "finsh_set_prompt_mode m s = s\<lparr>prompt_mode := odd m\<rparr>"

definition finsh_get_prompt_mode :: "finsh_shell \<Rightarrow> u32" where
  "finsh_get_prompt_mode s = of_bool (prompt_mode s)"

definition finsh_set_echo :: "u32 \<Rightarrow> finsh_shell \<Rightarrow> finsh_shell" where
  "finsh_set_echo m s = s\<lparr>echo_mode := odd m\<rparr>"

definition finsh_get_echo :: "finsh_shell \<Rightarrow> u32" where
  "finsh_get_echo s = of_bool (echo_mode s)"

text \<open>So an even value other than zero turns the prompt off, which it is documented to turn on.\<close>

lemma prompt_mode_kept: "finsh_get_prompt_mode (finsh_set_prompt_mode m s) = m mod 2"
  by (simp add: finsh_get_prompt_mode_def finsh_set_prompt_mode_def mod_2_eq_odd)

lemma even_mode_no_prompt: "even m \<Longrightarrow> finsh_get_prompt (finsh_set_prompt_mode m s) = []"
  by (simp add: finsh_get_prompt_def finsh_set_prompt_mode_def)

definition rt_kprintf :: "string \<Rightarrow> finsh_shell \<Rightarrow> finsh_shell" where
  "rt_kprintf t s = s\<lparr>out := out s @ [Text t]\<rparr>"

text \<open>\<^verbatim>\<open>rt_memmove\<close> within the line; it copies as if through a buffer.\<close>

definition move_chars :: "string \<Rightarrow> nat \<Rightarrow> nat \<Rightarrow> nat \<Rightarrow> string option" where
  "move_chars buf dst src n =
    (if dst + n \<le> length buf \<and> src + n \<le> length buf then Some (memcpy_at buf dst (drop src buf) n) else None)"

abbreviation (input) BS :: char where "BS \<equiv> CHR 0x08"
abbreviation (input) DEL :: char where "DEL \<equiv> CHR 0x7F"
abbreviation (input) CR :: char where "CR \<equiv> CHR 0x0D"
abbreviation (input) LF :: char where "LF \<equiv> CHR 0x0A"
abbreviation (input) ESC :: char where "ESC \<equiv> CHR 0x1B"

section \<open>History\<close>

definition shell_handle_history :: "finsh_shell \<Rightarrow> finsh_shell option" where
  "shell_handle_history s = do {
     t \<leftarrow> string_from (line s) 0;
     Some (rt_kprintf (finsh_get_prompt s @ t) (rt_kprintf [ESC, CHR ''['', CHR ''2'', CHR ''K'', CR] s))
   }"

definition shell_push_history :: "finsh_shell \<Rightarrow> finsh_shell option" where
  "shell_push_history s = do {
     s1 \<leftarrow>
       (if line_position s \<noteq> 0 then
          if FINSH_CMD_SIZE < unat (line_position s) then None
          else
            (let entry = memcpy_at (replicate FINSH_CMD_SIZE NUL) 0 (line s) (unat (line_position s)) in
             if FINSH_HISTORY_LINES \<le> unat (history_count s) then
               (if cmd_history s ! (FINSH_HISTORY_LINES - 1) \<noteq> line s then
                  Some (s\<lparr>cmd_history := tl (cmd_history s) @ [entry],
                          history_count := of_nat FINSH_HISTORY_LINES\<rparr>)
                else Some s)
             else
               (if history_count s = 0 \<or> cmd_history s ! (unat (history_count s) - 1) \<noteq> line s then
                  Some (s\<lparr>current_history := history_count s,
                          cmd_history := (cmd_history s)[unat (history_count s) := entry],
                          history_count := history_count s + 1\<rparr>)
                else Some s))
        else Some s);
     Some (s1\<lparr>current_history := history_count s1\<rparr>)
   }"

text \<open>The command at \<^verbatim>\<open>current_history\<close> becomes the line, with the cursor at its end.\<close>

definition recall :: "finsh_shell \<Rightarrow> finsh_shell option" where
  "recall s =
    (if unat (current_history s) < FINSH_HISTORY_LINES then
       (let l = cmd_history s ! unat (current_history s) in do {
          t \<leftarrow> string_from l 0;
          shell_handle_history
            (s\<lparr>line := l, line_curpos := of_nat (length t), line_position := of_nat (length t)\<rparr>)
        })
     else None)"

section \<open>Keys\<close>

definition up_key :: "finsh_shell \<Rightarrow> finsh_shell option" where
  "up_key s =
    (if 0 < current_history s then recall (s\<lparr>current_history := current_history s - 1\<rparr>)
     else Some (s\<lparr>current_history := 0\<rparr>))"

definition down_key :: "finsh_shell \<Rightarrow> finsh_shell option" where
  "down_key s =
    (if uint (current_history s) < uint (history_count s) - 1 then
       recall (s\<lparr>current_history := current_history s + 1\<rparr>)
     else if history_count s \<noteq> 0 then recall (s\<lparr>current_history := history_count s - 1\<rparr>)
     else Some s)"

definition left_key :: "finsh_shell \<Rightarrow> finsh_shell" where
  "left_key s =
    (if line_curpos s \<noteq> 0 then (rt_kprintf [BS] s)\<lparr>line_curpos := line_curpos s - 1\<rparr> else s)"

definition right_key :: "finsh_shell \<Rightarrow> finsh_shell option" where
  "right_key s =
    (if line_curpos s < line_position s then do {
       c \<leftarrow> peek (line s) (unat (line_curpos s));
       Some ((rt_kprintf [c] s)\<lparr>line_curpos := line_curpos s + 1\<rparr>)
     }
     else Some s)"

definition tab_key :: "symtab \<Rightarrow> finsh_shell \<Rightarrow> finsh_shell option" where
  "tab_key tab s = do {
     (l, names) \<leftarrow> msh_auto_complete tab (line s);
     t \<leftarrow> string_from l 0;
     Some (s\<lparr>line := l, line_curpos := of_nat (length t), line_position := of_nat (length t),
             out := out s @
               [Text (replicate (unat (line_curpos s)) BS), Text [LF], Names names,
                Text (finsh_get_prompt s @ t)]\<rparr>)
   }"

definition backspace_key :: "finsh_shell \<Rightarrow> finsh_shell option" where
  "backspace_key s =
    (if line_curpos s = 0 then Some s
     else
       (let pos = line_position s - 1; cur = line_curpos s - 1; s1 = s\<lparr>line_position := pos, line_curpos := cur\<rparr> in
        if cur < pos then do {
          l \<leftarrow> move_chars (line s) (unat cur) (unat cur + 1) (unat pos - unat cur);
          l \<leftarrow> poke l (unat pos) NUL;
          t \<leftarrow> string_from l (unat cur);
          Some (rt_kprintf (replicate (unat pos - unat cur + 1) BS)
            (rt_kprintf ([BS] @ t @ '' '' @ '' '' @ [BS]) (s1\<lparr>line := l\<rparr>)))
        }
        else do {
          l \<leftarrow> poke (line s) (unat pos) NUL;
          Some ((rt_kprintf [BS, CHR '' '', BS] s1)\<lparr>line := l\<rparr>)
        }))"

definition enter_key :: "symtab \<Rightarrow> finsh_shell \<Rightarrow> finsh_shell option" where
  "enter_key tab s = do {
     s1 \<leftarrow> shell_push_history s;
     s2 \<leftarrow> Some (if echo_mode s1 then rt_kprintf [LF] s1 else s1);
     (l, r) \<leftarrow> msh_exec tab (line s2) (ucast (line_position s2));
     s3 \<leftarrow> Some (rt_kprintf (finsh_get_prompt s2) (s2\<lparr>ran := ran s2 @ [r], out := out s2 @ [Output r]\<rparr>));
     Some (s3\<lparr>line := replicate FINSH_CMD_SIZE NUL, line_curpos := 0, line_position := 0\<rparr>)
   }"

text \<open>A character that is none of the keys goes into the line at the cursor.\<close>

definition insert_char :: "char \<Rightarrow> finsh_shell \<Rightarrow> finsh_shell option" where
  "insert_char ch s0 =
    (let s = (if FINSH_CMD_SIZE \<le> unat (line_position s0) then s0\<lparr>line_position := 0\<rparr> else s0);
         cur = unat (line_curpos s); pos = unat (line_position s) in do {
     s1 \<leftarrow>
       (if cur < pos then do {
          l \<leftarrow> move_chars (line s) (cur + 1) cur (pos - cur);
          l \<leftarrow> poke l cur ch;
          s1 \<leftarrow> (if echo_mode s then do {
                   t \<leftarrow> string_from l cur;
                   Some (rt_kprintf t (s\<lparr>line := l\<rparr>))
                 } else Some (s\<lparr>line := l\<rparr>));
          Some (rt_kprintf (replicate (pos - cur) BS) s1)
        }
        else do {
          l \<leftarrow> poke (line s) pos ch;
          Some (if echo_mode s then rt_kprintf [ch] (s\<lparr>line := l\<rparr>) else s\<lparr>line := l\<rparr>)
        });
     s2 \<leftarrow> Some (s1\<lparr>line_position := line_position s1 + 1, line_curpos := line_curpos s1 + 1\<rparr>);
     Some (if FINSH_CMD_SIZE \<le> unat (line_position s2) then s2\<lparr>line_position := 0, line_curpos := 0\<rparr> else s2)
   })"

definition plain_key :: "symtab \<Rightarrow> char \<Rightarrow> finsh_shell \<Rightarrow> finsh_shell option" where
  "plain_key tab ch s =
    (if ch = NUL \<or> ch = CHR 0xFF then Some s
     else if ch = TAB then tab_key tab s
     else if ch = DEL \<or> ch = BS then backspace_key s
     else if ch = CR \<or> ch = LF then enter_key tab s
     else insert_char ch s)"

definition finsh_key :: "symtab \<Rightarrow> char \<Rightarrow> finsh_shell \<Rightarrow> finsh_shell option" where
  "finsh_key tab ch s =
    (if ch = ESC then Some (s\<lparr>stat := WAIT_SPEC_KEY\<rparr>)
     else
       (case stat s of
          WAIT_SPEC_KEY \<Rightarrow>
            if ch = CHR 0x5B then Some (s\<lparr>stat := WAIT_FUNC_KEY\<rparr>)
            else plain_key tab ch (s\<lparr>stat := WAIT_NORMAL\<rparr>)
        | WAIT_FUNC_KEY \<Rightarrow>
            (let s1 = s\<lparr>stat := WAIT_NORMAL\<rparr> in
             if ch = CHR 0x41 then up_key s1
             else if ch = CHR 0x42 then down_key s1
             else if ch = CHR 0x44 then Some (left_key s1)
             else if ch = CHR 0x43 then right_key s1
             else plain_key tab ch s1)
        | WAIT_NORMAL \<Rightarrow> plain_key tab ch s))"

primrec finsh_keys :: "symtab \<Rightarrow> string \<Rightarrow> finsh_shell \<Rightarrow> finsh_shell option" where
  "finsh_keys tab [] s = Some s"
| "finsh_keys tab (c # cs) s = Option.bind (finsh_key tab c s) (finsh_keys tab cs)"

section \<open>What the editor promises\<close>

text \<open>
  The reference editor: the text before and after the cursor, the commands kept, how far back
  the user has gone in them, and what has been run. A character that would fill the line is
  outside of the contract.
\<close>

record editor =
  before :: string
  after :: string
  hist :: "string list"
  hpos :: nat
  keys :: input_stat
  executed :: "executed list"

definition ed_text :: "editor \<Rightarrow> string" where
  "ed_text e = before e @ after e"

definition ed_init :: editor where
  "ed_init = \<lparr>before = [], after = [], hist = [], hpos = 0, keys = WAIT_NORMAL, executed = []\<rparr>"

definition remember :: "string \<Rightarrow> string list \<Rightarrow> string list" where
  "remember t h =
    (if t = [] \<or> (h \<noteq> [] \<and> last h = t) then h
     else if length h < FINSH_HISTORY_LINES then h @ [t] else tl h @ [t])"

definition complete :: "symtab \<Rightarrow> string \<Rightarrow> string" where
  "complete tab t =
    (if t = [] \<or> candidates tab t = [] then t else Longest_common_prefix (set (candidates tab t)))"

definition ed_recall :: "nat \<Rightarrow> editor \<Rightarrow> editor" where
  "ed_recall i e = e\<lparr>hpos := i, before := hist e ! i, after := []\<rparr>"

definition ed_plain :: "symtab \<Rightarrow> char \<Rightarrow> editor \<Rightarrow> editor option" where
  "ed_plain tab c e =
    (if c = NUL \<or> c = CHR 0xFF then Some e
     else if c = TAB then Some (e\<lparr>before := complete tab (ed_text e), after := []\<rparr>)
     else if c = DEL \<or> c = BS then Some (e\<lparr>before := butlast (before e)\<rparr>)
     else if c = CR \<or> c = LF then
       Some (e\<lparr>before := [], after := [], hist := remember (ed_text e) (hist e),
               hpos := length (remember (ed_text e) (hist e)),
               executed := executed e @ [run_line tab (ed_text e)]\<rparr>)
     else if length (ed_text e) + 1 < FINSH_CMD_SIZE then Some (e\<lparr>before := before e @ [c]\<rparr>)
     else None)"

definition ed_key :: "symtab \<Rightarrow> char \<Rightarrow> editor \<Rightarrow> editor option" where
  "ed_key tab c e =
    (if c = ESC then Some (e\<lparr>keys := WAIT_SPEC_KEY\<rparr>)
     else
       (let e1 = e\<lparr>keys := WAIT_NORMAL\<rparr> in
        case keys e of
          WAIT_SPEC_KEY \<Rightarrow> if c = CHR 0x5B then Some (e\<lparr>keys := WAIT_FUNC_KEY\<rparr>) else ed_plain tab c e1
        | WAIT_FUNC_KEY \<Rightarrow>
            if c = CHR 0x41 then Some (if hpos e = 0 then e1 else ed_recall (hpos e - 1) e1)
            else if c = CHR 0x42 then
              Some (if hist e = [] then e1
                    else ed_recall (if hpos e + 1 < length (hist e) then hpos e + 1 else length (hist e) - 1) e1)
            else if c = CHR 0x44 then
              Some (if before e = [] then e1
                    else e1\<lparr>before := butlast (before e), after := last (before e) # after e\<rparr>)
            else if c = CHR 0x43 then
              Some (case after e of [] \<Rightarrow> e1 | d # r \<Rightarrow> e1\<lparr>before := before e @ [d], after := r\<rparr>)
            else ed_plain tab c e1
        | WAIT_NORMAL \<Rightarrow> ed_plain tab c e))"

primrec ed_keys :: "symtab \<Rightarrow> string \<Rightarrow> editor \<Rightarrow> editor option" where
  "ed_keys tab [] e = Some e"
| "ed_keys tab (c # cs) e = Option.bind (ed_key tab c e) (ed_keys tab cs)"

text \<open>A text in an array of the shell: zeros fill the rest.\<close>

definition row :: "string \<Rightarrow> string" where
  "row t = t @ replicate (FINSH_CMD_SIZE - length t) NUL"

definition fits :: "string \<Rightarrow> bool" where
  "fits t \<longleftrightarrow> NUL \<notin> set t \<and> length t < FINSH_CMD_SIZE"

text \<open>The shell that stands for a state of the editor.\<close>

definition shows_editor :: "finsh_shell \<Rightarrow> editor \<Rightarrow> bool" where
  "shows_editor s e \<longleftrightarrow>
    line s = row (ed_text e) \<and> fits (ed_text e) \<and>
    line_position s = of_nat (length (ed_text e)) \<and> line_curpos s = of_nat (length (before e)) \<and>
    length (cmd_history s) = FINSH_HISTORY_LINES \<and> length (hist e) \<le> FINSH_HISTORY_LINES \<and>
    history_count s = of_nat (length (hist e)) \<and>
    (\<forall>i < length (hist e). cmd_history s ! i = row (hist e ! i)) \<and> (\<forall>t \<in> set (hist e). fits t) \<and>
    current_history s = of_nat (hpos e) \<and> hpos e \<le> length (hist e) \<and>
    stat s = keys e \<and> ran s = executed e \<and> echo_mode s"

lemma row_split: "length t < FINSH_CMD_SIZE \<Longrightarrow> row t = t @ NUL # replicate (FINSH_CMD_SIZE - length t - 1) NUL"
  by (simp add: row_def replicate_Suc [symmetric] del: replicate_Suc)

lemma length_row: "length t \<le> FINSH_CMD_SIZE \<Longrightarrow> length (row t) = FINSH_CMD_SIZE"
  by (simp add: row_def)

lemma string_row: "fits t \<Longrightarrow> string_from (row t) 0 = Some t"
  using string_from_word [of t "[]"] by (simp add: row_split fits_def)

lemma string_row_from:
  assumes "fits (a @ t)"
  shows "string_from (row (a @ t)) (length a) = Some t"
proof -
  have "row (a @ t) = a @ t @ NUL # replicate (FINSH_CMD_SIZE - length (a @ t) - 1) NUL"
    using assms row_split [of "a @ t"] by (simp add: fits_def)
  then show ?thesis using assms string_from_word [of t a] by (simp add: fits_def)
qed

lemma row_inj: "fits t \<Longrightarrow> fits u \<Longrightarrow> row t = row u \<longleftrightarrow> t = u"
  by (metis string_row option.inject)

lemma small_word: "n < 256 \<Longrightarrow> unat (of_nat n :: u8) = n" "n < 65536 \<Longrightarrow> unat (of_nat n :: u16) = n"
  by (simp_all add: unsigned_of_nat take_bit_nat_eq_self)

lemma fits_len: "fits t \<Longrightarrow> length t < 80"
  by (simp add: fits_def FINSH_CMD_SIZE_def)

section \<open>Each key on a line that fits\<close>

lemma row_insert:
  assumes "length (b @ a) + 1 < FINSH_CMD_SIZE"
  shows "do { l \<leftarrow> move_chars (row (b @ a)) (length b + 1) (length b) (length a); poke l (length b) c } =
    Some (row (b @ c # a))"
proof -
  define z where "z = replicate (FINSH_CMD_SIZE - length (b @ a) - 1) NUL"
  have r: "row (b @ a) = b @ a @ NUL # z" "row (b @ c # a) = b @ c # a @ z"
    using assms row_split [of "b @ a"] by (simp_all add: z_def) (simp add: row_def)
  have "take (length b + 1) (b @ a @ NUL # z) = b @ [hd (a @ [NUL])]"
    by (cases a) simp_all
  moreover have "drop (length b + 1 + length a) (b @ a @ NUL # z) = z"
    by simp
  ultimately have "memcpy_at (row (b @ a)) (length b + 1) (drop (length b) (row (b @ a))) (length a) =
      b @ hd (a @ [NUL]) # a @ z"
    by (simp add: r memcpy_at_def)
  moreover have "length b + 1 + length a \<le> length (row (b @ a))" by (simp add: r)
  ultimately show ?thesis by (simp add: move_chars_def poke_def r(2))
qed

lemma row_append:
  assumes "length b + 1 < FINSH_CMD_SIZE"
  shows "poke (row b) (length b) c = Some (row (b @ [c]))"
  using row_insert [of b "[]" c] assms by (simp add: move_chars_def length_row)

lemma row_delete:
  assumes "length (b @ x # a) < FINSH_CMD_SIZE"
  shows "do { l \<leftarrow> move_chars (row (b @ x # a)) (length b) (length b + 1) (length a);
      poke l (length b + length a) NUL } = Some (row (b @ a))"
proof -
  define z where "z = replicate (FINSH_CMD_SIZE - length (b @ x # a) - 1) NUL"
  have r: "row (b @ x # a) = b @ x # a @ NUL # z" "row (b @ a) = b @ a @ NUL # NUL # z"
    using assms row_split [of "b @ x # a"] row_split [of "b @ a"]
    by (simp_all add: z_def replicate_Suc [symmetric] del: replicate_Suc)
  have "drop (length b + length a) (b @ x # a @ NUL # z) = drop (length a) (x # a) @ NUL # z"
    using drop_append [of "length a" "x # a" "NUL # z"] by simp
  moreover obtain y where "drop (length a) (x # a) = [y]"
    by (metis One_nat_def Suc_diff_le diff_self_eq_0 le_refl length_0_conv length_Cons length_Suc_conv length_drop)
  ultimately have "memcpy_at (row (b @ x # a)) (length b) (drop (length b + 1) (row (b @ x # a))) (length a) =
      b @ a @ y # NUL # z"
    by (simp add: r memcpy_at_def)
  moreover have "length b + 1 + length a \<le> length (row (b @ x # a))" by (simp add: r)
  ultimately show ?thesis by (simp add: move_chars_def poke_def r(2) list_update_append)
qed

lemma row_chop:
  assumes "length (b @ [x]) < FINSH_CMD_SIZE"
  shows "poke (row (b @ [x])) (length b) NUL = Some (row b)"
  using row_delete [of b x "[]"] assms by (simp add: move_chars_def length_row)

section \<open>The terminal\<close>

text \<open>
  The row of a terminal that the cursor is in, and the column: a character is written over the
  one in its column, a backspace moves left, a return goes to the first column, a line feed to
  a new row, and the escape sequence of \<^verbatim>\<open>shell_handle_history\<close> clears the row. The rows
  are as long as needed. Lists of names and the output of commands end with a line feed.
\<close>

definition term_char :: "char \<Rightarrow> string \<times> nat \<Rightarrow> string \<times> nat" where
  "term_char c t =
    (let (r, n) = t in
     if c = BS then (r, n - 1) else if c = CR then (r, 0) else if c = LF then ([], 0)
     else (take n r @ replicate (n - length r) CHR '' '' @ c # drop (Suc n) r, Suc n))"

function term_text :: "string \<Rightarrow> string \<times> nat \<Rightarrow> string \<times> nat" where
  "term_text [] t = t"
| "term_text (c # cs) t =
    (if c = ESC \<and> take 3 cs = ''[2K'' then term_text (drop 3 cs) ([], snd t)
     else term_text cs (term_char c t))"
  by pat_completeness auto
termination by (relation "measure (\<lambda>(cs, t). length cs)") auto

primrec term_out :: "console \<Rightarrow> string \<times> nat \<Rightarrow> string \<times> nat" where
  "term_out (Text cs) t = term_text cs t"
| "term_out (Names ns) t = ([], 0)"
| "term_out (Output r) t = ([], 0)"

definition screen :: "console list \<Rightarrow> string \<times> nat" where
  "screen cs = fold term_out cs ([], 0)"

lemma screen_append: "screen (a @ b) = fold term_out b (screen a)"
  by (simp add: screen_def)

definition visible :: "char \<Rightarrow> bool" where
  "visible c \<longleftrightarrow> 32 \<le> (of_char c :: nat) \<and> (of_char c :: nat) < 127"

lemma visible_not: "visible c \<Longrightarrow> c \<noteq> BS \<and> c \<noteq> CR \<and> c \<noteq> LF \<and> c \<noteq> ESC"
  by (auto simp: visible_def)

lemma term_text_visible:
  "\<forall>c \<in> set u. visible c \<Longrightarrow> term_text (u @ v) (L @ M, length L) =
    term_text v (L @ u @ drop (length u) M, length L + length u)"
proof (induction u arbitrary: L M)
  case (Cons c u)
  have "term_char c (L @ M, length L) = ((L @ [c]) @ drop 1 M, length (L @ [c]))"
    using visible_not [of c] Cons.prems by (simp add: term_char_def)
  then show ?case
    using Cons.IH [of "L @ [c]" "drop 1 M"] Cons.prems visible_not [of c] by simp
qed simp

lemma term_text_back: "term_text (replicate k BS @ v) (r, n) = term_text v (r, n - k)"
  by (induction k arbitrary: n) (simp_all add: term_char_def)

lemma term_text_controls:
  "term_text (BS # v) (r, n) = term_text v (r, n - 1)"
  "term_text (CR # v) (r, n) = term_text v (r, 0)"
  "term_text (LF # v) (r, n) = term_text v ([], 0)"
  by (simp_all add: term_char_def)

lemma visible_blank [simp]: "visible CHR '' ''"
  by (simp add: visible_def)

lemma visible_prompt: "\<forall>c \<in> set (finsh_get_prompt s). visible c"
  by (auto simp: finsh_get_prompt_def visible_def)

lemmas term_simps = term_text_visible [where v = "[]", simplified] term_text_visible
  term_text_back [where v = "[]", simplified] term_text_back term_text_controls screen_append

text \<open>The row shows the prompt and the text, and the cursor is where the next character goes.\<close>

definition on_screen :: "finsh_shell \<Rightarrow> editor \<Rightarrow> bool" where
  "on_screen s e \<longleftrightarrow>
    (\<forall>c \<in> set (ed_text e). visible c) \<and> (\<forall>t \<in> set (hist e). \<forall>c \<in> set t. visible c) \<and>
    (\<exists>k. screen (out s) =
      (finsh_get_prompt s @ ed_text e @ replicate k CHR '' '', length (finsh_get_prompt s) + length (before e)))"

text \<open>The counters of the structure, as numbers.\<close>

lemma shows_counters:
  assumes "shows_editor s e"
  shows "unat (line_position s) = length (ed_text e)" "unat (line_curpos s) = length (before e)"
    "unat (history_count s) = length (hist e)" "unat (current_history s) = hpos e"
proof -
  have len: "length (ed_text e) < 80" "length (before e) < 80" "length (hist e) \<le> 5" "hpos e \<le> 5"
    using assms fits_len [of "ed_text e"]
    by (auto simp: shows_editor_def FINSH_HISTORY_LINES_def ed_text_def)
  show "unat (line_position s) = length (ed_text e)" "unat (line_curpos s) = length (before e)"
    "unat (history_count s) = length (hist e)" "unat (current_history s) = hpos e"
    using assms len by (auto simp: shows_editor_def small_word)
qed

lemma insert_shown:
  assumes s: "shows_editor s e" and room: "length (ed_text e) + 1 < FINSH_CMD_SIZE" and c: "c \<noteq> NUL"
  shows "insert_char c s = Some (s\<lparr>line := row (before e @ c # after e),
      line_position := of_nat (length (ed_text e) + 1), line_curpos := of_nat (length (before e) + 1),
      out := out s @ (if after e = [] then [Text [c]]
        else [Text (c # after e), Text (replicate (length (after e)) BS)])\<rparr>)"
proof -
  note cnt = shows_counters [OF s]
  have l: "line s = row (before e @ after e)" and echo: "echo_mode s" and t: "fits (before e @ after e)"
    and pos: "line_position s = of_nat (length (before e) + length (after e))" "line_curpos s = of_nat (length (before e))"
    using s by (auto simp: shows_editor_def ed_text_def)
  have len: "length (before e) + length (after e) + 1 < 80" using room by (simp add: ed_text_def FINSH_CMD_SIZE_def)
  have small: "\<not> FINSH_CMD_SIZE \<le> unat (line_position s)" "\<not> FINSH_CMD_SIZE \<le> unat (line_position s + 1)"
    using cnt(1) room len pos(1) by (simp_all add: ed_text_def FINSH_CMD_SIZE_def unat_word_ariths)
  show ?thesis
  proof (cases "after e")
    case Nil
    then have "poke (line s) (length (before e)) c = Some (row (before e @ [c]))"
      using row_append [of "before e" c] room by (simp add: l ed_text_def)
    then show ?thesis
      using Nil echo small cnt pos by (simp add: insert_char_def Let_def rt_kprintf_def ed_text_def)
  next
    case (Cons d r)
    have move: "do { l \<leftarrow> move_chars (line s) (length (before e) + 1) (length (before e)) (length (after e));
        poke l (length (before e)) c } = Some (row (before e @ c # after e))"
      using row_insert [of "before e" "after e" c] room by (simp add: l ed_text_def)
    have str: "string_from (row (before e @ c # after e)) (length (before e)) = Some (c # after e)"
      using string_row_from [of "before e" "c # after e"] t c len by (simp add: fits_def FINSH_CMD_SIZE_def)
    show ?thesis
      using Cons echo small cnt pos move str
      by (auto simp: insert_char_def Let_def rt_kprintf_def ed_text_def bind_eq_Some_conv)
  qed
qed

lemma backspace_shown:
  assumes s: "shows_editor s e" and b: "before e = b @ [x]"
  shows "backspace_key s = Some (s\<lparr>line := row (b @ after e),
      line_position := of_nat (length (b @ after e)), line_curpos := of_nat (length b),
      out := out s @ (if after e = [] then [Text [BS, CHR '' '', BS]]
        else [Text ([BS] @ after e @ '' '' @ '' '' @ [BS]), Text (replicate (length (after e) + 1) BS)])\<rparr>)"
proof -
  define p where "p = length (b @ after e)"
  define q where "q = length b"
  have l: "line s = row (b @ x # after e)" and t: "fits (b @ x # after e)"
    using s by (auto simp: shows_editor_def ed_text_def b)
  have len: "p < 79" "q \<le> p" using fits_len [OF t] by (simp_all add: p_def q_def)
  have pos: "line_position s - 1 = of_nat p" "line_curpos s - 1 = of_nat q" "line_curpos s = of_nat (Suc q)"
    using s by (simp_all add: shows_editor_def ed_text_def b p_def q_def)
  have small: "unat (of_nat p :: u8) = p" "unat (of_nat q :: u8) = q" "line_curpos s \<noteq> 0"
    using len shows_counters(2) [OF s] by (auto simp: small_word b)
  have lt: "(of_nat q :: u8) < of_nat p \<longleftrightarrow> after e \<noteq> []"
    unfolding word_less_nat_alt small by (simp add: p_def q_def)
  show ?thesis
  proof (cases "after e")
    case Nil
    then have "poke (line s) p NUL = Some (row b)"
      using row_chop [of b x] t by (simp add: l p_def fits_def)
    then show ?thesis
      unfolding p_def [symmetric] q_def [symmetric] using Nil lt small pos
      by (simp add: backspace_key_def Let_def rt_kprintf_def)
  next
    case (Cons d r)
    have move: "do { l \<leftarrow> move_chars (line s) q (q + 1) (p - q); poke l p NUL } = Some (row (b @ after e))"
      using row_delete [of b x "after e"] t by (simp add: l p_def q_def fits_def)
    have str: "string_from (row (b @ after e)) q = Some (after e)"
      using string_row_from [of b "after e"] t by (simp add: fits_def q_def)
    have pq: "length (after e) = p - q" by (simp add: p_def q_def)
    obtain l1 where l1: "move_chars (line s) q (Suc q) (p - q) = Some l1" "poke l1 p NUL = Some (row (b @ after e))"
      using move by (auto simp: bind_eq_Some_conv)
    show ?thesis
      unfolding p_def [symmetric] q_def [symmetric] pq using Cons lt small pos l1 str
      by (simp add: backspace_key_def Let_def rt_kprintf_def)
  qed
qed

lemma recall_shown:
  assumes s: "shows_editor s e" and i: "i < length (hist e)"
  shows "recall (s\<lparr>current_history := of_nat i\<rparr>) = Some (s\<lparr>current_history := of_nat i, line := row (hist e ! i),
      line_position := of_nat (length (hist e ! i)), line_curpos := of_nat (length (hist e ! i)),
      out := out s @ [Text [ESC, CHR ''['', CHR ''2'', CHR ''K'', CR], Text (finsh_get_prompt s @ hist e ! i)]\<rparr>)"
proof -
  have "i < FINSH_HISTORY_LINES" "cmd_history s ! i = row (hist e ! i)" "fits (hist e ! i)"
    using s i by (auto simp: shows_editor_def)
  moreover from this have "unat (of_nat i :: u16) = i"
    by (simp add: small_word FINSH_HISTORY_LINES_def)
  ultimately show ?thesis
    by (simp add: recall_def Let_def string_row shell_handle_history_def rt_kprintf_def finsh_get_prompt_def)
qed

text \<open>The table of commands: names are strings, and a command name fits the line.\<close>

definition good_table :: "symtab \<Rightarrow> bool" where
  "good_table tab \<longleftrightarrow> c_names tab \<and> (\<forall>(name, func) \<in> set tab. length name < FINSH_CMD_SIZE + 6)"

lemma candidate_fits:
  assumes "good_table tab" "y \<in> set (candidates tab x)"
  shows "fits y"
proof -
  have "length y < FINSH_CMD_SIZE"
  proof -
    obtain name func where "(name, func) \<in> set tab" "y = drop 6 name"
      using assms(2) by (auto simp: candidates_def)
    then show ?thesis using assms(1) by (auto simp: good_table_def FINSH_CMD_SIZE_def dest!: bspec)
  qed
  then show ?thesis
    using assms candidates_c_string [of tab y x] by (simp add: good_table_def fits_def c_string_def)
qed

lemma complete_fits:
  assumes "good_table tab" "fits t"
  shows "fits (complete tab t)" "prefix t (complete tab t)"
proof -
  have "fits (complete tab t) \<and> prefix t (complete tab t)"
  proof (cases "t = [] \<or> candidates tab t = []")
    case True
    then show ?thesis using assms by (auto simp: complete_def)
  next
    case False
    then obtain y where y: "y \<in> set (candidates tab t)" by (cases "candidates tab t") auto
    define p where "p = Longest_common_prefix (set (candidates tab t))"
    have "prefix p y" using y by (simp add: p_def Longest_common_prefix_prefix)
    then have "fits p" using candidate_fits [OF assms(1) y] by (auto simp: fits_def prefix_def)
    moreover have "prefix t p"
      unfolding p_def using y candidates_prefix by (intro Longest_common_prefix_max_prefix) auto
    ultimately show ?thesis using False by (simp add: complete_def p_def)
  qed
  then show "fits (complete tab t)" "prefix t (complete tab t)" by auto
qed

lemma tab_shown:
  assumes s: "shows_editor s e" and tab: "good_table tab"
  shows "tab_key tab s = Some (s\<lparr>line := row (complete tab (ed_text e)),
      line_position := of_nat (length (complete tab (ed_text e))),
      line_curpos := of_nat (length (complete tab (ed_text e))),
      out := out s @ [Text (replicate (length (before e)) BS), Text [LF],
        Names (if ed_text e = [] then msh_help tab else candidates tab (ed_text e)),
        Text (finsh_get_prompt s @ complete tab (ed_text e))]\<rparr>)"
proof -
  let ?t = "ed_text e" and ?c = "complete tab (ed_text e)"
  have t: "fits ?t" and l: "line s = row ?t" using s by (simp_all add: shows_editor_def)
  define z where "z = replicate (FINSH_CMD_SIZE - length ?t - 1) NUL"
  have r: "row ?t = ?t @ NUL # z" using t by (simp add: row_split fits_def z_def)
  note c = complete_fits [OF tab t]
  have "msh_auto_complete tab (row ?t) = Some (row ?c, if ?t = [] then msh_help tab else candidates tab ?t)"
  proof (cases "?t = [] \<or> candidates tab ?t = []")
    case True
    then show ?thesis
      using auto_complete_spec [of tab ?t z] tab t string_row [OF t]
      by (auto simp: good_table_def fits_def complete_def r msh_auto_complete_def)
  next
    case False
    then obtain nm rest where "candidates tab ?t = nm # rest" by (cases "candidates tab ?t") auto
    moreover have "length ?c \<le> length (?t @ NUL # z)"
      using c(1) t length_row [of ?t] by (simp add: fits_def r [symmetric])
    moreover have "?c @ drop (length ?c) (row ?t) = row ?c"
      using c t prefix_length_le [OF c(2)] by (simp add: row_def fits_def)
    ultimately show ?thesis
      using auto_complete_spec [of tab ?t z] tab t False
      by (auto simp: good_table_def fits_def complete_def r Let_def)
  qed
  then show ?thesis
    using string_row [OF c(1)] shows_counters(2) [OF s]
    by (simp add: tab_key_def l finsh_get_prompt_def)
qed

lemma push_shown:
  assumes s: "shows_editor s e"
  defines "h \<equiv> remember (ed_text e) (hist e)"
  shows "\<exists>H. shell_push_history s = Some (s\<lparr>cmd_history := H, history_count := of_nat (length h),
      current_history := of_nat (length h)\<rparr>) \<and>
    length H = FINSH_HISTORY_LINES \<and> length h \<le> FINSH_HISTORY_LINES \<and>
    (\<forall>i < length h. H ! i = row (h ! i)) \<and> (\<forall>t \<in> set h. fits t)"
proof -
  note cnt = shows_counters [OF s]
  define t where "t = ed_text e"
  define C where "C = cmd_history s"
  have fits: "fits t" "\<forall>t \<in> set (hist e). fits t" and l: "line s = row t"
    and C: "length C = FINSH_HISTORY_LINES" "\<forall>i < length (hist e). C ! i = row (hist e ! i)"
    and n: "length (hist e) \<le> FINSH_HISTORY_LINES" "history_count s = of_nat (length (hist e))"
    using s by (auto simp: shows_editor_def t_def C_def)
  have pos: "line_position s = 0 \<longleftrightarrow> t = []" "unat (line_position s) = length t" "length t \<le> FINSH_CMD_SIZE"
    using cnt(1) fits(1) by (auto simp: t_def fits_def unat_eq_0 [symmetric])
  have entry: "memcpy_at (replicate FINSH_CMD_SIZE NUL) 0 (line s) (length t) = row t"
    using pos(3) by (simp add: memcpy_at_def l row_def)
  have last: "C ! (length (hist e) - 1) \<noteq> line s \<longleftrightarrow> last (hist e) \<noteq> t" if "hist e \<noteq> []"
  proof -
    have "length (hist e) - 1 < length (hist e)" using that by simp
    then have "C ! (length (hist e) - 1) = row (last (hist e))" "fits (last (hist e))"
      using C(2) fits(2) that by (auto simp: last_conv_nth)
    then show ?thesis using row_inj [OF _ fits(1)] l by auto
  qed
  consider "t = []" | "t \<noteq> []" "hist e \<noteq> []" "last (hist e) = t"
    | "t \<noteq> []" "hist e = [] \<or> last (hist e) \<noteq> t" "length (hist e) < FINSH_HISTORY_LINES"
    | "t \<noteq> []" "hist e = [] \<or> last (hist e) \<noteq> t" "length (hist e) = FINSH_HISTORY_LINES"
    using n(1) by fastforce
  then show ?thesis
  proof cases
    case 1
    then have "shell_push_history s = Some (s\<lparr>current_history := history_count s\<rparr>)"
      using pos by (simp add: shell_push_history_def)
    moreover have "h = hist e" using 1 by (simp add: h_def remember_def t_def)
    ultimately show ?thesis using C n fits by (intro exI [of _ C]) (simp add: C_def)
  next
    case 2
    then have "shell_push_history s = Some (s\<lparr>current_history := history_count s\<rparr>)"
      using pos cnt(3) last n(1) by (auto simp: shell_push_history_def Let_def C_def)
    moreover have "h = hist e" using 2 by (simp add: h_def remember_def t_def)
    ultimately show ?thesis using C n fits by (intro exI [of _ C]) (simp add: C_def)
  next
    case 3
    then have "shell_push_history s = Some (s\<lparr>cmd_history := C[length (hist e) := row t],
        history_count := history_count s + 1, current_history := history_count s + 1\<rparr>)"
      using pos cnt(3) last entry unat_eq_0 [of "history_count s"]
      by (auto simp: shell_push_history_def Let_def C_def)
    moreover have "h = hist e @ [t]" using 3 by (auto simp: h_def remember_def t_def)
    ultimately show ?thesis
      using 3 C n fits by (intro exI [of _ "C[length (hist e) := row t]"]) (auto simp: nth_append less_Suc_eq)
  next
    case 4
    then have "hist e \<noteq> []" by (auto simp: FINSH_HISTORY_LINES_def)
    then have "shell_push_history s = Some (s\<lparr>cmd_history := tl C @ [row t],
        history_count := of_nat FINSH_HISTORY_LINES, current_history := of_nat FINSH_HISTORY_LINES\<rparr>)"
      using 4 pos cnt(3) last entry by (auto simp: shell_push_history_def Let_def C_def)
    moreover have "h = tl (hist e) @ [t]" using 4 by (auto simp: h_def remember_def t_def)
    moreover have "\<forall>x \<in> set (tl (hist e)). fits x"
      using fits(2) \<open>hist e \<noteq> []\<close> by (meson list.set_sel(2))
    moreover have "tl C ! i = row (tl (hist e) ! i)" if "i < length (hist e) - 1" for i
      using that C 4(3) by (simp add: nth_tl)
    ultimately show ?thesis
      using 4 C n fits
      by (intro exI [of _ "tl C @ [row t]"]) (auto simp: nth_append FINSH_HISTORY_LINES_def less_Suc_eq)
  qed
qed

lemma enter_shown:
  assumes s: "shows_editor s e" and tab: "good_table tab"
  defines "h \<equiv> remember (ed_text e) (hist e)"
  shows "\<exists>H. enter_key tab s = Some (s\<lparr>cmd_history := H, history_count := of_nat (length h),
      current_history := of_nat (length h), line := row [], line_position := 0, line_curpos := 0,
      ran := ran s @ [run_line tab (ed_text e)],
      out := out s @ [Text [LF], Output (run_line tab (ed_text e)), Text (finsh_get_prompt s)]\<rparr>) \<and>
    length H = FINSH_HISTORY_LINES \<and> length h \<le> FINSH_HISTORY_LINES \<and>
    (\<forall>i < length h. H ! i = row (h ! i)) \<and> (\<forall>t \<in> set h. fits t)"
proof -
  let ?t = "ed_text e"
  have t: "fits ?t" and l: "line s = row ?t" and echo: "echo_mode s"
    and pos: "line_position s = of_nat (length ?t)"
    using s by (simp_all add: shows_editor_def)
  obtain H where H: "shell_push_history s = Some (s\<lparr>cmd_history := H, history_count := of_nat (length h),
      current_history := of_nat (length h)\<rparr>)" "length H = FINSH_HISTORY_LINES"
    "length h \<le> FINSH_HISTORY_LINES" "\<forall>i < length h. H ! i = row (h ! i)" "\<forall>t \<in> set h. fits t"
    using push_shown [OF s] unfolding h_def by blast
  have len: "(ucast (line_position s) :: u32) = of_nat (length ?t)"
    using fits_len [OF t] by (simp add: pos word_unat_eq_iff unsigned_ucast_eq unsigned_of_nat take_bit_nat_eq_self)
  have r: "row ?t = ?t @ NUL # replicate (FINSH_CMD_SIZE - length ?t - 1) NUL"
    using t by (simp add: row_split fits_def)
  obtain l1 where "msh_exec tab (row ?t) (of_nat (length ?t)) = Some (l1, run_line tab ?t)"
    using msh_exec_runs [of tab ?t] tab t fits_len [OF t] unfolding r by (auto simp: good_table_def fits_def)
  then show ?thesis
    using H echo by (intro exI [of _ H]) (simp add: enter_key_def rt_kprintf_def finsh_get_prompt_def l len row_def)
qed

section \<open>The shell implements the editor\<close>

definition visible_table :: "symtab \<Rightarrow> bool" where
  "visible_table tab \<longleftrightarrow> (\<forall>(name, func) \<in> set tab. \<forall>c \<in> set name. visible c)"

lemma insert_screen:
  assumes "on_screen s e" "visible c" "prompt_mode s' = prompt_mode s"
    and "out s' = out s @ (if after e = [] then [Text [c]]
      else [Text (c # after e), Text (replicate (length (after e)) BS)])"
    and "before e' = before e @ [c]" "after e' = after e" "hist e' = hist e"
  shows "on_screen s' e'"
proof -
  define L where "L = finsh_get_prompt s @ before e"
  have prompt: "finsh_get_prompt s' = finsh_get_prompt s" using assms(3) by (simp add: finsh_get_prompt_def)
  obtain k where k: "screen (out s) = (L @ after e @ replicate k CHR '' '', length L)"
    using assms(1) by (auto simp: on_screen_def ed_text_def L_def)
  have vis: "\<forall>d \<in> set (c # after e). visible d" using assms(1,2) by (auto simp: on_screen_def ed_text_def)
  have "screen (out s') = (L @ (c # after e) @ replicate (k - 1) CHR '' '', length L + 1)"
    using vis term_text_visible [of "c # after e" "[]" L "after e @ replicate k CHR '' ''"]
      term_text_visible [of "[c]" "[]" L "replicate k CHR '' ''"]
    by (auto simp: assms(4) screen_append k term_simps(3) drop_Cons' )
  then show ?thesis
    using assms by (auto simp: on_screen_def ed_text_def prompt L_def)
qed

lemma backspace_screen:
  assumes "on_screen s e" "before e = b @ [x]" "prompt_mode s' = prompt_mode s"
    and "out s' = out s @ (if after e = [] then [Text [BS, CHR '' '', BS]]
      else [Text ([BS] @ after e @ '' '' @ '' '' @ [BS]), Text (replicate (length (after e) + 1) BS)])"
    and "before e' = b" "after e' = after e" "hist e' = hist e"
  shows "on_screen s' e'"
proof -
  define L where "L = finsh_get_prompt s @ b"
  have prompt: "finsh_get_prompt s' = finsh_get_prompt s" using assms(3) by (simp add: finsh_get_prompt_def)
  obtain k where k: "screen (out s) = (L @ x # after e @ replicate k CHR '' '', length L + 1)"
    using assms(1,2) by (auto simp: on_screen_def ed_text_def L_def)
  have vis: "\<forall>d \<in> set (after e). visible d" using assms(1) by (auto simp: on_screen_def ed_text_def)
  have "\<exists>j. screen (out s') = (L @ after e @ replicate j CHR '' '', length L)"
  proof (cases "after e = []")
    case True
    then have "screen (out s') = (L @ replicate (Suc k) CHR '' '', length L)"
      by (simp add: assms(4) screen_append k term_char_def)
    then show ?thesis using True by (intro exI [of _ "Suc k"]) simp
  next
    case False
    define u where "u = after e @ '' '' @ '' ''"
    have vu: "\<forall>d \<in> set u. visible d" using vis by (simp add: u_def)
    have d: "drop (length u) (x # after e @ replicate k CHR '' '') = replicate (k - 1) CHR '' ''"
      by (simp add: drop_Cons' u_def)
    have one: "term_text (BS # u @ [BS]) (L @ x # after e @ replicate k CHR '' '', length L + 1) =
        (L @ u @ replicate (k - 1) CHR '' '', length L + length (after e) + 1)"
      using term_text_visible [OF vu, of "[BS]" L "x # after e @ replicate k CHR '' ''"] d
      by (simp add: term_char_def) (simp add: u_def)
    have "out s' = out s @ [Text (BS # u @ [BS]), Text (replicate (length (after e) + 1) BS)]"
      using False by (simp add: assms(4) u_def)
    then have "screen (out s') = (L @ u @ replicate (k - 1) CHR '' '', length L)"
      by (simp add: screen_append k one [simplified] term_simps(3) del: replicate.simps)
    then show ?thesis by (intro exI [of _ "Suc (Suc (k - 1))"]) (simp add: u_def)
  qed
  then show ?thesis
    using assms by (auto simp: on_screen_def ed_text_def prompt L_def)
qed

lemma redraw_screen:
  assumes "prompt_mode s' = prompt_mode s" "out s' = cs @ [Text (finsh_get_prompt s @ before e')]"
    and "screen cs = ([], 0)" "after e' = []"
    and "\<forall>c \<in> set (before e'). visible c" "\<forall>t \<in> set (hist e'). \<forall>c \<in> set t. visible c"
  shows "on_screen s' e'"
proof -
  have prompt: "finsh_get_prompt s' = finsh_get_prompt s" using assms(1) by (simp add: finsh_get_prompt_def)
  have "screen (out s') = (finsh_get_prompt s @ before e', length (finsh_get_prompt s @ before e'))"
    using assms term_text_visible [of "finsh_get_prompt s @ before e'" "[]" "[]" "[]"] visible_prompt [of s]
    by (auto simp: screen_append)
  then show ?thesis
    using assms by (auto simp: on_screen_def ed_text_def prompt intro!: exI [of _ 0])
qed

lemma remember_set: "t \<in> set (remember u h) \<Longrightarrow> t = u \<or> t \<in> set h"
  by (cases h) (auto simp: remember_def split: if_splits)

lemma complete_visible:
  assumes "visible_table tab" "\<forall>c \<in> set t. visible c"
  shows "\<forall>c \<in> set (complete tab t). visible c"
proof (cases "t = [] \<or> candidates tab t = []")
  case False
  then obtain y where y: "y \<in> set (candidates tab t)" by (cases "candidates tab t") auto
  then obtain name func where "(name, func) \<in> set tab" "y = drop 6 name"
    by (auto simp: candidates_def)
  then have "\<forall>c \<in> set y. visible c"
    using assms(1) by (auto simp: visible_table_def dest!: bspec in_set_dropD)
  moreover have "prefix (complete tab t) y"
    using False y by (auto simp: complete_def Longest_common_prefix_prefix)
  ultimately show ?thesis by (auto simp: prefix_def)
qed (use assms in \<open>auto simp: complete_def\<close>)

text \<open>Keys that are text, and keys that the editor handles.\<close>

definition good_key :: "char \<Rightarrow> bool" where
  "good_key c \<longleftrightarrow> visible c \<or> c \<in> {NUL, CHR 0xFF, TAB, DEL, BS, CR, LF, ESC}"

lemma plain_key_implements:
  assumes s: "shows_editor s e" and tab: "good_table tab" and step: "ed_plain tab c e = Some e'" and esc: "c \<noteq> ESC"
  shows "\<exists>s'. plain_key tab c s = Some s' \<and> shows_editor s' e' \<and> prompt_mode s' = prompt_mode s \<and>
    (on_screen s e \<and> visible_table tab \<and> good_key c \<longrightarrow> on_screen s' e')"
proof -
  have hist: "length (hist e) \<le> FINSH_HISTORY_LINES" "hpos e \<le> length (hist e)"
    using s by (simp_all add: shows_editor_def)
  have fits: "fits (ed_text e)" using s by (simp add: shows_editor_def)
  consider "c = NUL \<or> c = CHR 0xFF" | "c = TAB" | "c = DEL \<or> c = BS" "before e = []"
    | b x where "c = DEL \<or> c = BS" "before e = b @ [x]" | "c = CR \<or> c = LF"
    | "c \<notin> {NUL, CHR 0xFF, TAB, DEL, BS, CR, LF}"
    by (cases "before e" rule: rev_cases) auto
  then show ?thesis
  proof cases
    case 1
    then show ?thesis using s step by (auto simp: plain_key_def ed_plain_def)
  next
    case 2
    have e': "e' = e\<lparr>before := complete tab (ed_text e), after := []\<rparr>"
      using 2 step by (simp add: ed_plain_def)
    let ?s = "s\<lparr>line := row (complete tab (ed_text e)),
      line_position := of_nat (length (complete tab (ed_text e))),
      line_curpos := of_nat (length (complete tab (ed_text e))),
      out := out s @ [Text (replicate (length (before e)) BS), Text [LF],
        Names (if ed_text e = [] then msh_help tab else candidates tab (ed_text e)),
        Text (finsh_get_prompt s @ complete tab (ed_text e))]\<rparr>"
    have "plain_key tab c s = Some ?s" using tab_shown [OF s tab] 2 by (simp add: plain_key_def)
    moreover have "shows_editor ?s e'"
      using s complete_fits(1) [OF tab fits] by (simp add: shows_editor_def e' ed_text_def)
    moreover have "on_screen ?s e'" if "on_screen s e" "visible_table tab"
    proof (rule redraw_screen [of _ s "out s @ [Text (replicate (length (before e)) BS), Text [LF],
        Names (if ed_text e = [] then msh_help tab else candidates tab (ed_text e))]"])
      show "\<forall>c \<in> set (before e'). visible c"
        using that complete_visible [of tab "ed_text e"] by (simp add: e' on_screen_def)
    qed (use that in \<open>simp_all add: e' on_screen_def screen_append\<close>)
    ultimately show ?thesis by auto
  next
    case 3
    then have "backspace_key s = Some s" using s by (simp add: backspace_key_def shows_editor_def)
    moreover have "e\<lparr>before := butlast (before e)\<rparr> = e" using 3(2) by (cases e) simp
    ultimately show ?thesis using 3(1) s step by (auto simp: plain_key_def ed_plain_def)
  next
    case 4
    have e': "e' = e\<lparr>before := b\<rparr>" using 4 step by (auto simp: ed_plain_def)
    obtain s' where s': "backspace_key s = Some s'" "s' = s\<lparr>line := row (b @ after e),
      line_position := of_nat (length (b @ after e)), line_curpos := of_nat (length b),
      out := out s @ (if after e = [] then [Text [BS, CHR '' '', BS]]
        else [Text ([BS] @ after e @ '' '' @ '' '' @ [BS]), Text (replicate (length (after e) + 1) BS)])\<rparr>"
      using backspace_shown [OF s 4(2)] by blast
    have "plain_key tab c s = Some s'" using s'(1) 4(1) by (auto simp: plain_key_def)
    moreover have "shows_editor s' e'"
      using s fits 4(2) by (simp add: s'(2) shows_editor_def e' ed_text_def fits_def)
    moreover have "on_screen s e \<Longrightarrow> on_screen s' e'"
      by (rule backspace_screen [of s e b x]) (simp_all add: 4(2) s'(2) e')
    ultimately show ?thesis by (auto simp: s'(2))
  next
    case 5
    let ?h = "remember (ed_text e) (hist e)"
    have e': "e' = e\<lparr>before := [], after := [], hist := ?h, hpos := length ?h,
        executed := executed e @ [run_line tab (ed_text e)]\<rparr>"
      using 5 step by (auto simp: ed_plain_def)
    obtain H s' where H: "enter_key tab s = Some s'" "s' = s\<lparr>cmd_history := H, history_count := of_nat (length ?h),
      current_history := of_nat (length ?h), line := row [], line_position := 0, line_curpos := 0,
      ran := ran s @ [run_line tab (ed_text e)],
      out := out s @ [Text [LF], Output (run_line tab (ed_text e)), Text (finsh_get_prompt s)]\<rparr>"
      "length H = FINSH_HISTORY_LINES" "length ?h \<le> FINSH_HISTORY_LINES"
      "\<forall>i < length ?h. H ! i = row (?h ! i)" "\<forall>t \<in> set ?h. fits t"
      using enter_shown [OF s tab] by blast
    have "plain_key tab c s = Some s'" using H(1) 5 by (auto simp: plain_key_def)
    moreover have "shows_editor s' e'"
      using s H(3-6) by (auto simp: H(2) shows_editor_def e' ed_text_def fits_def FINSH_CMD_SIZE_def)
    moreover have "on_screen s' e'" if "on_screen s e"
    proof (rule redraw_screen [of _ s "out s @ [Text [LF], Output (run_line tab (ed_text e))]"])
      show "\<forall>t \<in> set (hist e'). \<forall>c \<in> set t. visible c"
        using that remember_set by (fastforce simp: e' on_screen_def)
    qed (simp_all add: H(2) e' screen_append)
    ultimately show ?thesis by (auto simp: H(2))
  next
    case 6
    have room: "length (ed_text e) + 1 < FINSH_CMD_SIZE" and e': "e' = e\<lparr>before := before e @ [c]\<rparr>"
      using 6 step by (auto simp: ed_plain_def split: if_splits)
    obtain s' where s': "insert_char c s = Some s'" "s' = s\<lparr>line := row (before e @ c # after e),
      line_position := of_nat (length (ed_text e) + 1), line_curpos := of_nat (length (before e) + 1),
      out := out s @ (if after e = [] then [Text [c]]
        else [Text (c # after e), Text (replicate (length (after e)) BS)])\<rparr>"
      using insert_shown [OF s room] 6 by blast
    have "plain_key tab c s = Some s'" using s'(1) 6 by (auto simp: plain_key_def)
    moreover have "shows_editor s' e'"
      using s fits room 6 by (auto simp: s'(2) shows_editor_def e' ed_text_def fits_def)
    moreover have "on_screen s' e'" if "on_screen s e" "good_key c"
    proof -
      have "visible c" using that(2) 6 esc by (auto simp: good_key_def)
      then show ?thesis by (intro insert_screen [OF that(1)]) (simp_all add: s'(2) e')
    qed
    ultimately show ?thesis by (auto simp: s'(2))
  qed
qed

lemma shows_stat: "shows_editor s e \<Longrightarrow> shows_editor (s\<lparr>stat := k\<rparr>) (e\<lparr>keys := k\<rparr>)"
  by (simp add: shows_editor_def ed_text_def)

lemma screen_stat: "on_screen s e \<Longrightarrow> on_screen (s\<lparr>stat := k\<rparr>) (e\<lparr>keys := k\<rparr>)"
  by (simp add: on_screen_def ed_text_def finsh_get_prompt_def)

lemma recall_implements:
  assumes s: "shows_editor s e" and i: "i < length (hist e)"
  shows "\<exists>s'. recall (s\<lparr>current_history := of_nat i\<rparr>) = Some s' \<and> shows_editor s' (ed_recall i e) \<and>
    prompt_mode s' = prompt_mode s \<and> (on_screen s e \<longrightarrow> on_screen s' (ed_recall i e))"
proof -
  obtain s' where s': "recall (s\<lparr>current_history := of_nat i\<rparr>) = Some s'"
    "s' = s\<lparr>current_history := of_nat i, line := row (hist e ! i),
      line_position := of_nat (length (hist e ! i)), line_curpos := of_nat (length (hist e ! i)),
      out := out s @ [Text [ESC, CHR ''['', CHR ''2'', CHR ''K'', CR], Text (finsh_get_prompt s @ hist e ! i)]\<rparr>"
    using recall_shown [OF s i] by blast
  have "shows_editor s' (ed_recall i e)"
    using s i by (auto simp: s'(2) shows_editor_def ed_recall_def ed_text_def)
  moreover have "on_screen s' (ed_recall i e)" if "on_screen s e"
    by (rule redraw_screen [of _ s "out s @ [Text [ESC, CHR ''['', CHR ''2'', CHR ''K'', CR]]"])
      (use that i in \<open>auto simp: s'(2) ed_recall_def on_screen_def screen_append term_char_def\<close>)
  ultimately show ?thesis using s'(1) by (auto simp: s'(2))
qed

lemma left_implements:
  assumes s: "shows_editor s e"
  defines "e' \<equiv> (if before e = [] then e
    else e\<lparr>before := butlast (before e), after := last (before e) # after e\<rparr>)"
  shows "shows_editor (left_key s) e' \<and> prompt_mode (left_key s) = prompt_mode s \<and>
    (on_screen s e \<longrightarrow> on_screen (left_key s) e')"
proof (cases "before e" rule: rev_cases)
  case Nil
  then show ?thesis using s by (simp add: e'_def left_key_def shows_editor_def)
next
  case (snoc b x)
  have "line_curpos s \<noteq> 0" using shows_counters(2) [OF s] snoc by auto
  then have l: "left_key s = s\<lparr>out := out s @ [Text [BS]], line_curpos := line_curpos s - 1\<rparr>"
    by (simp add: left_key_def rt_kprintf_def)
  have e': "e' = e\<lparr>before := b, after := x # after e\<rparr>" by (simp add: e'_def snoc)
  show ?thesis
    using s by (auto simp: l e' shows_editor_def on_screen_def ed_text_def snoc screen_append term_char_def
      finsh_get_prompt_def)
qed

lemma right_implements:
  assumes s: "shows_editor s e"
  defines "e' \<equiv> (case after e of [] \<Rightarrow> e | d # r \<Rightarrow> e\<lparr>before := before e @ [d], after := r\<rparr>)"
  shows "\<exists>s'. right_key s = Some s' \<and> shows_editor s' e' \<and> prompt_mode s' = prompt_mode s \<and>
    (on_screen s e \<longrightarrow> on_screen s' e')"
proof -
  note cnt = shows_counters [OF s]
  have lt: "line_curpos s < line_position s \<longleftrightarrow> after e \<noteq> []"
    using cnt by (simp add: word_less_nat_alt ed_text_def)
  show ?thesis
  proof (cases "after e")
    case Nil
    then show ?thesis using s lt by (simp add: right_key_def e'_def)
  next
    case (Cons d r)
    have "peek (line s) (length (before e)) = Some d"
      using s Cons by (simp add: shows_editor_def ed_text_def row_def)
    then have r: "right_key s = Some (s\<lparr>out := out s @ [Text [d]], line_curpos := line_curpos s + 1\<rparr>)" (is "_ = Some ?s")
      using lt Cons cnt(2) by (simp add: right_key_def rt_kprintf_def)
    have e': "e' = e\<lparr>before := before e @ [d], after := r\<rparr>" by (simp add: e'_def Cons)
    have "shows_editor ?s e'" using s Cons by (simp add: e' shows_editor_def ed_text_def)
    moreover have "on_screen ?s e'" if scr: "on_screen s e"
    proof -
      let ?L = "finsh_get_prompt s @ before e"
      obtain k where "screen (out s) = (?L @ d # r @ replicate k CHR '' '', length ?L)"
        using scr Cons by (auto simp: on_screen_def ed_text_def)
      moreover have "visible d" using scr Cons by (simp add: on_screen_def ed_text_def)
      ultimately have "screen (out ?s) = (?L @ d # r @ replicate k CHR '' '', Suc (length ?L))"
        using term_text_visible [of "[d]" "[]" ?L "d # r @ replicate k CHR '' ''"] by (simp add: screen_append)
      then show ?thesis using scr Cons by (auto simp: on_screen_def e' ed_text_def finsh_get_prompt_def)
    qed
    ultimately show ?thesis using r by auto
  qed
qed

text \<open>One key of the shell is one key of the editor.\<close>

lemma key_implements:
  assumes s: "shows_editor s e" and tab: "good_table tab" and step: "ed_key tab c e = Some e'"
  shows "\<exists>s'. finsh_key tab c s = Some s' \<and> shows_editor s' e' \<and> prompt_mode s' = prompt_mode s \<and>
    (on_screen s e \<and> visible_table tab \<and> good_key c \<longrightarrow> on_screen s' e')"
proof -
  define s1 where "s1 = s\<lparr>stat := WAIT_NORMAL\<rparr>"
  define e1 where "e1 = e\<lparr>keys := WAIT_NORMAL\<rparr>"
  have s1: "shows_editor s1 e1" and scr: "on_screen s e \<Longrightarrow> on_screen s1 e1" and p: "prompt_mode s1 = prompt_mode s"
    using shows_stat [OF s] screen_stat by (simp_all add: s1_def e1_def)
  have st: "stat s = keys e" using s by (simp add: shows_editor_def)
  have e1': "before e1 = before e" "after e1 = after e" "hist e1 = hist e" "hpos e1 = hpos e"
    by (simp_all add: e1_def)
  have cur: "current_history s1 = of_nat (hpos e)" "history_count s1 = of_nat (length (hist e))"
    "hpos e \<le> length (hist e)" "length (hist e) \<le> 5"
    using s1 e1' by (auto simp: shows_editor_def FINSH_HISTORY_LINES_def)
  note cnt = shows_counters(3,4) [OF s1, unfolded e1']
  have plain: ?thesis if "finsh_key tab c s = plain_key tab c s1" "ed_key tab c e = ed_plain tab c e1" "c \<noteq> ESC"
    using plain_key_implements [OF s1 tab, of c e'] that step scr p by auto
  consider (esc) "c = ESC" | (normal) "c \<noteq> ESC" "keys e = WAIT_NORMAL"
    | (spec) "c \<noteq> ESC" "keys e = WAIT_SPEC_KEY" "c = CHR 0x5B"
    | (spec') "c \<noteq> ESC" "keys e = WAIT_SPEC_KEY" "c \<noteq> CHR 0x5B"
    | (up) "keys e = WAIT_FUNC_KEY" "c = CHR 0x41" | (down) "keys e = WAIT_FUNC_KEY" "c = CHR 0x42"
    | (left) "keys e = WAIT_FUNC_KEY" "c = CHR 0x44" | (right) "keys e = WAIT_FUNC_KEY" "c = CHR 0x43"
    | (func) "c \<noteq> ESC" "keys e = WAIT_FUNC_KEY" "c \<notin> {CHR 0x41, CHR 0x42, CHR 0x44, CHR 0x43}"
    by (cases "keys e") auto
  then show ?thesis
  proof cases
    case esc
    then show ?thesis
      using step shows_stat [OF s, of WAIT_SPEC_KEY] screen_stat [of s e WAIT_SPEC_KEY]
      by (auto simp: finsh_key_def ed_key_def)
  next
    case normal
    have "s1 = s" "e1 = e" using normal st by (cases s; cases e; simp add: s1_def e1_def)+
    then show ?thesis using normal st by (intro plain) (simp_all add: finsh_key_def ed_key_def)
  next
    case spec
    then show ?thesis
      using step st shows_stat [OF s, of WAIT_FUNC_KEY] screen_stat [of s e WAIT_FUNC_KEY]
      by (auto simp: finsh_key_def ed_key_def Let_def)
  next
    case spec'
    then show ?thesis using st by (intro plain) (simp_all add: finsh_key_def ed_key_def s1_def e1_def)
  next
    case up
    have k: "finsh_key tab c s = up_key s1" "e' = (if hpos e = 0 then e1 else ed_recall (hpos e - 1) e1)"
      using up st step by (auto simp: finsh_key_def ed_key_def Let_def s1_def e1_def)
    show ?thesis
    proof (cases "hpos e = 0")
      case True
      then have "up_key s1 = Some s1" using cur by (simp add: up_key_def)
      then show ?thesis using True k s1 scr p by auto
    next
      case False
      have "current_history s1 - 1 = of_nat (hpos e - 1)" using False cur(1) by simp
      moreover have "0 < current_history s1" using False cnt by (simp add: word_less_nat_alt)
      moreover have "hpos e - 1 < length (hist e1)" using False cur(3) e1' by simp
      ultimately show ?thesis
        using recall_implements [OF s1, of "hpos e - 1"] False k scr p by (auto simp: up_key_def)
    qed
  next
    case down
    have k: "finsh_key tab c s = down_key s1"
      "e' = (if hist e = [] then e1
        else ed_recall (if hpos e + 1 < length (hist e) then hpos e + 1 else length (hist e) - 1) e1)"
      using down st step by (auto simp: finsh_key_def ed_key_def Let_def s1_def e1_def)
    have lt: "uint (current_history s1) < uint (history_count s1) - 1 \<longleftrightarrow> hpos e + 1 < length (hist e)"
      using cnt by (simp add: uint_nat, arith)
    have some: "history_count s1 \<noteq> 0 \<longleftrightarrow> hist e \<noteq> []"
      using cnt by (metis length_0_conv unat_eq_0)
    have d: "down_key s1 = (if hist e = [] then Some s1
        else recall (s1\<lparr>current_history :=
          of_nat (if hpos e + 1 < length (hist e) then hpos e + 1 else length (hist e) - 1)\<rparr>))"
    proof -
      have "current_history s1 + 1 = of_nat (hpos e + 1)" using cur by simp
      moreover have "history_count s1 - 1 = of_nat (length (hist e) - 1)" if "hist e \<noteq> []"
        using cur that by (cases "hist e") simp_all
      ultimately show ?thesis
        unfolding down_key_def lt some by (simp add: ac_simps)
    qed
    show ?thesis
    proof (cases "hist e = []")
      case True
      then show ?thesis using d k s1 scr p by auto
    next
      case False
      then have "(if hpos e + 1 < length (hist e) then hpos e + 1 else length (hist e) - 1) < length (hist e1)"
        using e1' by (cases "hist e") auto
      from recall_implements [OF s1 this] show ?thesis using False d k scr p by auto
    qed
  next
    case left
    then have "finsh_key tab c s = Some (left_key s1)"
      "e' = (if before e = [] then e1 else e1\<lparr>before := butlast (before e), after := last (before e) # after e\<rparr>)"
      using st step by (auto simp: finsh_key_def ed_key_def Let_def s1_def e1_def)
    then show ?thesis using left_implements [OF s1, unfolded e1'] scr p by simp
  next
    case right
    then have "finsh_key tab c s = right_key s1"
      "e' = (case after e of [] \<Rightarrow> e1 | d # r \<Rightarrow> e1\<lparr>before := before e @ [d], after := r\<rparr>)"
      using st step by (auto simp: finsh_key_def ed_key_def Let_def s1_def e1_def split: list.splits)
    then show ?thesis using right_implements [OF s1, unfolded e1'] scr p by auto
  next
    case func
    then show ?thesis using st by (intro plain) (simp_all add: finsh_key_def ed_key_def s1_def e1_def Let_def)
  qed
qed

lemma keys_implement:
  "shows_editor s e \<Longrightarrow> good_table tab \<Longrightarrow> ed_keys tab ks e = Some e' \<Longrightarrow>
   \<exists>s'. finsh_keys tab ks s = Some s' \<and> shows_editor s' e' \<and> prompt_mode s' = prompt_mode s \<and>
     (on_screen s e \<and> visible_table tab \<and> (\<forall>c \<in> set ks. good_key c) \<longrightarrow> on_screen s' e')"
proof (induction ks arbitrary: s e)
  case (Cons c ks)
  then obtain e1 where e1: "ed_key tab c e = Some e1" "ed_keys tab ks e1 = Some e'"
    by (auto simp: bind_eq_Some_conv)
  obtain s1 where s1: "finsh_key tab c s = Some s1" "shows_editor s1 e1" "prompt_mode s1 = prompt_mode s"
    "on_screen s e \<and> visible_table tab \<and> good_key c \<longrightarrow> on_screen s1 e1"
    using key_implements [OF Cons.prems(1,2) e1(1)] by blast
  show ?case using Cons.IH [OF s1(2) Cons.prems(2) e1(2)] s1 by auto
qed auto

lemma init_shows: "shows_editor finsh_init ed_init"
  by (simp add: shows_editor_def finsh_init_def ed_init_def ed_text_def row_def fits_def
    FINSH_CMD_SIZE_def FINSH_HISTORY_LINES_def)

lemma init_screen: "on_screen finsh_init ed_init"
  using visible_prompt [of finsh_init]
  by (simp add: on_screen_def finsh_init_def ed_init_def ed_text_def finsh_get_prompt_def screen_def term_char_def)

text \<open>A small table, for examples: a command of the car, the help, and a function that is no command.\<close>

definition car_table :: symtab where
  "car_table = [(''__cmd_carMove'', 1), (''__cmd_help'', 2), (''pinMode'', 3)]"

lemma car_table_good [simp]: "good_table car_table" "c_names car_table" "visible_table car_table"
  by (auto simp: car_table_def good_table_def c_names_def c_string_def visible_table_def visible_def FINSH_CMD_SIZE_def)

lemma car_table_find [simp]: "find_cmd car_table ''carMove'' = Some 1"
  by (simp add: find_cmd_def car_table_def CMD_PREFIX_def)

text \<open>The command \<^verbatim>\<open>carMove -b\<close>, corrected to \<^verbatim>\<open>-f\<close>, run, recalled, and the cursor moved left.\<close>

definition example_keys :: string where
  "example_keys = ''carMove -b'' @ [BS] @ ''f'' @ [CR, ESC] @ ''[A'' @ [ESC] @ ''[D''"

definition example_editor :: editor where
  "example_editor = \<lparr>before = ''carMove -'', after = ''f'', hist = [''carMove -f''], hpos = 0, keys = WAIT_NORMAL,
     executed = [Ran 1 [Some ''carMove'', Some ''-f'']]\<rparr>"

lemma example_run: "ed_keys car_table example_keys ed_init = Some example_editor"
  by (simp add: example_keys_def example_editor_def ed_init_def ed_key_def ed_plain_def Let_def ed_text_def
    ed_recall_def remember_def run_line_def FINSH_CMD_SIZE_def FINSH_ARG_MAX_def numeral_eq_Suc blank_def
    find_cmd_def car_table_def CMD_PREFIX_def)

text \<open>
  C22: Whatever keys are pressed at the console, as long as no line reaches the 80 characters of
  its array, the shell does what the reference editor does: the same text, cursor, history and
  commands run with the same arguments; and it never leaves one of its arrays.
\<close>

theorem shell_implements_editor:
  assumes "good_table tab" and "ed_keys tab ks ed_init = Some e"
  shows "\<exists>s. finsh_keys tab ks finsh_init = Some s \<and> shows_editor s e"
  using keys_implement [OF init_shows assms] by blast

theorem shell_implements_editor_witness:
  "\<exists>s. finsh_keys car_table example_keys finsh_init = Some s \<and> shows_editor s example_editor"
  by (rule shell_implements_editor) (simp_all add: example_run)

text \<open>
  C23: What the shell prints keeps the terminal in step: after any visible characters and keys that
  the shell handles (editing and arrow keys, tab, return), as long as no line reaches the 80 characters
  of its array, the row of the cursor shows the prompt and the whole line, followed by blanks, and the
  cursor stands where the next character will go. The names in the command table are taken to be
  visible, and what a command prints to end with a line feed.
\<close>

theorem screen_shows_line:
  assumes "good_table tab" "visible_table tab" and "\<forall>c \<in> set ks. good_key c"
    and "ed_keys tab ks ed_init = Some e"
  shows "\<exists>s k. finsh_keys tab ks finsh_init = Some s \<and>
    screen (out s) = (''msh >'' @ ed_text e @ replicate k CHR '' '', 5 + length (before e))"
proof -
  obtain s where s: "finsh_keys tab ks finsh_init = Some s" "prompt_mode s" "on_screen s e"
    using keys_implement [OF init_shows assms(1,4)] init_screen assms(2,3) by (auto simp: finsh_init_def)
  then show ?thesis by (auto simp: on_screen_def finsh_get_prompt_def)
qed

theorem screen_shows_line_witness:
  "\<exists>s k. finsh_keys car_table example_keys finsh_init = Some s \<and>
    screen (out s) = (''msh >carMove -f'' @ replicate k CHR '' '', 14)"
proof -
  have "\<forall>c \<in> set example_keys. good_key c"
    by (auto simp: example_keys_def good_key_def visible_def)
  then show ?thesis
    using screen_shows_line [OF _ _ _ example_run] by (simp add: example_editor_def ed_text_def)
qed

text \<open>Typing visible characters at the end of the line.\<close>

lemma ed_type:
  "keys e = WAIT_NORMAL \<Longrightarrow> after e = [] \<Longrightarrow> \<forall>c \<in> set w. visible c \<Longrightarrow>
   length (before e) + length w < FINSH_CMD_SIZE \<Longrightarrow>
   ed_keys tab w e = Some (e\<lparr>before := before e @ w\<rparr>)"
proof (induction w arbitrary: e)
  case (Cons c w)
  have "c \<notin> {NUL, CHR 0xFF, TAB, DEL, BS, CR, LF, ESC}"
    using Cons.prems(3) by (auto simp: visible_def)
  then have "ed_key tab c e = Some (e\<lparr>before := before e @ [c]\<rparr>)"
    using Cons.prems by (simp add: ed_key_def Let_def ed_plain_def ed_text_def)
  then show ?case
    using Cons.IH [of "e\<lparr>before := before e @ [c]\<rparr>"] Cons.prems by simp
qed simp

lemma ed_keys_append: "ed_keys tab (a @ b) e = Option.bind (ed_keys tab a e) (ed_keys tab b)"
  by (induction a arbitrary: e) (auto split: Option.bind_splits)

text \<open>
  C24: At an empty prompt, after any keys in which no line reached the 80 characters of its array, typing
  a command of the table with its arguments and return calls the function of the command with the first
  eight words (\<open>FINSH_ARG_MAX\<close>) of what was typed, the command being the first, and no others. The line is of
  visible characters and stays below 80, and each argument is a word without blanks that does not begin with
  a quote, or a text without quote and backslash in quotes.
\<close>

theorem typed_command_runs:
  assumes tab: "good_table tab" and cmd: "find_cmd tab cmd = Some func" "arg_ok (Plain cmd)"
    and args: "\<forall>x \<in> set xs. arg_ok x"
    and vis: "\<forall>c \<in> set (show_args (Plain cmd # xs)). visible c"
    and len: "length (show_args (Plain cmd # xs)) < FINSH_CMD_SIZE"
    and hist: "ed_keys tab ks ed_init = Some e" and prompt: "ed_text e = []" "keys e = WAIT_NORMAL"
  shows "\<exists>s. finsh_keys tab (ks @ show_args (Plain cmd # xs) @ [CR]) finsh_init = Some s \<and>
    ran s = executed e @ [Ran func (map Some (take FINSH_ARG_MAX (cmd # map arg_text xs)))]"
proof -
  let ?w = "show_args (Plain cmd # xs)"
  have "before e = []" "after e = []" using prompt(1) by (auto simp: ed_text_def)
  then have "ed_keys tab ?w e = Some (e\<lparr>before := ?w\<rparr>)"
    using ed_type [of e ?w tab] prompt(2) vis len by simp
  moreover have "ed_key tab CR (e\<lparr>before := ?w\<rparr>) =
      Some (e\<lparr>before := [], after := [], hist := remember ?w (hist e), hpos := length (remember ?w (hist e)),
        executed := executed e @ [run_line tab ?w]\<rparr>)"
    using prompt(2) \<open>after e = []\<close> by (simp add: ed_key_def Let_def ed_plain_def ed_text_def)
  ultimately have "ed_keys tab (ks @ ?w @ [CR]) ed_init =
      Some (e\<lparr>before := [], after := [], hist := remember ?w (hist e), hpos := length (remember ?w (hist e)),
        executed := executed e @ [run_line tab ?w]\<rparr>)"
    using hist by (simp add: ed_keys_append)
  from keys_implement [OF init_shows tab this] show ?thesis
    using run_line_typed [OF cmd args] by (auto simp: shows_editor_def)
qed

theorem typed_command_runs_witness:
  "\<exists>s. finsh_keys car_table ([] @ show_args (Plain ''carMove'' # [Plain ''-f'', Quoted ''a b'']) @ [CR]) finsh_init = Some s \<and>
    ran s = executed ed_init @ [Ran 1 (map Some (take FINSH_ARG_MAX (''carMove'' # map arg_text [Plain ''-f'', Quoted ''a b''])))]"
proof (rule typed_command_runs)
  show "\<forall>c \<in> set (show_args (Plain ''carMove'' # [Plain ''-f'', Quoted ''a b''])). visible c"
    by (auto simp: visible_def)
qed (simp_all add: blank_def FINSH_CMD_SIZE_def ed_init_def ed_text_def)

section \<open>Lines that are too long\<close>

text \<open>
  The 80th character sends the editor back to the start of the line without clearing it. What
  is then typed overwrites the old text, and nothing ends it.
\<close>

definition typing :: "finsh_shell \<Rightarrow> string \<Rightarrow> nat \<Rightarrow> bool" where
  "typing s l k \<longleftrightarrow> line s = l \<and> length l = FINSH_CMD_SIZE \<and> k < FINSH_CMD_SIZE \<and>
    line_position s = of_nat k \<and> line_curpos s = of_nat k \<and> stat s = WAIT_NORMAL \<and> echo_mode s \<and>
    ran s = [] \<and> history_count s = 0 \<and> length (cmd_history s) = FINSH_HISTORY_LINES"

lemma type_key:
  assumes s: "typing s l k" and c: "visible c"
  shows "\<exists>s'. finsh_key tab c s = Some s' \<and> typing s' (l[k := c]) (if k + 1 = FINSH_CMD_SIZE then 0 else k + 1)"
proof -
  have k80: "k < 80" "k < length l" using s by (simp_all add: typing_def FINSH_CMD_SIZE_def)
  then have k: "unat (of_nat k :: u8) = k" "unat (of_nat k + 1 :: u8) = k + 1"
    using small_word(1) [of k] small_word(1) [of "k + 1"] by (simp_all add: add.commute)
  have "c \<notin> {NUL, CHR 0xFF, TAB, DEL, BS, CR, LF, ESC}" using c by (auto simp: visible_def)
  then have "finsh_key tab c s = insert_char c s"
    using s by (simp add: finsh_key_def plain_key_def typing_def)
  also have "\<dots> = Some (s\<lparr>line := l[k := c], out := out s @ [Text [c]],
      line_position := (if k + 1 = FINSH_CMD_SIZE then 0 else of_nat k + 1),
      line_curpos := (if k + 1 = FINSH_CMD_SIZE then 0 else of_nat k + 1)\<rparr>)"
    using s k k80 by (auto simp: typing_def insert_char_def Let_def poke_def rt_kprintf_def FINSH_CMD_SIZE_def)
  finally have step: "finsh_key tab c s = Some (s\<lparr>line := l[k := c], out := out s @ [Text [c]],
      line_position := (if k + 1 = FINSH_CMD_SIZE then 0 else of_nat k + 1),
      line_curpos := (if k + 1 = FINSH_CMD_SIZE then 0 else of_nat k + 1)\<rparr>)" .
  show ?thesis
  proof (cases "k + 1 = FINSH_CMD_SIZE")
    case True
    then show ?thesis using step s by (simp add: typing_def)
  next
    case False
    then have "k + 1 < FINSH_CMD_SIZE" using s by (simp add: typing_def)
    then show ?thesis using False step s by (simp add: typing_def add.commute)
  qed
qed

lemma finsh_keys_append: "finsh_keys tab (a @ b) s = Option.bind (finsh_keys tab a s) (finsh_keys tab b)"
  by (induction a arbitrary: s) (auto split: Option.bind_splits)

lemma type_over:
  "typing s l k \<Longrightarrow> \<forall>c \<in> set w. visible c \<Longrightarrow> k + length w < FINSH_CMD_SIZE \<Longrightarrow>
   \<exists>s'. finsh_keys tab w s = Some s' \<and> typing s' (take k l @ w @ drop (k + length w) l) (k + length w)"
proof (induction w arbitrary: s l k)
  case Nil
  then show ?case by simp
next
  case (Cons c w)
  obtain s1 where s1: "finsh_key tab c s = Some s1" "typing s1 (l[k := c]) (k + 1)"
    using type_key [OF Cons.prems(1), of c tab] Cons.prems(2,3) by auto
  have k: "k < length l" using Cons.prems(1) by (simp add: typing_def)
  obtain s2 where s2: "finsh_keys tab w s1 = Some s2"
    "typing s2 (take (k + 1) (l[k := c]) @ w @ drop (k + 1 + length w) (l[k := c])) (k + 1 + length w)"
    using Cons.IH [OF s1(2)] Cons.prems(2,3) by auto
  have "take (k + 1) (l[k := c]) @ w @ drop (k + 1 + length w) (l[k := c]) =
      take k l @ (c # w) @ drop (k + length (c # w)) l"
    using k by (simp add: take_Suc_conv_app_nth)
  then show ?case using s1(1) s2 by (intro exI [of _ s2]) simp
qed

lemma init_typing: "typing finsh_init (replicate FINSH_CMD_SIZE NUL) 0"
  by (simp add: typing_def finsh_init_def FINSH_CMD_SIZE_def)

lemma type_full:
  assumes "length u = FINSH_CMD_SIZE" "\<forall>c \<in> set u. visible c"
  shows "\<exists>s. finsh_keys tab u finsh_init = Some s \<and> typing s u 0"
proof -
  obtain w c where u: "u = w @ [c]" using assms(1) by (cases u rule: rev_cases) (auto simp: FINSH_CMD_SIZE_def)
  have w: "length w = 79" using assms(1) u by (simp add: FINSH_CMD_SIZE_def)
  obtain s1 where s1: "finsh_keys tab w finsh_init = Some s1" "typing s1 (w @ [NUL]) 79"
    using type_over [OF init_typing, of w tab] assms(2) u w by (auto simp: FINSH_CMD_SIZE_def)
  obtain s2 where "finsh_key tab c s1 = Some s2" "typing s2 ((w @ [NUL])[79 := c]) 0"
    using type_key [OF s1(2), of c tab] assms(2) u by (auto simp: FINSH_CMD_SIZE_def)
  then show ?thesis using s1(1) w by (auto simp: u finsh_keys_append list_update_append)
qed

lemma typing_length: "typing s l k \<Longrightarrow> (ucast (line_position s) :: u32) = of_nat k"
  by (simp add: typing_def FINSH_CMD_SIZE_def word_unat_eq_iff unsigned_ucast_eq unsigned_of_nat take_bit_nat_eq_self)

lemma push_typing:
  assumes s: "typing s l k"
  shows "\<exists>s'. shell_push_history s = Some s' \<and> line s' = line s \<and> line_position s' = line_position s \<and> ran s' = ran s"
proof -
  have "\<not> FINSH_CMD_SIZE < unat (line_position s)" "history_count s = 0"
    using s small_word(1) [of k] by (auto simp: typing_def FINSH_CMD_SIZE_def)
  then show ?thesis
    by (cases "line_position s = 0") (simp_all add: shell_push_history_def Let_def FINSH_HISTORY_LINES_def)
qed

lemma enter_typing:
  assumes s: "typing s l k" and run: "msh_exec tab l (of_nat k) = Some (buf, r)"
  shows "\<exists>s'. finsh_key tab CR s = Some s' \<and> ran s' = [r]"
proof -
  obtain s1 where s1: "shell_push_history s = Some s1" "line s1 = l" "line_position s1 = line_position s" "ran s1 = []"
    using push_typing [OF s] s by (auto simp: typing_def)
  have "finsh_key tab CR s = enter_key tab s"
    using s by (simp add: finsh_key_def plain_key_def typing_def)
  then show ?thesis
    using s1 run typing_length [OF s] by (simp add: enter_key_def rt_kprintf_def)
qed

lemma visible_string_from: "\<forall>c \<in> set u. visible c \<Longrightarrow> string_from u i = None"
proof -
  assume "\<forall>c \<in> set u. visible c"
  moreover have "\<not> visible NUL" by (simp add: visible_def)
  ultimately have "NUL \<notin> set (drop i u)" by (auto dest: in_set_dropD)
  then show ?thesis by (simp add: string_from_def)
qed

text \<open>A command with one argument, on a line that no zero ends.\<close>

lemma unended_line_runs:
  assumes tab: "c_names tab" and cmd: "find_cmd tab cmd = Some func" "arg_ok (Plain cmd)"
    and arg: "arg_ok (Plain arg)" and z: "d \<noteq> NUL" "NUL \<notin> set z"
    and len: "length (cmd @ CHR '' '' # arg) < 2 ^ 32"
  shows "\<exists>buf. msh_exec tab ((cmd @ CHR '' '' # arg) @ d # z) (of_nat (length (cmd @ CHR '' '' # arg))) =
    Some (buf, Ran func [Some cmd, None])"
proof -
  define w where "w = cmd @ CHR '' '' # arg"
  obtain c u where c: "cmd = c # u" "c \<noteq> QUOTE" and wc: "\<forall>x \<in> set cmd. \<not> blank x" "NUL \<notin> set cmd"
    using cmd(2) by (cases cmd) auto
  obtain c' u' where c': "arg = c' # u'" "c' \<noteq> QUOTE" and wa: "\<forall>x \<in> set arg. \<not> blank x" "NUL \<notin> set arg"
    using arg by (cases arg) auto
  have "length w < 2 ^ 32" using len by (simp only: w_def)
  then have ul: "unat (of_nat (length w) :: u32) = length w"
    by (simp add: unsigned_of_nat take_bit_nat_eq_self)
  have wne: "(of_nat (length w) :: u32) \<noteq> 0"
    using ul c by (metis length_0_conv unsigned_0 append_is_Nil_conv list.distinct(1) w_def)
  have hd: "w = c # u @ CHR '' '' # arg" "\<not> blank c" using c wc by (simp_all add: w_def)
  have trim: "trim_blanks (w @ d # z) 0 (of_nat (length w)) = Some (0, of_nat (length w))"
    using hd by (subst trim_blanks.simps) (simp add: peek_def)
  have tw: "takeWhile (\<lambda>x. \<not> blank x) w = cmd" "dropWhile (\<lambda>x. \<not> blank x) w = CHR '' '' # arg"
    using take_word [OF wc(1)] by (simp_all add: w_def)
  have word: "skip_word (w @ d # z) 0 (length w) = Some (length cmd)"
    using skip_word_spec [of "[]" w d z] tw(1) by simp
  have get: "msh_get_cmd tab (w @ d # z) (length cmd) = Some func"
    using msh_get_cmd_find [OF tab, of cmd "CHR '' '' # arg @ d # z"] cmd(1) wc(2)
    by (simp add: w_def c_string_def)
  have t1: "split_loop (w @ d # z) 0 (length w) [] =
      split_loop (cmd @ (CHR '' '' # arg) @ d # z) (length cmd) (length cmd + length (CHR '' '' # arg)) [0]"
  proof -
    have cw: "c # u @ CHR '' '' # arg = w" by (rule hd(1) [symmetric])
    have dr: "dropWhile blank w = c # u @ CHR '' '' # arg" and tb: "takeWhile blank w = []"
      using hd(2) by (subst hd(1), simp)+
    show ?thesis
      using split_turn_word [OF dr c(2), of "[]" "[]" d z, unfolded cw tw tb] by (simp add: FINSH_ARG_MAX_def)
  qed
  have aw: "takeWhile (\<lambda>x. \<not> blank x) arg = arg" "dropWhile (\<lambda>x. \<not> blank x) arg = []"
    using wa(1) by (simp_all add: takeWhile_eq_all_conv dropWhile_eq_Nil_conv)
  have t2: "split_loop (cmd @ (CHR '' '' # arg) @ d # z) (length cmd) (length cmd + length (CHR '' '' # arg)) [0] =
      Some (cmd @ NUL # arg @ d # z, [0, length cmd + 1])"
    using split_turn_word [of "CHR '' '' # arg" c' u' "[0]" cmd d z] c' wa(1) aw
    by (simp add: FINSH_ARG_MAX_def)
  have "string_from (cmd @ NUL # arg @ d # z) 0 = Some cmd"
    using string_from_word [OF wc(2), of "[]" "arg @ d # z"] by simp
  moreover have "string_from (cmd @ NUL # arg @ d # z) (length cmd + 1) = None"
    using wa(2) z by (simp add: string_from_def)
  moreover have "msh_split (w @ d # z) 0 (length w) = Some (cmd @ NUL # arg @ d # z, [0, length cmd + 1])"
    using t1 t2 by (simp add: msh_split_def)
  ultimately have "msh_exec_cmd tab (w @ d # z) 0 (length w) =
      Some (cmd @ NUL # arg @ d # z, Some (Ran func [Some cmd, None]))"
    using word get c by (simp add: msh_exec_cmd_def)
  then show ?thesis
    using trim wne ul unfolding w_def [symmetric] by (simp add: msh_exec_def)
qed

text \<open>
  C25: A line of 80 visible characters is dropped without being cleared. A command with one
  argument that is typed next gets an argument that no zero ends within the line, so it runs on
  into the old text and past the array; and a tab instead reads past the array.
\<close>

theorem overlong_line_leaks:
  assumes tab: "c_names tab" and cmd: "find_cmd tab cmd = Some func" "arg_ok (Plain cmd)" "arg_ok (Plain arg)"
    and u: "length u = FINSH_CMD_SIZE" "\<forall>c \<in> set u. visible c"
    and w: "\<forall>c \<in> set (cmd @ CHR '' '' # arg). visible c" "length (cmd @ CHR '' '' # arg) < FINSH_CMD_SIZE"
  shows "(\<exists>s. finsh_keys tab (u @ (cmd @ CHR '' '' # arg) @ [CR]) finsh_init = Some s \<and>
      ran s = [Ran func [Some cmd, None]]) \<and>
    finsh_keys tab (u @ [TAB]) finsh_init = None"
proof -
  let ?w = "cmd @ CHR '' '' # arg"
  obtain s1 where s1: "finsh_keys tab u finsh_init = Some s1" "typing s1 u 0"
    using type_full [OF u] by blast
  obtain s2 where s2: "finsh_keys tab ?w s1 = Some s2" "typing s2 (?w @ drop (length ?w) u) (length ?w)"
    using type_over [OF s1(2) w(1)] w(2) by auto
  obtain d z where dz: "drop (length ?w) u = d # z"
    using u(1) w(2) by (cases "drop (length ?w) u") (simp_all add: FINSH_CMD_SIZE_def)
  have vis: "visible x" if "x \<in> set (d # z)" for x
    using u(2) that unfolding dz [symmetric] by (auto dest: in_set_dropD)
  have "\<not> visible NUL" by (simp add: visible_def)
  then have nul: "d \<noteq> NUL" "NUL \<notin> set z" using vis [of d] vis [of NUL] by auto
  have len: "length ?w < 80" using w(2) by (simp add: FINSH_CMD_SIZE_def)
  obtain buf where "msh_exec tab (?w @ d # z) (of_nat (length ?w)) = Some (buf, Ran func [Some cmd, None])"
    using unended_line_runs [OF tab cmd nul] len by auto
  then obtain s where "finsh_key tab CR s2 = Some s" "ran s = [Ran func [Some cmd, None]]"
    using enter_typing [OF s2(2) [unfolded dz]] by blast
  then have one: "\<exists>s. finsh_keys tab (u @ ?w @ [CR]) finsh_init = Some s \<and> ran s = [Ran func [Some cmd, None]]"
    by (simp only: finsh_keys_append [of tab u] finsh_keys_append [of tab ?w] s1(1) s2(1) bind.bind_lunit) simp
  have "finsh_key tab TAB s1 = tab_key tab s1"
    using s1(2) by (simp add: finsh_key_def plain_key_def typing_def)
  moreover have "tab_key tab s1 = None"
    using s1(2) visible_string_from [OF u(2), of 0] by (simp add: tab_key_def msh_auto_complete_def typing_def)
  ultimately have "finsh_keys tab (u @ [TAB]) finsh_init = None"
    using s1(1) by (simp add: finsh_keys_append)
  with one show ?thesis by blast
qed

theorem overlong_line_leaks_witness:
  "(\<exists>s. finsh_keys car_table (replicate 80 CHR ''x'' @ (''carMove'' @ CHR '' '' # ''-f'') @ [CR]) finsh_init = Some s \<and>
      ran s = [Ran 1 [Some ''carMove'', None]]) \<and>
    finsh_keys car_table (replicate 80 CHR ''x'' @ [TAB]) finsh_init = None"
proof (rule overlong_line_leaks)
  show "\<forall>c \<in> set (replicate 80 CHR ''x''). visible c" "\<forall>c \<in> set (''carMove'' @ CHR '' '' # ''-f''). visible c"
    by (auto simp: visible_def)
qed (simp_all add: blank_def FINSH_CMD_SIZE_def)

end
