(* ===== verification/Mempool.thy ===== *)
theory Mempool
  imports HeapClient Mailbox
begin

text \<open>
  The memory pools of \<^verbatim>\<open>src/mempool.c\<close>: blocks of one size in a row, each behind a
  word that links it to the next free block or, while it is handed out, points to its pool. A pool
  is named by its address; a null pointer is 0. \<open>Blocked\<close> carries what a waiting call keeps, and
  \<open>rt_mp_alloc_resume\<close> is the rest of the call once the thread runs again. The threads waiting for
  a block are in the list \<open>Pending\<close> of the pool, newest first, as the code inserts them.
\<close>

section \<open>The code\<close>

record rt_mempool =
  start_address :: nat
  mp_size :: nat
  block_list :: nat
  mp_block_size :: nat
  block_total_count :: nat
  block_free_count :: nat
  suspend_thread_count :: nat

record mp_world =
  pools :: "nat \<Rightarrow> rt_mempool"
  cells :: "nat \<Rightarrow> nat"
  mp_heap :: heap
  mp_kernel :: kernel
  rt_errno :: int

abbreviation (input) PTR_SIZE :: nat where "PTR_SIZE \<equiv> 4"

definition upd_pool :: "nat \<Rightarrow> (rt_mempool \<Rightarrow> rt_mempool) \<Rightarrow> mp_world \<Rightarrow> mp_world" where
  "upd_pool mp f w = w\<lparr>pools := (pools w)(mp := f (pools w mp))\<rparr>"

definition upd_kernel :: "(kernel \<Rightarrow> kernel) \<Rightarrow> mp_world \<Rightarrow> mp_world" where
  "upd_kernel f w = w\<lparr>mp_kernel := f (mp_kernel w)\<rparr>"

definition store_word :: "nat \<Rightarrow> nat \<Rightarrow> mp_world \<Rightarrow> mp_world" where
  "store_word a v w = w\<lparr>cells := (cells w)(a := v)\<rparr>"

text \<open>\<^verbatim>\<open>rt_set_errno\<close>: the error goes to the running thread, in an interrupt to a global.\<close>

definition rt_set_errno :: "int \<Rightarrow> mp_world \<Rightarrow> mp_world" where
  "rt_set_errno e w =
    (if rt_interrupt_get_nest (mp_kernel w) \<noteq> 0 then w\<lparr>rt_errno := e\<rparr>
     else case rt_thread_self (mp_kernel w) of
       None \<Rightarrow> w\<lparr>rt_errno := e\<rparr>
     | Some t \<Rightarrow> upd_kernel (set_error t e) w)"

definition rt_get_errno :: "mp_world \<Rightarrow> int" where
  "rt_get_errno w =
    (if rt_interrupt_get_nest (mp_kernel w) \<noteq> 0 then rt_errno w
     else case rt_thread_self (mp_kernel w) of
       None \<Rightarrow> rt_errno w
     | Some t \<Rightarrow> t_error (threads (mp_kernel w) t))"

text \<open>The loop that links the blocks.\<close>

primrec link_blocks :: "nat \<Rightarrow> nat \<Rightarrow> nat \<Rightarrow> mp_world \<Rightarrow> mp_world" where
  "link_blocks start stride 0 w = w"
| "link_blocks start stride (Suc offset) w =
    store_word ((start + offset * stride) mod 2 ^ 32) ((start + (offset + 1) * stride) mod 2 ^ 32)
      (link_blocks start stride offset w)"

definition end_list :: "nat \<Rightarrow> nat \<Rightarrow> nat \<Rightarrow> mp_world \<Rightarrow> mp_world" where
  "end_list start stride count w = store_word ((start + sub32 count 1 * stride) mod 2 ^ 32) 0 w"

definition rt_mp_init :: "nat \<Rightarrow> string \<Rightarrow> nat \<Rightarrow> nat \<Rightarrow> nat \<Rightarrow> mp_world \<Rightarrow> int \<times> mp_world" where
  "rt_mp_init mp name start sz block_size w =
    (let bs = align32 block_size;
         stride = (bs + PTR_SIZE) mod 2 ^ 32;
         total = RT_ALIGN_DOWN sz 4 div stride;
         p = \<lparr>start_address = start, mp_size = RT_ALIGN_DOWN sz 4, block_list = start, mp_block_size = bs,
              block_total_count = total, block_free_count = total, suspend_thread_count = 0\<rparr>;
         w1 = upd_kernel (\<lambda>k. rt_ipc_object_init mp (upd_objects (rt_object_init (IpcObj mp) RT_Object_Class_MemPool name) k)) w
     in (RT_EOK, upd_pool mp (\<lambda>_. p) (end_list start stride total (link_blocks start stride total w1))))"

text \<open>\<open>addr\<close> is the block \<^verbatim>\<open>rt_object_allocate\<close> got for the control block.\<close>

definition rt_mp_create ::
  "nat option \<Rightarrow> string \<Rightarrow> nat \<Rightarrow> nat \<Rightarrow> mp_world \<Rightarrow> (nat option \<times> mp_world) option" where
  "rt_mp_create addr name block_count block_size w =
    (case rt_object_allocate (map_option IpcObj addr) RT_Object_Class_MemPool name (objects (mp_kernel w)) of
       (Some (IpcObj mp), st) \<Rightarrow>
         (let bs = align32 block_size;
              stride = (bs + PTR_SIZE) mod 2 ^ 32;
              w1 = upd_kernel (\<lambda>k. k\<lparr>objects := st\<rparr>) w
          in map_option
            (\<lambda>(start, h). let w2 = w1\<lparr>mp_heap := h\<rparr> in
               case start of
                 None \<Rightarrow> (None, upd_kernel (upd_objects (rt_object_delete (IpcObj mp))) w2)
               | Some a \<Rightarrow>
                   (let p = \<lparr>start_address = a, mp_size = stride * block_count mod 2 ^ 32, block_list = a, mp_block_size = bs,
                             block_total_count = block_count, block_free_count = block_count, suspend_thread_count = 0\<rparr>
                    in (Some mp, upd_pool mp (\<lambda>_. p)
                          (end_list a stride block_count (link_blocks a stride block_count
                            (upd_kernel (rt_ipc_object_init mp) w2))))))
            (rt_malloc (stride * block_count mod 2 ^ 32) (mp_heap w)))
     | (_, st) \<Rightarrow> Some (None, upd_kernel (\<lambda>k. k\<lparr>objects := st\<rparr>) w))"

partial_function (option) mp_wake_all :: "nat \<Rightarrow> mp_world \<Rightarrow> mp_world option" where
  "mp_wake_all mp w =
    (case lists (mp_kernel w) (Pending mp) of
       [] \<Rightarrow> Some w
     | t # _ \<Rightarrow>
        mp_wake_all mp
          (upd_pool mp (\<lambda>p. p\<lparr>suspend_thread_count := sub32 (suspend_thread_count p) 1\<rparr>)
            (upd_kernel (\<lambda>k. snd (rt_thread_resume t (set_error t (- RT_ERROR) k))) w)))"

definition rt_mp_detach :: "nat \<Rightarrow> mp_world \<Rightarrow> (int \<times> mp_world) option" where
  "rt_mp_detach mp w =
    map_option (\<lambda>w1. (RT_EOK, upd_kernel (upd_objects (rt_object_detach (IpcObj mp))) w1)) (mp_wake_all mp w)"

definition rt_mp_delete :: "nat \<Rightarrow> mp_world \<Rightarrow> (int \<times> mp_world) option" where
  "rt_mp_delete mp w =
    map_option
      (\<lambda>w1. (RT_EOK, upd_kernel (upd_objects (rt_object_delete (IpcObj mp)))
                (w1\<lparr>mp_heap := rt_free (Some (start_address (pools w1 mp))) (mp_heap w1)\<rparr>)))
      (mp_wake_all mp w)"

text \<open>Waiting for a block: the thread is suspended and goes to the front of the list.\<close>

definition mp_suspend :: "nat \<Rightarrow> tid \<Rightarrow> int \<Rightarrow> mp_world \<Rightarrow> mp_world" where
  "mp_suspend mp t time w =
    (let w1 = upd_pool mp (\<lambda>p. p\<lparr>suspend_thread_count := (suspend_thread_count p + 1) mod 2 ^ 32\<rparr>)
                (upd_kernel (\<lambda>k. list_push (Pending mp) t (snd (rt_thread_suspend t (set_error t RT_EOK k)))) w)
     in if time > 0
        then upd_kernel (\<lambda>k. snd (rt_timer_start (ThreadTimer t)
               (snd (rt_timer_control (ThreadTimer t) RT_TIMER_CTRL_SET_TIME (word_of_int time) k)))) w1
        else w1)"

definition mp_take :: "nat \<Rightarrow> mp_world \<Rightarrow> nat \<times> mp_world" where
  "mp_take mp w =
    (let w1 = upd_pool mp (\<lambda>p. p\<lparr>block_free_count := sub32 (block_free_count p) 1\<rparr>) w;
         block_ptr = block_list (pools w1 mp);
         w2 = upd_pool mp (\<lambda>p. p\<lparr>block_list := cells w1 block_ptr\<rparr>) w1
     in (block_ptr + PTR_SIZE, store_word block_ptr mp w2))"

definition mp_alloc_loop ::
  "nat \<Rightarrow> int \<Rightarrow> u32 \<Rightarrow> tid option \<Rightarrow> mp_world \<Rightarrow> (nat option, mb_wait) outcome \<times> mp_world" where
  "mp_alloc_loop mp time before_sleep thread w =
    (if block_free_count (pools w mp) = 0
     then if time = 0 then (Return None, rt_set_errno (- RT_ETIMEOUT) w)
       else case thread of
         None \<Rightarrow> (Return None, upd_kernel (\<lambda>k. k\<lparr>fault := True\<rparr>) w)
       | Some t \<Rightarrow>
           (Blocked (wait_locals t time before_sleep (mp_kernel w)), upd_kernel rt_schedule (mp_suspend mp t time w))
     else let (block, w1) = mp_take mp w in (Return (Some block), w1))"

definition rt_mp_alloc :: "nat \<Rightarrow> int \<Rightarrow> mp_world \<Rightarrow> (nat option, mb_wait) outcome \<times> mp_world" where
  "rt_mp_alloc mp time w = mp_alloc_loop mp time 0 (rt_thread_self (mp_kernel w)) w"

definition rt_mp_alloc_resume :: "nat \<Rightarrow> mb_wait \<Rightarrow> mp_world \<Rightarrow> (nat option, mb_wait) outcome \<times> mp_world" where
  "rt_mp_alloc_resume mp l w =
    (if t_error (threads (mp_kernel w) (w_thread l)) \<noteq> RT_EOK then (Return None, w)
     else mp_alloc_loop mp (time_left l (mp_kernel w)) (w_tick l) (Some (w_thread l)) w)"

definition rt_mp_free :: "nat \<Rightarrow> mp_world \<Rightarrow> mp_world" where
  "rt_mp_free block w =
    (let block_ptr = sub32 block PTR_SIZE;
         mp = cells w block_ptr;
         w1 = upd_pool mp (\<lambda>p. p\<lparr>block_free_count := (block_free_count p + 1) mod 2 ^ 32\<rparr>) w;
         w2 = store_word block_ptr (block_list (pools w1 mp)) w1;
         w3 = upd_pool mp (\<lambda>p. p\<lparr>block_list := block_ptr\<rparr>) w2
     in if suspend_thread_count (pools w3 mp) > 0
        then case lists (mp_kernel w3) (Pending mp) of
            [] \<Rightarrow> upd_kernel (\<lambda>k. k\<lparr>fault := True\<rparr>) w3
          | t # _ \<Rightarrow>
              upd_kernel rt_schedule
                (upd_pool mp (\<lambda>p. p\<lparr>suspend_thread_count := sub32 (suspend_thread_count p) 1\<rparr>)
                  (upd_kernel (\<lambda>k. snd (rt_thread_resume t (set_error t RT_EOK k))) w3))
        else w3)"

section \<open>The free list\<close>

text \<open>\<open>fs\<close> is the list that starts at \<open>a\<close> and ends with a null pointer.\<close>

primrec free_chain :: "(nat \<Rightarrow> nat) \<Rightarrow> nat \<Rightarrow> nat list \<Rightarrow> bool" where
  "free_chain c a [] \<longleftrightarrow> a = 0"
| "free_chain c a (f # fs) \<longleftrightarrow> a = f \<and> f \<noteq> 0 \<and> free_chain c (c f) fs"

lemma free_chain_upd: "b \<notin> set fs \<Longrightarrow> free_chain (c(b := v)) a fs = free_chain c a fs"
  by (induction fs arbitrary: a) auto

lemma free_chain_walk: "free_chain c a fs \<Longrightarrow> map (\<lambda>n. (c ^^ n) a) [0..<length fs] = fs"
proof (induction fs arbitrary: a)
  case (Cons f fs)
  have "map (\<lambda>n. (c ^^ n) a) [0..<length (f # fs)] = a # map (\<lambda>n. (c ^^ n) (c a)) [0..<length fs]"
    by (simp add: upt_rec [of 0 "Suc (length fs)"] map_Suc_upt [symmetric] funpow_Suc_right o_def del: upt_Suc funpow.simps)
  then show ?case using Cons by auto
qed simp

definition stride :: "rt_mempool \<Rightarrow> nat" where
  "stride p = mp_block_size p + 4"

definition block_addr :: "rt_mempool \<Rightarrow> nat \<Rightarrow> nat" where
  "block_addr p i = start_address p + i * stride p"

definition block_addrs :: "rt_mempool \<Rightarrow> nat set" where
  "block_addrs p = block_addr p ` {..<block_total_count p}"

definition free_blocks :: "nat \<Rightarrow> mp_world \<Rightarrow> nat list" where
  "free_blocks mp w = map (\<lambda>n. (cells w ^^ n) (block_list (pools w mp))) [0..<block_free_count (pools w mp)]"

definition used_addrs :: "nat \<Rightarrow> mp_world \<Rightarrow> nat set" where
  "used_addrs mp w = block_addrs (pools w mp) - set (free_blocks mp w)"

definition pool_inv :: "nat \<Rightarrow> nat list \<Rightarrow> mp_world \<Rightarrow> bool" where
  "pool_inv mp fs w \<longleftrightarrow>
     (let p = pools w mp in
      0 < start_address p \<and> block_addr p (block_total_count p) \<le> 2 ^ 32 \<and>
      free_chain (cells w) (block_list p) fs \<and> distinct fs \<and> set fs \<subseteq> block_addrs p \<and>
      length fs = block_free_count p \<and> (\<forall>b\<in>block_addrs p - set fs. cells w b = mp))"

lemma pool_inv_free: "pool_inv mp fs w \<Longrightarrow> free_blocks mp w = fs"
  using free_chain_walk [of "cells w" "block_list (pools w mp)" fs] by (simp add: pool_inv_def free_blocks_def Let_def)

lemma stride_pos [simp]: "0 < stride p" "stride p \<noteq> 0"
  by (simp_all add: stride_def)

lemma block_addr_upd [simp]:
  "block_addr (p\<lparr>suspend_thread_count := n\<rparr>) = block_addr p" "block_addr (p\<lparr>block_list := a\<rparr>) = block_addr p"
  "block_addr (p\<lparr>block_free_count := n\<rparr>) = block_addr p"
  by (simp_all add: block_addr_def stride_def fun_eq_iff)

lemma block_addrs_upd [simp]:
  "block_addrs (p\<lparr>suspend_thread_count := n\<rparr>) = block_addrs p" "block_addrs (p\<lparr>block_list := a\<rparr>) = block_addrs p"
  "block_addrs (p\<lparr>block_free_count := n\<rparr>) = block_addrs p"
  by (simp_all add: block_addrs_def)

lemma block_addr_inj: "inj (block_addr p)"
proof (rule injI)
  fix i j assume "block_addr p i = block_addr p j"
  then have "i * stride p = j * stride p" by (simp add: block_addr_def)
  then show "i = j" by simp
qed

lemma card_block_addrs: "finite (block_addrs p)" "card (block_addrs p) = block_total_count p"
  using card_image [of "block_addr p" "{..<block_total_count p}"] block_addr_inj [of p]
  by (auto simp: block_addrs_def intro: inj_on_subset)

lemma block_addr_next: "block_addr p (Suc i) = block_addr p i + stride p"
  by (simp add: block_addr_def)

lemma block_addr_mono: "i < j \<Longrightarrow> block_addr p i + stride p \<le> block_addr p j"
proof -
  assume "i < j"
  then have "Suc i * stride p \<le> j * stride p" by (intro mult_le_mono1) simp
  then show ?thesis by (simp add: block_addr_def)
qed

lemma block_bounds:
  assumes "b \<in> block_addrs p"
  shows "start_address p \<le> b" "b + stride p \<le> block_addr p (block_total_count p)"
  using assms block_addr_mono by (auto simp: block_addrs_def block_addr_def)

lemma blocks_apart:
  assumes "b \<in> block_addrs p" "c \<in> block_addrs p" "b \<noteq> c"
  shows "b + stride p \<le> c \<or> c + stride p \<le> b"
proof -
  from assms obtain i j where "b = block_addr p i" "c = block_addr p j" "i \<noteq> j" by (auto simp: block_addrs_def)
  then show ?thesis using block_addr_mono [of i j p] block_addr_mono [of j i p] by (auto simp: neq_iff)
qed

text \<open>What does not touch the blocks of the pool keeps the invariant.\<close>

definition same_blocks :: "nat \<Rightarrow> mp_world \<Rightarrow> mp_world \<Rightarrow> bool" where
  "same_blocks mp w v \<longleftrightarrow> cells v = cells w \<and>
     (\<exists>n. pools v mp = (pools w mp)\<lparr>suspend_thread_count := n\<rparr>)"


lemma same_blocksD:
  assumes "same_blocks mp w v"
  shows "pool_inv mp fs v = pool_inv mp fs w" "free_blocks mp v = free_blocks mp w" "used_addrs mp v = used_addrs mp w"
    "mp_block_size (pools v mp) = mp_block_size (pools w mp)"
    "start_address (pools v mp) = start_address (pools w mp)"
    "block_total_count (pools v mp) = block_total_count (pools w mp)"
    "block_free_count (pools v mp) = block_free_count (pools w mp)"
  using assms
  by (auto simp: same_blocks_def pool_inv_def free_blocks_def used_addrs_def block_addrs_def Let_def)

lemma upd_simps [simp]:
  "pools (upd_pool mp f w) = (pools w)(mp := f (pools w mp))" "cells (upd_pool mp f w) = cells w"
  "mp_kernel (upd_pool mp f w) = mp_kernel w" "mp_heap (upd_pool mp f w) = mp_heap w"
  "pools (upd_kernel g w) = pools w" "cells (upd_kernel g w) = cells w" "mp_kernel (upd_kernel g w) = g (mp_kernel w)"
  "mp_heap (upd_kernel g w) = mp_heap w"
  "pools (store_word a v w) = pools w" "cells (store_word a v w) = (cells w)(a := v)"
  "mp_kernel (store_word a v w) = mp_kernel w" "mp_heap (store_word a v w) = mp_heap w"
  by (simp_all add: upd_pool_def upd_kernel_def store_word_def)

section \<open>Taking and returning a block\<close>

lemma mp_take_ok:
  assumes inv: "pool_inv mp (f # fs) w"
  shows "fst (mp_take mp w) = f + 4" "pool_inv mp fs (snd (mp_take mp w))"
    "used_addrs mp (snd (mp_take mp w)) = insert f (used_addrs mp w)" "f \<in> block_addrs (pools w mp)"
    "f \<notin> used_addrs mp w"
proof -
  let ?p = "pools w mp" and ?w = "snd (mp_take mp w)"
  have i: "block_list ?p = f" "free_chain (cells w) (cells w f) fs" "f \<notin> set fs" "distinct fs"
    "set (f # fs) \<subseteq> block_addrs ?p" "Suc (length fs) = block_free_count ?p"
    "\<forall>b\<in>block_addrs ?p - set (f # fs). cells w b = mp" "0 < start_address ?p" "block_addr ?p (block_total_count ?p) \<le> 2 ^ 32"
    using inv by (auto simp: pool_inv_def Let_def)
  show "fst (mp_take mp w) = f + 4" using i(1) by (simp add: mp_take_def Let_def)
  have p: "pools ?w mp = ?p\<lparr>block_list := cells w f, block_free_count := length fs\<rparr>" "cells ?w = (cells w)(f := mp)"
    using i(1,6) by (auto simp: mp_take_def Let_def sub32_def)
  have addrs: "block_addrs (pools ?w mp) = block_addrs ?p" unfolding p by simp
  show inv': "pool_inv mp fs ?w"
    unfolding pool_inv_def Let_def p using i by (auto simp: free_chain_upd)
  show "used_addrs mp ?w = insert f (used_addrs mp w)" "f \<in> block_addrs ?p" "f \<notin> used_addrs mp w"
    unfolding used_addrs_def pool_inv_free [OF inv] pool_inv_free [OF inv'] addrs using i by auto
qed

lemma alloc_result:
  "rt_mp_alloc mp time w =
    (if block_free_count (pools w mp) \<noteq> 0 then (Return (Some (fst (mp_take mp w))), snd (mp_take mp w))
     else mp_alloc_loop mp time 0 (rt_thread_self (mp_kernel w)) w)"
  by (simp add: rt_mp_alloc_def mp_alloc_loop_def case_prod_beta)

lemma mp_free_ok:
  assumes inv: "pool_inv mp fs w" and b: "b \<in> used_addrs mp w"
  shows "pool_inv mp (b # fs) (rt_mp_free (b + 4) w)" "used_addrs mp (rt_mp_free (b + 4) w) = used_addrs mp w - {b}"
    "mp_block_size (pools (rt_mp_free (b + 4) w) mp) = mp_block_size (pools w mp)"
    "start_address (pools (rt_mp_free (b + 4) w) mp) = start_address (pools w mp)"
    "block_total_count (pools (rt_mp_free (b + 4) w) mp) = block_total_count (pools w mp)"
proof -
  let ?p = "pools w mp"
  define w3 where "w3 = upd_pool mp (\<lambda>p. p\<lparr>block_list := b\<rparr>)
    (store_word b (block_list ?p) (upd_pool mp (\<lambda>p. p\<lparr>block_free_count := (block_free_count p + 1) mod 2 ^ 32\<rparr>) w))"
  have i: "free_chain (cells w) (block_list ?p) fs" "distinct fs" "set fs \<subseteq> block_addrs ?p" "length fs = block_free_count ?p"
    "\<forall>b\<in>block_addrs ?p - set fs. cells w b = mp" "0 < start_address ?p" "block_addr ?p (block_total_count ?p) \<le> 2 ^ 32"
    using inv by (auto simp: pool_inv_def Let_def)
  have bb: "b \<in> block_addrs ?p" "b \<notin> set fs" "cells w b = mp" "0 < b"
    using b i(5,6) block_bounds(1) [of b ?p] by (auto simp: used_addrs_def pool_inv_free [OF inv])
  have "length fs < block_total_count ?p"
    using psubset_card_mono [OF card_block_addrs(1) [of ?p], of "set fs"] bb i(3) distinct_card [OF i(2)]
    by (auto simp: card_block_addrs)
  moreover have "block_total_count ?p * 4 \<le> block_addr ?p (block_total_count ?p)"
    by (simp add: block_addr_def stride_def add_mult_distrib2)
  ultimately have n: "(block_free_count ?p + 1) mod 2 ^ 32 = Suc (length fs)" using i(4,7) by simp
  have p: "pools w3 mp = ?p\<lparr>block_free_count := Suc (length fs), block_list := b\<rparr>"
    "cells w3 = (cells w)(b := block_list ?p)"
    using n by (simp_all add: w3_def)
  have addrs: "block_addrs (pools w3 mp) = block_addrs ?p" unfolding p by simp
  have inv3: "pool_inv mp (b # fs) w3"
    unfolding pool_inv_def Let_def p using i bb by (auto simp: free_chain_upd)
  have used3: "used_addrs mp w3 = used_addrs mp w - {b}"
    unfolding used_addrs_def pool_inv_free [OF inv] pool_inv_free [OF inv3] addrs by auto
  have same: "same_blocks mp w3 (rt_mp_free (b + 4) w)"
    using bb(3) by (auto simp: same_blocks_def rt_mp_free_def Let_def w3_def sub32_def split: list.splits intro: exI [of _ "suspend_thread_count ?p"])
  show "pool_inv mp (b # fs) (rt_mp_free (b + 4) w)" "used_addrs mp (rt_mp_free (b + 4) w) = used_addrs mp w - {b}"
    using inv3 used3 same_blocksD [OF same] by simp_all
  show "mp_block_size (pools (rt_mp_free (b + 4) w) mp) = mp_block_size (pools w mp)"
    "start_address (pools (rt_mp_free (b + 4) w) mp) = start_address (pools w mp)"
    "block_total_count (pools (rt_mp_free (b + 4) w) mp) = block_total_count (pools w mp)"
    using same_blocksD(4-6) [OF same] p by simp_all
qed

section \<open>Setting a pool up\<close>

lemma link_blocks_cells:
  assumes "0 < st"
  shows "start + n * st \<le> 2 ^ 32 \<Longrightarrow>
    cells (link_blocks start st n w) a = (if \<exists>i<n. a = start + i * st then (a + st) mod 2 ^ 32 else cells w a)"
proof (induction n)
  case (Suc n)
  have lt: "start + n * st < 2 ^ 32" "start + n * st \<le> 2 ^ 32" using Suc.prems assms by simp_all
  have m: "(start + n * st) mod 2 ^ 32 = start + n * st" by (rule mod_less [OF lt(1)])
  have e: "start + (n + 1) * st = start + n * st + st" by simp
  show ?case
    unfolding link_blocks.simps upd_simps m e using Suc.IH [OF lt(2)] by (auto simp: less_Suc_eq)
qed simp

lemma link_blocks_frame [simp]:
  "pools (link_blocks start st n w) = pools w" "mp_kernel (link_blocks start st n w) = mp_kernel w"
  "mp_heap (link_blocks start st n w) = mp_heap w"
  by (induction n) simp_all

lemma linked_chain:
  assumes st: "0 < st" "0 < start" and c: "\<And>i. Suc i < n \<Longrightarrow> c (start + i * st) = start + Suc i * st" "c (start + (n - 1) * st) = 0"
  shows "i < n \<Longrightarrow> free_chain c (start + i * st) (map (\<lambda>j. start + j * st) [i..<n])"
proof (induction "n - i" arbitrary: i)
  case (Suc m)
  show ?case
  proof (cases "Suc i = n")
    case True
    then have "n - 1 = i" by simp
    then show ?thesis using c(2) st True by (simp add: upt_rec [of i n])
  next
    case False
    then have "Suc i < n" using Suc.prems by simp
    moreover have "free_chain c (start + Suc i * st) (map (\<lambda>j. start + j * st) [Suc i..<n])"
      using Suc \<open>Suc i < n\<close> by (intro Suc.hyps(1)) auto
    ultimately show ?thesis using c(1) [of i] st by (simp add: upt_rec [of i n])
  qed
qed simp

text \<open>The state after the two loops, for a pool of at least one block.\<close>

lemma linked_ok:
  assumes p: "pools w mp = p" "block_list p = start_address p" "block_free_count p = block_total_count p"
    and n: "0 < block_total_count p" "0 < start_address p" "block_addr p (block_total_count p) \<le> 2 ^ 32"
    and c: "cells w = cells (end_list (start_address p) (stride p) (block_total_count p)
      (link_blocks (start_address p) (stride p) (block_total_count p) v))"
  shows "pool_inv mp (map (block_addr p) [0..<block_total_count p]) w" "used_addrs mp w = {}"
proof -
  let ?n = "block_total_count p" and ?s = "start_address p"
  have "(?n - 1) * stride p + stride p = ?n * stride p" using n(1) by (cases ?n) simp_all
  then have "block_addr p (?n - 1) + stride p = block_addr p ?n" by (simp add: block_addr_def)
  moreover have "4 \<le> stride p" by (simp add: stride_def)
  ultimately have lt: "?s + (?n - 1) * stride p < 2 ^ 32" using n(3) by (simp add: block_addr_def)
  have le: "?s + ?n * stride p \<le> 2 ^ 32" using n(3) by (simp add: block_addr_def)
  have "sub32 ?n 1 = ?n - 1" using n(1) by (simp add: sub32_def)
  then have cw: "cells w a = (if a = ?s + (?n - 1) * stride p then 0 else if \<exists>i<?n. a = ?s + i * stride p
      then (a + stride p) mod 2 ^ 32 else cells v a)" for a
    using lt by (simp add: c end_list_def link_blocks_cells [OF _ le])
  have "free_chain (cells w) (?s + 0 * stride p) (map (\<lambda>j. ?s + j * stride p) [0..<?n])"
  proof (rule linked_chain)
    fix i assume i: "Suc i < ?n"
    have "block_addr p (Suc i) < block_addr p ?n" using block_addr_mono [OF i, of p] stride_pos [of p] by linarith
    then have m: "(?s + i * stride p + stride p) mod 2 ^ 32 = ?s + i * stride p + stride p"
      using n(3) by (intro mod_less) (simp add: block_addr_def)
    have "i \<noteq> ?n - 1" "i < ?n" using i by auto
    then have "cells w (?s + i * stride p) = (?s + i * stride p + stride p) mod 2 ^ 32" unfolding cw by auto
    then show "cells w (?s + i * stride p) = ?s + Suc i * stride p" unfolding m by simp
  qed (use n in \<open>simp_all add: cw\<close>)
  then have "free_chain (cells w) (block_list p) (map (block_addr p) [0..<?n])"
    by (simp add: p(2) block_addr_def [abs_def])
  moreover have "distinct (map (block_addr p) [0..<?n])"
    using inj_on_subset [OF block_addr_inj [of p]] by (simp add: distinct_map)
  moreover have "set (map (block_addr p) [0..<?n]) = block_addrs p" by (auto simp: block_addrs_def)
  ultimately show inv: "pool_inv mp (map (block_addr p) [0..<?n]) w"
    using n p by (simp add: pool_inv_def Let_def)
  show "used_addrs mp w = {}"
    unfolding used_addrs_def pool_inv_free [OF inv] using p(1) by (auto simp: block_addrs_def)
qed

definition pool_total :: "nat \<Rightarrow> nat \<Rightarrow> nat" where
  "pool_total sz block_size = RT_ALIGN_DOWN sz 4 div (align32 block_size + 4)"

lemma mp_init_ok:
  assumes i: "rt_mp_init mp name start sz block_size w = (e, w')"
    and b: "block_size \<le> 2 ^ 32 - 8" "0 < pool_total sz block_size" "0 < start" "start + sz \<le> 2 ^ 32"
  shows "\<exists>fs. pool_inv mp fs w'" "used_addrs mp w' = {}" "mp_block_size (pools w' mp) = align32 block_size"
    "start_address (pools w' mp) = start" "block_total_count (pools w' mp) = pool_total sz block_size"
    "block_addr (pools w' mp) (block_total_count (pools w' mp)) \<le> start + sz"
    "lists (mp_kernel w') (Pending mp) = []" "suspend_thread_count (pools w' mp) = 0"
proof -
  have "4 dvd align32 block_size" "align32 block_size < block_size + 4" using align32_ok [of block_size] b(1) by auto
  then obtain j where "align32 block_size = 4 * j" "4 * j < block_size + 4" by (auto elim!: dvdE)
  then have "align32 block_size \<le> 2 ^ 32 - 8" using b(1) by simp
  then have m: "(align32 block_size + 4) mod 2 ^ 32 = align32 block_size + 4" by simp
  let ?p = "pools w' mp" and ?n = "pool_total sz block_size"
  let ?w1 = "upd_kernel (\<lambda>k. rt_ipc_object_init mp (upd_objects (rt_object_init (IpcObj mp) RT_Object_Class_MemPool name) k)) w"
  have w': "w' = upd_pool mp (\<lambda>_. \<lparr>start_address = start, mp_size = RT_ALIGN_DOWN sz 4, block_list = start,
      mp_block_size = align32 block_size, block_total_count = ?n, block_free_count = ?n, suspend_thread_count = 0\<rparr>)
      (end_list start (align32 block_size + 4) ?n (link_blocks start (align32 block_size + 4) ?n ?w1))"
    using i unfolding rt_mp_init_def m Let_def by (simp add: pool_total_def)
  have p: "?p = \<lparr>start_address = start, mp_size = RT_ALIGN_DOWN sz 4, block_list = start, mp_block_size = align32 block_size,
      block_total_count = ?n, block_free_count = ?n, suspend_thread_count = 0\<rparr>" by (simp add: w')
  have "?n * (align32 block_size + 4) \<le> RT_ALIGN_DOWN sz 4" unfolding pool_total_def by (rule div_times_less_eq_dividend)
  also have "\<dots> \<le> sz" by (simp add: RT_ALIGN_DOWN_def)
  finally have le: "block_addr ?p ?n \<le> start + sz" by (simp add: p block_addr_def stride_def)
  have "cells w' = cells (end_list start (align32 block_size + 4) ?n (link_blocks start (align32 block_size + 4) ?n ?w1))"
    by (simp add: w')
  then have l: "pool_inv mp (map (block_addr ?p) [0..<block_total_count ?p]) w'" "used_addrs mp w' = {}"
    by (intro linked_ok [of w' mp ?p ?w1]; use b le in \<open>simp add: p stride_def\<close>)+
  then show "\<exists>fs. pool_inv mp fs w'" "used_addrs mp w' = {}" by blast+
  show "mp_block_size ?p = align32 block_size" "start_address ?p = start" "block_total_count ?p = ?n"
    "block_addr ?p (block_total_count ?p) \<le> start + sz" "suspend_thread_count ?p = 0" using le by (simp_all add: p)
  show "lists (mp_kernel w') (Pending mp) = []" by (simp add: w' end_list_def rt_ipc_object_init_def)
qed

section \<open>The pool is an allocator\<close>

definition pool_ok :: "nat \<Rightarrow> nat \<Rightarrow> mp_world \<Rightarrow> bool" where
  "pool_ok mp bs w \<longleftrightarrow> pool_inv mp (free_blocks mp w) w \<and> mp_block_size (pools w mp) = bs"

lemma pool_okI: "pool_inv mp fs w \<Longrightarrow> pool_ok mp (mp_block_size (pools w mp)) w"
  using pool_inv_free [of mp fs w] by (simp add: pool_ok_def)

definition pool_arena :: "nat \<Rightarrow> mp_world \<Rightarrow> region" where
  "pool_arena mp w = (let p = pools w mp in (start_address p, block_total_count p * stride p))"

definition pool_live :: "nat \<Rightarrow> mp_world \<Rightarrow> region set" where
  "pool_live mp w = (\<lambda>b. (b + 4, mp_block_size (pools w mp))) ` used_addrs mp w"

text \<open>A request that does not wait.\<close>

definition mp_tryalloc :: "nat \<Rightarrow> nat \<Rightarrow> mp_world \<Rightarrow> (nat option \<times> mp_world) option" where
  "mp_tryalloc mp n w = (case rt_mp_alloc mp 0 w of (Return r, w') \<Rightarrow> Some (r, w') | (Blocked _, _) \<Rightarrow> None)"

lemma set_errno_frame [simp]: "pools (rt_set_errno e w) = pools w" "cells (rt_set_errno e w) = cells w"
  by (simp_all add: rt_set_errno_def split: option.splits)

lemma tryalloc_cases:
  assumes ok: "pool_ok mp bs w"
  shows "(block_free_count (pools w mp) = 0 \<and> mp_tryalloc mp n w = Some (None, rt_set_errno (- RT_ETIMEOUT) w)) \<or>
    (\<exists>f fs. free_blocks mp w = f # fs \<and> mp_tryalloc mp n w = Some (Some (f + 4), snd (mp_take mp w)))"
proof (cases "free_blocks mp w")
  case Nil
  then show ?thesis by (simp add: free_blocks_def mp_tryalloc_def alloc_result mp_alloc_loop_def)
next
  case (Cons f fs)
  moreover have "length (free_blocks mp w) = block_free_count (pools w mp)" by (simp add: free_blocks_def)
  ultimately have "block_free_count (pools w mp) \<noteq> 0" by (cases "block_free_count (pools w mp)") simp_all
  then show ?thesis
    using Cons mp_take_ok(1) [of mp f fs w] ok by (simp add: mp_tryalloc_def alloc_result pool_ok_def)
qed

lemma take_frame [simp]:
  "mp_block_size (pools (snd (mp_take mp w)) mp) = mp_block_size (pools w mp)"
  "start_address (pools (snd (mp_take mp w)) mp) = start_address (pools w mp)"
  "block_total_count (pools (snd (mp_take mp w)) mp) = block_total_count (pools w mp)"
  by (simp_all add: mp_take_def Let_def)

lemma take_live:
  assumes ok: "pool_ok mp bs w" and f: "free_blocks mp w = f # fs"
  shows "pool_ok mp bs (snd (mp_take mp w)) \<and> pool_arena mp (snd (mp_take mp w)) = pool_arena mp w \<and>
    f + 4 \<notin> fst ` pool_live mp w \<and> pool_live mp (snd (mp_take mp w)) = insert (f + 4, bs) (pool_live mp w)"
proof -
  have inv: "pool_inv mp (f # fs) w" and bs: "mp_block_size (pools w mp) = bs" using ok f by (auto simp: pool_ok_def)
  note t = mp_take_ok [OF inv]
  show ?thesis
    using pool_okI [OF t(2)] t(3,5) bs by (auto simp: pool_live_def pool_arena_def Let_def stride_def)
qed

lemma free_pool_live:
  assumes ok: "pool_ok mp bs w" and p: "(a, m) \<in> pool_live mp w"
  shows "pool_ok mp bs (rt_mp_free a w) \<and> pool_arena mp (rt_mp_free a w) = pool_arena mp w \<and>
    pool_live mp (rt_mp_free a w) = pool_live mp w - {(a, m)}"
proof -
  obtain b where b: "b \<in> used_addrs mp w" "a = b + 4" "m = mp_block_size (pools w mp)" using p by (auto simp: pool_live_def)
  have inv: "pool_inv mp (free_blocks mp w) w" and bs: "mp_block_size (pools w mp) = bs" using ok by (auto simp: pool_ok_def)
  note f = mp_free_ok [OF inv b(1)]
  have "pool_ok mp bs (rt_mp_free (b + 4) w)" using pool_okI [OF f(1)] f(3) bs by simp
  moreover have "pool_arena mp (rt_mp_free (b + 4) w) = pool_arena mp w"
    using f(3-5) by (simp add: pool_arena_def Let_def stride_def)
  moreover have "pool_live mp (rt_mp_free (b + 4) w) = pool_live mp w - {(b + 4, bs)}"
    unfolding pool_live_def f(2,3) bs by (subst image_set_diff) (simp_all add: inj_def)
  ultimately show ?thesis unfolding b(2,3) bs by simp
qed

interpretation pool: allocator "pool_ok mp bs" "pool_arena mp" "pool_live mp" bs "mp_tryalloc mp" rt_mp_free for mp bs
proof unfold_locales
  fix w a b assume ok: "pool_ok mp bs w" "a \<in> pool_live mp w" "b \<in> pool_live mp w" "a \<noteq> b"
  then obtain x y where "a = (x + 4, bs)" "b = (y + 4, bs)" "x \<in> block_addrs (pools w mp)" "y \<in> block_addrs (pools w mp)" "x \<noteq> y"
    by (auto simp: pool_live_def used_addrs_def pool_ok_def)
  then show "fst a \<noteq> fst b \<and> apart a b"
    using blocks_apart [of x "pools w mp" y] ok(1) by (auto simp: apart_def stride_def pool_ok_def)
next
  fix w a assume ok: "pool_ok mp bs w" "a \<in> pool_live mp w"
  then obtain x where "a = (x + 4, bs)" "x \<in> block_addrs (pools w mp)"
    by (auto simp: pool_live_def used_addrs_def pool_ok_def)
  then show "fst (pool_arena mp w) \<le> fst a \<and> fst a + snd a \<le> fst (pool_arena mp w) + snd (pool_arena mp w)"
    using block_bounds [of x "pools w mp"] ok(1) by (auto simp: pool_arena_def Let_def block_addr_def stride_def pool_ok_def)
next
  fix w n assume "pool_ok mp bs w"
  then show "\<exists>r t. mp_tryalloc mp n w = Some (r, t)" using tryalloc_cases [of mp bs w n] by auto
next
  fix w n t assume ok: "pool_ok mp bs w" "mp_tryalloc mp n w = Some (None, t)"
  then have "t = rt_set_errno (- RT_ETIMEOUT) w" using tryalloc_cases [of mp bs w n] by auto
  then have "same_blocks mp w t" by (auto simp: same_blocks_def intro: exI [of _ "suspend_thread_count (pools w mp)"])
  then show "pool_ok mp bs t \<and> pool_live mp t = pool_live mp w \<and> pool_arena mp t = pool_arena mp w"
    using ok(1) same_blocksD [of mp w t] by (simp add: pool_ok_def pool_live_def pool_arena_def Let_def stride_def)
next
  fix w n p t assume ok: "pool_ok mp bs w" "n \<le> bs" "mp_tryalloc mp n w = Some (Some p, t)"
  then obtain f fs where f: "free_blocks mp w = f # fs" "p = f + 4" "t = snd (mp_take mp w)"
    using tryalloc_cases [of mp bs w n] by auto
  show "pool_ok mp bs t \<and> pool_arena mp t = pool_arena mp w \<and> p \<notin> fst ` pool_live mp w \<and>
      (\<exists>m\<ge>n. pool_live mp t = insert (p, m) (pool_live mp w))"
    using take_live [OF ok(1) f(1)] ok(2) unfolding f(2,3) by blast
next
  fix w a m assume "pool_ok mp bs w" "(a, m) \<in> pool_live mp w"
  then show "pool_ok mp bs (rt_mp_free a w) \<and> pool_arena mp (rt_mp_free a w) = pool_arena mp w \<and>
      pool_live mp (rt_mp_free a w) = pool_live mp w - {(a, m)}"
    by (rule free_pool_live)
qed

end
