(* ===== verification/PoolClient.thy ===== *)
theory PoolClient
  imports Mempool
begin

text \<open>
  What the clients of a memory pool may rely on: the blocks of any run of requests are apart,
  inside the pool and off its link words; threads that wait for a block are served newest first;
  a pool taken from the heap goes back to it whole. The cases in which the code does not do what
  it means to are stated with them.
\<close>

section \<open>Blocks\<close>

lemma pool_run_count:
  assumes ok: "pool_ok mp bs w" and h: "pool.holds mp out w"
  shows "card (dom out) + block_free_count (pools w mp) = block_total_count (pools w mp)"
proof -
  let ?p = "pools w mp"
  have inv: "pool_inv mp (free_blocks mp w) w" using ok by (simp add: pool_ok_def)
  then have i: "distinct (free_blocks mp w)" "set (free_blocks mp w) \<subseteq> block_addrs ?p"
    "length (free_blocks mp w) = block_free_count ?p" by (simp_all add: pool_inv_def Let_def)
  have "dom out = (\<lambda>b. b + 4) ` used_addrs mp w"
    using h unfolding pool.holds_def by (auto simp: pool_live_def image_image)
  then have "card (dom out) = card (used_addrs mp w)" by (simp add: card_image)
  also have "\<dots> = card (block_addrs ?p) - card (set (free_blocks mp w))"
    unfolding used_addrs_def using i(2) by (intro card_Diff_subset) auto
  finally show ?thesis
    using card_mono [OF card_block_addrs(1) i(2)] i distinct_card [OF i(1)] by (simp add: card_block_addrs)
qed

text \<open>
  C30: on a pool set up over the \<open>sz\<close> bytes from \<open>start\<close>, every run of requests and frees returns;
  the blocks the client then holds are inside the pool, do not overlap each other or a link word of
  the pool, and with the free blocks they make up the whole pool.
\<close>

theorem pool_clients_apart:
  assumes "rt_mp_init mp name start sz bs w0 = (e, w)" "bs \<le> 2 ^ 32 - 8" "0 < pool_total sz bs" "0 < start"
    and "start + sz \<le> 2 ^ 32" "\<forall>n. Alloc n \<in> set ops \<longrightarrow> n \<le> align32 bs"
  shows "\<exists>out w'. alloc_run (mp_tryalloc mp) rt_mp_free ops (\<lambda>_. None, w) = Some (out, w') \<and>
    (\<forall>p n. out p = Some n \<longrightarrow> start \<le> p \<and> p + n \<le> start + sz \<and>
       (\<forall>b\<in>block_addrs (pools w' mp). b + 4 \<le> p \<or> p + n \<le> b)) \<and>
    (\<forall>p q n m. out p = Some n \<longrightarrow> out q = Some m \<longrightarrow> p \<noteq> q \<longrightarrow> p + n \<le> q \<or> q + m \<le> p) \<and>
    card (dom out) + block_free_count (pools w' mp) = pool_total sz bs"
proof -
  let ?bs = "align32 bs"
  note i = mp_init_ok [OF assms(1-5)]
  have ok: "pool_ok mp ?bs w" using i(1,3) pool_okI by metis
  have live: "pool_live mp w = {}" by (simp add: pool_live_def i(2))
  have arena: "fst (pool_arena mp w) = start" "fst (pool_arena mp w) + snd (pool_arena mp w) \<le> start + sz"
    using i(4,6) by (simp_all add: pool_arena_def Let_def block_addr_def)
  have r: "pool.requests_ok ?bs ops" using assms(6) unfolding pool.requests_ok_def .
  have "pool.holds mp (\<lambda>_. None) w" using live unfolding pool.holds_def by simp
  from pool.run_returns [OF ok this r] obtain out w' where
    run: "alloc_run (mp_tryalloc mp) rt_mp_free ops (\<lambda>_. None, w) = Some (out, w')" by auto
  note e = pool.run_live [OF ok live r run]
  have bs': "mp_block_size (pools w' mp) = ?bs" using e(1) by (simp add: pool_ok_def)
  have "block_total_count (pools w' mp) * stride (pools w' mp) = block_total_count (pools w mp) * stride (pools w mp)"
    using e(3) by (simp add: pool_arena_def Let_def)
  then have "block_total_count (pools w' mp) = pool_total sz bs" using bs' i(3,5) by (simp add: stride_def)
  then have total: "card (dom out) + block_free_count (pools w' mp) = pool_total sz bs"
    using pool_run_count [OF e(1,2)] by simp
  have links: "b + 4 \<le> p \<or> p + n \<le> b" if p: "out p = Some n" and b: "b \<in> block_addrs (pools w' mp)" for p n b
  proof -
    obtain m where "n \<le> m" "(p, m) \<in> pool_live mp w'" using pool.holdsD [OF e(2) p] by blast
    then obtain x where "x \<in> block_addrs (pools w' mp)" "p = x + 4" "n \<le> ?bs"
      by (auto simp: pool_live_def used_addrs_def bs')
    then show ?thesis using blocks_apart [OF _ b, of x] bs' by (cases "x = b") (auto simp: stride_def)
  qed
  have "start \<le> p \<and> p + n \<le> start + sz" if "out p = Some n" for p n
    using pool.run_inside [OF ok live r run that] arena by simp
  moreover have "p + n \<le> q \<or> q + m \<le> p" if "out p = Some n" "out q = Some m" "p \<noteq> q" for p q n m
    using pool.run_apart [OF ok live r run that] by (simp add: apart_def)
  ultimately show ?thesis
    using run links total by (intro exI [of _ out] exI [of _ w']) auto
qed

text \<open>A pool of two blocks of eight bytes at address 1000; the control block is at 500.\<close>

definition demo_world :: mp_world where
  "demo_world = \<lparr>pools = (\<lambda>_. \<lparr>start_address = 0, mp_size = 0, block_list = 0, mp_block_size = 0, block_total_count = 0,
     block_free_count = 0, suspend_thread_count = 0\<rparr>), cells = (\<lambda>_. 0), mp_heap = demo_heap, mp_kernel = two_ready, rt_errno = 0\<rparr>"

definition demo_pool :: mp_world where
  "demo_pool = snd (rt_mp_init 500 ''pool'' 1000 24 8 demo_world)"

lemma demo_pool_total: "pool_total 24 8 = 2"
  by (simp add: pool_total_def RT_ALIGN_DOWN_def align32_def RT_ALIGN_def)

theorem pool_clients_apart_witness:
  "\<exists>out w'. alloc_run (mp_tryalloc 500) rt_mp_free [Alloc 8, Alloc 8, Alloc 8, Free 1004] (\<lambda>_. None, demo_pool) = Some (out, w') \<and>
    (\<forall>p n. out p = Some n \<longrightarrow> 1000 \<le> p \<and> p + n \<le> 1000 + 24 \<and>
       (\<forall>b\<in>block_addrs (pools w' 500). b + 4 \<le> p \<or> p + n \<le> b)) \<and>
    (\<forall>p q n m. out p = Some n \<longrightarrow> out q = Some m \<longrightarrow> p \<noteq> q \<longrightarrow> p + n \<le> q \<or> q + m \<le> p) \<and>
    card (dom out) + block_free_count (pools w' 500) = 2"
proof -
  have "rt_mp_init 500 ''pool'' 1000 24 8 demo_world = (RT_EOK, demo_pool)"
    by (simp add: demo_pool_def rt_mp_init_def Let_def)
  from pool_clients_apart [OF this, of "[Alloc 8, Alloc 8, Alloc 8, Free 1004]"]
  show ?thesis unfolding demo_pool_total by (simp add: align32_def RT_ALIGN_def)
qed

section \<open>Waiting for a block\<close>

abbreviation mp_waiters :: "nat \<Rightarrow> mp_world \<Rightarrow> tid list" where
  "mp_waiters mp w \<equiv> lists (mp_kernel w) (Pending mp)"

definition counted :: "nat \<Rightarrow> mp_world \<Rightarrow> bool" where
  "counted mp w \<longleftrightarrow> suspend_thread_count (pools w mp) = length (mp_waiters mp w)"

lemma pool_wait:
  assumes k: "kinv (mp_kernel w)" "running (mp_kernel w) t" and n: "block_free_count (pools w mp) = 0" "time \<noteq> 0"
    and c: "suspend_thread_count (pools w mp) < 2 ^ 32 - 1"
  obtains l w' where "rt_mp_alloc mp time w = (Blocked l, w')" "w_thread l = t" "kinv (mp_kernel w')"
    "mp_waiters mp w' = t # mp_waiters mp w" "stat_of (mp_kernel w') t = RT_THREAD_SUSPEND"
    "suspend_thread_count (pools w' mp) = suspend_thread_count (pools w mp) + 1" "cells w' = cells w"
    "ThreadTimer t \<in> set (rt_timer_list (mp_kernel w')) \<longleftrightarrow> 0 < time"
    "\<And>r. rt_scheduler_lock_nest (mp_kernel w) = 0 \<Longrightarrow> filter (\<lambda>x. x \<noteq> t) (lists (mp_kernel w) (Ready r)) \<noteq> [] \<Longrightarrow>
       fault (mp_kernel w') = fault (mp_kernel w)"
proof -
  let ?k = "set_error t RT_EOK (mp_kernel w)"
  let ?s = "snd (rt_thread_suspend t ?k)"
  let ?p = "list_push (Pending mp) t ?s"
  have ki: "kinv ?k" "stat_of ?k t = RT_THREAD_READY"
    using k by (simp_all add: set_error_def kinv_neutral stat_neutral running_def)
  note s = suspend_result [OF ki]
  have sl: "lists ?s (Pending mp) = mp_waiters mp w"
    using s(2) not_in_wait_queue [OF ki, of "Pending mp"] by (simp add: filter_neq_id set_error_def)
  have pk: "kinv ?p" "stat_of ?p t = RT_THREAD_SUSPEND" "lists ?p (Pending mp) = t # mp_waiters mp w"
    "ThreadTimer t \<notin> set (rt_timer_list ?p)"
    using parked_kinv [OF ki, of "Pending mp" "[]" "lists ?s (Pending mp)" ?p] s(1,3) sl
    by (simp_all add: list_push_def stat_of_def)
  have "threads (snd (rt_timer_control tm RT_TIMER_CTRL_SET_TIME a k)) = threads k" for tm a k
    by (simp add: upd_timer_def)
  then have tk: "kinv (snd (rt_timer_start (ThreadTimer t) (snd (rt_timer_control (ThreadTimer t) RT_TIMER_CTRL_SET_TIME a ?p))))" for a
    using pk(2) kinv_timer_start [OF kinv_timer_control [OF pk(1)], of "ThreadTimer t"]
    by (simp add: stat_of_def del: rt_timer_control.simps)
  have susp: "kinv (mp_kernel (mp_suspend mp t time w))"
    "lists (mp_kernel (mp_suspend mp t time w)) (Pending mp) = t # mp_waiters mp w"
    "stat_of (mp_kernel (mp_suspend mp t time w)) t = RT_THREAD_SUSPEND"
    "suspend_thread_count (pools (mp_suspend mp t time w) mp) = suspend_thread_count (pools w mp) + 1"
    "cells (mp_suspend mp t time w) = cells w"
    "ThreadTimer t \<in> set (rt_timer_list (mp_kernel (mp_suspend mp t time w))) \<longleftrightarrow> 0 < time"
    using pk tk c by (auto simp: mp_suspend_def Let_def kframe upd_timer_def stat_of_def timer_start_list)
  let ?m = "mp_kernel (mp_suspend mp t time w)"
  have up: "fault (upd_thread u f k) = fault k" for u f k by (simp add: upd_thread_def)
  have fr: "rt_scheduler_lock_nest ?m = rt_scheduler_lock_nest (mp_kernel w)" "fault ?m = fault (mp_kernel w)"
    "lists ?m (Ready r) = filter (\<lambda>x. x \<noteq> t) (lists (mp_kernel w) (Ready r))" for r
    using s(2) ki(2) by (simp_all add: mp_suspend_def Let_def kframe upd_timer_def list_push_def set_error_def rt_thread_suspend_def up)
  have "fault (rt_schedule ?m) = fault (mp_kernel w)"
    if "rt_scheduler_lock_nest (mp_kernel w) = 0" "filter (\<lambda>x. x \<noteq> t) (lists (mp_kernel w) (Ready r)) \<noteq> []" for r
    using schedule_runs_top [of ?m r] susp(1) that fr by (simp add: kinv_x_def)
  then have nofault: "\<And>r. rt_scheduler_lock_nest (mp_kernel w) = 0 \<Longrightarrow> filter (\<lambda>x. x \<noteq> t) (lists (mp_kernel w) (Ready r)) \<noteq> [] \<Longrightarrow>
      fault (rt_schedule ?m) = fault (mp_kernel w)" by blast
  show ?thesis
  proof (rule that [of "wait_locals t time 0 (mp_kernel w)" "upd_kernel rt_schedule (mp_suspend mp t time w)"])
    show "rt_mp_alloc mp time w = (Blocked (wait_locals t time 0 (mp_kernel w)), upd_kernel rt_schedule (mp_suspend mp t time w))"
      using n k(2) by (simp add: alloc_result mp_alloc_loop_def running_def rt_thread_self_def)
  qed (use susp nofault in \<open>simp_all add: wait_locals_def kframe stat_of_def\<close>)
qed

text \<open>A free while threads wait wakes the one in front.\<close>

lemma pool_free_wakes:
  assumes k: "kinv (mp_kernel w)" "mp_waiters mp w = t # ts" and c: "0 < suspend_thread_count (pools w mp)"
    and b: "cells w (sub32 a 4) = mp"
  shows "kinv (mp_kernel (rt_mp_free a w))" "mp_waiters mp (rt_mp_free a w) = ts"
    "stat_of (mp_kernel (rt_mp_free a w)) t = RT_THREAD_READY" "t_error (threads (mp_kernel (rt_mp_free a w)) t) = RT_EOK"
    "suspend_thread_count (pools (rt_mp_free a w) mp) = suspend_thread_count (pools w mp) - 1"
    "\<And>u. u \<noteq> t \<Longrightarrow> stat_of (mp_kernel (rt_mp_free a w)) u = stat_of (mp_kernel w) u"
proof -
  let ?k = "set_error t RT_EOK (mp_kernel w)"
  have ki: "kinv ?k" "lists ?k (Pending mp) = t # ts" using k by (simp_all add: set_error_def kinv_neutral)
  have r: "rt_ipc_list_resume (Pending mp) ?k = snd (rt_thread_resume t ?k)" by (simp add: rt_ipc_list_resume_def ki(2))
  note i = ipc_resume_result [OF ki(1) _ ki(2), unfolded r]
  have e: "mp_kernel (rt_mp_free a w) = rt_schedule (snd (rt_thread_resume t ?k))"
    "suspend_thread_count (pools (rt_mp_free a w) mp) = suspend_thread_count (pools w mp) - 1"
    using k(2) c b by (auto simp: rt_mp_free_def Let_def sub32_def)
  show "kinv (mp_kernel (rt_mp_free a w))" "mp_waiters mp (rt_mp_free a w) = ts"
    "stat_of (mp_kernel (rt_mp_free a w)) t = RT_THREAD_READY" "t_error (threads (mp_kernel (rt_mp_free a w)) t) = RT_EOK"
    using i by (simp_all add: e kframe stat_of_def) (simp add: set_error_def upd_thread_def)
  show "suspend_thread_count (pools (rt_mp_free a w) mp) = suspend_thread_count (pools w mp) - 1" by (rule e(2))
  show "stat_of (mp_kernel (rt_mp_free a w)) u = stat_of (mp_kernel w) u" if "u \<noteq> t" for u
    using i(5) [OF _ that] that by (simp add: e kframe stat_of_def set_error_def upd_thread_def)
qed

text \<open>
  Waiters are served newest first: a thread that has just begun to wait for a block is the one
  that the next free wakes, and the threads that waited before it go on waiting.
\<close>

theorem pool_newest_first:
  assumes "kinv (mp_kernel w)" "running (mp_kernel w) t" "block_free_count (pools w mp) = 0" "time \<noteq> 0"
    and "suspend_thread_count (pools w mp) < 2 ^ 32 - 1" "rt_mp_alloc mp time w = (Blocked l, w1)" "cells w (sub32 a 4) = mp"
  shows "stat_of (mp_kernel (rt_mp_free a w1)) t = RT_THREAD_READY \<and>
    t_error (threads (mp_kernel (rt_mp_free a w1)) t) = RT_EOK \<and>
    mp_waiters mp (rt_mp_free a w1) = mp_waiters mp w \<and>
    (\<forall>u\<in>set (mp_waiters mp w). stat_of (mp_kernel (rt_mp_free a w1)) u = RT_THREAD_SUSPEND)"
proof -
  obtain w' where w: "w1 = w'" "kinv (mp_kernel w')" "mp_waiters mp w' = t # mp_waiters mp w"
    "suspend_thread_count (pools w' mp) = suspend_thread_count (pools w mp) + 1" "cells w' = cells w"
    by (rule pool_wait [OF assms(1-5)]) (use assms(6) in auto)
  have b: "cells w' (sub32 a 4) = mp" using w(5) assms(7) by simp
  have c: "0 < suspend_thread_count (pools w' mp)" using w(4) by simp
  note f = pool_free_wakes [OF w(2,3) c b]
  show ?thesis
    unfolding w(1) using f queue_stat [OF f(1), of "Pending mp"] by auto
qed

theorem pool_newest_first_witness:
  "\<exists>l w1. rt_mp_alloc 500 10 (demo_world\<lparr>cells := (\<lambda>_. 500)\<rparr>) = (Blocked l, w1) \<and>
     stat_of (mp_kernel (rt_mp_free 1004 w1)) 1 = RT_THREAD_READY"
proof -
  let ?w = "demo_world\<lparr>cells := (\<lambda>_. 500)\<rparr>"
  have w: "kinv (mp_kernel ?w)" "running (mp_kernel ?w) 1" "block_free_count (pools ?w 500) = 0"
    "suspend_thread_count (pools ?w 500) < 2 ^ 32 - 1" "mp_waiters 500 ?w = []" "cells ?w (sub32 1004 4) = 500"
    using two_ready_kinv by (simp_all add: demo_world_def running_def two_ready_simps)
  obtain l w1 where a: "rt_mp_alloc 500 10 ?w = (Blocked l, w1)"
    by (rule pool_wait [OF w(1,2,3) _ w(4), of 10]) simp_all
  then show ?thesis using pool_newest_first [OF w(1,2,3) _ w(4) a w(6)] by simp
qed

text \<open>
  A wait that times out is never taken off the count: the count then exceeds the number of
  threads that wait, and when none waits the next free takes the empty list for a thread.
\<close>

theorem pool_timeout_miscounts:
  assumes "kinv (mp_kernel w)" "running (mp_kernel w) t" "block_free_count (pools w mp) = 0" "time \<noteq> 0"
    and "suspend_thread_count (pools w mp) < 2 ^ 32 - 1" "counted mp w" "rt_mp_alloc mp time w = (Blocked l, w1)"
  defines "w2 \<equiv> upd_kernel (rt_thread_timeout t) w1"
  shows "rt_mp_alloc_resume mp l w2 = (Return None, w2) \<and>
    suspend_thread_count (pools w2 mp) = length (mp_waiters mp w2) + 1 \<and>
    (mp_waiters mp w = [] \<longrightarrow> cells w (sub32 a 4) = mp \<longrightarrow> fault (mp_kernel (rt_mp_free a w2)))"
proof -
  obtain w' where w: "w1 = w'" "w_thread l = t" "kinv (mp_kernel w')" "mp_waiters mp w' = t # mp_waiters mp w"
    "suspend_thread_count (pools w' mp) = suspend_thread_count (pools w mp) + 1" "cells w' = cells w"
    by (rule pool_wait [OF assms(1-5)]) (use assms(7) in auto)
  have "t \<notin> set (mp_waiters mp w)" using queue_distinct [OF w(3), of "Pending mp"] w(4) by simp
  then have l2: "mp_waiters mp w2 = mp_waiters mp w"
    using timeout_unlinks [OF w(3), of t mp] w(1,4) by (simp add: w2_def filter_neq_id)
  have c2: "suspend_thread_count (pools w2 mp) = length (mp_waiters mp w) + 1"
    using w(1,5) assms(6) by (simp add: w2_def counted_def)
  have "t_error (threads (mp_kernel w2) t) = - RT_ETIMEOUT"
    by (simp add: w2_def rt_thread_timeout_def kframe insert_thread_threads list_remove_def) (simp add: upd_thread_def)
  then have "rt_mp_alloc_resume mp l w2 = (Return None, w2)" using w(2) by (simp add: rt_mp_alloc_resume_def)
  moreover have "fault (mp_kernel (rt_mp_free a w2))" if "mp_waiters mp w = []" "cells w (sub32 a 4) = mp"
    using that c2 l2 w(1,6) by (simp add: rt_mp_free_def Let_def) (simp add: w2_def)
  ultimately show ?thesis using c2 l2 by simp
qed

theorem pool_timeout_miscounts_witness:
  "\<exists>l w1. rt_mp_alloc 500 10 (demo_world\<lparr>cells := (\<lambda>_. 500)\<rparr>) = (Blocked l, w1) \<and> \<not> fault (mp_kernel w1) \<and>
     fault (mp_kernel (rt_mp_free 1004 (upd_kernel (rt_thread_timeout 1) w1)))"
proof -
  let ?w = "demo_world\<lparr>cells := (\<lambda>_. 500)\<rparr>"
  have w: "kinv (mp_kernel ?w)" "running (mp_kernel ?w) 1" "block_free_count (pools ?w 500) = 0"
    "suspend_thread_count (pools ?w 500) < 2 ^ 32 - 1" "mp_waiters 500 ?w = []" "cells ?w (sub32 1004 4) = 500"
    using two_ready_kinv by (simp_all add: demo_world_def running_def two_ready_simps)
  have "filter (\<lambda>x. x \<noteq> 1) (lists (mp_kernel ?w) (Ready 9)) \<noteq> []" "rt_scheduler_lock_nest (mp_kernel ?w) = 0"
    "\<not> fault (mp_kernel ?w)" by (simp_all add: demo_world_def two_ready_simps)
  then obtain l w1 where a: "rt_mp_alloc 500 10 ?w = (Blocked l, w1)" "\<not> fault (mp_kernel w1)"
    by (rule_tac pool_wait [OF w(1,2,3) _ w(4), of 10]) auto
  have "counted 500 ?w" using w(5) by (simp add: counted_def demo_world_def)
  then have "fault (mp_kernel (rt_mp_free 1004 (upd_kernel (rt_thread_timeout 1) w1)))"
    using pool_timeout_miscounts [OF w(1,2,3) _ w(4) _ a(1)] w(5,6) by simp
  then show ?thesis using a by blast
qed

lemma wake_all_refines:
  assumes inv: "kinv (mp_kernel w)"
  shows "\<exists>w'. mp_wake_all mp w = Some w' \<and> rt_ipc_list_resume_all (Pending mp) (mp_kernel w) = Some (mp_kernel w') \<and>
    mp_heap w' = mp_heap w \<and> (\<forall>q. start_address (pools w' q) = start_address (pools w q)) \<and>
    (counted mp w \<longrightarrow> counted mp w')"
  using inv
proof (induction "mp_waiters mp w" arbitrary: w)
  case Nil
  then show ?case by (intro exI [of _ w]) (simp add: mp_wake_all.simps [of mp w] rt_ipc_list_resume_all.simps)
next
  case (Cons t ts)
  note l = Cons(2) [symmetric]
  let ?k1 = "set_error t (- RT_ERROR) (mp_kernel w)"
  let ?k2 = "snd (rt_thread_resume t ?k1)"
  let ?w2 = "upd_pool mp (\<lambda>p. p\<lparr>suspend_thread_count := sub32 (suspend_thread_count p) 1\<rparr>) (upd_kernel (\<lambda>k. snd (rt_thread_resume t (set_error t (- RT_ERROR) k))) w)"
  have k1: "kinv ?k1" "lists ?k1 (Pending mp) = t # ts"
    using Cons.prems l by (simp_all add: set_error_def kinv_neutral)
  have r: "rt_ipc_list_resume (Pending mp) ?k1 = ?k2" by (simp add: rt_ipc_list_resume_def k1(2))
  note i = ipc_resume_result [OF k1(1) _ k1(2), unfolded r]
  have "counted mp w \<longrightarrow> counted mp ?w2" using i(2) l by (auto simp: counted_def sub32_def)
  moreover obtain w' where w': "mp_wake_all mp ?w2 = Some w'"
    "rt_ipc_list_resume_all (Pending mp) (mp_kernel ?w2) = Some (mp_kernel w')" "mp_heap w' = mp_heap ?w2"
    "\<forall>q. start_address (pools w' q) = start_address (pools ?w2 q)" "counted mp ?w2 \<longrightarrow> counted mp w'"
    using Cons.hyps(1) [of ?w2] i(1,2) by auto
  moreover have "mp_wake_all mp w = mp_wake_all mp ?w2" using l by (simp add: mp_wake_all.simps [of mp w])
  moreover have "rt_ipc_list_resume_all (Pending mp) (mp_kernel w) = rt_ipc_list_resume_all (Pending mp) ?k2"
    using l by (simp add: rt_ipc_list_resume_all.simps [of _ "mp_kernel w"] set_error_def)
  ultimately show ?case by (intro exI [of _ w']) auto
qed

text \<open>
  Detaching a pool returns: nobody waits any more, every thread that waited is ready with an
  error, no other thread is disturbed, and a correct count of waiters stays correct.
\<close>

theorem pool_detach_wakes_all:
  assumes "kinv (mp_kernel w)"
  shows "\<exists>w'. rt_mp_detach mp w = Some (RT_EOK, w') \<and> mp_waiters mp w' = [] \<and>
    (\<forall>t\<in>set (mp_waiters mp w). stat_of (mp_kernel w') t = RT_THREAD_READY \<and>
       t_error (threads (mp_kernel w') t) = - RT_ERROR) \<and>
    (\<forall>t. t \<notin> set (mp_waiters mp w) \<longrightarrow> stat_of (mp_kernel w') t = stat_of (mp_kernel w) t) \<and>
    (counted mp w \<longrightarrow> suspend_thread_count (pools w' mp) = 0)"
proof -
  obtain w1 where w1: "mp_wake_all mp w = Some w1"
    "rt_ipc_list_resume_all (Pending mp) (mp_kernel w) = Some (mp_kernel w1)" "counted mp w \<longrightarrow> counted mp w1"
    using wake_all_refines [OF assms] by blast
  let ?w' = "upd_kernel (upd_objects (rt_object_detach (IpcObj mp))) w1"
  have r: "mp_waiters mp w1 = []"
    "\<forall>t\<in>set (mp_waiters mp w). stat_of (mp_kernel w1) t = RT_THREAD_READY \<and> t_error (threads (mp_kernel w1) t) = - RT_ERROR"
    "\<forall>t. t \<notin> set (mp_waiters mp w) \<longrightarrow> stat_of (mp_kernel w1) t = stat_of (mp_kernel w) t"
    using resume_all_result [OF assms, of "Pending mp"] w1(2) by auto
  have f: "lists (mp_kernel ?w') = lists (mp_kernel w1)" "threads (mp_kernel ?w') = threads (mp_kernel w1)"
    "pools ?w' = pools w1" by (simp_all add: upd_objects_def)
  then have "stat_of (mp_kernel ?w') = stat_of (mp_kernel w1)" by (simp add: stat_of_def fun_eq_iff)
  then show ?thesis
    using r w1(3) f by (intro exI [of _ ?w']) (simp add: rt_mp_detach_def w1(1) counted_def)
qed

theorem pool_detach_wakes_all_witness:
  "\<exists>w'. rt_mp_detach 0 (demo_world\<lparr>mp_kernel := two_waiting\<rparr>) = Some (RT_EOK, w') \<and> mp_waiters 0 w' = [] \<and>
     stat_of (mp_kernel w') 2 = RT_THREAD_READY"
  using pool_detach_wakes_all [of "demo_world\<lparr>mp_kernel := two_waiting\<rparr>" 0] two_waiting_kinv
  by (auto simp: two_waiting_def)

section \<open>Pools from the heap\<close>

lemma create_cases:
  assumes "rt_mp_create (Some mp) name count bs w = Some (Some r, w')"
  defines "st \<equiv> (align32 bs + 4) mod 2 ^ 32"
  shows "r = mp" "\<exists>a h. rt_malloc (st * count mod 2 ^ 32) (mp_heap w) = Some (Some a, h) \<and> mp_heap w' = h \<and>
    pools w' mp = \<lparr>start_address = a, mp_size = st * count mod 2 ^ 32, block_list = a, mp_block_size = align32 bs,
      block_total_count = count, block_free_count = count, suspend_thread_count = 0\<rparr> \<and>
    lists (mp_kernel w') = (lists (mp_kernel w))(Pending mp := []) \<and> threads (mp_kernel w') = threads (mp_kernel w) \<and>
    rt_timer_list (mp_kernel w') = rt_timer_list (mp_kernel w) \<and> timers (mp_kernel w') = timers (mp_kernel w) \<and>
    rt_thread_ready_priority_group (mp_kernel w') = rt_thread_ready_priority_group (mp_kernel w) \<and>
    (\<exists>v. cells w' = cells (end_list a st count (link_blocks a st count v)))"
proof -
  have "rt_object_get_information (class_code RT_Object_Class_MemPool) \<noteq> None"
    by (simp add: rt_object_get_information_def)
  then obtain st0 where o: "rt_object_allocate (Some (IpcObj mp)) RT_Object_Class_MemPool name (objects (mp_kernel w)) = (Some (IpcObj mp), st0)"
    by (auto simp: rt_object_allocate_def)
  obtain q h where m: "rt_malloc (st * count mod 2 ^ 32) (mp_heap w) = Some (q, h)"
    using assms(1) unfolding rt_mp_create_def st_def by (auto simp: o Let_def)
  show "r = mp" "\<exists>a h. rt_malloc (st * count mod 2 ^ 32) (mp_heap w) = Some (Some a, h) \<and> mp_heap w' = h \<and>
    pools w' mp = \<lparr>start_address = a, mp_size = st * count mod 2 ^ 32, block_list = a, mp_block_size = align32 bs,
      block_total_count = count, block_free_count = count, suspend_thread_count = 0\<rparr> \<and>
    lists (mp_kernel w') = (lists (mp_kernel w))(Pending mp := []) \<and> threads (mp_kernel w') = threads (mp_kernel w) \<and>
    rt_timer_list (mp_kernel w') = rt_timer_list (mp_kernel w) \<and> timers (mp_kernel w') = timers (mp_kernel w) \<and>
    rt_thread_ready_priority_group (mp_kernel w') = rt_thread_ready_priority_group (mp_kernel w) \<and>
    (\<exists>v. cells w' = cells (end_list a st count (link_blocks a st count v)))"
    using assms(1) m unfolding rt_mp_create_def st_def
    by (auto simp: o Let_def end_list_def rt_ipc_object_init_def split: option.splits)
qed

lemma created_pool:
  assumes heap: "heap_inv B (mp_heap w)" and n: "(align32 bs + 4) * count < 2 ^ 32"
    and c: "rt_mp_create (Some mp) name count bs w = Some (Some r, w1)"
  shows "\<exists>a l. rt_malloc ((align32 bs + 4) * count) (mp_heap w) = Some (Some a, mp_heap w1) \<and>
    (align32 bs + 4) * count \<le> 2 ^ 32 - 4 \<and> start_address (pools w1 mp) = a \<and> (a, l) \<in> live (mp_heap w1) \<and>
    (align32 bs + 4) * count \<le> l \<and> mp_waiters mp w1 = [] \<and> block_total_count (pools w1 mp) = count \<and>
    block_free_count (pools w1 mp) = count \<and> mp_block_size (pools w1 mp) = align32 bs \<and>
    pool_inv mp (map (block_addr (pools w1 mp)) [0..<count]) w1 \<and> used_addrs mp w1 = {}"
proof -
  let ?st = "(align32 bs + 4) mod 2 ^ 32"
  obtain a h v where c': "rt_malloc (?st * count mod 2 ^ 32) (mp_heap w) = Some (Some a, h)" "mp_heap w1 = h"
    "pools w1 mp = \<lparr>start_address = a, mp_size = ?st * count mod 2 ^ 32, block_list = a, mp_block_size = align32 bs,
      block_total_count = count, block_free_count = count, suspend_thread_count = 0\<rparr>"
    "lists (mp_kernel w1) = (lists (mp_kernel w))(Pending mp := [])"
    "cells w1 = cells (end_list a ?st count (link_blocks a ?st count v))"
    using create_cases(2) [OF c] by blast
  have cnt: "0 < count" using c'(1) by (cases count) (simp_all add: rt_malloc_def)
  then have "align32 bs + 4 \<le> (align32 bs + 4) * count" by simp
  then have "align32 bs + 4 < 2 ^ 32" using n by (rule le_less_trans)
  then have st: "?st = align32 bs + 4" "?st * count mod 2 ^ 32 = (align32 bs + 4) * count" using n by simp_all
  let ?n = "(align32 bs + 4) * count"
  have "4 dvd ?n" using align32_dvd [of bs] by (simp add: dvd_add)
  then obtain j where "?n = 4 * j" by (elim dvdE)
  then have lim: "?n \<le> 2 ^ 32 - 4" using n by simp
  have m: "rt_malloc ?n (mp_heap w) = Some (Some a, h)" using c'(1) by (simp only: st(2))
  obtain l where l: "heap_ok h" "?n \<le> l" "live h = insert (a, l) (live (mp_heap w))"
    using malloc_live [OF heap lim m] by blast
  have "heap_inv (blocks h) h" using l(1) by (simp add: heap_ok_def)
  then have hp: "heap_ptr h + heap_end h + 12 \<le> 2 ^ 32" by (simp add: heap_inv_def shape_def)
  have "heap_ptr h \<le> a \<and> a + l \<le> heap_ptr h + heap_end h" using heap.live_inside [OF l(1), of "(a, l)"] l(3) by simp
  moreover have "0 < a" using malloc_ok [OF heap, of ?n] m by auto
  ultimately have bnd: "0 < a" "a + ?n \<le> 2 ^ 32" using l(2) hp by linarith+
  have stp: "stride (pools w1 mp) = align32 bs + 4" by (simp add: stride_def c'(3))
  have "pool_inv mp (map (block_addr (pools w1 mp)) [0..<block_total_count (pools w1 mp)]) w1" "used_addrs mp w1 = {}"
    by (rule linked_ok [of w1 mp "pools w1 mp" v]; use cnt bnd c'(5) st stp in
      \<open>simp add: c'(3) block_addr_def mult.commute\<close>)+
  then show ?thesis using m lim l c'(2,4) by (intro exI [of _ a] exI [of _ l]) (simp add: c'(3))
qed

text \<open>
  A pool created from the heap with a size that fits in 32 bits lies inside one block of the heap,
  all of its blocks are free and linked, and deleting it gives the heap back as it was before.
\<close>

theorem pool_create_delete:
  assumes heap: "heap_inv B (mp_heap w)" and n: "(align32 bs + 4) * count < 2 ^ 32"
    and c: "rt_mp_create (Some mp) name count bs w = Some (Some r, w1)"
  shows "(\<exists>a m. (a, m) \<in> live (mp_heap w1) \<and> a \<le> fst (pool_arena mp w1) \<and>
      fst (pool_arena mp w1) + snd (pool_arena mp w1) \<le> a + m) \<and>
    pool_ok mp (align32 bs) w1 \<and> length (free_blocks mp w1) = count \<and> used_addrs mp w1 = {} \<and>
    (\<exists>w2. rt_mp_delete mp w1 = Some (RT_EOK, w2) \<and> blocks (mp_heap w2) = blocks (mp_heap w) \<and>
       live (mp_heap w2) = live (mp_heap w) \<and> used_mem (mp_heap w2) = used_mem (mp_heap w))"
proof -
  obtain a l where p: "rt_malloc ((align32 bs + 4) * count) (mp_heap w) = Some (Some a, mp_heap w1)"
    "(align32 bs + 4) * count \<le> 2 ^ 32 - 4" "start_address (pools w1 mp) = a" "(a, l) \<in> live (mp_heap w1)"
    "(align32 bs + 4) * count \<le> l" "mp_waiters mp w1 = []" "block_total_count (pools w1 mp) = count"
    "block_free_count (pools w1 mp) = count" "mp_block_size (pools w1 mp) = align32 bs"
    "pool_inv mp (map (block_addr (pools w1 mp)) [0..<count]) w1" "used_addrs mp w1 = {}"
    using created_pool [OF assms] by blast
  have "fst (pool_arena mp w1) = a" "snd (pool_arena mp w1) \<le> l"
    using p by (simp_all add: pool_arena_def Let_def stride_def mult.commute)
  then have "\<exists>a m. (a, m) \<in> live (mp_heap w1) \<and> a \<le> fst (pool_arena mp w1) \<and>
      fst (pool_arena mp w1) + snd (pool_arena mp w1) \<le> a + m" using p(4) by force
  moreover have "rt_mp_delete mp w1 = Some (RT_EOK, upd_kernel (upd_objects (rt_object_delete (IpcObj mp)))
      (w1\<lparr>mp_heap := rt_free (Some a) (mp_heap w1)\<rparr>))"
    using p(6) by (simp add: rt_mp_delete_def mp_wake_all.simps [of mp w1] p(3))
  moreover note malloc_free_restores [OF heap p(2,1)]
  moreover have "pool_ok mp (align32 bs) w1" using pool_okI [OF p(10)] by (simp add: p(9))
  moreover have "length (free_blocks mp w1) = count" by (simp add: pool_inv_free [OF p(10)])
  ultimately show ?thesis using p(11) by simp
qed

theorem pool_create_delete_witness:
  "\<exists>r w1 w2. rt_mp_create (Some 500) ''p'' 3 12 demo_world = Some (Some r, w1) \<and> pool_ok 500 12 w1 \<and>
     rt_mp_delete 500 w1 = Some (RT_EOK, w2) \<and> live (mp_heap w2) = {}"
proof -
  have a: "align32 12 = 12" by (simp add: align32_def RT_ALIGN_def)
  obtain h where "rt_malloc 48 demo_heap = Some (Some 1012, h)" by (simp add: demo_heap_eq heap_run)
  then obtain r w1 where c: "rt_mp_create (Some 500) ''p'' 3 12 demo_world = Some (Some r, w1)"
    unfolding rt_mp_create_def a
    by (simp add: rt_object_allocate_def rt_object_get_information_def Let_def demo_world_def upd_kernel_def)
  have w: "heap_inv {0} (mp_heap demo_world)" using demo_heap_inv by (simp add: demo_world_def)
  have "(align32 12 + 4) * 3 < 2 ^ 32" by (simp add: a)
  note d = pool_create_delete [OF w this c]
  have "live (mp_heap demo_world) = {}" by (simp add: demo_world_def demo_heap_live)
  then show ?thesis using d c unfolding a by metis
qed

text \<open>
  A pool created with more blocks than 32 bits can count the bytes of is not refused: the product
  wraps, and the pool that comes back reaches beyond every block of the heap.
\<close>

theorem pool_create_overflow:
  assumes heap: "heap_inv B (mp_heap w)" and n: "bs \<le> 2 ^ 32 - 8" "2 ^ 32 \<le> (align32 bs + 4) * count"
    and c: "rt_mp_create (Some mp) name count bs w = Some (Some r, w1)"
  shows "block_total_count (pools w1 mp) = count \<and> mp_size (pools w1 mp) < snd (pool_arena mp w1) \<and>
    \<not> (\<exists>a m. (a, m) \<in> live (mp_heap w1) \<and> a \<le> fst (pool_arena mp w1) \<and>
         fst (pool_arena mp w1) + snd (pool_arena mp w1) \<le> a + m)"
proof -
  let ?n = "(align32 bs + 4) mod 2 ^ 32 * count mod 2 ^ 32"
  obtain a h where m: "rt_malloc ?n (mp_heap w) = Some (Some a, h)" "mp_heap w1 = h"
    and p: "pools w1 mp = \<lparr>start_address = a, mp_size = ?n, block_list = a, mp_block_size = align32 bs,
      block_total_count = count, block_free_count = count, suspend_thread_count = 0\<rparr>"
    using create_cases(2) [OF c] by blast
  obtain b B' where h: "heap_inv B' h" using malloc_ok [OF heap, of ?n] m by auto
  then have hp: "heap_ptr h + heap_end h + 12 \<le> 2 ^ 32" by (simp add: heap_inv_def shape_def)
  have ok: "heap_ok h" using heap_okI [OF h] by simp
  have ar: "2 ^ 32 \<le> snd (pool_arena mp w1)" using n(2) by (simp add: pool_arena_def Let_def p stride_def mult.commute)
  have "?n < 2 ^ 32" by simp
  then have "mp_size (pools w1 mp) < snd (pool_arena mp w1)" using ar by (simp add: p)
  moreover have "a' + l < 2 ^ 32" if "(a', l) \<in> live h" for a' l
    using heap.live_inside [OF ok that] hp by simp
  ultimately show ?thesis using ar m(2) by (fastforce simp: p)
qed

theorem pool_create_overflow_witness:
  "\<exists>r w1. rt_mp_create (Some 500) ''p'' 268435457 12 demo_world = Some (Some r, w1) \<and>
     mp_size (pools w1 500) < snd (pool_arena 500 w1)"
proof -
  have a: "align32 12 = 12" by (simp add: align32_def RT_ALIGN_def)
  obtain h where "rt_malloc 16 demo_heap = Some (Some 1012, h)" by (simp add: demo_heap_eq heap_run)
  then obtain r w1 where "rt_mp_create (Some 500) ''p'' 268435457 12 demo_world = Some (Some r, w1)"
    unfolding rt_mp_create_def a
    by (simp add: rt_object_allocate_def rt_object_get_information_def Let_def demo_world_def upd_kernel_def)
  then show ?thesis
    using pool_create_overflow [of "{0}" demo_world 12 268435457] demo_heap_inv
    by (auto simp: a demo_world_def)
qed

text \<open>
  A pool whose memory is too small for one block writes its end mark below the memory it was
  given, and nowhere else.
\<close>

theorem pool_zero_blocks:
  assumes "rt_mp_init mp name start sz bs w = (e, w')" "bs \<le> 2 ^ 32 - 8" "pool_total sz bs = 0"
    and "align32 bs + 4 \<le> start" "start < 2 ^ 32"
  shows "block_total_count (pools w' mp) = 0 \<and> cells w' = (cells w)(start - (align32 bs + 4) := 0)"
proof -
  let ?st = "align32 bs + 4"
  have st: "?st mod 2 ^ 32 = ?st" using assms(4,5) by simp
  have "start + (2 ^ 32 - 1) * ?st = (start - ?st) + 2 ^ 32 * ?st" using assms(4) by simp
  moreover have "sub32 0 1 = 2 ^ 32 - 1" by (simp add: sub32_def)
  ultimately have "(start + sub32 0 1 * ?st) mod 2 ^ 32 = ((start - ?st) + 2 ^ 32 * ?st) mod 2 ^ 32" by (simp only:)
  also have "\<dots> = (start - ?st) mod 2 ^ 32" by (rule mod_mult_self2)
  also have "\<dots> = start - ?st" using assms(5) by (intro mod_less) simp
  finally have "(start + sub32 0 1 * ?st) mod 2 ^ 32 = start - ?st" .
  then show ?thesis
    using assms(1,3) unfolding rt_mp_init_def st Let_def
    by (auto simp: pool_total_def end_list_def)
qed

theorem pool_zero_blocks_witness:
  "cells (snd (rt_mp_init 500 ''p'' 1000 8 8 (demo_world\<lparr>cells := (\<lambda>_. 7)\<rparr>))) = (\<lambda>_. 7)(988 := 0)"
proof -
  have "align32 8 = 8" "pool_total 8 8 = 0" by (simp_all add: align32_def RT_ALIGN_def pool_total_def RT_ALIGN_DOWN_def)
  then show ?thesis
    using pool_zero_blocks [OF surjective_pairing, where mp = 500 and name = "''p''" and start = 1000 and sz = 8 and bs = 8
      and w = "demo_world\<lparr>cells := (\<lambda>_. 7)\<rparr>"] by simp
qed


end
