(* ===== verification/Format.thy ===== *)
theory Format
  imports CString Clock
begin

unbundle bit_operations_syntax

text \<open>
  The formatted output of \<^verbatim>\<open>src/kservice.c\<close>: \<^verbatim>\<open>rt_vsnprintf\<close>,
  \<^verbatim>\<open>print_number\<close> and \<^verbatim>\<open>rt_kprintf\<close>, with
  \<^verbatim>\<open>RT_PRINTF_PRECISION\<close> set and \<^verbatim>\<open>RT_PRINTF_LONGLONG\<close> and
  \<^verbatim>\<open>RT_PRINTF_SPECIAL\<close> unset. The memory the text goes to maps addresses to
  characters; \<open>str\<close> runs past \<open>end\<close> when the text is too long, and nothing is stored there.
  The result is \<open>None\<close> where the arguments do not fit the format, which is undefined in C.
\<close>

section \<open>The code\<close>

type_synonym text_mem = "nat \<Rightarrow> char"

text \<open>Where the next character goes, with the memory.\<close>

type_synonym printer = "nat \<times> text_mem"

definition put_char :: "nat \<Rightarrow> char \<Rightarrow> printer \<Rightarrow> printer" where
  "put_char e c p = (case p of (str, m) \<Rightarrow> (str + 1, if str \<le> e then m(str := c) else m))"

primrec put_text :: "nat \<Rightarrow> string \<Rightarrow> printer \<Rightarrow> printer" where
  "put_text e [] p = p"
| "put_text e (c # cs) p = put_text e cs (put_char e c p)"

text \<open>\<open>while (size-- > 0)\<close>: the characters put and what is left in \<open>size\<close>.\<close>

definition pad_loop :: "nat \<Rightarrow> char \<Rightarrow> int \<Rightarrow> printer \<Rightarrow> int \<times> printer" where
  "pad_loop e c sz p = ((if sz > 0 then -1 else sz - 1), put_text e (replicate (nat sz) c) p)"

definition is_digit :: "char \<Rightarrow> bool" where
  "is_digit c \<longleftrightarrow> 48 \<le> (of_char c :: int) \<and> (of_char c :: int) < 58"

fun atoi_from :: "int \<Rightarrow> string \<Rightarrow> int \<times> string" where
  "atoi_from i [] = (i, [])"
| "atoi_from i (c # s) = (if is_digit c then atoi_from (wrap32 (i * 10 + of_char c - 48)) s else (i, c # s))"

definition skip_atoi :: "string \<Rightarrow> int \<times> string" where
  "skip_atoi s = atoi_from 0 s"

abbreviation (input) ZEROPAD :: u8 where "ZEROPAD \<equiv> 1"
abbreviation (input) SIGN :: u8 where "SIGN \<equiv> 2"
abbreviation (input) PLUS :: u8 where "PLUS \<equiv> 4"
abbreviation (input) SPACE :: u8 where "SPACE \<equiv> 8"
abbreviation (input) LEFT :: u8 where "LEFT \<equiv> 16"
abbreviation (input) SPECIAL :: u8 where "SPECIAL \<equiv> 32"
abbreviation (input) LARGE :: u8 where "LARGE \<equiv> 64"

definition has :: "u8 \<Rightarrow> u8 \<Rightarrow> bool" where
  "has f t \<longleftrightarrow> t AND f \<noteq> 0"

text \<open>\<^verbatim>\<open>divide\<close>: the digit and the rest. Every base but 10 counts as 16.\<close>

definition divide :: "u32 \<Rightarrow> nat \<Rightarrow> nat \<times> u32" where
  "divide n base = (if base = 10 then (unat (n mod 10), n div 10) else (unat (n mod 16), n div 16))"

definition digit_chars :: "bool \<Rightarrow> string" where
  "digit_chars large = (if large then ''0123456789ABCDEF'' else ''0123456789abcdef'')"

text \<open>The digits in \<^verbatim>\<open>tmp\<close>, last digit first.\<close>

function digit_loop :: "string \<Rightarrow> nat \<Rightarrow> u32 \<Rightarrow> string" where
  "digit_loop digits base n =
    (if n = 0 then [] else digits ! fst (divide n base) # digit_loop digits base (snd (divide n base)))"
  by pat_completeness auto
termination
  by (relation "measure (\<lambda>(_, _, n). unat n)")
    (auto simp: divide_def unat_div unat_gt_0 intro!: div_less_dividend)

declare digit_loop.simps [simp del]

definition print_number :: "nat \<Rightarrow> u32 \<Rightarrow> nat \<Rightarrow> int \<Rightarrow> int \<Rightarrow> u8 \<Rightarrow> printer \<Rightarrow> printer" where
  "print_number e num base s precision ty p =
    (let ty = (if has LEFT ty then ty AND NOT ZEROPAD else ty);
         c = (if has ZEROPAD ty then CHR ''0'' else CHR '' '');
         (sign, num) =
           (if has SIGN ty
            then if sint num < 0 then (''-'', - num)
                 else if has PLUS ty then (''+'', num)
                 else if has SPACE ty then ('' '', num) else ([], num)
            else ([], num));
         tmp = (if num = 0 then ''0'' else digit_loop (digit_chars (has LARGE ty)) base num);
         i = int (length tmp);
         precision = (if i > precision then i else precision);
         sz = s - precision;
         (sz, p) =
           (if \<not> has ZEROPAD ty \<and> \<not> has LEFT ty
            then pad_loop e (CHR '' '') (if sign \<noteq> [] \<and> sz > 0 then sz - 1 else sz) p
            else (sz, p));
         (sz, p) = (if sign \<noteq> [] then (if fst p \<le> e then sz - 1 else sz, put_text e sign p) else (sz, p));
         (sz, p) = (if \<not> has LEFT ty then pad_loop e c sz p else (sz, p));
         p = put_text e (replicate (nat (precision - i)) (CHR ''0'')) p;
         p = put_text e (rev tmp) p
     in put_text e (replicate (nat sz) (CHR '' '')) p)"

datatype arg = IntArg u32 | StrArg "string option"

fun int_arg :: "arg list \<Rightarrow> (u32 \<times> arg list) option" where
  "int_arg (IntArg n # args) = Some (n, args)"
| "int_arg _ = None"

fun str_arg :: "arg list \<Rightarrow> (string \<times> arg list) option" where
  "str_arg (StrArg s # args) = Some (case s of None \<Rightarrow> ''(NULL)'' | Some t \<Rightarrow> t, args)"
| "str_arg _ = None"

text \<open>The part of a conversion between \<^verbatim>\<open>%\<close> and its letter.\<close>

fun parse_flags :: "u8 \<Rightarrow> string \<Rightarrow> u8 \<times> string" where
  "parse_flags f [] = (f, [])"
| "parse_flags f (c # s) =
    (if c = CHR ''-'' then parse_flags (f OR LEFT) s
     else if c = CHR ''+'' then parse_flags (f OR PLUS) s
     else if c = CHR '' '' then parse_flags (f OR SPACE) s
     else if c = CHR ''#'' then parse_flags (f OR SPECIAL) s
     else if c = CHR ''0'' then parse_flags (f OR ZEROPAD) s
     else (f, c # s))"

definition parse_width :: "u8 \<Rightarrow> string \<Rightarrow> arg list \<Rightarrow> (int \<times> u8 \<times> string \<times> arg list) option" where
  "parse_width f s args =
    (if is_digit (deref s) then case skip_atoi s of (w, t) \<Rightarrow> Some (w, f, t, args)
     else if deref s = CHR ''*''
     then map_option
       (\<lambda>(n, args). if sint n < 0 then (sint (- n), f OR LEFT, tl s, args) else (sint n, f, tl s, args)) (int_arg args)
     else Some (-1, f, s, args))"

definition parse_precision :: "string \<Rightarrow> arg list \<Rightarrow> (int \<times> string \<times> arg list) option" where
  "parse_precision s args =
    (if deref s = CHR ''.''
     then map_option (\<lambda>(q, t, args). (if q < 0 then 0 else q, t, args))
       (if is_digit (deref (tl s)) then case skip_atoi (tl s) of (q, t) \<Rightarrow> Some (q, t, args)
        else if deref (tl s) = CHR ''*'' then map_option (\<lambda>(n, args). (sint n, tl (tl s), args)) (int_arg args)
        else Some (-1, tl s, args))
     else Some (-1, s, args))"

definition parse_qualifier :: "string \<Rightarrow> char \<times> string" where
  "parse_qualifier s = (if deref s = CHR ''h'' \<or> deref s = CHR ''l'' then (deref s, tl s) else (NUL, s))"

text \<open>The argument of a number, cut to the qualifier.\<close>

definition number_arg :: "char \<Rightarrow> u8 \<Rightarrow> u32 \<Rightarrow> u32" where
  "number_arg qualifier flags n =
    (if qualifier = CHR ''h''
     then if has SIGN flags then scast (ucast n :: 16 word) else ucast (ucast n :: 16 word)
     else n)"

text \<open>The locals of \<^verbatim>\<open>rt_vsnprintf\<close> for one conversion.\<close>

record conv =
  c_letter :: char
  c_flags :: u8
  c_width :: int
  c_precision :: int
  c_qualifier :: char

text \<open>All of a conversion behind its \<^verbatim>\<open>%\<close>, and the rest of the format.\<close>

definition parse_conversion :: "string \<Rightarrow> arg list \<Rightarrow> (conv \<times> string \<times> arg list) option" where
  "parse_conversion fmt args =
    (let (flags, s) = parse_flags 0 fmt in
     Option.bind (parse_width flags s args) (\<lambda>(width, flags, s, args).
     map_option
       (\<lambda>(precision, s, args).
          let (qualifier, s) = parse_qualifier s
          in (\<lparr>c_letter = deref s, c_flags = flags, c_width = width, c_precision = precision, c_qualifier = qualifier\<rparr>,
              if deref s = NUL then s else tl s, args))
       (parse_precision s args)))"

text \<open>The \<^verbatim>\<open>switch\<close>. The number letters set the base and the flags first.\<close>

definition number_letter :: "char \<Rightarrow> bool" where
  "number_letter c \<longleftrightarrow> c = CHR ''o'' \<or> c = CHR ''X'' \<or> c = CHR ''x'' \<or> c = CHR ''d'' \<or> c = CHR ''i'' \<or> c = CHR ''u''"

definition number_base :: "char \<Rightarrow> nat" where
  "number_base c = (if c = CHR ''o'' then 8 else if c = CHR ''X'' \<or> c = CHR ''x'' then 16 else 10)"

definition number_flags :: "char \<Rightarrow> u8 \<Rightarrow> u8" where
  "number_flags c f = (if c = CHR ''X'' then f OR LARGE else if c = CHR ''d'' \<or> c = CHR ''i'' then f OR SIGN else f)"

definition print_char :: "nat \<Rightarrow> u8 \<Rightarrow> int \<Rightarrow> u32 \<Rightarrow> printer \<Rightarrow> printer" where
  "print_char e flags width n p =
    (let (width, p) = (if \<not> has LEFT flags
           then (if width > 1 then 0 else width - 1, put_text e (replicate (nat (width - 1)) (CHR '' '')) p)
           else (width, p));
         p = put_char e (char_of (unat n)) p
     in put_text e (replicate (nat (width - 1)) (CHR '' '')) p)"

definition print_string :: "nat \<Rightarrow> u8 \<Rightarrow> int \<Rightarrow> int \<Rightarrow> string \<Rightarrow> printer \<Rightarrow> printer" where
  "print_string e flags width precision s p =
    (let len = int (rt_strlen s);
         len = (if precision > 0 \<and> len > precision then precision else len);
         (width, p) = (if \<not> has LEFT flags
           then (if width > len then len - 1 else width - 1, put_text e (replicate (nat (width - len)) (CHR '' '')) p)
           else (width, p));
         p = put_text e (take (nat len) s) p
     in put_text e (replicate (nat (width - len)) (CHR '' '')) p)"

definition convert :: "nat \<Rightarrow> conv \<Rightarrow> arg list \<Rightarrow> printer \<Rightarrow> (arg list \<times> printer) option" where
  "convert e cv args p =
    (if c_letter cv = CHR ''c''
     then map_option (\<lambda>(n, args). (args, print_char e (c_flags cv) (c_width cv) n p)) (int_arg args)
     else if c_letter cv = CHR ''s''
     then map_option (\<lambda>(s, args). (args, print_string e (c_flags cv) (c_width cv) (c_precision cv) s p)) (str_arg args)
     else if c_letter cv = CHR ''p''
     then map_option
       (\<lambda>(n, args). (args,
          if c_width cv = -1 then print_number e n 16 8 (c_precision cv) (c_flags cv OR ZEROPAD) p
          else print_number e n 16 (c_width cv) (c_precision cv) (c_flags cv) p))
       (int_arg args)
     else if c_letter cv = CHR ''%'' then Some (args, put_char e (CHR ''%'') p)
     else if number_letter (c_letter cv)
     then let flags = number_flags (c_letter cv) (c_flags cv) in
       map_option
         (\<lambda>(n, args). (args, print_number e (number_arg (c_qualifier cv) flags n) (number_base (c_letter cv))
            (c_width cv) (c_precision cv) flags p))
         (int_arg args)
     else let p = put_char e (CHR ''%'') p
       in Some (args, if c_letter cv \<noteq> NUL then put_char e (c_letter cv) p else p))"

lemma atoi_length: "length (snd (atoi_from i s)) \<le> length s"
  by (induction i s rule: atoi_from.induct) auto

lemma parse_flags_length: "length (snd (parse_flags f s)) \<le> length s"
  by (induction f s rule: parse_flags.induct) auto

lemma parse_width_length: "parse_width f s args = Some (w, g, t, args') \<Longrightarrow> length t \<le> length s"
  using atoi_length [of 0 s] by (auto simp: parse_width_def skip_atoi_def split: if_splits prod.splits)

lemma parse_precision_length: "parse_precision s args = Some (q, t, args') \<Longrightarrow> length t \<le> length s"
  using atoi_length [of 0 "tl s"] by (auto simp: parse_precision_def skip_atoi_def split: if_splits prod.splits)

lemma parse_qualifier_length: "length (snd (parse_qualifier s)) \<le> length s"
  by (simp add: parse_qualifier_def)

lemma parse_conversion_length:
  assumes "parse_conversion fmt args = Some (cv, s, args')"
  shows "length s \<le> length fmt"
proof -
  obtain f t where f: "parse_flags 0 fmt = (f, t)" by fastforce
  obtain w g u a where w: "parse_width f t args = Some (w, g, u, a)"
    using assms by (cases "parse_width f t args") (auto simp: parse_conversion_def f)
  obtain q v b where q: "parse_precision u a = Some (q, v, b)"
    using assms by (cases "parse_precision u a") (auto simp: parse_conversion_def f w)
  have "length s \<le> length (snd (parse_qualifier v))"
    using assms by (auto simp: parse_conversion_def f w q split: prod.splits if_splits)
  then show ?thesis
    using parse_flags_length [of 0 fmt] parse_width_length [OF w] parse_precision_length [OF q] parse_qualifier_length [of v]
    by (simp add: f)
qed

text \<open>The loop over the format.\<close>

function print_loop :: "nat \<Rightarrow> string \<Rightarrow> arg list \<Rightarrow> printer \<Rightarrow> printer option" where
  "print_loop e fmt args p =
    (if deref fmt = NUL then Some p
     else if deref fmt \<noteq> CHR ''%'' then print_loop e (tl fmt) args (put_char e (deref fmt) p)
     else case parse_conversion (tl fmt) args of
       None \<Rightarrow> None
     | Some (cv, fmt', args') \<Rightarrow>
        (case convert e cv args' p of
           None \<Rightarrow> None
         | Some (args'', p') \<Rightarrow> print_loop e fmt' args'' p'))"
  by pat_completeness auto
termination
proof (relation "measure (\<lambda>(_, fmt, _). length fmt)")
  fix e fmt args p
  assume "deref fmt \<noteq> NUL"
  then show "((e, tl fmt, args, put_char e (deref fmt) p), e, fmt, args, p) \<in> measure (\<lambda>(_, fmt, _). length fmt)"
    by (cases fmt) auto
next
  fix e fmt args p x cv y fmt' args' z args'' p'
  assume "deref fmt \<noteq> NUL" "parse_conversion (tl fmt) args = Some x" "(cv, y) = x" "(fmt', args') = y"
  then show "((e, fmt', args'', p'), e, fmt, args, p) \<in> measure (\<lambda>(_, fmt, _). length fmt)"
    using parse_conversion_length [of "tl fmt" args cv fmt' args'] by (cases fmt) auto
qed auto

declare print_loop.simps [simp del]

definition text_end :: "nat \<Rightarrow> nat \<Rightarrow> nat" where
  "text_end buf sz = (let e = (buf + sz + 2 ^ 32 - 1) mod 2 ^ 32 in if e < buf then 2 ^ 32 - 1 else e)"

definition rt_vsnprintf :: "nat \<Rightarrow> nat \<Rightarrow> string \<Rightarrow> arg list \<Rightarrow> text_mem \<Rightarrow> (nat \<times> text_mem) option" where
  "rt_vsnprintf buf sz fmt args m =
    (let e = text_end buf sz in
     map_option (\<lambda>(str, m). (str - buf, if str \<le> e then m(str := NUL) else m(e := NUL))) (print_loop e fmt args (buf, m)))"

definition rt_vsprintf :: "nat \<Rightarrow> string \<Rightarrow> arg list \<Rightarrow> text_mem \<Rightarrow> (nat \<times> text_mem) option" where
  "rt_vsprintf buf fmt args m = rt_vsnprintf buf (2 ^ 32 - 1) fmt args m"

definition RT_CONSOLEBUF_SIZE :: nat where "RT_CONSOLEBUF_SIZE = 128"

text \<open>
  \<^verbatim>\<open>rt_kprintf\<close> to a console device: the characters it writes from
  \<^verbatim>\<open>rt_log_buf\<close>, which is at \<open>log_buf\<close>.
\<close>

definition rt_kprintf :: "nat \<Rightarrow> string \<Rightarrow> arg list \<Rightarrow> text_mem \<Rightarrow> (string \<times> text_mem) option" where
  "rt_kprintf log_buf fmt args m =
    map_option
      (\<lambda>(n, m). (map (\<lambda>i. m (log_buf + i)) [0..<if n > RT_CONSOLEBUF_SIZE - 1 then RT_CONSOLEBUF_SIZE - 1 else n], m))
      (rt_vsnprintf log_buf (RT_CONSOLEBUF_SIZE - 1) fmt args m)"

end
