(* ===== verification/FormatText.thy ===== *)
theory FormatText
  imports Format
begin

unbundle bit_operations_syntax

text \<open>
  What the formatted output is, without buffers: the text the code makes of a format and its
  arguments, with its parser and its bases, and the proof that \<^verbatim>\<open>rt_vsnprintf\<close> stores
  that text, cut to the buffer. Theory FormatSpec compares the text with what a format stands for.
\<close>

section \<open>Putting text\<close>

lemma put_text_append: "put_text e (s @ t) p = put_text e t (put_text e s p)"
  by (induction s arbitrary: p) simp_all

lemma put_text_fst [simp]: "fst (put_text e t p) = fst p + length t"
  by (induction t arbitrary: p) (simp_all add: put_char_def case_prod_beta)

lemma put_char_text: "put_char e c p = put_text e [c] p"
  by simp

lemma put_text_snd:
  "snd (put_text e t p) a = (if fst p \<le> a \<and> a < fst p + length t \<and> a \<le> e then t ! (a - fst p) else snd p a)"
proof (induction t arbitrary: p)
  case (Cons c t)
  have "snd (put_text e (c # t) p) a =
    (if Suc (fst p) \<le> a \<and> a < Suc (fst p) + length t \<and> a \<le> e then t ! (a - Suc (fst p)) else snd (put_char e c p) a)"
    using Cons.IH [of "put_char e c p"] by (simp add: put_char_def case_prod_beta)
  then show ?case
    by (cases "a = fst p") (auto simp: put_char_def case_prod_beta nth_Cons')
qed auto

lemma put_text_past: "e < fst p \<Longrightarrow> snd (put_text e t p) = snd p"
  by (rule ext) (auto simp: put_text_snd)

text \<open>Two printers that store the same: beyond the end the position does not matter.\<close>

definition agree :: "nat \<Rightarrow> printer \<Rightarrow> printer \<Rightarrow> bool" where
  "agree e p q \<longleftrightarrow> p = q \<or> snd p = snd q \<and> e < fst p \<and> e < fst q"

lemma agree_refl [simp]: "agree e p p"
  by (simp add: agree_def)

lemma agree_trans: "agree e p q \<Longrightarrow> agree e q r \<Longrightarrow> agree e p r"
  by (auto simp: agree_def)

lemma agree_put_text: "agree e p q \<Longrightarrow> agree e (put_text e t p) (put_text e t q)"
  by (auto simp: agree_def put_text_past)

section \<open>Flags\<close>

lemma has_or: "has f (t OR g) \<longleftrightarrow> has f t \<or> g AND f \<noteq> 0"
  by (simp add: has_def bit.conj_disj_distrib2 or_eq_0_iff)

section \<open>Numbers\<close>

text \<open>The numeral of a number, for a list of digits.\<close>

fun num_text :: "string \<Rightarrow> nat \<Rightarrow> nat \<Rightarrow> string" where
  "num_text ds b n = (if b < 2 \<or> n < b then [ds ! n] else num_text ds b (n div b) @ [ds ! (n mod b)])"

declare num_text.simps [simp del]

definition real_base :: "nat \<Rightarrow> nat" where
  "real_base base = (if base = 10 then 10 else 16)"

lemma real_base_ge [simp]: "0 < real_base base" "\<not> real_base base < 2" "real_base base \<noteq> 0"
  by (simp_all add: real_base_def)

lemma divide_unat: "fst (divide n base) = unat n mod real_base base" "unat (snd (divide n base)) = unat n div real_base base"
  by (simp_all add: divide_def real_base_def unat_div_distrib unat_mod_distrib)

lemma digit_loop_text: "n \<noteq> 0 \<Longrightarrow> rev (digit_loop ds base n) = num_text ds (real_base base) (unat n)"
proof (induction ds base n rule: digit_loop.induct)
  case (1 ds base n)
  let ?q = "snd (divide n base)" and ?b = "real_base base"
  have b: "\<not> ?b < 2" by (simp add: real_base_def)
  have l: "digit_loop ds base n = ds ! fst (divide n base) # digit_loop ds base ?q"
    using 1(2) by (subst digit_loop.simps) simp
  show ?case
  proof (cases "?q = 0")
    case True
    then have "unat n div ?b = 0" using divide_unat(2) [of n base] by simp
    then have lt: "unat n < ?b" using b by (simp add: div_eq_0_iff)
    have "digit_loop ds base ?q = []" using True by (subst digit_loop.simps) simp
    then show ?thesis using lt by (simp add: l divide_unat num_text.simps [of ds ?b])
  next
    case False
    then have "unat n div ?b \<noteq> 0" using divide_unat(2) [of n base] by (metis unat_eq_zero)
    then have "\<not> unat n < ?b" by auto
    then show ?thesis
      using 1(1) [OF 1(2) False] b by (simp add: l divide_unat num_text.simps [of ds ?b "unat n"])
  qed
qed

definition sign_text :: "u8 \<Rightarrow> u32 \<Rightarrow> string" where
  "sign_text ty n =
    (if has SIGN ty then if sint n < 0 then ''-'' else if has PLUS ty then ''+'' else if has SPACE ty then '' '' else []
     else [])"

definition magnitude :: "u8 \<Rightarrow> u32 \<Rightarrow> nat" where
  "magnitude ty n = (if has SIGN ty \<and> sint n < 0 then unat (- n) else unat n)"

definition number_text :: "u32 \<Rightarrow> nat \<Rightarrow> int \<Rightarrow> int \<Rightarrow> u8 \<Rightarrow> string" where
  "number_text n base width precision ty =
    (let sign = sign_text ty n;
         ds = num_text (digit_chars (has LARGE ty)) (real_base base) (magnitude ty n);
         body = replicate (nat precision - length ds) (CHR ''0'') @ ds;
         pad = nat width - length sign - length body
     in if has LEFT ty then sign @ body @ replicate pad (CHR '' '')
        else if has ZEROPAD ty then sign @ replicate pad (CHR ''0'') @ body
        else replicate pad (CHR '' '') @ sign @ body)"

lemma num_text_nonempty: "num_text ds b n \<noteq> []"
  by (subst num_text.simps) simp

lemma tmp_text:
  "rev (if k = 0 then ''0'' else digit_loop (digit_chars large) base k) = num_text (digit_chars large) (real_base base) (unat k)"
  by (simp add: digit_loop_text num_text.simps [of _ _ 0] digit_chars_def)

lemma sign_choice:
  "(if has SIGN ty
    then if sint n < 0 then (''-'', - n)
         else if has PLUS ty then (''+'', n)
         else if has SPACE ty then ('' '', n) else ([], n)
    else ([], n)) = (sign_text ty n, if has SIGN ty \<and> sint n < 0 then - n else n)"
  by (simp add: sign_text_def)

lemma left_clears [simp]:
  "has LEFT (if has LEFT ty then ty AND NOT ZEROPAD else ty) = has LEFT ty"
  "has ZEROPAD (if has LEFT ty then ty AND NOT ZEROPAD else ty) = (has ZEROPAD ty \<and> \<not> has LEFT ty)"
  "has SIGN (if has LEFT ty then ty AND NOT ZEROPAD else ty) = has SIGN ty"
  "has PLUS (if has LEFT ty then ty AND NOT ZEROPAD else ty) = has PLUS ty"
  "has SPACE (if has LEFT ty then ty AND NOT ZEROPAD else ty) = has SPACE ty"
  "has LARGE (if has LEFT ty then ty AND NOT ZEROPAD else ty) = has LARGE ty"
  by (auto simp: has_def and.assoc)

lemma sign_clears [simp]: "sign_text (if has LEFT ty then ty AND NOT ZEROPAD else ty) n = sign_text ty n"
  unfolding sign_text_def left_clears ..

text \<open>\<^verbatim>\<open>print_number\<close> with its choices made: \<open>sz\<close> is the room for padding.\<close>

definition padded :: "nat \<Rightarrow> u8 \<Rightarrow> int \<Rightarrow> string \<Rightarrow> string \<Rightarrow> printer \<Rightarrow> printer" where
  "padded e ty sz sign body p =
    (let blank = CHR '' '';
         (sz, p) =
           (if \<not> has ZEROPAD ty \<and> \<not> has LEFT ty
            then pad_loop e blank (if sign \<noteq> [] \<and> sz > 0 then sz - 1 else sz) p else (sz, p));
         (sz, p) = (if sign \<noteq> [] then (if fst p \<le> e then sz - 1 else sz, put_text e sign p) else (sz, p));
         (sz, p) = (if \<not> has LEFT ty then pad_loop e (if has ZEROPAD ty then CHR ''0'' else blank) sz p else (sz, p))
     in put_text e (replicate (nat sz) blank) (put_text e body p))"

lemma print_number_padded:
  fixes n base ty
  defines "ds \<equiv> num_text (digit_chars (has LARGE ty)) (real_base base) (magnitude ty n)"
  shows "print_number e n base s precision ty p =
    padded e ty (s - max precision (int (length ds))) (sign_text ty n)
      (replicate (nat precision - length ds) (CHR ''0'') @ ds) p"
proof -
  let ?k = "if has SIGN ty \<and> sint n < 0 then - n else n"
  let ?tmp = "if ?k = 0 then ''0'' else digit_loop (digit_chars (has LARGE ty)) base ?k"
  have t: "rev ?tmp = ds" unfolding tmp_text ds_def magnitude_def by simp
  then have l: "length ?tmp = length ds" by (metis length_rev)
  have m: "(if int (length ds) > precision then int (length ds) else precision) = max precision (int (length ds))" by simp
  have z: "nat (max precision (int (length ds)) - int (length ds)) = nat precision - length ds" by simp
  show ?thesis
    unfolding print_number_def padded_def Let_def sign_choice left_clears sign_clears prod.case l m z t put_text_append
    by (cases "has LEFT ty"; cases "has ZEROPAD ty"; simp add: case_prod_beta)
qed

lemma padded_agrees:
  assumes "length sign \<le> 1"
  shows "agree e (padded e ty (w - int (length body)) sign body p)
    (put_text e
      (let pad = nat w - length sign - length body in
       if has LEFT ty then sign @ body @ replicate pad (CHR '' '')
       else if has ZEROPAD ty then sign @ replicate pad (CHR ''0'') @ body
       else replicate pad (CHR '' '') @ sign @ body) p)"
proof -
  let ?L = "length body" and ?n = "nat w - length sign - length body"
  have n: "nat (w - int ?L) = nat w - ?L" "nat (w - int ?L - 1) = nat w - Suc ?L" by auto
  have neg: "nat (if z > 0 then -1 else z - 1) = 0" "nat ((if z > 0 then -1 else z - 1) - 1) = 0" for z :: int by auto
  show ?thesis
  proof (cases sign)
    case Nil
    then show ?thesis
      using n neg by (cases "has LEFT ty"; cases "has ZEROPAD ty"; simp add: padded_def pad_loop_def put_text_append)
  next
    case (Cons x xs)
    then have sign: "sign = [x]" using assms by simp
    have b: "nat (if w - int ?L > 0 then w - int ?L - 1 else w - int ?L) = nat w - Suc ?L" by auto
    let ?p = "if has LEFT ty \<or> has ZEROPAD ty then p else put_text e (replicate (nat w - Suc ?L) (CHR '' '')) p"
    show ?thesis
    proof (cases "fst ?p \<le> e")
      case True
      then show ?thesis
        using n neg b
        by (cases "has LEFT ty"; cases "has ZEROPAD ty"; simp add: padded_def pad_loop_def put_text_append sign)
    next
      case False
      then show ?thesis
        using b
        by (cases "has LEFT ty"; cases "has ZEROPAD ty";
            simp add: padded_def pad_loop_def put_text_append sign agree_def put_text_past put_char_def case_prod_beta)
    qed
  qed
qed

lemma number_agrees:
  "agree e (print_number e n base w precision ty p) (put_text e (number_text n base w precision ty) p)"
proof -
  let ?ds = "num_text (digit_chars (has LARGE ty)) (real_base base) (magnitude ty n)"
  let ?body = "replicate (nat precision - length ?ds) (CHR ''0'') @ ?ds"
  have "max precision (int (length ?ds)) = int (length ?body)" by simp
  moreover have "length (sign_text ty n) \<le> 1" by (simp add: sign_text_def)
  ultimately show ?thesis
    unfolding print_number_padded number_text_def Let_def
    using padded_agrees [of "sign_text ty n" e ty w ?body p] by (simp only: Let_def)
qed

section \<open>Formats\<close>

definition char_text :: "u8 \<Rightarrow> int \<Rightarrow> u32 \<Rightarrow> string" where
  "char_text flags width n =
    (let c = char_of (unat n); pad = replicate (nat width - 1) (CHR '' '') in if has LEFT flags then c # pad else pad @ [c])"

definition string_text :: "u8 \<Rightarrow> int \<Rightarrow> int \<Rightarrow> string \<Rightarrow> string" where
  "string_text flags width precision s =
    (let t = take (if 0 < precision \<and> precision < int (rt_strlen s) then nat precision else rt_strlen s) s;
         pad = replicate (nat width - length t) (CHR '' '')
     in if has LEFT flags then t @ pad else pad @ t)"

definition convert_text :: "conv \<Rightarrow> arg list \<Rightarrow> (arg list \<times> string) option" where
  "convert_text cv args =
    (if c_letter cv = CHR ''c''
     then map_option (\<lambda>(n, args). (args, char_text (c_flags cv) (c_width cv) n)) (int_arg args)
     else if c_letter cv = CHR ''s''
     then map_option (\<lambda>(s, args). (args, string_text (c_flags cv) (c_width cv) (c_precision cv) s)) (str_arg args)
     else if c_letter cv = CHR ''p''
     then map_option
       (\<lambda>(n, args). (args,
          if c_width cv = -1 then number_text n 16 8 (c_precision cv) (c_flags cv OR ZEROPAD)
          else number_text n 16 (c_width cv) (c_precision cv) (c_flags cv)))
       (int_arg args)
     else if c_letter cv = CHR ''%'' then Some (args, ''%'')
     else if number_letter (c_letter cv)
     then let flags = number_flags (c_letter cv) (c_flags cv) in
       map_option
         (\<lambda>(n, args). (args, number_text (number_arg (c_qualifier cv) flags n) (number_base (c_letter cv))
            (c_width cv) (c_precision cv) flags))
         (int_arg args)
     else Some (args, if c_letter cv \<noteq> NUL then [CHR ''%'', c_letter cv] else ''%''))"

text \<open>The text that the code makes of a format and its arguments.\<close>

function format_text :: "string \<Rightarrow> arg list \<Rightarrow> string option" where
  "format_text fmt args =
    (if deref fmt = NUL then Some []
     else if deref fmt \<noteq> CHR ''%'' then map_option (\<lambda>t. deref fmt # t) (format_text (tl fmt) args)
     else case parse_conversion (tl fmt) args of
       None \<Rightarrow> None
     | Some (cv, fmt', args') \<Rightarrow>
        (case convert_text cv args' of
           None \<Rightarrow> None
         | Some (args'', t) \<Rightarrow> map_option (\<lambda>u. t @ u) (format_text fmt' args'')))"
  by pat_completeness auto
termination
proof (relation "measure (\<lambda>(fmt, _). length fmt)")
  fix fmt args
  assume "deref fmt \<noteq> NUL"
  then show "((tl fmt, args), fmt, args) \<in> measure (\<lambda>(fmt, _). length fmt)"
    by (cases fmt) auto
next
  fix fmt args x cv y fmt' args' z args'' t
  assume "deref fmt \<noteq> NUL" "parse_conversion (tl fmt) args = Some x" "(cv, y) = x" "(fmt', args') = y"
  then show "((fmt', args''), fmt, args) \<in> measure (\<lambda>(fmt, _). length fmt)"
    using parse_conversion_length [of "tl fmt" args cv fmt' args'] by (cases fmt) auto
qed auto

declare format_text.simps [simp del]

lemma print_char_text: "print_char e flags width n p = put_text e (char_text flags width n) p"
proof -
  have n: "nat (width - 1) = nat width - 1" by simp
  show ?thesis
    by (cases "has LEFT flags") (simp_all add: print_char_def char_text_def Let_def put_text_append n)
qed

lemma strlen_le: "rt_strlen s \<le> length s"
proof (induction s rule: rt_strlen.induct)
  case (1 s)
  then show ?case by (cases s) auto
qed

lemma print_string_text: "print_string e flags width precision s p = put_text e (string_text flags width precision s) p"
proof -
  define l where "l = (if 0 < precision \<and> precision < int (rt_strlen s) then nat precision else rt_strlen s)"
  have il: "(if precision > 0 \<and> int (rt_strlen s) > precision then precision else int (rt_strlen s)) = int l"
    by (simp add: l_def)
  have le: "l \<le> length s" using strlen_le [of s] by (auto simp: l_def)
  have n: "nat (width - int l) = nat width - l" "nat (int l - 1 - int l) = 0" by auto
  have z: "nat (width - 1 - int l) = 0" if "\<not> int l < width" using that by simp
  show ?thesis
    unfolding print_string_def string_text_def il l_def [symmetric] Let_def
    using le n z by (cases "has LEFT flags"; cases "int l < width"; simp add: put_text_append)
qed

lemma convert_agrees:
  "case convert e cv args p of
     None \<Rightarrow> convert_text cv args = None
   | Some (args', q) \<Rightarrow> \<exists>t. convert_text cv args = Some (args', t) \<and> agree e q (put_text e t p)"
proof -
  have "put_char e c p = put_text e [c] p" for c by simp
  moreover have "put_char e d (put_char e c p) = put_text e [c, d] p" for c d by simp
  ultimately show ?thesis
    unfolding convert_def convert_text_def Let_def
    by (auto simp: print_char_text print_string_text number_agrees split: option.splits)
qed

lemma print_loop_agrees:
  "agree e p (put_text e t p0) \<Longrightarrow>
   case print_loop e fmt args p of
     None \<Rightarrow> format_text fmt args = None
   | Some q \<Rightarrow> \<exists>u. format_text fmt args = Some u \<and> agree e q (put_text e (t @ u) p0)"
proof (induction e fmt args p arbitrary: t rule: print_loop.induct)
  case (1 e fmt args p)
  consider (nul) "deref fmt = NUL" | (plain) "deref fmt \<noteq> NUL" "deref fmt \<noteq> CHR ''%''" | (conv) "deref fmt = CHR ''%''"
    by blast
  then show ?case
  proof cases
    case nul
    then show ?thesis using 1(3) by (simp add: print_loop.simps [of e fmt] format_text.simps [of fmt])
  next
    case plain
    have "agree e (put_char e (deref fmt) p) (put_text e (t @ [deref fmt]) p0)"
      using agree_put_text [OF 1(3), of "[deref fmt]"] by (simp add: put_text_append)
    from 1(1) [OF plain this] show ?thesis
      using plain by (auto simp: print_loop.simps [of e fmt] format_text.simps [of fmt] split: option.splits)
  next
    case conv
    show ?thesis
    proof (cases "parse_conversion (tl fmt) args")
      case None
      then show ?thesis using conv by (simp add: print_loop.simps [of e fmt] format_text.simps [of fmt])
    next
      case (Some x)
      obtain cv fmt' args' where x: "x = (cv, fmt', args')" by (cases x)
      show ?thesis
      proof (cases "convert e cv args' p")
        case None
        then have "convert_text cv args' = None" using convert_agrees [where e = e and cv = cv and args = args' and p = p] by simp
        then show ?thesis using conv Some x None by (simp add: print_loop.simps [of e fmt] format_text.simps [of fmt])
      next
        case (Some y)
        obtain args'' q where y: "y = (args'', q)" by (cases y)
        obtain v where v: "convert_text cv args' = Some (args'', v)" "agree e q (put_text e v p)"
          using convert_agrees [where e = e and cv = cv and args = args' and p = p] Some y by auto
        have "agree e q (put_text e (t @ v) p0)"
          using agree_trans [OF v(2) agree_put_text [OF 1(3)]] by (simp add: put_text_append)
        from 1(2) [OF _ _ \<open>parse_conversion (tl fmt) args = Some x\<close> x [symmetric] refl Some y [symmetric] this]
        show ?thesis
          using conv \<open>parse_conversion (tl fmt) args = Some x\<close> x Some y v(1)
          by (auto simp: print_loop.simps [of e fmt] format_text.simps [of fmt] split: option.splits)
      qed
    qed
  qed
qed

lemma plain_text: "\<forall>c\<in>set s. c \<noteq> NUL \<and> c \<noteq> CHR ''%'' \<Longrightarrow> format_text s args = Some s"
proof (induction s)
  case Nil
  show ?case by (simp add: format_text.simps [of "[]"])
next
  case (Cons c s)
  then show ?case by (simp add: format_text.simps [of "c # s"])
qed

section \<open>The text in the buffer\<close>

lemma text_end_room: "0 < sz \<Longrightarrow> buf + sz \<le> 2 ^ 32 \<Longrightarrow> text_end buf sz = buf + sz - 1"
proof -
  assume s: "0 < sz" "buf + sz \<le> 2 ^ 32"
  have "buf + sz + 2 ^ 32 - 1 = (buf + sz - 1) + 2 ^ 32" using s by simp
  moreover have "buf + sz - 1 < 2 ^ 32" using s by simp
  ultimately have "(buf + sz + 2 ^ 32 - 1) mod 2 ^ 32 = buf + sz - 1" by (simp only: mod_add_self2 mod_less)
  then show ?thesis using s(1) by (simp add: text_end_def Let_def)
qed

lemma text_end_zero: "0 < buf \<Longrightarrow> buf < 2 ^ 32 \<Longrightarrow> text_end buf 0 = 2 ^ 32 - 1"
proof -
  assume b: "0 < buf" "buf < 2 ^ 32"
  have "buf + 0 + 2 ^ 32 - 1 = (buf - 1) + 2 ^ 32" using b by simp
  moreover have "buf - 1 < 2 ^ 32" using b by simp
  ultimately have "(buf + 0 + 2 ^ 32 - 1) mod 2 ^ 32 = buf - 1" by (simp only: mod_add_self2 mod_less)
  then show ?thesis using b by (simp add: text_end_def Let_def)
qed

text \<open>What any end of the buffer does to the text.\<close>

lemma vsnprintf_result:
  assumes e: "text_end buf sz = e" "buf \<le> e"
  shows "case rt_vsnprintf buf sz fmt args m of
      None \<Rightarrow> format_text fmt args = None
    | Some (n, m') \<Rightarrow> \<exists>t. format_text fmt args = Some t \<and>
        (let k = min (length t) (e - buf) in
         m' = (snd (put_text e t (buf, m)))(buf + k := NUL) \<and> (\<forall>i<k. m' (buf + i) = t ! i) \<and>
         (\<forall>a. a < buf \<or> e < a \<longrightarrow> m' a = m a) \<and> (length t \<le> e - buf \<longrightarrow> n = length t) \<and> (e - buf < length t \<longrightarrow> e - buf < n))"
proof (cases "print_loop e fmt args (buf, m)")
  case None
  then show ?thesis
    using print_loop_agrees [of e "(buf, m)" "[]" "(buf, m)" fmt args] by (simp add: rt_vsnprintf_def Let_def e(1))
next
  case (Some q)
  then obtain t where t: "format_text fmt args = Some t" "agree e q (put_text e t (buf, m))"
    using print_loop_agrees [of e "(buf, m)" "[]" "(buf, m)" fmt args] by auto
  let ?k = "min (length t) (e - buf)" and ?m = "snd (put_text e t (buf, m))"
  obtain str m1 where q: "q = (str, m1)" by (cases q)
  have m1: "m1 = ?m" using t(2) q by (cases "put_text e t (buf, m)") (auto simp: agree_def)
  have "fst (put_text e t (buf, m)) = buf + length t" by simp
  then have st: "length t \<le> e - buf \<Longrightarrow> str = buf + length t" "e - buf < length t \<Longrightarrow> e < str"
    using t(2) e(2) q by (cases "put_text e t (buf, m)"; auto simp: agree_def)+
  have m': "(if str \<le> e then m1(str := NUL) else m1(e := NUL)) = ?m(buf + ?k := NUL)"
    using st e(2) m1 by (cases "length t \<le> e - buf") (auto simp: min_def)
  have r: "rt_vsnprintf buf sz fmt args m = Some (str - buf, ?m(buf + ?k := NUL))"
    using Some by (simp add: rt_vsnprintf_def Let_def e(1) q m' split del: if_split)
  have "\<forall>i<?k. (?m(buf + ?k := NUL)) (buf + i) = t ! i" by (auto simp: put_text_snd)
  moreover have "\<forall>a. a < buf \<or> e < a \<longrightarrow> (?m(buf + ?k := NUL)) a = m a" using e(2) by (auto simp: put_text_snd)
  moreover have "length t \<le> e - buf \<longrightarrow> str - buf = length t" "e - buf < length t \<longrightarrow> e - buf < str - buf"
    using st diff_less_mono [OF _ e(2), of str] by auto
  ultimately show ?thesis unfolding r t(1) by (simp add: Let_def)
qed

text \<open>A buffer with room, inside the address space.\<close>

lemma stored_text:
  assumes "0 < sz" "buf + sz \<le> 2 ^ 32"
  shows "case rt_vsnprintf buf sz fmt args m of
      None \<Rightarrow> format_text fmt args = None
    | Some (n, m') \<Rightarrow> \<exists>t. format_text fmt args = Some t \<and>
        (\<forall>i<min (length t) (sz - 1). m' (buf + i) = t ! i) \<and> m' (buf + min (length t) (sz - 1)) = NUL \<and>
        (\<forall>a. a < buf \<or> buf + sz \<le> a \<longrightarrow> m' a = m a) \<and>
        (length t < sz \<longrightarrow> n = length t) \<and> (sz \<le> length t \<longrightarrow> sz \<le> n)"
proof -
  have e: "text_end buf sz = buf + sz - 1" "buf \<le> buf + sz - 1" "buf + sz - 1 - buf = sz - 1"
    using text_end_room [OF assms] assms(1) by auto
  show ?thesis
    using vsnprintf_result [OF e(1,2), of fmt args m] assms(1) unfolding e(3) Let_def
    by (auto split: option.splits)
qed

text \<open>
  With a size of 0 the end wraps to the end of the address space: the whole text is stored,
  with its final zero, over whatever lies behind \<open>buf\<close>.
\<close>

theorem size_zero_unbounded:
  assumes "0 < buf" "format_text fmt args = Some t" "buf + length t < 2 ^ 32"
  shows "\<exists>m'. rt_vsnprintf buf 0 fmt args m = Some (length t, m') \<and> (\<forall>i<length t. m' (buf + i) = t ! i) \<and>
    m' (buf + length t) = NUL"
proof -
  have e: "text_end buf 0 = 2 ^ 32 - 1" "buf \<le> 2 ^ 32 - 1" "length t \<le> 2 ^ 32 - 1 - buf"
    using text_end_zero [OF assms(1)] assms(3) by auto
  have k: "min (length t) (2 ^ 32 - 1 - buf) = length t" using e(3) by (rule min_absorb1)
  show ?thesis
    using vsnprintf_result [OF e(1,2), of fmt args m] e(3) unfolding assms(2) Let_def
    by (auto simp: k simp del: min_less_iff_conj split: option.splits)
qed

theorem size_zero_unbounded_witness:
  "\<exists>m'. rt_vsnprintf 1000 0 ''abc'' [] (\<lambda>_. CHR ''?'') = Some (3, m') \<and> m' 1002 = CHR ''c'' \<and> m' 1003 = NUL"
proof -
  have t: "format_text ''abc'' [] = Some ''abc''" by (rule plain_text) simp
  obtain m' where r: "rt_vsnprintf 1000 0 ''abc'' [] (\<lambda>_. CHR ''?'') = Some (length ''abc'', m')"
    "\<forall>i<length ''abc''. m' (1000 + i) = ''abc'' ! i" "m' (1000 + length ''abc'') = NUL"
    using size_zero_unbounded [OF _ t, of 1000 "\<lambda>_. CHR ''?''"] by auto
  then show ?thesis using r(2) [rule_format, of 2] by (intro exI [of _ m']) simp
qed

lemma diff_128: "128 - 1 = (127 :: nat)"
  by simp

text \<open>
  What \<^verbatim>\<open>rt_kprintf\<close> sends to the console: the text when it has at most 126 characters;
  of a longer text the first 126 and the zero behind them.
\<close>

theorem kprintf_sends:
  assumes "log_buf + 128 \<le> 2 ^ 32" "format_text fmt args = Some t"
  shows "\<exists>m'. rt_kprintf log_buf fmt args m = Some (if length t \<le> 126 then t else take 126 t @ [NUL], m')"
proof -
  have b: "0 < RT_CONSOLEBUF_SIZE - 1" "log_buf + (RT_CONSOLEBUF_SIZE - 1) \<le> 2 ^ 32"
    using assms(1) by (simp_all add: RT_CONSOLEBUF_SIZE_def)
  obtain n m' where r: "rt_vsnprintf log_buf 127 fmt args m = Some (n, m')" "\<forall>i<min (length t) 126. m' (log_buf + i) = t ! i"
    "m' (log_buf + min (length t) 126) = NUL" "length t < 127 \<longrightarrow> n = length t" "127 \<le> length t \<longrightarrow> 127 \<le> n"
    using stored_text [OF b, of fmt args m] assms(2) by (auto simp: RT_CONSOLEBUF_SIZE_def split: option.splits)
  let ?out = "\<lambda>k. map (\<lambda>i. m' (log_buf + i)) [0..<k]"
  have out: "?out (if n > 127 then 127 else n) = (if length t \<le> 126 then t else take 126 t @ [NUL])"
  proof (cases "length t \<le> 126")
    case True
    then have "n = length t" using r(4) by simp
    then show ?thesis using True r(2) by (auto intro: nth_equalityI)
  next
    case False
    then have k: "(if n > 127 then 127 else n) = Suc 126" using r(5) by auto
    have "?out 126 = take 126 t" using False r(2) by (intro nth_equalityI) auto
    then show ?thesis using False r(3) unfolding k upt_Suc by (simp del: upt_Suc)
  qed
  show ?thesis
    by (rule exI [of _ m']) (simp only: rt_kprintf_def RT_CONSOLEBUF_SIZE_def diff_128 r(1) option.map prod.case out)
qed

theorem kprintf_sends_witness:
  "\<exists>m'. rt_kprintf 1000 (replicate 130 (CHR ''a'')) [] (\<lambda>_. NUL) = Some (replicate 126 (CHR ''a'') @ [NUL], m')"
proof -
  have t: "format_text (replicate 130 (CHR ''a'')) [] = Some (replicate 130 (CHR ''a''))" by (rule plain_text) simp
  show ?thesis using kprintf_sends [OF _ t, of 1000 "\<lambda>_. NUL"] by (simp add: min_def)
qed

section \<open>Numbers read back\<close>

lemma wrap32_step: "wrap32 (wrap32 a * 10 + b) = wrap32 (a * 10 + b)"
proof -
  have "wrap32 a mod 2 ^ 32 = a mod 2 ^ 32" by (simp add: wrap32_def mod_diff_left_eq)
  then have "(wrap32 a * 10 + b + 2 ^ 31) mod 2 ^ 32 = (a * 10 + b + 2 ^ 31) mod 2 ^ 32" by (metis mod_add_cong mod_mult_cong)
  then show ?thesis by (simp add: wrap32_def)
qed

lemma digit_char:
  assumes "d < 10"
  shows "is_digit (digit_chars large ! d)" "(of_char (digit_chars large ! d) :: int) = 48 + int d"
proof -
  have "d \<in> {0, 1, 2, 3, 4, 5, 6, 7, 8, 9}" using assms by auto
  then show "is_digit (digit_chars large ! d)" "(of_char (digit_chars large ! d) :: int) = 48 + int d"
    by (auto simp: digit_chars_def is_digit_def)
qed

lemma atoi_append: "\<forall>c\<in>set s. is_digit c \<Longrightarrow> atoi_from i (s @ t) = atoi_from (fst (atoi_from i s)) t"
  by (induction i s rule: atoi_from.induct) auto

lemma num_text_digits: "\<forall>c\<in>set (num_text (digit_chars large) 10 n). is_digit c"
proof (induction n rule: less_induct)
  case (less n)
  show ?case
  proof (cases "n < 10")
    case True
    then show ?thesis using digit_char [of n large] by (simp add: num_text.simps [of _ 10 n])
  next
    case False
    then show ?thesis
      using less.IH [of "n div 10"] digit_char [of "n mod 10" large] by (simp add: num_text.simps [of _ 10 n])
  qed
qed

lemma atoi_num_text: "atoi_from 0 (num_text (digit_chars large) 10 n) = (wrap32 (int n), [])"
proof (induction n rule: less_induct)
  case (less n)
  have last: "atoi_from i [digit_chars large ! d] = (wrap32 (i * 10 + int d), [])" if "d < 10" for i d
    using digit_char [OF that, of large] by simp
  show ?case
  proof (cases "n < 10")
    case True
    then show ?thesis using last [of n 0] by (simp add: num_text.simps [of _ 10 n])
  next
    case False
    then have t: "num_text (digit_chars large) 10 n = num_text (digit_chars large) 10 (n div 10) @ [digit_chars large ! (n mod 10)]"
      by (simp add: num_text.simps [of _ 10 n])
    have ih: "atoi_from 0 (num_text (digit_chars large) 10 (n div 10)) = (wrap32 (int (n div 10)), [])"
      using False by (intro less.IH) simp
    have n: "int (n div 10) * 10 + int (n mod 10) = int n" by presburger
    have "atoi_from 0 (num_text (digit_chars large) 10 n) = atoi_from (wrap32 (int (n div 10))) [digit_chars large ! (n mod 10)]"
      unfolding t atoi_append [OF num_text_digits] ih by simp
    also have "\<dots> = (wrap32 (int n), [])"
      using last [of "n mod 10" "wrap32 (int (n div 10))"] by (simp only: wrap32_step n mod_less_divisor zero_less_numeral)
    finally show ?thesis .
  qed
qed

lemma letter_conversion:
  assumes "c = CHR ''d'' \<or> c = CHR ''x'' \<or> c = CHR ''o''"
  shows "parse_conversion [c] args =
    Some (\<lparr>c_letter = c, c_flags = 0, c_width = -1, c_precision = -1, c_qualifier = NUL\<rparr>, [], args)"
proof -
  have "parse_flags 0 [c] = (0, [c])" using assms by auto
  moreover have "parse_width 0 [c] args = Some (-1, 0, [c], args)" using assms by (auto simp: parse_width_def is_digit_def)
  moreover have "parse_precision [c] args = Some (-1, [c], args)" using assms by (auto simp: parse_precision_def)
  moreover have "parse_qualifier [c] = (NUL, [c])" using assms by (auto simp: parse_qualifier_def)
  moreover have "deref [c] \<noteq> NUL" using assms by auto
  ultimately show ?thesis by (simp add: parse_conversion_def)
qed

lemma number_convert:
  assumes "c = CHR ''d'' \<or> c = CHR ''x'' \<or> c = CHR ''o''"
  shows "convert_text \<lparr>c_letter = c, c_flags = 0, c_width = -1, c_precision = -1, c_qualifier = NUL\<rparr> args =
      map_option (\<lambda>(n, args). (args, number_text n (number_base c) (-1) (-1) (number_flags c 0))) (int_arg args)"
    "convert e \<lparr>c_letter = c, c_flags = 0, c_width = -1, c_precision = -1, c_qualifier = NUL\<rparr> args p =
      map_option (\<lambda>(n, args). (args, print_number e n (number_base c) (-1) (-1) (number_flags c 0) p)) (int_arg args)"
  using assms by (auto simp: convert_text_def convert_def Let_def number_letter_def number_arg_def)

lemma number_format:
  assumes "c = CHR ''d'' \<or> c = CHR ''x'' \<or> c = CHR ''o''"
  shows "format_text [CHR ''%'', c] args = map_option (\<lambda>(n, _). number_text n (number_base c) (-1) (-1) (number_flags c 0)) (int_arg args)"
  using letter_conversion [OF assms, of args] number_convert(1) [OF assms, of args]
  by (cases "int_arg args") (auto simp: format_text.simps [of "[CHR ''%'', c]"] format_text.simps [of "[]"])

lemma number_loop:
  assumes "c = CHR ''d'' \<or> c = CHR ''x'' \<or> c = CHR ''o''"
  shows "print_loop e [CHR ''%'', c] args p =
    map_option (\<lambda>(n, _). print_number e n (number_base c) (-1) (-1) (number_flags c 0) p) (int_arg args)"
  using letter_conversion [OF assms, of args] number_convert(2) [OF assms, of e args p]
  by (cases "int_arg args") (auto simp: print_loop.simps [of e "[CHR ''%'', c]"] print_loop.simps [of e "[]"])

lemma digit_loop_octal: "digit_loop ds 8 n = digit_loop ds 16 n"
proof (induction ds "8 :: nat" n rule: digit_loop.induct)
  case (1 ds n)
  then show ?case by (subst (1 2) digit_loop.simps) (simp add: divide_def)
qed

lemma wrap32_signed: "wrap32 i = signed_take_bit 31 i"
  by (simp add: wrap32_def signed_take_bit_eq_take_bit_shift take_bit_eq_mod)

lemma signed_read: "wrap32 (if neg then - wrap32 (uint (- n)) else wrap32 (uint n)) = sint (n :: u32)"
proof -
  have "wrap32 (- wrap32 (uint (- n))) = signed_take_bit 31 (- uint (- n))"
    unfolding wrap32_signed by (rule signed_take_bit_minus)
  also have "\<dots> = sint n" using sint_sbintrunc' [where 'a = 32 and bin = "- uint (- n)"] by simp
  finally show ?thesis by (simp add: wrap32_signed sint_uint)
qed

lemma plain_decimal:
  "number_text n 10 (-1) (-1) SIGN =
    sign_text SIGN n @ num_text (digit_chars False) 10 (magnitude SIGN n)"
  by (simp add: number_text_def Let_def has_def real_base_def)

text \<open>
  \<^verbatim>\<open>%d\<close> of any number is a sign for a negative number and digits that
  \<^verbatim>\<open>skip_atoi\<close> reads back to the number, all of them.
\<close>

theorem decimal_reads_back:
  "\<exists>sign ds x. format_text ''%d'' [IntArg n] = Some (sign @ ds) \<and> sign = (if sint n < 0 then ''-'' else []) \<and>
     skip_atoi ds = (x, []) \<and> wrap32 (if sint n < 0 then - x else x) = sint n"
proof -
  let ?ds = "num_text (digit_chars False) 10 (magnitude SIGN n)"
  have t: "format_text ''%d'' [IntArg n] = Some (sign_text SIGN n @ ?ds)"
    by (simp add: number_format number_base_def number_flags_def plain_decimal)
  have s: "sign_text SIGN n = (if sint n < 0 then ''-'' else [])" by (simp add: sign_text_def has_def)
  have r: "skip_atoi ?ds = (wrap32 (int (magnitude SIGN n)), [])" by (simp add: skip_atoi_def atoi_num_text)
  have v: "wrap32 (if sint n < 0 then - wrap32 (int (magnitude SIGN n)) else wrap32 (int (magnitude SIGN n))) = sint n"
    using signed_read [of True n] signed_read [of False n] by (simp add: magnitude_def has_def)
  show ?thesis using t s r v by blast
qed

text \<open>
  \<^verbatim>\<open>%o\<close> prints hexadecimal: whatever the buffer and the argument,
  it does what \<^verbatim>\<open>%x\<close> does.
\<close>

theorem octal_prints_hex:
  "rt_vsnprintf buf sz ''%o'' args m = rt_vsnprintf buf sz ''%x'' args m"
proof -
  have "print_number e n 8 w q f p = print_number e n 16 w q f p" for e n w q f p
    unfolding print_number_def digit_loop_octal ..
  then show ?thesis by (simp add: rt_vsnprintf_def number_loop number_base_def number_flags_def)
qed

end
