(* ===== verification/FormatSpec.thy ===== *)
theory FormatSpec
  imports FormatText
begin

unbundle bit_operations_syntax

text \<open>
  What the formats of \<^verbatim>\<open>rt_vsnprintf\<close> stand for, without its parser: a format is a list of
  pieces, written out as the caller writes it, and a piece with its arguments stands for a text, by
  the value of its number. That the code stores this text holds for \<^verbatim>\<open>%c\<close>,
  \<^verbatim>\<open>%s\<close>, \<^verbatim>\<open>%p\<close>, \<^verbatim>\<open>%d\<close>, \<^verbatim>\<open>%i\<close>,
  \<^verbatim>\<open>%u\<close>, \<^verbatim>\<open>%x\<close> and \<^verbatim>\<open>%X\<close>; \<^verbatim>\<open>%o\<close>
  prints hexadecimal instead (theory FormatText).
\<close>

section \<open>Pieces of a format\<close>

text \<open>A width or precision: none, a number, or the next argument.\<close>

datatype amount = Absent | Given nat | FromArg

text \<open>Flags, width, precision behind a point, qualifier and letter of a conversion.\<close>

datatype piece = Lit char | Percent | Conv "char list" amount "amount option" "char option" char

fun amount_text :: "amount \<Rightarrow> string" where
  "amount_text Absent = []"
| "amount_text (Given n) = num_text (digit_chars False) 10 n"
| "amount_text FromArg = ''*''"

fun precision_text :: "amount option \<Rightarrow> string" where
  "precision_text None = []"
| "precision_text (Some a) = CHR ''.'' # amount_text a"

fun qualifier_text :: "char option \<Rightarrow> string" where
  "qualifier_text None = []"
| "qualifier_text (Some c) = [c]"

fun piece_text :: "piece \<Rightarrow> string" where
  "piece_text (Lit c) = [c]"
| "piece_text Percent = ''%%''"
| "piece_text (Conv fs w p q c) = CHR ''%'' # fs @ amount_text w @ precision_text p @ qualifier_text q @ [c]"

fun wf_piece :: "piece \<Rightarrow> bool" where
  "wf_piece (Lit c) \<longleftrightarrow> c \<noteq> NUL \<and> c \<noteq> CHR ''%''"
| "wf_piece Percent \<longleftrightarrow> True"
| "wf_piece (Conv fs w p q c) \<longleftrightarrow>
    set fs \<subseteq> set ''-+ #0'' \<and> (case w of Given n \<Rightarrow> 0 < n \<and> n < 2 ^ 31 | _ \<Rightarrow> True) \<and>
    (case p of Some (Given n) \<Rightarrow> n < 2 ^ 31 | _ \<Rightarrow> True) \<and>
    (case q of None \<Rightarrow> True | Some x \<Rightarrow> x \<in> set ''hl'') \<and> c \<in> set ''cspdiuxX''"

section \<open>Their meaning\<close>

text \<open>A field: the sign and the body, filled up with blanks at the right or at the left, or with zeros behind the sign.\<close>

definition field :: "bool \<Rightarrow> bool \<Rightarrow> nat \<Rightarrow> string \<Rightarrow> string \<Rightarrow> string" where
  "field left zero width sign body =
    (let pad = width - length sign - length body
     in if left then sign @ body @ replicate pad (CHR '' '')
        else if zero then sign @ replicate pad (CHR ''0'') @ body else replicate pad (CHR '' '') @ sign @ body)"

text \<open>The numeral of a number with at least \<open>prec\<close> digits.\<close>

definition digits_text :: "bool \<Rightarrow> nat \<Rightarrow> nat \<Rightarrow> nat \<Rightarrow> string" where
  "digits_text upper base prec n =
    (let ds = num_text (digit_chars upper) base n in replicate (prec - length ds) (CHR ''0'') @ ds)"

text \<open>
  The text of one argument. \<open>w\<close> is the width, if there is one, already positive; a precision of 0
  is none. A short number is cut to 16 bits.
\<close>

definition value_text :: "char list \<Rightarrow> bool \<Rightarrow> nat option \<Rightarrow> nat \<Rightarrow> bool \<Rightarrow> char \<Rightarrow> arg \<Rightarrow> string option" where
  "value_text fs left w prec short c a =
    (let width = (case w of None \<Rightarrow> 0 | Some n \<Rightarrow> n); zero = (CHR ''0'' \<in> set fs) in
     case a of
       StrArg s \<Rightarrow>
         if c = CHR ''s''
         then let t = takeWhile (\<lambda>x. x \<noteq> NUL) (case s of None \<Rightarrow> ''(NULL)'' | Some t \<Rightarrow> t)
              in Some (field left False width [] (if prec = 0 then t else take prec t))
         else None
     | IntArg n \<Rightarrow>
         if c = CHR ''c'' then Some (field left False width [] [char_of (unat n)])
         else if c = CHR ''p''
         then Some (field left (zero \<or> w = None) (if w = None then 8 else width) [] (digits_text False 16 prec (unat n)))
         else if c = CHR ''d'' \<or> c = CHR ''i''
         then let v = (if short then sint (ucast n :: 16 word) else sint n);
                  sign = (if v < 0 then ''-'' else if CHR ''+'' \<in> set fs then ''+'' else if CHR '' '' \<in> set fs then '' '' else [])
              in Some (field left zero width sign (digits_text False 10 prec (nat \<bar>v\<bar>)))
         else if c = CHR ''u'' \<or> c = CHR ''x'' \<or> c = CHR ''X''
         then Some (field left zero width []
                (digits_text (c = CHR ''X'') (if c = CHR ''u'' then 10 else 16) prec
                  (if short then unat (ucast n :: 16 word) else unat n)))
         else None)"

fun amount_value :: "amount \<Rightarrow> arg list \<Rightarrow> (int option \<times> arg list) option" where
  "amount_value Absent args = Some (None, args)"
| "amount_value (Given n) args = Some (Some (int n), args)"
| "amount_value FromArg (IntArg n # args) = Some (Some (sint n), args)"
| "amount_value FromArg _ = None"

text \<open>
  A negative width argument stands for the flag \<^verbatim>\<open>-\<close> and its absolute value, which the
  least integer does not have.
\<close>

fun piece_value :: "piece \<Rightarrow> arg list \<Rightarrow> (string \<times> arg list) option" where
  "piece_value (Lit c) args = Some ([c], args)"
| "piece_value Percent args = Some (''%'', args)"
| "piece_value (Conv fs w p q c) args =
    (case amount_value w args of
       None \<Rightarrow> None
     | Some (wv, args1) \<Rightarrow>
        (case amount_value (case p of None \<Rightarrow> Absent | Some a \<Rightarrow> a) args1 of
           None \<Rightarrow> None
         | Some (pv, args2) \<Rightarrow>
            (case args2 of
               [] \<Rightarrow> None
             | a # args3 \<Rightarrow>
                if wv = Some (- (2 ^ 31)) then None
                else map_option (\<lambda>t. (t, args3))
                  (value_text fs (CHR ''-'' \<in> set fs \<or> (\<exists>v\<in>set_option wv. v < 0)) (map_option (\<lambda>v. nat \<bar>v\<bar>) wv)
                    (case pv of None \<Rightarrow> 0 | Some v \<Rightarrow> nat v) (q = Some (CHR ''h'')) c a))))"

fun pieces_value :: "piece list \<Rightarrow> arg list \<Rightarrow> string option" where
  "pieces_value [] args = Some []"
| "pieces_value (p # ps) args =
    (case piece_value p args of
       None \<Rightarrow> None
     | Some (t, args1) \<Rightarrow> map_option (\<lambda>u. t @ u) (pieces_value ps args1))"

definition pieces_text :: "piece list \<Rightarrow> string" where
  "pieces_text ps = concat (map piece_text ps)"

section \<open>The parser reads what is written\<close>

lemma num_text_head: "0 < n \<Longrightarrow> hd (num_text (digit_chars False) 10 n) \<in> set ''123456789''"
proof (induction n rule: less_induct)
  case (less n)
  show ?case
  proof (cases "n < 10")
    case True
    then have "n \<in> {1, 2, 3, 4, 5, 6, 7, 8, 9}" using less.prems by auto
    then show ?thesis by (auto simp: num_text.simps [of _ 10 n] digit_chars_def)
  next
    case False
    then show ?thesis
      using less.IH [of "n div 10"] by (simp add: num_text.simps [of _ 10 n] num_text_nonempty)
  qed
qed

lemma atoi_amount:
  assumes "n < 2 ^ 31" "\<not> is_digit c"
  shows "skip_atoi (num_text (digit_chars False) 10 n @ c # s) = (int n, c # s)"
  using assms by (simp add: skip_atoi_def atoi_append num_text_digits atoi_num_text wrap32_id)

text \<open>What the flags set, and what they leave.\<close>

lemma parse_flags_read:
  assumes "set fs \<subseteq> set ''-+ #0''" "c \<notin> set ''-+ #0''"
  shows "\<exists>g. parse_flags f (fs @ c # s) = (g, c # s) \<and> (has LEFT g \<longleftrightarrow> has LEFT f \<or> CHR ''-'' \<in> set fs) \<and>
    (has PLUS g \<longleftrightarrow> has PLUS f \<or> CHR ''+'' \<in> set fs) \<and> (has SPACE g \<longleftrightarrow> has SPACE f \<or> CHR '' '' \<in> set fs) \<and>
    (has ZEROPAD g \<longleftrightarrow> has ZEROPAD f \<or> CHR ''0'' \<in> set fs) \<and> has SIGN g = has SIGN f \<and> has LARGE g = has LARGE f"
  using assms(1)
proof (induction fs arbitrary: f)
  case Nil
  then show ?case using assms(2) by simp
next
  case (Cons x xs)
  then have "x \<in> set ''-+ #0''" "set xs \<subseteq> set ''-+ #0''" by simp_all
  then show ?case
    using Cons.IH [of "f OR LEFT"] Cons.IH [of "f OR PLUS"] Cons.IH [of "f OR SPACE"] Cons.IH [of "f OR SPECIAL"]
      Cons.IH [of "f OR ZEROPAD"]
    by (auto simp: has_or)
qed

lemma signed_minus: "sint n \<noteq> - (2 ^ 31) \<Longrightarrow> sint (- n) = - sint n" for n :: u32
proof -
  assume n: "sint n \<noteq> - (2 ^ 31)"
  have "- (2 ^ 31) \<le> sint n" "sint n < 2 ^ 31" using sint_ge [of n] sint_lt [of n] by simp_all
  then have "wrap32 (- sint n) = - sint n" using n by (intro wrap32_id) simp_all
  moreover have "wrap32 (uint n) = sint n" by (simp add: wrap32_signed sint_uint)
  ultimately show ?thesis using signed_read [of True "- n"] by simp
qed

lemma amount_head: "(\<forall>n. w = Given n \<longrightarrow> 0 < n) \<Longrightarrow> c \<notin> set ''-+ #0'' \<Longrightarrow>
  \<exists>d t. amount_text w @ c # s = d # t \<and> d \<notin> set ''-+ #0''"
proof (cases w)
  case (Given n)
  assume "\<forall>n. w = Given n \<longrightarrow> 0 < n"
  then have "0 < n" using Given by simp
  from num_text_head [OF this] have "hd (num_text (digit_chars False) 10 n) \<in> set ''123456789''" .
  then show ?thesis
    using Given num_text_nonempty [of "digit_chars False" 10 n] by (cases "num_text (digit_chars False) 10 n") auto
qed auto

lemma parse_width_read:
  assumes w: "\<forall>n. w = Given n \<longrightarrow> n < 2 ^ 31" and c: "\<not> is_digit c" "c \<noteq> CHR ''*''"
    and v: "amount_value w args = Some (wv, args1)" "wv \<noteq> Some (- (2 ^ 31))"
  shows "parse_width f (amount_text w @ c # s) args =
    Some (case wv of None \<Rightarrow> -1 | Some v \<Rightarrow> \<bar>v\<bar>, if \<exists>v\<in>set_option wv. v < 0 then f OR LEFT else f, c # s, args1)"
proof (cases w)
  case Absent
  then show ?thesis using c v by (auto simp: parse_width_def)
next
  case (Given n)
  obtain d ds where d: "num_text (digit_chars False) 10 n = d # ds" "is_digit d"
    using num_text_nonempty [of "digit_chars False" 10 n] num_text_digits [of False n]
    by (cases "num_text (digit_chars False) 10 n") auto
  then show ?thesis
    using atoi_amount [of n c s] w c v Given by (auto simp: parse_width_def)
next
  case FromArg
  then obtain n where n: "args = IntArg n # args1" "wv = Some (sint n)" using v(1) by (cases args rule: int_arg.cases) auto
  have "\<not> is_digit (CHR ''*'')" by (simp add: is_digit_def)
  then show ?thesis using FromArg n v(2) signed_minus [of n] by (simp add: parse_width_def)
qed

lemma parse_precision_read:
  assumes p: "\<forall>n. p = Some (Given n) \<longrightarrow> n < 2 ^ 31" and c: "\<not> is_digit c" "c \<noteq> CHR ''*''" "c \<noteq> CHR ''.''"
    and v: "amount_value (case p of None \<Rightarrow> Absent | Some a \<Rightarrow> a) args = Some (pv, args1)"
  shows "\<exists>pr. parse_precision (precision_text p @ c # s) args = Some (pr, c # s, args1) \<and>
    nat pr = (case pv of None \<Rightarrow> 0 | Some v \<Rightarrow> nat v)"
proof (cases p)
  case None
  then show ?thesis using c v by (auto simp: parse_precision_def)
next
  case (Some a)
  show ?thesis
  proof (cases a)
    case Absent
    then show ?thesis using Some c v by (auto simp: parse_precision_def)
  next
    case (Given n)
    obtain d ds where d: "num_text (digit_chars False) 10 n = d # ds" "is_digit d"
      using num_text_nonempty [of "digit_chars False" 10 n] num_text_digits [of False n]
      by (cases "num_text (digit_chars False) 10 n") auto
    then show ?thesis
      using atoi_amount [of n c s] p c v Some Given by (auto simp: parse_precision_def)
  next
    case FromArg
    then obtain n where n: "args = IntArg n # args1" "pv = Some (sint n)"
      using v Some by (cases args rule: int_arg.cases) auto
    have "\<not> is_digit (CHR ''*'')" by (simp add: is_digit_def)
    then show ?thesis using Some FromArg n by (simp add: parse_precision_def)
  qed
qed

lemma parse_qualifier_read:
  "set_option q \<subseteq> set ''hl'' \<Longrightarrow> c \<notin> set ''hl'' \<Longrightarrow>
   parse_qualifier (qualifier_text q @ c # s) = (case q of None \<Rightarrow> NUL | Some x \<Rightarrow> x, c # s)"
  by (cases q) (auto simp: parse_qualifier_def)

text \<open>The heads of what may follow a number are no digits.\<close>

lemma tail_head:
  assumes "set_option q \<subseteq> set ''hl''" "c \<in> set ''cspdiuxX''"
  obtains d t where "qualifier_text q @ c # s = d # t" "\<not> is_digit d" "d \<noteq> CHR ''*''" "d \<noteq> CHR ''.''" "d \<notin> set ''-+ #0''"
  using assms by (cases q) (auto simp: is_digit_def)

lemma precision_head:
  assumes "set_option q \<subseteq> set ''hl''" "c \<in> set ''cspdiuxX''"
  obtains d t where "precision_text p @ qualifier_text q @ c # s = d # t" "\<not> is_digit d" "d \<noteq> CHR ''*''" "d \<notin> set ''-+ #0''"
proof (cases p)
  case None
  then show ?thesis using tail_head [OF assms, of s] that by (metis append_Nil precision_text.simps(1))
next
  case (Some a)
  have "\<not> is_digit (CHR ''.'')" by (simp add: is_digit_def)
  then show ?thesis using that Some by simp
qed

lemma parse_read:
  assumes wf: "wf_piece (Conv fs w p q c)" and v: "amount_value w args = Some (wv, args1)" "wv \<noteq> Some (- (2 ^ 31))"
      "amount_value (case p of None \<Rightarrow> Absent | Some a \<Rightarrow> a) args1 = Some (pv, args2)"
  shows "\<exists>cv. parse_conversion (tl (piece_text (Conv fs w p q c)) @ s) args = Some (cv, s, args2) \<and> c_letter cv = c \<and>
    c_qualifier cv = (case q of None \<Rightarrow> NUL | Some x \<Rightarrow> x) \<and> c_width cv = (case wv of None \<Rightarrow> -1 | Some v \<Rightarrow> \<bar>v\<bar>) \<and>
    nat (c_precision cv) = (case pv of None \<Rightarrow> 0 | Some v \<Rightarrow> nat v) \<and>
    (has LEFT (c_flags cv) \<longleftrightarrow> CHR ''-'' \<in> set fs \<or> (\<exists>v\<in>set_option wv. v < 0)) \<and>
    (has PLUS (c_flags cv) \<longleftrightarrow> CHR ''+'' \<in> set fs) \<and> (has SPACE (c_flags cv) \<longleftrightarrow> CHR '' '' \<in> set fs) \<and>
    (has ZEROPAD (c_flags cv) \<longleftrightarrow> CHR ''0'' \<in> set fs) \<and> \<not> has SIGN (c_flags cv) \<and> \<not> has LARGE (c_flags cv)"
proof -
  have f: "set fs \<subseteq> set ''-+ #0''" "\<forall>n. w = Given n \<longrightarrow> 0 < n" "\<forall>n. w = Given n \<longrightarrow> n < 2 ^ 31"
    "\<forall>n. p = Some (Given n) \<longrightarrow> n < 2 ^ 31" "set_option q \<subseteq> set ''hl''" "c \<in> set ''cspdiuxX''"
    using wf by (auto split: option.splits)
  obtain d t where d: "qualifier_text q @ c # s = d # t" "\<not> is_digit d" "d \<noteq> CHR ''*''" "d \<noteq> CHR ''.''"
    using tail_head [OF f(5,6)] by blast
  obtain d' t' where d': "precision_text p @ qualifier_text q @ c # s = d' # t'" "\<not> is_digit d'" "d' \<noteq> CHR ''*''"
    "d' \<notin> set ''-+ #0''"
    using precision_head [OF f(5,6)] by blast
  obtain e u where e: "amount_text w @ d' # t' = e # u" "e \<notin> set ''-+ #0''"
    using amount_head [OF f(2) d'(4)] by blast
  have z: "\<not> has x (0 :: u8)" for x by (simp add: has_def)
  obtain g where g: "parse_flags 0 (fs @ e # u) = (g, e # u)" "has LEFT g \<longleftrightarrow> CHR ''-'' \<in> set fs"
    "has PLUS g \<longleftrightarrow> CHR ''+'' \<in> set fs" "has SPACE g \<longleftrightarrow> CHR '' '' \<in> set fs" "has ZEROPAD g \<longleftrightarrow> CHR ''0'' \<in> set fs"
    "\<not> has SIGN g" "\<not> has LARGE g"
    using parse_flags_read [OF f(1) e(2), of 0 u] z by auto
  let ?g = "if \<exists>v\<in>set_option wv. v < 0 then g OR LEFT else g"
  have wr: "parse_width g (e # u) args = Some (case wv of None \<Rightarrow> -1 | Some v \<Rightarrow> \<bar>v\<bar>, ?g, d' # t', args1)"
    using parse_width_read [OF f(3) d'(2,3) v(1,2), of g t'] unfolding e(1) .
  obtain pr where pr: "parse_precision (d' # t') args1 = Some (pr, d # t, args2)"
    "nat pr = (case pv of None \<Rightarrow> 0 | Some v \<Rightarrow> nat v)"
    using parse_precision_read [OF f(4) d(2,3,4) v(3), of t] unfolding d(1) [symmetric] d'(1) by blast
  have c: "c \<notin> set ''hl''" "c \<noteq> NUL" using f(6) by auto
  have qr: "parse_qualifier (d # t) = (case q of None \<Rightarrow> NUL | Some x \<Rightarrow> x, c # s)"
    using parse_qualifier_read [OF f(5) c(1), of s] unfolding d(1) .
  have t: "tl (piece_text (Conv fs w p q c)) @ s = fs @ e # u"
    using d' e by simp
  have "parse_conversion (tl (piece_text (Conv fs w p q c)) @ s) args =
    Some (\<lparr>c_letter = c, c_flags = ?g, c_width = (case wv of None \<Rightarrow> -1 | Some v \<Rightarrow> \<bar>v\<bar>), c_precision = pr,
      c_qualifier = (case q of None \<Rightarrow> NUL | Some x \<Rightarrow> x)\<rparr>, s, args2)"
    unfolding t parse_conversion_def g(1) Let_def prod.case wr bind.bind_lunit using c(2) pr(1) qr by simp
  then show ?thesis using g pr(2) by (auto simp: has_or)
qed

section \<open>The code prints what the pieces stand for\<close>

lemma number_text_field:
  "number_text n base width precision ty =
    field (has LEFT ty) (has ZEROPAD ty) (nat width) (sign_text ty n)
      (digits_text (has LARGE ty) (real_base base) (nat precision) (magnitude ty n))"
  by (simp add: number_text_def field_def digits_text_def Let_def)

lemma string_text_field:
  assumes "\<not> has LEFT flags \<longleftrightarrow> \<not> left"
  shows "string_text flags width precision s =
    (let t = takeWhile (\<lambda>x. x \<noteq> NUL) s
     in field left False (nat width) [] (if nat precision = 0 then t else take (nat precision) t))"
proof -
  have len: "rt_strlen s = length (takeWhile (\<lambda>x. x \<noteq> NUL) s)"
  proof (induction s rule: rt_strlen.induct)
    case (1 s)
    then show ?case by (cases s) auto
  qed
  have t: "take (rt_strlen s) s = takeWhile (\<lambda>x. x \<noteq> NUL) s"
    unfolding len by (metis append_eq_conv_conj takeWhile_dropWhile_id)
  have "take (nat precision) s = take (nat precision) (takeWhile (\<lambda>x. x \<noteq> NUL) s)" if "nat precision \<le> rt_strlen s"
    using t that by (metis min_absorb1 take_take)
  moreover have "take (nat precision) (takeWhile (\<lambda>x. x \<noteq> NUL) s) = takeWhile (\<lambda>x. x \<noteq> NUL) s"
    if "rt_strlen s \<le> nat precision"
    using that unfolding len by simp
  ultimately have x: "take (if 0 < precision \<and> precision < int (rt_strlen s) then nat precision else rt_strlen s) s =
      (let t = takeWhile (\<lambda>x. x \<noteq> NUL) s in if nat precision = 0 then t else take (nat precision) t)"
    using t by (auto simp: Let_def)
  show ?thesis
    using assms unfolding string_text_def x by (simp add: field_def Let_def del: length_take)
qed

lemma signed_magnitude: "nat \<bar>sint n\<bar> = (if sint n < 0 then unat (- n) else unat n)" for n :: u32
proof (cases "sint n < 0")
  case True
  have "- (2 ^ 31) \<le> sint n" using sint_ge [of n] by simp
  moreover have "- n = word_of_int (- sint n)" by simp
  then have "uint (- n) = (- sint n) mod 2 ^ 32" by (simp only: uint_word_of_int) simp
  ultimately have "uint (- n) = - sint n" using True by simp
  then show ?thesis using True by (simp add: unat_eq_nat_uint)
next
  case False
  have "uint n = sint n mod 2 ^ 32" by (simp add: uint_sint take_bit_eq_mod)
  moreover have "sint n < 2 ^ 31" using sint_lt [of n] by simp
  ultimately have "uint n = sint n" using False by simp
  then show ?thesis using False by (simp add: unat_eq_nat_uint)
qed

lemma short_numbers:
  "sint (scast (x :: 16 word) :: u32) = sint x" "unat (ucast (x :: 16 word) :: u32) = unat x"
proof -
  have "- (2 ^ 31) \<le> sint x" "sint x < 2 ^ 31" using sint_ge [of x] sint_lt [of x] by simp_all
  then have "signed_take_bit 31 (sint x) = sint x" by (intro signed_take_bit_int_eq_self) simp_all
  moreover have "sint (word_of_int (sint x) :: u32) = signed_take_bit 31 (sint x)"
    using sint_sbintrunc' [where 'a = 32 and bin = "sint x"] by simp
  ultimately show "sint (scast x :: u32) = sint x" by (simp only: scast_eq)
  have "unat x < 2 ^ 32" by (rule order_less_trans [OF unsigned_less]) simp
  then show "unat (ucast x :: u32) = unat x" by (simp add: unsigned_ucast_eq take_bit_nat_eq_self)
qed

lemma convert_text_value:
  assumes c: "c \<in> set ''cspdiuxX''" "c_letter cv = c"
    and q: "c_qualifier cv = (if short then CHR ''h'' else x)" "x \<noteq> CHR ''h''"
    and w: "c_width cv = (case w of None \<Rightarrow> -1 | Some n \<Rightarrow> int n)" and p: "nat (c_precision cv) = prec"
    and f: "has LEFT (c_flags cv) = left" "has PLUS (c_flags cv) \<longleftrightarrow> CHR ''+'' \<in> set fs"
      "has SPACE (c_flags cv) \<longleftrightarrow> CHR '' '' \<in> set fs" "has ZEROPAD (c_flags cv) \<longleftrightarrow> CHR ''0'' \<in> set fs"
      "\<not> has SIGN (c_flags cv)" "\<not> has LARGE (c_flags cv)"
    and v: "value_text fs left w prec short c a = Some t"
  shows "convert_text cv (a # args) = Some (args, t)"
proof (cases a)
  case (StrArg s)
  then have "c = CHR ''s''" using v by (auto simp: value_text_def Let_def split: if_splits)
  then show ?thesis
    using v StrArg c(2) w p f(1) string_text_field [of "c_flags cv" left "c_width cv" "c_precision cv"]
    by (cases w) (auto simp: value_text_def convert_text_def Let_def)
next
  case (IntArg n)
  let ?g = "number_flags c (c_flags cv)" and ?zero = "CHR ''0'' \<in> set fs"
  let ?m = "number_arg (c_qualifier cv) ?g n"
  have wd: "nat (c_width cv) = (case w of None \<Rightarrow> 0 | Some n \<Rightarrow> n)" "c_width cv = -1 \<longleftrightarrow> w = None"
    using w by (auto split: option.splits)
  have g: "has LEFT ?g = left" "has ZEROPAD ?g = ?zero" "has PLUS ?g \<longleftrightarrow> CHR ''+'' \<in> set fs"
    "has SPACE ?g \<longleftrightarrow> CHR '' '' \<in> set fs" "has LARGE ?g \<longleftrightarrow> c = CHR ''X''" "has SIGN ?g \<longleftrightarrow> c = CHR ''d'' \<or> c = CHR ''i''"
    using f by (auto simp: number_flags_def has_or)
  have num: "convert_text cv (a # args) = Some (args, field left ?zero (case w of None \<Rightarrow> 0 | Some n \<Rightarrow> n) (sign_text ?g ?m)
      (digits_text (c = CHR ''X'') (real_base (number_base c)) prec (magnitude ?g ?m)))"
    if "number_letter c" "c \<notin> set ''csp%''"
    using that IntArg c(2) by (simp add: convert_text_def Let_def number_text_field g wd p)
  have uns: "magnitude ?g ?m = (if short then unat (ucast n :: 16 word) else unat n)" "sign_text ?g ?m = []"
    if "\<not> (c = CHR ''d'' \<or> c = CHR ''i'')"
    using q g(6) that by (auto simp: magnitude_def sign_text_def number_arg_def short_numbers)
  consider "c = CHR ''c''" | "c = CHR ''p''" | "c = CHR ''d'' \<or> c = CHR ''i''" | "c = CHR ''u''" | "c = CHR ''x''" | "c = CHR ''X''"
    using v c(1) IntArg by (auto simp: value_text_def)
  then show ?thesis
  proof cases
    case 1
    then show ?thesis
      using v IntArg c(2) f(1) wd by (auto simp: value_text_def convert_text_def char_text_def field_def Let_def)
  next
    case 2
    have m: "sign_text h n = []" "magnitude h n = unat n" if "\<not> has SIGN h" for h
      using that by (simp_all add: sign_text_def magnitude_def)
    have z: "has LEFT (c_flags cv OR ZEROPAD) = left" "has ZEROPAD (c_flags cv OR ZEROPAD)"
      "\<not> has SIGN (c_flags cv OR ZEROPAD)" "\<not> has LARGE (c_flags cv OR ZEROPAD)"
      using f by (simp_all add: has_or)
    have "t = field left (?zero \<or> w = None) (if w = None then 8 else case w of None \<Rightarrow> 0 | Some n \<Rightarrow> n) []
        (digits_text False 16 prec (unat n))"
      using 2 v IntArg by (simp add: value_text_def Let_def)
    moreover have "convert_text cv (a # args) = Some (args,
        if w = None then number_text n 16 8 (c_precision cv) (c_flags cv OR ZEROPAD)
        else number_text n 16 (c_width cv) (c_precision cv) (c_flags cv))"
      using 2 IntArg c(2) wd(2) by (simp add: convert_text_def)
    ultimately show ?thesis
      using f z wd p m(1,2) [OF f(5)] m(1,2) [OF z(3)]
      by (cases "w = None") (simp_all add: number_text_field real_base_def)
  next
    case 3
    then have sg: "has SIGN ?g" using g(6) by simp
    have s: "sint ?m = (if short then sint (ucast n :: 16 word) else sint n)"
      using q sg by (auto simp: number_arg_def short_numbers)
    have "magnitude ?g ?m = nat \<bar>sint ?m\<bar>" using sg signed_magnitude [of ?m] by (simp add: magnitude_def)
    moreover have "sign_text ?g ?m = (if sint ?m < 0 then ''-'' else if CHR ''+'' \<in> set fs then ''+''
        else if CHR '' '' \<in> set fs then '' '' else [])"
      using sg g(3,4) by (simp add: sign_text_def)
    moreover have "number_letter c" "c \<notin> set ''csp%''" "number_base c = 10" "c \<noteq> CHR ''X''"
      using 3 by (auto simp: number_letter_def number_base_def)
    moreover have "t = field left ?zero (case w of None \<Rightarrow> 0 | Some n \<Rightarrow> n)
        (if sint ?m < 0 then ''-'' else if CHR ''+'' \<in> set fs then ''+'' else if CHR '' '' \<in> set fs then '' '' else [])
        (digits_text False 10 prec (nat \<bar>sint ?m\<bar>))"
      unfolding s using 3 v IntArg by (elim disjE) (simp_all add: value_text_def Let_def)
    ultimately show ?thesis using num by (simp add: real_base_def)
  next
    case 4
    then have "t = field left ?zero (case w of None \<Rightarrow> 0 | Some n \<Rightarrow> n) []
        (digits_text False 10 prec (if short then unat (ucast n :: 16 word) else unat n))"
      using v IntArg by (simp add: value_text_def Let_def)
    then show ?thesis using 4 num uns by (simp add: real_base_def number_base_def number_letter_def)
  next
    case 5
    then have "t = field left ?zero (case w of None \<Rightarrow> 0 | Some n \<Rightarrow> n) []
        (digits_text False 16 prec (if short then unat (ucast n :: 16 word) else unat n))"
      using v IntArg by (simp add: value_text_def Let_def)
    then show ?thesis using 5 num uns by (simp add: real_base_def number_base_def number_letter_def)
  next
    case 6
    then have "t = field left ?zero (case w of None \<Rightarrow> 0 | Some n \<Rightarrow> n) []
        (digits_text True 16 prec (if short then unat (ucast n :: 16 word) else unat n))"
      using v IntArg by (simp add: value_text_def Let_def)
    then show ?thesis using 6 num uns by (simp add: real_base_def number_base_def number_letter_def)
  qed
qed

lemma percent_read: "parse_conversion (CHR ''%'' # s) args =
  Some (\<lparr>c_letter = CHR ''%'', c_flags = 0, c_width = -1, c_precision = -1, c_qualifier = NUL\<rparr>, s, args)"
  by (simp add: parse_conversion_def parse_width_def parse_precision_def parse_qualifier_def is_digit_def)

lemma format_piece:
  assumes wf: "wf_piece p" and v: "piece_value p args = Some (t, args1)"
  shows "format_text (piece_text p @ s) args = map_option (\<lambda>u. t @ u) (format_text s args1)"
proof (cases p)
  case (Lit c)
  then have "t = [c]" "args1 = args" "c \<noteq> NUL" "c \<noteq> CHR ''%''" using wf v by simp_all
  then show ?thesis using Lit by (simp add: format_text.simps [of "c # s"])
next
  case Percent
  then have "t = ''%''" "args1 = args" using v by simp_all
  then show ?thesis
    using Percent
    by (cases "format_text s args")
      (simp_all add: format_text.simps [of "CHR ''%'' # CHR ''%'' # s"] percent_read convert_text_def)
next
  case (Conv fs w q h c)
  obtain wv args2 where w: "amount_value w args = Some (wv, args2)"
    using v Conv by (cases "amount_value w args") auto
  obtain pv args3 where q: "amount_value (case q of None \<Rightarrow> Absent | Some a \<Rightarrow> a) args2 = Some (pv, args3)"
    using v Conv w by (cases "amount_value (case q of None \<Rightarrow> Absent | Some a \<Rightarrow> a) args2") auto
  obtain a where a: "args3 = a # args1" "wv \<noteq> Some (- (2 ^ 31))"
    "value_text fs (CHR ''-'' \<in> set fs \<or> (\<exists>v\<in>set_option wv. v < 0)) (map_option (\<lambda>v. nat \<bar>v\<bar>) wv)
      (case pv of None \<Rightarrow> 0 | Some v \<Rightarrow> nat v) (h = Some (CHR ''h'')) c a = Some t"
    using v Conv w q by (cases args3) (auto split: if_splits)
  obtain cv where cv: "parse_conversion (tl (piece_text p) @ s) args = Some (cv, s, a # args1)" "c_letter cv = c"
    "c_qualifier cv = (case h of None \<Rightarrow> NUL | Some x \<Rightarrow> x)" "c_width cv = (case wv of None \<Rightarrow> -1 | Some v \<Rightarrow> \<bar>v\<bar>)"
    "nat (c_precision cv) = (case pv of None \<Rightarrow> 0 | Some v \<Rightarrow> nat v)"
    "has LEFT (c_flags cv) \<longleftrightarrow> CHR ''-'' \<in> set fs \<or> (\<exists>v\<in>set_option wv. v < 0)"
    "has PLUS (c_flags cv) \<longleftrightarrow> CHR ''+'' \<in> set fs" "has SPACE (c_flags cv) \<longleftrightarrow> CHR '' '' \<in> set fs"
    "has ZEROPAD (c_flags cv) \<longleftrightarrow> CHR ''0'' \<in> set fs" "\<not> has SIGN (c_flags cv)" "\<not> has LARGE (c_flags cv)"
    using parse_read [OF wf [unfolded Conv] w a(2) q, of s] unfolding Conv a(1) by blast
  let ?x = "case h of None \<Rightarrow> NUL | Some x \<Rightarrow> if x = CHR ''h'' then NUL else x"
  have qu: "c_qualifier cv = (if h = Some (CHR ''h'') then CHR ''h'' else ?x)" "?x \<noteq> CHR ''h''"
    using cv(3) by (cases h; simp)+
  have wi: "c_width cv = (case map_option (\<lambda>v. nat \<bar>v\<bar>) wv of None \<Rightarrow> -1 | Some n \<Rightarrow> int n)"
    using cv(4) by (cases wv) simp_all
  have "c \<in> set ''cspdiuxX''" using wf Conv by simp
  from convert_text_value [OF this cv(2) qu wi cv(5-11) a(3), of args1]
  have "convert_text cv (a # args1) = Some (args1, t)" .
  moreover have e: "piece_text p @ s = CHR ''%'' # tl (piece_text p) @ s" by (simp add: Conv)
  ultimately show ?thesis
    unfolding e using cv(1) by (simp add: format_text.simps [of "CHR ''%'' # tl (piece_text p) @ s"])
qed

lemma format_pieces:
  "\<forall>p\<in>set ps. wf_piece p \<Longrightarrow> pieces_value ps args = Some t \<Longrightarrow> format_text (pieces_text ps) args = Some t"
proof (induction ps arbitrary: args t)
  case Nil
  then show ?case by (simp add: pieces_text_def format_text.simps [of "[]"])
next
  case (Cons p ps)
  obtain u args1 where u: "piece_value p args = Some (u, args1)"
    using Cons.prems(2) by (cases "piece_value p args") auto
  then obtain v where "pieces_value ps args1 = Some v" "t = u @ v"
    using Cons.prems(2) by auto
  then show ?case
    using Cons.IH [of args1 v] Cons.prems(1) format_piece [OF _ u, of "pieces_text ps"] by (simp add: pieces_text_def)
qed

text \<open>
  C31: \<^verbatim>\<open>rt_vsnprintf\<close> with a format of plain characters, \<^verbatim>\<open>%%\<close> and conversions of the
  letters c, s, p, d, i, u, x and X, with any flags, width, precision and qualifier h or l, and arguments that fit
  it, stores the text the format stands for, cut to leave room for the zero that it always puts behind
  it, and nothing outside the buffer; it returns the length of the text when it fits, and at least the
  size of the buffer when it does not. The buffer has a size other than 0 and lies in the address
  space. Of a size of 0 the code makes an unbounded buffer (size_zero_unbounded), and the letter o
  prints hexadecimal (octal_prints_hex).
\<close>

theorem vsnprintf_stores_text:
  assumes "0 < sz" "buf + sz \<le> 2 ^ 32" "\<forall>p\<in>set ps. wf_piece p" "pieces_value ps args = Some t"
  shows "\<exists>n m'. rt_vsnprintf buf sz (pieces_text ps) args m = Some (n, m') \<and>
    (\<forall>i<min (length t) (sz - 1). m' (buf + i) = t ! i) \<and> m' (buf + min (length t) (sz - 1)) = NUL \<and>
    (\<forall>a. a < buf \<or> buf + sz \<le> a \<longrightarrow> m' a = m a) \<and>
    (length t < sz \<longrightarrow> n = length t) \<and> (sz \<le> length t \<longrightarrow> sz \<le> n)"
  using stored_text [OF assms(1,2), of "pieces_text ps" args m] format_pieces [OF assms(3,4)]
  by (auto split: option.splits)

text \<open>\<^verbatim>\<open>n=%+05d|%-6s|%hx\<close>: a padded number with a sign, a word at the left of its field, a number cut to 16 bits.\<close>

definition demo_pieces :: "piece list" where
  "demo_pieces = [Lit (CHR ''n''), Lit (CHR ''=''), Conv ''+0'' (Given 5) None None (CHR ''d''), Lit (CHR ''|''),
     Conv ''-'' FromArg None None (CHR ''s''), Lit (CHR ''|''), Conv [] Absent None (Some (CHR ''h'')) (CHR ''x'')]"

definition demo_args :: "arg list" where
  "demo_args = [IntArg 42, IntArg 6, StrArg (Some ''car''), IntArg 0x1002a]"

lemma demo_format:
  "pieces_text demo_pieces = ''n=%+05d|%-*s|%hx''" "\<forall>p\<in>set demo_pieces. wf_piece p"
  "pieces_value demo_pieces demo_args = Some ''n=+0042|car   |2a''"
  by (code_simp, simp add: demo_pieces_def, code_simp)

theorem vsnprintf_stores_text_witness:
  "\<exists>n m'. rt_vsnprintf 1000 6 ''n=%+05d|%-*s|%hx'' demo_args (\<lambda>_. CHR ''?'') = Some (n, m') \<and>
     map m' [1000, 1001, 1002, 1003, 1004, 1005, 1006] = ''n=+00'' @ [NUL, CHR ''?''] \<and> 6 \<le> n"
proof -
  obtain n m' where r: "rt_vsnprintf 1000 6 ''n=%+05d|%-*s|%hx'' demo_args (\<lambda>_. CHR ''?'') = Some (n, m')"
    "\<forall>i<min (length ''n=+0042|car   |2a'') (6 - 1). m' (1000 + i) = ''n=+0042|car   |2a'' ! i"
    "m' (1000 + min (length ''n=+0042|car   |2a'') (6 - 1)) = NUL" "\<forall>a. a < 1000 \<or> 1000 + 6 \<le> a \<longrightarrow> m' a = CHR ''?''" "6 \<le> n"
    using vsnprintf_stores_text [OF _ _ demo_format(2,3), of 6 1000 "\<lambda>_. CHR ''?''"] unfolding demo_format(1) by auto
  have "m' 1000 = CHR ''n''" "m' 1001 = CHR ''=''" "m' 1002 = CHR ''+''" "m' 1003 = CHR ''0''" "m' 1004 = CHR ''0''"
    using r(2) [rule_format, of 0] r(2) [rule_format, of 1] r(2) [rule_format, of 2] r(2) [rule_format, of 3]
      r(2) [rule_format, of 4] by simp_all
  then show ?thesis using r(1,3,4,5) by auto
qed

end
