(* ===== verification/Idle.thy ===== *)
theory Idle
  imports HeapClient Thread
begin

unbundle bit_operations_syntax

text \<open>
  The idle thread of \<^verbatim>\<open>src/idle.c\<close>: its hooks and the clean-up of the threads that
  have ended, which gives their stacks and control blocks back to the heap. The state is the kernel with
  the heap, the stack of each thread and the table of hooks; a thread's address is its number. What the
  hooks and the clean-up functions of threads do are the parameters \<open>run\<close> and \<open>cleanup\<close>.
\<close>

section \<open>The code\<close>

abbreviation (input) RT_ENOSYS :: int where "RT_ENOSYS \<equiv> 6"
abbreviation (input) RT_IDEL_HOOK_LIST_SIZE :: nat where "RT_IDEL_HOOK_LIST_SIZE \<equiv> 4"

record idle_world =
  iw_kernel :: kernel
  iw_heap :: heap
  stack_addr :: "tid \<Rightarrow> nat"
  idle_hook_list :: "nat list"

text \<open>A null pointer is 0.\<close>

fun set_first :: "nat \<Rightarrow> nat \<Rightarrow> nat list \<Rightarrow> nat list option" where
  "set_first old new [] = None"
| "set_first old new (h # hs) = (if h = old then Some (new # hs) else map_option (\<lambda>hs. h # hs) (set_first old new hs))"

definition rt_thread_idle_sethook :: "nat \<Rightarrow> idle_world \<Rightarrow> int \<times> idle_world" where
  "rt_thread_idle_sethook hook w =
    (case set_first 0 hook (idle_hook_list w) of
       None \<Rightarrow> (- RT_EFULL, w)
     | Some hs \<Rightarrow> (RT_EOK, w\<lparr>idle_hook_list := hs\<rparr>))"

definition rt_thread_idle_delhook :: "nat \<Rightarrow> idle_world \<Rightarrow> int \<times> idle_world" where
  "rt_thread_idle_delhook hook w =
    (case set_first hook 0 (idle_hook_list w) of
       None \<Rightarrow> (- RT_ENOSYS, w)
     | Some hs \<Rightarrow> (RT_EOK, w\<lparr>idle_hook_list := hs\<rparr>))"

definition on_kernel :: "(kernel \<Rightarrow> kernel) \<Rightarrow> idle_world \<Rightarrow> idle_world" where
  "on_kernel f w = w\<lparr>iw_kernel := f (iw_kernel w)\<rparr>"

text \<open>Taking the first defunct thread: whether it is a static one, and the state behind its clean-up.\<close>

definition bury :: "(tid \<Rightarrow> idle_world \<Rightarrow> idle_world) \<Rightarrow> tid \<Rightarrow> idle_world \<Rightarrow> bool \<times> idle_world" where
  "bury cleanup t w =
    (let w1 = on_kernel (\<lambda>k. rt_enter_critical (list_remove t k)) w;
         w2 = (if t_cleanup (threads (iw_kernel w1) t) then cleanup t w1 else w1)
     in (rt_object_is_systemobject (ThreadObj t) (objects (iw_kernel w2)), on_kernel rt_exit_critical w2))"

definition release :: "tid \<Rightarrow> idle_world \<Rightarrow> idle_world" where
  "release t w =
    (let w1 = w\<lparr>iw_heap := rt_free (Some (stack_addr w t)) (iw_heap w)\<rparr>;
         w2 = on_kernel (upd_objects (rt_object_delete (ThreadObj t))) w1
     in w2\<lparr>iw_heap := rt_free (Some t) (iw_heap w2)\<rparr>)"

partial_function (option) rt_thread_idle_excute ::
  "(tid \<Rightarrow> idle_world \<Rightarrow> idle_world) \<Rightarrow> idle_world \<Rightarrow> idle_world option" where
  "rt_thread_idle_excute cleanup w =
    (case lists (iw_kernel w) Defunct of
       [] \<Rightarrow> Some w
     | t # _ \<Rightarrow>
        (if fst (bury cleanup t w) then Some (snd (bury cleanup t w))
         else rt_thread_idle_excute cleanup (release t (snd (bury cleanup t w)))))"

text \<open>One turn of the endless loop of \<^verbatim>\<open>rt_thread_idle_entry\<close>.\<close>

definition rt_thread_idle_entry ::
  "(nat \<Rightarrow> idle_world \<Rightarrow> idle_world) \<Rightarrow> (tid \<Rightarrow> idle_world \<Rightarrow> idle_world) \<Rightarrow> idle_world \<Rightarrow> idle_world option" where
  "rt_thread_idle_entry run cleanup w =
    rt_thread_idle_excute cleanup
      (fold (\<lambda>i w. if idle_hook_list w ! i \<noteq> 0 then run (idle_hook_list w ! i) w else w) [0..<RT_IDEL_HOOK_LIST_SIZE] w)"

definition rt_thread_idle_init :: "tid \<Rightarrow> kernel \<Rightarrow> kernel" where
  "rt_thread_idle_init idle k =
    snd (rt_thread_startup idle (snd (rt_thread_init idle ''tidle'' (RT_THREAD_PRIORITY_MAX - 1) 32 k)))"

section \<open>Cleaning up\<close>

definition static_thread :: "idle_world \<Rightarrow> tid \<Rightarrow> bool" where
  "static_thread w t \<longleftrightarrow> rt_object_is_systemobject (ThreadObj t) (objects (iw_kernel w))"

abbreviation defunct :: "idle_world \<Rightarrow> tid list" where
  "defunct w \<equiv> lists (iw_kernel w) Defunct"

text \<open>What the development asks of a clean-up function: it may do anything but touch what is cleaned up.\<close>

definition cleanup_ok :: "(tid \<Rightarrow> idle_world \<Rightarrow> idle_world) \<Rightarrow> bool" where
  "cleanup_ok cleanup \<longleftrightarrow> (\<forall>t w. defunct (cleanup t w) = defunct w \<and> objects (iw_kernel (cleanup t w)) = objects (iw_kernel w) \<and>
     iw_heap (cleanup t w) = iw_heap w \<and> stack_addr (cleanup t w) = stack_addr w)"

lemma cleanup_id: "cleanup_ok (\<lambda>t w. w)"
  by (simp add: cleanup_ok_def)

lemma exit_critical_frame: "lists (rt_exit_critical k) = lists k" "objects (rt_exit_critical k) = objects k"
  by (simp_all add: rt_exit_critical_def Let_def kframe)

lemma bury_facts:
  assumes "cleanup_ok cleanup" "defunct w = t # ts" "t \<notin> set ts"
  defines "w' \<equiv> snd (bury cleanup t w)"
  shows "fst (bury cleanup t w) = static_thread w t" "defunct w' = ts" "objects (iw_kernel w') = objects (iw_kernel w)"
    "iw_heap w' = iw_heap w" "stack_addr w' = stack_addr w"
  using assms
  by (simp_all add: bury_def Let_def on_kernel_def cleanup_ok_def static_thread_def exit_critical_frame
      rt_enter_critical_def list_remove_def)

lemma release_facts:
  "defunct (release t w) = defunct w" "stack_addr (release t w) = stack_addr w"
  "iw_heap (release t w) = rt_free (Some t) (rt_free (Some (stack_addr w t)) (iw_heap w))"
  "objects (iw_kernel (release t w)) = rt_object_delete (ThreadObj t) (objects (iw_kernel w))"
  by (simp_all add: release_def Let_def on_kernel_def upd_objects_def)

lemma release_static: "u \<noteq> t \<Longrightarrow> static_thread (release t w) u = static_thread w u"
  by (simp add: static_thread_def release_facts rt_object_is_systemobject_def rt_object_delete_def)

lemma free_two:
  assumes "heap_ok h" "(a, m) \<in> live h" "(b, n) \<in> live h" "a \<noteq> b"
  shows "heap_ok (rt_free (Some b) (rt_free (Some a) h)) \<and>
    live (rt_free (Some b) (rt_free (Some a) h)) = live h - {(a, m), (b, n)}"
proof -
  note f = heap.free_takes [OF assms(1,2)]
  have "(b, n) \<in> live (rt_free (Some a) h)" using f assms(3,4) by auto
  note g = heap.free_takes [OF _ this]
  have "live h - {(a, m)} - {(b, n)} = live h - {(a, m), (b, n)}" by auto
  then show ?thesis using f g by simp
qed

text \<open>The threads at the front of the defunct list that were allocated.\<close>

definition dynamic_prefix :: "idle_world \<Rightarrow> tid list" where
  "dynamic_prefix w = takeWhile (\<lambda>t. \<not> static_thread w t) (defunct w)"

definition owns :: "idle_world \<Rightarrow> tid list \<Rightarrow> bool" where
  "owns w ts \<longleftrightarrow> distinct (ts @ map (stack_addr w) ts) \<and> set (ts @ map (stack_addr w) ts) \<subseteq> fst ` live (iw_heap w)"

lemma owns_cons:
  assumes "owns w (t # ts)"
  obtains m n where "(stack_addr w t, m) \<in> live (iw_heap w)" "(t, n) \<in> live (iw_heap w)" "stack_addr w t \<noteq> t"
    "t \<notin> set ts" "t \<notin> stack_addr w ` set ts" "stack_addr w t \<notin> set ts" "stack_addr w t \<notin> stack_addr w ` set ts"
    "owns w ts"
  using assms by (auto simp: owns_def)

lemma idle_excute_ok:
  "cleanup_ok cleanup \<Longrightarrow> heap_ok (iw_heap w) \<Longrightarrow> distinct (defunct w) \<Longrightarrow> owns w (dynamic_prefix w) \<Longrightarrow>
   \<exists>w'. rt_thread_idle_excute cleanup w = Some w' \<and> defunct w' = drop (Suc (length (dynamic_prefix w))) (defunct w) \<and>
     heap_ok (iw_heap w') \<and>
     live (iw_heap w') = {r \<in> live (iw_heap w). fst r \<notin> set (dynamic_prefix w) \<union> stack_addr w ` set (dynamic_prefix w)} \<and>
     objects (iw_kernel w') = fold (\<lambda>t. rt_object_delete (ThreadObj t)) (dynamic_prefix w) (objects (iw_kernel w))"
proof (induction "defunct w" arbitrary: w)
  case Nil
  then show ?case by (subst rt_thread_idle_excute.simps) (auto simp: dynamic_prefix_def)
next
  case (Cons t ts)
  note d = Cons.hyps(2) [symmetric]
  have tn: "t \<notin> set ts" using Cons.prems(3) d by simp
  let ?w1 = "snd (bury cleanup t w)" and ?w2 = "release t (snd (bury cleanup t w))"
  note b = bury_facts [OF Cons.prems(1) d tn]
  show ?case
  proof (cases "static_thread w t")
    case True
    then have "dynamic_prefix w = []" by (simp add: dynamic_prefix_def d)
    then show ?thesis using True b Cons.prems(2) d
      by (subst rt_thread_idle_excute.simps) auto
  next
    case False
    have st: "static_thread ?w2 u = static_thread w u" if "u \<in> set ts" for u
      using release_static [of u t ?w1] that tn b(3) by (auto simp: static_thread_def)
    have pre: "dynamic_prefix w = t # dynamic_prefix ?w2"
      using False tn st by (auto simp: dynamic_prefix_def d b(2) release_facts intro!: takeWhile_cong)
    obtain m n where o: "(stack_addr w t, m) \<in> live (iw_heap w)" "(t, n) \<in> live (iw_heap w)" "stack_addr w t \<noteq> t"
      "t \<notin> set (dynamic_prefix ?w2)" "t \<notin> stack_addr w ` set (dynamic_prefix ?w2)"
      "stack_addr w t \<notin> set (dynamic_prefix ?w2)" "stack_addr w t \<notin> stack_addr w ` set (dynamic_prefix ?w2)"
      "owns w (dynamic_prefix ?w2)"
      using owns_cons Cons.prems(4) unfolding pre by metis
    have h2: "iw_heap ?w2 = rt_free (Some t) (rt_free (Some (stack_addr w t)) (iw_heap w))"
      "stack_addr ?w2 = stack_addr w" "defunct ?w2 = ts"
      "objects (iw_kernel ?w2) = rt_object_delete (ThreadObj t) (objects (iw_kernel w))"
      by (simp_all add: release_facts b)
    note f = free_two [OF Cons.prems(2) o(1,2,3), folded h2(1)]
    have u: "r = q" if "r \<in> live (iw_heap w)" "q \<in> live (iw_heap w)" "fst r = fst q" for r q
      using heap.live_apart [OF Cons.prems(2) that(1,2)] that(3) by blast
    have l2: "live (iw_heap ?w2) = {r \<in> live (iw_heap w). fst r \<noteq> t \<and> fst r \<noteq> stack_addr w t}"
    proof -
      have "r = (stack_addr w t, m) \<longleftrightarrow> fst r = stack_addr w t" "r = (t, n) \<longleftrightarrow> fst r = t" if "r \<in> live (iw_heap w)" for r
        using u [OF that o(1)] u [OF that o(2)] by (metis fst_conv)+
      then show ?thesis unfolding conjunct2 [OF f] by blast
    qed
    have ow: "owns ?w2 (dynamic_prefix ?w2)"
      unfolding owns_def h2(2)
    proof (intro conjI subsetI)
      let ?p = "dynamic_prefix ?w2"
      show "distinct (?p @ map (stack_addr w) ?p)" using o(8) by (simp add: owns_def)
      fix x assume x: "x \<in> set (?p @ map (stack_addr w) ?p)"
      then obtain r where "r \<in> live (iw_heap w)" "fst r = x" using o(8) by (auto simp: owns_def)
      moreover have "x \<noteq> t" "x \<noteq> stack_addr w t" using x o(4-7) by auto
      ultimately show "x \<in> fst ` live (iw_heap ?w2)" unfolding l2 by force
    qed
    obtain w' where w': "rt_thread_idle_excute cleanup ?w2 = Some w'"
      "defunct w' = drop (Suc (length (dynamic_prefix ?w2))) ts" "heap_ok (iw_heap w')"
      "live (iw_heap w') = {r \<in> live (iw_heap ?w2). fst r \<notin> set (dynamic_prefix ?w2) \<union> stack_addr w ` set (dynamic_prefix ?w2)}"
      "objects (iw_kernel w') = fold (\<lambda>t. rt_object_delete (ThreadObj t)) (dynamic_prefix ?w2) (objects (iw_kernel ?w2))"
      using Cons.hyps(1) [of ?w2] Cons.prems(1,3) f ow h2(2,3) d by auto
    have "rt_thread_idle_excute cleanup w = Some w'"
      using d b(1) False w'(1) by (subst rt_thread_idle_excute.simps) simp
    then show ?thesis using w' unfolding pre by (intro exI [of _ w']) (auto simp: d l2 h2(4))
  qed
qed

lemma delete_listed: "listed ob (rt_object_delete ob' st) \<longleftrightarrow> listed ob st \<and> ob \<noteq> ob'"
  by (auto simp: listed_def rt_object_delete_def)

lemma fold_delete_listed:
  "listed ob (fold (\<lambda>t. rt_object_delete (ThreadObj t)) ts st) \<longleftrightarrow> listed ob st \<and> ob \<notin> ThreadObj ` set ts"
  by (induction ts arbitrary: st) (auto simp: delete_listed)

text \<open>A thread without a clean-up function, as \<^verbatim>\<open>rt_thread_create\<close> and \<^verbatim>\<open>rt_thread_init\<close> leave it.\<close>

definition no_cleanup :: "idle_world \<Rightarrow> bool" where
  "no_cleanup w \<longleftrightarrow> (\<forall>t\<in>set (defunct w). \<not> t_cleanup (threads (iw_kernel w) t))"

lemma bury_no_cleanup: "\<not> t_cleanup (threads (iw_kernel w) t) \<Longrightarrow> bury cleanup t w = bury (\<lambda>t w. w) t w"
  by (simp add: bury_def on_kernel_def rt_enter_critical_def list_remove_def Let_def)

lemma bury_threads: "threads (iw_kernel (snd (bury (\<lambda>t w. w) t w))) u = threads (iw_kernel w) u"
  by (simp add: bury_def on_kernel_def rt_exit_critical_def rt_enter_critical_def list_remove_def Let_def kframe)

lemma idle_excute_no_cleanup:
  "no_cleanup w \<Longrightarrow> distinct (defunct w) \<Longrightarrow> rt_thread_idle_excute cleanup w = rt_thread_idle_excute (\<lambda>t w. w) w"
proof (induction "defunct w" arbitrary: w)
  case Nil
  then show ?case by (simp add: rt_thread_idle_excute.simps)
next
  case (Cons t ts)
  note d = Cons.hyps(2) [symmetric]
  have tn: "t \<notin> set ts" using Cons.prems(2) d by simp
  let ?w2 = "release t (snd (bury (\<lambda>t w. w) t w))"
  note b = bury_facts [OF cleanup_id d tn]
  have e: "bury cleanup t w = bury (\<lambda>t w. w) t w"
    by (rule bury_no_cleanup) (use Cons.prems(1) d in \<open>simp add: no_cleanup_def\<close>)
  have "threads (iw_kernel ?w2) = threads (iw_kernel w)"
    using bury_threads by (auto simp: release_def on_kernel_def upd_objects_def Let_def)
  then have "no_cleanup ?w2" "distinct (defunct ?w2)" "ts = defunct ?w2"
    using Cons.prems d b(2) by (auto simp: no_cleanup_def release_facts)
  from Cons.hyps(1) [OF this(3,1,2)] show ?case
    by (subst (1 2) rt_thread_idle_excute.simps) (simp add: d e)
qed

text \<open>
  C33: the idle thread's clean-up returns. It takes the ended threads at the front of the list that are not marked
  static, and one marked static behind them, off the list, gives the stacks and the control blocks
  of the unmarked ones back to the heap, and nothing else, and takes them out of the object container.
  What is behind the static one stays for the next call, although the comment in \<^verbatim>\<open>idle.c\<close> says
  that one call does all the clean-ups. The unmarked threads have stacks and control blocks of their own on the
  heap (a static thread taken down with \<^verbatim>\<open>rt_thread_detach\<close> has lost its mark and is treated as one of
  them, see \<open>detached_stack_freed\<close>), and the ended threads have no clean-up functions, or ones that leave the
  heap, the list of ended threads and the objects alone.
\<close>

theorem idle_cleans_up:
  assumes "no_cleanup w \<or> cleanup_ok cleanup"
    and "heap_ok (iw_heap w)" "distinct (defunct w)" "owns w (dynamic_prefix w)"
  shows "\<exists>w'. rt_thread_idle_excute cleanup w = Some w' \<and> defunct w' = drop (Suc (length (dynamic_prefix w))) (defunct w) \<and>
    heap_ok (iw_heap w') \<and>
    live (iw_heap w') = {r \<in> live (iw_heap w). fst r \<notin> set (dynamic_prefix w) \<union> stack_addr w ` set (dynamic_prefix w)} \<and>
    (\<forall>t\<in>set (dynamic_prefix w). \<not> listed (ThreadObj t) (objects (iw_kernel w')))"
  using assms(1)
proof
  assume "cleanup_ok cleanup"
  from idle_excute_ok [OF this assms(2-4)] show ?thesis by (fastforce simp: fold_delete_listed)
next
  assume "no_cleanup w"
  then show ?thesis
    using idle_excute_ok [OF cleanup_id assms(2-4)] idle_excute_no_cleanup [OF _ assms(3), of cleanup]
    by (fastforce simp: fold_delete_listed)
qed

section \<open>Threads that come and go\<close>

lemma create_thread_facts:
  assumes "rt_thread_create (Some t) True name priority tick k = (Some r, k')"
  shows "r = t" "lists k' = lists k" "\<not> rt_object_is_systemobject (ThreadObj t) (objects k')" "stat_of k' t = RT_THREAD_INIT"
    "\<not> t_cleanup (threads k' t)"
  using assms
  by (auto simp: rt_thread_create_def rt_object_allocate_def rt_object_get_information_def thread_init_def
      rt_timer_init_def timer_object_init_def upd_objects_def upd_timer_def upd_thread_def rt_object_is_systemobject_def
      rt_object_init_def stat_of_def Let_def)

lemma delete_thread_facts:
  assumes "stat_of k t = RT_THREAD_INIT"
  shows "lists (snd (rt_thread_delete t k)) = (lists k)(Defunct := t # lists k Defunct)"
    "rt_object_is_systemobject (ThreadObj t) (objects (snd (rt_thread_delete t k))) = rt_object_is_systemobject (ThreadObj t) (objects k)"
  using assms
  by (simp_all add: rt_thread_delete_def Let_def list_push_def set_closed_def upd_thread_def rt_timer_detach_def
      timer_list_remove_def upd_objects_def upd_timer_def rt_object_is_systemobject_def rt_object_detach_def)

text \<open>The state the idle thread finds after a thread has been created on the heap and deleted.\<close>

lemma deleted_thread_world:
  assumes heap: "heap_ok h" "sz \<le> 2 ^ 32 - 4" "stack \<le> 2 ^ 32 - 4"
      "rt_malloc sz h = Some (Some t, h1)" "rt_malloc stack h1 = Some (Some a, h2)"
    and k: "lists k Defunct = []" "rt_thread_create (Some t) True name priority tick k = (Some r, k1)"
    and w: "iw_kernel w = snd (rt_thread_delete r k1)" "iw_heap w = h2" "stack_addr w t = a"
  shows "heap_ok (iw_heap w)" "defunct w = [t]" "dynamic_prefix w = [t]" "owns w [t]"
    "{r \<in> live (iw_heap w). fst r \<notin> {t, a}} = live h"
proof -
  obtain m where m: "heap_ok h1" "t \<notin> fst ` live h" "live h1 = insert (t, m) (live h)"
    using heap.alloc_gives [OF heap(1,2,4)] by blast
  obtain n where n: "heap_ok h2" "a \<notin> fst ` live h1" "live h2 = insert (a, n) (live h1)"
    using heap.alloc_gives [OF m(1) heap(3,5)] by blast
  note cr = create_thread_facts [OF k(2)]
  note de = delete_thread_facts [OF cr(4)]
  show d: "defunct w = [t]" using w(1) cr(1,2) de(1) k(1) by simp
  have "\<not> static_thread w t" using w(1) cr(1,3) de(2) by (simp add: static_thread_def)
  then show "dynamic_prefix w = [t]" by (simp add: dynamic_prefix_def d)
  show "owns w [t]" using m n by (auto simp: owns_def w(2,3))
  show "heap_ok (iw_heap w)" using n(1) w(2) by simp
  show "{r \<in> live (iw_heap w). fst r \<notin> {t, a}} = live h" using m(2,3) n(2,3) unfolding w(2) by force
qed

text \<open>
  A thread made with \<^verbatim>\<open>rt_thread_create\<close> on the heap and taken down with
  \<^verbatim>\<open>rt_thread_delete\<close> leaves nothing behind once the idle thread has run: the heap holds what it
  held before, no thread is left to bury, and the object is out of the container.
\<close>

theorem thread_create_delete:
  assumes heap: "heap_ok h" "sz \<le> 2 ^ 32 - 4" "stack \<le> 2 ^ 32 - 4"
      "rt_malloc sz h = Some (Some t, h1)" "rt_malloc stack h1 = Some (Some a, h2)"
    and k: "lists k Defunct = []" "rt_thread_create (Some t) True name priority tick k = (Some r, k1)"
    and w: "iw_kernel w = snd (rt_thread_delete r k1)" "iw_heap w = h2" "stack_addr w t = a"
    and c: "cleanup_ok cleanup"
  shows "\<exists>w'. rt_thread_idle_excute cleanup w = Some w' \<and> live (iw_heap w') = live h \<and> defunct w' = [] \<and>
    \<not> listed (ThreadObj t) (objects (iw_kernel w'))"
proof -
  note d = deleted_thread_world [OF assms(1-10)]
  obtain w' where w': "rt_thread_idle_excute cleanup w = Some w'" "defunct w' = []"
    "live (iw_heap w') = {r \<in> live (iw_heap w). fst r \<notin> {t, a}}"
    "objects (iw_kernel w') = rt_object_delete (ThreadObj t) (objects (iw_kernel w))"
    using idle_excute_ok [OF c d(1)] d(2-4) w(3) by auto
  then show ?thesis unfolding d(5) by (auto simp: delete_listed)
qed

text \<open>A thread created at 1012 with its stack at 1124, and deleted.\<close>

definition demo_stack :: heap where
  "demo_stack = snd (the (rt_malloc 50 demo_malloc))"

definition demo_deleted :: idle_world where
  "demo_deleted = \<lparr>iw_kernel = snd (rt_thread_delete 1012 (snd (rt_thread_create (Some 1012) True ''t'' 10 5 two_ready))),
     iw_heap = demo_stack, stack_addr = (\<lambda>_. 1124), idle_hook_list = [0, 0, 0, 0]\<rparr>"

lemma demo_stack_run: "rt_malloc 50 demo_malloc = Some (Some 1124, demo_stack)"
  by (simp add: demo_stack_def demo_malloc_def demo_heap_eq heap_run)

lemma demo_create: "rt_thread_create (Some 1012) True ''t'' 10 5 two_ready =
    (Some 1012, snd (rt_thread_create (Some 1012) True ''t'' 10 5 two_ready))"
  by (simp add: rt_thread_create_def rt_object_allocate_def rt_object_get_information_def)

lemmas demo_deleted_premises = heap_okI [OF demo_heap_inv, THEN conjunct1] _ _ demo_malloc_run demo_stack_run _ demo_create

lemma demo_deleted_facts:
  "heap_ok (iw_heap demo_deleted)" "defunct demo_deleted = [1012]" "dynamic_prefix demo_deleted = [1012]"
  "owns demo_deleted [1012]"
  by (rule deleted_thread_world [OF demo_deleted_premises]; simp add: demo_deleted_def two_ready_lists)+

theorem thread_create_delete_witness:
  "\<exists>w'. rt_thread_idle_excute (\<lambda>t w. w) demo_deleted = Some w' \<and> live (iw_heap w') = live demo_heap \<and> defunct w' = [] \<and>
    \<not> listed (ThreadObj 1012) (objects (iw_kernel w'))"
  by (rule thread_create_delete [OF demo_deleted_premises _ _ _ cleanup_id]; simp add: demo_deleted_def two_ready_lists)

theorem idle_cleans_up_witness:
  "\<exists>w'. rt_thread_idle_excute (\<lambda>t w. w) demo_deleted = Some w' \<and> defunct w' = [] \<and> heap_ok (iw_heap w') \<and>
    \<not> listed (ThreadObj 1012) (objects (iw_kernel w'))"
  using idle_cleans_up [OF disjI2 [OF cleanup_id], of demo_deleted] demo_deleted_facts by auto

text \<open>
  A static thread with a clean-up function that is taken down with
  \<^verbatim>\<open>rt_thread_detach\<close> has lost its mark when the idle thread looks at it: its stack, which
  belongs to whoever set the thread up, is given to the heap.
\<close>

theorem detached_stack_freed:
  assumes heap: "heap_ok (iw_heap w)" "(a, m) \<in> live (iw_heap w)" "stack_addr w t = a" "t < heap_ptr (iw_heap w)"
    and k: "lists k Defunct = []" "iw_kernel w = snd (rt_thread_detach t
        (upd_thread t (\<lambda>th. th\<lparr>t_cleanup := True\<rparr>) (snd (rt_thread_init t name priority tick k))))"
    and c: "cleanup_ok cleanup"
  shows "\<exists>w'. rt_thread_idle_excute cleanup w = Some w' \<and> live (iw_heap w') = live (iw_heap w) - {(a, m)}"
proof -
  have d: "defunct w = [t]" "\<not> static_thread w t"
    using k by (simp_all add: static_thread_def rt_thread_detach_def rt_thread_init_def thread_init_def Let_def list_push_def
        set_closed_def upd_thread_def rt_timer_detach_def timer_list_remove_def upd_objects_def upd_timer_def
        rt_object_is_systemobject_def rt_object_detach_def stat_of_def rt_timer_init_def timer_object_init_def)
  let ?w1 = "snd (bury cleanup t w)" and ?w2 = "release t (snd (bury cleanup t w))"
  note b = bury_facts [OF c d(1)]
  note f = heap.free_takes [OF heap(1,2)]
  have "rt_free (Some t) (rt_free (Some a) (iw_heap w)) = rt_free (Some a) (iw_heap w)"
    using f heap(4) by (subst rt_free_def) simp
  then have h: "iw_heap ?w2 = rt_free (Some a) (iw_heap w)" "defunct ?w2 = []"
    using b heap(3) by (simp_all add: release_facts)
  have "rt_thread_idle_excute cleanup ?w2 = Some ?w2" using h(2) by (subst rt_thread_idle_excute.simps) simp
  then have "rt_thread_idle_excute cleanup w = Some ?w2"
    using d b by (subst rt_thread_idle_excute.simps) simp
  then show ?thesis using h(1) f by auto
qed

theorem detached_stack_freed_witness:
  "let w = \<lparr>iw_kernel = snd (rt_thread_detach 5 (upd_thread 5 (\<lambda>th. th\<lparr>t_cleanup := True\<rparr>) (snd (rt_thread_init 5 ''t'' 10 5 two_ready)))),
       iw_heap = demo_malloc, stack_addr = (\<lambda>_. 1012), idle_hook_list = [0, 0, 0, 0]\<rparr>
   in \<exists>w'. rt_thread_idle_excute (\<lambda>t w. w) w = Some w' \<and> live (iw_heap w') = {}"
proof -
  let ?w = "\<lparr>iw_kernel = snd (rt_thread_detach 5 (upd_thread 5 (\<lambda>th. th\<lparr>t_cleanup := True\<rparr>) (snd (rt_thread_init 5 ''t'' 10 5 two_ready)))),
       iw_heap = demo_malloc, stack_addr = (\<lambda>_. 1012 :: nat), idle_hook_list = [0, 0, 0, 0 :: nat]\<rparr>"
  have h: "heap_ok (iw_heap ?w)" using heap_okI [OF demo_malloc_inv] by simp
  have "heap_ptr demo_malloc = 1000" by (simp add: demo_malloc_def demo_heap_eq heap_run)
  then show ?thesis
    using detached_stack_freed [OF h, of 1012 100 5 two_ready "''t''" 10 5, OF _ _ _ _ _ cleanup_id]
    unfolding Let_def by (simp add: demo_malloc_live two_ready_lists)
qed

section \<open>Hooks\<close>

lemma set_first_undo: "set_first old new hs = Some hs' \<Longrightarrow> new \<notin> set hs \<Longrightarrow> set_first new old hs' = Some hs"
  by (induction hs arbitrary: hs') (auto split: if_splits)

lemma set_first_full: "set_first old new hs = None \<longleftrightarrow> old \<notin> set hs"
  by (induction hs) auto

text \<open>A hook that is not in the table goes in while there is a free place, and comes out again.\<close>

theorem idle_hook_roundtrip:
  assumes "hook \<notin> set (idle_hook_list w)"
  shows "case rt_thread_idle_sethook hook w of (e, w1) \<Rightarrow>
    if 0 \<in> set (idle_hook_list w) then e = RT_EOK \<and> rt_thread_idle_delhook hook w1 = (RT_EOK, w) else e = - RT_EFULL \<and> w1 = w"
proof (cases "set_first 0 hook (idle_hook_list w)")
  case None
  then have "0 \<notin> set (idle_hook_list w)" using set_first_full [of 0 hook "idle_hook_list w"] by blast
  then show ?thesis using None by (simp add: rt_thread_idle_sethook_def)
next
  case (Some hs)
  then have "0 \<in> set (idle_hook_list w)" by (metis option.distinct(1) set_first_full)
  then show ?thesis
    using Some set_first_undo [OF Some assms] by (simp add: rt_thread_idle_sethook_def rt_thread_idle_delhook_def)
qed

lemma idle_hook_roundtrip_witness:
  "fst (rt_thread_idle_sethook 7 (demo_deleted\<lparr>idle_hook_list := [1, 0, 2, 3]\<rparr>)) = RT_EOK"
  using idle_hook_roundtrip [of 7 "demo_deleted\<lparr>idle_hook_list := [1, 0, 2, 3]\<rparr>"] by (simp split: prod.splits)

end
