(* ===== verification/Spec2Isabelle.thy ===== *)
theory Spec2Isabelle
  imports System Mutex Event MessageQueue Eaix4 UartApp Mpu9250 PinCar Shell RtList PoolClient FormatSpec Idle
begin

text \<open>
  A model of the firmware of a small car that steers by a laser scanner: the RT-Thread kernel it runs
  on (\<^verbatim>\<open>src/rt-thread/src\<close>, \<^verbatim>\<open>include\<close>), its serial driver and IPC helpers
  (\<^verbatim>\<open>components/drivers\<close>) and the application
  (\<^verbatim>\<open>bsp/LidarCarBSP\<close>). File names below are relative to
  \<^verbatim>\<open>src/rt-thread\<close>.

  \<^bold>\<open>How the program works.\<close> A serial port delivers the bytes of the scanner, by interrupt, to a
  message queue; \<^verbatim>\<open>EAI_X4.c\<close> parses them into an array of distances, one per angle,
  and sends an event per complete scan. The master thread waits for the event, counts near points and sets the speed and
  the direction of the wheels; the speed thread compares the set speeds with the encoders and corrects
  the pulse widths. Threads, timers, events, mutexes and mailboxes come from the kernel, memory from its
  heap and pools.

  \<^bold>\<open>State.\<close> The kernel is one record (theory \<open>Kstate\<close>): threads, the lists a thread node can be
  in, the bit mask of ready priorities, the running thread, timers, the tick and the object container.
  A list of \<^verbatim>\<open>rt_list_t\<close> is a HOL list; theory \<open>RtList\<close> proves that the pointer
  operations do to a circular list in memory what the list functions do. An IPC object is a record of
  its own, paired with the kernel. Code between disabling and enabling the interrupts is one step. A call
  that blocks returns \<open>Blocked\<close> with its locals, and a second definition is the rest of the call when
  the thread runs again. Errors are negative integers, as in the code; a null or list-head pointer taken
  for a thread sets \<open>fault\<close>. Machine integers are words, or natural numbers reduced where the code
  stores them. \<^verbatim>\<open>RT_ASSERT\<close> is empty and the hooks of \<^verbatim>\<open>RT_USING_HOOK\<close>
  are unset, as in the configuration of the car (\<^verbatim>\<open>bsp/LidarCarBSP/rtconfig.h\<close>).

  \<^bold>\<open>Theories.\<close>
  \<^item> \<open>Prelude\<close>, \<open>Sample\<close>: machine integers, error numbers, ring arithmetic; concrete kernels for examples.
  \<^item> \<open>Fifo\<close>, \<open>Allocator\<close>: the interfaces, as locales. A bounded queue over any run of operations is
    interpreted by the ring buffer, the mailbox and the message queue; an allocator over any run of
    requests by the heap (twice, also as first-fit) and the memory pools. \<open>Overrun\<close> is the queue that
    overwrites its oldest items, interpreted by both receive modes of the serial driver; the locale \<open>driver\<close>
    of \<open>Device\<close> is what the device framework asks of a driver, interpreted by the serial ports.
  \<^item> \<open>Ffs\<close>, \<open>CString\<close>, \<open>Format\<close>, \<open>FormatText\<close>, \<open>FormatSpec\<close>, \<open>KMemory\<close>:
    \<^verbatim>\<open>src/kservice.c\<close>, find-first-set, strings, formatted output (\<open>FormatText\<close>: as a function to texts,
    \<open>FormatSpec\<close>: against a specification by the values of the numbers that shares nothing with the code), copying
    and setting memory by words, aligned allocation.
  \<^item> \<open>RtList\<close>, \<open>Kobject\<close>: \<^verbatim>\<open>include/rtservice.h\<close>, \<^verbatim>\<open>src/object.c\<close>.
  \<^item> \<open>Kstate\<close>, \<open>Scheduler\<close>: \<^verbatim>\<open>src/scheduler.c\<close>, \<^verbatim>\<open>src/irq.c\<close> and the
    invariant of the ready lists; \<open>Timer\<close>, \<open>Clock\<close>: \<^verbatim>\<open>src/timer.c\<close>,
    \<^verbatim>\<open>src/clock.c\<close>; \<open>Thread\<close>: \<^verbatim>\<open>src/thread.c\<close>; \<open>Kinv\<close>: the invariant
    \<open>kinv\<close> of the whole kernel and its preservation; \<open>Idle\<close>: \<^verbatim>\<open>src/idle.c\<close>.
  \<^item> \<open>Ipc\<close>, \<open>Semaphore\<close>, \<open>Mutex\<close>, \<open>Event\<close>, \<open>Mailbox\<close>, \<open>MessageQueue\<close>: \<^verbatim>\<open>src/ipc.c\<close>.
  \<^item> \<open>Mem\<close>, \<open>HeapClient\<close>: \<^verbatim>\<open>src/mem.c\<close>; \<open>Mempool\<close>, \<open>PoolClient\<close>:
    \<^verbatim>\<open>src/mempool.c\<close>.
  \<^item> \<open>Ringbuffer\<close>, \<open>DataQueue\<close>, \<open>Completion\<close>: \<^verbatim>\<open>components/drivers/src\<close>.
  \<^item> \<open>Device\<close>: \<^verbatim>\<open>src/device.c\<close>; \<open>SerialFifo\<close>, \<open>Serial\<close>:
    \<^verbatim>\<open>components/drivers/serial\<close>; \<open>Usart\<close>: \<^verbatim>\<open>drivers/drv_usart.c\<close>.
  \<^item> \<open>Eaix4\<close>: \<^verbatim>\<open>applications/app_eaix4.c\<close>, where the driver, the device framework, the
    message queue, the kernel, the parser and the car are composed: from the bytes on the line to the wheels.
  \<^item> \<open>Receive\<close>: a port in receive mode, what its interrupts and reads do whatever the callback;
    \<open>UartApp\<close>: \<^verbatim>\<open>applications/app_uart.c\<close> and \<^verbatim>\<open>app_wirelessuart.c\<close> (the same code under other names),
    a reader that waits for an event, with every interleaving of the reader and the interrupt.
  \<^item> \<open>I2cBit\<close>, \<open>I2cWire\<close>, \<open>I2cBytes\<close>, \<open>I2c\<close>: \<^verbatim>\<open>components/drivers/i2c\<close> and
    \<^verbatim>\<open>drivers/drv_iic.c\<close>: the master that drives the bus bit by bit, the two wires with a slave on them, the
    protocol of bytes it implements, and transfers under the lock of a bus (locale \<open>bus_driver\<close>, interpreted by the bus of the
    board); \<open>Mpu9250\<close>: \<^verbatim>\<open>applications/app_mpu9250.c\<close>.
  \<^item> \<open>Gpio\<close>, \<open>Pin\<close>, \<open>PinLines\<close>, \<open>PinCar\<close>: \<^verbatim>\<open>drivers/drv_gpio.c\<close> and
    \<^verbatim>\<open>components/drivers/misc/pin.c\<close> with the vendor code they call: setting up pins in the words of the registers,
    interrupt lines against a machine of independent lines, and the outputs of the car (locale \<open>output_pins\<close>).
  \<^item> \<open>Msh\<close>, \<open>Shell\<close>: \<^verbatim>\<open>components/finsh\<close>, the console: command lines are split and run in place,
    and the line editor is checked against a reference editor and a model of the terminal.
  \<^item> \<open>Lidar\<close>: \<^verbatim>\<open>SLAM/EAI_X4.c\<close>, against a reading of the packets from their bytes
    (\<open>said_points\<close>), of which the code keeps the high bytes (\<open>coarse\<close>); \<open>Car\<close>: the application, with what
    a scan makes the car do.
  \<^item> \<open>System\<close>: histories of kernel calls and interrupts as a step relation from power-up.

  \<^bold>\<open>What the lemmas show.\<close> Each component has an invariant that its operations keep; from them
  follow, over any history: the consistency of the kernel, the choice of the highest ready thread, timers
  in order and on time, priority inheritance, permits, queues in order, blocks apart. Each operation has
  a lemma for each of its outcomes, errors included. Where the code does not do what it means to, a
  theorem states what it does instead, and the manifest lists it as a finding.

  \<^bold>\<open>Where the properties end.\<close> Each property names its conditions in the text in front of it, and a
  theorem shows what happens beyond, where the code goes on: a call inside the interrupt window of
  \<^verbatim>\<open>rt_thread_resume\<close> (\<open>resume_interrupted_twice\<close>), a second mutex released by an owner
  (\<open>second_release_inverts\<close>), a periodic timer of 0 ticks (the check of the timers then never ends, which its property says), the counter of a
  semaphore at 65535 (\<open>sem_release_wraps\<close>), messages shorter than what is asked for (\<open>mq_short_message_stale\<close>), a
  port opened with other flags or by 256 users (\<open>port_reopen_leaks\<close>, \<open>device_count_wraps\<close>), a neighbouring pin
  and a line of 80 characters (properties of their own), a static thread taken down
  (\<open>detached_stack_freed\<close>), a buffer of size 0 (\<open>size_zero_unbounded\<close>), the first scan after power-up
  (\<open>boot_start_undefined\<close>) and packets of no or too many samples (\<open>frame_length_undefined\<close>).

  \<^bold>\<open>Loops and fuel.\<close> No definition uses fuel. Loops over data are structural or have a measure; those
  that the code may not leave (the timer check, the searches of the heap, waking all waiters, the clean-up
  of the idle thread) are partial functions whose value \<open>None\<close> is not returning, and theorems show that
  they return where the invariants hold.

  \<^bold>\<open>Not modelled.\<close> Stacks, context switches and start-up (assembly of \<^verbatim>\<open>libcpu\<close>), the
  vendor HAL but for its pins, the components the car does not use,
  \<^verbatim>\<open>src/memheap.c\<close> and \<^verbatim>\<open>src/slab.c\<close> (unused by the configuration),
  the SPI and USB frameworks. Of the IMU application the temperature, which is floating point, and the thread around
  the vendor's motion driver. Soft timers, signals and modules are not compiled in.
\<close>

end
